(* ===== verification/Fes2_Prelude.thy ===== *)
theory Fes2_Prelude
  imports Main "HOL-Library.Word" "HOL-Library.Multiset"
begin

text \<open>
  Shared material of the development: the error values of the simulator, the result type and
  its sequencing operator, unsigned arithmetic with the wrap-around of C's \<open>uint\<close> written
  out, and the generic list lemmas (erasing an index, exchanging two indices, folding over an
  index range) that several components use.
\<close>

section \<open>Errors and results\<close>

text \<open>
  \<open>Assert_failed\<close> is a failed \<open>assert\<close> of common/Debug.h (the program aborts),
  \<open>Error_exit\<close> an \<open>ERROR\<close> or \<open>ERROR_MSG\<close> followed by the end of the program,
  \<open>Out_of_bounds\<close> an access of a \<open>std::vector\<close> past its end (undefined in C++),
  \<open>Undefined\<close> another operation that C++ leaves undefined (a shift by too many bits, a
  division by zero), and \<open>No_return\<close> a loop that does not end.
\<close>

datatype sim_error = Assert_failed | Error_exit | Out_of_bounds | Undefined | No_return

type_synonym 'a result = "sim_error + 'a"

named_theorems result_simps "unfolding rules of the result type"
named_theorems u32_simps "unsigned arithmetic within range"

definition rbind :: "'a result \<Rightarrow> ('a \<Rightarrow> 'b result) \<Rightarrow> 'b result" where
  "rbind m f = (case m of Inl e \<Rightarrow> Inl e | Inr x \<Rightarrow> f x)"

definition check :: "bool \<Rightarrow> sim_error \<Rightarrow> 'a result \<Rightarrow> 'a result" where
  "check b e r = (if b then r else Inl e)"

lemma rbind_Inr [simp]: "rbind (Inr x) f = f x"
  by (simp add: rbind_def)

lemma rbind_Inl [simp]: "rbind (Inl e) f = Inl e"
  by (simp add: rbind_def)

lemma rbind_eq_Inr [result_simps]:
  "(rbind m f = Inr y) \<longleftrightarrow> (\<exists>x. m = Inr x \<and> f x = Inr y)"
  by (cases m) auto

lemma rbindE:
  assumes "rbind m f = Inr y"
  obtains x where "m = Inr x" and "f x = Inr y"
  using assms by (auto simp: rbind_eq_Inr)

lemma rbind_cong [fundef_cong]:
  "m = m' \<Longrightarrow> (\<And>x. m' = Inr x \<Longrightarrow> f x = g x) \<Longrightarrow> rbind m f = rbind m' g"
  by (cases m') auto

lemma check_True [simp]: "check True e r = r"
  by (simp add: check_def)

lemma check_False [simp]: "check False e r = Inl e"
  by (simp add: check_def)

lemma check_eq_Inr [simp]: "(check b e r = Inr y) \<longleftrightarrow> b \<and> r = Inr y"
  by (simp add: check_def)

lemma check_cong [fundef_cong]:
  "b = b' \<Longrightarrow> e = e' \<Longrightarrow> (b' \<Longrightarrow> r = r') \<Longrightarrow> check b e r = check b' e' r'"
  by (simp add: check_def)

text \<open>Reading a \<open>std::vector\<close> or an array at an index: past the end is an error value.\<close>

definition at :: "'a list \<Rightarrow> nat \<Rightarrow> 'a result" where
  "at xs i = (if i < length xs then Inr (xs ! i) else Inl Out_of_bounds)"

lemma at_in [simp]: "i < length xs \<Longrightarrow> at xs i = Inr (xs ! i)"
  by (simp add: at_def)

lemma at_eq_Inr: "(at xs i = Inr x) \<longleftrightarrow> i < length xs \<and> x = xs ! i"
  by (auto simp: at_def)

text \<open>A loop over a list whose body may fail.\<close>

fun rfold :: "('a \<Rightarrow> 's \<Rightarrow> 's result) \<Rightarrow> 'a list \<Rightarrow> 's \<Rightarrow> 's result" where
  "rfold f [] s = Inr s"
| "rfold f (x # xs) s = rbind (f x s) (rfold f xs)"

lemma rfold_append: "rfold f (xs @ ys) s = rbind (rfold f xs s) (rfold f ys)"
  by (induction xs arbitrary: s) (auto simp: rbind_def split: sum.splits)

lemma rfold_invariant:
  assumes "rfold f xs s = Inr s'" and "P s"
    and "\<And>x s t. x \<in> set xs \<Longrightarrow> P s \<Longrightarrow> f x s = Inr t \<Longrightarrow> P t"
  shows "P s'"
  using assms
proof (induction xs arbitrary: s)
  case Nil
  then show ?case by simp
next
  case (Cons x xs)
  from Cons.prems(1) obtain t where t: "f x s = Inr t" "rfold f xs t = Inr s'"
    by (auto elim: rbindE)
  have "P t" using Cons.prems(2,3) t(1) by (meson list.set_intros(1))
  with Cons.IH [OF t(2)] Cons.prems(3) show ?case by (meson list.set_intros(2))
qed

lemma rfold_total:
  assumes "P s" and "\<And>x s. x \<in> set xs \<Longrightarrow> P s \<Longrightarrow> \<exists>t. f x s = Inr t \<and> P t"
  shows "\<exists>t. rfold f xs s = Inr t \<and> P t"
  using assms
proof (induction xs arbitrary: s)
  case Nil
  then show ?case by simp
next
  case (Cons x xs)
  obtain t where "f x s = Inr t" "P t"
    using Cons.prems by (meson list.set_intros(1))
  moreover obtain u where "rfold f xs t = Inr u" "P u"
    using Cons.IH [OF \<open>P t\<close>] Cons.prems(2) by (meson list.set_intros(2))
  ultimately show ?case by auto
qed

section \<open>Unsigned integers\<close>

text \<open>
  \<open>uint\<close> is 32 bits wide, \<open>uint64_t\<close> 64. A value is kept as a \<open>nat\<close> and every
  operation that can leave the range is written with its wrap-around. Cycle counters of 64
  bits (\<open>currentClockCycle\<close> and the time stamps compared with it) are plain naturals: they
  would wrap after \<open>2 ^ 64\<close> simulated cycles.
\<close>

definition u32_add :: "nat \<Rightarrow> nat \<Rightarrow> nat" where
  "u32_add a b = (a + b) mod 2 ^ 32"

definition u32_sub :: "nat \<Rightarrow> nat \<Rightarrow> nat" where
  "u32_sub a b = (a + (2 ^ 32 - b mod 2 ^ 32)) mod 2 ^ 32"

definition u32_mul :: "nat \<Rightarrow> nat \<Rightarrow> nat" where
  "u32_mul a b = (a * b) mod 2 ^ 32"

definition u32_dec :: "nat \<Rightarrow> nat" where
  "u32_dec a = u32_sub a 1"

definition u64_add :: "nat \<Rightarrow> nat \<Rightarrow> nat" where
  "u64_add a b = (a + b) mod 2 ^ 64"

lemma u32_add_small [u32_simps]: "a + b < 2 ^ 32 \<Longrightarrow> u32_add a b = a + b"
  by (simp add: u32_add_def)

lemma u32_sub_small [u32_simps]: "b \<le> a \<Longrightarrow> a < 2 ^ 32 \<Longrightarrow> u32_sub a b = a - b"
proof -
  assume "b \<le> a" "a < 2 ^ 32"
  then have "u32_sub a b = (a - b + 2 ^ 32) mod 2 ^ 32"
    by (simp add: u32_sub_def)
  with \<open>a < 2 ^ 32\<close> show ?thesis by simp
qed

lemma u32_mul_small [u32_simps]: "a * b < 2 ^ 32 \<Longrightarrow> u32_mul a b = a * b"
  by (simp add: u32_mul_def)

lemma u32_dec_pos [u32_simps]: "0 < a \<Longrightarrow> a < 2 ^ 32 \<Longrightarrow> u32_dec a = a - 1"
  by (simp add: u32_dec_def u32_sub_small)

lemma u32_dec_0: "u32_dec 0 = 2 ^ 32 - 1"
  by (simp add: u32_dec_def u32_sub_def)

lemma u32_bounds [simp]:
  "u32_add a b < 2 ^ 32" "u32_sub a b < 2 ^ 32" "u32_mul a b < 2 ^ 32" "u32_dec a < 2 ^ 32"
  by (simp_all add: u32_add_def u32_sub_def u32_mul_def u32_dec_def)

section \<open>Lists\<close>

text \<open>\<open>v.erase(v.begin() + i)\<close>.\<close>

definition erase :: "nat \<Rightarrow> 'a list \<Rightarrow> 'a list" where
  "erase i xs = take i xs @ drop (Suc i) xs"

lemma erase_Nil [simp]: "erase i [] = []"
  by (simp add: erase_def)

lemma erase_0 [simp]: "erase 0 xs = tl xs"
  by (simp add: erase_def drop_Suc)

lemma length_erase: "i < length xs \<Longrightarrow> length (erase i xs) = length xs - 1"
  by (simp add: erase_def)

lemma mset_erase: "i < length xs \<Longrightarrow> mset xs = add_mset (xs ! i) (mset (erase i xs))"
proof -
  assume i: "i < length xs"
  then have "mset xs = mset (take i xs @ xs ! i # drop (Suc i) xs)"
    by (simp add: id_take_nth_drop [symmetric])
  then show ?thesis by (simp add: erase_def)
qed

lemma set_erase: "set (erase i xs) \<subseteq> set xs"
  unfolding erase_def by (auto dest: in_set_takeD in_set_dropD)

lemma mset_exchange:
  "i < length xs \<Longrightarrow> j < length xs \<Longrightarrow> mset (xs[i := xs ! j, j := xs ! i]) = mset xs"
  by (rule mset_swap)

lemma length_filter_le_erase: "length (filter P (erase i xs)) \<le> length (filter P xs)"
proof -
  have "length (filter P xs)
      = length (filter P (take i xs)) + length (filter P (drop i xs))"
    by (metis append_take_drop_id filter_append length_append)
  moreover have "length (filter P (drop (Suc i) xs)) \<le> length (filter P (drop i xs))"
    by (cases "i < length xs") (auto simp: Cons_nth_drop_Suc [symmetric])
  ultimately show ?thesis by (simp add: erase_def)
qed

lemma nth_upd: "xs[i := x] ! j = (if i = j \<and> i < length xs then x else xs ! j)"
  by (cases "i < length xs") (auto simp: nth_list_update list_update_beyond)

lemma option_eqI: "(\<And>x. a = Some x \<longleftrightarrow> b = Some x) \<Longrightarrow> a = b"
  by (cases a; cases b) auto

lemma replicate_two: "replicate 2 x = [x, x]"
  by (simp add: numeral_2_eq_2)

lemma all_less_two: "(\<forall>i < 2. P i) \<longleftrightarrow> P 0 \<and> P (1 :: nat)"
  by (auto simp: less_2_cases_iff)

text \<open>The first index that satisfies a predicate: a search loop with a \<open>break\<close>.\<close>

fun find_index :: "('a \<Rightarrow> bool) \<Rightarrow> 'a list \<Rightarrow> nat option" where
  "find_index P [] = None"
| "find_index P (x # xs) = (if P x then Some 0 else map_option Suc (find_index P xs))"

lemma find_index_Some:
  "find_index P xs = Some i \<Longrightarrow> i < length xs \<and> P (xs ! i) \<and> (\<forall>j < i. \<not> P (xs ! j))"
proof (induction xs arbitrary: i)
  case (Cons x xs)
  then show ?case
    by (cases i) (auto split: if_splits simp: nth_Cons less_Suc_eq_0_disj)
qed simp

lemma find_index_None: "find_index P xs = None \<longleftrightarrow> (\<forall>x \<in> set xs. \<not> P x)"
  by (induction xs) auto

lemma find_index_exists: "x \<in> set xs \<Longrightarrow> P x \<Longrightarrow> \<exists>i. find_index P xs = Some i"
  by (metis find_index_None not_Some_eq)

end
