(* ===== verification/Vector.thy ===== *)
theory Vector
  imports Fes2_Prelude
begin

text \<open>
  The container of common/Vector.h: a heap array of \<open>m_max_size\<close> slots of which the first
  \<open>m_size\<close> are in use. The allocated array is the list \<open>vec\<close>, so \<open>m_max_size\<close> is its
  length; slots that are allocated and not written hold the value of \<open>new TYPE[n]\<close>, the
  parameter \<open>d\<close>. Indices are \<open>int\<close> and checked as in \<open>ref\<close>. The lemmas show that the
  operations implement those of lists through \<open>vlist\<close>.
\<close>

record 'a vector =
  vec :: "'a list"
  vsize :: nat

definition vempty :: "'a vector" where
  "vempty = \<lparr>vec = [], vsize = 0\<rparr>"

definition grow :: "'a \<Rightarrow> nat \<Rightarrow> 'a vector \<Rightarrow> 'a vector" where
  "grow d n v = v\<lparr>vec := take (vsize v) (vec v) @ replicate (n - vsize v) d\<rparr>"

definition vec_init :: "'a \<Rightarrow> nat \<Rightarrow> 'a vector" where
  "vec_init d n = grow d n \<lparr>vec = replicate n d, vsize = 0\<rparr>"

definition ref :: "int \<Rightarrow> 'a vector \<Rightarrow> 'a result" where
  "ref i v =
     check (vsize v \<noteq> 0) Assert_failed (
     check (i < int (vsize v)) Assert_failed (
     check (0 \<le> i) Assert_failed (Inr (vec v ! nat i))))"

definition set_ref :: "int \<Rightarrow> 'a \<Rightarrow> 'a vector \<Rightarrow> 'a vector result" where
  "set_ref i x v =
     check (vsize v \<noteq> 0) Assert_failed (
     check (i < int (vsize v)) Assert_failed (
     check (0 \<le> i) Assert_failed (Inr (v\<lparr>vec := (vec v)[nat i := x]\<rparr>))))"

definition setSize :: "'a \<Rightarrow> nat \<Rightarrow> 'a vector \<Rightarrow> 'a vector" where
  "setSize d n v =
     (let v' = (if n > length (vec v) then grow d (max ((length (vec v) + 1) * 2) n) v else v)
      in v'\<lparr>vsize := n\<rparr>)"

definition increaseSize :: "'a \<Rightarrow> nat \<Rightarrow> 'a \<Rightarrow> 'a vector \<Rightarrow> 'a vector result" where
  "increaseSize d n x v =
     check (vsize v \<le> n) Assert_failed (
       let v' = (if n \<ge> length (vec v) then grow d (max ((length (vec v) + 1) * 2) n) v else v)
       in rfold (\<lambda>j w. set_ref (int j) x w) [vsize v..<n] (v'\<lparr>vsize := n\<rparr>))"

definition vclear :: "'a vector \<Rightarrow> 'a vector" where
  "vclear v = \<lparr>vec = [], vsize = 0\<rparr>"

definition insertAtTop :: "'a \<Rightarrow> 'a \<Rightarrow> 'a vector \<Rightarrow> 'a vector result" where
  "insertAtTop d x v =
     rbind (rfold (\<lambda>i w. rbind (ref (int i - 1) w) (\<lambda>y. set_ref (int i) y w))
              (rev [1..<vsize v + 1]) (setSize d (vsize v + 1) v))
       (set_ref 0 x)"

definition removeFromTop :: "int \<Rightarrow> 'a vector \<Rightarrow> 'a vector" where
  "removeFromTop num v =
     (let k = nat (if num > int (vsize v) then int (vsize v) else num);
          v' = fold (\<lambda>i w. w\<lparr>vec := (vec w)[i := vec w ! (i + k)]\<rparr>) [0..<vsize v - k] v
      in v'\<lparr>vsize := vsize v - k\<rparr>)"

definition insertAtBottom :: "'a \<Rightarrow> 'a \<Rightarrow> 'a vector \<Rightarrow> 'a vector result" where
  "insertAtBottom d x v =
     (let v' = setSize d (vsize v + 1) v in set_ref (int (vsize v') - 1) x v')"

definition vsum :: "('a::plus) vector \<Rightarrow> 'a result" where
  "vsum v =
     check (vsize v > 0) Assert_failed (
     rbind (ref 0 v) (\<lambda>s.
     rfold (\<lambda>i acc. rbind (ref (int i) v) (\<lambda>y. Inr (acc + y))) [1..<vsize v] s))"

definition vcopy :: "'a \<Rightarrow> 'a vector \<Rightarrow> 'a vector" where
  "vcopy d v =
     \<lparr>vec = take (vsize v) (vec v) @ replicate (length (vec v) - vsize v) d, vsize = vsize v\<rparr>"

section \<open>Invariant and abstraction\<close>

definition vinv :: "'a vector \<Rightarrow> bool" where
  "vinv v \<longleftrightarrow> vsize v \<le> length (vec v)"

definition vlist :: "'a vector \<Rightarrow> 'a list" where
  "vlist v = take (vsize v) (vec v)"

lemma vinv_empty [simp]: "vinv vempty"
  by (simp add: vinv_def vempty_def)

lemma vlist_empty [simp]: "vlist vempty = []"
  by (simp add: vlist_def vempty_def)

lemma length_vlist [simp]: "vinv v \<Longrightarrow> length (vlist v) = vsize v"
  by (simp add: vlist_def vinv_def)

lemma ref_in_range:
  "vinv v \<Longrightarrow> 0 \<le> i \<Longrightarrow> i < int (vsize v) \<Longrightarrow> ref i v = Inr (vlist v ! nat i)"
  by (auto simp: ref_def vlist_def vinv_def check_def)

lemma ref_out_of_range: "i < 0 \<or> int (vsize v) \<le> i \<Longrightarrow> ref i v = Inl Assert_failed"
  by (auto simp: ref_def check_def)

lemma set_ref_in_range:
  assumes "vinv v" "0 \<le> i" "i < int (vsize v)"
  shows "set_ref i x v = Inr (v\<lparr>vec := (vec v)[nat i := x]\<rparr>)"
    and "vinv (v\<lparr>vec := (vec v)[nat i := x]\<rparr>)"
    and "vlist (v\<lparr>vec := (vec v)[nat i := x]\<rparr>) = (vlist v)[nat i := x]"
  using assms by (auto simp: set_ref_def check_def vinv_def vlist_def take_update_swap)

lemma ref_nat: "vinv v \<Longrightarrow> i < vsize v \<Longrightarrow> ref (int i) v = Inr (vlist v ! i)"
  using ref_in_range [of v "int i"] by simp

lemma set_ref_nat:
  assumes "vinv v" "i < vsize v"
  shows "set_ref (int i) x v = Inr (v\<lparr>vec := (vec v)[i := x]\<rparr>)"
    and "vinv (v\<lparr>vec := (vec v)[i := x]\<rparr>)"
    and "vlist (v\<lparr>vec := (vec v)[i := x]\<rparr>) = (vlist v)[i := x]"
  using set_ref_in_range [OF assms(1), of "int i" x] assms(2) by simp_all

lemma setSize_vinv: "vinv v \<Longrightarrow> vinv (setSize d n v)"
  by (auto simp: setSize_def vinv_def grow_def Let_def)

lemma setSize_vsize [simp]: "vsize (setSize d n v) = n"
  by (simp add: setSize_def Let_def)

lemma setSize_shrink: "vinv v \<Longrightarrow> n \<le> vsize v \<Longrightarrow> vlist (setSize d n v) = take n (vlist v)"
  by (simp add: setSize_def vlist_def vinv_def Let_def min_def)

lemma setSize_prefix:
  "vinv v \<Longrightarrow> vsize v \<le> n \<Longrightarrow> take (vsize v) (vlist (setSize d n v)) = vlist v"
  by (auto simp: setSize_def vlist_def vinv_def Let_def grow_def min_def)

lemma setSize_nth:
  "vinv v \<Longrightarrow> i < vsize v \<Longrightarrow> i < n \<Longrightarrow> vlist (setSize d n v) ! i = vlist v ! i"
  by (auto simp: setSize_def vlist_def vinv_def Let_def grow_def nth_append)

lemma insertAtBottom_ok:
  assumes "vinv v"
  shows "\<exists>w. insertAtBottom d x v = Inr w \<and> vinv w \<and> vlist w = vlist v @ [x]"
proof -
  let ?v = "setSize d (vsize v + 1) v"
  have i: "vinv ?v" using assms by (rule setSize_vinv)
  have r: "(0::int) \<le> int (vsize ?v) - 1" "int (vsize ?v) - 1 < int (vsize ?v)" by simp_all
  note s = set_ref_in_range [OF i r, of x]
  have "(vlist ?v)[nat (int (vsize ?v) - 1) := x] = vlist v @ [x]"
  proof (rule nth_equalityI)
    show "length ((vlist ?v)[nat (int (vsize ?v) - 1) := x]) = length (vlist v @ [x])"
      using assms i by simp
    fix k assume "k < length ((vlist ?v)[nat (int (vsize ?v) - 1) := x])"
    then have "k < vsize v + 1" using i by simp
    then show "(vlist ?v)[nat (int (vsize ?v) - 1) := x] ! k = (vlist v @ [x]) ! k"
      using assms i by (cases "k = vsize v") (auto simp: nth_append setSize_nth)
  qed
  with s show ?thesis by (auto simp: insertAtBottom_def Let_def)
qed

text \<open>The loop of \<open>insertAtTop\<close> moves every element one slot up, from the last slot down.\<close>

lemma shift_up_loop:
  assumes "vinv w" "k < vsize w"
  shows "\<exists>u. rfold (\<lambda>i w. rbind (ref (int i - 1) w) (\<lambda>y. set_ref (int i) y w)) (rev [1..<Suc k]) w
      = Inr u \<and> vinv u \<and> vsize u = vsize w
    \<and> (\<forall>j < vsize w. vlist u ! j = (if 1 \<le> j \<and> j \<le> k then vlist w ! (j - 1) else vlist w ! j))"
  using assms
proof (induction k arbitrary: w)
  case 0
  then show ?case by auto
next
  case (Suc k)
  let ?b = "\<lambda>i w. rbind (ref (int i - 1) w) (\<lambda>y. set_ref (int i) y w)"
  let ?w = "w\<lparr>vec := (vec w)[Suc k := vlist w ! k]\<rparr>"
  have r: "ref (int (Suc k) - 1) w = Inr (vlist w ! k)"
    using ref_in_range [OF Suc.prems(1), of "int (Suc k) - 1"] Suc.prems(2) by simp
  note s = set_ref_nat [OF Suc.prems, of "vlist w ! k"]
  have st: "?b (Suc k) w = Inr ?w" unfolding r rbind_Inr by (rule s(1))
  note wi = s(2) and wl = s(3)
  from Suc.IH [OF wi] Suc.prems(2) obtain u where
    u: "rfold ?b (rev [1..<Suc k]) ?w = Inr u" "vinv u" "vsize u = vsize w"
    and n: "\<forall>j < vsize w. vlist u ! j
      = (if 1 \<le> j \<and> j \<le> k then vlist ?w ! (j - 1) else vlist ?w ! j)" by auto
  have "rfold ?b (rev [1..<Suc (Suc k)]) w = Inr u"
    using st u(1) by simp
  moreover have "\<forall>j < vsize w. vlist u ! j
      = (if 1 \<le> j \<and> j \<le> Suc k then vlist w ! (j - 1) else vlist w ! j)"
    using n Suc.prems unfolding wl by (auto simp: nth_list_update le_Suc_eq)
  ultimately show ?case using u by blast
qed

lemma insertAtTop_ok:
  assumes "vinv v"
  shows "\<exists>w. insertAtTop d x v = Inr w \<and> vinv w \<and> vlist w = x # vlist v"
proof -
  let ?v = "setSize d (vsize v + 1) v"
  have i: "vinv ?v" using assms by (rule setSize_vinv)
  from shift_up_loop [OF i, of "vsize v"] obtain u where
    u: "rfold (\<lambda>i w. rbind (ref (int i - 1) w) (\<lambda>y. set_ref (int i) y w)) (rev [1..<Suc (vsize v)]) ?v
      = Inr u" "vinv u" "vsize u = Suc (vsize v)"
    and n: "\<forall>j < Suc (vsize v). vlist u ! j
      = (if 1 \<le> j \<and> j \<le> vsize v then vlist ?v ! (j - 1) else vlist ?v ! j)" by auto
  note s = set_ref_in_range [OF u(2), of 0 x]
  have "(vlist u)[0 := x] = x # vlist v"
  proof (rule nth_equalityI)
    show "length ((vlist u)[0 := x]) = length (x # vlist v)" using u assms by simp
    fix k assume "k < length ((vlist u)[0 := x])"
    then have k: "k < Suc (vsize v)" using u by simp
    then show "(vlist u)[0 := x] ! k = (x # vlist v) ! k"
      using n u assms by (cases k) (auto simp: setSize_nth)
  qed
  with s u show ?thesis by (simp add: insertAtTop_def)
qed

lemma shift_down_loop:
  assumes "m + k \<le> length xs"
  shows "fold (\<lambda>i ys. ys[i := ys ! (i + k)]) [0..<m] xs
    = take m (drop k xs) @ drop m xs"
  using assms
proof (induction m)
  case 0
  then show ?case by simp
next
  case (Suc m)
  let ?ys = "take m (drop k xs) @ drop m xs"
  have "?ys ! (m + k) = xs ! (m + k)" and l: "length (take m (drop k xs)) = m"
    using Suc.prems by (auto simp: nth_append)
  moreover have "drop m xs = xs ! m # drop (Suc m) xs"
    using Suc.prems by (simp add: Cons_nth_drop_Suc)
  ultimately have "?ys[m := ?ys ! (m + k)] = take m (drop k xs) @ xs ! (m + k) # drop (Suc m) xs"
    by (metis list_update_length)
  moreover have "take (Suc m) (drop k xs) = take m (drop k xs) @ [xs ! (m + k)]"
    using Suc.prems by (simp add: take_Suc_conv_app_nth add.commute)
  ultimately show ?case using Suc by simp
qed

lemma removeFromTop_ok:
  assumes "vinv v" "0 \<le> num"
  shows "vinv (removeFromTop num v)" and "vlist (removeFromTop num v) = drop (nat num) (vlist v)"
proof -
  define k where "k = nat (if num > int (vsize v) then int (vsize v) else num)"
  let ?f = "\<lambda>i w. w\<lparr>vec := (vec w)[i := vec w ! (i + k)]\<rparr>"
  have f: "fold ?f is w = w\<lparr>vec := fold (\<lambda>i ys. ys[i := ys ! (i + k)]) is (vec w)\<rparr>"
    for "is" and w :: "'a vector"
    by (induction "is" arbitrary: w) auto
  have k: "k \<le> vsize v" "nat num \<le> vsize v \<Longrightarrow> k = nat num" "vsize v \<le> nat num \<Longrightarrow> k = vsize v"
    using assms(2) by (auto simp: k_def)
  have e: "removeFromTop num v =
      v\<lparr>vec := fold (\<lambda>i ys. ys[i := ys ! (i + k)]) [0..<vsize v - k] (vec v), vsize := vsize v - k\<rparr>"
    by (simp add: removeFromTop_def Let_def f flip: k_def)
  have l: "vsize v - k + k \<le> length (vec v)"
    using assms(1) k(1) by (simp add: vinv_def)
  show "vinv (removeFromTop num v)"
    using assms(1) k(1) unfolding e shift_down_loop [OF l] by (simp add: vinv_def)
  have "vlist (removeFromTop num v) = drop k (vlist v)"
    using assms(1) k(1) unfolding e shift_down_loop [OF l]
    by (simp add: vlist_def vinv_def drop_take min_def)
  also have "\<dots> = drop (nat num) (vlist v)"
    using k assms(1) by (cases "nat num \<le> vsize v") auto
  finally show "vlist (removeFromTop num v) = drop (nat num) (vlist v)" .
qed

lemma vcopy_ok: "vinv v \<Longrightarrow> vinv (vcopy d v) \<and> vlist (vcopy d v) = vlist v"
  by (simp add: vcopy_def vinv_def vlist_def)

lemma vsum_ok:
  assumes "vinv v" "vsize v > 0"
  shows "vsum v = Inr (fold (\<lambda>y acc. acc + y) (tl (vlist v)) (hd (vlist v)))"
proof -
  have "rfold (\<lambda>i acc. rbind (ref (int i) v) (\<lambda>y. Inr (acc + y))) [1..<Suc m] s
      = Inr (fold (\<lambda>y acc. acc + y) (take m (tl (vlist v))) s)" if "m < vsize v" for m s
    using that
  proof (induction m)
    case 0
    then show ?case by simp
  next
    case (Suc m)
    have r: "ref (int (Suc m)) v = Inr (vlist v ! Suc m)"
      using assms(1) Suc.prems by (rule ref_nat)
    have "take (Suc m) (tl (vlist v)) = take m (tl (vlist v)) @ [vlist v ! Suc m]"
      using Suc.prems assms(1) by (simp add: take_Suc_conv_app_nth nth_tl)
    moreover have "rfold (\<lambda>i acc. rbind (ref (int i) v) (\<lambda>y. Inr (acc + y))) [1..<Suc (Suc m)] s
      = rbind (rfold (\<lambda>i acc. rbind (ref (int i) v) (\<lambda>y. Inr (acc + y))) [1..<Suc m] s)
          (rfold (\<lambda>i acc. rbind (ref (int i) v) (\<lambda>y. Inr (acc + y))) [Suc m])"
      by (simp add: rfold_append [symmetric])
    ultimately show ?case using Suc r by (simp del: of_nat_Suc)
  qed
  from this [of "vsize v - 1"] assms(2)
  have "rfold (\<lambda>i acc. rbind (ref (int i) v) (\<lambda>y. Inr (acc + y))) [1..<vsize v] s
      = Inr (fold (\<lambda>y acc. acc + y) (tl (vlist v)) s)" for s
    using assms(1) by simp
  moreover have "ref 0 v = Inr (hd (vlist v))"
    using ref_in_range [OF assms(1), of 0] assms by (simp add: hd_conv_nth flip: length_greater_0_conv)
  ultimately show ?thesis using assms(2) by (simp add: vsum_def)
qed

lemma increaseSize_ok:
  assumes "vinv v" "vsize v \<le> n"
  shows "\<exists>w. increaseSize d n x v = Inr w \<and> vinv w
    \<and> vlist w = vlist v @ replicate (n - vsize v) x"
proof -
  let ?b = "\<lambda>j w. set_ref (int j) x w"
  define u where "u = (if n \<ge> length (vec v) then grow d (max ((length (vec v) + 1) * 2) n) v
    else v)\<lparr>vsize := n\<rparr>"
  have ui: "vinv u" "vsize u = n" and up: "take (vsize v) (vlist u) = vlist v"
    using assms by (auto simp: u_def vinv_def grow_def vlist_def min_def)
  have "\<exists>w. rfold ?b [vsize v..<vsize v + k] u = Inr w \<and> vinv w \<and> vsize w = n
      \<and> take (vsize v + k) (vlist w) = vlist v @ replicate k x" if "vsize v + k \<le> n" for k
    using that
  proof (induction k)
    case 0
    then show ?case using ui up by auto
  next
    case (Suc k)
    then obtain w where w: "rfold ?b [vsize v..<vsize v + k] u = Inr w" "vinv w" "vsize w = n"
      "take (vsize v + k) (vlist w) = vlist v @ replicate k x" by auto
    have kw: "vsize v + k < vsize w" using Suc.prems w(3) by simp
    note s = set_ref_nat [OF w(2) kw, of x]
    let ?w = "w\<lparr>vec := (vec w)[vsize v + k := x]\<rparr>"
    have "rfold ?b [vsize v..<vsize v + Suc k] u = Inr ?w"
      using w s Suc.prems by (simp add: rfold_append del: of_nat_add)
    moreover have "take (vsize v + Suc k) ((vlist w)[vsize v + k := x])
        = take (vsize v + k) (vlist w) @ [x]"
      using Suc.prems w by (simp add: take_Suc_conv_app_nth)
    ultimately show ?case using w s Suc.prems
      by (auto simp: replicate_append_same)
  qed
  from this [of "n - vsize v"] assms(2) obtain w where
    w: "rfold ?b [vsize v..<n] u = Inr w" "vinv w" "vsize w = n"
      "take n (vlist w) = vlist v @ replicate (n - vsize v) x" by auto
  with assms(2) show ?thesis
    by (auto simp: increaseSize_def Let_def u_def)
qed

section \<open>Vectors as lists\<close>

text \<open>
  A component whose vectors keep their size uses the list of the elements, with the index
  check of \<open>ref\<close>.
\<close>

definition lref :: "nat \<Rightarrow> 'a list \<Rightarrow> 'a result" where
  "lref i xs = (if i < length xs then Inr (xs ! i) else Inl Assert_failed)"

definition lput :: "nat \<Rightarrow> 'a \<Rightarrow> 'a list \<Rightarrow> 'a list result" where
  "lput i x xs = (if i < length xs then Inr (xs[i := x]) else Inl Assert_failed)"

lemma lref_in [simp]: "i < length xs \<Longrightarrow> lref i xs = Inr (xs ! i)"
  by (simp add: lref_def)

lemma lput_in [simp]: "i < length xs \<Longrightarrow> lput i x xs = Inr (xs[i := x])"
  by (simp add: lput_def)

lemma lref_eq_Inr [result_simps]: "lref i xs = Inr x \<longleftrightarrow> i < length xs \<and> x = xs ! i"
  by (auto simp: lref_def)

lemma lput_eq_Inr [result_simps]: "lput i x xs = Inr ys \<longleftrightarrow> i < length xs \<and> ys = xs[i := x]"
  by (auto simp: lput_def)

lemma ref_vlist: "vinv v \<Longrightarrow> ref (int i) v = lref i (vlist v)"
  using ref_nat [of v i] ref_out_of_range [of "int i" v] by (auto simp: lref_def)

lemma set_ref_vlist:
  "vinv v \<Longrightarrow> map_sum id vlist (set_ref (int i) x v) = lput i x (vlist v)"
  using set_ref_nat [of v i x] by (auto simp: lput_def set_ref_def check_def)

text \<open>The loop \<open>for (i = 0; i < n; i++) v[i] = f(i, v[i])\<close>.\<close>

definition for_each_slot :: "(nat \<Rightarrow> 'a \<Rightarrow> 'a result) \<Rightarrow> 'a list \<Rightarrow> 'a list result" where
  "for_each_slot f xs =
     rfold (\<lambda>i ys. rbind (lref i ys) (\<lambda>y. rbind (f i y) (\<lambda>z. lput i z ys))) [0..<length xs] xs"

lemma for_each_slot_ok:
  assumes "\<And>i. i < length xs \<Longrightarrow> f i (xs ! i) = Inr (g i)"
  shows "for_each_slot f xs = Inr (map g [0..<length xs])"
proof -
  let ?b = "\<lambda>i ys. rbind (lref i ys) (\<lambda>y. rbind (f i y) (\<lambda>z. lput i z ys))"
  have "n \<le> length xs \<Longrightarrow> rfold ?b [0..<n] xs = Inr (map g [0..<n] @ drop n xs)" for n
  proof (induction n)
    case (Suc n)
    then have n: "n < length xs" by simp
    have "?b n (map g [0..<n] @ drop n xs) = Inr (map g [0..<Suc n] @ drop (Suc n) xs)"
      using n assms [OF n]
      by (simp add: nth_append Cons_nth_drop_Suc [symmetric] list_update_append)
    then show ?case using Suc by (simp add: rfold_append)
  qed simp
  from this [of "length xs"] show ?thesis by (simp add: for_each_slot_def)
qed

lemma for_each_slot_rel:
  assumes "\<And>i. i < length xs \<Longrightarrow> \<exists>y. f i (xs ! i) = Inr y \<and> P i y"
  obtains ys where "for_each_slot f xs = Inr ys" "length ys = length xs"
    "\<And>i. i < length xs \<Longrightarrow> P i (ys ! i)"
proof -
  obtain g where g: "\<And>i. i < length xs \<Longrightarrow> f i (xs ! i) = Inr (g i) \<and> P i (g i)"
    using assms by metis
  show ?thesis
    by (rule that [OF for_each_slot_ok [of xs f g]]) (auto simp: g)
qed

text \<open>The search loop \<open>for (i = ...) if (P(v[i])) return i;\<close> over a list of indices.\<close>

fun search :: "('a \<Rightarrow> bool) \<Rightarrow> nat list \<Rightarrow> 'a list \<Rightarrow> nat option result" where
  "search P [] xs = Inr None"
| "search P (i # is) xs = rbind (lref i xs) (\<lambda>x. if P x then Inr (Some i) else search P is xs)"

lemma search_Suc: "search P (map Suc is) (x # xs) = map_sum id (map_option Suc) (search P is xs)"
  by (induction "is") (auto simp: lref_def)

lemma search_all: "search P [0..<length xs] xs = Inr (find_index P xs)"
proof (induction xs)
  case (Cons x xs)
  have "[0..<length (x # xs)] = 0 # map Suc [0..<length xs]"
    by (simp add: upt_conv_Cons map_Suc_upt del: upt_Suc)
  then show ?case using Cons by (simp add: search_Suc del: upt_Suc)
qed simp

end
