(* ===== verification/Address.thy ===== *)
theory Address
  imports Fes2_Prelude
begin

text \<open>
  Physical addresses, common/Address.h: 64-bit words, the selection and masking of bits, and
  the split of an address into a block address and an offset. The lemmas give the numerical
  meaning of the bit operations.
\<close>

unbundle bit_operations_syntax

type_synonym address = "64 word"

definition ADDRESS_WIDTH :: int where "ADDRESS_WIDTH = 64"

definition DATA_BLOCK_BITS :: int where "DATA_BLOCK_BITS = 6"

definition bitSelect :: "int \<Rightarrow> int \<Rightarrow> address \<Rightarrow> address result" where
  "bitSelect small big a =
     check (big + 1 \<ge> small) Assert_failed (
     check (0 \<le> small \<and> small < 64 \<and> 0 \<le> big + 1) Undefined (
     if big \<ge> ADDRESS_WIDTH - 1 then Inr (drop_bit (nat small) a)
     else
       (let msk = NOT (push_bit (nat (big + 1)) (NOT 0));
            partial = a AND msk
        in Inr (drop_bit (nat small) partial))))"

definition maskLowOrderBits :: "nat \<Rightarrow> address \<Rightarrow> address" where
  "maskLowOrderBits n a =
     (let msk = (if int n \<ge> ADDRESS_WIDTH - 1 then NOT 0 else push_bit n (NOT 0)) in a AND msk)"

definition shiftLowOrderBits :: "nat \<Rightarrow> address \<Rightarrow> address result" where
  "shiftLowOrderBits n a = check (n < 64) Undefined (Inr (drop_bit n a))"

definition isBlockAligned :: "address \<Rightarrow> bool" where
  "isBlockAligned a \<longleftrightarrow> a = maskLowOrderBits (nat DATA_BLOCK_BITS) a"

definition getLineAddress :: "address \<Rightarrow> address" where
  "getLineAddress a = maskLowOrderBits (nat DATA_BLOCK_BITS) a"

definition getOffset :: "address \<Rightarrow> address result" where
  "getOffset a = bitSelect 0 (DATA_BLOCK_BITS - 1) a"

definition makeLineAddress :: "address \<Rightarrow> address" where
  "makeLineAddress a = maskLowOrderBits (nat DATA_BLOCK_BITS) a"

definition line_address :: "address \<Rightarrow> address" where
  "line_address a = (let temp = a in makeLineAddress temp)"

section \<open>The numbers behind the bits\<close>

lemma not_push_not: "NOT (push_bit n (NOT 0)) = (mask n :: address)"
  by (rule bit_eqI) (simp add: bit_simps)

lemma bitSelect_mask:
  assumes "s \<le> b + 1" "b + 1 < 64"
  shows "bitSelect (int s) (int b) a = Inr (drop_bit s (take_bit (b + 1) a))"
proof -
  have "nat (int b + 1) = b + 1" by simp
  moreover have "int b < 63" using assms(2) by simp
  moreover have "int s \<le> int b + 1" "int s < 64" using assms by auto
  ultimately show ?thesis
    unfolding bitSelect_def ADDRESS_WIDTH_def Let_def
    by (simp add: not_push_not take_bit_eq_mask)
qed

lemma unat_take_bit64: "unat (take_bit n a) = unat a mod 2 ^ n" for a :: address
  unfolding unsigned_take_bit_eq by (rule take_bit_eq_mod)

lemma unat_drop_bit64: "unat (drop_bit n a) = unat a div 2 ^ n" for a :: address
  unfolding unat_drop_bit_eq by (rule drop_bit_eq_div)

lemma unat_push_bit64: "unat (push_bit n a) = take_bit 64 (unat a * 2 ^ n)" for a :: address
  unfolding unsigned_push_bit_eq by (simp add: push_bit_eq_mult)

text \<open>The value of the selected bits.\<close>

lemma bitSelect_value:
  assumes "s \<le> b + 1" "b + 1 < 64"
  shows "\<exists>w. bitSelect (int s) (int b) a = Inr w \<and> unat w = unat a mod 2 ^ (b + 1) div 2 ^ s"
  unfolding bitSelect_mask [OF assms] by (auto simp only: unat_drop_bit64 unat_take_bit64)

lemma bitSelect_top:
  "s < 64 \<Longrightarrow> 63 \<le> b \<Longrightarrow> bitSelect (int s) b a = Inr (drop_bit s a)"
  by (simp add: bitSelect_def ADDRESS_WIDTH_def check_def)

lemma bitSelect_fail: "b + 1 < s \<Longrightarrow> bitSelect s b a = Inl Assert_failed"
  by (simp add: bitSelect_def)

lemma bitSelect_bound:
  assumes "s \<le> b + 1" "b + 1 < 64" "bitSelect (int s) (int b) a = Inr w"
  shows "unat w < 2 ^ (b + 1 - s)"
proof -
  have "unat w = unat a mod 2 ^ (b + 1) div 2 ^ s" using bitSelect_value [OF assms(1,2), of a] assms(3) by auto
  also have "\<dots> < 2 ^ (b + 1 - s)"
    using assms(1) by (simp add: div_less_iff_less_mult power_add [symmetric] del: power_Suc)
  finally show ?thesis .
qed

lemma line_address_mask: "line_address a = a AND NOT (mask 6)"
proof -
  have "push_bit 6 (NOT 0) = (NOT (mask 6) :: address)" by (rule bit_eqI) (simp add: bit_simps)
  then show ?thesis
    by (simp add: line_address_def makeLineAddress_def maskLowOrderBits_def DATA_BLOCK_BITS_def
        ADDRESS_WIDTH_def Let_def)
qed

lemma line_address_idem [simp]: "line_address (line_address a) = line_address a"
  by (simp add: line_address_mask ac_simps)

lemma line_address_bits: "line_address a = push_bit 6 (drop_bit 6 a)"
  unfolding line_address_mask by (rule bit_eqI) (auto simp: bit_simps dest: bit_imp_le_length)

lemma unat_line_address: "unat (line_address a) = unat a div 64 * 64"
proof -
  have "unat (line_address a) = take_bit 64 (unat a div 64 * 64)"
    unfolding line_address_bits unat_push_bit64 unat_drop_bit64 by simp
  also have "\<dots> = unat a div 64 * 64"
  proof (rule take_bit_nat_eq_self)
    have "unat a div 64 * 64 \<le> unat a" by simp
    also have "unat a < 2 ^ 64" using unsigned_less [of a] by simp
    finally show "unat a div 64 * 64 < 2 ^ 64" .
  qed
  finally show ?thesis .
qed

lemma getOffset_value: "\<exists>w. getOffset a = Inr w \<and> unat w = unat a mod 64"
proof -
  have "getOffset a = bitSelect (int 0) (int 5) a" by (simp add: getOffset_def DATA_BLOCK_BITS_def)
  moreover have "\<exists>w. bitSelect (int 0) (int 5) a = Inr w \<and> unat w = unat a mod 2 ^ (5 + 1) div 2 ^ 0"
    by (rule bitSelect_value) auto
  ultimately show ?thesis by auto
qed

lemma line_address_eq_iff: "line_address a = line_address b \<longleftrightarrow> unat a div 64 = unat b div 64"
  by (metis nonzero_mult_div_cancel_right unat_line_address word_unat_eq_iff zero_neq_numeral)

lemma isBlockAligned_iff: "isBlockAligned a \<longleftrightarrow> 64 dvd unat a"
proof -
  have "isBlockAligned a \<longleftrightarrow> a = line_address a"
    by (simp add: isBlockAligned_def line_address_def makeLineAddress_def)
  also have "\<dots> \<longleftrightarrow> unat a = unat a div 64 * 64"
    by (metis unat_line_address word_unat_eq_iff)
  finally show ?thesis by (metis dvd_div_mult_self dvd_triv_right)
qed

text \<open>
  At the upper end the two operations treat the width differently: \<open>maskLowOrderBits\<close> masks
  nothing when it is asked for 63 bits or more.
\<close>

lemma maskLowOrderBits_wide: "63 \<le> n \<Longrightarrow> maskLowOrderBits n a = a"
  by (simp add: maskLowOrderBits_def ADDRESS_WIDTH_def)

lemma maskLowOrderBits_value:
  assumes "n < 63"
  shows "unat (maskLowOrderBits n a) = unat a div 2 ^ n * 2 ^ n"
proof -
  have "maskLowOrderBits n a = push_bit n (drop_bit n a)"
    using assms unfolding maskLowOrderBits_def ADDRESS_WIDTH_def Let_def
    by (intro bit_eqI) (auto simp: bit_simps dest: bit_imp_le_length)
  then have "unat (maskLowOrderBits n a) = take_bit 64 (unat a div 2 ^ n * 2 ^ n)"
    by (simp only: unat_push_bit64 unat_drop_bit64)
  also have "\<dots> = unat a div 2 ^ n * 2 ^ n"
  proof (rule take_bit_nat_eq_self)
    have "unat a div 2 ^ n * 2 ^ n \<le> unat a" by simp
    also have "unat a < 2 ^ 64" using unsigned_less [of a] by simp
    finally show "unat a div 2 ^ n * 2 ^ n < 2 ^ 64" .
  qed
  finally show ?thesis .
qed

text \<open>The conversion of a small unsigned value to the signed type \<open>Index\<close>.\<close>

lemma sint_small: "unat w < 2 ^ 63 \<Longrightarrow> sint w = int (unat w)" for w :: address
proof -
  assume "unat w < 2 ^ 63"
  then have "int (unat w) < int (2 ^ 63)" by (simp only: of_nat_less_iff)
  then have "uint w < 2 ^ 63" by simp
  then have "signed_take_bit 63 (uint w) = uint w"
    by (intro signed_take_bit_int_eq_self) (auto intro: order_trans [OF _ uint_nonnegative])
  then show ?thesis by (simp add: sint_uint)
qed

end
