(* ===== verification/DataBlock.thy ===== *)
theory DataBlock
  imports Vector Address
begin

text \<open>
  Data blocks and sub-blocks of ruby/common: the bytes of a cache line, and the bytes that one request
  reads or writes. The run-time parameters that the data, the sequencers and the testers use are the record
  \<open>ruby_params\<close>. The lemmas say which bytes of a line a sub-block is merged from and to, on every line.
\<close>

record ruby_params =
  DATA_BLOCK :: bool
  BLOCK_BITS :: nat
  NUM_PROCESSORS :: nat
  SEQUENCER_OUTSTANDING_REQUESTS :: int
  SEQUENCER_TO_CONTROLLER_LATENCY :: int
  INSTR_PREFETCH_NUM_LINES :: nat
  DEADLOCK_THRESHOLD :: int
  RANDOM_LATENCY :: bool
  TESTER_LENGTH :: int
  SYNTHETIC_LOCKS :: nat
  THINK_TIME :: int
  WAIT_TIME :: int
  HOLD_TIME :: int

type_synonym byte = "8 word"
type_synonym data_block = "byte list"

record sub_block =
  sb_address :: address
  sb_data :: "byte list"

section \<open>Operations\<close>

definition db_clear :: "data_block \<Rightarrow> data_block" where
  "db_clear d = map (\<lambda>_. 0) d"

text \<open>The constructor. A new \<open>Vector\<close> of bytes has no particular contents until \<open>clear\<close>.\<close>

definition new_data_block :: "ruby_params \<Rightarrow> data_block" where
  "new_data_block P = db_clear (if DATA_BLOCK P then replicate (2 ^ BLOCK_BITS P) 0 else [])"

definition db_equal :: "data_block \<Rightarrow> data_block \<Rightarrow> bool result" where
  "db_equal d obj =
     rfold (\<lambda>i value. if value then rbind (lref i d) (\<lambda>x. rbind (lref i obj) (\<lambda>y. Inr (x = y))) else Inr False)
       [0..<length d] True"

definition db_getByte :: "ruby_params \<Rightarrow> data_block \<Rightarrow> nat \<Rightarrow> byte result" where
  "db_getByte P d i = (if DATA_BLOCK P then lref i d else Inr 0)"

definition db_setByte :: "ruby_params \<Rightarrow> nat \<Rightarrow> byte \<Rightarrow> data_block \<Rightarrow> data_block result" where
  "db_setByte P i x d = (if DATA_BLOCK P then lput i x d else Inr d)"

definition sb_getByte :: "sub_block \<Rightarrow> nat \<Rightarrow> byte result" where
  "sb_getByte s i = lref i (sb_data s)"

definition sb_setByte :: "nat \<Rightarrow> byte \<Rightarrow> sub_block \<Rightarrow> sub_block result" where
  "sb_setByte i x s = rbind (lput i x (sb_data s)) (\<lambda>xs. Inr (s\<lparr>sb_data := xs\<rparr>))"

definition readByte :: "sub_block \<Rightarrow> byte result" where
  "readByte s = sb_getByte s 0"

definition writeByte :: "byte \<Rightarrow> sub_block \<Rightarrow> sub_block result" where
  "writeByte x s = sb_setByte 0 x s"

definition SubBlock :: "address \<Rightarrow> nat \<Rightarrow> sub_block result" where
  "SubBlock addr sz =
     rfold (\<lambda>i. sb_setByte i 0) [0..<sz] \<lparr>sb_address = addr, sb_data = replicate sz 0\<rparr>"

definition mergeFrom :: "ruby_params \<Rightarrow> data_block \<Rightarrow> sub_block \<Rightarrow> sub_block result" where
  "mergeFrom P d s =
     (if DATA_BLOCK P then
        check (length (sb_data s) > 0) Assert_failed (
        rbind (getOffset (sb_address s)) (\<lambda>offset.
        rfold (\<lambda>i s. rbind (db_getByte P d (unat offset + i)) (\<lambda>x. sb_setByte i x s)) [0..<length (sb_data s)] s))
      else Inr s)"

definition mergeTo :: "ruby_params \<Rightarrow> sub_block \<Rightarrow> data_block \<Rightarrow> data_block result" where
  "mergeTo P s d =
     (if DATA_BLOCK P then
        check (length (sb_data s) > 0) Assert_failed (
        rbind (getOffset (sb_address s)) (\<lambda>offset.
        rfold (\<lambda>i d. rbind (sb_getByte s i) (\<lambda>x. db_setByte P (unat offset + i) x d)) [0..<length (sb_data s)] d))
      else Inr d)"

section \<open>Bytes of a line\<close>

definition offset :: "address \<Rightarrow> nat" where
  "offset a = unat a mod 64"

definition slice :: "nat \<Rightarrow> nat \<Rightarrow> 'a list \<Rightarrow> 'a list" where
  "slice i n xs = take n (drop i xs)"

definition splice :: "nat \<Rightarrow> 'a list \<Rightarrow> 'a list \<Rightarrow> 'a list" where
  "splice i ys xs = take i xs @ ys @ drop (i + length ys) xs"

lemma length_slice [simp]: "i + n \<le> length xs \<Longrightarrow> length (slice i n xs) = n"
  by (simp add: slice_def)

lemma length_splice [simp]: "i + length ys \<le> length xs \<Longrightarrow> length (splice i ys xs) = length xs"
  by (simp add: splice_def)

lemma nth_slice: "i + n \<le> length xs \<Longrightarrow> k < n \<Longrightarrow> slice i n xs ! k = xs ! (i + k)"
  by (simp add: slice_def)

lemma nth_splice:
  "i + length ys \<le> length xs \<Longrightarrow> k < length xs \<Longrightarrow>
     splice i ys xs ! k = (if i \<le> k \<and> k < i + length ys then ys ! (k - i) else xs ! k)"
  by (auto simp: splice_def nth_append)

lemma getOffset_offset: "\<exists>o'. getOffset a = Inr o' \<and> unat o' = offset a"
  using getOffset_value [of a] by (simp add: offset_def)

lemma rfold_fill:
  assumes "\<And>i xs. i < n \<Longrightarrow> length xs = n \<Longrightarrow> f i (mk xs) = Inr (mk (xs[i := ys ! i]))" "length ys = n"
  shows "length xs = n \<Longrightarrow> rfold f [0..<n] (mk xs) = Inr (mk ys)"
proof -
  assume l: "length xs = n"
  have "rfold f [0..<k] (mk xs) = Inr (mk (take k ys @ drop k xs))" if "k \<le> n" for k
    using that
  proof (induction k)
    case (Suc k)
    have "(take k ys @ drop k xs)[k := ys ! k] = take (Suc k) ys @ drop (Suc k) xs"
      using Suc.prems l assms(2)
      by (simp add: list_update_append take_Suc_conv_app_nth Cons_nth_drop_Suc [symmetric])
    then show ?case using Suc assms l by (simp add: rfold_append)
  qed simp
  from this [of n] show ?thesis using l assms(2) by simp
qed

lemma SubBlock_ok: "SubBlock a n = Inr \<lparr>sb_address = a, sb_data = replicate n 0\<rparr>"
  unfolding SubBlock_def
  by (rule rfold_fill [where mk = "\<lambda>xs. \<lparr>sb_address = a, sb_data = xs\<rparr>"]) (simp_all add: sb_setByte_def)

lemma mergeFrom_ok:
  assumes "DATA_BLOCK P" "0 < length (sb_data s)" "offset (sb_address s) + length (sb_data s) \<le> length d"
  shows "mergeFrom P d s = Inr (s\<lparr>sb_data := slice (offset (sb_address s)) (length (sb_data s)) d\<rparr>)"
proof -
  obtain o' where o: "getOffset (sb_address s) = Inr o'" "unat o' = offset (sb_address s)" using getOffset_offset by blast
  let ?n = "length (sb_data s)"
  have "rfold (\<lambda>i s. rbind (db_getByte P d (unat o' + i)) (\<lambda>x. sb_setByte i x s)) [0..<?n] (s\<lparr>sb_data := sb_data s\<rparr>)
      = Inr (s\<lparr>sb_data := slice (offset (sb_address s)) ?n d\<rparr>)"
    by (rule rfold_fill [where mk = "\<lambda>xs. s\<lparr>sb_data := xs\<rparr>"])
      (use assms in \<open>simp_all add: db_getByte_def sb_setByte_def o(2) nth_slice\<close>)
  then show ?thesis using assms o by (simp add: mergeFrom_def)
qed

lemma mergeTo_ok:
  assumes "DATA_BLOCK P" "0 < length (sb_data s)" "offset (sb_address s) + length (sb_data s) \<le> length d"
  shows "mergeTo P s d = Inr (splice (offset (sb_address s)) (sb_data s) d)"
proof -
  obtain o' where o: "getOffset (sb_address s) = Inr o'" "unat o' = offset (sb_address s)" using getOffset_offset by blast
  let ?n = "length (sb_data s)" and ?o = "offset (sb_address s)"
  have "rfold (\<lambda>i d. rbind (sb_getByte s i) (\<lambda>x. db_setByte P (unat o' + i) x d)) [0..<k] d
      = Inr (splice ?o (take k (sb_data s)) d)" if "k \<le> ?n" for k
    using that
  proof (induction k)
    case 0
    then show ?case by (simp add: splice_def)
  next
    case (Suc k)
    have "(splice ?o (take k (sb_data s)) d)[?o + k := sb_data s ! k] = splice ?o (take (Suc k) (sb_data s)) d"
      using Suc.prems assms(3) by (intro nth_equalityI) (auto simp: nth_splice nth_list_update)
    then show ?case using Suc assms o(2) by (simp add: rfold_append sb_getByte_def db_setByte_def)
  qed
  from this [of ?n] show ?thesis using assms o by (simp add: mergeTo_def)
qed

lemma db_equal_ok:
  assumes "length d = length d'"
  shows "db_equal d d' = Inr (d = d')"
proof -
  have "rfold (\<lambda>i value. if value then rbind (lref i d) (\<lambda>x. rbind (lref i d') (\<lambda>y. Inr (x = y))) else Inr False)
      [0..<k] True = Inr (take k d = take k d')" if "k \<le> length d" for k
    using that
  proof (induction k)
    case (Suc k)
    then show ?case using assms by (simp add: rfold_append take_Suc_conv_app_nth)
  qed simp
  from this [of "length d"] show ?thesis using assms by (simp add: db_equal_def)
qed

end
