(* ===== verification/PrioHeap.thy ===== *)
theory PrioHeap
  imports Vector
begin

text \<open>
  The binary heap of common/PrioHeap.h. The elements are at the indices \<open>1\<close> to
  \<open>m_current_size\<close> of the vector \<open>m_heap\<close>; slot 0 is only initialised. The order is the
  parameter \<open>le\<close>, the overloaded \<open>node_less_then_eq\<close> of the element type. The theory
  proves that no access of the operations is out of bounds, that \<open>insert\<close> and
  \<open>extractMin\<close> keep the heap property, and that they implement a multiset with removal of
  a minimum: the contract \<open>min_queue\<close>, which the event queue and the message buffers use.
\<close>

record 'a prioheap =
  m_heap :: "'a vector"
  m_current_size :: nat

definition heap_init :: "'a prioheap" where
  "heap_init = \<lparr>m_heap = vempty, m_current_size = 0\<rparr>"

definition heap_size :: "'a prioheap \<Rightarrow> nat" where
  "heap_size h = m_current_size h"

definition get_parent :: "nat \<Rightarrow> nat" where
  "get_parent i = drop_bit 1 i"

definition get_right :: "nat \<Rightarrow> nat" where
  "get_right i = or (push_bit 1 i) 1"

definition get_left :: "nat \<Rightarrow> nat" where
  "get_left i = push_bit 1 i"

lemma get_parent_div: "get_parent i = i div 2"
  by (simp add: get_parent_def drop_bit_Suc)

lemma get_left_double: "get_left i = 2 * i"
  by (simp add: get_left_def push_bit_eq_mult)

lemma get_right_double: "get_right i = 2 * i + 1"
proof -
  have "or (2 * i) (1::nat) = 2 * i + of_bool (even (2 * i))"
    by (rule or_one_eq)
  then show ?thesis by (simp add: get_right_def push_bit_eq_mult mult.commute)
qed

lemmas heap_index = get_parent_div get_left_double get_right_double

definition prio_heap_swap :: "nat \<Rightarrow> nat \<Rightarrow> 'a vector \<Rightarrow> 'a vector result" where
  "prio_heap_swap i j v =
     rbind (ref (int i) v) (\<lambda>temp.
     rbind (ref (int j) v) (\<lambda>y.
     rbind (set_ref (int i) y v) (\<lambda>v'. set_ref (int j) temp v')))"

text \<open>The \<open>while\<close> loop of \<open>insert\<close>, from slot \<open>i\<close>, with the final store of the key.\<close>

function sift_up :: "('a \<Rightarrow> 'a \<Rightarrow> bool) \<Rightarrow> 'a \<Rightarrow> nat \<Rightarrow> 'a vector \<Rightarrow> 'a vector result" where
  "sift_up le key i v =
     (if i > 1 then
        rbind (ref (int (get_parent i)) v) (\<lambda>p.
        if le key p then
          rbind (set_ref (int i) p v) (\<lambda>v'. sift_up le key (get_parent i) v')
        else set_ref (int i) key v)
      else set_ref (int i) key v)"
  by pat_completeness auto
termination
  by (relation "measure (\<lambda>(le, key, i, v). i)") (auto simp: heap_index)

definition heap_insert :: "('a \<Rightarrow> 'a \<Rightarrow> bool) \<Rightarrow> 'a \<Rightarrow> 'a \<Rightarrow> 'a prioheap \<Rightarrow> 'a prioheap result" where
  "heap_insert le d key h =
     (let n = m_current_size h + 1;
          v = setSize d (n + 1) (m_heap h)
      in rbind (if n = 1 then set_ref 0 key v else Inr v) (\<lambda>v.
         rbind (sift_up le key n v) (\<lambda>v.
         Inr \<lparr>m_heap = v, m_current_size = n\<rparr>)))"

definition heap_peekMin :: "'a prioheap \<Rightarrow> 'a result" where
  "heap_peekMin h = check (heap_size h > 0) Assert_failed (ref 1 (m_heap h))"

definition heap_peekElement :: "int \<Rightarrow> 'a prioheap \<Rightarrow> 'a result" where
  "heap_peekElement i h = check (heap_size h > 0) Assert_failed (ref i (m_heap h))"

text \<open>The loop of \<open>heapify\<close> from the node \<open>cur\<close>, in a heap of \<open>n\<close> elements.\<close>

function heapify_from :: "('a \<Rightarrow> 'a \<Rightarrow> bool) \<Rightarrow> nat \<Rightarrow> nat \<Rightarrow> 'a vector \<Rightarrow> 'a vector result" where
  "heapify_from le n cur v =
     rbind (if get_left cur \<le> n then
              rbind (ref (int (get_left cur)) v) (\<lambda>l.
              rbind (ref (int cur) v) (\<lambda>c.
              Inr (if le l c then get_left cur else cur)))
            else Inr cur) (\<lambda>small.
     rbind (if get_right cur \<le> n then
              rbind (ref (int (get_right cur)) v) (\<lambda>r.
              rbind (ref (int small) v) (\<lambda>s.
              Inr (if le r s then get_right cur else small)))
            else Inr small) (\<lambda>smallest.
     if smallest = cur then Inr v
     else rbind (prio_heap_swap cur smallest v) (\<lambda>v'. heapify_from le n smallest v')))"
  by pat_completeness auto
termination
  by (relation "measure (\<lambda>(le, n, cur, v). Suc n - cur)")
    (auto simp: heap_index rbind_eq_Inr split: if_splits)

definition heapify :: "('a \<Rightarrow> 'a \<Rightarrow> bool) \<Rightarrow> 'a prioheap \<Rightarrow> 'a prioheap result" where
  "heapify le h =
     rbind (heapify_from le (m_current_size h) 1 (m_heap h)) (\<lambda>v. Inr (h\<lparr>m_heap := v\<rparr>))"

definition heap_extractMin :: "('a \<Rightarrow> 'a \<Rightarrow> bool) \<Rightarrow> 'a prioheap \<Rightarrow> ('a \<times> 'a prioheap) result" where
  "heap_extractMin le h =
     check (heap_size h > 0) Assert_failed (
     rbind (ref 1 (m_heap h)) (\<lambda>temp.
     rbind (ref (int (m_current_size h)) (m_heap h)) (\<lambda>x.
     rbind (set_ref 1 x (m_heap h)) (\<lambda>v.
     rbind (heapify le \<lparr>m_heap = v, m_current_size = m_current_size h - 1\<rparr>) (\<lambda>h'.
     Inr (temp, h'))))))"

function verifyHeap_from :: "('a \<Rightarrow> 'a \<Rightarrow> bool) \<Rightarrow> 'a prioheap \<Rightarrow> nat \<Rightarrow> bool result" where
  "verifyHeap_from le h i =
     (if i > m_current_size h then Inr True
      else if i = 0 then Inl No_return
      else if i = 1 then
        rbind (verifyHeap_from le h (get_right i)) (\<lambda>b.
          if b then verifyHeap_from le h (get_left i) else Inr False)
      else
        rbind (ref (int (get_parent i)) (m_heap h)) (\<lambda>p.
        rbind (ref (int i) (m_heap h)) (\<lambda>x.
        if le p x then
          rbind (verifyHeap_from le h (get_right i)) (\<lambda>b.
            if b then verifyHeap_from le h (get_left i) else Inr False)
        else Inr False)))"
  by pat_completeness auto
termination
  by (relation "measure (\<lambda>(le, h, i). Suc (m_current_size h) - i)") (auto simp: heap_index)

definition verifyHeap :: "('a \<Rightarrow> 'a \<Rightarrow> bool) \<Rightarrow> 'a prioheap \<Rightarrow> bool result" where
  "verifyHeap le h = verifyHeap_from le h 1"

declare sift_up.simps [simp del] heapify_from.simps [simp del] verifyHeap_from.simps [simp del]

section \<open>The loops on the array\<close>

text \<open>
  The same loops on the plain list of slots, without the bounds checks. The checked loops
  compute these as long as the last element is inside the vector.
\<close>

function up_list :: "('a \<Rightarrow> 'a \<Rightarrow> bool) \<Rightarrow> 'a \<Rightarrow> nat \<Rightarrow> 'a list \<Rightarrow> 'a list" where
  "up_list le key i xs =
     (if i > 1 \<and> le key (xs ! (i div 2)) then up_list le key (i div 2) (xs[i := xs ! (i div 2)])
      else xs[i := key])"
  by pat_completeness auto
termination
  by (relation "measure (\<lambda>(le, key, i, v). i)") auto

definition least_child :: "('a \<Rightarrow> 'a \<Rightarrow> bool) \<Rightarrow> nat \<Rightarrow> nat \<Rightarrow> 'a list \<Rightarrow> nat" where
  "least_child le n cur xs =
     (let s = (if 2 * cur \<le> n \<and> le (xs ! (2 * cur)) (xs ! cur) then 2 * cur else cur)
      in if 2 * cur + 1 \<le> n \<and> le (xs ! (2 * cur + 1)) (xs ! s) then 2 * cur + 1 else s)"

lemma least_child_bounds:
  "least_child le n cur xs \<noteq> cur \<Longrightarrow> cur < least_child le n cur xs \<and> least_child le n cur xs \<le> n"
  by (auto simp: least_child_def Let_def split: if_splits)

function down_list :: "('a \<Rightarrow> 'a \<Rightarrow> bool) \<Rightarrow> nat \<Rightarrow> nat \<Rightarrow> 'a list \<Rightarrow> 'a list" where
  "down_list le n cur xs =
     (let s = least_child le n cur xs
      in if s = cur then xs else down_list le n s (xs[cur := xs ! s, s := xs ! cur]))"
  by pat_completeness auto
termination
  by (relation "measure (\<lambda>(le, n, cur, v). Suc n - cur)") (auto dest: least_child_bounds)

declare up_list.simps [simp del] down_list.simps [simp del]

lemma sift_up_eq:
  "vinv v \<Longrightarrow> 1 \<le> i \<Longrightarrow> i < vsize v \<Longrightarrow>
     sift_up le key i v = Inr (v\<lparr>vec := up_list le key i (vec v)\<rparr>)"
proof (induction le key i v rule: sift_up.induct)
  case (1 le key i v)
  have vn: "vlist v ! j = vec v ! j" if "j < vsize v" for j
    using that by (simp add: vlist_def)
  show ?case
  proof (cases "i > 1 \<and> le key (vec v ! (i div 2))")
    case True
    let ?v = "v\<lparr>vec := (vec v)[i := vec v ! (i div 2)]\<rparr>"
    have r: "ref (int (get_parent i)) v = Inr (vec v ! (i div 2))"
      using ref_nat [OF "1.prems"(1), of "i div 2"] vn [of "i div 2"] "1.prems"
      by (simp add: heap_index)
    have s: "set_ref (int i) (vec v ! (i div 2)) v = Inr ?v" "vinv ?v"
      using set_ref_nat [OF "1.prems"(1,3)] by simp_all
    have "sift_up le key (get_parent i) ?v
        = Inr (?v\<lparr>vec := up_list le key (get_parent i) (vec ?v)\<rparr>)"
      using True s r "1.prems" by (intro "1.IH") (auto simp: heap_index)
    then show ?thesis
      using True r s by (subst sift_up.simps, subst up_list.simps) (simp add: heap_index)
  next
    case False
    have s: "set_ref (int i) key v = Inr (v\<lparr>vec := (vec v)[i := key]\<rparr>)"
      using set_ref_nat [OF "1.prems"(1,3)] by simp
    have r: "i > 1 \<Longrightarrow> ref (int (get_parent i)) v = Inr (vec v ! (i div 2))"
      using ref_nat [OF "1.prems"(1), of "i div 2"] vn [of "i div 2"] "1.prems"
      by (simp add: heap_index)
    show ?thesis
      using False r s by (subst sift_up.simps, subst up_list.simps) auto
  qed
qed

lemma prio_heap_swap_eq:
  assumes "vinv v" "i < vsize v" "j < vsize v"
  shows "prio_heap_swap i j v = Inr (v\<lparr>vec := (vec v)[i := vec v ! j, j := vec v ! i]\<rparr>)"
proof -
  have vn: "vlist v ! j = vec v ! j" if "j < vsize v" for j
    using that by (simp add: vlist_def)
  note s = set_ref_nat [OF assms(1,2), of "vec v ! j"]
  note t = set_ref_nat [OF s(2), of j "vec v ! i"]
  show ?thesis
    using assms ref_nat [OF assms(1,2)] ref_nat [OF assms(1,3)] s t vn
    by (simp add: prio_heap_swap_def)
qed

lemma heapify_from_eq:
  "vinv v \<Longrightarrow> n < vsize v \<Longrightarrow> cur < vsize v \<Longrightarrow>
     heapify_from le n cur v = Inr (v\<lparr>vec := down_list le n cur (vec v)\<rparr>)"
proof (induction le n cur v rule: heapify_from.induct)
  case (1 le n cur v)
  have vn: "ref (int j) v = Inr (vec v ! j)" if "j < vsize v" for j
    using that ref_nat [OF "1.prems"(1) that] by (simp add: vlist_def)
  let ?s = "least_child le n cur (vec v)"
  define sm where "sm = (if get_left cur \<le> n \<and> le (vec v ! get_left cur) (vec v ! cur)
    then get_left cur else cur)"
  have e1: "(if get_left cur \<le> n then
              rbind (ref (int (get_left cur)) v) (\<lambda>l.
              rbind (ref (int cur) v) (\<lambda>c.
              Inr (if le l c then get_left cur else cur)))
            else Inr cur) = Inr sm"
    using vn "1.prems" by (auto simp: sm_def)
  have smv: "sm < vsize v" using "1.prems" by (auto simp: sm_def)
  have sc: "?s = (if get_right cur \<le> n \<and> le (vec v ! get_right cur) (vec v ! sm)
      then get_right cur else sm)"
    by (auto simp: sm_def least_child_def Let_def heap_index)
  have e2: "(if get_right cur \<le> n then
              rbind (ref (int (get_right cur)) v) (\<lambda>r.
              rbind (ref (int sm) v) (\<lambda>s.
              Inr (if le r s then get_right cur else sm)))
            else Inr sm) = Inr ?s"
    using vn [OF smv] vn "1.prems" by (auto simp: sc)
  have st: "heapify_from le n cur v = (if ?s = cur then Inr v
      else rbind (prio_heap_swap cur ?s v) (\<lambda>v'. heapify_from le n ?s v'))"
    by (subst heapify_from.simps) (simp only: e1 rbind_Inr e2)
  show ?case
  proof (cases "?s = cur")
    case True
    then show ?thesis unfolding st by (subst down_list.simps) simp
  next
    case False
    then have b: "?s \<le> n" using least_child_bounds by metis
    let ?v = "v\<lparr>vec := (vec v)[cur := vec v ! ?s, ?s := vec v ! cur]\<rparr>"
    have sw: "prio_heap_swap cur ?s v = Inr ?v"
      using "1.prems" b by (intro prio_heap_swap_eq) auto
    have "vinv ?v" using "1.prems"(1) by (simp add: vinv_def)
    then have "heapify_from le n ?s ?v = Inr (?v\<lparr>vec := down_list le n ?s (vec ?v)\<rparr>)"
      using "1.IH" [OF e1 e2 False sw] "1.prems" b by simp
    then show ?thesis
      using False sw unfolding st by (subst down_list.simps) (simp add: Let_def)
  qed
qed

section \<open>The heap property\<close>

definition heap_ok :: "('a \<Rightarrow> 'a \<Rightarrow> bool) \<Rightarrow> nat \<Rightarrow> 'a list \<Rightarrow> bool" where
  "heap_ok le n xs \<longleftrightarrow> (\<forall>i. 1 < i \<and> i \<le> n \<longrightarrow> le (xs ! (i div 2)) (xs ! i))"

text \<open>The heap property except between the node \<open>c\<close> and its children.\<close>

definition heap_but :: "('a \<Rightarrow> 'a \<Rightarrow> bool) \<Rightarrow> nat \<Rightarrow> nat \<Rightarrow> 'a list \<Rightarrow> bool" where
  "heap_but le n c xs \<longleftrightarrow>
     (\<forall>i. 1 < i \<and> i \<le> n \<and> i div 2 \<noteq> c \<longrightarrow> le (xs ! (i div 2)) (xs ! i)) \<and>
     (\<forall>i. 1 < c \<and> i \<le> n \<and> i div 2 = c \<longrightarrow> le (xs ! (c div 2)) (xs ! i))"

text \<open>The heap property after the key has been stored in slot \<open>i\<close>, except towards its parent.\<close>

definition heap_up :: "('a \<Rightarrow> 'a \<Rightarrow> bool) \<Rightarrow> nat \<Rightarrow> 'a \<Rightarrow> nat \<Rightarrow> 'a list \<Rightarrow> bool" where
  "heap_up le n key i xs \<longleftrightarrow>
     (\<forall>j. 1 < j \<and> j \<le> n \<and> j \<noteq> i \<and> j div 2 \<noteq> i \<longrightarrow> le (xs ! (j div 2)) (xs ! j)) \<and>
     (\<forall>j. 1 < j \<and> j \<le> n \<and> j div 2 = i \<longrightarrow> le key (xs ! j)) \<and>
     (\<forall>j. 1 < i \<and> j \<le> n \<and> j div 2 = i \<longrightarrow> le (xs ! (i div 2)) (xs ! j))"

definition helems :: "nat \<Rightarrow> 'a list \<Rightarrow> 'a multiset" where
  "helems n xs = mset (take n (drop 1 xs))"

lemma helems_update:
  "1 \<le> i \<Longrightarrow> take n (drop 1 (xs[i := x])) = (take n (drop 1 xs))[i - 1 := x]"
  by (simp add: drop_update_swap take_update_swap)

lemma helems_nth: "1 \<le> i \<Longrightarrow> i \<le> n \<Longrightarrow> n < length xs \<Longrightarrow> take n (drop 1 xs) ! (i - 1) = xs ! i"
  by simp

lemma helems_swap:
  assumes "1 \<le> i" "i \<le> n" "1 \<le> j" "j \<le> n" "n < length xs"
  shows "helems n (xs[i := xs ! j, j := xs ! i]) = helems n xs"
proof -
  let ?t = "take n (drop 1 xs)"
  have "take n (drop 1 (xs[i := xs ! j, j := xs ! i])) = ?t[i - 1 := xs ! j, j - 1 := xs ! i]"
    using assms by (simp add: drop_update_swap take_update_swap)
  moreover have "?t ! (i - 1) = xs ! i" "?t ! (j - 1) = xs ! j"
    using assms by simp_all
  moreover have "i - 1 < length ?t" "j - 1 < length ?t" using assms by auto
  ultimately show ?thesis unfolding helems_def by (metis mset_swap)
qed

lemma length_up_list [simp]: "length (up_list le key i xs) = length xs"
proof (induction le key i xs rule: up_list.induct)
  case (1 le key i xs)
  then show ?case by (subst up_list.simps) auto
qed

lemma length_down_list [simp]: "length (down_list le n cur xs) = length xs"
proof (induction le n cur xs rule: down_list.induct)
  case (1 le n cur xs)
  then show ?case by (subst down_list.simps) (auto simp: Let_def)
qed

lemma helems_up_list:
  "1 \<le> i \<Longrightarrow> i \<le> n \<Longrightarrow> n < length xs \<Longrightarrow> helems n (up_list le key i xs) = helems n (xs[i := key])"
proof (induction le key i xs rule: up_list.induct)
  case (1 le key i xs)
  show ?case
  proof (cases "i > 1 \<and> le key (xs ! (i div 2))")
    case True
    let ?p = "i div 2" and ?ys = "xs[i := key]"
    have p: "1 \<le> ?p" "?p < i" using True by auto
    have "helems n (up_list le key ?p (xs[i := xs ! ?p])) = helems n (xs[i := xs ! ?p, ?p := key])"
      using "1.IH" [OF True] "1.prems" p by simp
    also have "xs[i := xs ! ?p, ?p := key] = ?ys[i := ?ys ! ?p, ?p := ?ys ! i]"
      using p "1.prems" by simp
    also have "helems n \<dots> = helems n ?ys"
      using p "1.prems" by (intro helems_swap) auto
    finally show ?thesis using True by (subst up_list.simps) simp
  next
    case False
    then show ?thesis by (subst up_list.simps) auto
  qed
qed

lemma helems_down_list:
  "1 \<le> cur \<Longrightarrow> cur \<le> n \<Longrightarrow> n < length xs \<Longrightarrow> helems n (down_list le n cur xs) = helems n xs"
proof (induction le n cur xs rule: down_list.induct)
  case (1 le n cur xs)
  let ?s = "least_child le n cur xs"
  show ?case
  proof (cases "?s = cur")
    case True
    then show ?thesis by (subst down_list.simps) simp
  next
    case False
    note b = least_child_bounds [OF False]
    have "helems n (down_list le n ?s (xs[cur := xs ! ?s, ?s := xs ! cur]))
        = helems n (xs[cur := xs ! ?s, ?s := xs ! cur])"
      using "1.IH" [OF refl False] "1.prems" b by simp
    also have "\<dots> = helems n xs"
      using "1.prems" b by (intro helems_swap) auto
    finally show ?thesis using False by (subst down_list.simps) (simp add: Let_def)
  qed
qed

locale total_preorder =
  fixes le :: "'a \<Rightarrow> 'a \<Rightarrow> bool"
  assumes le_total: "le x y \<or> le y x"
    and le_trans: "le x y \<Longrightarrow> le y z \<Longrightarrow> le x z"
begin

lemma le_refl: "le x x"
  using le_total by blast

lemma heap_ok_up_list:
  "heap_up le n key i xs \<Longrightarrow> 1 \<le> i \<Longrightarrow> i \<le> n \<Longrightarrow> n < length xs \<Longrightarrow>
     heap_ok le n (up_list le key i xs)"
proof (induction i arbitrary: xs rule: less_induct)
  case (less i)
  show ?case
  proof (cases "i > 1 \<and> le key (xs ! (i div 2))")
    case True
    let ?p = "i div 2"
    have p: "1 \<le> ?p" "?p < i" "?p \<le> n" using True less.prems by auto
    have u: "heap_up le n key ?p (xs[i := xs ! ?p])"
    proof -
      have h: "\<And>j. 1 < j \<Longrightarrow> j \<le> n \<Longrightarrow> j \<noteq> i \<Longrightarrow> j div 2 \<noteq> i \<Longrightarrow> le (xs ! (j div 2)) (xs ! j)"
        and c: "\<And>j. 1 < i \<Longrightarrow> j \<le> n \<Longrightarrow> j div 2 = i \<Longrightarrow> le (xs ! ?p) (xs ! j)"
        using less.prems(1) by (auto simp: heap_up_def)
      have a: "le (xs ! ?p) (xs ! j)" if "1 < j" "j \<le> n" "j \<noteq> i" "j div 2 = ?p" for j
        using h [of j] that p by simp
      have k: "le key (xs ! j)" if "1 < j" "j \<le> n" "j \<noteq> i" "j div 2 = ?p" for j
        using a [OF that] True le_trans by blast
      have g: "le (xs ! (?p div 2)) (xs ! ?p)" if "1 < ?p"
        using h [of ?p] that p by simp
      have g': "le (xs ! (?p div 2)) (xs ! j)" if "1 < ?p" "j \<le> n" "j \<noteq> i" "j div 2 = ?p" for j
      proof -
        have "1 < j" using that by auto
        then show ?thesis using g [OF that(1)] a [of j] that le_trans by blast
      qed
      show ?thesis
        using h c a k g g' True p less.prems(3,4) unfolding heap_up_def
        by (auto simp: nth_list_update)
    qed
    have "heap_ok le n (up_list le key ?p (xs[i := xs ! ?p]))"
      using less.IH [OF p(2) u] p less.prems(4) by simp
    then show ?thesis using True by (subst up_list.simps) simp
  next
    case False
    then have "heap_ok le n (xs[i := key])"
      using less.prems le_total unfolding heap_up_def heap_ok_def
      by (auto simp: nth_list_update)
    then show ?thesis using False by (subst up_list.simps) auto
  qed
qed

lemma least_child_least:
  assumes "1 \<le> c"
  shows "least_child le n c xs = c \<or> least_child le n c xs div 2 = c"
    and "le (xs ! least_child le n c xs) (xs ! c)"
    and "t \<le> n \<Longrightarrow> t div 2 = c \<Longrightarrow> le (xs ! least_child le n c xs) (xs ! t)"
proof -
  show "least_child le n c xs = c \<or> least_child le n c xs div 2 = c"
    by (auto simp: least_child_def Let_def)
  show "le (xs ! least_child le n c xs) (xs ! c)"
    by (auto simp: least_child_def Let_def le_refl intro: le_trans)
  assume t: "t \<le> n" "t div 2 = c"
  then have "t = 2 * c \<or> t = 2 * c + 1" by auto
  then show "le (xs ! least_child le n c xs) (xs ! t)"
    using t by (auto simp: least_child_def Let_def le_refl) (meson le_total le_trans)+
qed

lemma heap_ok_down_list:
  "heap_but le n cur xs \<Longrightarrow> 1 \<le> cur \<Longrightarrow> n < length xs \<Longrightarrow> heap_ok le n (down_list le n cur xs)"
proof (induction "Suc n - cur" arbitrary: cur xs rule: less_induct)
  case less
  let ?s = "least_child le n cur xs"
  note lc = least_child_least [OF less.prems(2), where n = n and xs = xs]
  show ?case
  proof (cases "?s = cur")
    case True
    have "heap_ok le n xs"
      using less.prems(1) lc(3) unfolding heap_ok_def heap_but_def True by metis
    then show ?thesis using True by (subst down_list.simps) simp
  next
    case False
    note b = least_child_bounds [OF False]
    let ?ys = "xs[cur := xs ! ?s, ?s := xs ! cur]"
    have d: "?s div 2 = cur" using lc(1) False by simp
    have ch: "le (xs ! ?s) (xs ! i)" if "i \<le> n" "i div 2 = ?s" for i
    proof -
      have "1 < i" "i div 2 \<noteq> cur" using that b less.prems(2) by auto
      then show ?thesis using less.prems(1) that unfolding heap_but_def by metis
    qed
    have hb: "heap_but le n ?s ?ys"
      using less.prems d b lc(2) lc(3) ch unfolding heap_but_def
      by (auto simp: nth_list_update)
    have "Suc n - ?s < Suc n - cur" using b by linarith
    then have "heap_ok le n (down_list le n ?s ?ys)"
      using less.hyps [OF _ hb] less.prems b by simp
    then show ?thesis using False by (subst down_list.simps) (simp add: Let_def)
  qed
qed

lemma heap_ok_root: "heap_ok le n xs \<Longrightarrow> 1 \<le> i \<Longrightarrow> i \<le> n \<Longrightarrow> le (xs ! 1) (xs ! i)"
proof (induction i rule: less_induct)
  case (less i)
  show ?case
  proof (cases "i = 1")
    case True
    then show ?thesis by (simp add: le_refl)
  next
    case False
    then have "le (xs ! 1) (xs ! (i div 2))" "le (xs ! (i div 2)) (xs ! i)"
      using less by (auto simp: heap_ok_def)
    then show ?thesis by (rule le_trans)
  qed
qed

text \<open>The functional behaviour of the three operations on a well-formed heap.\<close>

lemma heap_insert_ok:
  assumes "vinv (m_heap h)" "m_current_size h = 0 \<or> m_current_size h < vsize (m_heap h)"
    "heap_ok le (m_current_size h) (vec (m_heap h))"
  shows "\<exists>v. heap_insert le d key h = Inr \<lparr>m_heap = v, m_current_size = m_current_size h + 1\<rparr>
    \<and> vinv v \<and> m_current_size h + 1 < vsize v \<and> heap_ok le (m_current_size h + 1) (vec v)
    \<and> helems (m_current_size h + 1) (vec v)
      = add_mset key (helems (m_current_size h) (vec (m_heap h)))"
proof -
  define n where "n = m_current_size h"
  define v0 where "v0 = setSize d (n + 2) (m_heap h)"
  have v0: "vinv v0" "vsize v0 = n + 2"
    using assms(1) by (simp_all add: v0_def setSize_vinv)
  have nth: "vec v0 ! i = vec (m_heap h) ! i" if "i \<le> n" "1 \<le> i" for i
  proof -
    have "i < vsize (m_heap h)" using that assms(2) by (auto simp: n_def)
    then show ?thesis
      using setSize_nth [OF assms(1), of i "n + 2" d] that by (simp add: vlist_def v0_def)
  qed
  define v1 where "v1 = (if n = 0 then v0\<lparr>vec := (vec v0)[0 := key]\<rparr> else v0)"
  have v1: "vinv v1" "vsize v1 = n + 2" and e1: "(if n + 1 = 1 then set_ref 0 key v0 else Inr v0) = Inr v1"
    using v0 set_ref_nat [OF v0(1), of 0 key] by (simp_all add: v1_def vinv_def)
  have nth1: "vec v1 ! i = vec (m_heap h) ! i" if "i \<le> n" "1 \<le> i" for i
    using nth that by (simp add: v1_def)
  have l1: "n + 1 < length (vec v1)" using v1 by (simp add: vinv_def)
  define v2 where "v2 = v1\<lparr>vec := up_list le key (n + 1) (vec v1)\<rparr>"
  have e2: "sift_up le key (n + 1) v1 = Inr v2"
    using sift_up_eq [OF v1(1), of "n + 1"] v1(2) by (simp add: v2_def)
  have "heap_up le (n + 1) key (n + 1) (vec v1)"
    using assms(3) nth1 unfolding heap_up_def heap_ok_def n_def [symmetric]
    by (auto simp: le_Suc_eq)
  then have ok: "heap_ok le (n + 1) (vec v2)"
    using l1 by (simp add: v2_def heap_ok_up_list)
  have "helems (n + 1) (vec v2) = helems (n + 1) ((vec v1)[n + 1 := key])"
    using l1 by (simp add: v2_def helems_up_list)
  also have "take (n + 1) (drop 1 ((vec v1)[n + 1 := key])) = take n (drop 1 (vec (m_heap h))) @ [key]"
  proof (rule nth_equalityI)
    have ln: "n \<le> length (vec (m_heap h)) - 1"
      using assms(1,2) by (auto simp: n_def vinv_def)
    then show "length (take (n + 1) (drop 1 ((vec v1)[n + 1 := key])))
        = length (take n (drop 1 (vec (m_heap h))) @ [key])" using l1 by simp
    fix i assume "i < length (take (n + 1) (drop 1 ((vec v1)[n + 1 := key])))"
    then have "i < n + 1" using l1 by simp
    then show "take (n + 1) (drop 1 ((vec v1)[n + 1 := key])) ! i
        = (take n (drop 1 (vec (m_heap h))) @ [key]) ! i"
      using l1 ln nth1 by (cases "i = n") (auto simp: nth_append)
  qed
  then have "helems (n + 1) ((vec v1)[n + 1 := key]) = add_mset key (helems n (vec (m_heap h)))"
    by (simp add: helems_def)
  finally have el: "helems (n + 1) (vec v2) = add_mset key (helems n (vec (m_heap h)))" .
  have e0: "setSize d (n + 1 + 1) (m_heap h) = v0" by (simp add: v0_def)
  have "heap_insert le d key h = Inr \<lparr>m_heap = v2, m_current_size = n + 1\<rparr>"
    unfolding heap_insert_def n_def [symmetric] Let_def
    using e1 e2 by (simp only: e0 rbind_Inr)
  then show ?thesis
    using v1 ok el by (auto simp: v2_def n_def vinv_def)
qed

lemma heap_extractMin_ok:
  assumes "vinv (m_heap h)" "0 < m_current_size h" "m_current_size h < vsize (m_heap h)"
    "heap_ok le (m_current_size h) (vec (m_heap h))"
  shows "\<exists>v. heap_extractMin le h
      = Inr (vec (m_heap h) ! 1, \<lparr>m_heap = v, m_current_size = m_current_size h - 1\<rparr>)
    \<and> vinv v \<and> m_current_size h - 1 < vsize v \<and> heap_ok le (m_current_size h - 1) (vec v)
    \<and> helems (m_current_size h) (vec (m_heap h))
      = add_mset (vec (m_heap h) ! 1) (helems (m_current_size h - 1) (vec v))"
proof -
  define n where "n = m_current_size h"
  define v where "v = m_heap h"
  have a: "vinv v" "0 < n" "n < vsize v" "heap_ok le n (vec v)" "n < length (vec v)"
    using assms by (auto simp: n_def v_def vinv_def)
  define x where "x = vec v ! n"
  define v1 where "v1 = v\<lparr>vec := (vec v)[1 := x]\<rparr>"
  define v2 where "v2 = v1\<lparr>vec := down_list le (n - 1) 1 (vec v1)\<rparr>"
  have r: "ref 1 v = Inr (vec v ! 1)" "ref (int n) v = Inr x"
    using ref_nat [OF a(1), of 1] ref_nat [OF a(1), of n] a by (simp_all add: vlist_def x_def)
  have s: "set_ref 1 x v = Inr v1" "vinv v1" "vsize v1 = vsize v"
    using set_ref_nat [OF a(1), of 1 x] a by (simp_all add: v1_def)
  have e: "heapify_from le (n - 1) 1 v1 = Inr v2"
    unfolding v2_def using s a by (intro heapify_from_eq) auto
  have st: "heap_extractMin le h = Inr (vec v ! 1, \<lparr>m_heap = v2, m_current_size = n - 1\<rparr>)"
    using a r s e unfolding heap_extractMin_def heapify_def heap_size_def
      n_def [symmetric] v_def [symmetric]
    by simp
  have "heap_but le (n - 1) 1 (vec v1)"
    using a(4) by (auto simp: heap_but_def heap_ok_def v1_def nth_list_update)
  moreover have l1: "n < length (vec v1)" using a by (simp add: v1_def)
  ultimately have ok: "heap_ok le (n - 1) (vec v2)"
    unfolding v2_def by (simp add: heap_ok_down_list)
  have el: "helems n (vec v) = add_mset (vec v ! 1) (helems (n - 1) (vec v2))"
  proof (cases "n = 1")
    case True
    have "take 1 (drop 1 (vec v)) = [vec v ! 1]"
      using a by (simp add: take_Suc_conv_app_nth take_Suc hd_drop_conv_nth True)
    then show ?thesis by (simp add: True helems_def)
  next
    case False
    have "helems (n - 1) (vec v2) = helems (n - 1) ((vec v)[1 := x])"
      using False a l1 by (simp add: v2_def v1_def helems_down_list)
    moreover have "take n (drop 1 (vec v)) = (vec v ! 1) # take (n - 1) (drop 2 (vec v))"
    proof (rule nth_equalityI)
      show "length (take n (drop 1 (vec v))) = length ((vec v ! 1) # take (n - 1) (drop 2 (vec v)))"
        using a by auto
      fix i assume "i < length (take n (drop 1 (vec v)))"
      then show "take n (drop 1 (vec v)) ! i = ((vec v ! 1) # take (n - 1) (drop 2 (vec v))) ! i"
        using a by (cases i) auto
    qed
    moreover have "take (n - 1) (drop 2 (vec v)) = take (n - 2) (drop 2 (vec v)) @ [x]"
    proof -
      define m where "m = n - 2"
      have m: "n = Suc (Suc m)" using False a(2) by (simp add: m_def)
      show ?thesis using a(5) by (simp add: m x_def take_Suc_conv_app_nth)
    qed
    moreover have "take (n - 1) (drop 1 ((vec v)[1 := x])) = x # take (n - 2) (drop 2 (vec v))"
    proof (rule nth_equalityI)
      show "length (take (n - 1) (drop 1 ((vec v)[1 := x]))) = length (x # take (n - 2) (drop 2 (vec v)))"
        using a False by auto
      fix i assume "i < length (take (n - 1) (drop 1 ((vec v)[1 := x])))"
      then show "take (n - 1) (drop 1 ((vec v)[1 := x])) ! i = (x # take (n - 2) (drop 2 (vec v))) ! i"
        using a by (cases i) auto
    qed
    ultimately show ?thesis by (simp add: helems_def)
  qed
  from st ok el s a show ?thesis
    by (auto simp: n_def v_def v2_def vinv_def)
qed

end

section \<open>The contract of a queue with extraction of the minimum\<close>

definition heap_inv :: "('a \<Rightarrow> 'a \<Rightarrow> bool) \<Rightarrow> 'a prioheap \<Rightarrow> bool" where
  "heap_inv le h \<longleftrightarrow>
     vinv (m_heap h) \<and> (m_current_size h = 0 \<or> m_current_size h < vsize (m_heap h)) \<and>
     heap_ok le (m_current_size h) (vec (m_heap h))"

definition heap_elems :: "'a prioheap \<Rightarrow> 'a multiset" where
  "heap_elems h = helems (m_current_size h) (vec (m_heap h))"

locale min_queue = total_preorder le for le :: "'a \<Rightarrow> 'a \<Rightarrow> bool" +
  fixes insertq :: "'a \<Rightarrow> 'q \<Rightarrow> 'q result"
    and extractq :: "'q \<Rightarrow> ('a \<times> 'q) result"
    and peekq :: "'q \<Rightarrow> 'a result"
    and sizeq :: "'q \<Rightarrow> nat"
    and invq :: "'q \<Rightarrow> bool"
    and elems :: "'q \<Rightarrow> 'a multiset"
  assumes insert_ok: "invq q \<Longrightarrow>
      \<exists>q'. insertq x q = Inr q' \<and> invq q' \<and> elems q' = add_mset x (elems q)"
    and extract_ok: "invq q \<Longrightarrow> elems q \<noteq> {#} \<Longrightarrow>
      \<exists>x q'. extractq q = Inr (x, q') \<and> peekq q = Inr x \<and> invq q'
        \<and> elems q = add_mset x (elems q') \<and> (\<forall>y \<in># elems q. le x y)"
    and extract_empty: "invq q \<Longrightarrow> elems q = {#} \<Longrightarrow> extractq q = Inl Assert_failed"
    and size_ok: "invq q \<Longrightarrow> sizeq q = size (elems q)"
begin

lemma insertE:
  assumes "invq q" "insertq x q = Inr q'"
  shows "invq q' \<and> elems q' = add_mset x (elems q)"
  using insert_ok [OF assms(1), of x] assms(2) by auto

lemma extractE:
  assumes "invq q" "extractq q = Inr (x, q')"
  shows "peekq q = Inr x \<and> invq q' \<and> elems q = add_mset x (elems q')
    \<and> (\<forall>y \<in># elems q. le x y)"
proof (cases "elems q = {#}")
  case True
  then show ?thesis using extract_empty [OF assms(1)] assms(2) by simp
next
  case False
  then show ?thesis using extract_ok [OF assms(1)] assms(2) by fastforce
qed

lemma peek_min:
  assumes "invq q" "elems q \<noteq> {#}" "peekq q = Inr x"
  shows "x \<in># elems q \<and> (\<forall>y \<in># elems q. le x y)"
  using extract_ok [OF assms(1,2)] assms(3) by auto

lemma peek_total: "invq q \<Longrightarrow> elems q \<noteq> {#} \<Longrightarrow> \<exists>x. peekq q = Inr x"
  using extract_ok by blast

end

lemma heap_inv_init [simp]: "heap_inv le heap_init" and heap_elems_init [simp]: "heap_elems heap_init = {#}"
  using vinv_empty by (simp_all add: heap_inv_def heap_init_def heap_ok_def heap_elems_def helems_def)

lemma heap_elems_size: "heap_inv le h \<Longrightarrow> size (heap_elems h) = m_current_size h"
  by (auto simp: heap_inv_def heap_elems_def helems_def vinv_def)

lemma heap_min_queue:
  assumes "total_preorder le"
  shows "min_queue le (heap_insert le d) (heap_extractMin le) heap_peekMin heap_size
    (heap_inv le) heap_elems"
proof (intro min_queue.intro min_queue_axioms.intro assms)
  fix q :: "'a prioheap" and x
  assume q: "heap_inv le q"
  show "\<exists>q'. heap_insert le d x q = Inr q' \<and> heap_inv le q'
      \<and> heap_elems q' = add_mset x (heap_elems q)"
    using total_preorder.heap_insert_ok [OF assms, of q d x] q
    by (auto simp: heap_inv_def heap_elems_def)
  show "heap_size q = size (heap_elems q)"
    using heap_elems_size [OF q] by (simp add: heap_size_def)
next
  fix q :: "'a prioheap"
  assume q: "heap_inv le q" and e: "heap_elems q = {#}"
  show "heap_extractMin le q = Inl Assert_failed"
    using heap_elems_size [OF q] e by (simp add: heap_extractMin_def heap_size_def)
next
  fix q :: "'a prioheap"
  assume q: "heap_inv le q" and e: "heap_elems q \<noteq> {#}"
  let ?n = "m_current_size q" and ?xs = "vec (m_heap q)"
  have "0 < ?n" using heap_elems_size [OF q] e by (metis gr0I size_eq_0_iff_empty)
  then have n: "0 < ?n" "?n < vsize (m_heap q)" "vinv (m_heap q)" "heap_ok le ?n ?xs"
    using q by (auto simp: heap_inv_def)
  obtain v where v: "heap_extractMin le q = Inr (?xs ! 1, \<lparr>m_heap = v, m_current_size = ?n - 1\<rparr>)"
    "vinv v" "?n - 1 < vsize v" "heap_ok le (?n - 1) (vec v)"
    "helems ?n ?xs = add_mset (?xs ! 1) (helems (?n - 1) (vec v))"
    using total_preorder.heap_extractMin_ok [OF assms n(3,1,2,4)] by blast
  have "heap_peekMin q = Inr (?xs ! 1)"
    using n ref_nat [OF n(3), of 1] by (simp add: heap_peekMin_def heap_size_def vlist_def)
  moreover have "\<forall>y \<in># heap_elems q. le (?xs ! 1) y"
  proof
    fix y assume "y \<in># heap_elems q"
    then obtain i where "i < ?n" "y = ?xs ! Suc i"
      using n by (auto simp: heap_elems_def helems_def in_set_conv_nth vinv_def)
    then show "le (?xs ! 1) y"
      using total_preorder.heap_ok_root [OF assms n(4), of "Suc i"] by simp
  qed
  ultimately show "\<exists>x q'. heap_extractMin le q = Inr (x, q') \<and> heap_peekMin q = Inr x
      \<and> heap_inv le q' \<and> heap_elems q = add_mset x (heap_elems q') \<and> (\<forall>y \<in># heap_elems q. le x y)"
    using v by (auto simp: heap_inv_def heap_elems_def)
qed

section \<open>Draining a heap\<close>

text \<open>Inserting a list of keys, and extracting \<open>n\<close> times, as a user of the heap does.\<close>

definition insert_all :: "('a \<Rightarrow> 'q \<Rightarrow> 'q result) \<Rightarrow> 'a list \<Rightarrow> 'q \<Rightarrow> 'q result" where
  "insert_all ins xs q = rfold ins xs q"

fun drain :: "('q \<Rightarrow> ('a \<times> 'q) result) \<Rightarrow> nat \<Rightarrow> 'q \<Rightarrow> ('a list \<times> 'q) result" where
  "drain ext 0 q = Inr ([], q)"
| "drain ext (Suc n) q =
     rbind (ext q) (\<lambda>(x, q'). rbind (drain ext n q') (\<lambda>(xs, q''). Inr (x # xs, q'')))"

context min_queue begin

lemma insert_all_ok:
  "invq q \<Longrightarrow> \<exists>q'. insert_all insertq xs q = Inr q' \<and> invq q' \<and> elems q' = mset xs + elems q"
proof (induction xs arbitrary: q)
  case Nil
  then show ?case by (simp add: insert_all_def)
next
  case (Cons x xs)
  obtain q1 where q1: "insertq x q = Inr q1" "invq q1" "elems q1 = add_mset x (elems q)"
    using insert_ok [OF Cons.prems, of x] by auto
  from Cons.IH [OF q1(2)] q1 show ?case by (auto simp: insert_all_def)
qed

lemma drain_ok:
  "invq q \<Longrightarrow> n = size (elems q) \<Longrightarrow>
     \<exists>xs q'. drain extractq n q = Inr (xs, q') \<and> mset xs = elems q \<and> sorted_wrt le xs"
proof (induction n arbitrary: q)
  case 0
  then show ?case by simp
next
  case (Suc n)
  then have "elems q \<noteq> {#}" by auto
  then obtain x q1 where q1: "extractq q = Inr (x, q1)" "invq q1" "elems q = add_mset x (elems q1)"
    "\<forall>y \<in># elems q. le x y"
    using extract_ok [OF Suc.prems(1)] by blast
  then have "n = size (elems q1)" using Suc.prems(2) by simp
  from Suc.IH [OF q1(2) this] obtain xs q2 where
    "drain extractq n q1 = Inr (xs, q2)" "mset xs = elems q1" "sorted_wrt le xs" by blast
  moreover from this q1(3,4) have "\<forall>y \<in> set xs. le x y"
    by (metis insert_iff set_mset_add_mset_insert set_mset_mset)
  ultimately show ?case using q1 by auto
qed

end

end
