(* ===== verification/EventQueue.thy ===== *)
theory EventQueue
  imports PrioHeap
begin

text \<open>
  The event queue of ruby/eventqueue and the wakeup bookkeeping of ruby/common/Consumer.h. A
  consumer is a number, a pointer to it a \<open>nat option\<close> (\<open>None\<close> is NULL). The record
  \<open>world\<close> is the global simulator state the queue works on: the heap of pending nodes, the
  global time, the two time stamps of every consumer and, in \<open>w_sys\<close>, the state of the rest
  of the system, which only the \<open>wakeup\<close> methods read and write. A \<open>wakeup\<close> is virtual in
  the code; here it is the parameter \<open>wake\<close>, and the locale \<open>event_client\<close> is what the
  queue relies on: a wakeup acts on the queue by scheduling events only.
\<close>

section \<open>State\<close>

record event_node =
  en_time :: int
  en_consumer :: "nat option"

record consumer =
  last_scheduled_wakeup :: int
  last_wakeup :: int

record 's world =
  w_heap :: "event_node prioheap"
  w_time :: int
  w_consumers :: "nat \<Rightarrow> consumer"
  w_sys :: 's

definition new_node :: event_node where
  "new_node = \<lparr>en_time = 0, en_consumer = None\<rparr>"

definition new_consumer :: consumer where
  "new_consumer = \<lparr>last_scheduled_wakeup = 0, last_wakeup = 0\<rparr>"

definition event_le :: "event_node \<Rightarrow> event_node \<Rightarrow> bool" where
  "event_le n1 n2 \<longleftrightarrow> en_time n1 \<le> en_time n2"

definition world_init :: "'s \<Rightarrow> 's world" where
  "world_init s = \<lparr>w_heap = heap_init, w_time = 1, w_consumers = (\<lambda>_. new_consumer), w_sys = s\<rparr>"

section \<open>Operations\<close>

definition eq_isEmpty :: "'s world \<Rightarrow> bool" where
  "eq_isEmpty w \<longleftrightarrow> heap_size (w_heap w) = 0"

definition scheduleEventAbsolute :: "nat option \<Rightarrow> int \<Rightarrow> 's world \<Rightarrow> 's world result" where
  "scheduleEventAbsolute c timeAbs w =
     (case c of
        None \<Rightarrow> Inl Assert_failed
      | Some k \<Rightarrow>
          if last_scheduled_wakeup (w_consumers w k) \<noteq> timeAbs then
            check (timeAbs > w_time w) Assert_failed (
            rbind (heap_insert event_le new_node \<lparr>en_time = timeAbs, en_consumer = c\<rparr> (w_heap w))
              (\<lambda>h. Inr (w\<lparr>w_heap := h,
                         w_consumers := (w_consumers w)(k := (w_consumers w k)
                           \<lparr>last_scheduled_wakeup := timeAbs\<rparr>)\<rparr>)))
          else Inr w)"

definition scheduleEvent :: "nat option \<Rightarrow> int \<Rightarrow> 's world \<Rightarrow> 's world result" where
  "scheduleEvent c timeDelta w = scheduleEventAbsolute c (timeDelta + w_time w) w"

definition triggerWakeup ::
  "(nat \<Rightarrow> 's world \<Rightarrow> 's world result) \<Rightarrow> nat \<Rightarrow> 's world \<Rightarrow> 's world result" where
  "triggerWakeup wake k w =
     (let time = w_time w
      in if last_wakeup (w_consumers w k) \<noteq> time then
           rbind (wake k w) (\<lambda>w'. Inr (w'\<lparr>w_consumers := (w_consumers w')(k := (w_consumers w' k)
             \<lparr>last_wakeup := time\<rparr>)\<rparr>))
         else Inr w)"

text \<open>The body of the two trigger loops: take the first node and wake its consumer up.\<close>

definition trigger_first ::
  "(nat \<Rightarrow> 's world \<Rightarrow> 's world result) \<Rightarrow> event_node \<Rightarrow> 's world \<Rightarrow> 's world result" where
  "trigger_first wake n w =
     rbind (heap_extractMin event_le (w_heap w)) (\<lambda>(m, h).
     (case en_consumer m of
        None \<Rightarrow> Inl Assert_failed
      | Some k \<Rightarrow> triggerWakeup wake k (w\<lparr>w_time := en_time n, w_heap := h\<rparr>)))"

text \<open>
  The loops. A wakeup may schedule further events, so the number of iterations has no bound
  given by the state: \<open>None\<close> is a run that does not return.
\<close>

partial_function (option) triggerEvents ::
  "(nat \<Rightarrow> 's world \<Rightarrow> 's world result) \<Rightarrow> int \<Rightarrow> 's world \<Rightarrow> 's world result option" where
  "triggerEvents wake t w =
     (if heap_size (w_heap w) > 0 then
        (case heap_peekMin (w_heap w) of
           Inl e \<Rightarrow> Some (Inl e)
         | Inr n \<Rightarrow>
             if en_time n \<le> t then
               (case trigger_first wake n w of
                  Inl e \<Rightarrow> Some (Inl e)
                | Inr w' \<Rightarrow> triggerEvents wake t w')
             else Some (Inr (w\<lparr>w_time := t\<rparr>)))
      else Some (Inr (w\<lparr>w_time := t\<rparr>)))"

partial_function (option) triggerAllEvents ::
  "(nat \<Rightarrow> 's world \<Rightarrow> 's world result) \<Rightarrow> 's world \<Rightarrow> 's world result option" where
  "triggerAllEvents wake w =
     (if heap_size (w_heap w) > 0 then
        (case heap_peekMin (w_heap w) of
           Inl e \<Rightarrow> Some (Inl e)
         | Inr n \<Rightarrow>
             (case trigger_first wake n w of
                Inl e \<Rightarrow> Some (Inl e)
              | Inr w' \<Rightarrow> triggerAllEvents wake w'))
      else Some (Inr w))"

section \<open>The heap of events\<close>

interpretation ev_order: total_preorder event_le
  by unfold_locales (auto simp: event_le_def)

interpretation evq: min_queue event_le "heap_insert event_le new_node" "heap_extractMin event_le"
    heap_peekMin heap_size "heap_inv event_le" heap_elems
  by (rule heap_min_queue) (rule ev_order.total_preorder_axioms)

definition pending :: "'s world \<Rightarrow> event_node multiset" where
  "pending w = heap_elems (w_heap w)"

text \<open>
  The invariant of the queue: a well-formed heap, every node with a consumer and not before
  the current time, and no wakeup lost: the last time a consumer was scheduled for, if it is
  still ahead, has a node.
\<close>

definition evq_inv :: "'s world \<Rightarrow> bool" where
  "evq_inv w \<longleftrightarrow>
     heap_inv event_le (w_heap w) \<and>
     (\<forall>n \<in># pending w. en_consumer n \<noteq> None \<and> w_time w \<le> en_time n) \<and>
     (\<forall>k. w_time w < last_scheduled_wakeup (w_consumers w k) \<longrightarrow>
        \<lparr>en_time = last_scheduled_wakeup (w_consumers w k), en_consumer = Some k\<rparr> \<in># pending w)"

lemma evq_inv_init: "evq_inv (world_init s)"
  by (simp add: evq_inv_def world_init_def pending_def new_consumer_def)

lemma scheduleEventAbsolute_cases:
  assumes "evq_inv w" "scheduleEventAbsolute c t w = Inr w'"
  obtains (same) k where "c = Some k" "w' = w" "last_scheduled_wakeup (w_consumers w k) = t"
  | (new) k h where "c = Some k" "w_time w < t"
      "w' = w\<lparr>w_heap := h, w_consumers := (w_consumers w)(k := (w_consumers w k)
         \<lparr>last_scheduled_wakeup := t\<rparr>)\<rparr>"
      "heap_inv event_le h"
      "heap_elems h = add_mset \<lparr>en_time = t, en_consumer = Some k\<rparr> (pending w)"
proof (cases c)
  case None
  then show ?thesis using assms(2) by (simp add: scheduleEventAbsolute_def)
next
  case (Some k)
  show ?thesis
  proof (cases "last_scheduled_wakeup (w_consumers w k) = t")
    case True
    then have "w' = w" using assms(2) Some by (simp add: scheduleEventAbsolute_def)
    with Some True show ?thesis by (intro same)
  next
    case False
    with assms(2) Some obtain h where
      h: "heap_insert event_le new_node \<lparr>en_time = t, en_consumer = c\<rparr> (w_heap w) = Inr h"
      and t: "w_time w < t"
      and w': "w' = w\<lparr>w_heap := h, w_consumers := (w_consumers w)(k := (w_consumers w k)
         \<lparr>last_scheduled_wakeup := t\<rparr>)\<rparr>"
      by (auto simp: scheduleEventAbsolute_def rbind_eq_Inr)
    have i: "heap_inv event_le (w_heap w)" using assms(1) by (simp add: evq_inv_def)
    from evq.insertE [OF i h] Some show ?thesis
      by (intro new [OF Some t w']) (auto simp: pending_def)
  qed
qed

lemma scheduleEventAbsolute_ok:
  assumes "evq_inv w" "w_time w < t"
  shows "\<exists>w'. scheduleEventAbsolute (Some k) t w = Inr w'"
proof -
  have "heap_inv event_le (w_heap w)" using assms(1) by (simp add: evq_inv_def)
  from evq.insert_ok [OF this] obtain h where
    "heap_insert event_le new_node \<lparr>en_time = t, en_consumer = Some k\<rparr> (w_heap w) = Inr h"
    by blast
  with assms(2) show ?thesis by (simp add: scheduleEventAbsolute_def)
qed

lemma scheduleEventAbsolute_inv:
  assumes "evq_inv w" "scheduleEventAbsolute c t w = Inr w'"
  shows "evq_inv w'"
  using assms
proof (cases rule: scheduleEventAbsolute_cases)
  case same
  then show ?thesis using assms(1) by simp
next
  case (new k h)
  then show ?thesis using assms(1) by (auto simp: evq_inv_def pending_def)
qed

text \<open>After a call for a later time the consumer has an event at that time, a new one or one it had already.\<close>

lemma scheduled_pending:
  assumes "evq_inv w" "scheduleEventAbsolute (Some k) t w = Inr w'" "w_time w < t"
  shows "\<lparr>en_time = t, en_consumer = Some k\<rparr> \<in># pending w' \<and> w_time w' = w_time w"
  using assms(1,2)
proof (cases rule: scheduleEventAbsolute_cases)
  case (same j)
  then have "w_time w < last_scheduled_wakeup (w_consumers w j)" using assms(3) by simp
  then have "\<lparr>en_time = last_scheduled_wakeup (w_consumers w j), en_consumer = Some j\<rparr> \<in># pending w"
    using assms(1) by (simp add: evq_inv_def)
  then show ?thesis using same by simp
next
  case (new j h)
  then show ?thesis by (simp add: pending_def)
qed

text \<open>What the wakeups do to the queue: a sequence of schedulings, and changes of the rest.\<close>

inductive sched_reach :: "'s world \<Rightarrow> 's world \<Rightarrow> bool" where
  stay: "sched_reach w w"
| sched: "sched_reach w w' \<Longrightarrow> scheduleEventAbsolute c t w' = Inr w'' \<Longrightarrow> sched_reach w w''"
| local: "sched_reach w w' \<Longrightarrow> sched_reach w (w'\<lparr>w_sys := s\<rparr>)"

lemma sched_reach_trans: "sched_reach w' w'' \<Longrightarrow> sched_reach w w' \<Longrightarrow> sched_reach w w''"
  by (induction rule: sched_reach.induct) (auto intro: sched_reach.sched sched_reach.local)

lemma evq_inv_sys [simp]: "evq_inv (w\<lparr>w_sys := s\<rparr>) = evq_inv w"
  by (simp add: evq_inv_def pending_def)

lemma sched_reach_props:
  assumes "sched_reach w w'" "evq_inv w"
  shows "evq_inv w' \<and> w_time w' = w_time w
    \<and> (\<exists>M. pending w' = pending w + M \<and> (\<forall>n \<in># M. w_time w < en_time n))"
  using assms
proof (induction rule: sched_reach.induct)
  case (stay w)
  then show ?case by (auto intro: exI [of _ "{#}"])
next
  case (sched w w' c t w'')
  then obtain M where i: "evq_inv w'" "w_time w' = w_time w" and
    M: "pending w' = pending w + M" "\<forall>n \<in># M. w_time w < en_time n" by auto
  from i(1) sched.hyps(2) show ?case
  proof (cases rule: scheduleEventAbsolute_cases)
    case same
    then show ?thesis using i M by auto
  next
    case (new k h)
    have "evq_inv w''" using i(1) sched.hyps(2) by (rule scheduleEventAbsolute_inv)
    moreover have "pending w'' = pending w + add_mset \<lparr>en_time = t, en_consumer = Some k\<rparr> M"
      using new M by (simp add: pending_def)
    ultimately show ?thesis using new i M by (auto simp: pending_def)
  qed
next
  case (local w w' s)
  then show ?case by (simp add: pending_def)
qed

text \<open>What is left to do before the time \<open>t\<close>; every iteration makes it smaller.\<close>

definition todo :: "int \<Rightarrow> 's world \<Rightarrow> nat multiset" where
  "todo t w = image_mset (\<lambda>n. nat (t + 1 - en_time n)) (filter_mset (\<lambda>n. en_time n \<le> t) (pending w))"

lemma todo_decreases:
  assumes "n \<in># pending w" "en_time n \<le> t" "pending w' = pending w - {#n#} + M"
    "\<forall>m \<in># M. en_time n < en_time m"
  shows "(todo t w', todo t w) \<in> mult less_than"
proof -
  let ?f = "\<lambda>n. nat (t + 1 - en_time n)" and ?P = "\<lambda>n. en_time n \<le> t"
  let ?I = "image_mset ?f (filter_mset ?P (pending w - {#n#}))"
  let ?K = "image_mset ?f (filter_mset ?P M)"
  obtain Q where Q: "pending w = add_mset n Q"
    using assms(1) by (metis insert_DiffM)
  have w: "todo t w = ?I + {#?f n#}"
    using assms(2) by (simp add: todo_def Q)
  have w': "todo t w' = ?I + ?K" using assms(3) by (simp add: todo_def)
  have "(?I + ?K, ?I + {#?f n#}) \<in> mult less_than"
    using assms(2,4) by (intro one_step_implies_mult) auto
  then show ?thesis by (simp only: w w')
qed

locale event_client =
  fixes wake :: "nat \<Rightarrow> 's world \<Rightarrow> 's world result"
  assumes wake_sched: "wake k w = Inr w' \<Longrightarrow> sched_reach w w'"
begin

lemma trigger_first_ok:
  assumes "evq_inv w" "heap_peekMin (w_heap w) = Inr n" "0 < heap_size (w_heap w)"
    and "trigger_first wake n w = Inr w'"
  shows "evq_inv w' \<and> w_time w' = en_time n \<and> n \<in># pending w
    \<and> (\<exists>M. pending w' = pending w - {#n#} + M \<and> (\<forall>m \<in># M. en_time n < en_time m))"
proof -
  have i: "heap_inv event_le (w_heap w)" using assms(1) by (simp add: evq_inv_def)
  from assms(4) obtain m h k where e: "heap_extractMin event_le (w_heap w) = Inr (m, h)"
    "en_consumer m = Some k" "triggerWakeup wake k (w\<lparr>w_time := en_time n, w_heap := h\<rparr>) = Inr w'"
    by (auto simp: trigger_first_def rbind_eq_Inr split: option.splits)
  from evq.extractE [OF i e(1)] assms(2) have
    m: "m = n" "heap_inv event_le h" "pending w = add_mset n (heap_elems h)"
      "\<forall>y \<in># pending w. event_le n y"
    by (auto simp: pending_def)
  let ?w = "w\<lparr>w_time := en_time n, w_heap := h\<rparr>"
  have inv: "evq_inv ?w"
    using assms(1) m by (force simp: evq_inv_def pending_def event_le_def)
  have p: "pending ?w = pending w - {#n#}" using m by (simp add: pending_def)
  have np: "n \<in># pending w" using m(3) by simp
  show ?thesis
  proof (cases "last_wakeup (w_consumers ?w k) = w_time ?w")
    case True
    then have "w' = ?w" using e(3) by (simp add: triggerWakeup_def Let_def)
    with inv p np show ?thesis by (auto intro: exI [of _ "{#}"])
  next
    case False
    then obtain u where u: "wake k ?w = Inr u"
      "w' = u\<lparr>w_consumers := (w_consumers u)(k := (w_consumers u k)\<lparr>last_wakeup := en_time n\<rparr>)\<rparr>"
      using e(3) by (auto simp: triggerWakeup_def Let_def rbind_eq_Inr)
    from sched_reach_props [OF wake_sched [OF u(1)] inv] p np show ?thesis
      unfolding u(2) by (auto simp: evq_inv_def pending_def)
  qed
qed

lemma trigger_first_error:
  assumes "evq_inv w" "heap_peekMin (w_heap w) = Inr n" "0 < heap_size (w_heap w)" "trigger_first wake n w = Inl e"
  shows "\<exists>k u. wake k u = Inl e \<and> evq_inv u \<and> w_time u = en_time n \<and> w_sys u = w_sys w"
proof -
  have i: "heap_inv event_le (w_heap w)" using assms(1) by (simp add: evq_inv_def)
  have "pending w \<noteq> {#}" using evq.size_ok [OF i] assms(3) by (auto simp: pending_def)
  then obtain m h where m: "heap_extractMin event_le (w_heap w) = Inr (m, h)"
    using evq.extract_ok [OF i] by (auto simp: pending_def)
  from evq.extractE [OF i m] assms(2) have
    h: "m = n" "heap_inv event_le h" "pending w = add_mset n (heap_elems h)" "\<forall>y \<in># pending w. event_le n y"
    by (auto simp: pending_def)
  then obtain k where "en_consumer m = Some k" using assms(1) by (auto simp: evq_inv_def)
  then have t: "triggerWakeup wake k (w\<lparr>w_time := en_time n, w_heap := h\<rparr>) = Inl e"
    using assms(4) m by (simp add: trigger_first_def)
  have "evq_inv (w\<lparr>w_time := en_time n, w_heap := h\<rparr>)"
    using assms(1) h by (force simp: evq_inv_def pending_def event_le_def)
  moreover have "wake k (w\<lparr>w_time := en_time n, w_heap := h\<rparr>) = Inl e"
    using t by (auto simp: triggerWakeup_def Let_def rbind_def split: if_splits sum.splits)
  ultimately show ?thesis by (intro exI [of _ k] exI [of _ "w\<lparr>w_time := en_time n, w_heap := h\<rparr>"]) simp
qed

lemma triggerEvents_result:
  "evq_inv w \<Longrightarrow> w_time w \<le> t \<Longrightarrow>
     \<exists>r. triggerEvents wake t w = Some r
       \<and> (\<forall>w'. r = Inr w' \<longrightarrow> evq_inv w' \<and> w_time w' = t \<and> (\<forall>n \<in># pending w'. t < en_time n))
       \<and> (\<forall>e. r = Inl e \<longrightarrow> (\<exists>k u. wake k u = Inl e \<and> evq_inv u \<and> w_time w \<le> w_time u \<and> w_time u \<le> t))"
proof (induction "todo t w" arbitrary: w rule: wf_induct_rule [OF wf_mult [OF wf_less_than]])
  case 1
  have i: "heap_inv event_le (w_heap w)" using "1.prems" by (simp add: evq_inv_def)
  have stop: "evq_inv (w\<lparr>w_time := t\<rparr>) \<and> (\<forall>n \<in># pending (w\<lparr>w_time := t\<rparr>). t < en_time n)"
    if "\<forall>n \<in># pending w. t < en_time n"
    using that "1.prems" by (auto simp: evq_inv_def pending_def)
  show ?case
  proof (cases "pending w = {#}")
    case True
    then have "heap_size (w_heap w) = 0" using evq.size_ok [OF i] by (simp add: pending_def)
    then show ?thesis using stop True by (subst triggerEvents.simps) simp
  next
    case False
    then have ne: "0 < heap_size (w_heap w)"
      using evq.size_ok [OF i] by (simp add: pending_def nonempty_has_size)
    obtain n where n: "heap_peekMin (w_heap w) = Inr n"
      using evq.peek_total [OF i] False by (auto simp: pending_def)
    have min: "\<forall>y \<in># pending w. en_time n \<le> en_time y"
      using evq.peek_min [OF i _ n] False by (simp add: pending_def event_le_def)
    note unf = triggerEvents.simps [of wake t w]
    show ?thesis
    proof (cases "en_time n \<le> t")
      case gt: False
      have "\<forall>y \<in># pending w. t < en_time y" using gt min by force
      then show ?thesis using ne n gt stop unfolding unf by simp
    next
      case le: True
      show ?thesis
      proof (cases "trigger_first wake n w")
        case (Inl e)
        have "n \<in># pending w" using evq.peek_min [OF i _ n] False by (simp add: pending_def)
        then have "w_time w \<le> en_time n" using "1.prems"(1) by (simp add: evq_inv_def)
        moreover obtain k u where "wake k u = Inl e" "evq_inv u" "w_time u = en_time n"
          using trigger_first_error [OF "1.prems"(1) n ne Inl] by blast
        ultimately have "\<exists>k u. wake k u = Inl e \<and> evq_inv u \<and> w_time w \<le> w_time u \<and> w_time u \<le> t"
          using le by (intro exI [of _ k] exI [of _ u]) simp
        then show ?thesis using ne n le Inl unfolding unf by simp
      next
        case (Inr w')
        note st = trigger_first_ok [OF "1.prems"(1) n ne Inr]
        then have "(todo t w', todo t w) \<in> mult less_than"
          using le by (auto intro: todo_decreases)
        moreover have "w_time w \<le> w_time w'" using st "1.prems"(1) by (auto simp: evq_inv_def)
        ultimately show ?thesis using "1.hyps" [of w'] st le ne n Inr unfolding unf by fastforce
      qed
    qed
  qed
qed

end

section \<open>Bounded runs\<close>

text \<open>
  The run of a queue whose wakeups only change the rest of the system: an instance of the
  contract. The components whose \<open>wakeup\<close> schedules events interpret it in their theories.
\<close>

definition local_wake :: "(nat \<Rightarrow> 's \<Rightarrow> 's) \<Rightarrow> nat \<Rightarrow> 's world \<Rightarrow> 's world result" where
  "local_wake f k w = Inr (w\<lparr>w_sys := f k (w_sys w)\<rparr>)"

interpretation local_client: event_client "local_wake f" for f
  by unfold_locales (auto simp: local_wake_def intro: sched_reach.intros)

section \<open>What is woken up, and when\<close>

text \<open>
  A client that writes down who is woken up and at what time. Every consumer with an event up to
  \<open>t\<close> is woken exactly once for each of its times, at that time, and in the order of time.
\<close>

definition log_wake :: "nat \<Rightarrow> (nat \<times> int) list world \<Rightarrow> (nat \<times> int) list world result" where
  "log_wake k w = Inr (w\<lparr>w_sys := w_sys w @ [(k, w_time w)]\<rparr>)"

interpretation log_client: event_client log_wake
  by unfold_locales (auto simp: log_wake_def intro: sched_reach.intros)

text \<open>The wakeups that are due up to \<open>t\<close>.\<close>

definition due :: "int \<Rightarrow> 's world \<Rightarrow> (nat \<times> int) set" where
  "due t w = {(k, s). \<lparr>en_time = s, en_consumer = Some k\<rparr> \<in># pending w \<and> s \<le> t
     \<and> last_wakeup (w_consumers w k) \<noteq> s}"

definition woken_before :: "'s world \<Rightarrow> bool" where
  "woken_before w \<longleftrightarrow> (\<forall>k. last_wakeup (w_consumers w k) \<le> w_time w)"

lemma log_step:
  assumes "evq_inv w" "woken_before w" "pending w \<noteq> {#}" "heap_peekMin (w_heap w) = Inr n" "en_time n \<le> t"
  obtains k w' where "en_consumer n = Some k" "trigger_first log_wake n w = Inr w'" "woken_before w'"
    "due t w' = due t w - {(k, en_time n)}" "\<forall>s \<in> snd ` due t w. en_time n \<le> s"
    "w_sys w' = w_sys w @ (if (k, en_time n) \<in> due t w then [(k, en_time n)] else [])"
proof -
  have i: "heap_inv event_le (w_heap w)" using assms(1) by (simp add: evq_inv_def)
  obtain h where h: "heap_extractMin event_le (w_heap w) = Inr (n, h)" "heap_inv event_le h"
    "pending w = add_mset n (heap_elems h)" "\<forall>y \<in># pending w. en_time n \<le> en_time y"
    using evq.extract_ok [OF i] assms(3,4) by (auto simp: pending_def event_le_def)
  then obtain k where k: "en_consumer n = Some k" "w_time w \<le> en_time n"
    using assms(1) by (auto simp: evq_inv_def)
  then have n: "n = \<lparr>en_time = en_time n, en_consumer = Some k\<rparr>" by simp
  have min: "\<forall>s \<in> snd ` due t w. en_time n \<le> s" using h(4) by (force simp: due_def)
  have le: "last_wakeup (w_consumers w j) \<le> w_time w" for j using assms(2) by (simp add: woken_before_def)
  have le': "last_wakeup (w_consumers w j) \<le> en_time n" for j using le [of j] k(2) by linarith
  have in_due: "(k, en_time n) \<in> due t w \<longleftrightarrow> last_wakeup (w_consumers w k) \<noteq> en_time n"
    using n h(3) assms(5) by (simp add: due_def)
  let ?w = "w\<lparr>w_time := en_time n, w_heap := h\<rparr>"
  show ?thesis
  proof (cases "last_wakeup (w_consumers w k) = en_time n")
    case True
    have "due t ?w = due t w - {(k, en_time n)}"
      using True h(3) n by (auto simp: due_def pending_def)
    then show ?thesis using True k h(1) min in_due le'
      by (intro that [of k ?w]) (simp_all add: trigger_first_def triggerWakeup_def woken_before_def)
  next
    case False
    let ?u = "?w\<lparr>w_sys := w_sys w @ [(k, en_time n)], w_consumers := (w_consumers w)(k := (w_consumers w k)
      \<lparr>last_wakeup := en_time n\<rparr>)\<rparr>"
    have "due t ?u = due t w - {(k, en_time n)}"
    proof (intro set_eqI; clarify)
      fix j s
      show "(j, s) \<in> due t ?u \<longleftrightarrow> (j, s) \<in> due t w - {(k, en_time n)}"
      proof (cases "j = k")
        case True
        have "last_wakeup (w_consumers w k) < en_time n" using le' [of k] False by simp
        moreover have "en_time n \<le> s" if "\<lparr>en_time = s, en_consumer = Some k\<rparr> \<in># pending w"
          using h(4) that by force
        ultimately show ?thesis using True h(3) n by (auto simp: due_def pending_def)
      next
        case j: False
        then show ?thesis using h(3) n by (auto simp: due_def pending_def)
      qed
    qed
    then show ?thesis using False k h(1) min in_due le'
      by (intro that [of k ?u])
        (simp_all add: trigger_first_def triggerWakeup_def woken_before_def log_wake_def Let_def)
  qed
qed

lemma triggerEvents_log:
  "evq_inv w \<Longrightarrow> w_time w \<le> t \<Longrightarrow> woken_before w \<Longrightarrow>
     \<exists>w' L. triggerEvents log_wake t w = Some (Inr w') \<and> w_sys w' = w_sys w @ L
       \<and> sorted (map snd L) \<and> distinct L \<and> set L = due t w"
proof (induction "todo t w" arbitrary: w rule: wf_induct_rule [OF wf_mult [OF wf_less_than]])
  case 1
  have i: "heap_inv event_le (w_heap w)" using "1.prems" by (simp add: evq_inv_def)
  have stop: "\<exists>w' L. Some (Inr (w\<lparr>w_time := t\<rparr>)) = Some (Inr w') \<and> w_sys w' = w_sys w @ L
       \<and> sorted (map snd L) \<and> distinct L \<and> set L = due t w" if "due t w = {}"
    using that by (intro exI [of _ "w\<lparr>w_time := t\<rparr>"] exI [of _ "[]"]) simp
  note unf = triggerEvents.simps [of log_wake t w]
  show ?case
  proof (cases "pending w = {#}")
    case True
    then have "heap_size (w_heap w) = 0" using evq.size_ok [OF i] by (simp add: pending_def)
    moreover have "due t w = {}" using True by (simp add: due_def)
    ultimately show ?thesis using stop unfolding unf by simp
  next
    case ne: False
    then have pos: "0 < heap_size (w_heap w)"
      using evq.size_ok [OF i] by (simp add: pending_def nonempty_has_size)
    obtain n where n: "heap_peekMin (w_heap w) = Inr n"
      using evq.peek_total [OF i] ne by (auto simp: pending_def)
    have min: "\<forall>y \<in># pending w. en_time n \<le> en_time y"
      using evq.peek_min [OF i _ n] ne by (simp add: pending_def event_le_def)
    show ?thesis
    proof (cases "en_time n \<le> t")
      case False
      then have "due t w = {}" using min by (force simp: due_def)
      then show ?thesis using pos n False stop unfolding unf by simp
    next
      case True
      obtain k w' where S: "trigger_first log_wake n w = Inr w'" "woken_before w'"
        "due t w' = due t w - {(k, en_time n)}" "\<forall>s \<in> snd ` due t w. en_time n \<le> s"
        "w_sys w' = w_sys w @ (if (k, en_time n) \<in> due t w then [(k, en_time n)] else [])"
        using log_step [OF "1.prems"(1,3) ne n True] by metis
      note st = log_client.trigger_first_ok [OF "1.prems"(1) n pos S(1)]
      then have "(todo t w', todo t w) \<in> mult less_than"
        using True by (auto intro: todo_decreases)
      from "1.hyps" [OF this] st True S(2) obtain u L where
        u: "triggerEvents log_wake t w' = Some (Inr u)" "w_sys u = w_sys w' @ L"
           "sorted (map snd L)" "distinct L" "set L = due t w'" by auto
      let ?L = "(if (k, en_time n) \<in> due t w then [(k, en_time n)] else []) @ L"
      have "sorted (map snd ?L) \<and> distinct ?L \<and> set ?L = due t w"
        using u(3-5) S(3,4) by auto
      then show ?thesis using pos n True S(1,5) u(1,2) unfolding unf
        by (intro exI [of _ u] exI [of _ ?L]) simp
    qed
  qed
qed

end
