(* ===== verification/CacheMemory.thy ===== *)
theory CacheMemory
  imports Vector Address EventQueue
begin

text \<open>
  The set-associative cache of ruby/system/CacheMemory.C. An entry is of a class that the
  protocol compiler generates from \<open>CacheEntryBase\<close>; here it has the four attributes of
  that interface, the data block being of any type \<open>'d\<close>, and the virtual functions
  \<open>construct\<close> and \<open>reset\<close> are parameters. \<open>DATA_BLOCK_BITS\<close> of the run-time
  parameters is the argument \<open>dbb\<close>. The lemmas show that a cache is a finite map from block
  addresses to entries, and that the victim of a replacement is the entry that was used least
  recently.
\<close>

datatype access_permission =
    AccessPermission_Read_Only | AccessPermission_Read_Write
  | AccessPermission_Invalid | AccessPermission_NotPresent

datatype cache_request_type =
    CacheRequestType_LD | CacheRequestType_ST | CacheRequestType_ATOMIC
  | CacheRequestType_IFETCH | CacheRequestType_NULL

record 'd cache_entry =
  ce_address :: address
  ce_permission :: access_permission
  ce_last_ref :: int
  ce_data :: 'd

record 'd cache_memory =
  cm_id :: nat
  cm_cache :: "'d cache_entry list list"
  cm_num_sets :: nat
  cm_num_set_bits :: nat
  cm_assoc :: nat

definition cm_new :: "nat \<Rightarrow> 'd cache_entry \<Rightarrow> nat \<Rightarrow> nat \<Rightarrow> 'd cache_memory result" where
  "cm_new i construct numSetBits cacheAssoc =
     check (numSetBits < 31) Undefined (
     Inr \<lparr>cm_id = i, cm_cache = replicate (2 ^ numSetBits) (replicate cacheAssoc construct),
          cm_num_sets = 2 ^ numSetBits, cm_num_set_bits = numSetBits, cm_assoc = cacheAssoc\<rparr>)"

definition addressToCacheSet :: "nat \<Rightarrow> 'd cache_memory \<Rightarrow> address \<Rightarrow> nat result" where
  "addressToCacheSet dbb cm a =
     check (a = line_address a) Assert_failed (
     rbind (bitSelect (int dbb) (int dbb + int (cm_num_set_bits cm) - 1) a) (\<lambda>w.
     let temp = sint w
     in check (temp < int (cm_num_sets cm)) Assert_failed (
        check (temp \<ge> 0) Assert_failed (Inr (nat temp)))))"

definition tag_match :: "address \<Rightarrow> 'd cache_entry \<Rightarrow> bool" where
  "tag_match tag e \<longleftrightarrow> ce_address e = tag \<and> ce_permission e \<noteq> AccessPermission_NotPresent"

text \<open>\<open>None\<close> is the result -1.\<close>

definition findTagInSet :: "'d cache_memory \<Rightarrow> nat \<Rightarrow> address \<Rightarrow> nat option result" where
  "findTagInSet cm cacheSet tag =
     check (tag = line_address tag) Assert_failed (
     rbind (lref cacheSet (cm_cache cm)) (search (tag_match tag) [0..<cm_assoc cm]))"

definition cm_entry :: "'d cache_memory \<Rightarrow> nat \<Rightarrow> nat \<Rightarrow> 'd cache_entry result" where
  "cm_entry cm s i = rbind (lref s (cm_cache cm)) (lref i)"

definition cm_put :: "nat \<Rightarrow> nat \<Rightarrow> 'd cache_entry \<Rightarrow> 'd cache_memory \<Rightarrow> 'd cache_memory result" where
  "cm_put s i e cm =
     rbind (lref s (cm_cache cm)) (\<lambda>xs.
     rbind (lput i e xs) (\<lambda>ys.
     rbind (lput s ys (cm_cache cm)) (\<lambda>c. Inr (cm\<lparr>cm_cache := c\<rparr>))))"

text \<open>
  The result is whether the access hits, the place of the data block that \<open>data_ptr\<close> points
  to, and the new cache: the time stamp of an entry with a matching tag is updated also when
  its permission does not allow the access.
\<close>

definition tryCacheAccess ::
  "nat \<Rightarrow> address \<Rightarrow> cache_request_type \<Rightarrow> 's world \<Rightarrow> 'd cache_memory
     \<Rightarrow> (bool \<times> (nat \<times> nat) option \<times> 'd cache_memory) result" where
  "tryCacheAccess dbb a type w cm =
     check (a = line_address a) Assert_failed (
     rbind (addressToCacheSet dbb cm a) (\<lambda>cacheSet.
     rbind (findTagInSet cm cacheSet a) (\<lambda>loc.
     (case loc of
        None \<Rightarrow> Inr (False, None, cm)
      | Some l \<Rightarrow>
          rbind (cm_entry cm cacheSet l) (\<lambda>e.
          rbind (cm_put cacheSet l (e\<lparr>ce_last_ref := w_time w\<rparr>) cm) (\<lambda>cm'.
          if ce_permission e = AccessPermission_Read_Write then Inr (True, Some (cacheSet, l), cm')
          else if ce_permission e = AccessPermission_Read_Only
                  \<and> (type = CacheRequestType_LD \<or> type = CacheRequestType_IFETCH)
               then Inr (True, Some (cacheSet, l), cm')
          else Inr (False, None, cm')))))))"

definition isTagPresent :: "nat \<Rightarrow> address \<Rightarrow> 'd cache_memory \<Rightarrow> bool result" where
  "isTagPresent dbb a cm =
     check (a = line_address a) Assert_failed (
     rbind (addressToCacheSet dbb cm a) (\<lambda>cacheSet.
     rbind (findTagInSet cm cacheSet a) (\<lambda>loc. Inr (loc \<noteq> None))))"

definition cacheAvail :: "nat \<Rightarrow> address \<Rightarrow> 'd cache_memory \<Rightarrow> bool result" where
  "cacheAvail dbb a cm =
     check (a = line_address a) Assert_failed (
     rbind (addressToCacheSet dbb cm a) (\<lambda>cacheSet.
     rbind (lref cacheSet (cm_cache cm)) (\<lambda>xs.
     rbind (search (\<lambda>e. ce_address e = a \<or> ce_permission e = AccessPermission_NotPresent)
              [0..<cm_assoc cm] xs) (\<lambda>r. Inr (r \<noteq> None)))))"

definition cm_allocate ::
  "('d cache_entry \<Rightarrow> 'd cache_entry) \<Rightarrow> nat \<Rightarrow> address \<Rightarrow> 's world \<Rightarrow> 'd cache_memory
     \<Rightarrow> 'd cache_memory result" where
  "cm_allocate reset dbb a w cm =
     check (a = line_address a) Assert_failed (
     rbind (isTagPresent dbb a cm) (\<lambda>p.
     check (\<not> p) Assert_failed (
     rbind (cacheAvail dbb a cm) (\<lambda>v.
     check v Assert_failed (
     rbind (addressToCacheSet dbb cm a) (\<lambda>cacheSet.
     rbind (lref cacheSet (cm_cache cm)) (\<lambda>xs.
     rbind (search (\<lambda>e. ce_permission e = AccessPermission_NotPresent) [0..<cm_assoc cm] xs) (\<lambda>r.
     (case r of
        None \<Rightarrow> Inl Error_exit
      | Some i \<Rightarrow>
          rbind (cm_entry cm cacheSet i) (\<lambda>e.
          cm_put cacheSet i ((reset e)\<lparr>ce_address := a, ce_permission := AccessPermission_Invalid,
            ce_last_ref := w_time w\<rparr>) cm)))))))))) "

text \<open>The place of the entry that \<open>lookup\<close> returns a reference to.\<close>

definition cm_lookup :: "nat \<Rightarrow> address \<Rightarrow> 'd cache_memory \<Rightarrow> (nat \<times> nat) result" where
  "cm_lookup dbb a cm =
     check (a = line_address a) Assert_failed (
     rbind (addressToCacheSet dbb cm a) (\<lambda>cacheSet.
     rbind (findTagInSet cm cacheSet a) (\<lambda>loc.
     (case loc of None \<Rightarrow> Inl Assert_failed | Some l \<Rightarrow> Inr (cacheSet, l)))))"

definition cm_modify ::
  "nat \<Rightarrow> address \<Rightarrow> ('d cache_entry \<Rightarrow> 'd cache_entry) \<Rightarrow> 'd cache_memory \<Rightarrow> 'd cache_memory result" where
  "cm_modify dbb a f cm =
     rbind (cm_lookup dbb a cm) (\<lambda>(s, l). rbind (cm_entry cm s l) (\<lambda>e. cm_put s l (f e) cm))"

definition cm_deallocate :: "nat \<Rightarrow> address \<Rightarrow> 'd cache_memory \<Rightarrow> 'd cache_memory result" where
  "cm_deallocate dbb a cm =
     check (a = line_address a) Assert_failed (
     rbind (isTagPresent dbb a cm) (\<lambda>p.
     check p Assert_failed (
     cm_modify dbb a (\<lambda>e. e\<lparr>ce_permission := AccessPermission_NotPresent\<rparr>) cm)))"

text \<open>The loop of \<open>cacheProbe\<close>, over the pair \<open>smallest_index, smallest_time\<close>.\<close>

fun probe_loop :: "'d cache_entry list \<Rightarrow> nat list \<Rightarrow> nat \<times> int \<Rightarrow> (nat \<times> int) result" where
  "probe_loop xs [] acc = Inr acc"
| "probe_loop xs (i # is) (smallest_index, smallest_time) =
     rbind (lref i xs) (\<lambda>e.
     check (ce_permission e \<noteq> AccessPermission_NotPresent) Assert_failed (
     if ce_last_ref e < smallest_time then probe_loop xs is (i, ce_last_ref e)
     else probe_loop xs is (smallest_index, smallest_time)))"

definition cacheProbe :: "nat \<Rightarrow> address \<Rightarrow> 'd cache_memory \<Rightarrow> address result" where
  "cacheProbe dbb a cm =
     check (a = line_address a) Assert_failed (
     rbind (cacheAvail dbb a cm) (\<lambda>v.
     check (\<not> v) Assert_failed (
     rbind (addressToCacheSet dbb cm a) (\<lambda>cacheSet.
     rbind (cm_entry cm cacheSet 0) (\<lambda>e0.
     rbind (lref cacheSet (cm_cache cm)) (\<lambda>xs.
     rbind (probe_loop xs [0..<cm_assoc cm] (0, ce_last_ref e0)) (\<lambda>(smallest_index, _).
     rbind (cm_entry cm cacheSet smallest_index) (\<lambda>e. Inr (ce_address e)))))))))"

definition cm_getPermission :: "nat \<Rightarrow> address \<Rightarrow> 'd cache_memory \<Rightarrow> access_permission result" where
  "cm_getPermission dbb a cm =
     check (a = line_address a) Assert_failed (
     rbind (cm_lookup dbb a cm) (\<lambda>(s, l).
     rbind (cm_entry cm s l) (\<lambda>e. Inr (ce_permission e))))"

text \<open>
  The second component is the call of the driver's \<open>permissionChangeCallback\<close>: node, address,
  old and new permission.
\<close>

definition changePermission ::
  "nat \<Rightarrow> address \<Rightarrow> access_permission \<Rightarrow> 'd cache_memory
     \<Rightarrow> ('d cache_memory \<times> (nat \<times> address \<times> access_permission \<times> access_permission)) result" where
  "changePermission dbb a new_perm cm =
     check (a = line_address a) Assert_failed (
     check (new_perm = AccessPermission_Read_Write \<or> new_perm = AccessPermission_Read_Only
            \<or> new_perm = AccessPermission_Invalid) Assert_failed (
     rbind (cm_getPermission dbb a cm) (\<lambda>old_perm.
     rbind (cm_modify dbb a (\<lambda>e. e\<lparr>ce_permission := new_perm\<rparr>) cm) (\<lambda>cm'.
     rbind (cm_getPermission dbb a cm') (\<lambda>p.
     check (p = new_perm) Assert_failed (Inr (cm', (cm_id cm, a, old_perm, new_perm))))))))"

definition setMRU :: "nat \<Rightarrow> address \<Rightarrow> 's world \<Rightarrow> 'd cache_memory \<Rightarrow> 'd cache_memory result" where
  "setMRU dbb a w cm = cm_modify dbb a (\<lambda>e. e\<lparr>ce_last_ref := w_time w\<rparr>) cm"

text \<open>The records that \<open>recordCacheContents\<close> gives to the recorder, in order.\<close>

definition record_request :: "bool \<Rightarrow> access_permission \<Rightarrow> cache_request_type" where
  "record_request is_instruction_cache perm =
     (if perm = AccessPermission_Read_Only then
        (if is_instruction_cache then CacheRequestType_IFETCH else CacheRequestType_LD)
      else if perm = AccessPermission_Read_Write then CacheRequestType_ST
      else CacheRequestType_NULL)"

definition recordCacheContents ::
  "bool \<Rightarrow> 'd cache_memory \<Rightarrow> (nat \<times> address \<times> address \<times> cache_request_type \<times> int) list" where
  "recordCacheContents is_instruction_cache cm =
     concat (map (\<lambda>xs. concat (map (\<lambda>e.
       let request_type = record_request is_instruction_cache (ce_permission e)
       in if request_type \<noteq> CacheRequestType_NULL
          then [(cm_id cm, ce_address e, 0, request_type, ce_last_ref e)] else []) xs))
     (cm_cache cm))"

section \<open>The invariant and the abstract map\<close>

definition set_index :: "nat \<Rightarrow> nat \<Rightarrow> address \<Rightarrow> nat" where
  "set_index dbb b a = unat a mod 2 ^ (dbb + b) div 2 ^ dbb"

definition present :: "'d cache_entry \<Rightarrow> bool" where
  "present e \<longleftrightarrow> ce_permission e \<noteq> AccessPermission_NotPresent"

definition tags_distinct :: "'d cache_entry list \<Rightarrow> bool" where
  "tags_distinct xs \<longleftrightarrow>
     (\<forall>i < length xs. \<forall>j < length xs. present (xs ! i) \<and> present (xs ! j)
        \<and> ce_address (xs ! i) = ce_address (xs ! j) \<longrightarrow> i = j)"

definition cm_inv :: "nat \<Rightarrow> 'd cache_memory \<Rightarrow> bool" where
  "cm_inv dbb cm \<longleftrightarrow>
     0 < dbb \<and> dbb + cm_num_set_bits cm < 64 \<and> cm_num_set_bits cm < 31 \<and>
     cm_num_sets cm = 2 ^ cm_num_set_bits cm \<and>
     length (cm_cache cm) = cm_num_sets cm \<and>
     (\<forall>s < cm_num_sets cm.
        length (cm_cache cm ! s) = cm_assoc cm \<and> tags_distinct (cm_cache cm ! s) \<and>
        (\<forall>e \<in> set (cm_cache cm ! s). present e \<longrightarrow>
           ce_address e = line_address (ce_address e) \<and>
           set_index dbb (cm_num_set_bits cm) (ce_address e) = s))"

definition cached :: "nat \<Rightarrow> 'd cache_memory \<Rightarrow> address \<rightharpoonup> 'd cache_entry" where
  "cached dbb cm a =
     (if a = line_address a
      then find (tag_match a) (cm_cache cm ! set_index dbb (cm_num_set_bits cm) a)
      else None)"

lemma cm_new_ok:
  assumes "0 < dbb" "dbb + b < 64" "b < 31" "ce_permission e = AccessPermission_NotPresent"
  shows "\<exists>cm. cm_new i e b k = Inr cm \<and> cm_inv dbb cm \<and> cached dbb cm = Map.empty"
proof -
  have f: "find (tag_match a) (replicate k e) = None" for a
    using assms(4) by (auto simp: find_None_iff tag_match_def)
  have "set_index dbb b a < 2 ^ b" for a
    by (simp add: set_index_def div_less_iff_less_mult power_add mult.commute)
  then show ?thesis using assms f
    by (auto simp: cm_new_def cm_inv_def cached_def tags_distinct_def present_def fun_eq_iff)
qed

lemma set_index_bound: "set_index dbb b a < 2 ^ b"
  by (simp add: set_index_def div_less_iff_less_mult power_add mult.commute)

lemma addressToCacheSet_ok:
  assumes "cm_inv dbb cm" "a = line_address a"
  shows "addressToCacheSet dbb cm a = Inr (set_index dbb (cm_num_set_bits cm) a)"
proof -
  let ?b = "cm_num_set_bits cm"
  have b: "0 < dbb" "dbb + ?b < 64" "?b < 31" "cm_num_sets cm = 2 ^ ?b"
    using assms(1) by (auto simp: cm_inv_def)
  obtain w where w: "bitSelect (int dbb) (int (dbb + ?b - 1)) a = Inr w"
    "unat w = unat a mod 2 ^ (dbb + ?b - 1 + 1) div 2 ^ dbb"
    using bitSelect_value [of dbb "dbb + ?b - 1" a] b by auto
  have e: "int (dbb + ?b - 1) = int dbb + int ?b - 1" using b(1) by simp
  have u: "unat w = set_index dbb ?b a" using w(2) b(1) by (simp add: set_index_def)
  have "set_index dbb ?b a < 2 ^ ?b" by (rule set_index_bound)
  moreover have "(2::nat) ^ ?b < 2 ^ 31" using b(3) by (intro power_strict_increasing) auto
  ultimately have "unat w < 2 ^ 63" using u by simp
  then have "sint w = int (unat w)" by (rule sint_small)
  then show ?thesis using w(1) u set_index_bound [of dbb ?b a] b(4)
    unfolding e addressToCacheSet_def Let_def
    by (simp add: nat_less_iff flip: assms(2))
qed

text \<open>The set that an address maps to.\<close>

definition the_set :: "nat \<Rightarrow> 'd cache_memory \<Rightarrow> address \<Rightarrow> 'd cache_entry list" where
  "the_set dbb cm a = cm_cache cm ! set_index dbb (cm_num_set_bits cm) a"

lemma find_find_index: "find P xs = map_option ((!) xs) (find_index P xs)"
  by (induction xs) (auto simp: option.map_comp comp_def)

lemma the_set_props:
  assumes "cm_inv dbb cm"
  shows "set_index dbb (cm_num_set_bits cm) a < length (cm_cache cm)"
    and "length (the_set dbb cm a) = cm_assoc cm"
    and "tags_distinct (the_set dbb cm a)"
  using assms set_index_bound [of dbb "cm_num_set_bits cm" a]
  by (auto simp: cm_inv_def the_set_def)

lemma findTagInSet_ok:
  assumes "cm_inv dbb cm" "a = line_address a"
  shows "findTagInSet cm (set_index dbb (cm_num_set_bits cm) a) a
    = Inr (find_index (tag_match a) (the_set dbb cm a))"
proof -
  have "search (tag_match a) [0..<cm_assoc cm] (the_set dbb cm a)
      = Inr (find_index (tag_match a) (the_set dbb cm a))"
    using search_all [of "tag_match a" "the_set dbb cm a"] the_set_props(2) [OF assms(1), of a] by simp
  then show ?thesis using the_set_props(1) [OF assms(1), of a]
    by (simp add: findTagInSet_def the_set_def flip: assms(2))
qed

lemma cached_iff:
  assumes "cm_inv dbb cm"
  shows "cached dbb cm a = Some e \<longleftrightarrow>
    (\<exists>s < length (cm_cache cm). \<exists>i < cm_assoc cm. cm_cache cm ! s ! i = e \<and> present e \<and> ce_address e = a)"
    (is "_ \<longleftrightarrow> ?R")
proof
  assume c: "cached dbb cm a = Some e"
  then obtain i where "i < cm_assoc cm" "the_set dbb cm a ! i = e" "tag_match a e"
    using the_set_props(2) [OF assms, of a]
    by (auto simp: cached_def find_find_index the_set_def dest!: find_index_Some split: if_splits)
  then show ?R using the_set_props(1) [OF assms, of a]
    by (auto simp: the_set_def present_def tag_match_def)
next
  assume ?R
  then obtain s i where si: "s < length (cm_cache cm)" "i < cm_assoc cm" "cm_cache cm ! s ! i = e"
    "present e" "ce_address e = a" by blast
  have l: "length (cm_cache cm ! s) = cm_assoc cm" and s: "s < cm_num_sets cm"
    using assms si(1) by (auto simp: cm_inv_def)
  then have "e \<in> set (cm_cache cm ! s)" using si(2,3) by (metis nth_mem)
  then have al: "a = line_address a" and ix: "set_index dbb (cm_num_set_bits cm) a = s"
    using assms si(4,5) s by (auto simp: cm_inv_def)
  have xs: "the_set dbb cm a = cm_cache cm ! s" using ix by (simp add: the_set_def)
  have tm: "tag_match a e" using si(4,5) by (simp add: tag_match_def present_def)
  obtain j where j: "find_index (tag_match a) (the_set dbb cm a) = Some j"
    using find_index_exists [of e "the_set dbb cm a" "tag_match a"] \<open>e \<in> set (cm_cache cm ! s)\<close> tm xs
    by auto
  from find_index_Some [OF j] have "j < cm_assoc cm" "tag_match a (cm_cache cm ! s ! j)"
    using l xs by auto
  then have "j = i" using the_set_props(3) [OF assms, of a] si l xs
    by (auto simp: tags_distinct_def tag_match_def present_def)
  then show "cached dbb cm a = Some e" using al j si(3) xs
    by (simp add: cached_def find_find_index the_set_def)
qed

lemma cached_aligned:
  "cached dbb cm a = Some e \<Longrightarrow> a = line_address a \<and> present e \<and> ce_address e = a"
  by (auto simp: cached_def find_Some_iff tag_match_def present_def split: if_splits)

lemma cm_lookup_ok:
  assumes "cm_inv dbb cm" "a = line_address a"
  shows "cached dbb cm a = None \<Longrightarrow> cm_lookup dbb a cm = Inl Assert_failed"
    and "cached dbb cm a = Some e \<Longrightarrow> \<exists>s l. cm_lookup dbb a cm = Inr (s, l) \<and> s < length (cm_cache cm)
      \<and> l < cm_assoc cm \<and> cm_entry cm s l = Inr e \<and> cm_cache cm ! s ! l = e \<and> s = set_index dbb (cm_num_set_bits cm) a"
proof -
  let ?s = "set_index dbb (cm_num_set_bits cm) a"
  have L: "cm_lookup dbb a cm = (case find_index (tag_match a) (the_set dbb cm a) of
      None \<Rightarrow> Inl Assert_failed | Some l \<Rightarrow> Inr (?s, l))"
    using addressToCacheSet_ok [OF assms] findTagInSet_ok [OF assms]
    by (simp add: cm_lookup_def flip: assms(2))
  have C: "cached dbb cm a = map_option ((!) (the_set dbb cm a)) (find_index (tag_match a) (the_set dbb cm a))"
    using assms(2) by (simp add: cached_def find_find_index the_set_def)
  show "cm_lookup dbb a cm = Inl Assert_failed" if "cached dbb cm a = None"
    using that C L by simp
  assume "cached dbb cm a = Some e"
  with C obtain l where l: "find_index (tag_match a) (the_set dbb cm a) = Some l"
    "the_set dbb cm a ! l = e" by (cases "find_index (tag_match a) (the_set dbb cm a)") auto
  have "l < cm_assoc cm" using find_index_Some [OF l(1)] the_set_props(2) [OF assms(1), of a] by simp
  then show "\<exists>s l. cm_lookup dbb a cm = Inr (s, l) \<and> s < length (cm_cache cm)
      \<and> l < cm_assoc cm \<and> cm_entry cm s l = Inr e \<and> cm_cache cm ! s ! l = e \<and> s = ?s"
    using L l the_set_props [OF assms(1), of a] by (auto simp: cm_entry_def the_set_def)
qed

text \<open>Replacing one entry: the invariant and the abstract map.\<close>

lemma cm_put_ok:
  assumes inv: "cm_inv dbb cm" and si: "s < length (cm_cache cm)" "i < cm_assoc cm"
    and new: "present e \<Longrightarrow> ce_address e = line_address (ce_address e)
      \<and> set_index dbb (cm_num_set_bits cm) (ce_address e) = s
      \<and> (\<forall>j < cm_assoc cm. j \<noteq> i \<longrightarrow> present (cm_cache cm ! s ! j) \<longrightarrow>
           ce_address (cm_cache cm ! s ! j) \<noteq> ce_address e)"
  obtains cm' where "cm_put s i e cm = Inr cm'" "cm_inv dbb cm'"
    "cm_id cm' = cm_id cm" "cm_assoc cm' = cm_assoc cm" "cm_num_set_bits cm' = cm_num_set_bits cm"
    "cm_cache cm' = (cm_cache cm)[s := (cm_cache cm ! s)[i := e]]"
    "\<And>b. cached dbb cm' b = (if present e \<and> b = ce_address e then Some e
       else if present (cm_cache cm ! s ! i) \<and> b = ce_address (cm_cache cm ! s ! i) then None
       else cached dbb cm b)"
proof -
  let ?old = "cm_cache cm ! s ! i"
  define cm' where "cm' = cm\<lparr>cm_cache := (cm_cache cm)[s := (cm_cache cm ! s)[i := e]]\<rparr>"
  have l: "length (cm_cache cm ! s) = cm_assoc cm" using inv si by (auto simp: cm_inv_def)
  have put: "cm_put s i e cm = Inr cm'" using si l by (simp add: cm_put_def cm'_def)
  have td: "tags_distinct (cm_cache cm ! s)" using inv si by (auto simp: cm_inv_def)
  have "tags_distinct ((cm_cache cm ! s)[i := e])"
    using td new l si unfolding tags_distinct_def
    by (auto simp: nth_list_update split: if_splits)
  then have inv': "cm_inv dbb cm'" using inv new l si
    by (auto simp: cm_inv_def cm'_def nth_list_update dest!: subsetD [OF set_update_subset_insert])
  have uniq: "s' = s \<and> j = i" if "s' < length (cm_cache cm)" "j < cm_assoc cm"
    "present (cm_cache cm ! s' ! j)" "present ?old" "ce_address (cm_cache cm ! s' ! j) = ce_address ?old"
    for s' j
  proof -
    have "cached dbb cm (ce_address ?old) = Some (cm_cache cm ! s' ! j)"
      unfolding cached_iff [OF inv] using that by auto
    moreover have "set_index dbb (cm_num_set_bits cm) (ce_address (cm_cache cm ! s' ! j)) = s'"
      "set_index dbb (cm_num_set_bits cm) (ce_address ?old) = s"
      using inv that si unfolding cm_inv_def by (metis nth_mem)+
    ultimately have "s' = s" using that by simp
    then show ?thesis using td that si l by (auto simp: tags_distinct_def)
  qed
  have len: "length (cm_cache cm') = length (cm_cache cm)" "cm_assoc cm' = cm_assoc cm"
    by (simp_all add: cm'_def)
  have E: "cm_cache cm' ! s' ! j = (if s' = s \<and> j = i then e else cm_cache cm ! s' ! j)"
    if "s' < length (cm_cache cm)" "j < cm_assoc cm" for s' j
    using that si l by (simp add: cm'_def nth_list_update)
  have "cached dbb cm' b = Some x \<longleftrightarrow> (if present e \<and> b = ce_address e then Some e
       else if present ?old \<and> b = ce_address ?old then None else cached dbb cm b) = Some x" for b x
  proof -
    have new': "s' = s \<and> j = i" if "s' < length (cm_cache cm)" "j < cm_assoc cm" "present e"
      "present (cm_cache cm ! s' ! j)" "ce_address (cm_cache cm ! s' ! j) = ce_address e" for s' j
    proof -
      have "set_index dbb (cm_num_set_bits cm) (ce_address (cm_cache cm ! s' ! j)) = s'"
        using inv that unfolding cm_inv_def by (metis nth_mem)
      then have "s' = s" using new that by simp
      then show ?thesis using new that by auto
    qed
    define A where "A y \<longleftrightarrow> (\<exists>s' < length (cm_cache cm). \<exists>j < cm_assoc cm. (s', j) \<noteq> (s, i)
        \<and> cm_cache cm ! s' ! j = x \<and> present x \<and> ce_address x = y)" for y
    have C': "cached dbb cm' b = Some x \<longleftrightarrow> (present e \<and> ce_address e = b \<and> x = e) \<or> A b"
    proof
      assume "cached dbb cm' b = Some x"
      then obtain s' j where sj: "s' < length (cm_cache cm)" "j < cm_assoc cm"
        "cm_cache cm' ! s' ! j = x" "present x" "ce_address x = b"
        unfolding cached_iff [OF inv'] len by blast
      then show "(present e \<and> ce_address e = b \<and> x = e) \<or> A b"
        unfolding A_def using E [OF sj(1,2)] by (cases "s' = s \<and> j = i") auto
    next
      assume "(present e \<and> ce_address e = b \<and> x = e) \<or> A b"
      then show "cached dbb cm' b = Some x"
        unfolding cached_iff [OF inv'] len A_def using E si by (metis prod.inject)
    qed
    have C: "cached dbb cm b = Some x \<longleftrightarrow> (present ?old \<and> ce_address ?old = b \<and> x = ?old) \<or> A b"
      unfolding cached_iff [OF inv] A_def using si by auto
    have N1: "\<not> A (ce_address e)" if "present e" using new' that unfolding A_def by blast
    have N2: "\<not> A (ce_address ?old)" if "present ?old" using uniq that unfolding A_def by blast
    show ?thesis
    proof (cases "present e \<and> b = ce_address e")
      case True
      then show ?thesis using C' N1 by auto
    next
      case False
      then show ?thesis using C' C N2 by (cases "present ?old \<and> b = ce_address ?old") auto
    qed
  qed
  then have "cached dbb cm' b = (if present e \<and> b = ce_address e then Some e
       else if present ?old \<and> b = ce_address ?old then None else cached dbb cm b)" for b
    by (rule option_eqI)
  with put inv' show ?thesis by (intro that [of cm']) (auto simp: cm'_def)
qed

section \<open>The operations on the abstract map\<close>

lemma tryCacheAccess_ok:
  assumes "cm_inv dbb cm" "a = line_address a"
  shows "cached dbb cm a = None \<Longrightarrow> tryCacheAccess dbb a t w cm = Inr (False, None, cm)"
    and "cached dbb cm a = Some e \<Longrightarrow> \<exists>p cm'. tryCacheAccess dbb a t w cm = Inr (p \<noteq> None, p, cm')
      \<and> cm_inv dbb cm' \<and> cached dbb cm' = (cached dbb cm)(a \<mapsto> e\<lparr>ce_last_ref := w_time w\<rparr>)
      \<and> (p \<noteq> None \<longleftrightarrow> ce_permission e = AccessPermission_Read_Write
           \<or> ce_permission e = AccessPermission_Read_Only
             \<and> (t = CacheRequestType_LD \<or> t = CacheRequestType_IFETCH))
      \<and> (\<forall>s l. p = Some (s, l) \<longrightarrow> cm_entry cm' s l = Inr (e\<lparr>ce_last_ref := w_time w\<rparr>))"
proof -
  let ?s = "set_index dbb (cm_num_set_bits cm) a"
  have A: "addressToCacheSet dbb cm a = Inr ?s" by (rule addressToCacheSet_ok [OF assms])
  have F: "findTagInSet cm ?s a = Inr (find_index (tag_match a) (the_set dbb cm a))"
    by (rule findTagInSet_ok [OF assms])
  show "tryCacheAccess dbb a t w cm = Inr (False, None, cm)" if "cached dbb cm a = None"
    using that A F assms(2)
    by (simp add: tryCacheAccess_def cached_def find_find_index the_set_def)
  assume c: "cached dbb cm a = Some e"
  from cm_lookup_ok(2) [OF assms c] obtain l where
    l: "cm_lookup dbb a cm = Inr (?s, l)" "?s < length (cm_cache cm)" "l < cm_assoc cm"
      "cm_entry cm ?s l = Inr e" "cm_cache cm ! ?s ! l = e" by blast
  have fl: "find_index (tag_match a) (the_set dbb cm a) = Some l"
    using l(1) A F assms(2) by (simp add: cm_lookup_def split: option.splits)
  have pe: "present e" "ce_address e = a" using cached_aligned [OF c] by auto
  have lenl: "length (cm_cache cm ! ?s) = cm_assoc cm"
    using the_set_props(2) [OF assms(1), of a] by (simp add: the_set_def)
  let ?e = "e\<lparr>ce_last_ref := w_time w\<rparr>"
  have "ce_address ?e = line_address (ce_address ?e)
      \<and> set_index dbb (cm_num_set_bits cm) (ce_address ?e) = ?s
      \<and> (\<forall>j < cm_assoc cm. j \<noteq> l \<longrightarrow> present (cm_cache cm ! ?s ! j) \<longrightarrow>
           ce_address (cm_cache cm ! ?s ! j) \<noteq> ce_address ?e)"
    using pe assms(2) the_set_props(3) [OF assms(1), of a] l(3,5) lenl
    by (auto simp: tags_distinct_def the_set_def)
  from cm_put_ok [OF assms(1) l(2,3), of ?e, OF this] obtain cm' where
    cm': "cm_put ?s l ?e cm = Inr cm'" "cm_inv dbb cm'"
      "cm_cache cm' = (cm_cache cm)[?s := (cm_cache cm ! ?s)[l := ?e]]"
      "\<And>b. cached dbb cm' b = (if present ?e \<and> b = ce_address ?e then Some ?e
       else if present (cm_cache cm ! ?s ! l) \<and> b = ce_address (cm_cache cm ! ?s ! l) then None
       else cached dbb cm b)" by blast
  have "cached dbb cm' = (cached dbb cm)(a \<mapsto> ?e)"
    using cm'(4) pe l(5) by (auto simp: fun_eq_iff present_def)
  moreover have "cm_entry cm' ?s l = Inr ?e" using l(2,3) lenl by (simp add: cm_entry_def cm'(3))
  ultimately show "\<exists>p cm'. tryCacheAccess dbb a t w cm = Inr (p \<noteq> None, p, cm')
      \<and> cm_inv dbb cm' \<and> cached dbb cm' = (cached dbb cm)(a \<mapsto> ?e)
      \<and> (p \<noteq> None \<longleftrightarrow> ce_permission e = AccessPermission_Read_Write
           \<or> ce_permission e = AccessPermission_Read_Only
             \<and> (t = CacheRequestType_LD \<or> t = CacheRequestType_IFETCH))
      \<and> (\<forall>s l. p = Some (s, l) \<longrightarrow> cm_entry cm' s l = Inr ?e)"
    using A F fl l(4) cm'(1,2) assms(2) 
    by (auto simp: tryCacheAccess_def)
qed

lemma isTagPresent_ok:
  "cm_inv dbb cm \<Longrightarrow> a = line_address a \<Longrightarrow> isTagPresent dbb a cm = Inr (cached dbb cm a \<noteq> None)"
  using addressToCacheSet_ok [of dbb cm a] findTagInSet_ok [of dbb cm a]
  by (auto simp: isTagPresent_def cached_def find_find_index the_set_def)

definition set_full :: "nat \<Rightarrow> 'd cache_memory \<Rightarrow> address \<Rightarrow> bool" where
  "set_full dbb cm a \<longleftrightarrow> (\<forall>e \<in> set (the_set dbb cm a). present e)"

lemma cacheAvail_ok:
  assumes "cm_inv dbb cm" "a = line_address a"
  shows "cacheAvail dbb a cm = Inr (cached dbb cm a \<noteq> None \<or> \<not> set_full dbb cm a)"
proof -
  let ?P = "\<lambda>e. ce_address e = a \<or> ce_permission e = AccessPermission_NotPresent"
  have "search ?P [0..<cm_assoc cm] (the_set dbb cm a) = Inr (find_index ?P (the_set dbb cm a))"
    using search_all [of ?P "the_set dbb cm a"] the_set_props(2) [OF assms(1), of a] by simp
  then have "cacheAvail dbb a cm = Inr (find_index ?P (the_set dbb cm a) \<noteq> None)"
    using addressToCacheSet_ok [OF assms] the_set_props(1) [OF assms(1), of a]
    by (simp add: cacheAvail_def the_set_def flip: assms(2))
  also have "find_index ?P (the_set dbb cm a) \<noteq> None \<longleftrightarrow>
      cached dbb cm a \<noteq> None \<or> \<not> set_full dbb cm a"
    using assms(2)
    by (auto simp: find_index_None cached_def find_None_iff tag_match_def set_full_def present_def the_set_def)
  finally show ?thesis .
qed

lemma cm_allocate_ok:
  assumes "cm_inv dbb cm" "a = line_address a" "cached dbb cm a = None" "\<not> set_full dbb cm a"
  shows "\<exists>cm' e. cm_allocate reset dbb a w cm = Inr cm' \<and> cm_inv dbb cm'
    \<and> cached dbb cm' = (cached dbb cm)(a \<mapsto> (reset e)\<lparr>ce_address := a,
        ce_permission := AccessPermission_Invalid, ce_last_ref := w_time w\<rparr>)"
proof -
  let ?s = "set_index dbb (cm_num_set_bits cm) a"
  let ?P = "\<lambda>e. ce_permission e = AccessPermission_NotPresent"
  have lenl: "length (the_set dbb cm a) = cm_assoc cm" and s: "?s < length (cm_cache cm)"
    using the_set_props [OF assms(1), of a] by auto
  obtain i where i: "find_index ?P (the_set dbb cm a) = Some i"
    using assms(4) find_index_None [of ?P "the_set dbb cm a"] by (auto simp: set_full_def present_def)
  from find_index_Some [OF i] lenl have il: "i < cm_assoc cm" and ip: "\<not> present (cm_cache cm ! ?s ! i)"
    by (auto simp: present_def the_set_def)
  let ?e = "(reset (cm_cache cm ! ?s ! i))\<lparr>ce_address := a,
        ce_permission := AccessPermission_Invalid, ce_last_ref := w_time w\<rparr>"
  have pe: "present ?e" by (simp add: present_def)
  have "\<forall>j < cm_assoc cm. j \<noteq> i \<longrightarrow> present (cm_cache cm ! ?s ! j) \<longrightarrow>
           ce_address (cm_cache cm ! ?s ! j) \<noteq> a"
  proof (intro allI impI notI)
    fix j assume j: "j < cm_assoc cm" "present (cm_cache cm ! ?s ! j)" "ce_address (cm_cache cm ! ?s ! j) = a"
    then have "cached dbb cm a = Some (cm_cache cm ! ?s ! j)" unfolding cached_iff [OF assms(1)] using s by blast
    with assms(3) show False by simp
  qed
  then have "ce_address ?e = line_address (ce_address ?e)
      \<and> set_index dbb (cm_num_set_bits cm) (ce_address ?e) = ?s
      \<and> (\<forall>j < cm_assoc cm. j \<noteq> i \<longrightarrow> present (cm_cache cm ! ?s ! j) \<longrightarrow>
           ce_address (cm_cache cm ! ?s ! j) \<noteq> ce_address ?e)"
    using assms(2) by simp
  from cm_put_ok [OF assms(1) s il, of ?e, OF this] obtain cm' where
    cm': "cm_put ?s i ?e cm = Inr cm'" "cm_inv dbb cm'"
      "\<And>b. cached dbb cm' b = (if present ?e \<and> b = ce_address ?e then Some ?e
       else if present (cm_cache cm ! ?s ! i) \<and> b = ce_address (cm_cache cm ! ?s ! i) then None
       else cached dbb cm b)" by blast
  have c: "cached dbb cm' = (cached dbb cm)(a \<mapsto> ?e)"
    using cm'(3) pe ip by (simp add: fun_eq_iff)
  have S: "search ?P [0..<cm_assoc cm] (cm_cache cm ! ?s) = Inr (Some i)"
    using search_all [of ?P "the_set dbb cm a"] lenl i by (simp add: the_set_def)
  have "cm_allocate reset dbb a w cm = Inr cm'"
    using cm'(1) S s il lenl assms(3,4) addressToCacheSet_ok [OF assms(1,2)]
    by (simp add: cm_allocate_def isTagPresent_ok [OF assms(1,2)] cacheAvail_ok [OF assms(1,2)]
        cm_entry_def the_set_def flip: assms(2))
  with cm'(2) c show ?thesis by blast
qed

text \<open>In particular the error exit at the end of \<open>allocate\<close> is never reached.\<close>

lemma cm_allocate_no_error:
  assumes "cm_inv dbb cm" "a = line_address a"
  shows "cm_allocate reset dbb a w cm \<noteq> Inl Error_exit"
proof (cases "cached dbb cm a = None \<and> \<not> set_full dbb cm a")
  case True
  then show ?thesis using cm_allocate_ok [OF assms, of reset w] by auto
next
  case False
  then have "cm_allocate reset dbb a w cm = Inl Assert_failed"
    by (cases "cached dbb cm a") (auto simp: cm_allocate_def isTagPresent_ok [OF assms]
        cacheAvail_ok [OF assms] simp flip: assms(2))
  then show ?thesis by simp
qed

lemma cm_modify_ok:
  assumes "cm_inv dbb cm" "a = line_address a" "cached dbb cm a = Some e" "ce_address (f e) = a"
  shows "\<exists>cm'. cm_modify dbb a f cm = Inr cm' \<and> cm_inv dbb cm' \<and> cm_id cm' = cm_id cm
    \<and> cached dbb cm' = (cached dbb cm)(a := if present (f e) then Some (f e) else None)"
proof -
  let ?s = "set_index dbb (cm_num_set_bits cm) a"
  from cm_lookup_ok(2) [OF assms(1-3)] obtain l where
    l: "cm_lookup dbb a cm = Inr (?s, l)" "?s < length (cm_cache cm)" "l < cm_assoc cm"
      "cm_entry cm ?s l = Inr e" "cm_cache cm ! ?s ! l = e" by blast
  have pe: "present e" "ce_address e = a" using cached_aligned [OF assms(3)] by auto
  have lenl: "length (cm_cache cm ! ?s) = cm_assoc cm"
    using the_set_props(2) [OF assms(1), of a] by (simp add: the_set_def)
  have "ce_address (f e) = line_address (ce_address (f e))
      \<and> set_index dbb (cm_num_set_bits cm) (ce_address (f e)) = ?s
      \<and> (\<forall>j < cm_assoc cm. j \<noteq> l \<longrightarrow> present (cm_cache cm ! ?s ! j) \<longrightarrow>
           ce_address (cm_cache cm ! ?s ! j) \<noteq> ce_address (f e))"
    using pe assms(2,4) the_set_props(3) [OF assms(1), of a] l(3,5) lenl
    by (auto simp: tags_distinct_def the_set_def)
  from cm_put_ok [OF assms(1) l(2,3), of "f e", OF this] obtain cm' where
    cm': "cm_put ?s l (f e) cm = Inr cm'" "cm_inv dbb cm'" "cm_id cm' = cm_id cm"
      "\<And>b. cached dbb cm' b = (if present (f e) \<and> b = ce_address (f e) then Some (f e)
       else if present (cm_cache cm ! ?s ! l) \<and> b = ce_address (cm_cache cm ! ?s ! l) then None
       else cached dbb cm b)" by blast
  have "cached dbb cm' = (cached dbb cm)(a := if present (f e) then Some (f e) else None)"
    using cm'(4) pe l(5) assms(4) by (simp add: fun_eq_iff)
  then show ?thesis using l cm' by (auto simp: cm_modify_def)
qed

lemma cm_deallocate_ok:
  assumes "cm_inv dbb cm" "a = line_address a" "cached dbb cm a = Some e"
  shows "\<exists>cm'. cm_deallocate dbb a cm = Inr cm' \<and> cm_inv dbb cm'
    \<and> cached dbb cm' = (cached dbb cm)(a := None)"
  using cm_modify_ok [OF assms, of "\<lambda>e. e\<lparr>ce_permission := AccessPermission_NotPresent\<rparr>"]
    cached_aligned [OF assms(3)] assms(3)
  by (auto simp: cm_deallocate_def isTagPresent_ok [OF assms(1,2)] present_def simp flip: assms(2))

lemma cm_getPermission_ok:
  assumes "cm_inv dbb cm" "a = line_address a" "cached dbb cm a = Some e"
  shows "cm_getPermission dbb a cm = Inr (ce_permission e)"
  using cm_lookup_ok(2) [OF assms] by (auto simp: cm_getPermission_def simp flip: assms(2))

lemma changePermission_ok:
  assumes "cm_inv dbb cm" "a = line_address a" "cached dbb cm a = Some e"
    "p \<noteq> AccessPermission_NotPresent"
  shows "\<exists>cm'. changePermission dbb a p cm = Inr (cm', (cm_id cm, a, ce_permission e, p))
    \<and> cm_inv dbb cm' \<and> cached dbb cm' = (cached dbb cm)(a \<mapsto> e\<lparr>ce_permission := p\<rparr>)"
proof -
  let ?f = "\<lambda>e. e\<lparr>ce_permission := p\<rparr>"
  obtain cm' where cm': "cm_modify dbb a ?f cm = Inr cm'" "cm_inv dbb cm'"
    "cached dbb cm' = (cached dbb cm)(a \<mapsto> ?f e)"
    using cm_modify_ok [OF assms(1-3), of ?f] cached_aligned [OF assms(3)] assms(4)
    by (auto simp: present_def)
  have "cm_getPermission dbb a cm' = Inr p"
    using cm_getPermission_ok [OF cm'(2) assms(2), of "?f e"] cm'(3) by simp
  moreover have "p = AccessPermission_Read_Write \<or> p = AccessPermission_Read_Only
            \<or> p = AccessPermission_Invalid" using assms(4) by (cases p) auto
  ultimately show ?thesis using cm' cm_getPermission_ok [OF assms(1-3)]
    by (auto simp: changePermission_def check_def simp flip: assms(2))
qed

lemma setMRU_ok:
  assumes "cm_inv dbb cm" "a = line_address a" "cached dbb cm a = Some e"
  shows "\<exists>cm'. setMRU dbb a w cm = Inr cm' \<and> cm_inv dbb cm'
    \<and> cached dbb cm' = (cached dbb cm)(a \<mapsto> e\<lparr>ce_last_ref := w_time w\<rparr>)"
  using cm_modify_ok [OF assms, of "\<lambda>e. e\<lparr>ce_last_ref := w_time w\<rparr>"] cached_aligned [OF assms(3)]
  by (auto simp: setMRU_def present_def)

section \<open>Replacement\<close>

lemma probe_loop_ok:
  assumes "\<forall>i \<in> set is. i < length xs \<and> present (xs ! i)" "k < length xs" "t = ce_last_ref (xs ! k)"
  shows "\<exists>j. probe_loop xs is (k, t) = Inr (j, ce_last_ref (xs ! j)) \<and> j < length xs
    \<and> ce_last_ref (xs ! j) \<le> t \<and> (\<forall>i \<in> set is. ce_last_ref (xs ! j) \<le> ce_last_ref (xs ! i))"
  using assms
proof (induction "is" arbitrary: k t)
  case (Cons i "is")
  show ?case
  proof (cases "ce_last_ref (xs ! i) < t")
    case True
    have "\<exists>j. probe_loop xs is (i, ce_last_ref (xs ! i)) = Inr (j, ce_last_ref (xs ! j)) \<and> j < length xs
      \<and> ce_last_ref (xs ! j) \<le> ce_last_ref (xs ! i)
      \<and> (\<forall>i \<in> set is. ce_last_ref (xs ! j) \<le> ce_last_ref (xs ! i))"
      by (rule Cons.IH) (use Cons.prems in auto)
    then show ?thesis using True Cons.prems by (auto simp: present_def)
  next
    case False
    have "\<exists>j. probe_loop xs is (k, t) = Inr (j, ce_last_ref (xs ! j)) \<and> j < length xs
      \<and> ce_last_ref (xs ! j) \<le> t \<and> (\<forall>i \<in> set is. ce_last_ref (xs ! j) \<le> ce_last_ref (xs ! i))"
      by (rule Cons.IH) (use Cons.prems in auto)
    then show ?thesis using False Cons.prems by (auto simp: present_def)
  qed
qed auto

lemma cacheProbe_ok:
  assumes "cm_inv dbb cm" "a = line_address a" "cached dbb cm a = None" "set_full dbb cm a"
    "0 < cm_assoc cm"
  shows "\<exists>b e. cacheProbe dbb a cm = Inr b \<and> cached dbb cm b = Some e \<and> b \<noteq> a
    \<and> set_index dbb (cm_num_set_bits cm) b = set_index dbb (cm_num_set_bits cm) a
    \<and> (\<forall>e' \<in> set (the_set dbb cm a). ce_last_ref e \<le> ce_last_ref e')"
proof -
  let ?s = "set_index dbb (cm_num_set_bits cm) a"
  let ?xs = "the_set dbb cm a"
  have lenl: "length ?xs = cm_assoc cm" and s: "?s < length (cm_cache cm)"
    using the_set_props [OF assms(1), of a] by auto
  have pr: "\<forall>i \<in> set [0..<cm_assoc cm]. i < length ?xs \<and> present (?xs ! i)"
    using assms(4) lenl by (auto simp: set_full_def)
  from probe_loop_ok [OF pr, of 0] lenl assms(5) obtain j where
    j: "probe_loop ?xs [0..<cm_assoc cm] (0, ce_last_ref (?xs ! 0)) = Inr (j, ce_last_ref (?xs ! j))"
      "j < cm_assoc cm" "\<forall>i < cm_assoc cm. ce_last_ref (?xs ! j) \<le> ce_last_ref (?xs ! i)" by auto
  let ?e = "?xs ! j"
  have P: "cacheProbe dbb a cm = Inr (ce_address ?e)"
    using j(1,2) s lenl assms(3-5) addressToCacheSet_ok [OF assms(1,2)]
    by (simp add: cacheProbe_def cacheAvail_ok [OF assms(1,2)] cm_entry_def the_set_def
        flip: assms(2))
  have pe: "present ?e" using pr j(2) by simp
  then have c: "cached dbb cm (ce_address ?e) = Some ?e"
    unfolding cached_iff [OF assms(1)] using s j(2) by (auto simp: the_set_def)
  moreover have "set_index dbb (cm_num_set_bits cm) (ce_address ?e) = ?s"
    using assms(1) s j(2) lenl pe unfolding cm_inv_def by (metis nth_mem the_set_def)
  moreover have "\<forall>e' \<in> set ?xs. ce_last_ref ?e \<le> ce_last_ref e'"
    using j(3) lenl by (auto simp: in_set_conv_nth)
  moreover have "ce_address ?e \<noteq> a" using c assms(3) by auto
  ultimately show ?thesis using P by blast
qed

text \<open>After the victim is deallocated the new block can be allocated.\<close>

lemma evict_then_allocate:
  assumes "cm_inv dbb cm" "a = line_address a" "cached dbb cm a = None" "set_full dbb cm a"
    "0 < cm_assoc cm"
  shows "\<exists>b cm1 cm2. cacheProbe dbb a cm = Inr b \<and> cm_deallocate dbb b cm = Inr cm1
    \<and> cm_allocate reset dbb a w cm1 = Inr cm2 \<and> cm_inv dbb cm2
    \<and> cached dbb cm2 b = None \<and> cached dbb cm2 a \<noteq> None
    \<and> (\<forall>c. c \<noteq> a \<longrightarrow> c \<noteq> b \<longrightarrow> cached dbb cm2 c = cached dbb cm c)"
proof -
  obtain b e where b: "cacheProbe dbb a cm = Inr b" "cached dbb cm b = Some e" "b \<noteq> a"
    "set_index dbb (cm_num_set_bits cm) b = set_index dbb (cm_num_set_bits cm) a"
    using cacheProbe_ok [OF assms] by blast
  have bl: "b = line_address b" using cached_aligned [OF b(2)] by blast
  let ?f = "\<lambda>e. e\<lparr>ce_permission := AccessPermission_NotPresent\<rparr>"
  from cm_lookup_ok(2) [OF assms(1) bl b(2)] obtain s l where
    l: "cm_lookup dbb b cm = Inr (s, l)" "s < length (cm_cache cm)" "l < cm_assoc cm"
      "cm_entry cm s l = Inr e" "cm_cache cm ! s ! l = e" "s = set_index dbb (cm_num_set_bits cm) b" by blast
  obtain cm1 where cm1: "cm_put s l (?f e) cm = Inr cm1" "cm_inv dbb cm1"
    "cm_num_set_bits cm1 = cm_num_set_bits cm"
    "cm_cache cm1 = (cm_cache cm)[s := (cm_cache cm ! s)[l := ?f e]]"
    by (rule cm_put_ok [OF assms(1) l(2,3), of "?f e"]) (auto simp: present_def)
  have d: "cm_deallocate dbb b cm = Inr cm1"
    using cm1(1) l b(2) bl
    by (simp add: cm_deallocate_def isTagPresent_ok [OF assms(1) bl] cm_modify_def flip: bl)
  from cm_deallocate_ok [OF assms(1) bl b(2)] d have c1: "cached dbb cm1 = (cached dbb cm)(b := None)"
    by simp
  have "?f e \<in> set (the_set dbb cm1 a)"
    using l(2,3,6) b(4) the_set_props(2) [OF assms(1), of b]
    by (auto simp: the_set_def cm1(3,4) set_update_memI)
  then have nf: "\<not> set_full dbb cm1 a" by (fastforce simp: set_full_def present_def)
  have "cached dbb cm1 a = None" using c1 assms(3) by simp
  from cm_allocate_ok [OF cm1(2) assms(2) this nf, of reset w] show ?thesis
    using b(1,3) d c1 by fastforce
qed

end
