(* ===== verification/RubyMap.thy ===== *)
theory RubyMap
  imports Fes2_Prelude "HOL-Library.AList"
begin

text \<open>
  The container of common/Map.h, a hash map whose \<open>lookup\<close> and \<open>erase\<close> assert that the
  key is present. It is an association list without duplicate keys. The order in which the
  hash map enumerates its keys is not specified, so an operation that depends on it gets the
  order as an argument. The interface \<open>key_table\<close> is what the tables of the memory system rely
  on; its interpretation shows that the map provides it.
\<close>

type_synonym ('k, 'v) rmap = "('k \<times> 'v) list"

definition rmap_add :: "'k \<Rightarrow> 'v \<Rightarrow> ('k, 'v) rmap \<Rightarrow> ('k, 'v) rmap" where
  "rmap_add k v m = AList.update k v m"

definition rmap_exist :: "('k, 'v) rmap \<Rightarrow> 'k \<Rightarrow> bool" where
  "rmap_exist m k \<longleftrightarrow> map_of m k \<noteq> None"

definition rmap_size :: "('k, 'v) rmap \<Rightarrow> nat" where
  "rmap_size m = length m"

definition rmap_erase :: "'k \<Rightarrow> ('k, 'v) rmap \<Rightarrow> ('k, 'v) rmap result" where
  "rmap_erase k m = check (rmap_exist m k) Assert_failed (Inr (AList.delete k m))"

definition rmap_lookup :: "('k, 'v) rmap \<Rightarrow> 'k \<Rightarrow> 'v result" where
  "rmap_lookup m k =
     (case map_of m k of None \<Rightarrow> Inl Assert_failed | Some v \<Rightarrow> Inr v)"

definition rmap_keys :: "('k, 'v) rmap \<Rightarrow> 'k list" where
  "rmap_keys m = map fst m"

definition rmap_clear :: "('k, 'v) rmap \<Rightarrow> ('k, 'v) rmap" where
  "rmap_clear m = []"

definition rmap_inv :: "('k, 'v) rmap \<Rightarrow> bool" where
  "rmap_inv m \<longleftrightarrow> distinct (map fst m)"

section \<open>The interface\<close>

locale key_table =
  fixes add :: "'k \<Rightarrow> 'v \<Rightarrow> 'm \<Rightarrow> 'm"
    and erase :: "'k \<Rightarrow> 'm \<Rightarrow> 'm result"
    and lookup :: "'m \<Rightarrow> 'k \<Rightarrow> 'v result"
    and exist :: "'m \<Rightarrow> 'k \<Rightarrow> bool"
    and size :: "'m \<Rightarrow> nat"
    and inv :: "'m \<Rightarrow> bool"
    and abs :: "'m \<Rightarrow> 'k \<rightharpoonup> 'v"
  assumes add_ok: "inv m \<Longrightarrow> inv (add k v m) \<and> abs (add k v m) = (abs m)(k \<mapsto> v)"
    and erase_present: "inv m \<Longrightarrow> exist m k \<Longrightarrow>
      \<exists>m'. erase k m = Inr m' \<and> inv m' \<and> abs m' = (abs m)(k := None)"
    and erase_absent: "\<not> exist m k \<Longrightarrow> erase k m = Inl Assert_failed"
    and lookup_ok: "lookup m k = (case abs m k of None \<Rightarrow> Inl Assert_failed | Some v \<Rightarrow> Inr v)"
    and exist_ok: "exist m k \<longleftrightarrow> abs m k \<noteq> None"
    and size_ok: "inv m \<Longrightarrow> finite (dom (abs m)) \<and> size m = card (dom (abs m))"
begin

lemma exist_add: "inv m \<Longrightarrow> exist (add k v m) k' \<longleftrightarrow> k' = k \<or> exist m k'"
  by (simp add: exist_ok add_ok)

lemma lookup_add: "inv m \<Longrightarrow> lookup (add k v m) k' = (if k' = k then Inr v else lookup m k')"
  by (simp add: lookup_ok add_ok)

lemma lookup_exist: "exist m k \<Longrightarrow> \<exists>v. lookup m k = Inr v \<and> abs m k = Some v"
  by (auto simp: lookup_ok exist_ok)

lemma lookupE: "lookup m k = Inr v \<Longrightarrow> abs m k = Some v"
  by (simp add: lookup_ok split: option.splits)

lemma eraseE:
  assumes "inv m" "erase k m = Inr m'"
  shows "inv m' \<and> exist m k \<and> abs m' = (abs m)(k := None)"
proof -
  have "exist m k" using assms(2) erase_absent [of m k] by fastforce
  with erase_present [OF assms(1) this] assms(2) show ?thesis by auto
qed

lemma size_add:
  assumes "inv m"
  shows "size (add k v m) = (if exist m k then size m else size m + 1)"
  using size_ok [OF assms] size_ok [of "add k v m"] add_ok [OF assms, of k v]
  by (auto simp: exist_ok insert_absorb domIff)

lemma size_erase:
  assumes "inv m" "erase k m = Inr m'"
  shows "size m = size m' + 1"
proof -
  have k: "k \<in> dom (abs m)" using eraseE [OF assms] by (auto simp: exist_ok)
  have "dom (abs m') = dom (abs m) - {k}" using eraseE [OF assms] by auto
  moreover have "0 < card (dom (abs m))" using k size_ok [OF assms(1)] card_gt_0_iff by blast
  ultimately show ?thesis
    using size_ok [OF assms(1)] size_ok [of m'] eraseE [OF assms] k by simp
qed

lemma add_erase:
  assumes "inv m" "\<not> exist m k" "erase k (add k v m) = Inr m'"
  shows "abs m' = abs m"
  using eraseE [OF conjunct1 [OF add_ok [OF assms(1)]] assms(3)] add_ok [OF assms(1), of k v] assms(2)
  by (auto simp: exist_ok)

end

interpretation rmap: key_table rmap_add rmap_erase rmap_lookup rmap_exist rmap_size rmap_inv map_of
proof unfold_locales
  fix m :: "('k \<times> 'v) list" and k and v :: 'v
  assume i: "rmap_inv m"
  then show "rmap_inv (rmap_add k v m) \<and> map_of (rmap_add k v m) = (map_of m)(k \<mapsto> v)"
    by (simp add: rmap_inv_def rmap_add_def distinct_update update_conv')
  show "finite (dom (map_of m)) \<and> rmap_size m = card (dom (map_of m))"
    using i distinct_card [of "map fst m"]
    by (simp add: rmap_size_def finite_dom_map_of dom_map_of_conv_image_fst rmap_inv_def)
  show "\<exists>m'. rmap_erase k m = Inr m' \<and> rmap_inv m' \<and> map_of m' = (map_of m)(k := None)"
    if "rmap_exist m k"
    using i that by (simp add: rmap_inv_def rmap_erase_def distinct_delete delete_conv')
qed (auto simp: rmap_erase_def rmap_lookup_def rmap_exist_def)

lemma rmap_inv_empty [simp]: "rmap_inv []"
  by (simp add: rmap_inv_def)

lemma set_rmap_keys: "set (rmap_keys m) = dom (map_of m)"
  by (simp add: rmap_keys_def dom_map_of_conv_image_fst)

end
