(* ===== verification/SignedInts.thy ===== *)
theory SignedInts
  imports Fes2_Prelude "HOL-Library.Word"
begin

text \<open>
  Signed integers of the code that can leave their range. The counters and sums that only grow are
  kept as \<open>int\<close> and every operation on them is followed by \<open>wrap32\<close> or \<open>wrap64\<close>, the value in two's
  complement that the compiled code stores. The lemmas say when nothing is lost.
\<close>

definition wrap32 :: "int \<Rightarrow> int" where
  "wrap32 x = signed_take_bit 31 x"

definition wrap64 :: "int \<Rightarrow> int" where
  "wrap64 x = signed_take_bit 63 x"

lemma wrap32_id: "- (2 ^ 31) \<le> x \<Longrightarrow> x < 2 ^ 31 \<Longrightarrow> wrap32 x = x"
  unfolding wrap32_def by (rule signed_take_bit_int_eq_self)

lemma wrap64_id: "- (2 ^ 63) \<le> x \<Longrightarrow> x < 2 ^ 63 \<Longrightarrow> wrap64 x = x"
  unfolding wrap64_def by (rule signed_take_bit_int_eq_self)

lemma wrap32_nonneg: "0 \<le> x \<Longrightarrow> x < 2 ^ 31 \<Longrightarrow> wrap32 x = x"
  by (rule wrap32_id) simp_all

lemma wrap64_nonneg: "0 \<le> x \<Longrightarrow> x < 2 ^ 63 \<Longrightarrow> wrap64 x = x"
  by (rule wrap64_id) simp_all

lemma wrap64_0 [simp]: "wrap64 0 = 0"
  by (simp add: wrap64_def)

text \<open>Sums may be wrapped at every step or once at the end.\<close>

lemma wrap64_add: "wrap64 (wrap64 x + y) = wrap64 (x + y)"
proof -
  have "signed_take_bit 63 (signed_take_bit 63 x + y)
      = signed_take_bit 63 (signed_take_bit 63 (signed_take_bit 63 x) + signed_take_bit 63 y)"
    by (rule signed_take_bit_add [symmetric])
  also have "\<dots> = signed_take_bit 63 (signed_take_bit 63 x + signed_take_bit 63 y)" by simp
  also have "\<dots> = signed_take_bit 63 (x + y)" by (rule signed_take_bit_add)
  finally show ?thesis by (simp add: wrap64_def)
qed

text \<open>They are the signed values of machine words.\<close>

lemma wrap32_sint: "wrap32 x = sint (word_of_int x :: 32 word)"
  by (simp add: wrap32_def sint_sbintrunc')

lemma wrap64_sint: "wrap64 x = sint (word_of_int x :: 64 word)"
  by (simp add: wrap64_def sint_sbintrunc')

end
