(* ===== verification/MessageBuffer.thy ===== *)
theory MessageBuffer
  imports EventQueue SignedInts
begin

text \<open>
  The message buffers of ruby/buffers: a heap of messages ordered by arrival time and, at equal
  times, by the order of enqueuing, with a bound on the slots, a cached size, optional
  randomised latencies and the wakeup of the consumer at the arrival time. The global event
  queue is the \<open>world\<close> of the theory EventQueue. \<open>random()\<close> is outside the program: the
  numbers it returns are arguments. The description string, which is only printed, is left out.
  The counter of the messages is an \<open>int\<close> and wraps.
\<close>

section \<open>State\<close>

record 'm mb_node =
  mn_time :: int
  mn_counter :: int
  mn_msg :: 'm

record 'm message_buffer =
  m_consumer_ptr :: "nat option"
  m_prio_heap :: "'m mb_node prioheap"
  m_max_size :: int
  m_size :: int
  m_time_last_time_size_checked :: int
  m_size_last_time_size_checked :: int
  m_msg_counter :: int
  m_strict_fifo :: bool
  m_ordering_set :: bool
  m_randomization :: bool
  m_last_arrival_time :: int

text \<open>
  \<open>node_less_then_eq\<close>. Its \<open>assert\<close> that nodes of equal time have different counters is
  the predicate \<open>node_assert\<close>; it holds of all the nodes of a buffer as long as the counter has not
  wrapped (the invariant \<open>mb_inv\<close> below).
\<close>

definition node_less_then_eq :: "'m mb_node \<Rightarrow> 'm mb_node \<Rightarrow> bool" where
  "node_less_then_eq n1 n2 =
     (if mn_time n1 = mn_time n2 then mn_counter n1 \<le> mn_counter n2
      else mn_time n1 \<le> mn_time n2)"

definition node_assert :: "'m mb_node \<Rightarrow> 'm mb_node \<Rightarrow> bool" where
  "node_assert n1 n2 \<longleftrightarrow> (mn_time n1 = mn_time n2 \<longrightarrow> mn_counter n1 \<noteq> mn_counter n2)"

definition mb_init :: "'m message_buffer" where
  "mb_init = \<lparr>m_consumer_ptr = None, m_prio_heap = heap_init, m_max_size = -1, m_size = 0,
     m_time_last_time_size_checked = 0, m_size_last_time_size_checked = 0, m_msg_counter = 0,
     m_strict_fifo = True, m_ordering_set = False, m_randomization = True,
     m_last_arrival_time = 0\<rparr>"

section \<open>Operations\<close>

definition mb_setConsumer :: "nat option \<Rightarrow> 'm message_buffer \<Rightarrow> 'm message_buffer result" where
  "mb_setConsumer c b =
     check (m_consumer_ptr b = None) Assert_failed (Inr (b\<lparr>m_consumer_ptr := c\<rparr>))"

definition mb_setOrdering :: "bool \<Rightarrow> 'm message_buffer \<Rightarrow> 'm message_buffer" where
  "mb_setOrdering order b = b\<lparr>m_strict_fifo := order, m_ordering_set := True\<rparr>"

definition mb_setSize :: "int \<Rightarrow> 'm message_buffer \<Rightarrow> 'm message_buffer" where
  "mb_setSize n b = b\<lparr>m_max_size := n\<rparr>"

definition mb_setRandomization :: "bool \<Rightarrow> 'm message_buffer \<Rightarrow> 'm message_buffer" where
  "mb_setRandomization r b = b\<lparr>m_randomization := r\<rparr>"

definition mb_isReady :: "'s world \<Rightarrow> 'm message_buffer \<Rightarrow> bool" where
  "mb_isReady w b \<longleftrightarrow>
     heap_size (m_prio_heap b) > 0 \<and>
     (case heap_peekMin (m_prio_heap b) of Inl e \<Rightarrow> False | Inr n \<Rightarrow> mn_time n \<le> w_time w)"

definition mb_isEmpty :: "'m message_buffer \<Rightarrow> bool" where
  "mb_isEmpty b \<longleftrightarrow> heap_size (m_prio_heap b) = 0"

definition mb_getSize :: "'s world \<Rightarrow> 'm message_buffer \<Rightarrow> int \<times> 'm message_buffer" where
  "mb_getSize w b =
     (if m_time_last_time_size_checked b = w_time w then (m_size_last_time_size_checked b, b)
      else (m_size b, b\<lparr>m_time_last_time_size_checked := w_time w,
                       m_size_last_time_size_checked := m_size b\<rparr>))"

definition mb_areNSlotsAvailable :: "int \<Rightarrow> 'm message_buffer \<Rightarrow> bool" where
  "mb_areNSlotsAvailable n b = (if m_max_size b = -1 \<or> m_size b + n \<le> m_max_size b then True else False)"

definition mb_peekMsgPtr :: "'s world \<Rightarrow> 'm message_buffer \<Rightarrow> 'm result" where
  "mb_peekMsgPtr w b =
     check (mb_isReady w b) Assert_failed (
     rbind (heap_peekMin (m_prio_heap b)) (\<lambda>n. Inr (mn_msg n)))"

definition mb_peekAtHeadOfQueue :: "'s world \<Rightarrow> 'm option message_buffer \<Rightarrow> 'm result" where
  "mb_peekAtHeadOfQueue w b =
     check (mb_isReady w b) Assert_failed (
     rbind (heap_peekMin (m_prio_heap b)) (\<lambda>n.
     case mn_msg n of None \<Rightarrow> Inl Assert_failed | Some m \<Rightarrow> Inr m))"

text \<open>The three calls of \<open>random()\<close>, the third one made in one of eight cases only.\<close>

definition random_time :: "nat \<times> nat \<times> nat \<Rightarrow> int" where
  "random_time r =
     (case r of (r1, r2, r3) \<Rightarrow>
        let time = 1 + int (and r1 3)
        in if and r2 7 = 0 then time + (100 + int (r3 mod 15)) else time)"

text \<open>The arrival time of a message, and \<open>m_last_arrival_time\<close> as it is when the time is
  checked.\<close>

definition mb_arrival ::
  "bool \<Rightarrow> nat \<times> nat \<times> nat \<Rightarrow> int \<Rightarrow> int \<Rightarrow> 'm message_buffer \<Rightarrow> int \<times> int" where
  "mb_arrival RANDOMIZATION rnd delta current_time b =
     (if \<not> RANDOMIZATION \<or> m_randomization b = False
      then (current_time + delta, m_last_arrival_time b)
      else if m_strict_fifo b then
        (let last = (if m_last_arrival_time b < current_time then current_time
                     else m_last_arrival_time b)
         in (last + random_time rnd, last))
      else (current_time + random_time rnd, m_last_arrival_time b))"

definition mb_enqueue ::
  "bool \<Rightarrow> nat \<times> nat \<times> nat \<Rightarrow> 'm \<Rightarrow> int \<Rightarrow> 's world \<Rightarrow> 'm message_buffer
     \<Rightarrow> ('m message_buffer \<times> 's world) result" where
  "mb_enqueue RANDOMIZATION rnd msg delta w b =
     check (m_consumer_ptr b \<noteq> None) Error_exit (
     check (m_ordering_set b) Error_exit (
     check (delta > 0) Assert_failed (
     let current_time = w_time w;
         (arrival_time, last) = mb_arrival RANDOMIZATION rnd delta current_time b;
         counter = wrap32 (m_msg_counter b + 1)
     in check (arrival_time > current_time) Assert_failed (
        check (m_strict_fifo b \<longrightarrow> arrival_time \<ge> last) Error_exit (
        rbind (heap_insert node_less_then_eq
                 \<lparr>mn_time = 0, mn_counter = 0, mn_msg = msg\<rparr>
                 \<lparr>mn_time = arrival_time, mn_counter = counter, mn_msg = msg\<rparr>
                 (m_prio_heap b)) (\<lambda>h.
        rbind (scheduleEventAbsolute (m_consumer_ptr b) arrival_time w) (\<lambda>w'.
        Inr (b\<lparr>m_msg_counter := counter, m_size := m_size b + 1,
               m_last_arrival_time := arrival_time, m_prio_heap := h\<rparr>, w'))))))))"

definition mb_pop :: "'s world \<Rightarrow> 'm message_buffer \<Rightarrow> 'm message_buffer result" where
  "mb_pop w b =
     check (mb_isReady w b) Assert_failed (
     rbind (heap_extractMin node_less_then_eq (m_prio_heap b)) (\<lambda>(n, h).
     Inr (b\<lparr>m_prio_heap := h, m_size := m_size b - 1\<rparr>)))"

definition mb_dequeue :: "'s world \<Rightarrow> 'm message_buffer \<Rightarrow> ('m \<times> 'm message_buffer) result" where
  "mb_dequeue w b =
     rbind (heap_peekMin (m_prio_heap b)) (\<lambda>n.
     rbind (mb_pop w b) (\<lambda>b'. Inr (mn_msg n, b')))"

definition mb_recycle :: "'s world \<Rightarrow> 'm message_buffer \<Rightarrow> ('m message_buffer \<times> 's world) result" where
  "mb_recycle w b =
     (let RECYCLE_LATENCY = 3
      in check (mb_isReady w b) Assert_failed (
         rbind (heap_extractMin node_less_then_eq (m_prio_heap b)) (\<lambda>(n, h).
         rbind (heap_insert node_less_then_eq \<lparr>mn_time = 0, mn_counter = 0, mn_msg = mn_msg n\<rparr>
                  (n\<lparr>mn_time := w_time w + RECYCLE_LATENCY\<rparr>) h) (\<lambda>h'.
         rbind (scheduleEventAbsolute (m_consumer_ptr b) (w_time w + RECYCLE_LATENCY) w) (\<lambda>w'.
         Inr (b\<lparr>m_prio_heap := h'\<rparr>, w'))))))"

lemma extractMin_size:
  "heap_extractMin le h = Inr (x, h') \<Longrightarrow> heap_size h' < heap_size h"
  by (auto simp: heap_extractMin_def heapify_def heap_size_def rbind_eq_Inr)

text \<open>The loop of \<open>clear\<close>, which empties the heap.\<close>

function clear_heap :: "'m mb_node prioheap \<Rightarrow> 'm mb_node prioheap result" where
  "clear_heap h =
     (if heap_size h > 0 then
        (case heap_extractMin node_less_then_eq h of
           Inl e \<Rightarrow> Inl e
         | Inr (n, h') \<Rightarrow> clear_heap h')
      else Inr h)"
  by pat_completeness auto
termination
  by (relation "measure heap_size") (auto dest: extractMin_size)

declare clear_heap.simps [simp del]

definition mb_clear :: "'m message_buffer \<Rightarrow> 'm message_buffer result" where
  "mb_clear b =
     rbind (clear_heap (m_prio_heap b)) (\<lambda>h.
     check (heap_size h = 0) Assert_failed (
     Inr (b\<lparr>m_prio_heap := h, m_msg_counter := 0, m_size := 0\<rparr>)))"

section \<open>The heap of messages\<close>

interpretation node_order: total_preorder node_less_then_eq
  by unfold_locales (auto simp: node_less_then_eq_def split: if_splits)

interpretation mbq: min_queue node_less_then_eq "heap_insert node_less_then_eq d"
    "heap_extractMin node_less_then_eq" heap_peekMin heap_size "heap_inv node_less_then_eq"
    heap_elems for d
  by (rule heap_min_queue) (rule node_order.total_preorder_axioms)

definition mb_nodes :: "'m message_buffer \<Rightarrow> 'm mb_node multiset" where
  "mb_nodes b = heap_elems (m_prio_heap b)"

text \<open>
  A well-formed buffer: the heap is one, and the size counts the messages. The invariant of a buffer
  whose counter has not wrapped: the counters of the messages are also distinct and not above
  \<open>m_msg_counter\<close>.
\<close>

definition mb_ok :: "'m message_buffer \<Rightarrow> bool" where
  "mb_ok b \<longleftrightarrow> heap_inv node_less_then_eq (m_prio_heap b) \<and> m_size b = int (size (mb_nodes b))"

definition mb_inv :: "'m message_buffer \<Rightarrow> bool" where
  "mb_inv b \<longleftrightarrow> mb_ok b \<and> 0 \<le> m_msg_counter b \<and> m_msg_counter b < 2 ^ 31 \<and>
     (\<forall>n \<in># mb_nodes b. mn_counter n \<le> m_msg_counter b) \<and>
     (\<forall>k. size (filter_mset (\<lambda>n. mn_counter n = k) (mb_nodes b)) \<le> 1)"

lemma mb_inv_ok: "mb_inv b \<Longrightarrow> mb_ok b"
  by (simp add: mb_inv_def)

lemma mb_inv_init: "mb_inv mb_init"
  by (simp add: mb_inv_def mb_ok_def mb_init_def mb_nodes_def)

lemma counters_distinct:
  assumes "mb_inv b" "n1 \<in># mb_nodes b" "n2 \<in># mb_nodes b - {#n1#}"
  shows "node_assert n1 n2"
proof -
  obtain Q where Q: "mb_nodes b = add_mset n1 (add_mset n2 Q)"
    using assms(2,3) by (metis insert_DiffM)
  have "size (filter_mset (\<lambda>n. mn_counter n = mn_counter n1) (mb_nodes b)) \<le> 1"
    using assms(1) by (simp add: mb_inv_def)
  then show ?thesis by (auto simp: Q node_assert_def)
qed

lemma ready_nonempty: "mb_ok b \<Longrightarrow> mb_isReady w b \<Longrightarrow> mb_nodes b \<noteq> {#}"
  using mbq.size_ok [of "m_prio_heap b"] by (auto simp: mb_isReady_def mb_ok_def mb_nodes_def)

lemma mb_pop_step:
  assumes "mb_ok b" "mb_isReady w b"
  shows "\<exists>n h. heap_extractMin node_less_then_eq (m_prio_heap b) = Inr (n, h)
    \<and> heap_peekMin (m_prio_heap b) = Inr n \<and> mb_pop w b = Inr (b\<lparr>m_prio_heap := h, m_size := m_size b - 1\<rparr>)
    \<and> heap_inv node_less_then_eq h \<and> mb_nodes b = add_mset n (heap_elems h)
    \<and> (\<forall>m \<in># mb_nodes b. node_less_then_eq n m) \<and> mn_time n \<le> w_time w"
proof -
  have i: "heap_inv node_less_then_eq (m_prio_heap b)" using assms(1) by (simp add: mb_ok_def)
  have ne: "heap_elems (m_prio_heap b) \<noteq> {#}"
    using ready_nonempty [OF assms] by (simp add: mb_nodes_def)
  from mbq.extract_ok [OF i ne] assms(2) show ?thesis
    by (auto simp: mb_pop_def mb_nodes_def mb_isReady_def)
qed

lemma mb_pop_ok:
  assumes "mb_ok b" "mb_pop w b = Inr b'"
  shows "mb_ok b' \<and> (\<exists>n. mb_nodes b = add_mset n (mb_nodes b')) \<and> m_msg_counter b' = m_msg_counter b"
proof -
  have r: "mb_isReady w b" using assms(2) by (simp add: mb_pop_def)
  from mb_pop_step [OF assms(1) r] assms obtain n h where
    b': "b' = b\<lparr>m_prio_heap := h, m_size := m_size b - 1\<rparr>"
    and h: "heap_inv node_less_then_eq h" "mb_nodes b = add_mset n (heap_elems h)" by auto
  then show ?thesis using assms(1) by (auto simp: mb_ok_def mb_nodes_def)
qed

lemma mb_pop_inv:
  assumes "mb_inv b" "mb_pop w b = Inr b'"
  shows "mb_inv b'"
proof -
  obtain n where n: "mb_ok b'" "mb_nodes b = add_mset n (mb_nodes b')" "m_msg_counter b' = m_msg_counter b"
    using mb_pop_ok [OF mb_inv_ok [OF assms(1)] assms(2)] by blast
  have "size (filter_mset (\<lambda>m. mn_counter m = k) (mb_nodes b')) \<le> 1" for k
  proof -
    have "size (filter_mset (\<lambda>m. mn_counter m = k) (mb_nodes b)) \<le> 1"
      using assms(1) by (simp add: mb_inv_def)
    moreover have "mb_nodes b' \<subseteq># mb_nodes b" by (simp add: n(2))
    ultimately show ?thesis by (meson le_trans multiset_filter_mono size_mset_mono)
  qed
  then show ?thesis using assms(1) n by (simp add: mb_inv_def)
qed

text \<open>The arrival time that \<open>enqueue\<close> computes and the node it inserts.\<close>

lemma mb_arrival_last:
  "mb_arrival R rnd delta c b = (t, l) \<Longrightarrow> m_last_arrival_time b \<le> l"
  by (auto simp: mb_arrival_def Let_def split: if_splits)

lemma mb_enqueue_step:
  assumes "mb_ok b" "mb_enqueue R rnd msg delta w b = Inr (b', w')"
  obtains t h where "w_time w < t" "m_strict_fifo b \<Longrightarrow> m_last_arrival_time b \<le> t"
    "t = fst (mb_arrival R rnd delta (w_time w) b)"
    "b' = b\<lparr>m_msg_counter := wrap32 (m_msg_counter b + 1), m_size := m_size b + 1,
       m_last_arrival_time := t, m_prio_heap := h\<rparr>"
    "scheduleEventAbsolute (m_consumer_ptr b) t w = Inr w'"
    "heap_inv node_less_then_eq h"
    "heap_elems h = add_mset \<lparr>mn_time = t, mn_counter = wrap32 (m_msg_counter b + 1), mn_msg = msg\<rparr> (mb_nodes b)"
proof -
  have i: "heap_inv node_less_then_eq (m_prio_heap b)" using assms(1) by (simp add: mb_ok_def)
  obtain t l where tl: "mb_arrival R rnd delta (w_time w) b = (t, l)" by force
  from assms(2) obtain h where
    t: "w_time w < t" "m_strict_fifo b \<longrightarrow> l \<le> t" and
    h: "heap_insert node_less_then_eq \<lparr>mn_time = 0, mn_counter = 0, mn_msg = msg\<rparr>
          \<lparr>mn_time = t, mn_counter = wrap32 (m_msg_counter b + 1), mn_msg = msg\<rparr> (m_prio_heap b) = Inr h"
      "scheduleEventAbsolute (m_consumer_ptr b) t w = Inr w'"
      "b' = b\<lparr>m_msg_counter := wrap32 (m_msg_counter b + 1), m_size := m_size b + 1,
         m_last_arrival_time := t, m_prio_heap := h\<rparr>"
    by (auto simp: mb_enqueue_def Let_def tl rbind_eq_Inr)
  from mbq.insertE [OF i h(1)] mb_arrival_last [OF tl] t h tl show ?thesis
    by (intro that [of t h]) (auto simp: mb_nodes_def)
qed

lemma mb_enqueue_ok:
  assumes "mb_ok b" "mb_enqueue R rnd msg delta w b = Inr (b', w')"
  shows "mb_ok b'"
  using assms
proof (cases rule: mb_enqueue_step)
  case (1 t h)
  then show ?thesis using assms(1) by (auto simp: mb_ok_def mb_nodes_def)
qed

lemma mb_enqueue_inv:
  assumes "mb_inv b" "m_msg_counter b < 2 ^ 31 - 1" "mb_enqueue R rnd msg delta w b = Inr (b', w')"
  shows "mb_inv b'"
  using mb_inv_ok [OF assms(1)] assms(3)
proof (cases rule: mb_enqueue_step)
  case (1 t h)
  have c: "wrap32 (m_msg_counter b + 1) = m_msg_counter b + 1"
    using assms(1,2) by (intro wrap32_nonneg) (simp_all add: mb_inv_def)
  have "filter_mset (\<lambda>n. mn_counter n = m_msg_counter b + 1) (mb_nodes b) = {#}"
    using assms(1) by (auto simp: mb_inv_def filter_mset_eq_mempty_iff)
  moreover have "mb_ok b'" by (rule mb_enqueue_ok [OF mb_inv_ok [OF assms(1)] assms(3)])
  ultimately show ?thesis using assms(1,2) 1 by (auto simp: mb_inv_def mb_nodes_def c)
qed

lemma mb_enqueue_total:
  assumes "mb_ok b" "evq_inv w" "m_consumer_ptr b = Some k" "m_ordering_set b" "0 < delta"
    "\<not> RANDOMIZATION" "m_strict_fifo b \<longrightarrow> m_last_arrival_time b \<le> w_time w + delta"
  shows "\<exists>b' w'. mb_enqueue RANDOMIZATION rnd msg delta w b = Inr (b', w')"
proof -
  have i: "heap_inv node_less_then_eq (m_prio_heap b)" using assms(1) by (simp add: mb_ok_def)
  have a: "mb_arrival RANDOMIZATION rnd delta (w_time w) b
      = (w_time w + delta, m_last_arrival_time b)"
    using assms(6) by (simp add: mb_arrival_def)
  obtain w' where "scheduleEventAbsolute (m_consumer_ptr b) (w_time w + delta) w = Inr w'"
    using scheduleEventAbsolute_ok [OF assms(2), of "w_time w + delta" k] assms(3,5) by auto
  moreover obtain h where "heap_insert node_less_then_eq
      \<lparr>mn_time = 0, mn_counter = 0, mn_msg = msg\<rparr>
      \<lparr>mn_time = w_time w + delta, mn_counter = wrap32 (m_msg_counter b + 1), mn_msg = msg\<rparr>
      (m_prio_heap b) = Inr h"
    using mbq.insert_ok [OF i] by blast
  ultimately show ?thesis using assms(3,4,5,7) by (simp add: mb_enqueue_def Let_def a)
qed

lemma mb_recycle_ok:
  assumes "mb_ok b" "mb_recycle w b = Inr (b', w')"
  shows "mb_ok b' \<and> m_msg_counter b' = m_msg_counter b \<and> (\<exists>n Q. mb_nodes b = add_mset n Q
    \<and> mb_nodes b' = add_mset (n\<lparr>mn_time := w_time w + 3\<rparr>) Q)
    \<and> scheduleEventAbsolute (m_consumer_ptr b) (w_time w + 3) w = Inr w'"
proof -
  have r: "mb_isReady w b" using assms(2) by (simp add: mb_recycle_def Let_def)
  from mb_pop_step [OF assms(1) r] obtain n h where
    x: "heap_extractMin node_less_then_eq (m_prio_heap b) = Inr (n, h)"
    and h: "heap_inv node_less_then_eq h" "mb_nodes b = add_mset n (heap_elems h)" by auto
  from assms(2) x obtain h' where
    h': "heap_insert node_less_then_eq \<lparr>mn_time = 0, mn_counter = 0, mn_msg = mn_msg n\<rparr>
          (n\<lparr>mn_time := w_time w + 3\<rparr>) h = Inr h'" "b' = b\<lparr>m_prio_heap := h'\<rparr>"
      "scheduleEventAbsolute (m_consumer_ptr b) (w_time w + 3) w = Inr w'"
    by (auto simp: mb_recycle_def Let_def rbind_eq_Inr)
  have e: "heap_inv node_less_then_eq h'"
    "mb_nodes b' = add_mset (n\<lparr>mn_time := w_time w + 3\<rparr>) (heap_elems h)"
    using mbq.insertE [OF h(1) h'(1)] h'(2) by (auto simp: mb_nodes_def)
  then have "mb_ok b'" using assms(1) h h'(2) by (simp add: mb_ok_def mb_nodes_def)
  with e h h' show ?thesis by auto
qed

lemma mb_recycle_inv:
  assumes "mb_inv b" "mb_recycle w b = Inr (b', w')"
  shows "mb_inv b'"
proof -
  obtain n Q where e: "mb_ok b'" "m_msg_counter b' = m_msg_counter b" "mb_nodes b = add_mset n Q"
    "mb_nodes b' = add_mset (n\<lparr>mn_time := w_time w + 3\<rparr>) Q"
    using mb_recycle_ok [OF mb_inv_ok [OF assms(1)] assms(2)] by blast
  have "size (filter_mset (\<lambda>m. mn_counter m = k) (mb_nodes b'))
      = size (filter_mset (\<lambda>m. mn_counter m = k) (mb_nodes b))" for k
    by (simp add: e)
  then show ?thesis using assms(1) e by (auto simp: mb_inv_def)
qed

lemma clear_heap_total:
  "heap_inv node_less_then_eq h \<Longrightarrow>
     \<exists>h'. clear_heap h = Inr h' \<and> heap_inv node_less_then_eq h' \<and> heap_elems h' = {#}"
proof (induction h rule: clear_heap.induct)
  case (1 h)
  show ?case
  proof (cases "heap_elems h = {#}")
    case True
    then show ?thesis using mbq.size_ok [OF 1(2)] 1(2) by (simp add: clear_heap.simps [of h])
  next
    case False
    obtain n h' where x: "heap_extractMin node_less_then_eq h = Inr (n, h')"
      and i: "heap_inv node_less_then_eq h'" using mbq.extract_ok [OF 1(2) False] by blast
    have s: "0 < heap_size h" using mbq.size_ok [OF 1(2)] False by (auto simp: nonempty_has_size)
    from 1(1) [OF s x HOL.refl i] s x show ?thesis by (simp add: clear_heap.simps [of h])
  qed
qed

lemma mb_clear_total:
  assumes "mb_inv b"
  shows "\<exists>b'. mb_clear b = Inr b' \<and> mb_inv b' \<and> mb_nodes b' = {#} \<and> m_msg_counter b' = 0"
proof -
  obtain h where h: "clear_heap (m_prio_heap b) = Inr h" "heap_inv node_less_then_eq h"
    "heap_elems h = {#}" using clear_heap_total [of "m_prio_heap b"] assms by (auto simp: mb_inv_def mb_ok_def)
  moreover have "heap_size h = 0" using mbq.size_ok [OF h(2)] h(3) by simp
  ultimately show ?thesis by (simp add: mb_clear_def mb_inv_def mb_ok_def mb_nodes_def)
qed

section \<open>A strict FIFO buffer is a list\<close>

text \<open>
  The abstract value of a buffer with \<open>m_strict_fifo\<close>: the messages in the order of their
  enqueuing, which is also the order of their arrival times.
\<close>

definition mn_before :: "'m mb_node \<Rightarrow> 'm mb_node \<Rightarrow> bool" where
  "mn_before n1 n2 \<longleftrightarrow> mn_time n1 \<le> mn_time n2 \<and> mn_counter n1 < mn_counter n2"

definition fifo_repr :: "'m message_buffer \<Rightarrow> 'm mb_node list \<Rightarrow> bool" where
  "fifo_repr b xs \<longleftrightarrow>
     mb_inv b \<and> m_strict_fifo b \<and> mset xs = mb_nodes b \<and> sorted_wrt mn_before xs \<and>
     (\<forall>n \<in> set xs. mn_time n \<le> m_last_arrival_time b)"

lemma fifo_repr_head:
  assumes "fifo_repr b xs" "n \<in> set xs" "\<And>m. m \<in> set xs \<Longrightarrow> node_less_then_eq n m"
  shows "\<exists>ys. xs = n # ys"
proof (cases xs)
  case Nil
  then show ?thesis using assms(2) by simp
next
  case (Cons y ys)
  have "n \<notin> set ys"
  proof
    assume "n \<in> set ys"
    then have "mn_before y n" using assms(1) Cons by (auto simp: fifo_repr_def)
    moreover have "node_less_then_eq n y" using assms(3) Cons by simp
    ultimately show False by (auto simp: mn_before_def node_less_then_eq_def split: if_splits)
  qed
  then show ?thesis using assms(2) Cons by auto
qed

lemma fifo_repr_pop:
  assumes "fifo_repr b xs" "mb_isReady w b"
  obtains n ys b' where "xs = n # ys" "mb_dequeue w b = Inr (mn_msg n, b')" "mb_pop w b = Inr b'"
    "fifo_repr b' ys" "mn_time n \<le> w_time w"
proof -
  have inv: "mb_inv b" using assms(1) by (simp add: fifo_repr_def)
  from mb_pop_step [OF mb_inv_ok [OF inv] assms(2)] obtain n h where
    x: "heap_peekMin (m_prio_heap b) = Inr n"
      "mb_pop w b = Inr (b\<lparr>m_prio_heap := h, m_size := m_size b - 1\<rparr>)"
    and n: "mb_nodes b = add_mset n (heap_elems h)" "\<forall>m \<in># mb_nodes b. node_less_then_eq n m"
      "mn_time n \<le> w_time w" by blast
  have m: "set_mset (mb_nodes b) = set xs" using assms(1) by (metis fifo_repr_def set_mset_mset)
  obtain ys where xs: "xs = n # ys"
    using fifo_repr_head [OF assms(1), of n] n(1,2) m by (metis union_single_eq_member)
  have "mb_inv (b\<lparr>m_prio_heap := h, m_size := m_size b - 1\<rparr>)" by (rule mb_pop_inv [OF inv x(2)])
  then have "fifo_repr (b\<lparr>m_prio_heap := h, m_size := m_size b - 1\<rparr>) ys"
    using assms(1) n(1) unfolding fifo_repr_def xs by (simp add: mb_nodes_def)
  with x xs n(3) show ?thesis by (intro that) (auto simp: mb_dequeue_def)
qed

lemma fifo_repr_ready:
  assumes "fifo_repr b xs"
  shows "mb_isReady w b \<longleftrightarrow> (\<exists>n ys. xs = n # ys \<and> mn_time n \<le> w_time w)"
proof
  assume "mb_isReady w b"
  from fifo_repr_pop [OF assms this] show "\<exists>n ys. xs = n # ys \<and> mn_time n \<le> w_time w" by metis
next
  assume "\<exists>n ys. xs = n # ys \<and> mn_time n \<le> w_time w"
  then obtain n ys where xs: "xs = n # ys" "mn_time n \<le> w_time w" by blast
  have i: "heap_inv node_less_then_eq (m_prio_heap b)" and
    ms: "mset xs = heap_elems (m_prio_heap b)"
    using assms by (auto simp: fifo_repr_def mb_inv_def mb_ok_def mb_nodes_def)
  have ne: "heap_elems (m_prio_heap b) \<noteq> {#}" using ms xs(1) by auto
  obtain m h where m: "heap_peekMin (m_prio_heap b) = Inr m"
    "heap_elems (m_prio_heap b) = add_mset m (heap_elems h)"
    "\<forall>y \<in># heap_elems (m_prio_heap b). node_less_then_eq m y"
    using mbq.extract_ok [OF i ne] by blast
  have "n \<in># heap_elems (m_prio_heap b)" using ms xs by (metis list.set_intros(1) set_mset_mset)
  then have "mn_time m \<le> w_time w" using m(3) xs(2)
    by (auto simp: node_less_then_eq_def split: if_splits)
  then show "mb_isReady w b" using mbq.size_ok [OF i] ne m(1)
    by (auto simp: mb_isReady_def nonempty_has_size)
qed

lemma fifo_repr_enqueue:
  assumes "fifo_repr b xs" "m_msg_counter b < 2 ^ 31 - 1" "mb_enqueue R rnd msg delta w b = Inr (b', w')"
  obtains n where "mn_msg n = msg" "w_time w < mn_time n" "fifo_repr b' (xs @ [n])" "m_msg_counter b' = m_msg_counter b + 1"
proof -
  have inv: "mb_inv b" and sf: "m_strict_fifo b" using assms(1) by (auto simp: fifo_repr_def)
  have w: "wrap32 (m_msg_counter b + 1) = m_msg_counter b + 1"
    using inv assms(2) by (intro wrap32_nonneg) (simp_all add: mb_inv_def)
  from mb_inv_ok [OF inv] assms(3) show ?thesis
  proof (cases rule: mb_enqueue_step)
    case (1 t h)
    let ?n = "\<lparr>mn_time = t, mn_counter = wrap32 (m_msg_counter b + 1), mn_msg = msg\<rparr>"
    have t: "m_last_arrival_time b \<le> t" using 1(2) sf by simp
    have c: "mn_counter n \<le> m_msg_counter b" if "n \<in> set xs" for n
      using inv assms(1) that unfolding mb_inv_def fifo_repr_def by (metis set_mset_mset)
    have "mn_before n ?n" if "n \<in> set xs" for n
      using c [OF that] assms(1) t that by (fastforce simp: mn_before_def fifo_repr_def w)
    moreover have "mn_time n \<le> t" if "n \<in> set xs" for n
      using assms(1) t that by (fastforce simp: fifo_repr_def)
    ultimately have "fifo_repr b' (xs @ [?n])"
      using assms(1) 1 mb_enqueue_inv [OF inv assms(2,3)]
      by (auto simp: fifo_repr_def sorted_wrt_append mb_nodes_def)
    with 1 show ?thesis by (intro that [of ?n]) (auto simp: w)
  qed
qed

lemma fifo_repr_init: "fifo_repr mb_init []"
  using mb_inv_init by (auto simp: fifo_repr_def mb_init_def mb_nodes_def)

text \<open>A send with a fixed delay: the message gets ready then, and its consumer is woken up then.\<close>

lemma fifo_send:
  assumes "fifo_repr b xs" "evq_inv w" "m_consumer_ptr b = Some k" "m_ordering_set b" "0 < delta"
    "m_last_arrival_time b \<le> w_time w + delta" "m_msg_counter b < 2 ^ 31 - 1"
  obtains b' w' n where "mb_enqueue False rnd msg delta w b = Inr (b', w')" "fifo_repr b' (xs @ [n])"
    "mn_msg n = msg" "mn_time n = w_time w + delta" "evq_inv w'" "w_time w' = w_time w"
    "\<lparr>en_time = w_time w + delta, en_consumer = Some k\<rparr> \<in># pending w'"
    "m_consumer_ptr b' = Some k" "m_ordering_set b'" "m_last_arrival_time b' = w_time w + delta"
    "m_msg_counter b' = m_msg_counter b + 1"
proof -
  let ?t = "w_time w + delta"
  have inv: "mb_ok b" using assms(1) by (simp add: fifo_repr_def mb_inv_def)
  obtain b' w' where e: "mb_enqueue False rnd msg delta w b = Inr (b', w')"
    using mb_enqueue_total [OF inv assms(2-5), of False] assms(6) by blast
  obtain n where n: "fifo_repr b' (xs @ [n])" "mn_msg n = msg" "m_msg_counter b' = m_msg_counter b + 1"
    by (rule fifo_repr_enqueue [OF assms(1,7) e])
  obtain t h where s: "t = fst (mb_arrival False rnd delta (w_time w) b)"
    "b' = b\<lparr>m_msg_counter := wrap32 (m_msg_counter b + 1), m_size := m_size b + 1,
       m_last_arrival_time := t, m_prio_heap := h\<rparr>"
    "scheduleEventAbsolute (m_consumer_ptr b) t w = Inr w'"
    "heap_elems h = add_mset \<lparr>mn_time = t, mn_counter = wrap32 (m_msg_counter b + 1), mn_msg = msg\<rparr> (mb_nodes b)"
    by (rule mb_enqueue_step [OF inv e])
  have t: "t = ?t" using s(1) by (simp add: mb_arrival_def)
  have "mset (xs @ [n]) = heap_elems h" "mset xs = mb_nodes b"
    using n(1) assms(1) s(2) by (auto simp: fifo_repr_def mb_nodes_def)
  then have time: "mn_time n = ?t" using s(4) t by auto
  have sch: "scheduleEventAbsolute (Some k) ?t w = Inr w'" using s(3) assms(3) t by simp
  note p = scheduled_pending [OF assms(2) sch]
  have "evq_inv w'" by (rule scheduleEventAbsolute_inv [OF assms(2) sch])
  moreover have "m_consumer_ptr b' = Some k" "m_ordering_set b'" "m_last_arrival_time b' = ?t"
    using s(2) t assms(3,4) by simp_all
  ultimately show ?thesis using that [OF e n(1,2) time] p assms(5) n(3) by simp
qed

text \<open>
  Runs of a buffer between a sender and a receiver. The world, with its clock, may change in
  any way between two operations. The two lists are the messages given to \<open>enqueue\<close> and
  the messages returned by \<open>dequeue\<close>, in order.
\<close>

inductive mb_run ::
  "'m list \<Rightarrow> 'm list \<Rightarrow> 'm message_buffer \<Rightarrow> 's world \<Rightarrow> bool" where
  start: "mb_run [] [] mb_init w"
| ordering: "mb_run ss rs b w \<Longrightarrow> mb_run ss rs (mb_setOrdering True b) w"
| consumer: "mb_run ss rs b w \<Longrightarrow> mb_setConsumer c b = Inr b' \<Longrightarrow> mb_run ss rs b' w"
| config: "mb_run ss rs b w \<Longrightarrow> mb_run ss rs (mb_setSize n (mb_setRandomization r b)) w"
| send: "mb_run ss rs b w \<Longrightarrow> mb_enqueue R rnd msg delta w b = Inr (b', w') \<Longrightarrow>
    mb_run (ss @ [msg]) rs b' w'"
| recv: "mb_run ss rs b w \<Longrightarrow> mb_dequeue w b = Inr (msg, b') \<Longrightarrow> mb_run ss (rs @ [msg]) b' w"
| elsewhere: "mb_run ss rs b w \<Longrightarrow> mb_run ss rs b w'"

lemma fifo_repr_config [simp]:
  "fifo_repr (mb_setSize n b) xs \<longleftrightarrow> fifo_repr b xs"
  "fifo_repr (mb_setRandomization r b) xs \<longleftrightarrow> fifo_repr b xs"
  "mb_setConsumer c b = Inr b' \<Longrightarrow> fifo_repr b' xs \<longleftrightarrow> fifo_repr b xs"
  "fifo_repr b xs \<Longrightarrow> fifo_repr (mb_setOrdering True b) xs"
  by (auto simp: fifo_repr_def mb_setSize_def mb_setRandomization_def mb_setConsumer_def
        mb_setOrdering_def mb_inv_def mb_ok_def mb_nodes_def)

lemma setting_counter [simp]:
  "m_msg_counter (mb_setSize n b) = m_msg_counter b" "m_msg_counter (mb_setRandomization r b) = m_msg_counter b"
  "m_msg_counter (mb_setOrdering o' b) = m_msg_counter b" "mb_setConsumer c b = Inr b' \<Longrightarrow> m_msg_counter b' = m_msg_counter b"
  by (auto simp: mb_setSize_def mb_setRandomization_def mb_setConsumer_def mb_setOrdering_def)

text \<open>The counter counts the sends; before the one that makes it wrap, the buffer is a list.\<close>

lemma mb_run_fifo:
  "mb_run ss rs b w \<Longrightarrow> length ss < 2 ^ 31 \<Longrightarrow>
     \<exists>xs. fifo_repr b xs \<and> ss = rs @ map mn_msg xs \<and> m_msg_counter b = int (length ss)"
proof (induction rule: mb_run.induct)
  case (ordering ss rs b w)
  then obtain xs where xs: "fifo_repr b xs" "ss = rs @ map mn_msg xs" "m_msg_counter b = int (length ss)" by blast
  then show ?case using fifo_repr_config(4) [OF xs(1)] by (intro exI [of _ xs]) simp
next
  case (start w)
  then show ?case using fifo_repr_init by (auto simp: mb_init_def)
next
  case (send ss rs b w R rnd msg delta b' w')
  then have l: "length ss < 2 ^ 31 - 1" "length ss < 2 ^ 31" by simp_all
  from send.IH [OF l(2)] obtain xs where xs: "fifo_repr b xs" "ss = rs @ map mn_msg xs"
    "m_msg_counter b = int (length ss)" by blast
  have "m_msg_counter b < 2 ^ 31 - 1" using l(1) xs(3) by simp
  from fifo_repr_enqueue [OF xs(1) this send(2)] obtain n where
    n: "mn_msg n = msg" "fifo_repr b' (xs @ [n])" "m_msg_counter b' = m_msg_counter b + 1" by blast
  then show ?case using xs(2,3) by (intro exI [of _ "xs @ [n]"]) simp
next
  case (recv ss rs b w msg b')
  then obtain xs where xs: "fifo_repr b xs" "ss = rs @ map mn_msg xs" "m_msg_counter b = int (length ss)" by blast
  have "mb_isReady w b" using recv(2) by (auto simp: mb_dequeue_def mb_pop_def rbind_eq_Inr)
  from fifo_repr_pop [OF xs(1) this] show ?case
  proof cases
    case (1 n ys b'')
    then have "b'' = b'" "msg = mn_msg n" using recv(2) by auto
    moreover have "m_msg_counter b'' = m_msg_counter b"
      using mb_pop_ok [OF mb_inv_ok 1(3)] xs(1) by (simp add: fifo_repr_def)
    ultimately show ?thesis using xs(2,3) 1 by auto
  qed
qed auto

lemma random_time_bounds: "1 \<le> random_time r \<and> random_time r \<le> 118"
proof -
  obtain r1 r2 r3 where r: "r = (r1, r2, r3)" by (cases r)
  have "and r1 (3::nat) = r1 mod 4"
    using take_bit_eq_mask [of 2 r1] by (simp add: take_bit_eq_mod mask_eq_exp_minus_1)
  moreover have "r3 mod 15 < 15" by simp
  ultimately show ?thesis unfolding r random_time_def Let_def prod.case
    by (auto simp: of_nat_mod [symmetric] simp del: of_nat_mod)
qed

end
