(* ===== verification/BufferFrame.thy ===== *)
theory BufferFrame
  imports MessageBuffer
begin

text \<open>
  What the operations of a message buffer leave alone: its settings, the clock and the rest of the system,
  and that an enqueue into a buffer with a consumer and an ordering returns.
\<close>

definition statics :: "'m message_buffer \<Rightarrow> nat option \<times> bool \<times> bool \<times> bool \<times> int" where
  "statics x = (m_consumer_ptr x, m_ordering_set x, m_strict_fifo x, m_randomization x, m_max_size x)"

lemma mb_enqueue_frame:
  assumes "mb_ok b" "evq_inv w" "m_consumer_ptr b = Some k" "m_ordering_set b" "0 < d"
    "m_strict_fifo b \<and> \<not> (R \<and> m_randomization b) \<longrightarrow> m_last_arrival_time b \<le> w_time w + d"
  shows "\<exists>b' w' n. mb_enqueue R rnd msg d w b = Inr (b', w') \<and> mb_ok b' \<and> mb_nodes b' = add_mset n (mb_nodes b)
    \<and> mn_msg n = msg \<and> statics b' = statics b
    \<and> (m_strict_fifo b \<and> \<not> (R \<and> m_randomization b) \<longrightarrow> m_last_arrival_time b' \<le> w_time w + d)
    \<and> (\<exists>c t. scheduleEventAbsolute c t w = Inr w')"
proof -
  have i: "heap_inv node_less_then_eq (m_prio_heap b)" using assms(1) by (simp add: mb_ok_def)
  obtain t l where a: "mb_arrival R rnd d (w_time w) b = (t, l)" by force
  have t: "w_time w < t" "m_strict_fifo b \<longrightarrow> l \<le> t"
    "\<not> (R \<and> m_randomization b) \<longrightarrow> t = w_time w + d"
    using a assms(5,6) random_time_bounds [of rnd] by (auto simp: mb_arrival_def Let_def split: if_splits)
  obtain w' where w': "scheduleEventAbsolute (m_consumer_ptr b) t w = Inr w'"
    using scheduleEventAbsolute_ok [OF assms(2) t(1), of k] assms(3) by auto
  obtain h where "heap_insert node_less_then_eq \<lparr>mn_time = 0, mn_counter = 0, mn_msg = msg\<rparr>
      \<lparr>mn_time = t, mn_counter = wrap32 (m_msg_counter b + 1), mn_msg = msg\<rparr> (m_prio_heap b) = Inr h"
    using mbq.insert_ok [OF i] by blast
  then have e: "\<exists>b'. mb_enqueue R rnd msg d w b = Inr (b', w')"
    using t w' assms(3-5) by (simp add: mb_enqueue_def Let_def a)
  then obtain b' where b': "mb_enqueue R rnd msg d w b = Inr (b', w')" by blast
  obtain t2 h2 where s: "t2 = fst (mb_arrival R rnd d (w_time w) b)"
    "b' = b\<lparr>m_msg_counter := wrap32 (m_msg_counter b + 1), m_size := m_size b + 1, m_last_arrival_time := t2, m_prio_heap := h2\<rparr>"
    "heap_elems h2 = add_mset \<lparr>mn_time = t2, mn_counter = wrap32 (m_msg_counter b + 1), mn_msg = msg\<rparr> (mb_nodes b)"
    by (rule mb_enqueue_step [OF assms(1) b'])
  have "mb_nodes b' = add_mset \<lparr>mn_time = t2, mn_counter = wrap32 (m_msg_counter b + 1), mn_msg = msg\<rparr> (mb_nodes b)"
    using s(2,3) by (simp add: mb_nodes_def)
  moreover have "statics b' = statics b" "m_last_arrival_time b' = t" using s(1,2) a by (simp_all add: statics_def)
  ultimately show ?thesis using b' mb_enqueue_ok [OF assms(1) b'] w' t(3)
    by (intro exI [of _ b'] exI [of _ w'] exI conjI) auto
qed

lemma schedule_frame:
  assumes "scheduleEventAbsolute c t w = Inr w'"
  shows "w_sys w' = w_sys w" "w_time w' = w_time w"
  using assms by (auto simp: scheduleEventAbsolute_def rbind_eq_Inr split: option.splits if_splits)

lemma sched_reach_sys:
  assumes "scheduleEventAbsolute c t w = Inr w'"
  shows "sched_reach w (w'\<lparr>w_sys := s\<rparr>)"
  by (rule sched_reach.local [OF sched_reach.sched [OF sched_reach.stay assms]])

end
