(* ===== verification/Sequencer.thy ===== *)
theory Sequencer
  imports DataBlock CacheMemory RubyMap BufferFrame
begin

text \<open>
  The sequencer of a node, ruby/system/Sequencer.C. It takes the requests of the driver (the tester or the
  processor), answers those that hit in the first-level cache at once, keeps the others in two tables by cache
  line, one for reads and one for writes, and sends them to the cache controller; when the controller has the
  data it calls \<open>readCallback\<close> or \<open>writeCallback\<close>. The driver's \<open>hitCallback\<close> is virtual; it is the argument
  \<open>drv\<close>. The profiler and the trace of requests, which only record what happens, are left out.
\<close>

section \<open>State\<close>

datatype access_mode_type = AccessModeType_SupervisorMode | AccessModeType_UserMode

datatype prefetch_bit = PrefetchBit_No | PrefetchBit_Yes

record cache_msg =
  rq_Address :: address
  rq_Type :: cache_request_type
  rq_ProgramCounter :: address
  rq_AccessMode :: access_mode_type
  rq_Size :: nat
  rq_Prefetch :: prefetch_bit
  rq_Time :: int

record sequencer =
  sq_id :: nat
  sq_request_queue :: nat
  sq_data_cache :: nat
  sq_insn_cache :: nat
  sq_writeRequestTable :: "(address, cache_msg) rmap"
  sq_readRequestTable :: "(address, cache_msg) rmap"
  sq_outstanding_count :: int
  sq_deadlock_check_scheduled :: bool

text \<open>The rest of the system as far as sequencers see it: a pointer to a sequencer, a cache or a request queue
  is a number. \<open>ry_random\<close> are the results of the calls of \<open>random()\<close>, of which \<open>ry_draws\<close> have been made.\<close>

record 'h ruby_sys =
  ry_sequencers :: "nat \<Rightarrow> sequencer"
  ry_caches :: "nat \<Rightarrow> data_block cache_memory"
  ry_queues :: "nat \<Rightarrow> cache_msg message_buffer"
  ry_random :: "nat \<Rightarrow> nat"
  ry_draws :: nat
  ry_driver :: 'h

type_synonym 'h ruby = "'h ruby_sys world"

type_synonym 'h driver = "nat \<Rightarrow> sub_block \<Rightarrow> 'h ruby \<Rightarrow> (sub_block \<times> 'h ruby) result"

text \<open>The consumers: the sequencers, the request generators of the synthetic driver, and the driver.\<close>

definition sequencer_consumer :: "nat \<Rightarrow> nat" where
  "sequencer_consumer p = 3 * p"

definition generator_consumer :: "nat \<Rightarrow> nat" where
  "generator_consumer p = 3 * p + 1"

definition driver_consumer :: nat where
  "driver_consumer = 2"

definition the_seq :: "'h ruby \<Rightarrow> nat \<Rightarrow> sequencer" where
  "the_seq w p = ry_sequencers (w_sys w) p"

definition the_cache :: "'h ruby \<Rightarrow> nat \<Rightarrow> data_block cache_memory" where
  "the_cache w c = ry_caches (w_sys w) c"

definition the_driver :: "'h ruby \<Rightarrow> 'h" where
  "the_driver w = ry_driver (w_sys w)"

definition upd_ruby :: "('h ruby_sys \<Rightarrow> 'h ruby_sys) \<Rightarrow> 'h ruby \<Rightarrow> 'h ruby" where
  "upd_ruby f w = w\<lparr>w_sys := f (w_sys w)\<rparr>"

definition set_seq :: "nat \<Rightarrow> sequencer \<Rightarrow> 'h ruby \<Rightarrow> 'h ruby" where
  "set_seq p s = upd_ruby (\<lambda>r. r\<lparr>ry_sequencers := (ry_sequencers r)(p := s)\<rparr>)"

definition set_cache :: "nat \<Rightarrow> data_block cache_memory \<Rightarrow> 'h ruby \<Rightarrow> 'h ruby" where
  "set_cache c x = upd_ruby (\<lambda>r. r\<lparr>ry_caches := (ry_caches r)(c := x)\<rparr>)"

definition set_driver :: "'h \<Rightarrow> 'h ruby \<Rightarrow> 'h ruby" where
  "set_driver h = upd_ruby (\<lambda>r. r\<lparr>ry_driver := h\<rparr>)"

definition random_draw :: "'h ruby \<Rightarrow> nat \<times> 'h ruby" where
  "random_draw w = (ry_random (w_sys w) (ry_draws (w_sys w)), upd_ruby (\<lambda>r. r\<lparr>ry_draws := ry_draws r + 1\<rparr>) w)"

text \<open>The constructor of a message takes the current time.\<close>

definition CacheMsg ::
  "address \<Rightarrow> cache_request_type \<Rightarrow> address \<Rightarrow> access_mode_type \<Rightarrow> nat \<Rightarrow> prefetch_bit \<Rightarrow> 's world \<Rightarrow> cache_msg" where
  "CacheMsg a type pc mode sz prefetch w =
     \<lparr>rq_Address = a, rq_Type = type, rq_ProgramCounter = pc, rq_AccessMode = mode, rq_Size = sz,
      rq_Prefetch = prefetch, rq_Time = w_time w\<rparr>"

section \<open>Operations\<close>

definition Sequencer :: "nat \<Rightarrow> nat option \<Rightarrow> nat option \<Rightarrow> nat option \<Rightarrow> sequencer result" where
  "Sequencer i request_queue_ptr primary_data_cache_ptr primary_insn_cache_ptr =
     (case (request_queue_ptr, primary_data_cache_ptr, primary_insn_cache_ptr) of
        (Some q, Some d, Some c) \<Rightarrow>
          Inr \<lparr>sq_id = i, sq_request_queue = q, sq_data_cache = d, sq_insn_cache = c, sq_writeRequestTable = [],
               sq_readRequestTable = [], sq_outstanding_count = 0, sq_deadlock_check_scheduled = False\<rparr>
      | _ \<Rightarrow> Inl Assert_failed)"

definition is_write_type :: "cache_request_type \<Rightarrow> bool" where
  "is_write_type type \<longleftrightarrow> type = CacheRequestType_ST \<or> type = CacheRequestType_ATOMIC"

definition request_table :: "cache_request_type \<Rightarrow> sequencer \<Rightarrow> (address, cache_msg) rmap" where
  "request_table type s = (if is_write_type type then sq_writeRequestTable s else sq_readRequestTable s)"

definition set_table :: "cache_request_type \<Rightarrow> (address, cache_msg) rmap \<Rightarrow> sequencer \<Rightarrow> sequencer" where
  "set_table type t s = (if is_write_type type then s\<lparr>sq_writeRequestTable := t\<rparr> else s\<lparr>sq_readRequestTable := t\<rparr>)"

definition count_ok :: "sequencer \<Rightarrow> bool" where
  "count_ok s \<longleftrightarrow>
     sq_outstanding_count s = int (rmap_size (sq_writeRequestTable s)) + int (rmap_size (sq_readRequestTable s))"

definition sq_empty :: "sequencer \<Rightarrow> bool" where
  "sq_empty s \<longleftrightarrow> sq_outstanding_count s = 0"

text \<open>The two loops of \<open>wakeup\<close> over the requests of a table.\<close>

definition overdue_check :: "ruby_params \<Rightarrow> int \<Rightarrow> (address, cache_msg) rmap \<Rightarrow> unit result" where
  "overdue_check P current_time t =
     rfold (\<lambda>k u. rbind (rmap_lookup t k) (\<lambda>request.
         check (\<not> (current_time - rq_Time request \<ge> DEADLOCK_THRESHOLD P)) Error_exit (Inr u)))
       (rmap_keys t) ()"

definition sq_wakeup :: "ruby_params \<Rightarrow> nat \<Rightarrow> 'h ruby \<Rightarrow> 'h ruby result" where
  "sq_wakeup P p w =
     (let s = the_seq w p
      in rbind (overdue_check P (w_time w) (sq_readRequestTable s)) (\<lambda>_.
         rbind (overdue_check P (w_time w) (sq_writeRequestTable s)) (\<lambda>_.
         check (count_ok s) Assert_failed (
         if sq_outstanding_count s > 0 then
           scheduleEvent (Some (sequencer_consumer p)) (DEADLOCK_THRESHOLD P) w
         else Inr (set_seq p (s\<lparr>sq_deadlock_check_scheduled := False\<rparr>) w)))))"

text \<open>\<open>insertRequest\<close> returns whether the entry was present. \<open>allocate\<close> and the assignment to the new entry are
  one \<open>rmap_add\<close>.\<close>

definition insertRequest :: "ruby_params \<Rightarrow> nat \<Rightarrow> cache_msg \<Rightarrow> 'h ruby \<Rightarrow> (bool \<times> 'h ruby) result" where
  "insertRequest P p request w =
     check (count_ok (the_seq w p)) Assert_failed (
     rbind (if \<not> sq_deadlock_check_scheduled (the_seq w p) then
              rbind (scheduleEvent (Some (sequencer_consumer p)) (DEADLOCK_THRESHOLD P) w) (\<lambda>w1.
              Inr (set_seq p ((the_seq w1 p)\<lparr>sq_deadlock_check_scheduled := True\<rparr>) w1))
            else Inr w) (\<lambda>w2.
     let s = the_seq w2 p; t = request_table (rq_Type request) s; line = line_address (rq_Address request);
         s' = set_table (rq_Type request) (rmap_add line request t) s
     in if rmap_exist t line then Inr (True, set_seq p s' w2)
        else
          (let s'' = s'\<lparr>sq_outstanding_count := sq_outstanding_count s' + 1\<rparr>
           in check (count_ok s'') Assert_failed (Inr (False, set_seq p s'' w2)))))"

definition removeRequest :: "nat \<Rightarrow> cache_msg \<Rightarrow> 'h ruby \<Rightarrow> 'h ruby result" where
  "removeRequest p request w =
     (let s = the_seq w p
      in check (count_ok s) Assert_failed (
         rbind (rmap_erase (line_address (rq_Address request)) (request_table (rq_Type request) s)) (\<lambda>t.
         let s' = (set_table (rq_Type request) t s)\<lparr>sq_outstanding_count := sq_outstanding_count s - 1\<rparr>
         in check (count_ok s') Assert_failed (Inr (set_seq p s' w)))))"

text \<open>\<open>hitCallback\<close>; the data block is passed by reference, so the result has its new value.\<close>

definition sq_hitCallback ::
  "ruby_params \<Rightarrow> 'h driver \<Rightarrow> nat \<Rightarrow> cache_msg \<Rightarrow> data_block \<Rightarrow> 'h ruby \<Rightarrow> (data_block \<times> 'h ruby) result" where
  "sq_hitCallback P drv p request data w =
     (let type = rq_Type request; line = line_address (rq_Address request); s = the_seq w p;
          c = (if type = CacheRequestType_IFETCH then sq_insn_cache s else sq_data_cache s)
      in rbind (isTagPresent (BLOCK_BITS P) line (the_cache w c)) (\<lambda>hit.
         rbind (if hit then rbind (setMRU (BLOCK_BITS P) line w (the_cache w c)) (\<lambda>x. Inr (set_cache c x w))
                else Inr w) (\<lambda>w1.
         check (w_time w1 \<ge> rq_Time request) Assert_failed (
         if rq_Prefetch request = PrefetchBit_Yes then Inr (data, w1)
         else
           rbind (SubBlock (rq_Address request) (rq_Size request)) (\<lambda>subblock0.
           rbind (mergeFrom P data subblock0) (\<lambda>subblock.
           rbind (drv (sq_id s) subblock w1) (\<lambda>(subblock', w2).
           if is_write_type type then rbind (mergeTo P subblock' data) (\<lambda>data'. Inr (data', w2))
           else Inr (data, w2))))))))"

definition writeCallback ::
  "ruby_params \<Rightarrow> 'h driver \<Rightarrow> nat \<Rightarrow> address \<Rightarrow> data_block \<Rightarrow> 'h ruby \<Rightarrow> (data_block \<times> 'h ruby) result" where
  "writeCallback P drv p a data w =
     check (a = line_address a) Assert_failed (
     check (rmap_exist (sq_writeRequestTable (the_seq w p)) (line_address a)) Assert_failed (
     rbind (rmap_lookup (sq_writeRequestTable (the_seq w p)) a) (\<lambda>request.
     rbind (removeRequest p request w) (\<lambda>w1.
     check (is_write_type (rq_Type request)) Assert_failed (
     sq_hitCallback P drv p request data w1)))))"

definition readCallback ::
  "ruby_params \<Rightarrow> 'h driver \<Rightarrow> nat \<Rightarrow> address \<Rightarrow> data_block \<Rightarrow> 'h ruby \<Rightarrow> (data_block \<times> 'h ruby) result" where
  "readCallback P drv p a data w =
     check (a = line_address a) Assert_failed (
     check (rmap_exist (sq_readRequestTable (the_seq w p)) (line_address a)) Assert_failed (
     rbind (rmap_lookup (sq_readRequestTable (the_seq w p)) a) (\<lambda>request.
     rbind (removeRequest p request w) (\<lambda>w1.
     check (rq_Type request = CacheRequestType_LD \<or> rq_Type request = CacheRequestType_IFETCH) Assert_failed (
     sq_hitCallback P drv p request data w1)))))"

definition sq_isReady :: "ruby_params \<Rightarrow> sequencer \<Rightarrow> cache_msg \<Rightarrow> bool" where
  "sq_isReady P s request \<longleftrightarrow>
     \<not> sq_outstanding_count s \<ge> SEQUENCER_OUTSTANDING_REQUESTS P \<and>
     \<not> rmap_exist (request_table (rq_Type request) s) (line_address (rq_Address request))"

definition sq_tryCacheAccess ::
  "ruby_params \<Rightarrow> nat \<Rightarrow> address \<Rightarrow> cache_request_type \<Rightarrow> 'h ruby
     \<Rightarrow> (bool \<times> (nat \<times> nat \<times> nat) option \<times> 'h ruby) result" where
  "sq_tryCacheAccess P p a type w =
     (let c = (if type = CacheRequestType_IFETCH then sq_insn_cache (the_seq w p) else sq_data_cache (the_seq w p))
      in rbind (tryCacheAccess (BLOCK_BITS P) (line_address a) type w (the_cache w c)) (\<lambda>(hit, place, x).
         Inr (hit, map_option (\<lambda>(i, j). (c, i, j)) place, set_cache c x w)))"

definition issueRequest :: "ruby_params \<Rightarrow> nat \<Rightarrow> cache_msg \<Rightarrow> 'h ruby \<Rightarrow> 'h ruby result" where
  "issueRequest P p request w =
     rbind (insertRequest P p request w) (\<lambda>(found, w1).
     if \<not> found then
       (let msg = request\<lparr>rq_Address := line_address (rq_Address request)\<rparr>; (r, w2) = random_draw w1;
            random_perturbation = 1 + int (r mod 3);
            latency = SEQUENCER_TO_CONTROLLER_LATENCY P + random_perturbation;
            q = sq_request_queue (the_seq w2 p); f = ry_random (w_sys w2); d = ry_draws (w_sys w2)
        in rbind (mb_enqueue (RANDOM_LATENCY P) (f d, f (d + 1), f (d + 2)) msg latency w2 (ry_queues (w_sys w2) q))
             (\<lambda>(x, w3). Inr (upd_ruby (\<lambda>s. s\<lparr>ry_queues := (ry_queues s)(q := x), ry_draws := d + 3\<rparr>) w3)))
     else Inr w1)"

text \<open>\<open>doRequest\<close>; the data block of a hit is the one of the cache entry.\<close>

definition doRequest ::
  "ruby_params \<Rightarrow> 'h driver \<Rightarrow> nat \<Rightarrow> cache_msg \<Rightarrow> 'h ruby \<Rightarrow> (bool \<times> 'h ruby) result" where
  "doRequest P drv p request w =
     rbind (sq_tryCacheAccess P p (line_address (rq_Address request)) (rq_Type request) w) (\<lambda>(hit, place, w1).
     if hit then
       (case place of
          None \<Rightarrow> Inl Assert_failed
        | Some (c, i, j) \<Rightarrow>
            rbind (cm_entry (the_cache w1 c) i j) (\<lambda>e.
            rbind (sq_hitCallback P drv p request (ce_data e) w1) (\<lambda>(data, w2).
            rbind (cm_entry (the_cache w2 c) i j) (\<lambda>e'.
            rbind (cm_put i j (e'\<lparr>ce_data := data\<rparr>) (the_cache w2 c)) (\<lambda>x.
            Inr (True, set_cache c x w2))))))
     else rbind (issueRequest P p request w1) (\<lambda>w2. Inr (False, w2)))"

text \<open>\<open>makeRequest\<close> calls itself for the lines after an instruction fetch that missed; these are prefetches, and a
  prefetch makes no further requests. The recursive call is the argument \<open>self\<close> of the body.\<close>

definition request_body ::
  "(cache_msg \<Rightarrow> 'h ruby \<Rightarrow> 'h ruby result) \<Rightarrow> ruby_params \<Rightarrow> 'h driver \<Rightarrow> nat \<Rightarrow> cache_msg \<Rightarrow> 'h ruby
     \<Rightarrow> 'h ruby result" where
  "request_body self P drv p request w =
     check (sq_isReady P (the_seq w p) request) Assert_failed (
     rbind (doRequest P drv p request w) (\<lambda>(hit, w1).
     if \<not> hit \<and> rq_Prefetch request = PrefetchBit_No \<and> rq_Type request = CacheRequestType_IFETCH then
       rfold (\<lambda>i w. let new_request = request\<lparr>rq_Address := line_address (rq_Address request)
                          + of_nat (Suc i * 2 ^ BLOCK_BITS P), rq_Prefetch := PrefetchBit_Yes\<rparr>
                in if sq_isReady P (the_seq w p) new_request then self new_request w else Inr w)
         [0..<INSTR_PREFETCH_NUM_LINES P] w1
     else Inr w1))"

definition makeRequest :: "ruby_params \<Rightarrow> 'h driver \<Rightarrow> nat \<Rightarrow> cache_msg \<Rightarrow> 'h ruby \<Rightarrow> 'h ruby result" where
  "makeRequest P drv p = request_body (request_body (\<lambda>_ _. Inl No_return) P drv p) P drv p"

text \<open>It is the recursion of the code: the inner body never gets to its own recursive call.\<close>

lemma makeRequest_rec: "makeRequest P drv p request w = request_body (makeRequest P drv p) P drv p request w"
proof -
  have e: "request_body f P drv p r w = request_body g P drv p r w" if "rq_Prefetch r = PrefetchBit_Yes" for f g r w
    using that by (simp add: request_body_def)
  have "request_body (\<lambda>_ _. Inl No_return) P drv p r w = makeRequest P drv p r w"
    if "rq_Prefetch r = PrefetchBit_Yes" for r w unfolding makeRequest_def by (rule e [OF that])
  then have "(\<lambda>i w. let new_request = request\<lparr>rq_Address := line_address (rq_Address request)
                          + of_nat (Suc i * 2 ^ BLOCK_BITS P), rq_Prefetch := PrefetchBit_Yes\<rparr>
                in if sq_isReady P (the_seq w p) new_request
                   then request_body (\<lambda>_ _. Inl No_return) P drv p new_request w else Inr w)
      = (\<lambda>i w. let new_request = request\<lparr>rq_Address := line_address (rq_Address request)
                          + of_nat (Suc i * 2 ^ BLOCK_BITS P), rq_Prefetch := PrefetchBit_Yes\<rparr>
                in if sq_isReady P (the_seq w p) new_request then makeRequest P drv p new_request w else Inr w)"
    by (simp add: Let_def fun_eq_iff)
  then show ?thesis unfolding makeRequest_def [of P drv p] request_body_def [of _ P drv p request w]
    unfolding makeRequest_def [of P drv p, symmetric] by (simp only:)
qed

end
