(* ===== verification/CacheTimes.thy ===== *)
theory CacheTimes
  imports CacheMemory
begin

text \<open>
  Accesses that only bring the time stamps of a cache up to date. \<open>erase_times\<close> forgets the time stamps;
  \<open>view\<close> is what is left of the abstract map, the permission and the data of each line.
\<close>

definition erase_times :: "'d cache_memory \<Rightarrow> 'd cache_memory" where
  "erase_times cm = cm\<lparr>cm_cache := map (map (\<lambda>e. e\<lparr>ce_last_ref := 0\<rparr>)) (cm_cache cm)\<rparr>"

definition view :: "nat \<Rightarrow> 'd cache_memory \<Rightarrow> address \<rightharpoonup> access_permission \<times> 'd" where
  "view dbb cm a = map_option (\<lambda>e. (ce_permission e, ce_data e)) (cached dbb cm a)"

lemma erase_times_eqD:
  assumes "erase_times cm' = erase_times cm"
  shows "cm_num_sets cm' = cm_num_sets cm" "cm_num_set_bits cm' = cm_num_set_bits cm" "cm_assoc cm' = cm_assoc cm"
    "map (map (\<lambda>e. e\<lparr>ce_last_ref := 0\<rparr>)) (cm_cache cm') = map (map (\<lambda>e. e\<lparr>ce_last_ref := 0\<rparr>)) (cm_cache cm)"
  using assms by (cases cm; cases cm'; simp add: erase_times_def)+

lemma find_erased:
  "find (tag_match a) (map (\<lambda>e. e\<lparr>ce_last_ref := 0\<rparr>) xs) = map_option (\<lambda>e. e\<lparr>ce_last_ref := 0\<rparr>) (find (tag_match a) xs)"
  by (induction xs) (auto simp: tag_match_def)

lemma view_erased:
  assumes "cm_inv dbb cm"
  shows "view dbb (erase_times cm) = view dbb cm"
proof
  fix a
  have "set_index dbb (cm_num_set_bits cm) a < length (cm_cache cm)" by (rule the_set_props(1) [OF assms])
  then show "view dbb (erase_times cm) a = view dbb cm a"
    by (simp add: view_def cached_def erase_times_def find_erased option.map_comp comp_def)
qed

lemma cm_inv_erased [simp]: "cm_inv dbb (erase_times cm) = cm_inv dbb cm"
proof -
  have p: "present (e\<lparr>ce_last_ref := 0\<rparr>) = present e" for e :: "'a cache_entry" by (simp add: present_def)
  have t: "tags_distinct (map (\<lambda>e. e\<lparr>ce_last_ref := 0\<rparr>) xs) = tags_distinct xs" for xs :: "'a cache_entry list"
    by (auto simp: tags_distinct_def p)
  show ?thesis by (auto simp: cm_inv_def erase_times_def p t)
qed

lemma erase_times_inv: "erase_times cm' = erase_times cm \<Longrightarrow> cm_inv dbb cm' = cm_inv dbb cm"
  by (metis cm_inv_erased)

lemma erase_times_view: "erase_times cm' = erase_times cm \<Longrightarrow> cm_inv dbb cm \<Longrightarrow> view dbb cm' = view dbb cm"
  by (metis view_erased erase_times_inv)

lemma erase_times_entry:
  assumes "erase_times cm' = erase_times cm" "cm_entry cm i j = Inr e"
  shows "\<exists>e'. cm_entry cm' i j = Inr e' \<and> ce_address e' = ce_address e \<and> ce_permission e' = ce_permission e
    \<and> ce_data e' = ce_data e"
proof -
  note eq = erase_times_eqD(4) [OF assms(1)]
  have i: "i < length (cm_cache cm)" "j < length (cm_cache cm ! i)" "e = cm_cache cm ! i ! j"
    using assms(2) by (auto simp: cm_entry_def lref_def rbind_eq_Inr split: if_splits)
  have l: "length (cm_cache cm') = length (cm_cache cm)" using arg_cong [OF eq, of length] by simp
  have m: "map (\<lambda>e. e\<lparr>ce_last_ref := 0\<rparr>) (cm_cache cm' ! i) = map (\<lambda>e. e\<lparr>ce_last_ref := 0\<rparr>) (cm_cache cm ! i)"
    using arg_cong [OF eq, of "\<lambda>xs. xs ! i"] i(1) l by simp
  have l2: "length (cm_cache cm' ! i) = length (cm_cache cm ! i)" using arg_cong [OF m, of length] by simp
  have "(cm_cache cm' ! i ! j)\<lparr>ce_last_ref := 0\<rparr> = e\<lparr>ce_last_ref := 0\<rparr>"
    using arg_cong [OF m, of "\<lambda>xs. xs ! j"] i(2,3) l2 by simp
  then have "ce_address (cm_cache cm' ! i ! j) = ce_address e \<and> ce_permission (cm_cache cm' ! i ! j) = ce_permission e
      \<and> ce_data (cm_cache cm' ! i ! j) = ce_data e"
    by (cases "cm_cache cm' ! i ! j"; cases e) simp
  then show ?thesis using i l l2 by (simp add: cm_entry_def)
qed

lemma put_time:
  assumes "cm_entry cm i j = Inr e" "cm_put i j (e\<lparr>ce_last_ref := t\<rparr>) cm = Inr cm'"
  shows "erase_times cm' = erase_times cm"
proof -
  have i: "i < length (cm_cache cm)" "j < length (cm_cache cm ! i)" "e = cm_cache cm ! i ! j"
    using assms(1) by (auto simp: cm_entry_def lref_def rbind_eq_Inr split: if_splits)
  have c: "cm' = cm\<lparr>cm_cache := (cm_cache cm)[i := (cm_cache cm ! i)[j := e\<lparr>ce_last_ref := t\<rparr>]]\<rparr>"
    using assms(2) i by (simp add: cm_put_def)
  have "map (map (\<lambda>e. e\<lparr>ce_last_ref := 0\<rparr>)) ((cm_cache cm)[i := (cm_cache cm ! i)[j := e\<lparr>ce_last_ref := t\<rparr>]])
      = map (map (\<lambda>e. e\<lparr>ce_last_ref := 0\<rparr>)) (cm_cache cm)"
    using i by (intro nth_equalityI) (auto simp: nth_list_update map_update intro!: nth_equalityI)
  then show ?thesis by (simp add: erase_times_def c)
qed

lemma setMRU_erase: "setMRU dbb a w cm = Inr cm' \<Longrightarrow> erase_times cm' = erase_times cm"
  by (auto simp: setMRU_def cm_modify_def rbind_eq_Inr intro: put_time)

lemma tryCacheAccess_erase: "tryCacheAccess dbb a type w cm = Inr (hit, place, cm') \<Longrightarrow> erase_times cm' = erase_times cm"
  by (auto simp: tryCacheAccess_def rbind_eq_Inr split: option.splits if_splits intro: put_time)

text \<open>Replacing the entry at the place of a line.\<close>

lemma cm_put_entry:
  assumes "cm_inv dbb cm" "cm_entry cm i j = Inr e" "present e" "present e'" "ce_address e' = ce_address e"
  shows "\<exists>cm'. cm_put i j e' cm = Inr cm' \<and> cm_inv dbb cm' \<and> cached dbb cm' = (cached dbb cm)(ce_address e \<mapsto> e')"
proof -
  have i: "i < length (cm_cache cm)" "j < length (cm_cache cm ! i)" "e = cm_cache cm ! i ! j"
    using assms(2) by (auto simp: cm_entry_def lref_def rbind_eq_Inr split: if_splits)
  have a: "length (cm_cache cm ! i) = cm_assoc cm" "tags_distinct (cm_cache cm ! i)"
    "\<forall>e \<in> set (cm_cache cm ! i). present e \<longrightarrow> ce_address e = line_address (ce_address e)
       \<and> set_index dbb (cm_num_set_bits cm) (ce_address e) = i"
    using assms(1) i(1) by (auto simp: cm_inv_def)
  have m: "e \<in> set (cm_cache cm ! i)" using i by simp
  show ?thesis
  proof (rule cm_put_ok [OF assms(1) i(1), of j e'])
    show "j < cm_assoc cm" using i(2) a(1) by simp
    show "ce_address e' = line_address (ce_address e') \<and> set_index dbb (cm_num_set_bits cm) (ce_address e') = i
        \<and> (\<forall>k < cm_assoc cm. k \<noteq> j \<longrightarrow> present (cm_cache cm ! i ! k) \<longrightarrow> ce_address (cm_cache cm ! i ! k) \<noteq> ce_address e')"
      using a m assms(3,5) i unfolding tags_distinct_def by metis
    fix cm' assume "cm_put i j e' cm = Inr cm'" "cm_inv dbb cm'"
      and "\<And>b. cached dbb cm' b = (if present e' \<and> b = ce_address e' then Some e'
        else if present (cm_cache cm ! i ! j) \<and> b = ce_address (cm_cache cm ! i ! j) then None else cached dbb cm b)"
    then show ?thesis using assms(3-5) i(3) by (intro exI [of _ cm']) (auto simp: fun_eq_iff)
  qed
qed

end
