(* ===== verification/SequencerSafety.thy ===== *)
theory SequencerSafety
  imports Sequencer CacheTimes
begin

text \<open>
  What a sequencer promises to its driver. The caches and the controllers behind it are seen as a memory that is
  coherent: a line that some cache may read has the data of the memory, and a line that a cache may write is in no
  other cache. The locale \<open>ruby_driver\<close> is the contract of the driver: it answers the callback of a request that it
  expects, and only changes its own state and schedules events. In return every request the sequencer accepts is
  answered with the data of the memory, once, and no assertion fails.
\<close>

section \<open>Well-formed systems\<close>

definition params_ok :: "ruby_params \<Rightarrow> bool" where
  "params_ok P \<longleftrightarrow> DATA_BLOCK P \<and> BLOCK_BITS P = 6 \<and> 0 < NUM_PROCESSORS P \<and> 0 < DEADLOCK_THRESHOLD P
     \<and> 0 \<le> SEQUENCER_TO_CONTROLLER_LATENCY P \<and> 0 < THINK_TIME P \<and> 0 < WAIT_TIME P \<and> 0 < HOLD_TIME P"

definition request_ok :: "cache_msg \<Rightarrow> bool" where
  "request_ok r \<longleftrightarrow> rq_Type r \<noteq> CacheRequestType_NULL \<and>
     (rq_Prefetch r = PrefetchBit_No \<longrightarrow> 0 < rq_Size r \<and> offset (rq_Address r) + rq_Size r \<le> 64)"

definition requests_ok :: "int \<Rightarrow> bool \<Rightarrow> (address, cache_msg) rmap \<Rightarrow> bool" where
  "requests_ok now wr t \<longleftrightarrow> rmap_inv t \<and>
     (\<forall>k r. map_of t k = Some r \<longrightarrow>
        k = line_address (rq_Address r) \<and> request_ok r \<and> is_write_type (rq_Type r) = wr \<and> rq_Time r \<le> now)"

definition seq_ok :: "int \<Rightarrow> sequencer \<Rightarrow> bool" where
  "seq_ok now s \<longleftrightarrow> count_ok s \<and> requests_ok now True (sq_writeRequestTable s) \<and> requests_ok now False (sq_readRequestTable s)"

definition fifo_ok :: "'m message_buffer \<Rightarrow> bool" where
  "fifo_ok b \<longleftrightarrow> mb_ok b \<and> m_consumer_ptr b \<noteq> None \<and> m_ordering_set b \<and> \<not> m_strict_fifo b"

definition sys_ok :: "ruby_params \<Rightarrow> 'h ruby \<Rightarrow> bool" where
  "sys_ok P w \<longleftrightarrow> params_ok P \<and> evq_inv w \<and> (\<forall>c. cm_inv 6 (the_cache w c)) \<and>
     (\<forall>p < NUM_PROCESSORS P. seq_ok (w_time w) (the_seq w p) \<and> sq_id (the_seq w p) = p
        \<and> fifo_ok (ry_queues (w_sys w) (sq_request_queue (the_seq w p))))"

text \<open>The requests that wait for an answer. A request has a slot in the tables: its line, and whether it writes.\<close>

definition awaited :: "sequencer \<Rightarrow> cache_msg \<Rightarrow> bool" where
  "awaited s r \<longleftrightarrow> map_of (request_table (rq_Type r) s) (line_address (rq_Address r)) = Some r"

definition demand :: "cache_msg \<Rightarrow> bool" where
  "demand r \<longleftrightarrow> rq_Prefetch r = PrefetchBit_No"

definition same_slot :: "cache_msg \<Rightarrow> cache_msg \<Rightarrow> bool" where
  "same_slot r r' \<longleftrightarrow> is_write_type (rq_Type r) = is_write_type (rq_Type r') \<and> line_address (rq_Address r) = line_address (rq_Address r')"

section \<open>Coherence\<close>

type_synonym memory = "address \<Rightarrow> data_block"

definition mem_ok :: "memory \<Rightarrow> bool" where
  "mem_ok mem \<longleftrightarrow> (\<forall>a. length (mem a) = 64)"

definition readable :: "access_permission \<Rightarrow> bool" where
  "readable q \<longleftrightarrow> q = AccessPermission_Read_Only \<or> q = AccessPermission_Read_Write"

definition coherent :: "memory \<Rightarrow> 'h ruby \<Rightarrow> bool" where
  "coherent mem w \<longleftrightarrow>
     (\<forall>c a q d. view 6 (the_cache w c) a = Some (q, d) \<and> readable q \<longrightarrow> d = mem a \<and>
        (q = AccessPermission_Read_Write \<longrightarrow>
          (\<forall>c' q' d'. c' \<noteq> c \<and> view 6 (the_cache w c') a = Some (q', d') \<longrightarrow> \<not> readable q')))"

text \<open>What the callback of a request reads, and the memory after a callback that leaves \<open>bytes\<close>.\<close>

definition read_bytes :: "memory \<Rightarrow> cache_msg \<Rightarrow> byte list" where
  "read_bytes mem r = slice (offset (rq_Address r)) (rq_Size r) (mem (line_address (rq_Address r)))"

definition write_bytes :: "cache_msg \<Rightarrow> byte list \<Rightarrow> memory \<Rightarrow> memory" where
  "write_bytes r bytes mem =
     (if is_write_type (rq_Type r)
      then mem(line_address (rq_Address r) := splice (offset (rq_Address r)) bytes (mem (line_address (rq_Address r))))
      else mem)"

lemma write_bytes_ok:
  "mem_ok mem \<Longrightarrow> offset (rq_Address r) + length bytes \<le> 64 \<Longrightarrow> mem_ok (write_bytes r bytes mem)"
  by (simp add: mem_ok_def write_bytes_def)

text \<open>A byte of memory.\<close>

definition byte_at :: "memory \<Rightarrow> address \<Rightarrow> byte" where
  "byte_at mem a = mem (line_address a) ! offset a"

lemma line_offset_inj: "line_address a = line_address b \<Longrightarrow> offset a = offset b \<Longrightarrow> a = b"
  unfolding line_address_eq_iff offset_def by (metis div_mult_mod_eq word_unat_eq_iff)

lemma offset_less: "offset a < 64"
  by (simp add: offset_def)

lemma byte_at_write:
  assumes "mem_ok mem" "is_write_type (rq_Type r)"
  shows "byte_at (write_bytes r [b] mem) a = (if a = rq_Address r then b else byte_at mem a)"
proof (cases "line_address a = line_address (rq_Address r)")
  case True
  have l: "length (mem (line_address a)) = 64" using assms(1) by (simp add: mem_ok_def)
  have "offset a = offset (rq_Address r) \<longleftrightarrow> a = rq_Address r" using line_offset_inj [OF True] by auto
  then show ?thesis using assms(2) True l offset_less [of a] offset_less [of "rq_Address r"]
    by (auto simp: byte_at_def write_bytes_def nth_splice)
next
  case False
  then show ?thesis using assms(2) by (auto simp: byte_at_def write_bytes_def)
qed

lemma read_one:
  assumes "mem_ok mem" "rq_Size r = 1"
  shows "read_bytes mem r = [byte_at mem (rq_Address r)]"
proof -
  have "offset (rq_Address r) < length (mem (line_address (rq_Address r)))" using assms(1) offset_less by (simp add: mem_ok_def)
  then show ?thesis using assms(2) by (simp add: read_bytes_def byte_at_def slice_def Cons_nth_drop_Suc [symmetric])
qed

section \<open>Frames\<close>

definition driver_frame :: "'h ruby \<Rightarrow> 'h ruby \<Rightarrow> bool" where
  "driver_frame w w' \<longleftrightarrow> sched_reach w w' \<and> ry_random (w_sys w') = ry_random (w_sys w) \<and> ry_sequencers (w_sys w') = ry_sequencers (w_sys w)
     \<and> ry_queues (w_sys w') = ry_queues (w_sys w) \<and> ry_caches (w_sys w') = ry_caches (w_sys w)"

text \<open>Time stamps in the caches, the driver, the random numbers and the event queue may have changed.\<close>

definition quiet :: "'h ruby \<Rightarrow> 'h ruby \<Rightarrow> bool" where
  "quiet w w' \<longleftrightarrow> sched_reach w w' \<and> ry_sequencers (w_sys w') = ry_sequencers (w_sys w)
     \<and> ry_queues (w_sys w') = ry_queues (w_sys w)
     \<and> (\<forall>c. erase_times (the_cache w' c) = erase_times (the_cache w c))"

lemma sched_reach_upd [intro]: "sched_reach w w' \<Longrightarrow> sched_reach w (upd_ruby f w')"
  unfolding upd_ruby_def by (rule sched_reach.local)

lemma quiet_refl [simp]: "quiet w w"
  by (simp add: quiet_def sched_reach.stay)

lemma quiet_trans: "quiet w w' \<Longrightarrow> quiet w' w'' \<Longrightarrow> quiet w w''"
  by (auto simp: quiet_def intro: sched_reach_trans)

lemma driver_frame_quiet: "driver_frame w w' \<Longrightarrow> quiet w w'"
  by (auto simp: driver_frame_def quiet_def the_cache_def)

named_theorems ruby_simps "reading the system after a change of one part"

lemma upd_ruby_reads [ruby_simps]:
  "w_time (upd_ruby f w) = w_time w" "evq_inv (upd_ruby f w) = evq_inv w" "w_sys (upd_ruby f w) = f (w_sys w)"
  by (simp_all add: upd_ruby_def)

lemma set_seq_reads [ruby_simps]:
  "the_seq (set_seq p s w) p' = (if p' = p then s else the_seq w p')" "the_cache (set_seq p s w) c = the_cache w c"
  "the_driver (set_seq p s w) = the_driver w" "w_time (set_seq p s w) = w_time w" "evq_inv (set_seq p s w) = evq_inv w"
  "ry_queues (w_sys (set_seq p s w)) = ry_queues (w_sys w)"
  by (simp_all add: set_seq_def ruby_simps the_seq_def the_cache_def the_driver_def)

lemma set_cache_reads [ruby_simps]:
  "the_cache (set_cache c x w) c' = (if c' = c then x else the_cache w c')" "the_seq (set_cache c x w) p = the_seq w p"
  "the_driver (set_cache c x w) = the_driver w" "w_time (set_cache c x w) = w_time w" "evq_inv (set_cache c x w) = evq_inv w"
  "ry_queues (w_sys (set_cache c x w)) = ry_queues (w_sys w)" "ry_sequencers (w_sys (set_cache c x w)) = ry_sequencers (w_sys w)"
  by (simp_all add: set_cache_def ruby_simps the_seq_def the_cache_def the_driver_def)

lemma set_driver_reads [ruby_simps]:
  "the_driver (set_driver h w) = h" "the_seq (set_driver h w) p = the_seq w p" "the_cache (set_driver h w) c = the_cache w c"
  "w_time (set_driver h w) = w_time w" "evq_inv (set_driver h w) = evq_inv w" "w_sys (set_driver h w) = (w_sys w)\<lparr>ry_driver := h\<rparr>"
  by (simp_all add: set_driver_def ruby_simps the_seq_def the_cache_def the_driver_def)

lemma scheduled:
  assumes "evq_inv w" "0 < d"
  obtains w' where "scheduleEvent (Some k) d w = Inr w'" "evq_inv w'" "w_time w' = w_time w" "w_sys w' = w_sys w" "sched_reach w w'"
proof -
  note goal = that
  obtain w' where w': "scheduleEventAbsolute (Some k) (d + w_time w) w = Inr w'"
    using scheduleEventAbsolute_ok [OF assms(1), of "d + w_time w" k] assms(2) by auto
  show ?thesis
    using w' schedule_frame [OF w'] scheduleEventAbsolute_inv [OF assms(1) w'] sched_reach.sched [OF sched_reach.stay w']
    by (intro goal [of w']) (simp_all add: scheduleEvent_def)
qed

lemma quiet_props:
  assumes "quiet w w'" "evq_inv w"
  shows "evq_inv w'" "w_time w' = w_time w" "the_seq w' p = the_seq w p"
    "\<forall>c. cm_inv 6 (the_cache w c) \<Longrightarrow> cm_inv 6 (the_cache w' c')"
    "\<forall>c. cm_inv 6 (the_cache w c) \<Longrightarrow> view 6 (the_cache w' c') = view 6 (the_cache w c')"
proof -
  have e: "erase_times (the_cache w' c) = erase_times (the_cache w c)" for c using assms(1) by (simp add: quiet_def)
  show "evq_inv w'" "w_time w' = w_time w" "the_seq w' p = the_seq w p"
    using assms sched_reach_props [of w w'] by (auto simp: quiet_def the_seq_def)
  assume c: "\<forall>c. cm_inv 6 (the_cache w c)"
  then show "cm_inv 6 (the_cache w' c')" using erase_times_inv [OF e] by blast
  show "view 6 (the_cache w' c') = view 6 (the_cache w c')" using erase_times_view [OF e] c by blast
qed

lemma quiet_sys_ok: "quiet w w' \<Longrightarrow> sys_ok P w \<Longrightarrow> sys_ok P w'"
  using quiet_props [of w w'] by (auto simp: sys_ok_def quiet_def)

lemma quiet_coherent: "quiet w w' \<Longrightarrow> sys_ok P w \<Longrightarrow> coherent mem w \<Longrightarrow> coherent mem w'"
  using quiet_props(5) [of w w'] by (simp add: coherent_def sys_ok_def)

section \<open>The request tables\<close>

definition ports :: "sequencer \<Rightarrow> nat \<times> nat \<times> nat \<times> nat" where
  "ports s = (sq_id s, sq_request_queue s, sq_data_cache s, sq_insn_cache s)"

lemma set_table_simps [simp]:
  "is_write_type ty' = is_write_type ty \<Longrightarrow> request_table ty' (set_table ty t s) = t"
  "is_write_type ty' \<noteq> is_write_type ty \<Longrightarrow> request_table ty' (set_table ty t s) = request_table ty' s"
  "ports (set_table ty t s) = ports s" "sq_outstanding_count (set_table ty t s) = sq_outstanding_count s"
  "sq_deadlock_check_scheduled (set_table ty t s) = sq_deadlock_check_scheduled s"
  by (auto simp: request_table_def set_table_def ports_def)

lemma table_update_simps [simp]:
  "request_table ty (s\<lparr>sq_outstanding_count := n\<rparr>) = request_table ty s"
  "request_table ty (s\<lparr>sq_deadlock_check_scheduled := b\<rparr>) = request_table ty s"
  "ports (s\<lparr>sq_outstanding_count := n\<rparr>) = ports s" "ports (s\<lparr>sq_deadlock_check_scheduled := b\<rparr>) = ports s"
  by (simp_all add: request_table_def ports_def)

lemma seq_ok_tables:
  "seq_ok now s \<longleftrightarrow> sq_outstanding_count s = int (rmap_size (request_table CacheRequestType_ST s))
       + int (rmap_size (request_table CacheRequestType_LD s))
     \<and> (\<forall>ty. requests_ok now (is_write_type ty) (request_table ty s))"
proof -
  have "(\<forall>ty. requests_ok now (is_write_type ty) (request_table ty s))
      \<longleftrightarrow> requests_ok now True (sq_writeRequestTable s) \<and> requests_ok now False (sq_readRequestTable s)"
  proof
    assume a: "\<forall>ty. requests_ok now (is_write_type ty) (request_table ty s)"
    from spec [OF a, of CacheRequestType_ST] spec [OF a, of CacheRequestType_LD]
    show "requests_ok now True (sq_writeRequestTable s) \<and> requests_ok now False (sq_readRequestTable s)"
      by (simp add: request_table_def is_write_type_def)
  qed (simp add: request_table_def)
  then show ?thesis by (auto simp: seq_ok_def count_ok_def request_table_def is_write_type_def)
qed

lemma sizes_set_table:
  "int (rmap_size (request_table CacheRequestType_ST (set_table ty t s)))
     + int (rmap_size (request_table CacheRequestType_LD (set_table ty t s))) + int (rmap_size (request_table ty s))
   = int (rmap_size (request_table CacheRequestType_ST s)) + int (rmap_size (request_table CacheRequestType_LD s))
     + int (rmap_size t)"
  by (auto simp: request_table_def set_table_def is_write_type_def)

lemma count_ok_tables: "count_ok s \<longleftrightarrow> sq_outstanding_count s = int (rmap_size (request_table CacheRequestType_ST s))
       + int (rmap_size (request_table CacheRequestType_LD s))"
  by (simp add: count_ok_def request_table_def is_write_type_def)

lemma seq_ok_later: "seq_ok now s \<Longrightarrow> now \<le> now' \<Longrightarrow> seq_ok now' s"
  by (fastforce simp: seq_ok_def requests_ok_def)

lemma outstanding_props:
  assumes "seq_ok now s" "map_of (request_table ty s) k = Some r"
  shows "k = line_address (rq_Address r)" "request_ok r" "is_write_type (rq_Type r) = is_write_type ty" "rq_Time r \<le> now" "awaited s r"
proof -
  have "requests_ok now (is_write_type ty) (request_table ty s)" using assms(1) seq_ok_tables by blast
  then show a: "k = line_address (rq_Address r)" "request_ok r" "is_write_type (rq_Type r) = is_write_type ty" "rq_Time r \<le> now"
    using assms(2) by (auto simp: requests_ok_def)
  then have "request_table (rq_Type r) s = request_table ty s" by (simp add: request_table_def)
  then show "awaited s r" using a(1) assms(2) by (simp add: awaited_def)
qed

lemma same_slot_outstanding: "same_slot r r' \<Longrightarrow> awaited s r \<Longrightarrow> awaited s r' \<Longrightarrow> r = r'"
  by (auto simp: same_slot_def awaited_def request_table_def)

lemma removeRequest_ok:
  assumes "seq_ok now (the_seq w p)" "awaited (the_seq w p) r"
  shows "\<exists>s'. removeRequest p r w = Inr (set_seq p s' w) \<and> seq_ok now s' \<and> ports s' = ports (the_seq w p)
    \<and> (\<forall>r'. awaited s' r' \<longleftrightarrow> awaited (the_seq w p) r' \<and> \<not> same_slot r' r)"
proof -
  let ?s = "the_seq w p" and ?ty = "rq_Type r" and ?line = "line_address (rq_Address r)"
  let ?t = "request_table ?ty ?s"
  have tk: "requests_ok now (is_write_type ty) (request_table ty ?s)" for ty using assms(1) seq_ok_tables by blast
  have inv: "rmap_inv ?t" using tk by (auto simp: requests_ok_def)
  have ex: "rmap_exist ?t ?line" using assms(2) by (simp add: rmap_exist_def awaited_def)
  obtain t where t: "rmap_erase ?line ?t = Inr t" "rmap_inv t" "map_of t = (map_of ?t)(?line := None)"
    using rmap.erase_present [OF inv ex] by blast
  have sz: "rmap_size ?t = rmap_size t + 1" by (rule rmap.size_erase [OF inv t(1)])
  define s' where "s' = (set_table ?ty t ?s)\<lparr>sq_outstanding_count := sq_outstanding_count ?s - 1\<rparr>"
  have c: "count_ok ?s" "count_ok s'" using assms(1) sizes_set_table [of ?ty t ?s] sz
    unfolding count_ok_tables seq_ok_tables s'_def by simp_all
  have "requests_ok now (is_write_type ty) (request_table ty s')" for ty
  proof (cases "is_write_type ty = is_write_type ?ty")
    case True
    then have "request_table ty s' = t" by (simp add: s'_def)
    then show ?thesis using tk [of ?ty] t(2,3) True by (auto simp: requests_ok_def split: if_splits)
  next
    case False
    then show ?thesis using tk [of ty] by (simp add: s'_def)
  qed
  then have "seq_ok now s'" using c(2) unfolding count_ok_tables seq_ok_tables by blast
  moreover have "awaited s' r' \<longleftrightarrow> awaited ?s r' \<and> \<not> same_slot r' r" for r'
  proof (cases "is_write_type (rq_Type r') = is_write_type ?ty")
    case True
    then have "request_table (rq_Type r') s' = t" by (simp add: s'_def)
    moreover have "request_table (rq_Type r') ?s = ?t" using True by (simp add: request_table_def)
    ultimately show ?thesis using True t(3) by (auto simp: awaited_def same_slot_def)
  next
    case False
    then show ?thesis by (simp add: awaited_def same_slot_def s'_def)
  qed
  moreover have "removeRequest p r w = Inr (set_seq p s' w)"
    using c t(1) by (simp add: removeRequest_def Let_def s'_def)
  moreover have "ports s' = ports ?s" by (simp add: s'_def)
  ultimately show ?thesis by blast
qed

lemma insertRequest_ok:
  assumes "evq_inv w" "0 < DEADLOCK_THRESHOLD P" "seq_ok (w_time w) (the_seq w p)" "request_ok r" "rq_Time r \<le> w_time w"
    "\<not> rmap_exist (request_table (rq_Type r) (the_seq w p)) (line_address (rq_Address r))"
  shows "\<exists>s' w'. insertRequest P p r w = Inr (False, set_seq p s' w') \<and> sched_reach w w' \<and> w_sys w' = (w_sys w)\<lparr>ry_sequencers := ry_sequencers (w_sys w')\<rparr>
    \<and> (\<forall>p'. p' \<noteq> p \<longrightarrow> the_seq w' p' = the_seq w p') \<and> seq_ok (w_time w) s' \<and> ports s' = ports (the_seq w p)
    \<and> (\<forall>r'. awaited s' r' \<longleftrightarrow> awaited (the_seq w p) r' \<or> r' = r)"
proof -
  let ?old = "the_seq w p" and ?ty = "rq_Type r" and ?line = "line_address (rq_Address r)"
  obtain w2 b where w2: "(if \<not> sq_deadlock_check_scheduled ?old then
              rbind (scheduleEvent (Some (sequencer_consumer p)) (DEADLOCK_THRESHOLD P) w) (\<lambda>w1.
              Inr (set_seq p ((the_seq w1 p)\<lparr>sq_deadlock_check_scheduled := True\<rparr>) w1))
            else Inr w) = Inr w2" "the_seq w2 p = ?old\<lparr>sq_deadlock_check_scheduled := b\<rparr>" "sched_reach w w2"
      "\<forall>p'. p' \<noteq> p \<longrightarrow> the_seq w2 p' = the_seq w p'" "w_sys w2 = (w_sys w)\<lparr>ry_sequencers := ry_sequencers (w_sys w2)\<rparr>"
  proof (cases "sq_deadlock_check_scheduled ?old")
    case True
    then show ?thesis using that [of w True] by (simp add: sched_reach.stay)
  next
    case False
    obtain w1 where w1: "scheduleEvent (Some (sequencer_consumer p)) (DEADLOCK_THRESHOLD P) w = Inr w1" "w_sys w1 = w_sys w" "sched_reach w w1"
      by (rule scheduled [OF assms(1,2)])
    let ?w2 = "set_seq p ((the_seq w1 p)\<lparr>sq_deadlock_check_scheduled := True\<rparr>) w1"
    have "sched_reach w ?w2" unfolding set_seq_def by (rule sched_reach_upd [OF w1(3)])
    moreover have "the_seq w1 = the_seq w" using w1(2) by (simp add: the_seq_def fun_eq_iff)
    ultimately show ?thesis using that [of ?w2 True] False w1(1,2) by (simp add: ruby_simps) (simp add: set_seq_def ruby_simps)
  qed
  let ?s = "the_seq w2 p"
  let ?t = "request_table ?ty ?s"
  have t0: "?t = request_table ?ty ?old" by (simp add: w2(2))
  have tk: "requests_ok (w_time w) (is_write_type ty) (request_table ty ?s)" for ty
    using assms(3) unfolding seq_ok_tables by (simp add: w2(2))
  have inv: "rmap_inv ?t" using tk by (auto simp: requests_ok_def)
  have nex: "\<not> rmap_exist ?t ?line" unfolding t0 by (rule assms(6))
  let ?t' = "rmap_add ?line r ?t"
  have t': "rmap_inv ?t'" "map_of ?t' = (map_of ?t)(?line \<mapsto> r)" using rmap.add_ok [OF inv] by auto
  have sz: "rmap_size ?t' = rmap_size ?t + 1" using rmap.size_add [OF inv, of ?line r] nex by simp
  define s' where "s' = (set_table ?ty ?t' ?s)\<lparr>sq_outstanding_count := sq_outstanding_count (set_table ?ty ?t' ?s) + 1\<rparr>"
  have c: "count_ok ?old" "count_ok s'" using assms(3) sizes_set_table [of ?ty ?t' ?s] sz
    unfolding count_ok_tables seq_ok_tables s'_def by (simp_all add: w2(2))
  have "requests_ok (w_time w) (is_write_type ty) (request_table ty s')" for ty
  proof (cases "is_write_type ty = is_write_type ?ty")
    case True
    then have "request_table ty s' = ?t'" by (simp add: s'_def)
    then show ?thesis using tk [of ?ty] t' True assms(4,5) by (auto simp: requests_ok_def split: if_splits)
  next
    case False
    then show ?thesis using tk [of ty] by (simp add: s'_def)
  qed
  then have "seq_ok (w_time w) s'" using c(2) unfolding count_ok_tables seq_ok_tables by blast
  moreover have "awaited s' r' \<longleftrightarrow> awaited ?old r' \<or> r' = r" for r'
  proof (cases "is_write_type (rq_Type r') = is_write_type ?ty")
    case True
    then have "request_table (rq_Type r') s' = ?t'" by (simp add: s'_def)
    moreover have "request_table (rq_Type r') ?old = ?t" using True by (subst t0) (simp add: request_table_def)
    ultimately show ?thesis using True t'(2) nex t0 by (auto simp: awaited_def rmap_exist_def)
  next
    case False
    then show ?thesis by (auto simp: awaited_def s'_def w2(2))
  qed
  moreover have "insertRequest P p r w = Inr (False, set_seq p s' w2)"
    using c nex by (simp add: insertRequest_def w2(1) Let_def s'_def)
  moreover have "ports s' = ports ?old" by (simp add: s'_def w2(2))
  ultimately show ?thesis using w2(3-5) by blast
qed

text \<open>A prefetch does not call the driver.\<close>

lemma insertRequest_driver:
  assumes "insertRequest P p r w = Inr (found, w')"
  shows "the_driver w' = the_driver w"
proof -
  have s: "scheduleEvent c d w = Inr w1 \<Longrightarrow> the_driver w1 = the_driver w" for c d and w1 :: "'a ruby"
    by (auto simp: scheduleEvent_def the_driver_def dest!: schedule_frame(1))
  show ?thesis using assms s
    by (auto simp: insertRequest_def Let_def rbind_eq_Inr ruby_simps split: if_splits)
qed

lemma issueRequest_driver:
  assumes "issueRequest P p r w = Inr w'"
  shows "the_driver w' = the_driver w"
proof -
  have m: "mb_enqueue R f m l w1 b = Inr (x, w2) \<Longrightarrow> ry_driver (w_sys w2) = ry_driver (w_sys w1)" for R f m l b x and w1 w2 :: "'a ruby"
    by (auto simp: mb_enqueue_def rbind_eq_Inr Let_def split: prod.splits dest!: schedule_frame(1))
  from assms obtain found w1 where i: "insertRequest P p r w = Inr (found, w1)" by (auto simp: issueRequest_def rbind_eq_Inr)
  have "the_driver w' = the_driver w1"
    using assms i by (auto simp: issueRequest_def rbind_eq_Inr random_draw_def Let_def the_driver_def ruby_simps split: if_splits dest!: m)
  then show ?thesis using insertRequest_driver [OF i] by simp
qed

lemma prefetch_driver:
  assumes "makeRequest P drv p r w = Inr w'" "\<not> demand r"
  shows "the_driver w' = the_driver w"
proof -
  have p: "rq_Prefetch r = PrefetchBit_Yes" using assms(2) by (cases "rq_Prefetch r") (simp_all add: demand_def)
  obtain hit where d: "doRequest P drv p r w = Inr (hit, w')"
    using assms(1) p by (auto simp: makeRequest_def request_body_def rbind_eq_Inr)
  have h: "the_driver v' = the_driver v" if "sq_hitCallback P drv p r data v = Inr (data', v')" for data data' v v'
    using that p by (auto simp: sq_hitCallback_def Let_def rbind_eq_Inr ruby_simps split: if_splits)
  from d show ?thesis
    by (auto simp: doRequest_def sq_tryCacheAccess_def Let_def rbind_eq_Inr ruby_simps split: if_splits option.splits
        dest!: issueRequest_driver h)
qed

section \<open>The contract with the driver\<close>

definition good ::
  "ruby_params \<Rightarrow> (int \<Rightarrow> memory \<Rightarrow> 'h \<Rightarrow> bool) \<Rightarrow> ('h \<Rightarrow> nat \<Rightarrow> cache_msg \<Rightarrow> bool) \<Rightarrow> memory \<Rightarrow> 'h ruby \<Rightarrow> bool" where
  "good P client_inv expects mem w \<longleftrightarrow> sys_ok P w \<and> mem_ok mem \<and> client_inv (w_time w) mem (the_driver w) \<and>
     (\<forall>p < NUM_PROCESSORS P. \<forall>r. awaited (the_seq w p) r \<and> demand r \<longrightarrow> expects (the_driver w) p r)"

text \<open>Between two states the permissions of the lines are the same, and the memory has changed in lines only that some
  cache may write.\<close>

definition settled :: "memory \<Rightarrow> 'h ruby \<Rightarrow> memory \<Rightarrow> 'h ruby \<Rightarrow> bool" where
  "settled mem w mem' w' \<longleftrightarrow> coherent mem' w' \<and> sched_reach w w'
     \<and> (\<forall>c a. map_option fst (view 6 (the_cache w' c) a) = map_option fst (view 6 (the_cache w c) a))
     \<and> (\<forall>a. (\<forall>c d. view 6 (the_cache w c) a \<noteq> Some (AccessPermission_Read_Write, d)) \<longrightarrow> mem' a = mem a)"

lemma settled_refl: "coherent mem w \<Longrightarrow> settled mem w mem w"
  by (simp add: settled_def sched_reach.stay)

lemma settled_trans:
  assumes "settled mem w mem1 w1" "settled mem1 w1 mem2 w2"
  shows "settled mem w mem2 w2"
proof -
  have p: "map_option fst (view 6 (the_cache w1 c) a) = map_option fst (view 6 (the_cache w c) a)" for c a
    using assms(1) by (simp add: settled_def)
  have "view 6 (the_cache w1 c) a \<noteq> Some (AccessPermission_Read_Write, d)"
    if "\<forall>c d. view 6 (the_cache w c) a \<noteq> Some (AccessPermission_Read_Write, d)" for a c d
    using p [of c a] that by (cases "view 6 (the_cache w c) a") auto
  then show ?thesis using assms by (auto simp: settled_def intro: sched_reach_trans)
qed

lemma settled_access:
  assumes "coherent mem w" "view 6 (the_cache w c) line = Some (q, d)" "readable q" "sched_reach w w'"
    "mem' line \<noteq> mem line \<Longrightarrow> q = AccessPermission_Read_Write" "\<forall>a. a \<noteq> line \<longrightarrow> mem' a = mem a"
    "\<And>c' a. view 6 (the_cache w' c') a = (if c' = c \<and> a = line then Some (q, mem' line) else view 6 (the_cache w c') a)"
  shows "settled mem w mem' w'"
proof -
  have co: "d = mem a" "q = AccessPermission_Read_Write \<Longrightarrow> c' \<noteq> c \<Longrightarrow> view 6 (the_cache w c') a = Some (q', d') \<Longrightarrow> \<not> readable q'"
    if "view 6 (the_cache w c) a = Some (q, d)" "readable q" for c a q d c' q' d'
    using assms(1) that unfolding coherent_def by blast+
  have eq: "mem' line = mem line" if "c' \<noteq> c" "view 6 (the_cache w c') line = Some (q', d')" "readable q'" for c' q' d'
    using co(2) [OF assms(2,3) _ that(1,2)] assms(5) that(3) by blast
  have "coherent mem' w'"
    unfolding coherent_def
  proof (intro allI impI conjI)
    fix c1 a q1 d1 assume v: "view 6 (the_cache w' c1) a = Some (q1, d1) \<and> readable q1"
    show "d1 = mem' a"
    proof (cases "a = line")
      case True
      then show ?thesis
        using v co(1) [of c1 line q1 d1] eq [of c1 q1 d1] by (cases "c1 = c") (auto simp: assms(7))
    next
      case False
      then show ?thesis using v co(1) [of c1 a q1 d1] assms(6) by (simp add: assms(7))
    qed
    fix c2 q2 d2
    assume rw: "q1 = AccessPermission_Read_Write" and v2: "c2 \<noteq> c1 \<and> view 6 (the_cache w' c2) a = Some (q2, d2)"
    obtain d1' where "view 6 (the_cache w c1) a = Some (q1, d1')" using v assms(2) by (auto simp: assms(7) split: if_splits)
    moreover obtain d2' where "view 6 (the_cache w c2) a = Some (q2, d2')" using v2 assms(2) by (auto simp: assms(7) split: if_splits)
    ultimately show "\<not> readable q2" using co(2) [of c1 a q1 d1' c2 q2 d2'] v v2 rw by blast
  qed
  moreover have "mem' a = mem a" if "\<forall>c d. view 6 (the_cache w c) a \<noteq> Some (AccessPermission_Read_Write, d)" for a
    using assms(2,5,6) that by (cases "a = line") auto
  ultimately show ?thesis using assms(2,4) by (simp add: settled_def assms(7))
qed

lemma settled_quiet:
  assumes "coherent mem w" "sched_reach w w'" "\<And>c. view 6 (the_cache w' c) = view 6 (the_cache w c)"
  shows "settled mem w mem w'"
  using assms unfolding settled_def coherent_def by simp

lemma sys_ok_set_cache: "sys_ok P w \<Longrightarrow> cm_inv 6 x \<Longrightarrow> sys_ok P (set_cache c x w)"
  by (auto simp: sys_ok_def ruby_simps)

lemma sys_ok_set_seq:
  "sys_ok P w \<Longrightarrow> seq_ok (w_time w) s \<Longrightarrow> ports s = ports (the_seq w p) \<Longrightarrow> sys_ok P (set_seq p s w)"
  by (auto simp: sys_ok_def ruby_simps ports_def)

lemma sys_okD:
  assumes "sys_ok P w"
  shows "evq_inv w" "\<forall>c. cm_inv 6 (the_cache w c)" "p < NUM_PROCESSORS P \<Longrightarrow> seq_ok (w_time w) (the_seq w p)"
    "p < NUM_PROCESSORS P \<Longrightarrow> sq_id (the_seq w p) = p" "params_ok P"
  using assms by (auto simp: sys_ok_def)

lemma goodD:
  assumes "good P client_inv expects mem w"
  shows "sys_ok P w" "mem_ok mem" "client_inv (w_time w) mem (the_driver w)"
    "p < NUM_PROCESSORS P \<Longrightarrow> awaited (the_seq w p) r \<Longrightarrow> demand r \<Longrightarrow> expects (the_driver w) p r"
  using assms by (auto simp: good_def)

locale ruby_driver =
  fixes P :: ruby_params and drv :: "'h driver"
    and client_inv :: "int \<Rightarrow> memory \<Rightarrow> 'h \<Rightarrow> bool" and expects :: "'h \<Rightarrow> nat \<Rightarrow> cache_msg \<Rightarrow> bool"
  assumes hit_ok: "params_ok P \<Longrightarrow> evq_inv w \<Longrightarrow> mem_ok mem \<Longrightarrow> client_inv (w_time w) mem (the_driver w) \<Longrightarrow> p < NUM_PROCESSORS P
      \<Longrightarrow> request_ok r \<Longrightarrow> demand r \<Longrightarrow> expects (the_driver w) p r \<Longrightarrow>
      \<exists>bytes w'. drv p \<lparr>sb_address = rq_Address r, sb_data = read_bytes mem r\<rparr> w
            = Inr (\<lparr>sb_address = rq_Address r, sb_data = bytes\<rparr>, w') \<and> length bytes = rq_Size r \<and> driver_frame w w'
        \<and> client_inv (w_time w') (write_bytes r bytes mem) (the_driver w')
        \<and> (\<forall>p' r'. expects (the_driver w) p' r' \<and> \<not> (p' = p \<and> same_slot r' r) \<longrightarrow> expects (the_driver w') p' r')"
begin

lemma hitCallback_ok:
  assumes "evq_inv w" "\<forall>c. cm_inv 6 (the_cache w c)" "mem_ok mem" "client_inv (w_time w) mem (the_driver w)" "p < NUM_PROCESSORS P"
    "request_ok r" "rq_Time r \<le> w_time w" "sq_id (the_seq w p) = p" "demand r \<longrightarrow> expects (the_driver w) p r"
    "params_ok P"
  shows "\<exists>w' mem'. sq_hitCallback P drv p r (mem (line_address (rq_Address r))) w = Inr (mem' (line_address (rq_Address r)), w')
    \<and> quiet w w' \<and> mem_ok mem' \<and> client_inv (w_time w') mem' (the_driver w')
    \<and> (\<forall>a. a \<noteq> line_address (rq_Address r) \<or> \<not> is_write_type (rq_Type r) \<longrightarrow> mem' a = mem a)
    \<and> (\<forall>p' r'. expects (the_driver w) p' r' \<and> \<not> (p' = p \<and> same_slot r' r) \<longrightarrow> expects (the_driver w') p' r')"
proof -
  let ?line = "line_address (rq_Address r)"
  let ?c = "if rq_Type r = CacheRequestType_IFETCH then sq_insn_cache (the_seq w p) else sq_data_cache (the_seq w p)"
  have P: "DATA_BLOCK P" "BLOCK_BITS P = 6" using assms(10) by (auto simp: params_ok_def)
  have inv: "cm_inv 6 (the_cache w ?c)" using assms(2) by blast
  have tag: "isTagPresent 6 ?line (the_cache w ?c) = Inr (cached 6 (the_cache w ?c) ?line \<noteq> None)"
    by (rule isTagPresent_ok [OF inv]) simp
  obtain w1 where w1: "(if cached 6 (the_cache w ?c) ?line \<noteq> None
        then rbind (setMRU 6 ?line w (the_cache w ?c)) (\<lambda>x. Inr (set_cache ?c x w)) else Inr w) = Inr w1"
      "quiet w w1" "the_driver w1 = the_driver w"
  proof (cases "cached 6 (the_cache w ?c) ?line")
    case None
    then show ?thesis using that [of w] by simp
  next
    case (Some e)
    from setMRU_ok [OF inv _ Some] obtain x where x: "setMRU 6 ?line w (the_cache w ?c) = Inr x" by auto
    have "quiet w (set_cache ?c x w)" using setMRU_erase [OF x]
      by (simp add: quiet_def ruby_simps) (simp add: set_cache_def sched_reach_upd sched_reach.stay)
    then show ?thesis using that [of "set_cache ?c x w"] Some x by (simp add: ruby_simps)
  qed
  note q1 = quiet_props [OF w1(2) assms(1)]
  let ?k = "\<lambda>w1. if rq_Prefetch r = PrefetchBit_Yes then Inr (mem ?line, w1)
      else rbind (SubBlock (rq_Address r) (rq_Size r)) (\<lambda>subblock0. rbind (mergeFrom P (mem ?line) subblock0) (\<lambda>subblock.
           rbind (drv (sq_id (the_seq w p)) subblock w1) (\<lambda>(subblock', w2).
           if is_write_type (rq_Type r) then rbind (mergeTo P subblock' (mem ?line)) (\<lambda>data'. Inr (data', w2))
           else Inr (mem ?line, w2))))"
  have start: "sq_hitCallback P drv p r (mem ?line) w = ?k w1"
    unfolding sq_hitCallback_def Let_def P(2) tag rbind_Inr w1(1) using assms(7) q1(2) by simp
  show ?thesis
  proof (cases "rq_Prefetch r")
    case PrefetchBit_Yes
    then show ?thesis using start w1(2,3) q1(2) assms(3,4) by (intro exI [of _ w1] exI [of _ mem]) simp
  next
    case PrefetchBit_No
    then have d: "demand r" "0 < rq_Size r" "offset (rq_Address r) + rq_Size r \<le> 64"
      using assms(6) by (auto simp: demand_def request_ok_def)
    have len: "length (mem ?line) = 64" using assms(3) by (simp add: mem_ok_def)
    have merged: "mergeFrom P (mem ?line) \<lparr>sb_address = rq_Address r, sb_data = replicate (rq_Size r) 0\<rparr>
        = Inr \<lparr>sb_address = rq_Address r, sb_data = read_bytes mem r\<rparr>"
      using mergeFrom_ok [OF P(1), of "\<lparr>sb_address = rq_Address r, sb_data = replicate (rq_Size r) 0\<rparr>" "mem ?line"] d(2,3) len
      by (simp add: read_bytes_def)
    have "client_inv (w_time w1) mem (the_driver w1)" "expects (the_driver w1) p r" using assms(4,9) d(1) w1(3) q1(2) by simp_all
    from hit_ok [OF assms(10) q1(1) assms(3) this(1) assms(5,6) d(1) this(2)] obtain bytes w2 where
      b: "drv p \<lparr>sb_address = rq_Address r, sb_data = read_bytes mem r\<rparr> w1
            = Inr (\<lparr>sb_address = rq_Address r, sb_data = bytes\<rparr>, w2)" "length bytes = rq_Size r" "driver_frame w1 w2"
        "client_inv (w_time w2) (write_bytes r bytes mem) (the_driver w2)"
        "\<forall>p' r'. expects (the_driver w1) p' r' \<and> \<not> (p' = p \<and> same_slot r' r) \<longrightarrow> expects (the_driver w2) p' r'" by blast
    have stored: "mergeTo P \<lparr>sb_address = rq_Address r, sb_data = bytes\<rparr> (mem ?line) = Inr (splice (offset (rq_Address r)) bytes (mem ?line))"
      using mergeTo_ok [OF P(1), of "\<lparr>sb_address = rq_Address r, sb_data = bytes\<rparr>" "mem ?line"] d(2,3) len b(2) by simp
    have "sq_hitCallback P drv p r (mem ?line) w = Inr (write_bytes r bytes mem ?line, w2)"
      using start PrefetchBit_No merged b(1) stored by (simp add: SubBlock_ok assms(8) write_bytes_def)
    moreover have "quiet w w2" by (rule quiet_trans [OF w1(2) driver_frame_quiet [OF b(3)]])
    moreover have "mem_ok (write_bytes r bytes mem)" by (rule write_bytes_ok [OF assms(3)]) (use d(3) b(2) in simp)
    ultimately show ?thesis using b(4,5) w1(3)
      by (intro exI [of _ w2] exI [of _ "write_bytes r bytes mem"]) (auto simp: write_bytes_def)
  qed
qed

text \<open>The controller has the data of an awaited request.\<close>

lemma complete_ok:
  assumes "good P client_inv expects mem w" "p < NUM_PROCESSORS P" "awaited (the_seq w p) r"
  shows "\<exists>w' mem'. (if is_write_type (rq_Type r) then writeCallback else readCallback) P drv p (line_address (rq_Address r))
        (mem (line_address (rq_Address r))) w = Inr (mem' (line_address (rq_Address r)), w')
    \<and> good P client_inv expects mem' w' \<and> sched_reach w w' \<and> (\<forall>c. erase_times (the_cache w' c) = erase_times (the_cache w c))
    \<and> (\<forall>a. a \<noteq> line_address (rq_Address r) \<or> \<not> is_write_type (rq_Type r) \<longrightarrow> mem' a = mem a)
    \<and> (\<forall>r'. awaited (the_seq w' p) r' \<longleftrightarrow> awaited (the_seq w p) r' \<and> r' \<noteq> r)"
proof -
  let ?line = "line_address (rq_Address r)"
  note s = sys_okD [OF goodD(1) [OF assms(1)]]
  have m: "map_of (request_table (rq_Type r) (the_seq w p)) ?line = Some r" using assms(3) by (simp add: awaited_def)
  note r = outstanding_props [OF s(3) [OF assms(2)] m]
  obtain s' where s': "removeRequest p r w = Inr (set_seq p s' w)" "seq_ok (w_time w) s'" "ports s' = ports (the_seq w p)"
      "\<forall>r'. awaited s' r' \<longleftrightarrow> awaited (the_seq w p) r' \<and> \<not> same_slot r' r"
    using removeRequest_ok [OF s(3) [OF assms(2)] assms(3)] by blast
  let ?w1 = "set_seq p s' w"
  have sys1: "sys_ok P ?w1" by (rule sys_ok_set_seq [OF goodD(1) [OF assms(1)] s'(2,3)])
  have id1: "sq_id (the_seq ?w1 p) = p" using sys_okD(4) [OF sys1] assms(2) by blast
  have exp1: "demand r \<longrightarrow> expects (the_driver ?w1) p r" using goodD(4) [OF assms(1,2,3)] by (simp add: ruby_simps)
  obtain w' mem' where h: "sq_hitCallback P drv p r (mem ?line) ?w1 = Inr (mem' ?line, w')" "quiet ?w1 w'" "mem_ok mem'"
      "client_inv (w_time w') mem' (the_driver w')" "\<forall>a. a \<noteq> ?line \<or> \<not> is_write_type (rq_Type r) \<longrightarrow> mem' a = mem a"
      "\<forall>p' r'. expects (the_driver ?w1) p' r' \<and> \<not> (p' = p \<and> same_slot r' r) \<longrightarrow> expects (the_driver w') p' r'"
    using hitCallback_ok [OF sys_okD(1) [OF sys1] sys_okD(2) [OF sys1] goodD(2) [OF assms(1)] _ assms(2) r(2) _ id1 exp1 sys_okD(5) [OF sys1]]
      goodD(3) [OF assms(1)] r(4) by (auto simp: ruby_simps)
  have seqs: "the_seq w' p' = the_seq ?w1 p'" for p' using quiet_props(3) [OF h(2) sys_okD(1) [OF sys1]] .
  have "expects (the_driver w') p' r'"
    if "p' < NUM_PROCESSORS P" "awaited (the_seq w' p') r'" "demand r'" for p' r'
  proof -
    have "awaited (the_seq w p') r'" "\<not> (p' = p \<and> same_slot r' r)" using that(2) s'(4) by (auto simp: seqs ruby_simps split: if_splits)
    then show ?thesis using h(6) goodD(4) [OF assms(1) that(1) _ that(3)] by (simp add: ruby_simps)
  qed
  then have "good P client_inv expects mem' w'"
    using h(3,4) quiet_sys_ok [OF h(2) sys1] by (simp add: good_def)
  moreover have "sched_reach w ?w1" unfolding set_seq_def by (rule sched_reach_upd [OF sched_reach.stay])
  then have "sched_reach w w'" using h(2) sched_reach_trans by (auto simp: quiet_def)
  moreover have "(if is_write_type (rq_Type r) then writeCallback else readCallback) P drv p ?line (mem ?line) w
      = sq_hitCallback P drv p r (mem ?line) ?w1"
  proof -
    have ty: "\<not> is_write_type (rq_Type r) \<Longrightarrow> rq_Type r = CacheRequestType_LD \<or> rq_Type r = CacheRequestType_IFETCH"
      using r(2) by (cases "rq_Type r") (auto simp: request_ok_def is_write_type_def)
    have "rmap_lookup (request_table (rq_Type r) (the_seq w p)) ?line = Inr r"
      "rmap_exist (request_table (rq_Type r) (the_seq w p)) ?line" using m by (simp_all add: rmap_lookup_def rmap_exist_def)
    then show ?thesis using s'(1) ty by (auto simp: writeCallback_def readCallback_def request_table_def)
  qed
  moreover have "erase_times (the_cache w' c) = erase_times (the_cache w c)" for c
    using h(2) by (simp add: quiet_def ruby_simps)
  moreover have "awaited (the_seq w' p) r' \<longleftrightarrow> awaited (the_seq w p) r' \<and> r' \<noteq> r" for r'
    using s'(4) same_slot_outstanding [of r' r "the_seq w p"] assms(3)
    by (auto simp: seqs ruby_simps) (simp add: same_slot_def)
  ultimately show ?thesis using h(1,5) by (intro exI [of _ w'] exI [of _ mem']) simp
qed

text \<open>A request that misses joins the awaited ones and is sent to the controller.\<close>

lemma issueRequest_ok:
  assumes "good P client_inv expects mem w" "p < NUM_PROCESSORS P" "request_ok r" "rq_Time r \<le> w_time w"
    "\<not> rmap_exist (request_table (rq_Type r) (the_seq w p)) (line_address (rq_Address r))"
    "demand r \<longrightarrow> expects (the_driver w) p r"
  shows "\<exists>w'. issueRequest P p r w = Inr w' \<and> good P client_inv expects mem w' \<and> sched_reach w w'
    \<and> the_driver w' = the_driver w \<and> (\<forall>c. the_cache w' c = the_cache w c)
    \<and> (\<forall>r'. awaited (the_seq w' p) r' \<longleftrightarrow> awaited (the_seq w p) r' \<or> r' = r)"
proof -
  note s = sys_okD [OF goodD(1) [OF assms(1)]]
  have P: "0 < DEADLOCK_THRESHOLD P" "0 \<le> SEQUENCER_TO_CONTROLLER_LATENCY P" using s(5) by (auto simp: params_ok_def)
  obtain s' w1 where i: "insertRequest P p r w = Inr (False, set_seq p s' w1)" "sched_reach w w1"
      "w_sys w1 = (w_sys w)\<lparr>ry_sequencers := ry_sequencers (w_sys w1)\<rparr>" "\<forall>p'. p' \<noteq> p \<longrightarrow> the_seq w1 p' = the_seq w p'"
      "seq_ok (w_time w) s'" "ports s' = ports (the_seq w p)" "\<forall>r'. awaited s' r' \<longleftrightarrow> awaited (the_seq w p) r' \<or> r' = r"
    using insertRequest_ok [OF s(1) P(1) s(3) [OF assms(2)] assms(3,4,5)] by blast
  let ?w2 = "set_seq p s' w1"
  have ev: "evq_inv w1" "w_time w1 = w_time w" using sched_reach_props [OF i(2) s(1)] by auto
  have sys: "ry_queues (w_sys w1) = ry_queues (w_sys w)" "ry_caches (w_sys w1) = ry_caches (w_sys w)"
    "ry_driver (w_sys w1) = ry_driver (w_sys w)" by (subst i(3), simp)+
  have cache1: "the_cache w1 c = the_cache w c" for c using sys by (simp add: the_cache_def)
  have sys2: "sys_ok P ?w2"
    using goodD(1) [OF assms(1)] i(4-6) ev sys(1) by (auto simp: sys_ok_def ruby_simps cache1 ports_def)
  let ?w3 = "upd_ruby (\<lambda>r. r\<lparr>ry_draws := ry_draws r + 1\<rparr>) ?w2" and ?q = "sq_request_queue s'"
  let ?r = "ry_random (w_sys ?w2) (ry_draws (w_sys ?w2))"
  let ?msg = "r\<lparr>rq_Address := line_address (rq_Address r)\<rparr>"
  let ?lat = "SEQUENCER_TO_CONTROLLER_LATENCY P + (1 + int (?r mod 3))"
  let ?f = "ry_random (w_sys ?w3)" and ?d = "ry_draws (w_sys ?w3)"
  have q: "fifo_ok (ry_queues (w_sys ?w2) ?q)" using sys2 assms(2) by (auto simp: sys_ok_def ruby_simps)
  then obtain k where k: "m_consumer_ptr (ry_queues (w_sys ?w3) ?q) = Some k" by (auto simp: fifo_ok_def ruby_simps)
  have ev3: "evq_inv ?w3" using ev by (simp add: ruby_simps)
  from mb_enqueue_frame [of "ry_queues (w_sys ?w3) ?q" ?w3 k ?lat "RANDOM_LATENCY P" "(?f ?d, ?f (?d + 1), ?f (?d + 2))" ?msg]
  obtain x w4 c t where e: "mb_enqueue (RANDOM_LATENCY P) (?f ?d, ?f (?d + 1), ?f (?d + 2)) ?msg ?lat ?w3 (ry_queues (w_sys ?w3) ?q) = Inr (x, w4)"
      "mb_ok x" "statics x = statics (ry_queues (w_sys ?w3) ?q)" "scheduleEventAbsolute c t ?w3 = Inr w4"
    using ev3 k q P(2) by (auto simp: fifo_ok_def ruby_simps)
  define w' where "w' = upd_ruby (\<lambda>s. s\<lparr>ry_queues := (ry_queues s)(?q := x), ry_draws := ?d + 3\<rparr>) w4"
  have xq: "fifo_ok x" using q e(2,3) by (simp add: fifo_ok_def statics_def ruby_simps)
  have f4: "w_sys w4 = w_sys ?w3" "w_time w4 = w_time ?w3" using schedule_frame [OF e(4)] by auto
  have "evq_inv w4" by (rule scheduleEventAbsolute_inv [OF _ e(4)]) (use ev in \<open>simp add: ruby_simps\<close>)
  have seqs: "the_seq w' p' = the_seq ?w2 p'" for p' by (simp add: the_seq_def w'_def ruby_simps f4)
  have same: "the_driver w' = the_driver w" "the_cache w' = the_cache w"
    using sys by (auto simp: w'_def the_driver_def the_cache_def ruby_simps f4 set_seq_def fun_eq_iff)
  have rest: "w_time w' = w_time ?w2" "evq_inv w'" "ry_queues (w_sys w') = (ry_queues (w_sys ?w2))(?q := x)"
    using \<open>evq_inv w4\<close> by (simp_all add: w'_def ruby_simps f4)
  have "sys_ok P w'"
    using sys2 s(2) xq rest(2) unfolding sys_ok_def seqs same rest(1,3) by auto
  moreover have "expects (the_driver w) p' r'"
    if "p' < NUM_PROCESSORS P" "awaited (the_seq ?w2 p') r'" "demand r'" for p' r'
    using that goodD(4) [OF assms(1) that(1) _ that(3)] i(4,7) assms(6) by (auto simp: ruby_simps split: if_splits)
  ultimately have "good P client_inv expects mem w'"
    using goodD(2,3) [OF assms(1)] by (simp add: good_def same seqs rest(1)) (simp add: ruby_simps ev)
  moreover have "issueRequest P p r w = Inr w'"
    using i(1) e(1) by (simp add: issueRequest_def random_draw_def Let_def w'_def) (simp add: ruby_simps the_seq_def set_seq_def)
  moreover have "sched_reach w ?w2" unfolding set_seq_def by (rule sched_reach_upd [OF i(2)])
  then have "sched_reach w w'" unfolding w'_def by (intro sched_reach_upd sched_reach.sched [OF _ e(4)])
  moreover have "awaited (the_seq w' p) r' \<longleftrightarrow> awaited (the_seq w p) r' \<or> r' = r" for r'
    using i(7) by (simp add: seqs ruby_simps)
  ultimately show ?thesis using same by (intro exI [of _ w']) simp
qed

text \<open>The access of the cache.\<close>

lemma tryCache_ok:
  assumes "\<forall>c. cm_inv 6 (the_cache w c)" "params_ok P"
  shows "\<exists>place c x. sq_tryCacheAccess P p a ty w = Inr (place \<noteq> None, map_option (\<lambda>(i, j). (c, i, j)) place, set_cache c x w)
    \<and> erase_times x = erase_times (the_cache w c)
    \<and> (\<forall>i j. place = Some (i, j) \<longrightarrow> (\<exists>e. cm_entry x i j = Inr e \<and> cached 6 x (line_address a) = Some e
       \<and> (ce_permission e = AccessPermission_Read_Write \<or> ce_permission e = AccessPermission_Read_Only \<and> \<not> is_write_type ty)))"
proof -
  define c where "c = (if ty = CacheRequestType_IFETCH then sq_insn_cache (the_seq w p) else sq_data_cache (the_seq w p))"
  let ?x = "the_cache w c" and ?a = "line_address a"
  have P: "BLOCK_BITS P = 6" using assms(2) by (simp add: params_ok_def)
  have inv: "cm_inv 6 ?x" using assms(1) by blast
  have al: "?a = line_address ?a" by simp
  obtain place x where x: "tryCacheAccess 6 ?a ty w ?x = Inr (place \<noteq> None, place, x)"
      "\<forall>i j. place = Some (i, j) \<longrightarrow> (\<exists>e. cm_entry x i j = Inr e \<and> cached 6 x ?a = Some e
         \<and> (ce_permission e = AccessPermission_Read_Write \<or> ce_permission e = AccessPermission_Read_Only \<and> \<not> is_write_type ty))"
  proof (cases "cached 6 ?x ?a")
    case None
    show ?thesis by (rule that [of None ?x]) (simp_all add: tryCacheAccess_ok(1) [OF inv al None])
  next
    case (Some e)
    from tryCacheAccess_ok(2) [OF inv al Some, of ty w] obtain pl cm' where
      x: "tryCacheAccess 6 ?a ty w ?x = Inr (pl \<noteq> None, pl, cm')" "cached 6 cm' = (cached 6 ?x)(?a \<mapsto> e\<lparr>ce_last_ref := w_time w\<rparr>)"
        "pl \<noteq> None \<longleftrightarrow> ce_permission e = AccessPermission_Read_Write
           \<or> ce_permission e = AccessPermission_Read_Only \<and> (ty = CacheRequestType_LD \<or> ty = CacheRequestType_IFETCH)"
        "\<forall>s l. pl = Some (s, l) \<longrightarrow> cm_entry cm' s l = Inr (e\<lparr>ce_last_ref := w_time w\<rparr>)" by blast
    show ?thesis using x(2,3,4) by (intro that [OF x(1)]) (auto simp: is_write_type_def)
  qed
  have "sq_tryCacheAccess P p a ty w = Inr (place \<noteq> None, map_option (\<lambda>(i, j). (c, i, j)) place, set_cache c x w)"
    using x(1) by (simp add: sq_tryCacheAccess_def Let_def P flip: c_def)
  then show ?thesis using x(2) tryCacheAccess_erase [OF x(1)] by blast
qed

lemma doRequest_ok:
  assumes "good P client_inv expects mem w" "coherent mem w" "p < NUM_PROCESSORS P" "request_ok r" "rq_Time r \<le> w_time w"
    "\<not> rmap_exist (request_table (rq_Type r) (the_seq w p)) (line_address (rq_Address r))"
    "demand r \<longrightarrow> expects (the_driver w) p r"
  shows "\<exists>hit w' mem'. doRequest P drv p r w = Inr (hit, w') \<and> good P client_inv expects mem' w' \<and> settled mem w mem' w'
    \<and> (\<forall>r'. awaited (the_seq w' p) r' \<longleftrightarrow> awaited (the_seq w p) r' \<or> \<not> hit \<and> r' = r)"
proof -
  let ?line = "line_address (rq_Address r)"
  note s = sys_okD [OF goodD(1) [OF assms(1)]]
  obtain place c x where x: "sq_tryCacheAccess P p ?line (rq_Type r) w
        = Inr (place \<noteq> None, map_option (\<lambda>(i, j). (c, i, j)) place, set_cache c x w)"
      "erase_times x = erase_times (the_cache w c)"
      "\<forall>i j. place = Some (i, j) \<longrightarrow> (\<exists>e. cm_entry x i j = Inr e \<and> cached 6 x (line_address ?line) = Some e
       \<and> (ce_permission e = AccessPermission_Read_Write \<or> ce_permission e = AccessPermission_Read_Only \<and> \<not> is_write_type (rq_Type r)))"
    using tryCache_ok [OF s(2,5), of p ?line "rq_Type r"] by blast
  let ?w1 = "set_cache c x w"
  have q1: "quiet w ?w1" unfolding quiet_def using x(2)
    by (simp add: ruby_simps) (simp add: set_cache_def sched_reach_upd sched_reach.stay)
  have sys1: "sys_ok P ?w1" by (rule quiet_sys_ok [OF q1 goodD(1) [OF assms(1)]])
  have good1: "good P client_inv expects mem ?w1" using assms(1) sys1 by (simp add: good_def ruby_simps)
  note s1 = sys_okD [OF sys1]
  have view1: "view 6 (the_cache ?w1 c') = view 6 (the_cache w c')" for c' by (rule quiet_props(5) [OF q1 s(1,2)])
  show ?thesis
  proof (cases place)
    case None
    obtain w' where w': "issueRequest P p r ?w1 = Inr w'" "good P client_inv expects mem w'" "sched_reach ?w1 w'"
        "\<forall>c. the_cache w' c = the_cache ?w1 c"
        "\<forall>r'. awaited (the_seq w' p) r' \<longleftrightarrow> awaited (the_seq ?w1 p) r' \<or> r' = r"
      using issueRequest_ok [OF good1 assms(3,4)] assms(5-7) by (auto simp: ruby_simps)
    have "sched_reach w w'" using q1 w'(3) sched_reach_trans by (auto simp: quiet_def)
    then have "settled mem w mem w'" by (rule settled_quiet [OF assms(2)]) (simp add: w'(4) view1)
    moreover have "doRequest P drv p r w = Inr (False, w')" using w'(1) None by (simp add: doRequest_def x(1))
    ultimately show ?thesis using w'(2,5) by (auto simp: ruby_simps)
  next
    case (Some ij)
    obtain i j where ij: "ij = (i, j)" by force
    obtain e where e: "cm_entry x i j = Inr e" "cached 6 x ?line = Some e"
        "ce_permission e = AccessPermission_Read_Write \<or> ce_permission e = AccessPermission_Read_Only \<and> \<not> is_write_type (rq_Type r)"
      using x(3) Some ij by auto
    have v: "view 6 (the_cache w c) ?line = Some (ce_permission e, ce_data e)"
      using fun_cong [OF view1 [of c], of ?line] e(2) by (simp add: ruby_simps) (simp add: view_def)
    have rd: "readable (ce_permission e)" using e(3) by (auto simp: readable_def)
    have d: "ce_data e = mem ?line" using assms(2) v rd unfolding coherent_def by blast
    have id1: "sq_id (the_seq ?w1 p) = p" using s1(4) [OF assms(3)] .
    obtain w2 mem' where h: "sq_hitCallback P drv p r (mem ?line) ?w1 = Inr (mem' ?line, w2)" "quiet ?w1 w2" "mem_ok mem'"
        "client_inv (w_time w2) mem' (the_driver w2)" "\<forall>a. a \<noteq> ?line \<or> \<not> is_write_type (rq_Type r) \<longrightarrow> mem' a = mem a"
        "\<forall>p' r'. expects (the_driver ?w1) p' r' \<and> \<not> (p' = p \<and> same_slot r' r) \<longrightarrow> expects (the_driver w2) p' r'"
      using hitCallback_ok [OF s1(1,2) goodD(2,3) [OF good1] assms(3,4) _ id1 _ s1(5)] assms(5,7) by (auto simp: ruby_simps)
    have sys2: "sys_ok P w2" by (rule quiet_sys_ok [OF h(2) sys1])
    note q2 = quiet_props [OF h(2) s1(1)]
    have view2: "view 6 (the_cache w2 c') = view 6 (the_cache w c')" for c' using q2(5) [OF s1(2)] view1 by simp
    have "erase_times (the_cache w2 c) = erase_times x" using h(2) by (simp add: quiet_def ruby_simps)
    from erase_times_entry [OF this e(1)] obtain e2 where
      e2: "cm_entry (the_cache w2 c) i j = Inr e2" "ce_address e2 = ce_address e" "ce_permission e2 = ce_permission e" by blast
    have al: "ce_address e = ?line" "present e2" using cached_aligned [OF e(2)] e2(3) by (simp_all add: present_def)
    have inv2: "cm_inv 6 (the_cache w2 c)" using sys_okD(2) [OF sys2] by blast
    obtain x' where x': "cm_put i j (e2\<lparr>ce_data := mem' ?line\<rparr>) (the_cache w2 c) = Inr x'" "cm_inv 6 x'"
        "cached 6 x' = (cached 6 (the_cache w2 c))(?line \<mapsto> e2\<lparr>ce_data := mem' ?line\<rparr>)"
      using cm_put_entry [OF inv2 e2(1) al(2), of "e2\<lparr>ce_data := mem' ?line\<rparr>"] al e2(2) by (auto simp: present_def)
    let ?w3 = "set_cache c x' w2"
    have run: "doRequest P drv p r w = Inr (True, ?w3)"
      using Some ij e(1) d h(1) e2(1) x'(1) by (simp add: doRequest_def x(1)) (simp add: ruby_simps)
    have "sched_reach w w2" using q1 h(2) sched_reach_trans by (auto simp: quiet_def)
    then have "sched_reach w ?w3" unfolding set_cache_def by (rule sched_reach_upd)
    then have settled: "settled mem w mem' ?w3"
    proof (rule settled_access [OF assms(2) v rd])
      show "ce_permission e = AccessPermission_Read_Write" if "mem' ?line \<noteq> mem ?line" using that e(3) h(5) by blast
      show "\<forall>a. a \<noteq> ?line \<longrightarrow> mem' a = mem a" using h(5) by blast
      have "view 6 x' = (view 6 (the_cache w2 c))(?line \<mapsto> (ce_permission e, mem' ?line))"
        using x'(3) e2(3) by (auto simp: view_def fun_eq_iff)
      then show "view 6 (the_cache ?w3 c') a = (if c' = c \<and> a = ?line then Some (ce_permission e, mem' ?line)
          else view 6 (the_cache w c') a)" for c' a
        using view2 by (simp add: ruby_simps)
    qed
    have "expects (the_driver w2) p' r'"
      if o': "p' < NUM_PROCESSORS P" "awaited (the_seq w2 p') r'" "demand r'" for p' r'
    proof -
      have o: "awaited (the_seq w p') r'" using o'(2) q2(3) by (simp add: ruby_simps)
      have "\<not> (p' = p \<and> same_slot r' r)"
        using o assms(6) by (auto simp: awaited_def same_slot_def rmap_exist_def request_table_def split: if_splits)
      then show ?thesis using h(6) goodD(4) [OF assms(1) o'(1) o o'(3)] by (simp add: ruby_simps)
    qed
    then have "good P client_inv expects mem' ?w3"
      using h(3,4) sys_ok_set_cache [OF sys2 x'(2)] by (simp add: good_def ruby_simps)
    moreover have "the_seq ?w3 p = the_seq w p" using q2(3) by (simp add: ruby_simps)
    ultimately show ?thesis using run settled by auto
  qed
qed

text \<open>A whole request, with the prefetches after a missed instruction fetch. It goes through whatever the driver does
  in its callback, and keeps everything well-formed and coherent.\<close>

lemma request_body_ok:
  assumes "good P client_inv expects mem w" "coherent mem w" "p < NUM_PROCESSORS P" "request_ok r" "rq_Time r \<le> w_time w"
    "sq_isReady P (the_seq w p) r" "demand r \<longrightarrow> expects (the_driver w) p r"
    and self: "\<And>mem w r'. demand r \<Longrightarrow> good P client_inv expects mem w \<Longrightarrow> coherent mem w \<Longrightarrow> request_ok r' \<Longrightarrow> rq_Time r' \<le> w_time w
      \<Longrightarrow> sq_isReady P (the_seq w p) r' \<Longrightarrow> \<not> demand r' \<Longrightarrow>
        \<exists>w' mem'. self r' w = Inr w' \<and> good P client_inv expects mem' w' \<and> settled mem w mem' w'"
  shows "\<exists>w' mem'. request_body self P drv p r w = Inr w' \<and> good P client_inv expects mem' w' \<and> settled mem w mem' w'"
proof -
  obtain hit w1 mem1 where d: "doRequest P drv p r w = Inr (hit, w1)" "good P client_inv expects mem1 w1" "settled mem w mem1 w1"
    using doRequest_ok [OF assms(1-5) _ assms(7)] assms(6) by (auto simp: sq_isReady_def)
  have time: "w_time w' = w_time w" if "settled mem w mem' w'" for mem' w'
    using that sched_reach_props [of w w'] sys_okD(1) [OF goodD(1) [OF assms(1)]] by (simp add: settled_def)
  show ?thesis
  proof (cases "\<not> hit \<and> rq_Prefetch r = PrefetchBit_No \<and> rq_Type r = CacheRequestType_IFETCH")
    case False
    then show ?thesis using d assms(6) by (auto simp: request_body_def)
  next
    case True
    let ?r = "\<lambda>i. r\<lparr>rq_Address := line_address (rq_Address r) + of_nat (Suc i * 2 ^ BLOCK_BITS P), rq_Prefetch := PrefetchBit_Yes\<rparr>"
    let ?f = "\<lambda>i w. let new_request = ?r i in if sq_isReady P (the_seq w p) new_request then self new_request w else Inr w"
    let ?I = "\<lambda>w'. \<exists>mem'. good P client_inv expects mem' w' \<and> settled mem w mem' w'"
    have step: "\<exists>v'. ?f i v = Inr v' \<and> ?I v'" if v: "?I v" for i v
    proof -
      obtain m where m: "good P client_inv expects m v" "settled mem w m v" using v by blast
      have r: "request_ok (?r i)" "rq_Time (?r i) \<le> w_time v" "\<not> demand (?r i)" "demand r"
        using assms(4,5) time [OF m(2)] True by (simp_all add: request_ok_def demand_def)
      show ?thesis
      proof (cases "sq_isReady P (the_seq v p) (?r i)")
        case True
        obtain v' m' where "self (?r i) v = Inr v'" "good P client_inv expects m' v'" "settled m v m' v'"
          using self [OF r(4) m(1) _ r(1,2) True r(3)] m(2) by (auto simp: settled_def)
        then show ?thesis using True settled_trans [OF m(2)] by (auto simp: Let_def)
      next
        case False
        then show ?thesis using m by (auto simp: Let_def)
      qed
    qed
    have "\<exists>w'. rfold ?f [0..<INSTR_PREFETCH_NUM_LINES P] w1 = Inr w' \<and> ?I w'"
      by (rule rfold_total) (use d(2,3) step in blast)+
    then show ?thesis using d(1) assms(6) True by (auto simp: request_body_def)
  qed
qed

lemma makeRequest_ok:
  assumes "good P client_inv expects mem w" "coherent mem w" "p < NUM_PROCESSORS P" "request_ok r" "rq_Time r \<le> w_time w"
    "sq_isReady P (the_seq w p) r" "demand r \<longrightarrow> expects (the_driver w) p r"
  shows "\<exists>w' mem'. makeRequest P drv p r w = Inr w' \<and> good P client_inv expects mem' w' \<and> settled mem w mem' w'"
  unfolding makeRequest_def
proof (rule request_body_ok [OF assms])
  fix mem w r'
  assume "good P client_inv expects mem w" "coherent mem w" "request_ok r'" "rq_Time r' \<le> w_time w"
    "sq_isReady P (the_seq w p) r'" "\<not> demand r'"
  then show "\<exists>w' mem'. request_body (\<lambda>_ _. Inl No_return) P drv p r' w = Inr w' \<and> good P client_inv expects mem' w'
      \<and> settled mem w mem' w'"
    using request_body_ok [of mem w p r' "\<lambda>_ _. Inl No_return"] assms(3) by blast
qed

text \<open>The deadlock check fails only for a request that has waited too long.\<close>

lemma overdue_check_ok:
  assumes "\<forall>k r. map_of t k = Some r \<longrightarrow> now - rq_Time r < DEADLOCK_THRESHOLD P"
  shows "overdue_check P now t = Inr ()"
proof -
  have "\<exists>u. overdue_check P now t = Inr u \<and> True" unfolding overdue_check_def
  proof (rule rfold_total)
    fix k u assume "k \<in> set (rmap_keys t)"
    then obtain r where "map_of t k = Some r" using set_rmap_keys [of t] by blast
    then show "\<exists>v. rbind (rmap_lookup t k) (\<lambda>request. check (\<not> (now - rq_Time request \<ge> DEADLOCK_THRESHOLD P)) Error_exit (Inr u)) = Inr v \<and> True"
      using assms by (simp add: rmap_lookup_def not_le)
  qed simp
  then show ?thesis by simp
qed

lemma sq_wakeup_ok:
  assumes "good P client_inv expects mem w" "p < NUM_PROCESSORS P"
    "\<forall>r. awaited (the_seq w p) r \<longrightarrow> w_time w - rq_Time r < DEADLOCK_THRESHOLD P"
  shows "\<exists>w'. sq_wakeup P p w = Inr w' \<and> good P client_inv expects mem w' \<and> sched_reach w w'
    \<and> the_driver w' = the_driver w \<and> (\<forall>c. the_cache w' c = the_cache w c)"
proof -
  let ?s = "the_seq w p"
  note s = sys_okD [OF goodD(1) [OF assms(1)]]
  have "overdue_check P (w_time w) (request_table ty ?s) = Inr ()" for ty
    using outstanding_props(5) [OF s(3) [OF assms(2)], of ty] assms(3) by (intro overdue_check_ok) blast
  from this [of CacheRequestType_LD] this [of CacheRequestType_ST]
  have o: "overdue_check P (w_time w) (sq_readRequestTable ?s) = Inr ()" "overdue_check P (w_time w) (sq_writeRequestTable ?s) = Inr ()"
    by (simp_all add: request_table_def is_write_type_def)
  have c: "count_ok ?s" using s(3) [OF assms(2)] by (simp add: seq_ok_def)
  show ?thesis
  proof (cases "sq_outstanding_count ?s > 0")
    case True
    have P: "0 < DEADLOCK_THRESHOLD P" using s(5) by (simp add: params_ok_def)
    obtain w' where w': "scheduleEvent (Some (sequencer_consumer p)) (DEADLOCK_THRESHOLD P) w = Inr w'" "evq_inv w'"
        "w_time w' = w_time w" "w_sys w' = w_sys w" "sched_reach w w'" by (rule scheduled [OF s(1) P])
    have same: "the_seq w' = the_seq w" "the_cache w' = the_cache w" "the_driver w' = the_driver w"
      using w'(4) by (auto simp: the_seq_def the_cache_def the_driver_def fun_eq_iff)
    have "good P client_inv expects mem w'" using assms(1) w'(2-4) by (simp add: good_def sys_ok_def same)
    then show ?thesis using True o c w'(1,5) by (simp add: sq_wakeup_def Let_def same)
  next
    case False
    let ?s' = "?s\<lparr>sq_deadlock_check_scheduled := False\<rparr>" and ?w' = "set_seq p (?s\<lparr>sq_deadlock_check_scheduled := False\<rparr>) w"
    have "seq_ok (w_time w) ?s'" using s(3) [OF assms(2)] by (simp add: seq_ok_def count_ok_def)
    then have "sys_ok P ?w'" by (intro sys_ok_set_seq [OF goodD(1) [OF assms(1)]]) simp_all
    moreover have "awaited ?s' r = awaited ?s r" for r by (simp add: awaited_def)
    ultimately have "good P client_inv expects mem ?w'"
      using assms(1) by (auto simp: good_def ruby_simps split: if_splits)
    moreover have "sched_reach w ?w'" unfolding set_seq_def by (rule sched_reach_upd [OF sched_reach.stay])
    ultimately show ?thesis using False o c by (simp add: sq_wakeup_def Let_def ruby_simps)
  qed
qed

lemma sq_wakeup_good:
  assumes "good P client_inv expects mem w" "p < NUM_PROCESSORS P" "sq_wakeup P p w = Inr w'"
  shows "good P client_inv expects mem w' \<and> (\<forall>c. the_cache w' c = the_cache w c)"
proof -
  let ?s = "the_seq w p"
  note s = sys_okD [OF goodD(1) [OF assms(1)]]
  have lt: "now - rq_Time r < DEADLOCK_THRESHOLD P"
    if o: "overdue_check P now t = Inr ()" and r: "map_of t k = Some r" for now t k r
  proof -
    have k: "k \<in> set (rmap_keys t)" using r set_rmap_keys [of t] by blast
    then obtain xs ys where xs: "rmap_keys t = xs @ k # ys" by (meson split_list)
    show ?thesis using o r unfolding overdue_check_def xs
      by (auto simp: rfold_append rbind_eq_Inr rmap_lookup_def not_le)
  qed
  have "overdue_check P (w_time w) (sq_readRequestTable ?s) = Inr ()" "overdue_check P (w_time w) (sq_writeRequestTable ?s) = Inr ()"
    using assms(3) by (auto simp: sq_wakeup_def Let_def rbind_eq_Inr)
  then have "\<forall>r. awaited ?s r \<longrightarrow> w_time w - rq_Time r < DEADLOCK_THRESHOLD P"
    using lt by (auto simp: awaited_def request_table_def split: if_splits)
  from sq_wakeup_ok [OF assms(1,2) this] show ?thesis using assms(3) by auto
qed

end

end
