(* ===== verification/RubySystem.thy ===== *)
theory RubySystem
  imports SequencerSafety
begin

text \<open>
  A whole system: a driver, the sequencers of its processors, and controllers that answer_request the awaited requests
  from a coherent memory in any order and at any time. \<open>ruby_run\<close> are its reachable states. The locale
  \<open>ruby_system\<close> extends the contract of a driver by its constructor and its wakeups; in it every reachable state
  is well-formed and every awaited request can be answered.
\<close>

section \<open>Steps\<close>

text \<open>What the rest of the simulator may do between the steps of the driver and the sequencers. A run takes place before the
  time \<open>limit\<close>.\<close>

definition controllers :: "ruby_params \<Rightarrow> int \<Rightarrow> 'h ruby \<Rightarrow> 'h ruby \<Rightarrow> bool" where
  "controllers P limit w w' \<longleftrightarrow> evq_inv w' \<and> w_time w \<le> w_time w' \<and> w_time w' \<le> limit \<and> ry_sequencers (w_sys w') = ry_sequencers (w_sys w)
     \<and> ry_driver (w_sys w') = ry_driver (w_sys w) \<and> (\<forall>c. cm_inv 6 (the_cache w' c))
     \<and> (\<forall>p < NUM_PROCESSORS P. fifo_ok (ry_queues (w_sys w') (sq_request_queue (the_seq w' p))))"

text \<open>The system before the driver is constructed: no requests yet.\<close>

definition boot :: "ruby_params \<Rightarrow> int \<Rightarrow> memory \<Rightarrow> 'h ruby \<Rightarrow> bool" where
  "boot P limit mem w \<longleftrightarrow> sys_ok P w \<and> 0 \<le> w_time w \<and> w_time w \<le> limit \<and> mem_ok mem \<and> coherent mem w \<and> (\<forall>p < NUM_PROCESSORS P. \<forall>r. \<not> awaited (the_seq w p) r)"

definition answer_request :: "ruby_params \<Rightarrow> 'h driver \<Rightarrow> nat \<Rightarrow> cache_msg \<Rightarrow> memory \<Rightarrow> 'h ruby \<Rightarrow> (memory \<times> 'h ruby) result" where
  "answer_request P drv p r mem w =
     (let line = line_address (rq_Address r)
      in if is_write_type (rq_Type r)
         then rbind (writeCallback P drv p line (mem line) w) (\<lambda>(d, w'). Inr (mem(line := d), w'))
         else rbind (readCallback P drv p line (mem line) w) (\<lambda>(d, w'). Inr (mem, w')))"

inductive ruby_run ::
  "ruby_params \<Rightarrow> int \<Rightarrow> 'h driver \<Rightarrow> ('h ruby \<Rightarrow> 'h ruby result) \<Rightarrow> (nat \<Rightarrow> 'h ruby \<Rightarrow> 'h ruby result) \<Rightarrow> memory \<Rightarrow> 'h ruby \<Rightarrow> bool"
  for P limit drv construct wake where
  start: "boot P limit mem w \<Longrightarrow> construct w = Inr w' \<Longrightarrow> ruby_run P limit drv construct wake mem w'"
| wakeup: "ruby_run P limit drv construct wake mem w \<Longrightarrow> wake k w = Inr w' \<Longrightarrow> settled mem w mem' w'
    \<Longrightarrow> ruby_run P limit drv construct wake mem' w'"
| answered: "ruby_run P limit drv construct wake mem w \<Longrightarrow> p < NUM_PROCESSORS P \<Longrightarrow> awaited (the_seq w p) r
    \<Longrightarrow> answer_request P drv p r mem w = Inr (mem', w1) \<Longrightarrow> controllers P limit w1 w' \<Longrightarrow> coherent mem' w'
    \<Longrightarrow> ruby_run P limit drv construct wake mem' w'"
| sequencer: "ruby_run P limit drv construct wake mem w \<Longrightarrow> p < NUM_PROCESSORS P \<Longrightarrow> sq_wakeup P p w = Inr w'
    \<Longrightarrow> ruby_run P limit drv construct wake mem w'"
| elsewhere: "ruby_run P limit drv construct wake mem w \<Longrightarrow> controllers P limit w w' \<Longrightarrow> coherent mem w'
    \<Longrightarrow> ruby_run P limit drv construct wake mem w'"

section \<open>Preservation\<close>

lemma settled_unique:
  assumes "settled mem w mem1 w'" "settled mem w mem2 w'"
  shows "mem1 = mem2"
proof
  fix a
  show "mem1 a = mem2 a"
  proof (cases "\<exists>c d. view 6 (the_cache w c) a = Some (AccessPermission_Read_Write, d)")
    case True
    then obtain c d where v: "view 6 (the_cache w c) a = Some (AccessPermission_Read_Write, d)" by blast
    have "map_option fst (view 6 (the_cache w' c) a) = map_option fst (view 6 (the_cache w c) a)"
      using assms(1) by (simp add: settled_def)
    then obtain d' where "view 6 (the_cache w' c) a = Some (AccessPermission_Read_Write, d')"
      using v by (cases "view 6 (the_cache w' c) a") auto
    moreover have "readable AccessPermission_Read_Write" by (simp add: readable_def)
    ultimately show ?thesis using assms unfolding settled_def coherent_def by metis
  next
    case False
    then show ?thesis using assms by (simp add: settled_def)
  qed
qed

lemma controllers_good:
  assumes "controllers P limit w w'" "good P client_inv expects mem w"
    and later: "\<And>now now' mem h. client_inv now mem h \<Longrightarrow> now \<le> now' \<Longrightarrow> now' \<le> limit \<Longrightarrow> client_inv now' mem h"
  shows "good P client_inv expects mem w'"
proof -
  have same: "the_seq w' = the_seq w" "the_driver w' = the_driver w"
    using assms(1) by (auto simp: controllers_def the_seq_def the_driver_def fun_eq_iff)
  have "sys_ok P w'" using assms seq_ok_later
    by (auto simp: good_def sys_ok_def controllers_def same)
  moreover have "w_time w \<le> w_time w'" "w_time w' \<le> limit" using assms(1) by (simp_all add: controllers_def)
  ultimately show ?thesis using assms(2) later by (auto simp: good_def same)
qed

locale ruby_system = ruby_driver P drv client_inv expects
  for P :: ruby_params and drv :: "'h driver"
    and client_inv :: "int \<Rightarrow> memory \<Rightarrow> 'h \<Rightarrow> bool" and expects :: "'h \<Rightarrow> nat \<Rightarrow> cache_msg \<Rightarrow> bool" +
  fixes limit :: int and construct :: "'h ruby \<Rightarrow> 'h ruby result" and wake :: "nat \<Rightarrow> 'h ruby \<Rightarrow> 'h ruby result"
  assumes later: "client_inv now mem h \<Longrightarrow> now \<le> now' \<Longrightarrow> now' \<le> limit \<Longrightarrow> client_inv now' mem h"
    and construct_ok: "boot P limit mem w \<Longrightarrow> construct w = Inr w' \<Longrightarrow> good P client_inv expects mem w'"
    and wake_ok: "good P client_inv expects mem w \<Longrightarrow> coherent mem w \<Longrightarrow> wake k w = Inr w' \<Longrightarrow>
      \<exists>mem'. good P client_inv expects mem' w' \<and> settled mem w mem' w'"
    and construct_frame: "boot P limit mem w \<Longrightarrow> construct w = Inr w' \<Longrightarrow> ry_caches (w_sys w') = ry_caches (w_sys w)"
begin

lemma answer_ok:
  assumes "good P client_inv expects mem w" "p < NUM_PROCESSORS P" "awaited (the_seq w p) r"
  shows "\<exists>mem' w'. answer_request P drv p r mem w = Inr (mem', w') \<and> good P client_inv expects mem' w'
    \<and> (\<forall>r'. awaited (the_seq w' p) r' \<longleftrightarrow> awaited (the_seq w p) r' \<and> r' \<noteq> r)
    \<and> (\<forall>c. view 6 (the_cache w' c) = view 6 (the_cache w c)) \<and> (\<not> is_write_type (rq_Type r) \<longrightarrow> mem' = mem)"
proof -
  let ?line = "line_address (rq_Address r)"
  obtain w' mem' where c: "(if is_write_type (rq_Type r) then writeCallback else readCallback) P drv p ?line (mem ?line) w
        = Inr (mem' ?line, w')" "good P client_inv expects mem' w'"
      "\<forall>a. a \<noteq> ?line \<or> \<not> is_write_type (rq_Type r) \<longrightarrow> mem' a = mem a"
      "\<forall>r'. awaited (the_seq w' p) r' \<longleftrightarrow> awaited (the_seq w p) r' \<and> r' \<noteq> r"
      "\<forall>c. erase_times (the_cache w' c) = erase_times (the_cache w c)"
    using complete_ok [OF assms] by blast
  have "cm_inv 6 (the_cache w c)" for c using assms(1) by (simp add: good_def sys_ok_def)
  then have v: "view 6 (the_cache w' c) = view 6 (the_cache w c)" for c using c(5) erase_times_view by blast
  have "mem' = (if is_write_type (rq_Type r) then mem(?line := mem' ?line) else mem)" using c(3) by auto
  then have "answer_request P drv p r mem w = Inr (mem', w')"
    using c(1) by (cases "is_write_type (rq_Type r)") (simp_all add: answer_request_def Let_def)
  moreover have "mem' = mem" if "\<not> is_write_type (rq_Type r)" using c(3) that by auto
  ultimately show ?thesis using c(2,4) v by blast
qed

lemma run_good:
  assumes "ruby_run P limit drv construct wake mem w"
  shows "good P client_inv expects mem w \<and> coherent mem w"
  using assms
proof (induction rule: ruby_run.induct)
  case (start mem w w')
  have "the_cache w' = the_cache w" using construct_frame [OF start] by (simp add: the_cache_def fun_eq_iff)
  then show ?case using construct_ok [OF start] start(1) by (simp add: boot_def coherent_def)
next
  case (wakeup mem w k w' mem')
  then obtain m where m: "good P client_inv expects m w'" "settled mem w m w'" using wake_ok by blast
  have "mem' = m" by (rule settled_unique [OF wakeup(3) m(2)])
  then show ?case using m by (simp add: settled_def)
next
  case (answered mem w p r mem' w1 w')
  then obtain m v where "answer_request P drv p r mem w = Inr (m, v)" "good P client_inv expects m v" using answer_ok by blast
  then have g: "good P client_inv expects mem' w1" using answered(4) by simp
  show ?case by (rule conjI [OF controllers_good [OF answered(5) g] answered(6)]) (rule later)
next
  case (sequencer mem w p w')
  have g: "good P client_inv expects mem w" "coherent mem w" using sequencer.IH by auto
  have "good P client_inv expects mem w' \<and> (\<forall>c. the_cache w' c = the_cache w c)"
    by (rule sq_wakeup_good [OF g(1) sequencer(2,3)])
  then show ?case using g(2) by (simp add: coherent_def)
next
  case (elsewhere mem w w')
  then show ?case using controllers_good [OF elsewhere(2)] later by metis
qed

end

end
