(* ===== verification/ControllerSteps.thy ===== *)
theory ControllerSteps
  imports RubySystem
begin

text \<open>
  What the controllers do to the parts of the system that are modelled. The controllers themselves are generated by
  the protocol compiler; they act on the caches, the message buffers and the event queue through the operations of
  CacheMemory, MessageBuffer and EventQueue only, any of them, in any order. A run in which they do that is a
  \<open>ruby_run\<close>: that the caches, queues and events stay well-formed is proved here for every such operation; that the
  caches are coherent with the memory again at the end is what is left to the protocol.
\<close>

section \<open>Operations\<close>

datatype ctrl_op =
    Dequeue nat | Recycle nat | Enqueue nat cache_msg int
  | Allocate nat address "data_block cache_entry \<Rightarrow> data_block cache_entry" | Deallocate nat address
  | Permission nat address access_permission | Data nat address data_block | Touch nat address
  | Schedule "nat option" int | NextEvent | Idle int

definition set_queue :: "nat \<Rightarrow> cache_msg message_buffer \<Rightarrow> 'h ruby \<Rightarrow> 'h ruby" where
  "set_queue q b = upd_ruby (\<lambda>s. s\<lparr>ry_queues := (ry_queues s)(q := b)\<rparr>)"

text \<open>
  \<open>NextEvent\<close> takes the next event off the queue, at its time, for the wakeup of a controller, whose effects are the
  operations that follow; \<open>Idle\<close> is the end of \<open>triggerEvents\<close>.
\<close>

fun ctrl_do :: "ruby_params \<Rightarrow> ctrl_op \<Rightarrow> 'h ruby \<Rightarrow> 'h ruby result" where
  "ctrl_do P (Dequeue q) w = rbind (mb_dequeue w (ry_queues (w_sys w) q)) (\<lambda>(m, b). Inr (set_queue q b w))"
| "ctrl_do P (Recycle q) w = rbind (mb_recycle w (ry_queues (w_sys w) q)) (\<lambda>(b, w'). Inr (set_queue q b w'))"
| "ctrl_do P (Enqueue q m d) w =
     (let (r1, w1) = random_draw w; (r2, w2) = random_draw w1; (r3, w3) = random_draw w2
      in rbind (mb_enqueue (RANDOM_LATENCY P) (r1, r2, r3) m d w3 (ry_queues (w_sys w3) q)) (\<lambda>(b, w'). Inr (set_queue q b w')))"
| "ctrl_do P (Allocate c a f) w = rbind (cm_allocate f 6 a w (the_cache w c)) (\<lambda>x. Inr (set_cache c x w))"
| "ctrl_do P (Deallocate c a) w = rbind (cm_deallocate 6 a (the_cache w c)) (\<lambda>x. Inr (set_cache c x w))"
| "ctrl_do P (Permission c a p) w = rbind (changePermission 6 a p (the_cache w c)) (\<lambda>(x, r). Inr (set_cache c x w))"
| "ctrl_do P (Data c a d) w = rbind (cm_modify 6 a (\<lambda>e. e\<lparr>ce_data := d\<rparr>) (the_cache w c)) (\<lambda>x. Inr (set_cache c x w))"
| "ctrl_do P (Touch c a) w = rbind (setMRU 6 a w (the_cache w c)) (\<lambda>x. Inr (set_cache c x w))"
| "ctrl_do P (Schedule k t) w = scheduleEventAbsolute k t w"
| "ctrl_do P NextEvent w =
     check (0 < heap_size (w_heap w)) Assert_failed (
     rbind (heap_peekMin (w_heap w)) (\<lambda>n. trigger_first (local_wake (\<lambda>_ s. s)) n w))"
| "ctrl_do P (Idle t) w =
     check (w_time w \<le> t \<and> (\<forall>n \<in># pending w. t < en_time n)) Assert_failed (Inr (w\<lparr>w_time := t\<rparr>))"

section \<open>Well-formedness\<close>

definition parts_ok :: "ruby_params \<Rightarrow> 'h ruby \<Rightarrow> bool" where
  "parts_ok P w \<longleftrightarrow> evq_inv w \<and> (\<forall>c. cm_inv 6 (the_cache w c))
     \<and> (\<forall>p < NUM_PROCESSORS P. fifo_ok (ry_queues (w_sys w) (sq_request_queue (the_seq w p))))"

definition same_clients :: "'h ruby \<Rightarrow> 'h ruby \<Rightarrow> bool" where
  "same_clients w w' \<longleftrightarrow> w_time w \<le> w_time w' \<and> ry_sequencers (w_sys w') = ry_sequencers (w_sys w)
     \<and> ry_driver (w_sys w') = ry_driver (w_sys w)"

lemma same_clients_refl: "same_clients w w"
  by (simp add: same_clients_def)

lemma same_clients_trans: "same_clients w w' \<Longrightarrow> same_clients w' w'' \<Longrightarrow> same_clients w w''"
  by (auto simp: same_clients_def)

lemma parts_controllers:
  "parts_ok P w' \<Longrightarrow> same_clients w w' \<Longrightarrow> w_time w' \<le> limit \<Longrightarrow> controllers P limit w w'"
  by (simp add: parts_ok_def same_clients_def controllers_def)

subsection \<open>Caches\<close>

lemma cm_modify_inv:
  assumes "cm_inv 6 cm" "cm_modify 6 a f cm = Inr cm'" "\<And>e. ce_address (f e) = ce_address e"
  shows "cm_inv 6 cm'"
proof -
  have a: "a = line_address a" using assms(2) by (auto simp: cm_modify_def cm_lookup_def rbind_eq_Inr)
  then obtain e where e: "cached 6 cm a = Some e"
    using assms(2) cm_lookup_ok(1) [OF assms(1) a] by (cases "cached 6 cm a") (auto simp: cm_modify_def)
  have "ce_address (f e) = a" using assms(3) cached_aligned [OF e] by simp
  from cm_modify_ok [where f = f, OF assms(1) a e this] assms(2) show ?thesis by auto
qed

lemma cm_allocate_inv:
  assumes "cm_inv 6 cm" "cm_allocate f 6 a w cm = Inr cm'"
  shows "cm_inv 6 cm'"
proof -
  have a: "a = line_address a" using assms(2) by (auto simp: cm_allocate_def)
  have "cached 6 cm a = None" "\<not> set_full 6 cm a"
    using assms(2) isTagPresent_ok [OF assms(1) a] cacheAvail_ok [OF assms(1) a]
    by (auto simp: cm_allocate_def rbind_eq_Inr)
  from cm_allocate_ok [OF assms(1) a this, of f w] assms(2) show ?thesis by auto
qed

lemma set_cache_parts:
  assumes "parts_ok P w" "cm_inv 6 x"
  shows "parts_ok P (set_cache c x w) \<and> same_clients w (set_cache c x w)"
  using assms by (simp add: parts_ok_def same_clients_def ruby_simps the_driver_def [symmetric])

subsection \<open>Queues\<close>

lemma set_queue_reads:
  "the_seq (set_queue q b w) p = the_seq w p" "the_cache (set_queue q b w) c = the_cache w c" "evq_inv (set_queue q b w) = evq_inv w"
  "w_time (set_queue q b w) = w_time w" "ry_sequencers (w_sys (set_queue q b w)) = ry_sequencers (w_sys w)"
  "ry_driver (w_sys (set_queue q b w)) = ry_driver (w_sys w)"
  "ry_queues (w_sys (set_queue q b w)) = (ry_queues (w_sys w))(q := b)"
  by (simp_all add: set_queue_def ruby_simps the_seq_def the_cache_def)

lemma scheduled_parts:
  assumes "parts_ok P w" "scheduleEventAbsolute k t w = Inr w'"
  shows "parts_ok P w' \<and> same_clients w w' \<and> w_sys w' = w_sys w"
proof -
  have "evq_inv w'" using assms by (auto simp: parts_ok_def intro: scheduleEventAbsolute_inv)
  moreover have "w_sys w' = w_sys w" "w_time w' = w_time w" using schedule_frame [OF assms(2)] by simp_all
  ultimately show ?thesis using assms(1) by (simp add: parts_ok_def same_clients_def the_cache_def the_seq_def)
qed

text \<open>A buffer may be changed to one that is well-formed if it was, with the same settings.\<close>

lemma set_queue_parts:
  assumes "parts_ok P w" "fifo_ok (ry_queues (w_sys w) q) \<longrightarrow> fifo_ok b"
  shows "parts_ok P (set_queue q b w) \<and> same_clients w (set_queue q b w)"
proof -
  have "fifo_ok (ry_queues (w_sys (set_queue q b w)) (sq_request_queue (the_seq (set_queue q b w) p)))"
    if "p < NUM_PROCESSORS P" for p
    using that assms unfolding parts_ok_def set_queue_reads by (cases "sq_request_queue (the_seq w p) = q") auto
  then show ?thesis using assms(1) unfolding parts_ok_def same_clients_def set_queue_reads by simp
qed

lemma dequeue_fifo: "fifo_ok b \<Longrightarrow> mb_dequeue w b = Inr (m, b') \<Longrightarrow> fifo_ok b'"
  using mb_pop_ok [of b w b']
  by (auto simp: fifo_ok_def mb_dequeue_def mb_pop_def rbind_eq_Inr)

lemma recycle_fifo: "fifo_ok b \<Longrightarrow> mb_recycle w b = Inr (b', w') \<Longrightarrow> fifo_ok b'"
proof -
  assume b: "fifo_ok b" and r: "mb_recycle w b = Inr (b', w')"
  have "mb_ok b'" using mb_recycle_ok [OF _ r] b by (simp add: fifo_ok_def)
  moreover have "m_consumer_ptr b' = m_consumer_ptr b \<and> m_ordering_set b' = m_ordering_set b \<and> m_strict_fifo b' = m_strict_fifo b"
    using r by (auto simp: mb_recycle_def Let_def rbind_eq_Inr)
  ultimately show "fifo_ok b'" using b by (simp add: fifo_ok_def)
qed

lemma enqueue_fifo: "fifo_ok b \<Longrightarrow> mb_enqueue R rnd m d w b = Inr (b', w') \<Longrightarrow> fifo_ok b'"
  using mb_enqueue_ok [of b R rnd m d w b' w']
  by (auto simp: fifo_ok_def mb_enqueue_def Let_def rbind_eq_Inr split: prod.splits)

lemma enqueue_schedules:
  "mb_enqueue R rnd m d w b = Inr (b', w') \<Longrightarrow> \<exists>k t. scheduleEventAbsolute k t w = Inr w'"
  by (auto simp: mb_enqueue_def Let_def rbind_eq_Inr split: prod.splits)

lemma recycle_schedules:
  "mb_recycle w b = Inr (b', w') \<Longrightarrow> \<exists>k t. scheduleEventAbsolute k t w = Inr w'"
  by (auto simp: mb_recycle_def Let_def rbind_eq_Inr)

lemma draw_parts:
  "random_draw w = (r, w') \<Longrightarrow> parts_ok P w \<Longrightarrow> parts_ok P w' \<and> same_clients w w'"
  by (auto simp: random_draw_def parts_ok_def same_clients_def ruby_simps the_cache_def the_seq_def)

lemma queued_parts:
  assumes "parts_ok P w" "scheduleEventAbsolute k t w = Inr w'" "fifo_ok (ry_queues (w_sys w) q) \<longrightarrow> fifo_ok b"
  shows "parts_ok P (set_queue q b w') \<and> same_clients w (set_queue q b w')"
  using scheduled_parts [OF assms(1,2)] set_queue_parts [of P w' q b] assms(3) same_clients_trans by fastforce

subsection \<open>Events\<close>

lemma next_event_parts:
  assumes "parts_ok P w" "0 < heap_size (w_heap w)" "heap_peekMin (w_heap w) = Inr n"
    "trigger_first (local_wake (\<lambda>_ s. s)) n w = Inr w'"
  shows "parts_ok P w' \<and> same_clients w w'"
proof -
  have i: "evq_inv w" using assms(1) by (simp add: parts_ok_def)
  have s: "w_sys w' = w_sys w" using assms(4)
    by (auto simp: trigger_first_def triggerWakeup_def local_wake_def Let_def rbind_eq_Inr split: option.splits if_splits)
  note t = local_client.trigger_first_ok [OF i assms(3,2,4)]
  then have "w_time w \<le> w_time w'" using i by (auto simp: evq_inv_def)
  then show ?thesis using t assms(1) s by (simp add: parts_ok_def same_clients_def the_cache_def the_seq_def)
qed

lemma idle_parts:
  assumes "parts_ok P w" "w_time w \<le> t" "\<forall>n \<in># pending w. t < en_time n"
  shows "parts_ok P (w\<lparr>w_time := t\<rparr>) \<and> same_clients w (w\<lparr>w_time := t\<rparr>)"
proof -
  have "evq_inv (w\<lparr>w_time := t\<rparr>)"
    using assms by (auto simp: parts_ok_def evq_inv_def pending_def)
  then show ?thesis using assms(1,2) by (simp add: parts_ok_def same_clients_def the_cache_def the_seq_def)
qed

subsection \<open>Every operation\<close>

lemma ctrl_do_ok:
  assumes "parts_ok P w" "ctrl_do P x w = Inr w'"
  shows "parts_ok P w' \<and> same_clients w w'"
proof -
  have C: "cm_inv 6 (the_cache w c)" for c using assms(1) by (simp add: parts_ok_def)
  show ?thesis
  proof (cases x)
    case (Dequeue q)
    then obtain m b where b: "mb_dequeue w (ry_queues (w_sys w) q) = Inr (m, b)" "w' = set_queue q b w"
      using assms(2) by (auto simp: rbind_eq_Inr)
    show ?thesis unfolding b(2) by (rule set_queue_parts [OF assms(1)]) (blast intro: dequeue_fifo [OF _ b(1)])
  next
    case (Recycle q)
    then obtain b v where b: "mb_recycle w (ry_queues (w_sys w) q) = Inr (b, v)" "w' = set_queue q b v"
      using assms(2) by (auto simp: rbind_eq_Inr)
    obtain k t where "scheduleEventAbsolute k t w = Inr v" using recycle_schedules [OF b(1)] by blast
    then show ?thesis unfolding b(2) by (rule queued_parts [OF assms(1)]) (blast intro: recycle_fifo [OF _ b(1)])
  next
    case (Enqueue q m d)
    obtain r1 w1 r2 w2 r3 w3 where r: "random_draw w = (r1, w1)" "random_draw w1 = (r2, w2)" "random_draw w2 = (r3, w3)"
      by (metis surj_pair)
    then obtain b v where b: "mb_enqueue (RANDOM_LATENCY P) (r1, r2, r3) m d w3 (ry_queues (w_sys w3) q) = Inr (b, v)"
        "w' = set_queue q b v"
      using assms(2) Enqueue by (auto simp: rbind_eq_Inr)
    note p1 = draw_parts [OF r(1) assms(1)]
    note p2 = draw_parts [OF r(2) conjunct1 [OF p1]]
    note p3 = draw_parts [OF r(3) conjunct1 [OF p2]]
    obtain k t where s: "scheduleEventAbsolute k t w3 = Inr v" using enqueue_schedules [OF b(1)] by blast
    have "parts_ok P w' \<and> same_clients w3 w'"
      unfolding b(2) by (rule queued_parts [OF conjunct1 [OF p3] s]) (blast intro: enqueue_fifo [OF _ b(1)])
    then show ?thesis using p1 p2 p3 same_clients_trans by blast
  next
    case (Allocate c a f)
    then show ?thesis using assms
      by (auto simp: rbind_eq_Inr intro!: set_cache_parts elim!: cm_allocate_inv [OF C])
  next
    case (Deallocate c a)
    then show ?thesis using assms
      by (auto simp: rbind_eq_Inr cm_deallocate_def intro!: set_cache_parts elim!: cm_modify_inv [OF C])
  next
    case (Permission c a p)
    then show ?thesis using assms
      by (auto simp: rbind_eq_Inr changePermission_def intro!: set_cache_parts elim!: cm_modify_inv [OF C])
  next
    case (Data c a d)
    then show ?thesis using assms
      by (auto simp: rbind_eq_Inr intro!: set_cache_parts elim!: cm_modify_inv [OF C])
  next
    case (Touch c a)
    then show ?thesis using assms
      by (auto simp: rbind_eq_Inr setMRU_def intro!: set_cache_parts elim!: cm_modify_inv [OF C])
  next
    case (Schedule k t)
    then show ?thesis using scheduled_parts [OF assms(1)] assms(2) by simp
  next
    case NextEvent
    then obtain n where "0 < heap_size (w_heap w)" "heap_peekMin (w_heap w) = Inr n"
        "trigger_first (local_wake (\<lambda>_ s. s)) n w = Inr w'" using assms(2) by (auto simp: rbind_eq_Inr)
    then show ?thesis by (rule next_event_parts [OF assms(1)])
  next
    case (Idle t)
    then have "w_time w \<le> t" "\<forall>n \<in># pending w. t < en_time n" "w' = w\<lparr>w_time := t\<rparr>" using assms(2) by simp_all
    then show ?thesis using idle_parts [OF assms(1)] by simp
  qed
qed

lemma ctrl_run_ok:
  assumes "rfold (ctrl_do P) xs w = Inr w'" "parts_ok P w"
  shows "parts_ok P w' \<and> same_clients w w'"
  using assms(1)
proof (rule rfold_invariant)
  show "parts_ok P w \<and> same_clients w w" using assms(2) same_clients_refl by blast
  show "parts_ok P v' \<and> same_clients w v'" if "parts_ok P v \<and> same_clients w v" "ctrl_do P x v = Inr v'" for x v v'
    using that ctrl_do_ok same_clients_trans by blast
qed

section \<open>Runs\<close>

text \<open>
  The runs of a system: the driver is constructed, and then its wakeups, the wakeups of the sequencers, the answers to
  awaited requests and the operations of the controllers follow each other in any order, up to the time \<open>limit\<close>. After
  an answer and after the operations of a controller the caches are coherent with the memory: the assumption on the
  protocol. (Between the operations of a controller they need not be.)
\<close>

inductive protocol_run ::
  "ruby_params \<Rightarrow> int \<Rightarrow> 'h driver \<Rightarrow> ('h ruby \<Rightarrow> 'h ruby result) \<Rightarrow> (nat \<Rightarrow> 'h ruby \<Rightarrow> 'h ruby result) \<Rightarrow> memory \<Rightarrow> 'h ruby \<Rightarrow> bool"
  for P limit drv construct wake where
  start: "boot P limit mem w \<Longrightarrow> construct w = Inr w' \<Longrightarrow> protocol_run P limit drv construct wake mem w'"
| wakeup: "protocol_run P limit drv construct wake mem w \<Longrightarrow> wake k w = Inr w' \<Longrightarrow> settled mem w mem' w'
    \<Longrightarrow> protocol_run P limit drv construct wake mem' w'"
| answered: "protocol_run P limit drv construct wake mem w \<Longrightarrow> p < NUM_PROCESSORS P \<Longrightarrow> awaited (the_seq w p) r
    \<Longrightarrow> answer_request P drv p r mem w = Inr (mem', w1) \<Longrightarrow> rfold (ctrl_do P) xs w1 = Inr w' \<Longrightarrow> w_time w' \<le> limit
    \<Longrightarrow> coherent mem' w' \<Longrightarrow> protocol_run P limit drv construct wake mem' w'"
| sequencer: "protocol_run P limit drv construct wake mem w \<Longrightarrow> p < NUM_PROCESSORS P \<Longrightarrow> sq_wakeup P p w = Inr w'
    \<Longrightarrow> protocol_run P limit drv construct wake mem w'"
| elsewhere: "protocol_run P limit drv construct wake mem w \<Longrightarrow> rfold (ctrl_do P) xs w = Inr w' \<Longrightarrow> w_time w' \<le> limit
    \<Longrightarrow> coherent mem w' \<Longrightarrow> protocol_run P limit drv construct wake mem w'"

lemma good_parts: "good P client_inv expects mem w \<Longrightarrow> parts_ok P w"
  by (simp add: good_def sys_ok_def parts_ok_def)

context ruby_system
begin

lemma protocol_run_ruby:
  "protocol_run P limit drv construct wake mem w \<Longrightarrow> ruby_run P limit drv construct wake mem w"
proof (induction rule: protocol_run.induct)
  case (answered mem w p r mem' w1 xs w')
  have g: "good P client_inv expects mem w" using run_good [OF answered.IH] by blast
  obtain m v where "answer_request P drv p r mem w = Inr (m, v)" "good P client_inv expects m v"
    using answer_ok [OF g answered(2,3)] by blast
  then have "parts_ok P w1" using good_parts answered(4) by auto
  then have "controllers P limit w1 w'" using ctrl_run_ok [OF answered(5)] parts_controllers answered(6) by blast
  then show ?case by (rule ruby_run.answered [OF answered.IH answered(2-4) _ answered(7)])
next
  case (elsewhere mem w xs w')
  have "parts_ok P w" using run_good [OF elsewhere.IH] good_parts by blast
  then have "controllers P limit w w'" using ctrl_run_ok [OF elsewhere(2)] parts_controllers elsewhere(3) by blast
  then show ?case by (rule ruby_run.elsewhere [OF elsewhere.IH _ elsewhere(4)])
qed (blast intro: ruby_run.intros)+

end

end
