(* ===== verification/TesterSafety.thy ===== *)
theory TesterSafety
  imports Tester ControllerSteps
begin

text \<open>
  The tester keeps its contract: a store that was answered is in memory until the check is over, so the bytes a
  check compares are those it has stored, and every callback is one that its check waits for.
\<close>

section \<open>Bytes of memory\<close>

lemma no_carry:
  fixes x i :: nat
  assumes "x mod 64 + i < 64"
  shows "(x + i) div 64 = x div 64" "(x + i) mod 64 = x mod 64 + i"
proof -
  have e: "x + i = (x mod 64 + i) + (x div 64) * 64" by simp
  show "(x + i) div 64 = x div 64" using assms by (subst e, subst div_mult_self1) simp_all
  show "(x + i) mod 64 = x mod 64 + i" using assms by (subst e, subst mod_mult_self1) simp_all
qed

lemma aligned_add:
  assumes "4 dvd unat a" "i < 4"
  shows "unat (a + of_nat i) = unat a + i" "line_address (a + of_nat i) = line_address a" "offset (a + of_nat i) = offset a + i"
    "offset a + 4 \<le> 64"
proof -
  obtain k where k: "unat a = 4 * k" using assms(1) by blast
  have "unat a < 2 ^ 64" using unsigned_less [of a] by simp
  then have lt: "unat a + i < 2 ^ 64" using k assms(2) by auto
  have i: "unat (of_nat i :: address) = i" using assms(2) by (simp add: unat_of_nat)
  show u: "unat (a + of_nat i) = unat a + i" using lt by (simp add: unat_word_ariths i)
  have m: "unat a mod 64 = 4 * (k mod 16)" using k mult_mod_right [of 4 k 16] by simp
  then show "offset a + 4 \<le> 64" by (simp add: offset_def)
  then have "unat a mod 64 + i < 64" using assms(2) by (simp add: offset_def)
  then have d: "(unat a + i) div 64 = unat a div 64" "(unat a + i) mod 64 = unat a mod 64 + i" by (rule no_carry)+
  show "line_address (a + of_nat i) = line_address a" unfolding line_address_eq_iff u by (rule d(1))
  show "offset (a + of_nat i) = offset a + i" unfolding offset_def u by (rule d(2))
qed

lemma nth_read_bytes:
  assumes "mem_ok mem" "4 dvd unat (rq_Address r)" "rq_Size r = 4" "i < 4"
  shows "read_bytes mem r ! i = byte_at mem (rq_Address r + of_nat i)"
  using aligned_add [OF assms(2,4)] assms by (simp add: read_bytes_def byte_at_def mem_ok_def nth_slice)

section \<open>The invariant\<close>

definition check_ok :: "ruby_params \<Rightarrow> memory \<Rightarrow> byte_check \<Rightarrow> bool" where
  "check_ok P mem c \<longleftrightarrow> 4 dvd unat (ck_address c) \<and> ck_initiatingNode c < NUM_PROCESSORS P \<and> ck_store_count c \<le> 4
     \<and> (ck_status c = TesterStatus_Ready \<or> ck_status c = TesterStatus_Check_Pending \<longleftrightarrow> ck_store_count c = 4)
     \<and> (\<forall>i < ck_store_count c. byte_at mem (ck_address c + of_nat i) = ck_value c + of_nat i)"

definition ct_ok :: "check_table \<Rightarrow> bool" where
  "ct_ok t \<longleftrightarrow> rmap_inv (ct_lookup_map t) \<and>
     (\<forall>a k. getCheck t a = Some k \<longleftrightarrow>
        k < length (ct_check_vector t) \<and> (\<exists>i < 4. a = ck_address (ct_check_vector t ! k) + of_nat i))"

definition tester_inv :: "ruby_params \<Rightarrow> memory \<Rightarrow> tester \<Rightarrow> bool" where
  "tester_inv P mem t \<longleftrightarrow> ct_ok (te_checkTable t) \<and> (\<forall>c \<in> set (ct_check_vector (te_checkTable t)). check_ok P mem c)
     \<and> length (te_last_progress_vector t) = NUM_PROCESSORS P \<and> ct_check_vector (te_checkTable t) \<noteq> []"

text \<open>The request that a pending check waits for.\<close>

definition waits_for :: "byte_check \<Rightarrow> nat \<Rightarrow> cache_msg \<Rightarrow> bool" where
  "waits_for c p r \<longleftrightarrow> ck_initiatingNode c = p \<and>
     (ck_status c = TesterStatus_Action_Pending \<and> is_write_type (rq_Type r) \<and> rq_Size r = 1
        \<and> rq_Address r = ck_address c + of_nat (ck_store_count c)
      \<or> ck_status c = TesterStatus_Check_Pending \<and> \<not> is_write_type (rq_Type r) \<and> rq_Size r = 4 \<and> rq_Address r = ck_address c)"

definition tester_expects :: "tester \<Rightarrow> nat \<Rightarrow> cache_msg \<Rightarrow> bool" where
  "tester_expects t p r \<longleftrightarrow>
     (\<exists>k < length (ct_check_vector (te_checkTable t)). waits_for (ct_check_vector (te_checkTable t) ! k) p r)"

lemma CHECK_SIZE_eq: "CHECK_SIZE = 4"
  by (simp add: CHECK_SIZE_def CHECK_SIZE_BITS_def)

lemma ct_disjoint:
  assumes "ct_ok t" "k < length (ct_check_vector t)" "k' < length (ct_check_vector t)" "i < 4" "i' < 4"
    "ck_address (ct_check_vector t ! k) + of_nat i = ck_address (ct_check_vector t ! k') + of_nat i'"
  shows "k = k'"
proof -
  have "getCheck t (ck_address (ct_check_vector t ! k) + of_nat i) = Some k" using assms unfolding ct_ok_def by blast
  moreover have "getCheck t (ck_address (ct_check_vector t ! k) + of_nat i) = Some k'" using assms unfolding ct_ok_def by metis
  ultimately show ?thesis by simp
qed

text \<open>Changing a check but not its address.\<close>

lemma ct_ok_update:
  assumes "ct_ok t" "k < length (ct_check_vector t)" "ck_address c = ck_address (ct_check_vector t ! k)"
  shows "ct_ok (t\<lparr>ct_check_vector := (ct_check_vector t)[k := c]\<rparr>)"
proof -
  have "ck_address ((ct_check_vector t)[k := c] ! j) = ck_address (ct_check_vector t ! j)" for j
    using assms(2,3) by (cases "j = k") auto
  then show ?thesis using assms(1) by (simp add: ct_ok_def getCheck_def)
qed

lemma waits_for_offset:
  assumes "check_ok P mem c" "waits_for c p r"
  shows "\<exists>i < 4. rq_Address r = ck_address c + of_nat i" "4 dvd unat (ck_address c)"
proof -
  have "ck_status c = TesterStatus_Action_Pending \<Longrightarrow> ck_store_count c < 4" using assms(1) by (auto simp: check_ok_def)
  then show "\<exists>i < 4. rq_Address r = ck_address c + of_nat i"
    using assms(2) by (auto simp: waits_for_def intro: exI [of _ 0])
  show "4 dvd unat (ck_address c)" using assms(1) by (simp add: check_ok_def)
qed

text \<open>Two requests of one check have the same slot.\<close>

lemma waits_for_slot:
  assumes "check_ok P mem c" "waits_for c p r" "waits_for c p' r'"
  shows "p' = p \<and> same_slot r' r"
proof -
  obtain i j where ij: "i < 4" "rq_Address r = ck_address c + of_nat i" "j < 4" "rq_Address r' = ck_address c + of_nat j"
    using waits_for_offset(1) [OF assms(1)] assms(2,3) by meson
  have "line_address (rq_Address r) = line_address (rq_Address r')"
    using aligned_add(2) [OF waits_for_offset(2) [OF assms(1,2)]] ij by simp
  then show ?thesis using assms(2,3) by (auto simp: waits_for_def same_slot_def)
qed

section \<open>The callback\<close>

lemma set_check_reads [ruby_simps]:
  "the_driver (set_check k c w) = (the_driver w)\<lparr>te_checkTable := (te_checkTable (the_driver w))
     \<lparr>ct_check_vector := (ct_check_vector (te_checkTable (the_driver w)))[k := c]\<rparr>\<rparr>"
  "the_seq (set_check k c w) p = the_seq w p" "the_cache (set_check k c w) a = the_cache w a"
  "w_time (set_check k c w) = w_time w" "evq_inv (set_check k c w) = evq_inv w"
  by (simp_all add: set_check_def Let_def ruby_simps)

lemma draw_reads [ruby_simps]:
  assumes "random_draw w = (r, w')"
  shows "the_driver w' = the_driver w" "the_seq w' p = the_seq w p" "the_cache w' c = the_cache w c" "w_time w' = w_time w"
    "evq_inv w' = evq_inv w"
  using assms by (auto simp: random_draw_def ruby_simps the_driver_def the_seq_def the_cache_def)

lemma driver_frame_set [intro]: "driver_frame w w' \<Longrightarrow> driver_frame w (set_driver h w')"
  by (auto simp: driver_frame_def set_driver_def ruby_simps)

lemma driver_frame_check [intro]: "driver_frame w w' \<Longrightarrow> driver_frame w (set_check k c w')"
  unfolding set_check_def Let_def by (rule driver_frame_set)

lemma driver_frame_draw: "driver_frame w w' \<Longrightarrow> random_draw w' = (r, w'') \<Longrightarrow> driver_frame w w''"
  by (auto simp: driver_frame_def random_draw_def ruby_simps)

lemma driver_frame_refl: "driver_frame w w"
  by (simp add: driver_frame_def sched_reach.stay)

text \<open>One check of the table is replaced by another state of it.\<close>

lemma tester_inv_update:
  assumes "tester_inv P mem t" "k < length (ct_check_vector (te_checkTable t))"
    "ck_address c = ck_address (ct_check_vector (te_checkTable t) ! k)" "check_ok P mem' c"
    "\<And>j. j < length (ct_check_vector (te_checkTable t)) \<Longrightarrow> j \<noteq> k \<Longrightarrow> check_ok P mem' (ct_check_vector (te_checkTable t) ! j)"
    "t' = t\<lparr>te_checkTable := (te_checkTable t)\<lparr>ct_check_vector := (ct_check_vector (te_checkTable t))[k := c]\<rparr>,
            te_last_progress_vector := v, te_callback_counter := n\<rparr>" "length v = NUM_PROCESSORS P"
  shows "tester_inv P mem' t'"
proof -
  let ?v = "ct_check_vector (te_checkTable t)"
  have "check_ok P mem' d" if "d \<in> set (?v[k := c])" for d
    using that assms(2,4,5) by (auto simp: in_set_conv_nth nth_list_update split: if_splits)
  then show ?thesis
    using assms(1,7) ct_ok_update [OF _ assms(2,3)] by (simp add: assms(6) tester_inv_def)
qed

lemma check_ok_memory:
  assumes "check_ok P mem c" "\<And>i. i < 4 \<Longrightarrow> byte_at mem' (ck_address c + of_nat i) = byte_at mem (ck_address c + of_nat i)"
  shows "check_ok P mem' c"
  using assms by (auto simp: check_ok_def)

lemma te_hit_ok:
  assumes "mem_ok mem" "tester_inv P mem (the_driver w)" "p < NUM_PROCESSORS P"
    "tester_expects (the_driver w) p r"
  shows "\<exists>bytes w'. te_hitCallback P p \<lparr>sb_address = rq_Address r, sb_data = read_bytes mem r\<rparr> w
        = Inr (\<lparr>sb_address = rq_Address r, sb_data = bytes\<rparr>, w') \<and> length bytes = rq_Size r \<and> driver_frame w w'
      \<and> tester_inv P (write_bytes r bytes mem) (the_driver w')
      \<and> (\<forall>p' r'. tester_expects (the_driver w) p' r' \<and> \<not> (p' = p \<and> same_slot r' r) \<longrightarrow> tester_expects (the_driver w') p' r')"
proof -
  let ?t = "the_driver w" and ?vec = "ct_check_vector (te_checkTable (the_driver w))"
  have inv: "ct_ok (te_checkTable ?t)" "\<forall>c \<in> set ?vec. check_ok P mem c" "length (te_last_progress_vector ?t) = NUM_PROCESSORS P"
    using assms(2) by (simp_all add: tester_inv_def)
  obtain k where k: "k < length ?vec" "waits_for (?vec ! k) p r" using assms(4) by (auto simp: tester_expects_def)
  define c where "c = ?vec ! k"
  have c: "check_ok P mem c" "waits_for c p r" using inv(2) k by (auto simp: c_def)
  obtain i where i: "i < 4" "rq_Address r = ck_address c + of_nat i" using waits_for_offset(1) [OF c] by blast
  have al: "4 dvd unat (ck_address c)" by (rule waits_for_offset(2) [OF c])
  have get: "getCheck (te_checkTable ?t) (rq_Address r) = Some k" using inv(1) k(1) i unfolding ct_ok_def c_def by blast
  define v where "v = (te_last_progress_vector ?t)[p := w_time w]"
  define t' where "t' = ?t\<lparr>te_last_progress_vector := v, te_callback_counter := te_callback_counter ?t + 1\<rparr>"
  let ?w1 = "set_driver t' w"
  have run: "te_hitCallback P p \<lparr>sb_address = rq_Address r, sb_data = d\<rparr> w
      = performCallback P k \<lparr>sb_address = rq_Address r, sb_data = d\<rparr> ?w1" for d
    using assms(3) inv(3) get by (simp add: te_hitCallback_def Let_def t'_def v_def)
  have ck: "the_check ?w1 k = Inr c" using k(1) by (simp add: the_check_def ruby_simps t'_def c_def)
  have line: "getLineAddress (ck_address c) = getLineAddress (rq_Address r)"
    using aligned_add(2) [OF al i(1)] i(2) by (simp add: line_address_def makeLineAddress_def getLineAddress_def)
  have other: "k' \<noteq> k" if "waits_for (?vec ! k') p' r'" "\<not> (p' = p \<and> same_slot r' r)" for k' p' r'
    using waits_for_slot [OF c] that by (auto simp: c_def)
  have f1: "driver_frame w ?w1" by (rule driver_frame_set [OF driver_frame_refl])
  have concl: "tester_inv P mem' (the_driver w') \<and>
      (\<forall>p' r'. tester_expects ?t p' r' \<and> \<not> (p' = p \<and> same_slot r' r) \<longrightarrow> tester_expects (the_driver w') p' r')"
    if w': "the_driver w' = t'\<lparr>te_checkTable := (te_checkTable t')\<lparr>ct_check_vector := (ct_check_vector (te_checkTable t'))[k := c']\<rparr>\<rparr>"
      and c': "ck_address c' = ck_address c" "check_ok P mem' c'"
      and rest: "\<And>j. j < length ?vec \<Longrightarrow> j \<noteq> k \<Longrightarrow> check_ok P mem' (?vec ! j)" for mem' w' c'
  proof
    show "tester_inv P mem' (the_driver w')"
      by (rule tester_inv_update [OF assms(2) k(1) _ c'(2) rest, where v = v and n = "te_callback_counter ?t + 1"])
        (use w' c'(1) inv(3) in \<open>simp_all add: t'_def v_def c_def\<close>)
    show "\<forall>p' r'. tester_expects ?t p' r' \<and> \<not> (p' = p \<and> same_slot r' r) \<longrightarrow> tester_expects (the_driver w') p' r'"
    proof (intro allI impI)
      fix p' r' assume e: "tester_expects ?t p' r' \<and> \<not> (p' = p \<and> same_slot r' r)"
      then obtain k' where k': "k' < length ?vec" "waits_for (?vec ! k') p' r'" by (auto simp: tester_expects_def)
      then have "k' \<noteq> k" using other e by blast
      then show "tester_expects (the_driver w') p' r'" using k' by (auto simp: tester_expects_def w' t'_def)
    qed
  qed
  from c(2) consider (act) "ck_status c = TesterStatus_Action_Pending" "is_write_type (rq_Type r)" "rq_Size r = 1"
        "rq_Address r = ck_address c + of_nat (ck_store_count c)"
    | (chk) "ck_status c = TesterStatus_Check_Pending" "\<not> is_write_type (rq_Type r)" "rq_Size r = 4" "rq_Address r = ck_address c"
    by (auto simp: waits_for_def)
  then show ?thesis
  proof cases
    case act
    let ?n = "ck_store_count c + 1" and ?b = "ck_value c + of_nat (ck_store_count c)"
    define c' where "c' = c\<lparr>ck_store_count := ?n, ck_status := (if ?n = CHECK_SIZE then TesterStatus_Ready else TesterStatus_Idle)\<rparr>"
    let ?w' = "set_check k c' ?w1" and ?mem' = "write_bytes r [?b] mem"
    have n: "ck_store_count c < 4" using c(1) act(1) by (auto simp: check_ok_def)
    have "length (read_bytes mem r) = 1" using offset_less [of "rq_Address r"] assms(1) act(3) by (simp add: read_bytes_def mem_ok_def)
    then have one: "(read_bytes mem r)[0 := x] = [x]" for x by (cases "read_bytes mem r") auto
    have "performCallback P k \<lparr>sb_address = rq_Address r, sb_data = read_bytes mem r\<rparr> ?w1
        = Inr (\<lparr>sb_address = rq_Address r, sb_data = [?b]\<rparr>, ?w')"
      using ck line act(1) one \<open>length (read_bytes mem r) = 1\<close> by (simp add: performCallback_def sb_setByte_def Let_def c'_def)
    moreover have bytes: "byte_at ?mem' a = (if a = rq_Address r then ?b else byte_at mem a)" for a
      by (rule byte_at_write [OF assms(1) act(2)])
    have "check_ok P ?mem' c'"
    proof -
      have "ck_address c + of_nat j \<noteq> ck_address c + of_nat (ck_store_count c)" if "j < ck_store_count c" for j
        using aligned_add(1) [OF al, of j] aligned_add(1) [OF al n] that n by auto
      then show ?thesis using c(1) n act(4) by (auto simp: check_ok_def c'_def bytes CHECK_SIZE_eq less_Suc_eq)
    qed
    moreover have "check_ok P ?mem' (?vec ! j)" if j: "j < length ?vec" "j \<noteq> k" for j
    proof (rule check_ok_memory)
      show "check_ok P mem (?vec ! j)" using inv(2) j(1) by simp
      show "byte_at ?mem' (ck_address (?vec ! j) + of_nat m) = byte_at mem (ck_address (?vec ! j) + of_nat m)" if "m < 4" for m
      proof -
        have "ck_address (?vec ! j) + of_nat m \<noteq> rq_Address r"
          using ct_disjoint [OF inv(1) j(1) k(1) that i(1)] j(2) i(2) by (auto simp: c_def)
        then show ?thesis by (simp add: bytes)
      qed
    qed
    ultimately show ?thesis
      using concl [of ?w' c' ?mem'] f1 act(3) by (intro exI [of _ "[?b]"] exI [of _ ?w']) (auto simp: run ruby_simps c'_def)
  next
    case chk
    obtain rr w2 where d: "random_draw ?w1 = (rr, w2)" by force
    define c' where "c' = c\<lparr>ck_status := TesterStatus_Idle, ck_value := of_nat (and rr 255), ck_store_count := 0\<rparr>"
    let ?w' = "set_check k c' w2"
    have cnt: "ck_store_count c = 4" using c(1) chk(1) by (auto simp: check_ok_def)
    have len: "length (read_bytes mem r) = 4"
      using aligned_add(4) [OF al, of 0] assms(1) chk(3,4) by (simp add: read_bytes_def mem_ok_def)
    have "read_bytes mem r ! j = ck_value c + of_nat j" if "j < 4" for j
      using nth_read_bytes [OF assms(1), of r j] c(1) cnt chk(3,4) al that by (simp add: check_ok_def)
    then have "\<exists>u. rfold (\<lambda>byte_number u. rbind (sb_getByte \<lparr>sb_address = rq_Address r, sb_data = read_bytes mem r\<rparr> byte_number)
        (\<lambda>b. check (\<not> (ck_value c + of_nat byte_number \<noteq> b \<and> DATA_BLOCK P)) Error_exit (Inr u))) [0..<CHECK_SIZE] () = Inr u \<and> True"
      using len by (intro rfold_total) (auto simp: sb_getByte_def CHECK_SIZE_eq)
    then have "performCallback P k \<lparr>sb_address = rq_Address r, sb_data = read_bytes mem r\<rparr> ?w1
        = Inr (\<lparr>sb_address = rq_Address r, sb_data = read_bytes mem r\<rparr>, ?w')"
      using ck line chk(1) d by (simp add: performCallback_def pickValue_def c'_def)
    moreover have "check_ok P mem c'" using c(1) by (simp add: check_ok_def c'_def)
    moreover have "check_ok P mem (?vec ! j)" if "j < length ?vec" for j using inv(2) that by simp
    moreover have "driver_frame w ?w'" by (rule driver_frame_check [OF driver_frame_draw [OF f1 d]])
    ultimately show ?thesis
      using concl [of ?w' c' mem] len chk(2,3) draw_reads(1) [OF d]
      by (intro exI [of _ "read_bytes mem r"] exI [of _ ?w']) (auto simp: run ruby_simps c'_def write_bytes_def)
  qed
qed

interpretation te: ruby_driver P "te_hitCallback P" "\<lambda>now. tester_inv P" tester_expects for P
  by unfold_locales (assumption | rule te_hit_ok)+

section \<open>Wakeups\<close>

definition te_good :: "ruby_params \<Rightarrow> memory \<Rightarrow> tester_world \<Rightarrow> bool" where
  "te_good P mem w \<longleftrightarrow> good P (\<lambda>now. tester_inv P) tester_expects mem w \<and> coherent mem w"

definition te_step :: "ruby_params \<Rightarrow> memory \<Rightarrow> tester_world \<Rightarrow> memory \<Rightarrow> tester_world \<Rightarrow> bool" where
  "te_step P mem w mem' w' \<longleftrightarrow> te_good P mem' w' \<and> settled mem w mem' w'"

lemma te_step_refl: "te_good P mem w \<Longrightarrow> te_step P mem w mem w"
  by (simp add: te_step_def te_good_def settled_refl)

lemma te_step_trans: "te_step P mem w mem1 w1 \<Longrightarrow> te_step P mem1 w1 mem2 w2 \<Longrightarrow> te_step P mem w mem2 w2"
  by (auto simp: te_step_def intro: settled_trans)

text \<open>A step that leaves the sequencers and caches alone.\<close>

lemma te_local_step:
  assumes "te_good P mem w" "driver_frame w w'" "tester_inv P mem (the_driver w')"
    "\<And>p r. tester_expects (the_driver w) p r \<Longrightarrow> tester_expects (the_driver w') p r"
  shows "te_step P mem w mem w'"
proof -
  have q: "quiet w w'" by (rule driver_frame_quiet [OF assms(2)])
  have g: "good P (\<lambda>now. tester_inv P) tester_expects mem w" "coherent mem w" using assms(1) by (simp_all add: te_good_def)
  have "sys_ok P w'" by (rule quiet_sys_ok [OF q goodD(1) [OF g(1)]])
  moreover have "the_seq w' = the_seq w" "the_cache w' = the_cache w"
    using assms(2) by (auto simp: driver_frame_def the_seq_def the_cache_def fun_eq_iff)
  ultimately have "good P (\<lambda>now. tester_inv P) tester_expects mem w'"
    using g(1) assms(3,4) by (auto simp: good_def)
  moreover have "settled mem w mem w'"
    using assms(2) by (intro settled_quiet [OF g(2)]) (auto simp: driver_frame_def the_cache_def)
  ultimately show ?thesis by (simp add: te_step_def te_good_def settled_def)
qed

lemma te_draw_step: "te_good P mem w \<Longrightarrow> random_draw w = (r, w') \<Longrightarrow> te_step P mem w mem w'"
  by (rule te_local_step) (auto simp: draw_reads te_good_def good_def intro: driver_frame_draw driver_frame_refl)

lemma te_request_step:
  assumes "te_good P mem w" "p < NUM_PROCESSORS P" "request_ok r" "rq_Time r \<le> w_time w" "sq_isReady P (the_seq w p) r"
    "demand r \<longrightarrow> tester_expects (the_driver w) p r"
  shows "\<exists>w' mem'. makeRequest P (te_hitCallback P) p r w = Inr w' \<and> te_step P mem w mem' w'"
  using te.makeRequest_ok [of P mem w p r] assms by (auto simp: te_good_def te_step_def settled_def)

lemma te_goodD:
  assumes "te_good P mem w"
  shows "tester_inv P mem (the_driver w)" "evq_inv w" "params_ok P"
  using assms by (simp_all add: te_good_def good_def sys_ok_def)

lemma initiatePrefetch_ok:
  assumes "te_good P mem w" "k < length (ct_check_vector (te_checkTable (the_driver w)))" "0 < NUM_PROCESSORS P"
  shows "\<exists>w' mem'. initiatePrefetch P k w = Inr w' \<and> te_step P mem w mem' w'"
proof -
  obtain r w1 where d1: "random_draw w = (r, w1)" by force
  obtain r1 w2 where d2: "random_draw w1 = (r1, w2)" by force
  obtain type w3 where d3: "(if and r1 7 \<noteq> 0 then (let (r2, w3) = random_draw w2
      in (if and r2 1 = 0 then CacheRequestType_LD else CacheRequestType_IFETCH, w3)) else (CacheRequestType_ST, w2)) = (type, w3)"
    by force
  have s1: "te_step P mem w mem w1" by (rule te_draw_step [OF assms(1) d1])
  have s2: "te_step P mem w mem w2" by (rule te_step_trans [OF s1 te_draw_step [OF _ d2]]) (use s1 in \<open>simp add: te_step_def\<close>)
  have g2: "te_good P mem w2" using s2 by (simp add: te_step_def)
  have d3': "type \<noteq> CacheRequestType_NULL \<and> te_step P mem w2 mem w3 \<and> the_driver w3 = the_driver w2"
  proof (cases "and r1 7 = 0")
    case True
    then show ?thesis using d3 te_step_refl [OF g2] by auto
  next
    case False
    obtain r2 w4 where "random_draw w2 = (r2, w4)" by force
    then show ?thesis using d3 False te_draw_step [OF g2] by (auto simp: draw_reads split: if_splits)
  qed
  then have s3: "te_step P mem w mem w3" using te_step_trans [OF s2] by blast
  have g3: "te_good P mem w3" using s3 by (simp add: te_step_def)
  let ?c = "ct_check_vector (te_checkTable (the_driver w3)) ! k"
  have drv: "the_driver w3 = the_driver w" using d3' draw_reads(1) [OF d1] draw_reads(1) [OF d2] by simp
  have ck: "the_check w3 k = Inr ?c" using assms(2) by (simp add: the_check_def drv)
  let ?req = "CacheMsg (ck_address ?c) type (ck_pc ?c) (ck_access_mode ?c) 0 PrefetchBit_Yes w3"
  have "request_ok ?req" "\<not> demand ?req" "rq_Time ?req \<le> w_time w3" using d3'
    by (simp_all add: request_ok_def demand_def CacheMsg_def)
  moreover have "r mod NUM_PROCESSORS P < NUM_PROCESSORS P" using assms(3) by simp
  ultimately have "sq_isReady P (the_seq w3 (r mod NUM_PROCESSORS P)) ?req \<Longrightarrow>
      \<exists>w' mem'. makeRequest P (te_hitCallback P) (r mod NUM_PROCESSORS P) ?req w3 = Inr w' \<and> te_step P mem w3 mem' w'"
    using te_request_step [OF g3, of "r mod NUM_PROCESSORS P" ?req] by blast
  then show ?thesis
    using assms(3) d1 d2 d3 ck s3 te_step_trans [OF s3] unfolding initiatePrefetch_def Let_def
    by (cases "sq_isReady P (the_seq w3 (r mod NUM_PROCESSORS P)) ?req") (auto simp: Let_def)
qed

lemma initiatePrefetch_driver:
  assumes "initiatePrefetch P k w = Inr w'"
  shows "the_driver w' = the_driver w"
proof -
  have c: "\<not> demand (CacheMsg a ty pc m n PrefetchBit_Yes w)" for a ty pc m n and w :: tester_world
    by (simp add: demand_def CacheMsg_def)
  show ?thesis using assms
    by (auto simp: initiatePrefetch_def Let_def rbind_eq_Inr draw_reads split: if_splits prod.splits
        dest!: prefetch_driver [OF _ c])
qed

text \<open>A check becomes pending and makes its request.\<close>

lemma pending_step:
  assumes "te_good P mem w" "k < length (ct_check_vector (te_checkTable (the_driver w)))"
    "c = ct_check_vector (te_checkTable (the_driver w)) ! k" "\<And>p r. \<not> waits_for c p r" "check_ok P mem (c\<lparr>ck_status := s\<rparr>)"
  shows "te_step P mem w mem (set_check k (c\<lparr>ck_status := s\<rparr>) w)"
proof (rule te_local_step [OF assms(1)])
  let ?t = "the_driver w" and ?w' = "set_check k (c\<lparr>ck_status := s\<rparr>) w"
  show "driver_frame w ?w'" by (rule driver_frame_check [OF driver_frame_refl])
  have inv: "tester_inv P mem ?t" by (rule te_goodD(1) [OF assms(1)])
  show "tester_inv P mem (the_driver ?w')"
    by (rule tester_inv_update [OF inv assms(2) _ assms(5), where v = "te_last_progress_vector ?t" and n = "te_callback_counter ?t"])
      (use inv assms(3) in \<open>auto simp: ruby_simps tester_inv_def\<close>)
  fix p r assume "tester_expects ?t p r"
  then obtain k' where k': "k' < length (ct_check_vector (te_checkTable ?t))" "waits_for (ct_check_vector (te_checkTable ?t) ! k') p r"
    by (auto simp: tester_expects_def)
  then have "k' \<noteq> k" using assms(3,4) by blast
  then show "tester_expects (the_driver ?w') p r" using k' by (auto simp: tester_expects_def ruby_simps)
qed

lemma pending_request:
  assumes "te_good P mem w" "k < length (ct_check_vector (te_checkTable (the_driver w)))"
    "c = ct_check_vector (te_checkTable (the_driver w)) ! k" "\<And>p r. \<not> waits_for c p r" "check_ok P mem (c\<lparr>ck_status := s\<rparr>)"
    "waits_for (c\<lparr>ck_status := s\<rparr>) (ck_initiatingNode c) req" "request_ok req" "rq_Time req \<le> w_time w"
    "sq_isReady P (the_seq w (ck_initiatingNode c)) req"
  shows "\<exists>w' mem'. makeRequest P (te_hitCallback P) (ck_initiatingNode c) req (set_check k (c\<lparr>ck_status := s\<rparr>) w) = Inr w'
    \<and> te_step P mem w mem' w'"
proof -
  let ?w2 = "set_check k (c\<lparr>ck_status := s\<rparr>) w"
  have s2: "te_step P mem w mem ?w2" by (rule pending_step [OF assms(1-5)])
  have "tester_expects (the_driver ?w2) (ck_initiatingNode c) req"
    using assms(2,6) by (auto simp: tester_expects_def ruby_simps intro!: exI [of _ k])
  moreover have "ck_initiatingNode c < NUM_PROCESSORS P" using assms(5) by (simp add: check_ok_def)
  ultimately obtain w' mem' where "makeRequest P (te_hitCallback P) (ck_initiatingNode c) req ?w2 = Inr w'" "te_step P mem ?w2 mem' w'"
    using te_request_step [of P mem ?w2 "ck_initiatingNode c" req] s2 assms(7-9) by (auto simp: te_step_def ruby_simps)
  then show ?thesis using te_step_trans [OF s2] by blast
qed

lemma initiateAction_ok:
  assumes "te_good P mem w" "k < length (ct_check_vector (te_checkTable (the_driver w)))"
    "ck_status (ct_check_vector (te_checkTable (the_driver w)) ! k) = TesterStatus_Idle"
  shows "\<exists>w' mem'. initiateAction P k w = Inr w' \<and> te_step P mem w mem' w'"
proof -
  obtain r w1 where d: "random_draw w = (r, w1)" by force
  have s1: "te_step P mem w mem w1" by (rule te_draw_step [OF assms(1) d])
  then have g1: "te_good P mem w1" by (simp add: te_step_def)
  define c where "c = ct_check_vector (te_checkTable (the_driver w)) ! k"
  have c: "the_check w k = Inr c" "ck_status c = TesterStatus_Idle" "check_ok P mem c"
    using assms te_goodD(1) [OF assms(1)] by (simp_all add: the_check_def c_def tester_inv_def)
  have k1: "k < length (ct_check_vector (te_checkTable (the_driver w1)))"
    and c1: "c = ct_check_vector (te_checkTable (the_driver w1)) ! k" using assms(2) by (simp_all add: draw_reads [OF d] c_def)
  have nw: "\<not> waits_for c p r" for p r using c(2) by (simp add: waits_for_def)
  define req where "req = CacheMsg (ck_address c + of_nat (ck_store_count c))
    (if and r 1 = 0 then CacheRequestType_ATOMIC else CacheRequestType_ST) (ck_pc c) (ck_access_mode c) 1 PrefetchBit_No w1"
  have "ck_store_count c < 4" using c(2,3) by (auto simp: check_ok_def)
  then have k: "check_ok P mem (c\<lparr>ck_status := TesterStatus_Action_Pending\<rparr>)" using c(3) by (auto simp: check_ok_def)
  have q: "request_ok req" "rq_Time req \<le> w_time w1"
      "waits_for (c\<lparr>ck_status := TesterStatus_Action_Pending\<rparr>) (ck_initiatingNode c) req"
    using offset_less [of "ck_address c + of_nat (ck_store_count c)"]
    by (auto simp: req_def request_ok_def CacheMsg_def waits_for_def is_write_type_def)
  show ?thesis
  proof (cases "sq_isReady P (the_seq w1 (ck_initiatingNode c)) req")
    case True
    obtain w' mem' where "makeRequest P (te_hitCallback P) (ck_initiatingNode c) req
        (set_check k (c\<lparr>ck_status := TesterStatus_Action_Pending\<rparr>) w1) = Inr w'" "te_step P mem w1 mem' w'"
      using pending_request [OF g1 k1 c1 nw k q(3,1,2) True] by blast
    then show ?thesis using c(1,2) d True te_step_trans [OF s1] by (auto simp: initiateAction_def Let_def req_def)
  next
    case False
    then show ?thesis using c(1,2) d s1 by (auto simp: initiateAction_def Let_def req_def)
  qed
qed

lemma initiateCheck_ok:
  assumes "te_good P mem w" "k < length (ct_check_vector (te_checkTable (the_driver w)))"
    "ck_status (ct_check_vector (te_checkTable (the_driver w)) ! k) = TesterStatus_Ready"
  shows "\<exists>w' mem'. initiateCheck P k w = Inr w' \<and> te_step P mem w mem' w'"
proof -
  obtain r w1 where d: "random_draw w = (r, w1)" by force
  have s1: "te_step P mem w mem w1" by (rule te_draw_step [OF assms(1) d])
  then have g1: "te_good P mem w1" by (simp add: te_step_def)
  define c where "c = ct_check_vector (te_checkTable (the_driver w)) ! k"
  have c: "the_check w k = Inr c" "ck_status c = TesterStatus_Ready" "check_ok P mem c"
    using assms te_goodD(1) [OF assms(1)] by (simp_all add: the_check_def c_def tester_inv_def)
  have k1: "k < length (ct_check_vector (te_checkTable (the_driver w1)))"
    and c1: "c = ct_check_vector (te_checkTable (the_driver w1)) ! k" using assms(2) by (simp_all add: draw_reads [OF d] c_def)
  have nw: "\<not> waits_for c p r" for p r using c(2) by (simp add: waits_for_def)
  define req where "req = CacheMsg (ck_address c) (if and r 1 = 0 then CacheRequestType_IFETCH else CacheRequestType_LD)
    (ck_pc c) (ck_access_mode c) CHECK_SIZE PrefetchBit_No w1"
  have n: "4 dvd unat (ck_address c)" using c(3) by (simp add: check_ok_def)
  have k: "check_ok P mem (c\<lparr>ck_status := TesterStatus_Check_Pending\<rparr>)" using c(2,3) by (auto simp: check_ok_def)
  have q: "request_ok req" "rq_Time req \<le> w_time w1"
      "waits_for (c\<lparr>ck_status := TesterStatus_Check_Pending\<rparr>) (ck_initiatingNode c) req"
    using aligned_add(4) [OF n, of 0] by (auto simp: req_def request_ok_def CacheMsg_def waits_for_def is_write_type_def CHECK_SIZE_eq)
  show ?thesis
  proof (cases "sq_isReady P (the_seq w1 (ck_initiatingNode c)) req")
    case True
    obtain w' mem' where "makeRequest P (te_hitCallback P) (ck_initiatingNode c) req
        (set_check k (c\<lparr>ck_status := TesterStatus_Check_Pending\<rparr>) w1) = Inr w'" "te_step P mem w1 mem' w'"
      using pending_request [OF g1 k1 c1 nw k q(3,1,2) True] by blast
    then show ?thesis using c(1,2) d True te_step_trans [OF s1] by (auto simp: initiateCheck_def Let_def req_def)
  next
    case False
    then show ?thesis using c(1,2) d s1 by (auto simp: initiateCheck_def Let_def req_def)
  qed
qed

lemma initiate_ok:
  assumes "te_good P mem w" "k < length (ct_check_vector (te_checkTable (the_driver w)))" "0 < NUM_PROCESSORS P"
  shows "\<exists>w' mem'. initiate P k w = Inr w' \<and> te_step P mem w mem' w'"
proof -
  obtain r w1 where d: "random_draw w = (r, w1)" by force
  have s1: "te_step P mem w mem w1" by (rule te_draw_step [OF assms(1) d])
  then have g1: "te_good P mem w1" by (simp add: te_step_def)
  have k1: "k < length (ct_check_vector (te_checkTable (the_driver w1)))" using assms(2) by (simp add: draw_reads [OF d])
  obtain w2 mem2 where w2: "(if and r 15 = 0 then initiatePrefetch P k w1 else Inr w1) = Inr w2" "te_step P mem w1 mem2 w2"
      "the_driver w2 = the_driver w1"
  proof (cases "and r 15 = 0")
    case True
    obtain w2 mem2 where p: "initiatePrefetch P k w1 = Inr w2" "te_step P mem w1 mem2 w2" using initiatePrefetch_ok [OF g1 k1 assms(3)] by blast
    show ?thesis by (rule that [OF _ p(2) initiatePrefetch_driver [OF p(1)]]) (use True p(1) in simp)
  next
    case False
    show ?thesis by (rule that [OF _ te_step_refl [OF g1]]) (use False in simp_all)
  qed
  have g2: "te_good P mem2 w2" using w2(2) by (simp add: te_step_def)
  have k2: "k < length (ct_check_vector (te_checkTable (the_driver w2)))" using k1 w2(3) by simp
  let ?c = "ct_check_vector (te_checkTable (the_driver w2)) ! k"
  have ck: "the_check w2 k = Inr ?c" using k2 by (simp add: the_check_def)
  have "\<exists>w' mem'. (if ck_status ?c = TesterStatus_Idle then initiateAction P k w2
         else if ck_status ?c = TesterStatus_Ready then initiateCheck P k w2 else Inr w2) = Inr w' \<and> te_step P mem2 w2 mem' w'"
    using initiateAction_ok [OF g2 k2] initiateCheck_ok [OF g2 k2] te_step_refl [OF g2] by auto
  then obtain w' mem' where "(if ck_status ?c = TesterStatus_Idle then initiateAction P k w2
         else if ck_status ?c = TesterStatus_Ready then initiateCheck P k w2 else Inr w2) = Inr w'" "te_step P mem2 w2 mem' w'" by blast
  then show ?thesis using d w2(1) ck te_step_trans [OF te_step_trans [OF s1 w2(2)]]
    by (intro exI [of _ w'] exI [of _ mem']) (simp add: initiate_def)
qed

text \<open>The wakeup fails only when some processor has made no progress for too long.\<close>

definition no_deadlock :: "ruby_params \<Rightarrow> int \<Rightarrow> int list \<Rightarrow> bool" where
  "no_deadlock P now v \<longleftrightarrow> (\<forall>t \<in> set v. now - t \<le> DEADLOCK_THRESHOLD P)"

lemma te_checkForDeadlock_iff:
  "te_checkForDeadlock P w = Inr () \<longleftrightarrow> no_deadlock P (w_time w) (te_last_progress_vector (the_driver w))"
proof -
  let ?v = "te_last_progress_vector (the_driver w)"
  let ?f = "\<lambda>i u. rbind (lref i ?v) (\<lambda>t. check (\<not> (w_time w - t > DEADLOCK_THRESHOLD P)) Error_exit (Inr u))"
  have "rfold ?f [0..<k] () = Inr () \<longleftrightarrow> (\<forall>i < k. w_time w - ?v ! i \<le> DEADLOCK_THRESHOLD P)" if "k \<le> length ?v" for k
    using that
  proof (induction k)
    case (Suc k)
    then show ?case by (auto simp: rfold_append rbind_eq_Inr less_Suc_eq not_less)
  qed simp
  from this [of "length ?v"] show ?thesis
    unfolding te_checkForDeadlock_def Let_def no_deadlock_def all_set_conv_all_nth by simp
qed

lemma te_wakeup_cases:
  assumes "te_good P mem w" "0 < NUM_PROCESSORS P"
  shows "(\<exists>w'. te_wakeup P w = Inr w' \<and> (\<exists>mem'. te_step P mem w mem' w')) \<or>
    (\<exists>k w1 w' mem'. getRandomCheck w = Inr (k, w1) \<and> initiate P k w1 = Inr w' \<and> te_checkForDeadlock P w' = Inl Error_exit
       \<and> te_callback_counter (the_driver w) < TESTER_LENGTH P \<and> te_step P mem w mem' w' \<and> te_wakeup P w = Inl Error_exit
       \<and> \<not> no_deadlock P (w_time w') (te_last_progress_vector (the_driver w')))"
proof (cases "te_callback_counter (the_driver w) < TESTER_LENGTH P")
  case False
  then show ?thesis using te_step_refl [OF assms(1)] by (auto simp: te_wakeup_def)
next
  case True
  obtain r w1 where d: "random_draw w = (r, w1)" by force
  have s1: "te_step P mem w mem w1" by (rule te_draw_step [OF assms(1) d])
  then have g1: "te_good P mem w1" by (simp add: te_step_def)
  let ?n = "length (ct_check_vector (te_checkTable (the_driver w)))"
  have n: "?n \<noteq> 0" using te_goodD(1) [OF assms(1)] by (simp add: tester_inv_def)
  then have k: "r mod ?n < length (ct_check_vector (te_checkTable (the_driver w1)))" by (simp add: draw_reads [OF d])
  obtain w2 mem2 where w2: "initiate P (r mod ?n) w1 = Inr w2" "te_step P mem w1 mem2 w2" using initiate_ok [OF g1 k assms(2)] by blast
  have s2: "te_step P mem w mem2 w2" by (rule te_step_trans [OF s1 w2(2)])
  have g2: "te_good P mem2 w2" using s2 by (simp add: te_step_def)
  have run: "te_wakeup P w = rbind (te_checkForDeadlock P w2) (\<lambda>_. scheduleEvent (Some driver_consumer) 2 w2)"
    using True d n w2(1) by (simp add: te_wakeup_def getRandomCheck_def Let_def)
  show ?thesis
  proof (cases "te_checkForDeadlock P w2")
    case (Inl e)
    then have "\<not> no_deadlock P (w_time w2) (te_last_progress_vector (the_driver w2))" using te_checkForDeadlock_iff [of P w2] by simp
    moreover have "e = Error_exit"
    proof -
      have l: "rfold (\<lambda>i u. rbind (lref i v) (\<lambda>t. check (Q t) Error_exit (Inr u))) is () = Inl e \<Longrightarrow> set is \<subseteq> {..<length v} \<Longrightarrow> e = Error_exit"
        for Q :: "int \<Rightarrow> bool" and v "is" by (induction "is") (auto simp: check_def split: if_splits)
      show ?thesis by (rule l [OF Inl [unfolded te_checkForDeadlock_def Let_def]]) auto
    qed
    moreover have "getRandomCheck w = Inr (r mod ?n, w1)" using d n by (simp add: getRandomCheck_def Let_def)
    ultimately show ?thesis using run Inl s2 True w2(1) by auto
  next
    case (Inr u)
    have two: "(0 :: int) < 2" by simp
    obtain w3 where w3: "scheduleEvent (Some driver_consumer) 2 w2 = Inr w3" "evq_inv w3" "w_time w3 = w_time w2"
        "w_sys w3 = w_sys w2" "sched_reach w2 w3"
      by (rule scheduled [OF te_goodD(2) [OF g2] two])
    have "te_step P mem2 w2 mem2 w3"
      by (rule te_local_step [OF g2])
        (use w3(4,5) te_goodD(1) [OF g2] in \<open>simp_all add: driver_frame_def the_driver_def\<close>)
    then show ?thesis using run Inr w3(1) te_step_trans [OF s2] by auto
  qed
qed

section \<open>The constructor\<close>

lemma log_int_CHECK_SIZE: "log_int CHECK_SIZE = Inr 2"
  by (simp add: log_int_def CHECK_SIZE_eq log_int_loop.simps)

lemma low_bits: "\<exists>x. bitSelect 0 (int CHECK_SIZE_BITS - 1) a = Inr x \<and> (x = 0 \<longleftrightarrow> 4 dvd unat a)"
proof -
  obtain x where x: "bitSelect (int 0) (int 1) a = Inr x" "unat x = unat a mod 2 ^ (1 + 1) div 2 ^ 0"
    using bitSelect_value [of 0 1 a] by auto
  have "x = 0 \<longleftrightarrow> unat x = 0" by (simp add: unat_eq_0)
  then have "x = 0 \<longleftrightarrow> 4 dvd unat a" using x(2) by (simp add: dvd_eq_mod_eq_0)
  then show ?thesis using x(1) by (simp add: CHECK_SIZE_BITS_def)
qed

lemma map_of_bytes:
  "rmap_inv m \<Longrightarrow> rmap_inv (fold (\<lambda>i. rmap_add (f i) k) is m)
     \<and> map_of (fold (\<lambda>i. rmap_add (f i) k) is m) x = (if x \<in> f ` set is then Some k else map_of m x)"
proof (induction "is" arbitrary: m)
  case (Cons i "is")
  have "rmap_inv (rmap_add (f i) k m)" "map_of (rmap_add (f i) k m) = (map_of m)(f i \<mapsto> k)"
    using rmap.add_ok [OF Cons.prems] by auto
  then show ?case using Cons.IH [of "rmap_add (f i) k m"] by auto
qed simp

text \<open>A new check is idle.\<close>

lemma Check_ok:
  assumes "0 < NUM_PROCESSORS P" "4 dvd unat a"
  shows "\<exists>c w'. Check P a pc w = Inr (c, w') \<and> ck_address c = a \<and> ck_status c = TesterStatus_Idle \<and> (\<forall>mem. check_ok P mem c)
    \<and> driver_frame w w'"
proof -
  obtain r1 w1 where d1: "random_draw w = (r1, w1)" by force
  obtain r2 w2 where d2: "random_draw w1 = (r2, w2)" by force
  obtain r3 w3 where d3: "random_draw w2 = (r3, w3)" by force
  have f: "driver_frame w w3"
    by (rule driver_frame_draw [OF driver_frame_draw [OF driver_frame_draw [OF driver_frame_refl d1] d2] d3])
  have "Check P a pc w = Inr (\<lparr>ck_status = TesterStatus_Idle, ck_value = of_nat (and r1 255), ck_store_count = 0,
      ck_initiatingNode = r2 mod NUM_PROCESSORS P, ck_address = a, ck_pc = pc,
      ck_access_mode = AccessModeType (r3 mod AccessModeType_NUM)\<rparr>, w3)"
    using assms(1) by (simp add: Check_def Let_def pickValue_def pickInitiatingNode_def changeAddress_def d1 d2 d3)
  then show ?thesis using assms f by (simp add: check_ok_def waits_for_def)
qed

definition idle_table :: "ruby_params \<Rightarrow> check_table \<Rightarrow> bool" where
  "idle_table P t \<longleftrightarrow> ct_ok t \<and> (\<forall>c \<in> set (ct_check_vector t). (\<forall>mem. check_ok P mem c) \<and> ck_status c = TesterStatus_Idle)"

lemma addCheck_ok:
  assumes "0 < NUM_PROCESSORS P" "4 dvd unat a" "idle_table P t"
  shows "\<exists>t' w'. addCheck P a (t, w) = Inr (t', w') \<and> idle_table P t' \<and> driver_frame w w' \<and> ct_check_vector t' \<noteq> []"
proof -
  obtain x where x: "bitSelect 0 (int CHECK_SIZE_BITS - 1) a = Inr x" "x = 0" using low_bits [of a] assms(2) by blast
  have ct: "ct_ok t" using assms(3) by (simp add: idle_table_def)
  let ?n = "length (ct_check_vector t)"
  show ?thesis
  proof (cases "\<exists>i < CHECK_SIZE. rmap_exist (ct_lookup_map t) (a + of_nat i)")
    case True
    then obtain i k where "getCheck t (a + of_nat i) = Some k" by (auto simp: rmap_exist_def getCheck_def)
    then have "ct_check_vector t \<noteq> []" using ct by (auto simp: ct_ok_def)
    moreover have "addCheck P a (t, w) = Inr (t, w)" using True x by (simp add: addCheck_def log_int_CHECK_SIZE)
    ultimately show ?thesis using assms(3) driver_frame_refl by blast
  next
    case False
    obtain c w' where c: "Check P a (of_nat (100 + ?n)) w = Inr (c, w')" "ck_address c = a" "\<forall>mem. check_ok P mem c"
        "ck_status c = TesterStatus_Idle" "driver_frame w w'" using Check_ok [OF assms(1,2)] by blast
    let ?m = "fold (\<lambda>i. rmap_add (a + of_nat i) ?n) [0..<CHECK_SIZE] (ct_lookup_map t)"
    let ?t' = "t\<lparr>ct_lookup_map := ?m, ct_check_vector := ct_check_vector t @ [c]\<rparr>"
    have run: "addCheck P a (t, w) = Inr (?t', w')"
      using False x c(1) by (auto simp: addCheck_def log_int_CHECK_SIZE Let_def)
    have inv: "rmap_inv (ct_lookup_map t)" using ct by (simp add: ct_ok_def)
    have m: "rmap_inv ?m" "map_of ?m y = (if \<exists>i < 4. y = a + of_nat i then Some ?n else map_of (ct_lookup_map t) y)" for y
      using map_of_bytes [OF inv, of "\<lambda>i. a + of_nat i" ?n "[0..<CHECK_SIZE]" y] by (auto simp: CHECK_SIZE_eq image_iff)
    have old: "map_of (ct_lookup_map t) y = None" if "\<exists>i < 4. y = a + of_nat i" for y
      using False that by (auto simp: rmap_exist_def CHECK_SIZE_eq)
    have g: "getCheck t y = Some k \<longleftrightarrow> k < ?n \<and> (\<exists>i < 4. y = ck_address (ct_check_vector t ! k) + of_nat i)" for y k
      using ct by (simp add: ct_ok_def)
    have "getCheck ?t' y = Some k \<longleftrightarrow> k < length (ct_check_vector ?t')
        \<and> (\<exists>i < 4. y = ck_address (ct_check_vector ?t' ! k) + of_nat i)" for y k
    proof (cases "\<exists>i < 4. y = a + of_nat i")
      case True
      then have "\<not> (k < ?n \<and> (\<exists>i < 4. y = ck_address (ct_check_vector t ! k) + of_nat i))"
        using g [of y k] old [OF True] by (simp add: getCheck_def)
      then show ?thesis using True m(2) [of y] c(2) by (auto simp: getCheck_def nth_append less_Suc_eq)
    next
      case False
      then show ?thesis using m(2) [of y] g [of y k] c(2) by (auto simp: getCheck_def nth_append less_Suc_eq)
    qed
    then have "ct_ok ?t'" using m(1) by (simp add: ct_ok_def)
    then have "idle_table P ?t'" using assms(3) c(3,4) by (auto simp: idle_table_def)
    then show ?thesis using run c(5) by auto
  qed
qed

lemma addChecks_ok:
  assumes "0 < NUM_PROCESSORS P" "\<forall>i \<in> set is. 4 dvd unat (f i)" "idle_table P t" "ct_check_vector t \<noteq> [] \<or> is \<noteq> []"
  shows "\<exists>t' w'. rfold (\<lambda>i. addCheck P (f i)) is (t, w) = Inr (t', w') \<and> idle_table P t' \<and> driver_frame w w' \<and> ct_check_vector t' \<noteq> []"
  using assms(2-4)
proof (induction "is" arbitrary: t w)
  case Nil
  then show ?case using driver_frame_refl by auto
next
  case (Cons i "is")
  obtain t1 w1 where 1: "addCheck P (f i) (t, w) = Inr (t1, w1)" "idle_table P t1" "driver_frame w w1" "ct_check_vector t1 \<noteq> []"
    using addCheck_ok [OF assms(1) _ Cons.prems(2), of "f i" w] Cons.prems(1) by auto
  obtain t2 w2 where "rfold (\<lambda>i. addCheck P (f i)) is (t1, w1) = Inr (t2, w2)" "idle_table P t2" "driver_frame w1 w2" "ct_check_vector t2 \<noteq> []"
    using Cons.IH [OF _ 1(2), of w1] Cons.prems(1) 1(4) by auto
  then show ?case using 1 by (auto simp: driver_frame_def intro: sched_reach_trans)
qed

lemma aligned_numbers: "n < 30000 \<Longrightarrow> 4 dvd unat (of_nat (4 * n) :: address)"
  by (subst unat_of_nat) (simp del: of_nat_mult)

lemma CheckTable_ok:
  assumes "0 < NUM_PROCESSORS P"
  shows "\<exists>t w'. CheckTable P w = Inr (t, w') \<and> idle_table P t \<and> driver_frame w w' \<and> ct_check_vector t \<noteq> []"
proof -
  have a1: "\<forall>i \<in> set [0..<32]. 4 dvd unat (1000 + of_nat (i * CHECK_SIZE) :: address)"
  proof
    fix i assume "i \<in> set [0..<32 :: nat]"
    then have "4 dvd unat (of_nat (4 * (250 + i)) :: address)" by (intro aligned_numbers) simp
    then show "4 dvd unat (1000 + of_nat (i * CHECK_SIZE) :: address)" by (simp add: CHECK_SIZE_eq algebra_simps)
  qed
  have a2: "\<forall>i \<in> set [0..<100]. 4 dvd unat (1000 + of_nat (i * 256) :: address)"
  proof
    fix i assume "i \<in> set [0..<100 :: nat]"
    then have "4 dvd unat (of_nat (4 * (250 + 64 * i)) :: address)" by (intro aligned_numbers) simp
    then show "4 dvd unat (1000 + of_nat (i * 256) :: address)" by (simp add: algebra_simps)
  qed
  have a3: "\<forall>i \<in> set [0..<100]. 4 dvd unat (1000 + of_nat CHECK_SIZE + of_nat (i * 256) :: address)"
  proof
    fix i assume "i \<in> set [0..<100 :: nat]"
    then have "4 dvd unat (of_nat (4 * (251 + 64 * i)) :: address)" by (intro aligned_numbers) simp
    then show "4 dvd unat (1000 + of_nat CHECK_SIZE + of_nat (i * 256) :: address)" by (simp add: CHECK_SIZE_eq algebra_simps)
  qed
  have e: "idle_table P \<lparr>ct_check_vector = [], ct_lookup_map = []\<rparr>"
    by (simp add: idle_table_def ct_ok_def getCheck_def)
  obtain t1 w1 where 1: "rfold (\<lambda>i. addCheck P (1000 + of_nat (i * CHECK_SIZE))) [0..<32] (\<lparr>ct_check_vector = [], ct_lookup_map = []\<rparr>, w)
      = Inr (t1, w1)" "idle_table P t1" "driver_frame w w1" "ct_check_vector t1 \<noteq> []"
    using addChecks_ok [OF assms a1 e, of w] by auto
  obtain t2 w2 where 2: "rfold (\<lambda>i. addCheck P (1000 + of_nat (i * 256))) [0..<100] (t1, w1) = Inr (t2, w2)"
      "idle_table P t2" "driver_frame w1 w2" "ct_check_vector t2 \<noteq> []"
    using addChecks_ok [OF assms a2 1(2), of w1] 1(4) by auto
  obtain t3 w3 where 3: "rfold (\<lambda>i. addCheck P (1000 + of_nat CHECK_SIZE + of_nat (i * 256))) [0..<100] (t2, w2) = Inr (t3, w3)"
      "idle_table P t3" "driver_frame w2 w3" "ct_check_vector t3 \<noteq> []"
    using addChecks_ok [OF assms a3 2(2), of w2] 2(4) by auto
  have "CheckTable P w = Inr (t3, w3)" unfolding CheckTable_def Let_def using 1(1) 2(1) 3(1) by (simp only: rbind_Inr)
  moreover have "driver_frame w w3" using 1(3) 2(3) 3(3) by (auto simp: driver_frame_def intro: sched_reach_trans)
  ultimately show ?thesis using 3(2,4) by blast
qed

lemma Tester_ok:
  assumes "boot P limit mem w" "0 < NUM_PROCESSORS P"
  shows "\<exists>w' t. Tester P False w = Inr w' \<and> te_good P mem w' \<and> driver_frame w w' \<and> idle_table P t \<and> ct_check_vector t \<noteq> []
    \<and> the_driver w' = \<lparr>te_checkTable = t, te_last_progress_vector = replicate (NUM_PROCESSORS P) 0, te_callback_counter = 0\<rparr>"
proof -
  obtain t w1 where t: "CheckTable P w = Inr (t, w1)" "idle_table P t" "driver_frame w w1" "ct_check_vector t \<noteq> []"
    using CheckTable_ok [OF assms(2)] by blast
  have sys: "sys_ok P w" "mem_ok mem" "coherent mem w" using assms(1) by (simp_all add: boot_def)
  have ev1: "evq_inv w1" using quiet_props(1) [OF driver_frame_quiet [OF t(3)] sys_okD(1) [OF sys(1)]] .
  have one: "(0 :: int) < 1" by simp
  obtain w2 where w2: "scheduleEvent (Some driver_consumer) 1 w1 = Inr w2" "evq_inv w2" "w_time w2 = w_time w1"
      "w_sys w2 = w_sys w1" "sched_reach w1 w2" by (rule scheduled [OF ev1 one])
  let ?h = "\<lparr>te_checkTable = t, te_last_progress_vector = replicate (NUM_PROCESSORS P) 0, te_callback_counter = 0\<rparr>"
  let ?w' = "set_driver ?h w2"
  have "driver_frame w w2" using t(3) w2(4,5) by (auto simp: driver_frame_def intro: sched_reach_trans)
  then have f: "driver_frame w ?w'" by (rule driver_frame_set)
  have q: "quiet w ?w'" by (rule driver_frame_quiet [OF f])
  have seqs: "the_seq ?w' = the_seq w" "the_cache ?w' = the_cache w"
    using f by (auto simp: driver_frame_def the_seq_def the_cache_def fun_eq_iff)
  have "sys_ok P ?w'" by (rule quiet_sys_ok [OF q sys(1)])
  moreover have "tester_inv P mem ?h" using t(2,4) by (simp add: tester_inv_def idle_table_def)
  moreover have "\<not> awaited (the_seq ?w' p) r" if "p < NUM_PROCESSORS P" for p r using assms(1) that by (simp add: boot_def seqs)
  ultimately have "good P (\<lambda>now. tester_inv P) tester_expects mem ?w'" using sys(2) by (simp add: good_def ruby_simps)
  moreover have "coherent mem ?w'" by (rule quiet_coherent [OF q sys(1,3)])
  moreover have "Tester P False w = Inr ?w'" using t(1) w2(1) by (simp add: Tester_def)
  ultimately show ?thesis using f t(2,4) by (intro exI [of _ ?w'] exI [of _ t]) (simp add: te_good_def ruby_simps)
qed

interpretation te_system: ruby_system P "te_hitCallback P" "\<lambda>now. tester_inv P" tester_expects limit "Tester P SIMICS" "\<lambda>_. te_wakeup P"
  for P limit SIMICS
proof unfold_locales
  fix mem and w w' :: tester_world
  assume b: "boot P limit mem w" and c: "Tester P SIMICS w = Inr w'"
  have n: "0 < NUM_PROCESSORS P" using b by (simp add: boot_def sys_ok_def params_ok_def)
  have "SIMICS = False" using c by (auto simp: Tester_def rbind_eq_Inr)
  then have "te_good P mem w'" "driver_frame w w'" using Tester_ok [OF b n] c by auto
  then show "good P (\<lambda>now. tester_inv P) tester_expects mem w'" "ry_caches (w_sys w') = ry_caches (w_sys w)"
    by (simp_all add: te_good_def driver_frame_def)
next
  fix mem k and w w' :: tester_world
  assume g: "good P (\<lambda>now. tester_inv P) tester_expects mem w" "coherent mem w" and r: "te_wakeup P w = Inr w'"
  have "te_good P mem w" using g by (simp add: te_good_def)
  moreover have "0 < NUM_PROCESSORS P" using goodD(1) [OF g(1)] by (simp add: sys_ok_def params_ok_def)
  ultimately show "\<exists>mem'. good P (\<lambda>now. tester_inv P) tester_expects mem' w' \<and> settled mem w mem' w'"
    using te_wakeup_cases [of P mem w] r by (auto simp: te_step_def te_good_def)
qed

text \<open>The states of a run of the tester, of any length.\<close>

definition tester_run :: "ruby_params \<Rightarrow> memory \<Rightarrow> tester_world \<Rightarrow> bool" where
  "tester_run P mem w \<longleftrightarrow> (\<exists>limit. ruby_run P limit (te_hitCallback P) (Tester P False) (\<lambda>_. te_wakeup P) mem w)"

lemma tester_run_good: "tester_run P mem w \<Longrightarrow> te_good P mem w"
  unfolding tester_run_def te_good_def using te_system.run_good by blast

end
