(* ===== verification/SmallSystem.thy ===== *)
theory SmallSystem
  imports RubySystem
begin

text \<open>
  A concrete system of two processors, at the time \<open>t\<close> just before its driver is constructed: the caches are empty, of one
  set with one way, the queues are empty, the memory is zero, and every call of \<open>random()\<close> returns 1. The examples of
  the properties run in it.
\<close>

definition small_params :: ruby_params where
  "small_params = \<lparr>DATA_BLOCK = True, BLOCK_BITS = 6, NUM_PROCESSORS = 2, SEQUENCER_OUTSTANDING_REQUESTS = 16,
     SEQUENCER_TO_CONTROLLER_LATENCY = 4, INSTR_PREFETCH_NUM_LINES = 1, DEADLOCK_THRESHOLD = 500, RANDOM_LATENCY = False,
     TESTER_LENGTH = 100, SYNTHETIC_LOCKS = 2, THINK_TIME = 5, WAIT_TIME = 5, HOLD_TIME = 5\<rparr>"

definition small_sequencer :: "nat \<Rightarrow> sequencer" where
  "small_sequencer p = \<lparr>sq_id = p, sq_request_queue = p, sq_data_cache = 2 * p, sq_insn_cache = 2 * p + 1,
     sq_writeRequestTable = [], sq_readRequestTable = [], sq_outstanding_count = 0, sq_deadlock_check_scheduled = False\<rparr>"

definition empty_cache :: "nat \<Rightarrow> data_block cache_memory" where
  "empty_cache c = \<lparr>cm_id = c, cm_cache = [[\<lparr>ce_address = 0, ce_permission = AccessPermission_NotPresent, ce_last_ref = 0,
     ce_data = []\<rparr>]], cm_num_sets = 1, cm_num_set_bits = 0, cm_assoc = 1\<rparr>"

definition small_queue :: "nat \<Rightarrow> cache_msg message_buffer" where
  "small_queue q = mb_setOrdering False (mb_init\<lparr>m_consumer_ptr := Some (3 * q + 4)\<rparr>)"

definition small_ruby :: "int \<Rightarrow> 'h \<Rightarrow> 'h ruby" where
  "small_ruby t h = (world_init \<lparr>ry_sequencers = small_sequencer, ry_caches = empty_cache, ry_queues = small_queue,
     ry_random = (\<lambda>_. 1), ry_draws = 0, ry_driver = h\<rparr>)\<lparr>w_time := t\<rparr>"

definition zero_memory :: memory where
  "zero_memory a = replicate 64 0"

lemma small_params_ok: "params_ok small_params"
  by (simp add: params_ok_def small_params_def)

lemma empty_cache_ok: "cm_inv 6 (empty_cache c)" "cached 6 (empty_cache c) a = None"
  by (simp_all add: cm_inv_def empty_cache_def present_def tags_distinct_def cached_def tag_match_def set_index_def)

lemma small_queue_ok: "fifo_ok (small_queue q)"
proof -
  have "mb_ok (small_queue q)" using mb_inv_ok [OF mb_inv_init]
    by (simp add: mb_ok_def small_queue_def mb_setOrdering_def mb_nodes_def)
  then show ?thesis by (simp add: fifo_ok_def small_queue_def mb_setOrdering_def)
qed

lemma small_ruby_reads:
  "the_seq (small_ruby t h) p = small_sequencer p" "the_cache (small_ruby t h) c = empty_cache c" "the_driver (small_ruby t h) = h"
  "w_time (small_ruby t h) = t" "ry_queues (w_sys (small_ruby t h)) = small_queue" "ry_random (w_sys (small_ruby t h)) = (\<lambda>_. 1)"
  by (auto simp: small_ruby_def the_seq_def the_cache_def the_driver_def world_init_def)

lemma small_ruby_queue: "0 \<le> t \<Longrightarrow> evq_inv (small_ruby t h)"
  using evq_inv_init by (auto simp: small_ruby_def evq_inv_def pending_def world_init_def new_consumer_def heap_elems_init)

lemma small_boot:
  assumes "0 \<le> t" "t \<le> limit"
  shows "boot small_params limit zero_memory (small_ruby t h)"
proof -
  have "seq_ok t (small_sequencer p)" for p
    by (simp add: seq_ok_def count_ok_def requests_ok_def small_sequencer_def rmap_size_def rmap_inv_def)
  then have "sys_ok small_params (small_ruby t h)"
    using small_ruby_queue [OF assms(1)] small_params_ok empty_cache_ok(1) small_queue_ok
    by (simp add: sys_ok_def small_ruby_reads) (simp add: small_sequencer_def)
  moreover have "\<not> awaited (small_sequencer p) r" for p r
    by (simp add: awaited_def request_table_def small_sequencer_def)
  ultimately show ?thesis
    by (simp add: boot_def assms small_ruby_reads mem_ok_def zero_memory_def coherent_def view_def empty_cache_ok)
qed


section \<open>Idle sequencers and empty caches\<close>

definition no_lines :: "'h ruby \<Rightarrow> bool" where
  "no_lines w \<longleftrightarrow> (\<forall>c a. view 6 (the_cache w c) a = None)"

lemma no_lines_coherent: "no_lines w \<Longrightarrow> coherent mem w"
  by (simp add: no_lines_def coherent_def)

lemma no_lines_settled: "no_lines w \<Longrightarrow> settled mem w mem' w' \<Longrightarrow> no_lines w' \<and> mem' = mem"
  by (auto simp: no_lines_def settled_def fun_eq_iff)

lemma idle_isReady:
  assumes "seq_ok now s" "\<forall>r. \<not> awaited s r" "0 < SEQUENCER_OUTSTANDING_REQUESTS P"
  shows "sq_isReady P s r"
proof -
  have "map_of (request_table ty s) k = None" for ty k
    using outstanding_props(5) [OF assms(1)] assms(2) by (metis not_None_eq)
  then have e: "request_table ty s = []" for ty by (metis map_of_eq_empty_iff ext)
  have "count_ok s" using assms(1) by (simp add: seq_ok_def)
  then have "sq_outstanding_count s = 0" unfolding count_ok_tables by (simp add: e rmap_size_def)
  then show ?thesis using assms(3) by (simp add: sq_isReady_def e rmap_exist_def)
qed

lemma doRequest_misses:
  assumes "no_lines w" "\<forall>c. cm_inv 6 (the_cache w c)" "BLOCK_BITS P = 6" "doRequest P drv p r w = Inr (hit, w')"
  shows "\<not> hit \<and> the_driver w' = the_driver w"
proof -
  define c where "c = (if rq_Type r = CacheRequestType_IFETCH then sq_insn_cache (the_seq w p) else sq_data_cache (the_seq w p))"
  have "cached 6 (the_cache w c) a = None" for a using assms(1) by (simp add: no_lines_def view_def)
  then have "tryCacheAccess 6 (line_address (rq_Address r)) (rq_Type r) w (the_cache w c) = Inr (False, None, the_cache w c)"
    by (intro tryCacheAccess_ok(1)) (use assms(2) in simp_all)
  then have "sq_tryCacheAccess P p (line_address (rq_Address r)) (rq_Type r) w = Inr (False, None, set_cache c (the_cache w c) w)"
    by (simp add: sq_tryCacheAccess_def Let_def assms(3) c_def)
  then show ?thesis using assms(4)
    by (auto simp: doRequest_def rbind_eq_Inr ruby_simps dest!: issueRequest_driver)
qed

text \<open>The driver gets the bytes of the request, in its state at the time of the answer.\<close>

lemma hitCallback_data:
  assumes "sq_hitCallback P drv p r d w = Inr (d', w')" "request_ok r" "demand r" "params_ok P" "length d = 64"
  shows "\<exists>v sb. drv (sq_id (the_seq w p)) \<lparr>sb_address = rq_Address r, sb_data = slice (offset (rq_Address r)) (rq_Size r) d\<rparr> v = Inr (sb, w')
    \<and> the_driver v = the_driver w"
proof -
  have q: "rq_Prefetch r \<noteq> PrefetchBit_Yes" "0 < rq_Size r" "offset (rq_Address r) + rq_Size r \<le> length d"
    using assms(2,3,5) by (auto simp: demand_def request_ok_def)
  have P: "DATA_BLOCK P" using assms(4) by (simp add: params_ok_def)
  have m: "mergeFrom P d \<lparr>sb_address = rq_Address r, sb_data = replicate (rq_Size r) 0\<rparr>
      = Inr \<lparr>sb_address = rq_Address r, sb_data = slice (offset (rq_Address r)) (rq_Size r) d\<rparr>"
    using mergeFrom_ok [OF P, of "\<lparr>sb_address = rq_Address r, sb_data = replicate (rq_Size r) 0\<rparr>" d] q by simp
  from assms(1) q(1) m show ?thesis
    by (auto simp: sq_hitCallback_def Let_def rbind_eq_Inr ruby_simps SubBlock_ok split: if_splits)
qed

lemma answer_data:
  assumes "answer_request P drv p r mem w = Inr (mem', w')" "sys_ok P w" "mem_ok mem" "p < NUM_PROCESSORS P" "awaited (the_seq w p) r" "demand r"
  shows "\<exists>v sb. drv p \<lparr>sb_address = rq_Address r, sb_data = read_bytes mem r\<rparr> v = Inr (sb, w') \<and> the_driver v = the_driver w"
proof -
  let ?line = "line_address (rq_Address r)"
  note s = sys_okD [OF assms(2)]
  have m: "map_of (request_table (rq_Type r) (the_seq w p)) ?line = Some r" using assms(5) by (simp add: awaited_def)
  note q = outstanding_props [OF s(3) [OF assms(4)] m]
  obtain s' where s': "removeRequest p r w = Inr (set_seq p s' w)" "ports s' = ports (the_seq w p)"
    using removeRequest_ok [OF s(3) [OF assms(4)] assms(5)] by blast
  have "\<exists>d. sq_hitCallback P drv p r (mem ?line) (set_seq p s' w) = Inr (d, w')"
    using assms(1) s'(1) m
    by (auto simp: answer_request_def readCallback_def writeCallback_def Let_def rbind_eq_Inr rmap_lookup_def request_table_def split: if_splits)
  then obtain d where d: "sq_hitCallback P drv p r (mem ?line) (set_seq p s' w) = Inr (d, w')" by blast
  have "sq_id s' = p" using s'(2) s(4) [OF assms(4)] by (simp add: ports_def)
  moreover have "length (mem ?line) = 64" using assms(3) by (simp add: mem_ok_def)
  ultimately show ?thesis using hitCallback_data [OF d q(2) assms(6) s(5)] by (simp add: ruby_simps read_bytes_def)
qed

end
