(* ===== verification/RubyProperties.thy ===== *)
theory RubyProperties
  imports TesterSafety SmallSystem
begin

text \<open>
  The properties of the sequencers and of the random tester, with examples in the small system.
\<close>

section \<open>Callbacks are counted\<close>

lemma hitCallback_calls_driver:
  assumes "sq_hitCallback P drv p r d w = Inr (d', w')" "demand r"
  shows "\<exists>sb v sb'. drv (sq_id (the_seq w p)) sb v = Inr (sb', w') \<and> the_driver v = the_driver w"
proof -
  have d: "rq_Prefetch r \<noteq> PrefetchBit_Yes" using assms(2) by (simp add: demand_def)
  from assms(1) d show ?thesis
    by (auto simp: sq_hitCallback_def Let_def rbind_eq_Inr ruby_simps split: if_splits) (metis set_cache_reads(3))+
qed

lemma tester_callback_counted:
  assumes "te_hitCallback P p sb v = Inr (sb', w')"
  shows "te_callback_counter (the_driver w') = te_callback_counter (the_driver v) + 1"
  using assms
  by (auto simp: te_hitCallback_def performCallback_def pickValue_def Let_def rbind_eq_Inr ruby_simps draw_reads
      split: option.splits if_splits prod.splits)

lemma hit_counted:
  assumes "sq_hitCallback P (te_hitCallback P) p r d w = Inr (d', w')" "demand r"
  shows "te_callback_counter (the_driver w') = te_callback_counter (the_driver w) + 1"
  using hitCallback_calls_driver [OF assms] tester_callback_counted by force

lemma doRequest_counted:
  assumes "doRequest P (te_hitCallback P) p r w = Inr (hit, w')" "demand r"
  shows "te_callback_counter (the_driver w') = te_callback_counter (the_driver w) + (if hit then 1 else 0)"
  using assms
  by (auto simp: doRequest_def sq_tryCacheAccess_def Let_def rbind_eq_Inr ruby_simps split: if_splits option.splits
      dest!: hit_counted issueRequest_driver)

lemma answer_counted:
  assumes "answer_request P (te_hitCallback P) p r mem w = Inr (mem', w')" "te_good P mem w" "p < NUM_PROCESSORS P"
    "awaited (the_seq w p) r" "demand r"
  shows "te_callback_counter (the_driver w') = te_callback_counter (the_driver w) + 1"
proof -
  have g: "sys_ok P w" "mem_ok mem" using assms(2) by (simp_all add: te_good_def good_def)
  from answer_data [OF assms(1) g assms(3-5)] tester_callback_counted show ?thesis by force
qed

section \<open>The other processors\<close>

lemma tester_callback_seqs: "te_hitCallback P p sb v = Inr (sb', w') \<Longrightarrow> the_seq w' q = the_seq v q"
  by (auto simp: te_hitCallback_def performCallback_def pickValue_def Let_def rbind_eq_Inr ruby_simps draw_reads
      split: option.splits if_splits prod.splits)

lemma hit_seqs: "sq_hitCallback P (te_hitCallback P) p r d w = Inr (d', w') \<Longrightarrow> the_seq w' q = the_seq w q"
  by (auto simp: sq_hitCallback_def Let_def rbind_eq_Inr ruby_simps split: if_splits dest!: tester_callback_seqs)

lemma answer_others:
  "answer_request P (te_hitCallback P) p r mem w = Inr (mem', w') \<Longrightarrow> q \<noteq> p \<Longrightarrow> the_seq w' q = the_seq w q"
  by (auto simp: answer_request_def readCallback_def writeCallback_def removeRequest_def Let_def rbind_eq_Inr ruby_simps
      split: if_splits dest!: hit_seqs [where q = q])

lemma issueRequest_others:
  assumes "issueRequest P p r w = Inr w'" "q \<noteq> p"
  shows "the_seq w' q = the_seq w q"
proof -
  have m: "mb_enqueue R f m l w1 b = Inr (x, w2) \<Longrightarrow> the_seq w2 q = the_seq w1 q" for R f m l b x and w1 w2 :: "'a ruby"
    by (auto simp: mb_enqueue_def rbind_eq_Inr Let_def the_seq_def split: prod.splits dest!: schedule_frame(1))
  have s: "scheduleEvent c d w1 = Inr w2 \<Longrightarrow> the_seq w2 q = the_seq w1 q" for c d and w1 w2 :: "'a ruby"
    by (auto simp: scheduleEvent_def the_seq_def dest!: schedule_frame(1))
  from assms obtain found w1 where i: "insertRequest P p r w = Inr (found, w1)" by (auto simp: issueRequest_def rbind_eq_Inr)
  then have "the_seq w1 q = the_seq w q" using assms(2)
    by (auto simp: insertRequest_def Let_def rbind_eq_Inr ruby_simps split: if_splits dest!: s)
  moreover have "the_seq w' q = the_seq w1 q"
    using assms(1) i by (auto simp: issueRequest_def rbind_eq_Inr random_draw_def Let_def the_seq_def ruby_simps
        split: if_splits dest!: m [unfolded the_seq_def])
  ultimately show ?thesis by simp
qed

lemma doRequest_others:
  "doRequest P (te_hitCallback P) p r w = Inr (hit, w') \<Longrightarrow> q \<noteq> p \<Longrightarrow> the_seq w' q = the_seq w q"
  by (auto simp: doRequest_def sq_tryCacheAccess_def Let_def rbind_eq_Inr ruby_simps split: if_splits option.splits
      dest!: hit_seqs [where q = q] issueRequest_others [where q = q])

section \<open>A store that misses\<close>

text \<open>In the state of the tester after its constructor every cache is empty, so the first store of a check misses.\<close>

lemma small_tester:
  assumes "0 \<le> T"
  shows "\<exists>w t. Tester small_params False (small_ruby T h) = Inr w \<and> te_good small_params zero_memory w \<and> idle_table small_params t
     \<and> ct_check_vector t \<noteq> [] \<and> the_driver w = \<lparr>te_checkTable = t, te_last_progress_vector = [0, 0], te_callback_counter = 0\<rparr>
     \<and> the_seq w = small_sequencer \<and> the_cache w = empty_cache \<and> ry_random (w_sys w) = (\<lambda>_. 1) \<and> w_time w = T"
proof -
  have n: "0 < NUM_PROCESSORS small_params" by (simp add: small_params_def)
  obtain w t where w: "Tester small_params False (small_ruby T h) = Inr w" "te_good small_params zero_memory w"
      "driver_frame (small_ruby T h) w" "idle_table small_params t" "ct_check_vector t \<noteq> []"
      "the_driver w = \<lparr>te_checkTable = t, te_last_progress_vector = replicate 2 0, te_callback_counter = 0\<rparr>"
    using Tester_ok [OF small_boot [OF assms order_refl] n, of h] by (auto simp: small_params_def)
  have "w_time w = T" using quiet_props(2) [OF driver_frame_quiet [OF w(3)] small_ruby_queue [OF assms]] by (simp add: small_ruby_reads)
  moreover have "the_seq w = small_sequencer" "the_cache w = empty_cache" "ry_random (w_sys w) = (\<lambda>_. 1)"
    using w(3) by (auto simp: driver_frame_def the_seq_def the_cache_def fun_eq_iff small_ruby_def world_init_def)
  ultimately show ?thesis using w by (intro exI [of _ w] exI [of _ t]) (simp add: numeral_2_eq_2)
qed

text \<open>The first wakeup chooses a check that is about to store its first byte.\<close>

definition store_request :: "byte_check \<Rightarrow> tester_world \<Rightarrow> cache_msg" where
  "store_request c w =
     CacheMsg (ck_address c + of_nat (ck_store_count c)) CacheRequestType_ST (ck_pc c) (ck_access_mode c) 1 PrefetchBit_No w"

definition storing :: "int \<Rightarrow> tester_world \<Rightarrow> nat \<Rightarrow> cache_msg \<Rightarrow> bool" where
  "storing T w p r \<longleftrightarrow> te_good small_params zero_memory w \<and> w_time w = T \<and> the_seq w = small_sequencer
     \<and> the_cache w = empty_cache \<and> te_last_progress_vector (the_driver w) = [0, 0]
     \<and> p < NUM_PROCESSORS small_params \<and> request_ok r \<and> demand r \<and> rq_Time r \<le> w_time w \<and> rq_Type r = CacheRequestType_ST
     \<and> sq_isReady small_params (the_seq w p) r \<and> tester_expects (the_driver w) p r"

lemma small_store:
  assumes "0 \<le> T"
  shows "\<exists>w k w1 w3 p r. Tester small_params False (small_ruby T h) = Inr w \<and> te_good small_params zero_memory w
     \<and> te_callback_counter (the_driver w) = 0 \<and> getRandomCheck w = Inr (k, w1)
     \<and> initiate small_params k w1 = makeRequest small_params (te_hitCallback small_params) p r w3 \<and> storing T w3 p r"
proof -
  obtain w t where w: "Tester small_params False (small_ruby T h) = Inr w" "te_good small_params zero_memory w"
      "idle_table small_params t" "ct_check_vector t \<noteq> []"
      "the_driver w = \<lparr>te_checkTable = t, te_last_progress_vector = [0, 0], te_callback_counter = 0\<rparr>"
      "the_seq w = small_sequencer" "the_cache w = empty_cache" "ry_random (w_sys w) = (\<lambda>_. 1)" "w_time w = T"
    using small_tester [OF assms, of h] by blast
  define k where "k = 1 mod length (ct_check_vector t)"
  define c where "c = ct_check_vector t ! k"
  have k: "k < length (ct_check_vector t)" unfolding k_def using w(4) by (intro mod_less_divisor) simp
  have c: "ck_status c = TesterStatus_Idle" "check_ok small_params zero_memory c"
    using w(3) k by (auto simp: idle_table_def c_def)
  then have n: "ck_store_count c < 4" by (auto simp: check_ok_def)
  define v where "v = snd (random_draw (snd (random_draw (snd (random_draw w)))))"
  have d: "\<exists>w1 w2. random_draw w = (1, w1) \<and> random_draw w1 = (1, w2) \<and> random_draw w2 = (1, v)"
    by (simp add: v_def random_draw_def w(8) upd_ruby_def)
  then obtain w1 w2 where d: "random_draw w = (1, w1)" "random_draw w1 = (1, w2)" "random_draw w2 = (1, v)" by blast
  have st: "the_driver v = the_driver w" "the_driver w1 = the_driver w" "the_driver w2 = the_driver w" "the_seq v = the_seq w"
      "the_cache v = the_cache w" "w_time v = w_time w"
    using d by (auto simp: draw_reads fun_eq_iff)
  let ?p = "ck_initiatingNode c" and ?w3 = "set_check k (c\<lparr>ck_status := TesterStatus_Action_Pending\<rparr>) v"
  let ?r = "store_request c v"
  have p: "?p < NUM_PROCESSORS small_params" using c(2) by (simp add: check_ok_def)
  have ready: "sq_isReady small_params (small_sequencer ?p) ?r"
    by (simp add: sq_isReady_def small_params_def small_sequencer_def request_table_def rmap_exist_def)
  have ck: "the_check w2 k = Inr c" using k by (simp add: the_check_def st w(5) c_def)
  have act: "initiateAction small_params k w2 = makeRequest small_params (te_hitCallback small_params) ?p ?r ?w3"
    using ready c(1) by (simp add: initiateAction_def ck d(3) Let_def store_request_def st w(6))
  have ini: "initiate small_params k w1 = initiateAction small_params k w2"
    using c(1) by (simp add: initiate_def d(2) ck)
  have gv: "te_good small_params zero_memory v"
    using te_step_trans [OF te_step_trans [OF te_draw_step [OF w(2) d(1)] te_draw_step [OF _ d(2)]] te_draw_step [OF _ d(3)]]
      te_draw_step [OF w(2) d(1)] te_draw_step [OF _ d(2)] by (simp add: te_step_def)
  have "te_step small_params zero_memory v zero_memory ?w3"
    by (rule pending_step [OF gv]) (use k c n in \<open>auto simp: st(1) w(5) c_def waits_for_def check_ok_def\<close>)
  then have g3: "te_good small_params zero_memory ?w3" by (simp add: te_step_def)
  have r: "request_ok ?r" "rq_Time ?r \<le> w_time ?w3" "demand ?r" "rq_Type ?r = CacheRequestType_ST"
    "waits_for (c\<lparr>ck_status := TesterStatus_Action_Pending\<rparr>) ?p ?r"
    using offset_less [of "ck_address c + of_nat (ck_store_count c)"]
    by (simp_all add: store_request_def request_ok_def CacheMsg_def ruby_simps demand_def waits_for_def is_write_type_def)
  have "tester_expects (the_driver ?w3) ?p ?r"
    using r(5) k by (auto simp: tester_expects_def ruby_simps st w(5) intro!: exI [of _ k])
  then have "storing T ?w3 ?p ?r" using g3 p r ready by (simp add: storing_def ruby_simps st w(5-9) fun_eq_iff)
  moreover have "getRandomCheck w = Inr (k, w1)" using d(1) w(4,5) by (simp add: getRandomCheck_def Let_def k_def)
  ultimately show ?thesis using w(1,2,5) act ini by (intro exI [of _ w] exI [of _ k] exI [of _ w1] exI [of _ ?w3] exI [of _ ?p] exI [of _ ?r]) simp
qed

text \<open>The store misses: it is awaited afterwards, and nothing else happens to the tester.\<close>

lemma storing_misses:
  assumes "storing T w p r"
  shows "\<exists>w' mem'. makeRequest small_params (te_hitCallback small_params) p r w = Inr w' \<and> te_good small_params mem' w'
     \<and> awaited (the_seq w' p) r \<and> the_driver w' = the_driver w \<and> w_time w' = T \<and> sched_reach w w'"
proof -
  have w: "te_good small_params zero_memory w" "w_time w = T" "the_cache w = empty_cache" "p < NUM_PROCESSORS small_params"
      "request_ok r" "rq_Time r \<le> w_time w" "rq_Type r = CacheRequestType_ST" "sq_isReady small_params (the_seq w p) r"
      "tester_expects (the_driver w) p r" using assms unfolding storing_def by blast+
  obtain hit w' m where d: "doRequest small_params (te_hitCallback small_params) p r w = Inr (hit, w')"
      "good small_params (\<lambda>now. tester_inv small_params) tester_expects m w'" "settled zero_memory w m w'"
      "\<forall>r'. awaited (the_seq w' p) r' \<longleftrightarrow> awaited (the_seq w p) r' \<or> \<not> hit \<and> r' = r"
    using te.doRequest_ok [of small_params zero_memory w p r] w by (auto simp: te_good_def sq_isReady_def)
  have miss: "\<not> hit \<and> the_driver w' = the_driver w"
    by (rule doRequest_misses [OF _ _ _ d(1)]) (simp_all add: w(3) empty_cache_ok small_params_def no_lines_def view_def)
  have sr: "sched_reach w w'" using d(3) by (simp add: settled_def)
  have "w_time w' = T" using sched_reach_props [OF sr te_goodD(2) [OF w(1)]] w(2) by simp
  moreover have "makeRequest small_params (te_hitCallback small_params) p r w = Inr w'"
    using d(1) w(8) miss by (simp add: makeRequest_def request_body_def w(7))
  moreover have "te_good small_params m w'" using d(2,3) by (simp add: te_good_def settled_def)
  ultimately show ?thesis using d(4) miss sr by blast
qed

lemma small_wakeup:
  assumes "0 \<le> T"
  shows "\<exists>w w4. tester_run small_params zero_memory w \<and> te_last_progress_vector (the_driver w4) = [0, 0] \<and> w_time w4 = T \<and> evq_inv w4
     \<and> (\<exists>p r. p < NUM_PROCESSORS small_params \<and> awaited (the_seq w4 p) r)
     \<and> te_wakeup small_params w = rbind (te_checkForDeadlock small_params w4) (\<lambda>_. scheduleEvent (Some driver_consumer) 2 w4)"
proof -
  obtain w k w1 w3 p r where w: "Tester small_params False (small_ruby T undefined) = Inr w" "te_good small_params zero_memory w"
      "te_callback_counter (the_driver w) = 0" "getRandomCheck w = Inr (k, w1)"
      "initiate small_params k w1 = makeRequest small_params (te_hitCallback small_params) p r w3" "storing T w3 p r"
    using small_store [OF assms, of undefined] by blast
  obtain w4 mem' where w4: "makeRequest small_params (te_hitCallback small_params) p r w3 = Inr w4" "te_good small_params mem' w4"
      "awaited (the_seq w4 p) r" "the_driver w4 = the_driver w3" "w_time w4 = T" using storing_misses [OF w(6)] by blast
  have "TESTER_LENGTH small_params = 100" by (simp add: small_params_def)
  then have "te_wakeup small_params w = rbind (te_checkForDeadlock small_params w4) (\<lambda>_. scheduleEvent (Some driver_consumer) 2 w4)"
    using w(3-5) w4(1) by (simp add: te_wakeup_def)
  moreover have "tester_run small_params zero_memory w"
    unfolding tester_run_def by (rule exI [of _ T], rule ruby_run.start [OF small_boot [OF assms order_refl, of undefined]]) (rule w(1))
  moreover have "te_last_progress_vector (the_driver w4) = [0, 0]" "p < NUM_PROCESSORS small_params"
    using w(6) w4(4) by (simp_all add: storing_def)
  ultimately show ?thesis using w4(3,5) te_goodD(2) [OF w4(2)] by blast
qed

lemma small_run:
  "\<exists>w mem p r. tester_run small_params mem w \<and> p < NUM_PROCESSORS small_params \<and> awaited (the_seq w p) r"
proof -
  obtain w w4 p r where w: "tester_run small_params zero_memory w" "te_last_progress_vector (the_driver w4) = [0, 0]" "w_time w4 = 1"
      "evq_inv w4" "p < NUM_PROCESSORS small_params" "awaited (the_seq w4 p) r"
      "te_wakeup small_params w = rbind (te_checkForDeadlock small_params w4) (\<lambda>_. scheduleEvent (Some driver_consumer) 2 w4)"
    using small_wakeup [of 1] by auto
  have two: "(0 :: int) < 2" by simp
  obtain w' where w': "scheduleEvent (Some driver_consumer) 2 w4 = Inr w'" "w_sys w' = w_sys w4"
    by (rule scheduled [OF w(4) two])
  have "te_checkForDeadlock small_params w4 = Inr ()"
    unfolding te_checkForDeadlock_iff by (simp add: w(2,3) no_deadlock_def small_params_def)
  then have run: "te_wakeup small_params w = Inr w'" using w(7) w'(1) by simp
  then obtain mem' where "te_step small_params zero_memory w mem' w'"
    using te_wakeup_cases [OF tester_run_good [OF w(1)]] by (auto simp: small_params_def)
  then have "settled zero_memory w mem' w'" by (simp add: te_step_def)
  with w(1) run have "tester_run small_params mem' w'" unfolding tester_run_def by (blast intro: ruby_run.wakeup)
  moreover have "awaited (the_seq w' p) r" using w(6) w'(2) by (simp add: the_seq_def)
  ultimately show ?thesis using w(5) by blast
qed

section \<open>Properties\<close>

text \<open>The runs of the random tester in which the controllers act through the operations of \<open>ControllerSteps\<close>.\<close>

definition tester_protocol_run :: "ruby_params \<Rightarrow> memory \<Rightarrow> tester_world \<Rightarrow> bool" where
  "tester_protocol_run P mem w \<longleftrightarrow>
     (\<exists>limit. protocol_run P limit (te_hitCallback P) (Tester P False) (\<lambda>_. te_wakeup P) mem w)"

lemma tester_protocol_run_ruby: "tester_protocol_run P mem w \<Longrightarrow> tester_run P mem w"
  unfolding tester_protocol_run_def tester_run_def using te_system.protocol_run_ruby by blast

lemma small_allocate:
  "\<exists>w w'. tester_protocol_run small_params zero_memory w'
     \<and> rfold (ctrl_do small_params) [Allocate 0 64 id, Touch 0 64] w = Inr w' \<and> cached 6 (the_cache w' 0) 64 \<noteq> None"
proof -
  obtain w t where w: "Tester small_params False (small_ruby 1 undefined) = Inr w" "the_cache w = empty_cache" "w_time w = 1"
    using small_tester [of 1 undefined] by auto
  have run: "protocol_run small_params 1 (te_hitCallback small_params) (Tester small_params False) (\<lambda>_. te_wakeup small_params) zero_memory w"
    by (rule protocol_run.start [where construct = "Tester small_params False", OF small_boot [of 1 1 undefined] w(1)]) simp_all
  have l: "(64 :: address) = line_address 64" by (simp add: line_address_bits)
  have f: "\<not> set_full 6 (empty_cache 0) 64"
    by (simp add: set_full_def the_set_def empty_cache_def set_index_def present_def)
  obtain x e where x: "cm_allocate id 6 64 w (empty_cache 0) = Inr x" "cm_inv 6 x"
      "cached 6 x = (cached 6 (empty_cache 0))(64 \<mapsto> (id e)\<lparr>ce_address := 64, ce_permission := AccessPermission_Invalid, ce_last_ref := w_time w\<rparr>)"
    using cm_allocate_ok [OF empty_cache_ok(1) l empty_cache_ok(2) f, of id w] by blast
  obtain y where y: "setMRU 6 64 (set_cache 0 x w) x = Inr y" "cached 6 y = (cached 6 x)(64 \<mapsto>
      ((id e)\<lparr>ce_address := 64, ce_permission := AccessPermission_Invalid, ce_last_ref := w_time w\<rparr>)\<lparr>ce_last_ref := w_time w\<rparr>)"
    using setMRU_ok [OF x(2) l, of _ "set_cache 0 x w"] x(3) by (fastforce simp: ruby_simps)
  let ?w = "set_cache 0 y (set_cache 0 x w)"
  have r: "rfold (ctrl_do small_params) [Allocate 0 64 id, Touch 0 64] w = Inr ?w"
    using x(1) y(1) by (simp add: w(2) ruby_simps)
  have n: "view 6 (the_cache ?w c) a = Some (q, d) \<Longrightarrow> \<not> readable q" for c a q d
    using x(3) y(2) empty_cache_ok(2) by (auto simp: ruby_simps w(2) view_def readable_def split: if_splits)
  then have "coherent zero_memory ?w" by (auto simp: coherent_def)
  then have "tester_protocol_run small_params zero_memory ?w" unfolding tester_protocol_run_def
    by (intro exI [of _ 1] protocol_run.elsewhere [OF run r]) (simp_all add: ruby_simps w(3))
  then show ?thesis using r y(2) by (intro exI [of _ w] exI [of _ ?w]) (simp add: ruby_simps)
qed

text \<open>C34: every state of the system that the random tester can reach is well-formed, whatever the controllers do: between
  and after the steps of tester and sequencers they apply any operations of the model to the caches, the message buffers
  and the event queue, in any order (allocate, deallocate, change permission and data of lines; send, receive and
  recycle messages; schedule and take events). The caches, buffers and events stay well-formed, the requests in the
  tables of each sequencer agree with its count, each is under its line and in the table of its kind and none is from
  the future, and the table of checks agrees with the bytes of memory. The assumption on the protocol is that after an
  answer and after the operations of a controller the caches are coherent with the memory.\<close>

theorem system_stays_well_formed:
  assumes "tester_protocol_run P mem w"
  shows "sys_ok P w \<and> mem_ok mem \<and> coherent mem w \<and> tester_inv P mem (the_driver w)"
  using tester_run_good [OF tester_protocol_run_ruby [OF assms]] by (simp add: te_good_def good_def)

text \<open>A controller has allocated a line after the tester was constructed.\<close>

theorem system_stays_well_formed_witness:
  "\<exists>w. tester_protocol_run small_params zero_memory w \<and> cached 6 (the_cache w 0) 64 \<noteq> None
     \<and> sys_ok small_params w \<and> coherent zero_memory w \<and> tester_inv small_params zero_memory (the_driver w)"
proof -
  obtain w where w: "tester_protocol_run small_params zero_memory w" "cached 6 (the_cache w 0) 64 \<noteq> None"
    using small_allocate by blast
  show ?thesis using w system_stays_well_formed [OF w(1)] by blast
qed

text \<open>C35: the tester never cries wolf. In every reachable state each request that a sequencer still has to answer can
  be answered with the data of a coherent memory: no assertion of the sequencer or of the tester fails, the tester
  expects the callback and finds the bytes that it has stored. Afterwards exactly this request is no longer awaited.\<close>

theorem tester_accepts_every_answer:
  assumes "tester_run P mem w" "p < NUM_PROCESSORS P" "awaited (the_seq w p) r"
  shows "\<exists>mem' w'. answer_request P (te_hitCallback P) p r mem w = Inr (mem', w')
    \<and> (\<forall>r'. awaited (the_seq w' p) r' \<longleftrightarrow> awaited (the_seq w p) r' \<and> r' \<noteq> r)"
  using te_system.answer_ok [OF _ assms(2,3)] tester_run_good [OF assms(1)] unfolding te_good_def by blast

theorem tester_accepts_every_answer_witness:
  "\<exists>w mem p r mem' w'. tester_run small_params mem w \<and> awaited (the_seq w p) r
     \<and> answer_request small_params (te_hitCallback small_params) p r mem w = Inr (mem', w') \<and> \<not> awaited (the_seq w' p) r"
proof -
  obtain w mem p r where w: "tester_run small_params mem w" "p < NUM_PROCESSORS small_params" "awaited (the_seq w p) r"
    using small_run by blast
  show ?thesis using w tester_accepts_every_answer [OF w] by blast
qed

text \<open>C36: a wakeup of the tester fails only for want of progress. In every reachable state, if \<open>wakeup\<close> fails, it is with
  the error message of the deadlock check: the choice of the check and its action have succeeded, without any failed
  assertion or wrong byte, and in the state they lead to, at the same time, the last callback of some processor is longer
  ago than the threshold.\<close>

theorem tester_wakeup_errors:
  assumes "tester_run P mem w" "te_wakeup P w = Inl e"
  shows "e = Error_exit \<and> te_callback_counter (the_driver w) < TESTER_LENGTH P
    \<and> (\<exists>k w1 w2 t. getRandomCheck w = Inr (k, w1) \<and> initiate P k w1 = Inr w2 \<and> te_checkForDeadlock P w2 = Inl Error_exit
         \<and> w_time w2 = w_time w \<and> t \<in> set (te_last_progress_vector (the_driver w2)) \<and> w_time w - t > DEADLOCK_THRESHOLD P)"
proof -
  have g: "te_good P mem w" by (rule tester_run_good [OF assms(1)])
  then have "0 < NUM_PROCESSORS P" using te_goodD(3) by (auto simp: params_ok_def)
  from te_wakeup_cases [OF g this] assms(2) obtain k w1 w2 mem' where
    w2: "getRandomCheck w = Inr (k, w1)" "initiate P k w1 = Inr w2" "te_checkForDeadlock P w2 = Inl Error_exit"
      "te_callback_counter (the_driver w) < TESTER_LENGTH P" "te_step P mem w mem' w2" "te_wakeup P w = Inl Error_exit"
      "\<not> no_deadlock P (w_time w2) (te_last_progress_vector (the_driver w2))"
    by auto
  have "w_time w2 = w_time w" using w2(5) sched_reach_props te_goodD(2) [OF g] by (auto simp: te_step_def settled_def)
  moreover from this obtain t where "t \<in> set (te_last_progress_vector (the_driver w2))" "w_time w - t > DEADLOCK_THRESHOLD P"
    using w2(7) by (auto simp: no_deadlock_def not_le)
  moreover have "e = Error_exit" using w2(6) assms(2) by simp
  ultimately show ?thesis using w2(1-4) by blast
qed

text \<open>C37: every demand request is answered exactly once. A request that its sequencer is ready for and its check waits
  for either hits, and the tester gets its one callback now, or it joins the awaited requests and the tester gets no
  callback now. A request that is awaited is answered (\<open>answer_request\<close>: the callback of the sequencer) with exactly one
  callback of the tester, and afterwards it is not awaited any more, so it is not answered again. In both cases the
  other awaited requests, of this processor and of the others, stay as they are.\<close>

theorem requests_answered_once:
  assumes "te_good P mem w" "p < NUM_PROCESSORS P" "demand r"
  shows "(request_ok r \<and> rq_Time r \<le> w_time w \<and> sq_isReady P (the_seq w p) r \<and> tester_expects (the_driver w) p r \<longrightarrow>
      (\<exists>hit w'. doRequest P (te_hitCallback P) p r w = Inr (hit, w')
        \<and> te_callback_counter (the_driver w') = te_callback_counter (the_driver w) + (if hit then 1 else 0)
        \<and> (\<forall>r'. awaited (the_seq w' p) r' \<longleftrightarrow> awaited (the_seq w p) r' \<or> \<not> hit \<and> r' = r)
        \<and> (\<forall>q. q \<noteq> p \<longrightarrow> the_seq w' q = the_seq w q)))
    \<and> (awaited (the_seq w p) r \<longrightarrow>
      (\<exists>mem' w'. answer_request P (te_hitCallback P) p r mem w = Inr (mem', w')
        \<and> te_callback_counter (the_driver w') = te_callback_counter (the_driver w) + 1
        \<and> (\<forall>r'. awaited (the_seq w' p) r' \<longleftrightarrow> awaited (the_seq w p) r' \<and> r' \<noteq> r)
        \<and> (\<forall>q. q \<noteq> p \<longrightarrow> the_seq w' q = the_seq w q)))"
proof (intro conjI impI)
  assume a: "request_ok r \<and> rq_Time r \<le> w_time w \<and> sq_isReady P (the_seq w p) r \<and> tester_expects (the_driver w) p r"
  then have ready: "\<not> rmap_exist (request_table (rq_Type r) (the_seq w p)) (line_address (rq_Address r))"
    by (simp add: sq_isReady_def)
  obtain hit w' where d: "doRequest P (te_hitCallback P) p r w = Inr (hit, w')"
      "\<forall>r'. awaited (the_seq w' p) r' \<longleftrightarrow> awaited (the_seq w p) r' \<or> \<not> hit \<and> r' = r"
    using te.doRequest_ok [OF _ _ assms(2) _ _ ready] assms(1) a unfolding te_good_def by blast
  then show "\<exists>hit w'. doRequest P (te_hitCallback P) p r w = Inr (hit, w')
        \<and> te_callback_counter (the_driver w') = te_callback_counter (the_driver w) + (if hit then 1 else 0)
        \<and> (\<forall>r'. awaited (the_seq w' p) r' \<longleftrightarrow> awaited (the_seq w p) r' \<or> \<not> hit \<and> r' = r)
        \<and> (\<forall>q. q \<noteq> p \<longrightarrow> the_seq w' q = the_seq w q)"
    using doRequest_counted [OF d(1) assms(3)] doRequest_others [OF d(1)] by blast
next
  assume a: "awaited (the_seq w p) r"
  obtain mem' w' where d: "answer_request P (te_hitCallback P) p r mem w = Inr (mem', w')"
      "\<forall>r'. awaited (the_seq w' p) r' \<longleftrightarrow> awaited (the_seq w p) r' \<and> r' \<noteq> r"
    using te_system.answer_ok [OF _ assms(2) a] assms(1) unfolding te_good_def by blast
  then show "\<exists>mem' w'. answer_request P (te_hitCallback P) p r mem w = Inr (mem', w')
        \<and> te_callback_counter (the_driver w') = te_callback_counter (the_driver w) + 1
        \<and> (\<forall>r'. awaited (the_seq w' p) r' \<longleftrightarrow> awaited (the_seq w p) r' \<and> r' \<noteq> r)
        \<and> (\<forall>q. q \<noteq> p \<longrightarrow> the_seq w' q = the_seq w q)"
    using answer_counted [OF d(1) assms(1,2) a assms(3)] answer_others [OF d(1)] by blast
qed

text \<open>At time 1000 the two processors have made no progress since time 0.\<close>

theorem tester_wakeup_errors_witness:
  "\<exists>w k w1 w2 t. tester_run small_params zero_memory w \<and> te_wakeup small_params w = Inl Error_exit
     \<and> getRandomCheck w = Inr (k, w1) \<and> initiate small_params k w1 = Inr w2
     \<and> t \<in> set (te_last_progress_vector (the_driver w2)) \<and> w_time w - t > DEADLOCK_THRESHOLD small_params"
proof -
  obtain w w4 where w: "tester_run small_params zero_memory w" "te_last_progress_vector (the_driver w4) = [0, 0]" "w_time w4 = 1000"
      "te_wakeup small_params w = rbind (te_checkForDeadlock small_params w4) (\<lambda>_. scheduleEvent (Some driver_consumer) 2 w4)"
    using small_wakeup [of 1000] by auto
  have "te_checkForDeadlock small_params w4 \<noteq> Inr ()"
    unfolding te_checkForDeadlock_iff by (simp add: w(2,3) no_deadlock_def small_params_def)
  then obtain e where e: "te_wakeup small_params w = Inl e" using w(4) by (cases "te_checkForDeadlock small_params w4") auto
  show ?thesis using w(1) e tester_wakeup_errors [OF w(1) e] by blast
qed

text \<open>The store of the small system joins the awaited requests, and is answered with one callback.\<close>

theorem requests_answered_once_witness:
  "\<exists>w p r hit w1 w2 mem mem' w3. te_good small_params zero_memory w \<and> demand r
     \<and> doRequest small_params (te_hitCallback small_params) p r w = Inr (hit, w1)
     \<and> te_callback_counter (the_driver w1) = te_callback_counter (the_driver w) + (if hit then 1 else 0)
     \<and> awaited (the_seq w2 p) r \<and> answer_request small_params (te_hitCallback small_params) p r mem w2 = Inr (mem', w3)
     \<and> te_callback_counter (the_driver w3) = te_callback_counter (the_driver w2) + 1 \<and> \<not> awaited (the_seq w3 p) r"
proof -
  obtain w p r where s: "storing 1 w p r" using small_store [of 1 undefined] by auto
  then have w: "te_good small_params zero_memory w" "p < NUM_PROCESSORS small_params" "request_ok r" "demand r" "rq_Time r \<le> w_time w"
      "sq_isReady small_params (the_seq w p) r" "tester_expects (the_driver w) p r" unfolding storing_def by blast+
  obtain w2 mem where w2: "te_good small_params mem w2" "awaited (the_seq w2 p) r" using storing_misses [OF s] by blast
  obtain hit w1 where 1: "doRequest small_params (te_hitCallback small_params) p r w = Inr (hit, w1)"
    "te_callback_counter (the_driver w1) = te_callback_counter (the_driver w) + (if hit then 1 else 0)"
    using requests_answered_once [OF w(1,2,4), THEN conjunct1] w(3,5-7) by blast
  obtain mem' w3 where 2: "answer_request small_params (te_hitCallback small_params) p r mem w2 = Inr (mem', w3)"
    "te_callback_counter (the_driver w3) = te_callback_counter (the_driver w2) + 1" "\<not> awaited (the_seq w3 p) r"
    using requests_answered_once [OF w2(1) w(2,4), THEN conjunct2] w2(2) by blast
  show ?thesis by (intro exI conjI) (rule w(1) w(4) 1 2 w2(2))+
qed

end
