(* ===== verification/Loops.thy ===== *)
theory Loops
  imports Fes2_Prelude "HOL-Library.While_Combinator"
begin

text \<open>
  The \<open>while\<close> loop of a body that can fail, built on \<open>while_option\<close>: it stops at the first error, and
  its value is \<open>No_return\<close> exactly when the loop would go on for ever. Two rules: an invariant of the
  states that a returning loop passes through, and an invariant with a decreasing measure for a loop
  that returns without an error.
\<close>

definition rwhile :: "('s \<Rightarrow> bool) \<Rightarrow> ('s \<Rightarrow> 's result) \<Rightarrow> 's \<Rightarrow> 's result" where
  "rwhile b f s =
     (case while_option (\<lambda>r. case r of Inl e \<Rightarrow> False | Inr s \<Rightarrow> b s) (\<lambda>r. rbind r f) (Inr s) of
        None \<Rightarrow> Inl No_return
      | Some r \<Rightarrow> r)"

lemma rwhile_stop [simp]: "\<not> b s \<Longrightarrow> rwhile b f s = Inr s"
  by (simp add: rwhile_def while_option_unfold)

lemma rwhile_step: "b s \<Longrightarrow> f s = Inr s' \<Longrightarrow> rwhile b f s = rwhile b f s'"
  unfolding rwhile_def by (subst while_option_unfold) simp

lemma rwhile_fail: "b s \<Longrightarrow> f s = Inl e \<Longrightarrow> rwhile b f s = Inl e"
  by (simp add: rwhile_def while_option_unfold)

lemma rwhile_unfold: "rwhile b f s = (if b s then rbind (f s) (rwhile b f) else Inr s)"
  by (cases "f s") (auto simp: rwhile_step rwhile_fail)

lemma rwhile_invariant:
  assumes "rwhile b f s = Inr t" "P s" "\<And>x y. P x \<Longrightarrow> b x \<Longrightarrow> f x = Inr y \<Longrightarrow> P y"
  shows "P t \<and> \<not> b t"
proof -
  let ?b = "\<lambda>r. case r of Inl e \<Rightarrow> False | Inr s \<Rightarrow> b s"
  let ?P = "\<lambda>r :: 'a result. case r of Inl e \<Rightarrow> True | Inr s \<Rightarrow> P s"
  from assms(1) have w: "while_option ?b (\<lambda>r. rbind r f) (Inr s) = Some (Inr t)"
    by (auto simp: rwhile_def split: option.splits)
  have "?P (Inr t)"
  proof (rule while_option_rule [OF _ w])
    show "?P (rbind r f)" if "?P r" "?b r" for r
    proof (cases r)
      case (Inr x)
      then show ?thesis using that assms(3) [of x] by (cases "f x") auto
    qed (use that in simp)
  qed (simp add: assms(2))
  then show ?thesis using while_option_stop [OF w] by simp
qed

lemma rwhile_total:
  assumes "P s" "\<And>x. P x \<Longrightarrow> b x \<Longrightarrow> \<exists>y. f x = Inr y \<and> P y \<and> (m y :: nat) < m x"
  shows "\<exists>t. rwhile b f s = Inr t \<and> P t \<and> \<not> b t"
  using assms(1)
proof (induction "m s" arbitrary: s rule: less_induct)
  case less
  show ?case
  proof (cases "b s")
    case True
    then obtain y where y: "f s = Inr y" "P y" "m y < m s" using assms(2) less(2) by blast
    from less(1) [OF y(3,2)] show ?thesis by (simp add: rwhile_step [of b s f y] True y(1))
  next
    case False
    then show ?thesis using less(2) by simp
  qed
qed

end
