(* ===== verification/Histogram.thy ===== *)
theory Histogram
  imports Vector Loops SignedInts
begin

text \<open>
  Histograms of samples, ruby/common/Histogram.C. A linear histogram doubles the size of its bins when a sample does
  not fit, and adds pairs of neighbouring bins. The products with the bin size are of type \<open>int\<close>, whose overflow is
  undefined. The two sums are of type \<open>int64\<close> and wrap; the counts of samples are not bounded. The lemmas show that bin \<open>i\<close> always counts the samples between \<open>i\<close> and \<open>i + 1\<close> times the bin size.
  The index in a logarithmic histogram, a floating-point computation, is the argument \<open>log_index\<close>.
\<close>

record histogram =
  hi_data :: "int list"
  hi_max :: int
  hi_count :: int
  hi_binsize :: int
  hi_bins :: nat
  hi_largest_bin :: int
  hi_sumSamples :: int
  hi_sumSquaredSamples :: int

section \<open>Operations\<close>

text \<open>The result of an operation on \<open>int\<close>.\<close>

definition i32 :: "int \<Rightarrow> int result" where
  "i32 x = check (- (2 ^ 31) \<le> x \<and> x < 2 ^ 31) Undefined (Inr x)"

definition h_clear :: "nat \<Rightarrow> histogram \<Rightarrow> histogram" where
  "h_clear bins h =
     h\<lparr>hi_bins := bins, hi_largest_bin := 0, hi_max := 0, hi_data := replicate bins 0, hi_count := 0,
       hi_sumSamples := 0, hi_sumSquaredSamples := 0\<rparr>"

definition Histogram :: "int \<Rightarrow> nat \<Rightarrow> histogram" where
  "Histogram binsize bins =
     h_clear bins \<lparr>hi_data = [], hi_max = 0, hi_count = 0, hi_binsize = binsize, hi_bins = bins, hi_largest_bin = 0,
       hi_sumSamples = 0, hi_sumSquaredSamples = 0\<rparr>"

definition h_size :: "histogram \<Rightarrow> int" where
  "h_size h = hi_count h"

definition getTotal :: "histogram \<Rightarrow> int" where
  "getTotal h = hi_sumSamples h"

definition h_less_then_eq :: "histogram \<Rightarrow> histogram \<Rightarrow> bool" where
  "h_less_then_eq n1 n2 \<longleftrightarrow> h_size n1 > h_size n2"

text \<open>The two loops over the bins, and the bin size.\<close>

definition halve :: "nat \<Rightarrow> int list \<Rightarrow> int list result" where
  "halve bins data =
     rbind (rfold (\<lambda>i d. rbind (lref (i * 2) d) (\<lambda>x. rbind (lref (i * 2 + 1) d) (\<lambda>y. lput i (x + y) d)))
              [0..<bins div 2] data)
       (rfold (\<lambda>i d. lput i 0 d) [bins div 2..<bins])"

definition full_size :: "histogram \<Rightarrow> int result" where
  "full_size h = i32 (int (hi_bins h) * hi_binsize h)"

definition rebin :: "histogram \<Rightarrow> histogram result" where
  "rebin h =
     rbind (halve (hi_bins h) (hi_data h)) (\<lambda>d.
     rbind (i32 (hi_binsize h * 2)) (\<lambda>b. Inr (h\<lparr>hi_data := d, hi_binsize := b\<rparr>)))"

text \<open>The condition of the loop is computed before each round: \<open>full_size\<close> fails when it overflows.\<close>

definition grow_bins :: "histogram \<Rightarrow> histogram result" where
  "grow_bins h =
     rbind (full_size h) (\<lambda>_.
     rwhile (\<lambda>h. hi_max h \<ge> int (hi_bins h) * hi_binsize h)
       (\<lambda>h. rbind (rebin h) (\<lambda>h'. rbind (full_size h') (\<lambda>_. Inr h'))) h)"

definition h_add :: "(int \<Rightarrow> int) \<Rightarrow> int \<Rightarrow> histogram \<Rightarrow> histogram result" where
  "h_add log_index value h =
     check (value \<ge> 0) Assert_failed (
     let h1 = h\<lparr>hi_max := max (hi_max h) value, hi_count := hi_count h + 1, hi_sumSamples := wrap64 (hi_sumSamples h + value),
                hi_sumSquaredSamples := wrap64 (hi_sumSquaredSamples h + value * value)\<rparr>
     in rbind (if hi_binsize h1 = -1 then Inr (if value = 0 then 0 else log_index value, h1)
               else rbind (grow_bins h1) (\<lambda>h2. Inr (value div hi_binsize h2, h2))) (\<lambda>(index, h2).
        check (index \<ge> 0) Assert_failed (
        rbind (lref (nat index) (hi_data h2)) (\<lambda>x.
        rbind (lput (nat index) (x + 1) (hi_data h2)) (\<lambda>d.
        Inr (h2\<lparr>hi_data := d, hi_largest_bin := max (hi_largest_bin h2) index\<rparr>))))))"

section \<open>Adding neighbouring bins\<close>

definition halved :: "nat \<Rightarrow> int list \<Rightarrow> int list" where
  "halved bins data = map (\<lambda>i. if i < bins div 2 then data ! (2 * i) + data ! (2 * i + 1) else 0) [0..<bins]"

lemma length_halved [simp]: "length (halved bins data) = bins"
  by (simp add: halved_def)

lemma halve_ok:
  assumes "length data = bins"
  shows "halve bins data = Inr (halved bins data)"
proof -
  let ?f = "\<lambda>i d. rbind (lref (i * 2) d) (\<lambda>x. rbind (lref (i * 2 + 1) d) (\<lambda>y. lput i (x + y) d))"
  let ?g = "\<lambda>k i. if i < k then data ! (2 * i) + data ! (2 * i + 1) else data ! i"
  have pairs: "rfold ?f [0..<k] data = Inr (map (?g k) [0..<bins])" if "k \<le> bins div 2" for k
    using that
  proof (induction k)
    case 0
    have "map (?g 0) [0..<bins] = data" using assms by (intro nth_equalityI) auto
    then show ?case by simp
  next
    case (Suc k)
    have k: "k * 2 < bins" "k * 2 + 1 < bins" "k < bins" using Suc.prems by linarith+
    have "(map (?g k) [0..<bins])[k := data ! (2 * k) + data ! (2 * k + 1)] = map (?g (Suc k)) [0..<bins]"
      using k by (intro nth_equalityI) (auto simp: nth_list_update less_Suc_eq)
    moreover have "?g k (k * 2) = data ! (2 * k)" "?g k (k * 2 + 1) = data ! (2 * k + 1)" by (auto simp: mult.commute)
    ultimately show ?case using Suc k by (simp add: rfold_append)
  qed
  let ?h = "\<lambda>k i. if i < bins div 2 then data ! (2 * i) + data ! (2 * i + 1) else if i < k then 0 else data ! i"
  let ?m = "bins div 2"
  have zeros: "rfold (\<lambda>i d. lput i 0 d) [?m..<?m + k] (map (?g ?m) [0..<bins]) = Inr (map (?h (?m + k)) [0..<bins])"
    if "?m + k \<le> bins" for k
    using that
  proof (induction k)
    case 0
    have "map (?g ?m) [0..<bins] = map (?h (?m + 0)) [0..<bins]" by auto
    then show ?case by simp
  next
    case (Suc k)
    have "(map (?h (?m + k)) [0..<bins])[?m + k := 0] = map (?h (?m + Suc k)) [0..<bins]"
      using Suc.prems by (intro nth_equalityI) (auto simp: nth_list_update less_Suc_eq)
    then show ?case using Suc by (simp add: rfold_append)
  qed
  have e: "?m + (bins - ?m) = bins" by simp
  have "map (?h (?m + (bins - ?m))) [0..<bins] = halved bins data" unfolding e by (simp add: halved_def)
  then show ?thesis using pairs [of ?m] zeros [of "bins - ?m"] by (simp add: halve_def)
qed

section \<open>Counting samples\<close>

definition in_bin :: "int \<Rightarrow> nat \<Rightarrow> int list \<Rightarrow> int" where
  "in_bin binsize i xs = int (length (filter (\<lambda>v. v div binsize = int i) xs))"

text \<open>The bins have counted the samples \<open>xs\<close>.\<close>

definition binned :: "int list \<Rightarrow> histogram \<Rightarrow> bool" where
  "binned xs h \<longleftrightarrow> 0 < hi_binsize h \<and> 0 < hi_bins h \<and> even (hi_bins h) \<and> int (hi_bins h) * hi_binsize h < 2 ^ 31
     \<and> hi_data h = map (\<lambda>i. in_bin (hi_binsize h) i xs) [0..<hi_bins h]
     \<and> (\<forall>v \<in> set xs. 0 \<le> v \<and> v < int (hi_bins h) * hi_binsize h \<and> v div hi_binsize h \<le> hi_largest_bin h)"

definition counts_samples :: "int list \<Rightarrow> histogram \<Rightarrow> bool" where
  "counts_samples xs h \<longleftrightarrow> binned xs h \<and> hi_count h = int (length xs) \<and> hi_sumSamples h = wrap64 (sum_list xs)
     \<and> hi_sumSquaredSamples h = wrap64 (sum_list (map (\<lambda>v. v * v) xs)) \<and> hi_max h = foldr max xs 0 \<and> (\<forall>v \<in> set xs. v < 2 ^ 30)"

lemma in_bin_double:
  assumes "\<forall>v \<in> set xs. 0 \<le> v" "0 < b"
  shows "in_bin (b * 2) i xs = in_bin b (2 * i) xs + in_bin b (2 * i + 1) xs"
proof -
  have "v div (b * 2) = int i \<longleftrightarrow> v div b = int (2 * i) \<or> v div b = int (2 * i + 1)" for v
  proof -
    have "v div (b * 2) = v div b div 2" using assms(2) by (simp add: zdiv_zmult2_eq)
    then show ?thesis by auto
  qed
  then show ?thesis unfolding in_bin_def by (induction xs) auto
qed

lemma in_bin_empty:
  assumes "\<forall>v \<in> set xs. v div b < int i"
  shows "in_bin b i xs = 0"
  using assms by (auto simp: in_bin_def filter_empty_conv)

lemma div_below: "v < n * b \<Longrightarrow> 0 < b \<Longrightarrow> v div b < n" for v n b :: int
  by (rule ccontr) (use pos_mod_sign [of b v] mult_right_mono [of n "v div b" b] div_mult_mod_eq [of v b] in linarith)

lemma halved_bins:
  assumes "binned xs h"
  shows "halved (hi_bins h) (hi_data h) = map (\<lambda>i. in_bin (hi_binsize h * 2) i xs) [0..<hi_bins h]"
proof (rule nth_equalityI)
  fix i assume "i < length (halved (hi_bins h) (hi_data h))"
  then have i: "i < hi_bins h" by simp
  have h: "0 < hi_binsize h" "even (hi_bins h)" "\<forall>v \<in> set xs. 0 \<le> v" "\<forall>v \<in> set xs. v < int (hi_bins h) * hi_binsize h"
    "hi_data h = map (\<lambda>i. in_bin (hi_binsize h) i xs) [0..<hi_bins h]"
    using assms by (auto simp: binned_def)
  obtain m where m: "hi_bins h = 2 * m" using h(2) by blast
  have "v div (hi_binsize h * 2) < int (hi_bins h div 2)" if "v \<in> set xs" for v
    using h(1,4) that by (intro div_below) (auto simp: m mult.commute mult.left_commute)
  then have "in_bin (hi_binsize h * 2) i xs = 0" if "hi_bins h div 2 \<le> i"
    using that by (intro in_bin_empty) fastforce
  moreover have "2 * i + 1 < hi_bins h" if "i < hi_bins h div 2" using that by linarith
  ultimately show "halved (hi_bins h) (hi_data h) ! i = map (\<lambda>i. in_bin (hi_binsize h * 2) i xs) [0..<hi_bins h] ! i"
    using i in_bin_double [OF h(3,1), of i] by (cases "i < hi_bins h div 2") (simp_all add: halved_def h(5))
qed simp

lemma rebin_ok:
  assumes "binned xs h" "int (hi_bins h) * hi_binsize h \<le> hi_max h" "hi_max h < 2 ^ 30"
  shows "\<exists>h'. rebin h = Inr h' \<and> full_size h' = Inr (int (hi_bins h') * hi_binsize h') \<and> binned xs h'
    \<and> (\<exists>d. h' = h\<lparr>hi_data := d, hi_binsize := hi_binsize h * 2\<rparr>)"
proof -
  let ?n = "int (hi_bins h)" and ?b = "hi_binsize h"
  let ?h' = "h\<lparr>hi_data := halved (hi_bins h) (hi_data h), hi_binsize := ?b * 2\<rparr>"
  have h: "0 < ?b" "0 < hi_bins h" "even (hi_bins h)" "length (hi_data h) = hi_bins h"
    "\<forall>v \<in> set xs. 0 \<le> v \<and> v < ?n * ?b \<and> v div ?b \<le> hi_largest_bin h"
    using assms(1) by (auto simp: binned_def)
  have "1 * ?b \<le> ?n * ?b" by (rule mult_right_mono) (use h(1,2) in simp_all)
  moreover have "?n * (?b * 2) = 2 * (?n * ?b)" by simp
  moreover have "(2 :: int) ^ 31 = 2 * 2 ^ 30" by simp
  ultimately have b: "?b * 2 < 2 ^ 31" "?n * (?b * 2) < 2 ^ 31" "0 \<le> ?n * (?b * 2)" using assms(2,3) h(1) by linarith+
  have "v div (?b * 2) \<le> hi_largest_bin h" if "v \<in> set xs" for v
  proof -
    have v: "0 \<le> v div ?b" "v div ?b \<le> hi_largest_bin h" using h(1,5) that by (auto simp: pos_imp_zdiv_nonneg_iff)
    have "v div (?b * 2) = v div ?b div 2" using h(1) by (simp add: zdiv_zmult2_eq)
    then show ?thesis using v by linarith
  qed
  moreover have "v < ?n * (?b * 2)" if "v \<in> set xs" for v
  proof -
    have "0 \<le> v" "v < ?n * ?b" using h(5) that by auto
    then show ?thesis by simp
  qed
  ultimately have "binned xs ?h'" using h b halved_bins [OF assms(1)] by (simp add: binned_def)
  moreover have "rebin h = Inr ?h'" using b(1) h(1) by (simp add: rebin_def halve_ok [OF h(4)] i32_def)
  moreover have "full_size ?h' = Inr (int (hi_bins ?h') * hi_binsize ?h')" using b(2,3) by (simp add: full_size_def i32_def)
  ultimately show ?thesis by blast
qed

lemma grow_bins_ok:
  assumes "binned xs h" "hi_max h < 2 ^ 30"
  shows "\<exists>h'. grow_bins h = Inr h' \<and> binned xs h' \<and> hi_max h < int (hi_bins h') * hi_binsize h'
    \<and> (\<exists>d b. h' = h\<lparr>hi_data := d, hi_binsize := b\<rparr>)"
proof -
  let ?P = "\<lambda>h'. binned xs h' \<and> (\<exists>d b. h' = h\<lparr>hi_data := d, hi_binsize := b\<rparr>)"
  let ?b = "\<lambda>h. hi_max h \<ge> int (hi_bins h) * hi_binsize h"
  have "\<exists>t. rwhile ?b (\<lambda>h. rbind (rebin h) (\<lambda>h'. rbind (full_size h') (\<lambda>_. Inr h'))) h = Inr t \<and> ?P t \<and> \<not> ?b t"
  proof (rule rwhile_total [where s = h and P = ?P and m = "\<lambda>h'. nat (hi_max h + 1 - int (hi_bins h) * hi_binsize h')"])
    have "h = h\<lparr>hi_data := hi_data h, hi_binsize := hi_binsize h\<rparr>" by simp
    then show "?P h" using assms(1) by blast
    fix x assume P: "?P x" and b: "?b x"
    have x: "hi_max x = hi_max h" "hi_bins x = hi_bins h" using P by auto
    obtain y where y: "rebin x = Inr y" "full_size y = Inr (int (hi_bins y) * hi_binsize y)" "binned xs y"
        "\<exists>d. y = x\<lparr>hi_data := d, hi_binsize := hi_binsize x * 2\<rparr>"
      using rebin_ok [of xs x] P b assms(2) x(1) by metis
    have yb: "hi_binsize y = hi_binsize x * 2" using y(4) by auto
    have pos: "0 < int (hi_bins h) * hi_binsize x" using P x(2) by (simp add: binned_def)
    obtain d d' b where "x = h\<lparr>hi_data := d, hi_binsize := b\<rparr>" "y = x\<lparr>hi_data := d', hi_binsize := hi_binsize x * 2\<rparr>"
      using y(4) P by blast
    then have "y = h\<lparr>hi_data := d', hi_binsize := b * 2\<rparr>" by simp
    then have "?P y" using y(3) by blast
    moreover have "nat (hi_max h + 1 - int (hi_bins h) * hi_binsize y) < nat (hi_max h + 1 - int (hi_bins h) * hi_binsize x)"
      using pos b x by (simp add: yb mult.commute)
    ultimately show "\<exists>y. rbind (rebin x) (\<lambda>h'. rbind (full_size h') (\<lambda>_. Inr h')) = Inr y \<and> ?P y
        \<and> nat (hi_max h + 1 - int (hi_bins h) * hi_binsize y) < nat (hi_max h + 1 - int (hi_bins h) * hi_binsize x)"
      using y(1,2) by auto
  qed
  then obtain t where t: "rwhile ?b (\<lambda>h. rbind (rebin h) (\<lambda>h'. rbind (full_size h') (\<lambda>_. Inr h'))) h = Inr t" "?P t" "\<not> ?b t" by blast
  have "full_size h = Inr (int (hi_bins h) * hi_binsize h)"
  proof -
    have "0 \<le> int (hi_bins h) * hi_binsize h" "int (hi_bins h) * hi_binsize h < 2 ^ 31" using assms(1) by (auto simp: binned_def)
    then show ?thesis by (simp add: full_size_def i32_def)
  qed
  moreover have "hi_max t = hi_max h" using t(2) by auto
  ultimately show ?thesis using t by (intro exI [of _ t]) (auto simp: grow_bins_def)
qed

lemma h_add_ok:
  assumes "counts_samples xs h" "0 \<le> v" "v < 2 ^ 30"
  shows "\<exists>h'. h_add log_index v h = Inr h' \<and> counts_samples (v # xs) h' \<and> hi_bins h' = hi_bins h"
proof -
  define h1 where "h1 = h\<lparr>hi_max := max (hi_max h) v, hi_count := hi_count h + 1, hi_sumSamples := wrap64 (hi_sumSamples h + v),
                hi_sumSquaredSamples := wrap64 (hi_sumSquaredSamples h + v * v)\<rparr>"
  have c: "binned xs h" "hi_count h = int (length xs)" "hi_sumSamples h = wrap64 (sum_list xs)"
    "hi_sumSquaredSamples h = wrap64 (sum_list (map (\<lambda>v. v * v) xs))" "hi_max h = foldr max xs 0" "\<forall>v \<in> set xs. v < 2 ^ 30"
    using assms(1) by (simp_all add: counts_samples_def)
  have "foldr max xs 0 < (2 ^ 30 :: int)" using c(6) by (induction xs) auto
  then have "hi_max h1 < 2 ^ 30" using assms(3) c(5) by (simp add: h1_def)
  moreover have "binned xs h1" using c(1) by (simp add: binned_def h1_def)
  ultimately obtain h2 where h2: "grow_bins h1 = Inr h2" "binned xs h2" "hi_max h1 < int (hi_bins h2) * hi_binsize h2"
      "\<exists>d b. h2 = h1\<lparr>hi_data := d, hi_binsize := b\<rparr>" using grow_bins_ok [of xs h1] by blast
  have pos: "0 < hi_binsize h2" "length (hi_data h2) = hi_bins h2" using h2(2) by (auto simp: binned_def)
  define i where "i = nat (v div hi_binsize h2)"
  have below: "v < int (hi_bins h2) * hi_binsize h2" using h2(3) by (simp add: h1_def)
  have i: "v div hi_binsize h2 = int i" using assms(2) pos(1) by (simp add: i_def pos_imp_zdiv_nonneg_iff)
  then have i: "v div hi_binsize h2 = int i" "i < hi_bins h2" using div_below [OF below pos(1)] by simp_all
  define h3 where "h3 = h2\<lparr>hi_data := (hi_data h2)[i := hi_data h2 ! i + 1], hi_largest_bin := max (hi_largest_bin h2) (int i)\<rparr>"
  have "hi_binsize h1 \<noteq> -1" using c(1) by (auto simp: binned_def h1_def)
  then have run: "h_add log_index v h = Inr h3"
    using assms(2) h2(1) i pos(2) unfolding h_add_def h1_def [symmetric] Let_def by (simp add: h3_def)
  have "hi_data h3 = map (\<lambda>j. in_bin (hi_binsize h2) j (v # xs)) [0..<hi_bins h2]"
    using i h2(2) by (intro nth_equalityI) (auto simp: h3_def binned_def nth_list_update in_bin_def)
  then have "binned (v # xs) h3" using h2(2) assms(2) below i(1) by (auto simp: binned_def h3_def)
  moreover have "hi_count h2 = hi_count h + 1" "hi_sumSamples h2 = wrap64 (sum_list xs + v)" "hi_max h2 = max (hi_max h) v"
      "hi_sumSquaredSamples h2 = wrap64 (sum_list (map (\<lambda>v. v * v) xs) + v * v)" "hi_bins h2 = hi_bins h"
    using h2(4) c(3,4) by (auto simp: h1_def wrap64_add)
  ultimately have "counts_samples (v # xs) h3" "hi_bins h3 = hi_bins h" using c assms(3)
    by (simp_all add: counts_samples_def h3_def max.commute add.commute)
  then show ?thesis using run by blast
qed

lemma Histogram_ok:
  assumes "0 < binsize" "0 < bins" "even bins" "int bins * binsize < 2 ^ 31"
  shows "counts_samples [] (Histogram binsize bins)"
  using assms by (simp add: counts_samples_def binned_def Histogram_def h_clear_def in_bin_def map_replicate_const)

lemma clear_ok:
  assumes "counts_samples xs h"
  shows "counts_samples [] (h_clear (hi_bins h) h)"
  using assms by (simp add: counts_samples_def binned_def h_clear_def in_bin_def map_replicate_const)

end
