(* ===== verification/SyntheticDriver.thy ===== *)
theory SyntheticDriver
  imports RubySystem Histogram
begin

text \<open>
  The synthetic driver, ruby/tester/SyntheticDriver.C and RequestGenerator.C. The request generator of each processor
  acquires and releases locks: it tests a lock with a load until the lock looks free, swaps it with an atomic
  request, holds it for a while, and releases it with a store. A pointer to a generator is its processor.
\<close>

section \<open>State\<close>

datatype request_generator_status =
  RequestGeneratorStatus_Thinking | RequestGeneratorStatus_Test_Pending | RequestGeneratorStatus_Before_Swap
  | RequestGeneratorStatus_Swap_Pending | RequestGeneratorStatus_Holding | RequestGeneratorStatus_Release_Pending
  | RequestGeneratorStatus_Done

definition LockStatus_Unlocked :: byte where
  "LockStatus_Unlocked = 0"

definition LockStatus_Locked :: byte where
  "LockStatus_Locked = 1"

record request_generator =
  rg_node :: nat
  rg_status :: request_generator_status
  rg_counter :: int
  rg_last_transition :: int
  rg_address :: address

record synthetic =
  sy_last_progress_vector :: "int list"
  sy_request_generator_vector :: "request_generator list"
  sy_lock_vector :: "int list"
  sy_done_counter :: int
  sy_test_latency :: histogram
  sy_swap_latency :: histogram
  sy_release_latency :: histogram
  sy_finish_time :: int

type_synonym synthetic_world = "synthetic ruby"

definition the_generator :: "synthetic_world \<Rightarrow> nat \<Rightarrow> request_generator result" where
  "the_generator w k = lref k (sy_request_generator_vector (the_driver w))"

definition set_generator :: "nat \<Rightarrow> request_generator \<Rightarrow> synthetic_world \<Rightarrow> synthetic_world" where
  "set_generator k g w =
     (let h = the_driver w in set_driver (h\<lparr>sy_request_generator_vector := (sy_request_generator_vector h)[k := g]\<rparr>) w)"

section \<open>The driver's services\<close>

text \<open>The loop of \<open>pickAddress\<close>: at most eleven random locks, until one that \<open>node\<close> was not the last to acquire.\<close>

function pick_lock :: "nat \<Rightarrow> int list \<Rightarrow> nat \<Rightarrow> 'h ruby \<Rightarrow> (nat \<times> 'h ruby) result" where
  "pick_lock node locks counter w =
     (let (r, w1) = random_draw w; lock_number = r mod length locks
      in rbind (lref lock_number locks) (\<lambda>last.
         if last \<noteq> int node then Inr (lock_number, w1)
         else if counter + 1 > 10 then Inr (lock_number, w1)
         else pick_lock node locks (counter + 1) w1))"
  by pat_completeness auto
termination by (relation "measure (\<lambda>(node, locks, counter, w). 11 - counter)") auto

declare pick_lock.simps [simp del]

definition sy_pickAddress :: "ruby_params \<Rightarrow> nat \<Rightarrow> synthetic_world \<Rightarrow> (address \<times> synthetic_world) result" where
  "sy_pickAddress P node w =
     (let h = the_driver w; locks = sy_lock_vector h
      in check (length locks \<noteq> 0) Undefined (
         rbind (pick_lock node locks 0 w) (\<lambda>(lock_number, w1).
         rbind (lput lock_number (int node) locks) (\<lambda>l.
         Inr (of_nat (lock_number * (if 1 < BLOCK_BITS P then 1 else 0)), set_driver (h\<lparr>sy_lock_vector := l\<rparr>) w1)))))"

definition reportDone :: "ruby_params \<Rightarrow> synthetic_world \<Rightarrow> synthetic_world" where
  "reportDone P w =
     (let h = the_driver w; n = sy_done_counter h + 1; h1 = h\<lparr>sy_done_counter := n\<rparr>
      in set_driver (if n = int (NUM_PROCESSORS P) then h1\<lparr>sy_finish_time := w_time w\<rparr> else h1) w)"

text \<open>The histograms of the driver are linear, so they need no logarithm.\<close>

definition recordTestLatency :: "int \<Rightarrow> synthetic_world \<Rightarrow> synthetic_world result" where
  "recordTestLatency time w =
     rbind (h_add undefined time (sy_test_latency (the_driver w))) (\<lambda>x. Inr (set_driver ((the_driver w)\<lparr>sy_test_latency := x\<rparr>) w))"

definition recordSwapLatency :: "int \<Rightarrow> synthetic_world \<Rightarrow> synthetic_world result" where
  "recordSwapLatency time w =
     rbind (h_add undefined time (sy_swap_latency (the_driver w))) (\<lambda>x. Inr (set_driver ((the_driver w)\<lparr>sy_swap_latency := x\<rparr>) w))"

definition recordReleaseLatency :: "int \<Rightarrow> synthetic_world \<Rightarrow> synthetic_world result" where
  "recordReleaseLatency time w =
     rbind (h_add undefined time (sy_release_latency (the_driver w))) (\<lambda>x. Inr (set_driver ((the_driver w)\<lparr>sy_release_latency := x\<rparr>) w))"

section \<open>Request generators\<close>

definition rg_pickAddress :: "ruby_params \<Rightarrow> nat \<Rightarrow> synthetic_world \<Rightarrow> synthetic_world result" where
  "rg_pickAddress P k w =
     rbind (the_generator w k) (\<lambda>g.
     check (rg_status g = RequestGeneratorStatus_Thinking) Assert_failed (
     rbind (sy_pickAddress P (rg_node g) w) (\<lambda>(a, w1). Inr (set_generator k (g\<lparr>rg_address := a\<rparr>) w1))))"

text \<open>A generator enters a new state, and schedules its next wakeup.\<close>

definition rg_enter :: "nat \<Rightarrow> request_generator_status \<Rightarrow> synthetic_world \<Rightarrow> synthetic_world result" where
  "rg_enter k s w =
     rbind (the_generator w k) (\<lambda>g. Inr (set_generator k (g\<lparr>rg_status := s, rg_last_transition := w_time w\<rparr>) w))"

definition rg_sleep :: "nat \<Rightarrow> int \<Rightarrow> synthetic_world \<Rightarrow> synthetic_world result" where
  "rg_sleep k delay w = scheduleEvent (Some (generator_consumer k)) delay w"

definition rg_tested :: "ruby_params \<Rightarrow> nat \<Rightarrow> request_generator \<Rightarrow> sub_block \<Rightarrow> synthetic_world
    \<Rightarrow> (sub_block \<times> synthetic_world) result" where
  "rg_tested P k g data w =
     rbind (readByte data) (\<lambda>b.
     if b = LockStatus_Locked then
       rbind (rg_enter k RequestGeneratorStatus_Thinking w) (\<lambda>w1.
       rbind (rg_sleep k (WAIT_TIME P) w1) (\<lambda>w2. Inr (data, w2)))
     else
       rbind (recordTestLatency (w_time w - rg_last_transition g) w) (\<lambda>w1.
       rbind (rg_enter k RequestGeneratorStatus_Before_Swap w1) (\<lambda>w2.
       rbind (rg_sleep k (WAIT_TIME P) w2) (\<lambda>w3. Inr (data, w3)))))"

definition rg_swapped :: "ruby_params \<Rightarrow> nat \<Rightarrow> request_generator \<Rightarrow> sub_block \<Rightarrow> synthetic_world
    \<Rightarrow> (sub_block \<times> synthetic_world) result" where
  "rg_swapped P k g data w =
     rbind (recordSwapLatency (w_time w - rg_last_transition g) w) (\<lambda>w1.
     rbind (readByte data) (\<lambda>b.
     if b = LockStatus_Locked then
       rbind (rg_enter k RequestGeneratorStatus_Thinking w1) (\<lambda>w2.
       rbind (rg_sleep k (WAIT_TIME P) w2) (\<lambda>w3. Inr (data, w3)))
     else
       rbind (writeByte LockStatus_Locked data) (\<lambda>data'.
       rbind (rg_enter k RequestGeneratorStatus_Holding w1) (\<lambda>w2.
       rbind (rg_sleep k (HOLD_TIME P) w2) (\<lambda>w3. Inr (data', w3))))))"

definition rg_released :: "ruby_params \<Rightarrow> nat \<Rightarrow> request_generator \<Rightarrow> sub_block \<Rightarrow> synthetic_world
    \<Rightarrow> (sub_block \<times> synthetic_world) result" where
  "rg_released P k g data w =
     rbind (recordReleaseLatency (w_time w - rg_last_transition g) w) (\<lambda>w1.
     rbind (writeByte LockStatus_Unlocked data) (\<lambda>data'.
     let counter = rg_counter g + 1; w2 = set_generator k (g\<lparr>rg_counter := counter\<rparr>) w1
     in if counter < TESTER_LENGTH P then
          rbind (rg_enter k RequestGeneratorStatus_Thinking w2) (\<lambda>w3.
          rbind (rg_pickAddress P k w3) (\<lambda>w4.
          rbind (rg_sleep k (THINK_TIME P) w4) (\<lambda>w5. Inr (data', w5))))
        else
          rbind (rg_enter k RequestGeneratorStatus_Done (reportDone P w2)) (\<lambda>w3. Inr (data', w3))))"

definition rg_performCallback :: "ruby_params \<Rightarrow> nat \<Rightarrow> nat \<Rightarrow> sub_block \<Rightarrow> synthetic_world
    \<Rightarrow> (sub_block \<times> synthetic_world) result" where
  "rg_performCallback P k proc data w =
     rbind (the_generator w k) (\<lambda>g.
     check (proc = rg_node g) Assert_failed (
     check (sb_address data = rg_address g) Assert_failed (
     if rg_status g = RequestGeneratorStatus_Test_Pending then rg_tested P k g data w
     else if rg_status g = RequestGeneratorStatus_Swap_Pending then rg_swapped P k g data w
     else if rg_status g = RequestGeneratorStatus_Release_Pending then rg_released P k g data w
     else Inl Error_exit)))"

definition sy_hitCallback :: "ruby_params \<Rightarrow> synthetic driver" where
  "sy_hitCallback P proc data w =
     rbind (rg_performCallback P proc proc data w) (\<lambda>(data', w1).
     rbind (lput proc (w_time w1) (sy_last_progress_vector (the_driver w1))) (\<lambda>v.
     Inr (data', set_driver ((the_driver w1)\<lparr>sy_last_progress_vector := v\<rparr>) w1)))"

text \<open>\<open>initiateTest\<close>, \<open>initiateSwap\<close> and \<open>initiateRelease\<close> differ in the type of the request and its program counter.\<close>

definition rg_initiate :: "ruby_params \<Rightarrow> nat \<Rightarrow> cache_request_type \<Rightarrow> address \<Rightarrow> synthetic_world \<Rightarrow> synthetic_world result" where
  "rg_initiate P k type pc w =
     rbind (the_generator w k) (\<lambda>g.
     makeRequest P (sy_hitCallback P) (rg_node g) (CacheMsg (rg_address g) type pc AccessModeType_UserMode 1 PrefetchBit_No w) w)"

definition initiateTest :: "ruby_params \<Rightarrow> nat \<Rightarrow> synthetic_world \<Rightarrow> synthetic_world result" where
  "initiateTest P k w = rg_initiate P k CacheRequestType_LD 1 w"

definition initiateSwap :: "ruby_params \<Rightarrow> nat \<Rightarrow> synthetic_world \<Rightarrow> synthetic_world result" where
  "initiateSwap P k w = rg_initiate P k CacheRequestType_ATOMIC 2 w"

definition initiateRelease :: "ruby_params \<Rightarrow> nat \<Rightarrow> synthetic_world \<Rightarrow> synthetic_world result" where
  "initiateRelease P k w = rg_initiate P k CacheRequestType_ST 3 w"

definition rg_wakeup :: "ruby_params \<Rightarrow> nat \<Rightarrow> synthetic_world \<Rightarrow> synthetic_world result" where
  "rg_wakeup P k w =
     rbind (the_generator w k) (\<lambda>g.
     if rg_status g = RequestGeneratorStatus_Thinking then
       rbind (rg_enter k RequestGeneratorStatus_Test_Pending w) (initiateTest P k)
     else if rg_status g = RequestGeneratorStatus_Holding then
       rbind (rg_enter k RequestGeneratorStatus_Release_Pending w) (initiateRelease P k)
     else if rg_status g = RequestGeneratorStatus_Before_Swap then
       rbind (rg_enter k RequestGeneratorStatus_Swap_Pending w) (initiateSwap P k)
     else Inl Error_exit)"

text \<open>The constructor of a generator adds it to the vector of the driver.\<close>

definition RequestGenerator :: "ruby_params \<Rightarrow> nat \<Rightarrow> synthetic_world \<Rightarrow> synthetic_world result" where
  "RequestGenerator P node w =
     rbind (sy_pickAddress P node w) (\<lambda>(a, w1).
     let g = \<lparr>rg_node = node, rg_status = RequestGeneratorStatus_Thinking, rg_counter = 0, rg_last_transition = 0, rg_address = a\<rparr>;
         (r, w2) = random_draw w1
     in rbind (rg_sleep node (1 + int (r mod 200)) w2) (\<lambda>w3.
        let h = the_driver w3
        in Inr (set_driver (h\<lparr>sy_request_generator_vector := sy_request_generator_vector h @ [g]\<rparr>) w3)))"

section \<open>The driver\<close>

definition sy_wakeup :: "ruby_params \<Rightarrow> synthetic_world \<Rightarrow> synthetic_world result" where
  "sy_wakeup P w =
     (if sy_done_counter (the_driver w) < int (NUM_PROCESSORS P)
      then scheduleEvent (Some driver_consumer) (DEADLOCK_THRESHOLD P) w else Inr w)"

definition sy_checkForDeadlock :: "ruby_params \<Rightarrow> synthetic_world \<Rightarrow> unit result" where
  "sy_checkForDeadlock P w =
     (let v = sy_last_progress_vector (the_driver w)
      in rfold (\<lambda>processor u. rbind (lref processor v) (\<lambda>t.
             check (\<not> (w_time w - t > DEADLOCK_THRESHOLD P)) Error_exit (Inr u))) [0..<length v] ())"

definition SyntheticDriver :: "ruby_params \<Rightarrow> bool \<Rightarrow> synthetic_world \<Rightarrow> synthetic_world result" where
  "SyntheticDriver P SIMICS w =
     check (\<not> SIMICS) Error_exit (
     let h = \<lparr>sy_last_progress_vector = replicate (NUM_PROCESSORS P) 0, sy_request_generator_vector = [],
              sy_lock_vector = replicate (SYNTHETIC_LOCKS P) (-1), sy_done_counter = 0,
              sy_test_latency = Histogram 1 50, sy_swap_latency = Histogram 1 50, sy_release_latency = Histogram 1 50,
              sy_finish_time = 0\<rparr>
     in rbind (rfold (RequestGenerator P) [0..<NUM_PROCESSORS P] (set_driver h w)) (\<lambda>w1.
        scheduleEvent (Some driver_consumer) 1 w1))"

text \<open>The wakeups of the consumers of this driver: its generators, and the driver itself.\<close>

definition sy_wake :: "ruby_params \<Rightarrow> nat \<Rightarrow> synthetic_world \<Rightarrow> synthetic_world result" where
  "sy_wake P k w = (if k < NUM_PROCESSORS P then rg_wakeup P k w else sy_wakeup P w)"

end
