(* ===== verification/LockSafety.thy ===== *)
theory LockSafety
  imports SyntheticDriver
begin

text \<open>
  The synthetic driver keeps its contract, and its locks exclude each other: over a coherent memory two generators
  never hold the same lock, and the byte of a lock that is held is locked.
\<close>

section \<open>The invariant\<close>

definition critical :: "request_generator \<Rightarrow> bool" where
  "critical g \<longleftrightarrow> rg_status g = RequestGeneratorStatus_Holding \<or> rg_status g = RequestGeneratorStatus_Release_Pending"

definition is_done :: "request_generator \<Rightarrow> bool" where
  "is_done g \<longleftrightarrow> rg_status g = RequestGeneratorStatus_Done"

definition locks_ok :: "memory \<Rightarrow> request_generator list \<Rightarrow> bool" where
  "locks_ok mem gs \<longleftrightarrow>
     (\<forall>k < length gs. critical (gs ! k) \<longrightarrow> byte_at mem (rg_address (gs ! k)) = LockStatus_Locked) \<and>
     (\<forall>j < length gs. \<forall>k < length gs. critical (gs ! j) \<and> critical (gs ! k) \<and> rg_address (gs ! j) = rg_address (gs ! k) \<longrightarrow> j = k)"

definition gens_ok :: "int \<Rightarrow> request_generator list \<Rightarrow> bool" where
  "gens_ok now gs \<longleftrightarrow> (\<forall>k < length gs. rg_node (gs ! k) = k \<and> 0 \<le> rg_last_transition (gs ! k) \<and> rg_last_transition (gs ! k) \<le> now)"

definition latencies_ok :: "synthetic \<Rightarrow> bool" where
  "latencies_ok h \<longleftrightarrow> (\<exists>xs. counts_samples xs (sy_test_latency h)) \<and> (\<exists>xs. counts_samples xs (sy_swap_latency h))
     \<and> (\<exists>xs. counts_samples xs (sy_release_latency h))"

definition synthetic_inv :: "ruby_params \<Rightarrow> int \<Rightarrow> memory \<Rightarrow> synthetic \<Rightarrow> bool" where
  "synthetic_inv P now mem h \<longleftrightarrow> now < 2 ^ 30 \<and> length (sy_request_generator_vector h) = NUM_PROCESSORS P
     \<and> length (sy_last_progress_vector h) = NUM_PROCESSORS P \<and> sy_lock_vector h \<noteq> [] \<and> latencies_ok h
     \<and> gens_ok now (sy_request_generator_vector h) \<and> locks_ok mem (sy_request_generator_vector h)
     \<and> sy_done_counter h = int (length (filter is_done (sy_request_generator_vector h)))"

text \<open>The request that a generator waits for.\<close>

definition gen_expects :: "request_generator \<Rightarrow> cache_msg \<Rightarrow> bool" where
  "gen_expects g r \<longleftrightarrow> rq_Size r = 1 \<and> rq_Address r = rg_address g \<and>
     (rg_status g = RequestGeneratorStatus_Test_Pending \<and> \<not> is_write_type (rq_Type r)
      \<or> (rg_status g = RequestGeneratorStatus_Swap_Pending \<or> rg_status g = RequestGeneratorStatus_Release_Pending)
        \<and> is_write_type (rq_Type r))"

definition synthetic_expects :: "synthetic \<Rightarrow> nat \<Rightarrow> cache_msg \<Rightarrow> bool" where
  "synthetic_expects h p r \<longleftrightarrow> p < length (sy_request_generator_vector h) \<and> gen_expects (sy_request_generator_vector h ! p) r"

lemma gen_expects_slot: "gen_expects g r \<Longrightarrow> gen_expects g r' \<Longrightarrow> same_slot r' r"
  by (auto simp: gen_expects_def same_slot_def)

lemma length_filter_update:
  "k < length xs \<Longrightarrow> \<not> P (xs ! k) \<Longrightarrow> length (filter P (xs[k := x])) = length (filter P xs) + (if P x then 1 else 0)"
proof (induction xs arbitrary: k)
  case (Cons y ys)
  then show ?case by (cases k) auto
qed simp

text \<open>Updating one generator.\<close>

lemma gens_ok_update: "gens_ok now gs \<Longrightarrow> rg_node g = k \<Longrightarrow> 0 \<le> rg_last_transition g \<Longrightarrow> rg_last_transition g \<le> now \<Longrightarrow> gens_ok now (gs[k := g])"
  by (auto simp: gens_ok_def nth_upd)

lemma locks_ok_update:
  assumes "locks_ok mem gs" "k < length gs"
    "\<And>j. j < length gs \<Longrightarrow> j \<noteq> k \<Longrightarrow> critical (gs ! j) \<Longrightarrow> byte_at mem' (rg_address (gs ! j)) = byte_at mem (rg_address (gs ! j))"
    "critical g \<Longrightarrow> byte_at mem' (rg_address g) = LockStatus_Locked"
    "\<And>j. critical g \<Longrightarrow> j < length gs \<Longrightarrow> j \<noteq> k \<Longrightarrow> critical (gs ! j) \<Longrightarrow> rg_address (gs ! j) \<noteq> rg_address g"
  shows "locks_ok mem' (gs[k := g])"
  unfolding locks_ok_def length_list_update
proof (intro conjI allI impI)
  have old: "byte_at mem (rg_address (gs ! j)) = LockStatus_Locked" if "j < length gs" "critical (gs ! j)" for j
    using assms(1) that by (simp add: locks_ok_def)
  fix j assume j: "j < length gs" "critical (gs[k := g] ! j)"
  then show "byte_at mem' (rg_address (gs[k := g] ! j)) = LockStatus_Locked"
    using assms(2-4) old by (cases "j = k") auto
next
  fix i j assume ij: "i < length gs" "j < length gs"
    "critical (gs[k := g] ! i) \<and> critical (gs[k := g] ! j) \<and> rg_address (gs[k := g] ! i) = rg_address (gs[k := g] ! j)"
  have old: "critical (gs ! i) \<Longrightarrow> critical (gs ! j) \<Longrightarrow> rg_address (gs ! i) = rg_address (gs ! j) \<Longrightarrow> i = j"
    using assms(1) ij(1,2) by (simp add: locks_ok_def)
  show "i = j"
  proof (cases "i = k \<or> j = k")
    case True
    then show ?thesis using assms(2,5) ij by (metis nth_list_update_eq nth_list_update_neq)
  next
    case False
    then show ?thesis using old ij(3) by simp
  qed
qed

section \<open>Steps of the driver\<close>

text \<open>\<open>reaches w h w'\<close>: from \<open>w\<close> only the driver has acted, and its state in \<open>w'\<close> is \<open>h\<close>.\<close>

definition reaches :: "synthetic_world \<Rightarrow> synthetic \<Rightarrow> synthetic_world \<Rightarrow> bool" where
  "reaches w h w' \<longleftrightarrow> driver_frame w w' \<and> the_driver w' = h \<and> w_time w' = w_time w \<and> evq_inv w'"

lemma reaches_refl: "evq_inv w \<Longrightarrow> reaches w (the_driver w) w"
  by (simp add: reaches_def driver_frame_def sched_reach.stay)

lemma reaches_set: "reaches w h w' \<Longrightarrow> reaches w h' (set_driver h' w')"
  by (auto simp: reaches_def ruby_simps driver_frame_def) (auto simp: set_driver_def)

lemma reaches_draw:
  assumes "reaches w h w'" "random_draw w' = (r, w'')"
  shows "reaches w h w''"
  using assms by (auto simp: reaches_def driver_frame_def random_draw_def ruby_simps the_driver_def)

lemma reaches_sleep:
  assumes "reaches w h w'" "0 < d"
  shows "\<exists>w''. rg_sleep k d w' = Inr w'' \<and> reaches w h w''"
proof -
  have e: "evq_inv w'" using assms(1) by (simp add: reaches_def)
  obtain w'' where w'': "scheduleEvent (Some (generator_consumer k)) d w' = Inr w''" "evq_inv w''" "w_time w'' = w_time w'"
      "w_sys w'' = w_sys w'" "sched_reach w' w''" by (rule scheduled [OF e assms(2)])
  then have "reaches w h w''" using assms(1) sched_reach_trans [OF w''(5)] by (simp add: reaches_def driver_frame_def the_driver_def)
  then show ?thesis using w''(1) by (simp add: rg_sleep_def)
qed

lemma pick_lock_ok:
  "reaches w h w' \<Longrightarrow> locks \<noteq> [] \<Longrightarrow> \<exists>n w''. pick_lock node locks c w' = Inr (n, w'') \<and> n < length locks \<and> reaches w h w''"
proof (induction node locks c w' rule: pick_lock.induct)
  case (1 node locks c w')
  obtain r w1 where d: "random_draw w' = (r, w1)" by force
  have w1: "reaches w h w1" by (rule reaches_draw [OF 1(2) d])
  let ?n = "r mod length locks"
  have n: "?n < length locks" using 1(3) by simp
  have IH: "\<exists>n w''. pick_lock node locks (c + 1) w1 = Inr (n, w'') \<and> n < length locks \<and> reaches w h w''"
    if "locks ! ?n = int node" "\<not> c + 1 > 10"
    using "1.IH" [of "(r, w1)" r w1 ?n "locks ! ?n"] d n w1 1(3) that by simp
  show ?case
    using IH w1 n by (cases "locks ! ?n = int node"; cases "c + 1 > 10") (simp_all add: d Let_def pick_lock.simps [of node locks c w'])
qed

lemma sy_pickAddress_ok:
  assumes "reaches w h w'" "sy_lock_vector h \<noteq> []"
  shows "\<exists>a l w''. sy_pickAddress P node w' = Inr (a, w'') \<and> l \<noteq> [] \<and> reaches w (h\<lparr>sy_lock_vector := l\<rparr>) w''"
proof -
  have h: "the_driver w' = h" using assms(1) by (simp add: reaches_def)
  obtain n w'' where n: "pick_lock node (sy_lock_vector h) 0 w' = Inr (n, w'')" "n < length (sy_lock_vector h)" "reaches w h w''"
    using pick_lock_ok [OF assms] by blast
  let ?l = "(sy_lock_vector h)[n := int node]"
  have "reaches w (h\<lparr>sy_lock_vector := ?l\<rparr>) (set_driver (h\<lparr>sy_lock_vector := ?l\<rparr>) w'')" by (rule reaches_set [OF n(3)])
  moreover have "?l \<noteq> []" using assms(2) by simp
  ultimately show ?thesis using n(1,2) assms(2)
    by (intro exI [of _ "of_nat (n * (if 1 < BLOCK_BITS P then 1 else 0))"] exI [of _ ?l] exI) (simp add: sy_pickAddress_def h)
qed

lemma rg_enter_ok:
  assumes "reaches w h w'" "k < length (sy_request_generator_vector h)"
  shows "\<exists>w''. rg_enter k s w' = Inr w'' \<and> reaches w (h\<lparr>sy_request_generator_vector := (sy_request_generator_vector h)
     [k := (sy_request_generator_vector h ! k)\<lparr>rg_status := s, rg_last_transition := w_time w\<rparr>]\<rparr>) w''"
  using assms reaches_set [OF assms(1)] by (auto simp: rg_enter_def the_generator_def set_generator_def reaches_def)

section \<open>The callback\<close>

text \<open>The state of the driver after generator \<open>k\<close> has become \<open>g\<close>.\<close>

definition after :: "int \<Rightarrow> synthetic \<Rightarrow> nat \<Rightarrow> request_generator \<Rightarrow> synthetic \<Rightarrow> bool" where
  "after now h k g h' \<longleftrightarrow> sy_request_generator_vector h' = (sy_request_generator_vector h)[k := g]
     \<and> length (sy_last_progress_vector h') = length (sy_last_progress_vector h) \<and> sy_lock_vector h' \<noteq> [] \<and> latencies_ok h'
     \<and> sy_done_counter h' = sy_done_counter h + (if is_done g then 1 else 0)
     \<and> rg_node g = k \<and> rg_last_transition g = now"

lemma after_inv:
  assumes "synthetic_inv P now mem h" "k < NUM_PROCESSORS P" "after now h k g h'" "\<not> is_done (sy_request_generator_vector h ! k)"
    "locks_ok mem' ((sy_request_generator_vector h)[k := g])"
  shows "synthetic_inv P now mem' h'"
proof -
  have "0 \<le> rg_last_transition (sy_request_generator_vector h ! k)" "rg_last_transition (sy_request_generator_vector h ! k) \<le> now"
    using assms(1,2) by (auto simp: synthetic_inv_def gens_ok_def)
  then have "0 \<le> now" by linarith
  then have "gens_ok now ((sy_request_generator_vector h)[k := g])"
    using assms(1,3) by (intro gens_ok_update) (auto simp: synthetic_inv_def after_def)
  then show ?thesis
    using assms length_filter_update [of k "sy_request_generator_vector h" is_done g] by (simp add: synthetic_inv_def after_def)
qed

lemma record_ok:
  assumes "reaches w h w'" "latencies_ok h" "0 \<le> t" "t < 2 ^ 30"
  shows "\<exists>x w''. recordTestLatency t w' = Inr w'' \<and> latencies_ok (h\<lparr>sy_test_latency := x\<rparr>) \<and> reaches w (h\<lparr>sy_test_latency := x\<rparr>) w''"
    "\<exists>x w''. recordSwapLatency t w' = Inr w'' \<and> latencies_ok (h\<lparr>sy_swap_latency := x\<rparr>) \<and> reaches w (h\<lparr>sy_swap_latency := x\<rparr>) w''"
    "\<exists>x w''. recordReleaseLatency t w' = Inr w'' \<and> latencies_ok (h\<lparr>sy_release_latency := x\<rparr>) \<and> reaches w (h\<lparr>sy_release_latency := x\<rparr>) w''"
proof -
  have h: "the_driver w' = h" using assms(1) by (simp add: reaches_def)
  have add: "\<exists>x. h_add undefined t y = Inr x \<and> (\<exists>xs. counts_samples xs x)" if "\<exists>xs. counts_samples xs y" for y
    using that h_add_ok [OF _ assms(3,4)] by blast
  from assms(2) obtain x where "h_add undefined t (sy_test_latency h) = Inr x" "\<exists>xs. counts_samples xs x"
    using add by (auto simp: latencies_ok_def)
  then show "\<exists>x w''. recordTestLatency t w' = Inr w'' \<and> latencies_ok (h\<lparr>sy_test_latency := x\<rparr>) \<and> reaches w (h\<lparr>sy_test_latency := x\<rparr>) w''"
    using assms(2) reaches_set [OF assms(1)] by (intro exI [of _ x] exI conjI) (simp_all add: recordTestLatency_def h latencies_ok_def)
  from assms(2) obtain x where "h_add undefined t (sy_swap_latency h) = Inr x" "\<exists>xs. counts_samples xs x"
    using add by (auto simp: latencies_ok_def)
  then show "\<exists>x w''. recordSwapLatency t w' = Inr w'' \<and> latencies_ok (h\<lparr>sy_swap_latency := x\<rparr>) \<and> reaches w (h\<lparr>sy_swap_latency := x\<rparr>) w''"
    using assms(2) reaches_set [OF assms(1)] by (intro exI [of _ x] exI conjI) (simp_all add: recordSwapLatency_def h latencies_ok_def)
  from assms(2) obtain x where "h_add undefined t (sy_release_latency h) = Inr x" "\<exists>xs. counts_samples xs x"
    using add by (auto simp: latencies_ok_def)
  then show "\<exists>x w''. recordReleaseLatency t w' = Inr w'' \<and> latencies_ok (h\<lparr>sy_release_latency := x\<rparr>) \<and> reaches w (h\<lparr>sy_release_latency := x\<rparr>) w''"
    using assms(2) reaches_set [OF assms(1)] by (intro exI [of _ x] exI conjI) (simp_all add: recordReleaseLatency_def h latencies_ok_def)
qed

text \<open>What is known of the driver when generator \<open>k\<close> gets its callback.\<close>

definition ready_gen :: "ruby_params \<Rightarrow> nat \<Rightarrow> synthetic_world \<Rightarrow> bool" where
  "ready_gen P k w \<longleftrightarrow> params_ok P \<and> evq_inv w \<and> (\<exists>mem. synthetic_inv P (w_time w) mem (the_driver w)) \<and> k < NUM_PROCESSORS P"

lemma ready_genD:
  assumes "ready_gen P k w"
  shows "evq_inv w" "k < length (sy_request_generator_vector (the_driver w))" "latencies_ok (the_driver w)" "sy_lock_vector (the_driver w) \<noteq> []"
    "rg_node (sy_request_generator_vector (the_driver w) ! k) = k"
    "0 \<le> w_time w - rg_last_transition (sy_request_generator_vector (the_driver w) ! k)"
    "w_time w - rg_last_transition (sy_request_generator_vector (the_driver w) ! k) < 2 ^ 30"
    "0 < WAIT_TIME P" "0 < HOLD_TIME P" "0 < THINK_TIME P"
proof -
  from assms obtain mem where "synthetic_inv P (w_time w) mem (the_driver w)" "k < NUM_PROCESSORS P" by (auto simp: ready_gen_def)
  then have g: "k < length (sy_request_generator_vector (the_driver w))" "latencies_ok (the_driver w)" "sy_lock_vector (the_driver w) \<noteq> []"
      "rg_node (sy_request_generator_vector (the_driver w) ! k) = k" "w_time w < 2 ^ 30"
      "0 \<le> rg_last_transition (sy_request_generator_vector (the_driver w) ! k)"
      "rg_last_transition (sy_request_generator_vector (the_driver w) ! k) \<le> w_time w"
    by (simp_all add: synthetic_inv_def gens_ok_def)
  show "k < length (sy_request_generator_vector (the_driver w))" "latencies_ok (the_driver w)" "sy_lock_vector (the_driver w) \<noteq> []"
    "rg_node (sy_request_generator_vector (the_driver w) ! k) = k" by (rule g)+
  show "0 \<le> w_time w - rg_last_transition (sy_request_generator_vector (the_driver w) ! k)"
    "w_time w - rg_last_transition (sy_request_generator_vector (the_driver w) ! k) < 2 ^ 30" using g by linarith+
  show "evq_inv w" "0 < WAIT_TIME P" "0 < HOLD_TIME P" "0 < THINK_TIME P" using assms by (auto simp: ready_gen_def params_ok_def)
qed

text \<open>Entering a state other than \<open>Done\<close> and going to sleep, when the rest of the driver is as it was.\<close>

definition side :: "synthetic \<Rightarrow> synthetic \<Rightarrow> bool" where
  "side h h1 \<longleftrightarrow> length (sy_last_progress_vector h1) = length (sy_last_progress_vector h) \<and> sy_lock_vector h1 \<noteq> []
     \<and> latencies_ok h1 \<and> sy_done_counter h1 = sy_done_counter h"

lemma enter_ok:
  assumes "ready_gen P k w" "reaches w h1 w1" "side (the_driver w) h1"
    "sy_request_generator_vector h1 = (sy_request_generator_vector (the_driver w))[k := g]" "rg_node g = k" "s \<noteq> RequestGeneratorStatus_Done"
  shows "\<exists>w2 h2. rg_enter k s w1 = Inr w2 \<and> reaches w h2 w2 \<and> side (the_driver w) h2
    \<and> after (w_time w) (the_driver w) k (g\<lparr>rg_status := s, rg_last_transition := w_time w\<rparr>) h2"
proof -
  note r = ready_genD [OF assms(1)]
  let ?g = "g\<lparr>rg_status := s, rg_last_transition := w_time w\<rparr>"
  let ?h2 = "h1\<lparr>sy_request_generator_vector := (sy_request_generator_vector (the_driver w))[k := ?g]\<rparr>"
  have "\<exists>w2. rg_enter k s w1 = Inr w2 \<and> reaches w ?h2 w2"
    using rg_enter_ok [OF assms(2), of k s] r(2) assms(4) by simp
  moreover have "side (the_driver w) ?h2" using assms(3) by (simp add: side_def latencies_ok_def)
  moreover have "after (w_time w) (the_driver w) k ?g ?h2"
    using assms(3,5,6) by (simp add: after_def side_def is_done_def latencies_ok_def)
  ultimately show ?thesis by blast
qed

lemma enter_sleep_ok:
  assumes "ready_gen P k w" "reaches w h1 w1" "side (the_driver w) h1"
    "sy_request_generator_vector h1 = (sy_request_generator_vector (the_driver w))[k := g]" "rg_node g = k" "s \<noteq> RequestGeneratorStatus_Done"
    "0 < d"
  shows "\<exists>w2 w3 h3. rg_enter k s w1 = Inr w2 \<and> rg_sleep k d w2 = Inr w3 \<and> reaches w h3 w3
    \<and> after (w_time w) (the_driver w) k (g\<lparr>rg_status := s, rg_last_transition := w_time w\<rparr>) h3"
  using enter_ok [OF assms(1-6)] reaches_sleep [OF _ assms(7)] by metis

lemma side_refl: "ready_gen P k w \<Longrightarrow> side (the_driver w) (the_driver w)"
  using ready_genD by (simp add: side_def)

lemma side_latency:
  assumes "side h h1"
  shows "latencies_ok (h1\<lparr>sy_test_latency := x\<rparr>) \<Longrightarrow> side h (h1\<lparr>sy_test_latency := x\<rparr>)"
    "latencies_ok (h1\<lparr>sy_swap_latency := x\<rparr>) \<Longrightarrow> side h (h1\<lparr>sy_swap_latency := x\<rparr>)"
    "latencies_ok (h1\<lparr>sy_release_latency := x\<rparr>) \<Longrightarrow> side h (h1\<lparr>sy_release_latency := x\<rparr>)"
  using assms by (simp_all add: side_def)

lemma one_byte [simp]:
  "readByte \<lparr>sb_address = a, sb_data = [b]\<rparr> = Inr b" "writeByte x \<lparr>sb_address = a, sb_data = [b]\<rparr> = Inr \<lparr>sb_address = a, sb_data = [x]\<rparr>"
  by (simp_all add: readByte_def sb_getByte_def writeByte_def sb_setByte_def)

text \<open>The three answers: a test or a failed swap leaves the lock as it is, a swap that finds it unlocked locks it, a
  release unlocks it.\<close>

definition answered :: "ruby_params \<Rightarrow> nat \<Rightarrow> synthetic_world \<Rightarrow> address \<Rightarrow> (sub_block \<times> synthetic_world) result
    \<Rightarrow> byte \<Rightarrow> (request_generator \<Rightarrow> bool) \<Rightarrow> bool" where
  "answered P k w a r b Q \<longleftrightarrow>
     (\<exists>w' h' g. r = Inr (\<lparr>sb_address = a, sb_data = [b]\<rparr>, w') \<and> reaches w h' w' \<and> after (w_time w) (the_driver w) k g h' \<and> Q g)"

lemma answeredI:
  "reaches w h' w' \<Longrightarrow> after (w_time w) (the_driver w) k g h' \<Longrightarrow> r = Inr (\<lparr>sb_address = a, sb_data = [b]\<rparr>, w') \<Longrightarrow> Q g
    \<Longrightarrow> answered P k w a r b Q"
  unfolding answered_def by blast

lemma rg_tested_ok:
  assumes "ready_gen P k w"
  shows "answered P k w a (rg_tested P k (sy_request_generator_vector (the_driver w) ! k) \<lparr>sb_address = a, sb_data = [b]\<rparr> w) b (\<lambda>g. \<not> critical g)"
proof -
  note r = ready_genD [OF assms]
  let ?h = "the_driver w" and ?g = "sy_request_generator_vector (the_driver w) ! k"
  have r0: "reaches w ?h w" by (rule reaches_refl [OF r(1)])
  have g: "sy_request_generator_vector ?h = (sy_request_generator_vector ?h)[k := ?g]" by simp
  show ?thesis
  proof (cases "b = LockStatus_Locked")
    case True
    obtain w2 w3 h3 where e: "rg_enter k RequestGeneratorStatus_Thinking w = Inr w2" "rg_sleep k (WAIT_TIME P) w2 = Inr w3" "reaches w h3 w3"
        "after (w_time w) ?h k (?g\<lparr>rg_status := RequestGeneratorStatus_Thinking, rg_last_transition := w_time w\<rparr>) h3"
      using enter_sleep_ok [OF assms r0 side_refl [OF assms] g r(5) _ r(8), of RequestGeneratorStatus_Thinking] by auto
    show ?thesis by (rule answeredI [OF e(3,4)]) (use True e(1,2) in \<open>simp_all add: rg_tested_def critical_def\<close>)
  next
    case False
    obtain x w1 where w1: "recordTestLatency (w_time w - rg_last_transition ?g) w = Inr w1"
        "latencies_ok (?h\<lparr>sy_test_latency := x\<rparr>)" "reaches w (?h\<lparr>sy_test_latency := x\<rparr>) w1"
      using record_ok(1) [OF r0 r(3,6,7)] by blast
    obtain w2 w3 h3 where e: "rg_enter k RequestGeneratorStatus_Before_Swap w1 = Inr w2" "rg_sleep k (WAIT_TIME P) w2 = Inr w3" "reaches w h3 w3"
        "after (w_time w) ?h k (?g\<lparr>rg_status := RequestGeneratorStatus_Before_Swap, rg_last_transition := w_time w\<rparr>) h3"
      using enter_sleep_ok [OF assms w1(3) side_latency(1) [OF side_refl [OF assms] w1(2)] _ r(5) _ r(8), of RequestGeneratorStatus_Before_Swap]
      by auto
    show ?thesis by (rule answeredI [OF e(3,4)]) (use False w1(1) e(1,2) in \<open>simp_all add: rg_tested_def critical_def\<close>)
  qed
qed

lemma rg_swapped_ok:
  assumes "ready_gen P k w"
  shows "answered P k w a (rg_swapped P k (sy_request_generator_vector (the_driver w) ! k) \<lparr>sb_address = a, sb_data = [b]\<rparr> w) LockStatus_Locked
    (\<lambda>g. if b = LockStatus_Locked then \<not> critical g else rg_address g = rg_address (sy_request_generator_vector (the_driver w) ! k) \<and> \<not> is_done g)"
proof -
  note r = ready_genD [OF assms]
  let ?h = "the_driver w" and ?g = "sy_request_generator_vector (the_driver w) ! k"
  have r0: "reaches w ?h w" by (rule reaches_refl [OF r(1)])
  obtain x w1 where w1: "recordSwapLatency (w_time w - rg_last_transition ?g) w = Inr w1"
      "latencies_ok (?h\<lparr>sy_swap_latency := x\<rparr>)" "reaches w (?h\<lparr>sy_swap_latency := x\<rparr>) w1"
    using record_ok(2) [OF r0 r(3,6,7)] by blast
  note s = side_latency(2) [OF side_refl [OF assms] w1(2)]
  show ?thesis
  proof (cases "b = LockStatus_Locked")
    case True
    obtain w2 w3 h3 where e: "rg_enter k RequestGeneratorStatus_Thinking w1 = Inr w2" "rg_sleep k (WAIT_TIME P) w2 = Inr w3" "reaches w h3 w3"
        "after (w_time w) ?h k (?g\<lparr>rg_status := RequestGeneratorStatus_Thinking, rg_last_transition := w_time w\<rparr>) h3"
      using enter_sleep_ok [OF assms w1(3) s _ r(5) _ r(8), of RequestGeneratorStatus_Thinking] by auto
    show ?thesis by (rule answeredI [OF e(3,4)]) (use True w1(1) e(1,2) in \<open>simp_all add: rg_swapped_def critical_def\<close>)
  next
    case False
    obtain w2 w3 h3 where e: "rg_enter k RequestGeneratorStatus_Holding w1 = Inr w2" "rg_sleep k (HOLD_TIME P) w2 = Inr w3" "reaches w h3 w3"
        "after (w_time w) ?h k (?g\<lparr>rg_status := RequestGeneratorStatus_Holding, rg_last_transition := w_time w\<rparr>) h3"
      using enter_sleep_ok [OF assms w1(3) s _ r(5) _ r(9), of RequestGeneratorStatus_Holding] by auto
    show ?thesis by (rule answeredI [OF e(3,4)]) (use False w1(1) e(1,2) in \<open>simp_all add: rg_swapped_def is_done_def\<close>)
  qed
qed

lemma rg_released_ok:
  assumes "ready_gen P k w"
  shows "answered P k w a (rg_released P k (sy_request_generator_vector (the_driver w) ! k) \<lparr>sb_address = a, sb_data = [b]\<rparr> w)
    LockStatus_Unlocked (\<lambda>g. \<not> critical g)"
proof -
  note r = ready_genD [OF assms]
  let ?h = "the_driver w" and ?g = "sy_request_generator_vector (the_driver w) ! k"
  let ?c = "rg_counter ?g + 1"
  let ?g1 = "?g\<lparr>rg_counter := ?c\<rparr>"
  have r0: "reaches w ?h w" by (rule reaches_refl [OF r(1)])
  obtain x w1 where w1: "recordReleaseLatency (w_time w - rg_last_transition ?g) w = Inr w1"
      "latencies_ok (?h\<lparr>sy_release_latency := x\<rparr>)" "reaches w (?h\<lparr>sy_release_latency := x\<rparr>) w1"
    using record_ok(3) [OF r0 r(3,6,7)] by blast
  let ?h1 = "?h\<lparr>sy_release_latency := x\<rparr>"
  define h2 where "h2 = ?h1\<lparr>sy_request_generator_vector := (sy_request_generator_vector ?h)[k := ?g1]\<rparr>"
  have w2: "reaches w h2 (set_driver h2 w1)" by (rule reaches_set [OF w1(3)])
  have set: "set_generator k ?g1 w1 = set_driver h2 w1"
    using w1(3) by (simp add: set_generator_def Let_def reaches_def h2_def)
  have s2: "side ?h h2" using side_latency(3) [OF side_refl [OF assms] w1(2)] by (simp add: side_def h2_def latencies_ok_def)
  have g2: "sy_request_generator_vector h2 = (sy_request_generator_vector ?h)[k := ?g1]" by (simp add: h2_def)
  have n1: "rg_node ?g1 = k" using r(5) by simp
  show ?thesis
  proof (cases "?c < TESTER_LENGTH P")
    case True
    obtain w3 h3 where e: "rg_enter k RequestGeneratorStatus_Thinking (set_driver h2 w1) = Inr w3" "reaches w h3 w3" "side ?h h3"
        "after (w_time w) ?h k (?g1\<lparr>rg_status := RequestGeneratorStatus_Thinking, rg_last_transition := w_time w\<rparr>) h3"
      using enter_ok [OF assms w2 s2 g2 n1, of RequestGeneratorStatus_Thinking] by auto
    let ?g3 = "?g1\<lparr>rg_status := RequestGeneratorStatus_Thinking, rg_last_transition := w_time w\<rparr>"
    have g3: "sy_request_generator_vector h3 = (sy_request_generator_vector ?h)[k := ?g3]" "sy_lock_vector h3 \<noteq> []"
      using e(4) by (simp_all add: after_def)
    obtain addr l w4 where p: "sy_pickAddress P k w3 = Inr (addr, w4)" "l \<noteq> []" "reaches w (h3\<lparr>sy_lock_vector := l\<rparr>) w4"
      using sy_pickAddress_ok [OF e(2) g3(2)] by blast
    let ?g5 = "?g3\<lparr>rg_address := addr\<rparr>"
    define h5 where "h5 = h3\<lparr>sy_lock_vector := l, sy_request_generator_vector := (sy_request_generator_vector ?h)[k := ?g5]\<rparr>"
    have w5: "reaches w h5 (set_driver h5 w4)" by (rule reaches_set [OF p(3)])
    have pick: "rg_pickAddress P k w3 = Inr (set_driver h5 w4)"
      using e(2) p(1,3) g3(1) r(2,5) by (simp add: rg_pickAddress_def the_generator_def reaches_def set_generator_def Let_def h5_def)
    obtain w6 where w6: "rg_sleep k (THINK_TIME P) (set_driver h5 w4) = Inr w6" "reaches w h5 w6"
      using reaches_sleep [OF w5 r(10)] by blast
    have a5: "after (w_time w) ?h k ?g5 h5"
      using e(4) p(2) by (simp add: after_def h5_def latencies_ok_def is_done_def)
    show ?thesis by (rule answeredI [OF w6(2) a5])
      (use True w1(1) set e(1) pick w6(1) in \<open>simp_all add: rg_released_def critical_def Let_def\<close>)
  next
    case False
    let ?g3 = "?g1\<lparr>rg_status := RequestGeneratorStatus_Done, rg_last_transition := w_time w\<rparr>"
    have n2: "w_time (set_driver h2 w1) = w_time w" "the_driver (set_driver h2 w1) = h2" using w2 by (simp_all add: reaches_def)
    have d2: "sy_done_counter h2 = sy_done_counter ?h" by (simp add: h2_def)
    have same: "h2\<lparr>sy_done_counter := d\<rparr> = h2\<lparr>sy_done_counter := d, sy_finish_time := sy_finish_time h2\<rparr>" for d by simp
    obtain f where f: "reportDone P (set_driver h2 w1) = set_driver (h2\<lparr>sy_done_counter := sy_done_counter ?h + 1, sy_finish_time := f\<rparr>) (set_driver h2 w1)"
    proof (cases "sy_done_counter ?h + 1 = int (NUM_PROCESSORS P)")
      case True
      then show ?thesis by (intro that [of "w_time w"]) (simp add: reportDone_def Let_def n2 d2)
    next
      case False
      then show ?thesis by (intro that [of "sy_finish_time h2"]) (simp add: reportDone_def Let_def n2 d2)
    qed
    define h3 where "h3 = h2\<lparr>sy_done_counter := sy_done_counter ?h + 1, sy_finish_time := f\<rparr>"
    have w3: "reaches w h3 (reportDone P (set_driver h2 w1))" unfolding f h3_def by (rule reaches_set [OF w2])
    have g3: "sy_request_generator_vector h3 = (sy_request_generator_vector ?h)[k := ?g1]" by (simp add: h3_def g2)
    obtain w4 where w4: "rg_enter k RequestGeneratorStatus_Done (reportDone P (set_driver h2 w1)) = Inr w4"
        "reaches w (h3\<lparr>sy_request_generator_vector := (sy_request_generator_vector ?h)[k := ?g3]\<rparr>) w4"
      using rg_enter_ok [OF w3, of k RequestGeneratorStatus_Done] r(2) by (auto simp: g3)
    have "after (w_time w) ?h k ?g3 (h3\<lparr>sy_request_generator_vector := (sy_request_generator_vector ?h)[k := ?g3]\<rparr>)"
      using s2 r(5) by (simp add: after_def side_def h3_def is_done_def latencies_ok_def)
    then show ?thesis by (rule answeredI [OF w4(2)]) (use False w1(1) set w4(1) in \<open>simp_all add: rg_released_def critical_def Let_def\<close>)
  qed
qed

text \<open>The memory after each answer, and the locks.\<close>

lemma answer_locks:
  assumes "mem_ok mem" "rq_Size r = 1" "rq_Address r = rg_address (gs ! k)" "k < length gs" "locks_ok mem gs" "rg_node g = k"
    and ty: "\<not> is_write_type (rq_Type r) \<Longrightarrow> b' = byte_at mem (rq_Address r)"
    and own: "critical g \<Longrightarrow> rg_address g = rq_Address r \<and> b' = LockStatus_Locked \<and> byte_at mem (rq_Address r) \<noteq> LockStatus_Locked"
    and others: "\<And>j. j < length gs \<Longrightarrow> j \<noteq> k \<Longrightarrow> critical (gs ! j) \<Longrightarrow> rg_address (gs ! j) = rq_Address r \<Longrightarrow> b' = byte_at mem (rq_Address r)"
  shows "locks_ok (write_bytes r [b'] mem) (gs[k := g])"
proof -
  have bytes: "byte_at (write_bytes r [b'] mem) a = (if a = rq_Address r then b' else byte_at mem a)" for a
    using byte_at_write [OF assms(1)] ty by (cases "is_write_type (rq_Type r)") (auto simp: write_bytes_def)
  show ?thesis
  proof (rule locks_ok_update [OF assms(5,4)])
    show "byte_at (write_bytes r [b'] mem) (rg_address (gs ! j)) = byte_at mem (rg_address (gs ! j))"
      if "j < length gs" "j \<noteq> k" "critical (gs ! j)" for j using others [OF that] by (simp add: bytes)
    show "byte_at (write_bytes r [b'] mem) (rg_address g) = LockStatus_Locked" if "critical g" using own [OF that] bytes [of "rg_address g"] by simp
    show "rg_address (gs ! j) \<noteq> rg_address g" if c: "critical g" "j < length gs" "j \<noteq> k" "critical (gs ! j)" for j
    proof -
      have "byte_at mem (rg_address (gs ! j)) = LockStatus_Locked" using assms(5) c(2,4) by (simp add: locks_ok_def)
      then show ?thesis using own [OF c(1)] by metis
    qed
  qed
qed

lemma sy_hit_ok:
  assumes "params_ok P" "evq_inv w" "mem_ok mem" "synthetic_inv P (w_time w) mem (the_driver w)" "p < NUM_PROCESSORS P"
    "synthetic_expects (the_driver w) p r"
  shows "\<exists>bytes w'. sy_hitCallback P p \<lparr>sb_address = rq_Address r, sb_data = read_bytes mem r\<rparr> w
        = Inr (\<lparr>sb_address = rq_Address r, sb_data = bytes\<rparr>, w') \<and> length bytes = rq_Size r \<and> driver_frame w w'
      \<and> synthetic_inv P (w_time w') (write_bytes r bytes mem) (the_driver w')
      \<and> (\<forall>p' r'. synthetic_expects (the_driver w) p' r' \<and> \<not> (p' = p \<and> same_slot r' r) \<longrightarrow> synthetic_expects (the_driver w') p' r')"
proof -
  let ?h = "the_driver w" and ?gs = "sy_request_generator_vector (the_driver w)" and ?a = "rq_Address r"
  let ?g = "sy_request_generator_vector (the_driver w) ! p" and ?b = "byte_at mem (rq_Address r)"
  let ?data = "\<lparr>sb_address = rq_Address r, sb_data = [byte_at mem (rq_Address r)]\<rparr>"
  have rdy: "ready_gen P p w" using assms(1,2,4,5) by (auto simp: ready_gen_def)
  note r = ready_genD [OF rdy]
  have ex: "gen_expects ?g r" using assms(6) by (simp add: synthetic_expects_def)
  then have rq: "rq_Size r = 1" "?a = rg_address ?g" by (simp_all add: gen_expects_def)
  have read: "read_bytes mem r = [?b]" by (rule read_one [OF assms(3) rq(1)])
  have lk: "locks_ok mem ?gs" using assms(4) by (simp add: synthetic_inv_def)
  have held: "byte_at mem (rg_address (?gs ! j)) = LockStatus_Locked" if "j < length ?gs" "critical (?gs ! j)" for j
    using lk that by (simp add: locks_ok_def)
  have gen: "the_generator w p = Inr ?g" using r(2) by (simp add: the_generator_def)
  have perform: "rg_performCallback P p p ?data w =
      (if rg_status ?g = RequestGeneratorStatus_Test_Pending then rg_tested P p ?g ?data w
       else if rg_status ?g = RequestGeneratorStatus_Swap_Pending then rg_swapped P p ?g ?data w
       else if rg_status ?g = RequestGeneratorStatus_Release_Pending then rg_released P p ?g ?data w else Inl Error_exit)"
    using r(5) rq(2) by (simp add: rg_performCallback_def gen)
  note locks = answer_locks [OF assms(3) rq r(2) lk]
  from ex consider (test) "rg_status ?g = RequestGeneratorStatus_Test_Pending" "\<not> is_write_type (rq_Type r)"
    | (swap) "rg_status ?g = RequestGeneratorStatus_Swap_Pending" "is_write_type (rq_Type r)"
    | (release) "rg_status ?g = RequestGeneratorStatus_Release_Pending" "is_write_type (rq_Type r)"
    by (auto simp: gen_expects_def)
  then have "\<exists>b' w1 h' g. rg_performCallback P p p ?data w = Inr (\<lparr>sb_address = ?a, sb_data = [b']\<rparr>, w1) \<and> reaches w h' w1
      \<and> after (w_time w) ?h p g h' \<and> locks_ok (write_bytes r [b'] mem) (?gs[p := g])"
  proof cases
    case test
    obtain w1 h' g where t: "rg_tested P p ?g ?data w = Inr (?data, w1)" "reaches w h' w1" "after (w_time w) ?h p g h'" "\<not> critical g"
      using rg_tested_ok [OF rdy, of ?a ?b] by (auto simp: answered_def)
    have "locks_ok (write_bytes r [?b] mem) (?gs[p := g])" by (rule locks) (use t(3,4) in \<open>simp_all add: after_def\<close>)
    then show ?thesis using t(1-3) test by (simp add: perform) blast
  next
    case swap
    obtain w1 h' g where t: "rg_swapped P p ?g ?data w = Inr (\<lparr>sb_address = ?a, sb_data = [LockStatus_Locked]\<rparr>, w1)" "reaches w h' w1"
        "after (w_time w) ?h p g h'" "if ?b = LockStatus_Locked then \<not> critical g else rg_address g = rg_address ?g \<and> \<not> is_done g"
      using rg_swapped_ok [OF rdy, of ?a ?b] unfolding answered_def by blast
    have "locks_ok (write_bytes r [LockStatus_Locked] mem) (?gs[p := g])"
    proof (rule locks)
      show "rg_node g = p" using t(3) by (simp add: after_def)
      show "LockStatus_Locked = ?b" if "\<not> is_write_type (rq_Type r)" using that swap(2) by simp
      show "rg_address g = ?a \<and> LockStatus_Locked = LockStatus_Locked \<and> ?b \<noteq> LockStatus_Locked" if "critical g"
        using that t(4) rq(2) by (auto split: if_splits)
      show "LockStatus_Locked = ?b" if "j < length ?gs" "j \<noteq> p" "critical (?gs ! j)" "rg_address (?gs ! j) = ?a" for j
        using held [OF that(1,3)] that(4) by simp
    qed
    then show ?thesis using t(1-3) swap(1) by (simp add: perform) blast
  next
    case release
    obtain w1 h' g where t: "rg_released P p ?g ?data w = Inr (\<lparr>sb_address = ?a, sb_data = [LockStatus_Unlocked]\<rparr>, w1)" "reaches w h' w1"
        "after (w_time w) ?h p g h'" "\<not> critical g"
      using rg_released_ok [OF rdy, of ?a ?b] unfolding answered_def by blast
    have "critical ?g" using release(1) by (simp add: critical_def)
    then have "rg_address (?gs ! j) \<noteq> ?a" if "j < length ?gs" "j \<noteq> p" "critical (?gs ! j)" for j
      using lk that r(2) rq(2) unfolding locks_ok_def by metis
    then have "locks_ok (write_bytes r [LockStatus_Unlocked] mem) (?gs[p := g])"
      by (intro locks) (use t(3,4) release(2) in \<open>auto simp: after_def\<close>)
    then show ?thesis using t(1-3) release(1) by (simp add: perform) blast
  qed
  then obtain b' w1 h' g where c: "rg_performCallback P p p ?data w = Inr (\<lparr>sb_address = ?a, sb_data = [b']\<rparr>, w1)" "reaches w h' w1"
      "after (w_time w) ?h p g h'" "locks_ok (write_bytes r [b'] mem) (?gs[p := g])" by blast
  have nd: "\<not> is_done ?g" using ex by (auto simp: gen_expects_def is_done_def)
  have inv: "synthetic_inv P (w_time w) (write_bytes r [b'] mem) h'" by (rule after_inv [OF assms(4,5) c(3) nd c(4)])
  let ?v = "(sy_last_progress_vector h')[p := w_time w1]"
  let ?h2 = "h'\<lparr>sy_last_progress_vector := ?v\<rparr>"
  have w2: "reaches w ?h2 (set_driver ?h2 w1)" by (rule reaches_set [OF c(2)])
  have d1: "the_driver w1 = h'" using c(2) by (simp add: reaches_def)
  have "p < length (sy_last_progress_vector h')" using inv assms(5) by (simp add: synthetic_inv_def)
  then have "sy_hitCallback P p ?data w = Inr (\<lparr>sb_address = ?a, sb_data = [b']\<rparr>, set_driver ?h2 w1)"
    using c(1) by (simp add: sy_hitCallback_def d1)
  moreover have "synthetic_inv P (w_time w) (write_bytes r [b'] mem) ?h2" using inv by (simp add: synthetic_inv_def latencies_ok_def)
  moreover have "synthetic_expects ?h2 p' r'" if "synthetic_expects ?h p' r'" "\<not> (p' = p \<and> same_slot r' r)" for p' r'
  proof -
    have "p' \<noteq> p" using that gen_expects_slot [OF ex] by (auto simp: synthetic_expects_def)
    then show ?thesis using that(1) c(3) by (simp add: synthetic_expects_def after_def)
  qed
  ultimately show ?thesis using w2 rq(1) read
    by (intro exI [of _ "[b']"] exI [of _ "set_driver ?h2 w1"]) (simp add: reaches_def)
qed

interpretation sy: ruby_driver P "sy_hitCallback P" "synthetic_inv P" synthetic_expects for P
  by unfold_locales (assumption | rule sy_hit_ok)+

section \<open>The constructor\<close>

definition new_driver :: "ruby_params \<Rightarrow> nat \<Rightarrow> synthetic \<Rightarrow> bool" where
  "new_driver P k h \<longleftrightarrow> length (sy_request_generator_vector h) = k \<and> length (sy_last_progress_vector h) = NUM_PROCESSORS P
     \<and> sy_lock_vector h \<noteq> [] \<and> latencies_ok h \<and> sy_done_counter h = 0
     \<and> (\<forall>j < k. rg_node (sy_request_generator_vector h ! j) = j \<and> rg_last_transition (sy_request_generator_vector h ! j) = 0
          \<and> rg_status (sy_request_generator_vector h ! j) = RequestGeneratorStatus_Thinking)"

lemma new_driver_inv:
  assumes "new_driver P (NUM_PROCESSORS P) h" "0 \<le> now" "now < 2 ^ 30"
  shows "synthetic_inv P now mem h"
proof -
  let ?gs = "sy_request_generator_vector h"
  have st: "rg_status (?gs ! j) = RequestGeneratorStatus_Thinking" if "j < length ?gs" for j using assms(1) that by (simp add: new_driver_def)
  then have "\<forall>g \<in> set ?gs. \<not> is_done g" by (auto simp: in_set_conv_nth is_done_def)
  then have "filter is_done ?gs = []" by (simp add: filter_empty_conv)
  then show ?thesis using assms st
    by (auto simp: synthetic_inv_def new_driver_def gens_ok_def locks_ok_def critical_def)
qed

lemma RequestGenerator_ok:
  assumes "reaches w h w'" "new_driver P k h"
  shows "\<exists>w'' h''. RequestGenerator P k w' = Inr w'' \<and> reaches w h'' w'' \<and> new_driver P (Suc k) h''"
proof -
  have lv: "sy_lock_vector h \<noteq> []" using assms(2) by (simp add: new_driver_def)
  obtain a l w1 where p: "sy_pickAddress P k w' = Inr (a, w1)" "l \<noteq> []" "reaches w (h\<lparr>sy_lock_vector := l\<rparr>) w1"
    using sy_pickAddress_ok [OF assms(1) lv] by blast
  obtain r w2 where d: "random_draw w1 = (r, w2)" by force
  have w2: "reaches w (h\<lparr>sy_lock_vector := l\<rparr>) w2" by (rule reaches_draw [OF p(3) d])
  have pos: "0 < 1 + int (r mod 200)" by simp
  obtain w3 where w3: "rg_sleep k (1 + int (r mod 200)) w2 = Inr w3" "reaches w (h\<lparr>sy_lock_vector := l\<rparr>) w3"
    using reaches_sleep [OF w2 pos] by blast
  let ?g = "\<lparr>rg_node = k, rg_status = RequestGeneratorStatus_Thinking, rg_counter = 0, rg_last_transition = 0, rg_address = a\<rparr>"
  let ?h = "h\<lparr>sy_lock_vector := l, sy_request_generator_vector := sy_request_generator_vector h @ [?g]\<rparr>"
  have "RequestGenerator P k w' = Inr (set_driver ?h w3)"
    using p(1) d w3 by (simp add: RequestGenerator_def Let_def reaches_def)
  moreover have "new_driver P (Suc k) ?h" using assms(2) p(2)
    by (auto simp: new_driver_def latencies_ok_def nth_append less_Suc_eq)
  ultimately show ?thesis using reaches_set [OF w3(2)] by blast
qed

lemma SyntheticDriver_ok:
  assumes "evq_inv w" "0 < SYNTHETIC_LOCKS P"
  shows "\<exists>w' h. SyntheticDriver P False w = Inr w' \<and> reaches w h w' \<and> new_driver P (NUM_PROCESSORS P) h"
proof -
  let ?h0 = "\<lparr>sy_last_progress_vector = replicate (NUM_PROCESSORS P) 0, sy_request_generator_vector = [],
              sy_lock_vector = replicate (SYNTHETIC_LOCKS P) (-1), sy_done_counter = 0,
              sy_test_latency = Histogram 1 50, sy_swap_latency = Histogram 1 50, sy_release_latency = Histogram 1 50,
              sy_finish_time = 0\<rparr>"
  have "counts_samples [] (Histogram 1 50)" by (rule Histogram_ok) simp_all
  then have n0: "new_driver P 0 ?h0" using assms(2) by (auto simp: new_driver_def latencies_ok_def)
  have r0: "reaches w ?h0 (set_driver ?h0 w)" by (rule reaches_set [OF reaches_refl [OF assms(1)]])
  have "\<exists>w' h. rfold (RequestGenerator P) [0..<k] (set_driver ?h0 w) = Inr w' \<and> reaches w h w' \<and> new_driver P k h" for k
  proof (induction k)
    case 0
    show ?case using n0 r0 by auto
  next
    case (Suc k)
    then obtain w' h where w': "rfold (RequestGenerator P) [0..<k] (set_driver ?h0 w) = Inr w'" "reaches w h w'" "new_driver P k h" by blast
    obtain w'' h'' where "RequestGenerator P k w' = Inr w''" "reaches w h'' w''" "new_driver P (Suc k) h''"
      using RequestGenerator_ok [OF w'(2,3)] by blast
    then show ?case using w'(1) by (auto simp: rfold_append)
  qed
  then obtain w1 h where w1: "rfold (RequestGenerator P) [0..<NUM_PROCESSORS P] (set_driver ?h0 w) = Inr w1" "reaches w h w1"
      "new_driver P (NUM_PROCESSORS P) h" by blast
  have ev: "evq_inv w1" using w1(2) by (simp add: reaches_def)
  have one: "(0 :: int) < 1" by simp
  obtain w2 where w2: "scheduleEvent (Some driver_consumer) 1 w1 = Inr w2" "evq_inv w2" "w_time w2 = w_time w1" "w_sys w2 = w_sys w1"
      "sched_reach w1 w2" by (rule scheduled [OF ev one])
  then have "reaches w h w2" using w1(2) sched_reach_trans [OF w2(5)] by (simp add: reaches_def driver_frame_def the_driver_def)
  then show ?thesis using w1(1,3) w2(1) by (auto simp: SyntheticDriver_def Let_def)
qed

section \<open>Wakeups\<close>

definition sy_good :: "ruby_params \<Rightarrow> memory \<Rightarrow> synthetic_world \<Rightarrow> bool" where
  "sy_good P mem w \<longleftrightarrow> good P (synthetic_inv P) synthetic_expects mem w \<and> coherent mem w"

lemma sy_local_step:
  assumes "sy_good P mem w" "reaches w h w'" "synthetic_inv P (w_time w) mem h"
    "\<And>p r. p < NUM_PROCESSORS P \<Longrightarrow> awaited (the_seq w p) r \<Longrightarrow> demand r \<Longrightarrow> synthetic_expects h p r"
  shows "sy_good P mem w' \<and> settled mem w mem w'"
proof -
  have f: "driver_frame w w'" "the_driver w' = h" "w_time w' = w_time w" using assms(2) by (simp_all add: reaches_def)
  have q: "quiet w w'" by (rule driver_frame_quiet [OF f(1)])
  have g: "good P (synthetic_inv P) synthetic_expects mem w" "coherent mem w" using assms(1) by (simp_all add: sy_good_def)
  have "sys_ok P w'" by (rule quiet_sys_ok [OF q goodD(1) [OF g(1)]])
  moreover have "the_seq w' = the_seq w" using f(1) by (auto simp: driver_frame_def the_seq_def fun_eq_iff)
  ultimately have "good P (synthetic_inv P) synthetic_expects mem w'" using g(1) assms(3,4) f by (auto simp: good_def)
  moreover have "settled mem w mem w'" using f(1) by (intro settled_quiet [OF g(2)]) (auto simp: driver_frame_def the_cache_def)
  ultimately show ?thesis by (simp add: sy_good_def settled_def)
qed

text \<open>The three wakeups of a generator: it waits for the answer of the request that it makes.\<close>

definition next_status :: "request_generator_status \<Rightarrow> request_generator_status" where
  "next_status s = (if s = RequestGeneratorStatus_Thinking then RequestGeneratorStatus_Test_Pending
     else if s = RequestGeneratorStatus_Holding then RequestGeneratorStatus_Release_Pending else RequestGeneratorStatus_Swap_Pending)"

definition next_type :: "request_generator_status \<Rightarrow> cache_request_type" where
  "next_type s = (if s = RequestGeneratorStatus_Thinking then CacheRequestType_LD
     else if s = RequestGeneratorStatus_Holding then CacheRequestType_ST else CacheRequestType_ATOMIC)"

definition awake :: "request_generator_status \<Rightarrow> bool" where
  "awake s \<longleftrightarrow> s = RequestGeneratorStatus_Thinking \<or> s = RequestGeneratorStatus_Holding \<or> s = RequestGeneratorStatus_Before_Swap"

lemma rg_wakeup_cases:
  assumes "k < length (sy_request_generator_vector (the_driver w))"
  shows "rg_wakeup P k w = (let s = rg_status (sy_request_generator_vector (the_driver w) ! k)
     in if awake s then rbind (rg_enter k (next_status s) w) (rg_initiate P k (next_type s)
          (if s = RequestGeneratorStatus_Thinking then 1 else if s = RequestGeneratorStatus_Holding then 3 else 2))
        else Inl Error_exit)"
  using assms by (auto simp: rg_wakeup_def the_generator_def initiateTest_def initiateRelease_def initiateSwap_def Let_def
      awake_def next_status_def next_type_def fun_eq_iff cong: rbind_cong)

lemma wake_enter:
  assumes "sy_good P mem w" "k < NUM_PROCESSORS P" "g = sy_request_generator_vector (the_driver w) ! k" "awake (rg_status g)"
  shows "\<exists>w1. rg_enter k (next_status (rg_status g)) w = Inr w1 \<and> sy_good P mem w1 \<and> settled mem w mem w1
    \<and> driver_frame w w1 \<and> w_time w1 = w_time w \<and> the_driver w1 = (the_driver w)\<lparr>sy_request_generator_vector :=
         (sy_request_generator_vector (the_driver w))[k := g\<lparr>rg_status := next_status (rg_status g), rg_last_transition := w_time w\<rparr>]\<rparr>"
proof -
  let ?h = "the_driver w" and ?gs = "sy_request_generator_vector (the_driver w)"
  let ?g = "g\<lparr>rg_status := next_status (rg_status g), rg_last_transition := w_time w\<rparr>"
  let ?h1 = "?h\<lparr>sy_request_generator_vector := ?gs[k := ?g]\<rparr>"
  have g: "good P (synthetic_inv P) synthetic_expects mem w" using assms(1) by (simp add: sy_good_def)
  have inv: "synthetic_inv P (w_time w) mem ?h" by (rule goodD(3) [OF g])
  have ev: "evq_inv w" using goodD(1) [OF g] by (simp add: sys_ok_def)
  have k: "k < length ?gs" using inv assms(2) by (simp add: synthetic_inv_def)
  obtain w1 where w1: "rg_enter k (next_status (rg_status g)) w = Inr w1" "reaches w ?h1 w1"
    using rg_enter_ok [OF reaches_refl [OF ev] k] assms(3) by blast
  have cr: "critical ?g = critical g" "\<not> is_done ?g" "\<not> is_done g"
    using assms(4) by (auto simp: critical_def is_done_def awake_def next_status_def)
  have "locks_ok mem (?gs[k := ?g])"
  proof (rule locks_ok_update)
    show lk: "locks_ok mem ?gs" using inv by (simp add: synthetic_inv_def)
    show "byte_at mem (rg_address ?g) = LockStatus_Locked" if "critical ?g"
      using lk that cr(1) k assms(3) by (simp add: locks_ok_def)
    show "rg_address (?gs ! j) \<noteq> rg_address ?g" if "critical ?g" "j < length ?gs" "j \<noteq> k" "critical (?gs ! j)" for j
    proof -
      have "critical (?gs ! k)" using that(1) cr(1) assms(3) by simp
      then have "rg_address (?gs ! j) \<noteq> rg_address (?gs ! k)" using lk k that(2-4) unfolding locks_ok_def by blast
      then show ?thesis using assms(3) by simp
    qed
  qed (use k in simp_all)
  moreover have "after (w_time w) ?h k ?g ?h1" using inv assms(2,3) cr(2) by (simp add: after_def synthetic_inv_def gens_ok_def latencies_ok_def)
  ultimately have inv1: "synthetic_inv P (w_time w) mem ?h1" using after_inv [OF inv assms(2)] cr(3) assms(3) by blast
  have "synthetic_expects ?h1 p r" if "p < NUM_PROCESSORS P" "awaited (the_seq w p) r" "demand r" for p r
  proof -
    have e: "synthetic_expects ?h p r" using goodD(4) [OF g that] .
    have "\<not> gen_expects g r" using assms(4) by (auto simp: gen_expects_def awake_def)
    then have "p \<noteq> k" using e assms(3) by (auto simp: synthetic_expects_def)
    then show ?thesis using e by (simp add: synthetic_expects_def)
  qed
  then have "sy_good P mem w1 \<and> settled mem w mem w1" using sy_local_step [OF assms(1) w1(2) inv1] by blast
  then show ?thesis using w1 by (intro exI [of _ w1]) (simp add: reaches_def)
qed

text \<open>The request of the wakeup.\<close>

lemma generator_request:
  assumes "k < length (sy_request_generator_vector (the_driver w1))" "rg_status (sy_request_generator_vector (the_driver w1) ! k) = next_status s"
    "awake s" "r = CacheMsg (rg_address (sy_request_generator_vector (the_driver w1) ! k)) (next_type s) pc AccessModeType_UserMode 1 PrefetchBit_No w1"
  shows "request_ok r" "rq_Time r \<le> w_time w1" "demand r" "synthetic_expects (the_driver w1) k r"
  using assms offset_less [of "rg_address (sy_request_generator_vector (the_driver w1) ! k)"]
  by (auto simp: CacheMsg_def request_ok_def demand_def synthetic_expects_def gen_expects_def awake_def next_status_def next_type_def is_write_type_def)

lemma sy_wake_ok:
  assumes "sy_good P mem w" "sy_wake P k w = Inr w'"
  shows "\<exists>mem'. sy_good P mem' w' \<and> settled mem w mem' w'"
proof -
  have g: "good P (synthetic_inv P) synthetic_expects mem w" "coherent mem w" using assms(1) by (simp_all add: sy_good_def)
  have inv: "synthetic_inv P (w_time w) mem (the_driver w)" by (rule goodD(3) [OF g(1)])
  have ev: "evq_inv w" "0 < DEADLOCK_THRESHOLD P" using goodD(1) [OF g(1)] by (simp_all add: sys_ok_def params_ok_def)
  show ?thesis
  proof (cases "k < NUM_PROCESSORS P")
    case True
    let ?g = "sy_request_generator_vector (the_driver w) ! k"
    have k: "k < length (sy_request_generator_vector (the_driver w))" using True inv by (simp add: synthetic_inv_def)
    define pc :: address where "pc = (if rg_status ?g = RequestGeneratorStatus_Thinking then 1 else if rg_status ?g = RequestGeneratorStatus_Holding then 3 else 2)"
    have run: "rg_wakeup P k w = Inr w'" using assms(2) True by (simp add: sy_wake_def)
    have a: "awake (rg_status ?g)" and run2: "rbind (rg_enter k (next_status (rg_status ?g)) w) (rg_initiate P k (next_type (rg_status ?g)) pc) = Inr w'"
      using run unfolding rg_wakeup_cases [OF k] Let_def pc_def by (auto split: if_splits)
    obtain w1 where w1: "rg_enter k (next_status (rg_status ?g)) w = Inr w1" "sy_good P mem w1" "settled mem w mem w1"
        "the_driver w1 = (the_driver w)\<lparr>sy_request_generator_vector := (sy_request_generator_vector (the_driver w))
           [k := ?g\<lparr>rg_status := next_status (rg_status ?g), rg_last_transition := w_time w\<rparr>]\<rparr>"
      using wake_enter [OF assms(1) True refl a] by blast
    let ?g1 = "sy_request_generator_vector (the_driver w1) ! k"
    define r where "r = CacheMsg (rg_address ?g1) (next_type (rg_status ?g)) pc AccessModeType_UserMode 1 PrefetchBit_No w1"
    have k1: "k < length (sy_request_generator_vector (the_driver w1))" "rg_status ?g1 = next_status (rg_status ?g)" "rg_node ?g1 = k"
      using k True inv by (simp_all add: w1(4) synthetic_inv_def gens_ok_def)
    have mk: "makeRequest P (sy_hitCallback P) k r w1 = Inr w'"
      using run2 w1(1) k1 by (simp add: rg_initiate_def the_generator_def r_def)
    then have ready: "sq_isReady P (the_seq w1 k) r" by (simp add: makeRequest_def request_body_def)
    note q = generator_request [OF k1(1,2) a r_def]
    have g1: "good P (synthetic_inv P) synthetic_expects mem w1" "coherent mem w1" using w1(2) by (simp_all add: sy_good_def)
    obtain w'' mem' where m: "makeRequest P (sy_hitCallback P) k r w1 = Inr w''" "good P (synthetic_inv P) synthetic_expects mem' w''"
        "settled mem w1 mem' w''" using sy.makeRequest_ok [OF g1 True q(1,2) ready] q(4) by blast
    have e: "w'' = w'" using m(1) mk by simp
    have "settled mem w mem' w'" using settled_trans [OF w1(3) m(3)] by (simp only: e)
    moreover have "coherent mem' w'" using m(3) by (simp add: settled_def e)
    ultimately show ?thesis using m(2) by (auto simp: sy_good_def e)
  next
    case False
    have "reaches w (the_driver w) w'"
    proof (cases "sy_done_counter (the_driver w) < int (NUM_PROCESSORS P)")
      case True
      then have s: "scheduleEvent (Some driver_consumer) (DEADLOCK_THRESHOLD P) w = Inr w'" using assms(2) False by (simp add: sy_wake_def sy_wakeup_def)
      obtain w2 where w2: "scheduleEvent (Some driver_consumer) (DEADLOCK_THRESHOLD P) w = Inr w2" "evq_inv w2" "w_time w2 = w_time w"
          "w_sys w2 = w_sys w" "sched_reach w w2" by (rule scheduled [OF ev])
      then show ?thesis using s by (simp add: reaches_def driver_frame_def the_driver_def)
    next
      case nd: False
      then have "w' = w" using assms(2) False by (simp add: sy_wake_def sy_wakeup_def)
      then show ?thesis using reaches_refl [OF ev(1)] by simp
    qed
    then show ?thesis using sy_local_step [OF assms(1) _ inv goodD(4) [OF g(1)]] by blast
  qed
qed

section \<open>Runs\<close>

text \<open>The run takes less than \<open>2 ^ 30\<close> cycles: a longer latency could overflow the bin size of a histogram.\<close>

definition synthetic_limit :: int where
  "synthetic_limit = 2 ^ 30 - 1"

interpretation sy_system: ruby_system P "sy_hitCallback P" "synthetic_inv P" synthetic_expects synthetic_limit "SyntheticDriver P SIMICS" "sy_wake P"
  for P SIMICS
proof unfold_locales
  show "synthetic_inv P now' mem h" if "synthetic_inv P now mem h" "now \<le> now'" "now' \<le> synthetic_limit" for now now' mem h
    using that by (fastforce simp: synthetic_inv_def gens_ok_def synthetic_limit_def)
next
  fix mem and w w' :: synthetic_world
  assume b: "boot P synthetic_limit mem w" and c: "SyntheticDriver P SIMICS w = Inr w'"
  have sys: "sys_ok P w" "mem_ok mem" "0 \<le> w_time w" "w_time w < 2 ^ 30" using b by (simp_all add: boot_def synthetic_limit_def)
  have P: "0 < NUM_PROCESSORS P" "evq_inv w" using sys(1) by (simp_all add: sys_ok_def params_ok_def)
  have no: "SIMICS = False" using c by (auto simp: SyntheticDriver_def)
  have "SYNTHETIC_LOCKS P \<noteq> 0"
  proof
    assume z: "SYNTHETIC_LOCKS P = 0"
    have "rfold (RequestGenerator P) (0 # xs) v = Inl Undefined" if "sy_lock_vector (the_driver v) = []" for xs v
      using that by (simp add: RequestGenerator_def sy_pickAddress_def)
    moreover have "[0..<NUM_PROCESSORS P] = 0 # [1..<NUM_PROCESSORS P]" using P(1) by (simp add: upt_rec)
    ultimately show False using c z by (simp add: SyntheticDriver_def Let_def ruby_simps)
  qed
  then obtain v h where v: "SyntheticDriver P False w = Inr v" "reaches w h v" "new_driver P (NUM_PROCESSORS P) h"
    using SyntheticDriver_ok [OF P(2)] by blast
  have w': "w' = v" using c v(1) no by simp
  have f: "driver_frame w w'" "the_driver w' = h" "w_time w' = w_time w" using v(2) by (simp_all add: w' reaches_def)
  have seqs: "the_seq w' = the_seq w" using f(1) by (auto simp: driver_frame_def the_seq_def fun_eq_iff)
  have "sys_ok P w'" by (rule quiet_sys_ok [OF driver_frame_quiet [OF f(1)] sys(1)])
  moreover have "synthetic_inv P (w_time w') mem h" unfolding f(3) by (rule new_driver_inv [OF v(3) sys(3,4)])
  moreover have "\<not> awaited (the_seq w' p) r" if "p < NUM_PROCESSORS P" for p r using b that by (simp add: boot_def seqs)
  ultimately show "good P (synthetic_inv P) synthetic_expects mem w'" using sys(2) f(2) by (simp add: good_def)
  show "ry_caches (w_sys w') = ry_caches (w_sys w)" using f(1) by (simp add: driver_frame_def)
next
  fix mem k and w w' :: synthetic_world
  assume "good P (synthetic_inv P) synthetic_expects mem w" "coherent mem w" "sy_wake P k w = Inr w'"
  then show "\<exists>mem'. good P (synthetic_inv P) synthetic_expects mem' w' \<and> settled mem w mem' w'"
    using sy_wake_ok [of P mem w k w'] by (auto simp: sy_good_def)
qed

definition synthetic_run :: "ruby_params \<Rightarrow> memory \<Rightarrow> synthetic_world \<Rightarrow> bool" where
  "synthetic_run P = ruby_run P synthetic_limit (sy_hitCallback P) (SyntheticDriver P False) (sy_wake P)"

lemma synthetic_run_good: "synthetic_run P mem w \<Longrightarrow> sy_good P mem w"
  unfolding synthetic_run_def sy_good_def by (rule sy_system.run_good)

end
