(* ===== verification/LockProperties.thy ===== *)
theory LockProperties
  imports LockSafety SmallSystem
begin

text \<open>
  The properties of the locks of the synthetic driver and of histograms. The example is a run of the small system in
  which the first generator tests, swaps and holds a lock.
\<close>

section \<open>One round of a request\<close>

definition gen :: "synthetic_world \<Rightarrow> nat \<Rightarrow> request_generator" where
  "gen w k = sy_request_generator_vector (the_driver w) ! k"

lemma schedule_driver: "scheduleEvent c d w = Inr w' \<Longrightarrow> the_driver w' = the_driver w"
  by (auto simp: scheduleEvent_def the_driver_def dest!: schedule_frame(1))

text \<open>The status after an answer that finds the lock free.\<close>

lemma tested_status:
  assumes "rg_tested P k (gen w k) data w = Inr (data', w')" "readByte data = Inr b" "b \<noteq> LockStatus_Locked"
    "k < length (sy_request_generator_vector (the_driver w))"
  shows "rg_status (gen w' k) = RequestGeneratorStatus_Before_Swap"
  using assms by (auto simp: rg_tested_def rbind_eq_Inr recordTestLatency_def rg_enter_def the_generator_def rg_sleep_def gen_def
      set_generator_def Let_def ruby_simps dest!: schedule_driver)

lemma swapped_status:
  assumes "rg_swapped P k (gen w k) data w = Inr (data', w')" "readByte data = Inr b" "b \<noteq> LockStatus_Locked"
    "k < length (sy_request_generator_vector (the_driver w))"
  shows "rg_status (gen w' k) = RequestGeneratorStatus_Holding"
  using assms by (auto simp: rg_swapped_def rbind_eq_Inr recordSwapLatency_def rg_enter_def the_generator_def rg_sleep_def gen_def
      set_generator_def Let_def ruby_simps dest!: schedule_driver)

lemma hit_status:
  assumes "sy_hitCallback P k data w = Inr (data', w')" "readByte data = Inr b" "b \<noteq> LockStatus_Locked"
  shows "rg_status (gen w k) = RequestGeneratorStatus_Test_Pending \<Longrightarrow> rg_status (gen w' k) = RequestGeneratorStatus_Before_Swap"
    "rg_status (gen w k) = RequestGeneratorStatus_Swap_Pending \<Longrightarrow> rg_status (gen w' k) = RequestGeneratorStatus_Holding"
proof -
  obtain w1 where p: "rg_performCallback P k k data w = Inr (data', w1)" "gen w' k = gen w1 k"
    using assms(1) by (auto simp: sy_hitCallback_def rbind_eq_Inr gen_def ruby_simps)
  have k: "k < length (sy_request_generator_vector (the_driver w))"
    using p(1) by (auto simp: rg_performCallback_def the_generator_def rbind_eq_Inr lref_eq_Inr)
  show "rg_status (gen w' k) = RequestGeneratorStatus_Before_Swap" if "rg_status (gen w k) = RequestGeneratorStatus_Test_Pending"
    using p that k tested_status [OF _ assms(2,3) k] by (auto simp: rg_performCallback_def the_generator_def rbind_eq_Inr gen_def [symmetric])
  show "rg_status (gen w' k) = RequestGeneratorStatus_Holding" if "rg_status (gen w k) = RequestGeneratorStatus_Swap_Pending"
    using p that k swapped_status [OF _ assms(2,3) k] by (auto simp: rg_performCallback_def the_generator_def rbind_eq_Inr gen_def [symmetric])
qed

text \<open>A reachable state in which no cache has a line and generator 0 is in a given state, with no request or with one.\<close>

definition resting :: "request_generator_status \<Rightarrow> synthetic_world \<Rightarrow> bool" where
  "resting s w \<longleftrightarrow> synthetic_run small_params zero_memory w \<and> no_lines w \<and> rg_status (gen w 0) = s \<and> (\<forall>r. \<not> awaited (the_seq w 0) r)"

definition waiting :: "request_generator_status \<Rightarrow> cache_msg \<Rightarrow> synthetic_world \<Rightarrow> bool" where
  "waiting s r w \<longleftrightarrow> synthetic_run small_params zero_memory w \<and> no_lines w \<and> rg_status (gen w 0) = s \<and> demand r
     \<and> (\<forall>r'. awaited (the_seq w 0) r' \<longleftrightarrow> r' = r)"

lemma wake_waiting:
  assumes "resting s w" "awake s"
  shows "\<exists>w' r. waiting (next_status s) r w' \<and> rq_Type r = next_type s"
proof -
  let ?P = small_params
  have w: "synthetic_run ?P zero_memory w" "no_lines w" "rg_status (gen w 0) = s" "\<forall>r. \<not> awaited (the_seq w 0) r"
    using assms(1) by (simp_all add: resting_def)
  have g: "sy_good ?P zero_memory w" by (rule synthetic_run_good [OF w(1)])
  have n: "0 < NUM_PROCESSORS ?P" "BLOCK_BITS ?P = 6" "0 < SEQUENCER_OUTSTANDING_REQUESTS ?P" by (simp_all add: small_params_def)
  have s: "awake (rg_status (gen w 0))" using w(3) assms(2) by simp
  obtain w1 where w1: "rg_enter 0 (next_status s) w = Inr w1" "sy_good ?P zero_memory w1" "settled zero_memory w zero_memory w1"
      "driver_frame w w1" "the_driver w1 = (the_driver w)\<lparr>sy_request_generator_vector :=
         (sy_request_generator_vector (the_driver w))[0 := (gen w 0)\<lparr>rg_status := next_status s, rg_last_transition := w_time w\<rparr>]\<rparr>"
    using wake_enter [OF g n(1) gen_def s] unfolding w(3) by blast
  have good: "good ?P (synthetic_inv ?P) synthetic_expects zero_memory w" "good ?P (synthetic_inv ?P) synthetic_expects zero_memory w1"
      "coherent zero_memory w1" using g w1(2) by (simp_all add: sy_good_def)
  have inv: "synthetic_inv ?P (w_time w) zero_memory (the_driver w)" by (rule goodD(3) [OF good(1)])
  then have k: "0 < length (sy_request_generator_vector (the_driver w))" using n(1) by (simp add: synthetic_inv_def)
  have seqs: "the_seq w1 = the_seq w" using w1(4) by (auto simp: driver_frame_def the_seq_def fun_eq_iff)
  have l1: "no_lines w1" using no_lines_settled [OF w(2) w1(3)] by blast
  have g1: "gen w1 0 = (gen w 0)\<lparr>rg_status := next_status s, rg_last_transition := w_time w\<rparr>"
    using k by (simp add: gen_def w1(5) del: length_greater_0_conv)
  have "rg_node (gen w 0) = 0" using inv k by (simp add: gen_def synthetic_inv_def gens_ok_def del: length_greater_0_conv)
  then have k1: "0 < length (sy_request_generator_vector (the_driver w1))" "rg_status (gen w1 0) = next_status s" "rg_node (gen w1 0) = 0"
    using k by (simp_all add: g1 w1(5) del: length_greater_0_conv)
  define pc :: address where "pc = (if s = RequestGeneratorStatus_Thinking then 1 else if s = RequestGeneratorStatus_Holding then 3 else 2)"
  define r where "r = CacheMsg (rg_address (gen w1 0)) (next_type s) pc AccessModeType_UserMode 1 PrefetchBit_No w1"
  note q = generator_request [OF k1(1) k1(2) [unfolded gen_def] assms(2) r_def [unfolded gen_def]]
  have ty: "rq_Type r = next_type s" "rq_Prefetch r = PrefetchBit_No" by (simp_all add: r_def CacheMsg_def)
  have sq: "seq_ok (w_time w1) (the_seq w1 0)" using sys_okD(3) [OF goodD(1) [OF good(2)] n(1)] .
  have ready: "sq_isReady ?P (the_seq w1 0) r" by (rule idle_isReady [OF sq _ n(3)]) (use w(4) seqs in simp)
  obtain hit w' m where d: "doRequest ?P (sy_hitCallback ?P) 0 r w1 = Inr (hit, w')" "good ?P (synthetic_inv ?P) synthetic_expects m w'"
      "settled zero_memory w1 m w'" "\<forall>r'. awaited (the_seq w' 0) r' \<longleftrightarrow> awaited (the_seq w1 0) r' \<or> \<not> hit \<and> r' = r"
    using sy.doRequest_ok [OF good(2,3) n(1) q(1,2)] q(4) ready by (auto simp: sq_isReady_def)
  have miss: "\<not> hit \<and> the_driver w' = the_driver w1"
    by (rule doRequest_misses [OF l1 sys_okD(2) [OF goodD(1) [OF good(2)]] n(2) d(1)])
  have l': "no_lines w'" "m = zero_memory" using no_lines_settled [OF l1 d(3)] by blast+
  have "next_type s \<noteq> CacheRequestType_IFETCH" by (simp add: next_type_def)
  then have "makeRequest ?P (sy_hitCallback ?P) 0 r w1 = Inr w'"
    using d(1) ready by (simp add: makeRequest_def request_body_def ty)
  then have wk: "sy_wake ?P 0 w = Inr w'"
    using n(1) w1(1) k1(1,3) assms(2) rg_wakeup_cases [OF k, of ?P]
    by (simp add: sy_wake_def Let_def w(3) [unfolded gen_def] rg_initiate_def the_generator_def r_def pc_def gen_def)
  have st: "settled zero_memory w zero_memory w'" using settled_trans [OF w1(3) d(3)] l'(2) by simp
  from w(1) wk st have "synthetic_run ?P zero_memory w'" unfolding synthetic_run_def by (rule ruby_run.wakeup)
  then have "waiting (next_status s) r w'"
    using l'(1) d(4) miss w(4) seqs q(3) k1(2) by (simp add: waiting_def gen_def)
  then show ?thesis using ty(1) by blast
qed

lemma answer_resting:
  assumes "waiting s r w" "rq_Type r = ty" "s = RequestGeneratorStatus_Test_Pending \<and> s' = RequestGeneratorStatus_Before_Swap \<and> \<not> is_write_type ty
    \<or> s = RequestGeneratorStatus_Swap_Pending \<and> s' = RequestGeneratorStatus_Holding"
  shows "\<exists>w' mem. synthetic_run small_params mem w' \<and> (\<not> is_write_type ty \<longrightarrow> mem = zero_memory) \<and> no_lines w' \<and> rg_status (gen w' 0) = s'
    \<and> (\<forall>r. \<not> awaited (the_seq w' 0) r)"
proof -
  let ?P = small_params
  have w: "synthetic_run ?P zero_memory w" "no_lines w" "rg_status (gen w 0) = s" "demand r" "\<forall>r'. awaited (the_seq w 0) r' \<longleftrightarrow> r' = r"
    using assms(1) by (simp_all add: waiting_def)
  have g: "good ?P (synthetic_inv ?P) synthetic_expects zero_memory w" using synthetic_run_good [OF w(1)] by (simp add: sy_good_def)
  have n: "0 < NUM_PROCESSORS ?P" by (simp add: small_params_def)
  have aw: "awaited (the_seq w 0) r" using w(5) by simp
  obtain mem' w' where a: "answer_request ?P (sy_hitCallback ?P) 0 r zero_memory w = Inr (mem', w')"
      "good ?P (synthetic_inv ?P) synthetic_expects mem' w'" "\<forall>r'. awaited (the_seq w' 0) r' \<longleftrightarrow> awaited (the_seq w 0) r' \<and> r' \<noteq> r"
      "\<forall>c. view 6 (the_cache w' c) = view 6 (the_cache w c)" "\<not> is_write_type (rq_Type r) \<longrightarrow> mem' = zero_memory"
    using sy_system.answer_ok [OF g n aw] by blast
  have l': "no_lines w'" using w(2) a(4) by (simp add: no_lines_def)
  have sys: "sys_ok ?P w" "mem_ok zero_memory" "sys_ok ?P w'" using goodD(1,2) [OF g] goodD(1) [OF a(2)] by blast+
  have one: "read_bytes zero_memory r = [0]"
  proof -
    have "rq_Size r = 1" using goodD(4) [OF g n aw w(4)] by (simp add: synthetic_expects_def gen_expects_def)
    then show ?thesis using read_one [OF sys(2)] offset_less by (simp add: byte_at_def zero_memory_def)
  qed
  obtain v sb where v: "sy_hitCallback ?P 0 \<lparr>sb_address = rq_Address r, sb_data = [0]\<rparr> v = Inr (sb, w')" "the_driver v = the_driver w"
    using answer_data [OF a(1) sys(1,2) n aw w(4)] unfolding one by blast
  have b: "readByte \<lparr>sb_address = rq_Address r, sb_data = [0]\<rparr> = Inr 0" "(0 :: byte) \<noteq> LockStatus_Locked" by (simp_all add: LockStatus_Locked_def)
  have "gen v 0 = gen w 0" using v(2) by (simp add: gen_def)
  then have st: "rg_status (gen w' 0) = s'" using hit_status [OF v(1) b] w(3) assms(3) by auto
  have "controllers ?P synthetic_limit w' w'"
  proof -
    have "w_time w' \<le> synthetic_limit" using goodD(3) [OF a(2)] by (simp add: synthetic_inv_def synthetic_limit_def)
    then show ?thesis using sys(3) by (auto simp: controllers_def sys_ok_def)
  qed
  then have "synthetic_run ?P mem' w'"
    using w(1) n aw a(1) no_lines_coherent [OF l'] unfolding synthetic_run_def by (blast intro: ruby_run.answered)
  then show ?thesis using a(3,5) l' st w(5) assms(2) by blast
qed

text \<open>Generator 0 gets the lock.\<close>

lemma small_holder: "\<exists>mem w. synthetic_run small_params mem w \<and> rg_status (gen w 0) = RequestGeneratorStatus_Holding"
proof -
  let ?P = small_params
  have P: "0 < SYNTHETIC_LOCKS ?P" "0 < NUM_PROCESSORS ?P" by (simp_all add: small_params_def)
  let ?w0 = "small_ruby 1 undefined :: synthetic_world"
  have ev: "evq_inv ?w0" by (rule small_ruby_queue) simp
  obtain w h where w: "SyntheticDriver ?P False ?w0 = Inr w" "reaches ?w0 h w" "new_driver ?P (NUM_PROCESSORS ?P) h"
    using SyntheticDriver_ok [OF ev P(1)] by blast
  have "boot ?P synthetic_limit zero_memory ?w0" by (rule small_boot) (simp_all add: synthetic_limit_def)
  then have run: "synthetic_run ?P zero_memory w" using w(1) unfolding synthetic_run_def by (rule ruby_run.start)
  have same: "the_seq w = small_sequencer" "the_cache w = empty_cache" "the_driver w = h"
    using w(2) small_ruby_reads(1,2) [of 1 "undefined :: synthetic"]
    by (auto simp: reaches_def driver_frame_def the_seq_def the_cache_def fun_eq_iff)
  have "resting RequestGeneratorStatus_Thinking w"
    using run w(3) P(2) by (simp add: resting_def same gen_def new_driver_def no_lines_def view_def empty_cache_ok
        awaited_def request_table_def small_sequencer_def)
  then obtain w1 r1 where 1: "waiting RequestGeneratorStatus_Test_Pending r1 w1" "rq_Type r1 = CacheRequestType_LD"
    using wake_waiting [of RequestGeneratorStatus_Thinking w] by (auto simp: awake_def next_status_def next_type_def)
  have "\<not> is_write_type CacheRequestType_LD" by (simp add: is_write_type_def)
  then obtain w2 where "resting RequestGeneratorStatus_Before_Swap w2"
    using answer_resting [OF 1, of RequestGeneratorStatus_Before_Swap] unfolding resting_def by blast
  then obtain w3 r3 where 3: "waiting RequestGeneratorStatus_Swap_Pending r3 w3"
    using wake_waiting [of RequestGeneratorStatus_Before_Swap w2] by (auto simp: awake_def next_status_def next_type_def)
  show ?thesis using answer_resting [OF 3 refl, of RequestGeneratorStatus_Holding] by blast
qed

section \<open>Properties\<close>

text \<open>C38: the locks of the synthetic driver exclude each other. In every state of a run of less than \<open>2 ^ 30\<close> cycles, over
  coherent caches and with answers at any time and in any order, the byte of a lock that a generator holds (or is
  releasing) is locked, and no other generator holds the lock at this address.\<close>

theorem held_lock_is_exclusive:
  assumes "synthetic_run P mem w" "k < NUM_PROCESSORS P" "critical (gen w k)"
  shows "byte_at mem (rg_address (gen w k)) = LockStatus_Locked
    \<and> (\<forall>j < NUM_PROCESSORS P. j \<noteq> k \<and> critical (gen w j) \<longrightarrow> rg_address (gen w j) \<noteq> rg_address (gen w k))"
proof -
  have "synthetic_inv P (w_time w) mem (the_driver w)" using synthetic_run_good [OF assms(1)] by (simp add: sy_good_def good_def)
  then have "locks_ok mem (sy_request_generator_vector (the_driver w))" "length (sy_request_generator_vector (the_driver w)) = NUM_PROCESSORS P"
    by (simp_all add: synthetic_inv_def)
  then show ?thesis using assms(2,3) unfolding locks_ok_def gen_def by metis
qed

theorem held_lock_is_exclusive_witness:
  "\<exists>mem w. synthetic_run small_params mem w \<and> rg_status (gen w 0) = RequestGeneratorStatus_Holding
     \<and> byte_at mem (rg_address (gen w 0)) = LockStatus_Locked"
proof -
  obtain mem w where w: "synthetic_run small_params mem w" "rg_status (gen w 0) = RequestGeneratorStatus_Holding" using small_holder by blast
  have "0 < NUM_PROCESSORS small_params" "critical (gen w 0)" using w(2) by (simp_all add: small_params_def critical_def)
  from held_lock_is_exclusive [OF w(1) this] show ?thesis using w by blast
qed

lemma sum_le_squares: "\<forall>v \<in> set vs. 0 \<le> v \<Longrightarrow> 0 \<le> sum_list vs \<and> sum_list vs \<le> sum_list (map (\<lambda>v. v * v) vs)"
  for vs :: "int list"
proof (induction vs)
  case (Cons v vs)
  then have "v \<le> v * v" by (cases "v = 0") (auto simp: mult_le_cancel_right1)
  then show ?case using Cons by auto
qed simp

text \<open>C39: a linear histogram counts its samples. After adding samples from 0 up to \<open>2 ^ 30\<close> whose number and sum of squares
  fit into an \<open>int64\<close> to a new histogram with an even number of bins, no assertion fails and no multiplication overflows, bin \<open>i\<close> has the number of samples from
  \<open>i\<close> up to \<open>i + 1\<close> times the current bin size, every sample is in a bin, and the count, the sum, the sum of squares
  and the maximum are those of the samples.\<close>

theorem histogram_counts_samples:
  assumes "0 < binsize" "0 < bins" "even bins" "int bins * binsize < 2 ^ 31" "\<forall>v \<in> set vs. 0 \<le> v \<and> v < 2 ^ 30"
    "int (length vs) < 2 ^ 63" "sum_list (map (\<lambda>v. v * v) vs) < 2 ^ 63"
  shows "\<exists>h. rfold (h_add log_index) vs (Histogram binsize bins) = Inr h
    \<and> hi_data h = map (\<lambda>i. int (length (filter (\<lambda>v. v div hi_binsize h = int i) vs))) [0..<bins]
    \<and> (\<forall>v \<in> set vs. v div hi_binsize h < int bins) \<and> h_size h = int (length vs) \<and> getTotal h = sum_list vs
    \<and> hi_sumSquaredSamples h = sum_list (map (\<lambda>v. v * v) vs) \<and> hi_max h = fold max vs 0"
proof -
  have "\<exists>h. rfold (h_add log_index) vs h0 = Inr h \<and> counts_samples (rev vs @ xs) h \<and> hi_bins h = hi_bins h0"
    if "counts_samples xs h0" "\<forall>v \<in> set vs. 0 \<le> v \<and> v < 2 ^ 30" for vs xs h0
    using that
  proof (induction vs arbitrary: xs h0)
    case (Cons v vs)
    obtain h1 where h1: "h_add log_index v h0 = Inr h1" "counts_samples (v # xs) h1" "hi_bins h1 = hi_bins h0"
      using h_add_ok [OF Cons.prems(1), of v log_index] Cons.prems(2) by auto
    then show ?case using Cons.IH [OF h1(2)] Cons.prems(2) by auto
  qed auto
  from this [OF Histogram_ok [OF assms(1-4)] assms(5)] obtain h where
    h: "rfold (h_add log_index) vs (Histogram binsize bins) = Inr h" "counts_samples (rev vs) h" "hi_bins h = bins"
    by (auto simp: Histogram_def h_clear_def)
  have "v div hi_binsize h < int bins" if "v \<in> set vs" for v
    using h(2,3) that by (intro div_below) (auto simp: counts_samples_def binned_def)
  moreover have "0 \<le> sum_list vs \<and> sum_list vs \<le> sum_list (map (\<lambda>v. v * v) vs)" by (rule sum_le_squares) (use assms(5) in blast)
  then have "wrap64 (sum_list vs) = sum_list vs"
    "wrap64 (sum_list (map (\<lambda>v. v * v) vs)) = sum_list (map (\<lambda>v. v * v) vs)" using assms(7) by (simp_all add: wrap64_nonneg)
  ultimately show ?thesis using h
    by (simp add: counts_samples_def binned_def in_bin_def h_size_def getTotal_def foldr_conv_fold sum_list_rev flip: rev_filter rev_map)
qed

text \<open>Three samples in four bins of size 1: the last one makes the bins four wide.\<close>

theorem histogram_counts_samples_witness:
  "\<exists>h. rfold (h_add (\<lambda>v. 0)) [2, 3, 9] (Histogram 1 4) = Inr h \<and> (\<forall>v \<in> {2, 3, 9}. v div hi_binsize h < 4) \<and> h_size h = 3"
  using histogram_counts_samples [of 1 4 "[2, 3, 9]" "\<lambda>v. 0"] by auto

end
