(* ===== verification/WaitList.thy ===== *)
theory WaitList
  imports Loops
begin

text \<open>
  The intrusive lists of pyrite/Waiter.cpp and Waiter.h: every object that can wait, and every list, is a node of a
  doubly linked ring. The links of all nodes are one heap, two functions on nodes, so that a node that is already in a
  list is seen from there. The lemmas relate the heap to an assignment of a list of waiters to every wait list.
\<close>

section \<open>Nodes and links\<close>

record 'w links =
  m_next :: "'w \<Rightarrow> 'w"
  m_prev :: "'w \<Rightarrow> 'w"

definition detached_links :: "'w links" where
  "detached_links = \<lparr>m_next = id, m_prev = id\<rparr>"

definition set_next :: "'w \<Rightarrow> 'w \<Rightarrow> 'w links \<Rightarrow> 'w links" where
  "set_next a b h = h\<lparr>m_next := (m_next h)(a := b)\<rparr>"

definition set_prev :: "'w \<Rightarrow> 'w \<Rightarrow> 'w links \<Rightarrow> 'w links" where
  "set_prev a b h = h\<lparr>m_prev := (m_prev h)(a := b)\<rparr>"

definition detached :: "'w \<Rightarrow> 'w links \<Rightarrow> bool" where
  "detached w h \<longleftrightarrow> m_next h w = w \<and> m_prev h w = w"

definition detach :: "'w \<Rightarrow> 'w links \<Rightarrow> 'w links" where
  "detach w h =
     (let h = set_prev (m_next h w) (m_prev h w) h;
          h = set_next (m_prev h w) (m_next h w) h
      in set_prev w w (set_next w w h))"

text \<open>\<open>w->insert(l)\<close> puts \<open>w\<close> after \<open>l\<close>.\<close>

definition insert_after :: "'w \<Rightarrow> 'w \<Rightarrow> 'w links \<Rightarrow> 'w links result" where
  "insert_after w l h =
     (let h = set_prev w l (set_next w (m_next h l) h)
      in check (m_prev h (m_next h w) = l) Assert_failed (
         let h = set_next l w h in Inr (set_prev (m_next h w) w h)))"

text \<open>A list is its own first node: it is empty when it is detached.\<close>

definition insertWaiter :: "'w \<Rightarrow> 'w \<Rightarrow> 'w links \<Rightarrow> 'w links result" where
  "insertWaiter list waiter h =
     check (detached waiter h) Assert_failed (
     let h = set_prev waiter (m_prev h list) (set_next waiter list h)
     in check (m_next h (m_prev h list) = list) Assert_failed (
        let h = set_next (m_prev h list) waiter h in Inr (set_prev list waiter h)))"

text \<open>
  \<open>OrderedWaitList::insertWaiter\<close> walks back from the end to the last waiter whose priority is not above that of the
  new one; \<open>this\<close> takes its place when there is none.
\<close>

definition insertOrdered :: "('w \<Rightarrow> nat) \<Rightarrow> 'w \<Rightarrow> 'w \<Rightarrow> 'w links \<Rightarrow> 'w links result" where
  "insertOrdered priority list waiter h =
     check (detached waiter h) Assert_failed (
     if detached list h then insertWaiter list waiter h
     else
       rbind (rwhile (\<lambda>wtrav. wtrav \<noteq> list \<and> \<not> priority wtrav \<le> priority waiter) (\<lambda>wtrav. Inr (m_prev h wtrav)) (m_prev h list))
         (\<lambda>wtrav. insert_after waiter wtrav h))"

text \<open>
  \<open>wakeupAll\<close> and \<open>releaseAll\<close>: the waiters leave the list one by one, from the front, and each is woken up after it has
  left. What a waiter does is an argument; it may change the lists.
\<close>

definition wakeupAll :: "('s \<Rightarrow> 'w links) \<Rightarrow> ('w links \<Rightarrow> 's \<Rightarrow> 's) \<Rightarrow> ('w \<Rightarrow> 's \<Rightarrow> 's result) \<Rightarrow> 'w \<Rightarrow> 's \<Rightarrow> 's result" where
  "wakeupAll links set_links wakeup list =
     rwhile (\<lambda>s. \<not> detached list (links s))
       (\<lambda>s. let w = m_next (links s) list in wakeup w (set_links (detach w (links s)) s))"

section \<open>Rings and the lists they stand for\<close>

fun linked :: "'w links \<Rightarrow> 'w \<Rightarrow> 'w list \<Rightarrow> 'w \<Rightarrow> bool" where
  "linked h a [] b \<longleftrightarrow> m_next h a = b \<and> m_prev h b = a"
| "linked h a (x # xs) b \<longleftrightarrow> m_next h a = x \<and> m_prev h x = a \<and> linked h x xs b"

definition holds :: "'w links \<Rightarrow> 'w \<Rightarrow> 'w list \<Rightarrow> bool" where
  "holds h l xs \<longleftrightarrow> distinct (l # xs) \<and> linked h l xs l"

text \<open>\<open>L\<close> gives the waiters of every list of \<open>H\<close>; whoever is in none of them is detached.\<close>

definition rings :: "'w set \<Rightarrow> ('w \<Rightarrow> 'w list) \<Rightarrow> 'w links \<Rightarrow> bool" where
  "rings H L h \<longleftrightarrow>
     (\<forall>l \<in> H. holds h l (L l)) \<and> (\<forall>l \<in> H. set (L l) \<inter> H = {})
     \<and> (\<forall>l \<in> H. \<forall>l' \<in> H. l \<noteq> l' \<longrightarrow> set (L l) \<inter> set (L l') = {})
     \<and> (\<forall>w. w \<notin> H \<and> (\<forall>l \<in> H. w \<notin> set (L l)) \<longrightarrow> detached w h)"

lemma linked_append: "linked h a (xs @ x # ys) b \<longleftrightarrow> linked h a xs x \<and> linked h x ys b"
  by (induction xs arbitrary: a) auto

lemma linked_set_next: "c \<notin> set (a # xs) \<Longrightarrow> linked (set_next c d h) a xs b = linked h a xs b"
  by (induction xs arbitrary: a) (auto simp: set_next_def)

lemma linked_set_prev: "c \<notin> set (xs @ [b]) \<Longrightarrow> linked (set_prev c d h) a xs b = linked h a xs b"
  by (induction xs arbitrary: a) (auto simp: set_prev_def)

lemma links_upd [simp]:
  "m_next (set_next a b h) c = (if c = a then b else m_next h c)" "m_prev (set_next a b h) = m_prev h"
  "m_prev (set_prev a b h) c = (if c = a then b else m_prev h c)" "m_next (set_prev a b h) = m_next h"
  by (auto simp: set_next_def set_prev_def)

lemma linked_last: "linked h a xs b \<Longrightarrow> m_prev h b = last (a # xs) \<and> m_next h (last (a # xs)) = b"
  by (induction xs arbitrary: a) auto

lemma linked_first: "linked h a xs b \<Longrightarrow> m_next h a = hd (xs @ [b]) \<and> m_prev h (hd (xs @ [b])) = a"
  by (cases xs) auto

lemma ringsD:
  assumes "rings H L h" "l \<in> H"
  shows "distinct (L l)" "l \<notin> set (L l)" "linked h l (L l) l"
  using assms by (auto simp: rings_def holds_def)

lemma rings_detached:
  assumes "rings H L h" "w \<notin> H"
  shows "detached w h \<longleftrightarrow> (\<forall>l \<in> H. w \<notin> set (L l))"
proof
  assume d: "detached w h"
  show "\<forall>l \<in> H. w \<notin> set (L l)"
  proof (intro ballI notI)
    fix l assume l: "l \<in> H" "w \<in> set (L l)"
    then obtain ys zs where s: "L l = ys @ w # zs" by (auto simp: in_set_conv_decomp)
    then have "linked h w zs l" using ringsD [OF assms(1) l(1)] by (simp add: linked_append)
    then have "m_next h w = hd (zs @ [l])" using linked_first by fastforce
    then show False using d ringsD [OF assms(1) l(1)] s by (cases zs) (auto simp: detached_def)
  qed
next
  show "\<forall>l \<in> H. w \<notin> set (L l) \<Longrightarrow> detached w h" using assms by (auto simp: rings_def)
qed

lemma rings_empty: "rings H L h \<Longrightarrow> l \<in> H \<Longrightarrow> detached l h \<longleftrightarrow> L l = []"
  using ringsD [of H L h l] by (cases "L l") (auto simp: detached_def)

lemma detached_rings: "rings H (\<lambda>_. []) detached_links"
  by (simp add: rings_def holds_def detached_links_def detached_def)

section \<open>Leaving a list\<close>

lemma detach_links:
  "detach w h = set_prev w w (set_next w w (set_next (m_prev h w) (m_next h w) (set_prev (m_next h w) (m_prev h w) h)))"
  by (simp add: detach_def Let_def)

lemma links_eqI: "m_next g = m_next h \<Longrightarrow> m_prev g = m_prev h \<Longrightarrow> g = (h :: 'w links)"
  by simp

lemma detach_detached: "detached w h \<Longrightarrow> detach w h = h"
  by (rule links_eqI) (auto simp: detach_links detached_def fun_eq_iff)

lemma linked_set:
  "c \<notin> set (a # xs) \<Longrightarrow> d \<notin> set (xs @ [b]) \<Longrightarrow> linked (set_next c x (set_prev d y h)) a xs b = linked h a xs b"
  by (simp add: linked_set_next linked_set_prev)

lemma unlink:
  assumes "linked h l (ys @ w # zs) l" "distinct (l # ys @ w # zs)"
  shows "linked (detach w h) l (ys @ zs) l" "m_prev h w = last (l # ys)" "m_next h w = hd (zs @ [l])"
proof -
  have l: "linked h l ys w" "linked h w zs l" using assms(1) by (simp_all add: linked_append)
  show pn: "m_prev h w = last (l # ys)" "m_next h w = hd (zs @ [l])" using linked_last [OF l(1)] linked_first [OF l(2)] by auto
  let ?a = "last (l # ys)" and ?b = "hd (zs @ [l])"
  have left: "linked (detach w h) l ys ?b \<longleftrightarrow> True"
  proof (cases ys rule: rev_cases)
    case Nil
    then show ?thesis using assms(2) l by (cases zs) (auto simp: detach_links pn)
  next
    case (snoc ys' a)
    have "linked h l ys' a" using l(1) snoc by (simp add: linked_append)
    then have "linked (detach w h) l ys' a"
      using assms(2) snoc by (cases zs) (auto simp: detach_links pn linked_set_next linked_set_prev)
    then show ?thesis using assms(2) snoc by (cases zs) (auto simp: detach_links pn linked_append)
  qed
  show "linked (detach w h) l (ys @ zs) l"
  proof (cases zs)
    case Nil
    then show ?thesis using left by simp
  next
    case (Cons b zs')
    have "linked h b zs' l" using l(2) Cons by simp
    then have "linked (detach w h) b zs' l"
      using assms(2) Cons by (cases ys rule: rev_cases) (auto simp: detach_links pn linked_set_next linked_set_prev)
    then show ?thesis using left Cons by (simp add: linked_append)
  qed
qed

lemma detach_rings:
  assumes "rings H L h" "w \<notin> H"
  shows "rings H (\<lambda>l. remove1 w (L l)) (detach w h)" "detached w (detach w h)"
proof -
  show "detached w (detach w h)" by (simp add: detach_links detached_def)
  show "rings H (\<lambda>l. remove1 w (L l)) (detach w h)"
  proof (cases "detached w h")
    case True
    then have "\<forall>l \<in> H. remove1 w (L l) = L l" using rings_detached [OF assms] by (simp add: remove1_idem)
    then show ?thesis using assms(1) by (simp add: detach_detached [OF True] rings_def)
  next
    case False
    then obtain l where l: "l \<in> H" "w \<in> set (L l)" using rings_detached [OF assms] by auto
    then obtain ys zs where s: "L l = ys @ w # zs" by (auto simp: in_set_conv_decomp)
    note D = ringsD [OF assms(1)]
    have dist: "distinct (l # ys @ w # zs)" using D(1,2) [OF l(1)] s by simp
    have u: "linked (detach w h) l (ys @ zs) l" "m_prev h w = last (l # ys)" "m_next h w = hd (zs @ [l])"
      using unlink [OF _ dist, of h] D(3) [OF l(1)] s by simp_all
    have rm: "remove1 w (L l) = ys @ zs" using dist s by (simp add: remove1_append)
    have near: "m_prev h w \<in> set (l # L l)" "m_next h w \<in> set (l # L l)" using u(2,3) s by (cases zs; auto)+
    have other: "remove1 w (L l') = L l'" "linked (detach w h) l' (L l') l'" if "l' \<in> H" "l' \<noteq> l" for l'
    proof -
      have "set (l # L l) \<inter> set (l' # L l') = {}" using assms(1) l(1) that by (auto simp: rings_def)
      then have "w \<notin> set (l' # L l')" "m_prev h w \<notin> set (l' # L l')" "m_next h w \<notin> set (l' # L l')" using near l(2) by auto
      then show "remove1 w (L l') = L l'" "linked (detach w h) l' (L l') l'"
        using D(3) [OF that(1)] by (simp_all add: remove1_idem detach_links linked_set_next linked_set_prev)
    qed
    have "holds (detach w h) l' (remove1 w (L l'))" if "l' \<in> H" for l'
      using that other [OF that] D(1,2) [OF that] u(1) rm dist by (cases "l' = l") (auto simp: holds_def)
    moreover have "detached v (detach w h)" if "v \<notin> H" "\<forall>l \<in> H. v \<notin> set (remove1 w (L l))" for v
    proof (cases "v = w")
      case True
      then show ?thesis by (simp add: detach_links detached_def)
    next
      case False
      then have v: "\<forall>l \<in> H. v \<notin> set (L l)" using that(2) by (metis in_set_remove1)
      then have "detached v h" using rings_detached [OF assms(1) that(1)] by simp
      moreover have "v \<noteq> m_prev h w" "v \<noteq> m_next h w" using near v that(1) l(1) by auto
      ultimately show ?thesis using False by (auto simp: detach_links detached_def)
    qed
    ultimately show ?thesis using assms(1) unfolding rings_def by (meson disjoint_iff notin_set_remove1)
  qed
qed

section \<open>Joining a list\<close>

lemma linked_split:
  assumes "linked h l (ys @ zs) l"
  shows "m_next h (last (l # ys)) = hd (zs @ [l])" "m_prev h (hd (zs @ [l])) = last (l # ys)"
    "ys = ys' @ [a] \<Longrightarrow> linked h l ys' a" "zs = b # zs' \<Longrightarrow> linked h b zs' l"
proof -
  have "linked h l ys (hd (zs @ [l])) \<and> (zs = [] \<or> linked h (hd zs) (tl zs) l)"
    using assms by (cases zs) (auto simp: linked_append)
  then show "m_next h (last (l # ys)) = hd (zs @ [l])" "m_prev h (hd (zs @ [l])) = last (l # ys)"
    "ys = ys' @ [a] \<Longrightarrow> linked h l ys' a" "zs = b # zs' \<Longrightarrow> linked h b zs' l"
    using linked_last [of h l ys "hd (zs @ [l])"] by (auto simp: linked_append)
qed

definition link_in :: "'w \<Rightarrow> 'w \<Rightarrow> 'w \<Rightarrow> 'w links \<Rightarrow> 'w links" where
  "link_in w a b h = set_prev b w (set_next a w (set_prev w a (set_next w b h)))"

lemma link_in_ok:
  assumes "linked h l (ys @ zs) l" "distinct (l # ys @ zs)" "w \<notin> set (l # ys @ zs)"
  shows "linked (link_in w (last (l # ys)) (hd (zs @ [l])) h) l (ys @ w # zs) l"
proof -
  let ?h = "link_in w (last (l # ys)) (hd (zs @ [l])) h"
  have "linked ?h l ys w"
  proof (cases ys rule: rev_cases)
    case Nil
    then show ?thesis using assms(2,3) by (cases zs) (auto simp: link_in_def)
  next
    case (snoc ys' a)
    have "linked h l ys' a" by (rule linked_split(3) [OF assms(1) snoc])
    then have "linked ?h l ys' a"
      using assms(2,3) snoc by (cases zs) (auto simp: link_in_def linked_set_next linked_set_prev)
    then show ?thesis using assms(2,3) snoc by (cases zs) (auto simp: link_in_def linked_append)
  qed
  moreover have "linked ?h w zs l"
  proof (cases zs)
    case Nil
    then show ?thesis using assms(2,3) by (cases ys rule: rev_cases) (auto simp: link_in_def)
  next
    case (Cons b zs')
    have "linked h b zs' l" by (rule linked_split(4) [OF assms(1) Cons])
    then have "linked ?h b zs' l"
      using assms(2,3) Cons by (cases ys rule: rev_cases) (auto simp: link_in_def linked_set_next linked_set_prev)
    then show ?thesis using assms(2,3) Cons by (cases ys rule: rev_cases) (auto simp: link_in_def)
  qed
  ultimately show ?thesis by (simp add: linked_append)
qed

lemma link_in_rings:
  assumes "rings H L h" "l \<in> H" "L l = ys @ zs" "w \<notin> H" "detached w h"
  shows "rings H (L(l := ys @ w # zs)) (link_in w (last (l # ys)) (hd (zs @ [l])) h)"
proof -
  let ?h = "link_in w (last (l # ys)) (hd (zs @ [l])) h"
  note D = ringsD [OF assms(1)]
  have w: "\<forall>l \<in> H. w \<notin> set (L l)" using rings_detached [OF assms(1,4)] assms(5) by simp
  have near: "last (l # ys) \<in> set (l # L l)" "hd (zs @ [l]) \<in> set (l # L l)" using assms(3) by (cases zs; auto)+
  have s: "set ((L(l := ys @ w # zs)) l') = (if l' = l then insert w (set (L l')) else set (L l'))" for l'
    using assms(3) by auto
  have wl: "w \<notin> set (l # ys @ zs)" "distinct (l # ys @ zs)" "linked h l (ys @ zs) l"
    using D [OF assms(2)] w assms(2,3,4) by auto
  then have "holds ?h l (ys @ w # zs)" using link_in_ok [OF wl(3,2,1)] by (auto simp: holds_def)
  moreover have "holds ?h l' (L l')" if "l' \<in> H" "l' \<noteq> l" for l'
  proof -
    have "set (l # L l) \<inter> set (l' # L l') = {}" using assms(1,2) that by (auto simp: rings_def)
    then have "last (l # ys) \<notin> set (l' # L l')" "hd (zs @ [l]) \<notin> set (l' # L l')" using near by blast+
    moreover have "w \<notin> set (l' # L l')" using w that assms(4) by auto
    ultimately show ?thesis using D [OF that(1)] by (simp add: holds_def link_in_def linked_set_next linked_set_prev)
  qed
  moreover have "detached v ?h" if "v \<notin> H" "\<forall>l' \<in> H. v \<notin> set ((L(l := ys @ w # zs)) l')" for v
  proof -
    have "v \<notin> set (L l') \<and> (l' = l \<longrightarrow> v \<noteq> w)" if "l' \<in> H" for l'
      using \<open>\<forall>l' \<in> H. v \<notin> set ((L(l := ys @ w # zs)) l')\<close> that unfolding s by (metis insert_iff)
    then have v: "\<forall>l \<in> H. v \<notin> set (L l)" "v \<noteq> w" using assms(2) by auto
    then have "detached v h" using rings_detached [OF assms(1) that(1)] by simp
    moreover have "v \<noteq> last (l # ys)" "v \<noteq> hd (zs @ [l])" using near v that(1) assms(2) by auto
    ultimately show ?thesis using v(2) by (auto simp: link_in_def detached_def)
  qed
  ultimately have A: "\<forall>l' \<in> H. holds ?h l' ((L(l := ys @ w # zs)) l')"
    and B: "\<forall>v. v \<notin> H \<and> (\<forall>l' \<in> H. v \<notin> set ((L(l := ys @ w # zs)) l')) \<longrightarrow> detached v ?h"
    by (metis fun_upd_apply, blast)
  have C: "set ((L(l := ys @ w # zs)) l') \<inter> H = {}" if "l' \<in> H" for l'
    unfolding s using assms(1,4) that by (auto simp: rings_def)
  have D': "set ((L(l := ys @ w # zs)) l1) \<inter> set ((L(l := ys @ w # zs)) l2) = {}"
    if "l1 \<in> H" "l2 \<in> H" "l1 \<noteq> l2" for l1 l2
  proof -
    have "set (L l1) \<inter> set (L l2) = {}" using assms(1) that by (auto simp: rings_def)
    then show ?thesis unfolding s using w that by auto
  qed
  show ?thesis unfolding rings_def by (intro conjI ballI impI A B) (rule C D', assumption+)+
qed

text \<open>A waiter goes behind a node of the list, or to the end.\<close>

lemma insert_after_ok:
  assumes "rings H L h" "l \<in> H" "L l = ys @ zs" "w \<notin> H" "detached w h"
  shows "\<exists>h'. insert_after w (last (l # ys)) h = Inr h' \<and> rings H (L(l := ys @ w # zs)) h'"
proof -
  have w: "w \<notin> set (l # L l)" using rings_detached [OF assms(1,4)] assms by auto
  have "linked h l (ys @ zs) l" using ringsD(3) [OF assms(1,2)] assms(3) by simp
  note s = linked_split(1,2) [OF this]
  have ne: "last (l # ys) \<noteq> w" "hd (zs @ [l]) \<noteq> w" using w assms(3) by (cases zs; auto)+
  have "insert_after w (last (l # ys)) h = Inr (link_in w (last (l # ys)) (hd (zs @ [l])) h)"
    using s ne by (simp add: insert_after_def Let_def link_in_def)
  then show ?thesis using link_in_rings [OF assms] by simp
qed

lemma insertWaiter_ok:
  assumes "rings H L h" "l \<in> H" "w \<notin> H" "detached w h"
  shows "\<exists>h'. insertWaiter l w h = Inr h' \<and> rings H (L(l := L l @ [w])) h'"
proof -
  have w: "w \<notin> set (l # L l)" using rings_detached [OF assms(1,3)] assms by auto
  have s: "m_prev h l = last (l # L l)" "m_next h (last (l # L l)) = l" using linked_last [OF ringsD(3) [OF assms(1,2)]] by auto
  have "last (l # L l) \<noteq> w" "w \<noteq> l" using w by (auto simp del: last.simps) (metis last_in_set list.distinct(1) set_ConsD)
  then have "insertWaiter l w h = Inr (link_in w (last (l # L l)) l h)"
    using assms(4) s by (simp add: insertWaiter_def Let_def link_in_def del: last.simps)
  then show ?thesis using link_in_rings [OF assms(1,2) _ assms(3,4), of "L l" "[]"] by simp
qed

text \<open>An ordered list: the new waiter goes behind the last one whose priority is not above its own.\<close>

lemma linked_prev: "linked h l (ys @ w # zs) l \<Longrightarrow> m_prev h w = last (l # ys)"
  using linked_last [of h l ys w] by (simp add: linked_append)

lemma walk_back:
  assumes "linked h l (ys @ zs @ xs) l" "l \<notin> set (ys @ zs)" "\<forall>z \<in> set zs. \<not> priority z \<le> p" "ys \<noteq> [] \<longrightarrow> priority (last ys) \<le> p"
  shows "rwhile (\<lambda>wtrav. wtrav \<noteq> l \<and> \<not> priority wtrav \<le> p) (\<lambda>wtrav. Inr (m_prev h wtrav)) (last (l # ys @ zs)) = Inr (last (l # ys))"
  using assms(1-3)
proof (induction zs arbitrary: xs rule: rev_induct)
  case Nil
  show ?case using assms(4) by (subst rwhile_stop) auto
next
  case (snoc z zs)
  have "m_prev h z = last (l # ys @ zs)" using linked_prev [of h l "ys @ zs" z xs] snoc.prems(1) by simp
  moreover have "z \<noteq> l" "\<not> priority z \<le> p" using snoc.prems(2,3) by auto
  ultimately have "rwhile (\<lambda>wtrav. wtrav \<noteq> l \<and> \<not> priority wtrav \<le> p) (\<lambda>wtrav. Inr (m_prev h wtrav)) z
      = rwhile (\<lambda>wtrav. wtrav \<noteq> l \<and> \<not> priority wtrav \<le> p) (\<lambda>wtrav. Inr (m_prev h wtrav)) (last (l # ys @ zs))"
    by (subst rwhile_step) auto
  then show ?case using snoc.IH [of "z # xs"] snoc.prems by simp
qed

text \<open>The place of a waiter of priority \<open>p\<close> in a list that is sorted by priority: behind its equals.\<close>

definition ordered_insert :: "('w \<Rightarrow> nat) \<Rightarrow> 'w \<Rightarrow> 'w list \<Rightarrow> 'w list" where
  "ordered_insert priority w xs =
     rev (dropWhile (\<lambda>x. \<not> priority x \<le> priority w) (rev xs)) @ w # rev (takeWhile (\<lambda>x. \<not> priority x \<le> priority w) (rev xs))"

lemma insertOrdered_ok:
  assumes "rings H L h" "l \<in> H" "w \<notin> H" "detached w h"
  shows "\<exists>h'. insertOrdered priority l w h = Inr h' \<and> rings H (L(l := ordered_insert priority w (L l))) h'"
proof (cases "L l = []")
  case True
  then have "detached l h" using rings_empty [OF assms(1,2)] by simp
  then show ?thesis using insertWaiter_ok [OF assms] True assms(4) by (simp add: insertOrdered_def ordered_insert_def)
next
  case False
  let ?P = "\<lambda>x. \<not> priority x \<le> priority w"
  define ys zs where "ys = rev (dropWhile ?P (rev (L l)))" and "zs = rev (takeWhile ?P (rev (L l)))"
  have L: "L l = ys @ zs" unfolding ys_def zs_def by (metis rev_append rev_rev_ident takeWhile_dropWhile_id)
  have "\<forall>z \<in> set zs. ?P z" unfolding zs_def by (auto dest: set_takeWhileD)
  moreover have "ys \<noteq> [] \<longrightarrow> priority (last ys) \<le> priority w"
    unfolding ys_def using hd_dropWhile [of ?P "rev (L l)"] by (auto simp: last_rev)
  ultimately have "rwhile (\<lambda>wtrav. wtrav \<noteq> l \<and> ?P wtrav) (\<lambda>wtrav. Inr (m_prev h wtrav)) (last (l # ys @ zs)) = Inr (last (l # ys))"
    using ringsD [OF assms(1,2)] L by (intro walk_back [where xs = "[]"]) auto
  moreover have "m_prev h l = last (l # ys @ zs)" using linked_last [OF ringsD(3) [OF assms(1,2)]] L by simp
  moreover have "\<not> detached l h" using rings_empty [OF assms(1,2)] False by simp
  ultimately have "insertOrdered priority l w h = insert_after w (last (l # ys)) h"
    using assms(4) by (simp add: insertOrdered_def)
  then show ?thesis
    using insert_after_ok [OF assms(1,2) L assms(3,4)] unfolding ordered_insert_def ys_def zs_def by simp
qed

lemma ordered_insert_sorted:
  assumes "sorted (map priority xs)"
  shows "sorted (map priority (ordered_insert priority w xs))" "set (ordered_insert priority w xs) = insert w (set xs)"
proof -
  let ?P = "\<lambda>x. \<not> priority x \<le> priority w"
  define ys zs where "ys = rev (dropWhile ?P (rev xs))" and "zs = rev (takeWhile ?P (rev xs))"
  have xs: "xs = ys @ zs" unfolding ys_def zs_def by (metis rev_append rev_rev_ident takeWhile_dropWhile_id)
  show "set (ordered_insert priority w xs) = insert w (set xs)"
    unfolding ordered_insert_def ys_def [symmetric] zs_def [symmetric] by (simp add: xs)
  have z: "\<forall>z \<in> set zs. priority w \<le> priority z" unfolding zs_def by (auto dest!: set_takeWhileD)
  have "\<forall>y \<in> set ys. priority y \<le> priority w"
  proof (cases "ys = []")
    case False
    then have "priority (last ys) \<le> priority w"
      unfolding ys_def using hd_dropWhile [of ?P "rev xs"] by (auto simp: last_rev)
    moreover have "sorted (map priority ys)" using assms xs by (simp add: sorted_append)
    ultimately show ?thesis using False by (cases ys rule: rev_cases) (auto simp: sorted_append)
  qed simp
  with z show "sorted (map priority (ordered_insert priority w xs))"
    using assms unfolding ordered_insert_def ys_def [symmetric] zs_def [symmetric] by (auto simp: xs sorted_append)
qed

end
