(* ===== verification/MicroOps.thy ===== *)
theory MicroOps
  imports Address
begin

text \<open>
  The micro-operations that the processor model of pyrite/ executes, decoder/ptlhwdef.h and decoder/ptlhwdef.cpp: the
  numbers of the registers, the table of the opcodes with their classes, the flags a micro-operation writes and the
  record of a decoded micro-operation. Bytes and bit fields are natural numbers. An opcode is below
  \<open>OP_MAX_OPCODE\<close>: the code indexes the table with it.
\<close>

unbundle bit_operations_syntax

section \<open>Registers and flags\<close>

definition REG_ctx :: nat where "REG_ctx = 55"

definition REG_rip :: nat where "REG_rip = 56"

definition REG_flags :: nat where "REG_flags = 57"

definition REG_zero :: nat where "REG_zero = 63"

definition REG_zf :: nat where "REG_zf = 72"

definition REG_cf :: nat where "REG_cf = 73"

definition REG_of :: nat where "REG_of = 74"

definition REG_imm :: nat where "REG_imm = 75"

lemmas reg_defs = REG_ctx_def REG_rip_def REG_flags_def REG_zero_def REG_zf_def REG_cf_def REG_of_def REG_imm_def

definition FLAG_CF :: nat where "FLAG_CF = 0x001"

definition FLAG_INV :: nat where "FLAG_INV = 0x002"

definition FLAG_OF :: nat where "FLAG_OF = 0x800"

definition FLAG_ZAPS :: nat where "FLAG_ZAPS = 0x0d4"

text \<open>The flags that the three bits of \<open>setflags\<close> stand for.\<close>

definition setflags_to_x86_flags :: "nat list" where
  "setflags_to_x86_flags =
     [0, FLAG_ZAPS, FLAG_CF, FLAG_CF OR FLAG_ZAPS, FLAG_OF, FLAG_OF OR FLAG_ZAPS, FLAG_OF OR FLAG_CF,
      FLAG_OF OR FLAG_CF OR FLAG_ZAPS]"

section \<open>Opcodes\<close>

abbreviation OPCLASS_LOGIC :: nat where "OPCLASS_LOGIC \<equiv> 2 ^ 0"
abbreviation OPCLASS_ADDSUB :: nat where "OPCLASS_ADDSUB \<equiv> 2 ^ 1"
abbreviation OPCLASS_ADDSUBC :: nat where "OPCLASS_ADDSUBC \<equiv> 2 ^ 2"
abbreviation OPCLASS_ADDSHIFT :: nat where "OPCLASS_ADDSHIFT \<equiv> 2 ^ 3"
abbreviation OPCLASS_SELECT :: nat where "OPCLASS_SELECT \<equiv> 2 ^ 4"
abbreviation OPCLASS_COMPARE :: nat where "OPCLASS_COMPARE \<equiv> 2 ^ 5"
abbreviation OPCLASS_COND_BRANCH :: nat where "OPCLASS_COND_BRANCH \<equiv> 2 ^ 6"
abbreviation OPCLASS_INDIR_BRANCH :: nat where "OPCLASS_INDIR_BRANCH \<equiv> 2 ^ 7"
abbreviation OPCLASS_UNCOND_BRANCH :: nat where "OPCLASS_UNCOND_BRANCH \<equiv> 2 ^ 8"
abbreviation OPCLASS_ASSIST :: nat where "OPCLASS_ASSIST \<equiv> 2 ^ 9"
abbreviation OPCLASS_FENCE :: nat where "OPCLASS_FENCE \<equiv> 2 ^ 10"
abbreviation OPCLASS_LOAD :: nat where "OPCLASS_LOAD \<equiv> 2 ^ 11"
abbreviation OPCLASS_STORE :: nat where "OPCLASS_STORE \<equiv> 2 ^ 12"
abbreviation OPCLASS_PREFETCH :: nat where "OPCLASS_PREFETCH \<equiv> 2 ^ 13"
abbreviation OPCLASS_SIMPLE_SHIFT :: nat where "OPCLASS_SIMPLE_SHIFT \<equiv> 2 ^ 14"
abbreviation OPCLASS_SHIFTROT :: nat where "OPCLASS_SHIFTROT \<equiv> 2 ^ 15"
abbreviation OPCLASS_MULTIPLY :: nat where "OPCLASS_MULTIPLY \<equiv> 2 ^ 16"
abbreviation OPCLASS_BITSCAN :: nat where "OPCLASS_BITSCAN \<equiv> 2 ^ 17"
abbreviation OPCLASS_FLAGS :: nat where "OPCLASS_FLAGS \<equiv> 2 ^ 18"
abbreviation OPCLASS_CHECK :: nat where "OPCLASS_CHECK \<equiv> 2 ^ 19"
abbreviation OPCLASS_FP_ALU :: nat where "OPCLASS_FP_ALU \<equiv> 2 ^ 20"
abbreviation OPCLASS_FP_DIVSQRT :: nat where "OPCLASS_FP_DIVSQRT \<equiv> 2 ^ 21"
abbreviation OPCLASS_FP_COMPARE :: nat where "OPCLASS_FP_COMPARE \<equiv> 2 ^ 22"
abbreviation OPCLASS_FP_PERMUTE :: nat where "OPCLASS_FP_PERMUTE \<equiv> 2 ^ 23"
abbreviation OPCLASS_FP_CONVERTI2F :: nat where "OPCLASS_FP_CONVERTI2F \<equiv> 2 ^ 24"
abbreviation OPCLASS_FP_CONVERTF2I :: nat where "OPCLASS_FP_CONVERTF2I \<equiv> 2 ^ 25"
abbreviation OPCLASS_FP_CONVERTFP :: nat where "OPCLASS_FP_CONVERTFP \<equiv> 2 ^ 26"
abbreviation OPCLASS_DIVIDE :: nat where "OPCLASS_DIVIDE \<equiv> 2 ^ 27"
abbreviation OPCLASS_BARRIER :: nat where "OPCLASS_BARRIER \<equiv> OPCLASS_ASSIST"

definition OPCLASS_BRANCH :: nat where
  "OPCLASS_BRANCH = (OPCLASS_COND_BRANCH OR OPCLASS_INDIR_BRANCH OR OPCLASS_UNCOND_BRANCH OR OPCLASS_ASSIST)"

abbreviation OP_nop :: nat where "OP_nop \<equiv> 0"
abbreviation OP_ld :: nat where "OP_ld \<equiv> 46"
abbreviation OP_ldx :: nat where "OP_ldx \<equiv> 47"
abbreviation OP_st :: nat where "OP_st \<equiv> 49"
abbreviation OP_mf :: nat where "OP_mf \<equiv> 50"
abbreviation OP_br :: nat where "OP_br \<equiv> 36"
abbreviation OP_jmp :: nat where "OP_jmp \<equiv> 39"
abbreviation OP_bru :: nat where "OP_bru \<equiv> 40"
abbreviation OP_chk :: nat where "OP_chk \<equiv> 43"
abbreviation OP_add :: nat where "OP_add \<equiv> 11"

definition makeccbits :: "nat \<Rightarrow> nat \<Rightarrow> nat \<Rightarrow> nat" where
  "makeccbits b0 b1 b2 = b0 + 2 * b1 + 4 * b2"

definition makeopbits :: "nat \<Rightarrow> nat \<Rightarrow> nat \<Rightarrow> nat" where
  "makeopbits b3 b4 b5 = 8 * b3 + 16 * b4 + 32 * b5"

abbreviation ccB :: nat where "ccB \<equiv> makeccbits 0 1 0"
abbreviation ccAB :: nat where "ccAB \<equiv> makeccbits 1 1 0"
abbreviation ccABC :: nat where "ccABC \<equiv> makeccbits 1 1 1"
abbreviation ccC :: nat where "ccC \<equiv> makeccbits 0 0 1"
abbreviation opA :: nat where "opA \<equiv> makeopbits 1 0 0"
abbreviation opAB :: nat where "opAB \<equiv> makeopbits 1 1 0"
abbreviation opABC :: nat where "opABC \<equiv> makeopbits 1 1 1"
abbreviation opB :: nat where "opB \<equiv> makeopbits 0 1 0"

text \<open>Name, class and flags of every opcode.\<close>

definition opinfo :: "(string \<times> nat \<times> nat) list" where
  "opinfo =
    [
     (''nop'', OPCLASS_LOGIC, 0),
     (''mov'', OPCLASS_LOGIC, opAB),
     (''and'', OPCLASS_LOGIC, opAB),
     (''andnot'', OPCLASS_LOGIC, opAB),
     (''xor'', OPCLASS_LOGIC, opAB),
     (''or'', OPCLASS_LOGIC, opAB),
     (''nand'', OPCLASS_LOGIC, opAB),
     (''ornot'', OPCLASS_LOGIC, opAB),
     (''eqv'', OPCLASS_LOGIC, opAB),
     (''nor'', OPCLASS_LOGIC, opAB),
     (''maskb'', OPCLASS_SIMPLE_SHIFT, opAB),
     (''add'', OPCLASS_ADDSUB, opABC OR ccC),
     (''sub'', OPCLASS_ADDSUB, opABC OR ccC),
     (''adda'', OPCLASS_ADDSHIFT, opABC),
     (''suba'', OPCLASS_ADDSHIFT, opABC),
     (''addm'', OPCLASS_ADDSUB, opABC),
     (''subm'', OPCLASS_ADDSUB, opABC),
     (''andcc'', OPCLASS_FLAGS, opAB OR ccAB),
     (''orcc'', OPCLASS_FLAGS, opAB OR ccAB),
     (''xorcc'', OPCLASS_FLAGS, opAB OR ccAB),
     (''ornotcc'', OPCLASS_FLAGS, opAB OR ccAB),
     (''movccr'', OPCLASS_FLAGS, opB OR ccB),
     (''movrcc'', OPCLASS_FLAGS, opB),
     (''collcc'', OPCLASS_FLAGS, opABC OR ccABC),
     (''shls'', OPCLASS_SIMPLE_SHIFT, opAB),
     (''shrs'', OPCLASS_SIMPLE_SHIFT, opAB),
     (''bswap'', OPCLASS_LOGIC, opAB),
     (''sars'', OPCLASS_SIMPLE_SHIFT, opAB),
     (''bt'', OPCLASS_LOGIC, opAB),
     (''bts'', OPCLASS_LOGIC, opAB),
     (''btr'', OPCLASS_LOGIC, opAB),
     (''btc'', OPCLASS_LOGIC, opAB),
     (''set'', OPCLASS_SELECT, opABC OR ccC),
     (''set.sub'', OPCLASS_SELECT, opABC),
     (''set.and'', OPCLASS_SELECT, opABC),
     (''sel'', OPCLASS_SELECT, opABC OR ccABC),
     (''br'', OPCLASS_COND_BRANCH, opAB OR ccAB),
     (''br.sub'', OPCLASS_COND_BRANCH, opAB),
     (''br.and'', OPCLASS_COND_BRANCH, opAB),
     (''jmp'', OPCLASS_INDIR_BRANCH, opA),
     (''bru'', OPCLASS_UNCOND_BRANCH, 0),
     (''jmpp'', OPCLASS_INDIR_BRANCH OR OPCLASS_BARRIER, opA),
     (''brp'', OPCLASS_UNCOND_BRANCH OR OPCLASS_BARRIER, 0),
     (''chk'', OPCLASS_CHECK, opAB OR ccAB),
     (''chk.sub'', OPCLASS_CHECK, opAB),
     (''chk.and'', OPCLASS_CHECK, opAB),
     (''ld'', OPCLASS_LOAD, opABC),
     (''ldx'', OPCLASS_LOAD, opABC),
     (''ld.pre'', OPCLASS_PREFETCH, opAB),
     (''st'', OPCLASS_STORE, opABC),
     (''mf'', OPCLASS_FENCE, 0),
     (''shl'', OPCLASS_SHIFTROT, opABC OR ccC),
     (''shr'', OPCLASS_SHIFTROT, opABC OR ccC),
     (''mask'', OPCLASS_SHIFTROT, opAB),
     (''sar'', OPCLASS_SHIFTROT, opABC OR ccC),
     (''rotl'', OPCLASS_SHIFTROT, opABC OR ccC),
     (''rotr'', OPCLASS_SHIFTROT, opABC OR ccC),
     (''rotcl'', OPCLASS_SHIFTROT, opABC OR ccC),
     (''rotcr'', OPCLASS_SHIFTROT, opABC OR ccC),
     (''mull'', OPCLASS_MULTIPLY, opAB),
     (''mulh'', OPCLASS_MULTIPLY, opAB),
     (''mulhu'', OPCLASS_MULTIPLY, opAB),
     (''ctz'', OPCLASS_BITSCAN, opB),
     (''clz'', OPCLASS_BITSCAN, opB),
     (''ctpop'', OPCLASS_BITSCAN, opB),
     (''permb'', OPCLASS_SHIFTROT, opABC),
     (''addf'', OPCLASS_FP_ALU, opAB),
     (''subf'', OPCLASS_FP_ALU, opAB),
     (''mulf'', OPCLASS_FP_ALU, opAB),
     (''maddf'', OPCLASS_FP_ALU, opABC),
     (''msubf'', OPCLASS_FP_ALU, opABC),
     (''divf'', OPCLASS_FP_DIVSQRT, opAB),
     (''sqrtf'', OPCLASS_FP_DIVSQRT, opAB),
     (''rcpf'', OPCLASS_FP_DIVSQRT, opAB),
     (''rsqrtf'', OPCLASS_FP_DIVSQRT, opAB),
     (''minf'', OPCLASS_FP_COMPARE, opAB),
     (''maxf'', OPCLASS_FP_COMPARE, opAB),
     (''cmpf'', OPCLASS_FP_COMPARE, opAB),
     (''cmpccf'', OPCLASS_FP_COMPARE, opAB),
     (''permf'', OPCLASS_FP_PERMUTE, opAB),
     (''cvtf.i2s.ins'', OPCLASS_FP_CONVERTI2F, opAB),
     (''cvtf.i2s.p'', OPCLASS_FP_CONVERTI2F, opB),
     (''cvtf.i2d.lo'', OPCLASS_FP_CONVERTI2F, opB),
     (''cvtf.i2d.hi'', OPCLASS_FP_CONVERTI2F, opB),
     (''cvtf.q2s.ins'', OPCLASS_FP_CONVERTI2F, opAB),
     (''cvtf.q2d'', OPCLASS_FP_CONVERTI2F, opAB),
     (''cvtf.s2i'', OPCLASS_FP_CONVERTF2I, opB),
     (''cvtf.s2q'', OPCLASS_FP_CONVERTF2I, opB),
     (''cvtf.s2i.p'', OPCLASS_FP_CONVERTF2I, opB),
     (''cvtf.d2i'', OPCLASS_FP_CONVERTF2I, opB),
     (''cvtf.d2q'', OPCLASS_FP_CONVERTF2I, opB),
     (''cvtf.d2i.p'', OPCLASS_FP_CONVERTF2I, opAB),
     (''cvtf.d2s.ins'', OPCLASS_FP_CONVERTFP, opAB),
     (''cvtf.d2s.p'', OPCLASS_FP_CONVERTFP, opAB),
     (''cvtf.s2d.lo'', OPCLASS_FP_CONVERTFP, opB),
     (''cvtf.s2d.hi'', OPCLASS_FP_CONVERTFP, opB),
     (''divr'', OPCLASS_DIVIDE, opABC),
     (''divq'', OPCLASS_DIVIDE, opABC),
     (''divru'', OPCLASS_DIVIDE, opABC),
     (''divqu'', OPCLASS_DIVIDE, opABC)]"

definition isclass :: "nat \<Rightarrow> nat \<Rightarrow> bool" where
  "isclass opcode opclass \<longleftrightarrow> fst (snd (opinfo ! opcode)) AND opclass \<noteq> 0"

definition isload :: "nat \<Rightarrow> bool" where
  "isload opcode \<longleftrightarrow> isclass opcode OPCLASS_LOAD"

definition isstore :: "nat \<Rightarrow> bool" where
  "isstore opcode \<longleftrightarrow> isclass opcode OPCLASS_STORE"

definition ischeck :: "nat \<Rightarrow> bool" where
  "ischeck opcode \<longleftrightarrow> isclass opcode OPCLASS_CHECK"

definition isbranch :: "nat \<Rightarrow> bool" where
  "isbranch opcode \<longleftrightarrow> isclass opcode OPCLASS_BRANCH"

definition isfence :: "nat \<Rightarrow> bool" where
  "isfence opcode \<longleftrightarrow> isclass opcode OPCLASS_FENCE"

section \<open>Decoded micro-operations\<close>

text \<open>The alignment of a load or store is in its condition field.\<close>

definition LDST_ALIGN_NORMAL :: nat where "LDST_ALIGN_NORMAL = 0"

definition LDST_ALIGN_LO :: nat where "LDST_ALIGN_LO = 1"

definition LDST_ALIGN_HI :: nat where "LDST_ALIGN_HI = 2"

record trans_op =
  t_opcode :: nat
  t_size :: nat
  t_extshift :: nat
  t_cond :: nat
  t_setflags :: nat
  t_nouserflags :: bool
  t_internal :: bool
  t_rd :: nat
  t_ra :: nat
  t_rb :: nat
  t_rc :: nat
  t_rbimm :: "64 word"
  t_rcimm :: "64 word"
  t_riptaken :: "64 word"
  t_ripseq :: "64 word"

definition TransOp :: "nat \<Rightarrow> nat \<Rightarrow> nat \<Rightarrow> nat \<Rightarrow> nat \<Rightarrow> nat \<Rightarrow> 64 word \<Rightarrow> 64 word \<Rightarrow> nat \<Rightarrow> trans_op" where
  "TransOp opcode rd ra rb rc sz rbimm rcimm setflags =
     \<lparr>t_opcode = opcode, t_size = sz, t_extshift = 0, t_cond = 0, t_setflags = setflags, t_nouserflags = False,
      t_internal = False, t_rd = rd, t_ra = ra, t_rb = rb, t_rc = rc, t_rbimm = rbimm, t_rcimm = rcimm,
      t_riptaken = 0, t_ripseq = 0\<rparr>"

definition uopWritesDestinationRegister :: "trans_op \<Rightarrow> bool" where
  "uopWritesDestinationRegister u \<longleftrightarrow>
     (if isstore (t_opcode u) then False else if isclass (t_opcode u) OPCLASS_FENCE then False else True)"

text \<open>The groups of flags that a micro-operation renames.\<close>

definition flagmask :: "trans_op \<Rightarrow> nat" where
  "flagmask u = (if t_setflags u \<noteq> 0 \<and> \<not> t_nouserflags u then setflags_to_x86_flags ! t_setflags u else 0)"

lemma length_opinfo: "length opinfo = 100"
  by (simp add: opinfo_def)

end
