(* ===== verification/RegFile.thy ===== *)
theory RegFile
  imports WaitList MicroOps
begin

text \<open>
  The register files of the processor model, pyrite/RegFile.h and RegFile.cpp: physical registers with reference counts,
  a list of free ones and a wait list each, and the maps from logical to physical registers. A register name is an
  integer; two negative names stand for "none". The heap of the links of all wait lists is kept with the physical file.
\<close>

section \<open>State\<close>

text \<open>
  The objects that can wait or be waited for: instructions, which are slots of the instruction buffer, the wait lists of
  registers and of stores, the list of the scheduler, and the events and missed lines outside the core.
\<close>

datatype waiter =
  Inst nat | Register_list nat | Store_list nat | Ready_list | Outside_list nat

definition NUM_REGISTERS :: nat where "NUM_REGISTERS = 80"

type_synonym phys_name = int

definition REG_NULL_SRC :: phys_name where "REG_NULL_SRC = -1"

definition REG_NULL_DEST :: phys_name where "REG_NULL_DEST = -2"

definition no_reg :: "phys_name \<Rightarrow> bool" where
  "no_reg p \<longleftrightarrow> p = REG_NULL_DEST \<or> p = REG_NULL_SRC"

record physical_file =
  pf_values :: "64 word list"
  pf_flags :: "64 word list"
  pf_writers :: "nat list"
  pf_ready :: "bool list"
  pf_ref_counts :: "int list"
  pf_free_list :: "phys_name list"
  pf_links :: "waiter links"

text \<open>A \<open>std::vector\<close> indexed with a register name.\<close>

definition vat :: "'a list \<Rightarrow> phys_name \<Rightarrow> 'a result" where
  "vat xs p = (if 0 \<le> p then at xs (nat p) else Inl Out_of_bounds)"

definition vput :: "phys_name \<Rightarrow> 'a \<Rightarrow> 'a list \<Rightarrow> 'a list result" where
  "vput p x xs = (if 0 \<le> p \<and> nat p < length xs then Inr (xs[nat p := x]) else Inl Out_of_bounds)"

section \<open>The physical file\<close>

definition pf_isReady :: "phys_name \<Rightarrow> physical_file \<Rightarrow> bool result" where
  "pf_isReady num pf =
     rbind (vat (pf_ref_counts pf) num) (\<lambda>count.
     check (count \<noteq> 0) Assert_failed (
     check (\<not> no_reg num) Assert_failed (vat (pf_ready pf) num)))"

definition getValue :: "phys_name \<Rightarrow> physical_file \<Rightarrow> 64 word result" where
  "getValue num pf = rbind (pf_isReady num pf) (\<lambda>ready. check ready Assert_failed (vat (pf_values pf) num))"

definition getFlags :: "phys_name \<Rightarrow> physical_file \<Rightarrow> 64 word result" where
  "getFlags num pf = rbind (pf_isReady num pf) (\<lambda>ready. check ready Assert_failed (vat (pf_flags pf) num))"

text \<open>\<open>setValue\<close> and \<open>setReady\<close> up to the point where the waiting instructions are woken up.\<close>

definition store_value :: "phys_name \<Rightarrow> 64 word \<Rightarrow> physical_file \<Rightarrow> physical_file result" where
  "store_value num v pf =
     check (\<not> no_reg num) Assert_failed (
     rbind (pf_isReady num pf) (\<lambda>ready. check (\<not> ready) Assert_failed (
     rbind (vput num v (pf_values pf)) (\<lambda>values.
     rbind (vput num True (pf_ready pf)) (\<lambda>ready.
     Inr (pf\<lparr>pf_values := values, pf_ready := ready\<rparr>))))))"

definition setFlags :: "phys_name \<Rightarrow> 64 word \<Rightarrow> physical_file \<Rightarrow> physical_file result" where
  "setFlags num f pf =
     check (\<not> no_reg num) Assert_failed (
     rbind (vput num f (pf_flags pf)) (\<lambda>flags. Inr (pf\<lparr>pf_flags := flags\<rparr>)))"

definition addWaiter :: "phys_name \<Rightarrow> waiter \<Rightarrow> physical_file \<Rightarrow> physical_file result" where
  "addWaiter num w pf =
     rbind (vat (pf_ref_counts pf) num) (\<lambda>count.
     check (count \<noteq> 0) Assert_failed (
     rbind (insertWaiter (Register_list (nat num)) w (pf_links pf)) (\<lambda>h. Inr (pf\<lparr>pf_links := h\<rparr>))))"

definition setWriter :: "phys_name \<Rightarrow> nat \<Rightarrow> physical_file \<Rightarrow> physical_file result" where
  "setWriter num q_ptr pf = rbind (vput num q_ptr (pf_writers pf)) (\<lambda>writers. Inr (pf\<lparr>pf_writers := writers\<rparr>))"

definition getWriter :: "phys_name \<Rightarrow> physical_file \<Rightarrow> nat result" where
  "getWriter num pf = vat (pf_writers pf) num"

definition pf_allocate :: "physical_file \<Rightarrow> (phys_name \<times> physical_file) result" where
  "pf_allocate pf =
     (if pf_free_list pf \<noteq> [] then
        let ret_val = last (pf_free_list pf)
        in rbind (vat (pf_ready pf) ret_val) (\<lambda>ready.
           check (\<not> ready) Assert_failed (Inr (ret_val, pf\<lparr>pf_free_list := butlast (pf_free_list pf)\<rparr>)))
      else
        let name = length (pf_values pf)
        in check (length (pf_values pf) = length (pf_ready pf)) Assert_failed (
           Inr (int name, pf\<lparr>pf_values := pf_values pf @ [0], pf_flags := pf_flags pf @ [0], pf_writers := pf_writers pf @ [0],
             pf_ready := pf_ready pf @ [False], pf_ref_counts := pf_ref_counts pf @ [0],
             pf_links := set_prev (Register_list name) (Register_list name)
               (set_next (Register_list name) (Register_list name) (pf_links pf))\<rparr>)))"

definition pf_deAllocate :: "phys_name \<Rightarrow> physical_file \<Rightarrow> physical_file result" where
  "pf_deAllocate num pf =
     rbind (vat (pf_ref_counts pf) num) (\<lambda>count.
     check (count = 0) Assert_failed (
     check (detached (Register_list (nat num)) (pf_links pf)) Assert_failed (
     rbind (vput num 0 (pf_writers pf)) (\<lambda>writers.
     rbind (vput num False (pf_ready pf)) (\<lambda>ready.
     Inr (pf\<lparr>pf_writers := writers, pf_ready := ready, pf_free_list := pf_free_list pf @ [num]\<rparr>))))))"

definition incrementRefCount :: "phys_name \<Rightarrow> physical_file \<Rightarrow> physical_file result" where
  "incrementRefCount num pf =
     check (\<not> no_reg num) Assert_failed (
     rbind (vat (pf_ref_counts pf) num) (\<lambda>count.
     rbind (vput num (count + 1) (pf_ref_counts pf)) (\<lambda>counts. Inr (pf\<lparr>pf_ref_counts := counts\<rparr>))))"

definition decrementRefCount :: "phys_name \<Rightarrow> physical_file \<Rightarrow> physical_file result" where
  "decrementRefCount num pf =
     check (\<not> no_reg num) Assert_failed (
     rbind (vat (pf_ref_counts pf) num) (\<lambda>count.
     rbind (vput num (count - 1) (pf_ref_counts pf)) (\<lambda>counts.
     let pf = pf\<lparr>pf_ref_counts := counts\<rparr> in if count - 1 = 0 then pf_deAllocate num pf else Inr pf)))"

text \<open>The wait lists are deleted: their waiters leave them.\<close>

definition pf_reset :: "physical_file \<Rightarrow> physical_file result" where
  "pf_reset pf =
     rbind (rfold (\<lambda>i h. wakeupAll (\<lambda>h. h) (\<lambda>g _. g) (\<lambda>_ h. Inr h) (Register_list i) h)
       [0..<length (pf_values pf)] (pf_links pf)) (\<lambda>h.
     Inr \<lparr>pf_values = [], pf_flags = [], pf_writers = [], pf_ready = [], pf_ref_counts = [], pf_free_list = [], pf_links = h\<rparr>)"

section \<open>Logical files\<close>

type_synonym logical_file = "phys_name list"

definition LogicalFile :: logical_file where
  "LogicalFile = replicate NUM_REGISTERS REG_NULL_SRC"

definition rename_zf :: "nat \<Rightarrow> nat" where
  "rename_zf num = (if num = REG_zf then REG_flags else num)"

definition getMapping :: "nat \<Rightarrow> logical_file \<Rightarrow> phys_name result" where
  "getMapping num m = check (num \<noteq> REG_rip) Assert_failed (at m (rename_zf num))"

definition setMapping :: "nat \<Rightarrow> phys_name \<Rightarrow> logical_file \<times> physical_file \<Rightarrow> (logical_file \<times> physical_file) result" where
  "setMapping num phys_reg = (\<lambda>(m, pf).
     check (num \<noteq> REG_rip) Assert_failed (
     rbind (at m (rename_zf num)) (\<lambda>old.
     rbind (if \<not> no_reg old then decrementRefCount old pf else Inr pf) (\<lambda>pf.
     rbind (incrementRefCount phys_reg pf) (\<lambda>pf.
     Inr (m[rename_zf num := phys_reg], pf))))))"

definition getNewMapping :: "nat \<Rightarrow> logical_file \<times> physical_file \<Rightarrow> (phys_name \<times> logical_file \<times> physical_file) result" where
  "getNewMapping num = (\<lambda>(m, pf).
     check (num \<noteq> REG_rip) Assert_failed (
     rbind (pf_allocate pf) (\<lambda>(new_preg, pf).
     rbind (setMapping num new_preg (m, pf)) (\<lambda>(m, pf). Inr (new_preg, m, pf)))))"

text \<open>\<open>operator=\<close> first drops the references of the old map, then adds those of the new one.\<close>

definition lf_assign :: "logical_file \<Rightarrow> logical_file \<Rightarrow> physical_file \<Rightarrow> (logical_file \<times> physical_file) result" where
  "lf_assign rhs m pf =
     rbind (rfold (\<lambda>p pf. if \<not> no_reg p then decrementRefCount p pf else Inr pf) m pf) (\<lambda>pf.
     rbind (rfold (\<lambda>p pf. if \<not> no_reg p then incrementRefCount p pf else Inr pf) rhs pf) (\<lambda>pf. Inr (rhs, pf)))"

definition lf_copy :: "logical_file \<Rightarrow> physical_file \<Rightarrow> (logical_file \<times> physical_file) result" where
  "lf_copy src pf =
     rbind (rfold (\<lambda>p pf. if \<not> no_reg p then incrementRefCount p pf else Inr pf) src pf) (\<lambda>pf. Inr (src, pf))"

end
