(* ===== verification/DoubleWord.thy ===== *)
theory DoubleWord
  imports Address
begin

text \<open>
  The memory operands of the processor model, pyrite/DoubleWord.cpp and pyrite/Masks.h: up to eight bytes that do not
  cross a cache line, with a bit for every byte that holds a value. The static address mask of the class is the
  argument \<open>s_address_mask\<close>; a 64-bit address wraps. The lemmas read a word as a partial map from addresses to bytes.
\<close>

unbundle bit_operations_syntax

section \<open>The table of masks\<close>

definition MASKS :: "64 word list" where
  "MASKS =
    [
     0x0000000000000000, 0x00000000000000FF, 0x000000000000FF00, 0x000000000000FFFF,
     0x0000000000FF0000, 0x0000000000FF00FF, 0x0000000000FFFF00, 0x0000000000FFFFFF,
     0x00000000FF000000, 0x00000000FF0000FF, 0x00000000FF00FF00, 0x00000000FF00FFFF,
     0x00000000FFFF0000, 0x00000000FFFF00FF, 0x00000000FFFFFF00, 0x00000000FFFFFFFF,
     0x000000FF00000000, 0x000000FF000000FF, 0x000000FF0000FF00, 0x000000FF0000FFFF,
     0x000000FF00FF0000, 0x000000FF00FF00FF, 0x000000FF00FFFF00, 0x000000FF00FFFFFF,
     0x000000FFFF000000, 0x000000FFFF0000FF, 0x000000FFFF00FF00, 0x000000FFFF00FFFF,
     0x000000FFFFFF0000, 0x000000FFFFFF00FF, 0x000000FFFFFFFF00, 0x000000FFFFFFFFFF,
     0x0000FF0000000000, 0x0000FF00000000FF, 0x0000FF000000FF00, 0x0000FF000000FFFF,
     0x0000FF0000FF0000, 0x0000FF0000FF00FF, 0x0000FF0000FFFF00, 0x0000FF0000FFFFFF,
     0x0000FF00FF000000, 0x0000FF00FF0000FF, 0x0000FF00FF00FF00, 0x0000FF00FF00FFFF,
     0x0000FF00FFFF0000, 0x0000FF00FFFF00FF, 0x0000FF00FFFFFF00, 0x0000FF00FFFFFFFF,
     0x0000FFFF00000000, 0x0000FFFF000000FF, 0x0000FFFF0000FF00, 0x0000FFFF0000FFFF,
     0x0000FFFF00FF0000, 0x0000FFFF00FF00FF, 0x0000FFFF00FFFF00, 0x0000FFFF00FFFFFF,
     0x0000FFFFFF000000, 0x0000FFFFFF0000FF, 0x0000FFFFFF00FF00, 0x0000FFFFFF00FFFF,
     0x0000FFFFFFFF0000, 0x0000FFFFFFFF00FF, 0x0000FFFFFFFFFF00, 0x0000FFFFFFFFFFFF,
     0x00FF000000000000, 0x00FF0000000000FF, 0x00FF00000000FF00, 0x00FF00000000FFFF,
     0x00FF000000FF0000, 0x00FF000000FF00FF, 0x00FF000000FFFF00, 0x00FF000000FFFFFF,
     0x00FF0000FF000000, 0x00FF0000FF0000FF, 0x00FF0000FF00FF00, 0x00FF0000FF00FFFF,
     0x00FF0000FFFF0000, 0x00FF0000FFFF00FF, 0x00FF0000FFFFFF00, 0x00FF0000FFFFFFFF,
     0x00FF00FF00000000, 0x00FF00FF000000FF, 0x00FF00FF0000FF00, 0x00FF00FF0000FFFF,
     0x00FF00FF00FF0000, 0x00FF00FF00FF00FF, 0x00FF00FF00FFFF00, 0x00FF00FF00FFFFFF,
     0x00FF00FFFF000000, 0x00FF00FFFF0000FF, 0x00FF00FFFF00FF00, 0x00FF00FFFF00FFFF,
     0x00FF00FFFFFF0000, 0x00FF00FFFFFF00FF, 0x00FF00FFFFFFFF00, 0x00FF00FFFFFFFFFF,
     0x00FFFF0000000000, 0x00FFFF00000000FF, 0x00FFFF000000FF00, 0x00FFFF000000FFFF,
     0x00FFFF0000FF0000, 0x00FFFF0000FF00FF, 0x00FFFF0000FFFF00, 0x00FFFF0000FFFFFF,
     0x00FFFF00FF000000, 0x00FFFF00FF0000FF, 0x00FFFF00FF00FF00, 0x00FFFF00FF00FFFF,
     0x00FFFF00FFFF0000, 0x00FFFF00FFFF00FF, 0x00FFFF00FFFFFF00, 0x00FFFF00FFFFFFFF,
     0x00FFFFFF00000000, 0x00FFFFFF000000FF, 0x00FFFFFF0000FF00, 0x00FFFFFF0000FFFF,
     0x00FFFFFF00FF0000, 0x00FFFFFF00FF00FF, 0x00FFFFFF00FFFF00, 0x00FFFFFF00FFFFFF,
     0x00FFFFFFFF000000, 0x00FFFFFFFF0000FF, 0x00FFFFFFFF00FF00, 0x00FFFFFFFF00FFFF,
     0x00FFFFFFFFFF0000, 0x00FFFFFFFFFF00FF, 0x00FFFFFFFFFFFF00, 0x00FFFFFFFFFFFFFF,
     0xFF00000000000000, 0xFF000000000000FF, 0xFF0000000000FF00, 0xFF0000000000FFFF,
     0xFF00000000FF0000, 0xFF00000000FF00FF, 0xFF00000000FFFF00, 0xFF00000000FFFFFF,
     0xFF000000FF000000, 0xFF000000FF0000FF, 0xFF000000FF00FF00, 0xFF000000FF00FFFF,
     0xFF000000FFFF0000, 0xFF000000FFFF00FF, 0xFF000000FFFFFF00, 0xFF000000FFFFFFFF,
     0xFF0000FF00000000, 0xFF0000FF000000FF, 0xFF0000FF0000FF00, 0xFF0000FF0000FFFF,
     0xFF0000FF00FF0000, 0xFF0000FF00FF00FF, 0xFF0000FF00FFFF00, 0xFF0000FF00FFFFFF,
     0xFF0000FFFF000000, 0xFF0000FFFF0000FF, 0xFF0000FFFF00FF00, 0xFF0000FFFF00FFFF,
     0xFF0000FFFFFF0000, 0xFF0000FFFFFF00FF, 0xFF0000FFFFFFFF00, 0xFF0000FFFFFFFFFF,
     0xFF00FF0000000000, 0xFF00FF00000000FF, 0xFF00FF000000FF00, 0xFF00FF000000FFFF,
     0xFF00FF0000FF0000, 0xFF00FF0000FF00FF, 0xFF00FF0000FFFF00, 0xFF00FF0000FFFFFF,
     0xFF00FF00FF000000, 0xFF00FF00FF0000FF, 0xFF00FF00FF00FF00, 0xFF00FF00FF00FFFF,
     0xFF00FF00FFFF0000, 0xFF00FF00FFFF00FF, 0xFF00FF00FFFFFF00, 0xFF00FF00FFFFFFFF,
     0xFF00FFFF00000000, 0xFF00FFFF000000FF, 0xFF00FFFF0000FF00, 0xFF00FFFF0000FFFF,
     0xFF00FFFF00FF0000, 0xFF00FFFF00FF00FF, 0xFF00FFFF00FFFF00, 0xFF00FFFF00FFFFFF,
     0xFF00FFFFFF000000, 0xFF00FFFFFF0000FF, 0xFF00FFFFFF00FF00, 0xFF00FFFFFF00FFFF,
     0xFF00FFFFFFFF0000, 0xFF00FFFFFFFF00FF, 0xFF00FFFFFFFFFF00, 0xFF00FFFFFFFFFFFF,
     0xFFFF000000000000, 0xFFFF0000000000FF, 0xFFFF00000000FF00, 0xFFFF00000000FFFF,
     0xFFFF000000FF0000, 0xFFFF000000FF00FF, 0xFFFF000000FFFF00, 0xFFFF000000FFFFFF,
     0xFFFF0000FF000000, 0xFFFF0000FF0000FF, 0xFFFF0000FF00FF00, 0xFFFF0000FF00FFFF,
     0xFFFF0000FFFF0000, 0xFFFF0000FFFF00FF, 0xFFFF0000FFFFFF00, 0xFFFF0000FFFFFFFF,
     0xFFFF00FF00000000, 0xFFFF00FF000000FF, 0xFFFF00FF0000FF00, 0xFFFF00FF0000FFFF,
     0xFFFF00FF00FF0000, 0xFFFF00FF00FF00FF, 0xFFFF00FF00FFFF00, 0xFFFF00FF00FFFFFF,
     0xFFFF00FFFF000000, 0xFFFF00FFFF0000FF, 0xFFFF00FFFF00FF00, 0xFFFF00FFFF00FFFF,
     0xFFFF00FFFFFF0000, 0xFFFF00FFFFFF00FF, 0xFFFF00FFFFFFFF00, 0xFFFF00FFFFFFFFFF,
     0xFFFFFF0000000000, 0xFFFFFF00000000FF, 0xFFFFFF000000FF00, 0xFFFFFF000000FFFF,
     0xFFFFFF0000FF0000, 0xFFFFFF0000FF00FF, 0xFFFFFF0000FFFF00, 0xFFFFFF0000FFFFFF,
     0xFFFFFF00FF000000, 0xFFFFFF00FF0000FF, 0xFFFFFF00FF00FF00, 0xFFFFFF00FF00FFFF,
     0xFFFFFF00FFFF0000, 0xFFFFFF00FFFF00FF, 0xFFFFFF00FFFFFF00, 0xFFFFFF00FFFFFFFF,
     0xFFFFFFFF00000000, 0xFFFFFFFF000000FF, 0xFFFFFFFF0000FF00, 0xFFFFFFFF0000FFFF,
     0xFFFFFFFF00FF0000, 0xFFFFFFFF00FF00FF, 0xFFFFFFFF00FFFF00, 0xFFFFFFFF00FFFFFF,
     0xFFFFFFFFFF000000, 0xFFFFFFFFFF0000FF, 0xFFFFFFFFFF00FF00, 0xFFFFFFFFFF00FFFF,
     0xFFFFFFFFFFFF0000, 0xFFFFFFFFFFFF00FF, 0xFFFFFFFFFFFFFF00, 0xFFFFFFFFFFFFFFFF]"

definition mask_of :: "8 word \<Rightarrow> 64 word" where
  "mask_of m = MASKS ! unat m"

section \<open>Operations\<close>

record double_word =
  dw_value :: "64 word"
  dw_address :: address
  dw_size :: "8 word"
  dw_bytemask :: "8 word"

definition dw_clear :: double_word where
  "dw_clear = \<lparr>dw_value = 0, dw_address = 0, dw_size = 0, dw_bytemask = 0\<rparr>"

definition isClear :: "double_word \<Rightarrow> bool" where
  "isClear d \<longleftrightarrow> dw_address d = 0 \<and> dw_bytemask d = 0 \<and> dw_value d = 0 \<and> dw_size d = 0"

definition alignedAddr :: "address \<Rightarrow> double_word \<Rightarrow> address" where
  "alignedAddr s_address_mask d = dw_address d AND s_address_mask"

text \<open>\<open>(1 << m_size) - 1\<close> in a byte; the shift of an \<open>int\<close> is undefined from 32 on.\<close>

definition size_mask :: "double_word \<Rightarrow> 8 word result" where
  "size_mask d = check (unat (dw_size d) < 32) Undefined (Inr (push_bit (unat (dw_size d)) 1 - 1))"

definition setValue :: "64 word \<Rightarrow> double_word \<Rightarrow> double_word result" where
  "setValue v d =
     check (dw_bytemask d = 0) Assert_failed (
     rbind (size_mask d) (\<lambda>m.
     check (m \<noteq> 0) Assert_failed (Inr (d\<lparr>dw_bytemask := m, dw_value := v AND mask_of m\<rparr>))))"

definition compareValue :: "64 word \<Rightarrow> double_word \<Rightarrow> bool" where
  "compareValue v d \<longleftrightarrow> dw_value d = (v AND mask_of (dw_bytemask d))"

text \<open>The private \<open>writeValue\<close>: the new contents of the target, and the mask of the bytes that were written.\<close>

definition write_shifted :: "64 word \<Rightarrow> int \<Rightarrow> double_word \<Rightarrow> (64 word \<times> 8 word) result" where
  "write_shifted target shiftAmt d =
     check (\<bar>shiftAmt\<bar> * 8 < 64) Undefined (
     let shiftedValue = (if shiftAmt < 0 then push_bit (nat (- shiftAmt * 8)) (dw_value d)
                         else if shiftAmt > 0 then drop_bit (nat (shiftAmt * 8)) (dw_value d) else dw_value d);
         shiftedBytemask = (if shiftAmt < 0 then push_bit (nat (- shiftAmt)) (dw_bytemask d)
                            else if shiftAmt > 0 then drop_bit (nat shiftAmt) (dw_bytemask d) else dw_bytemask d);
         shiftedMask = mask_of shiftedBytemask
     in Inr ((target AND NOT shiftedMask) OR (shiftedValue AND shiftedMask), shiftedBytemask))"

text \<open>\<open>(int)(a - b)\<close> of two addresses.\<close>

definition int_diff :: "address \<Rightarrow> address \<Rightarrow> int" where
  "int_diff a b = sint (ucast (a - b) :: 32 word)"

definition overlaps :: "double_word \<Rightarrow> double_word \<Rightarrow> bool" where
  "overlaps d e \<longleftrightarrow>
     (if dw_address e \<le> dw_address d then dw_address d < dw_address e + ucast (dw_size e)
      else dw_address e < dw_address d + ucast (dw_size d))"

definition writeValue :: "double_word \<Rightarrow> double_word \<Rightarrow> double_word result" where
  "writeValue d target_dw =
     (if overlaps d target_dw
      then rbind (write_shifted (dw_value target_dw) (int_diff (dw_address target_dw) (dw_address d)) d) (\<lambda>(v, m).
        Inr (target_dw\<lparr>dw_value := v AND mask_of (dw_bytemask target_dw)\<rparr>))
      else Inr target_dw)"

definition overlay :: "double_word \<Rightarrow> double_word \<Rightarrow> double_word result" where
  "overlay d target_dw =
     (if overlaps d target_dw
      then rbind (write_shifted (dw_value target_dw) (int_diff (dw_address target_dw) (dw_address d)) d) (\<lambda>(v, m).
        Inr (target_dw\<lparr>dw_value := v, dw_bytemask := dw_bytemask target_dw OR m\<rparr>))
      else Inr target_dw)"

text \<open>The local \<open>shiftedValue\<close> of \<open>overlapMatches\<close> is not initialised: its value is the argument \<open>stack\<close>.\<close>

definition overlapMatches :: "64 word \<Rightarrow> double_word \<Rightarrow> double_word \<Rightarrow> bool result" where
  "overlapMatches stack d e =
     (if \<not> overlaps d e then Inr True
      else rbind (write_shifted stack (int_diff (dw_address e) (dw_address d)) d) (\<lambda>(shiftedValue, shiftedBytemask).
        let overlap = shiftedBytemask AND dw_bytemask e; xored_value = shiftedValue XOR dw_value e
        in Inr (xored_value AND mask_of overlap = 0)))"

definition covers :: "double_word \<Rightarrow> double_word \<Rightarrow> bool result" where
  "covers d e =
     (if \<not> overlaps d e then Inr False
      else if dw_address d < dw_address e then Inr False
      else
        let shiftAmt = int_diff (dw_address d) (dw_address e)
        in rbind (size_mask d) (\<lambda>desired_mask.
           check (0 \<le> shiftAmt \<and> shiftAmt < 32) Undefined (
           Inr (drop_bit (nat shiftAmt) (dw_bytemask e) AND desired_mask = desired_mask))))"

text \<open>\<open>setAddress\<close> returns the number of bytes that lie beyond the line; it leaves the byte mask as it is.\<close>

definition setAddress :: "address \<Rightarrow> address \<Rightarrow> 64 word \<Rightarrow> double_word \<Rightarrow> (64 word \<times> double_word) result" where
  "setAddress s_address_mask address bytes d =
     (let m_size = ucast bytes :: 8 word;
          overflow = (address + ucast m_size) AND NOT s_address_mask;
          (overflow, m_size) = (if overflow < ucast m_size then (overflow, m_size - ucast overflow) else (0, m_size))
      in check (ucast m_size + (address AND NOT s_address_mask) \<le> NOT s_address_mask + 1) Assert_failed (
         Inr (overflow, d\<lparr>dw_address := address, dw_size := m_size, dw_value := 0\<rparr>)))"

text \<open>The mask that pyrite/pyrite.cpp sets: lines of \<open>2 ^ block_bits\<close> bytes. The shift is that of an \<open>int\<close>.\<close>

definition address_mask :: "nat \<Rightarrow> address" where
  "address_mask block_bits = NOT (push_bit block_bits 1 - 1)"

section \<open>The table\<close>


text \<open>The table is built by doubling: entry \<open>i + 2 ^ k\<close> is entry \<open>i\<close> with byte \<open>k\<close> added.\<close>

definition add_lane :: "64 word \<Rightarrow> 64 word list \<Rightarrow> 64 word list" where
  "add_lane v xs = xs @ map (\<lambda>w. w + v) xs"

definition lanes_ok :: "nat \<Rightarrow> 64 word list \<Rightarrow> bool" where
  "lanes_ok k xs \<longleftrightarrow> length xs = 2 ^ k \<and> (\<forall>i < 2 ^ k. \<forall>n. bit (xs ! i) n \<longleftrightarrow> n < 8 * k \<and> bit i (n div 8))"

lemma bit_255: "bit (255 :: 64 word) n \<longleftrightarrow> n < 8"
proof -
  have "(255 :: 64 word) = mask 8" by (simp add: mask_eq_exp_minus_1)
  then have "bit (255 :: 64 word) n \<longleftrightarrow> bit (mask 8 :: 64 word) n" by (rule arg_cong)
  then show ?thesis unfolding bit_mask_iff by auto
qed

lemma bit_lane: "k < 8 \<Longrightarrow> bit (push_bit (8 * k) 255 :: 64 word) n \<longleftrightarrow> n div 8 = k"
  unfolding bit_push_bit_iff bit_255 by auto

lemma bit_small: "i < 2 ^ k \<Longrightarrow> bit (i :: nat) j \<Longrightarrow> j < k"
  by (metis bit_take_bit_iff take_bit_nat_eq_self_iff)

lemma bit_add_power: "i < 2 ^ k \<Longrightarrow> bit (i + 2 ^ k :: nat) j \<longleftrightarrow> j = k \<or> bit i j"
proof -
  assume i: "i < 2 ^ k"
  then have "i + 2 ^ k = i OR 2 ^ k"
    by (intro disjunctive_add_eq_or) (metis and_exp_eq_0_iff_not_bit bit_small less_irrefl)
  then show ?thesis by (auto simp: bit_or_iff bit_exp_iff)
qed

lemma add_lane_ok:
  assumes "lanes_ok k xs" "k < 8"
  shows "lanes_ok (Suc k) (add_lane (push_bit (8 * k) 255) xs)"
proof -
  have len: "length xs = 2 ^ k" using assms(1) by (simp add: lanes_ok_def)
  have "bit (add_lane (push_bit (8 * k) 255) xs ! i) n \<longleftrightarrow> n < 8 * Suc k \<and> bit i (n div 8)" if i: "i < 2 ^ Suc k" for i n
  proof (cases "i < 2 ^ k")
    case True
    then have "add_lane (push_bit (8 * k) 255) xs ! i = xs ! i" by (simp add: add_lane_def nth_append len)
    moreover have "bit i (n div 8) \<Longrightarrow> n div 8 < k" by (rule bit_small [OF True])
    ultimately show ?thesis using assms(1) True by (auto simp: lanes_ok_def)
  next
    case False
    define j where "j = i - 2 ^ k"
    have j: "j < 2 ^ k" "i = j + 2 ^ k" using False i by (auto simp: j_def)
    have "(xs ! j) AND push_bit (8 * k) 255 = 0"
      using assms j by (intro bit_eqI) (auto simp: bit_and_iff bit_lane lanes_ok_def)
    then have "add_lane (push_bit (8 * k) 255) xs ! i = xs ! j OR push_bit (8 * k) 255"
      using j by (simp add: add_lane_def nth_append len disjunctive_add_eq_or)
    then show ?thesis using assms j(1) by (auto simp: j(2) bit_add_power bit_or_iff bit_lane lanes_ok_def)
  qed
  then show ?thesis by (simp add: lanes_ok_def add_lane_def len)
qed

lemma lane_step:
  "lanes_ok k xs \<Longrightarrow> v = push_bit (8 * k) 255 \<Longrightarrow> j = Suc k \<Longrightarrow> k < 8 \<Longrightarrow> lanes_ok j (add_lane v xs)"
  by (simp add: add_lane_ok)

lemma MASKS_lanes: "lanes_ok 8 MASKS"
proof -
  have "lanes_ok 0 [0]" by (simp add: lanes_ok_def)
  then have "lanes_ok 8 (add_lane 0xFF00000000000000 (add_lane 0xFF000000000000 (add_lane 0xFF0000000000
      (add_lane 0xFF00000000 (add_lane 0xFF000000 (add_lane 0xFF0000 (add_lane 0xFF00 (add_lane 0xFF [0]))))))))"
    by - (rule lane_step [where k = 7], rule lane_step [where k = 6], rule lane_step [where k = 5],
      rule lane_step [where k = 4], rule lane_step [where k = 3], rule lane_step [where k = 2],
      rule lane_step [where k = 1], rule lane_step [where k = 0], simp_all add: push_bit_eq_mult)
  then show ?thesis by (simp add: MASKS_def add_lane_def)
qed

lemma bit_mask_of: "bit (mask_of m) n \<longleftrightarrow> bit m (n div 8)"
proof -
  have "unat m < 2 ^ 8" using unsigned_less [of m] by simp
  then have "bit (mask_of m) n \<longleftrightarrow> n < 64 \<and> bit m (n div 8)"
    using MASKS_lanes unfolding lanes_ok_def mask_of_def by (auto simp: bit_unsigned_iff dest: bit_imp_le_length)
  moreover have "n < 64" if "bit m (n div 8)" using bit_imp_le_length [OF that] by simp
  ultimately show ?thesis by blast
qed

section \<open>The bytes of a word\<close>

definition byte_of :: "64 word \<Rightarrow> nat \<Rightarrow> 8 word" where
  "byte_of v k = ucast (drop_bit (8 * k) v)"

definition dw_byte :: "double_word \<Rightarrow> address \<Rightarrow> 8 word option" where
  "dw_byte d a =
     (let k = unat a - unat (dw_address d)
      in if dw_address d \<le> a \<and> k < 8 \<and> bit (dw_bytemask d) k then Some (byte_of (dw_value d) k) else None)"

definition dw_fits :: "double_word \<Rightarrow> bool" where
  "dw_fits d \<longleftrightarrow> unat (dw_address d) + 8 < 2 ^ 64 \<and> unat (dw_size d) \<le> 8"

definition dw_ok :: "double_word \<Rightarrow> bool" where
  "dw_ok d \<longleftrightarrow> dw_fits d \<and> (\<forall>k. bit (dw_bytemask d) k \<longrightarrow> k < unat (dw_size d))"

definition in_word :: "double_word \<Rightarrow> address \<Rightarrow> bool" where
  "in_word d a \<longleftrightarrow> dw_address d \<le> a \<and> unat a - unat (dw_address d) < unat (dw_size d)"

lemma bit_byte_of: "bit (byte_of v k) j \<longleftrightarrow> j < 8 \<and> bit v (8 * k + j)"
  by (simp add: byte_of_def bit_ucast_iff bit_drop_bit_eq)

lemma byte_of_eq: "(\<And>k. k < 8 \<Longrightarrow> byte_of v k = byte_of w k) \<Longrightarrow> v = w"
proof (rule bit_word_eqI)
  fix n assume "\<And>k. k < 8 \<Longrightarrow> byte_of v k = byte_of w k" "n < LENGTH(64)"
  then have "byte_of v (n div 8) = byte_of w (n div 8)" by simp
  then have "bit (byte_of v (n div 8)) (n mod 8) = bit (byte_of w (n div 8)) (n mod 8)" by simp
  then show "bit v n = bit w n" by (simp add: bit_byte_of)
qed

lemma byte_of_and_mask: "byte_of (v AND mask_of m) k = (if bit m k then byte_of v k else 0)"
  by (rule bit_eqI) (auto simp: bit_byte_of bit_and_iff bit_mask_of)

lemma byte_of_0: "byte_of 0 k = 0"
  by (simp add: byte_of_def)

lemma xor_zero: "a XOR b = 0 \<longleftrightarrow> a = b" for a b :: "8 word"
  by (metis xor.assoc xor.left_neutral xor.right_neutral xor_self_eq)

lemma byte_of_xor: "byte_of (v XOR w) k = byte_of v k XOR byte_of w k"
  by (rule bit_eqI) (auto simp: bit_byte_of bit_xor_iff)

lemma byte_of_select:
  "byte_of ((t AND NOT (mask_of m)) OR (v AND mask_of m)) k = (if bit m k then byte_of v k else byte_of t k)"
proof (rule bit_eqI)
  fix j
  have "j < 8 \<Longrightarrow> (8 * k + j) div 8 = k" by simp
  then show "bit (byte_of ((t AND NOT (mask_of m)) OR (v AND mask_of m)) k) j
      = bit (if bit m k then byte_of v k else byte_of t k) j"
    using bit_imp_le_length [of t "8 * k + j"]
    by (auto simp: bit_byte_of bit_and_iff bit_or_iff bit_not_iff_eq bit_mask_of possible_bit_def)
qed

lemma byte_of_push: "byte_of (push_bit (8 * s) v) k = (if s \<le> k \<and> k < 8 then byte_of v (k - s) else 0)"
  by (rule bit_eqI) (auto simp: bit_byte_of bit_push_bit_iff diff_mult_distrib2 dest: bit_imp_le_length)

lemma byte_of_drop: "byte_of (drop_bit (8 * s) v) k = byte_of v (k + s)"
  by (rule bit_eqI) (auto simp: bit_byte_of bit_drop_bit_eq algebra_simps)

lemma write_shifted_ok:
  assumes "\<bar>s\<bar> < 8"
  shows "\<exists>v m. write_shifted t s d = Inr (v, m)
    \<and> (\<forall>k < 8. bit m k \<longleftrightarrow> 0 \<le> int k + s \<and> bit (dw_bytemask d) (nat (int k + s)))
    \<and> (\<forall>k < 8. byte_of v k = (if bit m k then byte_of (dw_value d) (nat (int k + s)) else byte_of t k))"
proof -
  consider "s < 0" | "0 < s" | "s = 0" by linarith
  then show ?thesis
  proof cases
    case 1
    then have s: "nat (- (s * 8)) = 8 * nat (- s)" by simp
    have "nat (int k + s) = k - nat (- s) \<and> (0 \<le> int k + s \<longleftrightarrow> nat (- s) \<le> k)" for k using 1 by auto
    with 1 assms show ?thesis
      by (auto simp: write_shifted_def Let_def byte_of_select s byte_of_push bit_push_bit_iff dest: bit_imp_le_length)
  next
    case 2
    then have s: "nat (s * 8) = 8 * nat s" by simp
    have "nat (int k + s) = nat s + k" for k using 2 by auto
    with 2 assms show ?thesis
      by (auto simp: write_shifted_def Let_def byte_of_select s byte_of_drop bit_drop_bit_eq add.commute)
  next
    case 3
    then show ?thesis by (auto simp: write_shifted_def Let_def byte_of_select)
  qed
qed

text \<open>Two words that overlap lie less than eight bytes apart.\<close>

lemma word_sum:
  assumes "dw_fits d"
  shows "unat (dw_address d + ucast (dw_size d)) = unat (dw_address d) + unat (dw_size d)"
proof -
  have "unat (dw_address d) + unat (dw_size d) < 2 ^ 64"
    using assms unfolding dw_fits_def by linarith
  then show ?thesis
    by (subst unat_add_lem [THEN iffD1]) (simp_all add: unsigned_ucast_eq take_bit_nat_eq_self)
qed

lemma overlaps_iff:
  assumes "dw_fits d" "dw_fits e"
  shows "overlaps d e \<longleftrightarrow>
    (if dw_address e \<le> dw_address d then unat (dw_address d) < unat (dw_address e) + unat (dw_size e)
     else unat (dw_address e) < unat (dw_address d) + unat (dw_size d))"
  by (simp add: overlaps_def word_less_nat_alt word_sum assms)

lemma int_diff_near:
  assumes "\<bar>int (unat a) - int (unat b)\<bar> < 8"
  shows "int_diff a b = int (unat a) - int (unat b)"
proof -
  have diff: "uint (a - b) = take_bit 64 (uint a - uint b)"
    by (simp add: uint_word_ariths take_bit_eq_mod)
  have "int_diff a b = signed_take_bit 31 (uint (ucast (a - b) :: 32 word))"
    by (simp add: int_diff_def sint_uint)
  also have "uint (ucast (a - b) :: 32 word) = take_bit 32 (uint (a - b))"
    by (simp add: unsigned_ucast_eq)
  also have "signed_take_bit 31 (take_bit 32 (uint (a - b))) = signed_take_bit 31 (uint a - uint b)"
    unfolding diff by (simp add: signed_take_bit_take_bit)
  also have "\<dots> = uint a - uint b"
    using assms by (intro signed_take_bit_int_eq_self) auto
  finally show ?thesis by simp
qed

lemma overlaps_near:
  assumes "overlaps d e" "dw_fits d" "dw_fits e"
  shows "\<bar>int (unat (dw_address e)) - int (unat (dw_address d))\<bar> < 8"
  using assms(1) unfolding overlaps_iff [OF assms(2,3)]
  using assms(2,3) by (auto simp: dw_fits_def word_le_nat_alt simp del: of_nat_unat split: if_splits)

text \<open>A write reaches every byte of the target.\<close>

lemma write_overlapping:
  assumes "overlaps d t" "dw_fits d" "dw_fits t"
  shows "\<exists>v m. write_shifted x (int_diff (dw_address t) (dw_address d)) d = Inr (v, m)
    \<and> (\<forall>k < 8. let a = dw_address t + of_nat k in
          bit m k = (dw_byte d a \<noteq> None) \<and> byte_of v k = (case dw_byte d a of None \<Rightarrow> byte_of x k | Some b \<Rightarrow> b))"
proof -
  note fits = assms(2)
  let ?s = "int (unat (dw_address t)) - int (unat (dw_address d))"
  have near: "\<bar>?s\<bar> < 8" by (rule overlaps_near [OF assms(1) fits assms(3)])
  have addr: "unat (dw_address t + of_nat k) = unat (dw_address t) + k" if "k < 8" for k
    using assms(3) that by (subst unat_add_lem [THEN iffD1]) (simp_all add: dw_fits_def unsigned_of_nat take_bit_nat_eq_self)
  have byte: "dw_byte d (dw_address t + of_nat k) =
      (if 0 \<le> int k + ?s \<and> bit (dw_bytemask d) (nat (int k + ?s)) then Some (byte_of (dw_value d) (nat (int k + ?s))) else None)"
    if "k < 8" for k
  proof -
    have "nat (int k + ?s) = unat (dw_address t) + k - unat (dw_address d)"
      "0 \<le> int k + ?s \<longleftrightarrow> unat (dw_address d) \<le> unat (dw_address t) + k" by linarith+
    moreover have "bit (dw_bytemask d) j \<Longrightarrow> j < 8" for j using bit_imp_le_length [of "dw_bytemask d" j] by simp
    ultimately show ?thesis by (auto simp: dw_byte_def Let_def word_le_nat_alt addr [OF that] simp del: of_nat_unat)
  qed
  obtain v m where w: "write_shifted x ?s d = Inr (v, m)"
      "\<forall>k < 8. bit m k \<longleftrightarrow> 0 \<le> int k + ?s \<and> bit (dw_bytemask d) (nat (int k + ?s))"
      "\<forall>k < 8. byte_of v k = (if bit m k then byte_of (dw_value d) (nat (int k + ?s)) else byte_of x k)"
    using write_shifted_ok [OF near, of x d] by auto
  then show ?thesis by (auto simp: int_diff_near [OF near] byte Let_def)
qed

lemma bytes_of_address:
  assumes "in_word t a" "dw_fits t"
  shows "\<exists>k < unat (dw_size t). a = dw_address t + of_nat k \<and> unat a - unat (dw_address t) = k"
proof (intro exI conjI)
  let ?k = "unat a - unat (dw_address t)"
  have "unat (dw_address t) \<le> unat a" using assms(1) by (simp add: in_word_def word_le_nat_alt)
  then have "(of_nat ?k :: address) = of_nat (unat a) - of_nat (unat (dw_address t))" by (rule of_nat_diff)
  then show "a = dw_address t + of_nat ?k" by simp
  show "?k < unat (dw_size t)" using assms(1) by (simp add: in_word_def)
qed simp

text \<open>Where two words do not overlap, neither has a byte in the range of the other.\<close>

lemma disjoint_bytes:
  assumes "\<not> overlaps d t" "dw_ok d" "dw_fits t" "in_word t a"
  shows "dw_byte d a = None"
proof (rule ccontr)
  assume "dw_byte d a \<noteq> None"
  then have "dw_address d \<le> a" "unat a - unat (dw_address d) < unat (dw_size d)"
    using assms(2) by (auto simp: dw_byte_def Let_def dw_ok_def split: if_splits)
  moreover have "dw_address t \<le> a" "unat a - unat (dw_address t) < unat (dw_size t)"
    using assms(4) by (auto simp: in_word_def)
  moreover have "dw_fits d" using assms(2) by (simp add: dw_ok_def)
  ultimately show False
    using assms(1) unfolding overlaps_iff [OF \<open>dw_fits d\<close> assms(3)] word_le_nat_alt by (auto split: if_splits)
qed

lemma overlay_ok:
  assumes "dw_ok d" "dw_fits t"
  shows "\<exists>t'. overlay d t = Inr t' \<and> dw_address t' = dw_address t \<and> dw_size t' = dw_size t
    \<and> (\<forall>a. in_word t a \<longrightarrow> dw_byte t' a = (case dw_byte d a of None \<Rightarrow> dw_byte t a | Some b \<Rightarrow> Some b))"
proof (cases "overlaps d t")
  case False
  then show ?thesis using disjoint_bytes [OF False assms] by (auto simp: overlay_def)
next
  case True
  obtain v m where w: "write_shifted (dw_value t) (int_diff (dw_address t) (dw_address d)) d = Inr (v, m)"
    and b: "\<forall>k < 8. let a = dw_address t + of_nat k in
          bit m k = (dw_byte d a \<noteq> None) \<and> byte_of v k = (case dw_byte d a of None \<Rightarrow> byte_of (dw_value t) k | Some b \<Rightarrow> b)"
    using write_overlapping [OF True _ assms(2)] assms(1) unfolding dw_ok_def by blast
  let ?t = "t\<lparr>dw_value := v, dw_bytemask := dw_bytemask t OR m\<rparr>"
  have "dw_byte ?t a = (case dw_byte d a of None \<Rightarrow> dw_byte t a | Some b \<Rightarrow> Some b)" if a: "in_word t a" for a
  proof -
    obtain k where k: "k < unat (dw_size t)" "a = dw_address t + of_nat k" "unat a - unat (dw_address t) = k"
      using bytes_of_address [OF a assms(2)] by auto
    have le: "dw_address t \<le> a" "k < 8" using a k(1) assms(2) by (auto simp: in_word_def dw_fits_def)
    have "dw_byte ?t a = (if bit (dw_bytemask t) k \<or> bit m k then Some (byte_of v k) else None)"
      "dw_byte t a = (if bit (dw_bytemask t) k then Some (byte_of (dw_value t) k) else None)"
      using le k(3) by (simp_all add: dw_byte_def bit_or_iff)
    moreover have "bit m k = (dw_byte d a \<noteq> None)"
      "byte_of v k = (case dw_byte d a of None \<Rightarrow> byte_of (dw_value t) k | Some b \<Rightarrow> b)"
      using b le(2) by (auto simp: Let_def k(2))
    ultimately show ?thesis by (auto split: option.splits)
  qed
  then show ?thesis by (simp add: overlay_def True w)
qed

lemma bit_size_mask: "n \<le> 8 \<Longrightarrow> bit (push_bit n 1 - 1 :: 8 word) k \<longleftrightarrow> k < n"
proof -
  assume n: "n \<le> 8"
  have "(push_bit n 1 - 1 :: 8 word) = mask n" by (simp add: mask_eq_exp_minus_1 push_bit_eq_mult)
  then show ?thesis using n by (auto simp: bit_mask_iff possible_bit_def)
qed

lemma size_mask_ok:
  assumes "unat (dw_size d) \<le> 8"
  shows "\<exists>m. size_mask d = Inr m \<and> (\<forall>k. bit m k \<longleftrightarrow> k < unat (dw_size d))"
  using assms unfolding size_mask_def by (auto simp del: push_bit_of_1 simp: bit_size_mask)

lemma setValue_ok:
  assumes "dw_bytemask d = 0" "dw_fits d" "0 < dw_size d"
  shows "\<exists>d'. setValue v d = Inr d' \<and> dw_address d' = dw_address d \<and> dw_size d' = dw_size d \<and> dw_ok d'
    \<and> (\<forall>k. bit (dw_bytemask d') k \<longleftrightarrow> k < unat (dw_size d))
    \<and> (\<forall>k. byte_of (dw_value d') k = (if k < unat (dw_size d) then byte_of v k else 0))"
proof -
  have n: "unat (dw_size d) \<le> 8" "0 < unat (dw_size d)" using assms(2,3) by (auto simp: dw_fits_def word_less_nat_alt)
  obtain m where m: "size_mask d = Inr m" "\<forall>k. bit m k \<longleftrightarrow> k < unat (dw_size d)" using size_mask_ok [OF n(1)] by auto
  have "bit m 0" using m(2) n(2) by simp
  then have "m \<noteq> 0" by (metis bit_0_eq bot_apply bot_bool_def)
  then have "setValue v d = Inr (d\<lparr>dw_bytemask := m, dw_value := v AND mask_of m\<rparr>)"
    using assms(1) by (simp add: setValue_def m(1))
  then show ?thesis
    using assms(2) m(2) by (simp add: byte_of_and_mask dw_ok_def dw_fits_def)
qed

lemma writeValue_ok:
  assumes "overlaps d t" "dw_fits d" "dw_fits t"
  shows "\<exists>t'. writeValue d t = Inr t' \<and> dw_address t' = dw_address t \<and> dw_size t' = dw_size t
    \<and> dw_bytemask t' = dw_bytemask t
    \<and> (\<forall>k < 8. byte_of (dw_value t') k = (if bit (dw_bytemask t) k
          then (case dw_byte d (dw_address t + of_nat k) of None \<Rightarrow> byte_of (dw_value t) k | Some b \<Rightarrow> b) else 0))"
  using write_overlapping [OF assms, of "dw_value t"] assms(1)
  by (auto simp: writeValue_def byte_of_and_mask Let_def)

lemma dw_byte_at:
  assumes "dw_fits t" "k < 8"
  shows "dw_byte t (dw_address t + of_nat k) = (if bit (dw_bytemask t) k then Some (byte_of (dw_value t) k) else None)"
proof -
  have "unat (dw_address t + of_nat k) = unat (dw_address t) + k"
    using assms by (subst unat_add_lem [THEN iffD1]) (simp_all add: dw_fits_def unsigned_of_nat take_bit_nat_eq_self)
  then show ?thesis using assms(2) by (simp add: dw_byte_def word_le_nat_alt)
qed

text \<open>What the uninitialised local holds does not matter: the bytes that are compared have all been written.\<close>

lemma overlapMatches_ok:
  assumes "overlaps d t" "dw_fits d" "dw_fits t"
  shows "overlapMatches stack d t = Inr (\<forall>a b c. dw_byte d a = Some b \<longrightarrow> dw_byte t a = Some c \<longrightarrow> b = c)"
proof -
  obtain v m where w: "write_shifted stack (int_diff (dw_address t) (dw_address d)) d = Inr (v, m)"
    and b: "\<forall>k < 8. let a = dw_address t + of_nat k in
          bit m k = (dw_byte d a \<noteq> None) \<and> byte_of v k = (case dw_byte d a of None \<Rightarrow> byte_of stack k | Some b \<Rightarrow> b)"
    using write_overlapping [OF assms] by blast
  let ?x = "(v XOR dw_value t) AND mask_of (m AND dw_bytemask t)"
  have x: "byte_of ?x k = (if bit m k \<and> bit (dw_bytemask t) k then byte_of v k XOR byte_of (dw_value t) k else 0)" for k
    by (simp add: byte_of_and_mask bit_and_iff byte_of_xor)
  have "?x = 0 \<longleftrightarrow> (\<forall>k < 8. byte_of ?x k = 0)"
    using byte_of_eq [of ?x 0] byte_of_0 by metis
  also have "\<dots> \<longleftrightarrow> (\<forall>k < 8. bit m k \<longrightarrow> bit (dw_bytemask t) k \<longrightarrow> byte_of v k = byte_of (dw_value t) k)"
    by (auto simp: x xor_zero)
  also have "\<dots> \<longleftrightarrow> (\<forall>a b c. dw_byte d a = Some b \<longrightarrow> dw_byte t a = Some c \<longrightarrow> b = c)"
  proof (intro iffI allI impI)
    fix a b' c
    assume eq: "\<forall>k < 8. bit m k \<longrightarrow> bit (dw_bytemask t) k \<longrightarrow> byte_of v k = byte_of (dw_value t) k"
      and a: "dw_byte d a = Some b'" "dw_byte t a = Some c"
    define k where "k = unat a - unat (dw_address t)"
    have k: "k < 8" "a = dw_address t + of_nat k"
    proof -
      have "dw_address t \<le> a" "k < 8" using a(2) by (auto simp: dw_byte_def Let_def k_def split: if_splits)
      then show "k < 8" "a = dw_address t + of_nat k" by (simp_all add: k_def word_le_nat_alt of_nat_diff)
    qed
    show "b' = c" using a b eq k by (auto simp: dw_byte_at [OF assms(3) k(1)] Let_def split: if_splits)
  next
    fix k
    assume eq: "\<forall>a b c. dw_byte d a = Some b \<longrightarrow> dw_byte t a = Some c \<longrightarrow> b = c"
      and k: "k < 8" "bit m k" "bit (dw_bytemask t) k"
    from k(1,2) b obtain c where "dw_byte d (dw_address t + of_nat k) = Some c" "byte_of v k = c"
      by (auto simp: Let_def)
    with eq k show "byte_of v k = byte_of (dw_value t) k" by (auto simp: dw_byte_at [OF assms(3) k(1)])
  qed
  finally show ?thesis using assms(1) by (simp add: overlapMatches_def w Let_def)
qed

text \<open>
  \<open>covers\<close>: the comment of the code says that the argument covers this word. A word whose byte mask is empty covers
  nothing, whatever its size.
\<close>

lemma covers_empty:
  assumes "dw_bytemask e = 0" "0 < dw_size d" "dw_fits d" "dw_fits e"
  shows "covers d e = Inr False"
proof (cases "overlaps d e \<and> \<not> dw_address d < dw_address e")
  case False
  then show ?thesis by (auto simp: covers_def)
next
  case True
  obtain m where m: "size_mask d = Inr m" "\<forall>k. bit m k \<longleftrightarrow> k < unat (dw_size d)"
    using size_mask_ok assms(3) unfolding dw_fits_def by blast
  have "bit m 0" using m(2) assms(2) by (simp add: word_less_nat_alt)
  then have "0 \<noteq> m" by (metis bit_0_eq bot_apply bot_bool_def)
  have near: "\<bar>int (unat (dw_address d)) - int (unat (dw_address e))\<bar> < 8"
    using overlaps_near [OF _ assms(3,4)] True by (metis abs_minus_commute)
  have "unat (dw_address e) \<le> unat (dw_address d)" using True by (simp add: word_le_nat_alt not_less)
  then have "0 \<le> int_diff (dw_address d) (dw_address e) \<and> int_diff (dw_address d) (dw_address e) < 32"
    unfolding int_diff_near [OF near] using near by linarith
  with \<open>0 \<noteq> m\<close> show ?thesis using True m(1) assms(1) by (simp add: covers_def Let_def)
qed

section \<open>Splitting an access at a line\<close>

lemma not_address_mask: "NOT (address_mask b) = mask b"
  by (simp add: address_mask_def mask_eq_exp_minus_1 push_bit_eq_mult)

lemma setAddress_ok:
  assumes "3 \<le> b" "b < 64" "unat n \<le> 8" "unat a + 8 < 2 ^ 64"
  shows "\<exists>o' d'. setAddress (address_mask b) a n d = Inr (o', d') \<and> unat o' = unat a mod 2 ^ b + unat n - 2 ^ b
    \<and> dw_address d' = a \<and> unat (dw_size d') = min (unat n) (2 ^ b - unat a mod 2 ^ b)
    \<and> dw_bytemask d' = dw_bytemask d \<and> dw_value d' = 0"
proof -
  let ?r = "unat a mod 2 ^ b" and ?N = "unat n"
  define m where "m = (ucast n :: 8 word)"
  define s where "s = (a + ucast m) AND NOT (address_mask b)"
  have B: "8 \<le> (2 :: nat) ^ b" using power_increasing [OF assms(1), of "2 :: nat"] by simp
  have r: "?r < 2 ^ b" by simp
  have m: "unat m = ?N" using assms(3) by (simp add: m_def unsigned_ucast_eq take_bit_nat_eq_self)
  have um: "unat (ucast m :: 64 word) = ?N" using assms(3) by (simp add: unsigned_ucast_eq take_bit_nat_eq_self m)
  have "unat (a + ucast m) = unat a + ?N"
    using assms(3,4) by (subst unat_add_lem [THEN iffD1]) (simp_all add: um)
  then have "unat s = (unat a + ?N) mod 2 ^ b"
    by (simp add: s_def not_address_mask unat_take_bit64 flip: take_bit_eq_mask)
  also have "\<dots> = (?r + ?N) mod 2 ^ b" by (simp add: mod_add_left_eq)
  also have "\<dots> = (if ?r + ?N < 2 ^ b then ?r + ?N else ?r + ?N - 2 ^ b)"
  proof (cases "?r + ?N < 2 ^ b")
    case False
    then have "(?r + ?N) mod 2 ^ b = (?r + ?N - 2 ^ b) mod 2 ^ b" by (intro le_mod_geq) simp
    moreover have "?r + ?N - 2 ^ b < 2 ^ b" using r B assms(3) by linarith
    ultimately show ?thesis using False by simp
  qed simp
  finally have s: "unat s = (if ?r + ?N < 2 ^ b then ?r + ?N else ?r + ?N - 2 ^ b)" .
  have "(2 :: nat) ^ b < 2 ^ 64" using assms(2) by (rule power_strict_increasing) simp
  then have "unat (push_bit b 1 :: address) = 2 ^ b"
    by (simp only: unsigned_push_bit_eq) (simp add: take_bit_nat_eq_self push_bit_eq_mult assms(2))
  then have lim: "unat (mask b + 1 :: address) = 2 ^ b" by (simp add: mask_eq_exp_minus_1)
  have fits: "ucast k + (a AND NOT (address_mask b)) \<le> NOT (address_mask b) + 1"
    if "unat (k :: 8 word) + ?r \<le> 2 ^ b" for k
  proof -
    have "unat (ucast k :: address) = unat k"
      using unsigned_less [of k, where ?'a = nat] by (simp add: unsigned_ucast_eq take_bit_nat_eq_self)
    moreover have "unat (a AND NOT (address_mask b)) = ?r"
      by (simp add: not_address_mask unat_take_bit64 flip: take_bit_eq_mask)
    moreover have "(2 :: nat) ^ b < 2 ^ 64" using assms(2) by (rule power_strict_increasing) simp
    ultimately have "unat (ucast k + (a AND NOT (address_mask b))) = unat k + ?r"
      using that by (subst unat_add_lem [THEN iffD1]) simp_all
    then show ?thesis using that by (simp add: word_le_nat_alt not_address_mask lim)
  qed
  show ?thesis
  proof (cases "s < ucast m")
    case True
    then have lt: "unat s < ?N" by (simp add: word_less_nat_alt um)
    have "unat (ucast s :: 8 word) = unat s" using lt assms(3) by (simp add: unsigned_ucast_eq take_bit_nat_eq_self)
    then have "unat (m - ucast s) = ?N - unat s" using lt m by (simp add: unat_sub word_le_nat_alt)
    moreover have "?r + ?N < 2 ^ b \<Longrightarrow> False" using lt s by simp
    ultimately have sizes: "unat (m - ucast s) = min ?N (2 ^ b - ?r)" "unat s = ?r + ?N - 2 ^ b"
      using s r by auto
    have "unat (m - ucast s) + ?r \<le> 2 ^ b" unfolding sizes(1) using r by linarith
    from fits [OF this] show ?thesis
      using True sizes by (auto simp: setAddress_def Let_def simp flip: m_def s_def)
  next
    case False
    then have "?N \<le> unat s" by (simp add: word_less_nat_alt um not_less)
    moreover have "r' + n' \<le> c" if "n' \<le> (if r' + n' < c then r' + n' else r' + n' - c)" "r' < c" for n' r' c :: nat
      using that by (auto split: if_splits)
    ultimately have small: "?r + ?N \<le> 2 ^ b" using r unfolding s by blast
    then have "unat m + ?r \<le> 2 ^ b" by (simp add: m)
    from fits [OF this] show ?thesis
      using False small m by (auto simp: setAddress_def Let_def simp flip: m_def s_def)
  qed
qed

end
