(* ===== verification/PyriteState.thy ===== *)
theory PyriteState
  imports RegFile DoubleWord
begin

text \<open>
  The state of the out-of-order core, pyrite/DynamicInst.h and the fields of pyrite/Processor.h that rename, execute and
  retire instructions. An instruction is known by its slot in the instruction buffer; a queue pointer counts the
  micro-operations since the start and is unbounded. What the recording of a trace keeps (\<open>m_record\<close>) is left out.
\<close>

datatype stage_type =
  FETCH_STAGE | DECODE_STAGE | WAIT_RA_STAGE | WAIT_RB_STAGE | WAIT_RC_STAGE | READY_STAGE
  | EXECUTE_STAGE | MEMORY_STAGE | COMPLETE_STAGE | RETIRE_STAGE

primrec stage_number :: "stage_type \<Rightarrow> nat" where
  "stage_number FETCH_STAGE = 0"
| "stage_number DECODE_STAGE = 1"
| "stage_number WAIT_RA_STAGE = 2"
| "stage_number WAIT_RB_STAGE = 3"
| "stage_number WAIT_RC_STAGE = 4"
| "stage_number READY_STAGE = 5"
| "stage_number EXECUTE_STAGE = 6"
| "stage_number MEMORY_STAGE = 7"
| "stage_number COMPLETE_STAGE = 8"
| "stage_number RETIRE_STAGE = 9"

text \<open>The stages are ordered as the code numbers them.\<close>

instantiation stage_type :: linorder
begin

definition less_eq_stage_type :: "stage_type \<Rightarrow> stage_type \<Rightarrow> bool" where
  "less_eq_stage_type s t \<longleftrightarrow> stage_number s \<le> stage_number t"

definition less_stage_type :: "stage_type \<Rightarrow> stage_type \<Rightarrow> bool" where
  "less_stage_type s t \<longleftrightarrow> stage_number s < stage_number t"

instance
proof
  fix s t :: stage_type
  assume "s \<le> t" "t \<le> s"
  then show "s = t" by (cases s; cases t) (simp_all add: less_eq_stage_type_def)
qed (auto simp: less_eq_stage_type_def less_stage_type_def)

end

lemmas stage_order = less_eq_stage_type_def less_stage_type_def

record dynamic_inst =
  di_trans_op :: trans_op
  di_executed :: bool
  di_lsq_inserted :: bool
  di_unaligned :: bool
  di_mispredicted :: bool
  di_load_ordering_violation :: bool
  di_load_consistency_violation :: bool
  di_check_exception :: bool
  di_starts_x86_op :: bool
  di_ends_x86_op :: bool
  di_rip :: "64 word"
  di_pred_target :: "64 word"
  di_latency :: nat
  di_q_ptr :: nat
  di_ra_preg :: phys_name
  di_rb_preg :: phys_name
  di_rc_preg :: phys_name
  di_rd_preg :: phys_name
  di_rd_preg_old :: phys_name
  di_rcf_preg_old :: phys_name
  di_rof_preg_old :: phys_name
  di_rzapsf_preg_old :: phys_name
  di_mem_operand :: double_word
  di_stage :: stage_type

record core =
  c_physical_file :: physical_file
  c_front_end_map :: logical_file
  c_retire_map :: logical_file
  c_inst_buffer :: "dynamic_inst list"
  c_q_head :: nat
  c_q_tail :: nat
  c_q_rename :: nat
  c_q_execute :: nat
  c_q_retire :: nat
  c_q_oldest_bad :: "nat option"
  c_lsq :: "address \<Rightarrow> nat list option"
  c_address_mask :: address

abbreviation c_links :: "core \<Rightarrow> waiter links" where
  "c_links c \<equiv> pf_links (c_physical_file c)"

definition set_links :: "waiter links \<Rightarrow> core \<Rightarrow> core" where
  "set_links h c = c\<lparr>c_physical_file := (c_physical_file c)\<lparr>pf_links := h\<rparr>\<rparr>"

section \<open>Instructions\<close>

definition isRenamed :: "dynamic_inst \<Rightarrow> bool" where
  "isRenamed d \<longleftrightarrow> DECODE_STAGE \<le> di_stage d"

definition isExecuteReady :: "dynamic_inst \<Rightarrow> bool" where
  "isExecuteReady d \<longleftrightarrow> di_stage d = READY_STAGE"

definition isExecuted :: "dynamic_inst \<Rightarrow> bool" where
  "isExecuted d \<longleftrightarrow> READY_STAGE < di_stage d"

definition isMemoryIssued :: "dynamic_inst \<Rightarrow> bool" where
  "isMemoryIssued d \<longleftrightarrow> MEMORY_STAGE \<le> di_stage d"

definition isRetireReady :: "dynamic_inst \<Rightarrow> bool" where
  "isRetireReady d \<longleftrightarrow> di_stage d = COMPLETE_STAGE"

definition isRetired :: "dynamic_inst \<Rightarrow> bool" where
  "isRetired d \<longleftrightarrow> di_stage d = RETIRE_STAGE"

abbreviation getOpcode :: "dynamic_inst \<Rightarrow> nat" where
  "getOpcode d \<equiv> t_opcode (di_trans_op d)"

text \<open>The buffer is a ring: its size is a power of two, and a queue pointer selects a slot by its low bits.\<close>

definition BUF_SIZE :: nat where "BUF_SIZE = 128"

definition mappedIndex :: "nat \<Rightarrow> nat" where
  "mappedIndex logical_index = logical_index AND (BUF_SIZE - 1)"

definition the_inst :: "nat \<Rightarrow> core \<Rightarrow> dynamic_inst" where
  "the_inst k c = c_inst_buffer c ! k"

definition getDynamicInst :: "nat \<Rightarrow> core \<Rightarrow> dynamic_inst" where
  "getDynamicInst q c = the_inst (mappedIndex q) c"

definition set_inst :: "nat \<Rightarrow> dynamic_inst \<Rightarrow> core \<Rightarrow> core" where
  "set_inst k d c = c\<lparr>c_inst_buffer := (c_inst_buffer c)[k := d]\<rparr>"

lemma mappedIndex_mod: "mappedIndex q = q mod 128"
proof -
  have "q AND (128 - 1) = take_bit 7 q" unfolding take_bit_eq_mask mask_eq_exp_minus_1 by simp
  then show ?thesis by (simp add: mappedIndex_def BUF_SIZE_def take_bit_eq_mod)
qed

lemma mappedIndex_less: "mappedIndex q < BUF_SIZE"
  by (simp add: mappedIndex_mod BUF_SIZE_def)

lemma mappedIndex_inj:
  assumes "mappedIndex q = mappedIndex r" "q < r + BUF_SIZE" "r < q + BUF_SIZE"
  shows "q = r"
proof -
  have "q mod 128 = r mod 128" using assms(1) by (simp add: mappedIndex_mod)
  then have "128 dvd q - r" "128 dvd r - q" using mod_eq_dvd_iff_nat [of r q 128] mod_eq_dvd_iff_nat [of q r 128]
    by (cases "r \<le> q"; simp)+
  moreover have "q - r < 128" "r - q < 128" using assms(2,3) by (simp_all add: BUF_SIZE_def)
  ultimately have "q - r = 0" "r - q = 0" by (auto dest: nat_dvd_not_less)
  then show ?thesis by simp
qed

lemma set_inst_simps [simp]:
  "length (c_inst_buffer (set_inst k d c)) = length (c_inst_buffer c)"
  "c_physical_file (set_inst k d c) = c_physical_file c" "c_front_end_map (set_inst k d c) = c_front_end_map c"
  "c_retire_map (set_inst k d c) = c_retire_map c" "c_q_head (set_inst k d c) = c_q_head c"
  "c_q_tail (set_inst k d c) = c_q_tail c" "c_q_rename (set_inst k d c) = c_q_rename c" "c_lsq (set_inst k d c) = c_lsq c"
  "c_address_mask (set_inst k d c) = c_address_mask c" "c_q_oldest_bad (set_inst k d c) = c_q_oldest_bad c"
  by (simp_all add: set_inst_def)

lemma the_set_inst: "the_inst j (set_inst k d c) = (if j = k \<and> k < length (c_inst_buffer c) then d else the_inst j c)"
  by (auto simp: the_inst_def set_inst_def nth_upd)

lemma set_links_simps [simp]:
  "c_inst_buffer (set_links h c) = c_inst_buffer c" "pf_links (c_physical_file (set_links h c)) = h"
  "c_front_end_map (set_links h c) = c_front_end_map c" "c_retire_map (set_links h c) = c_retire_map c"
  "the_inst k (set_links h c) = the_inst k c" "c_lsq (set_links h c) = c_lsq c"
  "c_address_mask (set_links h c) = c_address_mask c"
  by (simp_all add: set_links_def the_inst_def)

end
