(* ===== verification/LoadStoreQueue.thy ===== *)
theory LoadStoreQueue
  imports PyriteState
begin

text \<open>
  The load/store queue of the processor model, pyrite/LoadStoreQueue.cpp: for every line of memory the loads and stores in
  flight, the youngest first. An access of the map with an address that has no list makes an empty one, as
  \<open>std::map\<close> does. A search that runs off its list is undefined.
\<close>

section \<open>Operations\<close>

definition lsq_list :: "address \<Rightarrow> core \<Rightarrow> nat list" where
  "lsq_list a c = (case c_lsq c a of None \<Rightarrow> [] | Some xs \<Rightarrow> xs)"

definition set_lsq_list :: "address \<Rightarrow> nat list \<Rightarrow> core \<Rightarrow> core" where
  "set_lsq_list a xs c = c\<lparr>c_lsq := (c_lsq c)(a := Some xs)\<rparr>"

definition operand_line :: "nat \<Rightarrow> core \<Rightarrow> address" where
  "operand_line k c = alignedAddr (c_address_mask c) (di_mem_operand (the_inst k c))"

definition lsq_reset :: "core \<Rightarrow> core" where
  "lsq_reset c = c\<lparr>c_lsq := \<lambda>_. None\<rparr>"

definition lsq_empty :: "core \<Rightarrow> bool" where
  "lsq_empty c \<longleftrightarrow> (\<forall>a. c_lsq c a = None)"

text \<open>The new instruction goes before the first one that is not younger.\<close>

definition younger_first :: "core \<Rightarrow> nat \<Rightarrow> nat list \<Rightarrow> nat list" where
  "younger_first c k xs =
     (let P = (\<lambda>j. di_q_ptr (the_inst j c) > di_q_ptr (the_inst k c)) in takeWhile P xs @ k # dropWhile P xs)"

definition lsq_insert :: "nat \<Rightarrow> core \<Rightarrow> core result" where
  "lsq_insert k c =
     check (isstore (getOpcode (the_inst k c)) \<or> isload (getOpcode (the_inst k c))) Assert_failed (
     let a = operand_line k c in Inr (set_lsq_list a (younger_first c k (lsq_list a c)) c))"

definition lsq_remove :: "nat \<Rightarrow> core \<Rightarrow> core" where
  "lsq_remove k c =
     (let a = operand_line k c; xs = filter (\<lambda>j. j \<noteq> k) (lsq_list a c)
      in if xs = [] then c\<lparr>c_lsq := (c_lsq c)(a := None)\<rparr> else set_lsq_list a xs c)"

text \<open>
  The walk of \<open>loadSearch\<close> from the oldest entry to the load itself: a store that has not been issued and overlaps makes
  the load wait, any other store lays its bytes over the result.
\<close>

fun load_walk :: "nat \<Rightarrow> double_word \<Rightarrow> nat list \<Rightarrow> double_word \<Rightarrow> core \<Rightarrow> (bool \<times> double_word \<times> core) result" where
  "load_walk k mem_operand [] r c = Inl Undefined"
| "load_walk k mem_operand (j # js) r c =
     (if j = k then Inr (True, r, c)
      else let d = the_inst j c in
        if isstore (getOpcode d) then
          if \<not> isMemoryIssued d \<and> overlaps mem_operand (di_mem_operand d)
          then rbind (insertWaiter (Store_list j) (Inst k) (c_links c)) (\<lambda>h. Inr (False, r, set_links h c))
          else rbind (overlay (di_mem_operand d) r) (\<lambda>r. load_walk k mem_operand js r c)
        else load_walk k mem_operand js r c)"

definition loadSearch :: "nat \<Rightarrow> double_word \<Rightarrow> double_word \<Rightarrow> core \<Rightarrow> (bool \<times> double_word \<times> core) result" where
  "loadSearch k mem_operand r c =
     (let a = alignedAddr (c_address_mask c) mem_operand; c = set_lsq_list a (lsq_list a c) c
      in load_walk k mem_operand (rev (lsq_list a c)) r c)"

definition older_load :: "nat option \<Rightarrow> nat \<Rightarrow> core \<Rightarrow> nat option" where
  "older_load oldest j c =
     (case oldest of
        None \<Rightarrow> Some j
      | Some i \<Rightarrow> if di_q_ptr (the_inst i c) > di_q_ptr (the_inst j c) then Some j else Some i)"

text \<open>
  The walk of \<open>storeSearch\<close> over the store and everything younger, up to the first load that holds a wrong value. The
  number \<open>stack\<close> is what the uninitialised local of \<open>overlapMatches\<close> holds.
\<close>

fun store_walk :: "64 word \<Rightarrow> nat list \<Rightarrow> double_word \<Rightarrow> core \<Rightarrow> nat option result" where
  "store_walk stack [] dw c = Inr None"
| "store_walk stack (j # js) dw c =
     (let d = the_inst j c in
        if isstore (getOpcode d) then rbind (overlay (di_mem_operand d) dw) (\<lambda>dw. store_walk stack js dw c)
        else check (isload (getOpcode d)) Assert_failed (
          rbind (if isMemoryIssued d then overlapMatches stack (di_mem_operand d) dw else Inr True) (\<lambda>good.
          if \<not> good then Inr (older_load None j c) else store_walk stack js dw c)))"

definition setLoadOrderingViolation :: "nat \<Rightarrow> core \<Rightarrow> core" where
  "setLoadOrderingViolation k c = set_inst k ((the_inst k c)\<lparr>di_load_ordering_violation := True\<rparr>) c"

definition setLoadConsistencyViolation :: "nat \<Rightarrow> core \<Rightarrow> core" where
  "setLoadConsistencyViolation k c = set_inst k ((the_inst k c)\<lparr>di_load_consistency_violation := True\<rparr>) c"

definition storeSearch :: "64 word \<Rightarrow> nat \<Rightarrow> core \<Rightarrow> core result" where
  "storeSearch stack k c =
     (let a = operand_line k c; dw = di_mem_operand (the_inst k c); c = set_lsq_list a (lsq_list a c) c;
          rest = dropWhile (\<lambda>j. j \<noteq> k) (rev (lsq_list a c))
      in check (rest \<noteq> []) Undefined (
         rbind (store_walk stack rest dw c) (\<lambda>oldest.
         Inr (case oldest of None \<Rightarrow> c | Some i \<Rightarrow> setLoadOrderingViolation i c))))"

text \<open>The part of \<open>invalidationSearch\<close> for one block of eight bytes.\<close>

fun issued_loads :: "nat list \<Rightarrow> nat option \<Rightarrow> core \<Rightarrow> nat option result" where
  "issued_loads [] oldest c = Inr oldest"
| "issued_loads (j # js) oldest c =
     (let d = the_inst j c in
        if isload (getOpcode d) \<and> isMemoryIssued d
        then check (dw_size (di_mem_operand d) \<noteq> 0) Assert_failed (issued_loads js (older_load oldest j c) c)
        else issued_loads js oldest c)"

definition invalidationSearch :: "address \<Rightarrow> core \<Rightarrow> core result" where
  "invalidationSearch line_addr c =
     check (isBlockAligned line_addr) Assert_failed (
     rbind (rwhile (\<lambda>(block_addr, oldest, c). block_addr < line_addr + 64)
       (\<lambda>(block_addr, oldest, c).
          let c = set_lsq_list block_addr (lsq_list block_addr c) c
          in rbind (issued_loads (rev (lsq_list block_addr c)) oldest c) (\<lambda>oldest. Inr (block_addr + 8, oldest, c)))
       (line_addr, None, c)) (\<lambda>(_, oldest, c).
     Inr (case oldest of None \<Rightarrow> c | Some i \<Rightarrow> setLoadConsistencyViolation i c)))"

end
