(* ===== verification/DynamicInst.thy ===== *)
theory DynamicInst
  imports LoadStoreQueue
begin

text \<open>
  The operations of an instruction in the out-of-order core, pyrite/DynamicInst.cpp: renaming its registers, giving them
  back when it is squashed, and retiring it. What writes the trace of an instruction (\<open>m_record\<close>) is left out.
\<close>

section \<open>Making an instruction\<close>

definition di_reset :: "dynamic_inst \<Rightarrow> dynamic_inst" where
  "di_reset d = d\<lparr>di_executed := False, di_lsq_inserted := False, di_unaligned := False, di_mispredicted := False,
     di_load_ordering_violation := False, di_load_consistency_violation := False, di_check_exception := False,
     di_starts_x86_op := False, di_ends_x86_op := False, di_rip := 0, di_pred_target := 0, di_q_ptr := 0,
     di_ra_preg := REG_NULL_SRC, di_rb_preg := REG_NULL_SRC, di_rc_preg := REG_NULL_SRC, di_rd_preg := REG_NULL_DEST,
     di_rd_preg_old := REG_NULL_DEST, di_rof_preg_old := REG_NULL_DEST, di_rcf_preg_old := REG_NULL_DEST,
     di_rzapsf_preg_old := REG_NULL_DEST, di_mem_operand := dw_clear, di_stage := FETCH_STAGE\<rparr>"

definition inst_reset :: "nat \<Rightarrow> core \<Rightarrow> core result" where
  "inst_reset k c = check (detached (Store_list k) (c_links c)) Assert_failed (Inr (set_inst k (di_reset (the_inst k c)) c))"

definition inst_init :: "trans_op \<Rightarrow> 64 word \<Rightarrow> nat \<Rightarrow> nat \<Rightarrow> nat \<Rightarrow> core \<Rightarrow> core result" where
  "inst_init t rip q_ptr latency k c =
     rbind (inst_reset k c) (\<lambda>c.
     Inr (set_inst k ((the_inst k c)\<lparr>di_trans_op := t, di_rip := rip, di_q_ptr := q_ptr, di_latency := latency\<rparr>) c))"

definition setStage :: "stage_type \<Rightarrow> nat \<Rightarrow> core \<Rightarrow> core" where
  "setStage s k c = set_inst k ((the_inst k c)\<lparr>di_stage := s\<rparr>) c"

section \<open>Renaming\<close>

definition with_regs :: "logical_file \<Rightarrow> physical_file \<Rightarrow> core \<Rightarrow> core" where
  "with_regs m pf c = c\<lparr>c_front_end_map := m, c_physical_file := pf\<rparr>"

text \<open>The register that a logical register is mapped to, with a reference to it.\<close>

definition capture :: "nat \<Rightarrow> core \<Rightarrow> (phys_name \<times> core) result" where
  "capture num c =
     rbind (getMapping num (c_front_end_map c)) (\<lambda>p.
     rbind (incrementRefCount p (c_physical_file c)) (\<lambda>pf. Inr (p, c\<lparr>c_physical_file := pf\<rparr>)))"

text \<open>
  One group of flags: the old mapping is captured in a field of the instruction, and the group is mapped to the new
  register.
\<close>

definition capture_flag :: "nat \<Rightarrow> nat \<Rightarrow> trans_op \<Rightarrow> phys_name \<Rightarrow> phys_name \<Rightarrow> core \<Rightarrow> (phys_name \<times> core) result" where
  "capture_flag flag num t preg preg_old c =
     (if flagmask t AND flag \<noteq> 0 then
        rbind (capture num c) (\<lambda>(p, c).
        rbind (setMapping num preg (c_front_end_map c, c_physical_file c)) (\<lambda>(m, pf).
        Inr (p, with_regs m pf c)))
      else Inr (preg_old, c))"

definition has_dest :: "trans_op \<Rightarrow> bool" where
  "has_dest t \<longleftrightarrow> uopWritesDestinationRegister t \<and> \<not> isbranch (t_opcode t) \<and> t_rd t \<noteq> REG_zero"

text \<open>The part of \<open>rename\<close> for an instruction with a destination.\<close>

definition rename_dest :: "nat \<Rightarrow> dynamic_inst \<Rightarrow> core \<Rightarrow> core result" where
  "rename_dest k d c =
     (let t = di_trans_op d
      in rbind (capture (t_rd t) c) (\<lambda>(rd_old, c).
         check (rd_old > REG_NULL_SRC) Assert_failed (
         rbind (getNewMapping (t_rd t) (c_front_end_map c, c_physical_file c)) (\<lambda>(rd, m, pf).
         rbind (capture_flag FLAG_OF REG_of t rd (di_rof_preg_old d) (with_regs m pf c)) (\<lambda>(rof, c).
         rbind (capture_flag FLAG_CF REG_cf t rd (di_rcf_preg_old d) c) (\<lambda>(rcf, c).
         rbind (capture_flag FLAG_ZAPS REG_zf t rd (di_rzapsf_preg_old d) c) (\<lambda>(rzapsf, c).
         Inr (set_inst k (d\<lparr>di_rd_preg := rd, di_rd_preg_old := rd_old, di_rof_preg_old := rof,
           di_rcf_preg_old := rcf, di_rzapsf_preg_old := rzapsf\<rparr>) c))))))))"

definition rename :: "nat \<Rightarrow> core \<Rightarrow> core result" where
  "rename k c =
     (let d = the_inst k c; t = di_trans_op d
      in check (di_stage d = FETCH_STAGE) Assert_failed (
         check (\<not> di_executed d) Assert_failed (
         rbind (capture (t_ra t) c) (\<lambda>(ra, c).
         rbind (if t_rb t \<noteq> REG_imm then capture (t_rb t) c else Inr (di_rb_preg d, c)) (\<lambda>(rb, c).
         rbind (if t_rc t \<noteq> REG_imm then capture (t_rc t) c else Inr (di_rc_preg d, c)) (\<lambda>(rc, c).
         check (\<not> uopWritesDestinationRegister t
                \<or> (uopWritesDestinationRegister t \<and> (\<not> isbranch (t_opcode t) \<or> \<not> (t_setflags t \<noteq> 0 \<and> \<not> t_nouserflags t)))) Assert_failed (
         let d = d\<lparr>di_stage := DECODE_STAGE, di_ra_preg := ra, di_rb_preg := rb, di_rc_preg := rc\<rparr>
         in if has_dest t then rename_dest k d c else Inr (set_inst k d c))))))))"

section \<open>Squashing\<close>

definition drop_reg :: "phys_name \<Rightarrow> phys_name \<Rightarrow> core \<Rightarrow> core result" where
  "drop_reg none p c =
     (if p \<noteq> none then rbind (decrementRefCount p (c_physical_file c)) (\<lambda>pf. Inr (c\<lparr>c_physical_file := pf\<rparr>)) else Inr c)"

text \<open>The old mapping of a register comes back, and its captured reference is given up.\<close>

definition restore :: "nat \<Rightarrow> phys_name \<Rightarrow> core \<Rightarrow> core result" where
  "restore num preg_old c =
     rbind (setMapping num preg_old (c_front_end_map c, c_physical_file c)) (\<lambda>(m, pf).
     rbind (decrementRefCount preg_old pf) (\<lambda>pf. Inr (with_regs m pf c)))"

definition restore_flag :: "nat \<Rightarrow> nat \<Rightarrow> trans_op \<Rightarrow> phys_name \<Rightarrow> core \<Rightarrow> core result" where
  "restore_flag flag num t preg_old c = (if flagmask t AND flag \<noteq> 0 then restore num preg_old c else Inr c)"

text \<open>\<open>unwindRegisters\<close>: the maps first, then the load/store queue.\<close>

definition unwind_maps :: "nat \<Rightarrow> core \<Rightarrow> core result" where
  "unwind_maps k c =
     (let d = the_inst k c; t = di_trans_op d
      in if isRenamed d \<and> \<not> isRetired d then
           rbind (drop_reg REG_NULL_SRC (di_ra_preg d) c) (\<lambda>c.
           rbind (drop_reg REG_NULL_SRC (di_rb_preg d) c) (\<lambda>c.
           rbind (drop_reg REG_NULL_SRC (di_rc_preg d) c) (\<lambda>c.
           let d = d\<lparr>di_ra_preg := REG_NULL_SRC, di_rb_preg := REG_NULL_SRC, di_rc_preg := REG_NULL_SRC\<rparr>
           in if di_rd_preg d \<noteq> REG_NULL_DEST then
                rbind (restore_flag FLAG_OF REG_of t (di_rof_preg_old d) c) (\<lambda>c.
                rbind (restore_flag FLAG_CF REG_cf t (di_rcf_preg_old d) c) (\<lambda>c.
                rbind (restore_flag FLAG_ZAPS REG_zf t (di_rzapsf_preg_old d) c) (\<lambda>c.
                rbind (restore (t_rd t) (di_rd_preg_old d) c) (\<lambda>c.
                Inr (set_inst k (d\<lparr>di_rd_preg := REG_NULL_DEST, di_rd_preg_old := REG_NULL_DEST, di_rof_preg_old := REG_NULL_DEST,
                  di_rcf_preg_old := REG_NULL_DEST, di_rzapsf_preg_old := REG_NULL_DEST\<rparr>) c)))))
              else Inr (set_inst k d c))))
         else Inr c)"

definition unwindRegisters :: "nat \<Rightarrow> core \<Rightarrow> core result" where
  "unwindRegisters k c =
     rbind (unwind_maps k c) (\<lambda>c.
     Inr (if di_lsq_inserted (the_inst k c)
          then let c = lsq_remove k c in set_inst k ((the_inst k c)\<lparr>di_lsq_inserted := False\<rparr>) c else c))"

definition squash :: "nat \<Rightarrow> core \<Rightarrow> core result" where
  "squash k c =
     check (detached (Store_list k) (c_links c)) Assert_failed (
     let c = (if \<not> detached (Inst k) (c_links c) then set_links (detach (Inst k) (c_links c)) c else c)
     in rbind (unwindRegisters k c) (\<lambda>c.
        Inr (set_inst k ((the_inst k c)\<lparr>di_executed := False, di_lsq_inserted := False, di_unaligned := False,
          di_mispredicted := False, di_load_ordering_violation := False, di_load_consistency_violation := False,
          di_check_exception := False, di_mem_operand := dw_clear\<rparr>) c)))"

section \<open>Retiring\<close>

text \<open>A register of the retirement map takes over the new value, and the captured old register is given up.\<close>

definition retire_reg :: "nat \<Rightarrow> phys_name \<Rightarrow> phys_name \<Rightarrow> core \<Rightarrow> core result" where
  "retire_reg num preg preg_old c =
     rbind (setMapping num preg (c_retire_map c, c_physical_file c)) (\<lambda>(m, pf).
     rbind (decrementRefCount preg_old pf) (\<lambda>pf. Inr (c\<lparr>c_retire_map := m, c_physical_file := pf\<rparr>)))"

definition retire_flag :: "nat \<Rightarrow> nat \<Rightarrow> trans_op \<Rightarrow> phys_name \<Rightarrow> phys_name \<Rightarrow> core \<Rightarrow> core result" where
  "retire_flag flag num t preg preg_old c = (if flagmask t AND flag \<noteq> 0 then retire_reg num preg preg_old c else Inr c)"

definition commit :: "nat \<Rightarrow> core \<Rightarrow> core result" where
  "commit k c =
     (let d = the_inst k c; t = di_trans_op d
      in check (di_stage d = COMPLETE_STAGE) Assert_failed (
         check (di_executed d) Assert_failed (
         rbind (drop_reg REG_NULL_SRC (di_ra_preg d) (setStage RETIRE_STAGE k c)) (\<lambda>c.
         rbind (drop_reg REG_NULL_SRC (di_rb_preg d) c) (\<lambda>c.
         rbind (drop_reg REG_NULL_SRC (di_rc_preg d) c) (\<lambda>c.
         if di_rd_preg d \<noteq> REG_NULL_DEST then
           rbind (retire_flag FLAG_OF REG_of t (di_rd_preg d) (di_rof_preg_old d) c) (\<lambda>c.
           rbind (retire_flag FLAG_CF REG_cf t (di_rd_preg d) (di_rcf_preg_old d) c) (\<lambda>c.
           rbind (retire_flag FLAG_ZAPS REG_zf t (di_rd_preg d) (di_rzapsf_preg_old d) c) (\<lambda>c.
           retire_reg (t_rd t) (di_rd_preg d) (di_rd_preg_old d) c)))
         else Inr c))))))"

definition completeAtDecode :: "nat \<Rightarrow> core \<Rightarrow> core" where
  "completeAtDecode k c = set_inst k ((the_inst k c)\<lparr>di_executed := True, di_stage := COMPLETE_STAGE\<rparr>) c"

section \<open>Waiting for operands\<close>

text \<open>
  The stages of \<open>schedule\<close> up to the point where the scheduler takes the instruction: it waits in turn for the registers
  \<open>ra\<close>, \<open>rb\<close> and \<open>rc\<close>. The generation of the address of a load or store is the argument \<open>addressGenerate\<close>; when it
  reports failure the instruction stays where it is. The scheduler orders the ready instructions by their queue pointers.
\<close>

definition wait_for :: "phys_name \<Rightarrow> nat \<Rightarrow> core \<Rightarrow> (bool \<times> core) result" where
  "wait_for p k c =
     (if p = REG_NULL_SRC then Inr (False, c)
      else rbind (pf_isReady p (c_physical_file c)) (\<lambda>ready.
        if ready then Inr (False, c)
        else rbind (addWaiter p (Inst k) (c_physical_file c)) (\<lambda>pf. Inr (True, c\<lparr>c_physical_file := pf\<rparr>))))"

definition queue_priority :: "core \<Rightarrow> waiter \<Rightarrow> nat" where
  "queue_priority c w = (case w of Inst k \<Rightarrow> di_q_ptr (the_inst k c) | _ \<Rightarrow> 0)"

definition schedule_ready :: "nat \<Rightarrow> core \<Rightarrow> core result" where
  "schedule_ready k c = rbind (insertOrdered (queue_priority c) Ready_list (Inst k) (c_links c)) (\<lambda>h. Inr (set_links h c))"

definition schedule_rc :: "nat \<Rightarrow> core \<Rightarrow> core result" where
  "schedule_rc k c =
     rbind (wait_for (di_rc_preg (the_inst k c)) k c) (\<lambda>(waits, c).
     if waits then Inr c else schedule_ready k (setStage READY_STAGE k c))"

definition schedule_rb :: "(nat \<Rightarrow> core \<Rightarrow> (bool \<times> core) result) \<Rightarrow> nat \<Rightarrow> core \<Rightarrow> core result" where
  "schedule_rb addressGenerate k c =
     rbind (wait_for (di_rb_preg (the_inst k c)) k c) (\<lambda>(waits, c).
     if waits then Inr c
     else
       let opcode = getOpcode (the_inst k c)
       in rbind (if isload opcode \<or> isstore opcode then addressGenerate k c else Inr (True, c)) (\<lambda>(ok, c).
          if \<not> ok then Inr c else schedule_rc k (setStage WAIT_RC_STAGE k c)))"

definition schedule_ra :: "(nat \<Rightarrow> core \<Rightarrow> (bool \<times> core) result) \<Rightarrow> nat \<Rightarrow> core \<Rightarrow> core result" where
  "schedule_ra addressGenerate k c =
     rbind (wait_for (di_ra_preg (the_inst k c)) k c) (\<lambda>(waits, c).
     if waits then Inr c else schedule_rb addressGenerate k (setStage WAIT_RB_STAGE k c))"

text \<open>\<open>schedule\<close> with the execution of an instruction and its completion as arguments.\<close>

definition schedule ::
  "(nat \<Rightarrow> core \<Rightarrow> (bool \<times> core) result) \<Rightarrow> (nat \<Rightarrow> core \<Rightarrow> core result) \<Rightarrow> (nat \<Rightarrow> core \<Rightarrow> core result) \<Rightarrow> nat \<Rightarrow> core \<Rightarrow> core result" where
  "schedule addressGenerate execute complete k c =
     (case di_stage (the_inst k c) of
        WAIT_RA_STAGE \<Rightarrow> schedule_ra addressGenerate k c
      | WAIT_RB_STAGE \<Rightarrow> schedule_rb addressGenerate k c
      | WAIT_RC_STAGE \<Rightarrow> schedule_rc k c
      | READY_STAGE \<Rightarrow> schedule_ready k c
      | EXECUTE_STAGE \<Rightarrow> execute k c
      | MEMORY_STAGE \<Rightarrow> complete k c
      | _ \<Rightarrow> Inl Assert_failed)"

end
