(* ===== verification/RegFileSafety.thy ===== *)
theory RegFileSafety
  imports DynamicInst "HOL-Library.Multiset"
begin

text \<open>
  The reference counts of the register file. \<open>pf_inv\<close> ties a physical file to the multiset \<open>X\<close> of all references that
  the rest of the core holds: the counts are exact, and the free registers are those without a reference, except for the
  registers \<open>A\<close> that have been allocated and are not referenced yet. \<open>Y\<close> is the part of \<open>X\<close> that stays: an instruction
  only waits for a register of \<open>Y\<close>.
\<close>

section \<open>Well-formed register files\<close>

definition wait_lists :: "waiter set" where
  "wait_lists = {w. \<forall>k. w \<noteq> Inst k}"

abbreviation num_regs :: "physical_file \<Rightarrow> int" where
  "num_regs pf \<equiv> int (length (pf_values pf))"

definition lengths_ok :: "physical_file \<Rightarrow> bool" where
  "lengths_ok pf \<longleftrightarrow> length (pf_flags pf) = length (pf_values pf) \<and> length (pf_writers pf) = length (pf_values pf)
     \<and> length (pf_ready pf) = length (pf_values pf) \<and> length (pf_ref_counts pf) = length (pf_values pf)"

definition counts_ok :: "phys_name multiset \<Rightarrow> physical_file \<Rightarrow> bool" where
  "counts_ok X pf \<longleftrightarrow> (\<forall>p. 0 \<le> p \<and> p < num_regs pf \<longrightarrow> pf_ref_counts pf ! nat p = int (count X p))"

definition free_ok :: "phys_name set \<Rightarrow> phys_name multiset \<Rightarrow> physical_file \<Rightarrow> bool" where
  "free_ok A X pf \<longleftrightarrow> distinct (pf_free_list pf)
     \<and> (\<forall>p. p \<in> set (pf_free_list pf) \<longleftrightarrow> 0 \<le> p \<and> p < num_regs pf \<and> p \<notin># X \<and> p \<notin> A)
     \<and> (\<forall>p. 0 \<le> p \<and> p < num_regs pf \<and> p \<notin># X \<longrightarrow> \<not> pf_ready pf ! nat p)"

definition names_ok :: "phys_name set \<Rightarrow> phys_name multiset \<Rightarrow> physical_file \<Rightarrow> bool" where
  "names_ok A X pf \<longleftrightarrow> (\<forall>p \<in># X. 0 \<le> p \<and> p < num_regs pf) \<and> (\<forall>p \<in> A. 0 \<le> p \<and> p < num_regs pf \<and> p \<notin># X)"

definition waits_ok :: "phys_name multiset \<Rightarrow> phys_name multiset \<Rightarrow> (waiter \<Rightarrow> waiter list) \<Rightarrow> physical_file \<Rightarrow> bool" where
  "waits_ok X Y L pf \<longleftrightarrow> Y \<subseteq># X \<and> rings wait_lists L (pf_links pf) \<and> (\<forall>p. L (Register_list p) \<noteq> [] \<longrightarrow> int p \<in># Y)"

definition pf_inv :: "phys_name set \<Rightarrow> phys_name multiset \<Rightarrow> phys_name multiset \<Rightarrow> (waiter \<Rightarrow> waiter list) \<Rightarrow> physical_file \<Rightarrow> bool" where
  "pf_inv A X Y L pf \<longleftrightarrow> lengths_ok pf \<and> counts_ok X pf \<and> free_ok A X pf \<and> names_ok A X pf \<and> waits_ok X Y L pf"

definition unready :: "physical_file \<Rightarrow> phys_name set" where
  "unready pf = {p. 0 \<le> p \<and> p < num_regs pf \<and> \<not> pf_ready pf ! nat p}"

lemma vat_in: "0 \<le> p \<Longrightarrow> p < int (length xs) \<Longrightarrow> vat xs p = Inr (xs ! nat p)"
  by (simp add: vat_def at_def)

lemma vput_in: "0 \<le> p \<Longrightarrow> p < int (length xs) \<Longrightarrow> vput p x xs = Inr (xs[nat p := x])"
  by (simp add: vput_def)

lemma name_valid: "0 \<le> p \<Longrightarrow> \<not> no_reg p"
  by (auto simp: no_reg_def REG_NULL_SRC_def REG_NULL_DEST_def)

lemma list_in_lists: "Register_list p \<in> wait_lists" "Store_list k \<in> wait_lists" "Ready_list \<in> wait_lists" "Outside_list o' \<in> wait_lists"
  "Inst k \<notin> wait_lists"
  by (auto simp: wait_lists_def)

lemma pf_invD:
  assumes "pf_inv A X Y L pf"
  shows "lengths_ok pf" "counts_ok X pf" "free_ok A X pf" "names_ok A X pf" "waits_ok X Y L pf"
  using assms by (auto simp: pf_inv_def)

section \<open>Counting references\<close>

lemma incrementRefCount_ok:
  assumes "pf_inv A X Y L pf" "p \<in># X \<or> p \<in> A"
  shows "\<exists>pf'. incrementRefCount p pf = Inr pf' \<and> pf_inv (A - {p}) (add_mset p X) Y L pf'
    \<and> pf_links pf' = pf_links pf \<and> unready pf' = unready pf"
proof -
  note D = pf_invD [OF assms(1)]
  have p: "0 \<le> p" "p < num_regs pf" using assms(2) D(4) by (auto simp: names_ok_def)
  define pf' where "pf' = pf\<lparr>pf_ref_counts := (pf_ref_counts pf)[nat p := int (count X p) + 1]\<rparr>"
  have f: "pf_values pf' = pf_values pf" "pf_flags pf' = pf_flags pf" "pf_writers pf' = pf_writers pf" "pf_ready pf' = pf_ready pf"
    "pf_free_list pf' = pf_free_list pf" "pf_links pf' = pf_links pf"
    "pf_ref_counts pf' = (pf_ref_counts pf)[nat p := int (count X p) + 1]" by (simp_all add: pf'_def)
  have "incrementRefCount p pf = Inr pf'"
    using p D(1,2) by (simp add: incrementRefCount_def name_valid vat_in vput_in pf'_def lengths_ok_def counts_ok_def)
  moreover have "lengths_ok pf'" using D(1) by (simp add: lengths_ok_def f)
  moreover have "counts_ok (add_mset p X) pf'"
    using D(1,2) p by (auto simp: counts_ok_def f nth_upd lengths_ok_def)
  moreover have "free_ok (A - {p}) (add_mset p X) pf'" using D(3) assms(2) by (auto simp: free_ok_def f)
  moreover have "names_ok (A - {p}) (add_mset p X) pf'" using D(4) p by (auto simp: names_ok_def f)
  moreover have "waits_ok (add_mset p X) Y L pf'"
    using D(5) by (auto simp: waits_ok_def f subset_mset.add_increasing2 subseteq_mset_def intro: le_SucI)
  ultimately show ?thesis by (auto simp: pf_inv_def f unready_def)
qed

text \<open>Dropping a reference that does not belong to \<open>Y\<close>: the last one frees the register, which nobody waits for.\<close>

lemma decrementRefCount_ok:
  assumes "pf_inv A X Y L pf" "p \<in># X - Y"
  shows "\<exists>pf'. decrementRefCount p pf = Inr pf' \<and> pf_inv A (X - {#p#}) Y L pf' \<and> pf_links pf' = pf_links pf
    \<and> unready pf \<subseteq> unready pf'"
proof -
  note D = pf_invD [OF assms(1)]
  have pX: "p \<in># X" using assms(2) by (rule in_diffD)
  have p: "0 \<le> p" "p < num_regs pf" using pX D(4) by (auto simp: names_ok_def)
  have YX: "Y \<subseteq># X" using D(5) by (simp add: waits_ok_def)
  have cY: "count Y p < count X p" using assms(2) YX by (simp add: count_greater_zero_iff [symmetric] del: count_greater_zero_iff)
  have sub: "Y \<subseteq># X - {#p#}"
    using YX cY by (auto simp: subseteq_mset_def)
  define pf1 where "pf1 = pf\<lparr>pf_ref_counts := (pf_ref_counts pf)[nat p := int (count X p) - 1]\<rparr>"
  have f1: "pf_values pf1 = pf_values pf" "pf_flags pf1 = pf_flags pf" "pf_writers pf1 = pf_writers pf" "pf_ready pf1 = pf_ready pf"
    "pf_free_list pf1 = pf_free_list pf" "pf_links pf1 = pf_links pf"
    "pf_ref_counts pf1 = (pf_ref_counts pf)[nat p := int (count X p) - 1]" by (simp_all add: pf1_def)
  have dec: "decrementRefCount p pf = (if count X p = 1 then pf_deAllocate p pf1 else Inr pf1)"
    using p D(1,2) by (simp add: decrementRefCount_def name_valid vat_in vput_in pf1_def lengths_ok_def counts_ok_def Let_def)
  have lens: "lengths_ok pf1" using D(1) by (simp add: lengths_ok_def f1)
  have counts: "counts_ok (X - {#p#}) pf1"
    using D(1,2) p pX by (auto simp: counts_ok_def f1 nth_upd lengths_ok_def of_nat_diff Suc_le_eq)
  have names: "names_ok A (X - {#p#}) pf1" using D(4) by (auto simp: names_ok_def f1 dest: in_diffD)
  have waits: "waits_ok (X - {#p#}) Y L pf1" using D(5) sub by (simp add: waits_ok_def f1)
  show ?thesis
  proof (cases "count X p = 1")
    case False
    then have "p \<in># X - {#p#}" using pX by (simp add: count_greater_zero_iff [symmetric] del: count_greater_zero_iff)
    then have same: "x \<in># X - {#p#} \<longleftrightarrow> x \<in># X" for x
      using pX by (cases "x = p") (auto simp: in_diff_count dest: in_diffD)
    have "free_ok A (X - {#p#}) pf1" using D(3) by (simp add: free_ok_def f1 same)
    then show ?thesis using False dec lens counts names waits by (auto simp: pf_inv_def f1 unready_def)
  next
    case True
    then have gone: "x \<in># X - {#p#} \<longleftrightarrow> x \<in># X \<and> x \<noteq> p" for x
      by (cases "x = p") (auto simp: in_diff_count not_in_iff dest: in_diffD)
    have "p \<notin># Y" using cY True by (simp add: not_in_iff)
    then have "L (Register_list (nat p)) = []" using D(5) p(1) unfolding waits_ok_def by (metis int_nat_eq)
    then have det: "detached (Register_list (nat p)) (pf_links pf)"
      using rings_empty [of wait_lists L "pf_links pf"] D(5) by (simp add: waits_ok_def list_in_lists)
    define pf2 where "pf2 = pf1\<lparr>pf_writers := (pf_writers pf)[nat p := 0], pf_ready := (pf_ready pf)[nat p := False],
      pf_free_list := pf_free_list pf @ [p]\<rparr>"
    have f2: "pf_values pf2 = pf_values pf" "pf_flags pf2 = pf_flags pf" "pf_writers pf2 = (pf_writers pf)[nat p := 0]"
      "pf_ready pf2 = (pf_ready pf)[nat p := False]" "pf_free_list pf2 = pf_free_list pf @ [p]" "pf_links pf2 = pf_links pf"
      "pf_ref_counts pf2 = pf_ref_counts pf1" by (simp_all add: pf2_def f1)
    have "pf_deAllocate p pf1 = Inr pf2"
      using p D(1) True det by (simp add: pf_deAllocate_def vat_in vput_in f1 lengths_ok_def pf2_def nat_less_iff)
    moreover have "free_ok A (X - {#p#}) pf2"
      using D(1,3,4) pX p by (auto simp: free_ok_def f2 gone nth_upd lengths_ok_def names_ok_def)
    moreover have "lengths_ok pf2" using lens by (simp add: lengths_ok_def f1 f2)
    moreover have "counts_ok (X - {#p#}) pf2" using counts by (simp add: counts_ok_def f1 f2)
    moreover have "unready pf \<subseteq> unready pf2" using D(1) by (auto simp: unready_def f2 nth_upd lengths_ok_def)
    ultimately show ?thesis using True dec names waits by (auto simp: pf_inv_def names_ok_def waits_ok_def f1 f2)
  qed
qed

section \<open>Allocating a register\<close>

lemma links_upd_self: "detached w h \<Longrightarrow> set_prev w w (set_next w w h) = h"
  by (auto simp: detached_def set_next_def set_prev_def fun_upd_idem)

lemma pf_allocate_ok:
  assumes "pf_inv {} X Y L pf"
  shows "\<exists>p pf'. pf_allocate pf = Inr (p, pf') \<and> 0 \<le> p \<and> p \<notin># X \<and> pf_inv {p} X Y L pf' \<and> pf_links pf' = pf_links pf
    \<and> p \<in> unready pf' \<and> unready pf \<subseteq> unready pf'"
proof (cases "pf_free_list pf = []")
  case False
  note D = pf_invD [OF assms]
  let ?p = "last (pf_free_list pf)"
  define pf' where "pf' = pf\<lparr>pf_free_list := butlast (pf_free_list pf)\<rparr>"
  have f: "pf_values pf' = pf_values pf" "pf_flags pf' = pf_flags pf" "pf_writers pf' = pf_writers pf" "pf_ready pf' = pf_ready pf"
    "pf_free_list pf' = butlast (pf_free_list pf)" "pf_links pf' = pf_links pf" "pf_ref_counts pf' = pf_ref_counts pf"
    by (simp_all add: pf'_def)
  have "?p \<in> set (pf_free_list pf)" using False by simp
  then have p: "0 \<le> ?p" "?p < num_regs pf" "?p \<notin># X" using D(3) by (simp_all add: free_ok_def)
  have nr: "\<not> pf_ready pf ! nat ?p" using D(3) p by (simp add: free_ok_def)
  have split: "pf_free_list pf = butlast (pf_free_list pf) @ [?p]" using False by simp
  have dis: "distinct (butlast (pf_free_list pf) @ [?p])" using D(3) split by (simp add: free_ok_def)
  have set: "set (pf_free_list pf) = insert ?p (set (butlast (pf_free_list pf)))" by (subst split) simp
  have "pf_allocate pf = Inr (?p, pf')"
    using False p nr D(1) by (simp add: pf_allocate_def vat_in lengths_ok_def pf'_def Let_def)
  moreover have "free_ok {?p} X pf'"
    unfolding free_ok_def f
  proof (intro conjI allI)
    show "distinct (butlast (pf_free_list pf))" using dis by simp
    fix q
    have "q \<in> set (pf_free_list pf) \<longleftrightarrow> 0 \<le> q \<and> q < num_regs pf \<and> q \<notin># X" using D(3) by (simp add: free_ok_def)
    then show "q \<in> set (butlast (pf_free_list pf)) \<longleftrightarrow> 0 \<le> q \<and> q < num_regs pf \<and> q \<notin># X \<and> q \<notin> {?p}"
      using set dis by auto
    show "0 \<le> q \<and> q < num_regs pf \<and> q \<notin># X \<longrightarrow> \<not> pf_ready pf ! nat q" using D(3) by (simp add: free_ok_def)
  qed
  moreover have "lengths_ok pf'" "counts_ok X pf'" "waits_ok X Y L pf'"
    using D by (simp_all add: lengths_ok_def counts_ok_def waits_ok_def f)
  moreover have "names_ok {?p} X pf'" using D(4) p by (simp add: names_ok_def f)
  ultimately show ?thesis using p nr f by (auto simp: pf_inv_def unready_def)
next
  case True
  note D = pf_invD [OF assms]
  let ?n = "length (pf_values pf)"
  have notX: "int ?n \<notin># X" using D(4) by (auto simp: names_ok_def)
  then have "int ?n \<notin># Y" using D(5) by (auto simp: waits_ok_def dest: mset_subset_eqD)
  then have "L (Register_list ?n) = []" using D(5) by (auto simp: waits_ok_def)
  then have det: "detached (Register_list ?n) (pf_links pf)"
    using rings_empty [of wait_lists L "pf_links pf"] D(5) by (simp add: waits_ok_def list_in_lists)
  define pf' where "pf' = pf\<lparr>pf_values := pf_values pf @ [0], pf_flags := pf_flags pf @ [0], pf_writers := pf_writers pf @ [0],
    pf_ready := pf_ready pf @ [False], pf_ref_counts := pf_ref_counts pf @ [0]\<rparr>"
  have f: "pf_values pf' = pf_values pf @ [0]" "pf_flags pf' = pf_flags pf @ [0]" "pf_writers pf' = pf_writers pf @ [0]"
    "pf_ready pf' = pf_ready pf @ [False]" "pf_free_list pf' = []" "pf_links pf' = pf_links pf"
    "pf_ref_counts pf' = pf_ref_counts pf @ [0]" by (simp_all add: pf'_def True)
  have len: "length (pf_ready pf) = ?n" "length (pf_ref_counts pf) = ?n" using D(1) by (simp_all add: lengths_ok_def)
  have free: "q \<in># X" if "0 \<le> q" "q < int ?n" for q using D(3) that True by (auto simp: free_ok_def)
  have "pf_allocate pf = Inr (int ?n, pf')"
    using True len links_upd_self [OF det] by (simp add: pf_allocate_def pf'_def)
  moreover have "lengths_ok pf'" using D(1) by (simp add: lengths_ok_def f)
  moreover have "counts_ok X pf'"
    unfolding counts_ok_def f
  proof (intro allI impI)
    fix q :: int
    assume q: "0 \<le> q \<and> q < int (length (pf_values pf @ [0]))"
    show "(pf_ref_counts pf @ [0]) ! nat q = int (count X q)"
    proof (cases "q = int ?n")
      case True
      then show ?thesis using notX len by (simp add: nth_append not_in_iff)
    next
      case False
      then have "q < int ?n" using q by simp
      then show ?thesis using D(2) q len by (simp add: counts_ok_def nth_append nat_less_iff)
    qed
  qed
  moreover have "free_ok {int ?n} X pf'"
    using free len notX by (fastforce simp: free_ok_def f nth_append nat_less_iff)
  moreover have "names_ok {int ?n} X pf'" using D(4) notX by (fastforce simp: names_ok_def f)
  moreover have "waits_ok X Y L pf'" using D(5) by (simp add: waits_ok_def f)
  moreover have "unready pf \<subseteq> unready pf'" using len by (auto simp: unready_def f nth_append nat_less_iff)
  ultimately show ?thesis using notX len by (auto simp: pf_inv_def f nth_append unready_def)
qed

section \<open>Changing a map\<close>

text \<open>The references of a logical file, next to those (\<open>R\<close>) of the rest of the core.\<close>

definition mregs :: "logical_file \<Rightarrow> phys_name multiset" where
  "mregs m = mset (filter (\<lambda>p. \<not> no_reg p) m)"

abbreviation slot_ok :: "nat \<Rightarrow> logical_file \<Rightarrow> bool" where
  "slot_ok num m \<equiv> num \<noteq> REG_rip \<and> rename_zf num < length m"

lemma mregs_update:
  assumes "i < length m" "\<not> no_reg p"
  shows "mregs (m[i := p]) = add_mset p (mregs m - (if no_reg (m ! i) then {#} else {#m ! i#}))"
proof -
  have m: "m = take i m @ m ! i # drop (Suc i) m" using assms(1) by (simp add: id_take_nth_drop)
  have u: "m[i := p] = take i m @ p # drop (Suc i) m" using assms(1) by (simp add: upd_conv_take_nth_drop)
  have "mregs m = mregs (take i m) + mregs (drop (Suc i) m) + (if no_reg (m ! i) then {#} else {#m ! i#})"
    by (subst m) (simp add: mregs_def)
  then show ?thesis using assms(2) by (subst u) (simp add: mregs_def)
qed

lemma in_mregs: "i < length m \<Longrightarrow> \<not> no_reg (m ! i) \<Longrightarrow> m ! i \<in># mregs m"
  by (auto simp: mregs_def)

lemma setMapping_any:
  assumes "pf_inv A (mregs m + R) Y L pf" "Y \<subseteq># R" "slot_ok num m" "p \<in># mregs m + R - {#m ! rename_zf num#} \<or> p \<in> A"
  shows "\<exists>pf'. setMapping num p (m, pf) = Inr (m[rename_zf num := p], pf') \<and> pf_inv (A - {p}) (mregs (m[rename_zf num := p]) + R) Y L pf'
    \<and> pf_links pf' = pf_links pf \<and> unready pf \<subseteq> unready pf'"
proof -
  let ?i = "rename_zf num"
  let ?old = "m ! ?i"
  define M where "M = mregs m - (if no_reg ?old then {#} else {#?old#})"
  have p: "0 \<le> p" using pf_invD(4) [OF assms(1)] assms(4) by (auto simp: names_ok_def dest: in_diffD)
  have old: "\<not> no_reg ?old \<Longrightarrow> ?old \<in># mregs m" using assms(3) by (simp add: in_mregs)
  have MR: "M + R = mregs m + R - {#?old#}"
  proof (cases "no_reg ?old")
    case True
    then have "?old < 0" by (auto simp: no_reg_def REG_NULL_SRC_def REG_NULL_DEST_def)
    then have "?old \<notin># mregs m + R" using pf_invD(4) [OF assms(1)] by (meson names_ok_def not_le)
    then show ?thesis using True by (simp add: M_def)
  qed (use old in \<open>simp add: M_def\<close>)
  have "\<exists>pf1. (if \<not> no_reg ?old then decrementRefCount ?old pf else Inr pf) = Inr pf1 \<and> pf_inv A (M + R) Y L pf1
    \<and> pf_links pf1 = pf_links pf \<and> unready pf \<subseteq> unready pf1"
  proof (cases "no_reg ?old")
    case False
    have "mregs m + R - Y = mregs m + (R - Y)" by (rule subset_mset.diff_add_assoc [OF assms(2)])
    then have "?old \<in># mregs m + R - Y" using old [OF False] by simp
    from decrementRefCount_ok [OF assms(1) this] show ?thesis using False by (auto simp: MR)
  qed (use assms(1) in \<open>auto simp: M_def\<close>)
  then obtain pf1 where pf1: "(if \<not> no_reg ?old then decrementRefCount ?old pf else Inr pf) = Inr pf1" "pf_inv A (M + R) Y L pf1"
    "pf_links pf1 = pf_links pf" "unready pf \<subseteq> unready pf1" by blast
  obtain pf2 where pf2: "incrementRefCount p pf1 = Inr pf2" "pf_inv (A - {p}) (add_mset p (M + R)) Y L pf2" "pf_links pf2 = pf_links pf1"
    "unready pf2 = unready pf1"
    using incrementRefCount_ok [OF pf1(2), of p] assms(4) MR by auto
  have "mregs (m[?i := p]) + R = add_mset p (M + R)"
    using assms(3) p by (simp add: mregs_update M_def name_valid)
  moreover have "setMapping num p (m, pf) = Inr (m[?i := p], pf2)"
    using assms(3) pf1(1) pf2(1) by (simp add: setMapping_def at_def)
  ultimately show ?thesis using pf2 pf1(3,4) by auto
qed

lemma setMapping_ok:
  assumes "pf_inv A (mregs m + R) Y L pf" "Y \<subseteq># R" "slot_ok num m" "p \<in># R \<or> p \<in> A"
  shows "\<exists>pf'. setMapping num p (m, pf) = Inr (m[rename_zf num := p], pf') \<and> pf_inv (A - {p}) (mregs (m[rename_zf num := p]) + R) Y L pf'
    \<and> pf_links pf' = pf_links pf \<and> unready pf \<subseteq> unready pf'"
proof (rule setMapping_any [OF assms(1-3)])
  let ?old = "m ! rename_zf num"
  show "p \<in># mregs m + R - {#?old#} \<or> p \<in> A"
  proof (cases "p = ?old \<and> p \<in># R")
    case True
    then have "\<not> no_reg ?old" using pf_invD(4) [OF assms(1)] by (auto simp: names_ok_def name_valid)
    then have "?old \<in># mregs m" using assms(3) by (simp add: in_mregs)
    then have "mregs m + R - {#?old#} = mregs m - {#?old#} + R" by simp
    then show ?thesis using True by auto
  next
    case False
    then show ?thesis using assms(4) by (auto simp: in_diff_count)
  qed
qed

text \<open>The two forms of the step that undoes or retires a renaming: the mapping is set, and the captured register given up.\<close>

lemma remap_ok:
  assumes "pf_inv {} (mregs m + add_mset old R) Y L pf" "Y \<subseteq># R" "slot_ok num m" "p \<in># add_mset old R"
  shows "\<exists>pf'. rbind (setMapping num p (m, pf)) (\<lambda>(m, pf). rbind (decrementRefCount old pf) (\<lambda>pf. f m pf)) = f (m[rename_zf num := p]) pf'
    \<and> pf_inv {} (mregs (m[rename_zf num := p]) + R) Y L pf' \<and> pf_links pf' = pf_links pf"
proof -
  let ?m = "m[rename_zf num := p]"
  have "Y \<subseteq># add_mset old R" using assms(2) by (simp add: subset_mset.add_increasing2 subseteq_mset_def le_SucI)
  then obtain pf1 where pf1: "setMapping num p (m, pf) = Inr (?m, pf1)" "pf_inv {} (mregs ?m + add_mset old R) Y L pf1"
    "pf_links pf1 = pf_links pf"
    using setMapping_ok [OF assms(1) _ assms(3), of p] assms(4) by auto
  have "mregs ?m + add_mset old R - Y = add_mset old (mregs ?m + (R - Y))"
    using subset_mset.diff_add_assoc [OF assms(2), of "add_mset old (mregs ?m)"] by simp
  then have "old \<in># mregs ?m + add_mset old R - Y" by simp
  from decrementRefCount_ok [OF pf1(2) this] obtain pf2 where "decrementRefCount old pf1 = Inr pf2"
    "pf_inv {} (mregs ?m + R) Y L pf2" "pf_links pf2 = pf_links pf1" by auto
  then show ?thesis using pf1 by auto
qed

lemma getNewMapping_ok:
  assumes "pf_inv {} (mregs m + R) Y L pf" "Y \<subseteq># R" "slot_ok num m"
  shows "\<exists>p pf'. getNewMapping num (m, pf) = Inr (p, m[rename_zf num := p], pf') \<and> 0 \<le> p \<and> p \<notin># mregs m + R
    \<and> pf_inv {} (mregs (m[rename_zf num := p]) + R) Y L pf' \<and> pf_links pf' = pf_links pf
    \<and> p \<in> unready pf' \<and> unready pf \<subseteq> unready pf'"
proof -
  obtain p pf1 where a: "pf_allocate pf = Inr (p, pf1)" "0 \<le> p" "p \<notin># mregs m + R" "pf_inv {p} (mregs m + R) Y L pf1"
    "pf_links pf1 = pf_links pf" "p \<in> unready pf1" "unready pf \<subseteq> unready pf1"
    using pf_allocate_ok [OF assms(1)] by blast
  obtain pf2 where "setMapping num p (m, pf1) = Inr (m[rename_zf num := p], pf2)"
    "pf_inv ({p} - {p}) (mregs (m[rename_zf num := p]) + R) Y L pf2" "pf_links pf2 = pf_links pf1" "unready pf1 \<subseteq> unready pf2"
    using setMapping_ok [OF a(4) assms(2,3), of p] by auto
  then show ?thesis using a assms(3) by (auto simp: getNewMapping_def)
qed

text \<open>Writing a value for the first time.\<close>

lemma store_value_ok:
  assumes "pf_inv A X Y L pf" "p \<in># X" "p \<in> unready pf"
  shows "\<exists>pf'. store_value p v pf = Inr pf' \<and> pf_inv A X Y L pf' \<and> pf_links pf' = pf_links pf \<and> unready pf' = unready pf - {p}"
proof -
  note D = pf_invD [OF assms(1)]
  have p: "0 \<le> p" "p < num_regs pf" "\<not> pf_ready pf ! nat p" using assms(3) by (auto simp: unready_def)
  define pf' where "pf' = pf\<lparr>pf_values := (pf_values pf)[nat p := v], pf_ready := (pf_ready pf)[nat p := True]\<rparr>"
  have f: "pf_values pf' = (pf_values pf)[nat p := v]" "pf_flags pf' = pf_flags pf" "pf_writers pf' = pf_writers pf"
    "pf_ready pf' = (pf_ready pf)[nat p := True]" "pf_free_list pf' = pf_free_list pf" "pf_links pf' = pf_links pf"
    "pf_ref_counts pf' = pf_ref_counts pf" by (simp_all add: pf'_def)
  have "pf_ref_counts pf ! nat p \<noteq> 0" using D(2) p assms(2) by (simp add: counts_ok_def)
  then have "store_value p v pf = Inr pf'"
    using p D(1) by (simp add: store_value_def pf_isReady_def vat_in vput_in name_valid lengths_ok_def pf'_def)
  moreover have "free_ok A X pf'" using D(3) assms(2) p by (auto simp: free_ok_def f nth_upd eq_nat_nat_iff)
  moreover have "lengths_ok pf'" "counts_ok X pf'" "names_ok A X pf'" "waits_ok X Y L pf'"
    using D by (simp_all add: lengths_ok_def counts_ok_def names_ok_def waits_ok_def f)
  moreover have "unready pf' = unready pf - {p}" using D(1) p by (auto simp: unready_def f nth_upd lengths_ok_def)
  ultimately show ?thesis by (auto simp: pf_inv_def f)
qed

lemma setFlags_ok:
  assumes "pf_inv A X Y L pf" "p \<in># X"
  shows "\<exists>pf'. setFlags p v pf = Inr pf' \<and> pf_inv A X Y L pf' \<and> pf_links pf' = pf_links pf \<and> unready pf' = unready pf"
proof -
  note D = pf_invD [OF assms(1)]
  have p: "0 \<le> p" "p < num_regs pf" using D(4) assms(2) by (auto simp: names_ok_def)
  then have "setFlags p v pf = Inr (pf\<lparr>pf_flags := (pf_flags pf)[nat p := v]\<rparr>)"
    using D(1) by (simp add: setFlags_def vput_in name_valid lengths_ok_def)
  moreover have "pf_inv A X Y L (pf\<lparr>pf_flags := (pf_flags pf)[nat p := v]\<rparr>)"
    using D by (simp add: pf_inv_def lengths_ok_def counts_ok_def free_ok_def names_ok_def waits_ok_def)
  ultimately show ?thesis by (simp add: unready_def)
qed

end
