(* ===== verification/Renaming.thy ===== *)
theory Renaming
  imports RegFileSafety
begin

text \<open>
  One instruction and the register files: what renaming it, squashing it and committing it do to the maps and to the
  references. The writes of an instruction are the slots of the map that it takes over with the registers that they held
  before; renaming follows them, squashing undoes them, committing gives the old registers up.
\<close>

section \<open>The writes of an instruction\<close>

fun follow :: "phys_name \<Rightarrow> (nat \<times> phys_name) list \<Rightarrow> logical_file \<Rightarrow> logical_file" where
  "follow p [] m = m"
| "follow p ((i, old) # ws) m = follow p ws (m[i := p])"

fun fits :: "phys_name \<Rightarrow> (nat \<times> phys_name) list \<Rightarrow> logical_file \<Rightarrow> bool" where
  "fits p [] m \<longleftrightarrow> True"
| "fits p ((i, old) # ws) m \<longleftrightarrow> i < length m \<and> m ! i = old \<and> 0 \<le> old \<and> fits p ws (m[i := p])"

definition flag_write :: "nat \<Rightarrow> nat \<Rightarrow> trans_op \<Rightarrow> phys_name \<Rightarrow> (nat \<times> phys_name) list" where
  "flag_write flag num t old = (if flagmask t AND flag \<noteq> 0 then [(rename_zf num, old)] else [])"

definition writes :: "dynamic_inst \<Rightarrow> (nat \<times> phys_name) list" where
  "writes d =
     (if di_rd_preg d = REG_NULL_DEST then []
      else [(rename_zf (t_rd (di_trans_op d)), di_rd_preg_old d)] @ flag_write FLAG_OF REG_of (di_trans_op d) (di_rof_preg_old d)
        @ flag_write FLAG_CF REG_cf (di_trans_op d) (di_rcf_preg_old d) @ flag_write FLAG_ZAPS REG_zf (di_trans_op d) (di_rzapsf_preg_old d))"

definition remap :: "dynamic_inst \<Rightarrow> logical_file \<Rightarrow> logical_file" where
  "remap d m = follow (di_rd_preg d) (writes d) m"

text \<open>The references that a renamed instruction holds: its sources, and the registers that it took out of the map.\<close>

definition srcs :: "dynamic_inst \<Rightarrow> phys_name multiset" where
  "srcs d = mset (filter (\<lambda>p. p \<noteq> REG_NULL_SRC) [di_ra_preg d, di_rb_preg d, di_rc_preg d])"

definition olds :: "dynamic_inst \<Rightarrow> phys_name multiset" where
  "olds d = mset (map snd (writes d))"

abbreviation held :: "dynamic_inst \<Rightarrow> phys_name multiset" where
  "held d \<equiv> srcs d + olds d"

lemma length_follow [simp]: "length (follow p ws m) = length m"
  by (induction p ws m rule: follow.induct) auto

lemma follow_nth: "i < length m \<Longrightarrow> follow p ws m ! i = (if i \<in> fst ` set ws then p else m ! i)"
  by (induction p ws m rule: follow.induct) (auto simp: nth_upd)

lemma follow_append: "follow p (ws @ vs) m = follow p vs (follow p ws m)"
  by (induction p ws m rule: follow.induct) auto

lemma fits_append: "fits p (ws @ vs) m \<longleftrightarrow> fits p ws m \<and> fits p vs (follow p ws m)"
  by (induction p ws m rule: follow.induct) auto

section \<open>Legal micro-operations\<close>

definition src_ok :: "logical_file \<Rightarrow> nat \<Rightarrow> bool" where
  "src_ok m num \<longleftrightarrow> slot_ok num m \<and> 0 \<le> m ! rename_zf num"

definition legal_uop :: "logical_file \<Rightarrow> trans_op \<Rightarrow> bool" where
  "legal_uop m t \<longleftrightarrow>
     src_ok m (t_ra t) \<and> (t_rb t \<noteq> REG_imm \<longrightarrow> src_ok m (t_rb t)) \<and> (t_rc t \<noteq> REG_imm \<longrightarrow> src_ok m (t_rc t))
     \<and> (uopWritesDestinationRegister t \<and> isbranch (t_opcode t) \<longrightarrow> t_setflags t = 0 \<or> t_nouserflags t)
     \<and> (has_dest t \<longrightarrow> src_ok m (t_rd t))"

definition flags_mapped :: "logical_file \<Rightarrow> bool" where
  "flags_mapped m \<longleftrightarrow> src_ok m REG_of \<and> src_ok m REG_cf \<and> src_ok m REG_zf"

text \<open>A map that changes only by writing registers into it keeps its mapped slots.\<close>

definition same_slots :: "logical_file \<Rightarrow> logical_file \<Rightarrow> bool" where
  "same_slots m m' \<longleftrightarrow> length m = length m' \<and> (\<forall>i < length m. 0 \<le> m ! i \<longleftrightarrow> 0 \<le> m' ! i)"

lemma same_slots_src: "same_slots m m' \<Longrightarrow> src_ok m num = src_ok m' num"
  by (auto simp: same_slots_def src_ok_def)

lemma same_slots_legal: "same_slots m m' \<Longrightarrow> legal_uop m t = legal_uop m' t"
  using same_slots_src [of m m'] by (simp add: legal_uop_def)

lemma same_slots_flags: "same_slots m m' \<Longrightarrow> flags_mapped m = flags_mapped m'"
  using same_slots_src [of m m'] by (simp add: flags_mapped_def)

lemma same_slots_refl [simp]: "same_slots m m"
  by (simp add: same_slots_def)

lemma same_slots_sym: "same_slots m m' \<Longrightarrow> same_slots m' m"
  by (simp add: same_slots_def)

lemma same_slots_trans: "same_slots m m' \<Longrightarrow> same_slots m' m'' \<Longrightarrow> same_slots m m''"
  by (simp add: same_slots_def)

lemma same_slots_upd: "0 \<le> m ! i \<Longrightarrow> 0 \<le> p \<Longrightarrow> same_slots m (m[i := p])"
  by (auto simp: same_slots_def nth_upd)

lemma same_slots_follow: "fits p ws m \<Longrightarrow> 0 \<le> p \<Longrightarrow> same_slots m (follow p ws m)"
  by (induction p ws m rule: follow.induct) (auto intro: same_slots_trans same_slots_upd)

section \<open>Capturing mappings\<close>

lemma with_regs_simps [simp]:
  "c_front_end_map (with_regs m pf c) = m" "c_physical_file (with_regs m pf c) = pf"
  "with_regs m pf (with_regs m' pf' c) = with_regs m pf c" "c_retire_map (with_regs m pf c) = c_retire_map c"
  "c_inst_buffer (with_regs m pf c) = c_inst_buffer c" "the_inst k (with_regs m pf c) = the_inst k c"
  "c_q_head (with_regs m pf c) = c_q_head c" "c_q_tail (with_regs m pf c) = c_q_tail c"
  "c_q_rename (with_regs m pf c) = c_q_rename c" "c_lsq (with_regs m pf c) = c_lsq c"
  by (simp_all add: with_regs_def the_inst_def)

lemma capture_ok:
  assumes "pf_inv {} (mregs m + R) Y L pf" "src_ok m num"
  shows "\<exists>pf'. capture num (with_regs m pf c) = Inr (m ! rename_zf num, with_regs m pf' c)
    \<and> pf_inv {} (mregs m + add_mset (m ! rename_zf num) R) Y L pf' \<and> pf_links pf' = pf_links pf \<and> unready pf' = unready pf"
proof -
  have "m ! rename_zf num \<in># mregs m" using assms(2) by (simp add: src_ok_def in_mregs name_valid)
  then obtain pf' where "incrementRefCount (m ! rename_zf num) pf = Inr pf'"
    "pf_inv {} (add_mset (m ! rename_zf num) (mregs m + R)) Y L pf'" "pf_links pf' = pf_links pf" "unready pf' = unready pf"
    using incrementRefCount_ok [OF assms(1), of "m ! rename_zf num"] by auto
  then show ?thesis using assms(2)
    by (intro exI [of _ pf']) (simp add: capture_def getMapping_def src_ok_def with_regs_def)
qed

lemma subset_add: "Y \<subseteq># R \<Longrightarrow> Y \<subseteq># add_mset x R" "Y \<subseteq># R \<Longrightarrow> Y \<subseteq># Z + R"
  by (auto simp: subseteq_mset_def intro: le_SucI trans_le_add2)

lemma capture_flag_ok:
  assumes "pf_inv {} (mregs m + R) Y L pf" "src_ok m num" "Y \<subseteq># R" "p \<in># mregs m"
  shows "\<exists>old' pf'. capture_flag flag num t p old (with_regs m pf c) = Inr (old', with_regs (follow p (flag_write flag num t old') m) pf' c)
    \<and> fits p (flag_write flag num t old') m \<and> p \<in># mregs (follow p (flag_write flag num t old') m)
    \<and> pf_inv {} (mregs (follow p (flag_write flag num t old') m) + (mset (map snd (flag_write flag num t old')) + R)) Y L pf'
    \<and> pf_links pf' = pf_links pf \<and> unready pf \<subseteq> unready pf'"
proof (cases "flagmask t AND flag \<noteq> 0")
  case True
  let ?old = "m ! rename_zf num"
  obtain pf1 where pf1: "capture num (with_regs m pf c) = Inr (?old, with_regs m pf1 c)"
    "pf_inv {} (mregs m + add_mset ?old R) Y L pf1" "pf_links pf1 = pf_links pf" "unready pf1 = unready pf"
    using capture_ok [OF assms(1,2)] by blast
  have s: "slot_ok num m" "0 \<le> ?old" using assms(2) by (simp_all add: src_ok_def)
  have "p \<in># mregs m + add_mset ?old R - {#m ! rename_zf num#} \<or> p \<in> {}" using assms(4) by simp
  from setMapping_any [OF pf1(2) subset_add(1) [OF assms(3)] s(1) this] obtain pf2 where pf2:
    "setMapping num p (m, pf1) = Inr (m[rename_zf num := p], pf2)"
    "pf_inv {} (mregs (m[rename_zf num := p]) + add_mset ?old R) Y L pf2" "pf_links pf2 = pf_links pf1" "unready pf1 \<subseteq> unready pf2"
    by auto
  have p: "0 \<le> p" using assms(4) pf_invD(4) [OF assms(1)] by (auto simp: names_ok_def)
  then have "p \<in># mregs (m[rename_zf num := p])" using s by (simp add: mregs_update name_valid)
  moreover have "capture_flag flag num t p old (with_regs m pf c) = Inr (?old, with_regs (m[rename_zf num := p]) pf2 c)"
    using True pf1(1) pf2(1) by (simp add: capture_flag_def with_regs_def)
  ultimately show ?thesis using True s pf1 pf2 by (intro exI [of _ ?old] exI [of _ pf2]) (simp add: flag_write_def)
qed (use assms in \<open>auto simp: capture_flag_def flag_write_def\<close>)

section \<open>Renaming an instruction\<close>

definition blank :: "dynamic_inst \<Rightarrow> bool" where
  "blank d \<longleftrightarrow> di_ra_preg d = REG_NULL_SRC \<and> di_rb_preg d = REG_NULL_SRC \<and> di_rc_preg d = REG_NULL_SRC
     \<and> di_rd_preg d = REG_NULL_DEST"

abbreviation null_src :: "phys_name \<Rightarrow> phys_name multiset" where
  "null_src p \<equiv> (if p = REG_NULL_SRC then {#} else {#p#})"

lemma blank_held: "blank d \<Longrightarrow> held d = {#}" "blank d \<Longrightarrow> writes d = []"
  by (simp_all add: blank_def srcs_def olds_def writes_def)

lemma srcs_eq: "srcs d = null_src (di_ra_preg d) + null_src (di_rb_preg d) + null_src (di_rc_preg d)"
  by (simp add: srcs_def)

lemma capture_src_ok:
  assumes "pf_inv {} (mregs m + R) Y L pf" "num \<noteq> REG_imm \<longrightarrow> src_ok m num" "none = REG_NULL_SRC"
  shows "\<exists>p pf'. (if num \<noteq> REG_imm then capture num (with_regs m pf c) else Inr (none, with_regs m pf c)) = Inr (p, with_regs m pf' c)
    \<and> pf_inv {} (mregs m + (null_src p + R)) Y L pf' \<and> pf_links pf' = pf_links pf \<and> unready pf' = unready pf"
proof (cases "num = REG_imm")
  case False
  then have s: "src_ok m num" using assms(2) by simp
  then have "m ! rename_zf num \<noteq> REG_NULL_SRC" by (auto simp: src_ok_def REG_NULL_SRC_def)
  then show ?thesis using False capture_ok [OF assms(1) s, of c] by auto
qed (use assms in auto)

text \<open>What renaming does to an instruction: only its stage and its registers change.\<close>

definition renamed_from :: "dynamic_inst \<Rightarrow> dynamic_inst \<Rightarrow> bool" where
  "renamed_from d d' \<longleftrightarrow> di_trans_op d' = di_trans_op d \<and> di_q_ptr d' = di_q_ptr d \<and> di_stage d' = DECODE_STAGE
     \<and> di_starts_x86_op d' = di_starts_x86_op d \<and> di_ends_x86_op d' = di_ends_x86_op d"

lemma rename_dest_ok:
  assumes "pf_inv {} (mregs m + R) Y L pf" "Y \<subseteq># R" "src_ok m (t_rd (di_trans_op d))" "flags_mapped m"
  shows "\<exists>d' pf'. rename_dest k d (with_regs m pf c) = Inr (set_inst k d' (with_regs (remap d' m) pf' c))
    \<and> di_trans_op d' = di_trans_op d \<and> di_q_ptr d' = di_q_ptr d \<and> di_stage d' = di_stage d \<and> srcs d' = srcs d
    \<and> di_starts_x86_op d' = di_starts_x86_op d \<and> di_ends_x86_op d' = di_ends_x86_op d
    \<and> 0 \<le> di_rd_preg d' \<and> fits (di_rd_preg d') (writes d') m
    \<and> pf_inv {} (mregs (remap d' m) + (olds d' + R)) Y L pf' \<and> pf_links pf' = pf_links pf"
proof -
  let ?t = "di_trans_op d"
  let ?i = "rename_zf (t_rd ?t)"
  let ?old = "m ! ?i"
  have s: "slot_ok (t_rd ?t) m" "0 \<le> ?old" using assms(3) by (simp_all add: src_ok_def)
  obtain pf1 where 1: "capture (t_rd ?t) (with_regs m pf c) = Inr (?old, with_regs m pf1 c)"
    "pf_inv {} (mregs m + add_mset ?old R) Y L pf1" "pf_links pf1 = pf_links pf"
    using capture_ok [OF assms(1,3)] by blast
  obtain p pf2 where 2: "getNewMapping (t_rd ?t) (m, pf1) = Inr (p, m[?i := p], pf2)" "0 \<le> p"
    "pf_inv {} (mregs (m[?i := p]) + add_mset ?old R) Y L pf2" "pf_links pf2 = pf_links pf1"
    using getNewMapping_ok [OF 1(2) subset_add(1) [OF assms(2)] s(1)] by blast
  define m1 where "m1 = m[?i := p]"
  have p1: "p \<in># mregs m1" using 2(2) s by (simp add: m1_def mregs_update name_valid)
  have ss: "same_slots m m1" using 2(2) s(2) by (simp add: m1_def same_slots_upd)
  then have f1: "flags_mapped m1" using assms(4) same_slots_flags by blast
  obtain rof pf3 where 3: "capture_flag FLAG_OF REG_of ?t p (di_rof_preg_old d) (with_regs m1 pf2 c)
      = Inr (rof, with_regs (follow p (flag_write FLAG_OF REG_of ?t rof) m1) pf3 c)"
    "fits p (flag_write FLAG_OF REG_of ?t rof) m1" "p \<in># mregs (follow p (flag_write FLAG_OF REG_of ?t rof) m1)"
    "pf_inv {} (mregs (follow p (flag_write FLAG_OF REG_of ?t rof) m1) + (mset (map snd (flag_write FLAG_OF REG_of ?t rof)) + add_mset ?old R)) Y L pf3"
    "pf_links pf3 = pf_links pf2"
    using capture_flag_ok [of m1 "add_mset ?old R" Y L pf2 REG_of p FLAG_OF ?t "di_rof_preg_old d" c] 2(3) f1 p1 subset_add(1) [OF assms(2)]
    by (auto simp: flags_mapped_def m1_def)
  define m2 where "m2 = follow p (flag_write FLAG_OF REG_of ?t rof) m1"
  define R2 where "R2 = mset (map snd (flag_write FLAG_OF REG_of ?t rof)) + add_mset ?old R"
  have f2: "flags_mapped m2" using f1 same_slots_flags [OF same_slots_follow [OF 3(2) 2(2)]] by (simp add: m2_def)
  have y2: "Y \<subseteq># R2" unfolding R2_def by (intro subset_add assms(2))
  obtain rcf pf4 where 4: "capture_flag FLAG_CF REG_cf ?t p (di_rcf_preg_old d) (with_regs m2 pf3 c)
      = Inr (rcf, with_regs (follow p (flag_write FLAG_CF REG_cf ?t rcf) m2) pf4 c)"
    "fits p (flag_write FLAG_CF REG_cf ?t rcf) m2" "p \<in># mregs (follow p (flag_write FLAG_CF REG_cf ?t rcf) m2)"
    "pf_inv {} (mregs (follow p (flag_write FLAG_CF REG_cf ?t rcf) m2) + (mset (map snd (flag_write FLAG_CF REG_cf ?t rcf)) + R2)) Y L pf4"
    "pf_links pf4 = pf_links pf3"
    using capture_flag_ok [of m2 R2 Y L pf3 REG_cf p FLAG_CF ?t "di_rcf_preg_old d" c] 3(3,4) f2 y2
    by (auto simp: flags_mapped_def m2_def R2_def)
  define m3 where "m3 = follow p (flag_write FLAG_CF REG_cf ?t rcf) m2"
  define R3 where "R3 = mset (map snd (flag_write FLAG_CF REG_cf ?t rcf)) + R2"
  have f3: "flags_mapped m3" using f2 same_slots_flags [OF same_slots_follow [OF 4(2) 2(2)]] by (simp add: m3_def)
  have y3: "Y \<subseteq># R3" unfolding R3_def by (intro subset_add y2)
  obtain rz pf5 where 5: "capture_flag FLAG_ZAPS REG_zf ?t p (di_rzapsf_preg_old d) (with_regs m3 pf4 c)
      = Inr (rz, with_regs (follow p (flag_write FLAG_ZAPS REG_zf ?t rz) m3) pf5 c)"
    "fits p (flag_write FLAG_ZAPS REG_zf ?t rz) m3"
    "pf_inv {} (mregs (follow p (flag_write FLAG_ZAPS REG_zf ?t rz) m3) + (mset (map snd (flag_write FLAG_ZAPS REG_zf ?t rz)) + R3)) Y L pf5"
    "pf_links pf5 = pf_links pf4"
    using capture_flag_ok [of m3 R3 Y L pf4 REG_zf p FLAG_ZAPS ?t "di_rzapsf_preg_old d" c] 4(3,4) f3 y3
    by (auto simp: flags_mapped_def m3_def R3_def)
  define d' where "d' = d\<lparr>di_rd_preg := p, di_rd_preg_old := ?old, di_rof_preg_old := rof, di_rcf_preg_old := rcf, di_rzapsf_preg_old := rz\<rparr>"
  have fields: "di_rd_preg d' = p" "di_rd_preg_old d' = ?old" "di_rof_preg_old d' = rof" "di_rcf_preg_old d' = rcf"
    "di_rzapsf_preg_old d' = rz" "di_trans_op d' = ?t" by (simp_all add: d'_def)
  have p_dest: "p \<noteq> REG_NULL_DEST" using 2(2) by (auto simp: REG_NULL_DEST_def)
  have w: "writes d' = [(?i, ?old)] @ flag_write FLAG_OF REG_of ?t rof @ flag_write FLAG_CF REG_cf ?t rcf @ flag_write FLAG_ZAPS REG_zf ?t rz"
    using p_dest by (simp add: writes_def fields)
  have r: "remap d' m = follow p (flag_write FLAG_ZAPS REG_zf ?t rz) m3"
    by (simp add: remap_def w fields follow_append m1_def m2_def m3_def)
  have "rename_dest k d (with_regs m pf c) = Inr (set_inst k d' (with_regs (follow p (flag_write FLAG_ZAPS REG_zf ?t rz) m3) pf5 c))"
    using 1(1) 2(1) 3(1) 4(1) 5(1) s(2)
    by (simp add: rename_dest_def Let_def REG_NULL_SRC_def m1_def [symmetric] m2_def [symmetric] m3_def [symmetric] d'_def)
  moreover have "fits (di_rd_preg d') (writes d') m"
    using 3(2) 4(2) 5(2) s by (simp add: w fits_append follow_append fields m1_def m2_def m3_def)
  moreover have "olds d' + R = mset (map snd (flag_write FLAG_ZAPS REG_zf ?t rz)) + R3"
    by (simp add: olds_def w R3_def R2_def ac_simps)
  ultimately show ?thesis using 1 2 3 4 5 r by (intro exI [of _ d'] exI [of _ pf5]) (simp add: d'_def srcs_def)
qed

lemma rename_ok:
  assumes "pf_inv {} (mregs m + R) Y L pf" "Y \<subseteq># R" "flags_mapped m" "legal_uop m (di_trans_op d)"
    "the_inst k c = d" "di_stage d = FETCH_STAGE" "\<not> di_executed d" "blank d"
  shows "\<exists>d' pf'. rename k (with_regs m pf c) = Inr (set_inst k d' (with_regs (remap d' m) pf' c))
    \<and> renamed_from d d' \<and> (writes d' \<noteq> [] \<longrightarrow> 0 \<le> di_rd_preg d' \<and> t_rd (di_trans_op d) \<noteq> REG_rip) \<and> fits (di_rd_preg d') (writes d') m
    \<and> pf_inv {} (mregs (remap d' m) + (held d' + R)) Y L pf' \<and> pf_links pf' = pf_links pf"
proof -
  let ?t = "di_trans_op d"
  have s: "src_ok m (t_ra ?t)" "t_rb ?t \<noteq> REG_imm \<longrightarrow> src_ok m (t_rb ?t)" "t_rc ?t \<noteq> REG_imm \<longrightarrow> src_ok m (t_rc ?t)"
    using assms(4) by (simp_all add: legal_uop_def)
  have nulls: "di_rb_preg d = REG_NULL_SRC" "di_rc_preg d = REG_NULL_SRC" using assms(8) by (simp_all add: blank_def)
  obtain pf1 where 1: "capture (t_ra ?t) (with_regs m pf c) = Inr (m ! rename_zf (t_ra ?t), with_regs m pf1 c)"
    "pf_inv {} (mregs m + add_mset (m ! rename_zf (t_ra ?t)) R) Y L pf1" "pf_links pf1 = pf_links pf"
    using capture_ok [OF assms(1) s(1)] by blast
  define ra where "ra = m ! rename_zf (t_ra ?t)"
  have ra: "ra \<noteq> REG_NULL_SRC" using s(1) by (auto simp: ra_def src_ok_def REG_NULL_SRC_def)
  define R1 where "R1 = add_mset ra R"
  obtain rb pf2 where 2: "(if t_rb ?t \<noteq> REG_imm then capture (t_rb ?t) (with_regs m pf1 c) else Inr (di_rb_preg d, with_regs m pf1 c))
      = Inr (rb, with_regs m pf2 c)" "pf_inv {} (mregs m + (null_src rb + R1)) Y L pf2" "pf_links pf2 = pf_links pf1"
    using capture_src_ok [OF 1(2) s(2) nulls(1), of c] by (auto simp: R1_def ra_def)
  define R2 where "R2 = null_src rb + R1"
  obtain rc pf3 where 3: "(if t_rc ?t \<noteq> REG_imm then capture (t_rc ?t) (with_regs m pf2 c) else Inr (di_rc_preg d, with_regs m pf2 c))
      = Inr (rc, with_regs m pf3 c)" "pf_inv {} (mregs m + (null_src rc + R2)) Y L pf3" "pf_links pf3 = pf_links pf2"
    using capture_src_ok [OF 2(2) s(3) nulls(2), of c] by (auto simp: R2_def)
  define R3 where "R3 = null_src rc + R2"
  have y3: "Y \<subseteq># R3" unfolding R3_def R2_def R1_def by (intro subset_add assms(2))
  define d1 where "d1 = d\<lparr>di_stage := DECODE_STAGE, di_ra_preg := ra, di_rb_preg := rb, di_rc_preg := rc\<rparr>"
  have d1: "di_trans_op d1 = ?t" "renamed_from d d1" "srcs d1 + R = R3" "di_rd_preg d1 = REG_NULL_DEST"
    using ra assms(8) by (simp_all add: d1_def renamed_from_def srcs_def R3_def R2_def R1_def blank_def)
  have ren: "rename k (with_regs m pf c) = (if has_dest ?t then rename_dest k d1 (with_regs m pf3 c) else Inr (set_inst k d1 (with_regs m pf3 c)))"
    using assms(4-7) 1(1) 2(1) 3(1) by (simp add: rename_def Let_def legal_uop_def d1_def ra_def split del: if_split cong: if_cong)
  show ?thesis
  proof (cases "has_dest ?t")
    case False
    have "writes d1 = []" using d1(4) by (simp add: writes_def)
    then show ?thesis using False ren d1 3 2(3) 1(3)
      by (intro exI [of _ d1] exI [of _ pf3]) (simp add: remap_def olds_def R3_def [symmetric])
  next
    case True
    then have rd: "src_ok m (t_rd (di_trans_op d1))" using assms(4) d1(1) by (simp add: legal_uop_def)
    obtain d' pf' where "rename_dest k d1 (with_regs m pf3 c) = Inr (set_inst k d' (with_regs (remap d' m) pf' c))"
      "di_trans_op d' = di_trans_op d1" "di_q_ptr d' = di_q_ptr d1" "di_stage d' = di_stage d1" "srcs d' = srcs d1"
      "di_starts_x86_op d' = di_starts_x86_op d1" "di_ends_x86_op d' = di_ends_x86_op d1"
      "0 \<le> di_rd_preg d'" "fits (di_rd_preg d') (writes d') m"
      "pf_inv {} (mregs (remap d' m) + (olds d' + R3)) Y L pf'" "pf_links pf' = pf_links pf3"
      using rename_dest_ok [OF 3(2) [folded R3_def] y3 rd assms(3), of k c] by blast
    moreover from this have "pf_inv {} (mregs (remap d' m) + (held d' + R)) Y L pf'" by (simp add: d1(3) [symmetric] ac_simps)
    ultimately show ?thesis using True ren d1(1,2) rd 3(3) 2(3) 1(3)
      by (intro exI [of _ d'] exI [of _ pf']) (simp add: renamed_from_def src_ok_def)
  qed
qed

end
