(* ===== verification/Squashing.thy ===== *)
theory Squashing
  imports Renaming
begin

text \<open>
  Squashing and committing one instruction: the youngest renamed instruction gives the map back as it was before it, the
  oldest one moves the retirement map to the map behind it. Neither fails, and the references that are left are counted
  exactly.
\<close>

section \<open>Undoing the writes\<close>

definition undo :: "(nat \<times> phys_name) list \<Rightarrow> logical_file \<Rightarrow> logical_file" where
  "undo ws m = fold (\<lambda>(i, old) m. m[i := old]) ws m"

lemma undo_Nil [simp]: "undo [] m = m"
  by (simp add: undo_def)

lemma length_undo [simp]: "length (undo ws m) = length m"
  unfolding undo_def by (induction ws arbitrary: m) auto

lemma flag_slots: "rename_zf REG_of = 74" "rename_zf REG_cf = 73" "rename_zf REG_zf = 57"
  by (simp_all add: rename_zf_def reg_defs)

text \<open>The flags come back in the order in which they were taken: their slots are different.\<close>

lemma undo_remap:
  assumes "fits (di_rd_preg d) (writes d) m" "di_rd_preg d \<noteq> REG_NULL_DEST"
  defines "t \<equiv> di_trans_op d"
  shows "(undo (flag_write FLAG_ZAPS REG_zf t (di_rzapsf_preg_old d)) (undo (flag_write FLAG_CF REG_cf t (di_rcf_preg_old d))
     (undo (flag_write FLAG_OF REG_of t (di_rof_preg_old d)) (remap d m))))[rename_zf (t_rd t) := di_rd_preg_old d] = m"
  using assms(1,2) unfolding writes_def remap_def t_def
  by (auto simp: flag_write_def flag_slots undo_def nth_upd intro!: nth_equalityI)

section \<open>Squashing\<close>

lemma restore_ok:
  assumes "pf_inv {} (mregs m + add_mset old R) Y L pf" "Y \<subseteq># R" "slot_ok num m"
  shows "\<exists>pf'. restore num old (with_regs m pf c) = Inr (with_regs (m[rename_zf num := old]) pf' c)
    \<and> pf_inv {} (mregs (m[rename_zf num := old]) + R) Y L pf' \<and> pf_links pf' = pf_links pf"
  using remap_ok [OF assms, of old] by (auto simp: restore_def)

lemma restore_flag_ok:
  assumes "pf_inv {} (mregs m + (mset (map snd (flag_write flag num t old)) + R)) Y L pf" "Y \<subseteq># R" "slot_ok num m"
  shows "\<exists>pf'. restore_flag flag num t old (with_regs m pf c) = Inr (with_regs (undo (flag_write flag num t old) m) pf' c)
    \<and> pf_inv {} (mregs (undo (flag_write flag num t old) m) + R) Y L pf' \<and> pf_links pf' = pf_links pf"
  using assms restore_ok [of m old R Y L pf num c] by (auto simp: restore_flag_def flag_write_def undo_def)

lemma drop_reg_ok:
  assumes "pf_inv {} (M + (null_src p + R)) Y L pf" "Y \<subseteq># R"
  shows "\<exists>pf'. drop_reg REG_NULL_SRC p (c\<lparr>c_physical_file := pf\<rparr>) = Inr (c\<lparr>c_physical_file := pf'\<rparr>)
    \<and> pf_inv {} (M + R) Y L pf' \<and> pf_links pf' = pf_links pf"
proof (cases "p = REG_NULL_SRC")
  case False
  have "M + (null_src p + R) - Y = M + null_src p + (R - Y)"
    using subset_mset.diff_add_assoc [OF assms(2), of "M + null_src p"] by (simp add: ac_simps)
  then have "p \<in># M + (null_src p + R) - Y" using False by simp
  from decrementRefCount_ok [OF assms(1) this] show ?thesis using False by (auto simp: drop_reg_def)
qed (use assms in \<open>auto simp: drop_reg_def\<close>)

lemma drop_srcs_ok:
  assumes "pf_inv {} (M + (srcs d + R)) Y L pf" "Y \<subseteq># R"
  shows "\<exists>pf'. (\<forall>f :: core \<Rightarrow> core result. rbind (drop_reg REG_NULL_SRC (di_ra_preg d) (c\<lparr>c_physical_file := pf\<rparr>)) (\<lambda>c.
           rbind (drop_reg REG_NULL_SRC (di_rb_preg d) c) (\<lambda>c.
           rbind (drop_reg REG_NULL_SRC (di_rc_preg d) c) f)) = f (c\<lparr>c_physical_file := pf'\<rparr>))
    \<and> pf_inv {} (M + R) Y L pf' \<and> pf_links pf' = pf_links pf"
proof -
  let ?a = "null_src (di_ra_preg d)" and ?b = "null_src (di_rb_preg d)" and ?c = "null_src (di_rc_preg d)"
  have "pf_inv {} (M + (?a + (?b + (?c + R)))) Y L pf" using assms(1) by (simp only: srcs_eq add.assoc)
  then obtain pf1 where 1: "drop_reg REG_NULL_SRC (di_ra_preg d) (c\<lparr>c_physical_file := pf\<rparr>) = Inr (c\<lparr>c_physical_file := pf1\<rparr>)"
    "pf_inv {} (M + (?b + (?c + R))) Y L pf1" "pf_links pf1 = pf_links pf"
    using drop_reg_ok [of M "di_ra_preg d" "?b + (?c + R)" Y L pf c] subset_add(2) assms(2) by blast
  obtain pf2 where 2: "drop_reg REG_NULL_SRC (di_rb_preg d) (c\<lparr>c_physical_file := pf1\<rparr>) = Inr (c\<lparr>c_physical_file := pf2\<rparr>)"
    "pf_inv {} (M + (?c + R)) Y L pf2" "pf_links pf2 = pf_links pf1"
    using drop_reg_ok [OF 1(2), of c] subset_add(2) assms(2) by blast
  obtain pf3 where 3: "drop_reg REG_NULL_SRC (di_rc_preg d) (c\<lparr>c_physical_file := pf2\<rparr>) = Inr (c\<lparr>c_physical_file := pf3\<rparr>)"
    "pf_inv {} (M + R) Y L pf3" "pf_links pf3 = pf_links pf2"
    using drop_reg_ok [OF 2(2), of c] assms(2) by blast
  show ?thesis using 1 2 3 by auto
qed

definition with_lsq :: "(address \<Rightarrow> nat list option) \<Rightarrow> core \<Rightarrow> core" where
  "with_lsq q c = c\<lparr>c_lsq := q\<rparr>"

lemma with_lsq_simps [simp]:
  "c_front_end_map (with_lsq q c) = c_front_end_map c" "c_physical_file (with_lsq q c) = c_physical_file c"
  "with_lsq q (with_lsq q' c) = with_lsq q c" "c_retire_map (with_lsq q c) = c_retire_map c"
  "c_inst_buffer (with_lsq q c) = c_inst_buffer c" "the_inst k (with_lsq q c) = the_inst k c"
  "c_q_head (with_lsq q c) = c_q_head c" "c_q_tail (with_lsq q c) = c_q_tail c"
  "c_q_rename (with_lsq q c) = c_q_rename c" "set_inst k d (with_lsq q c) = with_lsq q (set_inst k d c)"
  "set_inst k d (set_inst k d' c) = set_inst k d c" "set_inst k d (with_regs m pf c) = with_regs m pf (set_inst k d c)"
  "with_regs m pf (with_lsq q c) = with_lsq q (with_regs m pf c)"
  by (simp_all add: with_lsq_def the_inst_def set_inst_def with_regs_def)

text \<open>Two instructions that differ in what squashing and execution change.\<close>

definition same_op :: "dynamic_inst \<Rightarrow> dynamic_inst \<Rightarrow> bool" where
  "same_op d d' \<longleftrightarrow> di_trans_op d' = di_trans_op d \<and> di_q_ptr d' = di_q_ptr d \<and> di_stage d' = di_stage d"

lemma same_op_refl [simp]: "same_op d d"
  by (simp add: same_op_def)

lemma lsq_remove_with: "\<exists>q. lsq_remove k c = with_lsq q c"
  by (auto simp: lsq_remove_def with_lsq_def set_lsq_list_def Let_def)

text \<open>The part of \<open>unwindRegisters\<close> for the load/store queue.\<close>

lemma unwind_lsq:
  assumes "k < length (c_inst_buffer c)"
  shows "\<exists>q d'. (if di_lsq_inserted (the_inst k c)
     then let c = lsq_remove k c in set_inst k ((the_inst k c)\<lparr>di_lsq_inserted := False\<rparr>) c else c) = with_lsq q (set_inst k d' c)
     \<and> d' = (the_inst k c)\<lparr>di_lsq_inserted := False\<rparr>"
proof (cases "di_lsq_inserted (the_inst k c)")
  case True
  obtain q where "lsq_remove k c = with_lsq q c" using lsq_remove_with by blast
  then show ?thesis using True by (auto simp: Let_def)
next
  case False
  have "(the_inst k c)\<lparr>di_lsq_inserted := False\<rparr> = the_inst k c" using False by simp
  then have "set_inst k ((the_inst k c)\<lparr>di_lsq_inserted := False\<rparr>) c = c" by (simp add: set_inst_def the_inst_def)
  then show ?thesis using False by (auto simp: with_lsq_def intro: exI [of _ "c_lsq c"])
qed

lemma slots_of_fits:
  assumes "fits p ws m" "0 \<le> p" "flags_mapped m"
  shows "slot_ok REG_of (follow p ws m)" "slot_ok REG_cf (follow p ws m)" "slot_ok REG_zf (follow p ws m)"
  using assms(3) by (simp_all add: flags_mapped_def src_ok_def)

lemma unwind_maps_ok:
  assumes "pf_inv {} (mregs (remap d m) + (held d + R)) Y L pf" "Y \<subseteq># R" "the_inst k c = d" "isRenamed d" "\<not> isRetired d"
    "fits (di_rd_preg d) (writes d) m" "flags_mapped m" "writes d \<noteq> [] \<longrightarrow> t_rd (di_trans_op d) \<noteq> REG_rip"
  shows "\<exists>d' pf'. unwind_maps k (with_regs (remap d m) pf c) = Inr (set_inst k d' (with_regs m pf' c))
    \<and> same_op d d' \<and> blank d' \<and> pf_inv {} (mregs m + R) Y L pf' \<and> pf_links pf' = pf_links pf"
proof -
  let ?t = "di_trans_op d"
  let ?of = "flag_write FLAG_OF REG_of ?t (di_rof_preg_old d)"
  let ?cf = "flag_write FLAG_CF REG_cf ?t (di_rcf_preg_old d)"
  let ?zf = "flag_write FLAG_ZAPS REG_zf ?t (di_rzapsf_preg_old d)"
  define d1 where "d1 = d\<lparr>di_ra_preg := REG_NULL_SRC, di_rb_preg := REG_NULL_SRC, di_rc_preg := REG_NULL_SRC\<rparr>"
  have yo: "Y \<subseteq># olds d + R" using assms(2) by (rule subset_add(2))
  have inv: "pf_inv {} (mregs (remap d m) + (srcs d + (olds d + R))) Y L pf" using assms(1) by (simp add: ac_simps)
  obtain pf1 where 1: "rbind (drop_reg REG_NULL_SRC (di_ra_preg d) (with_regs (remap d m) pf c)) (\<lambda>c.
      rbind (drop_reg REG_NULL_SRC (di_rb_preg d) c) (\<lambda>c. rbind (drop_reg REG_NULL_SRC (di_rc_preg d) c) f)) = f (with_regs (remap d m) pf1 c)"
    "pf_inv {} (mregs (remap d m) + (olds d + R)) Y L pf1" "pf_links pf1 = pf_links pf" for f :: "core \<Rightarrow> core result"
    using drop_srcs_ok [OF inv yo, of "c\<lparr>c_front_end_map := remap d m\<rparr>"] unfolding with_regs_def by auto
  show ?thesis
  proof (cases "di_rd_preg d = REG_NULL_DEST")
    case True
    then have none: "remap d m = m" "olds d = {#}" by (simp_all add: remap_def olds_def writes_def)
    then show ?thesis using True 1 assms(3-5)
      by (intro exI [of _ d1] exI [of _ pf1]) (simp add: unwind_maps_def d1_def blank_def same_op_def)
  next
    case False
    have w: "writes d = [(rename_zf (t_rd ?t), di_rd_preg_old d)] @ ?of @ ?cf @ ?zf" using False by (simp add: writes_def)
    have len: "slot_ok REG_of (remap d m)" "slot_ok REG_cf (remap d m)" "slot_ok REG_zf (remap d m)" "slot_ok (t_rd ?t) (remap d m)"
      using assms(6-8) w by (simp_all add: remap_def flags_mapped_def src_ok_def)
    let ?Rc = "mset (map snd ?cf) + (mset (map snd ?zf) + add_mset (di_rd_preg_old d) R)"
    have o: "olds d + R = mset (map snd ?of) + ?Rc" by (simp add: olds_def w)
    obtain pf2 where 2: "restore_flag FLAG_OF REG_of ?t (di_rof_preg_old d) (with_regs (remap d m) pf1 c)
        = Inr (with_regs (undo ?of (remap d m)) pf2 c)" "pf_inv {} (mregs (undo ?of (remap d m)) + ?Rc) Y L pf2" "pf_links pf2 = pf_links pf1"
      using restore_flag_ok [of "remap d m" FLAG_OF REG_of ?t "di_rof_preg_old d" ?Rc Y L pf1 c] 1(2) len(1) subset_add assms(2)
      unfolding o by metis
    let ?m2 = "undo ?of (remap d m)"
    let ?Rz = "mset (map snd ?zf) + add_mset (di_rd_preg_old d) R"
    obtain pf3 where 3: "restore_flag FLAG_CF REG_cf ?t (di_rcf_preg_old d) (with_regs ?m2 pf2 c)
        = Inr (with_regs (undo ?cf ?m2) pf3 c)" "pf_inv {} (mregs (undo ?cf ?m2) + ?Rz) Y L pf3" "pf_links pf3 = pf_links pf2"
      using restore_flag_ok [OF 2(2)] len(2) subset_add assms(2) by (metis length_undo)
    let ?m3 = "undo ?cf ?m2"
    obtain pf4 where 4: "restore_flag FLAG_ZAPS REG_zf ?t (di_rzapsf_preg_old d) (with_regs ?m3 pf3 c)
        = Inr (with_regs (undo ?zf ?m3) pf4 c)" "pf_inv {} (mregs (undo ?zf ?m3) + add_mset (di_rd_preg_old d) R) Y L pf4"
        "pf_links pf4 = pf_links pf3"
      using restore_flag_ok [OF 3(2)] len(3) subset_add assms(2) by (metis length_undo)
    let ?m4 = "undo ?zf ?m3"
    have m: "?m4[rename_zf (t_rd ?t) := di_rd_preg_old d] = m" using undo_remap [OF assms(6) False] .
    obtain pf5 where 5: "restore (t_rd ?t) (di_rd_preg_old d) (with_regs ?m4 pf4 c) = Inr (with_regs m pf5 c)"
      "pf_inv {} (mregs m + R) Y L pf5" "pf_links pf5 = pf_links pf4"
      using restore_ok [OF 4(2) assms(2), of "t_rd ?t" c] len(4) m by auto
    define d2 where "d2 = d1\<lparr>di_rd_preg := REG_NULL_DEST, di_rd_preg_old := REG_NULL_DEST, di_rof_preg_old := REG_NULL_DEST,
      di_rcf_preg_old := REG_NULL_DEST, di_rzapsf_preg_old := REG_NULL_DEST\<rparr>"
    have "unwind_maps k (with_regs (remap d m) pf c) = Inr (set_inst k d2 (with_regs m pf5 c))"
      using False assms(3-5) 1(1) 2(1) 3(1) 4(1) 5(1) by (simp add: unwind_maps_def Let_def d1_def d2_def)
    then show ?thesis using 1(3) 2(3) 3(3) 4(3) 5
      by (intro exI [of _ d2] exI [of _ pf5]) (simp add: same_op_def blank_def d2_def d1_def)
  qed
qed

text \<open>Changing the wait lists only.\<close>

lemma pf_inv_relist:
  assumes "pf_inv A X Y L pf" "Y' \<subseteq># X" "rings wait_lists L' h" "\<And>p. L' (Register_list p) \<noteq> [] \<Longrightarrow> int p \<in># Y'"
  shows "pf_inv A X Y' L' (pf\<lparr>pf_links := h\<rparr>)"
  using assms unfolding pf_inv_def by (simp add: lengths_ok_def counts_ok_def free_ok_def names_ok_def waits_ok_def)

lemma pf_inv_rings: "pf_inv A X Y L pf \<Longrightarrow> rings wait_lists L (pf_links pf)"
  by (simp add: pf_inv_def waits_ok_def)

lemma set_links_with_regs: "set_links h (with_regs m pf c) = with_regs m (pf\<lparr>pf_links := h\<rparr>) c"
  by (simp add: set_links_def with_regs_def)

definition cleared :: "dynamic_inst \<Rightarrow> dynamic_inst" where
  "cleared d = d\<lparr>di_executed := False, di_lsq_inserted := False, di_unaligned := False, di_mispredicted := False,
     di_load_ordering_violation := False, di_load_consistency_violation := False, di_check_exception := False,
     di_mem_operand := dw_clear\<rparr>"

lemma cleared_simps: "same_op d' (cleared d) \<longleftrightarrow> same_op d' d" "blank (cleared d) \<longleftrightarrow> blank d" "\<not> di_executed (cleared d)"
  "held (cleared d) = held d" "writes (cleared d) = writes d" "di_rd_preg (cleared d) = di_rd_preg d"
  by (simp_all add: cleared_def same_op_def blank_def srcs_def olds_def writes_def)

lemma squash_unfold:
  assumes "k < length (c_inst_buffer c)" "detached (Store_list k) (c_links c)"
    "unwind_maps k (set_links (detach (Inst k) (c_links c)) c) = Inr (set_inst k d' c')" "length (c_inst_buffer c') = length (c_inst_buffer c)"
  shows "\<exists>q. squash k c = Inr (with_lsq q (set_inst k (cleared d') c'))"
proof -
  let ?c1 = "set_links (detach (Inst k) (c_links c)) c"
  have c1: "(if \<not> detached (Inst k) (c_links c) then ?c1 else c) = ?c1"
    by (simp add: detach_detached set_links_def)
  have k: "the_inst k (set_inst k d' c') = d'" using assms(1,4) by (simp add: the_set_inst)
  obtain q where q: "(if di_lsq_inserted d' then let c = lsq_remove k (set_inst k d' c') in set_inst k ((the_inst k c)\<lparr>di_lsq_inserted := False\<rparr>) c
      else set_inst k d' c') = with_lsq q (set_inst k (d'\<lparr>di_lsq_inserted := False\<rparr>) c')"
    using unwind_lsq [of k "set_inst k d' c'"] assms(1,4) by (auto simp: k)
  have "the_inst k (with_lsq q (set_inst k (d'\<lparr>di_lsq_inserted := False\<rparr>) c')) = d'\<lparr>di_lsq_inserted := False\<rparr>"
    using assms(1,4) by (simp add: the_set_inst)
  moreover have "unwindRegisters k ?c1 = Inr (with_lsq q (set_inst k (d'\<lparr>di_lsq_inserted := False\<rparr>) c'))"
    unfolding unwindRegisters_def assms(3) rbind_Inr k q ..
  ultimately have "squash k c = Inr (with_lsq q (set_inst k (cleared d') c'))"
    using assms(2) unfolding squash_def Let_def c1 by (simp add: cleared_def)
  then show ?thesis by blast
qed

lemma squash_ok:
  assumes inv: "pf_inv {} (mregs (remap d m) + (held d + R)) Y0 L pf" and Y: "Y \<subseteq># R" "\<And>p. remove1 (Inst k) (L (Register_list p)) \<noteq> [] \<Longrightarrow> int p \<in># Y"
    and d: "the_inst k c = d" "k < length (c_inst_buffer c)" "isRenamed d" "\<not> isRetired d" "L (Store_list k) = []"
    and m: "fits (di_rd_preg d) (writes d) m" "flags_mapped m" "writes d \<noteq> [] \<longrightarrow> t_rd (di_trans_op d) \<noteq> REG_rip"
  shows "\<exists>d' pf' q. squash k (with_regs (remap d m) pf c) = Inr (with_lsq q (set_inst k d' (with_regs m pf' c)))
    \<and> same_op d d' \<and> blank d' \<and> \<not> di_executed d' \<and> pf_inv {} (mregs m + R) Y (\<lambda>l. remove1 (Inst k) (L l)) pf'"
proof -
  let ?h = "detach (Inst k) (pf_links pf)"
  let ?L = "\<lambda>l. remove1 (Inst k) (L l)"
  have "rings wait_lists ?L ?h" using detach_rings(1) [OF pf_inv_rings [OF inv]] list_in_lists(5) by blast
  moreover have "Y \<subseteq># mregs (remap d m) + (held d + R)" using Y(1) by (intro subset_add(2))
  ultimately have inv1: "pf_inv {} (mregs (remap d m) + (held d + R)) Y ?L (pf\<lparr>pf_links := ?h\<rparr>)"
    using Y(2) by (intro pf_inv_relist [OF inv]) auto
  obtain d' pf' where u: "unwind_maps k (with_regs (remap d m) (pf\<lparr>pf_links := ?h\<rparr>) c) = Inr (set_inst k d' (with_regs m pf' c))"
    "same_op d d'" "blank d'" "pf_inv {} (mregs m + R) Y ?L pf'"
    using unwind_maps_ok [OF inv1 Y(1) d(1,3,4) m] by blast
  have "detached (Store_list k) (pf_links pf)"
    using rings_empty [OF pf_inv_rings [OF inv], of "Store_list k"] d(5) by (simp add: list_in_lists)
  then obtain q where "squash k (with_regs (remap d m) pf c) = Inr (with_lsq q (set_inst k (cleared d') (with_regs m pf' c)))"
    using squash_unfold [of k "with_regs (remap d m) pf c" d' "with_regs m pf' c"] d(2) u(1) by (auto simp: set_links_with_regs)
  then show ?thesis using u by (metis cleared_simps(1,2,3))
qed

text \<open>An instruction that has not been renamed, or is retired, holds nothing.\<close>

lemma squash_idle:
  assumes inv: "pf_inv {} X Y L (c_physical_file c)" and d: "the_inst k c = d" "k < length (c_inst_buffer c)" "\<not> (isRenamed d \<and> \<not> isRetired d)"
    "L (Store_list k) = []" "\<And>l. l \<in> wait_lists \<Longrightarrow> Inst k \<notin> set (L l)"
  shows "\<exists>q. squash k c = Inr (with_lsq q (set_inst k (cleared d) c))"
proof -
  note R = pf_inv_rings [OF inv]
  have det: "detached (Inst k) (c_links c)" using rings_detached [OF R, of "Inst k"] d(5) by (simp add: list_in_lists)
  then have same: "set_links (detach (Inst k) (c_links c)) c = c" by (simp add: detach_detached set_links_def)
  have "unwind_maps k c = Inr (set_inst k d c)"
  proof -
    have "set_inst k d c = c" unfolding d(1) [symmetric] by (simp add: set_inst_def the_inst_def)
    then show ?thesis unfolding unwind_maps_def Let_def d(1) if_not_P [OF d(3)] by simp
  qed
  moreover have "detached (Store_list k) (c_links c)" using rings_empty [OF R, of "Store_list k"] d(4) by (simp add: list_in_lists)
  ultimately show ?thesis using squash_unfold [of k c d c] d(2) same by simp
qed

section \<open>Committing\<close>

definition with_retired :: "logical_file \<Rightarrow> physical_file \<Rightarrow> core \<Rightarrow> core" where
  "with_retired m pf c = c\<lparr>c_retire_map := m, c_physical_file := pf\<rparr>"

lemma retire_reg_ok:
  assumes "pf_inv {} (mregs m + add_mset old R) Y L pf" "Y \<subseteq># R" "slot_ok num m" "p \<in># R"
  shows "\<exists>pf'. retire_reg num p old (with_retired m pf c) = Inr (with_retired (m[rename_zf num := p]) pf' c)
    \<and> pf_inv {} (mregs (m[rename_zf num := p]) + R) Y L pf' \<and> pf_links pf' = pf_links pf"
  using remap_ok [OF assms(1-3), of p] assms(4) by (auto simp: retire_reg_def with_retired_def)

lemma retire_flag_ok:
  assumes "pf_inv {} (mregs m + (mset (map snd (flag_write flag num t old)) + R)) Y L pf" "Y \<subseteq># R" "slot_ok num m" "p \<in># R"
  shows "\<exists>pf'. retire_flag flag num t p old (with_retired m pf c) = Inr (with_retired (follow p (flag_write flag num t old) m) pf' c)
    \<and> pf_inv {} (mregs (follow p (flag_write flag num t old) m) + R) Y L pf' \<and> pf_links pf' = pf_links pf"
  using assms retire_reg_ok [of m old R Y L pf num p c] by (auto simp: retire_flag_def flag_write_def)

lemma follow_commute: "length (follow p ws m) = length m \<Longrightarrow> set (map fst ws) = set (map fst vs) \<Longrightarrow> follow p ws m = follow p vs m"
  by (rule nth_equalityI) (auto simp: follow_nth)

lemma commit_ok:
  assumes inv: "pf_inv {} (mregs m + (held d + R)) Y L pf" and Y: "Y \<subseteq># R" and d: "the_inst k c = d" "k < length (c_inst_buffer c)"
    "di_stage d = COMPLETE_STAGE" "di_executed d" and m: "flags_mapped m"
    "writes d \<noteq> [] \<longrightarrow> t_rd (di_trans_op d) \<noteq> REG_rip \<and> rename_zf (t_rd (di_trans_op d)) < length m \<and> di_rd_preg d \<in># R"
  shows "\<exists>pf'. commit k (with_retired m pf c) = Inr (with_retired (remap d m) pf' (set_inst k (d\<lparr>di_stage := RETIRE_STAGE\<rparr>) c))
    \<and> pf_inv {} (mregs (remap d m) + R) Y L pf' \<and> pf_links pf' = pf_links pf"
proof -
  let ?t = "di_trans_op d" and ?p = "di_rd_preg d"
  let ?of = "flag_write FLAG_OF REG_of ?t (di_rof_preg_old d)"
  let ?cf = "flag_write FLAG_CF REG_cf ?t (di_rcf_preg_old d)"
  let ?zf = "flag_write FLAG_ZAPS REG_zf ?t (di_rzapsf_preg_old d)"
  let ?c = "set_inst k (d\<lparr>di_stage := RETIRE_STAGE\<rparr>) c"
  have yo: "Y \<subseteq># olds d + R" using Y by (rule subset_add(2))
  have inv': "pf_inv {} (mregs m + (srcs d + (olds d + R))) Y L pf" using inv by (simp add: ac_simps)
  obtain pf1 where 1: "rbind (drop_reg REG_NULL_SRC (di_ra_preg d) (with_retired m pf ?c)) (\<lambda>c.
      rbind (drop_reg REG_NULL_SRC (di_rb_preg d) c) (\<lambda>c. rbind (drop_reg REG_NULL_SRC (di_rc_preg d) c) f)) = f (with_retired m pf1 ?c)"
    "pf_inv {} (mregs m + (olds d + R)) Y L pf1" "pf_links pf1 = pf_links pf" for f :: "core \<Rightarrow> core result"
    using drop_srcs_ok [OF inv' yo, of "?c\<lparr>c_retire_map := m\<rparr>"] unfolding with_retired_def by auto
  have stage: "setStage RETIRE_STAGE k (with_retired m pf c) = with_retired m pf ?c"
    using d(1) by (simp add: setStage_def set_inst_def the_inst_def with_retired_def)
  have the: "the_inst k (with_retired m pf c) = d" using d(1) by (simp add: the_inst_def with_retired_def)
  show ?thesis
  proof (cases "?p = REG_NULL_DEST")
    case True
    then have none: "remap d m = m" "olds d = {#}" by (simp_all add: remap_def olds_def writes_def)
    then show ?thesis using True 1 d
      by (intro exI [of _ pf1]) (simp add: commit_def the stage)
  next
    case False
    have w: "writes d = [(rename_zf (t_rd ?t), di_rd_preg_old d)] @ ?of @ ?cf @ ?zf" using False by (simp add: writes_def)
    have p: "?p \<in># R" and rd: "slot_ok (t_rd ?t) m" using m(2) w by auto
    have len: "slot_ok REG_of m" "slot_ok REG_cf m" "slot_ok REG_zf m" using m(1) by (simp_all add: flags_mapped_def src_ok_def)
    let ?Rd = "add_mset (di_rd_preg_old d) R"
    let ?Rz = "mset (map snd ?zf) + ?Rd" let ?Rc = "mset (map snd ?cf) + ?Rz"
    have o: "olds d + R = mset (map snd ?of) + ?Rc" by (simp add: olds_def w)
    have y: "Y \<subseteq># ?Rc" "Y \<subseteq># ?Rz" "Y \<subseteq># ?Rd" by (intro subset_add Y)+
    have pR: "?p \<in># ?Rc" "?p \<in># ?Rz" "?p \<in># ?Rd" using p by simp_all
    let ?m2 = "follow ?p ?of m" let ?m3 = "follow ?p ?cf ?m2" let ?m4 = "follow ?p ?zf ?m3"
    obtain pf2 where 2: "retire_flag FLAG_OF REG_of ?t ?p (di_rof_preg_old d) (with_retired m pf1 ?c) = Inr (with_retired ?m2 pf2 ?c)"
      "pf_inv {} (mregs ?m2 + ?Rc) Y L pf2" "pf_links pf2 = pf_links pf1"
      using retire_flag_ok [OF 1(2) [unfolded o] y(1) len(1) pR(1), of ?c] by blast
    obtain pf3 where 3: "retire_flag FLAG_CF REG_cf ?t ?p (di_rcf_preg_old d) (with_retired ?m2 pf2 ?c) = Inr (with_retired ?m3 pf3 ?c)"
      "pf_inv {} (mregs ?m3 + ?Rz) Y L pf3" "pf_links pf3 = pf_links pf2"
      using retire_flag_ok [OF 2(2) y(2) _ pR(2), of ?c] len(2) by auto
    obtain pf4 where 4: "retire_flag FLAG_ZAPS REG_zf ?t ?p (di_rzapsf_preg_old d) (with_retired ?m3 pf3 ?c) = Inr (with_retired ?m4 pf4 ?c)"
      "pf_inv {} (mregs ?m4 + ?Rd) Y L pf4" "pf_links pf4 = pf_links pf3"
      using retire_flag_ok [OF 3(2) y(3) _ pR(3), of ?c] len(3) by auto
    obtain pf5 where 5: "retire_reg (t_rd ?t) ?p (di_rd_preg_old d) (with_retired ?m4 pf4 ?c)
        = Inr (with_retired (?m4[rename_zf (t_rd ?t) := ?p]) pf5 ?c)"
      "pf_inv {} (mregs (?m4[rename_zf (t_rd ?t) := ?p]) + R) Y L pf5" "pf_links pf5 = pf_links pf4"
      using retire_reg_ok [OF 4(2) Y, of "t_rd ?t" ?p ?c] rd p by auto
    have "?m4[rename_zf (t_rd ?t) := ?p] = follow ?p (?of @ ?cf @ ?zf @ [(rename_zf (t_rd ?t), di_rd_preg_old d)]) m"
      by (simp add: follow_append)
    also have "\<dots> = remap d m" unfolding remap_def w by (rule follow_commute) auto
    finally have r: "?m4[rename_zf (t_rd ?t) := ?p] = remap d m" .
    show ?thesis using False d 1 2 3 4 5
      by (intro exI [of _ pf5]) (simp add: commit_def Let_def the stage r)
  qed
qed

end
