(* ===== verification/Window.thy ===== *)
theory Window
  imports DynamicInst
begin

text \<open>
  The instruction window of pyrite/Processor.cpp: placing the micro-operations of a decoded instruction in the buffer,
  renaming them in order, flushing and replaying the youngest ones, committing the oldest ones, and building the register
  files from the state of the functional simulator. The pointers of the window are those of \<open>core\<close>.
\<close>

section \<open>Pointers\<close>

text \<open>\<open>q - 1\<close> on 64 bits without a sign.\<close>

definition prev_ptr :: "nat \<Rightarrow> nat" where
  "prev_ptr q = (if q = 0 then 2 ^ 64 - 1 else q - 1)"

definition setOldestBad :: "nat \<Rightarrow> core \<Rightarrow> core" where
  "setOldestBad q c = c\<lparr>c_q_oldest_bad := Some (case c_q_oldest_bad c of None \<Rightarrow> q | Some b \<Rightarrow> min b q)\<rparr>"

definition forget_bad :: "nat \<Rightarrow> core \<Rightarrow> core" where
  "forget_bad q c =
     c\<lparr>c_q_oldest_bad := (case c_q_oldest_bad c of None \<Rightarrow> None | Some b \<Rightarrow> if q \<le> b then None else Some b)\<rparr>"

section \<open>Placing micro-operations in the buffer\<close>

definition MAX_TRANSOPS_PER_USER_INSN :: nat where "MAX_TRANSOPS_PER_USER_INSN = 16"

definition place_uop :: "nat \<Rightarrow> 64 word \<Rightarrow> nat \<Rightarrow> trans_op \<Rightarrow> core \<Rightarrow> core result" where
  "place_uop load_latency rip q t c =
     (let k = mappedIndex q
      in rbind (inst_init t rip q (if isload (t_opcode t) then load_latency else 1) k c) (\<lambda>c.
         let c = setStage FETCH_STAGE k c
         in check (isClear (di_mem_operand (the_inst k c)) \<and> detached (Inst k) (c_links c)) Assert_failed (Inr c)))"

definition setStartsX86Op :: "nat \<Rightarrow> core \<Rightarrow> core" where
  "setStartsX86Op k c = set_inst k ((the_inst k c)\<lparr>di_starts_x86_op := True\<rparr>) c"

definition setEndsX86Op :: "bool \<Rightarrow> nat \<Rightarrow> core \<Rightarrow> core" where
  "setEndsX86Op b k c = set_inst k ((the_inst k c)\<lparr>di_ends_x86_op := b\<rparr>) c"

definition place_uops :: "nat \<Rightarrow> 64 word \<Rightarrow> trans_op list \<Rightarrow> core \<Rightarrow> core result" where
  "place_uops load_latency rip uops c =
     (let n = length uops; head = c_q_head c
      in check (n \<le> MAX_TRANSOPS_PER_USER_INSN) Assert_failed (
         rbind (rfold (\<lambda>i c. check (\<not> isbranch (t_opcode (uops ! i)) \<or> Suc i = n) Assert_failed
             (place_uop load_latency rip (head + i) (uops ! i) c)) [0..<n] c) (\<lambda>c.
         Inr (setEndsX86Op True (mappedIndex (prev_ptr (head + n))) (setStartsX86Op (mappedIndex head) c)))))"

section \<open>Renaming in order\<close>

definition uopIsLegal :: "dynamic_inst \<Rightarrow> bool" where
  "uopIsLegal d \<longleftrightarrow> \<not> (t_rb (di_trans_op d) = REG_ctx \<or> t_rc (di_trans_op d) = REG_ctx \<or> t_rd (di_trans_op d) = REG_ctx)"

text \<open>The body of the loop: whether it goes on, and by how much \<open>i\<close> grows. A no-op does not count.\<close>

definition rename_next :: "nat \<Rightarrow> core \<Rightarrow> (bool \<times> nat \<times> core) result" where
  "rename_next q_rename_ready c =
     (let q = c_q_rename c; k = mappedIndex q
      in if q \<ge> q_rename_ready then Inr (False, 0, c)
         else check (q < c_q_head c) Assert_failed (
           if \<not> uopIsLegal (the_inst k c) then Inr (False, 0, setOldestBad q c)
           else if getOpcode (the_inst k c) = OP_nop then Inr (True, 0, (completeAtDecode k c)\<lparr>c_q_rename := q + 1\<rparr>)
           else rbind (rename k c) (\<lambda>c. Inr (True, 1, c\<lparr>c_q_rename := q + 1\<rparr>))))"

definition rename_window :: "nat \<Rightarrow> nat \<Rightarrow> nat \<Rightarrow> core \<Rightarrow> core result" where
  "rename_window rename_width rob_size fetched c =
     (let q_rename_ready = min fetched (c_q_tail c + rob_size)
      in rbind (rwhile (\<lambda>(go_on, i, c). go_on \<and> i < rename_width)
           (\<lambda>(_, i, c). rbind (rename_next q_rename_ready c) (\<lambda>(go_on, n, c). Inr (go_on, i + n, c))) (True, 0, c))
         (\<lambda>(_, _, c). Inr c))"

section \<open>Flushing and replaying\<close>

text \<open>The instructions from \<open>from - 1\<close> down to \<open>q_first\<close>, the youngest first.\<close>

definition backwards :: "(nat \<Rightarrow> core \<Rightarrow> core result) \<Rightarrow> nat \<Rightarrow> nat \<Rightarrow> core \<Rightarrow> core result" where
  "backwards f q_first from c =
     rbind (rwhile (\<lambda>(q, c). q \<ge> q_first) (\<lambda>(q, c). rbind (f (mappedIndex q) c) (\<lambda>c. Inr (prev_ptr q, c))) (prev_ptr from, c))
       (\<lambda>(_, c). Inr c)"

definition limit_pointers :: "nat \<Rightarrow> core \<Rightarrow> core" where
  "limit_pointers q c = c\<lparr>c_q_execute := min (c_q_execute c) q, c_q_retire := min (c_q_retire c) q\<rparr>"

definition flush_window :: "nat \<Rightarrow> core \<Rightarrow> core result" where
  "flush_window q_first_bad c =
     rbind (backwards squash q_first_bad (c_q_head c) (forget_bad q_first_bad (limit_pointers q_first_bad c))) (\<lambda>c.
     Inr (c\<lparr>c_q_rename := q_first_bad, c_q_head := q_first_bad\<rparr>))"

definition squash_for_replay :: "nat \<Rightarrow> core \<Rightarrow> core result" where
  "squash_for_replay k c = rbind (squash k c) (\<lambda>c. Inr (setStage FETCH_STAGE k c))"

definition replay_window :: "nat \<Rightarrow> core \<Rightarrow> core result" where
  "replay_window q_first_replayed c =
     rbind (backwards squash_for_replay q_first_replayed (c_q_rename c)
       (forget_bad q_first_replayed (limit_pointers q_first_replayed c))) (\<lambda>c.
     Inr (c\<lparr>c_q_rename := q_first_replayed\<rparr>))"

definition reset_window :: "core \<Rightarrow> core result" where
  "reset_window c =
     rbind (rwhile (\<lambda>(q, c). q > c_q_tail c)
       (\<lambda>(q, c). rbind (squash (mappedIndex (q - 1)) c) (\<lambda>c. rbind (inst_reset (mappedIndex (q - 1)) c) (\<lambda>c. Inr (q - 1, c))))
       (c_q_head c, c)) (\<lambda>(_, c).
     Inr (c\<lparr>c_q_head := c_q_tail c, c_q_rename := c_q_tail c, c_q_execute := c_q_tail c, c_q_retire := c_q_tail c,
       c_q_oldest_bad := None\<rparr>))"

section \<open>Committing\<close>

text \<open>The micro-operations of the oldest x86 instruction, up to \<open>q_last\<close>, are committed; the result is the union of their flags.\<close>

definition commit_group :: "nat \<Rightarrow> core \<Rightarrow> (nat \<times> core) result" where
  "commit_group q_last c =
     rfold (\<lambda>q (mask, c). rbind (commit (mappedIndex q) c) (\<lambda>c.
         let t = di_trans_op (getDynamicInst q c)
         in Inr (if \<not> t_nouserflags t then mask OR setflags_to_x86_flags ! t_setflags t else mask, c)))
       [c_q_tail c..<Suc q_last] (0, c)"

text \<open>After a successful check against the functional simulator the loads and stores leave the queue and the tail moves.\<close>

definition leave_lsq :: "nat \<Rightarrow> core \<Rightarrow> core" where
  "leave_lsq q_last c =
     fold (\<lambda>q c. if di_lsq_inserted (getDynamicInst q c) then lsq_remove (mappedIndex q) c else c) [c_q_tail c..<Suc q_last] c"

definition advance_tail :: "nat \<Rightarrow> core \<Rightarrow> core" where
  "advance_tail q_last c = (leave_lsq q_last c)\<lparr>c_q_tail := Suc q_last\<rparr>"

section \<open>The architectural registers\<close>

text \<open>What the core reads from the functional simulator.\<close>

record arch_state =
  as_64bit :: bool
  as_reg :: "nat \<Rightarrow> 64 word"
  as_xmm :: "(64 word \<times> 64 word) list"
  as_context :: "64 word"
  as_fpstack :: "64 word"
  as_fpu_status :: "64 word"
  as_fpu_tag :: "64 word"

definition fresh_register :: "nat \<Rightarrow> 64 word \<Rightarrow> core \<Rightarrow> (phys_name \<times> core) result" where
  "fresh_register num v c =
     rbind (getNewMapping num (c_front_end_map c, c_physical_file c)) (\<lambda>(p, m, pf).
     rbind (store_value p v pf) (\<lambda>pf. Inr (p, with_regs m pf c)))"

definition new_register :: "nat \<times> 64 word \<Rightarrow> core \<Rightarrow> core result" where
  "new_register = (\<lambda>(num, v) c. rbind (fresh_register num v c) (\<lambda>(_, c). Inr c))"

definition resetPyriteRegister :: "arch_state \<Rightarrow> nat \<Rightarrow> core \<Rightarrow> core result" where
  "resetPyriteRegister a num c =
     check (num \<noteq> REG_rip) Assert_failed (
     let v = as_reg a num
     in rbind (fresh_register num (if num = REG_flags then 0 else v) c) (\<lambda>(p, c).
        rbind (setFlags p (if num = REG_flags then v else 0) (c_physical_file c)) (\<lambda>pf. Inr (c\<lparr>c_physical_file := pf\<rparr>))))"

text \<open>The general registers, in the order of the calls; the numbers of \<open>REG_rax\<close> \dots \<open>REG_r15\<close> are 0 to 15.\<close>

definition general_registers :: "arch_state \<Rightarrow> nat list" where
  "general_registers a = [0, 3, 1, 2, 4, 5, 6, 7, REG_flags] @ (if as_64bit a then [8, 9, 10, 11, 12, 13, 14, 15] else [])"

definition new_xmm :: "nat \<times> 64 word \<times> 64 word \<Rightarrow> core \<Rightarrow> core result" where
  "new_xmm = (\<lambda>(num, low, high) c.
     rbind (getNewMapping num (c_front_end_map c, c_physical_file c)) (\<lambda>(p_low, m, pf).
     rbind (getNewMapping (num + 1) (m, pf)) (\<lambda>(p_high, m, pf).
     rbind (store_value p_low low pf) (\<lambda>pf.
     rbind (store_value p_high high pf) (\<lambda>pf. Inr (with_regs m pf c))))))"

definition xmm_registers :: "arch_state \<Rightarrow> (nat \<times> 64 word \<times> 64 word) list" where
  "xmm_registers a = map (\<lambda>i. (16 + 2 * i, as_xmm a ! i)) [0..<length (as_xmm a)]"

text \<open>The temporaries, the address of the context, and the state of the floating point unit.\<close>

definition other_registers :: "arch_state \<Rightarrow> (nat \<times> 64 word) list" where
  "other_registers a =
     map (\<lambda>num. (num, 0)) [64, 65, 66, 67, 68, 69, 70, 71, 77, 78, 79]
     @ [(REG_ctx, as_context a), (51, as_fpstack a), (49, as_fpu_status a), (48, drop_bit 8 (as_fpu_status a) AND 0x38),
        (50, as_fpu_tag a)]"

definition share_flags :: "phys_name \<Rightarrow> nat \<Rightarrow> core \<Rightarrow> core result" where
  "share_flags p num c =
     rbind (setMapping num p (c_front_end_map c, c_physical_file c)) (\<lambda>(m, pf). Inr (with_regs m pf c))"

definition reset_registers :: "arch_state \<Rightarrow> core \<Rightarrow> core result" where
  "reset_registers a c =
     rbind (pf_reset (c_physical_file c)) (\<lambda>pf.
     let c = c\<lparr>c_front_end_map := LogicalFile, c_retire_map := LogicalFile, c_physical_file := pf\<rparr>
     in rbind (new_register (REG_zero, 0) c) (\<lambda>c.
        rbind (rfold (resetPyriteRegister a) (general_registers a) c) (\<lambda>c.
        rbind (getMapping REG_flags (c_front_end_map c)) (\<lambda>p.
        rbind (rfold (share_flags p) [REG_of, REG_cf, REG_zf] c) (\<lambda>c.
        rbind (rfold new_xmm (xmm_registers a) c) (\<lambda>c.
        rbind (rfold new_register (other_registers a) c) (\<lambda>c.
        rbind (lf_assign (c_front_end_map c) (c_retire_map c) (c_physical_file c)) (\<lambda>(m, pf).
        Inr (c\<lparr>c_retire_map := m, c_physical_file := pf\<rparr>)))))))))"

end
