(* ===== verification/WindowSafety.thy ===== *)
theory WindowSafety
  imports Squashing Window
begin

text \<open>
  The invariant of the instruction window. Between the retirement map and the front-end map lies the chain of the renamed
  instructions: each fits the map that its predecessors leave, and following all their writes leads from the one map to
  the other. The references of the register file are exactly those of the two maps and of the renamed instructions, and
  only renamed instructions wait for anything. Every operation of the window keeps the invariant and none fails.
\<close>

section \<open>The chain of renamings\<close>

fun chain :: "dynamic_inst list \<Rightarrow> logical_file \<Rightarrow> logical_file \<Rightarrow> bool" where
  "chain [] m m' \<longleftrightarrow> m = m'"
| "chain (d # ds) m m' \<longleftrightarrow> fits (di_rd_preg d) (writes d) m \<and> chain ds (remap d m) m'"

definition has_regs :: "dynamic_inst \<Rightarrow> bool" where
  "has_regs d \<longleftrightarrow> (writes d \<noteq> [] \<longrightarrow> 0 \<le> di_rd_preg d \<and> t_rd (di_trans_op d) \<noteq> REG_rip)"

lemma chain_append: "chain (xs @ ys) m m' \<longleftrightarrow> (\<exists>m1. chain xs m m1 \<and> chain ys m1 m')"
  by (induction xs arbitrary: m) auto

lemma chain_value: "chain ds m m' \<Longrightarrow> m' = fold remap ds m"
  by (induction ds arbitrary: m) auto

lemma same_slots_remap: "fits (di_rd_preg d) (writes d) m \<Longrightarrow> has_regs d \<Longrightarrow> same_slots m (remap d m)"
  by (cases "writes d = []") (auto simp: remap_def has_regs_def intro: same_slots_follow)

lemma same_slots_chain: "chain ds m m' \<Longrightarrow> \<forall>d \<in> set ds. has_regs d \<Longrightarrow> same_slots m m'"
  by (induction ds arbitrary: m) (auto intro: same_slots_trans same_slots_remap)

text \<open>A register of a map is in the later map, or a renaming took it out.\<close>

lemma follow_keeps: "fits p ws m \<Longrightarrow> x \<in> set m \<Longrightarrow> x \<in> set (follow p ws m) \<or> x \<in> snd ` set ws"
proof (induction p ws m rule: follow.induct)
  case (2 p i old ws m)
  then have "x \<in> set (m[i := p]) \<or> x = old" by (auto simp: in_set_conv_nth nth_upd) (metis length_list_update nth_list_update_neq)
  then show ?case using 2 by auto
qed simp

lemma chain_keeps:
  assumes "chain ds m m'" "x \<in> set m"
  shows "x \<in> set m' \<or> (\<exists>d \<in> set ds. x \<in># olds d)"
  using assms
proof (induction ds arbitrary: m)
  case (Cons d ds)
  then have "x \<in> set (remap d m) \<or> x \<in># olds d" using follow_keeps [of "di_rd_preg d" "writes d" m x] by (auto simp: remap_def olds_def)
  then show ?case using Cons by auto
qed simp

section \<open>The invariant\<close>

abbreviation flight :: "nat \<Rightarrow> nat \<Rightarrow> core \<Rightarrow> dynamic_inst list" where
  "flight lo hi c \<equiv> map (\<lambda>q. getDynamicInst q c) [lo..<hi]"

definition all_held :: "dynamic_inst list \<Rightarrow> phys_name multiset" where
  "all_held ds = sum_list (map held ds)"

definition all_srcs :: "dynamic_inst list \<Rightarrow> phys_name multiset" where
  "all_srcs ds = sum_list (map srcs ds)"

lemma all_simps [simp]:
  "all_held [] = {#}" "all_held (d # ds) = held d + all_held ds" "all_held (ds @ es) = all_held ds + all_held es"
  "all_srcs [] = {#}" "all_srcs (d # ds) = srcs d + all_srcs ds" "all_srcs (ds @ es) = all_srcs ds + all_srcs es"
  by (simp_all add: all_held_def all_srcs_def)

lemma all_srcs_held: "all_srcs ds \<subseteq># all_held ds"
  by (induction ds) (auto intro: subset_mset.add_increasing)

lemma olds_in_held: "d \<in> set ds \<Longrightarrow> x \<in># olds d \<Longrightarrow> x \<in># all_held ds"
  by (induction ds) auto

lemma srcs_in_all: "d \<in> set ds \<Longrightarrow> x \<in># srcs d \<Longrightarrow> x \<in># all_srcs ds"
  by (induction ds) auto

text \<open>A micro-operation that is renamed is a legal one.\<close>

definition uop_ok :: "logical_file \<Rightarrow> trans_op \<Rightarrow> bool" where
  "uop_ok m t \<longleftrightarrow> t_opcode t = OP_nop \<or> t_rb t = REG_ctx \<or> t_rc t = REG_ctx \<or> t_rd t = REG_ctx \<or> legal_uop m t"

abbreviation op_ok :: "logical_file \<Rightarrow> dynamic_inst \<Rightarrow> bool" where
  "op_ok m d \<equiv> uop_ok m (di_trans_op d)"

definition flying :: "dynamic_inst \<Rightarrow> bool" where
  "flying d \<longleftrightarrow> isRenamed d \<and> \<not> isRetired d \<and> has_regs d"

definition fetched :: "dynamic_inst \<Rightarrow> bool" where
  "fetched d \<longleftrightarrow> di_stage d = FETCH_STAGE \<and> \<not> di_executed d \<and> blank d"

definition window_ok :: "nat \<Rightarrow> nat \<Rightarrow> nat \<Rightarrow> core \<Rightarrow> bool" where
  "window_ok lo r h c \<longleftrightarrow> length (c_inst_buffer c) = BUF_SIZE \<and> c_q_tail c \<le> lo \<and> lo \<le> r \<and> r \<le> h \<and> h \<le> c_q_tail c + BUF_SIZE
     \<and> flags_mapped (c_retire_map c)"

definition insts_ok :: "nat \<Rightarrow> nat \<Rightarrow> nat \<Rightarrow> core \<Rightarrow> bool" where
  "insts_ok lo r h c \<longleftrightarrow> (\<forall>q. c_q_tail c \<le> q \<and> q < lo \<longrightarrow> isRetired (getDynamicInst q c))
     \<and> (\<forall>q. lo \<le> q \<and> q < r \<longrightarrow> flying (getDynamicInst q c)) \<and> (\<forall>q. r \<le> q \<and> q < h \<longrightarrow> fetched (getDynamicInst q c))
     \<and> (\<forall>q. lo \<le> q \<and> q < h \<longrightarrow> di_q_ptr (getDynamicInst q c) = q \<and> op_ok (c_retire_map c) (getDynamicInst q c))"

definition lists_ok :: "nat \<Rightarrow> nat \<Rightarrow> (waiter \<Rightarrow> waiter list) \<Rightarrow> core \<Rightarrow> bool" where
  "lists_ok lo r L c \<longleftrightarrow>
     (\<forall>l \<in> wait_lists. \<forall>k. Inst k \<in> set (L l) \<longrightarrow> (\<exists>q. lo \<le> q \<and> q < r \<and> k = mappedIndex q \<and> di_stage (getDynamicInst q c) < COMPLETE_STAGE))
     \<and> (\<forall>p. \<forall>w \<in> set (L (Register_list p)). \<exists>q. lo \<le> q \<and> q < r \<and> w = Inst (mappedIndex q) \<and> int p \<in># srcs (getDynamicInst q c))
     \<and> (\<forall>k. \<forall>w \<in> set (L (Store_list k)). \<exists>q q'. lo \<le> q \<and> q < q' \<and> q' < r \<and> k = mappedIndex q \<and> w = Inst (mappedIndex q')
          \<and> di_stage (getDynamicInst q c) < MEMORY_STAGE)"

definition regs_ok :: "nat \<Rightarrow> nat \<Rightarrow> (waiter \<Rightarrow> waiter list) \<Rightarrow> core \<Rightarrow> bool" where
  "regs_ok lo r L c \<longleftrightarrow> chain (flight lo r c) (c_retire_map c) (c_front_end_map c)
     \<and> pf_inv {} (mregs (c_front_end_map c) + (mregs (c_retire_map c) + all_held (flight lo r c))) (all_srcs (flight lo r c)) L (c_physical_file c)"

definition core_ok :: "nat \<Rightarrow> nat \<Rightarrow> nat \<Rightarrow> (waiter \<Rightarrow> waiter list) \<Rightarrow> core \<Rightarrow> bool" where
  "core_ok lo r h L c \<longleftrightarrow> window_ok lo r h c \<and> insts_ok lo r h c \<and> lists_ok lo r L c \<and> regs_ok lo r L c"

text \<open>The invariant of a core between two operations.\<close>

definition core_inv :: "core \<Rightarrow> bool" where
  "core_inv c \<longleftrightarrow> (\<exists>L. core_ok (c_q_tail c) (c_q_rename c) (c_q_head c) L c)"

lemma core_okD:
  assumes "core_ok lo r h L c"
  shows "window_ok lo r h c" "insts_ok lo r h c" "lists_ok lo r L c" "regs_ok lo r L c"
  using assms by (simp_all add: core_ok_def)

lemma slots_differ:
  assumes "window_ok lo r h c" "c_q_tail c \<le> q" "q < c_q_tail c + BUF_SIZE" "c_q_tail c \<le> q'" "q' < c_q_tail c + BUF_SIZE" "q \<noteq> q'"
  shows "mappedIndex q \<noteq> mappedIndex q'"
  using mappedIndex_inj [of q q'] assms by auto

lemma getDynamicInst_set:
  "getDynamicInst q (set_inst k d c) = (if mappedIndex q = k \<and> k < length (c_inst_buffer c) then d else getDynamicInst q c)"
  by (simp add: getDynamicInst_def the_set_inst)

lemma getDynamicInst_with [simp]:
  "getDynamicInst q (with_regs m pf c) = getDynamicInst q c" "getDynamicInst q (with_lsq s c) = getDynamicInst q c"
  by (simp_all add: getDynamicInst_def)

lemma flight_flying: "insts_ok lo r h c \<Longrightarrow> d \<in> set (flight lo r c) \<Longrightarrow> flying d"
  by (auto simp: insts_ok_def)

lemma front_slots: "core_ok lo r h L c \<Longrightarrow> same_slots (c_retire_map c) (c_front_end_map c)"
  using same_slots_chain [of "flight lo r c" "c_retire_map c" "c_front_end_map c"] flight_flying [of lo r h c]
  by (auto simp: core_ok_def regs_ok_def flying_def)

lemma lists_ok_any:
  assumes "lists_ok lo r L c" "l \<in> wait_lists" "Inst k \<in> set (L l)"
  shows "\<exists>q. lo \<le> q \<and> q < r \<and> k = mappedIndex q \<and> di_stage (getDynamicInst q c) < COMPLETE_STAGE"
  using assms unfolding lists_ok_def by blast

lemma lists_ok_reg:
  assumes "lists_ok lo r L c" "w \<in> set (L (Register_list p))"
  shows "\<exists>q. lo \<le> q \<and> q < r \<and> w = Inst (mappedIndex q) \<and> int p \<in># srcs (getDynamicInst q c)"
  using assms unfolding lists_ok_def by blast

lemma lists_ok_store:
  assumes "lists_ok lo r L c" "w \<in> set (L (Store_list k))"
  shows "\<exists>q q'. lo \<le> q \<and> q < q' \<and> q' < r \<and> k = mappedIndex q \<and> w = Inst (mappedIndex q') \<and> di_stage (getDynamicInst q c) < MEMORY_STAGE"
  using assms unfolding lists_ok_def by blast

section \<open>Squashing the youngest instruction\<close>

lemma flight_last: "lo \<le> q \<Longrightarrow> flight lo (Suc q) c = flight lo q c @ [getDynamicInst q c]"
  by simp

text \<open>What a change of one slot does to the parts of the invariant that do not look at it.\<close>

lemma flight_cong:
  assumes "\<And>q. lo \<le> q \<Longrightarrow> q < r \<Longrightarrow> getDynamicInst q c' = getDynamicInst q c"
  shows "flight lo r c' = flight lo r c"
  using assms by simp

lemma regs_ok_cong:
  assumes "regs_ok lo r L c" "c_retire_map c' = c_retire_map c" "c_front_end_map c' = c_front_end_map c"
    "c_physical_file c' = c_physical_file c" "\<And>q. lo \<le> q \<Longrightarrow> q < r \<Longrightarrow> getDynamicInst q c' = getDynamicInst q c"
  shows "regs_ok lo r L c'"
proof -
  have "flight lo r c' = flight lo r c" by (rule flight_cong [OF assms(5)])
  then show ?thesis using assms(1) unfolding regs_ok_def assms(2-4) by (simp only:)
qed

lemma lists_ok_cong_stage:
  assumes "lists_ok lo r L c" "\<And>q. lo \<le> q \<Longrightarrow> q < r \<Longrightarrow> di_stage (getDynamicInst q c') = di_stage (getDynamicInst q c)
    \<and> srcs (getDynamicInst q c') = srcs (getDynamicInst q c)"
  shows "lists_ok lo r L c'"
  unfolding lists_ok_def
proof (intro conjI ballI allI impI)
  fix l k assume "l \<in> wait_lists" "Inst k \<in> set (L l)"
  from lists_ok_any [OF assms(1) this]
  show "\<exists>q. lo \<le> q \<and> q < r \<and> k = mappedIndex q \<and> di_stage (getDynamicInst q c') < COMPLETE_STAGE" using assms(2) by metis
next
  fix p w assume "w \<in> set (L (Register_list p))"
  from lists_ok_reg [OF assms(1) this]
  show "\<exists>q. lo \<le> q \<and> q < r \<and> w = Inst (mappedIndex q) \<and> int p \<in># srcs (getDynamicInst q c')" using assms(2) by metis
next
  fix k w assume "w \<in> set (L (Store_list k))"
  from lists_ok_store [OF assms(1) this] obtain q q' where "lo \<le> q" "q < q'" "q' < r" "k = mappedIndex q" "w = Inst (mappedIndex q')"
    "di_stage (getDynamicInst q c) < MEMORY_STAGE" by blast
  moreover from this have "di_stage (getDynamicInst q c') < MEMORY_STAGE" using assms(2) [of q] by simp
  ultimately show "\<exists>q q'. lo \<le> q \<and> q < q' \<and> q' < r \<and> k = mappedIndex q \<and> w = Inst (mappedIndex q')
    \<and> di_stage (getDynamicInst q c') < MEMORY_STAGE" by blast
qed

lemma lists_ok_cong:
  assumes "lists_ok lo r L c" "\<And>q. lo \<le> q \<Longrightarrow> q < r \<Longrightarrow> getDynamicInst q c' = getDynamicInst q c"
  shows "lists_ok lo r L c'"
  by (rule lists_ok_cong_stage [OF assms(1)]) (simp add: assms(2))

lemma lists_shrink:
  assumes "lists_ok lo (Suc q) L c" "rings wait_lists L h" "length (c_inst_buffer c) = BUF_SIZE" "Suc q \<le> lo + BUF_SIZE"
  shows "lists_ok lo q (\<lambda>l. remove1 (Inst (mappedIndex q)) (L l)) c"
proof -
  let ?L = "\<lambda>l. remove1 (Inst (mappedIndex q)) (L l)"
  have mem: "w \<in> set (?L l) \<longleftrightarrow> w \<in> set (L l) \<and> w \<noteq> Inst (mappedIndex q)" if "l \<in> wait_lists" for w l
    using ringsD(1) [OF assms(2) that] by auto
  have less: "q' < q" if "lo \<le> q'" "q' < Suc q" "mappedIndex q' \<noteq> mappedIndex q" for q'
    using that by (cases "q' = q") auto
  show ?thesis
    unfolding lists_ok_def
  proof (intro conjI ballI allI impI)
    fix l k assume "l \<in> wait_lists" "Inst k \<in> set (?L l)"
    then have "Inst k \<in> set (L l)" "k \<noteq> mappedIndex q" using mem [of l "Inst k"] by auto
    then obtain q' where "lo \<le> q'" "q' < Suc q" "k = mappedIndex q'" "di_stage (getDynamicInst q' c) < COMPLETE_STAGE"
      using assms(1) \<open>l \<in> wait_lists\<close> unfolding lists_ok_def by blast
    then show "\<exists>q'. lo \<le> q' \<and> q' < q \<and> k = mappedIndex q' \<and> di_stage (getDynamicInst q' c) < COMPLETE_STAGE"
      using less [of q'] \<open>k \<noteq> mappedIndex q\<close> by blast
  next
    fix p w assume "w \<in> set (?L (Register_list p))"
    then have w: "w \<in> set (L (Register_list p))" "w \<noteq> Inst (mappedIndex q)" using mem [OF list_in_lists(1)] by auto
    then obtain q' where "lo \<le> q'" "q' < Suc q" "w = Inst (mappedIndex q')" "int p \<in># srcs (getDynamicInst q' c)"
      using assms(1) unfolding lists_ok_def by blast
    then show "\<exists>q'. lo \<le> q' \<and> q' < q \<and> w = Inst (mappedIndex q') \<and> int p \<in># srcs (getDynamicInst q' c)"
      using less [of q'] w(2) by blast
  next
    fix k w assume "w \<in> set (?L (Store_list k))"
    then have w: "w \<in> set (L (Store_list k))" "w \<noteq> Inst (mappedIndex q)" using mem [OF list_in_lists(2)] by auto
    then obtain q' q'' where q: "lo \<le> q'" "q' < q''" "q'' < Suc q" "k = mappedIndex q'" "w = Inst (mappedIndex q'')"
      "di_stage (getDynamicInst q' c) < MEMORY_STAGE" using assms(1) unfolding lists_ok_def by blast
    moreover have "q'' < q" using less [of q''] q w(2) by auto
    ultimately show "\<exists>q' q''. lo \<le> q' \<and> q' < q'' \<and> q'' < q \<and> k = mappedIndex q' \<and> w = Inst (mappedIndex q'')
      \<and> di_stage (getDynamicInst q' c) < MEMORY_STAGE" by blast
  qed
qed

lemma store_list_empty:
  assumes "lists_ok lo r L c" "r \<le> Suc q" "r \<le> lo + BUF_SIZE" "lo \<le> q" "q < lo + BUF_SIZE"
  shows "L (Store_list (mappedIndex q)) = []"
proof (rule ccontr)
  assume "L (Store_list (mappedIndex q)) \<noteq> []"
  then obtain w where "w \<in> set (L (Store_list (mappedIndex q)))" using hd_in_set by blast
  then obtain q1 q2 where q: "lo \<le> q1" "q1 < q2" "q2 < r" "mappedIndex q = mappedIndex q1"
    using assms(1) unfolding lists_ok_def by blast
  then have "q = q1" using mappedIndex_inj [of q q1] assms by simp
  then show False using q assms(2) by simp
qed

lemma squash_last_ok:
  assumes ok: "core_ok lo (Suc q) h L c" and q: "lo \<le> q"
  shows "\<exists>d' m pf s. squash (mappedIndex q) c = Inr (with_lsq s (set_inst (mappedIndex q) d' (with_regs m pf c)))
    \<and> same_op (getDynamicInst q c) d' \<and> blank d' \<and> \<not> di_executed d'
    \<and> (\<exists>L'. regs_ok lo q L' (with_lsq s (set_inst (mappedIndex q) d' (with_regs m pf c)))
         \<and> lists_ok lo q L' (with_lsq s (set_inst (mappedIndex q) d' (with_regs m pf c))))"
proof -
  let ?k = "mappedIndex q"
  define d where "d = getDynamicInst q c"
  note W = core_okD(1) [OF ok, unfolded window_ok_def]
  have Iq: "flying d" "op_ok (c_retire_map c) d" using core_okD(2) [OF ok] q W by (auto simp: insts_ok_def d_def)
  have R: "chain (flight lo q c @ [d]) (c_retire_map c) (c_front_end_map c)"
    "pf_inv {} (mregs (c_front_end_map c) + (mregs (c_retire_map c) + all_held (flight lo q c @ [d]))) (all_srcs (flight lo q c @ [d])) L (c_physical_file c)"
    using core_okD(4) [OF ok] unfolding regs_ok_def flight_last [OF q] d_def by simp_all
  obtain m where m: "chain (flight lo q c) (c_retire_map c) m" "fits (di_rd_preg d) (writes d) m" "c_front_end_map c = remap d m"
    using R(1) by (auto simp: chain_append)
  let ?R = "mregs (c_retire_map c) + all_held (flight lo q c)"
  let ?Y = "all_srcs (flight lo q c)"
  let ?L = "\<lambda>l. remove1 (Inst ?k) (L l)"
  have inv: "pf_inv {} (mregs (remap d m) + (held d + ?R)) (all_srcs (flight lo q c @ [d])) L (c_physical_file c)"
    using R(2) by (simp add: m(3) ac_simps)
  have "\<forall>d \<in> set (flight lo q c). has_regs d" using core_okD(2) [OF ok] by (auto simp: insts_ok_def flying_def)
  then have flags: "flags_mapped m" using same_slots_flags [OF same_slots_chain [OF m(1)]] W by simp
  have k: "?k < length (c_inst_buffer c)" using W mappedIndex_less by simp
  have the: "the_inst ?k c = d" by (simp add: d_def getDynamicInst_def)
  have rings: "rings wait_lists L (c_links c)" using pf_inv_rings [OF inv] .
  have lists: "lists_ok lo q ?L c" using lists_shrink [OF core_okD(3) [OF ok] rings] W by simp
  have Y: "int p \<in># ?Y" if ne: "remove1 (Inst ?k) (L (Register_list p)) \<noteq> []" for p
  proof -
    obtain w where "w \<in> set (?L (Register_list p))" using hd_in_set [OF ne] by blast
    then have "\<exists>q'. lo \<le> q' \<and> q' < q \<and> w = Inst (mappedIndex q') \<and> int p \<in># srcs (getDynamicInst q' c)"
      by (rule lists_ok_reg [OF lists])
    then obtain q' where q': "lo \<le> q'" "q' < q" "int p \<in># srcs (getDynamicInst q' c)" by blast
    then have "getDynamicInst q' c \<in> set (flight lo q c)" by simp
    then show ?thesis using q'(3) by (rule srcs_in_all)
  qed
  have YR: "?Y \<subseteq># ?R" using subset_add(2) [OF all_srcs_held] .
  have st: "L (Store_list ?k) = []"
    using store_list_empty [OF core_okD(3) [OF ok], of q] W q by simp
  have c: "with_regs (remap d m) (c_physical_file c) c = c" using m(3) by (simp add: with_regs_def)
  have fl: "isRenamed d" "\<not> isRetired d" "writes d \<noteq> [] \<longrightarrow> t_rd (di_trans_op d) \<noteq> REG_rip"
    using Iq(1) by (simp_all add: flying_def has_regs_def)
  obtain d' pf' s where s: "squash ?k c = Inr (with_lsq s (set_inst ?k d' (with_regs m pf' c)))" "same_op d d'" "blank d'" "\<not> di_executed d'"
    "pf_inv {} (mregs m + ?R) ?Y ?L pf'"
    using squash_ok [OF inv YR Y the k fl(1,2) st m(2) flags fl(3)] unfolding c by blast
  let ?c = "with_lsq s (set_inst ?k d' (with_regs m pf' c))"
  have same: "getDynamicInst q' ?c = getDynamicInst q' c" if "lo \<le> q'" "q' < q" for q'
    using slots_differ [OF core_okD(1) [OF ok], of q' q] that W by (simp add: getDynamicInst_set)
  have fs: "flight lo q ?c = flight lo q c" by (rule flight_cong [OF same])
  have "regs_ok lo q ?L ?c" unfolding regs_ok_def fs using s(5) m(1) by simp
  moreover have "lists_ok lo q ?L ?c" using lists_ok_cong [OF lists same] .
  ultimately show ?thesis using s unfolding d_def by blast
qed

end
