(* ===== verification/WindowFlush.thy ===== *)
theory WindowFlush
  imports WindowSafety
begin

text \<open>
  Flushing, replaying and resetting the window: the loops that squash the instructions from the youngest to the oldest
  return, none of their steps fails, and the invariant holds for the instructions that are left. The loops need that they
  do not run down to the pointer 0: there the pointer would wrap.
\<close>

section \<open>Instructions that hold nothing\<close>

definition kept :: "nat \<Rightarrow> core \<Rightarrow> core \<Rightarrow> bool" where
  "kept q c c' \<longleftrightarrow> c_retire_map c' = c_retire_map c \<and> c_q_tail c' = c_q_tail c \<and> c_q_head c' = c_q_head c \<and> c_q_rename c' = c_q_rename c
     \<and> length (c_inst_buffer c') = length (c_inst_buffer c)
     \<and> (\<forall>q'. c_q_tail c \<le> q' \<and> q' < q \<longrightarrow> getDynamicInst q' c' = getDynamicInst q' c)"

lemma kept_refl [simp]: "kept q c c"
  by (simp add: kept_def)

lemma kept_trans: "kept q c c' \<Longrightarrow> kept q' c' c'' \<Longrightarrow> q' \<le> q \<Longrightarrow> kept q' c c''"
  by (simp add: kept_def)

lemma kept_less: "kept q c c' \<Longrightarrow> q' \<le> q \<Longrightarrow> kept q' c c'"
  by (simp add: kept_def)

lemma kept_slot:
  assumes "window_ok lo r h c" "c_q_tail c \<le> q" "q < c_q_tail c + BUF_SIZE"
  shows "kept q c (with_lsq s (set_inst (mappedIndex q) d (with_regs m pf c)))" "kept q c (with_lsq s (set_inst (mappedIndex q) d c))"
  using slots_differ [OF assms(1) _ _ assms(2,3)] assms(2,3) by (auto simp: kept_def getDynamicInst_set)

lemma core_ok_cong:
  assumes "core_ok lo r h L c" "c_inst_buffer c' = c_inst_buffer c" "c_retire_map c' = c_retire_map c" "c_front_end_map c' = c_front_end_map c"
    "c_physical_file c' = c_physical_file c" "c_q_tail c' = c_q_tail c"
  shows "core_ok lo r h L c'"
proof -
  have g: "getDynamicInst q c' = getDynamicInst q c" for q using assms(2) by (simp add: getDynamicInst_def the_inst_def)
  show ?thesis using assms(1) unfolding core_ok_def window_ok_def insts_ok_def lists_ok_def regs_ok_def assms(2-6) g .
qed

lemma not_listed:
  assumes "core_ok lo r h L c" "c_q_tail c \<le> q" "q < c_q_tail c + BUF_SIZE" "\<not> (lo \<le> q \<and> q < r)"
  shows "l \<in> wait_lists \<Longrightarrow> Inst (mappedIndex q) \<notin> set (L l)" "L (Store_list (mappedIndex q)) = []"
proof -
  note W = core_okD(1) [OF assms(1)]
  have no: False if "lo \<le> q'" "q' < r" "mappedIndex q = mappedIndex q'" for q'
    using slots_differ [OF W assms(2,3), of q'] that assms(4) W by (auto simp: window_ok_def)
  show "Inst (mappedIndex q) \<notin> set (L l)" if "l \<in> wait_lists"
  proof
    assume "Inst (mappedIndex q) \<in> set (L l)"
    from lists_ok_any [OF core_okD(3) [OF assms(1)] that this] show False using no by blast
  qed
  show "L (Store_list (mappedIndex q)) = []"
  proof (rule ccontr)
    assume ne: "L (Store_list (mappedIndex q)) \<noteq> []"
    from lists_ok_store [OF core_okD(3) [OF assms(1)] hd_in_set [OF ne]] show False using no by (meson less_trans)
  qed
qed

lemma squash_idle_ok:
  assumes "core_ok lo r h L c" "c_q_tail c \<le> q" "q < c_q_tail c + BUF_SIZE" "\<not> (lo \<le> q \<and> q < r)"
    "\<not> (isRenamed (getDynamicInst q c) \<and> \<not> isRetired (getDynamicInst q c))"
  shows "\<exists>s. squash (mappedIndex q) c = Inr (with_lsq s (set_inst (mappedIndex q) (cleared (getDynamicInst q c)) c))"
proof -
  have "pf_inv {} (mregs (c_front_end_map c) + (mregs (c_retire_map c) + all_held (flight lo r c))) (all_srcs (flight lo r c)) L (c_physical_file c)"
    using core_okD(4) [OF assms(1)] by (simp add: regs_ok_def)
  moreover have "mappedIndex q < length (c_inst_buffer c)" using core_okD(1) [OF assms(1)] mappedIndex_less by (simp add: window_ok_def)
  ultimately show ?thesis using not_listed [OF assms(1-4)] assms(5)
    by (intro squash_idle [of _ _ L]) (auto simp: getDynamicInst_def)
qed

section \<open>Flushing\<close>

lemma insts_ok_kept:
  assumes "insts_ok lo r h c" "kept q c c'" "h \<le> q" "r \<le> h" "lo \<le> r" "c_q_tail c \<le> lo"
  shows "insts_ok lo r h c'"
proof -
  have same: "getDynamicInst q' c' = getDynamicInst q' c" if "c_q_tail c \<le> q'" "q' < h" for q'
    using assms(2,3) that by (simp add: kept_def)
  have k: "c_q_tail c' = c_q_tail c" "c_retire_map c' = c_retire_map c" using assms(2) by (simp_all add: kept_def)
  show ?thesis using assms(1,4-6) same unfolding insts_ok_def k by simp
qed

lemma flush_step:
  assumes ok: "core_ok lo r (Suc q) L c" and q: "lo \<le> q"
  shows "\<exists>c' L'. squash (mappedIndex q) c = Inr c' \<and> core_ok lo (min r q) q L' c' \<and> kept q c c'"
proof -
  note W = core_okD(1) [OF ok] note I = core_okD(2) [OF ok]
  have b: "c_q_tail c \<le> q" "q < c_q_tail c + BUF_SIZE" "r \<le> Suc q" using W q by (auto simp: window_ok_def)
  have I': "insts_ok lo (min r q) q c" using I by (auto simp: insts_ok_def)
  show ?thesis
  proof (cases "r = Suc q")
    case True
    obtain d' m pf s L' where s: "squash (mappedIndex q) c = Inr (with_lsq s (set_inst (mappedIndex q) d' (with_regs m pf c)))"
      "regs_ok lo q L' (with_lsq s (set_inst (mappedIndex q) d' (with_regs m pf c)))"
      "lists_ok lo q L' (with_lsq s (set_inst (mappedIndex q) d' (with_regs m pf c)))"
      using squash_last_ok [OF ok [unfolded True] q] by blast
    let ?c = "with_lsq s (set_inst (mappedIndex q) d' (with_regs m pf c))"
    have k: "kept q c ?c" by (rule kept_slot [OF W b(1,2)])
    have "window_ok lo q q ?c" using W b k q by (simp add: window_ok_def kept_def)
    moreover have "insts_ok lo q q ?c" using insts_ok_kept [OF I' k] True W q by (simp add: window_ok_def)
    ultimately show ?thesis using s k True by (auto simp: core_ok_def)
  next
    case False
    then have r: "r \<le> q" using b by simp
    then have "fetched (getDynamicInst q c)" using I by (simp add: insts_ok_def)
    then have "\<not> isRenamed (getDynamicInst q c)" by (simp add: fetched_def isRenamed_def stage_order)
    then obtain s where s: "squash (mappedIndex q) c = Inr (with_lsq s (set_inst (mappedIndex q) (cleared (getDynamicInst q c)) c))"
      using squash_idle_ok [OF ok b(1,2)] r by auto
    let ?c = "with_lsq s (set_inst (mappedIndex q) (cleared (getDynamicInst q c)) c)"
    have k: "kept q c ?c" by (rule kept_slot [OF W b(1,2)])
    have same: "getDynamicInst q' ?c = getDynamicInst q' c" if "lo \<le> q'" "q' < r" for q'
      using k that r W by (simp add: kept_def window_ok_def)
    have "window_ok lo r q ?c" using W r by (simp add: window_ok_def)
    moreover have "insts_ok lo r q ?c" using insts_ok_kept [OF I' k] r W by (simp add: window_ok_def)
    moreover have "lists_ok lo r L ?c" by (rule lists_ok_cong [OF core_okD(3) [OF ok] same])
    moreover have "regs_ok lo r L ?c" by (rule regs_ok_cong [OF core_okD(4) [OF ok] _ _ _ same]) simp_all
    ultimately show ?thesis using s k r by (auto simp: core_ok_def)
  qed
qed

text \<open>The loop over the instructions, the youngest first.\<close>

lemma backwards_rule:
  assumes Q: "Q h c" and q: "q_first \<le> h" "0 < q_first"
    and step: "\<And>q x. q_first \<le> q \<Longrightarrow> Q (Suc q) x \<Longrightarrow> \<exists>y. f (mappedIndex q) x = Inr y \<and> Q q y"
  shows "\<exists>y. backwards f q_first h c = Inr y \<and> Q q_first y"
proof -
  let ?P = "\<lambda>(q, x). q_first \<le> Suc q \<and> Q (Suc q) x"
  let ?f = "\<lambda>(q, c). rbind (f (mappedIndex q) c) (\<lambda>c. Inr (prev_ptr q, c))"
  have P: "?P (prev_ptr h, c)" using Q q by (auto simp: prev_ptr_def)
  have body: "\<exists>y. ?f x = Inr y \<and> ?P y \<and> fst y < fst x" if "?P x" "case x of (q, c) \<Rightarrow> q_first \<le> q" for x
  proof -
    obtain n z where x: "x = (n, z)" by force
    have n: "q_first \<le> n" "0 < n" using that(2) q(2) x by auto
    have "Q (Suc n) z" using that(1) x by simp
    from step [OF n(1) this] obtain y where y: "f (mappedIndex n) z = Inr y" "Q n y" by blast
    then show ?thesis using n x by (auto simp: prev_ptr_def)
  qed
  have "\<exists>t. rwhile (\<lambda>(q, c). q_first \<le> q) ?f (prev_ptr h, c) = Inr t \<and> ?P t \<and> \<not> (case t of (q, c) \<Rightarrow> q_first \<le> q)"
    by (rule rwhile_total [where P = ?P and m = fst, OF P body])
  then obtain n y where t: "rwhile (\<lambda>(q, c). q_first \<le> q) ?f (prev_ptr h, c) = Inr (n, y)" "q_first \<le> Suc n" "Q (Suc n) y" "\<not> q_first \<le> n"
    by auto
  then have "q_first = Suc n" by simp
  then show ?thesis using t(1,3) by (simp add: backwards_def)
qed

lemma backwards_flush:
  assumes ok: "core_ok lo r h L c" and q: "lo \<le> q_first" "q_first \<le> h" "0 < q_first"
  shows "\<exists>c' L'. backwards squash q_first h c = Inr c' \<and> core_ok lo (min r q_first) q_first L' c' \<and> kept q_first c c'"
proof -
  let ?Q = "\<lambda>n x. (\<exists>L. core_ok lo (min r n) n L x) \<and> kept q_first c x"
  have "min r h = r" using core_okD(1) [OF ok] by (simp add: window_ok_def)
  then have Q: "?Q h c" using ok by auto
  have step: "\<exists>y. squash (mappedIndex n) x = Inr y \<and> ?Q n y" if n: "q_first \<le> n" "?Q (Suc n) x" for n x
  proof -
    obtain L where L: "core_ok lo (min r (Suc n)) (Suc n) L x" using n(2) by blast
    have "lo \<le> n" using q(1) n(1) by simp
    from flush_step [OF L this] obtain c' L' where c': "squash (mappedIndex n) x = Inr c'" "core_ok lo (min (min r (Suc n)) n) n L' c'"
      "kept n x c'" by blast
    have "kept q_first c c'" using kept_trans [of q_first c x q_first c'] kept_less [OF c'(3) n(1)] n(2) by blast
    moreover have "min (min r (Suc n)) n = min r n" by auto
    ultimately show ?thesis using c' by auto
  qed
  from backwards_rule [of ?Q h c q_first squash, OF Q q(2,3) step] show ?thesis by blast
qed

lemma flush_window_ok:
  assumes ok: "core_ok lo (c_q_rename c) (c_q_head c) L c" and q: "lo \<le> q_first" "q_first \<le> c_q_rename c" "0 < q_first"
  shows "\<exists>c' L'. flush_window q_first c = Inr c' \<and> core_ok lo q_first q_first L' c' \<and> c_q_rename c' = q_first \<and> c_q_head c' = q_first
    \<and> c_retire_map c' = c_retire_map c \<and> c_q_tail c' = c_q_tail c \<and> c_front_end_map c' = fold remap (flight lo q_first c) (c_retire_map c)
    \<and> (\<forall>q'. c_q_tail c \<le> q' \<and> q' < q_first \<longrightarrow> getDynamicInst q' c' = getDynamicInst q' c)"
proof -
  let ?c = "forget_bad q_first (limit_pointers q_first c)"
  have c: "core_ok lo (c_q_rename c) (c_q_head c) L ?c"
    by (rule core_ok_cong [OF ok]) (simp_all add: forget_bad_def limit_pointers_def)
  have "c_q_rename c \<le> c_q_head c" using core_okD(1) [OF ok] by (simp add: window_ok_def)
  then obtain x L' where x: "backwards squash q_first (c_q_head c) ?c = Inr x" "core_ok lo (min (c_q_rename c) q_first) q_first L' x" "kept q_first ?c x"
    using backwards_flush [OF c q(1) _ q(3)] q(2) by auto
  let ?x = "x\<lparr>c_q_rename := q_first, c_q_head := q_first\<rparr>"
  have ok': "core_ok lo q_first q_first L' ?x" by (rule core_ok_cong) (use x(2) q(2) in \<open>simp_all add: min_absorb2\<close>)
  have older: "getDynamicInst q' ?x = getDynamicInst q' c" if "c_q_tail c \<le> q'" "q' < q_first" for q'
    using x(3) that by (simp add: kept_def getDynamicInst_def the_inst_def forget_bad_def limit_pointers_def)
  then have g: "getDynamicInst q' ?x = getDynamicInst q' c" if "lo \<le> q'" "q' < q_first" for q'
    using that core_okD(1) [OF ok] by (simp add: window_ok_def)
  have k: "c_retire_map x = c_retire_map c" "c_q_tail x = c_q_tail c"
    using x(3) by (simp_all add: kept_def forget_bad_def limit_pointers_def)
  have fl: "flight lo q_first ?x = flight lo q_first c" by (rule flight_cong [OF g])
  have "c_front_end_map ?x = fold remap (flight lo q_first ?x) (c_retire_map ?x)"
    using core_okD(4) [OF ok'] unfolding regs_ok_def by (intro chain_value) blast
  then have "c_front_end_map ?x = fold remap (flight lo q_first c) (c_retire_map c)" unfolding fl using k(1) by simp
  moreover have "flush_window q_first c = Inr ?x" using x(1) by (simp add: flush_window_def forget_bad_def limit_pointers_def)
  moreover have "\<forall>q'. c_q_tail c \<le> q' \<and> q' < q_first \<longrightarrow> getDynamicInst q' ?x = getDynamicInst q' c" using older by blast
  ultimately show ?thesis using ok' k by (intro exI [of _ ?x] exI [of _ L']) simp
qed

section \<open>Replaying\<close>

lemma replay_step:
  assumes ok: "core_ok lo (Suc q) h L c" and q: "lo \<le> q"
  shows "\<exists>c' L'. squash_for_replay (mappedIndex q) c = Inr c' \<and> core_ok lo q h L' c' \<and> kept q c c'"
proof -
  let ?k = "mappedIndex q"
  note W = core_okD(1) [OF ok] note I = core_okD(2) [OF ok]
  have b: "c_q_tail c \<le> q" "q < c_q_tail c + BUF_SIZE" "q < h" using W q by (auto simp: window_ok_def)
  obtain d' m pf s L' where s: "squash ?k c = Inr (with_lsq s (set_inst ?k d' (with_regs m pf c)))"
    "same_op (getDynamicInst q c) d'" "blank d'" "\<not> di_executed d'"
    "regs_ok lo q L' (with_lsq s (set_inst ?k d' (with_regs m pf c)))"
    "lists_ok lo q L' (with_lsq s (set_inst ?k d' (with_regs m pf c)))"
    using squash_last_ok [OF ok q] by blast
  define d where "d = d'\<lparr>di_stage := FETCH_STAGE\<rparr>"
  let ?c = "with_lsq s (set_inst ?k d (with_regs m pf c))"
  have k: "?k < length (c_inst_buffer c)" using W mappedIndex_less by (simp add: window_ok_def)
  then have "squash_for_replay ?k c = Inr ?c"
    using s(1) by (simp add: squash_for_replay_def setStage_def the_set_inst d_def)
  moreover have kept: "kept q c ?c" by (rule kept_slot [OF W b(1,2)])
  moreover have other: "getDynamicInst q' ?c = getDynamicInst q' (with_lsq s (set_inst ?k d' (with_regs m pf c)))" if "lo \<le> q'" "q' < q" for q'
    using slots_differ [OF W, of q' q] that b W by (simp add: getDynamicInst_set window_ok_def)
  moreover have "regs_ok lo q L' ?c" by (rule regs_ok_cong [OF s(5) _ _ _ other]) simp_all
  moreover have "lists_ok lo q L' ?c" by (rule lists_ok_cong [OF s(6) other])
  moreover have "window_ok lo q h ?c" using W q b by (simp add: window_ok_def)
  moreover have "insts_ok lo q h ?c"
  proof -
    have same: "getDynamicInst q' ?c = getDynamicInst q' c" if "c_q_tail c \<le> q'" "q' < h" "q' \<noteq> q" for q'
      using slots_differ [OF W, of q' q] that b W by (simp add: getDynamicInst_set window_ok_def)
    have here: "getDynamicInst q ?c = d" using k by (simp add: getDynamicInst_set)
    have "di_q_ptr d = q" "op_ok (c_retire_map c) d" using I b q s(2)
      by (simp_all add: insts_ok_def d_def same_op_def)
    moreover have "fetched d" using s(3,4) by (simp add: fetched_def d_def blank_def)
    moreover have eq: "getDynamicInst q' ?c = (if q' = q then d else getDynamicInst q' c)" if "c_q_tail c \<le> q'" "q' < h" for q'
      using same [OF that] here by (cases "q' = q") (simp_all del: getDynamicInst_with)
    moreover have "c_q_tail ?c = c_q_tail c" "c_retire_map ?c = c_retire_map c" by simp_all
    moreover have "c_q_tail c \<le> lo" using W by (simp add: window_ok_def)
    ultimately show ?thesis using I q b(3) unfolding insts_ok_def by (simp del: getDynamicInst_with)
  qed
  ultimately show ?thesis by (auto simp: core_ok_def)
qed

lemma replay_window_ok:
  assumes ok: "core_ok lo (c_q_rename c) (c_q_head c) L c" and q: "lo \<le> q_first" "q_first \<le> c_q_rename c" "0 < q_first"
  shows "\<exists>c' L'. replay_window q_first c = Inr c' \<and> core_ok lo q_first (c_q_head c) L' c' \<and> c_q_rename c' = q_first
    \<and> c_q_head c' = c_q_head c \<and> c_q_tail c' = c_q_tail c"
proof -
  let ?c = "forget_bad q_first (limit_pointers q_first c)"
  let ?Q = "\<lambda>n x. (\<exists>L. core_ok lo n (c_q_head c) L x) \<and> kept q_first ?c x"
  have "core_ok lo (c_q_rename c) (c_q_head c) L ?c"
    by (rule core_ok_cong [OF ok]) (simp_all add: forget_bad_def limit_pointers_def)
  then have Q: "?Q (c_q_rename c) ?c" by auto
  have step: "\<exists>y. squash_for_replay (mappedIndex n) x = Inr y \<and> ?Q n y" if n: "q_first \<le> n" "?Q (Suc n) x" for n x
  proof -
    obtain L where L: "core_ok lo (Suc n) (c_q_head c) L x" using n(2) by blast
    have "lo \<le> n" using q(1) n(1) by simp
    from replay_step [OF L this] obtain c' L' where c': "squash_for_replay (mappedIndex n) x = Inr c'" "core_ok lo n (c_q_head c) L' c'"
      "kept n x c'" by blast
    have "kept q_first ?c c'" using kept_trans [of q_first ?c x q_first c'] kept_less [OF c'(3) n(1)] n(2) by blast
    then show ?thesis using c' by auto
  qed
  obtain x L' where x: "backwards squash_for_replay q_first (c_q_rename c) ?c = Inr x" "core_ok lo q_first (c_q_head c) L' x" "kept q_first ?c x"
    using backwards_rule [of ?Q "c_q_rename c" ?c q_first squash_for_replay, OF Q q(2,3) step] by blast
  let ?x = "x\<lparr>c_q_rename := q_first\<rparr>"
  have "core_ok lo q_first (c_q_head c) L' ?x" by (rule core_ok_cong [OF x(2)]) simp_all
  moreover have "replay_window q_first c = Inr ?x" using x(1) by (simp add: replay_window_def forget_bad_def limit_pointers_def)
  ultimately show ?thesis using x(3) by (auto simp: kept_def forget_bad_def limit_pointers_def)
qed

section \<open>Resetting\<close>

lemma flight_empty: "hi \<le> lo \<Longrightarrow> flight lo hi c = []"
  by simp

lemma lists_ok_empty:
  assumes "lists_ok n n L c"
  shows "lists_ok m m L c'"
proof -
  have no: "\<not> (n \<le> q \<and> q < n)" for q by simp
  have "Inst k \<notin> set (L l)" if "l \<in> wait_lists" for l k using lists_ok_any [OF assms that, of k] no by blast
  moreover have "w \<notin> set (L (Register_list p))" for w p using lists_ok_reg [OF assms, of w p] no by blast
  moreover have "w \<notin> set (L (Store_list k))" for w k using lists_ok_store [OF assms, of w k] no by (meson less_trans)
  ultimately show ?thesis unfolding lists_ok_def by blast
qed

text \<open>Committed instructions leave the window from the end.\<close>

lemma core_ok_shrink:
  assumes ok: "core_ok (Suc q) (Suc q) (Suc q) L c" and q: "c_q_tail c \<le> q"
    and c': "c' = with_lsq s (set_inst (mappedIndex q) d c)"
  shows "core_ok q q q L c'"
proof -
  note W = core_okD(1) [OF ok] note I = core_okD(2) [OF ok] note Li = core_okD(3) [OF ok] note R = core_okD(4) [OF ok]
  have b: "q < c_q_tail c + BUF_SIZE" using W by (simp add: window_ok_def)
  have k: "kept q c c'" unfolding c' by (rule kept_slot(2) [OF W q b])
  have "window_ok q q q c'" using W q by (simp add: window_ok_def c')
  moreover have "insts_ok q q q c'" using I k by (simp add: insts_ok_def kept_def)
  moreover have "lists_ok q q L c'" using Li by (rule lists_ok_empty)
  moreover have "regs_ok q q L c'" using R by (auto simp: regs_ok_def c')
  ultimately show ?thesis by (simp add: core_ok_def)
qed

lemma inst_reset_ok:
  assumes ok: "core_ok lo r q L c" and q: "c_q_tail c \<le> q" "q < c_q_tail c + BUF_SIZE" "lo \<le> r" "r \<le> q"
  shows "\<exists>d. inst_reset (mappedIndex q) c = Inr (set_inst (mappedIndex q) d c) \<and> d = di_reset (getDynamicInst q c)"
proof -
  have "L (Store_list (mappedIndex q)) = []" using not_listed(2) [OF ok q(1,2)] q(4) by simp
  moreover have "rings wait_lists L (c_links c)" using core_okD(4) [OF ok] unfolding regs_ok_def by (intro pf_inv_rings) (rule conjunct2)
  ultimately have "detached (Store_list (mappedIndex q)) (c_links c)" using rings_empty [OF _ list_in_lists(2)] by blast
  then show ?thesis by (simp add: inst_reset_def getDynamicInst_def)
qed

lemma reset_step:
  assumes ok: "core_ok (min lo (Suc q)) (min r (Suc q)) (Suc q) L c" and q: "c_q_tail c \<le> q" "lo \<le> r"
  shows "\<exists>c' L' c''. squash (mappedIndex q) c = Inr c' \<and> inst_reset (mappedIndex q) c' = Inr c'' \<and> core_ok (min lo q) (min r q) q L' c''
    \<and> kept q c c''"
proof -
  have b: "q < c_q_tail c + BUF_SIZE" using core_okD(1) [OF ok] by (simp add: window_ok_def)
  have tl: "c_q_tail c \<le> min lo (Suc q)" using core_okD(1) [OF ok] by (simp add: window_ok_def)
  obtain c' L' where c': "squash (mappedIndex q) c = Inr c'" "core_ok (min lo q) (min r q) q L' c'" "kept q c c'"
  proof (cases "lo \<le> q")
    case True
    then have "core_ok lo (min r (Suc q)) (Suc q) L c" using ok by simp
    from flush_step [OF this True] obtain c' L' where "squash (mappedIndex q) c = Inr c'" "core_ok lo (min (min r (Suc q)) q) q L' c'" "kept q c c'"
      by blast
    moreover have "min (min r (Suc q)) q = min r q" "min lo q = lo" using True by auto
    ultimately show ?thesis using that by metis
  next
    case False
    then have eqs: "min lo (Suc q) = Suc q" "min r (Suc q) = Suc q" "min lo q = q" "min r q = q" using q(2) by auto
    have ok': "core_ok (Suc q) (Suc q) (Suc q) L c" using ok unfolding eqs .
    have "isRetired (getDynamicInst q c)" using core_okD(2) [OF ok'] q(1) by (simp add: insts_ok_def)
    then obtain s where s: "squash (mappedIndex q) c = Inr (with_lsq s (set_inst (mappedIndex q) (cleared (getDynamicInst q c)) c))"
      using squash_idle_ok [OF ok' q(1) b] by auto
    have "kept q c (with_lsq s (set_inst (mappedIndex q) (cleared (getDynamicInst q c)) c))"
      by (rule kept_slot(2) [OF core_okD(1) [OF ok'] q(1) b])
    then show ?thesis using that [OF s] core_ok_shrink [OF ok' q(1) refl] unfolding eqs by blast
  qed
  have t: "c_q_tail c' \<le> q" "q < c_q_tail c' + BUF_SIZE" using c'(3) q b by (simp_all add: kept_def)
  obtain d where d: "inst_reset (mappedIndex q) c' = Inr (set_inst (mappedIndex q) d c')"
    using inst_reset_ok [OF c'(2) t] q(2) by auto
  let ?c = "set_inst (mappedIndex q) d c'"
  have k: "kept q c' ?c" using slots_differ [OF core_okD(1) [OF c'(2)] _ _ t] t by (auto simp: kept_def getDynamicInst_set)
  have lo': "c_q_tail c' \<le> min lo q" using core_okD(1) [OF c'(2)] by (simp add: window_ok_def)
  have same: "getDynamicInst q' ?c = getDynamicInst q' c'" if "min lo q \<le> q'" "q' < min r q" for q'
    using k le_trans [OF lo' that(1)] that(2) by (simp add: kept_def)
  have "window_ok (min lo q) (min r q) q ?c" using core_okD(1) [OF c'(2)] by (simp add: window_ok_def)
  moreover have "insts_ok (min lo q) (min r q) q ?c"
    by (rule insts_ok_kept [OF core_okD(2) [OF c'(2)] k]) (use q lo' in auto)
  moreover have "lists_ok (min lo q) (min r q) L' ?c" by (rule lists_ok_cong [OF core_okD(3) [OF c'(2)] same])
  moreover have "regs_ok (min lo q) (min r q) L' ?c" by (rule regs_ok_cong [OF core_okD(4) [OF c'(2)] _ _ _ same]) simp_all
  ultimately have "core_ok (min lo q) (min r q) q L' ?c" by (simp add: core_ok_def)
  then show ?thesis using c' d kept_trans [OF c'(3) k] by auto
qed

lemma reset_window_ok:
  assumes ok: "core_ok lo (c_q_rename c) (c_q_head c) L c"
  shows "\<exists>c' L'. reset_window c = Inr c' \<and> core_ok (c_q_tail c) (c_q_tail c) (c_q_tail c) L' c' \<and> c_q_tail c' = c_q_tail c
    \<and> c_q_rename c' = c_q_tail c \<and> c_q_head c' = c_q_tail c \<and> c_front_end_map c' = c_retire_map c \<and> c_retire_map c' = c_retire_map c"
proof -
  let ?tail = "c_q_tail c"
  let ?b = "\<lambda>(q, c). q > c_q_tail c"
  let ?f = "\<lambda>(q, c). rbind (squash (mappedIndex (q - 1)) c) (\<lambda>c. rbind (inst_reset (mappedIndex (q - 1)) c) (\<lambda>c. Inr (q - 1, c)))"
  let ?P = "\<lambda>(q, x). ?tail \<le> q \<and> c_q_tail x = ?tail \<and> c_retire_map x = c_retire_map c \<and> (\<exists>L. core_ok (min lo q) (min (c_q_rename c) q) q L x)"
  have W: "?tail \<le> lo" "lo \<le> c_q_rename c" "c_q_rename c \<le> c_q_head c" using core_okD(1) [OF ok] by (simp_all add: window_ok_def)
  then have P: "?P (c_q_head c, c)" using ok by (auto simp: min_absorb1)
  have body: "\<exists>y. ?f x = Inr y \<and> ?P y \<and> fst y < fst x" if Px: "?P x" "?b x" for x
  proof -
    obtain n z where x: "x = (n, z)" by force
    have "n \<noteq> 0" using Px(2) x by auto
    then obtain q where "n = Suc q" by (cases n) auto
    then have n: "n = Suc q" "?tail \<le> q" "c_q_tail z = ?tail" "c_retire_map z = c_retire_map c" using Px x by auto
    have "\<exists>L. core_ok (min lo (Suc q)) (min (c_q_rename c) (Suc q)) (Suc q) L z" using Px(1) x n(1) by auto
    then obtain L where L: "core_ok (min lo (Suc q)) (min (c_q_rename c) (Suc q)) (Suc q) L z" by blast
    obtain c' L' c'' where "squash (mappedIndex q) z = Inr c'" "inst_reset (mappedIndex q) c' = Inr c''"
      "core_ok (min lo q) (min (c_q_rename c) q) q L' c''" "kept q z c''"
      using reset_step [OF L _ W(2)] n by auto
    then show ?thesis using x n by (auto simp: kept_def)
  qed
  have "\<exists>t. rwhile ?b ?f (c_q_head c, c) = Inr t \<and> ?P t \<and> \<not> ?b t"
    by (rule rwhile_total [where P = ?P and m = fst, OF P body])
  then obtain ny where ny: "rwhile ?b ?f (c_q_head c, c) = Inr ny" "?P ny" "\<not> ?b ny" by blast
  obtain n y where "ny = (n, y)" by force
  note t = ny [unfolded this]
  then have n: "n = ?tail" "c_q_tail y = ?tail" "c_retire_map y = c_retire_map c" by auto
  have "min lo ?tail = ?tail" "min (c_q_rename c) ?tail = ?tail" using W by auto
  moreover have "\<exists>L. core_ok (min lo n) (min (c_q_rename c) n) n L y" using t(2) by simp
  ultimately obtain L' where L': "core_ok ?tail ?tail ?tail L' y" unfolding n(1) by auto
  let ?y = "y\<lparr>c_q_head := c_q_tail y, c_q_rename := c_q_tail y, c_q_execute := c_q_tail y, c_q_retire := c_q_tail y, c_q_oldest_bad := None\<rparr>"
  have "core_ok ?tail ?tail ?tail L' ?y" by (rule core_ok_cong [OF L']) simp_all
  moreover have "c_front_end_map y = c_retire_map c" using core_okD(4) [OF L'] n(3) by (simp add: regs_ok_def)
  moreover have "reset_window c = Inr ?y" using t(1) by (simp add: reset_window_def)
  ultimately show ?thesis using n by auto
qed

end
