(* ===== verification/WindowSteps.thy ===== *)
theory WindowSteps
  imports WindowFlush
begin

text \<open>
  The other operations of the window keep its invariant: placing the micro-operations of an instruction, renaming the next
  one, committing the oldest ones, and whatever execution does in between.
\<close>

section \<open>Execution\<close>

text \<open>
  What scheduling and executing instructions may change: of an instruction in the window anything but its operation and
  its registers, and its stage only between renaming and retirement; of the register file the values and the wait lists.
\<close>

definition exec_from :: "dynamic_inst \<Rightarrow> dynamic_inst \<Rightarrow> bool" where
  "exec_from d d' \<longleftrightarrow> di_trans_op d' = di_trans_op d \<and> di_q_ptr d' = di_q_ptr d \<and> (isRenamed d' \<longleftrightarrow> isRenamed d) \<and> (isRetired d' \<longleftrightarrow> isRetired d)
     \<and> (isRenamed d \<or> di_executed d' = di_executed d)
     \<and> di_ra_preg d' = di_ra_preg d \<and> di_rb_preg d' = di_rb_preg d \<and> di_rc_preg d' = di_rc_preg d \<and> di_rd_preg d' = di_rd_preg d
     \<and> di_rd_preg_old d' = di_rd_preg_old d \<and> di_rof_preg_old d' = di_rof_preg_old d \<and> di_rcf_preg_old d' = di_rcf_preg_old d
     \<and> di_rzapsf_preg_old d' = di_rzapsf_preg_old d"

lemma not_renamed: "\<not> isRenamed d \<longleftrightarrow> di_stage d = FETCH_STAGE"
  by (cases "di_stage d") (simp_all add: isRenamed_def stage_order)

lemma exec_from_regs:
  assumes "exec_from d d'"
  shows "writes d' = writes d" "srcs d' = srcs d" "olds d' = olds d" "di_rd_preg d' = di_rd_preg d" "has_regs d' \<longleftrightarrow> has_regs d"
    "flying d' \<longleftrightarrow> flying d" "op_ok m d' \<longleftrightarrow> op_ok m d" "remap d' m = remap d m"
proof -
  show w: "writes d' = writes d" "srcs d' = srcs d" "di_rd_preg d' = di_rd_preg d"
    using assms by (simp_all add: exec_from_def writes_def srcs_def)
  then show "olds d' = olds d" "has_regs d' \<longleftrightarrow> has_regs d" "remap d' m = remap d m"
    using assms by (simp_all add: olds_def has_regs_def remap_def exec_from_def)
  then show "flying d' \<longleftrightarrow> flying d" using assms by (simp add: flying_def exec_from_def)
  show "op_ok m d' \<longleftrightarrow> op_ok m d" using assms by (simp add: exec_from_def)
qed

lemma exec_from_fetched: "exec_from d d' \<Longrightarrow> fetched d \<Longrightarrow> fetched d'"
  by (auto simp: exec_from_def fetched_def blank_def not_renamed [symmetric])

lemma exec_from_refl [simp]: "exec_from d d"
  by (simp add: exec_from_def)

lemma exec_from_trans: "exec_from d d' \<Longrightarrow> exec_from d' d'' \<Longrightarrow> exec_from d d''"
  by (auto simp: exec_from_def)

definition executes :: "core \<Rightarrow> core \<Rightarrow> bool" where
  "executes c c' \<longleftrightarrow> c_front_end_map c' = c_front_end_map c \<and> c_retire_map c' = c_retire_map c \<and> c_q_head c' = c_q_head c
     \<and> c_q_tail c' = c_q_tail c \<and> c_q_rename c' = c_q_rename c \<and> length (c_inst_buffer c') = length (c_inst_buffer c)
     \<and> (\<forall>q. c_q_tail c \<le> q \<and> q < c_q_head c \<longrightarrow> exec_from (getDynamicInst q c) (getDynamicInst q c'))
     \<and> pf_ref_counts (c_physical_file c') = pf_ref_counts (c_physical_file c) \<and> pf_free_list (c_physical_file c') = pf_free_list (c_physical_file c)
     \<and> length (pf_values (c_physical_file c')) = length (pf_values (c_physical_file c)) \<and> lengths_ok (c_physical_file c')
     \<and> (\<forall>p. 0 \<le> p \<and> p < num_regs (c_physical_file c) \<and> pf_ref_counts (c_physical_file c) ! nat p = 0 \<longrightarrow> \<not> pf_ready (c_physical_file c') ! nat p)"

lemma chain_cong: "list_all2 exec_from ds es \<Longrightarrow> chain es m m' = chain ds m m'"
proof (induction ds es arbitrary: m rule: list_all2_induct)
  case (Cons d ds e es)
  then show ?case using exec_from_regs [OF Cons(1)] by simp
qed simp

lemma all_cong: "list_all2 exec_from ds es \<Longrightarrow> all_held es = all_held ds \<and> all_srcs es = all_srcs ds"
  by (induction ds es rule: list_all2_induct) (simp_all add: exec_from_regs(2,3))

lemma counts_nonzero:
  assumes "pf_inv A X Y L pf" "0 \<le> p" "p < num_regs pf"
  shows "pf_ref_counts pf ! nat p = 0 \<longleftrightarrow> p \<notin># X"
  using assms by (simp add: pf_inv_def counts_ok_def not_in_iff)

lemma executes_ok:
  assumes ok: "core_ok lo r (c_q_head c) L c" and ex: "executes c c'" and L': "lists_ok lo r L' c'" "rings wait_lists L' (c_links c')"
  shows "core_ok lo r (c_q_head c') L' c'"
proof -
  note W = core_okD(1) [OF ok, unfolded window_ok_def] note I = core_okD(2) [OF ok] note R = core_okD(4) [OF ok, unfolded regs_ok_def]
  note E = ex [unfolded executes_def]
  have each: "exec_from (getDynamicInst q c) (getDynamicInst q c')" if "c_q_tail c \<le> q" "q < c_q_head c" for q using E that by blast
  let ?pf = "c_physical_file c" let ?pf' = "c_physical_file c'"
  let ?X = "mregs (c_front_end_map c) + (mregs (c_retire_map c) + all_held (flight lo r c))"
  have fl: "list_all2 exec_from (flight lo r c) (flight lo r c')" using each W by (auto simp: list_all2_conv_all_nth)
  have "window_ok lo r (c_q_head c') c'" using W E by (simp add: window_ok_def)
  moreover have "insts_ok lo r (c_q_head c') c'"
  proof -
    have eqs: "c_q_tail c' = c_q_tail c" "c_q_head c' = c_q_head c" "c_retire_map c' = c_retire_map c" using E by simp_all
    have tl: "c_q_tail c \<le> lo" "lo \<le> r" "r \<le> c_q_head c" using W by simp_all
    show ?thesis
      unfolding insts_ok_def eqs
    proof (intro conjI allI impI)
      fix q
      show "isRetired (getDynamicInst q c')" if "c_q_tail c \<le> q \<and> q < lo"
        using that each [of q] I tl by (simp add: insts_ok_def exec_from_def)
      show "flying (getDynamicInst q c')" if "lo \<le> q \<and> q < r"
        using that exec_from_regs(6) [OF each [of q]] I tl by (simp add: insts_ok_def)
      show "fetched (getDynamicInst q c')" if "r \<le> q \<and> q < c_q_head c"
        using that exec_from_fetched [OF each [of q]] I tl by (simp add: insts_ok_def)
      show "di_q_ptr (getDynamicInst q c') = q" if "lo \<le> q \<and> q < c_q_head c"
        using that each [of q] I tl by (simp add: insts_ok_def exec_from_def)
      show "op_ok (c_retire_map c) (getDynamicInst q c')" if "lo \<le> q \<and> q < c_q_head c"
        using that exec_from_regs(7) [OF each [of q]] I tl by (simp add: insts_ok_def)
    qed
  qed
  moreover have "regs_ok lo r L' c'"
  proof -
    have inv: "pf_inv {} ?X (all_srcs (flight lo r c)) L ?pf" using R by blast
    have "free_ok {} ?X ?pf'" using pf_invD(3) [OF inv] E counts_nonzero [OF inv] by (auto simp: free_ok_def)
    moreover have "counts_ok ?X ?pf'" "names_ok {} ?X ?pf'" using pf_invD(2,4) [OF inv] E by (simp_all add: counts_ok_def names_ok_def)
    moreover have "waits_ok ?X (all_srcs (flight lo r c)) L' ?pf'"
      unfolding waits_ok_def
    proof (intro conjI allI impI)
      show "all_srcs (flight lo r c) \<subseteq># ?X" using pf_invD(5) [OF inv] by (simp add: waits_ok_def)
      show "rings wait_lists L' (pf_links ?pf')" by (rule L'(2))
      fix p assume "L' (Register_list p) \<noteq> []"
      from lists_ok_reg [OF L'(1) hd_in_set [OF this]] obtain q where q: "lo \<le> q" "q < r" "int p \<in># srcs (getDynamicInst q c')" by blast
      moreover have "srcs (getDynamicInst q c') = srcs (getDynamicInst q c)" using exec_from_regs(2) [OF each [of q]] q W by simp
      ultimately show "int p \<in># all_srcs (flight lo r c)" using srcs_in_all [of "getDynamicInst q c"] by simp
    qed
    ultimately have "pf_inv {} ?X (all_srcs (flight lo r c)) L' ?pf'" using E by (simp add: pf_inv_def)
    then show ?thesis using R chain_cong [OF fl] all_cong [OF fl] E by (simp add: regs_ok_def)
  qed
  ultimately show ?thesis using L'(1) by (simp add: core_ok_def)
qed

text \<open>The case of one instruction.\<close>

lemma executes_set:
  assumes ok: "core_ok lo r (c_q_head c) L c" and q: "c_q_tail c \<le> q" "q < c_q_head c" and d: "exec_from (getDynamicInst q c) d"
  shows "executes c (set_inst (mappedIndex q) d c)"
proof -
  note W = core_okD(1) [OF ok]
  have inv: "pf_inv {} (mregs (c_front_end_map c) + (mregs (c_retire_map c) + all_held (flight lo r c))) (all_srcs (flight lo r c)) L (c_physical_file c)"
    using core_okD(4) [OF ok] by (simp add: regs_ok_def)
  have "exec_from (getDynamicInst q' c) (getDynamicInst q' (set_inst (mappedIndex q) d c))" if "c_q_tail c \<le> q'" "q' < c_q_head c" for q'
    using slots_differ [OF W, of q' q] that q d W by (cases "q' = q") (auto simp: getDynamicInst_set window_ok_def)
  moreover have "\<not> pf_ready (c_physical_file c) ! nat p" if "0 \<le> p" "p < num_regs (c_physical_file c)" "pf_ref_counts (c_physical_file c) ! nat p = 0" for p
    using counts_nonzero [OF inv] pf_invD(3) [OF inv] that by (simp add: free_ok_def)
  ultimately show ?thesis using pf_invD(1) [OF inv] by (simp add: executes_def)
qed

section \<open>Placing micro-operations\<close>

lemma core_ok_extend:
  assumes ok: "core_ok lo r h L c" and h: "h < c_q_tail c + BUF_SIZE" and d: "fetched d" "di_q_ptr d = h" "op_ok (c_retire_map c) d"
  shows "core_ok lo r (Suc h) L (set_inst (mappedIndex h) d c)" "kept h c (set_inst (mappedIndex h) d c)"
proof -
  let ?c = "set_inst (mappedIndex h) d c"
  note W = core_okD(1) [OF ok]
  have b: "c_q_tail c \<le> lo" "lo \<le> r" "r \<le> h" using W by (simp_all add: window_ok_def)
  have k: "mappedIndex h < length (c_inst_buffer c)" using W mappedIndex_less by (simp add: window_ok_def)
  show kept: "kept h c ?c" using slots_differ [OF W, of _ h] b h by (auto simp: kept_def getDynamicInst_set)
  then have same: "getDynamicInst q ?c = getDynamicInst q c" if "c_q_tail c \<le> q" "q < h" for q using that by (simp add: kept_def)
  have same': "getDynamicInst q ?c = getDynamicInst q c" if "lo \<le> q" "q < r" for q using same that b by simp
  have here: "getDynamicInst h ?c = d" using k by (simp add: getDynamicInst_set)
  have "window_ok lo r (Suc h) ?c" using W h b by (simp add: window_ok_def)
  moreover have "insts_ok lo r (Suc h) ?c"
  proof -
    have "getDynamicInst q ?c = (if q = h then d else getDynamicInst q c)" if "c_q_tail c \<le> q" "q < Suc h" for q
      using same that here by (cases "q = h") simp_all
    then show ?thesis using core_okD(2) [OF ok] d b unfolding insts_ok_def by simp
  qed
  moreover have "lists_ok lo r L ?c" by (rule lists_ok_cong [OF core_okD(3) [OF ok] same'])
  moreover have "regs_ok lo r L ?c" by (rule regs_ok_cong [OF core_okD(4) [OF ok] _ _ _ same']) simp_all
  ultimately show "core_ok lo r (Suc h) L ?c" by (simp add: core_ok_def)
qed

lemma place_uop_ok:
  assumes ok: "core_ok lo r h L c" and h: "h < c_q_tail c + BUF_SIZE" and t: "uop_ok (c_retire_map c) t"
  shows "\<exists>c'. place_uop latency rip h t c = Inr c' \<and> core_ok lo r (Suc h) L c' \<and> kept h c c' \<and> di_trans_op (getDynamicInst h c') = t"
proof -
  let ?k = "mappedIndex h"
  note W = core_okD(1) [OF ok]
  have b: "c_q_tail c \<le> h" "lo \<le> r" "r \<le> h" using W by (simp_all add: window_ok_def)
  have k: "?k < length (c_inst_buffer c)" using W mappedIndex_less by (simp add: window_ok_def)
  have r: "inst_reset ?k c = Inr (set_inst ?k (di_reset (getDynamicInst h c)) c)" using inst_reset_ok [OF ok b(1) h b(2,3)] by blast
  define d' where "d' = (di_reset (getDynamicInst h c))\<lparr>di_trans_op := t, di_rip := rip, di_q_ptr := h,
    di_latency := (if isload (t_opcode t) then latency else 1), di_stage := FETCH_STAGE\<rparr>"
  have i: "inst_init t rip h (if isload (t_opcode t) then latency else 1) ?k c
      = Inr (set_inst ?k (d'\<lparr>di_stage := di_stage (di_reset (getDynamicInst h c))\<rparr>) c)"
    using k by (simp add: inst_init_def r the_set_inst d'_def)
  have d: "fetched d'" "di_q_ptr d' = h" "op_ok (c_retire_map c) d'" "di_mem_operand d' = dw_clear"
    using t by (simp_all add: d'_def fetched_def blank_def di_reset_def)
  have rings: "rings wait_lists L (c_links c)" using core_okD(4) [OF ok] unfolding regs_ok_def by (intro pf_inv_rings) (rule conjunct2)
  have "Inst ?k \<notin> set (L l)" if "l \<in> wait_lists" for l using not_listed(1) [OF ok b(1) h _ that] b by simp
  then have det: "detached (Inst ?k) (c_links c)" using rings_detached [OF rings list_in_lists(5)] by blast
  have "place_uop latency rip h t c = Inr (set_inst ?k d' c)"
    using k det by (simp add: place_uop_def i setStage_def the_set_inst Let_def d(4) isClear_def dw_clear_def) (simp add: d'_def)
  then show ?thesis using core_ok_extend [OF ok h d(1-3)] k by (simp add: getDynamicInst_set) (simp add: d'_def)
qed

text \<open>A change of an instruction in place.\<close>

lemma core_ok_touch:
  assumes ok: "core_ok lo r h L c" and q: "c_q_tail c \<le> q" "q < h" and d: "exec_from (getDynamicInst q c) d" "di_stage d = di_stage (getDynamicInst q c)"
  shows "core_ok lo r h L (set_inst (mappedIndex q) d c)"
proof -
  let ?h = "c\<lparr>c_q_head := h\<rparr>"
  have h: "core_ok lo r (c_q_head ?h) L ?h" by (rule core_ok_cong) (use ok in simp_all)
  have g: "getDynamicInst q' ?h = getDynamicInst q' c" for q' by (simp add: getDynamicInst_def the_inst_def)
  have ex: "executes ?h (set_inst (mappedIndex q) d ?h)" using executes_set [OF h] q d(1) by (simp add: g)
  note W = core_okD(1) [OF ok]
  have same: "di_stage (getDynamicInst q' (set_inst (mappedIndex q) d ?h)) = di_stage (getDynamicInst q' ?h)
      \<and> srcs (getDynamicInst q' (set_inst (mappedIndex q) d ?h)) = srcs (getDynamicInst q' ?h)" if "lo \<le> q'" "q' < r" for q'
    using slots_differ [OF W, of q' q] that q d exec_from_regs(2) [OF d(1)] W
    by (cases "q' = q") (auto simp: getDynamicInst_set g window_ok_def)
  have "rings wait_lists L (c_links c)" using core_okD(4) [OF ok] unfolding regs_ok_def by (intro pf_inv_rings) (rule conjunct2)
  then have "core_ok lo r (c_q_head (set_inst (mappedIndex q) d ?h)) L (set_inst (mappedIndex q) d ?h)"
    using executes_ok [OF h ex lists_ok_cong_stage [OF core_okD(3) [OF h] same]] by simp
  then have "core_ok lo r h L (set_inst (mappedIndex q) d ?h)" by simp
  then show ?thesis by (rule core_ok_cong) (simp_all add: set_inst_def)
qed

lemma place_uops_ok:
  assumes ok: "core_ok lo r (c_q_head c) L c" and n: "uops \<noteq> []" "length uops \<le> MAX_TRANSOPS_PER_USER_INSN" "c_q_head c + length uops \<le> c_q_tail c + BUF_SIZE"
    and uops: "\<forall>t \<in> set uops. uop_ok (c_retire_map c) t" "\<forall>i < length uops. isbranch (t_opcode (uops ! i)) \<longrightarrow> Suc i = length uops"
  shows "\<exists>c'. place_uops latency rip uops c = Inr c' \<and> core_ok lo r (c_q_head c + length uops) L c' \<and> c_q_head c' = c_q_head c
    \<and> c_q_rename c' = c_q_rename c \<and> c_q_tail c' = c_q_tail c \<and> c_retire_map c' = c_retire_map c
    \<and> (\<forall>i < length uops. di_trans_op (getDynamicInst (c_q_head c + i) c') = uops ! i)"
proof -
  let ?n = "length uops" and ?head = "c_q_head c"
  let ?f = "\<lambda>i c. check (\<not> isbranch (t_opcode (uops ! i)) \<or> Suc i = ?n) Assert_failed (place_uop latency rip (?head + i) (uops ! i) c)"
  have loop: "\<exists>x. rfold ?f [0..<m] c = Inr x \<and> core_ok lo r (?head + m) L x \<and> kept ?head c x
      \<and> (\<forall>i < m. di_trans_op (getDynamicInst (?head + i) x) = uops ! i)" if "m \<le> ?n" for m
    using that
  proof (induction m)
    case 0
    then show ?case using ok by simp
  next
    case (Suc m)
    then obtain x where x: "rfold ?f [0..<m] c = Inr x" "core_ok lo r (?head + m) L x" "kept ?head c x"
      "\<forall>i < m. di_trans_op (getDynamicInst (?head + i) x) = uops ! i" by auto
    have "?head + m < c_q_tail x + BUF_SIZE" using n(3) Suc.prems x(3) by (simp add: kept_def)
    moreover have "uop_ok (c_retire_map x) (uops ! m)" using uops(1) x(3) Suc.prems by (simp add: kept_def)
    ultimately obtain y where y: "place_uop latency rip (?head + m) (uops ! m) x = Inr y" "core_ok lo r (Suc (?head + m)) L y" "kept (?head + m) x y"
      "di_trans_op (getDynamicInst (?head + m) y) = uops ! m"
      using place_uop_ok [OF x(2)] by blast
    have tx: "c_q_tail x \<le> ?head" using core_okD(1) [OF ok] x(3) by (simp add: window_ok_def kept_def)
    have "di_trans_op (getDynamicInst (?head + i) y) = uops ! i" if "i < Suc m" for i
      using that x(4) y(3,4) tx by (cases "i = m") (simp_all add: kept_def)
    have "rfold ?f [0..<Suc m] c = Inr y" using x(1) y(1) uops(2) Suc.prems by (simp add: rfold_append)
    moreover have "kept ?head c y" using kept_trans [OF x(3) kept_less [OF y(3)]] by simp
    ultimately show ?case using y(2) \<open>\<And>i. i < Suc m \<Longrightarrow> di_trans_op (getDynamicInst (?head + i) y) = uops ! i\<close> by auto
  qed
  obtain x where x: "rfold ?f [0..<?n] c = Inr x" "core_ok lo r (?head + ?n) L x" "kept ?head c x"
    "\<forall>i < ?n. di_trans_op (getDynamicInst (?head + i) x) = uops ! i" using loop [of ?n] by blast
  have t: "c_q_tail x \<le> ?head" using core_okD(1) [OF ok] x(3) by (simp add: window_ok_def kept_def)
  let ?y = "setStartsX86Op (mappedIndex ?head) x"
  have y: "core_ok lo r (?head + ?n) L ?y"
    using core_ok_touch [OF x(2) t] n(1) unfolding setStartsX86Op_def
    by (simp add: exec_from_def getDynamicInst_def isRenamed_def isRetired_def)
  have p: "prev_ptr (?head + ?n) < ?head + ?n" "?head \<le> prev_ptr (?head + ?n)" using n(1) by (auto simp: prev_ptr_def) (cases uops; simp)
  let ?z = "setEndsX86Op True (mappedIndex (prev_ptr (?head + ?n))) ?y"
  have t': "c_q_tail ?y \<le> prev_ptr (?head + ?n)" using t p by (simp add: setStartsX86Op_def)
  have "core_ok lo r (?head + ?n) L ?z"
    using core_ok_touch [OF y t' p(1)] unfolding setEndsX86Op_def
    by (simp add: exec_from_def getDynamicInst_def isRenamed_def isRetired_def)
  moreover have "place_uops latency rip uops c = Inr ?z" using x(1) n(2) by (simp add: place_uops_def Let_def)
  moreover have "di_trans_op (getDynamicInst q ?z) = di_trans_op (getDynamicInst q x)" for q
    by (simp add: setStartsX86Op_def setEndsX86Op_def getDynamicInst_def the_set_inst)
  ultimately show ?thesis using x(3,4) by (intro exI [of _ ?z]) (simp add: kept_def setStartsX86Op_def setEndsX86Op_def)
qed

section \<open>Renaming the next instruction\<close>

text \<open>The renamed instruction joins the chain; its references are the ones that the register file now counts.\<close>

lemma core_ok_join:
  assumes ok: "core_ok lo q h L c" and q: "q < h" and d: "flying d" "di_q_ptr d = q" "di_trans_op d = di_trans_op (getDynamicInst q c)"
    and m: "fits (di_rd_preg d) (writes d) (c_front_end_map c)" "c_front_end_map c' = remap d (c_front_end_map c)"
    and inv: "pf_inv {} (mregs (c_front_end_map c') + (held d + (mregs (c_retire_map c) + all_held (flight lo q c)))) (all_srcs (flight lo q c)) L (c_physical_file c')"
    and c': "c_inst_buffer c' = (c_inst_buffer c)[mappedIndex q := d]" "c_retire_map c' = c_retire_map c" "c_q_tail c' = c_q_tail c"
  shows "core_ok lo (Suc q) h L c'"
proof -
  note W = core_okD(1) [OF ok, unfolded window_ok_def] note R = core_okD(4) [OF ok, unfolded regs_ok_def]
  have k: "mappedIndex q < length (c_inst_buffer c)" using W mappedIndex_less by simp
  have g: "getDynamicInst q' c' = getDynamicInst q' (set_inst (mappedIndex q) d c)" for q'
    by (simp add: getDynamicInst_def the_inst_def c'(1) set_inst_def)
  have b: "c_q_tail c \<le> lo" "lo \<le> q" "h \<le> c_q_tail c + BUF_SIZE" using W by simp_all
  have eq: "getDynamicInst q' c' = (if q' = q then d else getDynamicInst q' c)" if "c_q_tail c \<le> q'" "q' < h" for q'
    using slots_differ [OF core_okD(1) [OF ok], of q' q] that q b k by (auto simp: g getDynamicInst_set)
  have same: "getDynamicInst q' c' = getDynamicInst q' c" if "lo \<le> q'" "q' < q" for q' using eq that b q by simp
  have fl: "flight lo (Suc q) c' = flight lo q c @ [d]" using flight_cong [OF same, of lo q] b q eq [of q] by (simp del: map_eq_conv)
  have "window_ok lo (Suc q) h c'" using W q c' by (simp add: window_ok_def)
  moreover have "insts_ok lo (Suc q) h c'"
    using core_okD(2) [OF ok] d q b eq unfolding insts_ok_def c' by simp
  moreover have "lists_ok lo (Suc q) L c'"
  proof -
    have "lists_ok lo q L c'" by (rule lists_ok_cong [OF core_okD(3) [OF ok] same])
    then show ?thesis unfolding lists_ok_def by (meson less_SucI)
  qed
  moreover have "regs_ok lo (Suc q) L c'"
  proof -
    have "pf_inv {} (mregs (c_front_end_map c') + (mregs (c_retire_map c) + all_held (flight lo q c @ [d]))) (all_srcs (flight lo q c)) L (c_physical_file c')"
      using inv by (simp add: ac_simps)
    moreover have "all_srcs (flight lo q c @ [d]) \<subseteq># mregs (c_front_end_map c') + (mregs (c_retire_map c) + all_held (flight lo q c @ [d]))"
      by (intro subset_add(2) all_srcs_held)
    moreover have "int p \<in># all_srcs (flight lo q c @ [d])" if "L (Register_list p) \<noteq> []" for p
      using that pf_invD(5) [OF inv] by (simp add: waits_ok_def)
    ultimately have "pf_inv {} (mregs (c_front_end_map c') + (mregs (c_retire_map c) + all_held (flight lo q c @ [d])))
        (all_srcs (flight lo q c @ [d])) L ((c_physical_file c')\<lparr>pf_links := c_links c'\<rparr>)"
      using pf_inv_rings [OF inv] by (intro pf_inv_relist)
    then have "pf_inv {} (mregs (c_front_end_map c') + (mregs (c_retire_map c) + all_held (flight lo q c @ [d])))
        (all_srcs (flight lo q c @ [d])) L (c_physical_file c')" by simp
    moreover have "chain (flight lo q c @ [d]) (c_retire_map c) (c_front_end_map c')" using R m by (auto simp: chain_append)
    ultimately show ?thesis unfolding regs_ok_def fl c'(2) by blast
  qed
  ultimately show ?thesis by (simp add: core_ok_def)
qed

lemma rename_next_ok:
  assumes ok: "core_ok lo (c_q_rename c) (c_q_head c) L c" and ready: "ready \<le> c_q_head c"
  shows "\<exists>go_on n c'. rename_next ready c = Inr (go_on, n, c') \<and> core_ok lo (c_q_rename c') (c_q_head c') L c' \<and> c_q_head c' = c_q_head c
    \<and> c_q_tail c' = c_q_tail c \<and> c_retire_map c' = c_retire_map c \<and> (go_on \<longrightarrow> c_q_rename c < ready \<and> c_q_rename c' = Suc (c_q_rename c))
    \<and> (c_q_rename c < ready \<and> uopIsLegal (getDynamicInst (c_q_rename c) c) \<longrightarrow> go_on)
    \<and> c_q_rename c \<le> c_q_rename c'"
proof (cases "c_q_rename c < ready")
  case False
  then show ?thesis using ok by (intro exI [of _ False]) (simp add: rename_next_def)
next
  case True
  let ?q = "c_q_rename c" let ?k = "mappedIndex ?q"
  define d where "d = getDynamicInst ?q c"
  have q: "?q < c_q_head c" using True ready by simp
  note W = core_okD(1) [OF ok, unfolded window_ok_def] note R = core_okD(4) [OF ok, unfolded regs_ok_def]
  have k: "?k < length (c_inst_buffer c)" using W mappedIndex_less by simp
  have the: "the_inst ?k c = d" by (simp add: d_def getDynamicInst_def)
  have I: "fetched d" "di_q_ptr d = ?q" "op_ok (c_retire_map c) d" using core_okD(2) [OF ok] q W by (simp_all add: insts_ok_def d_def)
  let ?R = "mregs (c_retire_map c) + all_held (flight lo ?q c)" and ?Y = "all_srcs (flight lo ?q c)"
  have inv: "pf_inv {} (mregs (c_front_end_map c) + ?R) ?Y L (c_physical_file c)" using R by blast
  consider "\<not> uopIsLegal d" | "uopIsLegal d" "getOpcode d = OP_nop" | "uopIsLegal d" "getOpcode d \<noteq> OP_nop" by blast
  then show ?thesis
  proof cases
    case 1
    have "core_ok lo ?q (c_q_head c) L (setOldestBad ?q c)" by (rule core_ok_cong [OF ok]) (simp_all add: setOldestBad_def)
    then show ?thesis using 1 True q by (intro exI [of _ False]) (simp add: rename_next_def the setOldestBad_def Let_def d_def [symmetric])
  next
    case 2
    define d' where "d' = d\<lparr>di_executed := True, di_stage := COMPLETE_STAGE\<rparr>"
    let ?c = "(completeAtDecode ?k c)\<lparr>c_q_rename := ?q + 1\<rparr>"
    have bl: "blank d'" using I(1) by (simp add: fetched_def blank_def d'_def)
    have e: "writes d' = []" "held d' = {#}" "di_trans_op d' = di_trans_op d" "di_q_ptr d' = ?q"
      using blank_held [OF bl] I(2) by (simp_all add: d'_def)
    have fl: "flying d'" using e(1) by (simp add: flying_def has_regs_def) (simp add: d'_def isRenamed_def isRetired_def stage_order)
    have "core_ok lo (Suc ?q) (c_q_head c) L ?c"
      by (rule core_ok_join [OF ok q fl e(4)])
        (use e inv in \<open>simp_all add: d_def remap_def completeAtDecode_def the d'_def set_inst_def\<close>)
    then show ?thesis using 2 True q by (intro exI [of _ True]) (simp add: rename_next_def the completeAtDecode_def Let_def)
  next
    case 3
    have fc: "flags_mapped (c_front_end_map c)" using same_slots_flags [OF front_slots [OF ok]] W by simp
    have lg: "legal_uop (c_front_end_map c) (di_trans_op d)"
      using 3 I(3) same_slots_legal [OF front_slots [OF ok]] by (simp add: uop_ok_def uopIsLegal_def)
    have Y: "?Y \<subseteq># ?R" by (rule subset_add(2) [OF all_srcs_held])
    have F: "di_stage d = FETCH_STAGE" "\<not> di_executed d" "blank d" using I(1) by (simp_all add: fetched_def)
    have c: "with_regs (c_front_end_map c) (c_physical_file c) c = c" by (simp add: with_regs_def)
    obtain d' pf' where r: "rename ?k c = Inr (set_inst ?k d' (with_regs (remap d' (c_front_end_map c)) pf' c))"
      "renamed_from d d'" "writes d' \<noteq> [] \<longrightarrow> 0 \<le> di_rd_preg d' \<and> t_rd (di_trans_op d) \<noteq> REG_rip"
      "fits (di_rd_preg d') (writes d') (c_front_end_map c)"
      "pf_inv {} (mregs (remap d' (c_front_end_map c)) + (held d' + ?R)) ?Y L pf'"
      using rename_ok [OF inv Y fc lg the F] unfolding c by blast
    let ?c = "(set_inst ?k d' (with_regs (remap d' (c_front_end_map c)) pf' c))\<lparr>c_q_rename := ?q + 1\<rparr>"
    have e: "di_trans_op d' = di_trans_op (getDynamicInst ?q c)" "di_q_ptr d' = ?q" "flying d'"
      using r(2,3) I(2) by (simp_all add: renamed_from_def d_def flying_def has_regs_def isRenamed_def isRetired_def stage_order)
    have "core_ok lo (Suc ?q) (c_q_head c) L ?c"
      by (rule core_ok_join [OF ok q e(3,2,1) r(4)]) (use r(5) in \<open>simp_all add: set_inst_def with_regs_def\<close>)
    then show ?thesis using 3 True q r(1) by (intro exI [of _ True]) (simp add: rename_next_def the Let_def with_regs_def set_inst_def)
  qed
qed

lemma rename_window_ok:
  assumes ok: "core_ok lo (c_q_rename c) (c_q_head c) L c" and ready: "fetched_to \<le> c_q_head c"
  shows "\<exists>c'. rename_window width rob_size fetched_to c = Inr c' \<and> core_ok lo (c_q_rename c') (c_q_head c') L c' \<and> c_q_head c' = c_q_head c
    \<and> c_q_tail c' = c_q_tail c \<and> c_retire_map c' = c_retire_map c
    \<and> (0 < width \<and> c_q_rename c < fetched_to \<and> c_q_rename c < c_q_tail c + rob_size \<and> uopIsLegal (getDynamicInst (c_q_rename c) c)
        \<longrightarrow> c_q_rename c < c_q_rename c')"
proof -
  define ready where "ready = min fetched_to (c_q_tail c + rob_size)"
  let ?go = "c_q_rename c < ready \<and> uopIsLegal (getDynamicInst (c_q_rename c) c)"
  let ?P = "\<lambda>(go_on, i, x). (go_on \<and> i = 0 \<and> x = c \<or> c_q_rename c < c_q_rename x \<or> \<not> ?go) \<and> core_ok lo (c_q_rename x) (c_q_head x) L x \<and> c_q_head x = c_q_head c \<and> c_q_tail x = c_q_tail c \<and> c_retire_map x = c_retire_map c"
  let ?b = "\<lambda>(go_on, i, x). go_on \<and> i < width"
  let ?f = "\<lambda>(_, i, c). rbind (rename_next ready c) (\<lambda>(go_on, n, c). Inr (go_on, i + n, c))"
  let ?m = "\<lambda>(go_on, i, x). (if go_on then Suc (ready - c_q_rename x) else 0)"
  have P: "?P (True, 0, c)" using ok by simp
  have body: "\<exists>y. ?f x = Inr y \<and> ?P y \<and> ?m y < ?m x" if Px: "?P x" "?b x" for x
  proof -
    obtain g i z where x: "x = (g, i, z)" by (cases x) auto
    have z: "core_ok lo (c_q_rename z) (c_q_head z) L z" "c_q_head z = c_q_head c" "c_q_tail z = c_q_tail c" "g" "c_retire_map z = c_retire_map c"
      "i = 0 \<and> z = c \<or> c_q_rename c < c_q_rename z \<or> \<not> ?go" using Px x by auto
    have "ready \<le> c_q_head z" using assms(2) z(2) by (simp add: ready_def)
    from rename_next_ok [OF z(1) this] obtain g' n c' where c': "rename_next ready z = Inr (g', n, c')" "core_ok lo (c_q_rename c') (c_q_head c') L c'"
      "c_q_head c' = c_q_head z" "c_q_tail c' = c_q_tail z" "g' \<longrightarrow> c_q_rename z < ready \<and> c_q_rename c' = Suc (c_q_rename z)"
      "c_q_rename z < ready \<and> uopIsLegal (getDynamicInst (c_q_rename z) z) \<longrightarrow> g'" "c_q_rename z \<le> c_q_rename c'"
      "c_retire_map c' = c_retire_map z" by blast
    have "c_q_rename c < c_q_rename c' \<or> \<not> ?go" using z(6) c'(5,6,7) by auto
    then show ?thesis using x z(4,5) c'(1-5,8) z(2,3) by auto
  qed
  have "\<exists>t. rwhile ?b ?f (True, 0, c) = Inr t \<and> ?P t \<and> \<not> ?b t" by (rule rwhile_total [where P = ?P and m = ?m, OF P body])
  then obtain g i x where x: "rwhile ?b ?f (True, 0, c) = Inr (g, i, x)" "?P (g, i, x)" "\<not> ?b (g, i, x)" by auto
  have "0 < width \<and> ?go \<longrightarrow> c_q_rename c < c_q_rename x" using x(2,3) by auto
  then show ?thesis using x(1,2) by (intro exI [of _ x]) (auto simp: rename_window_def ready_def)
qed

section \<open>Committing\<close>

text \<open>The oldest instruction leaves the chain at its front: the retirement map takes its writes over.\<close>

lemma commit_first_ok:
  assumes ok: "core_ok lo r h L c" and lo: "lo < r" and d: "di_stage (getDynamicInst lo c) = COMPLETE_STAGE" "di_executed (getDynamicInst lo c)"
  shows "\<exists>c'. commit (mappedIndex lo) c = Inr c' \<and> core_ok (Suc lo) r h L c' \<and> c_retire_map c' = remap (getDynamicInst lo c) (c_retire_map c)
    \<and> c_front_end_map c' = c_front_end_map c \<and> c_q_tail c' = c_q_tail c \<and> c_q_head c' = c_q_head c \<and> c_q_rename c' = c_q_rename c
    \<and> (\<forall>q. lo < q \<and> q < r \<longrightarrow> getDynamicInst q c' = getDynamicInst q c)"
proof -
  let ?k = "mappedIndex lo" let ?m = "c_retire_map c"
  define d where "d = getDynamicInst lo c"
  define rest where "rest = flight (Suc lo) r c"
  note W = core_okD(1) [OF ok, unfolded window_ok_def] note I = core_okD(2) [OF ok] note Li = core_okD(3) [OF ok]
  have fl: "flight lo r c = d # rest" using lo by (simp add: upt_conv_Cons d_def rest_def)
  have R: "fits (di_rd_preg d) (writes d) ?m" "chain rest (remap d ?m) (c_front_end_map c)"
    "pf_inv {} (mregs (c_front_end_map c) + (mregs ?m + all_held (d # rest))) (all_srcs (d # rest)) L (c_physical_file c)"
    using core_okD(4) [OF ok] unfolding regs_ok_def fl by simp_all
  let ?R = "mregs (c_front_end_map c) + all_held rest"
  have k: "?k < length (c_inst_buffer c)" using W mappedIndex_less by simp
  have the: "the_inst ?k c = d" by (simp add: d_def getDynamicInst_def)
  have fd: "flying d" using I lo by (simp add: insts_ok_def d_def)
  have lists: "lists_ok (Suc lo) r L c"
  proof -
    have no: "q \<noteq> lo" if "di_stage (getDynamicInst q c) < COMPLETE_STAGE" for q using that d(1) by auto
    have no': "q \<noteq> lo" if "lo \<le> q" "q < r" "Inst (mappedIndex q) \<in> set (L l)" "l \<in> wait_lists" for q l
    proof
      assume "q = lo"
      from lists_ok_any [OF Li that(4,3)] obtain q' where "lo \<le> q'" "q' < r" "mappedIndex q = mappedIndex q'" "q' \<noteq> lo" using no by blast
      then show False using slots_differ [OF core_okD(1) [OF ok], of q' q] \<open>q = lo\<close> W that by auto
    qed
    show ?thesis
      unfolding lists_ok_def
    proof (intro conjI ballI allI impI)
      fix l k assume "l \<in> wait_lists" "Inst k \<in> set (L l)"
      from lists_ok_any [OF Li this] show "\<exists>q. Suc lo \<le> q \<and> q < r \<and> k = mappedIndex q \<and> di_stage (getDynamicInst q c) < COMPLETE_STAGE"
        using no by (metis Suc_leI le_neq_implies_less)
    next
      fix p w assume w: "w \<in> set (L (Register_list p))"
      from lists_ok_reg [OF Li w] obtain q where q: "lo \<le> q" "q < r" "w = Inst (mappedIndex q)" "int p \<in># srcs (getDynamicInst q c)" by blast
      then have "q \<noteq> lo" using no' [OF q(1,2)] w list_in_lists(1) by blast
      then show "\<exists>q. Suc lo \<le> q \<and> q < r \<and> w = Inst (mappedIndex q) \<and> int p \<in># srcs (getDynamicInst q c)" using q by (intro exI [of _ q]) auto
    next
      fix k w assume w: "w \<in> set (L (Store_list k))"
      from lists_ok_store [OF Li w] obtain q q' where q: "lo \<le> q" "q < q'" "q' < r" "k = mappedIndex q" "w = Inst (mappedIndex q')"
        "di_stage (getDynamicInst q c) < MEMORY_STAGE" by blast
      moreover have "q \<noteq> lo" using q(6) d(1) by (auto simp: stage_order)
      ultimately show "\<exists>q q'. Suc lo \<le> q \<and> q < q' \<and> q' < r \<and> k = mappedIndex q \<and> w = Inst (mappedIndex q')
        \<and> di_stage (getDynamicInst q c) < MEMORY_STAGE" by (intro exI [of _ q] exI [of _ q']) auto
    qed
  qed
  have reg: "int p \<in># all_srcs rest" if ne: "L (Register_list p) \<noteq> []" for p
  proof -
    from lists_ok_reg [OF lists hd_in_set [OF ne]] obtain q where q: "Suc lo \<le> q" "q < r" "int p \<in># srcs (getDynamicInst q c)" by blast
    then have "getDynamicInst q c \<in> set rest" by (simp add: rest_def)
    then show ?thesis using q(3) by (rule srcs_in_all)
  qed
  have Y: "all_srcs rest \<subseteq># ?R" by (rule subset_add(2) [OF all_srcs_held])
  have "pf_inv {} (mregs (c_front_end_map c) + (mregs ?m + all_held (d # rest))) (all_srcs rest) L ((c_physical_file c)\<lparr>pf_links := c_links c\<rparr>)"
  proof (rule pf_inv_relist [OF R(3) _ pf_inv_rings [OF R(3)] reg])
    have "all_srcs rest \<subseteq># all_held (d # rest)" unfolding all_simps by (rule subset_add(2) [OF all_srcs_held])
    then show "all_srcs rest \<subseteq># mregs (c_front_end_map c) + (mregs ?m + all_held (d # rest))" by (intro subset_add(2))
  qed
  then have inv: "pf_inv {} (mregs ?m + (held d + ?R)) (all_srcs rest) L (c_physical_file c)" by (simp add: ac_simps)
  have p: "di_rd_preg d \<in># ?R" if w: "writes d \<noteq> []"
  proof -
    obtain i old ws where "writes d = (i, old) # ws" using w by (cases "writes d") auto
    then have "remap d ?m ! i = di_rd_preg d" "i < length (remap d ?m)" using R(1) by (simp_all add: remap_def follow_nth)
    then have "di_rd_preg d \<in> set (remap d ?m)" by (metis nth_mem)
    then have "di_rd_preg d \<in> set (c_front_end_map c) \<or> (\<exists>e \<in> set rest. di_rd_preg d \<in># olds e)" using chain_keeps [OF R(2)] by blast
    moreover have "0 \<le> di_rd_preg d" using fd w by (simp add: flying_def has_regs_def)
    ultimately show ?thesis using olds_in_held by (auto simp: mregs_def name_valid)
  qed
  have rd: "writes d \<noteq> [] \<longrightarrow> t_rd (di_trans_op d) \<noteq> REG_rip \<and> rename_zf (t_rd (di_trans_op d)) < length ?m \<and> di_rd_preg d \<in># ?R"
    using fd R(1) p by (auto simp: flying_def has_regs_def writes_def split: if_splits)
  have cc: "with_retired ?m (c_physical_file c) c = c" by (simp add: with_retired_def)
  obtain pf' where c': "commit ?k c = Inr (with_retired (remap d ?m) pf' (set_inst ?k (d\<lparr>di_stage := RETIRE_STAGE\<rparr>) c))"
    "pf_inv {} (mregs (remap d ?m) + ?R) (all_srcs rest) L pf'"
    using commit_ok [OF inv Y the k _ _ _ rd] d W unfolding cc d_def by blast
  let ?c = "with_retired (remap d ?m) pf' (set_inst ?k (d\<lparr>di_stage := RETIRE_STAGE\<rparr>) c)"
  have eq: "getDynamicInst q ?c = (if q = lo then d\<lparr>di_stage := RETIRE_STAGE\<rparr> else getDynamicInst q c)" if "c_q_tail c \<le> q" "q < h" for q
    using slots_differ [OF core_okD(1) [OF ok], of q lo] that W lo k
    by (auto simp: getDynamicInst_def the_inst_def with_retired_def set_inst_def nth_upd)
  have b: "c_q_tail c \<le> lo" "r \<le> h" using W by simp_all
  have same: "getDynamicInst q ?c = getDynamicInst q c" if "Suc lo \<le> q" "q < r" for q using eq [of q] that b by simp
  have ss: "same_slots ?m (remap d ?m)" using same_slots_remap [OF R(1)] fd by (simp add: flying_def)
  have retires: "c_retire_map ?c = remap d ?m" "c_front_end_map ?c = c_front_end_map c" "c_q_tail ?c = c_q_tail c" "c_q_head ?c = c_q_head c"
    "c_q_rename ?c = c_q_rename c" "c_physical_file ?c = pf'" "length (c_inst_buffer ?c) = length (c_inst_buffer c)"
    by (simp_all add: with_retired_def set_inst_def)
  have "window_ok (Suc lo) r h ?c" using W lo same_slots_flags [OF ss] by (simp add: window_ok_def retires)
  moreover have "insts_ok (Suc lo) r h ?c"
    using I lo b eq same_slots_legal [OF ss] unfolding insts_ok_def retires uop_ok_def by (simp add: isRetired_def)
  moreover have "lists_ok (Suc lo) r L ?c" by (rule lists_ok_cong [OF lists same])
  moreover have "regs_ok (Suc lo) r L ?c"
  proof -
    have "flight (Suc lo) r ?c = rest" unfolding rest_def by (rule flight_cong [OF same])
    then show ?thesis using R(2) c'(2) unfolding regs_ok_def retires by (simp only: add.left_commute simp_thms)
  qed
  ultimately have "core_ok (Suc lo) r h L ?c" by (simp add: core_ok_def)
  then show ?thesis using c'(1) retires same unfolding d_def by (intro exI [of _ ?c]) (auto simp: d_def)
qed

end
