(* ===== verification/WindowReach.thy ===== *)
theory WindowReach
  imports WindowSteps
begin

text \<open>
  The cores that the window reaches: from the registers of the functional simulator on, by fetching, renaming, executing,
  flushing, replaying and committing. All of them satisfy the invariant.
\<close>

section \<open>Committing the oldest x86 instruction\<close>

lemma commit_group_ok:
  assumes ok: "core_ok (c_q_tail c) (c_q_rename c) (c_q_head c) L c" and q: "c_q_tail c \<le> q_last" "q_last < c_q_rename c"
    and ready: "\<forall>q. c_q_tail c \<le> q \<and> q \<le> q_last \<longrightarrow> isRetireReady (getDynamicInst q c) \<and> di_executed (getDynamicInst q c)"
  shows "\<exists>mask c'. commit_group q_last c = Inr (mask, c') \<and> core_ok (Suc q_last) (c_q_rename c) (c_q_head c) L c'
    \<and> c_retire_map c' = fold remap (flight (c_q_tail c) (Suc q_last) c) (c_retire_map c) \<and> c_front_end_map c' = c_front_end_map c
    \<and> c_q_tail c' = c_q_tail c \<and> c_q_head c' = c_q_head c \<and> c_q_rename c' = c_q_rename c"
proof -
  let ?t = "c_q_tail c" let ?r = "c_q_rename c"
  let ?f = "\<lambda>q (mask, c). rbind (commit (mappedIndex q) c) (\<lambda>c.
    let t = di_trans_op (getDynamicInst q c) in Inr (if \<not> t_nouserflags t then mask OR setflags_to_x86_flags ! t_setflags t else mask, c))"
  define Q where "Q n x \<longleftrightarrow> core_ok (?t + n) ?r (c_q_head c) L x \<and> c_retire_map x = fold remap (flight ?t (?t + n) c) (c_retire_map c)
    \<and> c_front_end_map x = c_front_end_map c \<and> c_q_tail x = ?t \<and> c_q_head x = c_q_head c \<and> c_q_rename x = ?r
    \<and> (\<forall>q. ?t + n \<le> q \<and> q < ?r \<longrightarrow> getDynamicInst q x = getDynamicInst q c)" for n x
  have loop: "\<exists>mask x. rfold ?f [?t..<?t + n] (0, c) = Inr (mask, x) \<and> Q n x" if "?t + n \<le> Suc q_last" for n
    using that
  proof (induction n)
    case 0
    then show ?case using ok by (simp add: Q_def)
  next
    case (Suc n)
    from Suc.prems have "?t + n \<le> Suc q_last" by simp
    from Suc.IH [OF this] obtain mask x where x: "rfold ?f [?t..<?t + n] (0, c) = Inr (mask, x)" "Q n x" by blast
    note Qx = x(2) [unfolded Q_def]
    have lo: "?t + n < ?r" using Suc.prems q(2) by simp
    then have same: "getDynamicInst (?t + n) x = getDynamicInst (?t + n) c" using Qx by simp
    then have d: "di_stage (getDynamicInst (?t + n) x) = COMPLETE_STAGE" "di_executed (getDynamicInst (?t + n) x)"
      using ready Suc.prems by (simp_all add: isRetireReady_def)
    from Qx have ok_x: "core_ok (?t + n) ?r (c_q_head c) L x" by (rule conjunct1)
    obtain y where y: "commit (mappedIndex (?t + n)) x = Inr y" "core_ok (Suc (?t + n)) ?r (c_q_head c) L y"
      "c_retire_map y = remap (getDynamicInst (?t + n) x) (c_retire_map x)" "c_front_end_map y = c_front_end_map x" "c_q_tail y = c_q_tail x"
      "c_q_head y = c_q_head x" "c_q_rename y = c_q_rename x" "\<forall>q. ?t + n < q \<and> q < ?r \<longrightarrow> getDynamicInst q y = getDynamicInst q x"
      using commit_first_ok [OF ok_x lo d] by blast
    have "\<exists>mask'. rfold ?f [?t..<?t + Suc n] (0, c) = Inr (mask', y)" using x(1) y(1) by (simp add: rfold_append Let_def)
    moreover have "Q (Suc n) y" using Qx y same by (simp add: Q_def)
    ultimately show ?case by blast
  qed
  have "?t + (Suc q_last - ?t) = Suc q_last" using q(1) by simp
  then obtain mask x where "rfold ?f [?t..<Suc q_last] (0, c) = Inr (mask, x)" "Q (Suc q_last - ?t) x" using loop [of "Suc q_last - ?t"] by auto
  then show ?thesis using q(1) by (intro exI [of _ mask] exI [of _ x]) (simp add: commit_group_def Q_def)
qed

lemma leave_lsq_with: "\<exists>s. leave_lsq q_last c = with_lsq s c"
proof -
  have "\<exists>s. fold (\<lambda>q c. if di_lsq_inserted (getDynamicInst q c) then lsq_remove (mappedIndex q) c else c) qs c = with_lsq s c" for qs
  proof (induction qs arbitrary: c)
    case Nil
    show ?case by (auto simp: with_lsq_def intro: exI [of _ "c_lsq c"])
  next
    case (Cons q qs)
    obtain s where "lsq_remove (mappedIndex q) c = with_lsq s c" using lsq_remove_with by blast
    then show ?case using Cons [of c] Cons [of "with_lsq s c"] by auto
  qed
  then show ?thesis by (simp add: leave_lsq_def)
qed

lemma advance_tail_ok:
  assumes ok: "core_ok (Suc q_last) r h L c"
  shows "core_ok (Suc q_last) r h L (advance_tail q_last c)"
proof -
  obtain s where s: "leave_lsq q_last c = with_lsq s c" using leave_lsq_with by blast
  let ?c = "(with_lsq s c)\<lparr>c_q_tail := Suc q_last\<rparr>"
  have g: "getDynamicInst q ?c = getDynamicInst q c" for q by (simp add: getDynamicInst_def the_inst_def with_lsq_def)
  note W = core_okD(1) [OF ok, unfolded window_ok_def]
  have "window_ok (Suc q_last) r h ?c" using W by (simp add: window_ok_def)
  moreover have "insts_ok (Suc q_last) r h ?c" using core_okD(2) [OF ok] by (simp add: insts_ok_def g)
  moreover have "lists_ok (Suc q_last) r L ?c" by (rule lists_ok_cong [OF core_okD(3) [OF ok] g])
  moreover have "regs_ok (Suc q_last) r L ?c" by (rule regs_ok_cong [OF core_okD(4) [OF ok] _ _ _ g]) simp_all
  ultimately show ?thesis unfolding advance_tail_def s by (simp add: core_ok_def)
qed

section \<open>The registers at the start\<close>

definition file_ok :: "(waiter \<Rightarrow> waiter list) \<Rightarrow> logical_file \<Rightarrow> physical_file \<Rightarrow> bool" where
  "file_ok L m pf \<longleftrightarrow> pf_inv {} (mregs m) {#} L pf \<and> length m = NUM_REGISTERS"

definition grows :: "logical_file \<Rightarrow> logical_file \<Rightarrow> bool" where
  "grows m m' \<longleftrightarrow> (\<forall>i. i < length m \<and> 0 \<le> m ! i \<longrightarrow> 0 \<le> m' ! i)"

lemma grows_refl [simp]: "grows m m"
  by (simp add: grows_def)

lemma grows_trans: "grows m m' \<Longrightarrow> grows m' m'' \<Longrightarrow> length m = length m' \<Longrightarrow> grows m m''"
  by (simp add: grows_def)

lemma grows_upd: "0 \<le> p \<Longrightarrow> grows m (m[i := p])"
  by (simp add: grows_def nth_upd)

lemma fresh_register_ok:
  assumes "file_ok L m pf" "slot_ok num m"
  shows "\<exists>p m' pf'. fresh_register num v (with_regs m pf c) = Inr (p, with_regs m' pf' c) \<and> file_ok L m' pf' \<and> grows m m'
    \<and> m' ! rename_zf num = p \<and> 0 \<le> p \<and> p \<in># mregs m'"
proof -
  have inv: "pf_inv {} (mregs m + {#}) {#} L pf" "length m = NUM_REGISTERS" using assms(1) by (simp_all add: file_ok_def)
  obtain p pf1 where 1: "getNewMapping num (m, pf) = Inr (p, m[rename_zf num := p], pf1)" "0 \<le> p"
    "pf_inv {} (mregs (m[rename_zf num := p]) + {#}) {#} L pf1" "p \<in> unready pf1"
    using getNewMapping_ok [OF inv(1) subset_mset.bot_least assms(2)] by blast
  let ?m = "m[rename_zf num := p]"
  have p: "p \<in># mregs ?m" using 1(2) assms(2) by (simp add: mregs_update name_valid)
  obtain pf2 where 2: "store_value p v pf1 = Inr pf2" "pf_inv {} (mregs ?m) {#} L pf2"
    using store_value_ok [OF 1(3), of p v] p 1(4) by auto
  show ?thesis using 1 2 p inv(2) assms(2) grows_upd [of p m "rename_zf num"]
    by (intro exI [of _ p] exI [of _ ?m] exI [of _ pf2]) (simp add: fresh_register_def file_ok_def)
qed

lemma new_register_ok:
  assumes "file_ok L m pf" "slot_ok num m"
  shows "\<exists>m' pf'. new_register (num, v) (with_regs m pf c) = Inr (with_regs m' pf' c) \<and> file_ok L m' pf' \<and> grows m m' \<and> 0 \<le> m' ! rename_zf num"
  using fresh_register_ok [OF assms, of v c] by (auto simp: new_register_def) blast

lemma resetPyriteRegister_ok:
  assumes "file_ok L m pf" "slot_ok num m"
  shows "\<exists>m' pf'. resetPyriteRegister a num (with_regs m pf c) = Inr (with_regs m' pf' c) \<and> file_ok L m' pf' \<and> grows m m' \<and> 0 \<le> m' ! rename_zf num"
proof -
  obtain p m1 pf1 where 1: "fresh_register num (if num = REG_flags then 0 else as_reg a num) (with_regs m pf c) = Inr (p, with_regs m1 pf1 c)"
    "file_ok L m1 pf1" "grows m m1" "m1 ! rename_zf num = p" "0 \<le> p" "p \<in># mregs m1"
    using fresh_register_ok [OF assms] by blast
  obtain pf2 where "setFlags p (if num = REG_flags then as_reg a num else 0) pf1 = Inr pf2" "pf_inv {} (mregs m1) {#} L pf2"
    using setFlags_ok [of "{}" "mregs m1" "{#}" L pf1 p] 1(2,6) by (auto simp: file_ok_def)
  then show ?thesis using 1 assms(2)
    by (intro exI [of _ m1] exI [of _ pf2]) (simp add: resetPyriteRegister_def Let_def file_ok_def, simp add: with_regs_def)
qed

lemma new_xmm_ok:
  assumes "file_ok L m pf" "num + 1 < 56"
  shows "\<exists>m' pf'. new_xmm (num, v) (with_regs m pf c) = Inr (with_regs m' pf' c) \<and> file_ok L m' pf' \<and> grows m m' \<and> 0 \<le> m' ! num \<and> 0 \<le> m' ! (num + 1)"
proof -
  have inv: "pf_inv {} (mregs m + {#}) {#} L pf" "length m = NUM_REGISTERS" using assms(1) by (simp_all add: file_ok_def)
  have s: "rename_zf num = num" "rename_zf (num + 1) = num + 1" "num \<noteq> REG_rip" "num + 1 \<noteq> REG_rip" "num + 1 < NUM_REGISTERS"
    using assms(2) by (simp_all add: rename_zf_def reg_defs NUM_REGISTERS_def)
  obtain p pf1 where 1: "getNewMapping num (m, pf) = Inr (p, m[num := p], pf1)" "0 \<le> p" "pf_inv {} (mregs (m[num := p]) + {#}) {#} L pf1" "p \<in> unready pf1"
    using getNewMapping_ok [OF inv(1) subset_mset.bot_least, of num] s inv(2) by auto
  obtain p' pf2 where 2: "getNewMapping (num + 1) (m[num := p], pf1) = Inr (p', m[num := p, num + 1 := p'], pf2)" "0 \<le> p'"
    "pf_inv {} (mregs (m[num := p, num + 1 := p'])) {#} L pf2" "p' \<in> unready pf2" "p \<in> unready pf2" "p' \<notin># mregs (m[num := p])"
    using getNewMapping_ok [OF 1(3) subset_mset.bot_least, of "num + 1"] s inv(2) 1(4) by auto
  let ?m = "m[num := p, num + 1 := p']"
  have p: "p \<in># mregs ?m" "p' \<in># mregs ?m" "p \<noteq> p'"
  proof -
    have "p \<in># mregs (m[num := p])" using 1(2) s inv(2) by (simp add: mregs_update name_valid)
    then show "p \<noteq> p'" using 2(6) by auto
    have "?m ! num \<in># mregs ?m" "?m ! (num + 1) \<in># mregs ?m" using 1(2) 2(2) s inv(2) by (intro in_mregs; simp add: name_valid)+
    then show "p \<in># mregs ?m" "p' \<in># mregs ?m" using s inv(2) by simp_all
  qed
  obtain pf3 where 3: "store_value p (fst v) pf2 = Inr pf3" "pf_inv {} (mregs ?m) {#} L pf3" "unready pf3 = unready pf2 - {p}"
    using store_value_ok [OF 2(3) p(1) 2(5)] by blast
  obtain pf4 where 4: "store_value p' (snd v) pf3 = Inr pf4" "pf_inv {} (mregs ?m) {#} L pf4"
    using store_value_ok [OF 3(2) p(2), of "snd v"] 2(4) 3(3) p(3) by auto
  have "grows m ?m" using 1(2) 2(2) by (simp add: grows_def nth_upd)
  then show ?thesis using 1 2 3 4 s inv(2)
    by (intro exI [of _ ?m] exI [of _ pf4]) (simp add: new_xmm_def case_prod_unfold file_ok_def nth_upd)
qed

text \<open>A loop that maps registers: what it maps stays mapped.\<close>

lemma rfold_maps:
  assumes step: "\<And>x m pf. x \<in> set xs \<Longrightarrow> file_ok L m pf \<Longrightarrow>
      \<exists>m' pf'. f x (with_regs m pf c) = Inr (with_regs m' pf' c) \<and> file_ok L m' pf' \<and> grows m m' \<and> (\<forall>i \<in> S x. 0 \<le> m' ! i)"
    and S: "\<And>x. x \<in> set xs \<Longrightarrow> \<forall>i \<in> S x. i < NUM_REGISTERS" and m: "file_ok L m pf"
  shows "\<exists>m' pf'. rfold f xs (with_regs m pf c) = Inr (with_regs m' pf' c) \<and> file_ok L m' pf' \<and> grows m m' \<and> (\<forall>x \<in> set xs. \<forall>i \<in> S x. 0 \<le> m' ! i)"
  using step S m
proof (induction xs arbitrary: m pf)
  case (Cons x xs)
  have len: "length n = NUM_REGISTERS" if "file_ok L n q" for n q using that by (simp add: file_ok_def)
  obtain m1 pf1 where 1: "f x (with_regs m pf c) = Inr (with_regs m1 pf1 c)" "file_ok L m1 pf1" "grows m m1" "\<forall>i \<in> S x. 0 \<le> m1 ! i"
    using Cons.prems(1) [of x m pf] Cons.prems(3) by auto
  obtain m2 pf2 where 2: "rfold f xs (with_regs m1 pf1 c) = Inr (with_regs m2 pf2 c)" "file_ok L m2 pf2" "grows m1 m2"
    "\<forall>x \<in> set xs. \<forall>i \<in> S x. 0 \<le> m2 ! i"
    using Cons.IH [OF _ _ 1(2)] Cons.prems(1,2) by (metis list.set_intros(2))
  have "\<forall>i \<in> S x. 0 \<le> m2 ! i" using 1(4) 2(3) Cons.prems(2) [of x] len [OF 1(2)] by (auto simp: grows_def)
  moreover have "grows m m2" using grows_trans [OF 1(3) 2(3)] len [OF 1(2)] len [OF Cons.prems(3)] by simp
  ultimately show ?case using 1 2 by auto
qed fastforce

lemma share_flags_ok:
  assumes "file_ok L m pf" "slot_ok num m" "i < length m" "m ! i = p" "0 \<le> p" "i \<noteq> rename_zf num"
  shows "\<exists>pf'. share_flags p num (with_regs m pf c) = Inr (with_regs (m[rename_zf num := p]) pf' c) \<and> file_ok L (m[rename_zf num := p]) pf'"
proof -
  have inv: "pf_inv {} (mregs m + {#}) {#} L pf" "length m = NUM_REGISTERS" using assms(1) by (simp_all add: file_ok_def)
  let ?j = "rename_zf num" and ?new = "p + 1"
  have "p \<in># mregs (m[?j := ?new])"
    using in_mregs [of i "m[?j := ?new]"] assms(3-6) by (simp add: name_valid)
  moreover have "mregs (m[?j := ?new]) = add_mset ?new (mregs m - (if no_reg (m ! ?j) then {#} else {#m ! ?j#}))"
    using assms(2,5) by (intro mregs_update) (simp_all add: name_valid)
  ultimately have "p \<in># mregs m - (if no_reg (m ! ?j) then {#} else {#m ! ?j#})" by auto
  then have "p \<in># mregs m - {#m ! ?j#}"
    using assms(5) by (cases "no_reg (m ! ?j)") (auto simp: name_valid in_diff_count)
  then obtain pf' where "setMapping num p (m, pf) = Inr (m[?j := p], pf')" "pf_inv {} (mregs (m[?j := p]) + {#}) {#} L pf'"
    using setMapping_any [OF inv(1) subset_mset.bot_least assms(2), of p] by auto
  then show ?thesis using inv(2) by (intro exI [of _ pf']) (simp add: share_flags_def file_ok_def)
qed

lemma increments_ok:
  assumes "pf_inv {} X Y L pf" "\<forall>p \<in> set ps. no_reg p \<or> p \<in># X"
  shows "\<exists>pf'. rfold (\<lambda>p pf. if \<not> no_reg p then incrementRefCount p pf else Inr pf) ps pf = Inr pf' \<and> pf_inv {} (X + mregs ps) Y L pf'"
  using assms
proof (induction ps arbitrary: X pf)
  case (Cons p ps)
  show ?case
  proof (cases "no_reg p")
    case True
    then show ?thesis using Cons by (simp add: mregs_def)
  next
    case False
    then obtain pf1 where pf1: "incrementRefCount p pf = Inr pf1" "pf_inv {} (add_mset p X) Y L pf1"
      using incrementRefCount_ok [OF Cons.prems(1), of p] Cons.prems(2) by auto
    moreover have "\<forall>q \<in> set ps. no_reg q \<or> q \<in># add_mset p X" using Cons.prems(2) by auto
    from Cons.IH [OF pf1(2) this] obtain pf2 where "rfold (\<lambda>p pf. if \<not> no_reg p then incrementRefCount p pf else Inr pf) ps pf1 = Inr pf2"
      "pf_inv {} (add_mset p X + mregs ps) Y L pf2" by blast
    ultimately show ?thesis using False by (simp add: mregs_def)
  qed
qed (simp add: mregs_def)

lemma mregs_LogicalFile: "mregs LogicalFile = {#}"
  by (simp add: mregs_def LogicalFile_def no_reg_def)

lemma lf_assign_empty:
  assumes "file_ok L m pf"
  shows "\<exists>pf'. lf_assign m LogicalFile pf = Inr (m, pf') \<and> pf_inv {} (mregs m + mregs m) {#} L pf'"
proof -
  have "rfold (\<lambda>p pf. if \<not> no_reg p then decrementRefCount p pf else Inr pf) (replicate n REG_NULL_SRC) pf = Inr pf" for n
    by (induction n) (simp_all add: no_reg_def)
  moreover have "\<forall>p \<in> set m. no_reg p \<or> p \<in># mregs m" by (auto simp: mregs_def)
  ultimately show ?thesis using increments_ok [of "mregs m" "{#}" L pf m] assms by (auto simp: lf_assign_def LogicalFile_def file_ok_def)
qed

lemma pf_reset_ok:
  assumes "rings wait_lists L (pf_links pf)" "\<And>p. L (Register_list p) = []"
  shows "\<exists>pf'. pf_reset pf = Inr pf' \<and> pf_inv {} {#} {#} L pf'"
proof -
  have "detached (Register_list i) (pf_links pf)" for i using rings_empty [OF assms(1) list_in_lists(1)] assms(2) by simp
  then have w: "wakeupAll (\<lambda>h. h) (\<lambda>g _. g) (\<lambda>_ h. Inr h) (Register_list i) (pf_links pf) = Inr (pf_links pf)" for i
    by (simp add: wakeupAll_def)
  have "rfold (\<lambda>i h. wakeupAll (\<lambda>h. h) (\<lambda>g _. g) (\<lambda>_ h. Inr h) (Register_list i) h) is (pf_links pf) = Inr (pf_links pf)" for "is"
    by (induction "is") (simp_all add: w)
  then show ?thesis using assms
    by (auto simp: pf_reset_def pf_inv_def lengths_ok_def counts_ok_def free_ok_def names_ok_def waits_ok_def)
qed

text \<open>The registers that are mapped at the start.\<close>

definition arch_slots :: "arch_state \<Rightarrow> nat list" where
  "arch_slots a = [REG_zero] @ general_registers a @ [REG_of, REG_cf, REG_zf]
     @ concat (map (\<lambda>(num, _). [num, num + 1]) (xmm_registers a)) @ map fst (other_registers a)"

definition empty_window :: "core \<Rightarrow> bool" where
  "empty_window c \<longleftrightarrow> length (c_inst_buffer c) = BUF_SIZE \<and> c_q_rename c = c_q_tail c \<and> c_q_head c = c_q_tail c
     \<and> (\<exists>L. rings wait_lists L (c_links c) \<and> lists_ok (c_q_tail c) (c_q_tail c) L c)"

lemma src_ok_grows: "src_ok m num \<Longrightarrow> grows m m' \<Longrightarrow> length m' = length m \<Longrightarrow> src_ok m' num"
  by (simp add: src_ok_def grows_def)

lemma slots_in_file:
  assumes "length m = NUM_REGISTERS"
  shows "num \<in> set (general_registers a) \<Longrightarrow> slot_ok num m" "(num, v) \<in> set (other_registers a) \<Longrightarrow> slot_ok num m" "slot_ok REG_zero m"
  using assms by (auto simp: general_registers_def other_registers_def rename_zf_def reg_defs NUM_REGISTERS_def split: if_splits)

lemma reset_registers_ok:
  assumes c: "empty_window c" and xmm: "length (as_xmm a) \<le> 16"
  shows "\<exists>c' L. reset_registers a c = Inr c' \<and> core_ok (c_q_tail c) (c_q_tail c) (c_q_tail c) L c' \<and> (\<forall>num \<in> set (arch_slots a). src_ok (c_front_end_map c') num)
    \<and> c_front_end_map c' = c_retire_map c' \<and> c_q_tail c' = c_q_tail c \<and> c_q_head c' = c_q_head c \<and> c_q_rename c' = c_q_rename c"
proof -
  obtain L where L: "rings wait_lists L (c_links c)" "lists_ok (c_q_tail c) (c_q_tail c) L c" using c by (auto simp: empty_window_def)
  have "L (Register_list p) = []" for p
  proof (rule ccontr)
    assume "L (Register_list p) \<noteq> []"
    from lists_ok_reg [OF L(2) hd_in_set [OF this]] show False by auto
  qed
  then obtain pf0 where 0: "pf_reset (c_physical_file c) = Inr pf0" "pf_inv {} {#} {#} L pf0" using pf_reset_ok [OF L(1)] by blast
  define c1 where "c1 = c\<lparr>c_retire_map := LogicalFile\<rparr>"
  have c0: "c\<lparr>c_front_end_map := LogicalFile, c_retire_map := LogicalFile, c_physical_file := pf0\<rparr> = with_regs LogicalFile pf0 c1"
    by (simp add: c1_def with_regs_def)
  have r1: "c_retire_map c1 = LogicalFile" by (simp add: c1_def)
  have f0: "file_ok L LogicalFile pf0" using 0(2) by (simp add: file_ok_def mregs_LogicalFile) (simp add: LogicalFile_def)
  have len: "length m = NUM_REGISTERS" if "file_ok L m pf" for m pf using that by (simp add: file_ok_def)
  obtain m1 pf1 where 1: "new_register (REG_zero, 0) (with_regs LogicalFile pf0 c1) = Inr (with_regs m1 pf1 c1)" "file_ok L m1 pf1"
    "0 \<le> m1 ! rename_zf REG_zero"
    using new_register_ok [OF f0 slots_in_file(3) [OF len [OF f0]]] by blast
  have "\<exists>m2 pf2. rfold (resetPyriteRegister a) (general_registers a) (with_regs m1 pf1 c1) = Inr (with_regs m2 pf2 c1) \<and> file_ok L m2 pf2 \<and> grows m1 m2
      \<and> (\<forall>num \<in> set (general_registers a). \<forall>i \<in> {rename_zf num}. 0 \<le> m2 ! i)"
    using resetPyriteRegister_ok [of L _ _ _ a c1] slots_in_file(1) [OF len] by (intro rfold_maps [OF _ _ 1(2)]) (metis singletonD, metis len 1(2) singletonD)
  then obtain m2 pf2 where 2: "rfold (resetPyriteRegister a) (general_registers a) (with_regs m1 pf1 c1) = Inr (with_regs m2 pf2 c1)" "file_ok L m2 pf2"
    "grows m1 m2" "\<forall>num \<in> set (general_registers a). 0 \<le> m2 ! rename_zf num" by auto
  define p where "p = m2 ! 57"
  have fl: "rename_zf REG_flags = 57" "REG_flags \<in> set (general_registers a)" "REG_flags \<noteq> REG_rip"
    by (simp_all add: rename_zf_def reg_defs general_registers_def)
  have p: "0 \<le> p" using 2(4) fl by (auto simp: p_def)
  note l2 = len [OF 2(2)]
  have gm: "getMapping REG_flags m2 = Inr p" using fl l2 by (simp add: getMapping_def p_def NUM_REGISTERS_def)
  have sl: "slot_ok REG_of m" "slot_ok REG_cf m" "slot_ok REG_zf m" if "length m = NUM_REGISTERS" for m :: logical_file
    using that by (simp_all add: rename_zf_def reg_defs NUM_REGISTERS_def)
  obtain pf3 where 3: "share_flags p REG_of (with_regs m2 pf2 c1) = Inr (with_regs (m2[74 := p]) pf3 c1)" "file_ok L (m2[74 := p]) pf3"
    using share_flags_ok [OF 2(2) sl(1) [OF l2], of 57 p] p l2 by (auto simp: p_def NUM_REGISTERS_def flag_slots)
  obtain pf4 where 4: "share_flags p REG_cf (with_regs (m2[74 := p]) pf3 c1) = Inr (with_regs (m2[74 := p, 73 := p]) pf4 c1)" "file_ok L (m2[74 := p, 73 := p]) pf4"
    using share_flags_ok [OF 3(2) sl(2), of 57 p] p l2 by (auto simp: p_def NUM_REGISTERS_def flag_slots)
  define m5 where "m5 = m2[74 := p, 73 := p, 57 := p]"
  obtain pf5 where 5: "share_flags p REG_zf (with_regs (m2[74 := p, 73 := p]) pf4 c1) = Inr (with_regs m5 pf5 c1)" "file_ok L m5 pf5"
    using share_flags_ok [OF 4(2) sl(3), of 74 p] p l2 by (auto simp: m5_def NUM_REGISTERS_def flag_slots)
  have g5: "grows m2 m5" "flags_mapped m5" using p l2 sl [OF len [OF 5(2)]]
    by (auto simp: m5_def grows_def nth_upd flags_mapped_def src_ok_def flag_slots NUM_REGISTERS_def)
  have xr: "num + 1 < 56" if "(num, v) \<in> set (xmm_registers a)" for num v using that xmm by (auto simp: xmm_registers_def)
  have "\<exists>m6 pf6. rfold new_xmm (xmm_registers a) (with_regs m5 pf5 c1) = Inr (with_regs m6 pf6 c1) \<and> file_ok L m6 pf6 \<and> grows m5 m6
      \<and> (\<forall>x \<in> set (xmm_registers a). \<forall>i \<in> {fst x, fst x + 1}. 0 \<le> m6 ! i)"
  proof (rule rfold_maps [OF _ _ 5(2)])
    fix x m pf assume x: "x \<in> set (xmm_registers a)" "file_ok L m pf"
    then show "\<exists>m' pf'. new_xmm x (with_regs m pf c1) = Inr (with_regs m' pf' c1) \<and> file_ok L m' pf' \<and> grows m m' \<and> (\<forall>i \<in> {fst x, fst x + 1}. 0 \<le> m' ! i)"
      using new_xmm_ok [OF x(2) xr [of "fst x" "snd x"], of "snd x" c1] by fastforce
  next
    fix x assume "x \<in> set (xmm_registers a)"
    then show "\<forall>i \<in> {fst x, fst x + 1}. i < NUM_REGISTERS" using xr [of "fst x" "snd x"] by (simp add: NUM_REGISTERS_def)
  qed
  then obtain m6 pf6 where 6: "rfold new_xmm (xmm_registers a) (with_regs m5 pf5 c1) = Inr (with_regs m6 pf6 c1)" "file_ok L m6 pf6" "grows m5 m6"
    "\<forall>x \<in> set (xmm_registers a). 0 \<le> m6 ! fst x \<and> 0 \<le> m6 ! (fst x + 1)" by auto
  have "\<exists>m7 pf7. rfold new_register (other_registers a) (with_regs m6 pf6 c1) = Inr (with_regs m7 pf7 c1) \<and> file_ok L m7 pf7 \<and> grows m6 m7
      \<and> (\<forall>x \<in> set (other_registers a). \<forall>i \<in> {rename_zf (fst x)}. 0 \<le> m7 ! i)"
  proof (rule rfold_maps [OF _ _ 6(2)])
    fix x m pf assume x: "x \<in> set (other_registers a)" "file_ok L m pf"
    have "slot_ok (fst x) m" using slots_in_file(2) [OF len [OF x(2)], of "fst x" "snd x" a] x(1) by simp
    from new_register_ok [OF x(2) this, of "snd x" c1]
    show "\<exists>m' pf'. new_register x (with_regs m pf c1) = Inr (with_regs m' pf' c1) \<and> file_ok L m' pf' \<and> grows m m' \<and> (\<forall>i \<in> {rename_zf (fst x)}. 0 \<le> m' ! i)"
      by simp
  next
    fix x assume "x \<in> set (other_registers a)"
    then show "\<forall>i \<in> {rename_zf (fst x)}. i < NUM_REGISTERS" using slots_in_file(2) [OF len [OF 6(2)], of "fst x" "snd x" a] len [OF 6(2)] by simp
  qed
  then obtain m7 pf7 where 7: "rfold new_register (other_registers a) (with_regs m6 pf6 c1) = Inr (with_regs m7 pf7 c1)" "file_ok L m7 pf7" "grows m6 m7"
    "\<forall>x \<in> set (other_registers a). 0 \<le> m7 ! rename_zf (fst x)" by auto
  obtain pf8 where 8: "lf_assign m7 LogicalFile pf7 = Inr (m7, pf8)" "pf_inv {} (mregs m7 + mregs m7) {#} L pf8"
    using lf_assign_empty [OF 7(2)] by blast
  let ?c = "(with_regs m7 pf7 c1)\<lparr>c_retire_map := m7, c_physical_file := pf8\<rparr>"
  have run: "reset_registers a c = Inr ?c"
    using 0(1) 1(1) 2(1) gm 3(1) 4(1) 5(1) 6(1) 7(1) 8(1) r1 by (simp add: reset_registers_def Let_def c0)
  have g: "grows m1 m7" "grows m2 m7" "grows m5 m7" "grows m6 m7"
    using grows_trans [OF 2(3)] grows_trans [OF g5(1)] grows_trans [OF 6(3)] 7(3) len [OF 1(2)] l2 len [OF 5(2)] len [OF 6(2)] by simp_all
  note l7 = len [OF 7(2)]
  have zero: "src_ok m7 REG_zero" using 1(3) g(1) slots_in_file(3) [OF l7] len [OF 1(2)] l7 by (simp add: src_ok_def grows_def)
  have gen: "src_ok m7 num" if "num \<in> set (general_registers a)" for num
    using 2(4) g(2) that slots_in_file(1) [OF l7 that] l2 l7 by (simp add: src_ok_def grows_def)
  have flags: "flags_mapped m7" using g5(2) src_ok_grows [OF _ g(3)] len [OF 5(2)] l7 by (simp add: flags_mapped_def)
  have xm: "src_ok m7 num \<and> src_ok m7 (num + 1)" if x: "(num, v) \<in> set (xmm_registers a)" for num v
  proof -
    have s: "rename_zf num = num" "rename_zf (Suc num) = Suc num" "num \<noteq> REG_rip" "Suc num \<noteq> REG_rip" "Suc num < NUM_REGISTERS"
      using xr [OF x] by (simp_all add: rename_zf_def reg_defs NUM_REGISTERS_def)
    have "0 \<le> m6 ! num" "0 \<le> m6 ! Suc num" using 6(4) x by fastforce+
    then show ?thesis using g(4) s l7 len [OF 6(2)] by (simp add: src_ok_def grows_def)
  qed
  have oth: "src_ok m7 num" if x: "(num, v) \<in> set (other_registers a)" for num v
    using 7(4) x slots_in_file(2) [OF l7 x] by (fastforce simp: src_ok_def)
  have slots: "\<forall>num \<in> set (arch_slots a). src_ok m7 num"
    using zero gen flags xm oth by (auto simp: arch_slots_def flags_mapped_def)
  have "window_ok (c_q_tail c) (c_q_tail c) (c_q_tail c) ?c" using c flags by (simp add: window_ok_def empty_window_def c1_def)
  moreover have "lists_ok (c_q_tail c) (c_q_tail c) L ?c" by (rule lists_ok_empty [OF L(2)])
  moreover have "insts_ok (c_q_tail c) (c_q_tail c) (c_q_tail c) ?c" by (auto simp: insts_ok_def c1_def)
  moreover have "regs_ok (c_q_tail c) (c_q_tail c) L ?c" using 8(2) by (simp add: regs_ok_def)
  ultimately have "core_ok (c_q_tail c) (c_q_tail c) (c_q_tail c) L ?c" by (simp add: core_ok_def)
  then show ?thesis using run slots c by (intro exI [of _ ?c] exI [of _ L]) (simp add: c1_def empty_window_def)
qed

section \<open>The reachable cores\<close>

text \<open>
  The micro-operations that are fetched are legal: no branch but the last, and every register they name is mapped. What
  execution does is any change that \<open>executes\<close> allows and that leaves only renamed instructions waiting, for their own
  sources or for older stores.
\<close>

definition fetchable :: "trans_op list \<Rightarrow> core \<Rightarrow> bool" where
  "fetchable uops c \<longleftrightarrow> uops \<noteq> [] \<and> length uops \<le> MAX_TRANSOPS_PER_USER_INSN \<and> c_q_head c + length uops \<le> c_q_tail c + BUF_SIZE
     \<and> (\<forall>t \<in> set uops. uop_ok (c_retire_map c) t) \<and> (\<forall>i < length uops. isbranch (t_opcode (uops ! i)) \<longrightarrow> Suc i = length uops)"

definition only_renamed_wait :: "core \<Rightarrow> bool" where
  "only_renamed_wait c \<longleftrightarrow> (\<exists>L. lists_ok (c_q_tail c) (c_q_rename c) L c \<and> rings wait_lists L (c_links c))"

definition all_complete :: "nat \<Rightarrow> core \<Rightarrow> bool" where
  "all_complete q_last c \<longleftrightarrow> (\<forall>q. c_q_tail c \<le> q \<and> q \<le> q_last \<longrightarrow> isRetireReady (getDynamicInst q c) \<and> di_executed (getDynamicInst q c))"

inductive window_step :: "core \<Rightarrow> core \<Rightarrow> bool" where
  fetch: "fetchable uops c \<Longrightarrow> place_uops latency rip uops c = Inr c' \<Longrightarrow> window_step c (c'\<lparr>c_q_head := c_q_head c + length uops\<rparr>)"
| rename: "fetched_to \<le> c_q_head c \<Longrightarrow> rename_window width rob_size fetched_to c = Inr c' \<Longrightarrow> window_step c c'"
| execute: "executes c c' \<Longrightarrow> only_renamed_wait c' \<Longrightarrow> window_step c c'"
| flush: "c_q_tail c \<le> q \<Longrightarrow> q \<le> c_q_rename c \<Longrightarrow> 0 < q \<Longrightarrow> flush_window q c = Inr c' \<Longrightarrow> window_step c c'"
| replay: "c_q_tail c \<le> q \<Longrightarrow> q \<le> c_q_rename c \<Longrightarrow> 0 < q \<Longrightarrow> replay_window q c = Inr c' \<Longrightarrow> window_step c c'"
| commit: "c_q_tail c \<le> q \<Longrightarrow> q < c_q_rename c \<Longrightarrow> all_complete q c \<Longrightarrow> commit_group q c = Inr (user_flags, c') \<Longrightarrow> window_step c (advance_tail q c')"
| reset: "reset_window c = Inr c' \<Longrightarrow> reset_registers a c' = Inr c'' \<Longrightarrow> length (as_xmm a) \<le> 16 \<Longrightarrow> window_step c c''"

inductive window_reachable :: "core \<Rightarrow> bool" where
  start: "empty_window c \<Longrightarrow> length (as_xmm a) \<le> 16 \<Longrightarrow> reset_registers a c = Inr c' \<Longrightarrow> window_reachable c'"
| step: "window_reachable c \<Longrightarrow> window_step c c' \<Longrightarrow> window_reachable c'"

lemma empty_window_ok:
  assumes "core_ok (c_q_tail c) (c_q_tail c) (c_q_tail c) L c" "c_q_head c = c_q_tail c" "c_q_rename c = c_q_tail c"
  shows "empty_window c"
proof -
  have "rings wait_lists L (c_links c)" using core_okD(4) [OF assms(1)] unfolding regs_ok_def by (intro pf_inv_rings) (rule conjunct2)
  then show ?thesis using core_okD(1,3) [OF assms(1)] assms(2,3) by (auto simp: empty_window_def window_ok_def)
qed

lemma window_step_inv:
  assumes "window_step c c'" "core_inv c"
  shows "core_inv c'"
  using assms
proof (induction rule: window_step.induct)
  case (fetch uops c latency rip c')
  then obtain L where ok: "core_ok (c_q_tail c) (c_q_rename c) (c_q_head c) L c" by (auto simp: core_inv_def)
  then have o: "core_ok (c_q_tail c) (c_q_rename c) (c_q_head c + length uops) L c'" "c_q_rename c' = c_q_rename c" "c_q_tail c' = c_q_tail c"
    using place_uops_ok [OF ok, of uops latency rip] fetch(1,2) by (auto simp: fetchable_def)
  have "core_ok (c_q_tail c) (c_q_rename c) (c_q_head c + length uops) L (c'\<lparr>c_q_head := c_q_head c + length uops\<rparr>)"
    by (rule core_ok_cong [OF o(1)]) simp_all
  then show ?case using o(2,3) by (auto simp: core_inv_def)
next
  case (rename fetched_to c width rob_size c')
  then obtain L where ok: "core_ok (c_q_tail c) (c_q_rename c) (c_q_head c) L c" by (auto simp: core_inv_def)
  then show ?case using rename_window_ok [OF ok rename(1), of width rob_size] rename(2) by (auto simp: core_inv_def)
next
  case (execute c c')
  then obtain L where ok: "core_ok (c_q_tail c) (c_q_rename c) (c_q_head c) L c" by (auto simp: core_inv_def)
  have e: "c_q_tail c' = c_q_tail c" "c_q_rename c' = c_q_rename c" using execute(1) by (simp_all add: executes_def)
  obtain L' where "lists_ok (c_q_tail c) (c_q_rename c) L' c'" "rings wait_lists L' (c_links c')" using execute(2) by (auto simp: only_renamed_wait_def e)
  from executes_ok [OF ok execute(1) this] show ?case by (auto simp: core_inv_def e)
next
  case (flush c q c')
  then obtain L where ok: "core_ok (c_q_tail c) (c_q_rename c) (c_q_head c) L c" by (auto simp: core_inv_def)
  then show ?case using flush_window_ok [OF ok flush(1-3)] flush(4) by (auto simp: core_inv_def)
next
  case (replay c q c')
  then obtain L where ok: "core_ok (c_q_tail c) (c_q_rename c) (c_q_head c) L c" by (auto simp: core_inv_def)
  then show ?case using replay_window_ok [OF ok replay(1-3)] replay(4) by (auto simp: core_inv_def)
next
  case (commit c q user_flags c')
  then obtain L where ok: "core_ok (c_q_tail c) (c_q_rename c) (c_q_head c) L c" by (auto simp: core_inv_def)
  from commit_group_ok [OF ok commit(1,2)] commit(3,4) have "core_ok (Suc q) (c_q_rename c) (c_q_head c) L c'"
    and p: "c_q_head c' = c_q_head c" "c_q_rename c' = c_q_rename c" by (auto simp: all_complete_def)
  from advance_tail_ok [OF this(1)] have "core_ok (Suc q) (c_q_rename c) (c_q_head c) L (advance_tail q c')" .
  moreover obtain s where "leave_lsq q c' = with_lsq s c'" using leave_lsq_with by blast
  then have "c_q_tail (advance_tail q c') = Suc q" "c_q_head (advance_tail q c') = c_q_head c" "c_q_rename (advance_tail q c') = c_q_rename c"
    using p by (simp_all add: advance_tail_def)
  ultimately show ?case by (auto simp: core_inv_def)
next
  case (reset c c' a c'')
  then obtain L where ok: "core_ok (c_q_tail c) (c_q_rename c) (c_q_head c) L c" by (auto simp: core_inv_def)
  then obtain L' where "core_ok (c_q_tail c') (c_q_tail c') (c_q_tail c') L' c'" "c_q_head c' = c_q_tail c'" "c_q_rename c' = c_q_tail c'"
    using reset_window_ok [OF ok] reset(1) by auto
  then have e: "empty_window c'" by (rule empty_window_ok)
  then show ?case using reset_registers_ok [OF e reset(3)] reset(2) by (auto simp: core_inv_def empty_window_def)
qed

lemma window_reachable_inv: "window_reachable c \<Longrightarrow> core_inv c"
proof (induction rule: window_reachable.induct)
  case (start c a c')
  then show ?case using reset_registers_ok [OF start(1,2)] by (auto simp: core_inv_def empty_window_def)
next
  case (step c c')
  then show ?case using window_step_inv by blast
qed

end
