(* ===== verification/LoadSafety.thy ===== *)
theory LoadSafety
  imports LoadStoreQueue
begin

text \<open>
  What the load/store queue promises: every list holds the loads and stores of its line, the youngest first; a load gets
  each byte from the youngest older store that has it, and from memory otherwise; a store that finds a younger load with a
  wrong byte marks it, or an older one.
\<close>

section \<open>The value of a load\<close>

text \<open>\<open>signext64\<close> of decoder/globals.h: the lowest \<open>i\<close> bits as a signed number.\<close>

definition signext64 :: "64 word \<Rightarrow> nat \<Rightarrow> 64 word" where
  "signext64 x i = signed_drop_bit (64 - i) (push_bit (64 - i) x)"

text \<open>
  The part of \<open>DynamicInst::complete\<close> that computes the result of a load: no result while the load has to wait for a
  store. \<open>rd\<close> reads memory and \<open>m_rb\<close> is the value of the register operand.
\<close>

definition load_value :: "(address \<Rightarrow> nat \<Rightarrow> 64 word) \<Rightarrow> 64 word \<Rightarrow> nat \<Rightarrow> core \<Rightarrow> (64 word option \<times> core) result" where
  "load_value rd m_rb k c =
     (let d = the_inst k c; t = di_trans_op d; operand = di_mem_operand d
      in if dw_size operand = 0 then check (t_cond t = LDST_ALIGN_HI) Assert_failed (Inr (Some m_rb, c))
         else rbind (loadSearch k operand operand c) (\<lambda>(found, lsq_data, c).
           if \<not> found then check (\<not> detached (Inst k) (c_links c)) Assert_failed (Inr (None, c))
           else rbind (covers lsq_data operand) (\<lambda>covered.
             rbind (if \<not> covered then setValue (rd (dw_address operand) (unat (dw_size operand))) operand else Inr operand) (\<lambda>operand.
             rbind (writeValue lsq_data operand) (\<lambda>operand.
             let rddata = dw_value operand;
                 num_bytes = 2 ^ t_size t; underflow = num_bytes - unat (dw_size operand)
             in Inr (Some (if t_opcode t = OP_ldx then signext64 rddata (8 * num_bytes)
                           else if t_cond t = LDST_ALIGN_HI then m_rb OR push_bit (underflow * 8) rddata else rddata),
                     set_inst k (d\<lparr>di_mem_operand := operand\<rparr>) c))))))"

section \<open>Well-formed queues\<close>

definition entry_ok :: "core \<Rightarrow> address \<Rightarrow> nat \<Rightarrow> bool" where
  "entry_ok c a j \<longleftrightarrow> j < length (c_inst_buffer c) \<and> (isstore (getOpcode (the_inst j c)) \<or> isload (getOpcode (the_inst j c)))
     \<and> dw_ok (di_mem_operand (the_inst j c)) \<and> operand_line j c = a"

definition younger :: "core \<Rightarrow> nat \<Rightarrow> nat \<Rightarrow> bool" where
  "younger c i j \<longleftrightarrow> di_q_ptr (the_inst i c) > di_q_ptr (the_inst j c)"

definition lsq_ok :: "core \<Rightarrow> bool" where
  "lsq_ok c \<longleftrightarrow> (\<forall>a. sorted_wrt (younger c) (lsq_list a c) \<and> (\<forall>j \<in> set (lsq_list a c). entry_ok c a j))"

lemma lsq_list_set [simp]: "lsq_list b (set_lsq_list a xs c) = (if b = a then xs else lsq_list b c)"
  by (auto simp: lsq_list_def set_lsq_list_def)

lemma set_lsq_simps [simp]:
  "the_inst k (set_lsq_list a xs c) = the_inst k c" "c_inst_buffer (set_lsq_list a xs c) = c_inst_buffer c"
  "c_physical_file (set_lsq_list a xs c) = c_physical_file c" "c_address_mask (set_lsq_list a xs c) = c_address_mask c"
  "operand_line k (set_lsq_list a xs c) = operand_line k c"
  by (simp_all add: set_lsq_list_def the_inst_def operand_line_def)

lemma entry_set [simp]: "entry_ok (set_lsq_list b xs c) a j = entry_ok c a j" "younger (set_lsq_list b xs c) = younger c"
  by (auto simp: entry_ok_def younger_def fun_eq_iff)

lemma younger_trans: "younger c i j \<Longrightarrow> younger c j k \<Longrightarrow> younger c i k"
  by (simp add: younger_def)

lemma sorted_dropWhile:
  "sorted_wrt (younger c) xs \<Longrightarrow> \<forall>j \<in> set (dropWhile (\<lambda>j. younger c j k) xs). \<not> younger c j k"
proof (induction xs)
  case (Cons x xs)
  have "\<not> younger c j k" if "\<not> younger c x k" "j \<in> set (x # xs)" for j
  proof (cases "j = x")
    case False
    then have "younger c x j" using Cons.prems that(2) by simp
    with that(1) show ?thesis using younger_trans by metis
  qed (use that in simp)
  moreover have "\<forall>j \<in> set (dropWhile (\<lambda>j. younger c j k) xs). \<not> younger c j k"
    using Cons.IH Cons.prems unfolding sorted_wrt.simps by blast
  ultimately show ?case by (metis dropWhile.simps(2))
qed simp

text \<open>Inserting keeps the order; a load or store is inserted once.\<close>

lemma lsq_insert_ok:
  assumes "lsq_ok c" "entry_ok c (operand_line k c) k"
    "\<forall>j \<in> set (lsq_list (operand_line k c) c). di_q_ptr (the_inst j c) \<noteq> di_q_ptr (the_inst k c)"
  shows "\<exists>c'. lsq_insert k c = Inr c' \<and> lsq_ok c' \<and> set (lsq_list (operand_line k c) c') = insert k (set (lsq_list (operand_line k c) c))"
proof -
  let ?a = "operand_line k c"
  define xs where "xs = lsq_list ?a c"
  let ?P = "\<lambda>j. younger c j k"
  have xs: "sorted_wrt (younger c) xs" "\<forall>j \<in> set xs. entry_ok c ?a j" using assms(1) by (simp_all add: lsq_ok_def xs_def)
  have split: "xs = takeWhile ?P xs @ dropWhile ?P xs" by simp
  have drop: "younger c k j" if "j \<in> set (dropWhile ?P xs)" for j
  proof -
    have "j \<in> set xs" using that by (rule set_dropWhileD)
    then have "di_q_ptr (the_inst j c) \<noteq> di_q_ptr (the_inst k c)" using assms(3) by (simp add: xs_def)
    moreover have "\<not> younger c j k" using sorted_dropWhile [OF xs(1)] that by (rule bspec)
    ultimately show ?thesis unfolding younger_def by linarith
  qed
  have take: "younger c j k" if "j \<in> set (takeWhile ?P xs)" for j using set_takeWhileD [OF that] by simp
  have "sorted_wrt (younger c) (takeWhile ?P xs)" "sorted_wrt (younger c) (dropWhile ?P xs)"
    using xs(1) sorted_wrt_append [of "younger c" "takeWhile ?P xs" "dropWhile ?P xs"] by simp_all
  moreover have "younger c i j" if "i \<in> set (takeWhile ?P xs)" "j \<in> set (k # dropWhile ?P xs)" for i j
    using take [OF that(1)] drop [of j] that(2) younger_trans by (metis set_ConsD)
  ultimately have "sorted_wrt (younger c) (takeWhile ?P xs @ k # dropWhile ?P xs)"
    using drop by (simp add: sorted_wrt_append)
  then have "sorted_wrt (younger c) (younger_first c k xs)" by (simp add: younger_first_def younger_def [abs_def] Let_def)
  moreover have s: "set (younger_first c k xs) = insert k (set xs)"
    unfolding younger_first_def Let_def younger_def [symmetric] by (metis Un_insert_right list.simps(15) set_append split)
  ultimately show ?thesis
    using assms(1,2) xs(2) by (auto simp: lsq_insert_def entry_ok_def lsq_ok_def Let_def xs_def)
qed

lemma sorted_filter: "sorted_wrt R xs \<Longrightarrow> sorted_wrt R (filter P xs)"
  by (induction xs) auto

lemma lsq_remove_simps [simp]:
  "the_inst i (lsq_remove k c) = the_inst i c" "c_inst_buffer (lsq_remove k c) = c_inst_buffer c"
  "c_physical_file (lsq_remove k c) = c_physical_file c" "c_address_mask (lsq_remove k c) = c_address_mask c"
  "c_front_end_map (lsq_remove k c) = c_front_end_map c" "c_retire_map (lsq_remove k c) = c_retire_map c"
  "c_q_head (lsq_remove k c) = c_q_head c" "c_q_tail (lsq_remove k c) = c_q_tail c" "c_q_rename (lsq_remove k c) = c_q_rename c"
  by (simp_all add: lsq_remove_def Let_def set_lsq_list_def the_inst_def)

lemma lsq_remove_list: "lsq_list a (lsq_remove k c) = (if a = operand_line k c then filter (\<lambda>j. j \<noteq> k) (lsq_list a c) else lsq_list a c)"
  by (auto simp: lsq_remove_def Let_def lsq_list_def set_lsq_list_def)

lemma lsq_remove_ok: "lsq_ok c \<Longrightarrow> lsq_ok (lsq_remove k c)"
  by (auto simp: lsq_ok_def lsq_remove_list entry_ok_def younger_def [abs_def] operand_line_def sorted_filter)

section \<open>Loads\<close>

text \<open>The byte that the youngest store of a list, youngest first, has at an address.\<close>

fun store_byte :: "core \<Rightarrow> nat list \<Rightarrow> address \<Rightarrow> 8 word option" where
  "store_byte c [] a = None"
| "store_byte c (j # js) a =
     (if isstore (getOpcode (the_inst j c)) \<and> dw_byte (di_mem_operand (the_inst j c)) a \<noteq> None
      then dw_byte (di_mem_operand (the_inst j c)) a else store_byte c js a)"

lemma store_byte_append:
  "store_byte c (xs @ ys) a = (case store_byte c xs a of None \<Rightarrow> store_byte c ys a | Some b \<Rightarrow> Some b)"
  by (induction xs) auto

lemma load_walk_cases:
  assumes "\<forall>j \<in> set zs. j \<noteq> k \<and> dw_ok (di_mem_operand (the_inst j c))" "dw_fits r"
    "load_walk k operand (zs @ k # ys) r c = Inr (found, r', c')"
  shows "if found then c' = c \<and> dw_address r' = dw_address r \<and> dw_size r' = dw_size r
      \<and> (\<forall>a. in_word r a \<longrightarrow> dw_byte r' a = (case store_byte c (rev zs) a of None \<Rightarrow> dw_byte r a | Some b \<Rightarrow> Some b))
      \<and> (\<forall>j \<in> set zs. isstore (getOpcode (the_inst j c)) \<longrightarrow> isMemoryIssued (the_inst j c) \<or> \<not> overlaps operand (di_mem_operand (the_inst j c)))
    else \<exists>j \<in> set zs. isstore (getOpcode (the_inst j c)) \<and> \<not> isMemoryIssued (the_inst j c)
      \<and> overlaps operand (di_mem_operand (the_inst j c)) \<and> (\<exists>h. insertWaiter (Store_list j) (Inst k) (c_links c) = Inr h \<and> c' = set_links h c)"
  using assms
proof (induction zs arbitrary: r)
  case Nil
  then show ?case by simp
next
  case (Cons j zs)
  let ?d = "the_inst j c"
  have jk: "j \<noteq> k" and ok: "dw_ok (di_mem_operand ?d)" using Cons.prems(1) by auto
  have zs: "\<forall>j \<in> set zs. j \<noteq> k \<and> dw_ok (di_mem_operand (the_inst j c))" using Cons.prems(1) by simp
  show ?case
  proof (cases "isstore (getOpcode ?d)")
    case False
    then have "load_walk k operand (zs @ k # ys) r c = Inr (found, r', c')" using Cons.prems(3) jk by simp
    from Cons.IH [OF zs Cons.prems(2) this] False show ?thesis by (auto simp: store_byte_append split: if_splits option.splits)
  next
    case True
    show ?thesis
    proof (cases "\<not> isMemoryIssued ?d \<and> overlaps operand (di_mem_operand ?d)")
      case wait: True
      then show ?thesis using Cons.prems(3) jk True by (auto simp: rbind_eq_Inr)
    next
      case issued: False
      obtain r1 where r1: "overlay (di_mem_operand ?d) r = Inr r1" "dw_address r1 = dw_address r" "dw_size r1 = dw_size r"
        "\<forall>a. in_word r a \<longrightarrow> dw_byte r1 a = (case dw_byte (di_mem_operand ?d) a of None \<Rightarrow> dw_byte r a | Some b \<Rightarrow> Some b)"
        using overlay_ok [OF ok Cons.prems(2)] by auto
      have fits: "dw_fits r1" using Cons.prems(2) by (simp add: dw_fits_def r1(2,3))
      have word: "in_word r1 = in_word r" by (simp add: in_word_def fun_eq_iff r1(2,3))
      have "load_walk k operand (zs @ k # ys) r1 c = Inr (found, r', c')" using Cons.prems(3) jk True issued r1(1) by auto
      note IH = Cons.IH [OF zs fits this]
      show ?thesis
      proof (cases found)
        case f: True
        have "dw_byte r' a = (case store_byte c (rev (j # zs)) a of None \<Rightarrow> dw_byte r a | Some b \<Rightarrow> Some b)" if "in_word r a" for a
          using IH f r1(4) that True by (auto simp: word store_byte_append split: option.splits)
        then show ?thesis using IH f issued by (simp add: r1(2,3))
      next
        case f: False
        then show ?thesis using IH by auto
      qed
    qed
  qed
qed

lemma load_walk_total:
  assumes "\<forall>j \<in> set zs. j \<noteq> k \<and> dw_ok (di_mem_operand (the_inst j c)) \<and> Store_list j \<in> H" "dw_fits r"
    "rings H L (c_links c)" "Inst k \<notin> H" "detached (Inst k) (c_links c)"
  shows "\<exists>x. load_walk k operand (zs @ k # ys) r c = Inr x"
  using assms(1,2)
proof (induction zs arbitrary: r)
  case Nil
  then show ?case by auto
next
  case (Cons j zs)
  let ?d = "the_inst j c"
  have j: "j \<noteq> k" "dw_ok (di_mem_operand ?d)" "Store_list j \<in> H" using Cons.prems(1) by auto
  have zs: "\<forall>j \<in> set zs. j \<noteq> k \<and> dw_ok (di_mem_operand (the_inst j c)) \<and> Store_list j \<in> H" using Cons.prems(1) by simp
  obtain h where h: "insertWaiter (Store_list j) (Inst k) (c_links c) = Inr h"
    using insertWaiter_ok [OF assms(3) j(3) assms(4,5)] by auto
  obtain r1 where r1: "overlay (di_mem_operand ?d) r = Inr r1" "dw_address r1 = dw_address r" "dw_size r1 = dw_size r"
    using overlay_ok [OF j(2) Cons.prems(2)] by auto
  then have "dw_fits r1" using Cons.prems(2) by (simp add: dw_fits_def)
  then obtain x y where "load_walk k operand (zs @ k # ys) r1 c = Inr x" "load_walk k operand (zs @ k # ys) r c = Inr y"
    using Cons.IH [OF zs] Cons.prems(2) by meson
  then show ?case using j(1) h r1(1) by (cases x; cases y) (auto simp: Let_def)
qed

text \<open>A load that is in the queue, has not read its value yet and waits nowhere.\<close>

definition load_ok :: "nat \<Rightarrow> waiter set \<Rightarrow> (waiter \<Rightarrow> waiter list) \<Rightarrow> core \<Rightarrow> bool" where
  "load_ok k H L c \<longleftrightarrow>
     lsq_ok c \<and> k \<in> set (lsq_list (operand_line k c) c) \<and> getOpcode (the_inst k c) = OP_ld
     \<and> t_cond (di_trans_op (the_inst k c)) = LDST_ALIGN_NORMAL \<and> 0 < dw_size (di_mem_operand (the_inst k c))
     \<and> dw_bytemask (di_mem_operand (the_inst k c)) = 0
     \<and> rings H L (c_links c) \<and> Inst k \<notin> H \<and> (\<forall>j. Store_list j \<in> H) \<and> detached (Inst k) (c_links c)"

lemma distinct_younger: "sorted_wrt (younger c) (ys @ k # zs) \<Longrightarrow> k \<notin> set ys \<and> k \<notin> set zs"
  by (auto simp: sorted_wrt_append younger_def)

lemma load_value_ok:
  assumes "load_ok k H L c" "lsq_list (operand_line k c) c = ys @ k # zs"
  shows "\<exists>res c'. load_value rd m_rb k c = Inr (res, c') \<and>
    (case res of
       Some v \<Rightarrow> \<forall>i < 8. byte_of v i =
         (if i < unat (dw_size (di_mem_operand (the_inst k c)))
          then case store_byte c zs (dw_address (di_mem_operand (the_inst k c)) + of_nat i) of
                 None \<Rightarrow> byte_of (rd (dw_address (di_mem_operand (the_inst k c))) (unat (dw_size (di_mem_operand (the_inst k c))))) i
               | Some b \<Rightarrow> b
          else 0)
     | None \<Rightarrow> \<exists>j \<in> set zs. isstore (getOpcode (the_inst j c)) \<and> \<not> isMemoryIssued (the_inst j c)
         \<and> overlaps (di_mem_operand (the_inst k c)) (di_mem_operand (the_inst j c))
         \<and> rings H (L(Store_list j := L (Store_list j) @ [Inst k])) (c_links c'))"
proof -
  let ?a = "operand_line k c" and ?op = "di_mem_operand (the_inst k c)"
  have ok: "sorted_wrt (younger c) (ys @ k # zs)" "\<forall>j \<in> set (ys @ k # zs). entry_ok c ?a j" "lsq_ok c"
    and k: "getOpcode (the_inst k c) = OP_ld" "t_cond (di_trans_op (the_inst k c)) = LDST_ALIGN_NORMAL" "0 < dw_size ?op"
      "dw_bytemask ?op = 0"
    and r: "rings H L (c_links c)" "Inst k \<notin> H" "\<forall>j. Store_list j \<in> H" "detached (Inst k) (c_links c)"
    using assms unfolding load_ok_def lsq_ok_def by metis+
  have dk: "dw_ok ?op" "alignedAddr (c_address_mask c) ?op = ?a" using ok(2) by (auto simp: entry_ok_def operand_line_def)
  have fits: "dw_fits ?op" using dk(1) by (simp add: dw_ok_def)
  define c1 where "c1 = set_lsq_list ?a (lsq_list ?a c) c"
  have c1: "the_inst j c1 = the_inst j c" "c_links c1 = c_links c" for j by (simp_all add: c1_def)
  have zs: "\<forall>j \<in> set (rev zs). j \<noteq> k \<and> dw_ok (di_mem_operand (the_inst j c1)) \<and> Store_list j \<in> H"
    using distinct_younger [OF ok(1)] ok(2) r(3) by (auto simp: c1 entry_ok_def)
  have search: "loadSearch k ?op ?op c = load_walk k ?op (rev zs @ k # rev ys) ?op c1"
    by (simp add: loadSearch_def Let_def dk(2) c1_def assms(2))
  obtain found r' c' where w: "load_walk k ?op (rev zs @ k # rev ys) ?op c1 = Inr (found, r', c')"
    using load_walk_total [OF zs fits, of L ?op "rev ys"] r unfolding c1 by (metis prod_cases3)
  have zs': "\<forall>j \<in> set (rev zs). j \<noteq> k \<and> dw_ok (di_mem_operand (the_inst j c1))" using zs by simp
  note W = load_walk_cases [OF zs' fits w]
  have sb: "store_byte c1 xs a = store_byte c xs a" for xs a by (induction xs) (auto simp: c1)
  show ?thesis
  proof (cases found)
    case False
    then obtain j h where j: "j \<in> set zs" "isstore (getOpcode (the_inst j c))" "\<not> isMemoryIssued (the_inst j c)"
      "overlaps ?op (di_mem_operand (the_inst j c))" "insertWaiter (Store_list j) (Inst k) (c_links c) = Inr h" "c' = set_links h c1"
      using W by (auto simp: c1)
    obtain h' where h': "insertWaiter (Store_list j) (Inst k) (c_links c) = Inr h'"
      "rings H (L(Store_list j := L (Store_list j) @ [Inst k])) h'" using insertWaiter_ok [OF r(1) _ r(2,4)] r(3) by blast
    have "h = h'" using j(5) h'(1) by simp
    then have rg: "rings H (L(Store_list j := L (Store_list j) @ [Inst k])) (c_links c')" using j(6) h'(2) by simp
    have "\<not> detached (Inst k) (c_links c')" using rings_detached [OF rg r(2)] r(3) by auto
    then have "load_value rd m_rb k c = Inr (None, c')"
      using k(3) by (simp add: load_value_def Let_def search w False)
    then show ?thesis using j(1-4) rg by auto
  next
    case True
    then have W': "c' = c1" "dw_address r' = dw_address ?op" "dw_size r' = dw_size ?op"
      "\<forall>a. in_word ?op a \<longrightarrow> dw_byte r' a = (case store_byte c zs a of None \<Rightarrow> dw_byte ?op a | Some b \<Rightarrow> Some b)"
      using W by (auto simp: sb)
    have fr: "dw_fits r'" using fits by (simp add: dw_fits_def W'(2,3))
    have cov: "covers r' ?op = Inr False" using covers_empty [OF k(4) _ fr fits] k(3) W'(3) by simp
    let ?v = "rd (dw_address ?op) (unat (dw_size ?op))"
    obtain op' where op': "setValue ?v ?op = Inr op'" "dw_address op' = dw_address ?op" "dw_size op' = dw_size ?op" "dw_ok op'"
      "\<forall>k'. bit (dw_bytemask op') k' \<longleftrightarrow> k' < unat (dw_size ?op)"
      "\<forall>k'. byte_of (dw_value op') k' = (if k' < unat (dw_size ?op) then byte_of ?v k' else 0)"
      using setValue_ok [OF k(4) fits k(3), of ?v] by auto
    have fo: "dw_fits op'" using op'(4) by (simp add: dw_ok_def)
    have "overlaps r' op'"
      using k(3) unfolding overlaps_iff [OF fr fo] by (simp add: W'(2,3) op'(2,3) word_less_nat_alt)
    from writeValue_ok [OF this fr fo] obtain op'' where op'': "writeValue r' op' = Inr op''"
      "\<forall>i < 8. byte_of (dw_value op'') i = (if bit (dw_bytemask op') i
          then (case dw_byte r' (dw_address op' + of_nat i) of None \<Rightarrow> byte_of (dw_value op') i | Some b \<Rightarrow> b) else 0)" by auto
    have size0: "dw_size ?op \<noteq> 0" using k(3) by auto
    have "load_value rd m_rb k c = Inr (Some (dw_value op''), set_inst k ((the_inst k c)\<lparr>di_mem_operand := op''\<rparr>) c1)"
      using size0 k(1,2) by (simp add: load_value_def Let_def search w True cov op'(1) op''(1) W'(1) LDST_ALIGN_NORMAL_def LDST_ALIGN_HI_def)
    moreover have "byte_of (dw_value op'') i = (if i < unat (dw_size ?op)
        then case store_byte c zs (dw_address ?op + of_nat i) of None \<Rightarrow> byte_of ?v i | Some b \<Rightarrow> b else 0)" if "i < 8" for i
    proof (cases "i < unat (dw_size ?op)")
      case i: True
      have u: "unat (dw_address ?op + of_nat i) = unat (dw_address ?op) + i"
        using fits that by (subst unat_add_lem [THEN iffD1]) (simp_all add: dw_fits_def unsigned_of_nat take_bit_nat_eq_self)
      then have "in_word ?op (dw_address ?op + of_nat i)" using i by (simp add: in_word_def word_le_nat_alt)
      moreover have "dw_byte ?op a = None" for a by (simp add: dw_byte_def k(4))
      ultimately have "dw_byte r' (dw_address ?op + of_nat i) = store_byte c zs (dw_address ?op + of_nat i)"
        using W'(4) by (auto split: option.splits)
      moreover have "byte_of (dw_value op') i = byte_of ?v i" using op'(6) i by simp
      ultimately show ?thesis using op''(2) that i op'(5) by (simp add: op'(2) split: option.splits)
    next
      case False
      then show ?thesis using op''(2) that op'(5) by simp
    qed
    ultimately show ?thesis by auto
  qed
qed

section \<open>Stores\<close>

lemma older_flag: "di_load_ordering_violation (the_inst i (setLoadOrderingViolation i c)) \<longleftrightarrow> i < length (c_inst_buffer c) \<or> di_load_ordering_violation (the_inst i c)"
  by (simp add: setLoadOrderingViolation_def the_set_inst)

text \<open>
  The walk of a store, with the older entries first: what \<open>dw\<close> holds in its own range is what the youngest store of the
  part that was passed has there.
\<close>

lemma store_walk_finds:
  assumes "\<forall>j \<in> set (zs @ l # ys). dw_ok (di_mem_operand (the_inst j c)) \<and> (isstore (getOpcode (the_inst j c)) \<or> isload (getOpcode (the_inst j c)))"
    "dw_fits dw" "in_word dw a" "isload (getOpcode (the_inst l c))" "\<not> isstore (getOpcode (the_inst l c))" "isMemoryIssued (the_inst l c)"
    "dw_byte (di_mem_operand (the_inst l c)) a = Some b"
    "(case store_byte c (rev zs) a of None \<Rightarrow> dw_byte dw a | Some e \<Rightarrow> Some e) = Some e" "b \<noteq> e"
  shows "\<exists>i \<in> set (zs @ [l]). store_walk stack (zs @ l # ys) dw c = Inr (Some i)
    \<and> isload (getOpcode (the_inst i c)) \<and> \<not> isstore (getOpcode (the_inst i c))"
  using assms(1-3,8)
proof (induction zs arbitrary: dw)
  case Nil
  let ?d = "di_mem_operand (the_inst l c)"
  have ok: "dw_ok ?d" using Nil.prems(1) by simp
  then have fits: "dw_fits ?d" by (simp add: dw_ok_def)
  have "overlaps ?d dw" using disjoint_bytes [OF _ ok Nil.prems(2,3)] assms(7) by auto
  moreover have "dw_byte dw a = Some e" using Nil.prems(4) by simp
  ultimately have "overlapMatches stack ?d dw = Inr False"
    using overlapMatches_ok [OF _ fits Nil.prems(2)] assms(7,9) by auto
  then show ?case using assms(4-6) by (simp add: Let_def older_load_def)
next
  case (Cons j zs)
  let ?d = "the_inst j c"
  have ok: "dw_ok (di_mem_operand ?d)" using Cons.prems(1) by simp
  have zs: "\<forall>j \<in> set (zs @ l # ys). dw_ok (di_mem_operand (the_inst j c)) \<and> (isstore (getOpcode (the_inst j c)) \<or> isload (getOpcode (the_inst j c)))"
    using Cons.prems(1) by simp
  show ?case
  proof (cases "isstore (getOpcode ?d)")
    case True
    obtain d1 where d1: "overlay (di_mem_operand ?d) dw = Inr d1" "dw_address d1 = dw_address dw" "dw_size d1 = dw_size dw"
      "\<forall>a. in_word dw a \<longrightarrow> dw_byte d1 a = (case dw_byte (di_mem_operand ?d) a of None \<Rightarrow> dw_byte dw a | Some b \<Rightarrow> Some b)"
      using overlay_ok [OF ok Cons.prems(2)] by auto
    have fits: "dw_fits d1" and word: "in_word d1 a" using Cons.prems(2,3) by (simp_all add: dw_fits_def in_word_def d1(2,3))
    have "(case store_byte c (rev zs) a of None \<Rightarrow> dw_byte d1 a | Some e \<Rightarrow> Some e) = Some e"
      using Cons.prems(3,4) d1(4) True by (auto simp: store_byte_append split: option.splits)
    from Cons.IH [OF zs fits word this] show ?thesis using True d1(1) by (auto simp: Let_def)
  next
    case False
    then have load: "isload (getOpcode ?d)" using Cons.prems(1) by auto
    have "(case store_byte c (rev zs) a of None \<Rightarrow> dw_byte dw a | Some e \<Rightarrow> Some e) = Some e"
      using Cons.prems(4) False by (auto simp: store_byte_append split: option.splits)
    note IH = Cons.IH [OF zs Cons.prems(2,3) this]
    have fits: "dw_fits (di_mem_operand ?d)" using ok by (simp add: dw_ok_def)
    have "\<exists>g. overlapMatches stack (di_mem_operand ?d) dw = Inr g"
      using overlapMatches_ok [OF _ fits Cons.prems(2), of stack] by (cases "overlaps (di_mem_operand ?d) dw") (auto simp: overlapMatches_def)
    then obtain g where g: "overlapMatches stack (di_mem_operand ?d) dw = Inr g" by auto
    show ?thesis
    proof (cases "isMemoryIssued ?d \<and> \<not> g")
      case True
      then show ?thesis using False load g by (auto simp: Let_def older_load_def)
    next
      case good: False
      then show ?thesis using False load g IH by (auto simp: Let_def)
    qed
  qed
qed

text \<open>A younger load with a wrong byte in the range of the store: the walk stops at it or at an older load.\<close>

lemma storeSearch_ok:
  assumes "lsq_ok c" "lsq_list (operand_line k c) c = ys1 @ l # ys2 @ k # zs"
    "isstore (getOpcode (the_inst k c))" "isload (getOpcode (the_inst l c))" "\<not> isstore (getOpcode (the_inst l c))"
    "isMemoryIssued (the_inst l c)" "in_word (di_mem_operand (the_inst k c)) a"
    "dw_byte (di_mem_operand (the_inst l c)) a = Some b" "store_byte c (ys2 @ [k]) a = Some e" "b \<noteq> e"
  shows "\<exists>c'. storeSearch stack k c = Inr c' \<and> (\<exists>i \<in> set (l # ys2). isload (getOpcode (the_inst i c)) \<and> di_load_ordering_violation (the_inst i c'))"
proof -
  let ?a = "operand_line k c" and ?xs = "lsq_list (operand_line k c) c"
  define c1 where "c1 = set_lsq_list ?a ?xs c"
  have c1: "the_inst j c1 = the_inst j c" "c_inst_buffer c1 = c_inst_buffer c" for j by (simp_all add: c1_def)
  have sb: "store_byte c1 xs a = store_byte c xs a" for xs a by (induction xs) (auto simp: c1)
  have ok: "sorted_wrt (younger c) ?xs" "\<forall>j \<in> set ?xs. entry_ok c ?a j" using assms(1) by (auto simp: lsq_ok_def)
  have k: "k \<notin> set (ys1 @ l # ys2)" "k \<notin> set zs"
    using distinct_younger [of c "ys1 @ l # ys2" k zs] ok(1) assms(2) by auto
  have rest: "dropWhile (\<lambda>j. j \<noteq> k) (rev ?xs) = (k # rev ys2) @ l # rev ys1"
    using k(2) by (auto simp: assms(2) dropWhile_append2 dropWhile_append)
  have entries: "\<forall>j \<in> set ((k # rev ys2) @ l # rev ys1). dw_ok (di_mem_operand (the_inst j c1))
      \<and> (isstore (getOpcode (the_inst j c1)) \<or> isload (getOpcode (the_inst j c1)))"
    using ok(2) by (auto simp: assms(2) c1 entry_ok_def)
  have fits: "dw_fits (di_mem_operand (the_inst k c))" using entries by (auto simp: c1 dw_ok_def)
  have byte: "(case store_byte c1 (rev (k # rev ys2)) a of None \<Rightarrow> dw_byte (di_mem_operand (the_inst k c)) a | Some e \<Rightarrow> Some e) = Some e"
    using assms(9) by (simp add: sb)
  obtain i where i: "i \<in> set ((k # rev ys2) @ [l])" "store_walk stack ((k # rev ys2) @ l # rev ys1) (di_mem_operand (the_inst k c)) c1 = Inr (Some i)"
    "isload (getOpcode (the_inst i c))" "\<not> isstore (getOpcode (the_inst i c))"
    using store_walk_finds [OF entries fits assms(7) _ _ _ _ byte assms(10)] assms(4-6,8) unfolding c1 by blast
  have search: "storeSearch stack k c = Inr (setLoadOrderingViolation i c1)"
    using rest i(2) assms(2) by (simp add: storeSearch_def Let_def c1_def del: store_walk.simps)
  have "i \<in> set (l # ys2)" using i(1,4) assms(3) by auto
  moreover have "i < length (c_inst_buffer c)" using ok(2) i(1) by (auto simp: assms(2) entry_ok_def)
  ultimately show ?thesis using search i(3) by (auto simp: older_flag c1)
qed

end
