(* ===== verification/LoadProperties.thy ===== *)
theory LoadProperties
  imports LoadSafety DynamicInst
begin

text \<open>The properties of the load/store queue, with a store and a load of one line as their witnesses.\<close>

section \<open>A store and a load\<close>

definition no_inst :: dynamic_inst where
  "no_inst =
     \<lparr>di_trans_op = TransOp OP_nop 0 0 0 0 0 0 0 0, di_executed = False, di_lsq_inserted = False, di_unaligned = False,
      di_mispredicted = False, di_load_ordering_violation = False, di_load_consistency_violation = False, di_check_exception = False,
      di_starts_x86_op = False, di_ends_x86_op = False, di_rip = 0, di_pred_target = 0, di_latency = 0, di_q_ptr = 0,
      di_ra_preg = REG_NULL_SRC, di_rb_preg = REG_NULL_SRC, di_rc_preg = REG_NULL_SRC, di_rd_preg = REG_NULL_DEST,
      di_rd_preg_old = REG_NULL_DEST, di_rcf_preg_old = REG_NULL_DEST, di_rof_preg_old = REG_NULL_DEST,
      di_rzapsf_preg_old = REG_NULL_DEST, di_mem_operand = dw_clear, di_stage = FETCH_STAGE\<rparr>"

definition empty_core :: "nat \<Rightarrow> core" where
  "empty_core q =
     \<lparr>c_physical_file = \<lparr>pf_values = [], pf_flags = [], pf_writers = [], pf_ready = [], pf_ref_counts = [], pf_free_list = [],
        pf_links = detached_links\<rparr>,
      c_front_end_map = LogicalFile, c_retire_map = LogicalFile, c_inst_buffer = replicate BUF_SIZE no_inst, c_q_head = q,
      c_q_tail = q, c_q_rename = q, c_q_execute = q, c_q_retire = q, c_q_oldest_bad = None, c_lsq = (\<lambda>_. None), c_address_mask = 0\<rparr>"

definition word_inst :: "nat \<Rightarrow> nat \<Rightarrow> stage_type \<Rightarrow> double_word \<Rightarrow> dynamic_inst" where
  "word_inst opcode q s d = no_inst\<lparr>di_trans_op := TransOp opcode 0 0 0 0 2 0 0 0, di_q_ptr := q, di_stage := s, di_mem_operand := d\<rparr>"

text \<open>A store of four bytes and a younger load of the first two of them.\<close>

definition stored_word :: double_word where
  "stored_word = \<lparr>dw_value = 0x11223344, dw_address = 0x1000, dw_size = 4, dw_bytemask = 15\<rparr>"

definition store_and_load :: "stage_type \<Rightarrow> double_word \<Rightarrow> core" where
  "store_and_load s d =
     (empty_core 0)\<lparr>c_inst_buffer := [word_inst OP_st 0 MEMORY_STAGE stored_word, word_inst OP_ld 1 s d],
       c_lsq := [0x1000 \<mapsto> [1, 0]], c_address_mask := NOT 7\<rparr>"

definition word_lists :: "waiter set" where
  "word_lists = range Store_list"

lemma word_inst_simps [simp]:
  "getOpcode (word_inst opcode q s d) = opcode" "di_q_ptr (word_inst opcode q s d) = q" "di_stage (word_inst opcode q s d) = s"
  "di_mem_operand (word_inst opcode q s d) = d" "t_cond (di_trans_op (word_inst opcode q s d)) = 0"
  by (simp_all add: word_inst_def TransOp_def)

lemma store_and_load_simps [simp]:
  "the_inst 0 (store_and_load s d) = word_inst OP_st 0 MEMORY_STAGE stored_word"
  "the_inst 1 (store_and_load s d) = word_inst OP_ld 1 s d" "the_inst (Suc 0) (store_and_load s d) = word_inst OP_ld 1 s d"
  "lsq_list a (store_and_load s d) = (if a = 0x1000 then [1, 0] else [])"
  "c_links (store_and_load s d) = detached_links" "length (c_inst_buffer (store_and_load s d)) = 2"
  "c_address_mask (store_and_load s d) = NOT 7"
  by (simp_all add: store_and_load_def the_inst_def lsq_list_def empty_core_def)

lemma word_classes [simp]: "isstore OP_st" "\<not> isload OP_st" "isload OP_ld" "\<not> isstore OP_ld"
  by (simp_all add: isstore_def isload_def isclass_def opinfo_def)

lemma stored_word_ok: "dw_ok stored_word" "alignedAddr (NOT 7) stored_word = 0x1000"
proof -
  have "(15 :: 8 word) = mask 4" by (simp add: mask_eq_exp_minus_1)
  then have "k < 4" if "bit (15 :: 8 word) k" for k using that by (simp only: bit_mask_iff)
  then show "dw_ok stored_word" by (auto simp: dw_ok_def dw_fits_def stored_word_def dest: bit_imp_le_length)
qed (simp add: stored_word_def alignedAddr_def)

lemma store_and_load_ok:
  assumes "dw_ok d" "alignedAddr (NOT 7) d = 0x1000"
  shows "lsq_ok (store_and_load s d)" "operand_line 1 (store_and_load s d) = 0x1000" "operand_line 0 (store_and_load s d) = 0x1000"
  using assms stored_word_ok by (auto simp: lsq_ok_def younger_def entry_ok_def operand_line_def)

section \<open>Loads\<close>

text \<open>C23: An aligned plain load (\<open>ld\<close>, not the sign-extending \<open>ldx\<close>) that has not read its value and waits nowhere gets every byte from the youngest older store in the
  queue that has it, and from memory when no older store has it; bytes beyond its size are zero. It waits only when an
  older store that overlaps it has not been issued, and then it is the last waiter in the list of such a store.
\<close>

theorem load_takes_youngest_store:
  assumes "load_ok k H L c" "lsq_list (operand_line k c) c = ys @ k # zs"
  shows "\<exists>res c'. load_value rd m_rb k c = Inr (res, c') \<and>
    (case res of
       Some v \<Rightarrow> \<forall>i < 8. byte_of v i =
         (if i < unat (dw_size (di_mem_operand (the_inst k c)))
          then case store_byte c zs (dw_address (di_mem_operand (the_inst k c)) + of_nat i) of
                 None \<Rightarrow> byte_of (rd (dw_address (di_mem_operand (the_inst k c))) (unat (dw_size (di_mem_operand (the_inst k c))))) i
               | Some b \<Rightarrow> b
          else 0)
     | None \<Rightarrow> \<exists>j \<in> set zs. isstore (getOpcode (the_inst j c)) \<and> \<not> isMemoryIssued (the_inst j c)
         \<and> overlaps (di_mem_operand (the_inst k c)) (di_mem_operand (the_inst j c))
         \<and> rings H (L(Store_list j := L (Store_list j) @ [Inst k])) (c_links c'))"
  by (rule load_value_ok [OF assms])

definition loaded_word :: "8 word \<Rightarrow> 64 word \<Rightarrow> double_word" where
  "loaded_word m v = \<lparr>dw_value = v, dw_address = 0x1000, dw_size = 2, dw_bytemask = m\<rparr>"

theorem load_takes_youngest_store_witness:
  "load_ok 1 word_lists (\<lambda>_. []) (store_and_load READY_STAGE (loaded_word 0 0))
    \<and> (\<exists>v c'. load_value (\<lambda>_ _. 0) 0 1 (store_and_load READY_STAGE (loaded_word 0 0)) = Inr (Some v, c')
         \<and> byte_of v 0 = 0x44 \<and> byte_of v 1 = 0x33 \<and> byte_of v 2 = 0)"
proof -
  let ?c = "store_and_load READY_STAGE (loaded_word 0 0)"
  have d: "dw_ok (loaded_word 0 0)" "alignedAddr (NOT 7) (loaded_word 0 0) = 0x1000"
    by (simp_all add: dw_ok_def dw_fits_def loaded_word_def alignedAddr_def)
  have ok: "load_ok 1 word_lists (\<lambda>_. []) ?c"
    using store_and_load_ok [OF d] detached_rings [of word_lists]
    by (auto simp: load_ok_def word_lists_def loaded_word_def detached_links_def detached_def LDST_ALIGN_NORMAL_def)
  have b: "store_byte ?c [0] (0x1000 + of_nat i) = (if i = 0 then Some 0x44 else if i = 1 then Some 0x33 else None)" if "i < 2" for i
    using that by (auto simp: less_2_cases_iff dw_byte_def stored_word_def byte_of_def Let_def)
  have list: "lsq_list (operand_line 1 ?c) ?c = [] @ 1 # [0]" unfolding store_and_load_ok(2) [OF d] by simp
  obtain res c' where r: "load_value (\<lambda>_ _. 0) 0 1 ?c = Inr (res, c')" and v: "case res of
       Some v \<Rightarrow> \<forall>i < 8. byte_of v i =
         (if i < unat (dw_size (di_mem_operand (the_inst 1 ?c)))
          then case store_byte ?c [0] (dw_address (di_mem_operand (the_inst 1 ?c)) + of_nat i) of
                 None \<Rightarrow> byte_of 0 i | Some b \<Rightarrow> b
          else 0)
     | None \<Rightarrow> \<exists>j \<in> set [0]. isstore (getOpcode (the_inst j ?c)) \<and> \<not> isMemoryIssued (the_inst j ?c)
         \<and> overlaps (di_mem_operand (the_inst 1 ?c)) (di_mem_operand (the_inst j ?c))
         \<and> rings word_lists ((\<lambda>_. [])(Store_list j := [] @ [Inst 1])) (c_links c')"
    using load_takes_youngest_store [OF ok list, of "\<lambda>_ _. 0" 0] by blast
  show ?thesis
  proof (cases res)
    case None
    with v show ?thesis by (simp add: isMemoryIssued_def)
  next
    case (Some v1)
    have "byte_of v1 0 = 0x44" "byte_of v1 1 = 0x33" "byte_of v1 2 = 0"
      using v b [of 0] b [of 1] unfolding Some by (simp_all add: loaded_word_def)
    then show ?thesis using ok r Some by blast
  qed
qed

section \<open>Stores\<close>

text \<open>C24: A store that becomes known after a younger load of its line was issued does not leave a wrong value behind: when
  some byte of the load in the range of the store differs from the byte that the youngest store between them has, or the
  store itself, the search marks an issued load with an ordering violation, this one or an older one that is still younger
  than the store, so that the load is replayed.
\<close>

theorem wrong_load_is_found:
  assumes "lsq_ok c" "lsq_list (operand_line k c) c = ys1 @ l # ys2 @ k # zs"
    "isstore (getOpcode (the_inst k c))" "isload (getOpcode (the_inst l c))" "\<not> isstore (getOpcode (the_inst l c))"
    "isMemoryIssued (the_inst l c)" "in_word (di_mem_operand (the_inst k c)) a"
    "dw_byte (di_mem_operand (the_inst l c)) a = Some b" "store_byte c (ys2 @ [k]) a = Some e" "b \<noteq> e"
  shows "\<exists>c'. storeSearch stack k c = Inr c' \<and> (\<exists>i \<in> set (l # ys2). isload (getOpcode (the_inst i c)) \<and> di_load_ordering_violation (the_inst i c'))"
  by (rule storeSearch_ok [OF assms])

theorem wrong_load_is_found_witness:
  "\<exists>c'. storeSearch 0 0 (store_and_load MEMORY_STAGE (loaded_word 3 0)) = Inr c'
    \<and> \<not> di_load_ordering_violation (the_inst 1 (store_and_load MEMORY_STAGE (loaded_word 3 0)))
    \<and> di_load_ordering_violation (the_inst 1 c')"
proof -
  let ?c = "store_and_load MEMORY_STAGE (loaded_word 3 0)"
  have "(3 :: 8 word) = mask 2" by (simp add: mask_eq_exp_minus_1)
  then have "i < 2" if "bit (3 :: 8 word) i" for i using that by (simp only: bit_mask_iff)
  then have d: "dw_ok (loaded_word 3 0)" "alignedAddr (NOT 7) (loaded_word 3 0) = 0x1000"
    by (auto simp: dw_ok_def dw_fits_def loaded_word_def alignedAddr_def)
  have l: "lsq_list (operand_line 0 ?c) ?c = [] @ 1 # [] @ 0 # []" unfolding store_and_load_ok(3) [OF d] by simp
  have "\<exists>c'. storeSearch 0 0 ?c = Inr c' \<and> (\<exists>i \<in> set [1]. isload (getOpcode (the_inst i ?c)) \<and> di_load_ordering_violation (the_inst i c'))"
    by (rule wrong_load_is_found [OF store_and_load_ok(1) [OF d] l, where a = 4096 and b = 0 and e = 68])
      (simp_all add: isMemoryIssued_def in_word_def dw_byte_def loaded_word_def stored_word_def byte_of_def)
  then show ?thesis by (auto simp: word_inst_def no_inst_def)
qed

end
