(* ===== verification/PyriteProperties.thy ===== *)
theory PyriteProperties
  imports WindowReach LoadProperties
begin

text \<open>
  The properties of the out-of-order core. Their witnesses start from an empty window with the registers of a small
  architectural state.
\<close>

section \<open>A small core\<close>

definition zero_state :: arch_state where
  "zero_state = \<lparr>as_64bit = True, as_reg = (\<lambda>_. 0), as_xmm = replicate 16 (0, 0), as_context = 0, as_fpstack = 0, as_fpu_status = 0, as_fpu_tag = 0\<rparr>"

text \<open>\<open>add rax = rax + rcx\<close>, which writes all flags.\<close>

definition add_uop :: trans_op where
  "add_uop = TransOp OP_add 0 0 1 REG_imm 3 0 0 7"

lemma empty_core_window: "empty_window (empty_core q)"
proof -
  have "rings wait_lists (\<lambda>_. []) (c_links (empty_core q))" using detached_rings by (simp add: empty_core_def)
  moreover have "lists_ok q q (\<lambda>_. []) (empty_core q)" by (simp add: lists_ok_def)
  ultimately show ?thesis by (auto simp: empty_window_def empty_core_def)
qed

lemma add_uop_ok:
  assumes "\<forall>num \<in> set (arch_slots zero_state). src_ok m num"
  shows "uop_ok m add_uop" "\<not> isbranch (t_opcode add_uop)"
proof -
  show nb: "\<not> isbranch (t_opcode add_uop)" by (simp add: add_uop_def TransOp_def isbranch_def isclass_def opinfo_def OPCLASS_BRANCH_def)
  have "src_ok m 0" "src_ok m 1" using assms by (simp_all add: arch_slots_def general_registers_def)
  then show "uop_ok m add_uop" using nb by (simp add: uop_ok_def legal_uop_def) (simp add: add_uop_def TransOp_def)
qed

text \<open>A reachable core with one renamed instruction.\<close>

lemma renamed_core:
  "\<exists>c. window_reachable c \<and> c_q_tail c = 1 \<and> c_q_rename c = 2 \<and> c_q_head c = 2 \<and> fetchable [add_uop] c"
proof -
  have x: "length (as_xmm zero_state) \<le> 16" by (simp add: zero_state_def)
  have q: "c_q_tail (empty_core 1) = 1" "c_q_head (empty_core 1) = 1" "c_q_rename (empty_core 1) = 1" by (simp_all add: empty_core_def)
  obtain c1 L where c1: "reset_registers zero_state (empty_core 1) = Inr c1"
    "core_ok 1 1 1 L c1" "\<forall>num \<in> set (arch_slots zero_state). src_ok (c_front_end_map c1) num" "c_front_end_map c1 = c_retire_map c1"
    "c_q_tail c1 = 1" "c_q_head c1 = 1" "c_q_rename c1 = 1" using reset_registers_ok [OF empty_core_window [of 1] x] unfolding q by blast
  have r1: "window_reachable c1" by (rule window_reachable.start [OF empty_core_window _ c1(1)]) (simp add: zero_state_def)
  have ad: "uop_ok (c_retire_map c1) add_uop" "\<not> isbranch (t_opcode add_uop)" using add_uop_ok [OF c1(3)] c1(4) by simp_all
  then have f1: "fetchable [add_uop] c1" using c1(5,6) by (simp add: fetchable_def MAX_TRANSOPS_PER_USER_INSN_def BUF_SIZE_def)
  have "core_ok 1 1 (c_q_head c1) L c1" unfolding c1(6) by (rule c1(2))
  then have "\<exists>c'. place_uops 3 0 [add_uop] c1 = Inr c' \<and> core_ok 1 1 (c_q_head c1 + length [add_uop]) L c' \<and> c_q_head c' = c_q_head c1
    \<and> c_q_rename c' = c_q_rename c1 \<and> c_q_tail c' = c_q_tail c1 \<and> c_retire_map c' = c_retire_map c1
    \<and> (\<forall>i < length [add_uop]. di_trans_op (getDynamicInst (c_q_head c1 + i) c') = [add_uop] ! i)"
    by (rule place_uops_ok) (use ad c1(5,6) in \<open>simp_all add: MAX_TRANSOPS_PER_USER_INSN_def BUF_SIZE_def\<close>)
  moreover have two: "c_q_head c1 + length [add_uop] = 2" using c1(6) by simp
  ultimately obtain c2 where c2: "place_uops 3 0 [add_uop] c1 = Inr c2" "core_ok 1 1 2 L c2" "c_q_rename c2 = 1" "c_q_tail c2 = 1"
    "c_retire_map c2 = c_retire_map c1" "di_trans_op (getDynamicInst 1 c2) = add_uop"
    unfolding two c1(5-7) by (auto simp: numeral_2_eq_2)
  define c3 where "c3 = c2\<lparr>c_q_head := 2\<rparr>"
  have "window_step c1 c3" using window_step.fetch [OF f1 c2(1)] c1(6) by (simp add: c3_def numeral_2_eq_2)
  then have r3: "window_reachable c3" using r1 window_reachable.step by blast
  have "core_ok 1 1 2 L c3" by (rule core_ok_cong [OF c2(2)]) (simp_all add: c3_def)
  then have k3: "core_ok 1 (c_q_rename c3) (c_q_head c3) L c3" using c2(3) by (simp add: c3_def)
  have g3: "getDynamicInst 1 c3 = getDynamicInst 1 c2" by (simp add: c3_def getDynamicInst_def the_inst_def)
  have legal: "uopIsLegal (getDynamicInst 1 c3)" unfolding uopIsLegal_def g3 c2(6) by (simp add: add_uop_def TransOp_def reg_defs)
  have p3: "c_q_rename c3 = 1" "c_q_head c3 = 2" "c_q_tail c3 = 1" "c_retire_map c3 = c_retire_map c1" using c2 by (simp_all add: c3_def)
  obtain c4 where c4: "rename_window 4 80 2 c3 = Inr c4" "core_ok 1 (c_q_rename c4) (c_q_head c4) L c4" "c_q_head c4 = 2" "c_q_tail c4 = 1"
    "c_retire_map c4 = c_retire_map c1" "1 < c_q_rename c4"
    using rename_window_ok [OF k3, of 2 4 80] p3 legal by auto
  have "window_step c3 c4" using window_step.rename [of 2 c3 4 80 c4] c4(1) p3 by simp
  then have "window_reachable c4" using r3 window_reachable.step by blast
  moreover have "c_q_rename c4 = 2" using core_okD(1) [OF c4(2)] c4(3,6) by (simp add: window_ok_def)
  moreover have "fetchable [add_uop] c4" using ad c4 by (simp add: fetchable_def MAX_TRANSOPS_PER_USER_INSN_def BUF_SIZE_def)
  ultimately show ?thesis using c4 by blast
qed

section \<open>Renaming\<close>

abbreviation all_refs :: "core \<Rightarrow> phys_name multiset" where
  "all_refs c \<equiv> mregs (c_front_end_map c) + (mregs (c_retire_map c) + all_held (flight (c_q_tail c) (c_q_rename c) c))"

text \<open>C15: In every core that fetching, renaming, executing, flushing, replaying, committing and resetting can reach, the
  reference count of each physical register is the number of references to it in the front-end map, in the retirement map
  and in the renamed instructions, and the free list holds exactly the registers without a reference, each once.
\<close>

theorem references_are_exact:
  assumes "window_reachable c"
  shows "(\<forall>p. 0 \<le> p \<and> p < num_regs (c_physical_file c) \<longrightarrow> pf_ref_counts (c_physical_file c) ! nat p = int (count (all_refs c) p))
    \<and> distinct (pf_free_list (c_physical_file c))
    \<and> set (pf_free_list (c_physical_file c)) = {p. 0 \<le> p \<and> p < num_regs (c_physical_file c) \<and> count (all_refs c) p = 0}
    \<and> (\<forall>p \<in># all_refs c. 0 \<le> p \<and> p < num_regs (c_physical_file c))"
proof -
  obtain L where "core_ok (c_q_tail c) (c_q_rename c) (c_q_head c) L c" using window_reachable_inv [OF assms] by (auto simp: core_inv_def)
  then have "pf_inv {} (all_refs c) (all_srcs (flight (c_q_tail c) (c_q_rename c) c)) L (c_physical_file c)"
    by (simp add: core_ok_def regs_ok_def)
  from pf_invD [OF this] show ?thesis
    unfolding counts_ok_def free_ok_def names_ok_def by (simp add: set_eq_iff not_in_iff)
qed

theorem references_are_exact_witness:
  "\<exists>c. window_reachable c \<and> c_q_rename c = Suc (c_q_tail c)
    \<and> (\<forall>p. 0 \<le> p \<and> p < num_regs (c_physical_file c) \<longrightarrow> pf_ref_counts (c_physical_file c) ! nat p = int (count (all_refs c) p))"
proof -
  obtain c where "window_reachable c" "c_q_tail c = 1" "c_q_rename c = 2" using renamed_core by blast
  then show ?thesis using references_are_exact [of c] by (intro exI [of _ c]) simp
qed

text \<open>C20: In every reachable core the operations of the window succeed: the micro-operations of an instruction can be placed
  when there is room for them, renaming, flushing, replaying and resetting return without a failed assertion, and so does
  committing instructions that are complete.
\<close>

theorem window_never_fails:
  assumes "window_reachable c"
  shows "(fetchable uops c \<longrightarrow> (\<exists>c'. place_uops latency rip uops c = Inr c'))
    \<and> (fetched_to \<le> c_q_head c \<longrightarrow> (\<exists>c'. rename_window width rob_size fetched_to c = Inr c'))
    \<and> (c_q_tail c \<le> q \<and> q \<le> c_q_rename c \<and> 0 < q \<longrightarrow> (\<exists>c'. flush_window q c = Inr c') \<and> (\<exists>c'. replay_window q c = Inr c'))
    \<and> (c_q_tail c \<le> q \<and> q < c_q_rename c \<and> all_complete q c \<longrightarrow> (\<exists>user_flags c'. commit_group q c = Inr (user_flags, c')))
    \<and> (length (as_xmm a) \<le> 16 \<longrightarrow> (\<exists>c' c''. reset_window c = Inr c' \<and> reset_registers a c' = Inr c''))"
proof -
  obtain L where ok: "core_ok (c_q_tail c) (c_q_rename c) (c_q_head c) L c" using window_reachable_inv [OF assms] by (auto simp: core_inv_def)
  show ?thesis
  proof (intro conjI impI)
    show "\<exists>c'. place_uops latency rip uops c = Inr c'" if "fetchable uops c"
      using place_uops_ok [OF ok] that unfolding fetchable_def by blast
    show "\<exists>c'. rename_window width rob_size fetched_to c = Inr c'" if "fetched_to \<le> c_q_head c"
      using rename_window_ok [OF ok that] by blast
    show "\<exists>c'. flush_window q c = Inr c'" "\<exists>c'. replay_window q c = Inr c'" if "c_q_tail c \<le> q \<and> q \<le> c_q_rename c \<and> 0 < q"
      using flush_window_ok [OF ok] replay_window_ok [OF ok] that by blast+
    show "\<exists>user_flags c'. commit_group q c = Inr (user_flags, c')" if "c_q_tail c \<le> q \<and> q < c_q_rename c \<and> all_complete q c"
      using commit_group_ok [OF ok] that unfolding all_complete_def by blast
    show "\<exists>c' c''. reset_window c = Inr c' \<and> reset_registers a c' = Inr c''" if "length (as_xmm a) \<le> 16"
    proof -
      obtain c' L' where c': "reset_window c = Inr c'" "core_ok (c_q_tail c') (c_q_tail c') (c_q_tail c') L' c'" "c_q_head c' = c_q_tail c'" "c_q_rename c' = c_q_tail c'"
        using reset_window_ok [OF ok] by auto
      from reset_registers_ok [OF empty_window_ok [OF c'(2-4)] that] c'(1) show ?thesis by blast
    qed
  qed
qed

theorem window_never_fails_witness:
  "\<exists>c. window_reachable c \<and> fetchable [add_uop] c \<and> (\<exists>c'. place_uops 3 0 [add_uop] c = Inr c') \<and> (\<exists>c'. flush_window 1 c = Inr c')
    \<and> (\<exists>c'. replay_window 1 c = Inr c') \<and> (\<exists>c' c''. reset_window c = Inr c' \<and> reset_registers zero_state c' = Inr c'')"
proof -
  obtain c where "window_reachable c" "c_q_tail c = 1" "c_q_rename c = 2" "fetchable [add_uop] c" using renamed_core by blast
  then show ?thesis using window_never_fails [of c "[add_uop]" 3 0 0 0 0 1 zero_state] by (intro exI [of _ c]) (simp add: zero_state_def)
qed

text \<open>C22: Flushing the instructions from \<open>q\<close> on gives the front-end map back as the older instructions left it: it is the
  retirement map with the writes of the instructions before \<open>q\<close>, in their order. In particular a flush of the whole
  window leaves the retirement map. The flushed instructions are gone from the window and no older one is changed.
\<close>

theorem flush_restores_map:
  assumes "window_reachable c" "c_q_tail c \<le> q" "q \<le> c_q_rename c" "0 < q"
  shows "\<exists>c'. flush_window q c = Inr c' \<and> c_q_head c' = q \<and> c_q_rename c' = q \<and> c_retire_map c' = c_retire_map c
    \<and> c_front_end_map c' = fold remap (flight (c_q_tail c) q c) (c_retire_map c)
    \<and> c_front_end_map c = fold remap (flight q (c_q_rename c) c) (c_front_end_map c')
    \<and> c_q_tail c' = c_q_tail c
    \<and> (\<forall>q'. c_q_tail c \<le> q' \<and> q' < q \<longrightarrow> getDynamicInst q' c' = getDynamicInst q' c)"
proof -
  obtain L where ok: "core_ok (c_q_tail c) (c_q_rename c) (c_q_head c) L c" using window_reachable_inv [OF assms(1)] by (auto simp: core_inv_def)
  obtain c' where c': "flush_window q c = Inr c'" "c_q_head c' = q" "c_q_rename c' = q" "c_retire_map c' = c_retire_map c"
    "c_front_end_map c' = fold remap (flight (c_q_tail c) q c) (c_retire_map c)" "c_q_tail c' = c_q_tail c"
    "\<forall>q'. c_q_tail c \<le> q' \<and> q' < q \<longrightarrow> getDynamicInst q' c' = getDynamicInst q' c"
    using flush_window_ok [OF ok assms(2-4)] by blast
  have "[c_q_tail c..<c_q_rename c] = [c_q_tail c..<q] @ [q..<c_q_rename c]" using assms(2,3) by (metis le_add_diff_inverse upt_add_eq_append)
  then have "flight (c_q_tail c) (c_q_rename c) c = flight (c_q_tail c) q c @ flight q (c_q_rename c) c" by simp
  moreover have "c_front_end_map c = fold remap (flight (c_q_tail c) (c_q_rename c) c) (c_retire_map c)"
    using core_okD(4) [OF ok] unfolding regs_ok_def by (intro chain_value) blast
  ultimately have "c_front_end_map c = fold remap (flight q (c_q_rename c) c) (c_front_end_map c')" unfolding c'(5) by simp
  then show ?thesis using c' by blast
qed

theorem flush_restores_map_witness:
  "\<exists>c. window_reachable c \<and> c_q_rename c = Suc (c_q_tail c) \<and> (\<exists>c'. flush_window (c_q_tail c) c = Inr c' \<and> c_front_end_map c' = c_retire_map c)"
proof -
  obtain c where "window_reachable c" "c_q_tail c = 1" "c_q_rename c = 2" using renamed_core by blast
  then show ?thesis using flush_restores_map [of c 1] by (intro exI [of _ c]) auto
qed

end
