(* ===== verification/DramConfig.thy ===== *)
theory DramConfig
  imports Fes2_Prelude
begin

text \<open>
  The configuration and the data types of DRAMSim2: SystemConfiguration.h with its enumerations,
  latency macros and \<open>dramsim_log2\<close>, BusPacket, BankState and Transaction. A \<open>uint\<close>
  variable is a natural number below \<open>2 ^ 32\<close> and the macros wrap as the C++ expressions do.
  Global variables that an ini file sets are the fields of one record, an argument of the
  operations. \<open>NO_STORAGE\<close> is the preprocessor symbol of that name, which the build files
  of the simulator define.
\<close>

section \<open>Enumerations\<close>

datatype AddressMappingScheme = Scheme1 | Scheme2 | Scheme3 | Scheme4 | Scheme5 | Scheme6

datatype RowBufferPolicy = OpenPage | ClosePage

datatype QueuingStructure = PerRank | PerRankPerBank

datatype SchedulingPolicy = RankThenBankRoundRobin | BankThenRankRoundRobin

datatype BusPacketType =
  READ | READ_P | WRITE | WRITE_P | ACTIVATE | PRECHARGE | REFRESH | DATA

datatype CurrentBankState = Idle | RowActive | Precharging | Refreshing | PowerDown

datatype TransactionType = DATA_READ | DATA_WRITE | RETURN_DATA

section \<open>Global variables\<close>

text \<open>
  The variables that the ini files set. \<open>tCK\<close> is a \<open>float\<close> that the modelled code only uses in
  \<open>REFRESH_PERIOD/tCK\<close> and \<open>(int)((REFRESH_PERIOD/tCK)/NUM_RANKS)\<close>: the two values, converted to
  integers as the code does, are the fields \<open>REFRESH_CYCLES\<close> and \<open>REFRESH_STAGGER\<close>.
\<close>

record dram_config =
  NUM_BANKS :: nat
  NUM_RANKS :: nat
  NUM_CHANS :: nat
  NUM_ROWS :: nat
  NUM_COLS :: nat
  DEVICE_WIDTH :: nat
  CL :: nat
  AL :: nat
  BL :: nat
  tRAS :: nat
  tRCD :: nat
  tRRD :: nat
  tRC :: nat
  tRP :: nat
  tCCD :: nat
  tRTP :: nat
  tWTR :: nat
  tWR :: nat
  tRTRS :: nat
  tRFC :: nat
  tFAW :: nat
  tCKE :: nat
  tXP :: nat
  tCMD :: nat
  REFRESH_CYCLES :: nat
  REFRESH_STAGGER :: nat
  IDD0 :: nat
  IDD1 :: nat
  IDD2P :: nat
  IDD2Q :: nat
  IDD2N :: nat
  IDD3Pf :: nat
  IDD3Ps :: nat
  IDD3N :: nat
  IDD4W :: nat
  IDD4R :: nat
  IDD5 :: nat
  IDD6 :: nat
  IDD6L :: nat
  IDD7 :: nat
  CACHE_LINE_SIZE :: nat
  JEDEC_DATA_BUS_WIDTH :: nat
  TRANS_QUEUE_DEPTH :: nat
  CMD_QUEUE_DEPTH :: nat
  EPOCH_COUNT :: nat
  TOTAL_ROW_ACCESSES :: nat
  USE_LOW_POWER :: bool
  NO_STORAGE :: bool
  rowBufferPolicy :: RowBufferPolicy
  schedulingPolicy :: SchedulingPolicy
  addressMappingScheme :: AddressMappingScheme
  queuingStructure :: QueuingStructure

section \<open>Latencies\<close>

definition RL :: "dram_config \<Rightarrow> nat" where
  "RL c = u32_add (CL c) (AL c)"

definition WL :: "dram_config \<Rightarrow> nat" where
  "WL c = u32_sub (RL c) 1"

text \<open>\<open>max(((int)tRTP),2)\<close>: the conversion makes a value with the top bit set negative.\<close>

definition tRTP_or_2 :: "dram_config \<Rightarrow> nat" where
  "tRTP_or_2 c = (if tRTP c < 2 ^ 31 then max (tRTP c) 2 else 2)"

definition READ_TO_PRE_DELAY :: "dram_config \<Rightarrow> nat" where
  "READ_TO_PRE_DELAY c = u32_sub (u32_add (u32_add (AL c) (BL c div 2)) (tRTP_or_2 c)) 2"

definition WRITE_TO_PRE_DELAY :: "dram_config \<Rightarrow> nat" where
  "WRITE_TO_PRE_DELAY c = u32_add (u32_add (WL c) (BL c div 2)) (tWR c)"

definition READ_TO_WRITE_DELAY :: "dram_config \<Rightarrow> nat" where
  "READ_TO_WRITE_DELAY c = u32_sub (u32_add (u32_add (RL c) (BL c div 2)) (tRTRS c)) (WL c)"

definition READ_AUTOPRE_DELAY :: "dram_config \<Rightarrow> nat" where
  "READ_AUTOPRE_DELAY c = u32_add (u32_add (AL c) (tRTP c)) (tRP c)"

definition WRITE_AUTOPRE_DELAY :: "dram_config \<Rightarrow> nat" where
  "WRITE_AUTOPRE_DELAY c = u32_add (u32_add (u32_add (WL c) (BL c div 2)) (tWR c)) (tRP c)"

definition WRITE_TO_READ_DELAY_B :: "dram_config \<Rightarrow> nat" where
  "WRITE_TO_READ_DELAY_B c = u32_add (u32_add (WL c) (BL c div 2)) (tWTR c)"

definition WRITE_TO_READ_DELAY_R :: "dram_config \<Rightarrow> nat" where
  "WRITE_TO_READ_DELAY_R c = u32_sub (u32_add (u32_add (WL c) (BL c div 2)) (tRTRS c)) (RL c)"

text \<open>The two delays that are written out in the code.\<close>

definition CAS_TO_CAS_DELAY :: "dram_config \<Rightarrow> nat" where
  "CAS_TO_CAS_DELAY c = max (BL c div 2) (tCCD c)"

definition ACT_TO_CAS_DELAY :: "dram_config \<Rightarrow> nat" where
  "ACT_TO_CAS_DELAY c = u32_sub (tRCD c) (AL c)"

lemma RL_small: "CL c + AL c < 2 ^ 32 \<Longrightarrow> RL c = CL c + AL c"
  by (simp add: RL_def u32_simps)

lemma WL_small: "CL c + AL c < 2 ^ 32 \<Longrightarrow> 0 < CL c + AL c \<Longrightarrow> WL c = CL c + AL c - 1"
  unfolding WL_def by (subst u32_sub_small) (auto simp: RL_small)

text \<open>The write latency is one cycle below the read latency, so in range the macro is positive.\<close>

lemma READ_TO_WRITE_DELAY_value:
  assumes "CL c + AL c + BL c div 2 + tRTRS c < 2 ^ 32" "0 < CL c + AL c"
  shows "READ_TO_WRITE_DELAY c = BL c div 2 + tRTRS c + 1"
proof -
  have "WL c = CL c + AL c - 1" using assms by (intro WL_small) auto
  then show ?thesis using assms by (auto simp: READ_TO_WRITE_DELAY_def RL_small u32_simps)
qed

section \<open>The logarithm\<close>

text \<open>The loop, on the value after the first shift.\<close>

fun log2_loop :: "nat \<Rightarrow> nat \<Rightarrow> nat" where
  "log2_loop value logbase2 = (if value > 0 then log2_loop (value div 2) (logbase2 + 1) else logbase2)"

declare log2_loop.simps [simp del]

definition dramsim_log2 :: "nat \<Rightarrow> nat" where
  "dramsim_log2 orig =
     (let logbase2 = log2_loop (orig div 2) 0
      in if 2 ^ logbase2 mod 2 ^ 32 < orig then logbase2 + 1 else logbase2)"

lemma log2_loop_shift: "log2_loop v n = log2_loop v 0 + n"
proof (induction v arbitrary: n rule: less_induct)
  case (less v)
  show ?case
  proof (cases "v = 0")
    case True
    then show ?thesis by (simp add: log2_loop.simps)
  next
    case False
    then have "v div 2 < v" by simp
    from less.IH [OF this, of "n + 1"] less.IH [OF this, of 1] False show ?thesis
      by (simp add: log2_loop.simps [of v])
  qed
qed

lemma log2_loop_bounds: "0 < v \<Longrightarrow> 2 ^ log2_loop (v div 2) 0 \<le> v \<and> v < 2 ^ (log2_loop (v div 2) 0 + 1)"
proof (induction v rule: less_induct)
  case (less v)
  show ?case
  proof (cases "v = 1")
    case True
    then show ?thesis by (simp add: log2_loop.simps)
  next
    case False
    then have d: "0 < v div 2" "v div 2 < v" using less.prems by auto
    have e: "log2_loop (v div 2) 0 = log2_loop (v div 2 div 2) 0 + 1"
      using d log2_loop_shift [of "v div 2 div 2" 1] by (simp add: log2_loop.simps [of "v div 2"])
    from less.IH [OF d(2,1)] show ?thesis unfolding e by auto
  qed
qed

text \<open>The least exponent whose power of two reaches the value.\<close>

lemma dramsim_log2_least:
  assumes "v < 2 ^ 32"
  shows "v \<le> 2 ^ dramsim_log2 v" and "2 ^ n \<ge> v \<Longrightarrow> dramsim_log2 v \<le> n"
proof -
  let ?l = "log2_loop (v div 2) 0"
  have c: "v \<le> 2 ^ dramsim_log2 v \<and> (2 ^ n \<ge> v \<longrightarrow> dramsim_log2 v \<le> n)"
  proof (cases "v = 0")
    case True
    then show ?thesis by (simp add: dramsim_log2_def log2_loop.simps)
  next
    case False
    then have b: "2 ^ ?l \<le> v" "v < 2 ^ (?l + 1)" using log2_loop_bounds [of v] by auto
    have "(2::nat) ^ ?l < 2 ^ 32" using b(1) assms by simp
    then have m: "2 ^ ?l mod 2 ^ 32 = (2::nat) ^ ?l" by simp
    show ?thesis
    proof (cases "2 ^ ?l < v")
      case True
      then have e: "dramsim_log2 v = ?l + 1" using m by (simp add: dramsim_log2_def)
      have "?l + 1 \<le> n" if "v \<le> 2 ^ n"
      proof -
        have "(2::nat) ^ ?l < 2 ^ n" using True that by (rule less_le_trans)
        then have "?l < n" by (simp only: power_strict_increasing_iff)
        then show ?thesis by simp
      qed
      then show ?thesis unfolding e using b(2) by simp
    next
      case False
      then have e: "dramsim_log2 v = ?l" "v = 2 ^ ?l" using m b(1) by (simp_all add: dramsim_log2_def)
      have "?l \<le> n" if "v \<le> 2 ^ n"
      proof -
        have "(2::nat) ^ ?l \<le> 2 ^ n" using e(2) that by simp
        then show ?thesis by simp
      qed
      then show ?thesis unfolding e(1) using e(2) by simp
    qed
  qed
  then show "v \<le> 2 ^ dramsim_log2 v" and "2 ^ n \<ge> v \<Longrightarrow> dramsim_log2 v \<le> n" by auto
qed

lemma dramsim_log2_pow: "k < 32 \<Longrightarrow> dramsim_log2 (2 ^ k) = k"
proof -
  assume "k < 32"
  then have k: "(2::nat) ^ k < 2 ^ 32" by (intro power_strict_increasing) auto
  have "dramsim_log2 (2 ^ k) \<le> k" by (rule dramsim_log2_least(2) [OF k]) simp
  moreover have "k \<le> dramsim_log2 (2 ^ k)" using dramsim_log2_least(1) [OF k] by simp
  ultimately show ?thesis by simp
qed

section \<open>Packets, transactions, bank states\<close>

text \<open>A data pointer is NULL or the data it leads to.\<close>

type_synonym dram_data = "nat option"

record bus_packet =
  busPacketType :: BusPacketType
  column :: nat
  row :: nat
  bank :: nat
  rank :: nat
  physicalAddress :: nat
  data :: dram_data

definition BusPacket :: "BusPacketType \<Rightarrow> nat \<Rightarrow> nat \<Rightarrow> nat \<Rightarrow> nat \<Rightarrow> nat \<Rightarrow> dram_data \<Rightarrow> bus_packet" where
  "BusPacket packtype physicalAddr col rw r b dat =
     \<lparr>busPacketType = packtype, column = col, row = rw, bank = b, rank = r,
      physicalAddress = physicalAddr, data = dat\<rparr>"

lemma BusPacket_simps [simp]:
  "busPacketType (BusPacket t pa cl rw r b d) = t" "rank (BusPacket t pa cl rw r b d) = r"
  "bank (BusPacket t pa cl rw r b d) = b" "row (BusPacket t pa cl rw r b d) = rw"
  "column (BusPacket t pa cl rw r b d) = cl" "data (BusPacket t pa cl rw r b d) = d"
  "physicalAddress (BusPacket t pa cl rw r b d) = pa"
  by (simp_all add: BusPacket_def)

record transaction =
  transactionType :: TransactionType
  tr_address :: nat
  tr_data :: dram_data
  timeAdded :: nat
  timeReturned :: nat

record bank_state =
  currentBankState :: CurrentBankState
  openRowAddress :: nat
  nextRead :: nat
  nextWrite :: nat
  nextActivate :: nat
  nextPrecharge :: nat
  nextPowerUp :: nat
  lastCommand :: BusPacketType
  stateChangeCountdown :: nat

definition BankState :: bank_state where
  "BankState = \<lparr>currentBankState = Idle, openRowAddress = 0, nextRead = 0, nextWrite = 0,
     nextActivate = 0, nextPrecharge = 0, nextPowerUp = 0, lastCommand = READ,
     stateChangeCountdown = 0\<rparr>"

section \<open>A shipped configuration\<close>

text \<open>The values of ini/DDR2_micron_16M_8b_x8_sg3E.ini and of system.ini.\<close>

definition ddr2_sg3E :: dram_config where
  "ddr2_sg3E =
     \<lparr>NUM_BANKS = 8, NUM_RANKS = 2, NUM_CHANS = 1, NUM_ROWS = 16384, NUM_COLS = 1024, DEVICE_WIDTH = 8,
      CL = 4, AL = 0, BL = 4, tRAS = 14, tRCD = 4, tRRD = 3, tRC = 18, tRP = 4, tCCD = 2, tRTP = 3,
      tWTR = 3, tWR = 5, tRTRS = 1, tRFC = 43, tFAW = 13, tCKE = 3, tXP = 2, tCMD = 1,
      REFRESH_CYCLES = 2600, REFRESH_STAGGER = 1300,
      IDD0 = 85, IDD1 = 100, IDD2P = 7, IDD2Q = 40, IDD2N = 40, IDD3Pf = 30, IDD3Ps = 10, IDD3N = 55,
      IDD4W = 135, IDD4R = 135, IDD5 = 215, IDD6 = 7, IDD6L = 5, IDD7 = 280,
      CACHE_LINE_SIZE = 8, JEDEC_DATA_BUS_WIDTH = 64, TRANS_QUEUE_DEPTH = 8, CMD_QUEUE_DEPTH = 8,
      EPOCH_COUNT = 100000, TOTAL_ROW_ACCESSES = 4, USE_LOW_POWER = True, NO_STORAGE = True,
      rowBufferPolicy = OpenPage, schedulingPolicy = RankThenBankRoundRobin,
      addressMappingScheme = Scheme2, queuingStructure = PerRank\<rparr>"

lemma ddr2_sg3E_simps [simp]:
  "NUM_BANKS ddr2_sg3E = 8" "NUM_RANKS ddr2_sg3E = 2" "NUM_ROWS ddr2_sg3E = 16384" "NUM_COLS ddr2_sg3E = 1024"
  "CL ddr2_sg3E = 4" "AL ddr2_sg3E = 0" "BL ddr2_sg3E = 4" "tRCD ddr2_sg3E = 4" "tCCD ddr2_sg3E = 2"
  "tFAW ddr2_sg3E = 13" "CMD_QUEUE_DEPTH ddr2_sg3E = 8" "NO_STORAGE ddr2_sg3E" "TOTAL_ROW_ACCESSES ddr2_sg3E = 4"
  "rowBufferPolicy ddr2_sg3E = OpenPage" "schedulingPolicy ddr2_sg3E = RankThenBankRoundRobin"
  "queuingStructure ddr2_sg3E = PerRank" "tRC ddr2_sg3E = 18" "tRAS ddr2_sg3E = 14" "tRRD ddr2_sg3E = 3"
  by (simp_all add: ddr2_sg3E_def)

end
