(* ===== verification/CommandQueue.thy ===== *)
theory CommandQueue
  imports DramConfig
begin

text \<open>
  The command queue of DRAMSim2/CommandQueue.cpp: for every rank (and, with the structure
  \<open>PerRankPerBank\<close>, every bank) a queue of bus packets, from which \<open>pop\<close> takes one command a
  cycle. The parameter \<open>bs\<close> is the vector of bank states that the memory controller owns and
  the queue refers to. \<open>pop\<close> is split into the parts of its body: the book-keeping of the
  activation window, the refresh sections, the round-robin searches, the search for a bank to
  close, and the end. The sections for the two queuing structures differ in the queue they read
  and in whether the bank of a packet is compared, so one definition has the structure as its
  first argument. A \<open>do\<close>-\<open>while\<close> loop runs on fuel and an exhausted fuel is the error
  \<open>No_return\<close>; the lemmas show that the fuel suffices.
\<close>

section \<open>State\<close>

record cmd_queue =
  queues :: "bus_packet list list list"
  nextBank :: nat
  nextRank :: nat
  nextBankPRE :: nat
  nextRankPRE :: nat
  refreshRank :: nat
  refreshWaiting :: bool
  tFAWCountdown :: "nat list list"
  rowAccessCounters :: "nat list list"
  sendAct :: bool
  cq_clock :: nat

definition numBankQueues :: "dram_config \<Rightarrow> nat" where
  "numBankQueues c = (case queuingStructure c of PerRank \<Rightarrow> 1 | PerRankPerBank \<Rightarrow> NUM_BANKS c)"

text \<open>
  The constructor. \<open>perBankQueue\<close> is not emptied between the ranks, so rank \<open>r\<close> gets
  \<open>(r + 1) * numBankQueues\<close> queues.
\<close>

definition cq_init :: "dram_config \<Rightarrow> cmd_queue" where
  "cq_init c =
     \<lparr>queues = map (\<lambda>r. replicate ((r + 1) * numBankQueues c) []) [0..<NUM_RANKS c],
      nextBank = 0, nextRank = 0, nextBankPRE = 0, nextRankPRE = 0, refreshRank = 0,
      refreshWaiting = False, tFAWCountdown = replicate (NUM_RANKS c) [],
      rowAccessCounters = replicate (NUM_RANKS c) (replicate (NUM_BANKS c) 0),
      sendAct = True, cq_clock = 0\<rparr>"

text \<open>Access to a two-dimensional vector.\<close>

definition at2 :: "'a list list \<Rightarrow> nat \<Rightarrow> nat \<Rightarrow> 'a result" where
  "at2 xss r b = rbind (at xss r) (\<lambda>xs. at xs b)"

definition put2 :: "nat \<Rightarrow> nat \<Rightarrow> 'a \<Rightarrow> 'a list list \<Rightarrow> 'a list list" where
  "put2 r b x xss = xss[r := (xss ! r)[b := x]]"

text \<open>The queue that holds the packets of a bank.\<close>

definition qidx :: "QueuingStructure \<Rightarrow> nat \<Rightarrow> nat" where
  "qidx qs b = (case qs of PerRank \<Rightarrow> 0 | PerRankPerBank \<Rightarrow> b)"

definition put_queue :: "nat \<Rightarrow> nat \<Rightarrow> bus_packet list \<Rightarrow> cmd_queue \<Rightarrow> cmd_queue" where
  "put_queue r b q cq = cq\<lparr>queues := put2 r b q (queues cq)\<rparr>"

section \<open>Simple operations\<close>

definition cq_enqueue :: "dram_config \<Rightarrow> bus_packet \<Rightarrow> cmd_queue \<Rightarrow> cmd_queue result" where
  "cq_enqueue c p cq =
     (let b = qidx (queuingStructure c) (bank p)
      in rbind (at2 (queues cq) (rank p) b) (\<lambda>q.
         check (\<not> length (q @ [p]) > CMD_QUEUE_DEPTH c) Error_exit (
         Inr (put_queue (rank p) b (q @ [p]) cq))))"

text \<open>The subtraction is one of \<open>size_t\<close>.\<close>

definition hasRoomFor :: "dram_config \<Rightarrow> nat \<Rightarrow> nat \<Rightarrow> nat \<Rightarrow> cmd_queue \<Rightarrow> bool result" where
  "hasRoomFor c numberToEnqueue r b cq =
     rbind (at2 (queues cq) r (qidx (queuingStructure c) b)) (\<lambda>q.
     Inr ((CMD_QUEUE_DEPTH c + (2 ^ 64 - length q)) mod 2 ^ 64 \<ge> numberToEnqueue))"

definition isIssuable :: "dram_config \<Rightarrow> bank_state list list \<Rightarrow> cmd_queue \<Rightarrow> bus_packet \<Rightarrow> bool result" where
  "isIssuable c bs cq p =
     (let state = at2 bs (rank p) (bank p);
          counter = at2 (rowAccessCounters cq) (rank p) (bank p)
      in (case busPacketType p of
            REFRESH \<Rightarrow> Inr False
          | ACTIVATE \<Rightarrow>
              rbind state (\<lambda>st.
              rbind (at (tFAWCountdown cq) (rank p)) (\<lambda>w.
              Inr ((currentBankState st = Idle \<or> currentBankState st = Refreshing)
                   \<and> cq_clock cq \<ge> nextActivate st \<and> length w < 4)))
          | WRITE \<Rightarrow>
              rbind state (\<lambda>st. rbind counter (\<lambda>k.
              Inr (currentBankState st = RowActive \<and> cq_clock cq \<ge> nextWrite st
                   \<and> row p = openRowAddress st \<and> k < TOTAL_ROW_ACCESSES c)))
          | WRITE_P \<Rightarrow>
              rbind state (\<lambda>st. rbind counter (\<lambda>k.
              Inr (currentBankState st = RowActive \<and> cq_clock cq \<ge> nextWrite st
                   \<and> row p = openRowAddress st \<and> k < TOTAL_ROW_ACCESSES c)))
          | READ_P \<Rightarrow>
              rbind state (\<lambda>st. rbind counter (\<lambda>k.
              Inr (currentBankState st = RowActive \<and> cq_clock cq \<ge> nextRead st
                   \<and> row p = openRowAddress st \<and> k < TOTAL_ROW_ACCESSES c)))
          | READ \<Rightarrow>
              rbind state (\<lambda>st. rbind counter (\<lambda>k.
              Inr (currentBankState st = RowActive \<and> cq_clock cq \<ge> nextRead st
                   \<and> row p = openRowAddress st \<and> k < TOTAL_ROW_ACCESSES c)))
          | PRECHARGE \<Rightarrow>
              rbind state (\<lambda>st.
              Inr (currentBankState st = RowActive \<and> cq_clock cq \<ge> nextPrecharge st))
          | DATA \<Rightarrow> Inl Error_exit))"

fun all_empty :: "nat list \<Rightarrow> bus_packet list list \<Rightarrow> bool result" where
  "all_empty [] qs = Inr True"
| "all_empty (i # is) qs = rbind (at qs i) (\<lambda>q. if q \<noteq> [] then Inr False else all_empty is qs)"

definition cq_isEmpty :: "dram_config \<Rightarrow> nat \<Rightarrow> cmd_queue \<Rightarrow> bool result" where
  "cq_isEmpty c r cq =
     (case queuingStructure c of
        PerRank \<Rightarrow> rbind (at2 (queues cq) r 0) (\<lambda>q. Inr (q = []))
      | PerRankPerBank \<Rightarrow> rbind (at (queues cq) r) (all_empty [0..<NUM_BANKS c]))"

definition needRefresh :: "nat \<Rightarrow> cmd_queue \<Rightarrow> cmd_queue" where
  "needRefresh r cq = cq\<lparr>refreshWaiting := True, refreshRank := r\<rparr>"

section \<open>The parts of pop\<close>

text \<open>The window of activations: all the counters are decremented, and an expired head erased.\<close>

definition tfaw_tick :: "nat list \<Rightarrow> nat list" where
  "tfaw_tick xs =
     (case map u32_dec xs of
        [] \<Rightarrow> []
      | y # ys \<Rightarrow> if y = 0 then ys else y # ys)"

definition pop_tfaw :: "dram_config \<Rightarrow> cmd_queue \<Rightarrow> cmd_queue result" where
  "pop_tfaw c cq =
     rbind (rfold (\<lambda>i t. rbind (at t i) (\<lambda>xs. Inr (t[i := tfaw_tick xs])))
              [0..<NUM_RANKS c] (tFAWCountdown cq))
       (\<lambda>t. Inr (cq\<lparr>tFAWCountdown := t\<rparr>))"

text \<open>A packet of a queue that goes to the row that is open in bank \<open>i\<close>.\<close>

definition to_open_row :: "QueuingStructure \<Rightarrow> nat \<Rightarrow> bank_state \<Rightarrow> bus_packet \<Rightarrow> bool" where
  "to_open_row qs i st p \<longleftrightarrow> row p = openRowAddress st \<and> (qs = PerRank \<longrightarrow> bank p = i)"

type_synonym sent = "(bus_packet \<times> cmd_queue) option"

text \<open>The refresh section, closed page. First the loop over the banks with
  \<open>foundActiveOrTooEarly\<close>; the packet that it sends goes to the row of the open bank.\<close>

fun close_banks ::
  "QueuingStructure \<Rightarrow> dram_config \<Rightarrow> bank_state list list \<Rightarrow> cmd_queue \<Rightarrow> nat list
     \<Rightarrow> (bool \<times> sent) result" where
  "close_banks qs c bs cq [] = Inr (False, None)"
| "close_banks qs c bs cq (i # is) =
     rbind (at2 bs (refreshRank cq) i) (\<lambda>st.
     if currentBankState st = RowActive then
       rbind (at2 (queues cq) (refreshRank cq) (qidx qs i)) (\<lambda>q.
       (case find_index (to_open_row qs i st) q of
          None \<Rightarrow> Inr (True, None)
        | Some j \<Rightarrow>
            if busPacketType (q ! j) \<noteq> ACTIVATE then
              rbind (isIssuable c bs cq (q ! j)) (\<lambda>ok.
              if ok then Inr (True, Some (q ! j,
                                put_queue (refreshRank cq) (qidx qs i) (erase j q) cq))
              else Inr (True, None))
            else Inr (True, None)))
     else if nextActivate st > cq_clock cq then Inr (True, None)
     else close_banks qs c bs cq is)"

definition send_refresh :: "cmd_queue \<Rightarrow> sent" where
  "send_refresh cq =
     Some (BusPacket REFRESH 0 0 0 (refreshRank cq) 0 None,
           cq\<lparr>refreshRank := 2 ^ 32 - 1, refreshWaiting := False\<rparr>)"

definition close_refresh ::
  "QueuingStructure \<Rightarrow> dram_config \<Rightarrow> bank_state list list \<Rightarrow> cmd_queue \<Rightarrow> sent result" where
  "close_refresh qs c bs cq =
     (if refreshWaiting cq then
        rbind (close_banks qs c bs cq [0..<NUM_BANKS c]) (\<lambda>(foundActiveOrTooEarly, s).
        rbind (at2 bs (refreshRank cq) 0) (\<lambda>st0.
        if \<not> foundActiveOrTooEarly \<and> currentBankState st0 \<noteq> PowerDown then Inr (send_refresh cq)
        else Inr s))
      else Inr None)"

text \<open>The refresh section, open page: a bank with an open row that nobody waits for is closed.\<close>

fun open_banks ::
  "QueuingStructure \<Rightarrow> dram_config \<Rightarrow> bank_state list list \<Rightarrow> cmd_queue \<Rightarrow> nat list
     \<Rightarrow> (bool \<times> sent) result" where
  "open_banks qs c bs cq [] = Inr (True, None)"
| "open_banks qs c bs cq (i # is) =
     rbind (at2 bs (refreshRank cq) i) (\<lambda>st.
     if currentBankState st = RowActive then
       rbind (at2 (queues cq) (refreshRank cq) (qidx qs i)) (\<lambda>q.
       rbind (case find_index (to_open_row qs i st) q of
          None \<Rightarrow> Inr (True, None)
        | Some j \<Rightarrow>
            if busPacketType (q ! j) \<noteq> ACTIVATE then
              rbind (isIssuable c bs cq (q ! j)) (\<lambda>ok.
              if ok then Inr (False, Some (q ! j,
                                put_queue (refreshRank cq) (qidx qs i) (erase j q) cq))
              else Inr (False, None))
            else Inr (True, None)) (\<lambda>(closeRow, s).
       if closeRow \<and> cq_clock cq \<ge> nextPrecharge st then
         Inr (False, Some (BusPacket PRECHARGE 0 0 0 (refreshRank cq) i None,
           cq\<lparr>rowAccessCounters := put2 (refreshRank cq) i 0 (rowAccessCounters cq)\<rparr>))
       else Inr (False, s)))
     else if nextActivate st > cq_clock cq then Inr (False, None)
     else open_banks qs c bs cq is)"

definition open_refresh ::
  "QueuingStructure \<Rightarrow> dram_config \<Rightarrow> bank_state list list \<Rightarrow> cmd_queue \<Rightarrow> sent result" where
  "open_refresh qs c bs cq =
     (if refreshWaiting cq then
        rbind (open_banks qs c bs cq [0..<NUM_BANKS c]) (\<lambda>(sendREF, s).
        rbind (at2 bs (refreshRank cq) 0) (\<lambda>st0.
        if sendREF \<and> currentBankState st0 \<noteq> PowerDown then Inr (send_refresh cq)
        else Inr s))
      else Inr None)"

text \<open>
  The round-robin loop: \<open>sel\<close> is the body up to its \<open>break\<close>, \<open>adv\<close> the step to the next
  queue and \<open>again\<close> the condition of the \<open>while\<close>.
\<close>

fun round_robin ::
  "nat \<Rightarrow> (cmd_queue \<Rightarrow> sent result) \<Rightarrow> (cmd_queue \<Rightarrow> cmd_queue) \<Rightarrow> (cmd_queue \<Rightarrow> bool)
     \<Rightarrow> cmd_queue \<Rightarrow> (bus_packet option \<times> cmd_queue) result" where
  "round_robin 0 sel adv again cq = Inl No_return"
| "round_robin (Suc n) sel adv again cq =
     rbind (sel cq) (\<lambda>r.
     (case r of
        Some (p, cq') \<Rightarrow> Inr (Some p, cq')
      | None \<Rightarrow>
          let cq' = adv cq
          in if again cq' then round_robin n sel adv again cq' else Inr (None, cq')))"

lemma round_robin_numeral [simp]:
  "round_robin (numeral k) sel adv again cq =
     rbind (sel cq) (\<lambda>r.
     (case r of
        Some (p, cq') \<Rightarrow> Inr (Some p, cq')
      | None \<Rightarrow>
          let cq' = adv cq
          in if again cq' then round_robin (pred_numeral k) sel adv again cq' else Inr (None, cq')))"
  by (simp add: numeral_eq_Suc)

definition rank_blocked :: "cmd_queue \<Rightarrow> bool" where
  "rank_blocked cq \<longleftrightarrow> nextRank cq = refreshRank cq \<and> refreshWaiting cq"

definition next_rank :: "dram_config \<Rightarrow> nat \<Rightarrow> nat" where
  "next_rank c r = (let r' = u32_add r 1 in if r' = NUM_RANKS c then 0 else r')"

text \<open>The step to the next pair of a rank and a bank, by the scheduling policy.\<close>

definition next_pair :: "dram_config \<Rightarrow> nat \<times> nat \<Rightarrow> nat \<times> nat" where
  "next_pair c rb =
     (case rb of (r, b) \<Rightarrow>
      (case schedulingPolicy c of
         RankThenBankRoundRobin \<Rightarrow>
           (let r' = u32_add r 1
            in if r' = NUM_RANKS c then
                 (let b' = u32_add b 1 in (0, if b' = NUM_BANKS c then 0 else b'))
               else (r', b))
       | BankThenRankRoundRobin \<Rightarrow>
           (let b' = u32_add b 1
            in if b' = NUM_BANKS c then
                 (let r' = u32_add r 1 in (if r' = NUM_RANKS c then 0 else r', 0))
               else (r, b'))))"

definition adv_rank :: "dram_config \<Rightarrow> cmd_queue \<Rightarrow> cmd_queue" where
  "adv_rank c cq = cq\<lparr>nextRank := next_rank c (nextRank cq)\<rparr>"

definition adv_pair :: "dram_config \<Rightarrow> cmd_queue \<Rightarrow> cmd_queue" where
  "adv_pair c cq =
     (case next_pair c (nextRank cq, nextBank cq) of (r, b) \<Rightarrow> cq\<lparr>nextRank := r, nextBank := b\<rparr>)"

definition adv_pre :: "dram_config \<Rightarrow> cmd_queue \<Rightarrow> cmd_queue" where
  "adv_pre c cq =
     (case next_pair c (nextRankPRE cq, nextBankPRE cq) of
        (r, b) \<Rightarrow> cq\<lparr>nextRankPRE := r, nextBankPRE := b\<rparr>)"

text \<open>Closed page, one queue per rank: the first issuable packet that is not the column access
  paired with the activate before it.\<close>

fun close_search ::
  "dram_config \<Rightarrow> bank_state list list \<Rightarrow> cmd_queue \<Rightarrow> bus_packet list \<Rightarrow> nat list
     \<Rightarrow> nat option result" where
  "close_search c bs cq q [] = Inr None"
| "close_search c bs cq q (i # is) =
     rbind (isIssuable c bs cq (q ! i)) (\<lambda>ok.
     if ok then
       if i > 0 \<and> busPacketType (q ! (i - 1)) = ACTIVATE
          \<and> physicalAddress (q ! (i - 1)) = physicalAddress (q ! i)
       then close_search c bs cq q is
       else Inr (Some i)
     else close_search c bs cq q is)"

definition close_rank_sel ::
  "dram_config \<Rightarrow> bank_state list list \<Rightarrow> cmd_queue \<Rightarrow> sent result" where
  "close_rank_sel c bs cq =
     rbind (at2 (queues cq) (nextRank cq) 0) (\<lambda>q.
     if q \<noteq> [] \<and> \<not> rank_blocked cq then
       rbind (close_search c bs cq q [0..<length q]) (\<lambda>r.
       Inr (map_option (\<lambda>i. (q ! i, put_queue (nextRank cq) 0 (erase i q) cq)) r))
     else Inr None)"

definition close_rank_scan ::
  "dram_config \<Rightarrow> bank_state list list \<Rightarrow> cmd_queue \<Rightarrow> (bus_packet option \<times> cmd_queue) result" where
  "close_rank_scan c bs cq =
     (let startingRank = nextRank cq
      in round_robin (NUM_RANKS c) (close_rank_sel c bs) (adv_rank c)
           (\<lambda>cq'. startingRank \<noteq> nextRank cq') cq)"

text \<open>Closed page, one queue per bank: only the front of a queue can go.\<close>

definition close_bank_sel ::
  "dram_config \<Rightarrow> bank_state list list \<Rightarrow> cmd_queue \<Rightarrow> sent result" where
  "close_bank_sel c bs cq =
     rbind (at2 (queues cq) (nextRank cq) (nextBank cq)) (\<lambda>q.
     if q \<noteq> [] \<and> \<not> rank_blocked cq then
       rbind (isIssuable c bs cq (q ! 0)) (\<lambda>ok.
       if ok then Inr (Some (q ! 0, put_queue (nextRank cq) (nextBank cq) (erase 0 q) cq))
       else Inr None)
     else Inr None)"

definition close_bank_scan ::
  "dram_config \<Rightarrow> bank_state list list \<Rightarrow> cmd_queue \<Rightarrow> (bus_packet option \<times> cmd_queue) result" where
  "close_bank_scan c bs cq =
     (let startingRank = nextRank cq; startingBank = nextBank cq
      in round_robin (NUM_RANKS c * NUM_BANKS c) (close_bank_sel c bs) (adv_pair c)
           (\<lambda>cq'. \<not> (startingRank = nextRank cq' \<and> startingBank = nextBank cq')) cq)"

text \<open>Open page: the first issuable packet that does not depend on an earlier column access.\<close>

definition depends :: "QueuingStructure \<Rightarrow> bus_packet list \<Rightarrow> nat \<Rightarrow> bool" where
  "depends qs q i \<longleftrightarrow>
     list_ex (\<lambda>j. busPacketType (q ! j) \<noteq> ACTIVATE \<and> (qs = PerRank \<longrightarrow> bank (q ! j) = bank (q ! i))
        \<and> row (q ! j) = row (q ! i)) [0..<i]"

fun open_search ::
  "QueuingStructure \<Rightarrow> dram_config \<Rightarrow> bank_state list list \<Rightarrow> cmd_queue \<Rightarrow> bus_packet list \<Rightarrow> nat list
     \<Rightarrow> nat option result" where
  "open_search qs c bs cq q [] = Inr None"
| "open_search qs c bs cq q (i # is) =
     rbind (isIssuable c bs cq (q ! i)) (\<lambda>ok.
     if ok then
       if depends qs q i then open_search qs c bs cq q is else Inr (Some i)
     else open_search qs c bs cq q is)"

text \<open>The removal of packet \<open>i\<close>, together with the activate before it if there is one.\<close>

definition open_take ::
  "QueuingStructure \<Rightarrow> nat \<Rightarrow> nat \<Rightarrow> bus_packet list \<Rightarrow> nat \<Rightarrow> cmd_queue \<Rightarrow> (bus_packet \<times> cmd_queue) result" where
  "open_take qs r b q i cq =
     (let p = q ! i
      in if i > 0 \<and> busPacketType (q ! (i - 1)) = ACTIVATE then
           (let (kr, kb) = (case qs of PerRank \<Rightarrow> (rank p, bank p) | PerRankPerBank \<Rightarrow> (r, b))
            in rbind (at2 (rowAccessCounters cq) kr kb) (\<lambda>k.
               Inr (p, put_queue r (qidx qs b) (take (i - 1) q @ drop (i + 1) q)
                 (cq\<lparr>rowAccessCounters := put2 kr kb (u32_add k 1) (rowAccessCounters cq)\<rparr>))))
         else Inr (p, put_queue r (qidx qs b) (erase i q) cq))"

definition open_sel ::
  "QueuingStructure \<Rightarrow> dram_config \<Rightarrow> bank_state list list \<Rightarrow> cmd_queue \<Rightarrow> sent result" where
  "open_sel qs c bs cq =
     rbind (at2 (queues cq) (nextRank cq) (qidx qs (nextBank cq))) (\<lambda>q.
     if q \<noteq> [] \<and> \<not> rank_blocked cq then
       rbind (open_search qs c bs cq q [0..<length q]) (\<lambda>r.
       (case r of
          None \<Rightarrow> Inr None
        | Some i \<Rightarrow> rbind (open_take qs (nextRank cq) (nextBank cq) q i cq) (\<lambda>x. Inr (Some x))))
     else Inr None)"

definition open_rank_scan ::
  "dram_config \<Rightarrow> bank_state list list \<Rightarrow> cmd_queue \<Rightarrow> (bus_packet option \<times> cmd_queue) result" where
  "open_rank_scan c bs cq =
     (let startingRank = nextRank cq
      in round_robin (NUM_RANKS c) (open_sel PerRank c bs) (adv_rank c)
           (\<lambda>cq'. startingRank \<noteq> nextRank cq') cq)"

definition open_bank_scan ::
  "dram_config \<Rightarrow> bank_state list list \<Rightarrow> cmd_queue \<Rightarrow> (bus_packet option \<times> cmd_queue) result" where
  "open_bank_scan c bs cq =
     (let startingRank = nextRank cq; startingBank = nextBank cq
      in round_robin (NUM_RANKS c * NUM_BANKS c) (open_sel PerRankPerBank c bs) (adv_pair c)
           (\<lambda>cq'. \<not> (startingRank = nextRank cq' \<and> startingBank = nextBank cq')) cq)"

text \<open>The search for an open bank to close, when nothing was issuable.\<close>

definition pre_sel ::
  "QueuingStructure \<Rightarrow> dram_config \<Rightarrow> bank_state list list \<Rightarrow> cmd_queue \<Rightarrow> sent result" where
  "pre_sel qs c bs cq =
     (let r = nextRankPRE cq; b = nextBankPRE cq
      in rbind (at2 bs r b) (\<lambda>st.
         if currentBankState st = RowActive then
           rbind (at2 (queues cq) r (qidx qs b)) (\<lambda>q.
           rbind (at2 (rowAccessCounters cq) r b) (\<lambda>k.
           let found = list_ex (to_open_row qs b st) q
           in if (\<not> found \<or> k = TOTAL_ROW_ACCESSES c) \<and> cq_clock cq \<ge> nextPrecharge st then
                Inr (Some (BusPacket PRECHARGE 0 0 0 r b None,
                  cq\<lparr>rowAccessCounters := put2 r b 0 (rowAccessCounters cq)\<rparr>))
              else Inr None))
         else Inr None))"

definition pre_scan ::
  "QueuingStructure \<Rightarrow> nat \<times> nat \<Rightarrow> dram_config \<Rightarrow> bank_state list list \<Rightarrow> cmd_queue
     \<Rightarrow> (bus_packet option \<times> cmd_queue) result" where
  "pre_scan qs start c bs cq =
     round_robin (NUM_RANKS c * NUM_BANKS c) (pre_sel qs c bs) (adv_pre c)
       (\<lambda>cq'. \<not> (fst start = nextRankPRE cq' \<and> snd start = nextBankPRE cq')) cq"

definition pre_scan_rank ::
  "dram_config \<Rightarrow> bank_state list list \<Rightarrow> cmd_queue \<Rightarrow> (bus_packet option \<times> cmd_queue) result" where
  "pre_scan_rank c bs cq = pre_scan PerRank (nextRankPRE cq, nextBankPRE cq) c bs cq"

text \<open>For the queues per bank the starting point is stored in two variables of type \<open>bool\<close>.\<close>

definition pre_scan_bank ::
  "dram_config \<Rightarrow> bank_state list list \<Rightarrow> cmd_queue \<Rightarrow> (bus_packet option \<times> cmd_queue) result" where
  "pre_scan_bank c bs cq =
     pre_scan PerRankPerBank
       (if nextRankPRE cq = 0 then 0 else 1, if nextBankPRE cq = 0 then 0 else 1) c bs cq"

text \<open>The four combinations of queuing structure and row buffer policy.\<close>

definition pop_close_rank ::
  "dram_config \<Rightarrow> bank_state list list \<Rightarrow> cmd_queue \<Rightarrow> (bus_packet option \<times> cmd_queue) result" where
  "pop_close_rank c bs cq =
     rbind (close_refresh PerRank c bs cq) (\<lambda>s.
     (case s of Some (p, cq') \<Rightarrow> Inr (Some p, cq') | None \<Rightarrow> close_rank_scan c bs cq))"

definition pop_open_rank ::
  "dram_config \<Rightarrow> bank_state list list \<Rightarrow> cmd_queue \<Rightarrow> (bus_packet option \<times> cmd_queue) result" where
  "pop_open_rank c bs cq =
     rbind (open_refresh PerRank c bs cq) (\<lambda>s.
     (case s of
        Some (p, cq') \<Rightarrow> Inr (Some p, cq')
      | None \<Rightarrow>
          rbind (open_rank_scan c bs cq) (\<lambda>(r, cq').
          (case r of Some p \<Rightarrow> Inr (Some p, cq') | None \<Rightarrow> pre_scan_rank c bs cq'))))"

definition pop_close_bank ::
  "dram_config \<Rightarrow> bank_state list list \<Rightarrow> cmd_queue \<Rightarrow> (bus_packet option \<times> cmd_queue) result" where
  "pop_close_bank c bs cq =
     rbind (close_refresh PerRankPerBank c bs cq) (\<lambda>s.
     (case s of Some (p, cq') \<Rightarrow> Inr (Some p, cq') | None \<Rightarrow> close_bank_scan c bs cq))"

definition pop_open_bank ::
  "dram_config \<Rightarrow> bank_state list list \<Rightarrow> cmd_queue \<Rightarrow> (bus_packet option \<times> cmd_queue) result" where
  "pop_open_bank c bs cq =
     rbind (open_refresh PerRankPerBank c bs cq) (\<lambda>s.
     (case s of
        Some (p, cq') \<Rightarrow> Inr (Some p, cq')
      | None \<Rightarrow>
          rbind (open_bank_scan c bs cq) (\<lambda>(r, cq').
          (case r of Some p \<Rightarrow> Inr (Some p, cq') | None \<Rightarrow> pre_scan_bank c bs cq'))))"

text \<open>The end of \<open>pop\<close>, for a packet that is sent.\<close>

definition pop_finish :: "dram_config \<Rightarrow> bus_packet \<Rightarrow> cmd_queue \<Rightarrow> cmd_queue result" where
  "pop_finish c p cq =
     (let cq1 = (if AL c > 0 \<and> sendAct cq then cq\<lparr>sendAct := False\<rparr>
                 else adv_pair c (cq\<lparr>sendAct := True\<rparr>))
      in if busPacketType p = ACTIVATE then
           rbind (at (tFAWCountdown cq1) (rank p)) (\<lambda>xs.
           Inr (cq1\<lparr>tFAWCountdown := (tFAWCountdown cq1)[rank p := xs @ [tFAW c]]\<rparr>))
         else Inr cq1)"

definition cq_pop ::
  "dram_config \<Rightarrow> bank_state list list \<Rightarrow> cmd_queue \<Rightarrow> (bus_packet option \<times> cmd_queue) result" where
  "cq_pop c bs cq0 =
     rbind (pop_tfaw c cq0) (\<lambda>cq.
     rbind (case queuingStructure c of
              PerRank \<Rightarrow>
                (case rowBufferPolicy c of
                   ClosePage \<Rightarrow> pop_close_rank c bs cq
                 | OpenPage \<Rightarrow> pop_open_rank c bs cq)
            | PerRankPerBank \<Rightarrow>
                (case rowBufferPolicy c of
                   ClosePage \<Rightarrow> pop_close_bank c bs cq
                 | OpenPage \<Rightarrow> pop_open_bank c bs cq)) (\<lambda>(r, cq').
     (case r of
        None \<Rightarrow> Inr (None, cq')
      | Some p \<Rightarrow> rbind (pop_finish c p cq') (\<lambda>cq''. Inr (Some p, cq'')))))"

end
