(* ===== verification/DramBank.thy ===== *)
theory DramBank
  imports DramConfig
begin

text \<open>
  The storage of a bank, DRAMSim2/Bank.cpp: for every column a linked list of the rows that were
  written, with their data. A list keeps the order of the nodes; a new node goes to its head.
  The lemmas show that a bank is a function from rows and columns to data.
\<close>

type_synonym row_entry = "nat \<times> dram_data"

record dram_bank =
  currentState :: bank_state
  rowEntries :: "row_entry list list"

definition bank_init :: "dram_config \<Rightarrow> dram_bank" where
  "bank_init c = \<lparr>currentState = BankState, rowEntries = replicate (NUM_COLS c) []\<rparr>"

text \<open>The node that is found, as its position in the list; \<open>None\<close> is NULL.\<close>

definition searchForRow :: "nat \<Rightarrow> row_entry list \<Rightarrow> nat option" where
  "searchForRow rw head = find_index (\<lambda>n. fst n = rw) head"

definition garbage :: dram_data where
  "garbage = Some 0xdeadbeef"

definition bank_read :: "bus_packet \<Rightarrow> dram_bank \<Rightarrow> bus_packet result" where
  "bank_read p b =
     rbind (at (rowEntries b) (column p)) (\<lambda>rowHeadNode.
     (case searchForRow (row p) rowHeadNode of
        None \<Rightarrow> Inr (p\<lparr>data := garbage, busPacketType := DATA\<rparr>)
      | Some i \<Rightarrow> Inr (p\<lparr>data := snd (rowHeadNode ! i), busPacketType := DATA\<rparr>)))"

definition bank_write :: "dram_config \<Rightarrow> bus_packet \<Rightarrow> dram_bank \<Rightarrow> dram_bank result" where
  "bank_write c p b =
     check (\<not> column p \<ge> NUM_COLS c) Error_exit (
     rbind (at (rowEntries b) (column p)) (\<lambda>rowHeadNode.
     (case searchForRow (row p) rowHeadNode of
        None \<Rightarrow> Inr (b\<lparr>rowEntries := (rowEntries b)[column p := (row p, data p) # rowHeadNode]\<rparr>)
      | Some i \<Rightarrow> Inr (b\<lparr>rowEntries := (rowEntries b)[column p := rowHeadNode[i := (row p, data p)]]\<rparr>))))"

section \<open>A bank is a function\<close>

definition bank_ok :: "dram_config \<Rightarrow> dram_bank \<Rightarrow> bool" where
  "bank_ok c b \<longleftrightarrow> length (rowEntries b) = NUM_COLS c \<and>
     (\<forall>xs \<in> set (rowEntries b). distinct (map fst xs))"

definition stored :: "dram_bank \<Rightarrow> nat \<Rightarrow> nat \<Rightarrow> dram_data" where
  "stored b cl rw = (case map_of (rowEntries b ! cl) rw of None \<Rightarrow> garbage | Some d \<Rightarrow> d)"

lemma bank_ok_init: "bank_ok c (bank_init c)"
  by (simp add: bank_ok_def bank_init_def)

lemma stored_init: "cl < NUM_COLS c \<Longrightarrow> stored (bank_init c) cl rw = garbage"
  by (simp add: stored_def bank_init_def)

lemma search_map_of:
  "map_of xs rw = (case searchForRow rw xs of None \<Rightarrow> None | Some i \<Rightarrow> Some (snd (xs ! i)))"
proof (induction xs)
  case (Cons x xs)
  then show ?case by (cases x) (auto simp: searchForRow_def split: option.splits)
qed (simp add: searchForRow_def)

lemma map_of_update:
  assumes "distinct (map fst xs)" "i < length xs" "fst (xs ! i) = rw"
  shows "map_of (xs[i := (rw, d)]) = (map_of xs)(rw \<mapsto> d)" "map fst (xs[i := (rw, d)]) = map fst xs"
proof -
  show m: "map fst (xs[i := (rw, d)]) = map fst xs"
    using assms(2,3) by (simp add: map_update list_update_same_conv)
  show "map_of (xs[i := (rw, d)]) = (map_of xs)(rw \<mapsto> d)"
    using assms
  proof (induction xs arbitrary: i)
    case (Cons x xs)
    then show ?case by (cases i; cases x) (auto simp: fun_eq_iff dest: nth_mem)
  qed simp
qed

lemma bank_read_ok:
  assumes "bank_ok c b" "column p < NUM_COLS c"
  shows "bank_read p b = Inr (p\<lparr>data := stored b (column p) (row p), busPacketType := DATA\<rparr>)"
  using assms search_map_of [of "rowEntries b ! column p" "row p"]
  by (auto simp: bank_read_def bank_ok_def stored_def split: option.splits)

lemma bank_write_ok:
  assumes "bank_ok c b" "column p < NUM_COLS c"
  shows "\<exists>b'. bank_write c p b = Inr b' \<and> bank_ok c b'
    \<and> (\<forall>cl rw. cl < NUM_COLS c \<longrightarrow> stored b' cl rw
         = (if cl = column p \<and> rw = row p then data p else stored b cl rw))"
proof -
  let ?xs = "rowEntries b ! column p"
  have l: "column p < length (rowEntries b)" using assms by (simp add: bank_ok_def)
  have d: "distinct (map fst ?xs)" using assms l by (simp add: bank_ok_def)
  show ?thesis
  proof (cases "searchForRow (row p) ?xs")
    case None
    then have "row p \<notin> fst ` set ?xs"
      by (auto simp: searchForRow_def find_index_None)
    then show ?thesis using None assms l d
      by (auto simp: bank_write_def bank_ok_def stored_def nth_list_update
          dest!: subsetD [OF set_update_subset_insert])
  next
    case (Some i)
    then have i: "i < length ?xs" "fst (?xs ! i) = row p"
      using find_index_Some [of "\<lambda>n. fst n = row p" ?xs i] by (auto simp: searchForRow_def)
    note u = map_of_update [OF d i, of "data p"]
    show ?thesis using Some assms l d u
      by (auto simp: bank_write_def bank_ok_def stored_def nth_list_update
          dest!: subsetD [OF set_update_subset_insert])
  qed
qed

lemma bank_write_out_of_range: "NUM_COLS c \<le> column p \<Longrightarrow> bank_write c p b = Inl Error_exit"
  by (simp add: bank_write_def)

end
