(* ===== verification/DramRank.thy ===== *)
theory DramRank
  imports DramBank
begin

text \<open>
  A rank, DRAMSim2/Rank.cpp: the states of its banks with the times from which the next
  commands are allowed, the reads on their way to the data bus and the packet that is on the
  bus. \<open>receiveFromBus\<close> checks a command against the states, exits when it is not allowed, and
  updates the states. The members \<open>incomingWrite...\<close>, which are only written, start with 0.
  \<open>update\<close> hands a finished data packet to the memory controller: it is part of the result.
\<close>

section \<open>State\<close>

record dram_rank =
  rk_id :: nat
  incomingWriteBank :: nat
  incomingWriteRow :: nat
  incomingWriteColumn :: nat
  isPowerDown :: bool
  banks :: "dram_bank list"
  outgoingDataPacket :: "bus_packet option"
  dataCyclesLeft :: nat
  rk_refreshWaiting :: bool
  readReturnPacket :: "bus_packet list"
  readReturnCountdown :: "nat list"
  bankStates :: "bank_state list"
  rk_clock :: nat

definition rank_init :: "dram_config \<Rightarrow> nat \<Rightarrow> dram_rank" where
  "rank_init c i =
     \<lparr>rk_id = i, incomingWriteBank = 0, incomingWriteRow = 0, incomingWriteColumn = 0,
      isPowerDown = False,
      banks = (if NO_STORAGE c then [] else replicate (NUM_BANKS c) (bank_init c)),
      outgoingDataPacket = None, dataCyclesLeft = 0, rk_refreshWaiting = False,
      readReturnPacket = [], readReturnCountdown = [],
      bankStates = replicate (NUM_BANKS c) BankState, rk_clock = 0\<rparr>"

text \<open>The loop over the bank states, and an assignment to fields of one bank state.\<close>

definition for_banks ::
  "dram_config \<Rightarrow> (nat \<Rightarrow> bank_state \<Rightarrow> bank_state result) \<Rightarrow> dram_rank \<Rightarrow> dram_rank result" where
  "for_banks c f r =
     rbind (rfold (\<lambda>i sts. rbind (at sts i) (\<lambda>st. rbind (f i st) (\<lambda>st'. Inr (sts[i := st']))))
              [0..<NUM_BANKS c] (bankStates r))
       (\<lambda>sts. Inr (r\<lparr>bankStates := sts\<rparr>))"

definition on_bank :: "nat \<Rightarrow> (bank_state \<Rightarrow> bank_state) \<Rightarrow> dram_rank \<Rightarrow> dram_rank" where
  "on_bank b f r = r\<lparr>bankStates := (bankStates r)[b := f (bankStates r ! b)]\<rparr>"

text \<open>The data of a read, which waits for the read latency.\<close>

definition read_data :: "dram_config \<Rightarrow> bus_packet \<Rightarrow> dram_rank \<Rightarrow> dram_rank result" where
  "read_data c p r =
     rbind (if NO_STORAGE c then Inr (p\<lparr>busPacketType := DATA\<rparr>)
            else rbind (at (banks r) (bank p)) (bank_read p)) (\<lambda>p'.
     Inr (r\<lparr>readReturnPacket := readReturnPacket r @ [p'],
            readReturnCountdown := readReturnCountdown r @ [RL c]\<rparr>))"

section \<open>receiveFromBus\<close>

definition read_allowed :: "bus_packet \<Rightarrow> dram_rank \<Rightarrow> bank_state \<Rightarrow> bool" where
  "read_allowed p r st \<longleftrightarrow>
     \<not> (currentBankState st \<noteq> RowActive \<or> rk_clock r < nextRead st \<or> row p \<noteq> openRowAddress st)"

definition write_allowed :: "bus_packet \<Rightarrow> dram_rank \<Rightarrow> bank_state \<Rightarrow> bool" where
  "write_allowed p r st \<longleftrightarrow>
     \<not> (currentBankState st \<noteq> RowActive \<or> rk_clock r < nextWrite st \<or> row p \<noteq> openRowAddress st)"

definition after_read :: "dram_config \<Rightarrow> nat \<Rightarrow> bank_state \<Rightarrow> bank_state" where
  "after_read c t st =
     st\<lparr>nextRead := max (nextRead st) (t + CAS_TO_CAS_DELAY c),
        nextWrite := max (nextWrite st) (t + READ_TO_WRITE_DELAY c)\<rparr>"

definition after_write :: "dram_config \<Rightarrow> nat \<Rightarrow> bank_state \<Rightarrow> bank_state" where
  "after_write c t st =
     st\<lparr>nextRead := max (nextRead st) (t + WRITE_TO_READ_DELAY_B c),
        nextWrite := max (nextWrite st) (t + CAS_TO_CAS_DELAY c)\<rparr>"

definition rank_READ :: "dram_config \<Rightarrow> bus_packet \<Rightarrow> dram_rank \<Rightarrow> dram_rank result" where
  "rank_READ c p r =
     rbind (at (bankStates r) (bank p)) (\<lambda>st.
     check (read_allowed p r st) Error_exit (
     rbind (for_banks c (\<lambda>i s. Inr (after_read c (rk_clock r) s))
       (on_bank (bank p) (\<lambda>s. s\<lparr>nextPrecharge :=
          max (nextPrecharge s) (rk_clock r + READ_TO_PRE_DELAY c)\<rparr>) r))
       (read_data c p)))"

definition rank_READ_P :: "dram_config \<Rightarrow> bus_packet \<Rightarrow> dram_rank \<Rightarrow> dram_rank result" where
  "rank_READ_P c p r =
     rbind (at (bankStates r) (bank p)) (\<lambda>st.
     check (read_allowed p r st) Error_exit (
     rbind (for_banks c (\<lambda>i s. Inr (after_read c (rk_clock r) s))
       (on_bank (bank p) (\<lambda>s. s\<lparr>currentBankState := Idle,
          nextActivate := max (nextActivate s) (rk_clock r + READ_AUTOPRE_DELAY c)\<rparr>) r))
       (read_data c p)))"

definition note_write :: "bus_packet \<Rightarrow> dram_rank \<Rightarrow> dram_rank" where
  "note_write p r =
     r\<lparr>incomingWriteBank := bank p, incomingWriteRow := row p, incomingWriteColumn := column p\<rparr>"

definition rank_WRITE :: "dram_config \<Rightarrow> bus_packet \<Rightarrow> dram_rank \<Rightarrow> dram_rank result" where
  "rank_WRITE c p r =
     rbind (at (bankStates r) (bank p)) (\<lambda>st.
     check (write_allowed p r st) Error_exit (
     rbind (for_banks c (\<lambda>i s. Inr (after_write c (rk_clock r) s))
       (on_bank (bank p) (\<lambda>s. s\<lparr>nextPrecharge :=
          max (nextPrecharge s) (rk_clock r + WRITE_TO_PRE_DELAY c)\<rparr>) r))
       (\<lambda>r'. Inr (note_write p r'))))"

text \<open>The loop of the case \<open>WRITE_P\<close> changes the bank of the packet each time, not bank \<open>i\<close>.\<close>

definition rank_WRITE_P :: "dram_config \<Rightarrow> bus_packet \<Rightarrow> dram_rank \<Rightarrow> dram_rank result" where
  "rank_WRITE_P c p r =
     rbind (at (bankStates r) (bank p)) (\<lambda>st.
     check (write_allowed p r st) Error_exit (
     let r1 = on_bank (bank p) (\<lambda>s. s\<lparr>currentBankState := Idle,
                nextActivate := max (nextActivate s) (rk_clock r + WRITE_TO_PRE_DELAY c)\<rparr>) r;
         r2 = fold (\<lambda>i. on_bank (bank p) (after_write c (rk_clock r))) [0..<NUM_BANKS c] r1
     in Inr (note_write p r2)))"

definition rank_ACTIVATE :: "dram_config \<Rightarrow> bus_packet \<Rightarrow> dram_rank \<Rightarrow> dram_rank result" where
  "rank_ACTIVATE c p r =
     rbind (at (bankStates r) (bank p)) (\<lambda>st.
     check (\<not> (currentBankState st \<noteq> Idle \<or> rk_clock r < nextActivate st)) Error_exit (
     let t = rk_clock r;
         cas = (if AL c > 0 then t + ACT_TO_CAS_DELAY c else t + ACT_TO_CAS_DELAY c);
         r1 = on_bank (bank p) (\<lambda>s. s\<lparr>currentBankState := RowActive, nextActivate := t + tRC c,
                openRowAddress := row p, nextWrite := cas, nextRead := cas,
                nextPrecharge := t + tRAS c\<rparr>) r
     in for_banks c (\<lambda>i s. Inr (if i \<noteq> bank p
          then s\<lparr>nextActivate := max (nextActivate s) (t + tRRD c)\<rparr> else s)) r1))"

definition rank_PRECHARGE :: "dram_config \<Rightarrow> bus_packet \<Rightarrow> dram_rank \<Rightarrow> dram_rank result" where
  "rank_PRECHARGE c p r =
     rbind (at (bankStates r) (bank p)) (\<lambda>st.
     check (\<not> (currentBankState st \<noteq> RowActive \<or> rk_clock r < nextPrecharge st)) Error_exit (
     Inr (on_bank (bank p) (\<lambda>s. s\<lparr>currentBankState := Idle,
       nextActivate := max (nextActivate s) (rk_clock r + tRP c)\<rparr>) r)))"

definition rank_REFRESH :: "dram_config \<Rightarrow> dram_rank \<Rightarrow> dram_rank result" where
  "rank_REFRESH c r =
     for_banks c (\<lambda>i s. check (currentBankState s = Idle) Error_exit
       (Inr (s\<lparr>nextActivate := rk_clock r + tRFC c\<rparr>))) (r\<lparr>rk_refreshWaiting := False\<rparr>)"

definition rank_DATA :: "dram_config \<Rightarrow> bus_packet \<Rightarrow> dram_rank \<Rightarrow> dram_rank result" where
  "rank_DATA c p r =
     (if NO_STORAGE c then Inr r
      else rbind (at (banks r) (bank p)) (\<lambda>b.
           rbind (bank_write c p b) (\<lambda>b'. Inr (r\<lparr>banks := (banks r)[bank p := b']\<rparr>))))"

definition rank_receive :: "dram_config \<Rightarrow> bus_packet \<Rightarrow> dram_rank \<Rightarrow> dram_rank result" where
  "rank_receive c p r =
     (case busPacketType p of
        READ \<Rightarrow> rank_READ c p r
      | READ_P \<Rightarrow> rank_READ_P c p r
      | WRITE \<Rightarrow> rank_WRITE c p r
      | WRITE_P \<Rightarrow> rank_WRITE_P c p r
      | ACTIVATE \<Rightarrow> rank_ACTIVATE c p r
      | PRECHARGE \<Rightarrow> rank_PRECHARGE c p r
      | REFRESH \<Rightarrow> rank_REFRESH c r
      | DATA \<Rightarrow> rank_DATA c p r)"

section \<open>update and power states\<close>

text \<open>The packet on the bus.\<close>

definition bus_tick :: "dram_rank \<Rightarrow> bus_packet option \<times> dram_rank" where
  "bus_tick r =
     (case outgoingDataPacket r of
        None \<Rightarrow> (None, r)
      | Some p \<Rightarrow>
          let k = u32_dec (dataCyclesLeft r)
          in if k = 0 then (Some p, r\<lparr>dataCyclesLeft := k, outgoingDataPacket := None\<rparr>)
             else (None, r\<lparr>dataCyclesLeft := k\<rparr>))"

definition rank_update :: "dram_config \<Rightarrow> dram_rank \<Rightarrow> (bus_packet option \<times> dram_rank) result" where
  "rank_update c r0 =
     (let (delivered, r) = bus_tick r0;
          cd = map u32_dec (readReturnCountdown r)
      in case cd of
           [] \<Rightarrow> Inr (delivered, r\<lparr>readReturnCountdown := cd\<rparr>)
         | k # ks \<Rightarrow>
             if k = 0 then
               rbind (at (readReturnPacket r) 0) (\<lambda>p.
               Inr (delivered, r\<lparr>outgoingDataPacket := Some p, dataCyclesLeft := BL c div 2,
                 readReturnPacket := tl (readReturnPacket r), readReturnCountdown := ks\<rparr>))
             else Inr (delivered, r\<lparr>readReturnCountdown := cd\<rparr>))"

definition rank_powerDown :: "dram_config \<Rightarrow> dram_rank \<Rightarrow> dram_rank result" where
  "rank_powerDown c r =
     rbind (for_banks c (\<lambda>i s. check (currentBankState s = Idle) Error_exit
       (Inr (s\<lparr>nextPowerUp := rk_clock r + tCKE c, currentBankState := PowerDown\<rparr>))) r)
       (\<lambda>r'. Inr (r'\<lparr>isPowerDown := True\<rparr>))"

definition rank_powerUp :: "dram_config \<Rightarrow> dram_rank \<Rightarrow> dram_rank result" where
  "rank_powerUp c r =
     check (isPowerDown r) Error_exit (
     for_banks c (\<lambda>i s. check (\<not> nextPowerUp s > rk_clock r) Error_exit
       (Inr (s\<lparr>nextActivate := rk_clock r + tXP c, currentBankState := Idle\<rparr>)))
       (r\<lparr>isPowerDown := False\<rparr>))"

definition rank_step :: "dram_rank \<Rightarrow> dram_rank" where
  "rank_step r = r\<lparr>rk_clock := rk_clock r + 1\<rparr>"

section \<open>The loop over the banks\<close>

lemma for_banks_cases:
  assumes "length (bankStates r) = NUM_BANKS c"
  shows "(\<And>i. i < NUM_BANKS c \<Longrightarrow> f i (bankStates r ! i) = Inr (g i)) \<Longrightarrow>
      for_banks c f r = Inr (r\<lparr>bankStates := map g [0..<NUM_BANKS c]\<rparr>)"
    and "for_banks c f r = Inr r' \<Longrightarrow> \<exists>g. (\<forall>i < NUM_BANKS c. f i (bankStates r ! i) = Inr (g i))
      \<and> r' = r\<lparr>bankStates := map g [0..<NUM_BANKS c]\<rparr>"
proof -
  let ?b = "\<lambda>i sts. rbind (at sts i) (\<lambda>st. rbind (f i st) (\<lambda>st'. Inr (sts[i := st'])))"
  let ?s = "bankStates r"
  have run: "rfold ?b [0..<n] ?s = Inr (map g [0..<n] @ drop n ?s)"
    if "n \<le> length ?s" "\<forall>i < n. f i (?s ! i) = Inr (g i)" for n g
    using that
  proof (induction n)
    case (Suc n)
    then have "?b n (map g [0..<n] @ drop n ?s) = Inr (map g [0..<Suc n] @ drop (Suc n) ?s)"
      by (simp add: nth_append Cons_nth_drop_Suc [symmetric] list_update_append)
    then show ?case using Suc by (simp add: rfold_append)
  qed simp
  show "for_banks c f r = Inr (r\<lparr>bankStates := map g [0..<NUM_BANKS c]\<rparr>)"
    if "\<And>i. i < NUM_BANKS c \<Longrightarrow> f i (?s ! i) = Inr (g i)"
    using run [of "NUM_BANKS c" g] that assms by (simp add: for_banks_def)
  assume F: "for_banks c f r = Inr r'"
  have part: "\<exists>g. \<forall>i < n. f i (?s ! i) = Inr (g i)"
    if "n \<le> length ?s" "rfold ?b [0..<n] ?s = Inr t" for n t
    using that
  proof (induction n arbitrary: t)
    case (Suc n)
    then obtain u where u: "rfold ?b [0..<n] ?s = Inr u" "?b n u = Inr t"
      by (auto simp: rfold_append rbind_eq_Inr)
    obtain g where g: "\<forall>i < n. f i (?s ! i) = Inr (g i)" using Suc.IH [OF _ u(1)] Suc.prems(1) by auto
    have "u = map g [0..<n] @ drop n ?s" using run [OF _ g] u(1) Suc.prems(1) by simp
    then have "u ! n = ?s ! n" using Suc.prems(1) by (simp add: nth_append)
    then obtain x where "f n (?s ! n) = Inr x" using u(2) by (auto simp: rbind_eq_Inr at_eq_Inr)
    then show ?case using g by (intro exI [of _ "g(n := x)"]) (auto simp: less_Suc_eq)
  qed simp
  obtain t where t: "rfold ?b [0..<NUM_BANKS c] ?s = Inr t" "r' = r\<lparr>bankStates := t\<rparr>"
    using F by (auto simp: for_banks_def rbind_eq_Inr)
  then obtain g where g: "\<forall>i < NUM_BANKS c. f i (?s ! i) = Inr (g i)"
    using part [of "NUM_BANKS c" t] assms by auto
  have "t = map g [0..<NUM_BANKS c]" using run [OF _ g] t(1) assms by simp
  then show "\<exists>g. (\<forall>i < NUM_BANKS c. f i (?s ! i) = Inr (g i))
      \<and> r' = r\<lparr>bankStates := map g [0..<NUM_BANKS c]\<rparr>" using g t(2) by blast
qed

section \<open>What a command does to the reads\<close>

definition is_read :: "bus_packet \<Rightarrow> bool" where
  "is_read p \<longleftrightarrow> busPacketType p = READ \<or> busPacketType p = READ_P"

text \<open>The parts of a rank that only \<open>update\<close> and the reads change.\<close>

definition same_reads :: "dram_rank \<Rightarrow> dram_rank \<Rightarrow> bool" where
  "same_reads r r' \<longleftrightarrow>
     readReturnPacket r' = readReturnPacket r \<and> readReturnCountdown r' = readReturnCountdown r"

definition same_bus :: "dram_rank \<Rightarrow> dram_rank \<Rightarrow> bool" where
  "same_bus r r' \<longleftrightarrow>
     outgoingDataPacket r' = outgoingDataPacket r \<and> dataCyclesLeft r' = dataCyclesLeft r \<and>
     rk_clock r' = rk_clock r \<and> length (bankStates r') = length (bankStates r)"

text \<open>A bank that is open afterwards was open before with a time of the next read that is not
  later, or was opened by an activate.\<close>

definition later_reads :: "dram_config \<Rightarrow> dram_rank \<Rightarrow> dram_rank \<Rightarrow> bool" where
  "later_reads c r r' \<longleftrightarrow>
     (\<forall>b < NUM_BANKS c. currentBankState (bankStates r' ! b) = RowActive \<longrightarrow>
        currentBankState (bankStates r ! b) = RowActive \<and> nextRead (bankStates r ! b) \<le> nextRead (bankStates r' ! b)
        \<or> nextRead (bankStates r' ! b) = rk_clock r + ACT_TO_CAS_DELAY c)"

lemmas rank_ops = rank_READ_def rank_READ_P_def rank_WRITE_def rank_WRITE_P_def rank_ACTIVATE_def
  rank_PRECHARGE_def rank_REFRESH_def rank_DATA_def

lemma fold_on_bank:
  "fold (\<lambda>i. on_bank b f) is r = r\<lparr>bankStates := (bankStates r)[b := (f ^^ length is) (bankStates r ! b)]\<rparr>"
  if "b < length (bankStates r)"
  using that
proof (induction "is" arbitrary: r)
  case (Cons i js)
  then show ?case
    by (simp add: on_bank_def funpow_swap1)
qed simp

lemma after_write_funpow:
  "currentBankState ((after_write c t ^^ n) st) = currentBankState st
    \<and> nextRead st \<le> nextRead ((after_write c t ^^ n) st)"
  by (induction n) (auto simp: after_write_def le_max_iff_disj)

lemma for_banks_pure:
  assumes "length (bankStates r) = NUM_BANKS c"
  shows "for_banks c (\<lambda>i s. Inr (h i s)) r = Inr (r\<lparr>bankStates := map (\<lambda>i. h i (bankStates r ! i)) [0..<NUM_BANKS c]\<rparr>)"
  by (rule for_banks_cases(1) [OF assms]) simp

lemma for_banks_check:
  assumes "length (bankStates r) = NUM_BANKS c" "for_banks c (\<lambda>i s. check (P s) e (Inr (h i s))) r = Inr r'"
  shows "(\<forall>i < NUM_BANKS c. P (bankStates r ! i))
    \<and> r' = r\<lparr>bankStates := map (\<lambda>i. h i (bankStates r ! i)) [0..<NUM_BANKS c]\<rparr>"
proof -
  obtain g where g: "\<forall>i < NUM_BANKS c. check (P (bankStates r ! i)) e (Inr (h i (bankStates r ! i))) = Inr (g i)"
    "r' = r\<lparr>bankStates := map g [0..<NUM_BANKS c]\<rparr>" using for_banks_cases(2) [OF assms] by blast
  then show ?thesis by (auto intro!: arg_cong [where f = "\<lambda>x. r\<lparr>bankStates := x\<rparr>"])
qed

lemma length_on_bank [simp]: "length (bankStates (on_bank b f r)) = length (bankStates r)"
  by (simp add: on_bank_def)

lemmas reads_defs = same_reads_def same_bus_def later_reads_def on_bank_def nth_upd

lemma receive_not_read:
  assumes "rank_receive c p r = Inr r'" "length (bankStates r) = NUM_BANKS c" "\<not> is_read p"
  shows "same_reads r r' \<and> same_bus r r' \<and> later_reads c r r'"
proof (cases "busPacketType p")
  case WRITE
  then show ?thesis using assms(1,2)
    by (auto simp: rank_receive_def rank_WRITE_def rbind_eq_Inr at_eq_Inr for_banks_pure note_write_def
        after_write_def reads_defs split: if_splits)
next
  case WRITE_P
  then show ?thesis using assms(1,2)
    by (auto simp: rank_receive_def rank_WRITE_P_def rbind_eq_Inr at_eq_Inr fold_on_bank note_write_def
        after_write_funpow reads_defs Let_def split: if_splits)
next
  case ACTIVATE
  then show ?thesis using assms(1,2)
    by (auto simp: rank_receive_def rank_ACTIVATE_def rbind_eq_Inr at_eq_Inr for_banks_pure Let_def reads_defs
        split: if_splits)
next
  case PRECHARGE
  then show ?thesis using assms
    by (auto simp: rank_receive_def rank_PRECHARGE_def rbind_eq_Inr at_eq_Inr reads_defs split: if_splits)
next
  case REFRESH
  then show ?thesis using assms for_banks_check [of "r\<lparr>rk_refreshWaiting := False\<rparr>" c]
    by (fastforce simp: rank_receive_def rank_REFRESH_def reads_defs)
next
  case DATA
  then show ?thesis using assms
    by (auto simp: rank_receive_def rank_DATA_def rbind_eq_Inr reads_defs split: if_splits)
qed (use assms(3) in \<open>auto simp: is_read_def\<close>)

text \<open>A read is accepted by an open bank at its time; then no bank allows a read before the
  distance of two column commands, and the packet waits for the read latency.\<close>

lemma receive_read:
  assumes "rank_receive c p r = Inr r'" "length (bankStates r) = NUM_BANKS c" "is_read p"
  shows "\<exists>q. readReturnPacket r' = readReturnPacket r @ [q]"
    and "readReturnCountdown r' = readReturnCountdown r @ [RL c]" and "same_bus r r'"
    and "bank p < NUM_BANKS c" "currentBankState (bankStates r ! bank p) = RowActive"
    and "nextRead (bankStates r ! bank p) \<le> rk_clock r"
    and "b < NUM_BANKS c \<Longrightarrow> nextRead (bankStates r ! b) \<le> nextRead (bankStates r' ! b)
      \<and> rk_clock r + CAS_TO_CAS_DELAY c \<le> nextRead (bankStates r' ! b)"
  using assms
  by (auto simp: is_read_def rank_receive_def rank_READ_def rank_READ_P_def rbind_eq_Inr at_eq_Inr
      for_banks_pure read_data_def read_allowed_def after_read_def reads_defs split: if_splits)

lemma power_not_read:
  assumes "rank_powerDown c r = Inr r' \<or> rank_powerUp c r = Inr r'" "length (bankStates r) = NUM_BANKS c"
  shows "same_reads r r' \<and> same_bus r r' \<and> later_reads c r r'"
  using assms for_banks_check [of r c _ _ _ _] for_banks_check [of "r\<lparr>isPowerDown := False\<rparr>" c]
  by (fastforce simp: rank_powerDown_def rank_powerUp_def rbind_eq_Inr reads_defs)

section \<open>Every read is answered\<close>

text \<open>
  A rank over time. In a cycle the memory system first calls \<open>update\<close>, then the controller sends
  commands, then the clock goes on; since \<open>update\<close> of a new rank does nothing, a run starts with the
  commands of cycle 0. The controller may set the flag \<open>refreshWaiting\<close>. The two lists record the reads that were accepted, with the cycle and the
  packet that waits for its return, and the packets handed to the controller, with the cycle.
\<close>

inductive rank_run ::
  "dram_config \<Rightarrow> (nat \<times> bus_packet) list \<Rightarrow> (nat \<times> bus_packet) list \<Rightarrow> dram_rank \<Rightarrow> bool" where
  start: "rank_run c [] [] (rank_init c i)"
| command: "rank_run c I R r \<Longrightarrow> rank_receive c p r = Inr r' \<Longrightarrow> \<not> is_read p \<Longrightarrow> rank_run c I R r'"
| read: "rank_run c I R r \<Longrightarrow> rank_receive c p r = Inr r' \<Longrightarrow> is_read p \<Longrightarrow>
    rank_run c (I @ [(rk_clock r, last (readReturnPacket r'))]) R r'"
| power: "rank_run c I R r \<Longrightarrow> rank_powerDown c r = Inr r' \<or> rank_powerUp c r = Inr r' \<Longrightarrow> rank_run c I R r'"
| flag: "rank_run c I R r \<Longrightarrow> rank_run c I R (r\<lparr>rk_refreshWaiting := w\<rparr>)"
| tick: "rank_run c I R r \<Longrightarrow> rank_update c (rank_step r) = Inr (d, r') \<Longrightarrow>
    rank_run c I (case d of None \<Rightarrow> R | Some p \<Rightarrow> R @ [(rk_clock r', p)]) r'"

text \<open>The reads are delivered, on the bus, or waiting.\<close>

definition on_bus :: "dram_config \<Rightarrow> (nat \<times> bus_packet) list \<Rightarrow> dram_rank \<Rightarrow> bool" where
  "on_bus c B r \<longleftrightarrow>
     (B = [] \<and> outgoingDataPacket r = None \<or>
      (\<exists>t p. B = [(t, p)] \<and> outgoingDataPacket r = Some p \<and> t + RL c \<le> rk_clock r
         \<and> rk_clock r < t + RL c + BL c div 2 \<and> dataCyclesLeft r = t + RL c + BL c div 2 - rk_clock r))"

definition waiting :: "dram_config \<Rightarrow> (nat \<times> bus_packet) list \<Rightarrow> dram_rank \<Rightarrow> bool" where
  "waiting c W r \<longleftrightarrow>
     readReturnPacket r = map snd W \<and> readReturnCountdown r = map (\<lambda>x. fst x + RL c - rk_clock r) W \<and>
     (\<forall>x \<in> set W. fst x \<le> rk_clock r \<and> rk_clock r < fst x + RL c)"

definition answer :: "dram_config \<Rightarrow> nat \<times> bus_packet \<Rightarrow> nat \<times> bus_packet" where
  "answer c x = (fst x + RL c + BL c div 2, snd x)"

definition pipeline :: "dram_config \<Rightarrow> (nat \<times> bus_packet) list \<Rightarrow> (nat \<times> bus_packet) list \<Rightarrow> dram_rank \<Rightarrow> bool" where
  "pipeline c I R r \<longleftrightarrow>
     (\<exists>D B W. I = D @ B @ W \<and> R = map (answer c) D \<and> (\<forall>x \<in> set R. fst x \<le> rk_clock r)
        \<and> on_bus c B r \<and> waiting c W r)"

definition spaced :: "dram_config \<Rightarrow> (nat \<times> bus_packet) list \<Rightarrow> dram_rank \<Rightarrow> bool" where
  "spaced c I r \<longleftrightarrow>
     sorted_wrt (\<lambda>x y. fst x + CAS_TO_CAS_DELAY c \<le> fst y) I \<and>
     (\<forall>x \<in> set I. fst x \<le> rk_clock r) \<and> length (bankStates r) = NUM_BANKS c \<and>
     (\<forall>b < NUM_BANKS c. currentBankState (bankStates r ! b) = RowActive \<longrightarrow>
        (\<forall>x \<in> set I. fst x + CAS_TO_CAS_DELAY c \<le> nextRead (bankStates r ! b)))"

text \<open>What the timing parameters have to satisfy: no latency is zero, and an activate does not allow
  a read earlier than the distance of two column commands does.\<close>

definition timing_ok :: "dram_config \<Rightarrow> bool" where
  "timing_ok c \<longleftrightarrow> 0 < RL c \<and> 0 < BL c div 2 \<and> BL c < 2 ^ 32 \<and> CAS_TO_CAS_DELAY c \<le> ACT_TO_CAS_DELAY c"

lemma spaced_later:
  assumes "spaced c I r" "timing_ok c" "same_bus r r'" "later_reads c r r'"
  shows "spaced c I r'"
proof -
  have "fst x + CAS_TO_CAS_DELAY c \<le> nextRead (bankStates r' ! b)"
    if "b < NUM_BANKS c" "currentBankState (bankStates r' ! b) = RowActive" "x \<in> set I" for b x
  proof -
    have "currentBankState (bankStates r ! b) = RowActive \<and> nextRead (bankStates r ! b) \<le> nextRead (bankStates r' ! b)
        \<or> nextRead (bankStates r' ! b) = rk_clock r + ACT_TO_CAS_DELAY c"
      using assms(4) that(1,2) by (simp add: later_reads_def)
    moreover have "fst x \<le> rk_clock r" "CAS_TO_CAS_DELAY c \<le> ACT_TO_CAS_DELAY c"
      using assms(1,2) that(3) by (simp_all add: spaced_def timing_ok_def)
    moreover have "currentBankState (bankStates r ! b) = RowActive \<Longrightarrow> fst x + CAS_TO_CAS_DELAY c \<le> nextRead (bankStates r ! b)"
      using assms(1) that by (simp add: spaced_def)
    ultimately show ?thesis by linarith
  qed
  then show ?thesis using assms(1,3) by (simp add: spaced_def same_bus_def)
qed

lemma pipeline_same:
  "pipeline c I R r \<Longrightarrow> same_reads r r' \<Longrightarrow> same_bus r r' \<Longrightarrow> pipeline c I R r'"
  by (simp add: pipeline_def on_bus_def waiting_def same_reads_def same_bus_def)

lemma read_step:
  assumes "rank_receive c p r = Inr r'" "is_read p" "timing_ok c" "pipeline c I R r" "spaced c I r"
  shows "pipeline c (I @ [(rk_clock r, last (readReturnPacket r'))]) R r'"
    and "spaced c (I @ [(rk_clock r, last (readReturnPacket r'))]) r'"
proof -
  have l: "length (bankStates r) = NUM_BANKS c" using assms(5) by (simp add: spaced_def)
  note rr = receive_read [OF assms(1) l assms(2)]
  obtain q where q: "readReturnPacket r' = readReturnPacket r @ [q]" using rr(1) by blast
  obtain D B W where d: "I = D @ B @ W" "R = map (answer c) D" "\<forall>x \<in> set R. fst x \<le> rk_clock r"
    "on_bus c B r" "waiting c W r" using assms(4) by (auto simp: pipeline_def)
  have "waiting c (W @ [(rk_clock r, q)]) r'" using d(5) q rr(2,3) assms(3)
    by (simp add: waiting_def same_bus_def timing_ok_def)
  moreover have "on_bus c B r'" using d(4) rr(3) by (simp add: on_bus_def same_bus_def)
  ultimately show "pipeline c (I @ [(rk_clock r, last (readReturnPacket r'))]) R r'"
    using d(1-3) rr(3) q unfolding pipeline_def
    by (intro exI [of _ D] exI [of _ B] exI [of _ "W @ [(rk_clock r, q)]"]) (simp add: same_bus_def)
  have "fst x + CAS_TO_CAS_DELAY c \<le> rk_clock r" if "x \<in> set I" for x
    using assms(5) rr(4-6) that by (fastforce simp: spaced_def)
  then show "spaced c (I @ [(rk_clock r, last (readReturnPacket r'))]) r'"
    using assms(5) rr(3,7) by (force simp: spaced_def sorted_wrt_append same_bus_def)
qed

text \<open>One cycle: first the packet on the bus, then the waiting ones.\<close>

lemma bus_tick_ok:
  assumes "on_bus c B r" "timing_ok c" "bus_tick (rank_step r) = (d, r1)"
  obtains D' B' where "B = D' @ B'" "d = (case D' of [] \<Rightarrow> None | x # _ \<Rightarrow> Some (snd x))" "length D' \<le> 1"
    "\<forall>x \<in> set D'. fst x + RL c + BL c div 2 = rk_clock r + 1" "on_bus c B' r1"
    "r1 = r\<lparr>rk_clock := rk_clock r + 1, dataCyclesLeft := dataCyclesLeft r1, outgoingDataPacket := outgoingDataPacket r1\<rparr>"
proof (cases "B = []")
  case True
  then have "d = None" "r1 = rank_step r" "outgoingDataPacket r = None"
    using assms(1,3) by (auto simp: on_bus_def bus_tick_def rank_step_def)
  then show ?thesis using True by (intro that [of "[]" "[]"]) (simp_all add: on_bus_def rank_step_def)
next
  case False
  then obtain t p where b: "B = [(t, p)]" "outgoingDataPacket r = Some p" "t + RL c \<le> rk_clock r"
    "rk_clock r < t + RL c + BL c div 2" "dataCyclesLeft r = t + RL c + BL c div 2 - rk_clock r"
    using assms(1) by (auto simp: on_bus_def)
  have "BL c < 2 ^ 32" using assms(2) by (simp add: timing_ok_def)
  then have "dataCyclesLeft r < 2 ^ 32" using b(3,5) by simp
  then have k: "u32_dec (dataCyclesLeft r) = t + RL c + BL c div 2 - (rk_clock r + 1)"
    using b(4,5) by (simp add: u32_dec_pos)
  show ?thesis
  proof (cases "t + RL c + BL c div 2 = rk_clock r + 1")
    case True
    then have "d = Some p" "r1 = (rank_step r)\<lparr>dataCyclesLeft := 0, outgoingDataPacket := None\<rparr>"
      using assms(3) b(2) k by (auto simp: bus_tick_def rank_step_def)
    then show ?thesis using True b(1)
      by (intro that [of B "[]"]) (simp_all add: on_bus_def rank_step_def)
  next
    case False
    then have "d = None" "r1 = (rank_step r)\<lparr>dataCyclesLeft := t + RL c + BL c div 2 - (rk_clock r + 1)\<rparr>"
      using assms(3) b(2,4) k by (auto simp: bus_tick_def rank_step_def Let_def)
    then show ?thesis using False b
      by (intro that [of "[]" B]) (auto simp: on_bus_def rank_step_def)
  qed
qed

lemma tick_ok:
  assumes "timing_ok c" "pipeline c I R r" "spaced c I r"
  obtains d r' where "rank_update c (rank_step r) = Inr (d, r')" "spaced c I r'" "rk_clock r' = rk_clock r + 1"
    "pipeline c I (case d of None \<Rightarrow> R | Some p \<Rightarrow> R @ [(rk_clock r', p)]) r'"
proof -
  note goal = that
  obtain D B W where p: "I = D @ B @ W" "R = map (answer c) D" "\<forall>x \<in> set R. fst x \<le> rk_clock r"
    "on_bus c B r" "waiting c W r" using assms(2) by (auto simp: pipeline_def)
  obtain d r1 where bt: "bus_tick (rank_step r) = (d, r1)" by force
  obtain D' B' where b: "B = D' @ B'" "d = (case D' of [] \<Rightarrow> None | x # _ \<Rightarrow> Some (snd x))" "length D' \<le> 1"
    "\<forall>x \<in> set D'. fst x + RL c + BL c div 2 = rk_clock r + 1" "on_bus c B' r1"
    "r1 = r\<lparr>rk_clock := rk_clock r + 1, dataCyclesLeft := dataCyclesLeft r1, outgoingDataPacket := outgoingDataPacket r1\<rparr>"
    by (rule bus_tick_ok [OF p(4) assms(1) bt])
  let ?now = "rk_clock r + 1"
  have c1: "rk_clock r1 = ?now" "readReturnPacket r1 = map snd W" "bankStates r1 = bankStates r"
    by (subst b(6), simp add: p(5) [unfolded waiting_def])+
  have rl: "RL c < 2 ^ 32" unfolding RL_def by (rule u32_bounds)
  have cd: "map u32_dec (readReturnCountdown r1) = map (\<lambda>x. fst x + RL c - ?now) W"
  proof -
    have "u32_dec (fst x + RL c - rk_clock r) = fst x + RL c - ?now" if "x \<in> set W" for x
    proof -
      have "fst x \<le> rk_clock r" "rk_clock r < fst x + RL c" using p(5) that by (auto simp: waiting_def)
      then show ?thesis using rl by (subst u32_dec_pos) linarith+
    qed
    then show ?thesis by (subst b(6)) (simp add: p(5) [unfolded waiting_def])
  qed
  let ?R = "case d of None \<Rightarrow> R | Some p \<Rightarrow> R @ [(?now, p)]"
  have R: "?R = map (answer c) (D @ D') \<and> (\<forall>x \<in> set ?R. fst x \<le> ?now)"
  proof (cases D')
    case (Cons x xs)
    then have "D' = [x]" using b(3) by simp
    then show ?thesis using b(2,4) p(2,3) by (auto simp: answer_def)
  qed (use b(2) p(2,3) in auto)
  have cas: "BL c div 2 \<le> CAS_TO_CAS_DELAY c" "0 < CAS_TO_CAS_DELAY c"
    using assms(1) by (auto simp: CAS_TO_CAS_DELAY_def timing_ok_def)
  have sorted: "sorted_wrt (\<lambda>x y. fst x + CAS_TO_CAS_DELAY c \<le> fst y) (D @ B @ W)"
    using assms(3) p(1) by (simp add: spaced_def)
  have sp: "spaced c I r'" if "rk_clock r' = ?now" "bankStates r' = bankStates r" for r'
    using assms(3) that by (auto simp: spaced_def)
  have fin: thesis if s: "rank_update c (rank_step r) = Inr (d, s)" "rk_clock s = ?now"
    "bankStates s = bankStates r" "pipeline c I ?R s" for s
    using goal [OF s(1) sp [OF s(2,3)] s(2)] s(4) unfolding s(2) by blast
  have W: "fst x \<le> rk_clock r \<and> rk_clock r < fst x + RL c" if "x \<in> set W" for x
    using p(5) that by (simp add: waiting_def)
  show ?thesis
  proof (cases W)
    case Nil
    let ?r = "r1\<lparr>readReturnCountdown := []\<rparr>"
    have "rank_update c (rank_step r) = Inr (d, ?r)"
      using bt cd Nil by (simp add: rank_update_def)
    moreover have "pipeline c I ?R ?r"
      using R p(1) b(1,5) c1 Nil unfolding pipeline_def
      by (intro exI [of _ "D @ D'"] exI [of _ B'] exI [of _ "[]"]) (simp add: on_bus_def waiting_def)
    ultimately show ?thesis using fin [of ?r] c1(1,3) by simp
  next
    case (Cons x xs)
    have later: "fst x + CAS_TO_CAS_DELAY c \<le> fst y" if "y \<in> set xs" for y
      using sorted that Cons by (simp add: sorted_wrt_append)
    show ?thesis
    proof (cases "fst x + RL c = ?now")
      case True
      have "B' = []"
      proof (rule ccontr)
        assume "B' \<noteq> []"
        then obtain t q where q: "B' = [(t, q)]" "?now < t + RL c + BL c div 2"
          using b(5) c1(1) by (auto simp: on_bus_def)
        then have "t + CAS_TO_CAS_DELAY c \<le> fst x" using sorted b(1) Cons by (simp add: sorted_wrt_append)
        then show False using q(2) True cas(1) by linarith
      qed
      let ?r = "r1\<lparr>outgoingDataPacket := Some (snd x), dataCyclesLeft := BL c div 2,
                 readReturnPacket := map snd xs, readReturnCountdown := map (\<lambda>x. fst x + RL c - ?now) xs\<rparr>"
      have u: "rank_update c (rank_step r) = Inr (d, ?r)"
        using bt cd Cons True c1(2) by (simp add: rank_update_def)
      have "waiting c xs ?r"
      proof -
        have "fst y \<le> ?now \<and> ?now < fst y + RL c" if "y \<in> set xs" for y
          using W [of y] later [OF that] True cas(2) that Cons by auto
        then show ?thesis using c1(1) by (simp add: waiting_def)
      qed
      moreover have "on_bus c [x] ?r" using True c1(1) assms(1)
        by (cases x) (auto simp: on_bus_def timing_ok_def)
      ultimately have "pipeline c I ?R ?r" using R p(1) b(1) \<open>B' = []\<close> Cons c1(1) unfolding pipeline_def
        by (intro exI [of _ "D @ D'"] exI [of _ "[x]"] exI [of _ xs]) simp
      then show ?thesis using fin [of ?r] u c1(1,3) by simp
    next
      case False
      have now: "fst y \<le> ?now \<and> ?now < fst y + RL c" if "y \<in> set W" for y
        using W [OF that] W [of x] later [of y] False that Cons cas(2) by auto
      let ?r = "r1\<lparr>readReturnCountdown := map (\<lambda>x. fst x + RL c - ?now) W\<rparr>"
      have u: "rank_update c (rank_step r) = Inr (d, ?r)"
        using bt cd now [of x] Cons by (simp add: rank_update_def Let_def)
      have "waiting c W ?r" using now c1(1,2) by (simp add: waiting_def)
      moreover have "on_bus c B' ?r" using b(5) by (simp add: on_bus_def)
      ultimately have "pipeline c I ?R ?r" using R p(1) b(1) c1(1) unfolding pipeline_def
        by (intro exI [of _ "D @ D'"] exI [of _ B'] exI [of _ W]) simp
      then show ?thesis using fin [of ?r] u c1(1,3) by simp
    qed
  qed
qed

lemma rank_run_inv:
  assumes "rank_run c I R r" "timing_ok c"
  shows "pipeline c I R r \<and> spaced c I r"
  using assms
proof (induction rule: rank_run.induct)
  case (start c i)
  then show ?case by (simp add: pipeline_def on_bus_def waiting_def spaced_def rank_init_def)
next
  case (command c I R r p r')
  then have "length (bankStates r) = NUM_BANKS c" by (simp add: spaced_def)
  from receive_not_read [OF command.hyps(2) this command.hyps(3)] command show ?case
    using pipeline_same spaced_later by blast
next
  case (read c I R r p r')
  then show ?case using read_step by blast
next
  case (power c I R r r')
  then have "length (bankStates r) = NUM_BANKS c" by (simp add: spaced_def)
  from power_not_read [OF power.hyps(2) this] power show ?case
    using pipeline_same spaced_later by blast
next
  case (flag c I R r w)
  then show ?case by (simp add: pipeline_def on_bus_def waiting_def spaced_def)
next
  case (tick c I R r d r')
  then obtain e s where "rank_update c (rank_step r) = Inr (e, s)" "spaced c I s"
    "pipeline c I (case e of None \<Rightarrow> R | Some p \<Rightarrow> R @ [(rk_clock s, p)]) s"
    using tick_ok by metis
  moreover from this(1) tick.hyps(2) have "d = e" "r' = s" by simp_all
  ultimately show ?case by blast
qed

lemma reads_answered:
  assumes "rank_run c I R r" "timing_ok c"
  shows "R = map (answer c) (List.filter (\<lambda>x. fst x + RL c + BL c div 2 \<le> rk_clock r) I)"
proof -
  obtain D B W where p: "I = D @ B @ W" "R = map (answer c) D" "\<forall>x \<in> set R. fst x \<le> rk_clock r"
    "on_bus c B r" "waiting c W r" using rank_run_inv [OF assms] by (auto simp: pipeline_def)
  let ?P = "\<lambda>x :: nat \<times> bus_packet. fst x + RL c + BL c div 2 \<le> rk_clock r"
  have "List.filter ?P D = D" using p(2,3) by (auto simp: filter_id_conv answer_def)
  moreover have "List.filter ?P B = []" using p(4) by (auto simp: on_bus_def)
  moreover have "List.filter ?P W = []" using p(5) by (force simp: waiting_def filter_empty_conv)
  ultimately show ?thesis using p(1,2) by simp
qed

end
