(* ===== verification/AddressMapping.thy ===== *)
theory AddressMapping
  imports DramConfig
begin

unbundle bit_operations_syntax

text \<open>
  \<open>MemoryController::addressMapping\<close>: the split of a physical address (64 bits) into rank, bank,
  row and column. A field is taken off the low end of the address by shifting right and back and
  an exclusive or; the six schemes differ in the order of the fields.
\<close>

section \<open>The code\<close>

definition rankBitWidth :: "dram_config \<Rightarrow> nat" where
  "rankBitWidth c = dramsim_log2 (NUM_RANKS c)"

definition bankBitWidth :: "dram_config \<Rightarrow> nat" where
  "bankBitWidth c = dramsim_log2 (NUM_BANKS c)"

definition rowBitWidth :: "dram_config \<Rightarrow> nat" where
  "rowBitWidth c = dramsim_log2 (NUM_ROWS c)"

definition colBitWidth :: "dram_config \<Rightarrow> nat" where
  "colBitWidth c = dramsim_log2 (NUM_COLS c)"

definition byteOffsetWidth :: "dram_config \<Rightarrow> nat" where
  "byteOffsetWidth c = dramsim_log2 (CACHE_LINE_SIZE c)"

text \<open>The low bits as a \<open>uint\<close>, and the rest of the address.\<close>

definition split_field :: "nat \<Rightarrow> 64 word \<Rightarrow> nat \<times> 64 word" where
  "split_field w pa =
     (let tempA = pa;
          pa' = drop_bit w pa;
          tempB = push_bit w pa'
      in (unat (ucast (tempA XOR tempB) :: 32 word), pa'))"

record dram_location =
  newTransactionRank :: nat
  newTransactionBank :: nat
  newTransactionRow :: nat
  newTransactionColumn :: nat

definition loc :: "nat \<Rightarrow> nat \<Rightarrow> nat \<Rightarrow> nat \<Rightarrow> dram_location" where
  "loc rk bk rw cl =
     \<lparr>newTransactionRank = rk, newTransactionBank = bk, newTransactionRow = rw, newTransactionColumn = cl\<rparr>"

definition addressMapping :: "dram_config \<Rightarrow> nat \<Rightarrow> dram_location" where
  "addressMapping c address =
     (let pa = drop_bit (byteOffsetWidth c) (word_of_nat address :: 64 word)
      in case addressMappingScheme c of
           Scheme1 \<Rightarrow>
             (let (bk, pa) = split_field (bankBitWidth c) pa; (cl, pa) = split_field (colBitWidth c) pa;
                  (rw, pa) = split_field (rowBitWidth c) pa; (rk, pa) = split_field (rankBitWidth c) pa
              in loc rk bk rw cl)
         | Scheme2 \<Rightarrow>
             (let (rk, pa) = split_field (rankBitWidth c) pa; (bk, pa) = split_field (bankBitWidth c) pa;
                  (cl, pa) = split_field (colBitWidth c) pa; (rw, pa) = split_field (rowBitWidth c) pa
              in loc rk bk rw cl)
         | Scheme3 \<Rightarrow>
             (let (rw, pa) = split_field (rowBitWidth c) pa; (cl, pa) = split_field (colBitWidth c) pa;
                  (bk, pa) = split_field (bankBitWidth c) pa; (rk, pa) = split_field (rankBitWidth c) pa
              in loc rk bk rw cl)
         | Scheme4 \<Rightarrow>
             (let (cl, pa) = split_field (colBitWidth c) pa; (rw, pa) = split_field (rowBitWidth c) pa;
                  (bk, pa) = split_field (bankBitWidth c) pa; (rk, pa) = split_field (rankBitWidth c) pa
              in loc rk bk rw cl)
         | Scheme5 \<Rightarrow>
             (let (bk, pa) = split_field (bankBitWidth c) pa; (rk, pa) = split_field (rankBitWidth c) pa;
                  (cl, pa) = split_field (colBitWidth c) pa; (rw, pa) = split_field (rowBitWidth c) pa
              in loc rk bk rw cl)
         | Scheme6 \<Rightarrow>
             (let (cl, pa) = split_field (colBitWidth c) pa; (rk, pa) = split_field (rankBitWidth c) pa;
                  (bk, pa) = split_field (bankBitWidth c) pa; (rw, pa) = split_field (rowBitWidth c) pa
              in loc rk bk rw cl))"

section \<open>The fields\<close>

lemma drop_push_take: "(a :: 64 word) XOR push_bit w (drop_bit w a) = take_bit w a"
  by (rule bit_word_eqI) (auto simp: bit_simps)

lemma unat_drop: "unat (drop_bit n (a :: 64 word)) = unat a div 2 ^ n"
proof -
  have "unat a < 2 ^ 64" by (rule order.strict_trans2 [OF unsigned_less]) simp
  then have "take_bit 64 (unat a) = unat a" by (rule take_bit_nat_eq_self)
  then show ?thesis unfolding unsigned_drop_bit_eq by (simp add: drop_bit_eq_div [where 'a = nat])
qed

text \<open>A field is the remainder by the power of two, as long as it fits into the \<open>uint\<close>.\<close>

lemma split_field_value:
  assumes "w \<le> 32"
  shows "split_field w a = (unat a mod 2 ^ w, drop_bit w a)"
proof -
  have "unat (ucast (take_bit w a) :: 32 word) = unat (take_bit w a) mod 2 ^ 32"
    by (simp add: unsigned_ucast_eq take_bit_eq_mod)
  also have "unat (take_bit w a) = unat a mod 2 ^ w"
    by (simp add: unsigned_take_bit_eq take_bit_eq_mod [where 'a = nat])
  also have "\<dots> mod 2 ^ 32 = unat a mod 2 ^ w"
  proof (rule mod_less)
    have "unat a mod 2 ^ w < 2 ^ w" by simp
    also have "(2 :: nat) ^ w \<le> 2 ^ 32" using assms by (rule power_increasing) simp
    finally show "unat a mod 2 ^ w < 2 ^ 32" .
  qed
  finally show ?thesis by (simp add: split_field_def Let_def drop_push_take)
qed

text \<open>The fields of a number, from the low end, and the number with these fields.\<close>

fun digits :: "nat list \<Rightarrow> nat \<Rightarrow> nat list" where
  "digits [] n = []"
| "digits (w # ws) n = n mod 2 ^ w # digits ws (n div 2 ^ w)"

fun number :: "nat list \<Rightarrow> nat list \<Rightarrow> nat" where
  "number (w # ws) (x # xs) = x + 2 ^ w * number ws xs"
| "number _ _ = 0"

definition in_widths :: "nat list \<Rightarrow> nat list \<Rightarrow> bool" where
  "in_widths ws xs \<longleftrightarrow> list_all2 (\<lambda>w x. x < 2 ^ w) ws xs"

lemma digits_in_widths: "in_widths ws (digits ws n)"
  by (induction ws arbitrary: n) (auto simp: in_widths_def)

lemma number_digits: "n < 2 ^ sum_list ws \<Longrightarrow> number ws (digits ws n) = n"
proof (induction ws arbitrary: n)
  case (Cons w ws)
  then have "n div 2 ^ w < 2 ^ sum_list ws" by (simp add: power_add less_mult_imp_div_less mult.commute)
  then show ?case using Cons.IH by simp
qed simp

lemma digits_number: "in_widths ws xs \<Longrightarrow> digits ws (number ws xs) = xs \<and> number ws xs < 2 ^ sum_list ws"
proof (induction ws arbitrary: xs)
  case (Cons w ws)
  then obtain y ys where y: "xs = y # ys" "y < 2 ^ w" "in_widths ws ys" by (auto simp: in_widths_def list_all2_Cons1)
  note ih = Cons.IH [OF y(3)]
  then have "number ws ys + 1 \<le> 2 ^ sum_list ws" by simp
  then have "2 ^ w * (number ws ys + 1) \<le> 2 ^ w * (2 ^ sum_list ws :: nat)" by (rule mult_le_mono2)
  then show ?case using y ih by (simp add: power_add)
qed (simp add: in_widths_def)

text \<open>The widths of the fields, from the low end, and the location that four fields give.\<close>

definition field_widths :: "dram_config \<Rightarrow> nat list" where
  "field_widths c =
     (let rk = rankBitWidth c; bk = bankBitWidth c; rw = rowBitWidth c; cl = colBitWidth c
      in case addressMappingScheme c of
           Scheme1 \<Rightarrow> [bk, cl, rw, rk] | Scheme2 \<Rightarrow> [rk, bk, cl, rw] | Scheme3 \<Rightarrow> [rw, cl, bk, rk]
         | Scheme4 \<Rightarrow> [cl, rw, bk, rk] | Scheme5 \<Rightarrow> [bk, rk, cl, rw] | Scheme6 \<Rightarrow> [cl, rk, bk, rw])"

definition loc_fields :: "dram_config \<Rightarrow> dram_location \<Rightarrow> nat list" where
  "loc_fields c l =
     (let rk = newTransactionRank l; bk = newTransactionBank l; rw = newTransactionRow l; cl = newTransactionColumn l
      in case addressMappingScheme c of
           Scheme1 \<Rightarrow> [bk, cl, rw, rk] | Scheme2 \<Rightarrow> [rk, bk, cl, rw] | Scheme3 \<Rightarrow> [rw, cl, bk, rk]
         | Scheme4 \<Rightarrow> [cl, rw, bk, rk] | Scheme5 \<Rightarrow> [bk, rk, cl, rw] | Scheme6 \<Rightarrow> [cl, rk, bk, rw])"

definition widths_ok :: "dram_config \<Rightarrow> bool" where
  "widths_ok c \<longleftrightarrow> NUM_RANKS c \<le> 2 ^ 32 - 1 \<and> NUM_BANKS c \<le> 2 ^ 32 - 1 \<and> NUM_ROWS c \<le> 2 ^ 32 - 1 \<and>
     NUM_COLS c \<le> 2 ^ 32 - 1 \<and> byteOffsetWidth c + sum_list (field_widths c) \<le> 64"

lemma width_le: "n \<le> 2 ^ 32 - 1 \<Longrightarrow> dramsim_log2 n \<le> 32"
  by (rule dramsim_log2_least(2)) simp_all

lemma loc_fields_inj: "loc_fields c l = loc_fields c l' \<Longrightarrow> l = l'"
  by (cases "addressMappingScheme c") (auto simp: loc_fields_def Let_def)

lemma fields_of_mapping:
  assumes "widths_ok c"
  shows "loc_fields c (addressMapping c a) = digits (field_widths c) (a mod 2 ^ 64 div 2 ^ byteOffsetWidth c)"
proof -
  have w: "rankBitWidth c \<le> 32" "bankBitWidth c \<le> 32" "rowBitWidth c \<le> 32" "colBitWidth c \<le> 32"
    using assms width_le
    by (simp_all add: widths_ok_def rankBitWidth_def bankBitWidth_def rowBitWidth_def colBitWidth_def)
  have n: "unat (word_of_nat a :: 64 word) = a mod 2 ^ 64" by (simp add: unat_of_nat)
  show ?thesis
    by (cases "addressMappingScheme c")
      (simp_all add: addressMapping_def field_widths_def loc_fields_def loc_def Let_def split_field_value w
        unat_drop n div_mult2_eq)
qed

definition address_of :: "dram_config \<Rightarrow> dram_location \<Rightarrow> nat" where
  "address_of c l = number (field_widths c) (loc_fields c l) * 2 ^ byteOffsetWidth c"

definition capacity :: "dram_config \<Rightarrow> nat" where
  "capacity c = 2 ^ (byteOffsetWidth c + sum_list (field_widths c))"

text \<open>A location whose fields have the widths.\<close>

definition loc_ok :: "dram_config \<Rightarrow> dram_location \<Rightarrow> bool" where
  "loc_ok c l \<longleftrightarrow> newTransactionRank l < 2 ^ rankBitWidth c \<and> newTransactionBank l < 2 ^ bankBitWidth c \<and>
     newTransactionRow l < 2 ^ rowBitWidth c \<and> newTransactionColumn l < 2 ^ colBitWidth c"

lemma loc_ok_fields: "loc_ok c l \<longleftrightarrow> in_widths (field_widths c) (loc_fields c l)"
  by (cases "addressMappingScheme c")
    (auto simp: loc_ok_def in_widths_def field_widths_def loc_fields_def Let_def)

lemma addressMapping_loc_ok: "widths_ok c \<Longrightarrow> loc_ok c (addressMapping c a)"
  by (simp add: loc_ok_fields fields_of_mapping digits_in_widths)

lemma mapping_of_address:
  assumes "widths_ok c" "loc_ok c l" "k < 2 ^ byteOffsetWidth c"
  shows "addressMapping c (address_of c l + k) = l \<and> address_of c l + k < capacity c"
proof -
  let ?n = "number (field_widths c) (loc_fields c l)" and ?s = "sum_list (field_widths c)"
  note d = digits_number [OF assms(2) [unfolded loc_ok_fields]]
  have "(?n + 1) * 2 ^ byteOffsetWidth c \<le> 2 ^ ?s * 2 ^ byteOffsetWidth c" using d by (intro mult_le_mono1) simp
  then have b: "address_of c l + k < capacity c" using assms(3)
    by (simp add: address_of_def capacity_def power_add algebra_simps)
  also have "capacity c \<le> 2 ^ 64" unfolding capacity_def using assms(1) by (intro power_increasing) (simp_all add: widths_ok_def)
  finally have "(address_of c l + k) mod 2 ^ 64 = address_of c l + k" by simp
  moreover have "(address_of c l + k) div 2 ^ byteOffsetWidth c = ?n"
    using assms(3) by (simp add: address_of_def)
  ultimately have "loc_fields c (addressMapping c (address_of c l + k)) = loc_fields c l"
    using d by (simp add: fields_of_mapping [OF assms(1)])
  then show ?thesis using b loc_fields_inj by blast
qed

lemma address_of_mapping:
  assumes "widths_ok c" "a < capacity c"
  shows "address_of c (addressMapping c a) = a - a mod 2 ^ byteOffsetWidth c"
proof -
  have "capacity c \<le> 2 ^ 64" unfolding capacity_def using assms(1) by (intro power_increasing) (simp_all add: widths_ok_def)
  then have m: "a mod 2 ^ 64 = a" using assms(2) by simp
  have "a div 2 ^ byteOffsetWidth c < 2 ^ sum_list (field_widths c)"
    using assms(2) by (simp add: capacity_def power_add less_mult_imp_div_less mult.commute)
  then show ?thesis
    unfolding address_of_def fields_of_mapping [OF assms(1)] m by (simp add: number_digits minus_mod_eq_div_mult)
qed

text \<open>With sizes that are powers of two the location exists.\<close>

definition pow2 :: "nat \<Rightarrow> bool" where
  "pow2 n \<longleftrightarrow> n = 2 ^ dramsim_log2 n"

lemma location_exists:
  assumes "widths_ok c" "pow2 (NUM_RANKS c)" "pow2 (NUM_BANKS c)"
  shows "newTransactionRank (addressMapping c a) < NUM_RANKS c" "newTransactionBank (addressMapping c a) < NUM_BANKS c"
  using addressMapping_loc_ok [OF assms(1), of a] assms(2,3)
  by (simp_all add: loc_ok_def rankBitWidth_def bankBitWidth_def pow2_def)

end
