(* ===== verification/MemoryController.thy ===== *)
theory MemoryController
  imports CommandQueue DramRank AddressMapping
begin

text \<open>
  The memory controller, DRAMSim2/MemoryController.cpp. Its \<open>update\<close> is one long function; each
  part between two of its comments is a definition here, in the same order, and \<open>mc_update\<close> runs
  them one after the other. The vector of ranks that the memory system owns and the controller has
  a pointer to is the field \<open>mc_ranks\<close>. The two callbacks of the memory system are recorded in a
  list, if they are registered. \<open>printStats\<close> only prints floating-point numbers (the two vectors
  that it sums up are set to 0 right after it).
\<close>

section \<open>State\<close>

datatype mem_event = Read_returned nat nat | Write_done nat nat

record mem_ctrl =
  transactionQueue :: "transaction list"
  mc_bankStates :: "bank_state list list"
  commandQueue :: cmd_queue
  refreshCountdown :: "nat list"
  writeDataToSend :: "bus_packet list"
  writeDataCountdown :: "nat list"
  returnTransaction :: "transaction list"
  pendingReadTransactions :: "transaction list"
  latencies :: "nat \<Rightarrow> nat"
  powerDown :: "bool list"
  mc_ranks :: "dram_rank list"
  outgoingCmdPacket :: "bus_packet option"
  cmdCyclesLeft :: nat
  mc_outgoingDataPacket :: "bus_packet option"
  mc_dataCyclesLeft :: nat
  totalTransactions :: nat
  totalReadsPerBank :: "nat list"
  totalWritesPerBank :: "nat list"
  totalReadsPerRank :: "nat list"
  totalWritesPerRank :: "nat list"
  backgroundEnergy :: "nat list"
  burstEnergy :: "nat list"
  actpreEnergy :: "nat list"
  refreshEnergy :: "nat list"
  totalEpochLatency :: "nat list"
  mc_refreshRank :: nat
  NUM_DEVICES :: nat
  mc_clock :: nat
  readCB :: bool
  writeCB :: bool
  callbacks :: "mem_event list"

text \<open>The total storage (MemorySystem.cpp computes it before it creates the controller); the
  products are \<open>long\<close> and stay in range for every real memory.\<close>

definition TOTAL_STORAGE :: "dram_config \<Rightarrow> nat result" where
  "TOTAL_STORAGE c =
     check (DEVICE_WIDTH c \<noteq> 0) Undefined
       (Inr (NUM_RANKS c * NUM_ROWS c * NUM_COLS c * NUM_BANKS c * DEVICE_WIDTH c div 8
               * (JEDEC_DATA_BUS_WIDTH c div DEVICE_WIDTH c)))"

definition mc_init :: "dram_config \<Rightarrow> dram_rank list \<Rightarrow> mem_ctrl result" where
  "mc_init c rks =
     rbind (TOTAL_STORAGE c) (\<lambda>storage.
     check (NUM_ROWS c * NUM_COLS c * DEVICE_WIDTH c * NUM_BANKS c \<noteq> 0 \<and> NUM_RANKS c \<noteq> 0) Undefined (Inr
     \<lparr>transactionQueue = [],
      mc_bankStates = replicate (NUM_RANKS c) (replicate (NUM_BANKS c) BankState),
      commandQueue = cq_init c,
      refreshCountdown = map (\<lambda>i. u32_mul (REFRESH_STAGGER c) (i + 1)) [0..<NUM_RANKS c],
      writeDataToSend = [], writeDataCountdown = [], returnTransaction = [], pendingReadTransactions = [],
      latencies = (\<lambda>_. 0), powerDown = replicate (NUM_RANKS c) False, mc_ranks = rks,
      outgoingCmdPacket = None, cmdCyclesLeft = 0, mc_outgoingDataPacket = None, mc_dataCyclesLeft = 0,
      totalTransactions = 0,
      totalReadsPerBank = replicate (NUM_RANKS c * NUM_BANKS c) 0,
      totalWritesPerBank = replicate (NUM_RANKS c * NUM_BANKS c) 0,
      totalReadsPerRank = replicate (NUM_RANKS c) 0, totalWritesPerRank = replicate (NUM_RANKS c) 0,
      backgroundEnergy = replicate (NUM_RANKS c) 0, burstEnergy = replicate (NUM_RANKS c) 0,
      actpreEnergy = replicate (NUM_RANKS c) 0, refreshEnergy = replicate (NUM_RANKS c) 0,
      totalEpochLatency = replicate (NUM_RANKS c * NUM_BANKS c) 0,
      mc_refreshRank = 0,
      NUM_DEVICES = storage * 8 div (NUM_ROWS c * NUM_COLS c * DEVICE_WIDTH c * NUM_BANKS c) div NUM_RANKS c
                      mod 2 ^ 32,
      mc_clock = 0, readCB = False, writeCB = False, callbacks = []\<rparr>))"

text \<open>The macro \<open>SEQUENTIAL\<close>, and adding to an element of a vector of counters.\<close>

definition sequential :: "dram_config \<Rightarrow> nat \<Rightarrow> nat \<Rightarrow> nat" where
  "sequential c r b = u32_add (u32_mul r (NUM_BANKS c)) b"

definition bump :: "nat \<Rightarrow> nat \<Rightarrow> nat list \<Rightarrow> nat list result" where
  "bump i k xs = rbind (at xs i) (\<lambda>x. Inr (xs[i := u64_add x k]))"

text \<open>Assignments to one bank state, and the loops over the banks of all the ranks.\<close>

definition the_bank ::
  "nat \<Rightarrow> nat \<Rightarrow> (bank_state \<Rightarrow> bank_state) \<Rightarrow> bank_state list list \<Rightarrow> bank_state list list" where
  "the_bank r b f bs = put2 r b (f (bs ! r ! b)) bs"

definition each_bank ::
  "dram_config \<Rightarrow> (nat \<Rightarrow> nat \<Rightarrow> bank_state \<Rightarrow> bank_state) \<Rightarrow> bank_state list list \<Rightarrow> bank_state list list" where
  "each_bank c f bs = map (\<lambda>i. map (\<lambda>j. f i j (bs ! i ! j)) [0..<NUM_BANKS c]) [0..<NUM_RANKS c]"

section \<open>Transactions\<close>

definition WillAcceptTransaction :: "dram_config \<Rightarrow> mem_ctrl \<Rightarrow> bool" where
  "WillAcceptTransaction c m \<longleftrightarrow> length (transactionQueue m) < TRANS_QUEUE_DEPTH c"

definition mc_addTransaction :: "dram_config \<Rightarrow> transaction \<Rightarrow> mem_ctrl \<Rightarrow> bool \<times> mem_ctrl" where
  "mc_addTransaction c t m =
     (if WillAcceptTransaction c m then
        (True, m\<lparr>transactionQueue := transactionQueue m @ [t\<lparr>timeAdded := mc_clock m\<rparr>]\<rparr>)
      else (False, m))"

text \<open>Data that a rank sends back.\<close>

definition mc_receiveFromBus :: "dram_config \<Rightarrow> bus_packet \<Rightarrow> mem_ctrl \<Rightarrow> mem_ctrl result" where
  "mc_receiveFromBus c p m =
     check (busPacketType p = DATA) Error_exit (
     rbind (bump (sequential c (rank p) (bank p)) 1 (totalReadsPerBank m)) (\<lambda>k.
     Inr (m\<lparr>returnTransaction := returnTransaction m @
              [\<lparr>transactionType = RETURN_DATA, tr_address = physicalAddress p, tr_data = data p,
                timeAdded = 0, timeReturned = 0\<rparr>],
            totalReadsPerBank := k\<rparr>)))"

definition returnReadData :: "transaction \<Rightarrow> mem_ctrl \<Rightarrow> mem_ctrl" where
  "returnReadData t m =
     (if readCB m then m\<lparr>callbacks := callbacks m @ [Read_returned (tr_address t) (mc_clock m)]\<rparr> else m)"

definition insertHistogram :: "dram_config \<Rightarrow> nat \<Rightarrow> nat \<Rightarrow> nat \<Rightarrow> mem_ctrl \<Rightarrow> mem_ctrl result" where
  "insertHistogram c latencyValue r b m =
     rbind (bump (sequential c r b) latencyValue (totalEpochLatency m)) (\<lambda>l.
     let k = latencyValue div 10 * 10
     in Inr (m\<lparr>totalEpochLatency := l, latencies := (latencies m)(k := u32_add (latencies m k) 1)\<rparr>))"

section \<open>update: the beginning\<close>

text \<open>The implicit changes of a bank's state.\<close>

definition tick_bank :: "dram_config \<Rightarrow> bank_state \<Rightarrow> bank_state" where
  "tick_bank c st =
     (if stateChangeCountdown st > 0 then
        (let st1 = st\<lparr>stateChangeCountdown := stateChangeCountdown st - 1\<rparr>
         in if stateChangeCountdown st1 = 0 then
              (if lastCommand st1 = WRITE_P \<or> lastCommand st1 = READ_P then
                 st1\<lparr>currentBankState := Precharging, lastCommand := PRECHARGE, stateChangeCountdown := tRP c\<rparr>
               else if lastCommand st1 = REFRESH \<or> lastCommand st1 = PRECHARGE then
                 st1\<lparr>currentBankState := Idle\<rparr>
               else st1)
            else st1)
      else st)"

definition mc_tick_banks :: "dram_config \<Rightarrow> mem_ctrl \<Rightarrow> mem_ctrl" where
  "mc_tick_banks c m = m\<lparr>mc_bankStates := each_bank c (\<lambda>i j. tick_bank c) (mc_bankStates m)\<rparr>"

text \<open>A packet that has crossed the command or data bus goes to its rank.\<close>

definition to_rank :: "dram_config \<Rightarrow> bus_packet \<Rightarrow> mem_ctrl \<Rightarrow> mem_ctrl result" where
  "to_rank c p m =
     rbind (at (mc_ranks m) (rank p)) (\<lambda>r.
     rbind (rank_receive c p r) (\<lambda>r'. Inr (m\<lparr>mc_ranks := (mc_ranks m)[rank p := r']\<rparr>)))"

definition mc_command_bus :: "dram_config \<Rightarrow> mem_ctrl \<Rightarrow> mem_ctrl result" where
  "mc_command_bus c m =
     (case outgoingCmdPacket m of
        None \<Rightarrow> Inr m
      | Some p \<Rightarrow>
          let m1 = m\<lparr>cmdCyclesLeft := u32_dec (cmdCyclesLeft m)\<rparr>
          in if cmdCyclesLeft m1 = 0 then
               rbind (to_rank c p m1) (\<lambda>m2. Inr (m2\<lparr>outgoingCmdPacket := None\<rparr>))
             else Inr m1)"

definition mc_data_bus :: "dram_config \<Rightarrow> mem_ctrl \<Rightarrow> mem_ctrl result" where
  "mc_data_bus c m =
     (case mc_outgoingDataPacket m of
        None \<Rightarrow> Inr m
      | Some p \<Rightarrow>
          let m1 = m\<lparr>mc_dataCyclesLeft := u32_dec (mc_dataCyclesLeft m)\<rparr>
          in if mc_dataCyclesLeft m1 = 0 then
               (let m2 = (if writeCB m1 then m1\<lparr>callbacks := callbacks m1 @ [Write_done (physicalAddress p) (mc_clock m1)]\<rparr>
                          else m1)
                in rbind (to_rank c p m2) (\<lambda>m3. Inr (m3\<lparr>mc_outgoingDataPacket := None\<rparr>)))
             else Inr m1)"

text \<open>Write data whose write latency is over goes on the data bus.\<close>

definition mc_launch_write :: "dram_config \<Rightarrow> mem_ctrl \<Rightarrow> mem_ctrl result" where
  "mc_launch_write c m =
     (case map u32_dec (writeDataCountdown m) of
        [] \<Rightarrow> Inr m
      | k # ks \<Rightarrow>
          if k = 0 then
            check (mc_outgoingDataPacket m = None) Error_exit (
            rbind (at (writeDataToSend m) 0) (\<lambda>p.
            rbind (bump (sequential c (rank p) (bank p)) 1 (totalWritesPerBank m)) (\<lambda>w.
            Inr (m\<lparr>mc_outgoingDataPacket := Some p, mc_dataCyclesLeft := BL c div 2,
                   totalTransactions := u64_add (totalTransactions m) 1, totalWritesPerBank := w,
                   writeDataCountdown := ks, writeDataToSend := tl (writeDataToSend m)\<rparr>))))
          else Inr (m\<lparr>writeDataCountdown := k # ks\<rparr>))"

definition set_refreshWaiting :: "nat \<Rightarrow> mem_ctrl \<Rightarrow> mem_ctrl result" where
  "set_refreshWaiting i m =
     rbind (at (mc_ranks m) i) (\<lambda>r. Inr (m\<lparr>mc_ranks := (mc_ranks m)[i := r\<lparr>rk_refreshWaiting := True\<rparr>]\<rparr>))"

definition mc_refresh :: "dram_config \<Rightarrow> mem_ctrl \<Rightarrow> mem_ctrl result" where
  "mc_refresh c m =
     (let rr = mc_refreshRank m
      in rbind (at (refreshCountdown m) rr) (\<lambda>k.
         if k = 0 then
           rbind (set_refreshWaiting rr (m\<lparr>commandQueue := needRefresh rr (commandQueue m)\<rparr>)) (\<lambda>m1.
           Inr (m1\<lparr>refreshCountdown := (refreshCountdown m1)[rr := REFRESH_CYCLES c],
                   mc_refreshRank := (let rr' = u32_add rr 1 in if rr' = NUM_RANKS c then 0 else rr')\<rparr>))
         else
           rbind (at (powerDown m) rr) (\<lambda>pd.
           if pd \<and> k \<le> tXP c then set_refreshWaiting rr m else Inr m)))"

section \<open>update: issuing a command\<close>

text \<open>What a column access means for the other banks: those of other ranks are only touched when open.\<close>

definition mc_after_read :: "dram_config \<Rightarrow> nat \<Rightarrow> bus_packet \<Rightarrow> nat \<Rightarrow> nat \<Rightarrow> bank_state \<Rightarrow> bank_state" where
  "mc_after_read c t p i j s =
     (if i \<noteq> rank p then
        (if currentBankState s = RowActive then
           s\<lparr>nextRead := max (t + BL c div 2 + tRTRS c) (nextRead s),
             nextWrite := max (t + READ_TO_WRITE_DELAY c) (nextWrite s)\<rparr>
         else s)
      else
        s\<lparr>nextRead := max (t + CAS_TO_CAS_DELAY c) (nextRead s),
          nextWrite := max (t + READ_TO_WRITE_DELAY c) (nextWrite s)\<rparr>)"

definition mc_after_write :: "dram_config \<Rightarrow> nat \<Rightarrow> bus_packet \<Rightarrow> nat \<Rightarrow> nat \<Rightarrow> bank_state \<Rightarrow> bank_state" where
  "mc_after_write c t p i j s =
     (if i \<noteq> rank p then
        (if currentBankState s = RowActive then
           s\<lparr>nextWrite := max (t + BL c div 2 + tRTRS c) (nextWrite s),
             nextRead := max (t + WRITE_TO_READ_DELAY_R c) (nextRead s)\<rparr>
         else s)
      else
        s\<lparr>nextWrite := max (t + CAS_TO_CAS_DELAY c) (nextWrite s),
          nextRead := max (t + WRITE_TO_READ_DELAY_B c) (nextRead s)\<rparr>)"

definition block_column_access :: "bank_state \<Rightarrow> bank_state" where
  "block_column_access s = s\<lparr>nextRead := nextActivate s, nextWrite := nextActivate s\<rparr>"

text \<open>The bank states after a command. The result is \<open>None\<close> for a type that is not a command.\<close>

definition issue_banks ::
  "dram_config \<Rightarrow> nat \<Rightarrow> bus_packet \<Rightarrow> bank_state list list \<Rightarrow> bank_state list list option" where
  "issue_banks c t p bs =
     (let r = rank p; b = bank p
      in case busPacketType p of
           READ \<Rightarrow>
             Some (each_bank c (mc_after_read c t p)
               (the_bank r b (\<lambda>s. s\<lparr>nextPrecharge := max (t + READ_TO_PRE_DELAY c) (nextPrecharge s),
                                    lastCommand := READ\<rparr>) bs))
         | READ_P \<Rightarrow>
             Some (the_bank r b block_column_access (each_bank c (mc_after_read c t p)
               (the_bank r b (\<lambda>s. s\<lparr>nextActivate := max (t + READ_AUTOPRE_DELAY c) (nextActivate s),
                                    lastCommand := READ_P, stateChangeCountdown := READ_TO_PRE_DELAY c\<rparr>) bs)))
         | WRITE \<Rightarrow>
             Some (each_bank c (mc_after_write c t p)
               (the_bank r b (\<lambda>s. s\<lparr>nextPrecharge := max (t + WRITE_TO_PRE_DELAY c) (nextPrecharge s),
                                    lastCommand := WRITE\<rparr>) bs))
         | WRITE_P \<Rightarrow>
             Some (the_bank r b block_column_access (each_bank c (mc_after_write c t p)
               (the_bank r b (\<lambda>s. s\<lparr>nextActivate := max (t + WRITE_AUTOPRE_DELAY c) (nextActivate s),
                                    lastCommand := WRITE_P, stateChangeCountdown := WRITE_TO_PRE_DELAY c\<rparr>) bs)))
         | ACTIVATE \<Rightarrow>
             Some (each_bank c (\<lambda>i j s. if i = r \<and> j \<noteq> b
                then s\<lparr>nextActivate := max (t + tRRD c) (nextActivate s)\<rparr> else s)
               (the_bank r b (\<lambda>s. s\<lparr>currentBankState := RowActive, lastCommand := ACTIVATE,
                  openRowAddress := row p,
                  nextActivate := max (t + tRC c) (nextActivate s),
                  nextPrecharge := max (t + tRAS c) (nextPrecharge s),
                  nextRead := max (t + ACT_TO_CAS_DELAY c) (nextRead s),
                  nextWrite := max (t + ACT_TO_CAS_DELAY c) (nextWrite s)\<rparr>) bs))
         | PRECHARGE \<Rightarrow>
             Some (the_bank r b (\<lambda>s. s\<lparr>currentBankState := Precharging, lastCommand := PRECHARGE,
                stateChangeCountdown := tRP c, nextActivate := max (t + tRP c) (nextActivate s)\<rparr>) bs)
         | REFRESH \<Rightarrow>
             Some (each_bank c (\<lambda>i j s. if i = r
                then s\<lparr>nextActivate := t + tRFC c, currentBankState := Refreshing, lastCommand := REFRESH,
                       stateChangeCountdown := tRFC c\<rparr> else s) bs)
         | DATA \<Rightarrow> None)"

definition read_energy :: "dram_config \<Rightarrow> nat \<Rightarrow> nat" where
  "read_energy c devices = u32_mul (u32_mul (u32_sub (IDD4R c) (IDD3N c)) (BL c) div 2) devices"

definition write_energy :: "dram_config \<Rightarrow> nat \<Rightarrow> nat" where
  "write_energy c devices = u32_mul (u32_mul (u32_sub (IDD4W c) (IDD3N c)) (BL c) div 2) devices"

definition activate_energy :: "dram_config \<Rightarrow> nat \<Rightarrow> nat" where
  "activate_energy c devices =
     u32_mul (u32_sub (u32_mul (IDD0 c) (tRC c))
       (u32_add (u32_mul (IDD3N c) (tRAS c)) (u32_mul (IDD2N c) (u32_sub (tRC c) (tRAS c))))) devices"

definition refresh_energy :: "dram_config \<Rightarrow> nat \<Rightarrow> nat" where
  "refresh_energy c devices = u32_mul (u32_mul (u32_sub (IDD5 c) (IDD3N c)) (tRFC c)) devices"

definition add_energy :: "dram_config \<Rightarrow> bus_packet \<Rightarrow> mem_ctrl \<Rightarrow> mem_ctrl result" where
  "add_energy c p m =
     (let r = rank p; d = NUM_DEVICES m
      in if busPacketType p = READ \<or> busPacketType p = READ_P then
           rbind (bump r (read_energy c d) (burstEnergy m)) (\<lambda>e. Inr (m\<lparr>burstEnergy := e\<rparr>))
         else if busPacketType p = WRITE \<or> busPacketType p = WRITE_P then
           rbind (bump r (write_energy c d) (burstEnergy m)) (\<lambda>e. Inr (m\<lparr>burstEnergy := e\<rparr>))
         else if busPacketType p = ACTIVATE then
           rbind (bump r (activate_energy c d) (actpreEnergy m)) (\<lambda>e. Inr (m\<lparr>actpreEnergy := e\<rparr>))
         else if busPacketType p = REFRESH then
           rbind (bump r (refresh_energy c d) (refreshEnergy m)) (\<lambda>e. Inr (m\<lparr>refreshEnergy := e\<rparr>))
         else Inr m)"

definition is_write :: "bus_packet \<Rightarrow> bool" where
  "is_write p \<longleftrightarrow> busPacketType p = WRITE \<or> busPacketType p = WRITE_P"

text \<open>The data of a write, which waits for the write latency.\<close>

definition mc_queue_write :: "dram_config \<Rightarrow> bus_packet \<Rightarrow> mem_ctrl \<Rightarrow> mem_ctrl" where
  "mc_queue_write c p m =
     (if is_write p then
        m\<lparr>writeDataToSend := writeDataToSend m @
            [BusPacket DATA (physicalAddress p) (column p) (row p) (rank p) (bank p) (data p)],
          writeDataCountdown := writeDataCountdown m @ [WL c]\<rparr>
      else m)"

text \<open>A popped packet whose bank does not exist would be an access outside the bank states.\<close>

definition mc_issue :: "dram_config \<Rightarrow> mem_ctrl \<Rightarrow> mem_ctrl result" where
  "mc_issue c m0 =
     rbind (cq_pop c (mc_bankStates m0) (commandQueue m0)) (\<lambda>(popped, cq).
     let m = m0\<lparr>commandQueue := cq\<rparr>
     in case popped of
          None \<Rightarrow> Inr m
        | Some p \<Rightarrow>
            rbind (at2 (mc_bankStates m) (rank p) (bank p)) (\<lambda>_.
            rbind (add_energy c p (mc_queue_write c p m)) (\<lambda>m1.
            (case issue_banks c (mc_clock m1) p (mc_bankStates m1) of
               None \<Rightarrow> Inl Error_exit
             | Some bs \<Rightarrow>
                 check (outgoingCmdPacket m1 = None) Error_exit
                   (Inr (m1\<lparr>mc_bankStates := bs, outgoingCmdPacket := Some p, cmdCyclesLeft := tCMD c\<rparr>))))))"

section \<open>update: transactions\<close>

definition column_command :: "dram_config \<Rightarrow> TransactionType \<Rightarrow> BusPacketType option" where
  "column_command c ty =
     (case ty of
        DATA_READ \<Rightarrow> Some (case rowBufferPolicy c of OpenPage \<Rightarrow> READ | ClosePage \<Rightarrow> READ_P)
      | DATA_WRITE \<Rightarrow> Some (case rowBufferPolicy c of OpenPage \<Rightarrow> WRITE | ClosePage \<Rightarrow> WRITE_P)
      | RETURN_DATA \<Rightarrow> None)"

text \<open>The body of the loop over the transaction queue. An erased transaction does not make the index
  stay, so the loop goes on with the one after the next.\<close>

definition mc_take_one :: "dram_config \<Rightarrow> nat \<Rightarrow> mem_ctrl \<Rightarrow> mem_ctrl result" where
  "mc_take_one c i m =
     (let t = transactionQueue m ! i;
          a = addressMapping c (tr_address t);
          rk = newTransactionRank a; bk = newTransactionBank a; rw = newTransactionRow a; cl = newTransactionColumn a
      in rbind (hasRoomFor c 2 rk bk (commandQueue m)) (\<lambda>room.
         if room then
           (let pending = (if transactionType t = DATA_READ then pendingReadTransactions m @ [t]
                           else pendingReadTransactions m);
                tq = erase i (transactionQueue m)
            in rbind (cq_enqueue c (BusPacket ACTIVATE (tr_address t) cl rw rk bk None) (commandQueue m)) (\<lambda>cq1.
               (case column_command c (transactionType t) of
                  None \<Rightarrow> Inl Error_exit
                | Some ty \<Rightarrow>
                    rbind (cq_enqueue c (BusPacket ty (tr_address t) cl rw rk bk
                             (if transactionType t = DATA_READ then None else tr_data t)) cq1) (\<lambda>cq2.
                    Inr (m\<lparr>pendingReadTransactions := pending, transactionQueue := tq, commandQueue := cq2\<rparr>)))))
         else Inr m))"

lemma mc_take_one_length:
  "mc_take_one c i m = Inr m' \<Longrightarrow> i < length (transactionQueue m)
    \<Longrightarrow> length (transactionQueue m') \<le> length (transactionQueue m)"
  by (auto simp: mc_take_one_def Let_def rbind_eq_Inr length_erase split: if_splits option.splits)

function mc_take_from :: "dram_config \<Rightarrow> nat \<Rightarrow> mem_ctrl \<Rightarrow> mem_ctrl result" where
  "mc_take_from c i m =
     (if i < length (transactionQueue m) then rbind (mc_take_one c i m) (mc_take_from c (i + 1)) else Inr m)"
  by pat_completeness auto
termination
  by (relation "measure (\<lambda>(c, i, m). length (transactionQueue m) - i)")
    (auto dest: mc_take_one_length)

declare mc_take_from.simps [simp del]

section \<open>update: power, returned data, the end\<close>

definition rank_in :: "nat \<Rightarrow> (dram_rank \<Rightarrow> dram_rank result) \<Rightarrow> mem_ctrl \<Rightarrow> mem_ctrl result" where
  "rank_in i f m =
     rbind (at (mc_ranks m) i) (\<lambda>r. rbind (f r) (\<lambda>r'. Inr (m\<lparr>mc_ranks := (mc_ranks m)[i := r']\<rparr>)))"

text \<open>Power down when there is nothing to do and all banks are idle, power up when there is.\<close>

definition mc_low_power :: "dram_config \<Rightarrow> nat \<Rightarrow> mem_ctrl \<Rightarrow> mem_ctrl result" where
  "mc_low_power c i m =
     rbind (cq_isEmpty c i (commandQueue m)) (\<lambda>empty.
     rbind (at (mc_ranks m) i) (\<lambda>r.
     rbind (at (mc_bankStates m) i) (\<lambda>banks.
     rbind (at (powerDown m) i) (\<lambda>pd.
     if empty \<and> \<not> rk_refreshWaiting r then
       (if list_all (\<lambda>s. currentBankState s = Idle) banks then
          rbind (rank_in i (rank_powerDown c) (m\<lparr>powerDown := (powerDown m)[i := True]\<rparr>)) (\<lambda>m1.
          Inr (m1\<lparr>mc_bankStates := (mc_bankStates m1)[i := map (\<lambda>s. s\<lparr>currentBankState := PowerDown,
                    nextPowerUp := mc_clock m1 + tCKE c\<rparr>) banks]\<rparr>))
        else Inr m)
     else
       rbind (at banks 0) (\<lambda>s0.
       if mc_clock m \<ge> nextPowerUp s0 \<and> pd then
         rbind (rank_in i (rank_powerUp c) (m\<lparr>powerDown := (powerDown m)[i := False]\<rparr>)) (\<lambda>m1.
         Inr (m1\<lparr>mc_bankStates := (mc_bankStates m1)[i := map (\<lambda>s. s\<lparr>currentBankState := Idle,
                   nextActivate := mc_clock m1 + tXP c\<rparr>) banks]\<rparr>))
       else Inr m)))))"

definition mc_background :: "dram_config \<Rightarrow> nat \<Rightarrow> mem_ctrl \<Rightarrow> mem_ctrl result" where
  "mc_background c i m =
     rbind (at (mc_bankStates m) i) (\<lambda>banks.
     rbind (at (powerDown m) i) (\<lambda>pd.
     let bankOpen = list_ex (\<lambda>s. currentBankState s = Refreshing \<or> currentBankState s = RowActive) banks;
         current = (if bankOpen then IDD3N c else if pd then IDD2P c else IDD2N c)
     in rbind (bump i (u32_mul current (NUM_DEVICES m)) (backgroundEnergy m)) (\<lambda>e.
        Inr (m\<lparr>backgroundEnergy := e\<rparr>))))"

definition mc_power :: "dram_config \<Rightarrow> mem_ctrl \<Rightarrow> mem_ctrl result" where
  "mc_power c =
     rfold (\<lambda>i m. rbind (if USE_LOW_POWER c then mc_low_power c i m else Inr m) (mc_background c i)) [0..<NUM_RANKS c]"

definition mc_return_data :: "dram_config \<Rightarrow> mem_ctrl \<Rightarrow> mem_ctrl result" where
  "mc_return_data c m =
     (case returnTransaction m of
        [] \<Rightarrow> Inr m
      | t # ts \<Rightarrow>
          let m1 = m\<lparr>totalTransactions := u64_add (totalTransactions m) 1\<rparr>
          in rbind (case find_index (\<lambda>q. tr_address q = tr_address t) (pendingReadTransactions m1) of
                      None \<Rightarrow> Inr m1
                    | Some i \<Rightarrow>
                        let q = pendingReadTransactions m1 ! i;
                            a = addressMapping c (tr_address t)
                        in rbind (insertHistogram c ((mc_clock m1 - timeAdded q) mod 2 ^ 32)
                                    (newTransactionRank a) (newTransactionBank a) m1) (\<lambda>m2.
                           let m3 = returnReadData q m2
                           in Inr (m3\<lparr>pendingReadTransactions := erase i (pendingReadTransactions m3)\<rparr>)))
               (\<lambda>m4. Inr (m4\<lparr>returnTransaction := tl (returnTransaction m4)\<rparr>)))"

definition mc_count_refresh :: "mem_ctrl \<Rightarrow> mem_ctrl" where
  "mc_count_refresh m = m\<lparr>refreshCountdown := map u32_dec (refreshCountdown m)\<rparr>"

definition cq_step :: "cmd_queue \<Rightarrow> cmd_queue" where
  "cq_step cq = cq\<lparr>cq_clock := cq_clock cq + 1\<rparr>"

text \<open>At the end of an epoch the statistics are printed and reset; a length 0 divides by zero.\<close>

definition mc_epoch :: "dram_config \<Rightarrow> mem_ctrl \<Rightarrow> mem_ctrl result" where
  "mc_epoch c m =
     check (EPOCH_COUNT c \<noteq> 0) Undefined (Inr (
     if mc_clock m mod EPOCH_COUNT c = 0 then
       m\<lparr>totalTransactions := 0,
         totalReadsPerBank := map (\<lambda>_. 0) (totalReadsPerBank m),
         totalWritesPerBank := map (\<lambda>_. 0) (totalWritesPerBank m),
         totalEpochLatency := map (\<lambda>_. 0) (totalEpochLatency m),
         burstEnergy := map (\<lambda>_. 0) (burstEnergy m), actpreEnergy := map (\<lambda>_. 0) (actpreEnergy m),
         refreshEnergy := map (\<lambda>_. 0) (refreshEnergy m), backgroundEnergy := map (\<lambda>_. 0) (backgroundEnergy m),
         totalReadsPerRank := map (\<lambda>_. 0) (totalReadsPerRank m),
         totalWritesPerRank := map (\<lambda>_. 0) (totalWritesPerRank m)\<rparr>
     else m))"

definition mc_update :: "dram_config \<Rightarrow> mem_ctrl \<Rightarrow> mem_ctrl result" where
  "mc_update c m =
     rbind (mc_command_bus c (mc_tick_banks c m)) (\<lambda>m.
     rbind (mc_data_bus c m) (\<lambda>m.
     rbind (mc_launch_write c m) (\<lambda>m.
     rbind (mc_refresh c m) (\<lambda>m.
     rbind (mc_issue c m) (\<lambda>m.
     rbind (mc_take_from c 0 m) (\<lambda>m.
     rbind (mc_power c m) (\<lambda>m.
     rbind (mc_return_data c m) (\<lambda>m.
     let m = mc_count_refresh m
     in mc_epoch c (m\<lparr>commandQueue := cq_step (commandQueue m)\<rparr>)))))))))"

definition mc_step :: "mem_ctrl \<Rightarrow> mem_ctrl" where
  "mc_step m = m\<lparr>mc_clock := mc_clock m + 1\<rparr>"

section \<open>The memory system\<close>

text \<open>
  DRAMSim2/MemorySystem.cpp: the controller, the ranks (in the controller's record), and the
  transactions that a simulator has sent while the controller's queue was full. The constructor
  reads the ini files first, whose values are the argument \<open>c\<close>; \<open>update\<close> opens the file for the
  statistics in the first cycle.
\<close>

record mem_system =
  memoryController :: mem_ctrl
  pendingTransactions :: "transaction list"
  ms_clock :: nat

definition ms_init :: "dram_config \<Rightarrow> mem_system result" where
  "ms_init c =
     rbind (mc_init c (map (rank_init c) [0..<NUM_RANKS c])) (\<lambda>m.
     Inr \<lparr>memoryController = m, pendingTransactions = [], ms_clock = 0\<rparr>)"

definition RegisterCallbacks :: "bool \<Rightarrow> bool \<Rightarrow> mem_system \<Rightarrow> mem_system" where
  "RegisterCallbacks r w s = s\<lparr>memoryController := (memoryController s)\<lparr>readCB := r, writeCB := w\<rparr>\<rparr>"

definition new_transaction :: "TransactionType \<Rightarrow> nat \<Rightarrow> dram_data \<Rightarrow> transaction" where
  "new_transaction ty addr d =
     \<lparr>transactionType = ty, tr_address = addr, tr_data = d, timeAdded = 0, timeReturned = 0\<rparr>"

definition ms_addTransaction :: "dram_config \<Rightarrow> bool \<Rightarrow> nat \<Rightarrow> mem_system \<Rightarrow> bool \<times> mem_system" where
  "ms_addTransaction c isWrite addr s =
     (let t = new_transaction (if isWrite then DATA_WRITE else DATA_READ) addr None
      in if WillAcceptTransaction c (memoryController s) then
           (let (ok, m) = mc_addTransaction c t (memoryController s) in (ok, s\<lparr>memoryController := m\<rparr>))
         else (True, s\<lparr>pendingTransactions := pendingTransactions s @ [t]\<rparr>))"

definition ms_addTransaction_ref :: "dram_config \<Rightarrow> transaction \<Rightarrow> mem_system \<Rightarrow> bool \<times> mem_system" where
  "ms_addTransaction_ref c t s =
     (let (ok, m) = mc_addTransaction c t (memoryController s) in (ok, s\<lparr>memoryController := m\<rparr>))"

text \<open>The updates of the ranks; what a rank delivers goes to the controller.\<close>

definition ms_rank_update :: "dram_config \<Rightarrow> nat \<Rightarrow> mem_ctrl \<Rightarrow> mem_ctrl result" where
  "ms_rank_update c i m =
     rbind (at (mc_ranks m) i) (\<lambda>r.
     rbind (rank_update c r) (\<lambda>(d, r').
     rbind (case d of None \<Rightarrow> Inr m | Some p \<Rightarrow> mc_receiveFromBus c p m) (\<lambda>m1.
     Inr (m1\<lparr>mc_ranks := (mc_ranks m1)[i := r']\<rparr>))))"

definition ms_pending :: "dram_config \<Rightarrow> mem_system \<Rightarrow> mem_system" where
  "ms_pending c s =
     (case pendingTransactions s of
        [] \<Rightarrow> s
      | t # ts \<Rightarrow>
          if WillAcceptTransaction c (memoryController s) then
            s\<lparr>memoryController := snd (mc_addTransaction c t (memoryController s)), pendingTransactions := ts\<rparr>
          else s)"

definition ms_update :: "dram_config \<Rightarrow> mem_system \<Rightarrow> mem_system result" where
  "ms_update c s =
     rbind (rfold (ms_rank_update c) [0..<NUM_RANKS c] (memoryController s)) (\<lambda>m.
     let s1 = ms_pending c (s\<lparr>memoryController := m\<rparr>)
     in rbind (mc_update c (memoryController s1)) (\<lambda>m1.
        Inr (s1\<lparr>memoryController := mc_step (m1\<lparr>mc_ranks := map rank_step (mc_ranks m1)\<rparr>),
                ms_clock := ms_clock s1 + 1\<rparr>)))"

end
