(* ===== verification/RoundRobin.thy ===== *)
theory RoundRobin
  imports CommandQueue
begin

text \<open>
  The round-robin loops of the command queue: the orbits of the two steps \<open>next_rank\<close> and
  \<open>next_pair\<close>, which visit every rank and every pair of a rank and a bank, and the rule for the
  loop \<open>round_robin\<close>, which gives its termination and what it means that it finds nothing.
\<close>

section \<open>Orbits\<close>

definition pair_ok :: "dram_config \<Rightarrow> nat \<times> nat \<Rightarrow> bool" where
  "pair_ok c rb \<longleftrightarrow> fst rb < NUM_RANKS c \<and> snd rb < NUM_BANKS c"

definition sizes_ok :: "dram_config \<Rightarrow> bool" where
  "sizes_ok c \<longleftrightarrow> 0 < NUM_RANKS c \<and> NUM_RANKS c < 2 ^ 32 \<and> 0 < NUM_BANKS c \<and> NUM_BANKS c < 2 ^ 32"

lemma wrap_inc:
  assumes "r < n" "n < 2 ^ 32"
  shows "(let r' = u32_add r 1 in if r' = n then 0 else r') = (r + 1) mod n"
proof -
  have "u32_add r 1 = r + 1" using assms by (simp add: u32_simps)
  then show ?thesis using assms(1) by (cases "r + 1 = n") (auto simp: Let_def)
qed

lemma next_rank_eq: "sizes_ok c \<Longrightarrow> r < NUM_RANKS c \<Longrightarrow> next_rank c r = (r + 1) mod NUM_RANKS c"
  unfolding next_rank_def by (rule wrap_inc) (auto simp: sizes_ok_def)

lemma next_rank_orbit:
  assumes "sizes_ok c" "r < NUM_RANKS c"
  shows "(next_rank c ^^ k) r = (r + k) mod NUM_RANKS c"
proof (induction k)
  case 0
  then show ?case using assms(2) by simp
next
  case (Suc k)
  have "(r + k) mod NUM_RANKS c < NUM_RANKS c" using assms by (simp add: sizes_ok_def)
  then show ?case using Suc next_rank_eq [OF assms(1)] by (simp add: mod_Suc_eq)
qed

text \<open>The position of a pair in the order of the scheduling policy.\<close>

definition encode :: "dram_config \<Rightarrow> nat \<times> nat \<Rightarrow> nat" where
  "encode c rb =
     (case schedulingPolicy c of
        RankThenBankRoundRobin \<Rightarrow> snd rb * NUM_RANKS c + fst rb
      | BankThenRankRoundRobin \<Rightarrow> fst rb * NUM_BANKS c + snd rb)"

lemma mixed_radix_less: "x < m \<Longrightarrow> y < n \<Longrightarrow> y * m + x < m * n" for x y m n :: nat
proof -
  assume "x < m" "y < n"
  then have "y * m + x < Suc y * m" by simp
  also have "\<dots> \<le> n * m" using \<open>y < n\<close> by (intro mult_right_mono) auto
  finally show ?thesis by (simp add: mult.commute)
qed

lemma mixed_radix_inj:
  "x < m \<Longrightarrow> x' < m \<Longrightarrow> y * m + x = y' * m + x' \<Longrightarrow> x = x' \<and> y = y'" for x x' y y' m :: nat
proof -
  assume a: "x < m" "x' < m" "y * m + x = y' * m + x'"
  have "x = (y * m + x) mod m" using a(1) by simp
  also have "\<dots> = x'" unfolding a(3) using a(2) by simp
  finally show ?thesis using a by simp
qed

lemma encode_less: "pair_ok c rb \<Longrightarrow> encode c rb < NUM_RANKS c * NUM_BANKS c"
  using mixed_radix_less [of "fst rb" "NUM_RANKS c" "snd rb" "NUM_BANKS c"]
    mixed_radix_less [of "snd rb" "NUM_BANKS c" "fst rb" "NUM_RANKS c"]
  by (auto simp: encode_def pair_ok_def mult.commute split: SchedulingPolicy.splits)

lemma encode_inj: "pair_ok c x \<Longrightarrow> pair_ok c y \<Longrightarrow> encode c x = encode c y \<Longrightarrow> x = y"
  using mixed_radix_inj [of "fst x" "NUM_RANKS c" "fst y" "snd x" "snd y"]
    mixed_radix_inj [of "snd x" "NUM_BANKS c" "snd y" "fst x" "fst y"]
  by (cases x; cases y) (auto simp: encode_def pair_ok_def split: SchedulingPolicy.splits)

lemma mixed_radix_next:
  fixes x y m n :: nat
  assumes "x < m" "y < n"
  shows "(if x + 1 = m then (y + 1) mod n else y) * m + (x + 1) mod m = (y * m + x + 1) mod (m * n)"
proof (cases "x + 1 = m")
  case False
  then have "y * m + (x + 1) < m * n" using assms mixed_radix_less [of "x + 1" m y n] by simp
  then show ?thesis using False assms by simp
next
  case xm: True
  show ?thesis
  proof (cases "y + 1 = n")
    case True
    have "y * m + x + 1 = m * n" using xm True by (simp add: True [symmetric] algebra_simps)
    then show ?thesis using xm True by simp
  next
    case False
    then have "(y + 1) * m + 0 < m * n" using assms mixed_radix_less [of 0 m "y + 1" n] by simp
    moreover have "y * m + x + 1 = (y + 1) * m" using xm by (simp add: algebra_simps)
    ultimately show ?thesis using xm False assms(2) by simp
  qed
qed

lemma next_pair_ok:
  assumes "sizes_ok c" "pair_ok c rb"
  shows "pair_ok c (next_pair c rb)"
    and "encode c (next_pair c rb) = (encode c rb + 1) mod (NUM_RANKS c * NUM_BANKS c)"
proof -
  obtain r b where rb: "rb = (r, b)" "r < NUM_RANKS c" "b < NUM_BANKS c"
    using assms(2) by (cases rb) (auto simp: pair_ok_def)
  have s: "NUM_RANKS c < 2 ^ 32" "NUM_BANKS c < 2 ^ 32" using assms(1) by (auto simp: sizes_ok_def)
  have u: "u32_add r 1 = r + 1" "u32_add b 1 = b + 1" using rb s by (auto simp: u32_simps)
  show "pair_ok c (next_pair c rb)" using rb u
    by (auto simp: next_pair_def pair_ok_def Let_def split: SchedulingPolicy.splits)
  have R: "(if r + 1 = NUM_RANKS c then (b + 1) mod NUM_BANKS c else b) * NUM_RANKS c
      + (r + 1) mod NUM_RANKS c = (b * NUM_RANKS c + r + 1) mod (NUM_RANKS c * NUM_BANKS c)"
    by (rule mixed_radix_next [OF rb(2,3)])
  have B: "(if b + 1 = NUM_BANKS c then (r + 1) mod NUM_RANKS c else r) * NUM_BANKS c
      + (b + 1) mod NUM_BANKS c = (r * NUM_BANKS c + b + 1) mod (NUM_BANKS c * NUM_RANKS c)"
    by (rule mixed_radix_next [OF rb(3,2)])
  have m: "(r + 1) mod NUM_RANKS c = (if r + 1 = NUM_RANKS c then 0 else r + 1)"
    "(b + 1) mod NUM_BANKS c = (if b + 1 = NUM_BANKS c then 0 else b + 1)" using rb by auto
  show "encode c (next_pair c rb) = (encode c rb + 1) mod (NUM_RANKS c * NUM_BANKS c)"
  proof (cases "schedulingPolicy c")
    case RankThenBankRoundRobin
    then show ?thesis using R m u rb(1) by (auto simp: encode_def next_pair_def Let_def)
  next
    case BankThenRankRoundRobin
    then show ?thesis using B m u rb(1)
      by (auto simp: encode_def next_pair_def Let_def mult.commute)
  qed
qed

lemma next_pair_orbit:
  assumes "sizes_ok c" "pair_ok c rb"
  shows "pair_ok c ((next_pair c ^^ k) rb)
    \<and> encode c ((next_pair c ^^ k) rb) = (encode c rb + k) mod (NUM_RANKS c * NUM_BANKS c)"
proof (induction k)
  case 0
  then show ?case using assms encode_less by simp
next
  case (Suc k)
  then show ?case using next_pair_ok [OF assms(1), of "(next_pair c ^^ k) rb"] by (simp add: mod_Suc_eq)
qed

lemma orbit_hits: "x < n \<Longrightarrow> y < n \<Longrightarrow> \<exists>k. k < n \<and> (x + k) mod n = y" for x y n :: nat
proof -
  assume a: "x < n" "y < n"
  show ?thesis
  proof (cases "x \<le> y")
    case True
    then show ?thesis using a by (intro exI [of _ "y - x"]) auto
  next
    case False
    then show ?thesis using a by (intro exI [of _ "y + n - x"]) (auto simp: le_mod_geq)
  qed
qed

lemma orbit_hits_pos: "x < n \<Longrightarrow> y < n \<Longrightarrow> \<exists>k. 0 < k \<and> k \<le> n \<and> (x + k) mod n = y" for x y n :: nat
proof -
  assume a: "x < n" "y < n"
  from orbit_hits [OF this] obtain k where k: "k < n" "(x + k) mod n = y" by blast
  show ?thesis
  proof (cases "k = 0")
    case True
    then show ?thesis using a k by (intro exI [of _ n]) auto
  next
    case False
    then show ?thesis using k by (intro exI [of _ k]) auto
  qed
qed

lemma next_pair_visits:
  assumes "sizes_ok c" "pair_ok c x" "pair_ok c y"
  shows "\<exists>k < NUM_RANKS c * NUM_BANKS c. (next_pair c ^^ k) x = y"
    and "\<exists>k. 0 < k \<and> k \<le> NUM_RANKS c * NUM_BANKS c \<and> (next_pair c ^^ k) x = y"
proof -
  let ?n = "NUM_RANKS c * NUM_BANKS c"
  have l: "encode c x < ?n" "encode c y < ?n" using encode_less assms by auto
  have eq: "(next_pair c ^^ k) x = y" if "(encode c x + k) mod ?n = encode c y" for k
    by (rule encode_inj [OF _ assms(3)]) (use next_pair_orbit [OF assms(1,2), of k] that in auto)
  show "\<exists>k < ?n. (next_pair c ^^ k) x = y" using orbit_hits [OF l] eq by blast
  show "\<exists>k. 0 < k \<and> k \<le> ?n \<and> (next_pair c ^^ k) x = y" using orbit_hits_pos [OF l] eq by blast
qed

lemma next_pair_first_return:
  assumes "sizes_ok c" "pair_ok c x" "(next_pair c ^^ k) x = x" "0 < k"
  shows "NUM_RANKS c * NUM_BANKS c \<le> k"
proof -
  let ?n = "NUM_RANKS c * NUM_BANKS c"
  have "(encode c x + k) mod ?n = encode c x mod ?n"
    using next_pair_orbit [OF assms(1,2), of k] assms(3) encode_less [OF assms(2)] by simp
  then have "?n dvd k" by (simp add: mod_eq_dvd_iff_nat [of "encode c x" "encode c x + k"])
  then show ?thesis using assms(4) by (rule dvd_imp_le)
qed

section \<open>The loop\<close>

lemma round_robin_ok:
  assumes "Inv cq"
    and sel: "\<And>x. Inv x \<Longrightarrow> \<exists>s. sel x = Inr s \<and> (\<forall>p y. s = Some (p, y) \<longrightarrow> Q p y)"
    and adv: "\<And>x. Inv x \<Longrightarrow> Inv (adv x)"
    and "0 < k" "k \<le> n" "\<not> again ((adv ^^ k) cq)"
  shows "\<exists>r y. round_robin n sel adv again cq = Inr (r, y) \<and>
     (case r of
        Some p \<Rightarrow> Q p y
      | None \<Rightarrow> Inv y \<and> (\<exists>m. 0 < m \<and> m \<le> k \<and> y = (adv ^^ m) cq \<and> \<not> again y
          \<and> (\<forall>i < m. sel ((adv ^^ i) cq) = Inr None)))"
  using assms(1,4-)
proof (induction n arbitrary: cq k)
  case 0
  then show ?case by simp
next
  case (Suc n)
  obtain s where s: "sel cq = Inr s" "\<forall>p y. s = Some (p, y) \<longrightarrow> Q p y"
    using sel [OF Suc.prems(1)] by blast
  show ?case
  proof (cases s)
    case (Some py)
    then show ?thesis using s by (cases py) auto
  next
    case None
    have i: "Inv (adv cq)" by (rule adv [OF Suc.prems(1)])
    show ?thesis
    proof (cases "again (adv cq)")
      case False
      have "Inv (adv cq) \<and> (\<exists>m. 0 < m \<and> m \<le> k \<and> adv cq = (adv ^^ m) cq \<and> \<not> again (adv cq)
          \<and> (\<forall>i < m. sel ((adv ^^ i) cq) = Inr None))"
        using i s None False Suc.prems(2) by (intro conjI exI [of _ 1]) auto
      then show ?thesis using s None False by auto
    next
      case True
      have k: "k \<noteq> 1" using True Suc.prems(4) by auto
      have e: "(adv ^^ (k - 1)) (adv cq) = (adv ^^ k) cq"
        using Suc.prems(2) by (cases k) (auto simp: funpow_swap1)
      have "\<exists>r y. round_robin n sel adv again (adv cq) = Inr (r, y) \<and>
         (case r of
            Some p \<Rightarrow> Q p y
          | None \<Rightarrow> Inv y \<and> (\<exists>m. 0 < m \<and> m \<le> k - 1 \<and> y = (adv ^^ m) (adv cq) \<and> \<not> again y
              \<and> (\<forall>i < m. sel ((adv ^^ i) (adv cq)) = Inr None)))"
        by (rule Suc.IH [OF i]) (use Suc.prems k e in auto)
      then obtain r y where r: "round_robin n sel adv again (adv cq) = Inr (r, y)"
        "case r of
            Some p \<Rightarrow> Q p y
          | None \<Rightarrow> Inv y \<and> (\<exists>m. 0 < m \<and> m \<le> k - 1 \<and> y = (adv ^^ m) (adv cq) \<and> \<not> again y
              \<and> (\<forall>i < m. sel ((adv ^^ i) (adv cq)) = Inr None))" by blast
      have "round_robin (Suc n) sel adv again cq = Inr (r, y)"
        using s None True r(1) by (simp add: Let_def)
      moreover have "case r of
            Some p \<Rightarrow> Q p y
          | None \<Rightarrow> Inv y \<and> (\<exists>m. 0 < m \<and> m \<le> k \<and> y = (adv ^^ m) cq \<and> \<not> again y
              \<and> (\<forall>i < m. sel ((adv ^^ i) cq) = Inr None))"
      proof (cases r)
        case N: None
        then obtain m where m: "0 < m" "m \<le> k - 1" "y = (adv ^^ m) (adv cq)" "\<not> again y" "Inv y"
          "\<forall>i < m. sel ((adv ^^ i) (adv cq)) = Inr None" using r(2) by auto
        have "\<forall>i < Suc m. sel ((adv ^^ i) cq) = Inr None"
        proof (intro allI impI)
          fix i assume "i < Suc m"
          then show "sel ((adv ^^ i) cq) = Inr None"
            using m(6) s None by (cases i) (auto simp: funpow_swap1)
        qed
        moreover have "y = (adv ^^ Suc m) cq" using m(3) by (simp add: funpow_swap1)
        moreover have "Suc m \<le> k" using m(1,2) by simp
        ultimately show ?thesis using N m(4,5) by auto
      qed (use r(2) in simp)
      ultimately show ?thesis by blast
    qed
  qed
qed

end
