(* ===== verification/CommandQueueSafety.thy ===== *)
theory CommandQueueSafety
  imports RoundRobin
begin

text \<open>
  Correctness of the command queue. \<open>cq_core\<close> is the invariant of the queues, pointers and
  counters. The lemmas show for every part of \<open>pop\<close> that it returns, keeps the invariant, sends
  only commands that the bank states allow (\<open>legal\<close>), and neither loses nor invents a packet
  (\<open>sends\<close>).
\<close>

section \<open>Invariant\<close>

definition bs_ok :: "dram_config \<Rightarrow> bank_state list list \<Rightarrow> bool" where
  "bs_ok c bs \<longleftrightarrow> length bs = NUM_RANKS c \<and> (\<forall>r < NUM_RANKS c. length (bs ! r) = NUM_BANKS c)"

definition pkt_ok :: "dram_config \<Rightarrow> nat \<Rightarrow> nat \<Rightarrow> bus_packet \<Rightarrow> bool" where
  "pkt_ok c r b p \<longleftrightarrow>
     rank p = r \<and> bank p < NUM_BANKS c \<and> busPacketType p \<notin> {DATA, REFRESH, PRECHARGE} \<and>
     (queuingStructure c = PerRankPerBank \<longrightarrow> bank p = b)"

definition queue_ok :: "dram_config \<Rightarrow> nat \<Rightarrow> nat \<Rightarrow> bus_packet list \<Rightarrow> bool" where
  "queue_ok c r b q \<longleftrightarrow> length q \<le> CMD_QUEUE_DEPTH c \<and> (\<forall>p \<in> set q. pkt_ok c r b p)"

definition queues_ok :: "dram_config \<Rightarrow> bus_packet list list list \<Rightarrow> bool" where
  "queues_ok c qs \<longleftrightarrow>
     length qs = NUM_RANKS c \<and>
     (\<forall>r < NUM_RANKS c. numBankQueues c \<le> length (qs ! r) \<and>
        (\<forall>b < numBankQueues c. queue_ok c r b (qs ! r ! b)))"

definition counters_ok :: "dram_config \<Rightarrow> nat list list \<Rightarrow> bool" where
  "counters_ok c k \<longleftrightarrow> length k = NUM_RANKS c \<and> (\<forall>r < NUM_RANKS c. length (k ! r) = NUM_BANKS c)"

definition cq_core :: "dram_config \<Rightarrow> cmd_queue \<Rightarrow> bool" where
  "cq_core c cq \<longleftrightarrow>
     sizes_ok c \<and> queues_ok c (queues cq) \<and>
     pair_ok c (nextRank cq, nextBank cq) \<and> pair_ok c (nextRankPRE cq, nextBankPRE cq) \<and>
     (refreshWaiting cq \<longrightarrow> refreshRank cq < NUM_RANKS c) \<and>
     length (tFAWCountdown cq) = NUM_RANKS c \<and> counters_ok c (rowAccessCounters cq)"

text \<open>All the packets in the queues.\<close>

definition cq_packets :: "cmd_queue \<Rightarrow> bus_packet multiset" where
  "cq_packets cq = mset (concat (concat (queues cq)))"

lemma cq_core_init:
  assumes "sizes_ok c"
  shows "cq_core c (cq_init c)"
proof -
  have "numBankQueues c \<le> (r + 1) * numBankQueues c" for r by simp
  then show ?thesis using assms
    by (auto simp: cq_core_def cq_init_def queues_ok_def queue_ok_def counters_ok_def pair_ok_def
        sizes_ok_def nth_replicate less_le_trans)
qed

lemma cq_packets_init: "cq_packets (cq_init c) = {#}"
  by (simp add: cq_packets_def cq_init_def)

lemma qidx_less: "b < NUM_BANKS c \<Longrightarrow> qidx (queuingStructure c) b < numBankQueues c"
  by (simp add: qidx_def numBankQueues_def split: QueuingStructure.splits)

lemma at2_in [simp]: "r < length xss \<Longrightarrow> b < length (xss ! r) \<Longrightarrow> at2 xss r b = Inr (xss ! r ! b)"
  by (simp add: at2_def)

lemma bs_in: "bs_ok c bs \<Longrightarrow> r < NUM_RANKS c \<Longrightarrow> b < NUM_BANKS c \<Longrightarrow> at2 bs r b = Inr (bs ! r ! b)"
  by (simp add: bs_ok_def)

lemma counters_in:
  "counters_ok c k \<Longrightarrow> r < NUM_RANKS c \<Longrightarrow> b < NUM_BANKS c \<Longrightarrow> at2 k r b = Inr (k ! r ! b)"
  by (simp add: counters_ok_def)

lemma queue_in:
  assumes "queues_ok c qs" "r < NUM_RANKS c" "b < NUM_BANKS c"
  shows "at2 qs r (qidx (queuingStructure c) b) = Inr (qs ! r ! qidx (queuingStructure c) b)"
    and "queue_ok c r (qidx (queuingStructure c) b) (qs ! r ! qidx (queuingStructure c) b)"
  using assms qidx_less [OF assms(3)] by (auto simp: queues_ok_def intro: less_le_trans)

lemma put2_nth:
  assumes "r' < length xss" "b' < length (xss ! r')"
  shows "put2 r b x xss ! r' ! b' = (if r' = r \<and> b' = b then x else xss ! r' ! b')"
    and "length (put2 r b x xss ! r') = length (xss ! r')"
    and "length (put2 r b x xss) = length xss"
  using assms by (auto simp: put2_def nth_upd)

lemma put2_length [simp]: "length (put2 r b x xss) = length xss"
  by (simp add: put2_def)

lemma put2_length_inner [simp]: "length (put2 r b x xss ! r') = length (xss ! r')"
  by (simp add: put2_def nth_upd)

lemma counters_put: "counters_ok c k \<Longrightarrow> counters_ok c (put2 r b x k)"
  by (simp add: counters_ok_def)

lemma queues_put:
  assumes "queues_ok c qs" "queue_ok c r i q"
  shows "queues_ok c (put2 r i q qs)"
  unfolding queues_ok_def
proof (intro conjI allI impI)
  fix r' b' assume r: "r' < NUM_RANKS c" and b: "b' < numBankQueues c"
  then have "r' < length qs" "b' < length (qs ! r')"
    using assms(1) by (auto simp: queues_ok_def intro: less_le_trans)
  from put2_nth(1) [OF this, of r i q] show "queue_ok c r' b' (put2 r i q qs ! r' ! b')"
    using assms r b by (auto simp: queues_ok_def)
qed (use assms(1) in \<open>auto simp: queues_ok_def\<close>)

lemma mset_concat_update:
  "i < length xss \<Longrightarrow> mset (concat (xss[i := ys])) + mset (xss ! i) = mset (concat xss) + mset ys"
proof (induction xss arbitrary: i)
  case (Cons xs xss)
  then show ?case by (cases i) (auto simp: ac_simps)
qed simp

lemma concat_concat: "concat (concat xss) = concat (map concat xss)"
  by (induction xss) auto

lemma packets_put:
  assumes "queues_ok c (queues cq)" "r < NUM_RANKS c" "i < numBankQueues c"
  shows "cq_packets (put_queue r i q cq) + mset (queues cq ! r ! i) = cq_packets cq + mset q"
proof -
  let ?qs = "queues cq" and ?ys = "(queues cq ! r)[i := q]"
  have l: "r < length ?qs" "i < length (?qs ! r)"
    using assms by (auto simp: queues_ok_def intro: less_le_trans)
  have A: "mset (concat (concat (?qs[r := ?ys]))) + mset (concat (?qs ! r))
      = mset (concat (concat ?qs)) + mset (concat ?ys)"
    using mset_concat_update [of r "map concat ?qs" "concat ?ys"] l(1)
    by (simp add: concat_concat map_update)
  have B: "mset (concat ?ys) + mset (?qs ! r ! i) = mset (concat (?qs ! r)) + mset q"
    by (rule mset_concat_update [OF l(2)])
  have "mset (concat (concat (?qs[r := ?ys]))) + mset (?qs ! r ! i) + mset (concat (?qs ! r))
      = mset (concat (concat ?qs)) + mset (concat ?ys) + mset (?qs ! r ! i)"
    unfolding A [symmetric] by (simp only: ac_simps)
  also have "\<dots> = mset (concat (concat ?qs)) + (mset (concat (?qs ! r)) + mset q)"
    unfolding B [symmetric] by (simp only: ac_simps)
  finally have "(mset (concat (concat (?qs[r := ?ys]))) + mset (?qs ! r ! i)) + mset (concat (?qs ! r))
      = (mset (concat (concat ?qs)) + mset q) + mset (concat (?qs ! r))" by (simp only: ac_simps)
  then have "mset (concat (concat (?qs[r := ?ys]))) + mset (?qs ! r ! i)
      = mset (concat (concat ?qs)) + mset q" by (simp only: add_right_cancel)
  then show ?thesis by (simp add: cq_packets_def put_queue_def put2_def)
qed

section \<open>Legal commands\<close>

definition legal :: "dram_config \<Rightarrow> bank_state list list \<Rightarrow> cmd_queue \<Rightarrow> bus_packet \<Rightarrow> bool" where
  "legal c bs cq p \<longleftrightarrow>
     (if busPacketType p = REFRESH then
        refreshWaiting cq \<and> rank p = refreshRank cq \<and>
        (\<forall>i < NUM_BANKS c. currentBankState (bs ! rank p ! i) \<noteq> RowActive
           \<and> nextActivate (bs ! rank p ! i) \<le> cq_clock cq) \<and>
        currentBankState (bs ! rank p ! 0) \<noteq> PowerDown
      else isIssuable c bs cq p = Inr True)"

section \<open>Pairs of an activate and its column access\<close>

text \<open>The controller enqueues every transaction as an activate followed by the column access to the
  row it opens. In a queue where this is so, an activate is directly followed by its access.\<close>

definition access_of :: "bus_packet \<Rightarrow> bus_packet \<Rightarrow> bool" where
  "access_of a p \<longleftrightarrow> busPacketType p \<in> {READ, READ_P, WRITE, WRITE_P} \<and> rank p = rank a
     \<and> bank p = bank a \<and> row p = row a \<and> physicalAddress p = physicalAddress a"

fun paired :: "bus_packet list \<Rightarrow> bool" where
  "paired [] = True"
| "paired [a] = (busPacketType a \<noteq> ACTIVATE)"
| "paired (a # p # q) = ((busPacketType a = ACTIVATE \<longrightarrow> access_of a p) \<and> paired (p # q))"

definition cq_paired :: "dram_config \<Rightarrow> cmd_queue \<Rightarrow> bool" where
  "cq_paired c cq \<longleftrightarrow> (\<forall>r < NUM_RANKS c. \<forall>i < numBankQueues c. paired (queues cq ! r ! i))"

lemma cq_paired_init: "cq_paired c (cq_init c)"
proof -
  have "i < (r + 1) * numBankQueues c" if "i < numBankQueues c" for i r using that by (simp add: trans_less_add1)
  then show ?thesis by (auto simp: cq_paired_def cq_init_def nth_replicate simp del: mult_Suc)
qed

abbreviation no_act_before :: "bus_packet list \<Rightarrow> bool" where
  "no_act_before pre \<equiv> pre = [] \<or> busPacketType (last pre) \<noteq> ACTIVATE"

lemma paired_tl: "paired (a # q) \<Longrightarrow> paired q"
  by (cases q) auto

lemma paired_suffix: "paired (pre @ q) \<Longrightarrow> paired q"
  by (induction pre) (auto dest: paired_tl)

lemma paired_no_act: "paired q \<Longrightarrow> no_act_before q"
  by (induction q rule: paired.induct) auto

lemma paired_append: "no_act_before pre \<Longrightarrow> paired (pre @ q) = (paired pre \<and> paired q)"
  by (induction pre rule: paired.induct) (cases q, auto)+

lemma paired_before: "paired (pre @ x # q) \<Longrightarrow> \<not> no_act_before pre \<Longrightarrow> access_of (last pre) x"
  by (induction pre rule: paired.induct) auto

lemma paired_nth:
  assumes "paired q" "Suc i < length q" "busPacketType (q ! i) = ACTIVATE"
  shows "access_of (q ! i) (q ! Suc i)"
proof -
  have "q = take (Suc i) q @ q ! Suc i # drop (Suc (Suc i)) q" by (rule id_take_nth_drop [OF assms(2)])
  moreover have "take (Suc i) q = take i q @ [q ! i]" using assms(2) by (simp add: take_Suc_conv_app_nth)
  then have "take (Suc i) q \<noteq> []" "last (take (Suc i) q) = q ! i" by simp_all
  ultimately show ?thesis using paired_before assms(1,3) by metis
qed

lemma paired_enqueue:
  "paired q \<Longrightarrow> busPacketType a = ACTIVATE \<Longrightarrow> access_of a p \<Longrightarrow> paired ((q @ [a]) @ [p])"
  using paired_append [OF paired_no_act, of q "[a, p]"] by (auto simp: access_of_def)

text \<open>
  How the queues change when packet \<open>p\<close> is sent: a refresh or a precharge is made on the spot;
  any other packet is taken out of the queue of its bank and, with open pages, so is an activate
  directly before it. The packets \<open>lost\<close> leave the queues without being sent.
\<close>

definition takes :: "dram_config \<Rightarrow> cmd_queue \<Rightarrow> bus_packet \<Rightarrow> cmd_queue \<Rightarrow> bus_packet list \<Rightarrow> bool" where
  "takes c cq p cq' lost \<longleftrightarrow>
     (if busPacketType p \<in> {REFRESH, PRECHARGE} then lost = [] \<and> queues cq' = queues cq
      else \<exists>pre post.
        queues cq ! rank p ! qidx (queuingStructure c) (bank p) = pre @ lost @ p # post \<and>
        queues cq' = put2 (rank p) (qidx (queuingStructure c) (bank p)) (pre @ post) (queues cq) \<and>
        (lost = [] \<and> (paired (pre @ p # post) \<longrightarrow> no_act_before pre)
         \<or> rowBufferPolicy c = OpenPage \<and> (\<exists>a. lost = [a] \<and> busPacketType a = ACTIVATE)))"

lemma takesI:
  assumes "busPacketType p \<notin> {REFRESH, PRECHARGE}"
    "queues cq ! rank p ! qidx (queuingStructure c) (bank p) = pre @ lost @ p # post"
    "queues cq' = put2 (rank p) (qidx (queuingStructure c) (bank p)) (pre @ post) (queues cq)"
    "lost = [] \<and> (paired (pre @ p # post) \<longrightarrow> no_act_before pre)
      \<or> rowBufferPolicy c = OpenPage \<and> (\<exists>a. lost = [a] \<and> busPacketType a = ACTIVATE)"
  shows "takes c cq p cq' lost"
  unfolding takes_def using assms by auto

text \<open>With paired queues, the lost activate opens the row of the packet that is sent, which is open
  already, and the queues stay paired.\<close>

lemma paired_take:
  assumes "paired (pre @ lost @ p # post)" "busPacketType p \<noteq> REFRESH"
    "lost = [] \<and> (paired (pre @ p # post) \<longrightarrow> no_act_before pre) \<or> (\<exists>a. lost = [a] \<and> busPacketType a = ACTIVATE)"
  shows "paired (pre @ post) \<and> (\<forall>a \<in> set lost. access_of a p)"
  using assms(3)
proof (elim disjE conjE exE)
  assume l: "lost = []" and *: "paired (pre @ p # post) \<longrightarrow> no_act_before pre"
  then have n: "no_act_before pre" using assms(1) by simp
  then show ?thesis using assms(1) l paired_append [OF n] by (auto dest: paired_tl)
next
  fix a assume l: "lost = [a]" and a: "busPacketType a = ACTIVATE"
  have q: "paired (pre @ a # p # post)" using assms(1) l by simp
  have n: "no_act_before pre" using paired_before [OF q] a by (auto simp: access_of_def)
  then have "paired pre" "paired (a # p # post)" using q paired_append [OF n, of "a # p # post"] by auto
  then show ?thesis using l a paired_append [OF n, of post] by (auto dest: paired_tl)
qed

lemma takes_paired:
  assumes "takes c cq p cq' lost" "cq_paired c cq" "queues_ok c (queues cq)"
    "rank p < NUM_RANKS c" "bank p < NUM_BANKS c"
  shows "cq_paired c cq' \<and> (\<forall>a \<in> set lost. access_of a p)"
proof (cases "busPacketType p \<in> {REFRESH, PRECHARGE}")
  case True
  then show ?thesis using assms(1,2) by (auto simp: takes_def cq_paired_def)
next
  case False
  let ?r = "rank p" and ?i = "qidx (queuingStructure c) (bank p)"
  obtain pre post where q: "queues cq ! ?r ! ?i = pre @ lost @ p # post"
    "queues cq' = put2 ?r ?i (pre @ post) (queues cq)"
    "lost = [] \<and> (paired (pre @ p # post) \<longrightarrow> no_act_before pre)
      \<or> (\<exists>a. lost = [a] \<and> busPacketType a = ACTIVATE)"
    using assms(1) False unfolding takes_def by auto
  have i: "?i < numBankQueues c" by (rule qidx_less [OF assms(5)])
  have "paired (pre @ lost @ p # post)" unfolding q(1) [symmetric] using assms(2,4) i by (auto simp: cq_paired_def)
  from paired_take [OF this _ q(3)] False
  have P: "paired (pre @ post)" "\<forall>a \<in> set lost. access_of a p" by auto
  have "paired (queues cq' ! r ! b)" if "r < NUM_RANKS c" "b < numBankQueues c" for r b
  proof -
    have "r < length (queues cq)" "b < length (queues cq ! r)"
      using assms(3) that by (auto simp: queues_ok_def intro: less_le_trans)
    from put2_nth(1) [OF this] show ?thesis using P(1) assms(2) that q(2) by (auto simp: cq_paired_def)
  qed
  then show ?thesis using P(2) by (auto simp: cq_paired_def)
qed

text \<open>The request for a refresh ends with the refresh that is sent.\<close>

definition refresh_after :: "bus_packet \<Rightarrow> cmd_queue \<Rightarrow> cmd_queue \<Rightarrow> bool" where
  "refresh_after p cq cq' \<longleftrightarrow>
     (if busPacketType p = REFRESH then \<not> refreshWaiting cq'
      else refreshWaiting cq' = refreshWaiting cq \<and> refreshRank cq' = refreshRank cq)"

text \<open>The packets are the same apart from the sent and the lost ones.\<close>

lemma takes_packets:
  assumes "takes c cq p cq' lost" "queues_ok c (queues cq)" "rank p < NUM_RANKS c" "bank p < NUM_BANKS c"
  shows "cq_packets cq + (if busPacketType p \<in> {REFRESH, PRECHARGE} then {#p#} else {#})
    = cq_packets cq' + {#p#} + mset lost"
proof (cases "busPacketType p \<in> {REFRESH, PRECHARGE}")
  case True
  then show ?thesis using assms(1) by (auto simp: takes_def cq_packets_def)
next
  case False
  let ?r = "rank p" and ?i = "qidx (queuingStructure c) (bank p)"
  obtain pre post where q: "queues cq ! ?r ! ?i = pre @ lost @ p # post"
    "queues cq' = put2 ?r ?i (pre @ post) (queues cq)"
    using assms(1) False unfolding takes_def by auto
  have "cq_packets cq' + mset (pre @ lost @ p # post) = cq_packets cq + mset (pre @ post)"
    using packets_put [OF assms(2,3) qidx_less [OF assms(4)], of "pre @ post"] q
    by (simp add: cq_packets_def put_queue_def)
  then have "cq_packets cq + mset (pre @ post) = cq_packets cq' + {#p#} + mset lost + mset (pre @ post)"
    by (simp add: ac_simps)
  then show ?thesis using False by (simp only: add_right_cancel if_False add_0_right)
qed

lemma takes_drop:
  "takes c cq p cq' lost \<Longrightarrow> (\<forall>d \<in># mset lost. busPacketType d = ACTIVATE)
     \<and> (rowBufferPolicy c = ClosePage \<longrightarrow> mset lost = {#})"
  by (auto simp: takes_def split: if_splits)

text \<open>
  Sending packet \<open>p\<close> and going on as \<open>cq'\<close>: the command is legal, the invariant holds, the
  packets stay the same except for the one that is sent (a refresh or a precharge is made, not
  taken from a queue) and, with open pages, an activate directly before it.
\<close>

definition sends :: "dram_config \<Rightarrow> bank_state list list \<Rightarrow> cmd_queue \<Rightarrow> bus_packet \<Rightarrow> cmd_queue \<Rightarrow> bool" where
  "sends c bs cq p cq' \<longleftrightarrow>
     cq_core c cq' \<and> legal c bs cq p \<and> rank p < NUM_RANKS c \<and> bank p < NUM_BANKS c \<and>
     busPacketType p \<noteq> DATA \<and>
     cq_clock cq' = cq_clock cq \<and> tFAWCountdown cq' = tFAWCountdown cq \<and> refresh_after p cq cq' \<and>
     (\<exists>lost. takes c cq p cq' lost)"

lemma isIssuable_total:
  assumes "cq_core c cq" "bs_ok c bs" "pkt_ok c r b p" "r < NUM_RANKS c"
  shows "\<exists>ok. isIssuable c bs cq p = Inr ok"
proof -
  have l: "rank p < NUM_RANKS c" "bank p < NUM_BANKS c" using assms(3,4) by (auto simp: pkt_ok_def)
  have "at2 bs (rank p) (bank p) = Inr (bs ! rank p ! bank p)" by (rule bs_in [OF assms(2) l])
  moreover have "at2 (rowAccessCounters cq) (rank p) (bank p) = Inr (rowAccessCounters cq ! rank p ! bank p)"
    using counters_in l assms(1) by (auto simp: cq_core_def)
  moreover have "rank p < length (tFAWCountdown cq)" using l assms(1) by (simp add: cq_core_def)
  ultimately show ?thesis using assms(3)
    by (cases "busPacketType p") (auto simp: isIssuable_def pkt_ok_def)
qed

lemma send_taken:
  assumes core: "cq_core c cq" and r: "r < NUM_RANKS c" and b: "b < NUM_BANKS c"
    and q: "q = queues cq ! r ! qidx (queuingStructure c) b" and j: "j < length q"
    and ok: "isIssuable c bs cq (q ! j) = Inr True"
    and act: "paired q \<Longrightarrow> 0 < j \<Longrightarrow> busPacketType (q ! (j - 1)) \<noteq> ACTIVATE"
  shows "sends c bs cq (q ! j) (put_queue r (qidx (queuingStructure c) b) (erase j q) cq)"
proof -
  let ?i = "qidx (queuingStructure c) b"
  have qs: "queues_ok c (queues cq)" using core by (simp add: cq_core_def)
  have qok: "queue_ok c r ?i q" using queue_in(2) [OF qs r b] q by simp
  then have p: "pkt_ok c r ?i (q ! j)" using j by (simp add: queue_ok_def)
  have "queue_ok c r ?i (erase j q)"
    using qok set_erase [of j q] length_erase [OF j] by (auto simp: queue_ok_def)
  then have c': "cq_core c (put_queue r ?i (erase j q) cq)"
    using core queues_put by (auto simp: cq_core_def put_queue_def)
  have "b' = b" if "qidx (queuingStructure c) b = b'" "queuingStructure c = PerRankPerBank" for b'
    using that by (simp add: qidx_def)
  then have i: "qidx (queuingStructure c) (bank (q ! j)) = ?i" "rank (q ! j) = r"
    using p by (auto simp: qidx_def pkt_ok_def split: QueuingStructure.splits)
  have q': "q = take j q @ q ! j # drop (Suc j) q" by (rule id_take_nth_drop [OF j])
  have "no_act_before (take j q)" if "paired q"
    using act [OF that] j by (cases j) (auto simp: take_Suc_conv_app_nth)
  then have n: "paired (take j q @ q ! j # drop (Suc j) q) \<longrightarrow> no_act_before (take j q)"
    unfolding q' [symmetric] by simp
  have "takes c cq (q ! j) (put_queue r ?i (erase j q) cq) []"
    by (rule takesI [where pre = "take j q" and post = "drop (Suc j) q"])
      (use p i q q' n in \<open>auto simp: pkt_ok_def put_queue_def erase_def\<close>)
  then show ?thesis using c' p ok r
    by (auto simp: sends_def legal_def pkt_ok_def put_queue_def refresh_after_def)
qed

text \<open>The first packet to the open row is not the access of an activate before it: that would go
  to the same row.\<close>

lemma first_to_row_no_act:
  assumes "find_index (to_open_row qs i st) q = Some j" "paired q" "0 < j"
  shows "busPacketType (q ! (j - 1)) \<noteq> ACTIVATE"
proof
  assume a: "busPacketType (q ! (j - 1)) = ACTIVATE"
  note f = find_index_Some [OF assms(1)]
  have "access_of (q ! (j - 1)) (q ! j)" using paired_nth [OF assms(2), of "j - 1"] f assms(3) a by simp
  then have "to_open_row qs i st (q ! (j - 1))" using f by (auto simp: to_open_row_def access_of_def)
  then show False using f assms(3) by auto
qed

lemma send_precharge:
  assumes "cq_core c cq" "bs_ok c bs" "r < NUM_RANKS c" "b < NUM_BANKS c"
    "currentBankState (bs ! r ! b) = RowActive" "nextPrecharge (bs ! r ! b) \<le> cq_clock cq"
  shows "sends c bs cq (BusPacket PRECHARGE 0 0 0 r b None)
    (cq\<lparr>rowAccessCounters := put2 r b 0 (rowAccessCounters cq)\<rparr>)"
  using assms bs_in [OF assms(2-4)] counters_put
  by (auto simp: sends_def legal_def isIssuable_def cq_core_def takes_def refresh_after_def)

section \<open>The refresh sections\<close>

definition bank_quiet :: "bank_state list list \<Rightarrow> cmd_queue \<Rightarrow> nat \<Rightarrow> bool" where
  "bank_quiet bs cq i \<longleftrightarrow> currentBankState (bs ! refreshRank cq ! i) \<noteq> RowActive
     \<and> nextActivate (bs ! refreshRank cq ! i) \<le> cq_clock cq"

lemma close_banks_ok:
  assumes "cq_core c cq" "bs_ok c bs" "refreshRank cq < NUM_RANKS c" "set is \<subseteq> {..<NUM_BANKS c}"
  shows "\<exists>f s. close_banks (queuingStructure c) c bs cq is = Inr (f, s)
    \<and> (\<not> f \<longrightarrow> s = None \<and> (\<forall>i \<in> set is. bank_quiet bs cq i))
    \<and> (\<forall>p cq'. s = Some (p, cq') \<longrightarrow> sends c bs cq p cq')"
  using assms(4)
proof (induction "is")
  case (Cons i "is")
  let ?r = "refreshRank cq" and ?qi = "qidx (queuingStructure c) i"
  let ?st = "bs ! refreshRank cq ! i" and ?q = "queues cq ! refreshRank cq ! qidx (queuingStructure c) i"
  have i: "i < NUM_BANKS c" using Cons.prems by simp
  have st: "at2 bs ?r i = Inr ?st" by (rule bs_in [OF assms(2,3) i])
  have qs: "queues_ok c (queues cq)" using assms(1) by (simp add: cq_core_def)
  note q = queue_in [OF qs assms(3) i]
  show ?case
  proof (cases "currentBankState ?st = RowActive")
    case False
    then show ?thesis using Cons st
      by (cases "nextActivate ?st > cq_clock cq") (auto simp: bank_quiet_def)
  next
    case act: True
    show ?thesis
    proof (cases "find_index (to_open_row (queuingStructure c) i ?st) ?q")
      case None
      then show ?thesis using act st q by auto
    next
      case (Some j)
      have j: "j < length ?q" using find_index_Some [OF Some] by simp
      then have "pkt_ok c ?r ?qi (?q ! j)" using q(2) by (simp add: queue_ok_def)
      from isIssuable_total [OF assms(1,2) this assms(3)]
      obtain ok where ok: "isIssuable c bs cq (?q ! j) = Inr ok" by blast
      have "sends c bs cq (?q ! j) (put_queue ?r ?qi (erase j ?q) cq)" if ok
        using send_taken [OF assms(1,3) i refl j _ first_to_row_no_act [OF Some]] ok that by simp
      then show ?thesis using act st q Some ok by auto
    qed
  qed
qed auto

lemma send_refresh_ok:
  assumes "cq_core c cq" "refreshWaiting cq" "\<forall>i < NUM_BANKS c. bank_quiet bs cq i"
    "currentBankState (bs ! refreshRank cq ! 0) \<noteq> PowerDown" "send_refresh cq = Some (p, cq')"
  shows "sends c bs cq p cq'"
  using assms
  by (auto simp: send_refresh_def sends_def legal_def cq_core_def takes_def refresh_after_def bank_quiet_def sizes_ok_def)

lemma close_refresh_ok:
  assumes "cq_core c cq" "bs_ok c bs"
  shows "\<exists>s. close_refresh (queuingStructure c) c bs cq = Inr s
    \<and> (\<forall>p cq'. s = Some (p, cq') \<longrightarrow> sends c bs cq p cq')"
proof (cases "refreshWaiting cq")
  case True
  then have r: "refreshRank cq < NUM_RANKS c" using assms(1) by (simp add: cq_core_def)
  have b: "0 < NUM_BANKS c" using assms(1) by (simp add: cq_core_def sizes_ok_def)
  have sub: "set [0..<NUM_BANKS c] \<subseteq> {..<NUM_BANKS c}" by auto
  obtain f s where fs: "close_banks (queuingStructure c) c bs cq [0..<NUM_BANKS c] = Inr (f, s)"
    "\<not> f \<longrightarrow> s = None \<and> (\<forall>i \<in> set [0..<NUM_BANKS c]. bank_quiet bs cq i)"
    "\<forall>p cq'. s = Some (p, cq') \<longrightarrow> sends c bs cq p cq'"
    using close_banks_ok [OF assms r sub] by blast
  show ?thesis using True fs bs_in [OF assms(2) r b] send_refresh_ok [OF assms(1) True, of bs]
    by (auto simp: close_refresh_def)
qed (simp add: close_refresh_def)

lemma open_banks_ok:
  assumes "cq_core c cq" "bs_ok c bs" "refreshRank cq < NUM_RANKS c" "set is \<subseteq> {..<NUM_BANKS c}"
  shows "\<exists>f s. open_banks (queuingStructure c) c bs cq is = Inr (f, s)
    \<and> (f \<longrightarrow> s = None \<and> (\<forall>i \<in> set is. bank_quiet bs cq i))
    \<and> (\<forall>p cq'. s = Some (p, cq') \<longrightarrow> sends c bs cq p cq')"
  using assms(4)
proof (induction "is")
  case (Cons i "is")
  let ?r = "refreshRank cq" and ?qi = "qidx (queuingStructure c) i"
  let ?st = "bs ! refreshRank cq ! i" and ?q = "queues cq ! refreshRank cq ! qidx (queuingStructure c) i"
  have i: "i < NUM_BANKS c" using Cons.prems by simp
  have st: "at2 bs ?r i = Inr ?st" by (rule bs_in [OF assms(2,3) i])
  have qs: "queues_ok c (queues cq)" using assms(1) by (simp add: cq_core_def)
  note q = queue_in [OF qs assms(3) i]
  show ?case
  proof (cases "currentBankState ?st = RowActive")
    case False
    then show ?thesis using Cons st
      by (cases "nextActivate ?st > cq_clock cq") (auto simp: bank_quiet_def)
  next
    case act: True
    note pre = send_precharge [OF assms(1-3) i act]
    show ?thesis
    proof (cases "find_index (to_open_row (queuingStructure c) i ?st) ?q")
      case None
      then show ?thesis using act st q pre by auto
    next
      case (Some j)
      have j: "j < length ?q" using find_index_Some [OF Some] by simp
      then have "pkt_ok c ?r ?qi (?q ! j)" using q(2) by (simp add: queue_ok_def)
      from isIssuable_total [OF assms(1,2) this assms(3)]
      obtain ok where ok: "isIssuable c bs cq (?q ! j) = Inr ok" by blast
      have "sends c bs cq (?q ! j) (put_queue ?r ?qi (erase j ?q) cq)" if ok
        using send_taken [OF assms(1,3) i refl j _ first_to_row_no_act [OF Some]] ok that by simp
      then show ?thesis using act st q Some ok pre by auto
    qed
  qed
qed auto

lemma open_refresh_ok:
  assumes "cq_core c cq" "bs_ok c bs"
  shows "\<exists>s. open_refresh (queuingStructure c) c bs cq = Inr s
    \<and> (\<forall>p cq'. s = Some (p, cq') \<longrightarrow> sends c bs cq p cq')"
proof (cases "refreshWaiting cq")
  case True
  then have r: "refreshRank cq < NUM_RANKS c" using assms(1) by (simp add: cq_core_def)
  have b: "0 < NUM_BANKS c" using assms(1) by (simp add: cq_core_def sizes_ok_def)
  have sub: "set [0..<NUM_BANKS c] \<subseteq> {..<NUM_BANKS c}" by auto
  obtain f s where fs: "open_banks (queuingStructure c) c bs cq [0..<NUM_BANKS c] = Inr (f, s)"
    "f \<longrightarrow> s = None \<and> (\<forall>i \<in> set [0..<NUM_BANKS c]. bank_quiet bs cq i)"
    "\<forall>p cq'. s = Some (p, cq') \<longrightarrow> sends c bs cq p cq'"
    using open_banks_ok [OF assms r sub] by blast
  show ?thesis using True fs bs_in [OF assms(2) r b] send_refresh_ok [OF assms(1) True, of bs]
    by (auto simp: open_refresh_def)
qed (simp add: open_refresh_def)

section \<open>The round-robin searches\<close>

text \<open>Two states that differ in the round-robin pointers only.\<close>

definition ptr_eq :: "cmd_queue \<Rightarrow> cmd_queue \<Rightarrow> bool" where
  "ptr_eq x y \<longleftrightarrow>
     queues x = queues y \<and> refreshRank x = refreshRank y \<and> refreshWaiting x = refreshWaiting y \<and>
     tFAWCountdown x = tFAWCountdown y \<and> rowAccessCounters x = rowAccessCounters y \<and>
     sendAct x = sendAct y \<and> cq_clock x = cq_clock y"

lemma ptr_eq_refl [simp]: "ptr_eq x x"
  by (simp add: ptr_eq_def)

lemma ptr_eq_trans: "ptr_eq x y \<Longrightarrow> ptr_eq y z \<Longrightarrow> ptr_eq x z"
  by (simp add: ptr_eq_def)

lemma ptr_eq_issuable: "ptr_eq x y \<Longrightarrow> isIssuable c bs x p = isIssuable c bs y p"
  by (cases "busPacketType p") (simp_all add: ptr_eq_def isIssuable_def)

lemma ptr_eq_sends: "ptr_eq x y \<Longrightarrow> sends c bs x p z = sends c bs y p z"
  using ptr_eq_issuable [of x y c bs p]
  by (simp add: sends_def legal_def takes_def refresh_after_def ptr_eq_def)

definition waits_for_refresh :: "cmd_queue \<Rightarrow> nat \<Rightarrow> bool" where
  "waits_for_refresh cq r \<longleftrightarrow> refreshWaiting cq \<and> r = refreshRank cq"

text \<open>The state of a search: it started in \<open>cq\<close> and has moved the pointers.\<close>

definition scanning :: "dram_config \<Rightarrow> cmd_queue \<Rightarrow> cmd_queue \<Rightarrow> bool" where
  "scanning c cq x \<longleftrightarrow> cq_core c x \<and> ptr_eq x cq"

definition scan_sends :: "dram_config \<Rightarrow> bank_state list list \<Rightarrow> cmd_queue \<Rightarrow> bus_packet \<Rightarrow> cmd_queue \<Rightarrow> bool" where
  "scan_sends c bs cq p y \<longleftrightarrow> sends c bs cq p y \<and> \<not> waits_for_refresh cq (rank p)"

lemma adv_scanning:
  assumes "scanning c cq x"
  shows "scanning c cq (adv_rank c x)" "scanning c cq (adv_pair c x)" "scanning c cq (adv_pre c x)"
proof -
  have s: "sizes_ok c" and p: "pair_ok c (nextRank x, nextBank x)" "pair_ok c (nextRankPRE x, nextBankPRE x)"
    using assms by (auto simp: scanning_def cq_core_def)
  have n: "next_rank c (nextRank x) < NUM_RANKS c"
    using next_rank_eq [OF s] p(1) s by (simp add: pair_ok_def sizes_ok_def)
  show "scanning c cq (adv_rank c x)" using assms n
    by (auto simp: scanning_def cq_core_def adv_rank_def ptr_eq_def pair_ok_def)
  show "scanning c cq (adv_pair c x)" using assms next_pair_ok(1) [OF s p(1)]
    by (auto simp: scanning_def cq_core_def adv_pair_def ptr_eq_def split: prod.splits)
  show "scanning c cq (adv_pre c x)" using assms next_pair_ok(1) [OF s p(2)]
    by (auto simp: scanning_def cq_core_def adv_pre_def ptr_eq_def split: prod.splits)
qed

lemma adv_iter:
  "(nextRank ((adv_pair c ^^ k) x), nextBank ((adv_pair c ^^ k) x)) = (next_pair c ^^ k) (nextRank x, nextBank x)"
  "(nextRankPRE ((adv_pre c ^^ k) x), nextBankPRE ((adv_pre c ^^ k) x))
     = (next_pair c ^^ k) (nextRankPRE x, nextBankPRE x)"
  "nextRank ((adv_rank c ^^ k) x) = (next_rank c ^^ k) (nextRank x)"
  by (induction k) (auto simp: adv_pair_def adv_pre_def adv_rank_def split: prod.splits)

lemma issuable_in:
  assumes "scanning c cq x" "bs_ok c bs" "queue_ok c r b q" "r < NUM_RANKS c" "i < length q"
  shows "\<exists>ok. isIssuable c bs x (q ! i) = Inr ok"
  using assms isIssuable_total [of c x bs r b "q ! i"] by (auto simp: scanning_def queue_ok_def)

lemma close_search_ok:
  assumes "scanning c cq x" "bs_ok c bs" "queue_ok c r b q" "r < NUM_RANKS c" "\<forall>i \<in> set is. i < length q"
  shows "\<exists>o'. close_search c bs x q is = Inr o'
    \<and> (\<forall>i. o' = Some i \<longrightarrow> i < length q \<and> isIssuable c bs x (q ! i) = Inr True
         \<and> \<not> (0 < i \<and> busPacketType (q ! (i - 1)) = ACTIVATE
              \<and> physicalAddress (q ! (i - 1)) = physicalAddress (q ! i)))"
  using assms(5)
proof (induction "is")
  case (Cons i "is")
  then obtain ok where "isIssuable c bs x (q ! i) = Inr ok"
    using issuable_in [OF assms(1-4), of i] by auto
  then show ?case using Cons by (cases ok) auto
qed simp

lemma open_search_ok:
  assumes "scanning c cq x" "bs_ok c bs" "queue_ok c r b q" "r < NUM_RANKS c" "\<forall>i \<in> set is. i < length q"
  shows "\<exists>o'. open_search qs c bs x q is = Inr o'
    \<and> (\<forall>i. o' = Some i \<longrightarrow> i < length q \<and> isIssuable c bs x (q ! i) = Inr True)
    \<and> (o' = None \<longrightarrow> (\<forall>i \<in> set is. isIssuable c bs x (q ! i) = Inr False \<or> depends qs q i))"
  using assms(5)
proof (induction "is")
  case (Cons i "is")
  then obtain ok where "isIssuable c bs x (q ! i) = Inr ok"
    using issuable_in [OF assms(1-4), of i] by auto
  then show ?case using Cons by (cases ok) auto
qed simp

text \<open>The selection functions.\<close>

lemma close_rank_sel_ok:
  assumes "queuingStructure c = PerRank" "bs_ok c bs" "scanning c cq x"
  shows "\<exists>s. close_rank_sel c bs x = Inr s \<and> (\<forall>p y. s = Some (p, y) \<longrightarrow> scan_sends c bs cq p y)"
proof -
  let ?q = "queues x ! nextRank x ! 0"
  have core: "cq_core c x" and pe: "ptr_eq x cq" using assms(3) by (auto simp: scanning_def)
  have r: "nextRank x < NUM_RANKS c" and b: "0 < NUM_BANKS c" and qs: "queues_ok c (queues x)"
    using core by (auto simp: cq_core_def pair_ok_def sizes_ok_def)
  have q: "at2 (queues x) (nextRank x) 0 = Inr ?q" "queue_ok c (nextRank x) 0 ?q"
    using queue_in [OF qs r b] assms(1) by (auto simp: qidx_def)
  have "\<forall>i \<in> set [0..<length ?q]. i < length ?q" by simp
  from close_search_ok [OF assms(3,2) q(2) r this] obtain o' where
    o': "close_search c bs x ?q [0..<length ?q] = Inr o'"
      "\<forall>i. o' = Some i \<longrightarrow> i < length ?q \<and> isIssuable c bs x (?q ! i) = Inr True
         \<and> \<not> (0 < i \<and> busPacketType (?q ! (i - 1)) = ACTIVATE
              \<and> physicalAddress (?q ! (i - 1)) = physicalAddress (?q ! i))" by blast
  have S: "scan_sends c bs cq (?q ! i) (put_queue (nextRank x) 0 (erase i ?q) x)"
    if "o' = Some i" "\<not> rank_blocked x" for i
  proof -
    have i: "i < length ?q" "isIssuable c bs x (?q ! i) = Inr True" using o'(2) that by auto
    have "busPacketType (?q ! (i - 1)) \<noteq> ACTIVATE" if "paired ?q" "0 < i"
      using paired_nth [OF that(1), of "i - 1"] o'(2) \<open>o' = Some i\<close> i(1) that(2) by (auto simp: access_of_def)
    then have "sends c bs x (?q ! i) (put_queue (nextRank x) 0 (erase i ?q) x)"
      using send_taken [OF core r b _ i] assms(1) by (simp add: qidx_def)
    moreover have "rank (?q ! i) = nextRank x" using q(2) i(1) by (auto simp: queue_ok_def pkt_ok_def)
    ultimately show ?thesis using that(2) pe ptr_eq_sends [OF pe]
      by (auto simp: scan_sends_def rank_blocked_def waits_for_refresh_def ptr_eq_def)
  qed
  show ?thesis
  proof (cases "?q \<noteq> [] \<and> \<not> rank_blocked x")
    case True
    then show ?thesis using q(1) o'(1) S by (cases o') (auto simp: close_rank_sel_def)
  next
    case False
    then show ?thesis using q(1) by (auto simp: close_rank_sel_def)
  qed
qed

lemma close_bank_sel_ok:
  assumes "queuingStructure c = PerRankPerBank" "bs_ok c bs" "scanning c cq x"
  shows "\<exists>s. close_bank_sel c bs x = Inr s \<and> (\<forall>p y. s = Some (p, y) \<longrightarrow> scan_sends c bs cq p y)
    \<and> (s = None \<longrightarrow> queues x ! nextRank x ! nextBank x = [] \<or> rank_blocked x
        \<or> isIssuable c bs x (queues x ! nextRank x ! nextBank x ! 0) = Inr False)"
proof -
  let ?q = "queues x ! nextRank x ! nextBank x"
  have core: "cq_core c x" and pe: "ptr_eq x cq" using assms(3) by (auto simp: scanning_def)
  have r: "nextRank x < NUM_RANKS c" and b: "nextBank x < NUM_BANKS c" and qs: "queues_ok c (queues x)"
    using core by (auto simp: cq_core_def pair_ok_def)
  have q: "at2 (queues x) (nextRank x) (nextBank x) = Inr ?q" "queue_ok c (nextRank x) (nextBank x) ?q"
    using queue_in [OF qs r b] assms(1) by (auto simp: qidx_def)
  show ?thesis
  proof (cases "?q \<noteq> [] \<and> \<not> rank_blocked x")
    case True
    then have l: "0 < length ?q" by simp
    obtain ok where ok: "isIssuable c bs x (?q ! 0) = Inr ok"
      using issuable_in [OF assms(3,2) q(2) r l] by blast
    have "scan_sends c bs cq (?q ! 0) (put_queue (nextRank x) (nextBank x) (erase 0 ?q) x)" if ok
    proof -
      have "sends c bs x (?q ! 0) (put_queue (nextRank x) (nextBank x) (erase 0 ?q) x)"
        using send_taken [OF core r b _ l] assms(1) ok that by (simp add: qidx_def)
      moreover have "rank (?q ! 0) = nextRank x" using q(2) l by (auto simp: queue_ok_def pkt_ok_def)
      ultimately show ?thesis using True pe ptr_eq_sends [OF pe]
        by (auto simp: scan_sends_def rank_blocked_def waits_for_refresh_def ptr_eq_def)
    qed
    then show ?thesis using True q(1) ok by (auto simp: close_bank_sel_def)
  next
    case False
    then show ?thesis using q(1) by (auto simp: close_bank_sel_def)
  qed
qed

lemma take_drop2:
  assumes "0 < i" "i < length q"
  shows "q = take (i - 1) q @ [q ! (i - 1)] @ q ! i # drop (i + 1) q"
proof -
  have "drop (i - 1) q = q ! (i - 1) # q ! i # drop (i + 1) q"
    using assms Cons_nth_drop_Suc [of "i - 1" q] Cons_nth_drop_Suc [of i q] by simp
  then show ?thesis using append_take_drop_id [of "i - 1" q] by simp
qed

lemma open_take_ok:
  assumes core: "cq_core c cq" and r: "r < NUM_RANKS c" and b: "b < NUM_BANKS c"
    and q: "q = queues cq ! r ! qidx (queuingStructure c) b" and i: "i < length q"
    and ok: "isIssuable c bs cq (q ! i) = Inr True" and pol: "rowBufferPolicy c = OpenPage"
  shows "\<exists>y. open_take (queuingStructure c) r b q i cq = Inr (q ! i, y) \<and> sends c bs cq (q ! i) y"
proof (cases "i > 0 \<and> busPacketType (q ! (i - 1)) = ACTIVATE")
  case False
  then show ?thesis using send_taken [OF core r b q i ok] by (auto simp: open_take_def)
next
  case True
  let ?qi = "qidx (queuingStructure c) b" and ?p = "q ! i"
  let ?new = "take (i - 1) q @ drop (i + 1) q"
  have qs: "queues_ok c (queues cq)" and cs: "counters_ok c (rowAccessCounters cq)"
    using core by (auto simp: cq_core_def)
  have qok: "queue_ok c r ?qi q" using queue_in(2) [OF qs r b] q by simp
  then have p: "pkt_ok c r ?qi ?p" using i by (simp add: queue_ok_def)
  obtain kr kb where k: "(kr, kb) = (case queuingStructure c of PerRank \<Rightarrow> (rank ?p, bank ?p)
      | PerRankPerBank \<Rightarrow> (r, b))" by (cases "queuingStructure c") auto
  then have kk: "kr < NUM_RANKS c" "kb < NUM_BANKS c" using p r b
    by (auto simp: pkt_ok_def split: QueuingStructure.splits)
  have "set ?new \<subseteq> set q" by (auto dest: in_set_takeD in_set_dropD)
  moreover have "length ?new \<le> length q" using i by auto
  ultimately have new: "queue_ok c r ?qi ?new" using qok by (auto simp: queue_ok_def)
  let ?c1 = "cq\<lparr>rowAccessCounters := put2 kr kb (u32_add (rowAccessCounters cq ! kr ! kb) 1)
      (rowAccessCounters cq)\<rparr>"
  let ?y = "put_queue r ?qi ?new ?c1"
  have T: "open_take (queuingStructure c) r b q i cq = Inr (?p, ?y)"
    using True k counters_in [OF cs kk] by (auto simp: open_take_def Let_def split: prod.splits)
  have cy: "cq_core c ?y" using core new queues_put counters_put
    by (auto simp: cq_core_def put_queue_def)
  have "qidx (queuingStructure c) (bank ?p) = ?qi" "rank ?p = r"
    using p by (auto simp: qidx_def pkt_ok_def split: QueuingStructure.splits)
  then have "takes c cq ?p ?y [q ! (i - 1)]"
    by (intro takesI [where pre = "take (i - 1) q" and post = "drop (i + 1) q"])
      (use p True pol q take_drop2 [of i q] i in \<open>auto simp: pkt_ok_def put_queue_def\<close>)
  then have "sends c bs cq ?p ?y"
    unfolding sends_def using cy p ok r
    by (auto simp: legal_def pkt_ok_def put_queue_def refresh_after_def)
  with T show ?thesis by blast
qed

lemma open_sel_ok:
  assumes "rowBufferPolicy c = OpenPage" "bs_ok c bs" "scanning c cq x"
  shows "\<exists>s. open_sel (queuingStructure c) c bs x = Inr s
    \<and> (\<forall>p y. s = Some (p, y) \<longrightarrow> scan_sends c bs cq p y)"
proof -
  let ?qs = "queuingStructure c" and ?r = "nextRank x" and ?b = "nextBank x"
  let ?q = "queues x ! ?r ! qidx ?qs ?b"
  have core: "cq_core c x" and pe: "ptr_eq x cq" using assms(3) by (auto simp: scanning_def)
  have r: "?r < NUM_RANKS c" and b: "?b < NUM_BANKS c" and qs: "queues_ok c (queues x)"
    using core by (auto simp: cq_core_def pair_ok_def)
  note q = queue_in [OF qs r b]
  have "\<forall>i \<in> set [0..<length ?q]. i < length ?q" by simp
  from open_search_ok [OF assms(3,2) q(2) r this, of ?qs] obtain o' where
    o': "open_search ?qs c bs x ?q [0..<length ?q] = Inr o'"
      "\<forall>i. o' = Some i \<longrightarrow> i < length ?q \<and> isIssuable c bs x (?q ! i) = Inr True" by blast
  show ?thesis
  proof (cases "?q \<noteq> [] \<and> \<not> rank_blocked x")
    case False
    then show ?thesis using q(1) by (auto simp: open_sel_def)
  next
    case True
    show ?thesis
    proof (cases o')
      case None
      then show ?thesis using True q(1) o'(1) by (simp add: open_sel_def)
    next
      case (Some i)
      have i: "i < length ?q" "isIssuable c bs x (?q ! i) = Inr True" using o'(2) Some by auto
      obtain y where y: "open_take ?qs ?r ?b ?q i x = Inr (?q ! i, y)" "sends c bs x (?q ! i) y"
        using open_take_ok [OF core r b _ i assms(1)] by blast
      have "rank (?q ! i) = ?r" using q(2) i(1) by (auto simp: queue_ok_def pkt_ok_def)
      then have "scan_sends c bs cq (?q ! i) y" using y(2) True pe ptr_eq_sends [OF pe]
        by (auto simp: scan_sends_def rank_blocked_def waits_for_refresh_def ptr_eq_def)
      then show ?thesis using True q(1) o'(1) Some y(1) by (simp add: open_sel_def)
    qed
  qed
qed

lemma pre_sel_ok:
  assumes "bs_ok c bs" "scanning c cq x"
  shows "\<exists>s. pre_sel (queuingStructure c) c bs x = Inr s \<and> (\<forall>p y. s = Some (p, y) \<longrightarrow> sends c bs cq p y)"
proof -
  let ?r = "nextRankPRE x" and ?b = "nextBankPRE x"
  have core: "cq_core c x" and pe: "ptr_eq x cq" using assms(2) by (auto simp: scanning_def)
  have r: "?r < NUM_RANKS c" and b: "?b < NUM_BANKS c" and qs: "queues_ok c (queues x)"
    and cs: "counters_ok c (rowAccessCounters x)"
    using core by (auto simp: cq_core_def pair_ok_def)
  show ?thesis
    using bs_in [OF assms(1) r b] queue_in(1) [OF qs r b] counters_in [OF cs r b]
      send_precharge [OF core assms(1) r b] ptr_eq_sends [OF pe]
    by (auto simp: pre_sel_def Let_def)
qed

section \<open>The searches return\<close>

definition scan_result ::
  "dram_config \<Rightarrow> (cmd_queue \<Rightarrow> bus_packet \<Rightarrow> cmd_queue \<Rightarrow> bool) \<Rightarrow> cmd_queue \<Rightarrow> bus_packet option \<Rightarrow> cmd_queue \<Rightarrow> bool" where
  "scan_result c Q cq r y \<longleftrightarrow> (case r of Some p \<Rightarrow> Q cq p y | None \<Rightarrow> scanning c cq y)"

lemma scanning_refl: "cq_core c cq \<Longrightarrow> scanning c cq cq"
  by (simp add: scanning_def)

lemma iter_scanning:
  assumes "scanning c cq x"
  shows "scanning c cq ((adv_pair c ^^ k) x)" "scanning c cq ((adv_rank c ^^ k) x)"
    "scanning c cq ((adv_pre c ^^ k) x)"
  by (induction k) (auto simp: adv_scanning assms)

lemma rank_return: "cq_core c cq \<Longrightarrow> nextRank ((adv_rank c ^^ NUM_RANKS c) cq) = nextRank cq"
  by (auto simp: adv_iter next_rank_orbit cq_core_def pair_ok_def)

lemma close_rank_scan_ok:
  assumes "queuingStructure c = PerRank" "bs_ok c bs" "cq_core c cq"
  shows "\<exists>r y. close_rank_scan c bs cq = Inr (r, y) \<and> scan_result c (scan_sends c bs) cq r y"
proof -
  have n: "0 < NUM_RANKS c" using assms(3) by (simp add: cq_core_def sizes_ok_def)
  from round_robin_ok [where Inv = "scanning c cq" and sel = "close_rank_sel c bs" and adv = "adv_rank c"
      and Q = "scan_sends c bs cq" and again = "\<lambda>y. nextRank cq \<noteq> nextRank y",
      OF scanning_refl [OF assms(3)] close_rank_sel_ok [OF assms(1,2)] adv_scanning(1) n order_refl]
  show ?thesis using rank_return [OF assms(3)]
    by (fastforce simp: close_rank_scan_def Let_def scan_result_def split: option.splits)
qed

lemma open_rank_scan_ok:
  assumes "queuingStructure c = PerRank" "rowBufferPolicy c = OpenPage" "bs_ok c bs" "cq_core c cq"
  shows "\<exists>r y. open_rank_scan c bs cq = Inr (r, y) \<and> scan_result c (scan_sends c bs) cq r y"
proof -
  have n: "0 < NUM_RANKS c" using assms(4) by (simp add: cq_core_def sizes_ok_def)
  have sel: "\<exists>s. open_sel PerRank c bs x = Inr s \<and> (\<forall>p y. s = Some (p, y) \<longrightarrow> scan_sends c bs cq p y)"
    if "scanning c cq x" for x using open_sel_ok [OF assms(2,3) that] assms(1) by simp
  from round_robin_ok [where Inv = "scanning c cq" and sel = "open_sel PerRank c bs" and adv = "adv_rank c"
      and Q = "scan_sends c bs cq" and again = "\<lambda>y. nextRank cq \<noteq> nextRank y",
      OF scanning_refl [OF assms(4)] sel adv_scanning(1) n order_refl]
  show ?thesis using rank_return [OF assms(4)]
    by (fastforce simp: open_rank_scan_def Let_def scan_result_def split: option.splits)
qed

lemma pairs_pos: "cq_core c cq \<Longrightarrow> 0 < NUM_RANKS c * NUM_BANKS c"
  by (simp add: cq_core_def sizes_ok_def)

lemma core_pairs:
  "cq_core c cq \<Longrightarrow> sizes_ok c" "cq_core c cq \<Longrightarrow> pair_ok c (nextRank cq, nextBank cq)"
  "cq_core c cq \<Longrightarrow> pair_ok c (nextRankPRE cq, nextBankPRE cq)"
  by (simp_all add: cq_core_def)

lemma pair_return:
  assumes "cq_core c cq"
  shows "nextRank ((adv_pair c ^^ (NUM_RANKS c * NUM_BANKS c)) cq) = nextRank cq"
    and "nextBank ((adv_pair c ^^ (NUM_RANKS c * NUM_BANKS c)) cq) = nextBank cq"
proof -
  obtain k where k: "0 < k" "k \<le> NUM_RANKS c * NUM_BANKS c"
    "(next_pair c ^^ k) (nextRank cq, nextBank cq) = (nextRank cq, nextBank cq)"
    using next_pair_visits(2) [OF core_pairs(1) [OF assms] core_pairs(2) [OF assms] core_pairs(2) [OF assms]] by blast
  then have "k = NUM_RANKS c * NUM_BANKS c"
    using next_pair_first_return [OF core_pairs(1) [OF assms] core_pairs(2) [OF assms] k(3,1)] by simp
  then show "nextRank ((adv_pair c ^^ (NUM_RANKS c * NUM_BANKS c)) cq) = nextRank cq"
    "nextBank ((adv_pair c ^^ (NUM_RANKS c * NUM_BANKS c)) cq) = nextBank cq"
    using k(3) adv_iter(1) [where c = c and k = "NUM_RANKS c * NUM_BANKS c" and x = cq] by auto
qed

text \<open>For the queues per bank a search that finds nothing has looked at every queue.\<close>

lemma close_bank_scan_ok:
  assumes "queuingStructure c = PerRankPerBank" "bs_ok c bs" "cq_core c cq"
  shows "\<exists>r y. close_bank_scan c bs cq = Inr (r, y) \<and> scan_result c (scan_sends c bs) cq r y
    \<and> (r = None \<longrightarrow> (\<forall>k b. pair_ok c (k, b) \<longrightarrow> queues cq ! k ! b = [] \<or> waits_for_refresh cq k
         \<or> isIssuable c bs cq (queues cq ! k ! b ! 0) = Inr False))"
proof -
  let ?n = "NUM_RANKS c * NUM_BANKS c"
  have sel: "\<exists>s. close_bank_sel c bs x = Inr s \<and> (\<forall>p y. s = Some (p, y) \<longrightarrow> scan_sends c bs cq p y)"
    if "scanning c cq x" for x using close_bank_sel_ok [OF assms(1,2) that] by blast
  let ?again = "\<lambda>y. \<not> (nextRank cq = nextRank y \<and> nextBank cq = nextBank y)"
  have "\<not> ?again ((adv_pair c ^^ ?n) cq)" using pair_return [OF assms(3)] by simp
  from round_robin_ok [where Inv = "scanning c cq" and sel = "close_bank_sel c bs" and adv = "adv_pair c"
      and Q = "scan_sends c bs cq" and again = ?again,
      OF scanning_refl [OF assms(3)] sel adv_scanning(2) pairs_pos [OF assms(3)] order_refl this]
  obtain r y where ry: "round_robin ?n (close_bank_sel c bs) (adv_pair c) ?again cq = Inr (r, y)"
    "case r of Some p \<Rightarrow> scan_sends c bs cq p y
     | None \<Rightarrow> scanning c cq y \<and> (\<exists>m. 0 < m \<and> m \<le> ?n \<and> y = (adv_pair c ^^ m) cq \<and> \<not> ?again y
         \<and> (\<forall>i < m. close_bank_sel c bs ((adv_pair c ^^ i) cq) = Inr None))" by blast
  have all: "queues cq ! k ! b = [] \<or> waits_for_refresh cq k
      \<or> isIssuable c bs cq (queues cq ! k ! b ! 0) = Inr False"
    if N: "r = None" and kb: "pair_ok c (k, b)" for k b
  proof -
    obtain m where m: "0 < m" "\<not> ?again ((adv_pair c ^^ m) cq)"
      "\<forall>i < m. close_bank_sel c bs ((adv_pair c ^^ i) cq) = Inr None" using ry(2) N by auto
    have "(next_pair c ^^ m) (nextRank cq, nextBank cq) = (nextRank cq, nextBank cq)"
      using m(2) adv_iter(1) [where c = c and k = m and x = cq] by simp
    then have n: "?n \<le> m" using next_pair_first_return [OF core_pairs(1) [OF assms(3)] core_pairs(2) [OF assms(3)]] m(1) by blast
    obtain i where i: "i < ?n" "(next_pair c ^^ i) (nextRank cq, nextBank cq) = (k, b)"
      using next_pair_visits(1) [OF core_pairs(1) [OF assms(3)] core_pairs(2) [OF assms(3)] kb] by blast
    let ?x = "(adv_pair c ^^ i) cq"
    have sc: "scanning c cq ?x" by (rule iter_scanning(1) [OF scanning_refl [OF assms(3)]])
    have x: "nextRank ?x = k" "nextBank ?x = b" using adv_iter(1) [where c = c and k = i and x = cq] i(2) by auto
    have "close_bank_sel c bs ?x = Inr None" using m(3) i(1) n by simp
    with close_bank_sel_ok [OF assms(1,2) sc]
    have "queues ?x ! k ! b = [] \<or> rank_blocked ?x \<or> isIssuable c bs ?x (queues ?x ! k ! b ! 0) = Inr False"
      using x by auto
    moreover have "ptr_eq ?x cq" using sc by (simp add: scanning_def)
    ultimately show ?thesis using x ptr_eq_issuable [of ?x cq]
      by (auto simp: ptr_eq_def rank_blocked_def waits_for_refresh_def)
  qed
  show ?thesis using ry all
    by (auto simp: close_bank_scan_def Let_def scan_result_def split: option.splits)
qed

lemma open_bank_scan_ok:
  assumes "queuingStructure c = PerRankPerBank" "rowBufferPolicy c = OpenPage" "bs_ok c bs" "cq_core c cq"
  shows "\<exists>r y. open_bank_scan c bs cq = Inr (r, y) \<and> scan_result c (scan_sends c bs) cq r y"
proof -
  let ?n = "NUM_RANKS c * NUM_BANKS c"
  have sel: "\<exists>s. open_sel PerRankPerBank c bs x = Inr s \<and> (\<forall>p y. s = Some (p, y) \<longrightarrow> scan_sends c bs cq p y)"
    if "scanning c cq x" for x using open_sel_ok [OF assms(2,3) that] assms(1) by simp
  let ?again = "\<lambda>y. \<not> (nextRank cq = nextRank y \<and> nextBank cq = nextBank y)"
  have "\<not> ?again ((adv_pair c ^^ ?n) cq)" using pair_return [OF assms(4)] by simp
  from round_robin_ok [where Inv = "scanning c cq" and sel = "open_sel PerRankPerBank c bs"
      and adv = "adv_pair c" and Q = "scan_sends c bs cq" and again = ?again,
      OF scanning_refl [OF assms(4)] sel adv_scanning(2) pairs_pos [OF assms(4)] order_refl this]
  show ?thesis
    by (fastforce simp: open_bank_scan_def Let_def scan_result_def split: option.splits)
qed

text \<open>The search for a bank to close returns from whatever pair its end is compared with.\<close>

lemma pre_scan_ok:
  assumes "bs_ok c bs" "cq_core c cq" "pair_ok c start"
  shows "\<exists>r y. pre_scan (queuingStructure c) start c bs cq = Inr (r, y)
    \<and> scan_result c (sends c bs) cq r y"
proof -
  let ?n = "NUM_RANKS c * NUM_BANKS c"
  let ?again = "\<lambda>y. \<not> (fst start = nextRankPRE y \<and> snd start = nextBankPRE y)"
  obtain k where k: "0 < k" "k \<le> ?n"
    "(next_pair c ^^ k) (nextRankPRE cq, nextBankPRE cq) = start"
    using next_pair_visits(2) [OF core_pairs(1) [OF assms(2)] core_pairs(3) [OF assms(2)] assms(3)] by blast
  have "\<not> ?again ((adv_pre c ^^ k) cq)" using adv_iter(2) [where c = c and k = k and x = cq] k(3) by auto
  from round_robin_ok [where Inv = "scanning c cq" and sel = "pre_sel (queuingStructure c) c bs"
      and adv = "adv_pre c" and Q = "sends c bs cq" and again = ?again,
      OF scanning_refl [OF assms(2)] pre_sel_ok [OF assms(1)] adv_scanning(3) k(1,2) this]
  show ?thesis by (fastforce simp: pre_scan_def scan_result_def split: option.splits)
qed

lemma pre_scan_rank_ok:
  assumes "queuingStructure c = PerRank" "bs_ok c bs" "cq_core c cq"
  shows "\<exists>r y. pre_scan_rank c bs cq = Inr (r, y) \<and> scan_result c (sends c bs) cq r y"
  using pre_scan_ok [OF assms(2,3) core_pairs(3) [OF assms(3)]] assms(1) by (simp add: pre_scan_rank_def)

lemma pre_scan_bank_ok:
  assumes "queuingStructure c = PerRankPerBank" "bs_ok c bs" "cq_core c cq"
  shows "\<exists>r y. pre_scan_bank c bs cq = Inr (r, y) \<and> scan_result c (sends c bs) cq r y"
proof -
  have "pair_ok c (if nextRankPRE cq = 0 then 0 else 1, if nextBankPRE cq = 0 then 0 else 1)"
    using core_pairs(3) [OF assms(3)] by (auto simp: pair_ok_def)
  from pre_scan_ok [OF assms(2,3) this] assms(1) show ?thesis by (simp add: pre_scan_bank_def)
qed

section \<open>The window of four activations\<close>

definition window_ok :: "dram_config \<Rightarrow> nat list \<Rightarrow> bool" where
  "window_ok c xs \<longleftrightarrow> sorted_wrt (<) xs \<and> (\<forall>x \<in> set xs. 0 < x \<and> x \<le> tFAW c) \<and> length xs \<le> 4"

definition windows_ok :: "dram_config \<Rightarrow> nat list list \<Rightarrow> bool" where
  "windows_ok c t \<longleftrightarrow> (\<forall>r < NUM_RANKS c. window_ok c (t ! r))"

definition cq_inv :: "dram_config \<Rightarrow> cmd_queue \<Rightarrow> bool" where
  "cq_inv c cq \<longleftrightarrow> cq_core c cq \<and> windows_ok c (tFAWCountdown cq) \<and> 0 < tFAW c \<and> tFAW c < 2 ^ 32"

lemma cq_inv_init: "sizes_ok c \<Longrightarrow> 0 < tFAW c \<Longrightarrow> tFAW c < 2 ^ 32 \<Longrightarrow> cq_inv c (cq_init c)"
  using cq_core_init by (auto simp: cq_inv_def windows_ok_def window_ok_def cq_init_def)

text \<open>The counters one cycle later.\<close>

lemma tfaw_tick_eq:
  assumes "window_ok c xs" "tFAW c < 2 ^ 32"
  shows "tfaw_tick xs = map (\<lambda>x. x - 1) (List.filter (\<lambda>x. 1 < x) xs)"
proof (cases xs)
  case (Cons y ys)
  have "map u32_dec xs = map (\<lambda>x. x - 1) xs"
    using assms by (auto simp: window_ok_def u32_dec_pos le_less_trans)
  moreover have "List.filter (\<lambda>x. 1 < x) ys = ys" using assms(1) Cons
    by (auto simp: window_ok_def filter_id_conv)
  ultimately show ?thesis using Cons assms(1) by (auto simp: tfaw_tick_def window_ok_def)
qed (simp add: tfaw_tick_def)

lemma tfaw_tick_ok:
  assumes "window_ok c xs" "tFAW c < 2 ^ 32"
  shows "window_ok c (tfaw_tick xs) \<and> (\<forall>x \<in> set (tfaw_tick xs). x < tFAW c)"
proof -
  let ?f = "List.filter (\<lambda>x. 1 < x) xs"
  have s: "sorted_wrt (<) ?f" using assms(1) by (simp add: window_ok_def sorted_wrt_filter)
  have "sorted_wrt (<) (map (\<lambda>x. x - 1) ?f)"
    unfolding sorted_wrt_map by (rule sorted_wrt_mono_rel [OF _ s]) auto
  moreover have "length ?f \<le> 4"
    by (rule order_trans [OF length_filter_le]) (use assms(1) in \<open>simp add: window_ok_def\<close>)
  ultimately show ?thesis unfolding tfaw_tick_eq [OF assms] using assms(1)
    by (auto simp: window_ok_def)
qed

lemma pop_tfaw_ok:
  assumes "cq_inv c cq"
  shows "\<exists>t. pop_tfaw c cq = Inr (cq\<lparr>tFAWCountdown := t\<rparr>) \<and> length t = NUM_RANKS c
    \<and> (\<forall>r < NUM_RANKS c. t ! r = tfaw_tick (tFAWCountdown cq ! r))"
proof -
  let ?t0 = "tFAWCountdown cq" and ?f = "\<lambda>i t. rbind (at t i) (\<lambda>xs. Inr (t[i := tfaw_tick xs]))"
  have l: "length ?t0 = NUM_RANKS c" using assms by (simp add: cq_inv_def cq_core_def)
  have "n \<le> NUM_RANKS c \<Longrightarrow> \<exists>t. rfold ?f [0..<n] ?t0 = Inr t \<and> length t = NUM_RANKS c
      \<and> (\<forall>r < NUM_RANKS c. t ! r = (if r < n then tfaw_tick (?t0 ! r) else ?t0 ! r))" for n
  proof (induction n)
    case 0
    then show ?case using l by simp
  next
    case (Suc n)
    then obtain t where t: "rfold ?f [0..<n] ?t0 = Inr t" "length t = NUM_RANKS c"
      "\<forall>r < NUM_RANKS c. t ! r = (if r < n then tfaw_tick (?t0 ! r) else ?t0 ! r)" by auto
    have "?f n t = Inr (t[n := tfaw_tick (t ! n)])" using Suc.prems t(2) by simp
    then show ?case using t Suc.prems by (auto simp: rfold_append nth_list_update less_Suc_eq)
  qed
  from this [of "NUM_RANKS c"] show ?thesis by (auto simp: pop_tfaw_def)
qed

section \<open>pop\<close>

text \<open>The four bodies: a command is sent from the state after the book-keeping of the window.\<close>

definition pop_body ::
  "dram_config \<Rightarrow> bank_state list list \<Rightarrow> cmd_queue \<Rightarrow> (bus_packet option \<times> cmd_queue) result" where
  "pop_body c bs cq =
     (case queuingStructure c of
        PerRank \<Rightarrow>
          (case rowBufferPolicy c of ClosePage \<Rightarrow> pop_close_rank c bs cq | OpenPage \<Rightarrow> pop_open_rank c bs cq)
      | PerRankPerBank \<Rightarrow>
          (case rowBufferPolicy c of ClosePage \<Rightarrow> pop_close_bank c bs cq | OpenPage \<Rightarrow> pop_open_bank c bs cq))"

lemma scan_sends_sends: "scan_result c (scan_sends c bs) cq r y \<Longrightarrow> scan_result c (sends c bs) cq r y"
  by (auto simp: scan_result_def scan_sends_def split: option.splits)

lemma scan_then_scan:
  assumes "scan_result c (sends c bs) cq None y"
  shows "cq_core c y" "scan_result c (sends c bs) y r z \<Longrightarrow> scan_result c (sends c bs) cq r z"
  using assms ptr_eq_sends [of y cq] ptr_eq_trans [of z y cq]
  by (auto simp: scan_result_def scanning_def split: option.splits)

lemma pop_body_ok:
  assumes "bs_ok c bs" "cq_core c cq"
  shows "\<exists>r y. pop_body c bs cq = Inr (r, y) \<and> scan_result c (sends c bs) cq r y"
proof -
  note cr = close_refresh_ok [OF assms(2,1)] and opr = open_refresh_ok [OF assms(2,1)]
  show ?thesis
  proof (cases "queuingStructure c"; cases "rowBufferPolicy c")
    assume q: "queuingStructure c = PerRank" and p: "rowBufferPolicy c = OpenPage"
    obtain s where s: "open_refresh PerRank c bs cq = Inr s" "\<forall>p y. s = Some (p, y) \<longrightarrow> sends c bs cq p y"
      using opr q by auto
    obtain r y where r: "open_rank_scan c bs cq = Inr (r, y)" "scan_result c (sends c bs) cq r y"
      using open_rank_scan_ok [OF q p assms] scan_sends_sends by blast
    have "\<exists>r' z. pre_scan_rank c bs y = Inr (r', z) \<and> scan_result c (sends c bs) cq r' z" if "r = None"
      using pre_scan_rank_ok [OF q assms(1)] scan_then_scan r(2) that by blast
    then show ?thesis using s r q p
      by (cases s; cases r) (auto simp: pop_body_def pop_open_rank_def scan_result_def)
  next
    assume q: "queuingStructure c = PerRank" and p: "rowBufferPolicy c = ClosePage"
    obtain s where s: "close_refresh PerRank c bs cq = Inr s" "\<forall>p y. s = Some (p, y) \<longrightarrow> sends c bs cq p y"
      using cr q by auto
    obtain r y where r: "close_rank_scan c bs cq = Inr (r, y)" "scan_result c (sends c bs) cq r y"
      using close_rank_scan_ok [OF q assms] scan_sends_sends by blast
    show ?thesis using s r q p
      by (cases s) (auto simp: pop_body_def pop_close_rank_def scan_result_def)
  next
    assume q: "queuingStructure c = PerRankPerBank" and p: "rowBufferPolicy c = OpenPage"
    obtain s where s: "open_refresh PerRankPerBank c bs cq = Inr s"
      "\<forall>p y. s = Some (p, y) \<longrightarrow> sends c bs cq p y" using opr q by auto
    obtain r y where r: "open_bank_scan c bs cq = Inr (r, y)" "scan_result c (sends c bs) cq r y"
      using open_bank_scan_ok [OF q p assms] scan_sends_sends by blast
    have "\<exists>r' z. pre_scan_bank c bs y = Inr (r', z) \<and> scan_result c (sends c bs) cq r' z" if "r = None"
      using pre_scan_bank_ok [OF q assms(1)] scan_then_scan r(2) that by blast
    then show ?thesis using s r q p
      by (cases s; cases r) (auto simp: pop_body_def pop_open_bank_def scan_result_def)
  next
    assume q: "queuingStructure c = PerRankPerBank" and p: "rowBufferPolicy c = ClosePage"
    obtain s where s: "close_refresh PerRankPerBank c bs cq = Inr s"
      "\<forall>p y. s = Some (p, y) \<longrightarrow> sends c bs cq p y" using cr q by auto
    obtain r y where r: "close_bank_scan c bs cq = Inr (r, y)" "scan_result c (sends c bs) cq r y"
      using close_bank_scan_ok [OF q assms] scan_sends_sends by blast
    show ?thesis using s r q p
      by (cases s) (auto simp: pop_body_def pop_close_bank_def scan_result_def)
  qed
qed

text \<open>The state that the body of \<open>pop\<close> starts in.\<close>

definition ticked :: "cmd_queue \<Rightarrow> cmd_queue" where
  "ticked cq = cq\<lparr>tFAWCountdown := map tfaw_tick (tFAWCountdown cq)\<rparr>"

lemma pop_tfaw_ticked:
  assumes "cq_inv c cq"
  shows "pop_tfaw c cq = Inr (ticked cq)" "cq_core c (ticked cq)"
    and "r < NUM_RANKS c \<Longrightarrow> window_ok c (tFAWCountdown (ticked cq) ! r)
      \<and> (\<forall>x \<in> set (tFAWCountdown (ticked cq) ! r). x < tFAW c)"
proof -
  have l: "length (tFAWCountdown cq) = NUM_RANKS c" using assms by (simp add: cq_inv_def cq_core_def)
  obtain t where t: "pop_tfaw c cq = Inr (cq\<lparr>tFAWCountdown := t\<rparr>)" "length t = NUM_RANKS c"
    "\<forall>r < NUM_RANKS c. t ! r = tfaw_tick (tFAWCountdown cq ! r)" using pop_tfaw_ok [OF assms] by blast
  have "t = map tfaw_tick (tFAWCountdown cq)" using t(2,3) l by (intro nth_equalityI) auto
  then show "pop_tfaw c cq = Inr (ticked cq)" using t(1) by (simp add: ticked_def)
  show "cq_core c (ticked cq)" using assms by (simp add: cq_inv_def cq_core_def ticked_def)
  show "window_ok c (tFAWCountdown (ticked cq) ! r) \<and> (\<forall>x \<in> set (tFAWCountdown (ticked cq) ! r). x < tFAW c)"
    if "r < NUM_RANKS c"
    using that l assms tfaw_tick_ok [of c "tFAWCountdown cq ! r"]
    by (simp add: ticked_def cq_inv_def windows_ok_def)
qed

lemma window_push:
  assumes "window_ok c xs" "\<forall>x \<in> set xs. x < tFAW c" "length xs < 4" "0 < tFAW c"
  shows "window_ok c (xs @ [tFAW c])"
  using assms by (auto simp: window_ok_def sorted_wrt_append)

lemma legal_activate:
  assumes "legal c bs cq p" "busPacketType p = ACTIVATE"
  shows "length (tFAWCountdown cq ! rank p) < 4"
  using assms by (auto simp: legal_def isIssuable_def rbind_eq_Inr at_eq_Inr)

lemma pop_finish_ok:
  assumes "cq_inv c cq0" "sends c bs (ticked cq0) p cq"
  shows "\<exists>cq'. pop_finish c p cq = Inr cq' \<and> cq_inv c cq' \<and> queues cq' = queues cq
    \<and> cq_clock cq' = cq_clock cq0
    \<and> tFAWCountdown cq' = (if busPacketType p = ACTIVATE
         then (tFAWCountdown (ticked cq0))[rank p := tFAWCountdown (ticked cq0) ! rank p @ [tFAW c]]
         else tFAWCountdown (ticked cq0))"
proof -
  let ?t = "tFAWCountdown (ticked cq0)"
  define cq1 where "cq1 = (if AL c > 0 \<and> sendAct cq then cq\<lparr>sendAct := False\<rparr>
                 else adv_pair c (cq\<lparr>sendAct := True\<rparr>))"
  have s: "cq_core c cq" "rank p < NUM_RANKS c" "tFAWCountdown cq = ?t" "cq_clock cq = cq_clock cq0"
    "legal c bs (ticked cq0) p" using assms(2) by (auto simp: sends_def ticked_def)
  have w: "window_ok c (?t ! r) \<and> (\<forall>x \<in> set (?t ! r). x < tFAW c)" if "r < NUM_RANKS c" for r
    using pop_tfaw_ticked(3) [OF assms(1) that] .
  have f: "0 < tFAW c" "tFAW c < 2 ^ 32" using assms(1) by (auto simp: cq_inv_def)
  have "cq_core c (cq\<lparr>sendAct := True\<rparr>)" using s(1) by (simp add: cq_core_def)
  then have "cq_core c (adv_pair c (cq\<lparr>sendAct := True\<rparr>))"
    using adv_scanning(2) [OF scanning_refl] by (auto simp: scanning_def)
  then have c1: "cq_core c cq1" using s(1) by (simp add: cq1_def cq_core_def)
  have e1: "queues cq1 = queues cq" "tFAWCountdown cq1 = ?t" "cq_clock cq1 = cq_clock cq0"
    using s(3,4) by (auto simp: cq1_def adv_pair_def split: prod.splits)
  have l: "length ?t = NUM_RANKS c" using c1 e1 by (simp add: cq_core_def)
  show ?thesis
  proof (cases "busPacketType p = ACTIVATE")
    case False
    then show ?thesis using c1 e1 w f by (simp add: pop_finish_def cq1_def [symmetric] Let_def cq_inv_def windows_ok_def)
  next
    case True
    let ?t' = "?t[rank p := ?t ! rank p @ [tFAW c]]"
    have "window_ok c (?t ! rank p @ [tFAW c])"
      by (rule window_push) (use w [OF s(2)] legal_activate [OF s(5) True] f in auto)
    then have "windows_ok c ?t'" using w by (simp add: windows_ok_def nth_upd)
    moreover have "cq_core c (cq1\<lparr>tFAWCountdown := ?t'\<rparr>)" using c1 e1(2) by (simp add: cq_core_def)
    ultimately show ?thesis using True e1 f s(2) l
      by (simp add: pop_finish_def cq1_def [symmetric] Let_def cq_inv_def)
  qed
qed

lemma pop_finish_refresh:
  "pop_finish c p cq = Inr cq' \<Longrightarrow> refreshWaiting cq' = refreshWaiting cq \<and> refreshRank cq' = refreshRank cq"
  by (auto simp: pop_finish_def Let_def adv_pair_def rbind_eq_Inr split: prod.splits if_splits)

text \<open>
  \<open>pop\<close> always returns and keeps the invariant. When it sends a packet, the packet is legal in
  the state after the book-keeping of the window.
\<close>

definition pop_post :: "dram_config \<Rightarrow> bank_state list list \<Rightarrow> cmd_queue \<Rightarrow> bus_packet option \<Rightarrow> cmd_queue \<Rightarrow> bool" where
  "pop_post c bs cq r cq' \<longleftrightarrow>
     (case r of
        None \<Rightarrow> queues cq' = queues cq \<and> refreshWaiting cq' = refreshWaiting cq \<and> refreshRank cq' = refreshRank cq \<and>
          cq_packets cq' = cq_packets cq \<and> tFAWCountdown cq' = tFAWCountdown (ticked cq)
      | Some p \<Rightarrow>
          legal c bs (ticked cq) p \<and> rank p < NUM_RANKS c \<and> bank p < NUM_BANKS c \<and>
          busPacketType p \<noteq> DATA \<and>
          tFAWCountdown cq' = (if busPacketType p = ACTIVATE
            then (tFAWCountdown (ticked cq))[rank p := tFAWCountdown (ticked cq) ! rank p @ [tFAW c]]
            else tFAWCountdown (ticked cq)) \<and>
          refresh_after p cq cq' \<and>
          (\<exists>lost. takes c cq p cq' lost) \<and>
          (\<exists>drop. (\<forall>d \<in># drop. busPacketType d = ACTIVATE) \<and>
             (rowBufferPolicy c = ClosePage \<longrightarrow> drop = {#}) \<and>
             cq_packets cq + (if busPacketType p \<in> {REFRESH, PRECHARGE} then {#p#} else {#})
               = cq_packets cq' + {#p#} + drop))"

lemma cq_pop_ok:
  assumes "cq_inv c cq" "bs_ok c bs"
  shows "\<exists>r cq'. cq_pop c bs cq = Inr (r, cq') \<and> cq_inv c cq' \<and> cq_clock cq' = cq_clock cq
    \<and> pop_post c bs cq r cq'"
proof -
  note T = pop_tfaw_ticked [OF assms(1)]
  obtain r y where r: "pop_body c bs (ticked cq) = Inr (r, y)" "scan_result c (sends c bs) (ticked cq) r y"
    using pop_body_ok [OF assms(2) T(2)] by blast
  have pop: "cq_pop c bs cq = (case r of None \<Rightarrow> Inr (None, y)
      | Some p \<Rightarrow> rbind (pop_finish c p y) (\<lambda>cq''. Inr (Some p, cq'')))"
    using T(1) r(1) by (simp add: cq_pop_def pop_body_def)
  have pk: "queues (ticked cq) = queues cq" "cq_packets (ticked cq) = cq_packets cq"
    "cq_clock (ticked cq) = cq_clock cq" "refreshWaiting (ticked cq) = refreshWaiting cq"
    "refreshRank (ticked cq) = refreshRank cq"
    by (simp_all add: ticked_def cq_packets_def)
  show ?thesis
  proof (cases r)
    case None
    then have y: "cq_core c y" "ptr_eq y (ticked cq)" using r(2) by (auto simp: scan_result_def scanning_def)
    have "cq_inv c y" using assms(1) y T(3) by (simp add: cq_inv_def windows_ok_def ptr_eq_def)
    then show ?thesis using None pop y(2) pk
      by (simp add: pop_post_def ptr_eq_def cq_packets_def)
  next
    case (Some p)
    then have s: "sends c bs (ticked cq) p y" using r(2) by (simp add: scan_result_def)
    obtain z where z: "pop_finish c p y = Inr z" "cq_inv c z" "queues z = queues y" "cq_clock z = cq_clock cq"
      "tFAWCountdown z = (if busPacketType p = ACTIVATE
         then (tFAWCountdown (ticked cq))[rank p := tFAWCountdown (ticked cq) ! rank p @ [tFAW c]]
         else tFAWCountdown (ticked cq))" using pop_finish_ok [OF assms(1) s] by blast
    have "refresh_after p cq z" using pop_finish_refresh [OF z(1)] s pk(4,5)
      by (simp add: sends_def refresh_after_def)
    moreover obtain lost where "takes c (ticked cq) p y lost" and p: "rank p < NUM_RANKS c" "bank p < NUM_BANKS c"
      using s by (auto simp: sends_def)
    then have l: "takes c cq p z lost" unfolding takes_def z(3) pk(1) by blast
    have "queues_ok c (queues cq)" using assms(1) by (simp add: cq_inv_def cq_core_def)
    from takes_packets [OF l this p] takes_drop [OF l] calculation have "pop_post c bs cq (Some p) z"
      unfolding pop_post_def option.case using s z(5) l by (auto simp: sends_def)
    then show ?thesis using Some pop z by simp
  qed
qed

lemma enqueue_ok:
  assumes "cq_inv c cq" "rank p < NUM_RANKS c" "bank p < NUM_BANKS c"
    "busPacketType p \<notin> {DATA, REFRESH, PRECHARGE}" "cq_enqueue c p cq = Inr cq'"
  shows "cq_inv c cq' \<and> cq_packets cq' = add_mset p (cq_packets cq)
    \<and> cq_clock cq' = cq_clock cq \<and> tFAWCountdown cq' = tFAWCountdown cq"
proof -
  let ?i = "qidx (queuingStructure c) (bank p)"
  let ?q = "queues cq ! rank p ! ?i"
  have core: "cq_core c cq" and qs: "queues_ok c (queues cq)" using assms(1) by (auto simp: cq_inv_def cq_core_def)
  note q = queue_in [OF qs assms(2,3)]
  have e: "length (?q @ [p]) \<le> CMD_QUEUE_DEPTH c" "cq' = put_queue (rank p) ?i (?q @ [p]) cq"
    using assms(5) q(1) by (auto simp: cq_enqueue_def Let_def)
  have "pkt_ok c (rank p) ?i p" using assms(3,4)
    by (auto simp: pkt_ok_def qidx_def split: QueuingStructure.splits)
  then have "queue_ok c (rank p) ?i (?q @ [p])" using q(2) e(1) by (auto simp: queue_ok_def)
  then have "cq_core c cq'" using core queues_put by (auto simp: cq_core_def put_queue_def e(2))
  moreover have "cq_packets cq' + mset ?q = cq_packets cq + mset (?q @ [p])"
    unfolding e(2) by (rule packets_put [OF qs assms(2) qidx_less [OF assms(3)]])
  ultimately show ?thesis using assms(1) e(2) by (simp add: cq_inv_def put_queue_def)
qed

lemma pop_paired:
  assumes "cq_inv c cq" "pop_post c bs cq r cq'" "cq_paired c cq"
  shows "cq_paired c cq'"
proof (cases r)
  case None
  then show ?thesis using assms(2,3) by (simp add: pop_post_def cq_paired_def)
next
  case (Some p)
  then obtain lost where l: "takes c cq p cq' lost" and p: "rank p < NUM_RANKS c" "bank p < NUM_BANKS c"
    using assms(2) by (auto simp: pop_post_def)
  have "queues_ok c (queues cq)" using assms(1) by (simp add: cq_inv_def cq_core_def)
  from takes_paired [OF l assms(3) this p] show ?thesis by blast
qed

text \<open>The controller enqueues a pair.\<close>

lemma enqueue_pair:
  assumes "cq_paired c cq" "queues_ok c (queues cq)" "rank a < NUM_RANKS c" "bank a < NUM_BANKS c"
    "busPacketType a = ACTIVATE" "access_of a p"
    "cq_enqueue c a cq = Inr cq1" "cq_enqueue c p cq1 = Inr cq2"
  shows "cq_paired c cq2"
proof -
  let ?r = "rank a" and ?i = "qidx (queuingStructure c) (bank a)"
  let ?q = "queues cq ! rank a ! qidx (queuingStructure c) (bank a)"
  have i: "?i < numBankQueues c" by (rule qidx_less [OF assms(4)])
  have in_range: "r < length (queues cq)" "b < length (queues cq ! r)" if "r < NUM_RANKS c" "b < numBankQueues c" for r b
    using assms(2) that by (auto simp: queues_ok_def intro: less_le_trans)
  have q1: "queues cq1 = put2 ?r ?i (?q @ [a]) (queues cq)"
    using assms(7) in_range [OF assms(3) i] by (auto simp: cq_enqueue_def Let_def put_queue_def)
  have e: "rank p = ?r" "bank p = bank a" using assms(6) by (auto simp: access_of_def)
  have "queues cq2 = put2 ?r ?i ((?q @ [a]) @ [p]) (queues cq1)"
    using assms(8) in_range [OF assms(3) i] e q1
    by (auto simp: cq_enqueue_def Let_def put_queue_def put2_nth)
  moreover have "paired ((?q @ [a]) @ [p])"
    using assms(1,3) i by (intro paired_enqueue assms(5,6)) (auto simp: cq_paired_def)
  ultimately show ?thesis using assms(1) q1 in_range
    by (auto simp: cq_paired_def put2_nth)
qed

lemma hasRoomFor_value:
  assumes "cq_inv c cq" "r < NUM_RANKS c" "b < NUM_BANKS c" "CMD_QUEUE_DEPTH c < 2 ^ 32"
  shows "hasRoomFor c k r b cq = Inr (k \<le> CMD_QUEUE_DEPTH c - length (queues cq ! r ! qidx (queuingStructure c) b))"
proof -
  let ?q = "queues cq ! r ! qidx (queuingStructure c) b"
  have qs: "queues_ok c (queues cq)" using assms(1) by (auto simp: cq_inv_def cq_core_def)
  note q = queue_in [OF qs assms(2,3)]
  have l: "length ?q \<le> CMD_QUEUE_DEPTH c" using q(2) by (simp add: queue_ok_def)
  have "CMD_QUEUE_DEPTH c + (2 ^ 64 - length ?q) = (CMD_QUEUE_DEPTH c - length ?q) + 2 ^ 64"
    using l assms(4) by simp
  moreover have "CMD_QUEUE_DEPTH c - length ?q < 2 ^ 64" using assms(4) by simp
  ultimately have "(CMD_QUEUE_DEPTH c + (2 ^ 64 - length ?q)) mod 2 ^ 64 = CMD_QUEUE_DEPTH c - length ?q"
    by (simp only: mod_add_self2 mod_less)
  then show ?thesis using q(1) by (simp add: hasRoomFor_def)
qed

lemma hasRoom_enqueue:
  assumes "cq_inv c cq" "rank p < NUM_RANKS c" "bank p < NUM_BANKS c" "CMD_QUEUE_DEPTH c < 2 ^ 32"
    "hasRoomFor c k (rank p) (bank p) cq = Inr True" "0 < k"
  shows "\<exists>cq'. cq_enqueue c p cq = Inr cq'"
proof -
  have qs: "queues_ok c (queues cq)" using assms(1) by (auto simp: cq_inv_def cq_core_def)
  show ?thesis using queue_in(1) [OF qs assms(2,3)] hasRoomFor_value [OF assms(1-4), of k] assms(5,6)
    by (simp add: cq_enqueue_def Let_def)
qed

section \<open>Runs and the four-activate window\<close>

text \<open>
  A run of the command queue inside the memory controller. \<open>n\<close> counts the calls of \<open>pop\<close>,
  which are the cycles, and \<open>H r\<close> lists the cycles in which an activate was sent to rank \<open>r\<close>.
  The bank states are any states of the right size.
\<close>

inductive cq_run :: "dram_config \<Rightarrow> nat \<Rightarrow> (nat \<Rightarrow> nat list) \<Rightarrow> cmd_queue \<Rightarrow> bool" where
  start: "cq_run c 0 (\<lambda>_. []) (cq_init c)"
| enqueue: "cq_run c n H cq \<Longrightarrow> rank p < NUM_RANKS c \<Longrightarrow> bank p < NUM_BANKS c \<Longrightarrow>
    busPacketType p \<notin> {DATA, REFRESH, PRECHARGE} \<Longrightarrow> cq_enqueue c p cq = Inr cq' \<Longrightarrow> cq_run c n H cq'"
| refresh: "cq_run c n H cq \<Longrightarrow> r < NUM_RANKS c \<Longrightarrow> cq_run c n H (needRefresh r cq)"
| clock: "cq_run c n H cq \<Longrightarrow> cq_run c n H (cq\<lparr>cq_clock := cq_clock cq + 1\<rparr>)"
| pop_nothing: "cq_run c n H cq \<Longrightarrow> bs_ok c bs \<Longrightarrow> cq_pop c bs cq = Inr (None, cq') \<Longrightarrow>
    cq_run c (n + 1) H cq'"
| pop: "cq_run c n H cq \<Longrightarrow> bs_ok c bs \<Longrightarrow> cq_pop c bs cq = Inr (Some p, cq') \<Longrightarrow>
    cq_run c (n + 1) (if busPacketType p = ACTIVATE then H(rank p := H (rank p) @ [n + 1]) else H) cq'"

text \<open>The counters of a rank and the activates whose window is still open at cycle \<open>n\<close>.\<close>

definition counts :: "dram_config \<Rightarrow> nat \<Rightarrow> nat list \<Rightarrow> nat list \<Rightarrow> bool" where
  "counts c n acts xs \<longleftrightarrow>
     xs = map (\<lambda>t. t + tFAW c - n) (List.filter (\<lambda>t. n < t + tFAW c) acts) \<and> (\<forall>t \<in> set acts. t \<le> n)"

definition four_activates :: "dram_config \<Rightarrow> nat list \<Rightarrow> bool" where
  "four_activates c acts \<longleftrightarrow>
     (\<forall>t. length (List.filter (\<lambda>s. t < s \<and> s \<le> t + tFAW c) acts) \<le> 4)"

lemma counts_tick:
  assumes "counts c n acts xs" "window_ok c xs" "tFAW c < 2 ^ 32"
  shows "counts c (n + 1) acts (tfaw_tick xs)"
proof -
  have "List.filter (\<lambda>x. 1 < x) xs
      = map (\<lambda>t. t + tFAW c - n) (List.filter (\<lambda>t. n + 1 < t + tFAW c) acts)"
    using assms(1) by (auto simp: counts_def filter_map comp_def intro!: arg_cong [where f = "map _"] filter_cong)
  then have "tfaw_tick xs = map (\<lambda>t. t + tFAW c - (n + 1)) (List.filter (\<lambda>t. n + 1 < t + tFAW c) acts)"
    unfolding tfaw_tick_eq [OF assms(2,3)] by (simp add: comp_def)
  then show ?thesis using assms(1) by (auto simp: counts_def)
qed

lemma counts_push:
  assumes "counts c n acts xs" "0 < tFAW c"
  shows "counts c n (acts @ [n]) (xs @ [tFAW c])"
  using assms by (simp add: counts_def)

lemma four_push:
  assumes "four_activates c acts" "counts c n (acts @ [n]) xs" "length xs \<le> 4"
  shows "four_activates c (acts @ [n])"
  unfolding four_activates_def
proof
  fix t
  let ?w = "\<lambda>s. t < s \<and> s \<le> t + tFAW c"
  show "length (List.filter ?w (acts @ [n])) \<le> 4"
  proof (cases "?w n")
    case False
    then have "List.filter ?w (acts @ [n]) = List.filter ?w acts" by auto
    then show ?thesis using assms(1) by (simp only: four_activates_def)
  next
    case True
    have "length (List.filter ?w (acts @ [n])) \<le> length (List.filter (\<lambda>s. n < s + tFAW c) (acts @ [n]))"
    proof -
      have "List.filter ?w (acts @ [n]) = List.filter ?w (List.filter (\<lambda>s. n < s + tFAW c) (acts @ [n]))"
        using True by (auto intro!: filter_cong)
      then show ?thesis by (simp only: length_filter_le)
    qed
    also have "\<dots> = length xs" using assms(2) by (simp add: counts_def)
    finally show ?thesis using assms(3) by simp
  qed
qed

lemma cq_run_inv:
  assumes "cq_run c n H cq" "sizes_ok c" "0 < tFAW c" "tFAW c < 2 ^ 32"
  shows "cq_inv c cq \<and> (\<forall>r < NUM_RANKS c. counts c n (H r) (tFAWCountdown cq ! r) \<and> four_activates c (H r))"
  using assms
proof (induction rule: cq_run.induct)
  case (start c)
  then show ?case using cq_inv_init by (simp add: cq_init_def counts_def four_activates_def)
next
  case (enqueue c n H cq p cq')
  then show ?case using enqueue_ok [of c cq p cq'] by simp
next
  case (refresh c n H cq r)
  then show ?case by (simp add: needRefresh_def cq_inv_def cq_core_def)
next
  case (clock c n H cq)
  then show ?case by (simp add: cq_inv_def cq_core_def)
next
  case (pop_nothing c n H cq bs cq')
  then have inv: "cq_inv c cq" by simp
  have l: "length (tFAWCountdown cq) = NUM_RANKS c" using inv by (simp add: cq_inv_def cq_core_def)
  have w: "window_ok c (tFAWCountdown cq ! r)" if "r < NUM_RANKS c" for r
    using inv that by (simp add: cq_inv_def windows_ok_def)
  from cq_pop_ok [OF inv pop_nothing.hyps(2)] pop_nothing.hyps(3) have
    "cq_inv c cq'" "tFAWCountdown cq' = tFAWCountdown (ticked cq)" by (auto simp: pop_post_def)
  then show ?case using pop_nothing l w counts_tick by (simp add: ticked_def)
next
  case (pop c n H cq bs p cq')
  then have inv: "cq_inv c cq" by simp
  have l: "length (tFAWCountdown cq) = NUM_RANKS c" using inv by (simp add: cq_inv_def cq_core_def)
  have w: "window_ok c (tFAWCountdown cq ! r)" if "r < NUM_RANKS c" for r
    using inv that by (simp add: cq_inv_def windows_ok_def)
  from cq_pop_ok [OF inv pop.hyps(2)] pop.hyps(3) have
    inv': "cq_inv c cq'" and r: "rank p < NUM_RANKS c" and
    t: "tFAWCountdown cq' = (if busPacketType p = ACTIVATE
            then (tFAWCountdown (ticked cq))[rank p := tFAWCountdown (ticked cq) ! rank p @ [tFAW c]]
            else tFAWCountdown (ticked cq))" by (auto simp: pop_post_def)
  have ct: "counts c (n + 1) (H r) (tFAWCountdown (ticked cq) ! r)" if "r < NUM_RANKS c" for r
    using counts_tick [of c n "H r" "tFAWCountdown cq ! r"] pop that l w by (simp add: ticked_def)
  have lt: "length (tFAWCountdown (ticked cq)) = NUM_RANKS c" using l by (simp add: ticked_def)
  show ?case
  proof (cases "busPacketType p = ACTIVATE")
    case False
    then show ?thesis using inv' t ct pop by simp
  next
    case True
    have cp: "counts c (n + 1) (H (rank p) @ [n + 1]) (tFAWCountdown cq' ! rank p)"
      using counts_push [OF ct [OF r]] pop.prems(2) t True r lt by simp
    have "length (tFAWCountdown cq' ! rank p) \<le> 4"
      using inv' r by (simp add: cq_inv_def windows_ok_def window_ok_def)
    with cp have "four_activates c (H (rank p) @ [n + 1])" using four_push pop r by blast
    then show ?thesis using inv' cp ct pop t True lt r by (simp add: nth_upd)
  qed
qed

end
