(* ===== verification/BankAgreement.thy ===== *)
theory BankAgreement
  imports MemoryController CommandQueueSafety
begin

text \<open>
  The two views of a bank. The controller updates its bank states when it issues a command, the
  rank updates its own when the command arrives, a cycle later. \<open>agree\<close> relates the two states of a
  bank; the lemmas of this theory show that a command that the controller's state allows is allowed
  by the rank's state when it arrives, and that the states agree again afterwards.
\<close>

section \<open>One bank\<close>

text \<open>What an issued command does to the controller's state of bank \<open>j\<close> of rank \<open>i\<close>.\<close>

definition own :: "bus_packet \<Rightarrow> nat \<Rightarrow> nat \<Rightarrow> bool" where
  "own p i j \<longleftrightarrow> i = rank p \<and> j = bank p"

definition issue_bank :: "dram_config \<Rightarrow> nat \<Rightarrow> bus_packet \<Rightarrow> nat \<Rightarrow> nat \<Rightarrow> bank_state \<Rightarrow> bank_state" where
  "issue_bank c t p i j s =
     (case busPacketType p of
        READ \<Rightarrow> mc_after_read c t p i j (if own p i j then
          s\<lparr>nextPrecharge := max (t + READ_TO_PRE_DELAY c) (nextPrecharge s), lastCommand := READ\<rparr> else s)
      | READ_P \<Rightarrow> (if own p i j then block_column_access (mc_after_read c t p i j
          (s\<lparr>nextActivate := max (t + READ_AUTOPRE_DELAY c) (nextActivate s), lastCommand := READ_P,
             stateChangeCountdown := READ_TO_PRE_DELAY c\<rparr>)) else mc_after_read c t p i j s)
      | WRITE \<Rightarrow> mc_after_write c t p i j (if own p i j then
          s\<lparr>nextPrecharge := max (t + WRITE_TO_PRE_DELAY c) (nextPrecharge s), lastCommand := WRITE\<rparr> else s)
      | WRITE_P \<Rightarrow> (if own p i j then block_column_access (mc_after_write c t p i j
          (s\<lparr>nextActivate := max (t + WRITE_AUTOPRE_DELAY c) (nextActivate s), lastCommand := WRITE_P,
             stateChangeCountdown := WRITE_TO_PRE_DELAY c\<rparr>)) else mc_after_write c t p i j s)
      | ACTIVATE \<Rightarrow> (if own p i j then
          s\<lparr>currentBankState := RowActive, lastCommand := ACTIVATE, openRowAddress := row p,
            nextActivate := max (t + tRC c) (nextActivate s), nextPrecharge := max (t + tRAS c) (nextPrecharge s),
            nextRead := max (t + ACT_TO_CAS_DELAY c) (nextRead s),
            nextWrite := max (t + ACT_TO_CAS_DELAY c) (nextWrite s)\<rparr>
          else if i = rank p then s\<lparr>nextActivate := max (t + tRRD c) (nextActivate s)\<rparr> else s)
      | PRECHARGE \<Rightarrow> (if own p i j then
          s\<lparr>currentBankState := Precharging, lastCommand := PRECHARGE,
            stateChangeCountdown := tRP c, nextActivate := max (t + tRP c) (nextActivate s)\<rparr> else s)
      | REFRESH \<Rightarrow> (if i = rank p then
          s\<lparr>nextActivate := t + tRFC c, currentBankState := Refreshing, lastCommand := REFRESH,
            stateChangeCountdown := tRFC c\<rparr> else s)
      | DATA \<Rightarrow> s)"

lemma each_bank_nth [simp]:
  "i < NUM_RANKS c \<Longrightarrow> j < NUM_BANKS c \<Longrightarrow> each_bank c f bs ! i ! j = f i j (bs ! i ! j)"
  by (simp add: each_bank_def)

lemma each_bank_ok [simp]: "bs_ok c (each_bank c f bs)"
  by (simp add: bs_ok_def each_bank_def)

lemma the_bank_nth:
  "bs_ok c bs \<Longrightarrow> i < NUM_RANKS c \<Longrightarrow> j < NUM_BANKS c \<Longrightarrow>
     the_bank r b f bs ! i ! j = (if i = r \<and> j = b then f (bs ! i ! j) else bs ! i ! j)"
  by (auto simp: the_bank_def bs_ok_def put2_nth(1))

lemma the_bank_ok: "bs_ok c bs \<Longrightarrow> bs_ok c (the_bank r b f bs)"
  by (simp add: the_bank_def bs_ok_def)

lemma issue_banks_nth:
  assumes "bs_ok c bs" "busPacketType p \<noteq> DATA"
  obtains bs' where "issue_banks c t p bs = Some bs'" "bs_ok c bs'"
    "\<And>i j. i < NUM_RANKS c \<Longrightarrow> j < NUM_BANKS c \<Longrightarrow> bs' ! i ! j = issue_bank c t p i j (bs ! i ! j)"
proof -
  obtain bs' where e: "issue_banks c t p bs = Some bs'"
    using assms(2) by (cases "busPacketType p") (auto simp: issue_banks_def Let_def)
  then have "bs_ok c bs'" using assms(1)
    by (cases "busPacketType p") (auto simp: issue_banks_def Let_def the_bank_ok)
  moreover have "bs' ! i ! j = issue_bank c t p i j (bs ! i ! j)" if "i < NUM_RANKS c" "j < NUM_BANKS c" for i j
    using e that assms(1)
    by (cases "busPacketType p")
      (auto simp: issue_banks_def issue_bank_def own_def Let_def the_bank_nth [where c = c] the_bank_ok)
  ultimately show ?thesis using that e by blast
qed

text \<open>What a received command does to the rank's state of bank \<open>j\<close>, and when it is accepted.\<close>

definition recv_bank :: "dram_config \<Rightarrow> nat \<Rightarrow> bus_packet \<Rightarrow> nat \<Rightarrow> bank_state \<Rightarrow> bank_state" where
  "recv_bank c t p j s =
     (case busPacketType p of
        READ \<Rightarrow> after_read c t (if j = bank p then
          s\<lparr>nextPrecharge := max (nextPrecharge s) (t + READ_TO_PRE_DELAY c)\<rparr> else s)
      | READ_P \<Rightarrow> after_read c t (if j = bank p then
          s\<lparr>currentBankState := Idle, nextActivate := max (nextActivate s) (t + READ_AUTOPRE_DELAY c)\<rparr> else s)
      | WRITE \<Rightarrow> after_write c t (if j = bank p then
          s\<lparr>nextPrecharge := max (nextPrecharge s) (t + WRITE_TO_PRE_DELAY c)\<rparr> else s)
      | WRITE_P \<Rightarrow> (if j = bank p then after_write c t
          (s\<lparr>currentBankState := Idle, nextActivate := max (nextActivate s) (t + WRITE_TO_PRE_DELAY c)\<rparr>) else s)
      | ACTIVATE \<Rightarrow> (if j = bank p then
          s\<lparr>currentBankState := RowActive, nextActivate := t + tRC c, openRowAddress := row p,
            nextWrite := t + ACT_TO_CAS_DELAY c, nextRead := t + ACT_TO_CAS_DELAY c, nextPrecharge := t + tRAS c\<rparr>
          else s\<lparr>nextActivate := max (nextActivate s) (t + tRRD c)\<rparr>)
      | PRECHARGE \<Rightarrow> (if j = bank p then
          s\<lparr>currentBankState := Idle, nextActivate := max (nextActivate s) (t + tRP c)\<rparr> else s)
      | REFRESH \<Rightarrow> s\<lparr>nextActivate := t + tRFC c\<rparr>
      | DATA \<Rightarrow> s)"

definition recv_ok :: "nat \<Rightarrow> bus_packet \<Rightarrow> nat \<Rightarrow> bank_state \<Rightarrow> bool" where
  "recv_ok t p j s \<longleftrightarrow>
     (case busPacketType p of
        REFRESH \<Rightarrow> currentBankState s = Idle
      | ACTIVATE \<Rightarrow> j = bank p \<longrightarrow> currentBankState s = Idle \<and> nextActivate s \<le> t
      | PRECHARGE \<Rightarrow> j = bank p \<longrightarrow> currentBankState s = RowActive \<and> nextPrecharge s \<le> t
      | READ \<Rightarrow> j = bank p \<longrightarrow> currentBankState s = RowActive \<and> nextRead s \<le> t \<and> row p = openRowAddress s
      | READ_P \<Rightarrow> j = bank p \<longrightarrow> currentBankState s = RowActive \<and> nextRead s \<le> t \<and> row p = openRowAddress s
      | WRITE \<Rightarrow> j = bank p \<longrightarrow> currentBankState s = RowActive \<and> nextWrite s \<le> t \<and> row p = openRowAddress s
      | WRITE_P \<Rightarrow> j = bank p \<longrightarrow> currentBankState s = RowActive \<and> nextWrite s \<le> t \<and> row p = openRowAddress s
      | DATA \<Rightarrow> True)"

lemma after_write_twice: "after_write c t (after_write c t s) = after_write c t s"
  by (simp add: after_write_def)

lemma after_write_idem: "(after_write c t ^^ Suc n) s = after_write c t s"
  by (induction n) (simp_all add: after_write_twice)

lemma map_upt_update:
  "length xs = n \<Longrightarrow> xs[b := f (xs ! b)] = map (\<lambda>j. if j = b then f (xs ! j) else xs ! j) [0..<n]"
  by (intro nth_equalityI) (auto simp: nth_upd)

lemma rank_receive_banks:
  assumes "length (bankStates r) = NUM_BANKS c" "NO_STORAGE c" "bank p < NUM_BANKS c"
    "\<And>j. j < NUM_BANKS c \<Longrightarrow> recv_ok (rk_clock r) p j (bankStates r ! j)"
  shows "\<exists>r'. rank_receive c p r = Inr r'
    \<and> bankStates r' = map (\<lambda>j. recv_bank c (rk_clock r) p j (bankStates r ! j)) [0..<NUM_BANKS c]"
proof -
  note own = assms(4) [OF assms(3)]
  obtain n where n: "NUM_BANKS c = Suc n" using assms(3) by (cases "NUM_BANKS c") auto
  show ?thesis
  proof (cases "busPacketType p")
    case READ
    then show ?thesis using assms(1-3) own
      by (auto simp: rank_receive_def rank_READ_def read_allowed_def recv_ok_def for_banks_pure read_data_def
          on_bank_def recv_bank_def nth_upd intro!: map_cong)
  next
    case READ_P
    then show ?thesis using assms(1-3) own
      by (auto simp: rank_receive_def rank_READ_P_def read_allowed_def recv_ok_def for_banks_pure read_data_def
          on_bank_def recv_bank_def nth_upd intro!: map_cong)
  next
    case WRITE
    then show ?thesis using assms(1-3) own
      by (auto simp: rank_receive_def rank_WRITE_def write_allowed_def recv_ok_def for_banks_pure note_write_def
          on_bank_def recv_bank_def nth_upd intro!: map_cong)
  next
    case WRITE_P
    let ?f = "\<lambda>s. s\<lparr>currentBankState := Idle, nextActivate := max (nextActivate s) (rk_clock r + WRITE_TO_PRE_DELAY c)\<rparr>"
    have w: "(after_write c (rk_clock r) ^^ NUM_BANKS c) x = after_write c (rk_clock r) x" for x
      unfolding n by (rule after_write_idem)
    have "rank_receive c p r = Inr (note_write p (fold (\<lambda>i. on_bank (bank p) (after_write c (rk_clock r))) [0..<NUM_BANKS c]
        (on_bank (bank p) ?f r)))"
      using WRITE_P assms(1,3) own by (simp add: rank_receive_def rank_WRITE_P_def write_allowed_def recv_ok_def)
    moreover have "bankStates (fold (\<lambda>i. on_bank (bank p) (after_write c (rk_clock r))) [0..<NUM_BANKS c] (on_bank (bank p) ?f r))
        = (bankStates r)[bank p := after_write c (rk_clock r) (?f (bankStates r ! bank p))]"
      using assms(1,3) by (subst fold_on_bank) (simp_all add: w, simp add: on_bank_def)
    ultimately show ?thesis
      using WRITE_P map_upt_update [OF assms(1), of "bank p" "\<lambda>s. after_write c (rk_clock r) (?f s)"]
      by (simp add: note_write_def recv_bank_def)
  next
    case ACTIVATE
    then show ?thesis using assms(1-3) own
      by (auto simp: rank_receive_def rank_ACTIVATE_def recv_ok_def for_banks_pure Let_def
          on_bank_def recv_bank_def nth_upd intro!: map_cong)
  next
    case PRECHARGE
    let ?f = "\<lambda>s. s\<lparr>currentBankState := Idle, nextActivate := max (nextActivate s) (rk_clock r + tRP c)\<rparr>"
    show ?thesis using PRECHARGE assms(1-3) own map_upt_update [OF assms(1), of "bank p" ?f]
      by (simp add: rank_receive_def rank_PRECHARGE_def recv_ok_def on_bank_def recv_bank_def)
  next
    case REFRESH
    then have "currentBankState (bankStates r ! j) = Idle" if "j < NUM_BANKS c" for j
      using assms(4) [OF that] by (simp add: recv_ok_def)
    then have "rank_receive c p r = Inr (r\<lparr>rk_refreshWaiting := False, bankStates :=
        map (\<lambda>j. (bankStates r ! j)\<lparr>nextActivate := rk_clock r + tRFC c\<rparr>) [0..<NUM_BANKS c]\<rparr>)"
      using REFRESH assms(1) by (simp add: rank_receive_def rank_REFRESH_def) (subst for_banks_cases(1), auto)
    then show ?thesis using REFRESH by (auto simp: recv_bank_def)
  next
    case DATA
    then show ?thesis using assms(1,2) map_nth [of "bankStates r"]
      by (simp add: rank_receive_def rank_DATA_def recv_bank_def)
  qed
qed

text \<open>The parts of a rank that its banks do not determine.\<close>

lemma rank_receive_frame:
  assumes "rank_receive c p r = Inr r'" "length (bankStates r) = NUM_BANKS c" "NO_STORAGE c"
  shows "rk_clock r' = rk_clock r" "isPowerDown r' = isPowerDown r" "outgoingDataPacket r' = outgoingDataPacket r"
    "dataCyclesLeft r' = dataCyclesLeft r"
    "rk_refreshWaiting r' = (busPacketType p \<noteq> REFRESH \<and> rk_refreshWaiting r)"
    "readReturnPacket r' = readReturnPacket r @ (if is_read p then [p\<lparr>busPacketType := DATA\<rparr>] else [])"
    "readReturnCountdown r' = readReturnCountdown r @ (if is_read p then [RL c] else [])"
    "length (bankStates r') = length (bankStates r)"
proof -
  have "rk_clock r' = rk_clock r \<and> isPowerDown r' = isPowerDown r \<and> outgoingDataPacket r' = outgoingDataPacket r \<and>
    dataCyclesLeft r' = dataCyclesLeft r \<and>
    rk_refreshWaiting r' = (busPacketType p \<noteq> REFRESH \<and> rk_refreshWaiting r) \<and>
    readReturnPacket r' = readReturnPacket r @ (if is_read p then [p\<lparr>busPacketType := DATA\<rparr>] else []) \<and>
    readReturnCountdown r' = readReturnCountdown r @ (if is_read p then [RL c] else []) \<and>
    length (bankStates r') = length (bankStates r)"
  proof (cases "busPacketType p")
    case READ
    then show ?thesis using assms
      by (auto simp: rank_receive_def rank_READ_def rbind_eq_Inr for_banks_pure read_data_def on_bank_def is_read_def)
  next
    case READ_P
    then show ?thesis using assms
      by (auto simp: rank_receive_def rank_READ_P_def rbind_eq_Inr for_banks_pure read_data_def on_bank_def is_read_def)
  next
    case WRITE
    then show ?thesis using assms
      by (auto simp: rank_receive_def rank_WRITE_def rbind_eq_Inr for_banks_pure note_write_def on_bank_def is_read_def)
  next
    case WRITE_P
    then show ?thesis using assms
      by (auto simp: rank_receive_def rank_WRITE_P_def rbind_eq_Inr note_write_def is_read_def fold_on_bank Let_def at_eq_Inr on_bank_def)
  next
    case ACTIVATE
    then show ?thesis using assms
      by (auto simp: rank_receive_def rank_ACTIVATE_def rbind_eq_Inr for_banks_pure Let_def on_bank_def is_read_def)
  next
    case PRECHARGE
    then show ?thesis using assms
      by (auto simp: rank_receive_def rank_PRECHARGE_def rbind_eq_Inr on_bank_def is_read_def)
  next
    case REFRESH
    then show ?thesis using assms for_banks_check [of "r\<lparr>rk_refreshWaiting := False\<rparr>" c]
      by (fastforce simp: rank_receive_def rank_REFRESH_def is_read_def)
  next
    case DATA
    then show ?thesis using assms by (auto simp: rank_receive_def rank_DATA_def is_read_def)
  qed
  then show "rk_clock r' = rk_clock r" "isPowerDown r' = isPowerDown r" "outgoingDataPacket r' = outgoingDataPacket r"
    "dataCyclesLeft r' = dataCyclesLeft r"
    "rk_refreshWaiting r' = (busPacketType p \<noteq> REFRESH \<and> rk_refreshWaiting r)"
    "readReturnPacket r' = readReturnPacket r @ (if is_read p then [p\<lparr>busPacketType := DATA\<rparr>] else [])"
    "readReturnCountdown r' = readReturnCountdown r @ (if is_read p then [RL c] else [])"
    "length (bankStates r') = length (bankStates r)" by blast+
qed

section \<open>Agreement\<close>

text \<open>After a column access with automatic precharge the rank closes the bank at once, the controller when
  its countdown ends; until then its times keep column accesses away.\<close>

definition closing :: "dram_config \<Rightarrow> nat \<Rightarrow> bank_state \<Rightarrow> bool" where
  "closing c t m \<longleftrightarrow> rowBufferPolicy c = ClosePage \<and> (lastCommand m = READ_P \<or> lastCommand m = WRITE_P) \<and>
     0 < stateChangeCountdown m \<and> t + stateChangeCountdown m \<le> nextRead m + 1 \<and>
     t + stateChangeCountdown m \<le> nextWrite m + 1"

text \<open>\<open>agree c t m r\<close> at the beginning of cycle \<open>t\<close>.\<close>

definition agree :: "dram_config \<Rightarrow> nat \<Rightarrow> bank_state \<Rightarrow> bank_state \<Rightarrow> bool" where
  "agree c t m r \<longleftrightarrow>
     (currentBankState r = RowActive \<or> currentBankState r = Idle \<or> currentBankState r = PowerDown) \<and>
     (currentBankState r = RowActive \<longrightarrow> currentBankState m = RowActive \<and> openRowAddress r = openRowAddress m \<and>
        nextRead r \<le> nextRead m + 1 \<and> nextWrite r \<le> nextWrite m + 1 \<and> nextPrecharge r \<le> nextPrecharge m + 1 \<and>
        (lastCommand m = ACTIVATE \<or> lastCommand m = READ \<or> lastCommand m = WRITE)) \<and>
     (currentBankState m = RowActive \<longrightarrow> currentBankState r = RowActive \<or> currentBankState r = Idle \<and> closing c t m) \<and>
     (currentBankState m = PowerDown \<longleftrightarrow> currentBankState r = PowerDown) \<and>
     (currentBankState m = Idle \<or> currentBankState m = PowerDown \<longrightarrow> stateChangeCountdown m = 0) \<and>
     nextActivate r \<le> nextActivate m + 1 \<and>
     (currentBankState m = PowerDown \<longrightarrow> nextPowerUp r = nextPowerUp m)"

lemma agree_init: "agree c t BankState BankState"
  by (simp add: agree_def BankState_def)

lemma agree_tick: "agree c t m r \<Longrightarrow> agree c (t + 1) (tick_bank c m) r"
  by (cases "currentBankState m"; cases "currentBankState r"; cases "lastCommand m")
    (auto simp: agree_def tick_bank_def closing_def Let_def)

text \<open>A command that the controller may send to the rank of the bank.\<close>

definition may_issue :: "dram_config \<Rightarrow> nat \<Rightarrow> bus_packet \<Rightarrow> nat \<Rightarrow> bank_state \<Rightarrow> bool" where
  "may_issue c t p j m \<longleftrightarrow>
     (case busPacketType p of
        REFRESH \<Rightarrow> currentBankState m \<noteq> RowActive \<and> currentBankState m \<noteq> PowerDown
      | ACTIVATE \<Rightarrow> j = bank p \<longrightarrow> (currentBankState m = Idle \<or> currentBankState m = Refreshing) \<and> nextActivate m \<le> t
      | PRECHARGE \<Rightarrow> rowBufferPolicy c = OpenPage \<and>
          (j = bank p \<longrightarrow> currentBankState m = RowActive \<and> nextPrecharge m \<le> t)
      | READ \<Rightarrow> rowBufferPolicy c = OpenPage \<and>
          (j = bank p \<longrightarrow> currentBankState m = RowActive \<and> nextRead m \<le> t \<and> row p = openRowAddress m)
      | READ_P \<Rightarrow> rowBufferPolicy c = ClosePage \<and>
          (j = bank p \<longrightarrow> currentBankState m = RowActive \<and> nextRead m \<le> t \<and> row p = openRowAddress m)
      | WRITE \<Rightarrow> rowBufferPolicy c = OpenPage \<and>
          (j = bank p \<longrightarrow> currentBankState m = RowActive \<and> nextWrite m \<le> t \<and> row p = openRowAddress m)
      | WRITE_P \<Rightarrow> rowBufferPolicy c = ClosePage \<and>
          (j = bank p \<longrightarrow> currentBankState m = RowActive \<and> nextWrite m \<le> t \<and> row p = openRowAddress m)
      | DATA \<Rightarrow> False)"

text \<open>What the latencies have to satisfy: the countdown of an automatic precharge is positive and ends
  before the next activate is allowed.\<close>

definition latencies_ok :: "dram_config \<Rightarrow> bool" where
  "latencies_ok c \<longleftrightarrow>
     0 < READ_TO_PRE_DELAY c \<and> READ_TO_PRE_DELAY c \<le> READ_AUTOPRE_DELAY c \<and>
     0 < WRITE_TO_PRE_DELAY c \<and> WRITE_TO_PRE_DELAY c \<le> WRITE_AUTOPRE_DELAY c"

lemma issue_accepted:
  assumes "agree c (t + 1) m r" "may_issue c t p j m"
  shows "recv_ok (t + 1) p j r"
  using assms by (cases "busPacketType p"; cases "currentBankState m"; cases "currentBankState r"; cases "j = bank p")
    (auto simp: agree_def may_issue_def recv_ok_def closing_def)

lemmas issue_simps = issue_bank_def recv_bank_def own_def mc_after_read_def mc_after_write_def
  after_read_def after_write_def block_column_access_def

lemma issue_agree:
  assumes "agree c (t + 1) m r" "may_issue c t p j m" "latencies_ok c" "i = rank p"
  shows "agree c (t + 1) (issue_bank c t p i j m) (recv_bank c (t + 1) p j r)"
proof (cases "busPacketType p")
  case READ
  then show ?thesis using assms
    by (cases "currentBankState m"; cases "currentBankState r"; cases "j = bank p")
      (auto simp: agree_def may_issue_def issue_simps closing_def le_max_iff_disj)
next
  case READ_P
  then show ?thesis using assms
    by (cases "currentBankState m"; cases "currentBankState r"; cases "j = bank p")
      (auto simp: agree_def may_issue_def issue_simps closing_def latencies_ok_def le_max_iff_disj)
next
  case WRITE
  then show ?thesis using assms
    by (cases "currentBankState m"; cases "currentBankState r"; cases "j = bank p")
      (auto simp: agree_def may_issue_def issue_simps closing_def le_max_iff_disj)
next
  case WRITE_P
  then show ?thesis using assms
    by (cases "currentBankState m"; cases "currentBankState r"; cases "j = bank p")
      (auto simp: agree_def may_issue_def issue_simps closing_def latencies_ok_def le_max_iff_disj)
next
  case ACTIVATE
  then show ?thesis using assms
    by (cases "currentBankState m"; cases "currentBankState r"; cases "j = bank p")
      (auto simp: agree_def may_issue_def issue_simps closing_def le_max_iff_disj)
next
  case PRECHARGE
  then show ?thesis using assms
    by (cases "currentBankState m"; cases "currentBankState r"; cases "j = bank p")
      (auto simp: agree_def may_issue_def issue_simps closing_def le_max_iff_disj)
next
  case REFRESH
  then show ?thesis using assms
    by (cases "currentBankState m"; cases "currentBankState r") (auto simp: agree_def may_issue_def issue_simps)
next
  case DATA
  then show ?thesis using assms by (auto simp: may_issue_def)
qed

text \<open>A command for another rank only delays this one.\<close>

lemma issue_other_agree:
  assumes "agree c t m r" "i \<noteq> rank p"
  shows "agree c t (issue_bank c u p i j m) r"
  using assms
  by (cases "busPacketType p"; cases "currentBankState m"; cases "currentBankState r")
    (auto simp: agree_def issue_simps closing_def le_max_iff_disj)

end
