(* ===== verification/ClosedPage.thy ===== *)
theory ClosedPage imports CommandQueueSafety
begin

text \<open>
  With the closed-page policy every row is closed by the automatic precharge of its column access: \<open>pop\<close>
  never sends a precharge of its own.
\<close>

section \<open>Closed pages need no precharge command\<close>

lemma queue_no_precharge:
  assumes "queues_ok c (queues cq)" "at2 (queues cq) r b = Inr q" "b < numBankQueues c" "p \<in> set q"
  shows "busPacketType p \<noteq> PRECHARGE"
proof -
  have "r < NUM_RANKS c" "q = queues cq ! r ! b"
    using assms(1,2) by (auto simp: at2_def rbind_eq_Inr at_eq_Inr queues_ok_def)
  then have "queue_ok c r b q" using assms(1,3) by (simp add: queues_ok_def)
  then show ?thesis using assms(4) by (auto simp: queue_ok_def pkt_ok_def)
qed

lemma round_robin_sent:
  assumes "round_robin n sel adv again cq = Inr (Some p, cq')" "P cq"
    and "\<And>x. P x \<Longrightarrow> P (adv x)" and "\<And>x y. P x \<Longrightarrow> sel x = Inr (Some (p, y)) \<Longrightarrow> Q"
  shows Q
  using assms(1,2)
proof (induction n arbitrary: cq)
  case (Suc n)
  from Suc.prems(1) obtain r where r: "sel cq = Inr r" by (auto simp: rbind_eq_Inr)
  show ?case
  proof (cases r)
    case None
    then show ?thesis using Suc r assms(3) by (auto simp: Let_def split: if_splits)
  next
    case (Some x)
    then show ?thesis using Suc.prems r assms(4) [of cq] by (cases x) auto
  qed
qed simp

lemma close_banks_no_precharge:
  assumes "cq_core c cq" "refreshRank cq < NUM_RANKS c" "\<forall>i \<in> set is. i < NUM_BANKS c"
    "close_banks (queuingStructure c) c bs cq is = Inr (f, Some (p, cq'))"
  shows "busPacketType p \<noteq> PRECHARGE"
  using assms(3,4)
proof (induction "is")
  case (Cons i js)
  have qs: "queues_ok c (queues cq)" using assms(1) by (simp add: cq_core_def)
  have i: "i < NUM_BANKS c" using Cons.prems(1) by simp
  note q = queue_in(1) [OF qs assms(2) i]
  show ?case using Cons q queue_no_precharge [OF qs q qidx_less [OF i]]
    by (auto simp: rbind_eq_Inr split: if_splits option.splits dest!: find_index_Some)
qed simp

lemma close_search_in:
  "close_search c bs x q is = Inr (Some i) \<Longrightarrow> \<forall>j \<in> set is. j < length q \<Longrightarrow> i < length q"
  by (induction "is") (auto simp: rbind_eq_Inr split: if_splits)

lemma close_page_no_precharge:
  assumes "cq_inv c cq" "bs_ok c bs" "rowBufferPolicy c = ClosePage" "cq_pop c bs cq = Inr (Some p, cq')"
  shows "busPacketType p \<noteq> PRECHARGE"
proof -
  note T = pop_tfaw_ticked [OF assms(1)]
  let ?x = "ticked cq"
  have refresh: "busPacketType p \<noteq> PRECHARGE"
    if "close_refresh (queuingStructure c) c bs ?x = Inr (Some (p, y))" for y
  proof -
    have w: "refreshWaiting ?x" using that by (auto simp: close_refresh_def split: if_splits)
    then have "refreshRank ?x < NUM_RANKS c" using T(2) by (simp add: cq_core_def)
    then show ?thesis using that w close_banks_no_precharge [OF T(2), of "[0..<NUM_BANKS c]"]
      by (auto simp: close_refresh_def rbind_eq_Inr send_refresh_def split: if_splits)
  qed
  have scan: "busPacketType p \<noteq> PRECHARGE"
    if "close_rank_scan c bs ?x = Inr (Some p, y) \<and> queuingStructure c = PerRank
      \<or> close_bank_scan c bs ?x = Inr (Some p, y) \<and> queuingStructure c = PerRankPerBank" for y
    using that
  proof
    assume "close_rank_scan c bs ?x = Inr (Some p, y) \<and> queuingStructure c = PerRank"
    then show ?thesis unfolding close_rank_scan_def Let_def
    proof (elim conjE, elim round_robin_sent [where P = "scanning c ?x"])
      show "scanning c ?x ?x" using T(2) by (rule scanning_refl)
      fix z y assume z: "scanning c ?x z" "close_rank_sel c bs z = Inr (Some (p, y))" and s: "queuingStructure c = PerRank"
      obtain q i where "at2 (queues z) (nextRank z) 0 = Inr q" "close_search c bs z q [0..<length q] = Inr (Some i)" "p = q ! i"
        using z(2) by (auto simp: close_rank_sel_def rbind_eq_Inr split: if_splits)
      then show ?thesis using queue_no_precharge [of c z "nextRank z" 0 q p] close_search_in [of c bs z q _ i] z(1) s
        by (auto simp: scanning_def cq_core_def numBankQueues_def)
    qed (rule adv_scanning)
  next
    assume "close_bank_scan c bs ?x = Inr (Some p, y) \<and> queuingStructure c = PerRankPerBank"
    then show ?thesis unfolding close_bank_scan_def Let_def
    proof (elim conjE, elim round_robin_sent [where P = "scanning c ?x"])
      show "scanning c ?x ?x" using T(2) by (rule scanning_refl)
      fix z y assume z: "scanning c ?x z" "close_bank_sel c bs z = Inr (Some (p, y))" and s: "queuingStructure c = PerRankPerBank"
      obtain q where "at2 (queues z) (nextRank z) (nextBank z) = Inr q" "q \<noteq> []" "p = q ! 0"
        using z(2) by (auto simp: close_bank_sel_def rbind_eq_Inr split: if_splits)
      then show ?thesis using queue_no_precharge [of c z "nextRank z" "nextBank z" q p] z(1) s
        by (auto simp: scanning_def cq_core_def numBankQueues_def pair_ok_def)
    qed (rule adv_scanning)
  qed
  show ?thesis
  proof (cases "queuingStructure c")
    case PerRank
    then show ?thesis using assms(3,4) T(1) refresh scan
      by (auto simp: cq_pop_def pop_close_rank_def rbind_eq_Inr split: option.splits)
  next
    case PerRankPerBank
    then show ?thesis using assms(3,4) T(1) refresh scan
      by (auto simp: cq_pop_def pop_close_bank_def rbind_eq_Inr split: option.splits)
  qed
qed

end
