(* ===== verification/MemorySafety.thy ===== *)
theory MemorySafety
  imports BankAgreement ClosedPage
begin

text \<open>
  The memory system never stops with an error: the invariant of the controller, the command queue,
  the ranks and the two buses, which every part of \<open>update\<close> preserves. The parts are taken in the
  order of the code.
\<close>

section \<open>The configuration\<close>

text \<open>
  The latencies fit into 32 bits and are consistent; a command takes one cycle on its bus; the data
  are not stored (as the simulator is built); sizes are powers of two where an address selects
  them.
\<close>

definition system_ok :: "dram_config \<Rightarrow> bool" where
  "system_ok c \<longleftrightarrow>
     sizes_ok c \<and> NUM_RANKS c * NUM_BANKS c < 2 ^ 32 \<and> 0 < tFAW c \<and> tFAW c < 2 ^ 32 \<and>
     widths_ok c \<and> pow2 (NUM_RANKS c) \<and> pow2 (NUM_BANKS c) \<and> CMD_QUEUE_DEPTH c < 2 ^ 32 \<and>
     NO_STORAGE c \<and> EPOCH_COUNT c \<noteq> 0 \<and> tCMD c = 1 \<and> latencies_ok c \<and>
     0 < BL c div 2 \<and> BL c < 2 ^ 32 \<and> 0 < WL c \<and>
     BL c div 2 \<le> CAS_TO_CAS_DELAY c \<and> CAS_TO_CAS_DELAY c \<le> ACT_TO_CAS_DELAY c \<and>
     NUM_ROWS c \<noteq> 0 \<and> NUM_COLS c \<noteq> 0 \<and> DEVICE_WIDTH c \<noteq> 0"

section \<open>Distances of the writes\<close>

text \<open>\<open>D\<close> holds, for each write whose data are not through, the cycle of its command plus \<open>WL + 1\<close>.
  An open bank does not allow a write before the data of the earlier ones are off the bus.\<close>

definition gap :: "dram_config \<Rightarrow> int list \<Rightarrow> bank_state \<Rightarrow> bank_state \<Rightarrow> bool" where
  "gap c D m r \<longleftrightarrow> (currentBankState r = RowActive \<longrightarrow>
     (\<forall>x \<in> set D. x + int (BL c div 2) \<le> int (nextWrite m + WL c + 1)))"

definition new_write :: "dram_config \<Rightarrow> nat \<Rightarrow> bus_packet \<Rightarrow> int list" where
  "new_write c t p = (if is_write p then [int (t + WL c + 1)] else [])"

lemma gap_tick: "gap c D m r \<Longrightarrow> gap c D (tick_bank c m) r"
  by (auto simp: gap_def tick_bank_def Let_def)

lemma gap_subset: "gap c D m r \<Longrightarrow> set E \<subseteq> set D \<Longrightarrow> gap c E m r"
  by (auto simp: gap_def)

lemma gap_new:
  assumes "gap c D m r" "agree c (t + 1) m r" "may_issue c t p (bank p) m" "is_write p" "x \<in> set D"
  shows "x + int (BL c div 2) \<le> int (t + WL c + 1)"
proof -
  have "currentBankState r = RowActive \<and> nextWrite m \<le> t"
    using assms(2-4)
    by (cases "busPacketType p"; cases "currentBankState r") (auto simp: agree_def may_issue_def is_write_def closing_def)
  then show ?thesis using assms(1,5) by (auto simp: gap_def)
qed

lemma gap_issue:
  assumes "gap c D m r" "agree c (t + 1) m r" "may_issue c t p j m" "\<forall>x \<in> set D. x \<le> int (t + WL c)"
    "BL c div 2 \<le> CAS_TO_CAS_DELAY c" "CAS_TO_CAS_DELAY c \<le> ACT_TO_CAS_DELAY c"
  shows "gap c (D @ new_write c t p) (issue_bank c t p (rank p) j m) (recv_bank c (t + 1) p j r)"
proof (cases "currentBankState (recv_bank c (t + 1) p j r) = RowActive")
  case True
  have later: "nextWrite (issue_bank c t p (rank p) j m) \<ge> nextWrite m" if "currentBankState r = RowActive"
    using that True assms(2,3)
    by (cases "busPacketType p"; cases "j = bank p") (auto simp: issue_simps may_issue_def agree_def)
  have fresh: "nextWrite (issue_bank c t p (rank p) j m) \<ge> t + ACT_TO_CAS_DELAY c" if "currentBankState r \<noteq> RowActive"
    using that True assms(3) by (cases "busPacketType p"; cases "j = bank p") (auto simp: issue_simps may_issue_def split: if_splits)
  have wr: "nextWrite (issue_bank c t p (rank p) j m) \<ge> t + CAS_TO_CAS_DELAY c" if "is_write p"
    using that True assms(3) by (cases "busPacketType p"; cases "j = bank p")
      (auto simp: issue_simps may_issue_def is_write_def)
  have "x + int (BL c div 2) \<le> int (nextWrite (issue_bank c t p (rank p) j m) + WL c + 1)" if "x \<in> set D" for x
  proof (cases "currentBankState r = RowActive")
    case True
    then have "x + int (BL c div 2) \<le> int (nextWrite m + WL c + 1)" using assms(1) that by (simp add: gap_def)
    then show ?thesis using later [OF True] by linarith
  next
    case False
    have "x \<le> int (t + WL c)" using assms(4) that by blast
    then show ?thesis using fresh [OF False] assms(5,6) by linarith
  qed
  moreover have "x + int (BL c div 2) \<le> int (nextWrite (issue_bank c t p (rank p) j m) + WL c + 1)"
    if "x \<in> set (new_write c t p)" for x
    using that wr assms(5) by (auto simp: new_write_def split: if_splits)
  ultimately show ?thesis by (auto simp: gap_def)
qed (simp add: gap_def)

lemma gap_other:
  assumes "gap c D m r" "agree c u m r" "i \<noteq> rank p"
  shows "gap c (D @ new_write c t p) (issue_bank c t p i j m) r"
proof (cases "currentBankState r = RowActive")
  case True
  then have "currentBankState m = RowActive" using assms(2) by (simp add: agree_def)
  then have "nextWrite (issue_bank c t p i j m) \<ge> nextWrite m"
    and w: "is_write p \<Longrightarrow> nextWrite (issue_bank c t p i j m) \<ge> t + BL c div 2"
    using assms(3) by (cases "busPacketType p"; simp add: issue_simps is_write_def)+
  then have "x + int (BL c div 2) \<le> int (nextWrite (issue_bank c t p i j m) + WL c + 1)" if "x \<in> set D" for x
    using assms(1) True that by (force simp: gap_def)
  then show ?thesis using w by (auto simp: gap_def new_write_def)
qed (simp add: gap_def)

section \<open>The invariant\<close>

definition sizes_inv :: "dram_config \<Rightarrow> mem_ctrl \<Rightarrow> bool" where
  "sizes_inv c m \<longleftrightarrow>
     bs_ok c (mc_bankStates m) \<and> length (refreshCountdown m) = NUM_RANKS c \<and> mc_refreshRank m < NUM_RANKS c \<and>
     length (backgroundEnergy m) = NUM_RANKS c \<and> length (burstEnergy m) = NUM_RANKS c \<and>
     length (actpreEnergy m) = NUM_RANKS c \<and> length (refreshEnergy m) = NUM_RANKS c \<and>
     length (totalReadsPerBank m) = NUM_RANKS c * NUM_BANKS c \<and>
     length (totalWritesPerBank m) = NUM_RANKS c * NUM_BANKS c \<and>
     length (totalEpochLatency m) = NUM_RANKS c * NUM_BANKS c"

text \<open>The commands that the row buffer policy uses.\<close>

definition policy_type :: "dram_config \<Rightarrow> bus_packet \<Rightarrow> bool" where
  "policy_type c p \<longleftrightarrow>
     (case busPacketType p of
        ACTIVATE \<Rightarrow> True
      | READ \<Rightarrow> rowBufferPolicy c = OpenPage | WRITE \<Rightarrow> rowBufferPolicy c = OpenPage
      | READ_P \<Rightarrow> rowBufferPolicy c = ClosePage | WRITE_P \<Rightarrow> rowBufferPolicy c = ClosePage
      | _ \<Rightarrow> False)"

definition queue_inv :: "dram_config \<Rightarrow> mem_ctrl \<Rightarrow> bool" where
  "queue_inv c m \<longleftrightarrow>
     cq_inv c (commandQueue m) \<and> cq_clock (commandQueue m) = mc_clock m \<and>
     (\<forall>p \<in># cq_packets (commandQueue m). policy_type c p) \<and>
     (\<forall>t \<in> set (transactionQueue m). transactionType t \<noteq> RETURN_DATA) \<and>
     cq_paired c (commandQueue m)"

text \<open>Packets with data, and the ranks apart from their bank states.\<close>

definition data_packet :: "dram_config \<Rightarrow> bus_packet \<Rightarrow> bool" where
  "data_packet c p \<longleftrightarrow> busPacketType p = DATA \<and> rank p < NUM_RANKS c \<and> bank p < NUM_BANKS c"

definition rank_inv :: "dram_config \<Rightarrow> nat \<Rightarrow> dram_rank \<Rightarrow> bool" where
  "rank_inv c t r \<longleftrightarrow>
     length (bankStates r) = NUM_BANKS c \<and> rk_clock r = t \<and>
     length (readReturnPacket r) = length (readReturnCountdown r) \<and>
     (\<forall>p \<in> set (readReturnPacket r). data_packet c p) \<and> (\<forall>p. outgoingDataPacket r = Some p \<longrightarrow> data_packet c p)"

definition ranks_inv :: "dram_config \<Rightarrow> mem_ctrl \<Rightarrow> bool" where
  "ranks_inv c m \<longleftrightarrow> length (mc_ranks m) = NUM_RANKS c \<and> (\<forall>i < NUM_RANKS c. rank_inv c (mc_clock m) (mc_ranks m ! i))"

text \<open>The times of the writes whose data are not through, at the beginning of cycle \<open>t\<close>: the write on the
  bus, then the waiting ones.\<close>

definition write_times :: "dram_config \<Rightarrow> nat \<Rightarrow> mem_ctrl \<Rightarrow> int list" where
  "write_times c t m =
     (case mc_outgoingDataPacket m of None \<Rightarrow> []
      | Some _ \<Rightarrow> [int (mc_dataCyclesLeft m) - int (BL c div 2) + int t]) @
     map (\<lambda>k. int k + int t) (writeDataCountdown m)"

definition data_inv :: "dram_config \<Rightarrow> nat \<Rightarrow> nat \<Rightarrow> mem_ctrl \<Rightarrow> bool" where
  "data_inv c t n m \<longleftrightarrow>
     length (writeDataToSend m) = length (writeDataCountdown m) \<and> (\<forall>p \<in> set (writeDataToSend m). data_packet c p) \<and>
     (\<forall>p. mc_outgoingDataPacket m = Some p \<longrightarrow> data_packet c p \<and> 0 < mc_dataCyclesLeft m \<and> mc_dataCyclesLeft m < 2 ^ 32) \<and>
     (\<forall>k \<in> set (writeDataCountdown m). 0 < k \<and> k < 2 ^ 32) \<and>
     sorted_wrt (\<lambda>x y. x + int (BL c div 2) \<le> y) (write_times c t m) \<and>
     (\<forall>x \<in> set (write_times c t m). x \<le> int (n + WL c))"

definition rank_power :: "bool \<Rightarrow> bank_state list \<Rightarrow> bool \<Rightarrow> bool" where
  "rank_power pd bs rk_pd \<longleftrightarrow> rk_pd = pd \<and>
     (\<exists>n. \<forall>s \<in> set bs. (currentBankState s = PowerDown) = pd \<and> (pd \<longrightarrow> nextPowerUp s = n))"

definition power_inv :: "dram_config \<Rightarrow> mem_ctrl \<Rightarrow> bool" where
  "power_inv c m \<longleftrightarrow>
     length (powerDown m) = NUM_RANKS c \<and>
     (\<forall>i < NUM_RANKS c. rank_power (powerDown m ! i) (mc_bankStates m ! i) (isPowerDown (mc_ranks m ! i)))"

text \<open>The bank states of the ranks, once the command on the bus has arrived in cycle \<open>t\<close>.\<close>

definition seen :: "dram_config \<Rightarrow> nat \<Rightarrow> bus_packet option \<Rightarrow> nat \<Rightarrow> nat \<Rightarrow> bank_state \<Rightarrow> bank_state" where
  "seen c t q i j s = (case q of Some p \<Rightarrow> if i = rank p then recv_bank c t p j s else s | None \<Rightarrow> s)"

definition accepts :: "nat \<Rightarrow> bus_packet option \<Rightarrow> nat \<Rightarrow> nat \<Rightarrow> bank_state \<Rightarrow> bool" where
  "accepts t q i j s \<longleftrightarrow> (case q of Some p \<Rightarrow> i = rank p \<longrightarrow> recv_ok t p j s | None \<Rightarrow> True)"

definition banks_inv :: "dram_config \<Rightarrow> nat \<Rightarrow> nat \<Rightarrow> nat \<Rightarrow> mem_ctrl \<Rightarrow> bool" where
  "banks_inv c v t s m \<longleftrightarrow>
     (\<forall>i < NUM_RANKS c. \<forall>j < NUM_BANKS c.
        let mb = mc_bankStates m ! i ! j; rb = bankStates (mc_ranks m ! i) ! j; q = outgoingCmdPacket m
        in accepts v q i j rb \<and> agree c t mb (seen c v q i j rb) \<and> gap c (write_times c s m) mb (seen c v q i j rb))"

text \<open>The command on the bus.\<close>

definition flying :: "dram_config \<Rightarrow> mem_ctrl \<Rightarrow> bool" where
  "flying c m \<longleftrightarrow> (\<forall>p. outgoingCmdPacket m = Some p \<longrightarrow>
     rank p < NUM_RANKS c \<and> bank p < NUM_BANKS c \<and> busPacketType p \<noteq> DATA \<and> cmdCyclesLeft m = 1)"

definition flying_busy :: "mem_ctrl \<Rightarrow> bool" where
  "flying_busy m \<longleftrightarrow> (\<forall>p. outgoingCmdPacket m = Some p \<longrightarrow>
     currentBankState (mc_bankStates m ! rank p ! bank p) \<noteq> Idle \<and>
     currentBankState (mc_bankStates m ! rank p ! bank p) \<noteq> PowerDown)"

text \<open>\<open>phase c v t s n m\<close>: a command on the bus arrives in cycle \<open>v\<close>, the bank states are those of the
  beginning of cycle \<open>t\<close>, the buses those of cycle \<open>s\<close>, and the last write was issued before cycle \<open>n\<close>.\<close>

definition phase :: "dram_config \<Rightarrow> nat \<Rightarrow> nat \<Rightarrow> nat \<Rightarrow> nat \<Rightarrow> mem_ctrl \<Rightarrow> bool" where
  "phase c v t s n m \<longleftrightarrow>
     sizes_inv c m \<and> queue_inv c m \<and> ranks_inv c m \<and> data_inv c s n m \<and> power_inv c m \<and>
     banks_inv c v t s m \<and> flying c m"

definition mc_inv :: "dram_config \<Rightarrow> mem_ctrl \<Rightarrow> bool" where
  "mc_inv c m \<longleftrightarrow> (let t = mc_clock m in phase c t t t t m) \<and> flying_busy m"

section \<open>The beginning of update\<close>

lemma tick_bank_power:
  "(currentBankState s = Idle \<or> currentBankState s = PowerDown \<longrightarrow> stateChangeCountdown s = 0) \<Longrightarrow>
     (currentBankState (tick_bank c s) = PowerDown) = (currentBankState s = PowerDown)
     \<and> nextPowerUp (tick_bank c s) = nextPowerUp s"
  by (auto simp: tick_bank_def Let_def)

lemma tick_phase:
  assumes "phase c t t t t m"
  shows "phase c t (t + 1) t t (mc_tick_banks c m)"
proof -
  let ?m = "mc_tick_banks c m"
  have b: "mc_bankStates ?m ! i ! j = tick_bank c (mc_bankStates m ! i ! j)" if "i < NUM_RANKS c" "j < NUM_BANKS c" for i j
    using that by (simp add: mc_tick_banks_def)
  have w: "write_times c t ?m = write_times c t m" by (simp add: write_times_def mc_tick_banks_def split: option.split)
  have idle: "currentBankState (mc_bankStates m ! i ! j) = Idle \<or> currentBankState (mc_bankStates m ! i ! j) = PowerDown
      \<longrightarrow> stateChangeCountdown (mc_bankStates m ! i ! j) = 0" if "i < NUM_RANKS c" "j < NUM_BANKS c" for i j
    using assms that by (simp add: phase_def banks_inv_def agree_def Let_def)
  have "sizes_inv c ?m" using assms by (simp add: phase_def sizes_inv_def mc_tick_banks_def)
  moreover have "queue_inv c ?m" using assms by (simp add: phase_def queue_inv_def mc_tick_banks_def)
  moreover have "ranks_inv c ?m" using assms by (simp add: phase_def ranks_inv_def mc_tick_banks_def)
  moreover have "data_inv c t t ?m" using assms w by (simp add: phase_def data_inv_def) (simp add: mc_tick_banks_def)
  moreover have "flying c ?m" using assms by (simp add: phase_def flying_def mc_tick_banks_def)
  moreover have "power_inv c ?m"
    unfolding power_inv_def
  proof (intro conjI allI impI)
    fix i assume i: "i < NUM_RANKS c"
    have l: "length (mc_bankStates m ! i) = NUM_BANKS c" "length (mc_bankStates m) = NUM_RANKS c"
      using assms i by (simp_all add: phase_def sizes_inv_def bs_ok_def)
    have row: "mc_bankStates ?m ! i = map (tick_bank c) (mc_bankStates m ! i)"
      using i l by (intro nth_equalityI) (simp_all add: mc_tick_banks_def each_bank_def)
    have "\<forall>s \<in> set (mc_bankStates m ! i). (currentBankState (tick_bank c s) = PowerDown) = (currentBankState s = PowerDown)
        \<and> nextPowerUp (tick_bank c s) = nextPowerUp s"
    proof
      fix s assume "s \<in> set (mc_bankStates m ! i)"
      then obtain j where "j < NUM_BANKS c" "s = mc_bankStates m ! i ! j" using l(1) by (metis in_set_conv_nth)
      then show "(currentBankState (tick_bank c s) = PowerDown) = (currentBankState s = PowerDown)
        \<and> nextPowerUp (tick_bank c s) = nextPowerUp s" using tick_bank_power idle [OF i] by blast
    qed
    moreover have "powerDown ?m = powerDown m" "mc_ranks ?m = mc_ranks m" by (simp_all add: mc_tick_banks_def)
    ultimately show "rank_power (powerDown ?m ! i) (mc_bankStates ?m ! i) (isPowerDown (mc_ranks ?m ! i))"
      using assms i row by (simp add: phase_def power_inv_def rank_power_def)
  qed (use assms in \<open>simp add: phase_def power_inv_def mc_tick_banks_def\<close>)
  moreover have "banks_inv c t (t + 1) t ?m"
    unfolding banks_inv_def Let_def w
  proof (intro allI impI)
    fix i j assume i: "i < NUM_RANKS c" and j: "j < NUM_BANKS c"
    have "mc_ranks ?m = mc_ranks m" "outgoingCmdPacket ?m = outgoingCmdPacket m" by (simp_all add: mc_tick_banks_def)
    then show "accepts t (outgoingCmdPacket ?m) i j (bankStates (mc_ranks ?m ! i) ! j) \<and>
      agree c (t + 1) (mc_bankStates ?m ! i ! j) (seen c t (outgoingCmdPacket ?m) i j (bankStates (mc_ranks ?m ! i) ! j)) \<and>
      gap c (write_times c t m) (mc_bankStates ?m ! i ! j) (seen c t (outgoingCmdPacket ?m) i j (bankStates (mc_ranks ?m ! i) ! j))"
      using assms i j b [OF i j] agree_tick gap_tick by (simp add: phase_def banks_inv_def Let_def)
  qed
  ultimately show ?thesis by (simp add: phase_def)
qed

lemma phase_bank:
  assumes "phase c v t s n m" "i < NUM_RANKS c" "j < NUM_BANKS c"
  shows "accepts v (outgoingCmdPacket m) i j (bankStates (mc_ranks m ! i) ! j)"
    "agree c t (mc_bankStates m ! i ! j) (seen c v (outgoingCmdPacket m) i j (bankStates (mc_ranks m ! i) ! j))"
    "gap c (write_times c s m) (mc_bankStates m ! i ! j) (seen c v (outgoingCmdPacket m) i j (bankStates (mc_ranks m ! i) ! j))"
  using assms by (simp_all add: phase_def banks_inv_def Let_def)

lemma phase_rank:
  assumes "phase c v t s n m" "i < NUM_RANKS c"
  shows "rank_inv c (mc_clock m) (mc_ranks m ! i)" "i < length (mc_ranks m)"
  using assms by (simp_all add: phase_def ranks_inv_def)

lemma write_times_same:
  "mc_outgoingDataPacket m' = mc_outgoingDataPacket m \<Longrightarrow> mc_dataCyclesLeft m' = mc_dataCyclesLeft m
    \<Longrightarrow> writeDataCountdown m' = writeDataCountdown m \<Longrightarrow> write_times c s m' = write_times c s m"
  by (simp add: write_times_def split: option.split)

lemma data_inv_same:
  "data_inv c s n m \<Longrightarrow> mc_outgoingDataPacket m' = mc_outgoingDataPacket m \<Longrightarrow> mc_dataCyclesLeft m' = mc_dataCyclesLeft m
    \<Longrightarrow> writeDataCountdown m' = writeDataCountdown m \<Longrightarrow> writeDataToSend m' = writeDataToSend m \<Longrightarrow> data_inv c s n m'"
  using write_times_same [of m' m c s] by (simp add: data_inv_def)

text \<open>The command that arrives is accepted.\<close>

lemma command_bus_ok:
  assumes "phase c (mc_clock m) t s n m" "system_ok c"
  shows "\<exists>m'. mc_command_bus c m = Inr m' \<and> phase c v t s n m' \<and> outgoingCmdPacket m' = None \<and> mc_clock m' = mc_clock m"
proof (cases "outgoingCmdPacket m")
  case None
  then have "phase c v t s n m" using assms(1) by (simp add: phase_def banks_inv_def seen_def accepts_def)
  then show ?thesis using None by (simp add: mc_command_bus_def)
next
  case (Some p)
  let ?i = "rank p" and ?r = "mc_ranks m ! rank p"
  have p: "?i < NUM_RANKS c" "bank p < NUM_BANKS c" "busPacketType p \<noteq> DATA" "cmdCyclesLeft m = 1"
    using assms(1) Some by (simp_all add: phase_def flying_def)
  note ri = phase_rank [OF assms(1) p(1)]
  have ns: "NO_STORAGE c" using assms(2) by (simp add: system_ok_def)
  have len: "length (bankStates ?r) = NUM_BANKS c" "rk_clock ?r = mc_clock m" using ri(1) by (simp_all add: rank_inv_def)
  have "recv_ok (rk_clock ?r) p j (bankStates ?r ! j)" if "j < NUM_BANKS c" for j
    using phase_bank(1) [OF assms(1) p(1) that] Some len(2) by (simp add: accepts_def)
  from rank_receive_banks [OF len(1) ns p(2) this] obtain r' where r': "rank_receive c p ?r = Inr r'"
    "bankStates r' = map (\<lambda>j. recv_bank c (mc_clock m) p j (bankStates ?r ! j)) [0..<NUM_BANKS c]"
    using len(2) by auto
  note fr = rank_receive_frame [OF r'(1) len(1) ns]
  let ?m = "m\<lparr>cmdCyclesLeft := 0, mc_ranks := (mc_ranks m)[?i := r'], outgoingCmdPacket := None\<rparr>"
  have e: "mc_command_bus c m = Inr ?m"
    using Some p(4) r'(1) ri(2) by (simp add: mc_command_bus_def to_rank_def u32_dec_pos Let_def)
  have pd: "data_packet c (p\<lparr>busPacketType := DATA\<rparr>)" using p by (simp add: data_packet_def)
  have "rank_inv c (mc_clock m) r'"
    using ri(1) fr len pd by (auto simp: rank_inv_def)
  then have "ranks_inv c ?m" using assms(1) by (auto simp: phase_def ranks_inv_def nth_upd)
  moreover have "power_inv c ?m" using assms(1) fr(2) by (auto simp: phase_def power_inv_def nth_upd)
  moreover have "banks_inv c v t s ?m"
  proof -
    have w: "write_times c s ?m = write_times c s m" by (rule write_times_same) simp_all
    have "seen c (mc_clock m) (Some p) i j (bankStates (mc_ranks m ! i) ! j) = bankStates (mc_ranks ?m ! i) ! j"
      if "i < NUM_RANKS c" "j < NUM_BANKS c" for i j
      using r'(2) that ri(2) by (simp add: seen_def nth_upd)
    then show ?thesis unfolding banks_inv_def Let_def w
      using phase_bank [OF assms(1)] Some by (simp add: seen_def accepts_def)
  qed
  moreover have "data_inv c s n ?m" using assms(1) by (auto simp: phase_def elim: data_inv_same)
  ultimately have "phase c v t s n ?m"
    using assms(1) by (simp add: phase_def sizes_inv_def queue_inv_def flying_def)
  then show ?thesis using e by simp
qed

section \<open>The data bus\<close>

definition bus_times :: "dram_config \<Rightarrow> nat \<Rightarrow> bus_packet option \<Rightarrow> nat \<Rightarrow> int list" where
  "bus_times c s b l = (case b of None \<Rightarrow> [] | Some _ \<Rightarrow> [int l - int (BL c div 2) + int s])"

lemma write_times_bus:
  "write_times c s m = bus_times c s (mc_outgoingDataPacket m) (mc_dataCyclesLeft m)
     @ map (\<lambda>k. int k + int s) (writeDataCountdown m)"
  by (simp add: write_times_def bus_times_def)

lemma data_bus_ok:
  assumes "phase c v t s n m" "system_ok c"
  obtains l b cb where
    "mc_data_bus c m = Inr (m\<lparr>mc_dataCyclesLeft := l, mc_outgoingDataPacket := b, callbacks := cb\<rparr>)"
    "\<forall>p. b = Some p \<longrightarrow> data_packet c p \<and> 0 < l \<and> l < 2 ^ 32"
    "bus_times c s (mc_outgoingDataPacket m) (mc_dataCyclesLeft m) = bus_times c (s + 1) b l \<or> b = None"
proof (cases "mc_outgoingDataPacket m")
  case None
  then show ?thesis
    by (intro that [where l = "mc_dataCyclesLeft m" and b = None and cb = "callbacks m"]) (simp_all add: mc_data_bus_def)
next
  case (Some p)
  let ?l = "mc_dataCyclesLeft m"
  have p: "data_packet c p" "0 < ?l" "?l < 2 ^ 32" using assms(1) Some by (simp_all add: phase_def data_inv_def)
  have d: "u32_dec ?l = ?l - 1" using p by (simp add: u32_dec_pos)
  show ?thesis
  proof (cases "?l = 1")
    case False
    then have "mc_data_bus c m = Inr (m\<lparr>mc_dataCyclesLeft := ?l - 1, mc_outgoingDataPacket := Some p, callbacks := callbacks m\<rparr>)"
      using Some d p by (simp add: mc_data_bus_def Let_def)
    then show ?thesis using p False Some
      by (intro that [where l = "?l - 1" and b = "Some p" and cb = "callbacks m"]) (auto simp: bus_times_def)
  next
    case True
    have r: "rank p < length (mc_ranks m)" using p(1) assms(1) by (simp add: data_packet_def phase_def ranks_inv_def)
    have "NO_STORAGE c" using assms(2) by (simp add: system_ok_def)
    then have "to_rank c p m' = Inr m'" if "mc_ranks m' = mc_ranks m" for m'
      using that r p(1) by (simp add: to_rank_def data_packet_def rank_receive_def rank_DATA_def)
    then have "mc_data_bus c m = Inr (m\<lparr>mc_dataCyclesLeft := 0, mc_outgoingDataPacket := None,
        callbacks := (if writeCB m then callbacks m @ [Write_done (physicalAddress p) (mc_clock m)] else callbacks m)\<rparr>)"
      using Some d True by (cases "writeCB m") (simp_all add: mc_data_bus_def Let_def)
    then show ?thesis by (rule that) simp_all
  qed
qed

lemma sequential_less:
  assumes "system_ok c" "r < NUM_RANKS c" "b < NUM_BANKS c"
  shows "sequential c r b < NUM_RANKS c * NUM_BANKS c"
proof -
  have "r * NUM_BANKS c + b < (r + 1) * NUM_BANKS c" using assms(3) by simp
  also have "\<dots> \<le> NUM_RANKS c * NUM_BANKS c" using assms(2) by (intro mult_le_mono1) simp
  finally have "r * NUM_BANKS c + b < NUM_RANKS c * NUM_BANKS c" .
  moreover have "NUM_RANKS c * NUM_BANKS c < 2 ^ 32" using assms(1) by (simp add: system_ok_def)
  ultimately show ?thesis by (simp add: sequential_def u32_add_def u32_mul_def)
qed

lemma bump_in: "i < length xs \<Longrightarrow> bump i k xs = Inr (xs[i := u64_add (xs ! i) k])"
  by (simp add: bump_def)

lemma launch_ok:
  assumes "phase c v t s n m" "system_ok c"
  obtains m' m'' where "mc_data_bus c m = Inr m'" "mc_launch_write c m' = Inr m''"
    "phase c v t (s + 1) n m''" "outgoingCmdPacket m'' = outgoingCmdPacket m" "mc_clock m'' = mc_clock m"
proof -
  note goal = that
  obtain l b cb where 1: "mc_data_bus c m = Inr (m\<lparr>mc_dataCyclesLeft := l, mc_outgoingDataPacket := b, callbacks := cb\<rparr>)"
    and b: "\<forall>p. b = Some p \<longrightarrow> data_packet c p \<and> 0 < l \<and> l < 2 ^ 32"
    and bt: "bus_times c s (mc_outgoingDataPacket m) (mc_dataCyclesLeft m) = bus_times c (s + 1) b l \<or> b = None"
    by (rule data_bus_ok [OF assms])
  let ?m' = "m\<lparr>mc_dataCyclesLeft := l, mc_outgoingDataPacket := b, callbacks := cb\<rparr>"
  let ?ks = "writeDataCountdown m" and ?W = "write_times c s m" and ?gap = "\<lambda>x y. x + int (BL c div 2) \<le> y"
  have D: "length (writeDataToSend m) = length ?ks" "\<forall>p \<in> set (writeDataToSend m). data_packet c p"
    "\<forall>k \<in> set ?ks. 0 < k \<and> k < 2 ^ 32" "sorted_wrt ?gap ?W" "\<forall>x \<in> set ?W. x \<le> int (n + WL c)"
    using assms(1) by (simp_all add: phase_def data_inv_def)
  have BL: "0 < BL c div 2" "BL c < 2 ^ 32" using assms(2) by (simp_all add: system_ok_def)
  have dec: "map u32_dec ?ks = map (\<lambda>k. k - 1) ?ks" using D(3) by (auto simp: u32_dec_pos)
  have sks: "sorted_wrt (\<lambda>j k. j + BL c div 2 \<le> k) ?ks"
  proof -
    have "sorted_wrt ?gap (map (\<lambda>k. int k + int s) ?ks)" using D(4) by (simp add: write_times_bus sorted_wrt_append)
    then show ?thesis unfolding sorted_wrt_map
      by (rule sorted_wrt_mono_rel [rotated]) linarith
  qed
  have fin: thesis if m'': "mc_launch_write c ?m' = Inr m''" and d: "data_inv c (s + 1) n m''"
    and sub: "set (write_times c (s + 1) m'') \<subseteq> set ?W"
    and same: "mc_bankStates m'' = mc_bankStates m" "mc_ranks m'' = mc_ranks m" "outgoingCmdPacket m'' = outgoingCmdPacket m"
      "mc_clock m'' = mc_clock m" "commandQueue m'' = commandQueue m" "transactionQueue m'' = transactionQueue m"
      "powerDown m'' = powerDown m" "cmdCyclesLeft m'' = cmdCyclesLeft m" and z: "sizes_inv c m''" for m''
  proof -
    have "phase c v t (s + 1) n m''"
      using assms(1) same z d gap_subset [OF _ sub]
      by (simp add: phase_def queue_inv_def ranks_inv_def power_inv_def banks_inv_def flying_def Let_def)
    from goal [OF 1 m'' this same(3,4)] show ?thesis .
  qed
  have z: "sizes_inv c m" using assms(1) by (simp add: phase_def)
  have wt: "write_times c (s + 1) m'' = ?W \<or> write_times c (s + 1) m'' = tl ?W \<and> mc_outgoingDataPacket m \<noteq> None"
    if "write_times c (s + 1) m'' = bus_times c (s + 1) b l @ map (\<lambda>k. int k + int s) ?ks" for m''
  proof (cases "b = None \<and> mc_outgoingDataPacket m \<noteq> None")
    case True
    then show ?thesis using that by (auto simp: write_times_bus bus_times_def)
  next
    case False
    then have "bus_times c (s + 1) b l = bus_times c s (mc_outgoingDataPacket m) (mc_dataCyclesLeft m)"
      using bt by (auto simp: bus_times_def)
    then show ?thesis using that by (simp add: write_times_bus)
  qed
  have sortedD: "sorted_wrt ?gap (write_times c (s + 1) m'') \<and> (\<forall>x \<in> set (write_times c (s + 1) m''). x \<le> int (n + WL c))
      \<and> set (write_times c (s + 1) m'') \<subseteq> set ?W"
    if "write_times c (s + 1) m'' = bus_times c (s + 1) b l @ map (\<lambda>k. int k + int s) ?ks" for m''
  proof -
    have "set (tl ?W) \<subseteq> set ?W" by (cases ?W) auto
    moreover have "sorted_wrt ?gap (tl ?W)" using D(4) by (cases ?W) auto
    ultimately show ?thesis using wt [OF that] D(4,5) by auto
  qed
  show ?thesis
  proof (cases ?ks)
    case Nil
    have w: "write_times c (s + 1) ?m' = bus_times c (s + 1) b l @ map (\<lambda>k. int k + int s) ?ks"
      using Nil by (simp add: write_times_bus)
    have "data_inv c (s + 1) n ?m'"
      using D(1) Nil b sortedD [OF w] by (simp add: data_inv_def)
    then show ?thesis using Nil sortedD [OF w] z by (intro fin [of ?m']) (simp_all add: mc_launch_write_def sizes_inv_def)
  next
    case (Cons k ks)
    have gt: "1 < j" if "j \<in> set ks" for j using sks D(3) that Cons BL by (auto simp: Suc_le_eq)
    show ?thesis
    proof (cases "k = 1")
      case False
      let ?m'' = "?m'\<lparr>writeDataCountdown := map (\<lambda>k. k - 1) ?ks\<rparr>"
      have pos: "1 < j" if "j \<in> set ?ks" for j using that Cons gt D(3) False by auto
      have e: "mc_launch_write c ?m' = Inr ?m''"
        using dec Cons pos [of k] by (simp add: mc_launch_write_def)
      have w: "write_times c (s + 1) ?m'' = bus_times c (s + 1) b l @ map (\<lambda>k. int k + int s) ?ks"
        by (auto simp: write_times_bus dest!: pos)
      have k: "\<forall>k \<in> set (map (\<lambda>k. k - 1) ?ks). 0 < k \<and> k < 2 ^ 32" using D(3) pos by fastforce
      have "data_inv c (s + 1) n ?m''" unfolding data_inv_def
        using D(1,2) b k sortedD [OF w] by simp
      then show ?thesis using e sortedD [OF w] z by (intro fin [of ?m'']) (simp_all add: sizes_inv_def)
    next
      case True
      have bn: "b = None"
      proof (rule ccontr)
        assume "b \<noteq> None"
        then obtain p where p: "b = Some p" by blast
        then have "bus_times c s (mc_outgoingDataPacket m) (mc_dataCyclesLeft m) = [int l - int (BL c div 2) + int (s + 1)]"
          using bt by (simp add: bus_times_def)
        then have "int l + int (s + 1) \<le> int k + int s" using D(4) Cons by (simp add: write_times_bus)
        then show False using b p True by simp
      qed
      obtain q qs where q: "writeDataToSend m = q # qs" using D(1) Cons by (cases "writeDataToSend m") auto
      have qd: "data_packet c q" using D(2) q by simp
      have "sequential c (rank q) (bank q) < length (totalWritesPerBank m)"
        using sequential_less [OF assms(2)] qd z by (simp add: data_packet_def sizes_inv_def)
      then obtain tw where tw: "bump (sequential c (rank q) (bank q)) 1 (totalWritesPerBank m) = Inr tw"
        "length tw = length (totalWritesPerBank m)" by (simp add: bump_in)
      let ?m'' = "?m'\<lparr>mc_outgoingDataPacket := Some q, mc_dataCyclesLeft := BL c div 2,
                   totalTransactions := u64_add (totalTransactions m) 1, totalWritesPerBank := tw,
                   writeDataCountdown := map (\<lambda>k. k - 1) ks, writeDataToSend := qs\<rparr>"
      have e: "mc_launch_write c ?m' = Inr ?m''"
        using dec Cons True bn q tw by (simp add: mc_launch_write_def)
      have w: "write_times c (s + 1) ?m'' = bus_times c (s + 1) b l @ map (\<lambda>k. int k + int s) ?ks"
        using Cons True bn gt by (force simp: write_times_bus bus_times_def)
      have k: "\<forall>k \<in> set (map (\<lambda>k. k - 1) ks). 0 < k \<and> k < 2 ^ 32" using D(3) gt Cons by fastforce
      have "data_inv c (s + 1) n ?m''" unfolding data_inv_def
        using D(1,2) Cons q qd k BL sortedD [OF w] by simp
      then show ?thesis using e sortedD [OF w] z tw(2) by (intro fin [of ?m'']) (simp_all add: sizes_inv_def)
    qed
  qed
qed

section \<open>Refresh\<close>

lemma phase_frame:
  assumes "phase c v t s n m" "sizes_inv c m'" "queue_inv c m'"
    and "mc_bankStates m' = mc_bankStates m" "outgoingCmdPacket m' = outgoingCmdPacket m" "cmdCyclesLeft m' = cmdCyclesLeft m"
      "mc_outgoingDataPacket m' = mc_outgoingDataPacket m" "mc_dataCyclesLeft m' = mc_dataCyclesLeft m"
      "writeDataCountdown m' = writeDataCountdown m" "writeDataToSend m' = writeDataToSend m"
      "powerDown m' = powerDown m" "mc_clock m' = mc_clock m" "length (mc_ranks m') = length (mc_ranks m)"
    and "\<And>i. i < NUM_RANKS c \<Longrightarrow> rank_inv c (mc_clock m) (mc_ranks m' ! i) \<and>
      bankStates (mc_ranks m' ! i) = bankStates (mc_ranks m ! i) \<and> isPowerDown (mc_ranks m' ! i) = isPowerDown (mc_ranks m ! i)"
  shows "phase c v t s n m'"
proof -
  have w: "write_times c s m' = write_times c s m" using assms(7-9) by (rule write_times_same)
  have "data_inv c s n m'" using assms(1,7-10) by (auto simp: phase_def elim: data_inv_same)
  moreover have "banks_inv c v t s m'"
    unfolding banks_inv_def Let_def w using phase_bank [OF assms(1)] assms(4,5,14) by simp
  ultimately show ?thesis
    using assms by (simp add: phase_def ranks_inv_def power_inv_def flying_def)
qed

lemma needRefresh_inv: "cq_inv c cq \<Longrightarrow> i < NUM_RANKS c \<Longrightarrow> cq_inv c (needRefresh i cq)"
  by (simp add: cq_inv_def cq_core_def needRefresh_def)

lemma set_refreshWaiting_phase:
  assumes "phase c v t s n m" "i < NUM_RANKS c"
  obtains m' where "set_refreshWaiting i m = Inr m'" "m' = m\<lparr>mc_ranks := mc_ranks m'\<rparr>" "phase c v t s n m'"
proof -
  let ?r = "(mc_ranks m ! i)\<lparr>rk_refreshWaiting := True\<rparr>"
  let ?m = "m\<lparr>mc_ranks := (mc_ranks m)[i := ?r]\<rparr>"
  have "rank_inv c (mc_clock m) ?r" using phase_rank [OF assms] by (simp add: rank_inv_def)
  then have "phase c v t s n ?m"
    using assms phase_rank [OF assms(1)]
    by (intro phase_frame [OF assms(1)]) (auto simp: phase_def sizes_inv_def queue_inv_def nth_upd)
  then show ?thesis using phase_rank(2) [OF assms] by (intro that [of ?m]) (simp_all add: set_refreshWaiting_def)
qed

lemma refresh_ok:
  assumes "phase c v t s n m"
  shows "\<exists>m'. mc_refresh c m = Inr m' \<and> phase c v t s n m' \<and> outgoingCmdPacket m' = outgoingCmdPacket m
    \<and> mc_clock m' = mc_clock m"
proof -
  let ?rr = "mc_refreshRank m"
  have r: "?rr < NUM_RANKS c" "length (refreshCountdown m) = NUM_RANKS c" "length (powerDown m) = NUM_RANKS c"
    "sizes_ok c" "sizes_inv c m"
    using assms by (simp_all add: phase_def sizes_inv_def power_inv_def queue_inv_def cq_inv_def cq_core_def)
  have next_lt: "(let rr' = u32_add ?rr 1 in if rr' = NUM_RANKS c then 0 else rr') < NUM_RANKS c"
  proof -
    have "u32_add ?rr 1 = ?rr + 1" using r(1,4) by (simp add: sizes_ok_def u32_add_small)
    then show ?thesis using r(1) by (auto simp: Let_def)
  qed
  show ?thesis
  proof (cases "refreshCountdown m ! ?rr = 0")
    case True
    let ?m1 = "m\<lparr>commandQueue := needRefresh ?rr (commandQueue m)\<rparr>"
    have "queue_inv c ?m1" using assms r(1) needRefresh_inv
      by (auto simp: phase_def queue_inv_def cq_packets_def cq_paired_def needRefresh_def)
    then have "phase c v t s n ?m1" using r(5) phase_rank [OF assms]
      by (intro phase_frame [OF assms]) (simp_all add: sizes_inv_def)
    then obtain m2 where m2: "set_refreshWaiting ?rr ?m1 = Inr m2" "m2 = ?m1\<lparr>mc_ranks := mc_ranks m2\<rparr>" "phase c v t s n m2"
      using r(1) by (rule set_refreshWaiting_phase)
    have same: "outgoingCmdPacket m2 = outgoingCmdPacket m" "mc_clock m2 = mc_clock m" by (subst m2(2), simp)+
    let ?m3 = "m2\<lparr>refreshCountdown := (refreshCountdown m2)[?rr := REFRESH_CYCLES c],
                   mc_refreshRank := (let rr' = u32_add ?rr 1 in if rr' = NUM_RANKS c then 0 else rr')\<rparr>"
    have "phase c v t s n ?m3" using m2(3) next_lt phase_rank [OF m2(3)]
      by (intro phase_frame [OF m2(3)]) (simp_all add: phase_def sizes_inv_def queue_inv_def)
    then show ?thesis using True r m2(1) same by (intro exI [of _ ?m3]) (simp add: mc_refresh_def Let_def)
  next
    case False
    show ?thesis
    proof (cases "powerDown m ! ?rr \<and> refreshCountdown m ! ?rr \<le> tXP c")
      case True
      obtain m2 where m2: "set_refreshWaiting ?rr m = Inr m2" "m2 = m\<lparr>mc_ranks := mc_ranks m2\<rparr>" "phase c v t s n m2"
        using assms r(1) by (rule set_refreshWaiting_phase)
      have "outgoingCmdPacket m2 = outgoingCmdPacket m" "mc_clock m2 = mc_clock m" by (subst m2(2), simp)+
      then show ?thesis using m2 False True r by (intro exI [of _ m2]) (simp add: mc_refresh_def Let_def)
    next
      case no: False
      then show ?thesis using assms False r by (intro exI [of _ m]) (auto simp: mc_refresh_def Let_def)
    qed
  qed
qed

section \<open>Issuing a command\<close>

lemma legal_may_issue:
  assumes "legal c bs cq p" "bs_ok c bs" "rank p < NUM_RANKS c" "bank p < NUM_BANKS c" "j < NUM_BANKS c"
    "cq_core c cq" "busPacketType p \<noteq> DATA" "busPacketType p = PRECHARGE \<longrightarrow> rowBufferPolicy c = OpenPage"
    "busPacketType p \<noteq> PRECHARGE \<and> busPacketType p \<noteq> REFRESH \<longrightarrow> policy_type c p"
    "busPacketType p = REFRESH \<longrightarrow> currentBankState (bs ! rank p ! j) \<noteq> PowerDown"
  shows "may_issue c (cq_clock cq) p j (bs ! rank p ! j)"
proof -
  have st: "at2 bs (rank p) (bank p) = Inr (bs ! rank p ! bank p)" by (rule bs_in [OF assms(2-4)])
  have k: "at2 (rowAccessCounters cq) (rank p) (bank p) = Inr (rowAccessCounters cq ! rank p ! bank p)"
    using counters_in assms(3,4,6) by (auto simp: cq_core_def)
  have w: "rank p < length (tFAWCountdown cq)" using assms(3,6) by (simp add: cq_core_def)
  show ?thesis
  proof (cases "busPacketType p = REFRESH")
    case True
    then show ?thesis using assms(1,5,10) by (auto simp: legal_def may_issue_def)
  next
    case False
    then have "isIssuable c bs cq p = Inr True" using assms(1) by (simp add: legal_def)
    then show ?thesis using False assms(7-9) st k w
      by (cases "busPacketType p") (auto simp: isIssuable_def may_issue_def policy_type_def Let_def)
  qed
qed

lemma add_energy_ok:
  assumes "sizes_inv c m" "rank p < NUM_RANKS c"
  obtains be ae re where
    "add_energy c p m = Inr (m\<lparr>burstEnergy := be, actpreEnergy := ae, refreshEnergy := re\<rparr>)"
    "length be = NUM_RANKS c" "length ae = NUM_RANKS c" "length re = NUM_RANKS c"
proof -
  have l: "length (burstEnergy m) = NUM_RANKS c" "length (actpreEnergy m) = NUM_RANKS c" "length (refreshEnergy m) = NUM_RANKS c"
    using assms(1) by (simp_all add: sizes_inv_def)
  let ?d = "NUM_DEVICES m" and ?r = "rank p"
  let ?be = "if busPacketType p = READ \<or> busPacketType p = READ_P then (burstEnergy m)[?r := u64_add (burstEnergy m ! ?r) (read_energy c ?d)]
    else if busPacketType p = WRITE \<or> busPacketType p = WRITE_P then (burstEnergy m)[?r := u64_add (burstEnergy m ! ?r) (write_energy c ?d)]
    else burstEnergy m"
  let ?ae = "if busPacketType p = ACTIVATE then (actpreEnergy m)[?r := u64_add (actpreEnergy m ! ?r) (activate_energy c ?d)]
    else actpreEnergy m"
  let ?re = "if busPacketType p = REFRESH then (refreshEnergy m)[?r := u64_add (refreshEnergy m ! ?r) (refresh_energy c ?d)]
    else refreshEnergy m"
  have "add_energy c p m = Inr (m\<lparr>burstEnergy := ?be, actpreEnergy := ?ae, refreshEnergy := ?re\<rparr>)"
    using assms(2) l by (cases "busPacketType p") (simp_all add: add_energy_def Let_def bump_in)
  then show ?thesis by (rule that) (use l in simp_all)
qed

lemma popped_policy:
  assumes "cq_inv c cq" "bs_ok c bs" "cq_pop c bs cq = Inr (Some p, cq')" "\<forall>q \<in># cq_packets cq. policy_type c q"
  shows "cq_inv c cq'" "cq_clock cq' = cq_clock cq" "\<forall>q \<in># cq_packets cq'. policy_type c q"
    "legal c bs (ticked cq) p" "rank p < NUM_RANKS c" "bank p < NUM_BANKS c" "busPacketType p \<noteq> DATA"
    "busPacketType p = PRECHARGE \<longrightarrow> rowBufferPolicy c = OpenPage"
    "busPacketType p \<noteq> PRECHARGE \<and> busPacketType p \<noteq> REFRESH \<longrightarrow> policy_type c p"
proof -
  have P: "cq_inv c cq'" "cq_clock cq' = cq_clock cq" "pop_post c bs cq (Some p) cq'"
    using cq_pop_ok [OF assms(1,2)] assms(3) by auto
  then show "cq_inv c cq'" "cq_clock cq' = cq_clock cq" by blast+
  show "legal c bs (ticked cq) p" "rank p < NUM_RANKS c" "bank p < NUM_BANKS c" "busPacketType p \<noteq> DATA"
    using P(3) by (simp_all add: pop_post_def)
  obtain drop where m: "cq_packets cq + (if busPacketType p \<in> {REFRESH, PRECHARGE} then {#p#} else {#})
      = cq_packets cq' + {#p#} + drop" using P(3) by (auto simp: pop_post_def)
  have sub: "cq_packets cq' \<subseteq># cq_packets cq"
  proof (cases "busPacketType p \<in> {REFRESH, PRECHARGE}")
    case True
    then have "cq_packets cq = cq_packets cq' + drop" using m by simp
    then show ?thesis by simp
  next
    case False
    then have "cq_packets cq = cq_packets cq' + ({#p#} + drop)" using m by (simp add: add.assoc)
    then show ?thesis by (metis mset_subset_eq_add_left)
  qed
  then show "\<forall>q \<in># cq_packets cq'. policy_type c q" using assms(4) by (meson mset_subset_eqD)
  show "busPacketType p = PRECHARGE \<longrightarrow> rowBufferPolicy c = OpenPage"
    using close_page_no_precharge [OF assms(1,2) _ assms(3)] by (cases "rowBufferPolicy c") auto
  show "busPacketType p \<noteq> PRECHARGE \<and> busPacketType p \<noteq> REFRESH \<longrightarrow> policy_type c p"
  proof
    assume a: "busPacketType p \<noteq> PRECHARGE \<and> busPacketType p \<noteq> REFRESH"
    then have "cq_packets cq = cq_packets cq' + {#p#} + drop" using m by simp
    then have "p \<in># cq_packets cq" by simp
    then show "policy_type c p" using assms(4) by blast
  qed
qed

text \<open>A rank that gets a command is awake and stays so.\<close>

lemma rank_power_same:
  assumes "rank_power pd bs r" "length bs' = length bs"
    "\<And>j. j < length bs \<Longrightarrow> (currentBankState (bs' ! j) = PowerDown) = (currentBankState (bs ! j) = PowerDown)
       \<and> (currentBankState (bs ! j) = PowerDown \<longrightarrow> nextPowerUp (bs' ! j) = nextPowerUp (bs ! j))"
  shows "rank_power pd bs' r"
proof -
  obtain n where "r = pd" "\<forall>s \<in> set bs. (currentBankState s = PowerDown) = pd \<and> (pd \<longrightarrow> nextPowerUp s = n)"
    using assms(1) by (auto simp: rank_power_def)
  then show ?thesis using assms(2,3) unfolding rank_power_def all_set_conv_all_nth
    by (intro conjI exI [of _ n]) auto
qed

lemma rank_power_other:
  "rank_power pd bs r \<Longrightarrow> i < length bs \<Longrightarrow> j < length bs
    \<Longrightarrow> (currentBankState (bs ! i) = PowerDown) = (currentBankState (bs ! j) = PowerDown)"
  by (auto simp: rank_power_def)

lemma may_awake: "may_issue c t p (bank p) s \<Longrightarrow> currentBankState s \<noteq> PowerDown"
  by (auto simp: may_issue_def split: BusPacketType.splits)

lemma issue_awake:
  assumes "i = rank p \<longrightarrow> currentBankState s \<noteq> PowerDown"
  shows "(currentBankState (issue_bank c t p i j s) = PowerDown) = (currentBankState s = PowerDown)
    \<and> nextPowerUp (issue_bank c t p i j s) = nextPowerUp s"
  using assms by (cases "busPacketType p") (auto simp: issue_simps)

lemma issue_busy:
  assumes "may_issue c t p (bank p) s" "busPacketType p \<noteq> DATA"
  shows "currentBankState (issue_bank c t p (rank p) (bank p) s) \<noteq> Idle
    \<and> currentBankState (issue_bank c t p (rank p) (bank p) s) \<noteq> PowerDown"
  using assms by (cases "busPacketType p") (auto simp: issue_simps may_issue_def)

lemma issue_ok:
  assumes "phase c v (mc_clock m + 1) (mc_clock m + 1) (mc_clock m) m" "outgoingCmdPacket m = None" "system_ok c"
  defines "u \<equiv> mc_clock m + 1"
  shows "\<exists>m'. mc_issue c m = Inr m' \<and> phase c u u u u m' \<and> flying_busy m' \<and> mc_clock m' = mc_clock m"
proof -
  let ?bs = "mc_bankStates m" and ?cq = "commandQueue m" and ?t = "mc_clock m"
  have Q: "cq_inv c ?cq" "cq_clock ?cq = ?t" "\<forall>p \<in># cq_packets ?cq. policy_type c p"
    "\<forall>t \<in> set (transactionQueue m). transactionType t \<noteq> RETURN_DATA" and B: "bs_ok c ?bs" and z: "sizes_inv c m"
    using assms(1) by (simp_all add: phase_def queue_inv_def sizes_inv_def)
  obtain r cq' where pop: "cq_pop c ?bs ?cq = Inr (r, cq')" "cq_inv c cq'" "cq_clock cq' = ?t" "pop_post c ?bs ?cq r cq'"
    using cq_pop_ok [OF Q(1) B] Q(2) by auto
  have "cq_paired c ?cq" using assms(1) by (simp add: phase_def queue_inv_def)
  from pop_paired [OF Q(1) pop(4) this] have paired: "cq_paired c cq'" .
  have relax: "data_inv c s n m' \<Longrightarrow> data_inv c s (n + 1) m'" for s n m' by (force simp: data_inv_def)
  show ?thesis
  proof (cases r)
    case None
    let ?m = "m\<lparr>commandQueue := cq'\<rparr>"
    have "queue_inv c ?m" using pop Q None paired by (simp add: queue_inv_def pop_post_def)
    then have ph: "phase c v u u ?t ?m" using assms(1) z phase_rank [OF assms(1)] unfolding u_def
      by (intro phase_frame [OF assms(1)]) (simp_all add: sizes_inv_def)
    then have "phase c u u u u ?m" using assms(2) relax [of u ?t ?m]
      by (simp add: phase_def banks_inv_def seen_def accepts_def u_def)
    then show ?thesis using pop None assms(2) by (intro exI [of _ ?m]) (simp add: mc_issue_def flying_busy_def)
  next
    case (Some p)
    note P = popped_policy [OF Q(1) B pop(1) [unfolded Some] Q(3)]
    have tick: "cq_clock (ticked ?cq) = ?t" using Q(2) by (simp add: ticked_def)
    have core: "cq_core c (ticked ?cq)" by (rule pop_tfaw_ticked(2) [OF Q(1)])
    have notPD: "currentBankState (?bs ! rank p ! j) \<noteq> PowerDown" if "busPacketType p = REFRESH" "j < NUM_BANKS c" for j
    proof -
      have "currentBankState (?bs ! rank p ! 0) \<noteq> PowerDown" using P(4) that by (auto simp: legal_def)
      moreover have "?bs ! rank p ! 0 \<in> set (?bs ! rank p)" "?bs ! rank p ! j \<in> set (?bs ! rank p)"
        using B P(5) that(2) by (auto simp: bs_ok_def)
      ultimately show ?thesis using assms(1) P(5) by (auto simp: phase_def power_inv_def rank_power_def)
    qed
    have may: "may_issue c ?t p j (?bs ! rank p ! j)" if "j < NUM_BANKS c" for j
      using legal_may_issue [OF P(4) B P(5,6) that core P(7-9)] notPD that tick by simp
    obtain bs' where bs': "issue_banks c ?t p ?bs = Some bs'" "bs_ok c bs'"
      "\<And>i j. i < NUM_RANKS c \<Longrightarrow> j < NUM_BANKS c \<Longrightarrow> bs' ! i ! j = issue_bank c ?t p i j (?bs ! i ! j)"
      using issue_banks_nth [OF B P(7)] by blast
    let ?m1 = "mc_queue_write c p (m\<lparr>commandQueue := cq'\<rparr>)"
    have q1: "sizes_inv c ?m1" using z by (simp add: sizes_inv_def mc_queue_write_def)
    obtain be ae re where en: "add_energy c p ?m1 = Inr (?m1\<lparr>burstEnergy := be, actpreEnergy := ae, refreshEnergy := re\<rparr>)"
      "length be = NUM_RANKS c" "length ae = NUM_RANKS c" "length re = NUM_RANKS c"
      by (rule add_energy_ok [OF q1 P(5)])
    let ?m = "?m1\<lparr>burstEnergy := be, actpreEnergy := ae, refreshEnergy := re, mc_bankStates := bs',
      outgoingCmdPacket := Some p, cmdCyclesLeft := tCMD c\<rparr>"
    have sm: "mc_ranks ?m = mc_ranks m" "mc_clock ?m = ?t" "mc_bankStates ?m = bs'" "outgoingCmdPacket ?m = Some p"
      "cmdCyclesLeft ?m = tCMD c" "powerDown ?m = powerDown m" "commandQueue ?m = cq'"
      "transactionQueue ?m = transactionQueue m" "mc_outgoingDataPacket ?m = mc_outgoingDataPacket m"
      "mc_dataCyclesLeft ?m = mc_dataCyclesLeft m"
      "writeDataCountdown ?m = writeDataCountdown m @ (if is_write p then [WL c] else [])"
      "writeDataToSend ?m = writeDataToSend m @ (if is_write p then
         [BusPacket DATA (physicalAddress p) (column p) (row p) (rank p) (bank p) (data p)] else [])"
      by (simp_all add: mc_queue_write_def)
    have wt: "write_times c u ?m = write_times c u m @ new_write c ?t p"
      using sm(9-11) by (simp add: write_times_bus new_write_def u_def)
    have step: "mc_issue c m = Inr ?m"
      using pop(1) Some en(1) bs'(1) assms(2) B P(5,6)
      by (simp add: mc_issue_def bs_in mc_queue_write_def Let_def)
    have sys: "tCMD c = 1" "latencies_ok c" "BL c div 2 \<le> CAS_TO_CAS_DELAY c" "CAS_TO_CAS_DELAY c \<le> ACT_TO_CAS_DELAY c" "0 < WL c"
      using assms(3) by (simp_all add: system_ok_def)
    have D: "data_inv c u ?t m" using assms(1) by (simp add: phase_def u_def)
    have bound: "\<forall>x \<in> set (write_times c u m). x \<le> int (?t + WL c)" using D by (simp add: data_inv_def)
    have pb: "agree c u (?bs ! i ! j) (bankStates (mc_ranks m ! i) ! j) \<and>
        gap c (write_times c u m) (?bs ! i ! j) (bankStates (mc_ranks m ! i) ! j)" if "i < NUM_RANKS c" "j < NUM_BANKS c" for i j
      using phase_bank [OF assms(1) that] assms(2) by (simp add: seen_def u_def)
    have "data_inv c u u ?m"
    proof -
      have "WL c < 2 ^ 32" unfolding WL_def by (rule u32_bounds)
      moreover have "x + int (BL c div 2) \<le> int (?t + WL c + 1)" if "x \<in> set (write_times c u m)" "is_write p" for x
        using gap_new [OF conjunct2 [OF pb [OF P(5,6)]] _ may [OF P(6)] that(2,1)] pb [OF P(5,6)] by (auto simp: u_def)
      ultimately show ?thesis using D P(5,6) sys(5) sm(9-12) wt bound
        by (force simp: data_inv_def new_write_def data_packet_def sorted_wrt_append u_def split: if_splits)
    qed
    moreover have "sizes_inv c ?m" using z bs'(2) en(2-4) by (simp add: sizes_inv_def mc_queue_write_def)
    moreover have "queue_inv c ?m" using P(1-3) Q(2,4) sm(2,7,8) paired by (simp add: queue_inv_def)
    moreover have "ranks_inv c ?m" using assms(1) sm(1,2) by (simp add: phase_def ranks_inv_def)
    moreover have "flying c ?m" using P(5-7) sm(4,5) sys(1) by (simp add: flying_def)
    moreover have "banks_inv c u u u ?m"
      unfolding banks_inv_def Let_def wt sm
    proof (intro allI impI)
      fix i j assume ij: "i < NUM_RANKS c" "j < NUM_BANKS c"
      let ?mb = "?bs ! i ! j" and ?rb = "bankStates (mc_ranks m ! i) ! j"
      note a = pb [OF ij]
      show "accepts u (Some p) i j ?rb \<and> agree c u (bs' ! i ! j) (seen c u (Some p) i j ?rb) \<and>
        gap c (write_times c u m @ new_write c ?t p) (bs' ! i ! j) (seen c u (Some p) i j ?rb)"
      proof (cases "i = rank p")
        case True
        have mi: "may_issue c ?t p j ?mb" using may [OF ij(2)] True by simp
        show ?thesis
          using issue_accepted [of c ?t ?mb ?rb p j] issue_agree [OF _ mi sys(2) True] a mi
            gap_issue [OF _ _ mi bound sys(3,4)] bs'(3) [OF ij] True
          by (simp add: accepts_def seen_def u_def)
      next
        case False
        then show ?thesis using a issue_other_agree [of c u ?mb ?rb i p ?t j] gap_other [of c _ ?mb ?rb u i p ?t j] bs'(3) [OF ij]
          by (simp add: accepts_def seen_def)
      qed
    qed
    moreover have "power_inv c ?m"
    proof -
      have PW: "length (powerDown m) = NUM_RANKS c" "length bs' = NUM_RANKS c"
        "\<And>i. i < NUM_RANKS c \<Longrightarrow> rank_power (powerDown m ! i) (?bs ! i) (isPowerDown (mc_ranks m ! i))"
        using assms(1) bs'(2) by (simp_all add: phase_def power_inv_def bs_ok_def)
      have "rank_power (powerDown m ! i) (bs' ! i) (isPowerDown (mc_ranks m ! i))" if i: "i < NUM_RANKS c" for i
      proof (rule rank_power_same [OF PW(3) [OF i]])
        show "length (bs' ! i) = length (?bs ! i)" using B bs'(2) i by (simp add: bs_ok_def)
        fix j assume "j < length (?bs ! i)"
        then have j: "j < NUM_BANKS c" using B i by (simp add: bs_ok_def)
        have on: "currentBankState (?bs ! rank p ! j) \<noteq> PowerDown" if "j < NUM_BANKS c" for j
          using rank_power_other [OF PW(3) [OF P(5)], of "bank p" j] may_awake [OF may [OF P(6)]] B P(5,6) that
            notPD by (auto simp: bs_ok_def)
        show "(currentBankState (bs' ! i ! j) = PowerDown) = (currentBankState (?bs ! i ! j) = PowerDown)
          \<and> (currentBankState (?bs ! i ! j) = PowerDown \<longrightarrow> nextPowerUp (bs' ! i ! j) = nextPowerUp (?bs ! i ! j))"
          using issue_awake [of i p "?bs ! i ! j" c ?t j] on [OF j] by (auto simp: bs'(3) [OF i j])
      qed
      then show ?thesis using PW(1) sm by (simp add: power_inv_def)
    qed
    ultimately have ph: "phase c u u u u ?m" by (simp add: phase_def)
    have "flying_busy ?m" using issue_busy [OF may [OF P(6)] P(7)] bs'(3) [OF P(5,6)] sm(3,4) by (simp add: flying_busy_def)
    then show ?thesis using step ph sm(2) by blast
  qed
qed

section \<open>Taking transactions\<close>

lemma enqueue_two:
  assumes "cq_inv c cq" "r < NUM_RANKS c" "b < NUM_BANKS c" "CMD_QUEUE_DEPTH c < 2 ^ 32"
    "hasRoomFor c 2 r b cq = Inr True" "rank p = r" "bank p = b" "rank q = r" "bank q = b"
    "policy_type c p" "policy_type c q"
  obtains cq1 cq2 where "cq_enqueue c p cq = Inr cq1" "cq_enqueue c q cq1 = Inr cq2" "cq_inv c cq2"
    "cq_packets cq2 = add_mset q (add_mset p (cq_packets cq))" "cq_clock cq2 = cq_clock cq"
proof -
  let ?i = "qidx (queuingStructure c) b"
  have ty: "busPacketType p \<notin> {DATA, REFRESH, PRECHARGE}" "busPacketType q \<notin> {DATA, REFRESH, PRECHARGE}"
    using assms(10,11) by (auto simp: policy_type_def)
  have p: "rank p < NUM_RANKS c" "bank p < NUM_BANKS c" "rank q < NUM_RANKS c" "bank q < NUM_BANKS c" using assms by auto
  have qs: "queues_ok c (queues cq)" using assms(1) by (auto simp: cq_inv_def cq_core_def)
  have room: "length (queues cq ! r ! ?i) + 2 \<le> CMD_QUEUE_DEPTH c"
    using assms(5) hasRoomFor_value [OF assms(1-4), of 2] by simp
  let ?cq1 = "put_queue r ?i (queues cq ! r ! ?i @ [p]) cq"
  have e1: "cq_enqueue c p cq = Inr ?cq1"
    using queue_in(1) [OF qs assms(2,3)] room assms(6,7) by (simp add: cq_enqueue_def Let_def)
  note i1 = enqueue_ok [OF assms(1) p(1,2) ty(1) e1]
  have qs1: "queues_ok c (queues ?cq1)" using i1 by (simp add: cq_inv_def cq_core_def)
  have l: "r < length (queues cq)" "?i < length (queues cq ! r)"
    using qs assms(2) qidx_less [OF assms(3)] by (auto simp: queues_ok_def intro: less_le_trans)
  have len1: "queues ?cq1 ! r ! ?i = queues cq ! r ! ?i @ [p]" using l by (simp add: put_queue_def put2_nth)
  obtain cq2 where e2: "cq_enqueue c q ?cq1 = Inr cq2"
    using queue_in(1) [OF qs1 assms(2,3)] room assms(8,9) len1 by (simp add: cq_enqueue_def Let_def)
  have "cq_inv c ?cq1" using i1 by blast
  from that [OF e1 e2] enqueue_ok [OF this p(3,4) ty(2) e2] i1 show ?thesis by simp
qed

lemma take_one_ok:
  assumes "phase c v t s n m" "system_ok c" "i < length (transactionQueue m)"
  obtains m' where "mc_take_one c i m = Inr m'" "phase c v t s n m'"
    "m' = m\<lparr>pendingReadTransactions := pendingReadTransactions m', transactionQueue := transactionQueue m',
           commandQueue := commandQueue m'\<rparr>"
proof -
  let ?t = "transactionQueue m ! i" and ?a = "addressMapping c (tr_address (transactionQueue m ! i))"
  have Q: "cq_inv c (commandQueue m)" "\<forall>p \<in># cq_packets (commandQueue m). policy_type c p"
    "cq_clock (commandQueue m) = mc_clock m" "\<forall>t \<in> set (transactionQueue m). transactionType t \<noteq> RETURN_DATA"
    using assms(1) by (simp_all add: phase_def queue_inv_def)
  have sys: "widths_ok c" "pow2 (NUM_RANKS c)" "pow2 (NUM_BANKS c)" "CMD_QUEUE_DEPTH c < 2 ^ 32"
    using assms(2) by (simp_all add: system_ok_def)
  note L = location_exists [OF sys(1-3), of "tr_address ?t"]
  have ty: "transactionType ?t \<noteq> RETURN_DATA" using Q(4) assms(3) by simp
  then obtain co where co: "column_command c (transactionType ?t) = Some co"
    by (cases "transactionType ?t") (auto simp: column_command_def)
  let ?pk = "\<lambda>k d. BusPacket k (tr_address ?t) (newTransactionColumn ?a) (newTransactionRow ?a)
     (newTransactionRank ?a) (newTransactionBank ?a) d"
  let ?d = "if transactionType ?t = DATA_READ then None else tr_data ?t"
  have pol: "policy_type c (?pk ACTIVATE None)" "policy_type c (?pk co ?d)"
    using co by (auto simp: policy_type_def column_command_def split: TransactionType.splits RowBufferPolicy.splits)
  show ?thesis
  proof (cases "hasRoomFor c 2 (newTransactionRank ?a) (newTransactionBank ?a) (commandQueue m) = Inr True")
    case True
    obtain cq1 cq2 where e: "cq_enqueue c (?pk ACTIVATE None) (commandQueue m) = Inr cq1"
      "cq_enqueue c (?pk co ?d) cq1 = Inr cq2" "cq_inv c cq2"
      "cq_packets cq2 = add_mset (?pk co ?d) (add_mset (?pk ACTIVATE None) (cq_packets (commandQueue m)))"
      "cq_clock cq2 = cq_clock (commandQueue m)"
      using enqueue_two [OF Q(1) L sys(4) True, of "?pk ACTIVATE None" "?pk co ?d"] pol by auto
    have "access_of (?pk ACTIVATE None) (?pk co ?d)"
      using co by (auto simp: access_of_def column_command_def split: TransactionType.splits RowBufferPolicy.splits)
    moreover have "cq_paired c (commandQueue m)" "queues_ok c (queues (commandQueue m))"
      using assms(1) Q(1) by (simp_all add: phase_def queue_inv_def cq_inv_def cq_core_def)
    ultimately have paired: "cq_paired c cq2" using enqueue_pair [OF _ _ _ _ _ _ e(1,2)] L by simp
    let ?m = "m\<lparr>pendingReadTransactions := (if transactionType ?t = DATA_READ then pendingReadTransactions m @ [?t]
        else pendingReadTransactions m), transactionQueue := erase i (transactionQueue m), commandQueue := cq2\<rparr>"
    have "mc_take_one c i m = Inr ?m" using True co e(1,2) by (simp add: mc_take_one_def Let_def)
    moreover have "queue_inv c ?m" using e(3-5) Q pol paired set_erase [of i "transactionQueue m"] by (auto simp: queue_inv_def)
    then have "phase c v t s n ?m" using assms(1) phase_rank [OF assms(1)]
      by (intro phase_frame [OF assms(1)]) (simp_all add: phase_def sizes_inv_def)
    ultimately show ?thesis by (intro that [of ?m]) simp_all
  next
    case False
    then have "hasRoomFor c 2 (newTransactionRank ?a) (newTransactionBank ?a) (commandQueue m) = Inr False"
      using hasRoomFor_value [OF Q(1) L sys(4), of 2] by simp
    then show ?thesis using assms(1) by (intro that [of m]) (simp_all add: mc_take_one_def Let_def)
  qed
qed

lemma take_from_ok:
  assumes "phase c v t s n m" "system_ok c" "flying_busy m"
  shows "\<exists>m'. mc_take_from c i m = Inr m' \<and> phase c v t s n m' \<and> flying_busy m' \<and> mc_clock m' = mc_clock m"
  using assms
proof (induction c i m rule: mc_take_from.induct)
  case (1 c i m)
  show ?case
  proof (cases "i < length (transactionQueue m)")
    case True
    obtain m1 where m1: "mc_take_one c i m = Inr m1" "phase c v t s n m1"
      "m1 = m\<lparr>pendingReadTransactions := pendingReadTransactions m1, transactionQueue := transactionQueue m1,
           commandQueue := commandQueue m1\<rparr>"
      using take_one_ok [OF 1(2,3) True] by blast
    have "outgoingCmdPacket m1 = outgoingCmdPacket m" "mc_bankStates m1 = mc_bankStates m" "mc_clock m1 = mc_clock m"
      by (subst m1(3), simp)+
    then show ?thesis using 1(1) [OF True m1(1,2) 1(3)] m1(1) True 1(4)
      by (simp add: mc_take_from.simps [of c i m] flying_busy_def)
  next
    case False
    then show ?thesis using 1 by (simp add: mc_take_from.simps)
  qed
qed

section \<open>Power\<close>

lemma not_flying:
  assumes "flying_busy m" "flying c m" "bs_ok c (mc_bankStates m)" "i < NUM_RANKS c"
    "\<forall>s \<in> set (mc_bankStates m ! i). currentBankState s = Idle \<or> currentBankState s = PowerDown"
  shows "seen c v (outgoingCmdPacket m) i j s = s" "accepts v (outgoingCmdPacket m) i j s"
proof -
  have "i \<noteq> rank p" if p: "outgoingCmdPacket m = Some p" for p
  proof
    assume "i = rank p"
    moreover have "bank p < length (mc_bankStates m ! rank p)"
      using assms(2,3) p by (simp add: flying_def bs_ok_def)
    ultimately have "mc_bankStates m ! rank p ! bank p \<in> set (mc_bankStates m ! i)" by simp
    then show False using assms(1,5) p by (auto simp: flying_busy_def)
  qed
  then show "seen c v (outgoingCmdPacket m) i j s = s" "accepts v (outgoingCmdPacket m) i j s"
    by (auto simp: seen_def accepts_def split: option.splits)
qed

text \<open>The states of all the banks of one rank change, in the controller and in the rank.\<close>

lemma power_change:
  assumes "phase c v t s n m" "flying_busy m" "i < NUM_RANKS c"
    "\<forall>x \<in> set (mc_bankStates m ! i). currentBankState x = Idle \<or> currentBankState x = PowerDown"
    "rank_inv c (mc_clock m) r'" "isPowerDown r' = pd"
    "\<And>j. j < NUM_BANKS c \<Longrightarrow> agree c t (f (mc_bankStates m ! i ! j)) (bankStates r' ! j)
      \<and> currentBankState (bankStates r' ! j) \<noteq> RowActive"
    "rank_power pd (map f (mc_bankStates m ! i)) pd"
  defines "m' \<equiv> m\<lparr>powerDown := (powerDown m)[i := pd], mc_ranks := (mc_ranks m)[i := r'],
     mc_bankStates := (mc_bankStates m)[i := map f (mc_bankStates m ! i)]\<rparr>"
  shows "phase c v t s n m'" "flying_busy m'"
proof -
  have z: "bs_ok c (mc_bankStates m)" "flying c m" "length (mc_ranks m) = NUM_RANKS c"
    using assms(1) by (simp_all add: phase_def sizes_inv_def ranks_inv_def)
  have w: "write_times c s m' = write_times c s m" unfolding m'_def by (rule write_times_same) simp_all
  note nf = not_flying [OF assms(2) z(2,1) assms(3,4)]
  have "sizes_inv c m'" using assms(1) by (auto simp: m'_def phase_def sizes_inv_def bs_ok_def nth_upd)
  moreover have "queue_inv c m'" using assms(1) by (simp add: m'_def phase_def queue_inv_def)
  moreover have "ranks_inv c m'" using assms(1,5) by (auto simp: m'_def phase_def ranks_inv_def nth_upd)
  moreover have "data_inv c s n m'" using assms(1) by (auto simp: m'_def phase_def elim: data_inv_same)
  moreover have "power_inv c m'" using assms(1,3,6,8) z by (auto simp: m'_def phase_def power_inv_def nth_upd bs_ok_def)
  moreover have "flying c m'" using z by (simp add: m'_def flying_def)
  moreover have "banks_inv c v t s m'"
    unfolding banks_inv_def Let_def w
  proof (intro allI impI)
    fix a j assume a: "a < NUM_RANKS c" and j: "j < NUM_BANKS c"
    show "accepts v (outgoingCmdPacket m') a j (bankStates (mc_ranks m' ! a) ! j) \<and>
      agree c t (mc_bankStates m' ! a ! j) (seen c v (outgoingCmdPacket m') a j (bankStates (mc_ranks m' ! a) ! j)) \<and>
      gap c (write_times c s m) (mc_bankStates m' ! a ! j) (seen c v (outgoingCmdPacket m') a j (bankStates (mc_ranks m' ! a) ! j))"
    proof (cases "a = i")
      case True
      have "mc_bankStates m' ! i ! j = f (mc_bankStates m ! i ! j)" "mc_ranks m' ! i = r'" "outgoingCmdPacket m' = outgoingCmdPacket m"
        using z assms(3) j by (simp_all add: m'_def bs_ok_def)
      then show ?thesis using assms(7) [OF j] True nf by (simp add: gap_def)
    next
      case False
      then have "mc_bankStates m' ! a = mc_bankStates m ! a" "mc_ranks m' ! a = mc_ranks m ! a"
        "outgoingCmdPacket m' = outgoingCmdPacket m" by (simp_all add: m'_def)
      then show ?thesis using phase_bank [OF assms(1) a j] by simp
    qed
  qed
  ultimately show "phase c v t s n m'" by (simp add: phase_def)
  show "flying_busy m'"
    unfolding flying_busy_def
  proof (intro allI impI)
    fix p assume p: "outgoingCmdPacket m' = Some p"
    then have q: "outgoingCmdPacket m = Some p" by (simp add: m'_def)
    have "rank p \<noteq> i"
    proof
      assume i: "rank p = i"
      have "bank p < length (mc_bankStates m ! rank p)" using z q by (simp add: flying_def bs_ok_def)
      then have "mc_bankStates m ! rank p ! bank p \<in> set (mc_bankStates m ! i)" using i by simp
      then show False using assms(2,4) q by (auto simp: flying_busy_def)
    qed
    then show "currentBankState (mc_bankStates m' ! rank p ! bank p) \<noteq> Idle \<and>
       currentBankState (mc_bankStates m' ! rank p ! bank p) \<noteq> PowerDown"
      using assms(2) q by (simp add: m'_def flying_busy_def)
  qed
qed

lemma isEmpty_total:
  assumes "cq_inv c cq" "i < NUM_RANKS c"
  shows "\<exists>e. cq_isEmpty c i cq = Inr e"
proof -
  have qs: "length (queues cq) = NUM_RANKS c" "numBankQueues c \<le> length (queues cq ! i)"
    using assms by (simp_all add: cq_inv_def cq_core_def queues_ok_def)
  have z: "0 < NUM_BANKS c" using assms(1) by (simp add: cq_inv_def cq_core_def sizes_ok_def)
  have "\<exists>e. all_empty is qs = Inr e" if "\<forall>b \<in> set is. b < length qs" for "is" :: "nat list" and qs :: "bus_packet list list"
    using that by (induction "is") auto
  then show ?thesis using qs assms(2) z
    by (cases "queuingStructure c") (auto simp: cq_isEmpty_def numBankQueues_def Suc_le_eq)
qed

lemma low_power_ok:
  assumes "phase c v t s n m" "flying_busy m" "i < NUM_RANKS c"
  shows "\<exists>m'. mc_low_power c i m = Inr m' \<and> phase c v t s n m' \<and> flying_busy m' \<and> mc_clock m' = mc_clock m"
proof -
  let ?r = "mc_ranks m ! i" and ?bs = "mc_bankStates m ! i" and ?t = "mc_clock m"
  have z: "bs_ok c (mc_bankStates m)" "flying c m" "cq_inv c (commandQueue m)" "length (powerDown m) = NUM_RANKS c"
    and pw: "rank_power (powerDown m ! i) ?bs (isPowerDown ?r)"
    using assms(1,3) by (simp_all add: phase_def sizes_inv_def queue_inv_def power_inv_def)
  have NB: "0 < NUM_BANKS c" using z(3) by (simp add: cq_inv_def cq_core_def sizes_ok_def)
  have len: "length ?bs = NUM_BANKS c" "length (mc_bankStates m) = NUM_RANKS c" using z(1) assms(3) by (simp_all add: bs_ok_def)
  note ri = phase_rank [OF assms(1,3)]
  have rl: "length (bankStates ?r) = NUM_BANKS c" "rk_clock ?r = ?t" using ri(1) by (simp_all add: rank_inv_def)
  obtain e where e: "cq_isEmpty c i (commandQueue m) = Inr e" using isEmpty_total [OF z(3) assms(3)] by blast
  let ?quiet = "e \<and> \<not> rk_refreshWaiting ?r"
  show ?thesis
  proof (cases "?quiet \<and> list_all (\<lambda>s. currentBankState s = Idle) ?bs")
    case True
    then have idle: "\<forall>x \<in> set ?bs. currentBankState x = Idle \<or> currentBankState x = PowerDown"
      by (auto simp: list_all_iff)
    note nf = not_flying [OF assms(2) z(2,1) assms(3) idle]
    have agr: "currentBankState (?bs ! j) = Idle" "agree c t (?bs ! j) (bankStates ?r ! j)"
      "currentBankState (bankStates ?r ! j) = Idle" if "j < NUM_BANKS c" for j
    proof -
      show a: "currentBankState (?bs ! j) = Idle" using True that len by (auto simp: list_all_iff)
      show b: "agree c t (?bs ! j) (bankStates ?r ! j)" using phase_bank(2) [OF assms(1,3) that] nf by simp
      show "currentBankState (bankStates ?r ! j) = Idle" using a b by (auto simp: agree_def)
    qed
    let ?g = "\<lambda>x. x\<lparr>nextPowerUp := ?t + tCKE c, currentBankState := PowerDown\<rparr>"
    let ?f = "\<lambda>x. x\<lparr>currentBankState := PowerDown, nextPowerUp := ?t + tCKE c\<rparr>"
    let ?r' = "?r\<lparr>bankStates := map (\<lambda>j. ?g (bankStates ?r ! j)) [0..<NUM_BANKS c], isPowerDown := True\<rparr>"
    have r': "rank_powerDown c ?r = Inr ?r'"
      using agr(3) rl for_banks_cases(1) [OF rl(1), where g = "\<lambda>j. ?g (bankStates ?r ! j)"]
      by (simp add: rank_powerDown_def)
    have inv': "rank_inv c ?t ?r'" using ri(1) by (simp add: rank_inv_def)
    have ag': "agree c t (?f (?bs ! j)) (bankStates ?r' ! j) \<and> currentBankState (bankStates ?r' ! j) \<noteq> RowActive"
      if "j < NUM_BANKS c" for j using agr [OF that] that by (auto simp: agree_def)
    have pw': "rank_power True (map ?f ?bs) True" by (auto simp: rank_power_def)
    note pc = power_change [OF assms(1-3) idle inv' _ ag' pw']
    have "mc_low_power c i m = Inr (m\<lparr>powerDown := (powerDown m)[i := True], mc_ranks := (mc_ranks m)[i := ?r'],
        mc_bankStates := (mc_bankStates m)[i := map ?f ?bs]\<rparr>)"
      using e True len z(4) assms(3) ri(2) r' by (simp add: mc_low_power_def rank_in_def)
    then show ?thesis using pc by simp
  next
    case no: False
    show ?thesis
    proof (cases "\<not> ?quiet \<and> ?t \<ge> nextPowerUp (?bs ! 0) \<and> powerDown m ! i")
      case False
      then have "mc_low_power c i m = Inr m"
        using e no len z(4) assms(3) ri(2) NB by (auto simp: mc_low_power_def)
      then show ?thesis using assms by simp
    next
      case True
      have pd: "\<forall>x \<in> set ?bs. currentBankState x = PowerDown" "isPowerDown ?r"
        using pw True by (auto simp: rank_power_def)
      then have asleep: "\<forall>x \<in> set ?bs. currentBankState x = Idle \<or> currentBankState x = PowerDown" by blast
      note nf = not_flying [OF assms(2) z(2,1) assms(3) asleep]
      have agr: "currentBankState (?bs ! j) = PowerDown" "agree c t (?bs ! j) (bankStates ?r ! j)"
        "nextPowerUp (bankStates ?r ! j) \<le> ?t" if "j < NUM_BANKS c" for j
      proof -
        show a: "currentBankState (?bs ! j) = PowerDown" using pd that len by simp
        show b: "agree c t (?bs ! j) (bankStates ?r ! j)" using phase_bank(2) [OF assms(1,3) that] nf by simp
        have "nextPowerUp (?bs ! j) = nextPowerUp (?bs ! 0)"
          using pw True that len NB by (auto simp: rank_power_def)
        then show "nextPowerUp (bankStates ?r ! j) \<le> ?t" using a b True by (auto simp: agree_def)
      qed
      let ?g = "\<lambda>x. x\<lparr>nextActivate := ?t + tXP c, currentBankState := Idle\<rparr>"
      let ?f = "\<lambda>x. x\<lparr>currentBankState := Idle, nextActivate := ?t + tXP c\<rparr>"
      let ?r' = "?r\<lparr>isPowerDown := False, bankStates := map (\<lambda>j. ?g (bankStates ?r ! j)) [0..<NUM_BANKS c]\<rparr>"
      have r': "rank_powerUp c ?r = Inr ?r'"
        using agr(3) rl pd(2) for_banks_cases(1) [of "?r\<lparr>isPowerDown := False\<rparr>" c _ "\<lambda>j. ?g (bankStates ?r ! j)"]
        by (simp add: rank_powerUp_def not_less)
      have inv': "rank_inv c ?t ?r'" using ri(1) by (simp add: rank_inv_def)
      have ag': "agree c t (?f (?bs ! j)) (bankStates ?r' ! j) \<and> currentBankState (bankStates ?r' ! j) \<noteq> RowActive"
        if "j < NUM_BANKS c" for j using agr [OF that] that by (auto simp: agree_def)
      have pw': "rank_power False (map ?f ?bs) False" by (auto simp: rank_power_def)
      note pc = power_change [OF assms(1-3) asleep inv' _ ag' pw']
      have "mc_low_power c i m = Inr (m\<lparr>powerDown := (powerDown m)[i := False], mc_ranks := (mc_ranks m)[i := ?r'],
        mc_bankStates := (mc_bankStates m)[i := map ?f ?bs]\<rparr>)"
        using e True len z(4) assms(3) ri(2) r' NB by (auto simp: mc_low_power_def rank_in_def)
      then show ?thesis using pc by simp
    qed
  qed
qed

lemma background_ok:
  assumes "phase c v t s n m" "i < NUM_RANKS c"
  obtains be where "mc_background c i m = Inr (m\<lparr>backgroundEnergy := be\<rparr>)" "length be = NUM_RANKS c"
proof -
  have "length (mc_bankStates m) = NUM_RANKS c" "length (powerDown m) = NUM_RANKS c" "length (backgroundEnergy m) = NUM_RANKS c"
    using assms(1) by (simp_all add: phase_def sizes_inv_def power_inv_def bs_ok_def)
  then have "\<exists>be. mc_background c i m = Inr (m\<lparr>backgroundEnergy := be\<rparr>) \<and> length be = NUM_RANKS c"
    using assms(2) by (auto simp: mc_background_def bump_in Let_def)
  then show ?thesis using that by blast
qed

lemma power_ok:
  assumes "phase c v t s n m" "flying_busy m"
  shows "\<exists>m'. mc_power c m = Inr m' \<and> phase c v t s n m' \<and> flying_busy m' \<and> mc_clock m' = mc_clock m"
proof -
  let ?P = "\<lambda>x. phase c v t s n x \<and> flying_busy x \<and> mc_clock x = mc_clock m"
  have step: "\<exists>x'. rbind (if USE_LOW_POWER c then mc_low_power c i x else Inr x) (mc_background c i) = Inr x' \<and> ?P x'"
    if pre: "i \<in> set [0..<NUM_RANKS c]" "?P x" for i x
  proof -
    have i: "i < NUM_RANKS c" using pre(1) by simp
    obtain y where y: "(if USE_LOW_POWER c then mc_low_power c i x else Inr x) = Inr y" "?P y"
      using low_power_ok [of c v t s n x i] pre(2) i by (cases "USE_LOW_POWER c") auto
    obtain be where be: "mc_background c i y = Inr (y\<lparr>backgroundEnergy := be\<rparr>)" "length be = NUM_RANKS c"
      by (rule background_ok [OF conjunct1 [OF y(2)] i])
    have py: "phase c v t s n y" and fy: "flying_busy y" "mc_clock y = mc_clock m" using y(2) by blast+
    have "phase c v t s n (y\<lparr>backgroundEnergy := be\<rparr>)" using py be(2) phase_rank [OF py]
      by (intro phase_frame [OF py]) (simp_all add: phase_def sizes_inv_def queue_inv_def)
    then show ?thesis using y(1) be(1) fy by (simp add: flying_busy_def)
  qed
  show ?thesis unfolding mc_power_def using assms by (intro rfold_total [where P = ?P] step) auto
qed

section \<open>The end of update\<close>

lemma return_data_ok:
  assumes "phase c v t s n m" "system_ok c" "flying_busy m"
  shows "\<exists>m'. mc_return_data c m = Inr m' \<and> phase c v t s n m' \<and> flying_busy m' \<and> mc_clock m' = mc_clock m"
proof (cases "returnTransaction m")
  case Nil
  then show ?thesis using assms by (simp add: mc_return_data_def)
next
  case (Cons q qs)
  let ?a = "addressMapping c (tr_address q)"
  have sys: "widths_ok c" "pow2 (NUM_RANKS c)" "pow2 (NUM_BANKS c)" using assms(2) by (simp_all add: system_ok_def)
  note L = location_exists [OF sys, of "tr_address q"]
  have l: "length (totalEpochLatency m) = NUM_RANKS c * NUM_BANKS c" using assms(1) by (simp add: phase_def sizes_inv_def)
  have b: "\<exists>te. bump (sequential c (newTransactionRank ?a) (newTransactionBank ?a)) k (totalEpochLatency m) = Inr te
      \<and> length te = NUM_RANKS c * NUM_BANKS c" for k
    using sequential_less [OF assms(2) L] l by (simp add: bump_in)
  have "\<exists>tt te la cb pr. mc_return_data c m = Inr (m\<lparr>totalTransactions := tt, totalEpochLatency := te, latencies := la,
      callbacks := cb, pendingReadTransactions := pr, returnTransaction := qs\<rparr>) \<and> length te = NUM_RANKS c * NUM_BANKS c"
  proof (cases "find_index (\<lambda>x. tr_address x = tr_address q) (pendingReadTransactions m)")
    case None
    show ?thesis
      by (rule exI [of _ "u64_add (totalTransactions m) 1"], rule exI [of _ "totalEpochLatency m"], rule exI [of _ "latencies m"],
          rule exI [of _ "callbacks m"], rule exI [of _ "pendingReadTransactions m"])
        (use Cons None l in \<open>simp add: mc_return_data_def Let_def\<close>)
  next
    case (Some i)
    let ?p = "pendingReadTransactions m ! i"
    let ?k = "(mc_clock m - timeAdded ?p) mod 2 ^ 32"
    obtain te where te: "bump (sequential c (newTransactionRank ?a) (newTransactionBank ?a)) ?k (totalEpochLatency m) = Inr te"
      "length te = NUM_RANKS c * NUM_BANKS c" using b by blast
    show ?thesis
      by (rule exI [of _ "u64_add (totalTransactions m) 1"], rule exI [of _ te],
          rule exI [of _ "(latencies m)(?k div 10 * 10 := u32_add (latencies m (?k div 10 * 10)) 1)"],
          rule exI [of _ "if readCB m then callbacks m @ [Read_returned (tr_address ?p) (mc_clock m)] else callbacks m"],
          rule exI [of _ "erase i (pendingReadTransactions m)"])
        (use Cons Some te in \<open>simp add: mc_return_data_def insertHistogram_def returnReadData_def Let_def\<close>)
  qed
  then obtain tt te la cb pr where r: "mc_return_data c m = Inr (m\<lparr>totalTransactions := tt, totalEpochLatency := te,
      latencies := la, callbacks := cb, pendingReadTransactions := pr, returnTransaction := qs\<rparr>)"
      "length te = NUM_RANKS c * NUM_BANKS c" by blast
  have "phase c v t s n (m\<lparr>totalTransactions := tt, totalEpochLatency := te,
      latencies := la, callbacks := cb, pendingReadTransactions := pr, returnTransaction := qs\<rparr>)"
    using assms(1) r(2) phase_rank [OF assms(1)]
    by (intro phase_frame [OF assms(1)]) (simp_all add: phase_def sizes_inv_def queue_inv_def)
  then show ?thesis using r(1) assms(3) by (simp add: flying_busy_def)
qed

text \<open>The end: the counters, the clock of the queue and, at the end of an epoch, the statistics; then the
  clocks of the controller and the ranks go on.\<close>

lemma end_ok:
  assumes "phase c u u u u m" "system_ok c" "flying_busy m" "u = mc_clock m + 1"
  obtains m' where "mc_epoch c ((mc_count_refresh m)\<lparr>commandQueue := cq_step (commandQueue (mc_count_refresh m))\<rparr>) = Inr m'"
    "mc_clock m' = mc_clock m" "mc_inv c (mc_step (m'\<lparr>mc_ranks := map rank_step (mc_ranks m')\<rparr>))"
proof -
  let ?e = "(mc_count_refresh m)\<lparr>commandQueue := cq_step (commandQueue (mc_count_refresh m))\<rparr>"
  have ep: "EPOCH_COUNT c \<noteq> 0" using assms(2) by (simp add: system_ok_def)
  define m' where "m' = (case mc_epoch c ?e of Inr x \<Rightarrow> x | Inl _ \<Rightarrow> ?e)"
  have e: "mc_epoch c ?e = Inr m'" using ep by (simp add: m'_def mc_epoch_def)
  have same: "mc_bankStates m' = mc_bankStates m" "mc_ranks m' = mc_ranks m" "outgoingCmdPacket m' = outgoingCmdPacket m"
    "cmdCyclesLeft m' = cmdCyclesLeft m" "mc_outgoingDataPacket m' = mc_outgoingDataPacket m"
    "mc_dataCyclesLeft m' = mc_dataCyclesLeft m" "writeDataCountdown m' = writeDataCountdown m"
    "writeDataToSend m' = writeDataToSend m" "powerDown m' = powerDown m" "mc_clock m' = mc_clock m"
    "commandQueue m' = cq_step (commandQueue m)" "transactionQueue m' = transactionQueue m"
    using ep by (simp_all add: m'_def mc_epoch_def mc_count_refresh_def)
  have z: "sizes_inv c m'" using assms(1) ep
    by (simp add: m'_def mc_epoch_def mc_count_refresh_def phase_def sizes_inv_def)
  let ?n = "mc_step (m'\<lparr>mc_ranks := map rank_step (mc_ranks m')\<rparr>)"
  have w: "write_times c s ?n = write_times c s m" for s by (rule write_times_same) (simp_all add: mc_step_def same)
  have lr: "length (mc_ranks m) = NUM_RANKS c" using assms(1) by (simp add: phase_def ranks_inv_def)
  have bks: "bankStates (mc_ranks ?n ! i) = bankStates (mc_ranks m ! i)" "isPowerDown (mc_ranks ?n ! i) = isPowerDown (mc_ranks m ! i)"
    if "i < NUM_RANKS c" for i using that lr by (simp_all add: mc_step_def same rank_step_def)
  have "sizes_inv c ?n" using z by (simp add: sizes_inv_def mc_step_def)
  moreover have "queue_inv c ?n" using assms(1) same
    by (simp add: phase_def queue_inv_def mc_step_def cq_step_def cq_inv_def cq_core_def cq_packets_def cq_paired_def)
  moreover have "ranks_inv c ?n" using assms(1) lr
    by (simp add: phase_def ranks_inv_def mc_step_def same rank_step_def rank_inv_def)
  moreover have "data_inv c u u ?n" using assms(1) w same by (simp add: phase_def data_inv_def mc_step_def)
  moreover have "power_inv c ?n" using assms(1) bks same by (simp add: phase_def power_inv_def mc_step_def)
  moreover have "flying c ?n" using assms(1) same by (simp add: phase_def flying_def mc_step_def)
  moreover have "banks_inv c u u u ?n"
  proof -
    have "mc_bankStates ?n = mc_bankStates m" "outgoingCmdPacket ?n = outgoingCmdPacket m" by (simp_all add: mc_step_def same)
    then show ?thesis unfolding banks_inv_def Let_def w using phase_bank [OF assms(1)] bks by simp
  qed
  moreover have "mc_clock ?n = u" using same assms(4) by (simp add: mc_step_def)
  moreover have "flying_busy ?n" using assms(3) same by (simp add: flying_busy_def mc_step_def)
  ultimately have "mc_inv c ?n" by (simp add: mc_inv_def phase_def Let_def)
  from that [OF e same(10) this] show ?thesis .
qed

lemma mc_update_ok:
  assumes "mc_inv c m" "system_ok c"
  obtains m' where "mc_update c m = Inr m'" "mc_clock m' = mc_clock m" "mc_inv c (mc_step (m'\<lparr>mc_ranks := map rank_step (mc_ranks m')\<rparr>))"
proof -
  let ?t = "mc_clock m" and ?u = "mc_clock m + 1"
  have 0: "phase c ?t ?t ?t ?t m" using assms(1) by (simp add: mc_inv_def Let_def)
  let ?m0 = "mc_tick_banks c m"
  have 1: "phase c ?t ?u ?t ?t ?m0" by (rule tick_phase [OF 0])
  have c0: "mc_clock ?m0 = ?t" by (simp add: mc_tick_banks_def)
  obtain m1 where m1: "mc_command_bus c ?m0 = Inr m1" "phase c ?u ?u ?t ?t m1" "outgoingCmdPacket m1 = None" "mc_clock m1 = ?t"
    using command_bus_ok [of c ?m0 ?u ?t ?t ?u] 1 c0 assms(2) by auto
  obtain m2 m3 where m3: "mc_data_bus c m1 = Inr m2" "mc_launch_write c m2 = Inr m3" "phase c ?u ?u ?u ?t m3"
    "outgoingCmdPacket m3 = None" "mc_clock m3 = ?t" using launch_ok [OF m1(2) assms(2)] m1(3,4) by metis
  obtain m4 where m4: "mc_refresh c m3 = Inr m4" "phase c ?u ?u ?u ?t m4" "outgoingCmdPacket m4 = None" "mc_clock m4 = ?t"
    using refresh_ok [OF m3(3)] m3(4,5) by auto
  obtain m5 where m5: "mc_issue c m4 = Inr m5" "phase c ?u ?u ?u ?u m5" "flying_busy m5" "mc_clock m5 = ?t"
    using issue_ok [of c ?u m4] m4(2-4) assms(2) by auto
  obtain m6 where m6: "mc_take_from c 0 m5 = Inr m6" "phase c ?u ?u ?u ?u m6" "flying_busy m6" "mc_clock m6 = ?t"
    using take_from_ok [OF m5(2) assms(2) m5(3)] m5(4) by auto
  obtain m7 where m7: "mc_power c m6 = Inr m7" "phase c ?u ?u ?u ?u m7" "flying_busy m7" "mc_clock m7 = ?t"
    using power_ok [OF m6(2,3)] m6(4) by auto
  obtain m8 where m8: "mc_return_data c m7 = Inr m8" "phase c ?u ?u ?u ?u m8" "flying_busy m8" "mc_clock m8 = ?t"
    using return_data_ok [OF m7(2) assms(2) m7(3)] m7(4) by auto
  obtain m9 where m9: "mc_epoch c ((mc_count_refresh m8)\<lparr>commandQueue := cq_step (commandQueue (mc_count_refresh m8))\<rparr>) = Inr m9"
    "mc_clock m9 = ?t" "mc_inv c (mc_step (m9\<lparr>mc_ranks := map rank_step (mc_ranks m9)\<rparr>))"
    using end_ok [OF m8(2) assms(2) m8(3)] m8(4) by auto
  have "mc_update c m = Inr m9"
    using m1(1) m3(1,2) m4(1) m5(1) m6(1) m7(1) m8(1) m9(1) by (simp add: mc_update_def Let_def)
  from that [OF this m9(2,3)] show ?thesis .
qed

section \<open>The memory system\<close>

lemma rank_update_ok:
  assumes "rank_inv c t r"
  obtains d r' where "rank_update c r = Inr (d, r')" "rank_inv c t r'" "bankStates r' = bankStates r"
    "isPowerDown r' = isPowerDown r" "\<forall>p. d = Some p \<longrightarrow> data_packet c p"
proof -
  obtain d r1 where b: "bus_tick r = (d, r1)" by force
  have R: "length (readReturnPacket r) = length (readReturnCountdown r)" "\<forall>p \<in> set (readReturnPacket r). data_packet c p"
    "\<forall>p. outgoingDataPacket r = Some p \<longrightarrow> data_packet c p" using assms by (simp_all add: rank_inv_def)
  have r1: "readReturnPacket r1 = readReturnPacket r" "readReturnCountdown r1 = readReturnCountdown r"
    "bankStates r1 = bankStates r" "isPowerDown r1 = isPowerDown r" "rk_clock r1 = rk_clock r"
    "\<forall>p. d = Some p \<longrightarrow> data_packet c p" "\<forall>p. outgoingDataPacket r1 = Some p \<longrightarrow> data_packet c p"
    using b R(3) by (auto simp: bus_tick_def Let_def split: option.splits if_splits)
  let ?cd = "map u32_dec (readReturnCountdown r)"
  show ?thesis
  proof (cases "?cd \<noteq> [] \<and> hd ?cd = 0")
    case False
    let ?r = "r1\<lparr>readReturnCountdown := ?cd\<rparr>"
    have "rank_update c r = Inr (d, ?r)"
      using b r1(2) False by (cases "readReturnCountdown r") (auto simp: rank_update_def)
    moreover have "rank_inv c t ?r" using assms r1 R by (simp add: rank_inv_def)
    ultimately show ?thesis using r1 by (intro that [of d ?r]) simp_all
  next
    case True
    then obtain k ks where k: "readReturnCountdown r = k # ks" "u32_dec k = 0" by (cases "readReturnCountdown r") auto
    then obtain p ps where p: "readReturnPacket r = p # ps" using R(1) by (cases "readReturnPacket r") auto
    let ?r = "r1\<lparr>outgoingDataPacket := Some p, dataCyclesLeft := BL c div 2, readReturnPacket := ps,
       readReturnCountdown := map u32_dec ks\<rparr>"
    have "rank_update c r = Inr (d, ?r)" using b r1(1,2) k p by (simp add: rank_update_def)
    moreover have "rank_inv c t ?r" using assms r1 R k p by (simp add: rank_inv_def)
    ultimately show ?thesis using r1 by (intro that [of d ?r]) simp_all
  qed
qed

lemma ms_rank_update_ok:
  assumes "mc_inv c m" "system_ok c" "i < NUM_RANKS c"
  shows "\<exists>m'. ms_rank_update c i m = Inr m' \<and> mc_inv c m' \<and> mc_clock m' = mc_clock m"
proof -
  let ?t = "mc_clock m"
  have ph: "phase c ?t ?t ?t ?t m" and fb: "flying_busy m" using assms(1) by (simp_all add: mc_inv_def Let_def)
  note ri = phase_rank [OF ph]
  obtain d r' where r': "rank_update c (mc_ranks m ! i) = Inr (d, r')" "rank_inv c ?t r'"
    "bankStates r' = bankStates (mc_ranks m ! i)" "isPowerDown r' = isPowerDown (mc_ranks m ! i)"
    "\<forall>p. d = Some p \<longrightarrow> data_packet c p" by (rule rank_update_ok [OF ri(1) [OF assms(3)]])
  have l: "length (totalReadsPerBank m) = NUM_RANKS c * NUM_BANKS c" using ph by (simp add: phase_def sizes_inv_def)
  have "\<exists>rt tr. (case d of None \<Rightarrow> Inr m | Some p \<Rightarrow> mc_receiveFromBus c p m)
      = Inr (m\<lparr>returnTransaction := rt, totalReadsPerBank := tr\<rparr>) \<and> length tr = NUM_RANKS c * NUM_BANKS c"
  proof (cases d)
    case None
    then show ?thesis using l by (intro exI [of _ "returnTransaction m"] exI [of _ "totalReadsPerBank m"]) simp
  next
    case (Some p)
    then have "data_packet c p" using r'(5) by blast
    then have "(case d of None \<Rightarrow> Inr m | Some p \<Rightarrow> mc_receiveFromBus c p m) = Inr (m\<lparr>returnTransaction := returnTransaction m @
        [\<lparr>transactionType = RETURN_DATA, tr_address = physicalAddress p, tr_data = data p, timeAdded = 0, timeReturned = 0\<rparr>],
        totalReadsPerBank := (totalReadsPerBank m)[sequential c (rank p) (bank p) :=
          u64_add (totalReadsPerBank m ! sequential c (rank p) (bank p)) 1]\<rparr>)"
      using Some l sequential_less [OF assms(2)] by (simp add: mc_receiveFromBus_def data_packet_def bump_in)
    then show ?thesis by (intro exI conjI) (assumption, simp add: l)
  qed
  then obtain rt tr where rt: "(case d of None \<Rightarrow> Inr m | Some p \<Rightarrow> mc_receiveFromBus c p m)
      = Inr (m\<lparr>returnTransaction := rt, totalReadsPerBank := tr\<rparr>)" "length tr = NUM_RANKS c * NUM_BANKS c" by blast
  let ?m = "m\<lparr>returnTransaction := rt, totalReadsPerBank := tr, mc_ranks := (mc_ranks m)[i := r']\<rparr>"
  have "phase c ?t ?t ?t ?t ?m" using rt(2) r' ri ph
    by (intro phase_frame [OF ph]) (auto simp: phase_def sizes_inv_def queue_inv_def nth_upd)
  then have "mc_inv c ?m" using fb by (simp add: mc_inv_def Let_def flying_busy_def)
  then show ?thesis using rt(1) r'(1) ri(2) [OF assms(3)] by (simp add: ms_rank_update_def)
qed

definition ms_inv :: "dram_config \<Rightarrow> mem_system \<Rightarrow> bool" where
  "ms_inv c s \<longleftrightarrow> mc_inv c (memoryController s) \<and> (\<forall>t \<in> set (pendingTransactions s). transactionType t \<noteq> RETURN_DATA)
     \<and> ms_clock s = mc_clock (memoryController s)"

lemma queue_transactions_inv:
  assumes "mc_inv c m" "\<forall>t \<in> set ts. transactionType t \<noteq> RETURN_DATA"
  shows "mc_inv c (m\<lparr>transactionQueue := transactionQueue m @ ts\<rparr>)"
proof -
  let ?t = "mc_clock m"
  have ph: "phase c ?t ?t ?t ?t m" and fb: "flying_busy m" using assms(1) by (simp_all add: mc_inv_def Let_def)
  have "phase c ?t ?t ?t ?t (m\<lparr>transactionQueue := transactionQueue m @ ts\<rparr>)" using assms(2) ph phase_rank [OF ph]
    by (intro phase_frame [OF ph]) (auto simp: phase_def sizes_inv_def queue_inv_def)
  then show ?thesis using fb by (simp add: mc_inv_def Let_def flying_busy_def)
qed

lemma mc_addTransaction_inv:
  assumes "mc_inv c m" "transactionType t \<noteq> RETURN_DATA"
  shows "mc_inv c (snd (mc_addTransaction c t m))" "mc_clock (snd (mc_addTransaction c t m)) = mc_clock m"
  using assms queue_transactions_inv [OF assms(1), of "[t\<lparr>timeAdded := mc_clock m\<rparr>]"]
  by (simp_all add: mc_addTransaction_def)

lemma ms_update_ok:
  assumes "ms_inv c s" "system_ok c"
  shows "\<exists>s'. ms_update c s = Inr s' \<and> ms_inv c s'"
proof -
  let ?m = "memoryController s"
  have I: "mc_inv c ?m" "\<forall>t \<in> set (pendingTransactions s). transactionType t \<noteq> RETURN_DATA" "ms_clock s = mc_clock ?m"
    using assms(1) by (simp_all add: ms_inv_def)
  have "\<exists>m'. rfold (ms_rank_update c) [0..<NUM_RANKS c] ?m = Inr m' \<and> mc_inv c m' \<and> mc_clock m' = mc_clock ?m"
    using I(1) ms_rank_update_ok [OF _ assms(2)]
    by (intro rfold_total [where P = "\<lambda>x. mc_inv c x \<and> mc_clock x = mc_clock ?m"]) fastforce+
  then obtain m1 where m1: "rfold (ms_rank_update c) [0..<NUM_RANKS c] ?m = Inr m1" "mc_inv c m1" "mc_clock m1 = mc_clock ?m"
    by blast
  let ?s1 = "ms_pending c (s\<lparr>memoryController := m1\<rparr>)"
  have s1: "mc_inv c (memoryController ?s1)" "mc_clock (memoryController ?s1) = mc_clock ?m" "ms_clock ?s1 = ms_clock s"
    "\<forall>t \<in> set (pendingTransactions ?s1). transactionType t \<noteq> RETURN_DATA"
    using m1(2,3) I(2) mc_addTransaction_inv [OF m1(2)] by (auto simp: ms_pending_def split: list.split)
  obtain m2 where m2: "mc_update c (memoryController ?s1) = Inr m2" "mc_clock m2 = mc_clock (memoryController ?s1)"
    "mc_inv c (mc_step (m2\<lparr>mc_ranks := map rank_step (mc_ranks m2)\<rparr>))" by (rule mc_update_ok [OF s1(1) assms(2)])
  show ?thesis using m1(1) m2 s1 I(3) by (simp add: ms_update_def ms_inv_def Let_def mc_step_def)
qed

lemma ms_inv_init:
  assumes "system_ok c"
  obtains s where "ms_init c = Inr s" "ms_inv c s"
proof -
  have sys: "sizes_ok c" "0 < tFAW c" "tFAW c < 2 ^ 32" "DEVICE_WIDTH c \<noteq> 0" "NUM_ROWS c \<noteq> 0" "NUM_COLS c \<noteq> 0"
    "NUM_BANKS c \<noteq> 0" "NUM_RANKS c \<noteq> 0" using assms by (simp_all add: system_ok_def sizes_ok_def)
  define m where "m = (case mc_init c (map (rank_init c) [0..<NUM_RANKS c]) of Inr m \<Rightarrow> m | Inl _ \<Rightarrow> undefined)"
  have i: "mc_init c (map (rank_init c) [0..<NUM_RANKS c]) = Inr m"
    using sys by (simp add: m_def mc_init_def TOTAL_STORAGE_def)
  have f: "mc_bankStates m = replicate (NUM_RANKS c) (replicate (NUM_BANKS c) BankState)" "commandQueue m = cq_init c"
    "mc_ranks m = map (rank_init c) [0..<NUM_RANKS c]" "outgoingCmdPacket m = None" "mc_outgoingDataPacket m = None"
    "writeDataToSend m = []" "writeDataCountdown m = []" "powerDown m = replicate (NUM_RANKS c) False" "mc_clock m = 0"
    "transactionQueue m = []"
    using sys by (simp_all add: m_def mc_init_def TOTAL_STORAGE_def)
  have "sizes_inv c m" using sys by (simp add: m_def mc_init_def TOTAL_STORAGE_def sizes_inv_def bs_ok_def)
  moreover have "queue_inv c m" using cq_inv_init [OF sys(1-3)] f cq_paired_init by (simp add: queue_inv_def cq_packets_init) (simp add: cq_init_def)
  moreover have "ranks_inv c m" using f by (simp add: ranks_inv_def rank_inv_def rank_init_def)
  moreover have "data_inv c 0 0 m" using f by (simp add: data_inv_def write_times_def)
  moreover have "power_inv c m" using f by (simp add: power_inv_def rank_power_def rank_init_def BankState_def)
  moreover have "banks_inv c 0 0 0 m"
    using f agree_init by (simp add: banks_inv_def seen_def accepts_def rank_init_def gap_def write_times_def)
  ultimately have "mc_inv c m" using f by (simp add: mc_inv_def phase_def flying_def flying_busy_def Let_def)
  then show ?thesis using i f(9)
    by (intro that [of "\<lparr>memoryController = m, pendingTransactions = [], ms_clock = 0\<rparr>"])
      (simp_all add: ms_init_def ms_inv_def)
qed

text \<open>What a simulator does with the memory system.\<close>

inductive ms_run :: "dram_config \<Rightarrow> mem_system \<Rightarrow> bool" where
  start: "ms_init c = Inr s \<Longrightarrow> ms_run c s"
| register: "ms_run c s \<Longrightarrow> ms_run c (RegisterCallbacks r w s)"
| add: "ms_run c s \<Longrightarrow> ms_run c (snd (ms_addTransaction c isWrite addr s))"
| add_ref: "ms_run c s \<Longrightarrow> transactionType t \<noteq> RETURN_DATA \<Longrightarrow> ms_run c (snd (ms_addTransaction_ref c t s))"
| update: "ms_run c s \<Longrightarrow> ms_update c s = Inr s' \<Longrightarrow> ms_run c s'"

lemma callbacks_inv: "mc_inv c m \<Longrightarrow> mc_inv c (m\<lparr>readCB := r, writeCB := w\<rparr>)"
proof -
  assume a: "mc_inv c m"
  let ?t = "mc_clock m"
  have ph: "phase c ?t ?t ?t ?t m" and fb: "flying_busy m" using a by (simp_all add: mc_inv_def Let_def)
  have "phase c ?t ?t ?t ?t (m\<lparr>readCB := r, writeCB := w\<rparr>)" using ph phase_rank [OF ph]
    by (intro phase_frame [OF ph]) (simp_all add: phase_def sizes_inv_def queue_inv_def)
  then show ?thesis using fb by (simp add: mc_inv_def Let_def flying_busy_def)
qed

lemma ms_run_inv: "ms_run c s \<Longrightarrow> system_ok c \<Longrightarrow> ms_inv c s"
proof (induction rule: ms_run.induct)
  case (start c s)
  then show ?case using ms_inv_init by (metis Inr_inject)
next
  case (register c s r w)
  then show ?case using callbacks_inv by (simp add: ms_inv_def RegisterCallbacks_def)
next
  case (add c s isWrite addr)
  let ?t = "new_transaction (if isWrite then DATA_WRITE else DATA_READ) addr None"
  have "transactionType ?t \<noteq> RETURN_DATA" by (simp add: new_transaction_def)
  moreover have "mc_inv c (memoryController s)" using add by (simp add: ms_inv_def)
  ultimately show ?case using add mc_addTransaction_inv [of c "memoryController s" ?t]
    by (auto simp: ms_addTransaction_def ms_inv_def Let_def split: prod.split)
next
  case (add_ref c s t)
  then have "mc_inv c (memoryController s)" by (simp add: ms_inv_def)
  with add_ref mc_addTransaction_inv [of c "memoryController s" t] show ?case
    by (auto simp: ms_addTransaction_ref_def ms_inv_def split: prod.split)
next
  case (update c s s')
  then show ?case using ms_update_ok by fastforce
qed

end
