(* ===== verification/RefreshSchedule.thy ===== *)
theory RefreshSchedule
  imports MemorySafety
begin

text \<open>
  The refresh requests of the controller. Every rank has a countdown, but only that of the rank
  whose turn it is is looked at. The countdowns are started so that they end in the order of the
  turns; the lemmas show that none of them is missed (it would wrap around to \<open>2 ^ 32 - 1\<close>).
\<close>

section \<open>What does not touch the countdowns\<close>

definition same_refresh :: "mem_ctrl \<Rightarrow> mem_ctrl \<Rightarrow> bool" where
  "same_refresh m m' \<longleftrightarrow> refreshCountdown m' = refreshCountdown m \<and> mc_refreshRank m' = mc_refreshRank m
     \<and> mc_clock m' = mc_clock m"

lemma same_refresh_trans: "same_refresh x y \<Longrightarrow> same_refresh y z \<Longrightarrow> same_refresh x z"
  by (simp add: same_refresh_def)

lemma to_rank_refresh: "to_rank c p m = Inr m' \<Longrightarrow> same_refresh m m'"
  by (auto simp: to_rank_def rbind_eq_Inr same_refresh_def)

lemma command_bus_refresh: "mc_command_bus c m = Inr m' \<Longrightarrow> same_refresh m m'"
  using to_rank_refresh
  by (fastforce simp: mc_command_bus_def rbind_eq_Inr same_refresh_def Let_def split: option.splits if_splits)

lemma data_bus_refresh: "mc_data_bus c m = Inr m' \<Longrightarrow> same_refresh m m'"
  using to_rank_refresh
  by (fastforce simp: mc_data_bus_def rbind_eq_Inr same_refresh_def Let_def split: option.splits if_splits)

lemma launch_refresh: "mc_launch_write c m = Inr m' \<Longrightarrow> same_refresh m m'"
  by (auto simp: mc_launch_write_def rbind_eq_Inr same_refresh_def split: list.splits if_splits)

lemma add_energy_refresh: "add_energy c p m = Inr m' \<Longrightarrow> same_refresh m m'"
  by (auto simp: add_energy_def rbind_eq_Inr same_refresh_def Let_def split: if_splits)

lemma issue_refresh: "mc_issue c m = Inr m' \<Longrightarrow> same_refresh m m'"
  using add_energy_refresh
  by (fastforce simp: mc_issue_def rbind_eq_Inr same_refresh_def mc_queue_write_def Let_def split: option.splits if_splits)

lemma take_one_refresh: "mc_take_one c i m = Inr m' \<Longrightarrow> same_refresh m m'"
  by (auto simp: mc_take_one_def rbind_eq_Inr same_refresh_def Let_def split: option.splits if_splits)

lemma take_from_invariant:
  assumes "mc_take_from c i m = Inr m'" "P m"
    and "\<And>i x y. P x \<Longrightarrow> i < length (transactionQueue x) \<Longrightarrow> mc_take_one c i x = Inr y \<Longrightarrow> P y"
  shows "P m'"
  using assms
proof (induction c i m rule: mc_take_from.induct)
  case (1 c i m)
  then show ?case
    by (cases "i < length (transactionQueue m)") (auto simp: mc_take_from.simps [of c i m] rbind_eq_Inr)
qed

lemma take_from_refresh: "mc_take_from c i m = Inr m' \<Longrightarrow> same_refresh m m'"
  by (rule take_from_invariant) (auto simp: same_refresh_def dest: take_one_refresh)

lemma power_refresh: "mc_power c m = Inr m' \<Longrightarrow> same_refresh m m'"
proof -
  assume "mc_power c m = Inr m'"
  then have r: "rfold (\<lambda>i m. rbind (if USE_LOW_POWER c then mc_low_power c i m else Inr m) (mc_background c i))
      [0..<NUM_RANKS c] m = Inr m'" by (simp add: mc_power_def)
  show ?thesis
  proof (rule rfold_invariant [OF r, where P = "same_refresh m"])
    show "same_refresh m m" by (simp add: same_refresh_def)
    fix i s t assume s: "same_refresh m s" and
      t: "rbind (if USE_LOW_POWER c then mc_low_power c i s else Inr s) (mc_background c i) = Inr t"
    obtain u where u: "(if USE_LOW_POWER c then mc_low_power c i s else Inr s) = Inr u" "mc_background c i u = Inr t"
      using t by (auto simp: rbind_eq_Inr)
    have "same_refresh s u" using u(1)
      by (auto simp: mc_low_power_def rank_in_def rbind_eq_Inr same_refresh_def split: if_splits)
    moreover have "same_refresh u t" using u(2)
      by (auto simp: mc_background_def rbind_eq_Inr same_refresh_def Let_def)
    ultimately show "same_refresh m t" using s same_refresh_trans by blast
  qed
qed

lemma return_data_refresh: "mc_return_data c m = Inr m' \<Longrightarrow> same_refresh m m'"
  by (auto simp: mc_return_data_def insertHistogram_def returnReadData_def rbind_eq_Inr same_refresh_def Let_def
      split: list.splits option.splits)

lemma epoch_refresh: "mc_epoch c m = Inr m' \<Longrightarrow> same_refresh m m'"
  by (auto simp: mc_epoch_def same_refresh_def split: if_splits)

lemma rank_update_refresh: "ms_rank_update c i m = Inr m' \<Longrightarrow> same_refresh m m'"
  by (auto simp: ms_rank_update_def mc_receiveFromBus_def rbind_eq_Inr same_refresh_def split: option.splits)

section \<open>The schedule\<close>

text \<open>Rank \<open>i\<close> is due in the cycles \<open>STAGGER * (i + 1) + k * CYCLES\<close>.\<close>

definition due_at :: "dram_config \<Rightarrow> nat \<Rightarrow> nat \<Rightarrow> nat" where
  "due_at c i k = REFRESH_STAGGER c * (i + 1) + k * REFRESH_CYCLES c"

definition refresh_due :: "dram_config \<Rightarrow> nat \<Rightarrow> nat \<Rightarrow> bool" where
  "refresh_due c i t \<longleftrightarrow> REFRESH_STAGGER c * (i + 1) \<le> t \<and> (t - REFRESH_STAGGER c * (i + 1)) mod REFRESH_CYCLES c = 0"

lemma refresh_due_iff: "refresh_due c i t \<longleftrightarrow> (\<exists>k. t = due_at c i k)"
proof
  assume "refresh_due c i t"
  then have "REFRESH_STAGGER c * (i + 1) \<le> t" "REFRESH_CYCLES c dvd t - REFRESH_STAGGER c * (i + 1)"
    by (simp_all add: refresh_due_def mod_eq_0_iff_dvd)
  then obtain k where "t - REFRESH_STAGGER c * (i + 1) = REFRESH_CYCLES c * k" by (auto elim: dvdE)
  then have "t = due_at c i k" using \<open>_ \<le> t\<close> by (simp add: due_at_def mult.commute)
  then show "\<exists>k. t = due_at c i k" ..
qed (auto simp: refresh_due_def due_at_def)

lemma due_at_less: "0 < REFRESH_CYCLES c \<Longrightarrow> due_at c i l < due_at c i q \<longleftrightarrow> l < q"
  by (simp add: due_at_def)

text \<open>The ranks before the one whose turn it is have been served in round \<open>k\<close> and wait for the next one.\<close>

definition next_due :: "dram_config \<Rightarrow> mem_ctrl \<Rightarrow> nat \<Rightarrow> nat \<Rightarrow> nat" where
  "next_due c m k i = due_at c i (if i < mc_refreshRank m then k + 1 else k)"

definition schedule :: "dram_config \<Rightarrow> mem_ctrl \<Rightarrow> bool" where
  "schedule c m \<longleftrightarrow>
     length (refreshCountdown m) = NUM_RANKS c \<and> mc_refreshRank m < NUM_RANKS c \<and>
     (\<exists>k. mc_clock m \<le> next_due c m k (mc_refreshRank m) \<and>
        (\<forall>i < NUM_RANKS c. refreshCountdown m ! i = next_due c m k i - mc_clock m \<and>
           (\<forall>l. due_at c i l < next_due c m k i \<longrightarrow> due_at c i l < mc_clock m)))"

definition refresh_period_ok :: "dram_config \<Rightarrow> bool" where
  "refresh_period_ok c \<longleftrightarrow> 0 < REFRESH_STAGGER c \<and> NUM_RANKS c * REFRESH_STAGGER c \<le> REFRESH_CYCLES c
     \<and> 2 * REFRESH_CYCLES c < 2 ^ 32"

lemma due_order:
  assumes "refresh_period_ok c" "mc_refreshRank m < NUM_RANKS c" "i < NUM_RANKS c" "i \<noteq> mc_refreshRank m"
  shows "next_due c m k (mc_refreshRank m) < next_due c m k i"
proof (cases "i < mc_refreshRank m")
  case True
  let ?s = "REFRESH_STAGGER c"
  have "?s * (mc_refreshRank m + 1) \<le> ?s * NUM_RANKS c" using assms(2) by (intro mult_le_mono2) simp
  also have "\<dots> \<le> REFRESH_CYCLES c" using assms(1) by (simp add: refresh_period_ok_def mult.commute)
  also have "\<dots> < ?s * (i + 1) + REFRESH_CYCLES c" using assms(1) by (simp add: refresh_period_ok_def)
  finally show ?thesis using True by (simp add: next_due_def due_at_def)
next
  case False
  then have "mc_refreshRank m + 1 < i + 1" using assms(4) by simp
  then have "REFRESH_STAGGER c * (mc_refreshRank m + 1) < REFRESH_STAGGER c * (i + 1)"
    using assms(1) by (intro mult_strict_left_mono) (simp_all add: refresh_period_ok_def)
  then show ?thesis using False by (simp add: next_due_def due_at_def)
qed

lemma refresh_request:
  assumes "schedule c m" "refresh_period_ok c" "i < NUM_RANKS c"
  shows "refresh_due c i (mc_clock m) \<longleftrightarrow> i = mc_refreshRank m \<and> refreshCountdown m ! i = 0"
    and "refreshCountdown m ! i < 2 ^ 32"
    and "\<exists>k. mc_clock m \<le> due_at c i k \<and> refreshCountdown m ! i = due_at c i k - mc_clock m
      \<and> (\<forall>l. mc_clock m \<le> due_at c i l \<longrightarrow> due_at c i k \<le> due_at c i l)"
proof -
  let ?rr = "mc_refreshRank m" and ?t = "mc_clock m"
  obtain k where k: "?t \<le> next_due c m k ?rr" and
    cd: "\<And>i. i < NUM_RANKS c \<Longrightarrow> refreshCountdown m ! i = next_due c m k i - ?t" and
    prev: "\<And>i l. i < NUM_RANKS c \<Longrightarrow> due_at c i l < next_due c m k i \<Longrightarrow> due_at c i l < ?t"
    and rr: "?rr < NUM_RANKS c" using assms(1) by (auto simp: schedule_def)
  have ge: "?t \<le> next_due c m k i" and gt: "i \<noteq> ?rr \<Longrightarrow> ?t < next_due c m k i"
    using k due_order [OF assms(2) rr assms(3), of k] by fastforce+
  show "refresh_due c i ?t \<longleftrightarrow> i = ?rr \<and> refreshCountdown m ! i = 0"
  proof
    assume "refresh_due c i ?t"
    then obtain l where l: "?t = due_at c i l" by (auto simp: refresh_due_iff)
    then have "next_due c m k i \<le> ?t" using prev [OF assms(3), of l] by (cases "due_at c i l < next_due c m k i") auto
    then show "i = ?rr \<and> refreshCountdown m ! i = 0" using gt cd [OF assms(3)] by (cases "i = ?rr") auto
  next
    assume "i = ?rr \<and> refreshCountdown m ! i = 0"
    then have "next_due c m k i = ?t" using ge cd [OF assms(3)] by auto
    then show "refresh_due c i ?t" unfolding refresh_due_iff next_due_def by metis
  qed
  have "due_at c i l < ?t" if "due_at c i l < next_due c m k i" for l using prev [OF assms(3) that] .
  then have least: "next_due c m k i \<le> due_at c i l" if "?t \<le> due_at c i l" for l
    using that by (cases "due_at c i l < next_due c m k i") fastforce+
  obtain q where q: "next_due c m k i = due_at c i q" by (simp add: next_due_def)
  show "\<exists>k. ?t \<le> due_at c i k \<and> refreshCountdown m ! i = due_at c i k - ?t
      \<and> (\<forall>l. ?t \<le> due_at c i l \<longrightarrow> due_at c i k \<le> due_at c i l)"
    by (rule exI [of _ q]) (use ge cd [OF assms(3)] least in \<open>simp add: q\<close>)
  have "next_due c m k i \<le> ?t + 2 * REFRESH_CYCLES c"
  proof (cases "(if i < ?rr then k + 1 else k) = 0")
    case True
    have "REFRESH_STAGGER c * (i + 1) \<le> REFRESH_STAGGER c * NUM_RANKS c" using assms(3) by (intro mult_le_mono2) simp
    then show ?thesis using True assms(2) by (simp add: next_due_def due_at_def refresh_period_ok_def mult.commute)
  next
    case False
    then obtain l where l: "(if i < ?rr then k + 1 else k) = Suc l" by (cases "if i < ?rr then k + 1 else k") auto
    have P: "0 < REFRESH_CYCLES c" using assms(2,3) by (auto simp: refresh_period_ok_def intro: less_le_trans [rotated])
    then have "due_at c i l < next_due c m k i" using l by (simp add: next_due_def due_at_def)
    then have "due_at c i l < ?t" by (rule prev [OF assms(3)])
    then show ?thesis using l by (simp add: next_due_def due_at_def)
  qed
  then show "refreshCountdown m ! i < 2 ^ 32" 
    using cd [OF assms(3)] assms(2) unfolding refresh_period_ok_def by linarith
qed

lemma schedule_init:
  assumes "mc_init c rks = Inr m" "refresh_period_ok c" "sizes_ok c"
  shows "schedule c m"
proof -
  have f: "refreshCountdown m = map (\<lambda>i. u32_mul (REFRESH_STAGGER c) (i + 1)) [0..<NUM_RANKS c]" "mc_refreshRank m = 0"
    "mc_clock m = 0" using assms(1) by (auto simp: mc_init_def rbind_eq_Inr)
  have "u32_mul (REFRESH_STAGGER c) (i + 1) = due_at c i 0" if "i < NUM_RANKS c" for i
  proof -
    have "REFRESH_STAGGER c * (i + 1) \<le> REFRESH_STAGGER c * NUM_RANKS c" using that by (intro mult_le_mono2) simp
    then have "REFRESH_STAGGER c * (i + 1) < 2 ^ 32" using assms(2) by (simp add: refresh_period_ok_def mult.commute)
    then show ?thesis by (simp add: u32_mul_small due_at_def)
  qed
  then show ?thesis using f assms(3) unfolding schedule_def
    by (intro conjI exI [of _ 0]) (auto simp: sizes_ok_def next_due_def due_at_def)
qed

text \<open>One cycle: \<open>mc_refresh\<close> serves the rank that is due, then all the countdowns go on.\<close>

lemma schedule_same: "same_refresh m m' \<Longrightarrow> schedule c m \<Longrightarrow> schedule c m'"
  by (simp add: same_refresh_def schedule_def next_due_def)

lemma schedule_cycle:
  assumes "schedule c m" "refresh_period_ok c" "sizes_ok c" "mc_refresh c m = Inr m1" "same_refresh m1 m2"
    "refreshCountdown m3 = map u32_dec (refreshCountdown m2)" "mc_refreshRank m3 = mc_refreshRank m2" "mc_clock m3 = mc_clock m2 + 1"
  shows "schedule c m3"
proof -
  let ?rr = "mc_refreshRank m" and ?t = "mc_clock m" and ?P = "REFRESH_CYCLES c"
  obtain k where k: "?t \<le> next_due c m k ?rr" and
    cd: "\<And>i. i < NUM_RANKS c \<Longrightarrow> refreshCountdown m ! i = next_due c m k i - ?t" and
    prev: "\<And>i l. i < NUM_RANKS c \<Longrightarrow> due_at c i l < next_due c m k i \<Longrightarrow> due_at c i l < ?t"
    and rr: "?rr < NUM_RANKS c" and len: "length (refreshCountdown m) = NUM_RANKS c" using assms(1) by (auto simp: schedule_def)
  have P: "0 < ?P" "?P < 2 ^ 32" using assms(2) rr by (auto simp: refresh_period_ok_def intro: less_le_trans [rotated])
  note lt = refresh_request(2) [OF assms(1,2)]
  have step: "mc_clock m3 = ?t + 1" "refreshCountdown m3 = map u32_dec (refreshCountdown m1)" "mc_refreshRank m3 = mc_refreshRank m1"
    using assms(4-8) by (auto simp: same_refresh_def mc_refresh_def set_refreshWaiting_def rbind_eq_Inr Let_def split: if_splits)
  show ?thesis
  proof (cases "refreshCountdown m ! ?rr = 0")
    case False
    then have m1: "refreshCountdown m1 = refreshCountdown m" "mc_refreshRank m1 = ?rr"
      using assms(4) by (auto simp: mc_refresh_def set_refreshWaiting_def rbind_eq_Inr at_eq_Inr Let_def split: if_splits)
    have nd: "next_due c m3 k i = next_due c m k i" for i using step(3) m1(2) by (simp add: next_due_def)
    have later: "?t < next_due c m k i" if "i < NUM_RANKS c" for i
      using False cd [OF rr] k due_order [OF assms(2) rr that, of k] by (cases "i = ?rr") auto
    have "refreshCountdown m3 ! i = next_due c m3 k i - mc_clock m3" if "i < NUM_RANKS c" for i
      using step(1,2) m1(1) len that cd [OF that] later [OF that] lt [OF that] nd by (simp add: u32_dec_pos)
    moreover have "due_at c i l < mc_clock m3" if "i < NUM_RANKS c" "due_at c i l < next_due c m3 k i" for i l
      using prev [OF that(1)] that(2) nd step(1) by fastforce
    ultimately show ?thesis using step m1 rr len later [OF rr] nd unfolding schedule_def
      by (intro conjI exI [of _ k]) auto
  next
    case True
    have at_t: "next_due c m k ?rr = ?t" using True cd [OF rr] k by simp
    have w: "(let rr' = u32_add ?rr 1 in if rr' = NUM_RANKS c then 0 else rr') = (?rr + 1) mod NUM_RANKS c"
      using rr assms(3) by (intro wrap_inc) (simp_all add: sizes_ok_def)
    have m1: "refreshCountdown m1 = (refreshCountdown m)[?rr := ?P]" "mc_refreshRank m1 = (?rr + 1) mod NUM_RANKS c"
      using assms(4) True w by (auto simp: mc_refresh_def set_refreshWaiting_def rbind_eq_Inr at_eq_Inr Let_def split: if_splits)
    let ?k = "if ?rr + 1 = NUM_RANKS c then k + 1 else k"
    have nd: "next_due c m3 ?k i = (if i = ?rr then ?t + ?P else next_due c m k i)" if "i < NUM_RANKS c" for i
      using that rr at_t step(3) m1(2) by (auto simp: next_due_def due_at_def)
    have later: "?t < next_due c m3 ?k i" if "i < NUM_RANKS c" for i
      using nd [OF that] at_t P due_order [OF assms(2) rr that, of k] by auto
    have "refreshCountdown m3 ! i = next_due c m3 ?k i - mc_clock m3" if "i < NUM_RANKS c" for i
      using step(1,2) m1(1) len that cd [OF that] lt [OF that] P nd [OF that] later [OF that] by (auto simp: nth_upd u32_dec_pos)
    moreover have "due_at c i l < mc_clock m3" if i: "i < NUM_RANKS c" and l: "due_at c i l < next_due c m3 ?k i" for i l
    proof (cases "i = ?rr")
      case True
      have "due_at c i l < next_due c m k i \<or> due_at c i l = next_due c m k i"
      proof -
        let ?q = "if i < ?rr then k + 1 else k"
        have n: "next_due c m k i = due_at c i ?q" by (simp add: next_due_def)
        have "due_at c i l < due_at c i (?q + 1)" using l nd [OF i] True at_t n by (simp add: due_at_def)
        then have "l < ?q + 1" using due_at_less [OF P(1)] by blast
        then have "l = ?q \<or> l < ?q" by linarith
        then show ?thesis using due_at_less [OF P(1)] unfolding n by blast
      qed
      then show ?thesis using prev [OF i, of l] at_t True step(1) by auto
    next
      case False
      then show ?thesis using prev [OF i, of l] l nd [OF i] step(1) by simp
    qed
    moreover have "mc_refreshRank m3 < NUM_RANKS c" using step(3) m1(2) rr by simp
    ultimately show ?thesis using step m1 len later unfolding schedule_def
      by (intro conjI exI [of _ ?k]) (auto simp: Suc_le_eq)
  qed
qed

section \<open>The memory system\<close>

lemma mc_update_schedule:
  assumes "mc_update c m = Inr m'" "schedule c m" "refresh_period_ok c" "sizes_ok c"
  shows "schedule c (mc_step (m'\<lparr>mc_ranks := rs\<rparr>))"
proof -
  obtain m1 m2 m3 m4 m5 m6 m7 m8 where
    s: "mc_command_bus c (mc_tick_banks c m) = Inr m1" "mc_data_bus c m1 = Inr m2" "mc_launch_write c m2 = Inr m3"
      "mc_refresh c m3 = Inr m4" "mc_issue c m4 = Inr m5" "mc_take_from c 0 m5 = Inr m6" "mc_power c m6 = Inr m7"
      "mc_return_data c m7 = Inr m8"
      "mc_epoch c ((mc_count_refresh m8)\<lparr>commandQueue := cq_step (commandQueue (mc_count_refresh m8))\<rparr>) = Inr m'"
    using assms(1) by (auto simp: mc_update_def rbind_eq_Inr Let_def)
  have "same_refresh m (mc_tick_banks c m)" by (simp add: same_refresh_def mc_tick_banks_def)
  then have "same_refresh m m3"
    using command_bus_refresh [OF s(1)] data_bus_refresh [OF s(2)] launch_refresh [OF s(3)] same_refresh_trans by blast
  then have "schedule c m3" using assms(2) schedule_same by blast
  moreover have "same_refresh m4 m8"
    using issue_refresh [OF s(5)] take_from_refresh [OF s(6)] power_refresh [OF s(7)] return_data_refresh [OF s(8)]
      same_refresh_trans by blast
  ultimately show ?thesis
    by (rule schedule_cycle [OF _ assms(3,4) s(4)])
      (use epoch_refresh [OF s(9)] in \<open>simp_all add: same_refresh_def mc_count_refresh_def mc_step_def\<close>)
qed

lemma ms_update_schedule:
  assumes "ms_update c s = Inr s'" "schedule c (memoryController s)" "refresh_period_ok c" "sizes_ok c"
  shows "schedule c (memoryController s')"
proof -
  obtain m1 m2 where r: "rfold (ms_rank_update c) [0..<NUM_RANKS c] (memoryController s) = Inr m1"
    "mc_update c (memoryController (ms_pending c (s\<lparr>memoryController := m1\<rparr>))) = Inr m2"
    "memoryController s' = mc_step (m2\<lparr>mc_ranks := map rank_step (mc_ranks m2)\<rparr>)"
    using assms(1) by (auto simp: ms_update_def rbind_eq_Inr Let_def)
  have "same_refresh (memoryController s) m1"
    by (rule rfold_invariant [OF r(1)]) (auto simp: same_refresh_def dest: rank_update_refresh)
  moreover have "same_refresh m1 (memoryController (ms_pending c (s\<lparr>memoryController := m1\<rparr>)))"
    by (auto simp: ms_pending_def mc_addTransaction_def same_refresh_def split: list.split)
  ultimately have "schedule c (memoryController (ms_pending c (s\<lparr>memoryController := m1\<rparr>)))"
    using assms(2) schedule_same by blast
  from mc_update_schedule [OF r(2) this assms(3,4)] show ?thesis unfolding r(3) .
qed

lemma ms_run_schedule: "ms_run c s \<Longrightarrow> refresh_period_ok c \<Longrightarrow> sizes_ok c \<Longrightarrow> schedule c (memoryController s)"
proof (induction rule: ms_run.induct)
  case (start c s)
  then show ?case using schedule_init by (auto simp: ms_init_def rbind_eq_Inr)
next
  case (register c s r w)
  then have "schedule c (memoryController s)" by blast
  then show ?case by (rule schedule_same [rotated]) (simp add: RegisterCallbacks_def same_refresh_def)
next
  case (add c s isWrite addr)
  then have "schedule c (memoryController s)" by blast
  then show ?case by (rule schedule_same [rotated])
      (simp add: ms_addTransaction_def mc_addTransaction_def same_refresh_def Let_def)
next
  case (add_ref c s t)
  then have "schedule c (memoryController s)" by blast
  then show ?case by (rule schedule_same [rotated])
      (simp add: ms_addTransaction_ref_def mc_addTransaction_def same_refresh_def)
next
  case (update c s s')
  then show ?case using ms_update_schedule by blast
qed

section \<open>The requests\<close>

text \<open>The rank that the command queue has a request for a refresh of, and the refresh command that \<open>update\<close>
  has put on the command bus.\<close>

definition request :: "mem_ctrl \<Rightarrow> nat option" where
  "request m = (if refreshWaiting (commandQueue m) then Some (refreshRank (commandQueue m)) else None)"

definition refresh_sent :: "mem_ctrl \<Rightarrow> nat \<Rightarrow> bool" where
  "refresh_sent m i \<longleftrightarrow> (\<exists>p. outgoingCmdPacket m = Some p \<and> busPacketType p = REFRESH \<and> rank p = i)"

text \<open>Requested, and then waiting or sent.\<close>

definition served :: "mem_ctrl \<Rightarrow> nat option \<Rightarrow> bool" where
  "served m r \<longleftrightarrow> (request m = r \<and> (\<forall>i. \<not> refresh_sent m i))
     \<or> (request m = None \<and> (\<exists>i. r = Some i \<and> (\<forall>j. refresh_sent m j \<longleftrightarrow> j = i)))"

definition same_request :: "mem_ctrl \<Rightarrow> mem_ctrl \<Rightarrow> bool" where
  "same_request m m' \<longleftrightarrow> request m' = request m \<and> outgoingCmdPacket m' = outgoingCmdPacket m"

lemma same_request_trans: "same_request x y \<Longrightarrow> same_request y z \<Longrightarrow> same_request x z"
  by (simp add: same_request_def)

lemma same_request_queue: "commandQueue m' = commandQueue m \<Longrightarrow> request m' = request m"
  by (simp add: request_def)

lemma served_same: "same_request m m' \<Longrightarrow> served m r \<Longrightarrow> served m' r"
  by (simp add: same_request_def served_def refresh_sent_def)

lemma to_rank_queue: "to_rank c p m = Inr m' \<Longrightarrow> commandQueue m' = commandQueue m"
  by (auto simp: to_rank_def rbind_eq_Inr)

lemma command_bus_queue: "mc_command_bus c m = Inr m' \<Longrightarrow> commandQueue m' = commandQueue m"
  using to_rank_queue
  by (fastforce simp: mc_command_bus_def rbind_eq_Inr Let_def split: option.splits if_splits)

lemma data_bus_queue: "mc_data_bus c m = Inr m' \<Longrightarrow> commandQueue m' = commandQueue m"
  using to_rank_queue
  by (fastforce simp: mc_data_bus_def rbind_eq_Inr Let_def split: option.splits if_splits)

lemma launch_queue: "mc_launch_write c m = Inr m' \<Longrightarrow> commandQueue m' = commandQueue m"
  by (auto simp: mc_launch_write_def rbind_eq_Inr split: list.splits if_splits)

lemma refresh_step_request:
  assumes "mc_refresh c m = Inr m'"
  shows "request m' = (if refreshCountdown m ! mc_refreshRank m = 0 then Some (mc_refreshRank m) else request m)"
  using assms
  by (auto simp: mc_refresh_def set_refreshWaiting_def rbind_eq_Inr at_eq_Inr Let_def request_def needRefresh_def
      split: if_splits)

lemma issue_served:
  assumes "phase c v t s n m" "outgoingCmdPacket m = None" "mc_issue c m = Inr m'"
  shows "served m' (request m)"
proof -
  have Q: "cq_inv c (commandQueue m)" "bs_ok c (mc_bankStates m)"
    using assms(1) by (simp_all add: phase_def queue_inv_def sizes_inv_def)
  obtain r cq' where pop: "cq_pop c (mc_bankStates m) (commandQueue m) = Inr (r, cq')"
    "pop_post c (mc_bankStates m) (commandQueue m) r cq'" using cq_pop_ok [OF Q] by blast
  show ?thesis
  proof (cases r)
    case None
    then have "m' = m\<lparr>commandQueue := cq'\<rparr>" using assms(3) pop(1) by (simp add: mc_issue_def Let_def)
    then show ?thesis using pop(2) None assms(2) by (simp add: served_def request_def refresh_sent_def pop_post_def)
  next
    case (Some p)
    obtain m1 bs where m1: "add_energy c p (mc_queue_write c p (m\<lparr>commandQueue := cq'\<rparr>)) = Inr m1"
      "m' = m1\<lparr>mc_bankStates := bs, outgoingCmdPacket := Some p, cmdCyclesLeft := tCMD c\<rparr>"
      using assms(3) pop(1) Some by (auto simp: mc_issue_def rbind_eq_Inr Let_def split: option.splits)
    have "commandQueue m1 = cq'" using m1(1)
      by (auto simp: add_energy_def mc_queue_write_def rbind_eq_Inr Let_def split: if_splits)
    then have f: "commandQueue m' = cq'" "outgoingCmdPacket m' = Some p" using m1(2) by simp_all
    have "legal c (mc_bankStates m) (ticked (commandQueue m)) p" "refresh_after p (commandQueue m) cq'"
      using pop(2) Some by (simp_all add: pop_post_def)
    then show ?thesis using f
      by (auto simp: served_def request_def refresh_sent_def refresh_after_def legal_def ticked_def split: if_splits)
  qed
qed

lemma take_one_request: "mc_take_one c i m = Inr m' \<Longrightarrow> same_request m m'"
  by (auto simp: mc_take_one_def rbind_eq_Inr same_request_def Let_def request_def cq_enqueue_def put_queue_def
      split: option.splits if_splits)

lemma take_from_request: "mc_take_from c i m = Inr m' \<Longrightarrow> same_request m m'"
  by (rule take_from_invariant) (auto simp: same_request_def dest: take_one_request)

lemma power_request: "mc_power c m = Inr m' \<Longrightarrow> same_request m m'"
proof -
  assume "mc_power c m = Inr m'"
  then have r: "rfold (\<lambda>i m. rbind (if USE_LOW_POWER c then mc_low_power c i m else Inr m) (mc_background c i))
      [0..<NUM_RANKS c] m = Inr m'" by (simp add: mc_power_def)
  show ?thesis
  proof (rule rfold_invariant [OF r, where P = "same_request m"])
    show "same_request m m" by (simp add: same_request_def)
    fix i s t assume s: "same_request m s" and
      t: "rbind (if USE_LOW_POWER c then mc_low_power c i s else Inr s) (mc_background c i) = Inr t"
    obtain u where u: "(if USE_LOW_POWER c then mc_low_power c i s else Inr s) = Inr u" "mc_background c i u = Inr t"
      using t by (auto simp: rbind_eq_Inr)
    have "same_request s u" using u(1)
      by (auto simp: mc_low_power_def rank_in_def rbind_eq_Inr same_request_def request_def split: if_splits)
    moreover have "same_request u t" using u(2)
      by (auto simp: mc_background_def rbind_eq_Inr same_request_def request_def Let_def)
    ultimately show "same_request m t" using s same_request_trans by blast
  qed
qed

lemma return_data_request: "mc_return_data c m = Inr m' \<Longrightarrow> same_request m m'"
proof -
  assume "mc_return_data c m = Inr m'"
  then have "commandQueue m' = commandQueue m \<and> outgoingCmdPacket m' = outgoingCmdPacket m"
    by (auto simp: mc_return_data_def insertHistogram_def returnReadData_def rbind_eq_Inr Let_def
        split: list.splits option.splits)
  then show ?thesis by (simp add: same_request_def request_def)
qed

lemma end_request:
  "mc_epoch c ((mc_count_refresh m)\<lparr>commandQueue := cq_step (commandQueue (mc_count_refresh m))\<rparr>) = Inr m'
    \<Longrightarrow> same_request m (mc_step (m'\<lparr>mc_ranks := rs\<rparr>))"
  by (auto simp: mc_epoch_def same_request_def request_def mc_count_refresh_def cq_step_def mc_step_def split: if_splits)

text \<open>One call of \<open>update\<close>.\<close>

lemma mc_update_served:
  assumes "mc_update c m = Inr m'" "mc_inv c m" "system_ok c"
  shows "served (mc_step (m'\<lparr>mc_ranks := rs\<rparr>))
    (if refreshCountdown m ! mc_refreshRank m = 0 then Some (mc_refreshRank m) else request m)"
proof -
  let ?t = "mc_clock m" and ?u = "mc_clock m + 1"
  obtain m1 m2 m3 m4 m5 m6 m7 m8 where
    s: "mc_command_bus c (mc_tick_banks c m) = Inr m1" "mc_data_bus c m1 = Inr m2" "mc_launch_write c m2 = Inr m3"
      "mc_refresh c m3 = Inr m4" "mc_issue c m4 = Inr m5" "mc_take_from c 0 m5 = Inr m6" "mc_power c m6 = Inr m7"
      "mc_return_data c m7 = Inr m8"
      "mc_epoch c ((mc_count_refresh m8)\<lparr>commandQueue := cq_step (commandQueue (mc_count_refresh m8))\<rparr>) = Inr m'"
    using assms(1) by (auto simp: mc_update_def rbind_eq_Inr Let_def)
  have "phase c ?t ?t ?t ?t m" using assms(2) by (simp add: mc_inv_def Let_def)
  from tick_phase [OF this] have 0: "phase c ?t ?u ?t ?t (mc_tick_banks c m)" "mc_clock (mc_tick_banks c m) = ?t"
    by (simp_all add: mc_tick_banks_def)
  have 1: "phase c ?u ?u ?t ?t m1" "outgoingCmdPacket m1 = None" "mc_clock m1 = ?t"
    using command_bus_ok [of c "mc_tick_banks c m" ?u ?t ?t ?u] 0 assms(3) s(1) by auto
  have 3: "phase c ?u ?u ?u ?t m3" "outgoingCmdPacket m3 = None" "mc_clock m3 = ?t"
    using launch_ok [OF 1(1) assms(3)] 1(2,3) s(2,3) by (metis Inr_inject)+
  have 4: "phase c ?u ?u ?u ?t m4" "outgoingCmdPacket m4 = None" using refresh_ok [OF 3(1)] 3(2,3) s(4) by auto
  have "same_refresh m (mc_tick_banks c m)" by (simp add: same_refresh_def mc_tick_banks_def)
  then have r: "same_refresh m m3"
    using command_bus_refresh [OF s(1)] data_bus_refresh [OF s(2)] launch_refresh [OF s(3)] same_refresh_trans by blast
  have "commandQueue m3 = commandQueue m"
    using command_bus_queue [OF s(1)] data_bus_queue [OF s(2)] launch_queue [OF s(3)] by (simp add: mc_tick_banks_def)
  then have "request m4 = (if refreshCountdown m ! mc_refreshRank m = 0 then Some (mc_refreshRank m) else request m)"
    using refresh_step_request [OF s(4)] r same_request_queue [of m3 m] by (simp add: same_refresh_def)
  then have "served m5 (if refreshCountdown m ! mc_refreshRank m = 0 then Some (mc_refreshRank m) else request m)"
    using issue_served [OF 4 s(5)] by simp
  from served_same [OF take_from_request [OF s(6)] this]
  have "served m6 (if refreshCountdown m ! mc_refreshRank m = 0 then Some (mc_refreshRank m) else request m)" .
  from served_same [OF return_data_request [OF s(8)] served_same [OF power_request [OF s(7)] this]]
  show ?thesis by (rule served_same [OF end_request [OF s(9)]])
qed

lemma ms_update_served:
  assumes "ms_update c s = Inr s'" "ms_inv c s" "system_ok c"
  shows "served (memoryController s') (if refreshCountdown (memoryController s) ! mc_refreshRank (memoryController s) = 0
      then Some (mc_refreshRank (memoryController s)) else request (memoryController s))"
proof -
  let ?m = "memoryController s"
  obtain m1 m2 where r: "rfold (ms_rank_update c) [0..<NUM_RANKS c] ?m = Inr m1"
    "mc_update c (memoryController (ms_pending c (s\<lparr>memoryController := m1\<rparr>))) = Inr m2"
    "memoryController s' = mc_step (m2\<lparr>mc_ranks := map rank_step (mc_ranks m2)\<rparr>)"
    using assms(1) by (auto simp: ms_update_def rbind_eq_Inr Let_def)
  let ?m2 = "memoryController (ms_pending c (s\<lparr>memoryController := m1\<rparr>))"
  have I: "mc_inv c ?m" "\<forall>t \<in> set (pendingTransactions s). transactionType t \<noteq> RETURN_DATA"
    using assms(2) by (simp_all add: ms_inv_def)
  have "mc_inv c m1 \<and> same_refresh ?m m1 \<and> commandQueue m1 = commandQueue ?m"
  proof (rule rfold_invariant [OF r(1)])
    show "mc_inv c ?m \<and> same_refresh ?m ?m \<and> commandQueue ?m = commandQueue ?m" using I(1) by (simp add: same_refresh_def)
    fix i x y assume i: "i \<in> set [0..<NUM_RANKS c]" and x: "mc_inv c x \<and> same_refresh ?m x \<and> commandQueue x = commandQueue ?m"
      and y: "ms_rank_update c i x = Inr y"
    have "mc_inv c y" using ms_rank_update_ok [of c x i] x y assms(3) i by auto
    moreover have "commandQueue y = commandQueue x" using y
      by (auto simp: ms_rank_update_def mc_receiveFromBus_def rbind_eq_Inr split: option.splits)
    ultimately show "mc_inv c y \<and> same_refresh ?m y \<and> commandQueue y = commandQueue ?m"
      using rank_update_refresh [OF y] x same_refresh_trans by metis
  qed
  moreover from this have "mc_inv c ?m2"
    using mc_addTransaction_inv(1) [of c m1] I(2) by (auto simp: ms_pending_def split: list.split)
  moreover have "same_refresh m1 ?m2" "commandQueue ?m2 = commandQueue m1"
    by (auto simp: ms_pending_def mc_addTransaction_def same_refresh_def split: list.split)
  ultimately have e: "mc_inv c ?m2" "refreshCountdown ?m2 = refreshCountdown ?m" "mc_refreshRank ?m2 = mc_refreshRank ?m"
    "request ?m2 = request ?m" by (simp_all add: same_refresh_def request_def)
  show ?thesis using mc_update_served [OF r(2) e(1) assms(3), of "map rank_step (mc_ranks m2)"]
    unfolding r(3) e(2-4) .
qed

text \<open>What is due is requested, and nothing else.\<close>

lemma due_requested:
  assumes "ms_run c s" "system_ok c" "refresh_period_ok c" "ms_update c s = Inr s'" "i < NUM_RANKS c"
  shows "refresh_due c i (mc_clock (memoryController s)) \<Longrightarrow> served (memoryController s') (Some i)"
    and "\<forall>j < NUM_RANKS c. \<not> refresh_due c j (mc_clock (memoryController s)) \<Longrightarrow>
      served (memoryController s') (request (memoryController s))"
proof -
  let ?m = "memoryController s"
  have z: "sizes_ok c" using assms(2) by (simp add: system_ok_def)
  have S: "schedule c ?m" by (rule ms_run_schedule [OF assms(1,3) z])
  note u = ms_update_served [OF assms(4) ms_run_inv [OF assms(1,2)] assms(2)]
  note req = refresh_request(1) [OF S assms(3)]
  show "served (memoryController s') (Some i)" if "refresh_due c i (mc_clock ?m)"
    using u req [OF assms(5)] that by (auto split: if_splits)
  have rr: "mc_refreshRank ?m < NUM_RANKS c" using S by (simp add: schedule_def)
  show "served (memoryController s') (request ?m)" if "\<forall>j < NUM_RANKS c. \<not> refresh_due c j (mc_clock ?m)"
    using u req [OF rr] that rr by (auto split: if_splits)
qed

end
