(* ===== verification/ReadAccounting.thy ===== *)
theory ReadAccounting
  imports RefreshSchedule
begin

text \<open>
  Every read that the memory system accepts is on its way or has been returned, once: the addresses
  of the reads are counted in the queues, on the command bus, in the ranks, in the list of returned
  data and in the calls of the read callback, and every part of a cycle keeps the balance.
\<close>

section \<open>Reads on their way\<close>

text \<open>The addresses of the reads among some packets.\<close>

definition reads_in :: "bus_packet multiset \<Rightarrow> nat multiset" where
  "reads_in M = image_mset physicalAddress (filter_mset is_read M)"

definition on_command_bus :: "bus_packet option \<Rightarrow> nat multiset" where
  "on_command_bus q = (case q of None \<Rightarrow> {#} | Some p \<Rightarrow> reads_in {#p#})"

definition rank_reads :: "dram_rank \<Rightarrow> nat multiset" where
  "rank_reads r = image_mset physicalAddress (mset (readReturnPacket r))
     + (case outgoingDataPacket r of None \<Rightarrow> {#} | Some p \<Rightarrow> {#physicalAddress p#})"

definition way :: "mem_ctrl \<Rightarrow> nat multiset" where
  "way m = reads_in (cq_packets (commandQueue m)) + on_command_bus (outgoingCmdPacket m)
     + sum_list (map rank_reads (mc_ranks m)) + image_mset tr_address (mset (returnTransaction m))"

definition pend :: "mem_ctrl \<Rightarrow> nat multiset" where
  "pend m = image_mset tr_address (mset (pendingReadTransactions m))"

text \<open>The reads that wait in the transaction queue, and those that were returned.\<close>

definition read_trans :: "transaction list \<Rightarrow> nat multiset" where
  "read_trans ts = image_mset tr_address (filter_mset (\<lambda>t. transactionType t = DATA_READ) (mset ts))"

fun returned :: "mem_event list \<Rightarrow> nat multiset" where
  "returned [] = {#}"
| "returned (Read_returned a t # es) = add_mset a (returned es)"
| "returned (Write_done a t # es) = returned es"

definition total :: "mem_ctrl \<Rightarrow> nat multiset" where
  "total m = returned (callbacks m) + pend m + read_trans (transactionQueue m)"

lemma returned_append [simp]: "returned (xs @ ys) = returned xs + returned ys"
  by (induction xs rule: returned.induct) auto

text \<open>A rank that is one of a run; between the cycles its clock is already the next one.\<close>

definition running :: "dram_config \<Rightarrow> dram_rank \<Rightarrow> bool" where
  "running c r \<longleftrightarrow> (\<exists>I R. rank_run c I R r)"

definition waiting_rank :: "dram_config \<Rightarrow> dram_rank \<Rightarrow> bool" where
  "waiting_rank c r \<longleftrightarrow> (\<exists>r0. running c r0 \<and> r = rank_step r0) \<or> (\<exists>i. r = rank_init c i)"

text \<open>What a part of a cycle keeps.\<close>

definition balanced :: "mem_ctrl \<Rightarrow> bool" where
  "balanced m \<longleftrightarrow> pend m = way m"

definition keeps :: "dram_config \<Rightarrow> mem_ctrl \<Rightarrow> mem_ctrl \<Rightarrow> bool" where
  "keeps c m m' \<longleftrightarrow>
     (balanced m \<and> (\<forall>r \<in> set (mc_ranks m). running c r) \<and> readCB m \<longrightarrow>
        balanced m' \<and> (\<forall>r \<in> set (mc_ranks m'). running c r) \<and> readCB m' \<and> total m' = total m)"

definition in_balance :: "dram_config \<Rightarrow> mem_ctrl \<Rightarrow> bool" where
  "in_balance c m \<longleftrightarrow> balanced m \<and> (\<forall>r \<in> set (mc_ranks m). running c r) \<and> readCB m"

lemma keeps_iff: "keeps c m m' \<longleftrightarrow> (in_balance c m \<longrightarrow> in_balance c m' \<and> total m' = total m)"
  by (auto simp: keeps_def in_balance_def)

lemma keeps_trans: "keeps c x y \<Longrightarrow> keeps c y z \<Longrightarrow> keeps c x z"
  unfolding keeps_iff by argo

text \<open>A part that keeps all the places where reads are.\<close>

lemma keeps_same:
  assumes "reads_in (cq_packets (commandQueue m')) = reads_in (cq_packets (commandQueue m))"
    "outgoingCmdPacket m' = outgoingCmdPacket m"
    "mc_ranks m' = mc_ranks m" "returnTransaction m' = returnTransaction m"
    "pendingReadTransactions m' = pendingReadTransactions m" "transactionQueue m' = transactionQueue m"
    "returned (callbacks m') = returned (callbacks m)" "readCB m' = readCB m"
  shows "keeps c m m'"
  using assms by (simp add: keeps_def balanced_def way_def pend_def total_def)

lemma sum_list_upd:
  fixes f :: "'a \<Rightarrow> 'b :: comm_monoid_add"
  shows "i < length xs \<Longrightarrow> sum_list (map f (xs[i := y])) + f (xs ! i) = sum_list (map f xs) + f y"
proof (induction xs arbitrary: i)
  case (Cons x xs)
  then show ?case by (cases i) (simp_all add: add.commute add.left_commute add.assoc)
qed simp

lemma rank_sum_upd:
  "i < length rs \<Longrightarrow> rank_reads r' = rank_reads (rs ! i) + M
    \<Longrightarrow> sum_list (map rank_reads (rs[i := r'])) = sum_list (map rank_reads rs) + M"
  using sum_list_upd [of i rs rank_reads r'] by (simp add: add.commute add.left_commute)

lemma running_upd:
  "\<forall>r \<in> set rs. running c r \<Longrightarrow> running c r' \<Longrightarrow> \<forall>r \<in> set (rs[i := r']). running c r"
  using set_update_subset_insert [of rs i r'] by blast

lemma in_balance_upd:
  "in_balance c m \<Longrightarrow> running c r' \<Longrightarrow> mc_ranks m' = (mc_ranks m)[i := r'] \<Longrightarrow> \<forall>r \<in> set (mc_ranks m'). running c r"
  using running_upd [of "mc_ranks m" c r' i] by (simp add: in_balance_def)

section \<open>A rank\<close>

lemma pipeline_reads:
  assumes "pipeline c I R r"
  shows "rank_reads r = image_mset (\<lambda>x. physicalAddress (snd x)) (mset (drop (length R) I))"
proof -
  obtain D B W where d: "I = D @ B @ W" "R = map (answer c) D" "on_bus c B r" "waiting c W r"
    using assms by (auto simp: pipeline_def)
  have "drop (length R) I = B @ W" using d(1,2) by simp
  then show ?thesis using d(3,4) by (auto simp: rank_reads_def on_bus_def waiting_def multiset.map_comp comp_def)
qed

lemma pipeline_answered: "pipeline c I R r \<Longrightarrow> length R \<le> length I \<and> R = map (answer c) (take (length R) I)"
  by (auto simp: pipeline_def)

lemma tick_reads:
  assumes "running c r0" "timing_ok c" "rank_update c (rank_step r0) = Inr (d, r')"
  shows "rank_reads r0 = (case d of None \<Rightarrow> {#} | Some p \<Rightarrow> {#physicalAddress p#}) + rank_reads r'" "running c r'"
proof -
  obtain I R where run: "rank_run c I R r0" using assms(1) by (auto simp: running_def)
  let ?R = "case d of None \<Rightarrow> R | Some p \<Rightarrow> R @ [(rk_clock r', p)]"
  have run': "rank_run c I ?R r'" by (rule rank_run.tick [OF run assms(3)])
  then show "running c r'" by (auto simp: running_def)
  have P: "pipeline c I R r0" "pipeline c I ?R r'" using rank_run_inv [OF run assms(2)] rank_run_inv [OF run' assms(2)] by blast+
  show "rank_reads r0 = (case d of None \<Rightarrow> {#} | Some p \<Rightarrow> {#physicalAddress p#}) + rank_reads r'"
  proof (cases d)
    case None
    then show ?thesis using pipeline_reads [OF P(1)] pipeline_reads [OF P(2)] by simp
  next
    case (Some p)
    let ?n = "length R"
    have a: "Suc ?n \<le> length I" "R @ [(rk_clock r', p)] = map (answer c) (take (Suc ?n) I)"
      using pipeline_answered [OF P(2)] Some by auto
    then have "(R @ [(rk_clock r', p)]) ! ?n = answer c (I ! ?n)" by (subst a(2)) simp
    then have "snd (I ! ?n) = p" by (simp add: answer_def)
    moreover have "drop ?n I = I ! ?n # drop (Suc ?n) I" using a(1) by (simp add: Cons_nth_drop_Suc)
    ultimately show ?thesis using pipeline_reads [OF P(1)] pipeline_reads [OF P(2)] Some by simp
  qed
qed

lemma init_update: "rank_update c (rank_init c i) = Inr (None, rank_init c i)"
  by (simp add: rank_update_def bus_tick_def rank_init_def)

lemma command_reads:
  assumes "running c r" "rank_receive c p r = Inr r'" "length (bankStates r) = NUM_BANKS c" "NO_STORAGE c"
  shows "rank_reads r' = rank_reads r + reads_in {#p#}" "running c r'"
proof -
  note f = rank_receive_frame [OF assms(2-4)]
  show "rank_reads r' = rank_reads r + reads_in {#p#}"
    using f(3,6) by (simp add: rank_reads_def reads_in_def)
  obtain I R where run: "rank_run c I R r" using assms(1) by (auto simp: running_def)
  show "running c r'"
    using rank_run.command [OF run assms(2)] rank_run.read [OF run assms(2)] by (cases "is_read p") (auto simp: running_def)
qed

lemma running_flag:
  assumes "running c r"
  shows "running c (r\<lparr>rk_refreshWaiting := w\<rparr>)"
proof -
  obtain I R where "rank_run c I R r" using assms by (auto simp: running_def)
  from rank_run.flag [OF this] show ?thesis unfolding running_def by blast
qed

section \<open>The parts of update\<close>

lemma tick_keeps: "keeps c m (mc_tick_banks c m)"
  by (rule keeps_same) (simp_all add: mc_tick_banks_def)

lemma command_bus_keeps:
  assumes "phase c (mc_clock m) t s n m" "system_ok c" "mc_command_bus c m = Inr m'"
  shows "keeps c m m'"
proof (cases "outgoingCmdPacket m")
  case None
  then have "m' = m" using assms(3) by (simp add: mc_command_bus_def)
  then show ?thesis by (simp add: keeps_iff)
next
  case (Some p)
  have p: "rank p < NUM_RANKS c" "cmdCyclesLeft m = 1" using assms(1) Some by (simp_all add: phase_def flying_def)
  note ri = phase_rank [OF assms(1) p(1)]
  have len: "length (bankStates (mc_ranks m ! rank p)) = NUM_BANKS c" using ri(1) by (simp add: rank_inv_def)
  have ns: "NO_STORAGE c" using assms(2) by (simp add: system_ok_def)
  obtain r' where r': "rank_receive c p (mc_ranks m ! rank p) = Inr r'"
    "m' = m\<lparr>cmdCyclesLeft := 0, mc_ranks := (mc_ranks m)[rank p := r'], outgoingCmdPacket := None\<rparr>"
    using assms(3) Some p(2) ri(2) by (auto simp: mc_command_bus_def to_rank_def u32_dec_pos Let_def rbind_eq_Inr)
  show ?thesis unfolding keeps_iff
  proof
    assume b: "in_balance c m"
    then have "running c (mc_ranks m ! rank p)" using ri(2) by (simp add: in_balance_def)
    note c = command_reads [OF this r'(1) len ns]
    have "sum_list (map rank_reads (mc_ranks m')) = sum_list (map rank_reads (mc_ranks m)) + reads_in {#p#}"
      using rank_sum_upd [OF ri(2) c(1)] r'(2) by simp
    then have "way m' = way m" using Some r'(2) by (simp add: way_def on_command_bus_def)
    moreover have "\<forall>r \<in> set (mc_ranks m'). running c r" 
      by (rule in_balance_upd [OF b c(2), of m' "rank p"]) (simp add: r'(2))
    ultimately show "in_balance c m' \<and> total m' = total m"
      using b r'(2) by (simp add: in_balance_def balanced_def pend_def total_def)
  qed
qed

lemma data_to_rank:
  assumes "to_rank c p m = Inr m'" "busPacketType p = DATA" "NO_STORAGE c"
  shows "m' = m"
  using assms by (auto simp: to_rank_def rbind_eq_Inr at_eq_Inr rank_receive_def rank_DATA_def)

lemma data_bus_keeps:
  assumes "phase c v t s n m" "system_ok c" "mc_data_bus c m = Inr m'"
  shows "keeps c m m'"
proof -
  have ns: "NO_STORAGE c" using assms(2) by (simp add: system_ok_def)
  have "busPacketType p = DATA" if "mc_outgoingDataPacket m = Some p" for p
    using assms(1) that by (simp add: phase_def data_inv_def data_packet_def)
  then show ?thesis using assms(3) data_to_rank ns
    by (intro keeps_same) (fastforce simp: mc_data_bus_def rbind_eq_Inr Let_def split: option.splits if_splits)+
qed

lemma launch_keeps: "mc_launch_write c m = Inr m' \<Longrightarrow> keeps c m m'"
  by (rule keeps_same) (auto simp: mc_launch_write_def rbind_eq_Inr split: list.splits if_splits)

lemma set_refreshWaiting_keeps:
  assumes "set_refreshWaiting i m = Inr m'"
  shows "keeps c m m'"
proof -
  have i: "i < length (mc_ranks m)" "m' = m\<lparr>mc_ranks := (mc_ranks m)[i := (mc_ranks m ! i)\<lparr>rk_refreshWaiting := True\<rparr>]\<rparr>"
    using assms by (auto simp: set_refreshWaiting_def rbind_eq_Inr at_eq_Inr)
  show ?thesis unfolding keeps_iff
  proof
    assume b: "in_balance c m"
    then have "running c (mc_ranks m ! i)" using i(1) by (simp add: in_balance_def)
    from in_balance_upd [OF b running_flag [OF this], of m' i True] i(2)
    have "\<forall>r \<in> set (mc_ranks m'). running c r" by simp
    moreover have "sum_list (map rank_reads (mc_ranks m')) = sum_list (map rank_reads (mc_ranks m))"
      using rank_sum_upd [OF i(1), of _ "{#}"] i(2) by (simp add: rank_reads_def)
    ultimately show "in_balance c m' \<and> total m' = total m"
      using b i(2) by (simp add: in_balance_def balanced_def pend_def total_def way_def)
  qed
qed

lemma refresh_keeps:
  assumes "mc_refresh c m = Inr m'"
  shows "keeps c m m'"
proof -
  have n: "keeps c m (m\<lparr>commandQueue := needRefresh i (commandQueue m)\<rparr>)" for i
    by (rule keeps_same) (simp_all add: needRefresh_def cq_packets_def)
  have u: "keeps c x (x\<lparr>refreshCountdown := a, mc_refreshRank := b\<rparr>)" for x a b
    by (rule keeps_same) simp_all
  have r: "keeps c m m" by (simp add: keeps_iff)
  show ?thesis using assms set_refreshWaiting_keeps r keeps_trans [OF n keeps_trans [OF set_refreshWaiting_keeps u]]
    by (auto simp: mc_refresh_def rbind_eq_Inr Let_def split: if_splits)
qed

lemma add_energy_same:
  assumes "add_energy c p m = Inr m'"
  shows "m' = m\<lparr>burstEnergy := burstEnergy m', actpreEnergy := actpreEnergy m', refreshEnergy := refreshEnergy m'\<rparr>"
  using assms by (auto simp: add_energy_def rbind_eq_Inr Let_def split: if_splits)

lemma issue_keeps:
  assumes "phase c v t s n m" "outgoingCmdPacket m = None" "mc_issue c m = Inr m'"
  shows "keeps c m m'"
proof -
  have Q: "cq_inv c (commandQueue m)" "bs_ok c (mc_bankStates m)" using assms(1) by (simp_all add: phase_def queue_inv_def sizes_inv_def)
  obtain r cq' where pop: "cq_pop c (mc_bankStates m) (commandQueue m) = Inr (r, cq')"
    "pop_post c (mc_bankStates m) (commandQueue m) r cq'" using cq_pop_ok [OF Q] by blast
  show ?thesis
  proof (cases r)
    case None
    then have "m' = m\<lparr>commandQueue := cq'\<rparr>" using assms(3) pop(1) by (simp add: mc_issue_def Let_def)
    then show ?thesis using pop(2) None by (intro keeps_same) (simp_all add: pop_post_def)
  next
    case (Some p)
    obtain drop where d: "\<forall>x \<in># drop. busPacketType x = ACTIVATE"
      "cq_packets (commandQueue m) + (if busPacketType p \<in> {REFRESH, PRECHARGE} then {#p#} else {#}) = cq_packets cq' + {#p#} + drop"
      using pop(2) Some by (auto simp: pop_post_def)
    have nd: "filter_mset is_read drop = {#}" using d(1) by (induction drop) (auto simp: is_read_def)
    have "reads_in (cq_packets (commandQueue m)) = reads_in (cq_packets cq') + reads_in {#p#}"
    proof (cases "busPacketType p \<in> {REFRESH, PRECHARGE}")
      case True
      then have "cq_packets (commandQueue m) = cq_packets cq' + drop" using d(2) by simp
      then show ?thesis using nd True by (auto simp: reads_in_def is_read_def)
    next
      case False
      then have "cq_packets (commandQueue m) = cq_packets cq' + {#p#} + drop" using d(2) by simp
      then show ?thesis using nd by (simp only: reads_in_def filter_union_mset image_mset_union) simp
    qed
    moreover obtain m1 bs where m1: "add_energy c p (mc_queue_write c p (m\<lparr>commandQueue := cq'\<rparr>)) = Inr m1"
      "m' = m1\<lparr>mc_bankStates := bs, outgoingCmdPacket := Some p, cmdCyclesLeft := tCMD c\<rparr>"
      using assms(3) pop(1) Some by (auto simp: mc_issue_def rbind_eq_Inr Let_def split: option.splits)
    have "mc_ranks m1 = mc_ranks m \<and> returnTransaction m1 = returnTransaction m \<and> pendingReadTransactions m1 = pendingReadTransactions m
      \<and> transactionQueue m1 = transactionQueue m \<and> callbacks m1 = callbacks m \<and> readCB m1 = readCB m \<and> commandQueue m1 = cq'"
      by (subst add_energy_same [OF m1(1)], simp add: mc_queue_write_def)+
    ultimately show ?thesis using m1(2) assms(2)
      by (auto simp: keeps_iff in_balance_def balanced_def way_def pend_def total_def on_command_bus_def)
  qed
qed

lemma read_trans_erase:
  "i < length ts \<Longrightarrow> read_trans ts = read_trans (erase i ts)
     + (if transactionType (ts ! i) = DATA_READ then {#tr_address (ts ! i)#} else {#})"
  by (simp add: read_trans_def mset_erase)

lemma column_command_read: "column_command c ty = Some k \<Longrightarrow> k \<notin> {DATA, REFRESH, PRECHARGE}
    \<and> (k = READ \<or> k = READ_P \<longleftrightarrow> ty = DATA_READ)"
  by (auto simp: column_command_def split: TransactionType.splits RowBufferPolicy.splits)

lemma take_one_keeps:
  assumes "phase c v t s n m" "system_ok c" "i < length (transactionQueue m)" "mc_take_one c i m = Inr m'"
  shows "keeps c m m'"
proof -
  let ?t = "transactionQueue m ! i" and ?a = "addressMapping c (tr_address (transactionQueue m ! i))"
  have Q: "cq_inv c (commandQueue m)" using assms(1) by (simp add: phase_def queue_inv_def)
  have sys: "widths_ok c" "pow2 (NUM_RANKS c)" "pow2 (NUM_BANKS c)" using assms(2) by (simp_all add: system_ok_def)
  note L = location_exists [OF sys, of "tr_address ?t"]
  let ?pk = "\<lambda>k d. BusPacket k (tr_address ?t) (newTransactionColumn ?a) (newTransactionRow ?a)
     (newTransactionRank ?a) (newTransactionBank ?a) d"
  obtain room where room: "hasRoomFor c 2 (newTransactionRank ?a) (newTransactionBank ?a) (commandQueue m) = Inr room"
    using assms(4) by (auto simp: mc_take_one_def Let_def rbind_eq_Inr)
  show ?thesis
  proof (cases room)
    case False
    then have "m' = m" using assms(4) room by (simp add: mc_take_one_def Let_def)
    then show ?thesis by (simp add: keeps_iff)
  next
    case True
    then obtain cq1 k d cq2 where e: "cq_enqueue c (?pk ACTIVATE None) (commandQueue m) = Inr cq1"
      "column_command c (transactionType ?t) = Some k" "cq_enqueue c (?pk k d) cq1 = Inr cq2"
      "m' = m\<lparr>pendingReadTransactions := (if transactionType ?t = DATA_READ then pendingReadTransactions m @ [?t]
         else pendingReadTransactions m), transactionQueue := erase i (transactionQueue m), commandQueue := cq2\<rparr>"
      using assms(4) room by (auto simp: mc_take_one_def Let_def rbind_eq_Inr split: option.splits)
    note k = column_command_read [OF e(2)]
    have 1: "cq_inv c cq1" "cq_packets cq1 = add_mset (?pk ACTIVATE None) (cq_packets (commandQueue m))"
      using enqueue_ok [OF Q _ _ _ e(1)] L by simp_all
    have "cq_packets cq2 = add_mset (?pk k d) (cq_packets cq1)"
      using enqueue_ok [OF 1(1) _ _ _ e(3)] L k by simp
    then have "reads_in (cq_packets cq2) = reads_in (cq_packets (commandQueue m))
        + (if transactionType ?t = DATA_READ then {#tr_address ?t#} else {#})"
      using 1(2) k by (simp add: reads_in_def is_read_def)
    then show ?thesis using e(4) read_trans_erase [OF assms(3)]
      by (auto simp: keeps_iff in_balance_def balanced_def way_def pend_def total_def)
  qed
qed

lemma take_from_keeps:
  assumes "phase c v t s n m" "system_ok c" "mc_take_from c i m = Inr m'"
  shows "keeps c m m'"
proof -
  have "phase c v t s n m' \<and> keeps c m m'"
  proof (rule take_from_invariant [OF assms(3), where P = "\<lambda>x. phase c v t s n x \<and> keeps c m x"])
    show "phase c v t s n m \<and> keeps c m m" using assms(1) by (simp add: keeps_iff)
    fix i x y assume x: "phase c v t s n x \<and> keeps c m x" "i < length (transactionQueue x)" "mc_take_one c i x = Inr y"
    have "phase c v t s n y" using x take_one_ok [of c v t s n x i] assms(2) by (metis Inr_inject)
    moreover have "keeps c x y" using take_one_keeps [OF _ assms(2) x(2,3)] x(1) by blast
    ultimately show "phase c v t s n y \<and> keeps c m y" using x(1) keeps_trans by blast
  qed
  then show ?thesis ..
qed

lemma for_banks_frame: "for_banks c f r = Inr r' \<Longrightarrow> \<exists>sts. r' = r\<lparr>bankStates := sts\<rparr>"
  by (auto simp: for_banks_def rbind_eq_Inr)

lemma power_reads:
  assumes "running c r" "rank_powerDown c r = Inr r' \<or> rank_powerUp c r = Inr r'"
  shows "rank_reads r' = rank_reads r" "running c r'"
proof -
  have "readReturnPacket r' = readReturnPacket r \<and> outgoingDataPacket r' = outgoingDataPacket r"
    using assms(2) by (auto simp: rank_powerDown_def rank_powerUp_def rbind_eq_Inr dest!: for_banks_frame)
  then show "rank_reads r' = rank_reads r" by (simp add: rank_reads_def)
  obtain I R where "rank_run c I R r" using assms(1) by (auto simp: running_def)
  from rank_run.power [OF this assms(2)] show "running c r'" unfolding running_def by blast
qed

lemma rank_in_keeps:
  assumes "rank_in i f m = Inr m'" "f = rank_powerDown c \<or> f = rank_powerUp c"
  shows "keeps c m m'"
proof -
  obtain r' where r': "i < length (mc_ranks m)" "f (mc_ranks m ! i) = Inr r'" "m' = m\<lparr>mc_ranks := (mc_ranks m)[i := r']\<rparr>"
    using assms(1) by (auto simp: rank_in_def rbind_eq_Inr at_eq_Inr)
  show ?thesis unfolding keeps_iff
  proof
    assume b: "in_balance c m"
    then have "running c (mc_ranks m ! i)" using r'(1) by (simp add: in_balance_def)
    note p = power_reads [OF this, of r']
    have q: "rank_reads r' = rank_reads (mc_ranks m ! i) + {#}" "running c r'" using p assms(2) r'(2) by auto
    have "way m' = way m" using rank_sum_upd [OF r'(1) q(1)] r'(3) by (simp add: way_def)
    moreover have "\<forall>r \<in> set (mc_ranks m'). running c r"
      by (rule in_balance_upd [OF b q(2), of m' i]) (simp add: r'(3))
    ultimately show "in_balance c m' \<and> total m' = total m"
      using b r'(3) by (simp add: in_balance_def balanced_def pend_def total_def)
  qed
qed

lemma low_power_keeps:
  assumes "mc_low_power c i m = Inr m'"
  shows "keeps c m m'"
proof -
  have a: "keeps c m (m\<lparr>powerDown := x\<rparr>)" for x by (rule keeps_same) simp_all
  have b: "keeps c y (y\<lparr>mc_bankStates := x\<rparr>)" for x y by (rule keeps_same) simp_all
  have r: "keeps c m m" by (simp add: keeps_iff)
  show ?thesis using assms r keeps_trans [OF a keeps_trans [OF rank_in_keeps b]]
    by (auto simp: mc_low_power_def rbind_eq_Inr split: if_splits)
qed

lemma power_keeps:
  assumes "mc_power c m = Inr m'"
  shows "keeps c m m'"
proof -
  have r: "rfold (\<lambda>i m. rbind (if USE_LOW_POWER c then mc_low_power c i m else Inr m) (mc_background c i))
      [0..<NUM_RANKS c] m = Inr m'" using assms by (simp add: mc_power_def)
  show ?thesis
  proof (rule rfold_invariant [OF r, where P = "keeps c m"])
    show "keeps c m m" by (simp add: keeps_iff)
    fix i s t assume s: "keeps c m s" and
      t: "rbind (if USE_LOW_POWER c then mc_low_power c i s else Inr s) (mc_background c i) = Inr t"
    obtain u where u: "(if USE_LOW_POWER c then mc_low_power c i s else Inr s) = Inr u" "mc_background c i u = Inr t"
      using t by (auto simp: rbind_eq_Inr)
    have "keeps c s u" using u(1) low_power_keeps by (auto simp: keeps_iff split: if_splits)
    moreover have "keeps c u t" using u(2) by (intro keeps_same) (auto simp: mc_background_def rbind_eq_Inr Let_def)
    ultimately show "keeps c m t" using s keeps_trans by blast
  qed
qed

lemma return_data_keeps:
  assumes "mc_return_data c m = Inr m'"
  shows "keeps c m m'"
  unfolding keeps_iff
proof
  assume b: "in_balance c m"
  show "in_balance c m' \<and> total m' = total m"
  proof (cases "returnTransaction m")
    case Nil
    then show ?thesis using assms b by (simp add: mc_return_data_def)
  next
    case (Cons q qs)
    then have "tr_address q \<in># way m" by (simp add: way_def)
    then have "tr_address q \<in># pend m" using b by (simp add: in_balance_def balanced_def)
    then obtain x where x: "x \<in> set (pendingReadTransactions m)" "tr_address x = tr_address q" by (auto simp: pend_def)
    obtain i where i: "find_index (\<lambda>x. tr_address x = tr_address q) (pendingReadTransactions m) = Some i"
      using find_index_exists [OF x(1), of "\<lambda>x. tr_address x = tr_address q"] x(2) by blast
    let ?p = "pendingReadTransactions m ! i"
    have p: "i < length (pendingReadTransactions m)" "tr_address ?p = tr_address q" using find_index_Some [OF i] by auto
    have m': "pendingReadTransactions m' = erase i (pendingReadTransactions m) \<and> returnTransaction m' = qs
        \<and> callbacks m' = callbacks m @ [Read_returned (tr_address ?p) (mc_clock m)] \<and> readCB m' = readCB m
        \<and> transactionQueue m' = transactionQueue m \<and> mc_ranks m' = mc_ranks m \<and> commandQueue m' = commandQueue m
        \<and> outgoingCmdPacket m' = outgoingCmdPacket m"
      using assms Cons i b
      by (auto simp: mc_return_data_def insertHistogram_def returnReadData_def rbind_eq_Inr Let_def in_balance_def)
    have "pend m = add_mset (tr_address q) (pend m')"
      using m' p mset_erase [OF p(1)] by (simp add: pend_def)
    moreover have "way m = add_mset (tr_address q) (way m')" using m' Cons by (simp add: way_def)
    ultimately show ?thesis using b m' p(2) by (simp add: in_balance_def balanced_def total_def)
  qed
qed

lemma end_keeps:
  assumes "mc_epoch c ((mc_count_refresh m)\<lparr>commandQueue := cq_step (commandQueue (mc_count_refresh m))\<rparr>) = Inr m'"
  shows "keeps c m m'"
  by (rule keeps_same) (use assms in \<open>auto simp: mc_epoch_def mc_count_refresh_def cq_step_def cq_packets_def split: if_splits\<close>)

section \<open>A cycle\<close>

lemma mc_update_keeps:
  assumes "mc_update c m = Inr m'" "mc_inv c m" "system_ok c"
  shows "keeps c m m'"
proof -
  let ?t = "mc_clock m" and ?u = "mc_clock m + 1"
  obtain m1 m2 m3 m4 m5 m6 m7 m8 where
    s: "mc_command_bus c (mc_tick_banks c m) = Inr m1" "mc_data_bus c m1 = Inr m2" "mc_launch_write c m2 = Inr m3"
      "mc_refresh c m3 = Inr m4" "mc_issue c m4 = Inr m5" "mc_take_from c 0 m5 = Inr m6" "mc_power c m6 = Inr m7"
      "mc_return_data c m7 = Inr m8"
      "mc_epoch c ((mc_count_refresh m8)\<lparr>commandQueue := cq_step (commandQueue (mc_count_refresh m8))\<rparr>) = Inr m'"
    using assms(1) by (auto simp: mc_update_def rbind_eq_Inr Let_def)
  have "phase c ?t ?t ?t ?t m" using assms(2) by (simp add: mc_inv_def Let_def)
  from tick_phase [OF this] have 0: "phase c ?t ?u ?t ?t (mc_tick_banks c m)" "mc_clock (mc_tick_banks c m) = ?t"
    by (simp_all add: mc_tick_banks_def)
  have 1: "phase c ?u ?u ?t ?t m1" "outgoingCmdPacket m1 = None" "mc_clock m1 = ?t"
    using command_bus_ok [of c "mc_tick_banks c m" ?u ?t ?t ?u] 0 assms(3) s(1) by auto
  have 3: "phase c ?u ?u ?u ?t m3" "outgoingCmdPacket m3 = None" "mc_clock m3 = ?t"
    using launch_ok [OF 1(1) assms(3)] 1(2,3) s(2,3) by (metis Inr_inject)+
  have 4: "phase c ?u ?u ?u ?t m4" "outgoingCmdPacket m4 = None" "mc_clock m4 = ?t"
    using refresh_ok [OF 3(1)] 3(2,3) s(4) by auto
  have 5: "phase c ?u ?u ?u ?u m5" using issue_ok [of c ?u m4] 4 assms(3) s(5) by auto
  have a: "keeps c m m1"
    using tick_keeps command_bus_keeps [OF _ assms(3) s(1)] 0 keeps_trans by metis
  have b: "keeps c m1 m4"
    using data_bus_keeps [OF 1(1) assms(3) s(2)] launch_keeps [OF s(3)] refresh_keeps [OF s(4)] keeps_trans by blast
  have d: "keeps c m4 m6" using issue_keeps [OF 4(1,2) s(5)] take_from_keeps [OF 5 assms(3) s(6)] keeps_trans by blast
  have e: "keeps c m6 m'" using power_keeps [OF s(7)] return_data_keeps [OF s(8)] end_keeps [OF s(9)] keeps_trans by blast
  show ?thesis using a b d e keeps_trans by blast
qed

text \<open>The ranks are updated one after the other.\<close>

lemma rank_reads_step [simp]: "rank_reads (rank_step r) = rank_reads r"
  by (simp add: rank_reads_def rank_step_def)

lemma ms_rank_update_reads:
  assumes "ms_rank_update c i m = Inr m'" "waiting_rank c (mc_ranks m ! i)" "timing_ok c"
  shows "running c (mc_ranks m' ! i)" "\<And>j. j \<noteq> i \<Longrightarrow> mc_ranks m' ! j = mc_ranks m ! j"
    "length (mc_ranks m') = length (mc_ranks m)" "way m' = way m" "pend m' = pend m" "total m' = total m" "readCB m' = readCB m"
proof -
  obtain d r' where i: "i < length (mc_ranks m)" and u: "rank_update c (mc_ranks m ! i) = Inr (d, r')" and
    m': "\<exists>m1. (case d of None \<Rightarrow> Inr m | Some p \<Rightarrow> mc_receiveFromBus c p m) = Inr m1 \<and> m' = m1\<lparr>mc_ranks := (mc_ranks m1)[i := r']\<rparr>"
    using assms(1) by (auto simp: ms_rank_update_def rbind_eq_Inr at_eq_Inr split: prod.splits)
  have r: "rank_reads (mc_ranks m ! i) = (case d of None \<Rightarrow> {#} | Some p \<Rightarrow> {#physicalAddress p#}) + rank_reads r' \<and> running c r'"
    using assms(2) unfolding waiting_rank_def
  proof
    assume "\<exists>r0. running c r0 \<and> mc_ranks m ! i = rank_step r0"
    then obtain r0 where r0: "running c r0" "mc_ranks m ! i = rank_step r0" by blast
    show ?thesis using tick_reads [OF r0(1) assms(3), of d r'] u r0(2) by simp
  next
    assume "\<exists>k. mc_ranks m ! i = rank_init c k"
    then obtain k where "mc_ranks m ! i = rank_init c k" by blast
    then show ?thesis using u rank_run.start [of c k] by (auto simp: init_update running_def)
  qed
  obtain m1 where m1: "(case d of None \<Rightarrow> Inr m | Some p \<Rightarrow> mc_receiveFromBus c p m) = Inr m1"
    "m' = m1\<lparr>mc_ranks := (mc_ranks m1)[i := r']\<rparr>" using m' by blast
  have f: "mc_ranks m1 = mc_ranks m" "commandQueue m1 = commandQueue m" "outgoingCmdPacket m1 = outgoingCmdPacket m"
    "pendingReadTransactions m1 = pendingReadTransactions m" "transactionQueue m1 = transactionQueue m"
    "callbacks m1 = callbacks m" "readCB m1 = readCB m"
    "image_mset tr_address (mset (returnTransaction m1)) = image_mset tr_address (mset (returnTransaction m))
       + (case d of None \<Rightarrow> {#} | Some p \<Rightarrow> {#physicalAddress p#})"
    using m1(1) by (auto simp: mc_receiveFromBus_def rbind_eq_Inr split: option.splits)
  show "running c (mc_ranks m' ! i)" "\<And>j. j \<noteq> i \<Longrightarrow> mc_ranks m' ! j = mc_ranks m ! j"
    "length (mc_ranks m') = length (mc_ranks m)" "pend m' = pend m" "total m' = total m" "readCB m' = readCB m"
    using r m1(2) f i by (simp_all add: pend_def total_def)
  have "sum_list (map rank_reads (mc_ranks m')) + rank_reads (mc_ranks m ! i) = sum_list (map rank_reads (mc_ranks m)) + rank_reads r'"
    using sum_list_upd [OF i] m1(2) f(1) by simp
  then have "sum_list (map rank_reads (mc_ranks m')) + (case d of None \<Rightarrow> {#} | Some p \<Rightarrow> {#physicalAddress p#})
      = sum_list (map rank_reads (mc_ranks m))" using r by (simp add: add.assoc [symmetric])
  then show "way m' = way m" using m1(2) f by (simp add: way_def add.commute add.left_commute)
qed

lemma ms_ranks_update_reads:
  assumes "rfold (ms_rank_update c) [0..<n] m = Inr m'" "n \<le> length (mc_ranks m)"
    "\<forall>r \<in> set (mc_ranks m). waiting_rank c r" "timing_ok c"
  shows "(\<forall>j < n. running c (mc_ranks m' ! j)) \<and> (\<forall>j \<ge> n. mc_ranks m' ! j = mc_ranks m ! j)
    \<and> length (mc_ranks m') = length (mc_ranks m) \<and> way m' = way m \<and> pend m' = pend m \<and> total m' = total m \<and> readCB m' = readCB m"
  using assms(1,2)
proof (induction n arbitrary: m')
  case (Suc n)
  then obtain m1 where m1: "rfold (ms_rank_update c) [0..<n] m = Inr m1" "ms_rank_update c n m1 = Inr m'"
    by (auto simp: rfold_append rbind_eq_Inr)
  have ih: "(\<forall>j < n. running c (mc_ranks m1 ! j)) \<and> (\<forall>j \<ge> n. mc_ranks m1 ! j = mc_ranks m ! j)
    \<and> length (mc_ranks m1) = length (mc_ranks m) \<and> way m1 = way m \<and> pend m1 = pend m \<and> total m1 = total m \<and> readCB m1 = readCB m"
    using Suc m1(1) by simp
  then have "waiting_rank c (mc_ranks m1 ! n)" using assms(3) Suc.prems(2) by simp
  from ms_rank_update_reads [OF m1(2) this assms(4)] ih show ?case by (auto simp: less_Suc_eq)
qed simp

section \<open>Every read is returned or on its way\<close>

text \<open>A run that starts with a registered read callback, with the addresses of the accepted reads.\<close>

inductive ms_reads :: "dram_config \<Rightarrow> nat multiset \<Rightarrow> mem_system \<Rightarrow> bool" where
  start: "ms_init c = Inr s \<Longrightarrow> ms_reads c {#} (RegisterCallbacks True w s)"
| add: "ms_reads c S s \<Longrightarrow> ms_addTransaction c isWrite addr s = (ok, s') \<Longrightarrow>
    ms_reads c (S + (if ok \<and> \<not> isWrite then {#addr#} else {#})) s'"
| add_ref: "ms_reads c S s \<Longrightarrow> ms_addTransaction_ref c t s = (ok, s') \<Longrightarrow> transactionType t \<noteq> RETURN_DATA \<Longrightarrow>
    ms_reads c (S + (if ok \<and> transactionType t = DATA_READ then {#tr_address t#} else {#})) s'"
| update: "ms_reads c S s \<Longrightarrow> ms_update c s = Inr s' \<Longrightarrow> ms_reads c S s'"

lemma ms_reads_run: "ms_reads c S s \<Longrightarrow> ms_run c s"
proof (induction rule: ms_reads.induct)
  case (add c S s isWrite addr ok s')
  then show ?case using ms_run.add [of c s isWrite addr] by simp
next
  case (add_ref c S s t ok s')
  then show ?case using ms_run.add_ref [of c s t] by simp
qed (auto intro: ms_run.intros)

definition outstanding :: "mem_system \<Rightarrow> nat multiset" where
  "outstanding s = way (memoryController s) + read_trans (transactionQueue (memoryController s)) + read_trans (pendingTransactions s)"

definition reads_inv :: "dram_config \<Rightarrow> nat multiset \<Rightarrow> mem_system \<Rightarrow> bool" where
  "reads_inv c S s \<longleftrightarrow> balanced (memoryController s) \<and> (\<forall>r \<in> set (mc_ranks (memoryController s)). waiting_rank c r)
     \<and> readCB (memoryController s) \<and> S = total (memoryController s) + read_trans (pendingTransactions s)"

lemma read_trans_append [simp]: "read_trans (xs @ ys) = read_trans xs + read_trans ys"
  by (simp add: read_trans_def)

lemma addTransaction_reads:
  assumes "reads_inv c S s" "mc_addTransaction c t (memoryController s) = (ok, m)"
  shows "reads_inv c (S + (if ok then read_trans [t] else {#})) (s\<lparr>memoryController := m\<rparr>)"
  using assms by (auto simp: mc_addTransaction_def reads_inv_def balanced_def pend_def way_def total_def read_trans_def
      split: if_splits)

lemma ms_update_reads:
  assumes "ms_update c s = Inr s'" "reads_inv c S s" "ms_inv c s" "system_ok c" "timing_ok c"
  shows "reads_inv c S s'"
proof -
  let ?m = "memoryController s"
  obtain m1 m2 where u: "rfold (ms_rank_update c) [0..<NUM_RANKS c] ?m = Inr m1"
    "mc_update c (memoryController (ms_pending c (s\<lparr>memoryController := m1\<rparr>))) = Inr m2"
    "memoryController s' = mc_step (m2\<lparr>mc_ranks := map rank_step (mc_ranks m2)\<rparr>)"
    "pendingTransactions s' = pendingTransactions (ms_pending c (s\<lparr>memoryController := m1\<rparr>))"
    using assms(1) by (auto simp: ms_update_def rbind_eq_Inr Let_def)
  let ?s1 = "ms_pending c (s\<lparr>memoryController := m1\<rparr>)"
  have I: "mc_inv c ?m" "\<forall>t \<in> set (pendingTransactions s). transactionType t \<noteq> RETURN_DATA" using assms(3) by (simp_all add: ms_inv_def)
  then have lr: "length (mc_ranks ?m) = NUM_RANKS c" by (simp add: mc_inv_def phase_def ranks_inv_def Let_def)
  have W: "\<forall>r \<in> set (mc_ranks ?m). waiting_rank c r" "balanced ?m" "readCB ?m" "S = total ?m + read_trans (pendingTransactions s)"
    using assms(2) by (simp_all add: reads_inv_def)
  have R: "(\<forall>j < NUM_RANKS c. running c (mc_ranks m1 ! j)) \<and> length (mc_ranks m1) = length (mc_ranks ?m) \<and> way m1 = way ?m
      \<and> pend m1 = pend ?m \<and> total m1 = total ?m \<and> readCB m1 = readCB ?m"
    using ms_ranks_update_reads [OF u(1) _ W(1) assms(5)] lr by auto
  then have b1: "in_balance c m1" using W lr by (auto simp: in_balance_def balanced_def in_set_conv_nth)
  have i1: "mc_inv c m1"
  proof (rule rfold_invariant [OF u(1), where P = "mc_inv c"])
    fix i x y assume "i \<in> set [0..<NUM_RANKS c]" "mc_inv c x" "ms_rank_update c i x = Inr y"
    then show "mc_inv c y" using ms_rank_update_ok [of c x i] assms(4) by auto
  qed (rule I(1))
  have s1: "mc_inv c (memoryController ?s1)" "in_balance c (memoryController ?s1)"
    "total (memoryController ?s1) + read_trans (pendingTransactions ?s1) = S"
  proof -
    show "mc_inv c (memoryController ?s1)"
      using mc_addTransaction_inv [OF i1] I(2) i1 by (auto simp: ms_pending_def split: list.split)
    show "in_balance c (memoryController ?s1)" using b1
      by (auto simp: ms_pending_def mc_addTransaction_def in_balance_def balanced_def pend_def way_def split: list.split)
    show "total (memoryController ?s1) + read_trans (pendingTransactions ?s1) = S" using W(4) R
      by (auto simp: ms_pending_def mc_addTransaction_def total_def pend_def read_trans_def split: list.split)
  qed
  have b2: "in_balance c m2" "total m2 = total (memoryController ?s1)"
    using mc_update_keeps [OF u(2) s1(1) assms(4)] s1(2) by (simp_all add: keeps_iff)
  have "sum_list (map rank_reads (map rank_step (mc_ranks m2))) = sum_list (map rank_reads (mc_ranks m2))"
    by (simp add: comp_def)
  moreover have "\<forall>r \<in> set (map rank_step (mc_ranks m2)). waiting_rank c r"
    using b2(1) by (auto simp: in_balance_def waiting_rank_def)
  ultimately show ?thesis using b2 s1(3) u(3,4)
    by (simp add: reads_inv_def in_balance_def balanced_def way_def pend_def total_def mc_step_def)
qed

lemma ms_reads_inv: "ms_reads c S s \<Longrightarrow> system_ok c \<Longrightarrow> timing_ok c \<Longrightarrow> reads_inv c S s"
proof (induction rule: ms_reads.induct)
  case (start c s w)
  then obtain m where m: "mc_init c (map (rank_init c) [0..<NUM_RANKS c]) = Inr m" "memoryController s = m" "pendingTransactions s = []"
    by (auto simp: ms_init_def rbind_eq_Inr)
  have f: "commandQueue m = cq_init c" "mc_ranks m = map (rank_init c) [0..<NUM_RANKS c]" "outgoingCmdPacket m = None"
    "transactionQueue m = []" "pendingReadTransactions m = []" "returnTransaction m = []" "callbacks m = []"
    using m(1) by (auto simp: mc_init_def rbind_eq_Inr)
  have z: "sum_list (map rank_reads (map (rank_init c) xs)) = {#}" for xs :: "nat list"
    by (induction xs) (simp_all add: rank_reads_def rank_init_def)
  show ?case using m f z [of "[0..<NUM_RANKS c]"]
    by (auto simp: reads_inv_def RegisterCallbacks_def balanced_def pend_def way_def total_def read_trans_def
        cq_packets_init reads_in_def on_command_bus_def waiting_rank_def)
next
  case (add c S s isWrite addr ok s')
  let ?t = "new_transaction (if isWrite then DATA_WRITE else DATA_READ) addr None"
  have t: "read_trans [?t] = (if isWrite then {#} else {#addr#})" by (simp add: read_trans_def new_transaction_def)
  have inv: "reads_inv c S s" using add by blast
  show ?case
  proof (cases "WillAcceptTransaction c (memoryController s)")
    case True
    then obtain m where m: "mc_addTransaction c ?t (memoryController s) = (ok, m)" "s' = s\<lparr>memoryController := m\<rparr>"
      using add.hyps(2) by (auto simp: ms_addTransaction_def Let_def split: prod.splits)
    have "ok" using m(1) True by (simp add: mc_addTransaction_def)
    then show ?thesis using addTransaction_reads [OF inv m(1)] m(2) t by (simp split: if_splits)
  next
    case False
    then show ?thesis using add.hyps(2) inv t
      by (auto simp: ms_addTransaction_def reads_inv_def Let_def split: if_splits)
  qed
next
  case (add_ref c S s t ok s')
  have inv: "reads_inv c S s" using add_ref by blast
  obtain m where m: "mc_addTransaction c t (memoryController s) = (ok, m)" "s' = s\<lparr>memoryController := m\<rparr>"
    using add_ref.hyps(2) by (auto simp: ms_addTransaction_ref_def split: prod.splits)
  then show ?case using addTransaction_reads [OF inv m(1)] by (auto simp: read_trans_def split: if_splits)
next
  case (update c S s s')
  then show ?case using ms_update_reads ms_run_inv [OF ms_reads_run] by blast
qed

lemma reads_accounted: "ms_reads c S s \<Longrightarrow> system_ok c \<Longrightarrow> timing_ok c \<Longrightarrow> S = returned (callbacks (memoryController s)) + outstanding s"
  using ms_reads_inv [of c S s] by (simp add: reads_inv_def total_def balanced_def outstanding_def add.assoc)

end
