(* ===== verification/ShortestPath.thy ===== *)
theory ShortestPath
  imports Vector SignedInts "HOL-Library.While_Combinator"
begin

text \<open>
  The all-pairs shortest paths of ruby/network/simple/Topology.C. A matrix is a list of rows; the
  callers only pass square matrices and the loops stay below the size, so the entries are read with
  \<open>!\<close>. \<open>extend_shortest_path\<close> updates the matrix in place, entry after entry, until a whole pass
  changes nothing. An entry is an \<open>int\<close>, so a sum of two wraps; with weights below \<open>2 ^ 30\<close> none does.
  The lemmas show that this ends and that the entries are then the least costs of the walks between
  two switches.
\<close>

type_synonym matrix = "int list list"

definition mat :: "matrix \<Rightarrow> nat \<Rightarrow> nat \<Rightarrow> int" where
  "mat M i j = M ! i ! j"

definition set_mat :: "nat \<Rightarrow> nat \<Rightarrow> int \<Rightarrow> matrix \<Rightarrow> matrix" where
  "set_mat i j x M = M[i := (M ! i)[j := x]]"

text \<open>The three nested loops: over \<open>k\<close>, which only changes \<open>minimum\<close>, and over \<open>i\<close> and \<open>j\<close>.\<close>

definition extend_minimum :: "matrix \<Rightarrow> nat \<Rightarrow> nat \<Rightarrow> int" where
  "extend_minimum M i j =
     fold (\<lambda>k minimum. min minimum (wrap32 (mat M i k + mat M k j))) [0..<length M] (mat M i j)"

definition extend_entry :: "nat \<times> nat \<Rightarrow> matrix \<times> bool \<Rightarrow> matrix \<times> bool" where
  "extend_entry ij st =
     (case ij of (i, j) \<Rightarrow> case st of (M, change) \<Rightarrow>
        let minimum = extend_minimum M i j
        in if mat M i j \<noteq> minimum then (set_mat i j minimum M, True) else (M, change))"

definition extend_pass :: "matrix \<Rightarrow> matrix \<times> bool" where
  "extend_pass M =
     fold extend_entry (List.product [0..<length M] [0..<length M]) (M, False)"

definition extend_shortest_path :: "matrix \<Rightarrow> matrix result" where
  "extend_shortest_path current_dist =
     (case while_option snd (\<lambda>(M, change). extend_pass M) (current_dist, True) of
        None \<Rightarrow> Inl No_return
      | Some (M, change) \<Rightarrow> Inr M)"

definition shortest_path :: "matrix \<Rightarrow> matrix result" where
  "shortest_path weights = (let dist = weights in extend_shortest_path dist)"

definition link_is_shortest_path_to_node :: "nat \<Rightarrow> nat \<Rightarrow> nat \<Rightarrow> matrix \<Rightarrow> matrix \<Rightarrow> bool" where
  "link_is_shortest_path_to_node src next final weights dist \<longleftrightarrow>
     wrap32 (mat weights src next + mat dist next final) = mat dist src final"

section \<open>Square matrices\<close>

definition square :: "nat \<Rightarrow> matrix \<Rightarrow> bool" where
  "square n M \<longleftrightarrow> length M = n \<and> (\<forall>r \<in> set M. length r = n)"

lemma square_set_mat: "square n M \<Longrightarrow> square n (set_mat i j x M)"
  by (auto simp: square_def set_mat_def all_set_conv_all_nth nth_upd)

lemma mat_set_mat:
  "square n M \<Longrightarrow> i < n \<Longrightarrow> j < n \<Longrightarrow> mat (set_mat i j x M) a b = (if a = i \<and> b = j then x else mat M a b)"
  by (auto simp: square_def mat_def set_mat_def nth_list_update)

section \<open>Walks\<close>

text \<open>A walk from \<open>i\<close> is the list of the switches after \<open>i\<close>; its cost is the sum of the weights.\<close>

primrec walk_cost :: "matrix \<Rightarrow> nat \<Rightarrow> nat list \<Rightarrow> int" where
  "walk_cost w i [] = 0"
| "walk_cost w i (k # ks) = mat w i k + walk_cost w k ks"

definition walk :: "nat \<Rightarrow> nat \<Rightarrow> nat \<Rightarrow> nat list \<Rightarrow> bool" where
  "walk n i j ks \<longleftrightarrow> set ks \<subseteq> {..<n} \<and> last (i # ks) = j"

lemma walk_Nil [simp]: "walk n i j [] \<longleftrightarrow> i = j"
  by (simp add: walk_def)

lemma walk_Cons [simp]: "walk n i j (k # ks) \<longleftrightarrow> k < n \<and> walk n k j ks"
  by (auto simp: walk_def)

lemma walk_append: "walk n i k ks \<Longrightarrow> walk n k j ls \<Longrightarrow> walk n i j (ks @ ls)"
  by (induction ks arbitrary: i) auto

lemma walk_cost_append: "walk n i k ks \<Longrightarrow> walk_cost w i (ks @ ls) = walk_cost w i ks + walk_cost w k ls"
  by (induction ks arbitrary: i) auto

definition reached :: "matrix \<Rightarrow> nat \<Rightarrow> matrix \<Rightarrow> bool" where
  "reached w n M \<longleftrightarrow> (\<forall>i < n. \<forall>j < n. \<exists>ks. walk n i j ks \<and> walk_cost w i ks = mat M i j)"

lemma reachedE:
  assumes "reached w n M" "i < n" "j < n"
  obtains ks where "walk n i j ks" "walk_cost w i ks = mat M i j"
  using assms by (auto simp: reached_def)

text \<open>The specification of the result: every entry is the cost of a walk, and of a cheapest one.\<close>

definition distances :: "matrix \<Rightarrow> nat \<Rightarrow> matrix \<Rightarrow> bool" where
  "distances w n M \<longleftrightarrow> square n M \<and> reached w n M \<and>
     (\<forall>i < n. \<forall>j < n. \<forall>ks. walk n i j ks \<longrightarrow> mat M i j \<le> walk_cost w i ks)"

section \<open>One pass\<close>

text \<open>
  What every update keeps, for a matrix of non-negative weights \<open>w\<close> with zeros on the diagonal: the
  entries are costs of walks, not above the weights, which are below \<open>2 ^ 30\<close>, and not negative.
\<close>

definition path_matrix :: "matrix \<Rightarrow> nat \<Rightarrow> matrix \<Rightarrow> bool" where
  "path_matrix w n M \<longleftrightarrow> square n M \<and> reached w n M \<and>
     (\<forall>i < n. \<forall>j < n. 0 \<le> mat M i j \<and> mat M i j \<le> mat w i j \<and> mat w i j < 2 ^ 30)"

definition weights_ok :: "nat \<Rightarrow> matrix \<Rightarrow> bool" where
  "weights_ok n w \<longleftrightarrow> square n w \<and> (\<forall>i < n. \<forall>j < n. 0 \<le> mat w i j \<and> mat w i j < 2 ^ 30) \<and> (\<forall>i < n. mat w i i = 0)"

lemma path_matrix_weights: "weights_ok n w \<Longrightarrow> path_matrix w n w"
proof -
  assume a: "weights_ok n w"
  have "walk n i j [j] \<and> walk_cost w i [j] = mat w i j" if "j < n" for i j using that by simp
  then show ?thesis using a unfolding path_matrix_def reached_def weights_ok_def by blast
qed

lemma fold_min_cases:
  "fold (\<lambda>k m. min m (f k)) ks m0 = m0 \<or> (\<exists>k \<in> set ks. fold (\<lambda>k m. min m (f k)) ks m0 = f k)"
  for m0 :: int
proof (induction ks arbitrary: m0)
  case (Cons k ks)
  from Cons [of "min m0 (f k)"] show ?case by (auto simp: min_def)
qed simp

lemma fold_min_le: "fold (\<lambda>k m. min m (f k)) ks m0 \<le> m0 \<and> (\<forall>k \<in> set ks. fold (\<lambda>k m. min m (f k)) ks m0 \<le> f k)"
  for m0 :: int
proof (induction ks arbitrary: m0)
  case (Cons k ks)
  from Cons [of "min m0 (f k)"] show ?case by auto
qed simp

text \<open>No sum of two entries leaves the range of \<open>int\<close>.\<close>

lemma path_matrix_bounds: "path_matrix w n M \<Longrightarrow> i < n \<Longrightarrow> j < n \<Longrightarrow> 0 \<le> mat M i j \<and> mat M i j < 2 ^ 30"
  unfolding path_matrix_def by (meson le_less_trans)

lemma no_wrap: "0 \<le> x \<Longrightarrow> x < 2 ^ 30 \<Longrightarrow> 0 \<le> y \<Longrightarrow> y < 2 ^ 30 \<Longrightarrow> wrap32 (x + y) = x + y" for x y :: int
  by (rule wrap32_nonneg) simp_all

lemma extend_minimum_exact:
  assumes "path_matrix w n M" "i < n" "j < n"
  shows "extend_minimum M i j = fold (\<lambda>k m. min m (mat M i k + mat M k j)) [0..<n] (mat M i j)"
proof -
  have l: "length M = n" using assms(1) by (simp add: path_matrix_def square_def)
  show ?thesis unfolding extend_minimum_def l
    by (rule fold_cong) (use path_matrix_bounds [OF assms(1)] assms(2,3) in \<open>auto simp: no_wrap\<close>)
qed

lemma extend_minimum_cases:
  assumes "path_matrix w n M" "i < n" "j < n"
  shows "extend_minimum M i j = mat M i j \<or> (\<exists>k < n. extend_minimum M i j = mat M i k + mat M k j)"
  using fold_min_cases [of "\<lambda>k. mat M i k + mat M k j" "[0..<n]" "mat M i j"]
  by (auto simp: extend_minimum_exact [OF assms])

lemma extend_minimum_le:
  assumes "path_matrix w n M" "i < n" "j < n"
  shows "extend_minimum M i j \<le> mat M i j" "k < n \<Longrightarrow> extend_minimum M i j \<le> mat M i k + mat M k j"
  using fold_min_le [of "\<lambda>k. mat M i k + mat M k j" "[0..<n]" "mat M i j"]
  by (auto simp: extend_minimum_exact [OF assms])

lemma path_matrix_update:
  assumes "path_matrix w n M" "i < n" "j < n"
  shows "path_matrix w n (set_mat i j (extend_minimum M i j) M)"
proof -
  let ?x = "extend_minimum M i j"
  have sq: "square n M" using assms(1) by (simp add: path_matrix_def)
  have r: "\<exists>ks. walk n a b ks \<and> walk_cost w a ks = mat M a b" if "a < n" "b < n" for a b
    using assms(1) that by (simp add: path_matrix_def reached_def)
  have new: "\<exists>ks. walk n i j ks \<and> walk_cost w i ks = ?x"
    using extend_minimum_cases [OF assms]
  proof
    assume "?x = mat M i j"
    then show ?thesis using r assms(2,3) by simp
  next
    assume "\<exists>k < n. ?x = mat M i k + mat M k j"
    then obtain k where k: "k < n" "?x = mat M i k + mat M k j" by blast
    obtain ks where ks: "walk n i k ks" "walk_cost w i ks = mat M i k" using r assms(2) k(1) by blast
    obtain ls where ls: "walk n k j ls" "walk_cost w k ls = mat M k j" using r assms(3) k(1) by blast
    have "walk n i j (ks @ ls) \<and> walk_cost w i (ks @ ls) = ?x"
      using walk_append [OF ks(1) ls(1)] walk_cost_append [OF ks(1), of w ls] ks(2) ls(2) k(2) by simp
    then show ?thesis by blast
  qed
  have nonneg: "0 \<le> mat M a b" "mat M a b \<le> mat w a b" "mat w a b < 2 ^ 30" if "a < n" "b < n" for a b
    using assms(1) that by (auto simp: path_matrix_def)
  have "0 \<le> ?x" using extend_minimum_cases [OF assms] nonneg assms(2,3) by fastforce
  moreover have "?x \<le> mat w i j"
    using extend_minimum_le(1) [OF assms] nonneg(2) [OF assms(2,3)] by linarith
  ultimately show ?thesis
    using square_set_mat [OF sq] new r nonneg
    by (simp add: path_matrix_def reached_def mat_set_mat [OF sq assms(2,3)])
qed

text \<open>The sum of the entries gets smaller with every change.\<close>

definition total :: "nat \<Rightarrow> matrix \<Rightarrow> int" where
  "total n M = (\<Sum>i < n. \<Sum>j < n. mat M i j)"

lemma total_set_mat:
  assumes "square n M" "i < n" "j < n"
  shows "total n (set_mat i j x M) = total n M - mat M i j + x"
proof -
  have row: "(\<Sum>b < n. mat (set_mat i j x M) a b) = (\<Sum>b < n. mat M a b) + (if a = i then x - mat M i j else 0)" for a
  proof (cases "a = i")
    case True
    have "(\<Sum>b < n. mat (set_mat i j x M) i b) = (\<Sum>b < n. mat M i b + (if b = j then x - mat M i j else 0))"
      by (rule sum.cong) (auto simp: mat_set_mat [OF assms])
    then show ?thesis using True assms(3) by (simp add: sum.distrib)
  next
    case False
    then show ?thesis by (simp add: mat_set_mat [OF assms])
  qed
  show ?thesis using assms(2) by (simp add: total_def row sum.distrib)
qed

definition pass_ok :: "matrix \<Rightarrow> nat \<Rightarrow> matrix \<Rightarrow> matrix \<times> bool \<Rightarrow> bool" where
  "pass_ok w n M0 st \<longleftrightarrow> path_matrix w n (fst st) \<and>
     (if snd st then total n (fst st) < total n M0 else fst st = M0)"

lemma extend_entry_ok:
  assumes "pass_ok w n M0 st" "i < n" "j < n"
  shows "pass_ok w n M0 (extend_entry (i, j) st)"
    and "snd st \<Longrightarrow> snd (extend_entry (i, j) st)"
    and "\<not> snd (extend_entry (i, j) st) \<Longrightarrow> extend_minimum (fst st) i j = mat (fst st) i j"
proof -
  obtain M ch where st: "st = (M, ch)" by force
  have p: "path_matrix w n M" and t: "if ch then total n M < total n M0 else M = M0"
    using assms(1) by (auto simp: pass_ok_def st)
  have sq: "square n M" using p by (simp add: path_matrix_def)
  show "pass_ok w n M0 (extend_entry (i, j) st)"
    using path_matrix_update [OF p assms(2,3)] extend_minimum_le(1) [OF p assms(2,3)] p t
    by (auto simp: st extend_entry_def pass_ok_def Let_def total_set_mat [OF sq assms(2,3)] split: if_splits)
qed (auto simp: extend_entry_def Let_def split: prod.splits if_splits)

lemma extend_fold_ok:
  assumes "\<forall>(i, j) \<in> set ijs. i < n \<and> j < n" "pass_ok w n M0 st"
  shows "pass_ok w n M0 (fold extend_entry ijs st)
    \<and> (\<not> snd (fold extend_entry ijs st) \<longrightarrow>
         \<not> snd st \<and> (\<forall>(i, j) \<in> set ijs. extend_minimum M0 i j = mat M0 i j))"
  using assms
proof (induction ijs arbitrary: st)
  case (Cons ij ijs)
  obtain i j where ij: "ij = (i, j)" by force
  let ?st = "extend_entry (i, j) st"
  have lt: "i < n" "j < n" using Cons.prems(1) ij by auto
  note e = extend_entry_ok [OF Cons.prems(2) lt]
  have ih: "pass_ok w n M0 (fold extend_entry ijs ?st)
    \<and> (\<not> snd (fold extend_entry ijs ?st) \<longrightarrow>
         \<not> snd ?st \<and> (\<forall>(i, j) \<in> set ijs. extend_minimum M0 i j = mat M0 i j))"
    using Cons.prems(1) e(1) by (intro Cons.IH) auto
  have "fst st = M0" if "\<not> snd st" using Cons.prems(2) that by (simp add: pass_ok_def)
  then show ?case using ih e(2,3) by (auto simp: ij)
qed simp

lemma extend_pass_ok:
  assumes "path_matrix w n M"
  shows "path_matrix w n (fst (extend_pass M))"
    and "snd (extend_pass M) \<Longrightarrow> total n (fst (extend_pass M)) < total n M"
    and "\<not> snd (extend_pass M) \<Longrightarrow> fst (extend_pass M) = M
      \<and> (\<forall>i < n. \<forall>j < n. \<forall>k < n. mat M i j \<le> mat M i k + mat M k j)"
proof -
  have l: "length M = n" using assms by (simp add: path_matrix_def square_def)
  have "pass_ok w n M (M, False)" using assms by (simp add: pass_ok_def)
  then have f: "pass_ok w n M (extend_pass M) \<and> (\<not> snd (extend_pass M) \<longrightarrow>
       (\<forall>i < n. \<forall>j < n. extend_minimum M i j = mat M i j))"
    using extend_fold_ok [of "List.product [0..<length M] [0..<length M]" n w M "(M, False)"] l
    by (auto simp: extend_pass_def)
  then show "path_matrix w n (fst (extend_pass M))"
    "snd (extend_pass M) \<Longrightarrow> total n (fst (extend_pass M)) < total n M"
    by (auto simp: pass_ok_def)
  show "\<not> snd (extend_pass M) \<Longrightarrow> fst (extend_pass M) = M
      \<and> (\<forall>i < n. \<forall>j < n. \<forall>k < n. mat M i j \<le> mat M i k + mat M k j)"
    using f extend_minimum_le(2) [OF assms] by (auto simp: pass_ok_def)
qed

section \<open>The loop\<close>

lemma triangle_distances:
  assumes "path_matrix w n M" "weights_ok n w" "\<forall>i < n. \<forall>j < n. \<forall>k < n. mat M i j \<le> mat M i k + mat M k j"
  shows "distances w n M"
proof -
  have "mat M i j \<le> walk_cost w i ks" if "i < n" "j < n" "walk n i j ks" for i j ks
    using that
  proof (induction ks arbitrary: i)
    case Nil
    then have "mat M i i \<le> mat w i i" using assms(1) by (simp add: path_matrix_def)
    then show ?case using Nil assms(2) by (simp add: weights_ok_def)
  next
    case (Cons k ks)
    then have k: "k < n" "walk n k j ks" by simp_all
    have "mat M i j \<le> mat M i k + mat M k j" using assms(3) Cons.prems k by blast
    moreover have "mat M i k \<le> mat w i k" using assms(1) Cons.prems k by (simp add: path_matrix_def)
    ultimately show ?case using Cons.IH [OF k(1) Cons.prems(2) k(2)] by simp
  qed
  then show ?thesis using assms(1) by (auto simp: distances_def path_matrix_def)
qed

lemma total_nonneg: "path_matrix w n M \<Longrightarrow> 0 \<le> total n M"
  unfolding total_def by (intro sum_nonneg) (auto simp: path_matrix_def)

lemma shortest_path_distances:
  assumes "weights_ok n w"
  obtains dist where "shortest_path w = Inr dist" "distances w n dist" "path_matrix w n dist"
proof -
  let ?b = "\<lambda>(M :: matrix, change :: bool). extend_pass M"
  let ?P = "\<lambda>st. path_matrix w n (fst st) \<and> (\<not> snd st \<longrightarrow> distances w n (fst st))"
  let ?f = "\<lambda>st. if snd st then nat (total n (fst st)) + 1 else (0 :: nat)"
  have init: "?P (w, True)" using path_matrix_weights [OF assms] by simp
  have step: "?P (?b st)" if "?P st" "snd st" for st
    using that extend_pass_ok [of w n "fst st"] triangle_distances [OF _ assms]
    by (cases st) (metis (no_types, lifting) case_prod_conv fst_conv)
  have decr: "?f (extend_pass M) < nat (total n M) + 1" if "path_matrix w n M" for M
    using extend_pass_ok(1,2) [OF that] total_nonneg [OF that] total_nonneg [of w n "fst (extend_pass M)"]
    by (auto simp: nat_less_iff)
  have "\<exists>st. while_option snd ?b (w, True) = Some st"
  proof (rule measure_while_option_Some [where P = ?P and f = ?f])
    show "?P (?b s) \<and> ?f (?b s) < ?f s" if pre: "?P s" "snd s" for s
    proof
      show "?P (?b s)" by (rule step [OF pre])
      obtain M where s: "s = (M, True)" using pre(2) by (cases s) simp
      have "path_matrix w n M" using pre(1) s by simp
      from decr [OF this] show "?f (?b s) < ?f s" by (simp only: s fst_conv snd_conv prod.case if_True)
    qed
  qed (rule init)
  then obtain st where st: "while_option snd ?b (w, True) = Some st" by blast
  have "?P st" by (rule while_option_rule [where P = ?P, OF _ st init]) (rule step)
  moreover have "\<not> snd st" by (rule while_option_stop [OF st])
  ultimately show ?thesis using st
    by (intro that [of "fst st"]) (auto simp: shortest_path_def extend_shortest_path_def split: prod.splits)
qed

text \<open>A cheapest walk starts with a link of the shortest path.\<close>

lemma shortest_first_link:
  assumes "distances w n dist" "weights_ok n w" "i < n" "f < n" "i \<noteq> f"
  obtains k where "k < n" "k \<noteq> i" "link_is_shortest_path_to_node i k f w dist" "mat w i k \<le> mat dist i f"
proof -
  note goal = that
  have d: "mat dist a b \<le> walk_cost w a ks" if "a < n" "b < n" "walk n a b ks" for a b ks
    using assms(1) that by (simp add: distances_def)
  have r: "reached w n dist" using assms(1) by (simp add: distances_def)
  have nonneg: "0 \<le> mat dist a b" if ab: "a < n" "b < n" for a b
  proof -
    obtain ks where ks: "walk n a b ks" "walk_cost w a ks = mat dist a b"
      by (rule reachedE [OF r ab])
    have "0 \<le> walk_cost w a ks" using ks(1) ab(1)
    proof (induction ks arbitrary: a)
      case (Cons k ks)
      then have "0 \<le> mat w a k" using assms(2) by (simp add: weights_ok_def)
      then show ?case using Cons.IH [of k] Cons.prems by simp
    qed simp
    then show ?thesis using ks(2) by simp
  qed
  have "\<exists>k < n. k \<noteq> i \<and> mat w i k + mat dist k f = mat dist i f"
    if "walk n i f ks" "walk_cost w i ks = mat dist i f" for ks
    using that
  proof (induction ks)
    case Nil
    then show ?case using assms(5) by simp
  next
    case (Cons k ks)
    then have k: "k < n" "walk n k f ks" by simp_all
    show ?case
    proof (cases "k = i")
      case True
      then show ?thesis using Cons k assms(2,3) by (simp add: weights_ok_def)
    next
      case False
      have "mat dist k f \<le> walk_cost w k ks" using d k assms(4) by blast
      moreover have "mat dist i f \<le> mat w i k + mat dist k f"
      proof -
        obtain ls where ls: "walk n k f ls" "walk_cost w k ls = mat dist k f"
          by (rule reachedE [OF r k(1) assms(4)])
        have "mat dist i f \<le> walk_cost w i (k # ls)" using d [OF assms(3,4), of "k # ls"] ls k by simp
        then show ?thesis using ls by simp
      qed
      ultimately have "mat w i k + mat dist k f = mat dist i f" using Cons.prems(2) by simp
      then show ?thesis using k False by blast
    qed
  qed
  moreover obtain ks where "walk n i f ks" "walk_cost w i ks = mat dist i f"
    by (rule reachedE [OF r assms(3,4)])
  ultimately obtain k where k: "k < n" "k \<noteq> i" "mat w i k + mat dist k f = mat dist i f" by blast
  moreover have "mat dist i f \<le> mat w i f" using d [OF assms(3,4), of "[f]"] assms(4) by simp
  then have "mat dist i f < 2 ^ 30" using assms(2-4) unfolding weights_ok_def by (meson le_less_trans)
  ultimately show ?thesis using goal [of k] nonneg [of k f] nonneg [OF assms(3,4)] assms(4)
    by (simp add: link_is_shortest_path_to_node_def wrap32_nonneg)
qed

end
