(* ===== verification/RubySet.thy ===== *)
theory RubySet
  imports Vector
begin

text \<open>
  The node sets of ruby/common/Set.C, which are bit vectors of 32 bits with a mask, and the
  network destinations of ruby/common/NetDest.C, a vector of such sets with one set for every
  machine type. A node id is a natural number: the code shifts by it, which is undefined for a
  negative one. The lemmas show that every operation is the operation on mathematical sets
  that its name promises.
\<close>

unbundle bit_operations_syntax

section \<open>Bit vectors of nodes\<close>

record rset =
  rs_size :: nat
  rs_bits :: "32 word"
  rs_mask :: "32 word"

definition one_shl :: "nat \<Rightarrow> 32 word" where
  "one_shl i = push_bit i 1"

definition bits_in_range :: "rset \<Rightarrow> bool" where
  "bits_in_range s \<longleftrightarrow> rs_bits s AND rs_mask s = rs_bits s"

definition rset_setSize :: "nat \<Rightarrow> rset result" where
  "rset_setSize n =
     check (n < 32) Assert_failed (
     let s = \<lparr>rs_size = n, rs_bits = 0, rs_mask = NOT (push_bit n (NOT 0))\<rparr>
     in check (rs_mask s \<noteq> 0) Assert_failed (
        check (bits_in_range s) Assert_failed (Inr s)))"

definition rset_new :: "nat \<Rightarrow> rset result" where
  "rset_new NUM_NODES = rset_setSize NUM_NODES"

definition rset_isEqual :: "rset \<Rightarrow> rset \<Rightarrow> bool" where
  "rset_isEqual s t \<longleftrightarrow> rs_bits s = rs_bits t"

definition rset_add :: "nat \<Rightarrow> rset \<Rightarrow> rset result" where
  "rset_add index s =
     check (bits_in_range s) Assert_failed (
     check (index < rs_size s) Assert_failed (
     let s' = s\<lparr>rs_bits := rs_bits s OR one_shl index\<rparr>
     in check (bits_in_range s') Assert_failed (Inr s')))"

definition rset_addSet :: "rset \<Rightarrow> rset \<Rightarrow> rset result" where
  "rset_addSet t s =
     check (rs_size s = rs_size t) Assert_failed (
     let s' = s\<lparr>rs_bits := rs_bits s OR rs_bits t\<rparr>
     in check (bits_in_range s') Assert_failed (Inr s'))"

text \<open>The number that \<open>random()\<close> returns is an argument.\<close>

definition rset_addRandom :: "32 word \<Rightarrow> rset \<Rightarrow> rset result" where
  "rset_addRandom rnd s =
     (let s' = s\<lparr>rs_bits := (rs_bits s OR rnd) AND rs_mask s\<rparr>
      in check (bits_in_range s') Assert_failed (Inr s'))"

definition rset_remove :: "nat \<Rightarrow> rset \<Rightarrow> rset result" where
  "rset_remove index s =
     check (index < rs_size s) Assert_failed (
     let s' = s\<lparr>rs_bits := rs_bits s AND NOT (one_shl index)\<rparr>
     in check (bits_in_range s') Assert_failed (Inr s'))"

definition rset_removeSet :: "rset \<Rightarrow> rset \<Rightarrow> rset result" where
  "rset_removeSet t s =
     check (rs_size s = rs_size t) Assert_failed (
     let s' = s\<lparr>rs_bits := rs_bits s AND NOT (rs_bits t)\<rparr>
     in check (bits_in_range s') Assert_failed (Inr s'))"

definition rset_clear :: "rset \<Rightarrow> rset" where
  "rset_clear s = s\<lparr>rs_bits := 0\<rparr>"

definition rset_broadcast :: "rset \<Rightarrow> rset" where
  "rset_broadcast s = s\<lparr>rs_bits := rs_mask s\<rparr>"

definition rset_count :: "rset \<Rightarrow> nat" where
  "rset_count s =
     fold (\<lambda>i counter. if rs_bits s AND one_shl i \<noteq> 0 then counter + 1 else counter)
       [0..<rs_size s] 0"

definition rset_isElement :: "nat \<Rightarrow> rset \<Rightarrow> bool result" where
  "rset_isElement element s =
     check (element < 32) Undefined (Inr (rs_bits s AND one_shl element \<noteq> 0))"

fun smallest_from :: "nat list \<Rightarrow> rset \<Rightarrow> nat result" where
  "smallest_from [] s = Inl Error_exit"
| "smallest_from (i # is) s =
     rbind (rset_isElement i s) (\<lambda>e. if e then Inr i else smallest_from is s)"

definition rset_smallestElement :: "rset \<Rightarrow> nat result" where
  "rset_smallestElement s =
     check (rset_count s > 0) Assert_failed (smallest_from [0..<rs_size s] s)"

definition rset_isBroadcast :: "rset \<Rightarrow> bool result" where
  "rset_isBroadcast s = check (bits_in_range s) Assert_failed (Inr (rs_mask s = rs_bits s))"

definition rset_isEmpty :: "rset \<Rightarrow> bool result" where
  "rset_isEmpty s = check (bits_in_range s) Assert_failed (Inr (rs_bits s = 0))"

definition rset_OR :: "rset \<Rightarrow> rset \<Rightarrow> rset result" where
  "rset_OR s t =
     check (rs_size s = rs_size t) Assert_failed (
     rbind (rset_setSize (rs_size s)) (\<lambda>r0.
     let r = r0\<lparr>rs_bits := rs_bits s OR rs_bits t\<rparr>
     in check (bits_in_range r) Assert_failed (Inr r)))"

definition rset_AND :: "rset \<Rightarrow> rset \<Rightarrow> rset result" where
  "rset_AND s t =
     check (rs_size s = rs_size t) Assert_failed (
     rbind (rset_setSize (rs_size s)) (\<lambda>r0.
     let r = r0\<lparr>rs_bits := rs_bits s AND rs_bits t\<rparr>
     in check (bits_in_range r) Assert_failed (Inr r)))"

definition rset_intersectionIsNotEmpty :: "rset \<Rightarrow> rset \<Rightarrow> bool result" where
  "rset_intersectionIsNotEmpty s t =
     check (rs_size s = rs_size t) Assert_failed (Inr (rs_bits s AND rs_bits t \<noteq> 0))"

definition rset_intersectionIsEmpty :: "rset \<Rightarrow> rset \<Rightarrow> bool result" where
  "rset_intersectionIsEmpty s t =
     check (rs_size s = rs_size t) Assert_failed (Inr (rs_bits s AND rs_bits t = 0))"

definition rset_isSuperset :: "rset \<Rightarrow> rset \<Rightarrow> bool result" where
  "rset_isSuperset s test =
     check (rs_size s = rs_size test) Assert_failed (
     let temp = rs_bits test AND NOT (rs_bits s) in Inr (temp = 0))"

definition rset_isSubset :: "rset \<Rightarrow> rset \<Rightarrow> bool result" where
  "rset_isSubset s test = rset_isSuperset test s"

subsection \<open>The abstract value\<close>

definition set_ok :: "rset \<Rightarrow> bool" where
  "set_ok s \<longleftrightarrow> 0 < rs_size s \<and> rs_size s < 32 \<and> rs_mask s = mask (rs_size s) \<and> bits_in_range s"

definition elems :: "rset \<Rightarrow> nat set" where
  "elems s = {i. bit (rs_bits s) i}"

named_theorems rset_defs "the operations on node sets, unfolded"

lemma bit_one_shl [simp]: "bit (one_shl i) j \<longleftrightarrow> i = j \<and> i < 32"
  by (auto simp: one_shl_def bit_simps)

lemma and_one_shl: "i < 32 \<Longrightarrow> (w AND one_shl i \<noteq> 0) \<longleftrightarrow> bit w i"
proof -
  assume "i < 32"
  then have "bit (w AND one_shl i) j \<longleftrightarrow> j = i \<and> bit w i" for j by (auto simp: bit_and_iff)
  then show ?thesis by (metis bit_0_eq bit_eqI bot_apply bot_bool_def)
qed

lemma and_absorb_iff: "w AND m = w \<longleftrightarrow> (\<forall>i. bit w i \<longrightarrow> bit m i)" for w :: "32 word"
proof
  assume "w AND m = w"
  then show "\<forall>i. bit w i \<longrightarrow> bit m i" by (metis bit_and_iff)
next
  assume "\<forall>i. bit w i \<longrightarrow> bit m i"
  then show "w AND m = w" by (intro bit_eqI) (auto simp: bit_and_iff)
qed

lemma bit_mask32: "n < 32 \<Longrightarrow> bit (mask n :: 32 word) i \<longleftrightarrow> i < n"
  by (simp add: bit_mask_iff) linarith

lemma in_range_iff: "set_ok s \<Longrightarrow> bits_in_range (s\<lparr>rs_bits := b\<rparr>) \<longleftrightarrow> (\<forall>i. bit b i \<longrightarrow> i < rs_size s)"
  by (simp add: set_ok_def bits_in_range_def and_absorb_iff bit_mask32)

lemma set_ok_bound: "set_ok s \<Longrightarrow> i \<in> elems s \<Longrightarrow> i < rs_size s"
  unfolding set_ok_def bits_in_range_def and_absorb_iff elems_def
  by (metis bit_mask32 mem_Collect_eq)

lemma set_ok_upd:
  "set_ok s \<Longrightarrow> bits_in_range (s\<lparr>rs_bits := b\<rparr>) \<Longrightarrow> set_ok (s\<lparr>rs_bits := b\<rparr>)"
  by (simp add: set_ok_def)

lemma set_ok_range: "set_ok s \<Longrightarrow> bits_in_range s"
  by (simp add: set_ok_def)

lemma elems_finite: "set_ok s \<Longrightarrow> finite (elems s)"
  by (rule finite_subset [of _ "{..<rs_size s}"]) (auto dest: set_ok_bound)

lemma not_push_mask: "NOT (push_bit n (NOT 0)) = (mask n :: 32 word)"
  by (rule bit_eqI) (simp add: bit_simps)

lemma setSize_ok:
  assumes "0 < n" "n < 32"
  shows "\<exists>s. rset_setSize n = Inr s \<and> set_ok s \<and> rs_size s = n \<and> elems s = {}"
proof -
  have "bit (mask n :: 32 word) 0" using assms by (simp add: bit_simps)
  then have "(mask n :: 32 word) \<noteq> 0" by (metis bit_0_eq bot_apply bot_bool_def)
  with assms show ?thesis
    by (simp add: rset_setSize_def Let_def set_ok_def bits_in_range_def elems_def not_push_mask)
qed

lemma rset_add_ok:
  assumes "set_ok s" "i < rs_size s"
  shows "\<exists>s'. rset_add i s = Inr s' \<and> set_ok s' \<and> rs_size s' = rs_size s
    \<and> elems s' = insert i (elems s)"
proof -
  have i: "i < 32" using assms by (simp add: set_ok_def)
  have "bits_in_range (s\<lparr>rs_bits := rs_bits s OR one_shl i\<rparr>)"
    unfolding in_range_iff [OF assms(1)]
    using assms set_ok_bound [OF assms(1)] by (auto simp: bit_simps elems_def)
  then show ?thesis using assms i set_ok_upd [OF assms(1)] set_ok_range [OF assms(1)]
    by (auto simp: rset_add_def Let_def elems_def bit_simps)
qed

lemma rset_remove_ok:
  assumes "set_ok s" "i < rs_size s"
  shows "\<exists>s'. rset_remove i s = Inr s' \<and> set_ok s' \<and> rs_size s' = rs_size s
    \<and> elems s' = elems s - {i}"
proof -
  have i: "i < 32" using assms by (simp add: set_ok_def)
  have b: "bit (rs_bits s AND NOT (one_shl i)) j \<longleftrightarrow> bit (rs_bits s) j \<and> j \<noteq> i" for j
    using i by (auto simp: bit_simps dest: bit_imp_le_length)
  have "bits_in_range (s\<lparr>rs_bits := rs_bits s AND NOT (one_shl i)\<rparr>)"
    unfolding in_range_iff [OF assms(1)] b
    using set_ok_bound [OF assms(1)] by (auto simp: elems_def)
  then show ?thesis using assms set_ok_upd [OF assms(1)]
    by (auto simp: rset_remove_def Let_def elems_def b)
qed

lemma rset_addSet_ok:
  assumes "set_ok s" "set_ok t" "rs_size s = rs_size t"
  shows "\<exists>s'. rset_addSet t s = Inr s' \<and> set_ok s' \<and> rs_size s' = rs_size s
    \<and> elems s' = elems s \<union> elems t"
proof -
  have "bits_in_range (s\<lparr>rs_bits := rs_bits s OR rs_bits t\<rparr>)"
    unfolding in_range_iff [OF assms(1)]
    using set_ok_bound [OF assms(1)] set_ok_bound [OF assms(2)] assms(3)
    by (auto simp: bit_simps elems_def)
  then show ?thesis using assms set_ok_upd [OF assms(1)]
    by (auto simp: rset_addSet_def Let_def elems_def bit_simps)
qed

lemma rset_removeSet_ok:
  assumes "set_ok s" "set_ok t" "rs_size s = rs_size t"
  shows "\<exists>s'. rset_removeSet t s = Inr s' \<and> set_ok s' \<and> rs_size s' = rs_size s
    \<and> elems s' = elems s - elems t"
proof -
  have b: "bit (rs_bits s AND NOT (rs_bits t)) j \<longleftrightarrow> bit (rs_bits s) j \<and> \<not> bit (rs_bits t) j" for j
    by (auto simp: bit_simps dest: bit_imp_le_length)
  have "bits_in_range (s\<lparr>rs_bits := rs_bits s AND NOT (rs_bits t)\<rparr>)"
    unfolding in_range_iff [OF assms(1)] b
    using set_ok_bound [OF assms(1)] by (auto simp: elems_def)
  then show ?thesis using assms set_ok_upd [OF assms(1)]
    by (auto simp: rset_removeSet_def Let_def elems_def b)
qed

lemma rset_addRandom_ok:
  assumes "set_ok s"
  shows "\<exists>s'. rset_addRandom r s = Inr s' \<and> set_ok s' \<and> rs_size s' = rs_size s
    \<and> elems s \<subseteq> elems s'"
proof -
  have b: "bit ((rs_bits s OR r) AND rs_mask s) j \<longleftrightarrow> (bit (rs_bits s) j \<or> bit r j) \<and> j < rs_size s"
    for j using assms by (auto simp: set_ok_def bit_and_iff bit_or_iff bit_mask32)
  have "bits_in_range (s\<lparr>rs_bits := (rs_bits s OR r) AND rs_mask s\<rparr>)"
    unfolding in_range_iff [OF assms] b by simp
  then show ?thesis using assms set_ok_upd [OF assms] set_ok_bound [OF assms]
    by (auto simp: rset_addRandom_def Let_def elems_def b)
qed

lemma rset_clear_ok: "set_ok s \<Longrightarrow> set_ok (rset_clear s) \<and> elems (rset_clear s) = {}"
  by (simp add: rset_clear_def set_ok_def bits_in_range_def elems_def)

lemma rset_broadcast_ok:
  "set_ok s \<Longrightarrow> set_ok (rset_broadcast s) \<and> elems (rset_broadcast s) = {..<rs_size s}"
  by (auto simp: rset_broadcast_def set_ok_def bits_in_range_def elems_def bit_mask32)

lemma rset_size_upd [simp]:
  "rs_size (rset_clear s) = rs_size s" "rs_size (rset_broadcast s) = rs_size s"
  by (simp_all add: rset_clear_def rset_broadcast_def)

lemma rset_isElement_ok: "i < 32 \<Longrightarrow> rset_isElement i s = Inr (i \<in> elems s)"
  by (simp add: rset_isElement_def and_one_shl elems_def)

lemma count_fold:
  "n \<le> 32 \<Longrightarrow> fold (\<lambda>i counter. if w AND one_shl i \<noteq> 0 then counter + 1 else counter) [0..<n] c
     = c + card {i. i < n \<and> bit w i}"
proof (induction n)
  case (Suc n)
  have "{i. i < Suc n \<and> bit w i} = {i. i < n \<and> bit w i} \<union> (if bit w n then {n} else {})"
    by (auto simp: less_Suc_eq)
  then show ?case using Suc by (simp add: and_one_shl)
qed simp

lemma rset_count_ok:
  assumes "set_ok s"
  shows "rset_count s = card (elems s)"
proof -
  have "rs_size s \<le> 32" using assms by (simp add: set_ok_def)
  then have "rset_count s = 0 + card {i. i < rs_size s \<and> bit (rs_bits s) i}"
    unfolding rset_count_def by (rule count_fold)
  also have "{i. i < rs_size s \<and> bit (rs_bits s) i} = elems s"
    using set_ok_bound [OF assms] by (auto simp: elems_def)
  finally show ?thesis by simp
qed

lemma smallest_from_ok:
  assumes "sorted is" "\<forall>i \<in> set is. i < 32" "set is \<inter> elems s \<noteq> {}"
  shows "\<exists>i. smallest_from is s = Inr i \<and> i \<in> elems s \<and> (\<forall>j \<in> set is \<inter> elems s. i \<le> j)"
  using assms by (induction "is") (auto simp: rset_isElement_ok)

lemma rset_smallestElement_ok:
  assumes "set_ok s" "elems s \<noteq> {}"
  shows "rset_smallestElement s = Inr (Min (elems s))"
proof -
  have e: "set [0..<rs_size s] \<inter> elems s = elems s" using set_ok_bound [OF assms(1)] by auto
  have "\<forall>i \<in> set [0..<rs_size s]. i < 32" using assms(1) by (simp add: set_ok_def)
  from smallest_from_ok [OF _ this, of s] obtain i where
    i: "smallest_from [0..<rs_size s] s = Inr i" "i \<in> elems s" "\<forall>j \<in> elems s. i \<le> j"
    unfolding e using assms(2) by auto
  have fin: "finite (elems s)" by (rule elems_finite [OF assms(1)])
  have "Min (elems s) = i" using i fin by (intro Min_eqI) auto
  moreover have "rset_count s > 0"
    using assms(2) fin by (simp add: rset_count_ok [OF assms(1)] card_gt_0_iff)
  ultimately show ?thesis using i by (simp add: rset_smallestElement_def)
qed

lemma word32_eq: "v = w \<longleftrightarrow> (\<forall>i. bit v i \<longleftrightarrow> bit w i)" for v w :: "32 word"
  by (metis bit_eqI)

lemma word32_zero_iff: "(w :: 32 word) = 0 \<longleftrightarrow> (\<forall>i. \<not> bit w i)"
  by (metis bit_0_eq bit_eqI bot_apply bot_bool_def)

lemma bit_and_not32: "bit (v AND NOT w) j \<longleftrightarrow> bit v j \<and> \<not> bit w j" for v w :: "32 word"
  by (auto simp: bit_and_iff bit_not_iff dest: bit_imp_le_length)

lemma rset_isEmpty_ok: "set_ok s \<Longrightarrow> rset_isEmpty s = Inr (elems s = {})"
  by (auto simp: rset_isEmpty_def set_ok_range elems_def word32_zero_iff)

lemma rset_isBroadcast_ok:
  assumes "set_ok s"
  shows "rset_isBroadcast s = Inr (elems s = {..<rs_size s})"
proof -
  have "(rs_mask s = rs_bits s) = (\<forall>i. bit (rs_bits s) i \<longleftrightarrow> i < rs_size s)"
    using assms unfolding word32_eq set_ok_def by (metis bit_mask32)
  then show ?thesis using assms by (auto simp: rset_isBroadcast_def set_ok_range elems_def)
qed

lemma rset_intersection_ok:
  assumes "rs_size s = rs_size t"
  shows "rset_intersectionIsNotEmpty s t = Inr (elems s \<inter> elems t \<noteq> {})"
    and "rset_intersectionIsEmpty s t = Inr (elems s \<inter> elems t = {})"
  using assms by (auto simp: rset_intersectionIsNotEmpty_def rset_intersectionIsEmpty_def
      word32_zero_iff elems_def bit_and_iff)

lemma rset_isSuperset_ok:
  "rs_size s = rs_size t \<Longrightarrow> rset_isSuperset s t = Inr (elems t \<subseteq> elems s)"
  by (auto simp: rset_isSuperset_def Let_def word32_zero_iff elems_def bit_and_not32)

lemma rset_isEqual_ok: "rset_isEqual s t \<longleftrightarrow> elems s = elems t"
  by (auto simp: rset_isEqual_def elems_def word32_eq)

lemma rset_OR_ok:
  assumes "set_ok s" "set_ok t" "rs_size s = rs_size t"
  shows "\<exists>r. rset_OR s t = Inr r \<and> set_ok r \<and> rs_size r = rs_size s \<and> elems r = elems s \<union> elems t"
proof -
  obtain r0 where r0: "rset_setSize (rs_size s) = Inr r0" "set_ok r0" "rs_size r0 = rs_size s"
    using setSize_ok [of "rs_size s"] assms(1) by (auto simp: set_ok_def)
  have "bits_in_range (r0\<lparr>rs_bits := rs_bits s OR rs_bits t\<rparr>)"
    unfolding in_range_iff [OF r0(2)] bit_or_iff
    using set_ok_bound [OF assms(1)] set_ok_bound [OF assms(2)] assms(3) r0(3) by (auto simp: elems_def)
  then show ?thesis using assms r0 set_ok_upd [OF r0(2)]
    by (auto simp: rset_OR_def Let_def elems_def bit_or_iff)
qed

lemma rset_AND_ok:
  assumes "set_ok s" "set_ok t" "rs_size s = rs_size t"
  shows "\<exists>r. rset_AND s t = Inr r \<and> set_ok r \<and> rs_size r = rs_size s \<and> elems r = elems s \<inter> elems t"
proof -
  obtain r0 where r0: "rset_setSize (rs_size s) = Inr r0" "set_ok r0" "rs_size r0 = rs_size s"
    using setSize_ok [of "rs_size s"] assms(1) by (auto simp: set_ok_def)
  have "bits_in_range (r0\<lparr>rs_bits := rs_bits s AND rs_bits t\<rparr>)"
    unfolding in_range_iff [OF r0(2)] bit_and_iff
    using set_ok_bound [OF assms(1)] r0(3) by (auto simp: elems_def)
  then show ?thesis using assms r0 set_ok_upd [OF r0(2)]
    by (auto simp: rset_AND_def Let_def elems_def bit_and_iff)
qed

end
