(* ===== verification/NetDest.thy ===== *)
theory NetDest
  imports RubySet
begin

text \<open>
  Network destinations, ruby/common/NetDest.C: a vector with one node set for every machine
  type. \<open>MachineType\<close> is generated by the protocol compiler; here a machine is its
  number and \<open>MachineType_NUM\<close> an argument of the constructor. The vector keeps its size, so
  it is a list with the index check of \<open>Vector\<close>. The lemmas show that a destination is a
  set of pairs of a machine and a node.
\<close>

record net_dest =
  m_sets :: "rset list"

definition nd_new :: "nat \<Rightarrow> nat \<Rightarrow> net_dest result" where
  "nd_new MachineType_NUM NUM_NODES =
     rbind (rset_new NUM_NODES) (\<lambda>s. Inr \<lparr>m_sets = replicate MachineType_NUM s\<rparr>)"

text \<open>The body \<open>m_sets[machine].f()\<close>.\<close>

definition on_set :: "(rset \<Rightarrow> rset result) \<Rightarrow> nat \<Rightarrow> net_dest \<Rightarrow> net_dest result" where
  "on_set f machine nd =
     rbind (lref machine (m_sets nd)) (\<lambda>s.
     rbind (f s) (\<lambda>s'.
     rbind (lput machine s' (m_sets nd)) (\<lambda>ss. Inr (nd\<lparr>m_sets := ss\<rparr>))))"

definition nd_add :: "nat \<Rightarrow> nat \<Rightarrow> net_dest \<Rightarrow> net_dest result" where
  "nd_add machine node = on_set (rset_add node) machine"

definition nd_addSet :: "nat \<Rightarrow> rset \<Rightarrow> net_dest \<Rightarrow> net_dest result" where
  "nd_addSet machine s = on_set (rset_addSet s) machine"

definition nd_addNetDest :: "net_dest \<Rightarrow> net_dest \<Rightarrow> net_dest result" where
  "nd_addNetDest netdest nd =
     rbind (for_each_slot (\<lambda>i s. rbind (lref i (m_sets netdest)) (\<lambda>t. rset_addSet t s)) (m_sets nd))
       (\<lambda>ss. Inr (nd\<lparr>m_sets := ss\<rparr>))"

definition nd_remove :: "nat \<Rightarrow> nat \<Rightarrow> net_dest \<Rightarrow> net_dest result" where
  "nd_remove machine node = on_set (rset_remove node) machine"

definition nd_removeSet :: "nat \<Rightarrow> rset \<Rightarrow> net_dest \<Rightarrow> net_dest result" where
  "nd_removeSet machine s = on_set (rset_removeSet s) machine"

definition nd_removeNetDest :: "net_dest \<Rightarrow> net_dest \<Rightarrow> net_dest result" where
  "nd_removeNetDest netdest nd =
     check (length (m_sets nd) = length (m_sets netdest)) Assert_failed (
     rbind (for_each_slot (\<lambda>i s. rbind (lref i (m_sets netdest)) (\<lambda>t. rset_removeSet t s)) (m_sets nd))
       (\<lambda>ss. Inr (nd\<lparr>m_sets := ss\<rparr>)))"

definition nd_isElement :: "nat \<Rightarrow> nat \<Rightarrow> net_dest \<Rightarrow> bool result" where
  "nd_isElement machine element nd = rbind (lref machine (m_sets nd)) (rset_isElement element)"

definition nd_broadcast :: "net_dest \<Rightarrow> net_dest result" where
  "nd_broadcast nd =
     rbind (for_each_slot (\<lambda>i s. Inr (rset_broadcast s)) (m_sets nd))
       (\<lambda>ss. Inr (nd\<lparr>m_sets := ss\<rparr>))"

definition nd_broadcast_machine :: "nat \<Rightarrow> net_dest \<Rightarrow> net_dest result" where
  "nd_broadcast_machine machine = on_set (\<lambda>s. Inr (rset_broadcast s)) machine"

definition nd_clear :: "net_dest \<Rightarrow> net_dest result" where
  "nd_clear nd =
     rbind (for_each_slot (\<lambda>i s. Inr (rset_clear s)) (m_sets nd)) (\<lambda>ss. Inr (nd\<lparr>m_sets := ss\<rparr>))"

definition nd_count :: "net_dest \<Rightarrow> nat result" where
  "nd_count nd =
     rfold (\<lambda>i counter. rbind (lref i (m_sets nd)) (\<lambda>s. Inr (counter + rset_count s)))
       [0..<length (m_sets nd)] 0"

text \<open>\<open>OR\<close> and \<open>AND\<close> fill a new \<open>NetDest result\<close>, whose number of sets is
  \<open>MachineType_NUM\<close>.\<close>

definition nd_combine ::
  "(rset \<Rightarrow> rset \<Rightarrow> rset result) \<Rightarrow> nat \<Rightarrow> nat \<Rightarrow> net_dest \<Rightarrow> net_dest \<Rightarrow> net_dest result" where
  "nd_combine f MachineType_NUM NUM_NODES nd other =
     check (length (m_sets nd) = length (m_sets other)) Assert_failed (
     rbind (nd_new MachineType_NUM NUM_NODES) (\<lambda>r.
     rbind (rfold (\<lambda>i ss. rbind (lref i (m_sets nd)) (\<lambda>s. rbind (lref i (m_sets other)) (\<lambda>t.
                 rbind (f s t) (\<lambda>u. lput i u ss))))
              [0..<length (m_sets nd)] (m_sets r))
       (\<lambda>ss. Inr \<lparr>m_sets = ss\<rparr>)))"

definition nd_OR :: "nat \<Rightarrow> nat \<Rightarrow> net_dest \<Rightarrow> net_dest \<Rightarrow> net_dest result" where
  "nd_OR = nd_combine rset_OR"

definition nd_AND :: "nat \<Rightarrow> nat \<Rightarrow> net_dest \<Rightarrow> net_dest \<Rightarrow> net_dest result" where
  "nd_AND = nd_combine rset_AND"

text \<open>The searches with an early return.\<close>

fun some_set :: "(rset \<Rightarrow> rset \<Rightarrow> bool result) \<Rightarrow> nat list \<Rightarrow> rset list \<Rightarrow> rset list \<Rightarrow> bool result" where
  "some_set f [] ss ts = Inr False"
| "some_set f (i # is) ss ts =
     rbind (lref i ss) (\<lambda>s. rbind (lref i ts) (\<lambda>t. rbind (f s t) (\<lambda>b.
       if b then Inr True else some_set f is ss ts)))"

definition nd_intersectionIsNotEmpty :: "net_dest \<Rightarrow> net_dest \<Rightarrow> bool result" where
  "nd_intersectionIsNotEmpty nd other =
     check (length (m_sets nd) = length (m_sets other)) Assert_failed (
     some_set rset_intersectionIsNotEmpty [0..<length (m_sets nd)] (m_sets nd) (m_sets other))"

definition nd_intersectionIsEmpty :: "net_dest \<Rightarrow> net_dest \<Rightarrow> bool result" where
  "nd_intersectionIsEmpty nd other =
     check (length (m_sets nd) = length (m_sets other)) Assert_failed (
     rbind (some_set (\<lambda>s t. rbind (rset_intersectionIsEmpty s t) (\<lambda>b. Inr (\<not> b)))
              [0..<length (m_sets nd)] (m_sets nd) (m_sets other))
       (\<lambda>found. Inr (\<not> found)))"

section \<open>The abstract value\<close>

definition nd_ok :: "nat \<Rightarrow> nat \<Rightarrow> net_dest \<Rightarrow> bool" where
  "nd_ok k n nd \<longleftrightarrow> length (m_sets nd) = k \<and> (\<forall>s \<in> set (m_sets nd). set_ok s \<and> rs_size s = n)"

definition dests :: "net_dest \<Rightarrow> (nat \<times> nat) set" where
  "dests nd = {(m, i). m < length (m_sets nd) \<and> i \<in> elems (m_sets nd ! m)}"

lemma nd_okD: "nd_ok k n nd \<Longrightarrow> m < k \<Longrightarrow> set_ok (m_sets nd ! m) \<and> rs_size (m_sets nd ! m) = n"
  by (simp add: nd_ok_def)

lemma nd_okI:
  "length ss = k \<Longrightarrow> (\<And>m. m < k \<Longrightarrow> set_ok (ss ! m) \<and> rs_size (ss ! m) = n) \<Longrightarrow>
     nd_ok k n (nd\<lparr>m_sets := ss\<rparr>)"
  by (auto simp: nd_ok_def in_set_conv_nth)

lemma nd_new_ok: "0 < n \<Longrightarrow> n < 32 \<Longrightarrow> \<exists>nd. nd_new k n = Inr nd \<and> nd_ok k n nd \<and> dests nd = {}"
  using setSize_ok [of n] by (auto simp: nd_new_def rset_new_def nd_ok_def dests_def)

lemma on_set_ok:
  assumes "nd_ok k n nd" "m < k"
    and "\<exists>s'. f (m_sets nd ! m) = Inr s' \<and> set_ok s' \<and> rs_size s' = n \<and> elems s' = E"
  shows "\<exists>nd'. on_set f m nd = Inr nd' \<and> nd_ok k n nd'
    \<and> dests nd' = dests nd - {m} \<times> UNIV \<union> {m} \<times> E"
proof -
  obtain s' where s': "f (m_sets nd ! m) = Inr s'" "set_ok s'" "rs_size s' = n" "elems s' = E"
    using assms(3) by blast
  have l: "length (m_sets nd) = k" using assms(1) by (simp add: nd_ok_def)
  have "nd_ok k n (nd\<lparr>m_sets := (m_sets nd)[m := s']\<rparr>)"
    using s' l nd_okD [OF assms(1)] assms(2) by (intro nd_okI) (auto simp: nth_list_update)
  moreover have "dests (nd\<lparr>m_sets := (m_sets nd)[m := s']\<rparr>) = dests nd - {m} \<times> UNIV \<union> {m} \<times> E"
    using s' l assms(2) by (auto simp: dests_def nth_list_update split: if_splits)
  ultimately show ?thesis using s' l assms(2) by (simp add: on_set_def)
qed

lemma nd_add_ok:
  assumes "nd_ok k n nd" "m < k" "i < n"
  shows "\<exists>nd'. nd_add m i nd = Inr nd' \<and> nd_ok k n nd' \<and> dests nd' = insert (m, i) (dests nd)"
proof -
  have s: "set_ok (m_sets nd ! m)" "rs_size (m_sets nd ! m) = n"
    using nd_okD [OF assms(1,2)] by auto
  have "\<exists>s'. rset_add i (m_sets nd ! m) = Inr s' \<and> set_ok s' \<and> rs_size s' = n
      \<and> elems s' = insert i (elems (m_sets nd ! m))"
    using rset_add_ok [OF s(1), of i] s(2) assms(3) by simp
  from on_set_ok [where f = "rset_add i" and E = "insert i (elems (m_sets nd ! m))", OF assms(1,2) this]
  show ?thesis
    using assms(1,2) by (fastforce simp: nd_add_def dests_def nd_ok_def)
qed

lemma nd_remove_ok:
  assumes "nd_ok k n nd" "m < k" "i < n"
  shows "\<exists>nd'. nd_remove m i nd = Inr nd' \<and> nd_ok k n nd' \<and> dests nd' = dests nd - {(m, i)}"
proof -
  have s: "set_ok (m_sets nd ! m)" "rs_size (m_sets nd ! m) = n"
    using nd_okD [OF assms(1,2)] by auto
  have "\<exists>s'. rset_remove i (m_sets nd ! m) = Inr s' \<and> set_ok s' \<and> rs_size s' = n
      \<and> elems s' = elems (m_sets nd ! m) - {i}"
    using rset_remove_ok [OF s(1), of i] s(2) assms(3) by simp
  from on_set_ok [where f = "rset_remove i" and E = "elems (m_sets nd ! m) - {i}", OF assms(1,2) this]
  show ?thesis
    using assms(1,2) by (fastforce simp: nd_remove_def dests_def nd_ok_def)
qed

text \<open>The loops over all the sets.\<close>

lemma slots_ok:
  assumes "nd_ok k n nd"
    and "\<And>m. m < k \<Longrightarrow> \<exists>s'. f m (m_sets nd ! m) = Inr s' \<and> set_ok s' \<and> rs_size s' = n \<and> elems s' = E m"
  shows "\<exists>ss. for_each_slot f (m_sets nd) = Inr ss \<and> nd_ok k n (nd\<lparr>m_sets := ss\<rparr>)
    \<and> dests (nd\<lparr>m_sets := ss\<rparr>) = {(m, i). m < k \<and> i \<in> E m}"
proof -
  have l: "length (m_sets nd) = k" using assms(1) by (simp add: nd_ok_def)
  show ?thesis
  proof (rule for_each_slot_rel [of "m_sets nd" f "\<lambda>m s'. set_ok s' \<and> rs_size s' = n \<and> elems s' = E m"])
    show "\<exists>y. f i (m_sets nd ! i) = Inr y \<and> set_ok y \<and> rs_size y = n \<and> elems y = E i"
      if "i < length (m_sets nd)" for i using assms(2) that l by simp
  next
    fix ys assume ys: "for_each_slot f (m_sets nd) = Inr ys" "length ys = length (m_sets nd)"
      "\<And>i. i < length (m_sets nd) \<Longrightarrow> set_ok (ys ! i) \<and> rs_size (ys ! i) = n \<and> elems (ys ! i) = E i"
    then have "nd_ok k n (nd\<lparr>m_sets := ys\<rparr>)" using l by (intro nd_okI) auto
    moreover have "dests (nd\<lparr>m_sets := ys\<rparr>) = {(m, i). m < k \<and> i \<in> E m}"
      using ys l by (auto simp: dests_def)
    ultimately show ?thesis using ys(1) by blast
  qed
qed

lemma nd_addNetDest_ok:
  assumes "nd_ok k n nd" "nd_ok k n other"
  shows "\<exists>nd'. nd_addNetDest other nd = Inr nd' \<and> nd_ok k n nd' \<and> dests nd' = dests nd \<union> dests other"
proof -
  have l: "length (m_sets nd) = k" "length (m_sets other) = k" using assms by (auto simp: nd_ok_def)
  have "\<exists>s'. rbind (lref m (m_sets other)) (\<lambda>t. rset_addSet t (m_sets nd ! m)) = Inr s'
      \<and> set_ok s' \<and> rs_size s' = n \<and> elems s' = elems (m_sets nd ! m) \<union> elems (m_sets other ! m)"
    if "m < k" for m
    using rset_addSet_ok [of "m_sets nd ! m" "m_sets other ! m"] nd_okD [OF assms(1) that]
      nd_okD [OF assms(2) that] that l by simp
  from slots_ok [where f = "\<lambda>m s. rbind (lref m (m_sets other)) (\<lambda>t. rset_addSet t s)"
      and E = "\<lambda>m. elems (m_sets nd ! m) \<union> elems (m_sets other ! m)", OF assms(1) this]
  show ?thesis
    using l by (fastforce simp: nd_addNetDest_def dests_def)
qed

lemma nd_removeNetDest_ok:
  assumes "nd_ok k n nd" "nd_ok k n other"
  shows "\<exists>nd'. nd_removeNetDest other nd = Inr nd' \<and> nd_ok k n nd' \<and> dests nd' = dests nd - dests other"
proof -
  have l: "length (m_sets nd) = k" "length (m_sets other) = k" using assms by (auto simp: nd_ok_def)
  have "\<exists>s'. rbind (lref m (m_sets other)) (\<lambda>t. rset_removeSet t (m_sets nd ! m)) = Inr s'
      \<and> set_ok s' \<and> rs_size s' = n \<and> elems s' = elems (m_sets nd ! m) - elems (m_sets other ! m)"
    if "m < k" for m
    using rset_removeSet_ok [of "m_sets nd ! m" "m_sets other ! m"] nd_okD [OF assms(1) that]
      nd_okD [OF assms(2) that] that l by simp
  from slots_ok [where f = "\<lambda>m s. rbind (lref m (m_sets other)) (\<lambda>t. rset_removeSet t s)"
      and E = "\<lambda>m. elems (m_sets nd ! m) - elems (m_sets other ! m)", OF assms(1) this]
  show ?thesis
    using l by (fastforce simp: nd_removeNetDest_def dests_def)
qed

lemma nd_broadcast_ok:
  assumes "nd_ok k n nd"
  shows "\<exists>nd'. nd_broadcast nd = Inr nd' \<and> nd_ok k n nd' \<and> dests nd' = {..<k} \<times> {..<n}"
proof -
  have "\<exists>s'. Inr (rset_broadcast (m_sets nd ! m)) = (Inr s' :: rset result)
      \<and> set_ok s' \<and> rs_size s' = n \<and> elems s' = {..<n}" if "m < k" for m
    using rset_broadcast_ok nd_okD [OF assms that] by auto
  from slots_ok [where f = "\<lambda>m s. Inr (rset_broadcast s)" and E = "\<lambda>m. {..<n}", OF assms this]
  show ?thesis by (fastforce simp: nd_broadcast_def)
qed

lemma nd_clear_ok:
  assumes "nd_ok k n nd"
  shows "\<exists>nd'. nd_clear nd = Inr nd' \<and> nd_ok k n nd' \<and> dests nd' = {}"
proof -
  have "\<exists>s'. Inr (rset_clear (m_sets nd ! m)) = (Inr s' :: rset result)
      \<and> set_ok s' \<and> rs_size s' = n \<and> elems s' = {}" if "m < k" for m
    using rset_clear_ok nd_okD [OF assms that] by auto
  from slots_ok [where f = "\<lambda>m s. Inr (rset_clear s)" and E = "\<lambda>m. {}", OF assms this]
  show ?thesis by (fastforce simp: nd_clear_def)
qed

lemma some_set_ok:
  assumes "\<And>i. i \<in> set is \<Longrightarrow> i < length ss \<and> i < length ts \<and> f (ss ! i) (ts ! i) = Inr (P i)"
  shows "some_set f is ss ts = Inr (\<exists>i \<in> set is. P i)"
  using assms by (induction "is") auto

lemma nd_intersection_ok:
  assumes "nd_ok k n nd" "nd_ok k n other"
  shows "nd_intersectionIsNotEmpty nd other = Inr (dests nd \<inter> dests other \<noteq> {})"
    and "nd_intersectionIsEmpty nd other = Inr (dests nd \<inter> dests other = {})"
proof -
  have l: "length (m_sets nd) = k" "length (m_sets other) = k" using assms by (auto simp: nd_ok_def)
  have s: "rs_size (m_sets nd ! i) = rs_size (m_sets other ! i)" if "i < k" for i
    using nd_okD [OF assms(1) that] nd_okD [OF assms(2) that] by simp
  have e: "(\<exists>i \<in> set [0..<k]. elems (m_sets nd ! i) \<inter> elems (m_sets other ! i) \<noteq> {})
      = (dests nd \<inter> dests other \<noteq> {})"
    using l by (auto simp: dests_def set_eq_iff)
  have "some_set rset_intersectionIsNotEmpty [0..<k] (m_sets nd) (m_sets other)
      = Inr (\<exists>i \<in> set [0..<k]. elems (m_sets nd ! i) \<inter> elems (m_sets other ! i) \<noteq> {})"
    by (rule some_set_ok) (auto simp: l s rset_intersection_ok)
  then show "nd_intersectionIsNotEmpty nd other = Inr (dests nd \<inter> dests other \<noteq> {})"
    unfolding e using l by (simp add: nd_intersectionIsNotEmpty_def)
  have "some_set (\<lambda>s t. rbind (rset_intersectionIsEmpty s t) (\<lambda>b. Inr (\<not> b))) [0..<k]
      (m_sets nd) (m_sets other)
      = Inr (\<exists>i \<in> set [0..<k]. elems (m_sets nd ! i) \<inter> elems (m_sets other ! i) \<noteq> {})"
    by (rule some_set_ok) (auto simp: l s rset_intersection_ok)
  then show "nd_intersectionIsEmpty nd other = Inr (dests nd \<inter> dests other = {})"
    unfolding e using l by (simp add: nd_intersectionIsEmpty_def)
qed

end
