(* ===== verification/Topology.thy ===== *)
theory Topology
  imports Loops ShortestPath NetDest
begin

text \<open>
  The topology of the network, ruby/network/simple/Topology.C: the switches and links of the three
  kinds of network, and the routing tables. A \<open>SwitchID\<close> is a natural number; the first \<open>m_nodes\<close>
  stand for the links into the network, the second \<open>m_nodes\<close> for the links out of it. The number of
  machine types and the parameters of the configuration are the record \<open>net_params\<close>. The calls that
  build the network are made by \<open>makeLink\<close>, an argument of \<open>createLinks\<close> here and defined in the theory
  SimpleNetwork. The lemmas show that the routing tables lead every message to its destination.
\<close>

section \<open>State\<close>

datatype topology_type = CROSSBAR | HIERARCHICAL_SWITCH | TORUS_2D

record net_params =
  MachineType_NUM :: nat
  NUM_NODES :: nat
  NETWORK_LINK_LATENCY :: int
  NETWORK_TOPOLOGY :: topology_type
  FAN_OUT_DEGREE :: nat
  NUMBER_OF_VIRTUAL_NETWORKS :: nat
  ADAPTIVE_ROUTING :: bool
  LINK_BANDWIDTH :: int
  RANDOMIZATION :: bool

record topology =
  m_nodes :: nat
  m_number_of_switches :: nat
  m_links_src_vector :: "nat list"
  m_links_dest_vector :: "nat list"
  m_links_latency_vector :: "int list"
  m_bw_multiplier_vector :: "int list"

definition INFINITE_LATENCY :: int where
  "INFINITE_LATENCY = 10000"

definition DEFAULT_BW_MULTIPLIER :: int where
  "DEFAULT_BW_MULTIPLIER = 1"

section \<open>Switches and links\<close>

definition newSwitchID :: "topology \<Rightarrow> nat \<times> topology" where
  "newSwitchID t =
     (let t' = t\<lparr>m_number_of_switches := m_number_of_switches t + 1\<rparr>
      in (m_number_of_switches t' - 1 + m_nodes t + m_nodes t, t'))"

definition addLink :: "nat \<Rightarrow> nat \<Rightarrow> int \<Rightarrow> int \<Rightarrow> topology \<Rightarrow> topology result" where
  "addLink src dest link_latency bw_multiplier t =
     check (src \<le> m_number_of_switches t + m_nodes t + m_nodes t) Assert_failed (
     check (dest \<le> m_number_of_switches t + m_nodes t + m_nodes t) Assert_failed (
     Inr (t\<lparr>m_links_src_vector := m_links_src_vector t @ [src],
            m_links_dest_vector := m_links_dest_vector t @ [dest],
            m_links_latency_vector := m_links_latency_vector t @ [link_latency],
            m_bw_multiplier_vector := m_bw_multiplier_vector t @ [bw_multiplier]\<rparr>)))"

definition add_link :: "net_params \<Rightarrow> nat \<Rightarrow> nat \<Rightarrow> topology \<Rightarrow> topology result" where
  "add_link c src dest = addLink src dest (NETWORK_LINK_LATENCY c) DEFAULT_BW_MULTIPLIER"

section \<open>The torus\<close>

text \<open>The side is \<open>(int)sqrt((double)m_nodes)\<close>, which is exact for the numbers of nodes in use.\<close>

fun int_sqrt :: "nat \<Rightarrow> nat" where
  "int_sqrt 0 = 0"
| "int_sqrt (Suc n) = (let r = int_sqrt n in if (r + 1) * (r + 1) \<le> Suc n then r + 1 else r)"

definition leftNeighbor :: "nat \<Rightarrow> nat \<Rightarrow> nat" where
  "leftNeighbor lengthOfSide s = (if s mod lengthOfSide = 0 then s - 1 + lengthOfSide else s - 1)"

definition rightNeighbor :: "nat \<Rightarrow> nat \<Rightarrow> nat" where
  "rightNeighbor lengthOfSide s =
     (if (s + 1) mod lengthOfSide = 0 then s + 1 - lengthOfSide else s + 1)"

definition topNeighbor :: "nat \<Rightarrow> nat \<Rightarrow> nat \<Rightarrow> nat" where
  "topNeighbor nodes lengthOfSide s =
     (if s - lengthOfSide < 2 * nodes then s - lengthOfSide + lengthOfSide * lengthOfSide
      else s - lengthOfSide)"

definition bottomNeighbor :: "nat \<Rightarrow> nat \<Rightarrow> nat \<Rightarrow> nat" where
  "bottomNeighbor nodes lengthOfSide s =
     (if s + lengthOfSide \<ge> 3 * nodes then s + lengthOfSide - lengthOfSide * lengthOfSide
      else s + lengthOfSide)"

definition newSwitchIDs :: "nat \<Rightarrow> topology \<Rightarrow> nat list \<times> topology" where
  "newSwitchIDs n t =
     fold (\<lambda>_ (ids, t). case newSwitchID t of (new_switch, t') \<Rightarrow> (ids @ [new_switch], t')) [0..<n] ([], t)"

definition torus_links ::
  "net_params \<Rightarrow> nat \<Rightarrow> nat list \<Rightarrow> nat list \<Rightarrow> nat list \<Rightarrow> nat \<Rightarrow> topology \<Rightarrow> topology result" where
  "torus_links c lengthOfSide torusSwitches ins outs i t0 =
     rbind (lref i torusSwitches) (\<lambda>new_switch.
     rbind (lref i ins) (\<lambda>port_into_network.
     rbind (lref i outs) (\<lambda>port_from_network.
     rbind (add_link c port_into_network new_switch t0) (\<lambda>t1.
     rbind (addLink new_switch port_from_network 1 10 t1) (\<lambda>t2.
     rbind (add_link c new_switch (leftNeighbor lengthOfSide new_switch) t2) (\<lambda>t3.
     rbind (add_link c new_switch (rightNeighbor lengthOfSide new_switch) t3) (\<lambda>t4.
     rbind (add_link c new_switch (topNeighbor (m_nodes t0) lengthOfSide new_switch) t4) (\<lambda>t5.
     add_link c new_switch (bottomNeighbor (m_nodes t0) lengthOfSide new_switch) t5))))))))"

definition make2DTorus :: "net_params \<Rightarrow> nat list \<Rightarrow> nat list \<Rightarrow> topology \<Rightarrow> topology result" where
  "make2DTorus c ins outs t0 =
     (let lengthOfSide = int_sqrt (m_nodes t0)
      in case newSwitchIDs (m_nodes t0) t0 of (torusSwitches, t1) \<Rightarrow>
         rfold (torus_links c lengthOfSide torusSwitches ins outs) [0..<m_nodes t0] t1)"

section \<open>The tree of switches\<close>

text \<open>One end switch for each group of machines: \<open>link\<close> adds the link between it and a port.\<close>

definition end_switch ::
  "net_params \<Rightarrow> (nat \<Rightarrow> nat \<Rightarrow> topology \<Rightarrow> topology result) \<Rightarrow> nat list
     \<Rightarrow> nat list \<times> nat \<times> topology \<Rightarrow> (nat list \<times> nat \<times> topology) result" where
  "end_switch c link ports st =
     (case st of (last_level, counter, t) \<Rightarrow>
        case newSwitchID t of (new_switch, t1) \<Rightarrow>
          rbind (rfold (\<lambda>machine (counter, t).
                   rbind (lref counter ports) (\<lambda>port.
                   rbind (link port new_switch t) (\<lambda>t'. Inr (counter + 1, t'))))
                 [0..<MachineType_NUM c] (counter, t1)) (\<lambda>(counter', t2).
          Inr (last_level @ [new_switch], counter', t2)))"

definition end_switches ::
  "net_params \<Rightarrow> (nat \<Rightarrow> nat \<Rightarrow> topology \<Rightarrow> topology result) \<Rightarrow> nat list
     \<Rightarrow> topology \<Rightarrow> (nat list \<times> topology) result" where
  "end_switches c link ports t =
     rbind (rfold (\<lambda>i. end_switch c link ports) [0..<length ports div MachineType_NUM c] ([], 0, t))
       (\<lambda>(last_level, counter, t'). Inr (last_level, t'))"

text \<open>One level of the tree: a new switch (or the root) for every \<open>fan_out_degree\<close> switches of the
  last level. A modulus of 0 ends the program.\<close>

definition level_switch ::
  "nat \<Rightarrow> (topology \<Rightarrow> nat \<times> topology) \<Rightarrow> (nat \<Rightarrow> nat \<Rightarrow> topology \<Rightarrow> topology result) \<Rightarrow> nat list
     \<Rightarrow> nat \<Rightarrow> nat list \<times> topology \<Rightarrow> (nat list \<times> topology) result" where
  "level_switch fan_out_degree new link last_level i st =
     (case st of (next_level, t) \<Rightarrow>
        check (fan_out_degree \<noteq> 0) Undefined (
        case (if i mod fan_out_degree = 0 then (case new t of (s, t') \<Rightarrow> (next_level @ [s], t'))
              else (next_level, t)) of (next_level', t1) \<Rightarrow>
          rbind (lref i last_level) (\<lambda>below.
          rbind (lref (length next_level' - 1) next_level') (\<lambda>above.
          rbind (link below above t1) (\<lambda>t2. Inr (next_level', t2))))))"

definition tree_level ::
  "nat \<Rightarrow> (topology \<Rightarrow> nat \<times> topology) \<Rightarrow> (nat \<Rightarrow> nat \<Rightarrow> topology \<Rightarrow> topology result)
     \<Rightarrow> nat list \<times> topology \<Rightarrow> (nat list \<times> topology) result" where
  "tree_level fan_out_degree new link st =
     (case st of (last_level, t) \<Rightarrow>
        rfold (level_switch fan_out_degree new link last_level) [0..<length last_level] ([], t))"

definition makeHierarchicalSwitch ::
  "net_params \<Rightarrow> nat list \<Rightarrow> nat list \<Rightarrow> nat \<Rightarrow> topology \<Rightarrow> topology result" where
  "makeHierarchicalSwitch c ins outs fan_out_degree t0 =
     rbind (end_switches c (add_link c) ins t0) (\<lambda>up0.
     rbind (rwhile (\<lambda>(last_level, t). length last_level > 1)
              (tree_level fan_out_degree newSwitchID (add_link c)) up0) (\<lambda>(last_level, t1).
     rbind (lref 0 last_level) (\<lambda>root_switch.
     rbind (end_switches c (\<lambda>port new_switch. addLink new_switch port 1 10) outs t1) (\<lambda>down0.
     rbind (rwhile (\<lambda>(last_level, t). length last_level \<noteq> 1)
              (\<lambda>(last_level, t). tree_level fan_out_degree
                 (\<lambda>t. if length last_level > fan_out_degree then newSwitchID t else (root_switch, t))
                 (\<lambda>below above. add_link c above below) (last_level, t)) down0) (\<lambda>(last_level, t2).
     Inr t2)))))"

section \<open>The constructor\<close>

definition top_init :: "net_params \<Rightarrow> topology \<Rightarrow> topology result" where
  "top_init c t =
     check (m_nodes t \<ge> MachineType_NUM c) Assert_failed (
     if m_nodes t = MachineType_NUM c then
       (case newSwitchID t of (sid, t1) \<Rightarrow>
          rfold (\<lambda>machine t.
              rbind (addLink machine sid (NETWORK_LINK_LATENCY c) DEFAULT_BW_MULTIPLIER t) (\<lambda>t'.
              addLink sid (m_nodes t + machine) (NETWORK_LINK_LATENCY c) DEFAULT_BW_MULTIPLIER t'))
            [0..<MachineType_NUM c] t1)
     else
       (let ins = [0..<m_nodes t]; outs = map (\<lambda>node. node + m_nodes t) [0..<m_nodes t]
        in case NETWORK_TOPOLOGY c of
             TORUS_2D \<Rightarrow> make2DTorus c ins outs t
           | HIERARCHICAL_SWITCH \<Rightarrow> makeHierarchicalSwitch c ins outs (FAN_OUT_DEGREE c) t
           | CROSSBAR \<Rightarrow> makeHierarchicalSwitch c ins outs 1024 t))"

definition Topology :: "net_params \<Rightarrow> nat \<Rightarrow> topology result" where
  "Topology c number_of_nodes =
     top_init c \<lparr>m_nodes = number_of_nodes, m_number_of_switches = 0, m_links_src_vector = [],
       m_links_dest_vector = [], m_links_latency_vector = [], m_bw_multiplier_vector = []\<rparr>"

section \<open>Creating the links\<close>

definition max_switch_id :: "topology \<Rightarrow> nat" where
  "max_switch_id t =
     fold (\<lambda>i m. max (max m (m_links_src_vector t ! i)) (m_links_dest_vector t ! i))
       [0..<length (m_links_src_vector t)] 0"

definition topology_weights :: "topology \<Rightarrow> matrix" where
  "topology_weights t =
     (let num_switches = max_switch_id t + 1;
          w0 = replicate num_switches (replicate num_switches INFINITE_LATENCY);
          w1 = fold (\<lambda>i. set_mat i i 0) [0..<num_switches] w0
      in fold (\<lambda>i. set_mat (m_links_src_vector t ! i) (m_links_dest_vector t ! i) (m_links_latency_vector t ! i))
           [0..<length (m_links_src_vector t)] w1)"

definition topology_bw_multis :: "topology \<Rightarrow> matrix" where
  "topology_bw_multis t =
     (let num_switches = max_switch_id t + 1;
          w0 = replicate num_switches (replicate num_switches (-1))
      in fold (\<lambda>i. set_mat (m_links_src_vector t ! i) (m_links_dest_vector t ! i) (m_bw_multiplier_vector t ! i))
           [0..<length (m_links_src_vector t)] w0)"

definition shortest_path_to_node ::
  "net_params \<Rightarrow> nat \<Rightarrow> nat \<Rightarrow> matrix \<Rightarrow> matrix \<Rightarrow> nat \<Rightarrow> net_dest result" where
  "shortest_path_to_node c src next weights dist nodes =
     rbind (nd_new (MachineType_NUM c) (NUM_NODES c)) (\<lambda>r.
     rfold (\<lambda>i r.
         if link_is_shortest_path_to_node src next (i + nodes) weights dist
         then nd_add (i mod MachineType_NUM c) (i div MachineType_NUM c) r
         else Inr r) [0..<nodes] r)"

definition create_link ::
  "net_params \<Rightarrow> nat \<Rightarrow> matrix \<Rightarrow> matrix \<Rightarrow> matrix \<Rightarrow>
     (nat \<Rightarrow> nat \<Rightarrow> net_dest \<Rightarrow> int \<Rightarrow> int \<Rightarrow> 'n \<Rightarrow> 'n result) \<Rightarrow> nat \<times> nat \<Rightarrow> 'n \<Rightarrow> 'n result" where
  "create_link c nodes weights bw_multis dist makeLink ij network =
     (case ij of (i, j) \<Rightarrow>
        let weight = mat weights i j
        in if weight > 0 \<and> weight \<noteq> INFINITE_LATENCY then
             (let bw_multiplier = mat bw_multis i j
              in check (bw_multiplier > 0) Assert_failed (
                 rbind (shortest_path_to_node c i j weights dist nodes) (\<lambda>destination_set.
                 makeLink i j destination_set weight bw_multiplier network)))
           else Inr network)"

definition createLinks ::
  "net_params \<Rightarrow> topology \<Rightarrow> (nat \<Rightarrow> nat \<Rightarrow> net_dest \<Rightarrow> int \<Rightarrow> int \<Rightarrow> 'n \<Rightarrow> 'n result)
     \<Rightarrow> 'n \<Rightarrow> 'n result" where
  "createLinks c t makeLink network =
     (let weights = topology_weights t; bw_multis = topology_bw_multis t; n = max_switch_id t + 1
      in rbind (shortest_path weights) (\<lambda>dist.
         rfold (create_link c (m_nodes t) weights bw_multis dist makeLink)
           (List.product [0..<n] [0..<n]) network))"

section \<open>The weights\<close>

text \<open>A topology whose links have a latency below \<open>INFINITE_LATENCY\<close> and no link from a switch to
  itself.\<close>

definition links_ok :: "topology \<Rightarrow> bool" where
  "links_ok t \<longleftrightarrow>
     length (m_links_dest_vector t) = length (m_links_src_vector t) \<and>
     length (m_links_latency_vector t) = length (m_links_src_vector t) \<and>
     length (m_bw_multiplier_vector t) = length (m_links_src_vector t) \<and>
     (\<forall>i < length (m_links_src_vector t). m_links_src_vector t ! i \<noteq> m_links_dest_vector t ! i
        \<and> 0 < m_links_latency_vector t ! i \<and> m_links_latency_vector t ! i < INFINITE_LATENCY
        \<and> 0 < m_bw_multiplier_vector t ! i)"

lemma fold_max_le:
  "m \<le> fold (\<lambda>i m. max (max m (f i)) (g i)) xs m
    \<and> (\<forall>i \<in> set xs. f i \<le> fold (\<lambda>i m. max (max m (f i)) (g i)) xs m \<and> g i \<le> fold (\<lambda>i m. max (max m (f i)) (g i)) xs m)"
  for m :: nat
proof (induction xs arbitrary: m)
  case (Cons x xs)
  from Cons [of "max (max m (f x)) (g x)"] show ?case by auto
qed simp

lemma max_switch_id_ge:
  assumes "i < length (m_links_src_vector t)"
  shows "m_links_src_vector t ! i \<le> max_switch_id t \<and> m_links_dest_vector t ! i \<le> max_switch_id t"
  using fold_max_le [of 0 "\<lambda>i. m_links_src_vector t ! i" "\<lambda>i. m_links_dest_vector t ! i"
      "[0..<length (m_links_src_vector t)]"] assms
  by (auto simp: max_switch_id_def)

lemma square_replicate: "square n (replicate n (replicate n x))"
  by (auto simp: square_def)

lemma mat_replicate: "i < n \<Longrightarrow> j < n \<Longrightarrow> mat (replicate n (replicate n x)) i j = x"
  by (simp add: mat_def)

text \<open>Filling a matrix at a list of places.\<close>

lemma fold_set_mat_square: "square n M \<Longrightarrow> square n (fold (\<lambda>k. set_mat (p k) (q k) (x k)) ks M)"
  by (induction ks arbitrary: M) (auto intro: square_set_mat)

lemma fold_set_mat_cases:
  assumes "square n M" "\<forall>k \<in> set ks. p k < n \<and> q k < n"
  shows "(\<exists>k \<in> set ks. p k = i \<and> q k = j \<and> mat (fold (\<lambda>k. set_mat (p k) (q k) (x k)) ks M) i j = x k)
    \<or> (\<forall>k \<in> set ks. p k \<noteq> i \<or> q k \<noteq> j) \<and> mat (fold (\<lambda>k. set_mat (p k) (q k) (x k)) ks M) i j = mat M i j"
  using assms
proof (induction ks arbitrary: M)
  case (Cons k ks)
  have sq: "square n (set_mat (p k) (q k) (x k) M)" by (rule square_set_mat [OF Cons.prems(1)])
  from Cons.IH [OF sq] Cons.prems(2)
    mat_set_mat [OF Cons.prems(1), of "p k" "q k" "x k" i j] show ?case by auto
qed simp

lemma fold_diagonal:
  assumes "square n M"
  shows "i < n \<Longrightarrow> j < n \<Longrightarrow> mat (fold (\<lambda>i. set_mat i i 0) [0..<n] M) i j = (if i = j then 0 else mat M i j)"
  using fold_set_mat_cases [OF assms, of "[0..<n]" "\<lambda>i. i" "\<lambda>i. i" i j "\<lambda>_. 0"] by auto

lemma topology_weights_square: "square (max_switch_id t + 1) (topology_weights t)"
  unfolding topology_weights_def Let_def
  by (intro fold_set_mat_square square_replicate)

lemma topology_weights_cases:
  assumes "links_ok t" "i \<le> max_switch_id t" "j \<le> max_switch_id t"
  obtains (link) k where "k < length (m_links_src_vector t)" "m_links_src_vector t ! k = i"
      "m_links_dest_vector t ! k = j" "mat (topology_weights t) i j = m_links_latency_vector t ! k"
  | (none) "\<forall>k < length (m_links_src_vector t). m_links_src_vector t ! k \<noteq> i \<or> m_links_dest_vector t ! k \<noteq> j"
      "mat (topology_weights t) i j = (if i = j then 0 else INFINITE_LATENCY)"
proof -
  let ?n = "max_switch_id t + 1"
  let ?w = "fold (\<lambda>i. set_mat i i 0) [0..<?n] (replicate ?n (replicate ?n INFINITE_LATENCY))"
  let ?ks = "[0..<length (m_links_src_vector t)]"
  have sq: "square ?n ?w" by (intro fold_set_mat_square square_replicate)
  have lt: "\<forall>k \<in> set ?ks. m_links_src_vector t ! k < ?n \<and> m_links_dest_vector t ! k < ?n"
    using max_switch_id_ge by (simp add: le_imp_less_Suc)
  have w: "mat ?w i j = (if i = j then 0 else INFINITE_LATENCY)"
    using fold_diagonal [OF square_replicate, of i ?n j INFINITE_LATENCY] assms(2,3)
    by (simp add: mat_replicate del: upt_Suc replicate_Suc)
  from fold_set_mat_cases [OF sq lt, of i j "\<lambda>k. m_links_latency_vector t ! k"] show ?thesis
  proof
    assume "\<exists>k \<in> set ?ks. m_links_src_vector t ! k = i \<and> m_links_dest_vector t ! k = j \<and>
      mat (fold (\<lambda>k. set_mat (m_links_src_vector t ! k) (m_links_dest_vector t ! k) (m_links_latency_vector t ! k)) ?ks ?w) i j
        = m_links_latency_vector t ! k"
    then show ?thesis by (auto simp: topology_weights_def Let_def simp del: upt_Suc replicate_Suc intro: link)
  next
    assume "(\<forall>k \<in> set ?ks. m_links_src_vector t ! k \<noteq> i \<or> m_links_dest_vector t ! k \<noteq> j) \<and>
      mat (fold (\<lambda>k. set_mat (m_links_src_vector t ! k) (m_links_dest_vector t ! k) (m_links_latency_vector t ! k)) ?ks ?w) i j
        = mat ?w i j"
    then show ?thesis using w by (auto simp: topology_weights_def Let_def simp del: upt_Suc replicate_Suc intro!: none)
  qed
qed

lemma topology_weights_ok:
  assumes "links_ok t"
  shows "weights_ok (max_switch_id t + 1) (topology_weights t)"
proof -
  have "0 \<le> mat (topology_weights t) i j \<and> mat (topology_weights t) i j < 2 ^ 30 \<and> (i = j \<longrightarrow> mat (topology_weights t) i j = 0)"
    if "i \<le> max_switch_id t" "j \<le> max_switch_id t" for i j
    using assms that
  proof (cases rule: topology_weights_cases)
    case (link k)
    then have "0 < m_links_latency_vector t ! k" "m_links_latency_vector t ! k < INFINITE_LATENCY" "i \<noteq> j"
      using assms by (auto simp: links_ok_def)
    then show ?thesis using link(4) by (simp add: INFINITE_LATENCY_def)
  qed (auto simp: INFINITE_LATENCY_def)
  then show ?thesis using topology_weights_square [of t]
    by (auto simp: weights_ok_def less_Suc_eq_le)
qed

section \<open>The routing table entries\<close>

text \<open>The switch that stands for the link out of the network to a node of a machine.\<close>

definition out_switch :: "net_params \<Rightarrow> nat \<Rightarrow> nat \<times> nat \<Rightarrow> nat" where
  "out_switch c nodes d = fst d + snd d * MachineType_NUM c + nodes"

definition net_sizes_ok :: "net_params \<Rightarrow> nat \<Rightarrow> bool" where
  "net_sizes_ok c nodes \<longleftrightarrow> 0 < MachineType_NUM c \<and> 0 < NUM_NODES c \<and> NUM_NODES c < 32
     \<and> nodes = NUM_NODES c * MachineType_NUM c"

definition all_dests :: "net_params \<Rightarrow> (nat \<times> nat) set" where
  "all_dests c = {..<MachineType_NUM c} \<times> {..<NUM_NODES c}"

lemma div_mod_node:
  assumes "net_sizes_ok c nodes"
  shows "i < nodes \<and> (i mod MachineType_NUM c, i div MachineType_NUM c) = d
    \<longleftrightarrow> d \<in> all_dests c \<and> i + nodes = out_switch c nodes d"
proof -
  have "i div MachineType_NUM c < NUM_NODES c" if "i < nodes"
    using assms that by (simp add: net_sizes_ok_def less_mult_imp_div_less)
  moreover have "m + v * MachineType_NUM c < nodes" if "m < MachineType_NUM c" "v < NUM_NODES c" for m v
  proof -
    have "m + v * MachineType_NUM c < (v + 1) * MachineType_NUM c" using that by simp
    also have "\<dots> \<le> NUM_NODES c * MachineType_NUM c" using that by (intro mult_le_mono1) simp
    finally show ?thesis using assms by (simp add: net_sizes_ok_def)
  qed
  ultimately show ?thesis using assms
    by (cases d) (auto simp: net_sizes_ok_def all_dests_def out_switch_def)
qed

lemma shortest_path_to_node_ok:
  assumes "net_sizes_ok c nodes"
  shows "\<exists>r. shortest_path_to_node c s x w d nodes = Inr r \<and> nd_ok (MachineType_NUM c) (NUM_NODES c) r
    \<and> dests r = {f \<in> all_dests c. link_is_shortest_path_to_node s x (out_switch c nodes f) w d}"
proof -
  let ?p = "\<lambda>i. (i mod MachineType_NUM c, i div MachineType_NUM c)"
  let ?l = "\<lambda>i. link_is_shortest_path_to_node s x (i + nodes) w d"
  obtain r0 where r0: "nd_new (MachineType_NUM c) (NUM_NODES c) = Inr r0"
    "nd_ok (MachineType_NUM c) (NUM_NODES c) r0" "dests r0 = {}"
    using nd_new_ok [of "NUM_NODES c" "MachineType_NUM c"] assms by (auto simp: net_sizes_ok_def)
  have "\<exists>r. rfold (\<lambda>i r. if ?l i then nd_add (i mod MachineType_NUM c) (i div MachineType_NUM c) r else Inr r) [0..<k] r0 = Inr r
      \<and> nd_ok (MachineType_NUM c) (NUM_NODES c) r \<and> dests r = ?p ` {i. i < k \<and> ?l i}" if "k \<le> nodes" for k
    using that
  proof (induction k)
    case 0
    then show ?case using r0 by simp
  next
    case (Suc k)
    then obtain r where r: "rfold (\<lambda>i r. if ?l i then nd_add (i mod MachineType_NUM c) (i div MachineType_NUM c) r else Inr r) [0..<k] r0 = Inr r"
      "nd_ok (MachineType_NUM c) (NUM_NODES c) r" "dests r = ?p ` {i. i < k \<and> ?l i}" by auto
    have "?p k \<in> all_dests c" using div_mod_node [OF assms, of k "?p k"] Suc.prems by simp
    then obtain r' where "nd_add (k mod MachineType_NUM c) (k div MachineType_NUM c) r = Inr r'" "nd_ok (MachineType_NUM c) (NUM_NODES c) r'"
      "dests r' = insert (?p k) (dests r)"
      using nd_add_ok [OF r(2), of "k mod MachineType_NUM c" "k div MachineType_NUM c"] by (auto simp: all_dests_def)
    then show ?case using r by (auto simp: rfold_append less_Suc_eq)
  qed
  from this [of nodes] obtain r where r: "shortest_path_to_node c s x w d nodes = Inr r"
    "nd_ok (MachineType_NUM c) (NUM_NODES c) r" "dests r = ?p ` {i. i < nodes \<and> ?l i}"
    unfolding shortest_path_to_node_def r0(1) rbind_Inr by blast
  have "dests r = {f \<in> all_dests c. link_is_shortest_path_to_node s x (out_switch c nodes f) w d}"
  proof (rule set_eqI)
    fix d'
    have "d' \<in> dests r \<longleftrightarrow> (\<exists>i. (i < nodes \<and> ?p i = d') \<and> ?l i)" unfolding r(3) by blast
    also have "\<dots> \<longleftrightarrow> (\<exists>i. (d' \<in> all_dests c \<and> i + nodes = out_switch c nodes d') \<and> ?l i)"
      by (simp only: div_mod_node [OF assms])
    also have "\<dots> \<longleftrightarrow> d' \<in> all_dests c \<and> link_is_shortest_path_to_node s x (out_switch c nodes d') w d"
      by (auto simp: out_switch_def)
    finally show "d' \<in> dests r \<longleftrightarrow> d' \<in> {f \<in> all_dests c. link_is_shortest_path_to_node s x (out_switch c nodes f) w d}"
      by blast
  qed
  with r show ?thesis by blast
qed

section \<open>The calls of makeLink\<close>

type_synonym link_call = "nat \<times> nat \<times> net_dest \<times> int \<times> int"

definition link_calls :: "net_params \<Rightarrow> topology \<Rightarrow> link_call list result" where
  "link_calls c t = createLinks c t (\<lambda>i j destination_set weight bw calls.
     Inr (calls @ [(i, j, destination_set, weight, bw)])) []"

definition is_link :: "topology \<Rightarrow> nat \<Rightarrow> nat \<Rightarrow> bool" where
  "is_link t i j \<longleftrightarrow> i \<le> max_switch_id t \<and> j \<le> max_switch_id t
     \<and> 0 < mat (topology_weights t) i j \<and> mat (topology_weights t) i j \<noteq> INFINITE_LATENCY"

lemma is_linkE:
  assumes "is_link t i j" "links_ok t"
  obtains k where "k < length (m_links_src_vector t)" "m_links_src_vector t ! k = i"
    "m_links_dest_vector t ! k = j" "mat (topology_weights t) i j = m_links_latency_vector t ! k"
proof -
  note goal = that
  have le: "i \<le> max_switch_id t" "j \<le> max_switch_id t" using assms(1) by (auto simp: is_link_def)
  from assms(2) le show ?thesis
  proof (cases rule: topology_weights_cases)
    case (link k)
    then show ?thesis using goal by blast
  next
    case none
    then show ?thesis using assms(1) by (auto simp: is_link_def split: if_splits)
  qed
qed

lemma bw_positive:
  assumes "is_link t i j" "links_ok t"
  shows "0 < mat (topology_bw_multis t) i j"
proof -
  let ?n = "max_switch_id t + 1"
  let ?ks = "[0..<length (m_links_src_vector t)]"
  obtain k where k: "k < length (m_links_src_vector t)" "m_links_src_vector t ! k = i" "m_links_dest_vector t ! k = j"
    by (rule is_linkE [OF assms])
  have lt: "\<forall>k \<in> set ?ks. m_links_src_vector t ! k < ?n \<and> m_links_dest_vector t ! k < ?n"
    using max_switch_id_ge by (simp add: le_imp_less_Suc)
  from fold_set_mat_cases [OF square_replicate lt, of i j "\<lambda>k. m_bw_multiplier_vector t ! k" "-1"]
  show ?thesis
    using k assms(2) by (auto simp: topology_bw_multis_def Let_def links_ok_def simp del: upt_Suc replicate_Suc)
qed

lemma rfold_filter_map:
  assumes "\<And>x n. x \<in> set xs \<Longrightarrow> g x n = (if P x then f (h x) n else Inr n)"
  shows "rfold g xs n = rfold f (map h (filter P xs)) n"
  using assms
proof (induction xs arbitrary: n)
  case (Cons x xs)
  have "rfold g xs = rfold f (map h (filter P xs))" using Cons by fastforce
  then show ?case using Cons.prems [of x] by simp
qed simp

lemma rfold_collect: "rfold (\<lambda>x calls. Inr (calls @ [h x])) xs ys = Inr (ys @ map h xs)"
  by (induction xs arbitrary: ys) simp_all

text \<open>For a well-formed topology \<open>createLinks\<close> calls \<open>makeLink\<close> once for every pair of switches with a
  link, with the set of the destinations that the link is on a shortest path to.\<close>

lemma createLinks_calls:
  assumes "links_ok t" "net_sizes_ok c (m_nodes t)"
  obtains dist calls where "distances (topology_weights t) (max_switch_id t + 1) dist"
    "path_matrix (topology_weights t) (max_switch_id t + 1) dist"
    "link_calls c t = Inr calls"
    "\<And>makeLink network. createLinks c t makeLink (network :: 'n)
       = rfold (\<lambda>(i, j, s, w, b). makeLink i j s w b) calls network"
    "distinct (map (\<lambda>(i, j, s, w, b). (i, j)) calls)"
    "\<And>i j s w b. (i, j, s, w, b) \<in> set calls \<Longrightarrow> is_link t i j \<and> w = mat (topology_weights t) i j \<and> 0 < b
       \<and> nd_ok (MachineType_NUM c) (NUM_NODES c) s \<and> dests s = {f \<in> all_dests c.
            link_is_shortest_path_to_node i j (out_switch c (m_nodes t) f) (topology_weights t) dist}"
    "\<And>i j. is_link t i j \<Longrightarrow> \<exists>s w b. (i, j, s, w, b) \<in> set calls"
proof -
  note goal = that
  let ?W = "topology_weights t" and ?n = "max_switch_id t + 1" and ?B = "topology_bw_multis t"
  obtain dist where d: "shortest_path ?W = Inr dist" "distances ?W ?n dist" "path_matrix ?W ?n dist"
    by (rule shortest_path_distances [OF topology_weights_ok [OF assms(1)]])
  define f where "f = (\<lambda>i j. projr (shortest_path_to_node c i j ?W dist (m_nodes t)))"
  have f: "shortest_path_to_node c i j ?W dist (m_nodes t) = Inr (f i j)
     \<and> nd_ok (MachineType_NUM c) (NUM_NODES c) (f i j)
     \<and> dests (f i j) = {d \<in> all_dests c. link_is_shortest_path_to_node i j (out_switch c (m_nodes t) d) ?W dist}"
    for i j
  proof -
    obtain r where "shortest_path_to_node c i j ?W dist (m_nodes t) = Inr r
       \<and> nd_ok (MachineType_NUM c) (NUM_NODES c) r
       \<and> dests r = {d \<in> all_dests c. link_is_shortest_path_to_node i j (out_switch c (m_nodes t) d) ?W dist}"
      using shortest_path_to_node_ok [OF assms(2), of i j ?W dist] by blast
    then show ?thesis by (simp add: f_def)
  qed
  let ?h = "\<lambda>(i, j). (i, j, f i j, mat ?W i j, mat ?B i j)"
  let ?ps = "List.product [0..<?n] [0..<?n]"
  let ?calls = "map ?h (filter (\<lambda>(i, j). is_link t i j) ?ps)"
  have step: "create_link c (m_nodes t) ?W ?B dist mk ij n
      = (if (case ij of (i, j) \<Rightarrow> is_link t i j) then (\<lambda>(i, j, s, w, b). mk i j s w b) (?h ij) n else Inr n)"
    if "ij \<in> set ?ps" for mk ij and n :: 'm
  proof -
    obtain i j where ij: "ij = (i, j)" by force
    have le: "i \<le> max_switch_id t" "j \<le> max_switch_id t" using that by (auto simp: ij less_Suc_eq_le)
    show ?thesis
      using bw_positive [OF _ assms(1), of i j] f [of i j] le by (simp add: ij create_link_def is_link_def Let_def)
  qed
  have run: "createLinks c t mk n = rfold (\<lambda>(i, j, s, w, b). mk i j s w b) ?calls n" for mk and n :: 'm
  proof -
    have "rfold (create_link c (m_nodes t) ?W ?B dist mk) ?ps n = rfold (\<lambda>(i, j, s, w, b). mk i j s w b) ?calls n"
      by (rule rfold_filter_map [where P = "\<lambda>(i, j). is_link t i j" and h = ?h]) (rule step)
    then show ?thesis unfolding createLinks_def Let_def d(1) rbind_Inr .
  qed
  have "link_calls c t = Inr ?calls"
    unfolding link_calls_def run using rfold_collect [of "\<lambda>x. x" ?calls "[]"] by (simp add: case_prod_unfold)
  moreover have "map (\<lambda>(i, j, s, w, b). (i, j)) ?calls = filter (\<lambda>(i, j). is_link t i j) ?ps"
    by (simp add: case_prod_unfold comp_def)
  then have "distinct (map (\<lambda>(i, j, s, w, b). (i, j)) ?calls)" by (simp add: distinct_product)
  moreover have "\<exists>s w b. (i, j, s, w, b) \<in> set ?calls" if "is_link t i j" for i j
    using that by (force simp: is_link_def less_Suc_eq_le simp del: upt_Suc)
  ultimately show ?thesis
    using d(2,3) run f bw_positive [OF _ assms(1)]
    by (intro goal [of dist ?calls]) (auto simp del: upt_Suc)
qed

section \<open>Routes\<close>

text \<open>\<open>carries\<close>: there is a link from \<open>i\<close> to \<open>j\<close> whose routing table entry has the destination \<open>f\<close>. A route
  follows such links to a switch, and has a latency.\<close>

definition carries :: "link_call list \<Rightarrow> nat \<times> nat \<Rightarrow> nat \<Rightarrow> nat \<Rightarrow> int \<Rightarrow> bool" where
  "carries calls f i j w \<longleftrightarrow> (\<exists>s b. (i, j, s, w, b) \<in> set calls \<and> f \<in> dests s)"

inductive route :: "link_call list \<Rightarrow> nat \<Rightarrow> nat \<times> nat \<Rightarrow> nat \<Rightarrow> int \<Rightarrow> bool" for calls d f where
  arrived: "route calls d f d 0"
| hop: "carries calls f i j w \<Longrightarrow> route calls d f j l \<Longrightarrow> route calls d f i (w + l)"

definition routing_ok :: "net_params \<Rightarrow> topology \<Rightarrow> matrix \<Rightarrow> link_call list \<Rightarrow> bool" where
  "routing_ok c t dist calls \<longleftrightarrow>
     (\<forall>f \<in> all_dests c. \<forall>i \<le> max_switch_id t.
        (\<forall>j w. carries calls f i j w \<longrightarrow> 0 < w \<and> j \<le> max_switch_id t
            \<and> mat dist i (out_switch c (m_nodes t) f) = w + mat dist j (out_switch c (m_nodes t) f)) \<and>
        (mat dist i (out_switch c (m_nodes t) f) < INFINITE_LATENCY \<and> i \<noteq> out_switch c (m_nodes t) f
            \<longrightarrow> (\<exists>j w. carries calls f i j w)) \<and>
        0 \<le> mat dist i (out_switch c (m_nodes t) f) \<and>
        mat dist (out_switch c (m_nodes t) f) (out_switch c (m_nodes t) f) = 0)"

lemma out_switch_less:
  assumes "net_sizes_ok c nodes" "f \<in> all_dests c"
  shows "nodes \<le> out_switch c nodes f" "out_switch c nodes f < 2 * nodes"
proof -
  have "out_switch c nodes f - nodes < nodes \<and> nodes \<le> out_switch c nodes f"
    using div_mod_node [OF assms(1), of "out_switch c nodes f - nodes" f] assms(2)
    by (auto simp: out_switch_def)
  then show "nodes \<le> out_switch c nodes f" "out_switch c nodes f < 2 * nodes" by auto
qed

lemma createLinks_routing:
  assumes "links_ok t" "net_sizes_ok c (m_nodes t)" "2 * m_nodes t \<le> max_switch_id t"
  obtains dist calls where "distances (topology_weights t) (max_switch_id t + 1) dist"
    "link_calls c t = Inr calls" "routing_ok c t dist calls"
proof (rule createLinks_calls [OF assms(1,2)])
  note goal = that
  fix dist calls
  let ?n = "max_switch_id t + 1" and ?W = "topology_weights t"
  let ?D = "out_switch c (m_nodes t)"
  assume d: "distances ?W ?n dist" and p: "path_matrix ?W ?n dist" and calls: "link_calls c t = Inr calls"
    and call: "\<And>i j s w b. (i, j, s, w, b) \<in> set calls \<Longrightarrow> is_link t i j \<and> w = mat ?W i j \<and> 0 < b
       \<and> nd_ok (MachineType_NUM c) (NUM_NODES c) s \<and> dests s = {f \<in> all_dests c.
            link_is_shortest_path_to_node i j (?D f) ?W dist}"
    and called: "\<And>i j. is_link t i j \<Longrightarrow> \<exists>s w b. (i, j, s, w, b) \<in> set calls"
  have w_ok: "weights_ok ?n ?W" by (rule topology_weights_ok [OF assms(1)])
  have D: "?D f < ?n" if "f \<in> all_dests c" for f
    using out_switch_less(2) [OF assms(2) that] assms(3) by simp
  have next_link: "\<exists>j w. carries calls f i j w"
    if f: "f \<in> all_dests c" "i < ?n" "mat dist i (?D f) < INFINITE_LATENCY" "i \<noteq> ?D f" for f i
  proof -
    obtain k where k: "k < ?n" "k \<noteq> i" "link_is_shortest_path_to_node i k (?D f) ?W dist"
        "mat ?W i k \<le> mat dist i (?D f)"
      by (rule shortest_first_link [OF d w_ok f(2) D [OF f(1)] f(4)])
    have le: "i \<le> max_switch_id t" "k \<le> max_switch_id t" using f(2) k(1) by auto
    have "is_link t i k"
      using assms(1) le
    proof (cases rule: topology_weights_cases)
      case (link l)
      then show ?thesis using assms(1) le by (auto simp: links_ok_def is_link_def)
    next
      case none
      then show ?thesis using k(2,4) f(3) by auto
    qed
    then obtain s w b where e: "(i, k, s, w, b) \<in> set calls" using called by blast
    have "f \<in> dests s" using call [OF e] k(3) f(1) by blast
    with e show ?thesis unfolding carries_def by blast
  qed
  have carried: "0 < w \<and> j \<le> max_switch_id t \<and> mat dist i (?D f) = w + mat dist j (?D f)"
    if "carries calls f i j w" for f i j w
  proof -
    obtain s b where e: "(i, j, s, w, b) \<in> set calls" "f \<in> dests s" using \<open>carries calls f i j w\<close> by (auto simp: carries_def)
    have c: "is_link t i j" "w = mat ?W i j" "dests s = {f \<in> all_dests c. link_is_shortest_path_to_node i j (?D f) ?W dist}"
      using call [OF e(1)] by blast+
    then have ij: "i < ?n" "j < ?n" "?D f < ?n" using D call [OF e(1)] e(2) by (auto simp: is_link_def)
    have "0 \<le> mat ?W i j" "mat ?W i j < 2 ^ 30" using w_ok ij unfolding weights_ok_def by blast+
    then have "wrap32 (mat ?W i j + mat dist j (?D f)) = mat ?W i j + mat dist j (?D f)"
      using path_matrix_bounds [OF p ij(2,3)] by (simp add: no_wrap)
    then show ?thesis using c e(2) by (simp add: is_link_def link_is_shortest_path_to_node_def)
  qed
  have le: "\<forall>i < ?n. \<forall>j < ?n. 0 \<le> mat dist i j \<and> mat dist i j \<le> mat ?W i j"
    using p unfolding path_matrix_def by blast
  have nonneg: "0 \<le> mat dist i (?D f)" if "f \<in> all_dests c" "i < ?n" for f i
    using le D [OF that(1)] that(2) by blast
  have diag: "mat dist (?D f) (?D f) = 0" if "f \<in> all_dests c" for f
    using le D [OF that] w_ok unfolding weights_ok_def by (metis antisym)
  have "routing_ok c t dist calls" unfolding routing_ok_def
    using carried next_link nonneg diag by (simp add: less_Suc_eq_le)
  with d calls show ?thesis by (rule goal)
qed

lemma routes_exist:
  assumes "routing_ok c t dist calls" "f \<in> all_dests c" "i \<le> max_switch_id t"
    "mat dist i (out_switch c (m_nodes t) f) < INFINITE_LATENCY"
  shows "\<exists>l. route calls (out_switch c (m_nodes t) f) f i l"
  using assms(3,4)
proof (induction "nat (mat dist i (out_switch c (m_nodes t) f))" arbitrary: i rule: less_induct)
  case less
  let ?D = "out_switch c (m_nodes t) f"
  show ?case
  proof (cases "i = ?D")
    case True
    then show ?thesis using route.arrived by metis
  next
    case False
    then obtain j w where jw: "carries calls f i j w"
      using assms(1,2) less(2,3) unfolding routing_ok_def by blast
    then have j: "0 < w" "j \<le> max_switch_id t" "mat dist i ?D = w + mat dist j ?D"
      using assms(1,2) less(2) unfolding routing_ok_def by blast+
    then have "0 \<le> mat dist j ?D" using assms(1,2) unfolding routing_ok_def by blast
    then obtain l where "route calls ?D f j l" using less(1) [of j] j less(3) by fastforce
    with jw show ?thesis using route.hop by metis
  qed
qed

lemma route_latency:
  assumes "route calls (out_switch c (m_nodes t) f) f i l" "routing_ok c t dist calls" "f \<in> all_dests c"
    "i \<le> max_switch_id t"
  shows "l = mat dist i (out_switch c (m_nodes t) f)"
  using assms(1,4)
proof (induction rule: route.induct)
  case arrived
  then show ?case using assms(2,3) unfolding routing_ok_def by auto
next
  case (hop i j w l)
  then have "j \<le> max_switch_id t" "mat dist i (out_switch c (m_nodes t) f) = w + mat dist j (out_switch c (m_nodes t) f)"
    using assms(2,3) unfolding routing_ok_def by blast+
  then show ?case using hop by simp
qed

end
