(* ===== verification/NetworkState.thy ===== *)
theory NetworkState
  imports MessageBuffer Topology
begin

text \<open>
  The state of the simple network (ruby/network/simple): the objects that the switches, the throttles
  and the network share by pointers. A pointer is a number: into the message buffers, the messages
  (ruby/common/NetworkMessage.h), the perfect switches and the throttles. What a protocol puts into a
  message is a number, its \<open>clone\<close> a new message with the same contents. The record is the
  \<open>w_sys\<close> component of the event queue's world. The numbers that \<open>random()\<close> will return are a
  sequence in the state; every call of \<open>enqueue\<close> sets three of them aside.
\<close>

section \<open>Messages\<close>

record net_msg =
  nm_data :: nat
  m_destination :: net_dest
  m_MessageSize :: nat
  m_internal_dest :: net_dest
  m_internal_dest_valid :: bool

text \<open>\<open>getInternalDestination\<close> that is not \<open>const\<close>: it fills the internal destination when it is used for
  the first time.\<close>

definition getInternalDestination :: "net_msg \<Rightarrow> net_dest \<times> net_msg" where
  "getInternalDestination m =
     (let m' = (if m_internal_dest_valid m = False
                then m\<lparr>m_internal_dest := m_destination m, m_internal_dest_valid := True\<rparr> else m)
      in (m_internal_dest m', m'))"

text \<open>The number of message sizes in protocols/external.sm.\<close>

definition MessageSizeType_NUM :: nat where
  "MessageSizeType_NUM = 13"

section \<open>Objects\<close>

record link_order =
  m_link :: nat
  m_value :: int

record perfect_switch =
  ps_switch_id :: nat
  ps_in :: "nat list list"
  ps_out :: "nat list list"
  m_routing_table :: "net_dest list"
  m_link_order :: "link_order list"
  ps_virtual_networks :: nat
  m_round_robin_start :: nat

record throttle =
  th_in :: "nat list"
  th_out :: "nat list"
  m_message_counters :: "int list list"
  m_vnets :: nat
  m_last_vnet :: nat
  m_units_remaining :: "int list"
  th_sID :: nat
  th_node :: nat
  m_bash_counter :: int
  m_bandwidth_since_sample :: int
  m_last_bandwidth_sample :: int
  m_link_bandwidth_multiplier :: int
  m_link_latency :: int

record net_switch =
  m_perfect_switch_ptr :: nat
  m_throttles :: "nat list"

record network =
  nw_buffers :: "nat \<Rightarrow> nat message_buffer"
  nw_next_buffer :: nat
  nw_messages :: "nat \<Rightarrow> net_msg"
  nw_next_message :: nat
  nw_perfect :: "nat \<Rightarrow> perfect_switch"
  nw_throttles :: "nat \<Rightarrow> throttle"
  nw_next_throttle :: nat
  nw_random :: "nat \<Rightarrow> nat"
  nw_draws :: nat
  sn_nodes :: nat
  sn_virtual_networks :: nat
  m_toNetQueues :: "nat list list"
  m_fromNetQueues :: "nat list list"
  m_in_use :: "bool list"
  m_ordered :: "bool list"
  m_switch_ptr_vector :: "net_switch list"
  m_endpoint_switches :: "nat option list"

type_synonym net_world = "network world"

text \<open>What the network takes from elsewhere: the parameters, the sorting of the link order (the C
  library), the number for a message size (generated by the protocol compiler), and the comparison of
  the utilization with the threshold, which is in floating point.\<close>

record net_env =
  params :: net_params
  sort_links :: "link_order list \<Rightarrow> link_order list"
  MessageSizeType_to_int :: "nat \<Rightarrow> int"
  over_threshold :: "int \<Rightarrow> int \<Rightarrow> bool"

text \<open>The consumers: the pointers of the three kinds are kept apart.\<close>

definition switch_consumer :: "nat \<Rightarrow> nat" where
  "switch_consumer p = 3 * p"

definition throttle_consumer :: "nat \<Rightarrow> nat" where
  "throttle_consumer p = 3 * p + 1"

section \<open>Operations on the shared objects\<close>

definition upd_net :: "(network \<Rightarrow> network) \<Rightarrow> net_world \<Rightarrow> net_world" where
  "upd_net f w = w\<lparr>w_sys := f (w_sys w)\<rparr>"

definition the_buffer :: "net_world \<Rightarrow> nat \<Rightarrow> nat message_buffer" where
  "the_buffer w b = nw_buffers (w_sys w) b"

definition the_message :: "net_world \<Rightarrow> nat \<Rightarrow> net_msg" where
  "the_message w m = nw_messages (w_sys w) m"

definition set_buffer :: "nat \<Rightarrow> nat message_buffer \<Rightarrow> net_world \<Rightarrow> net_world" where
  "set_buffer b x = upd_net (\<lambda>s. s\<lparr>nw_buffers := (nw_buffers s)(b := x)\<rparr>)"

definition set_message :: "nat \<Rightarrow> net_msg \<Rightarrow> net_world \<Rightarrow> net_world" where
  "set_message m x = upd_net (\<lambda>s. s\<lparr>nw_messages := (nw_messages s)(m := x)\<rparr>)"

definition set_perfect :: "nat \<Rightarrow> perfect_switch \<Rightarrow> net_world \<Rightarrow> net_world" where
  "set_perfect p x = upd_net (\<lambda>s. s\<lparr>nw_perfect := (nw_perfect s)(p := x)\<rparr>)"

definition set_throttle :: "nat \<Rightarrow> throttle \<Rightarrow> net_world \<Rightarrow> net_world" where
  "set_throttle p x = upd_net (\<lambda>s. s\<lparr>nw_throttles := (nw_throttles s)(p := x)\<rparr>)"

definition net_isReady :: "net_world \<Rightarrow> nat \<Rightarrow> bool" where
  "net_isReady w b = mb_isReady w (the_buffer w b)"

definition net_peek :: "net_world \<Rightarrow> nat \<Rightarrow> nat result" where
  "net_peek w b = mb_peekMsgPtr w (the_buffer w b)"

definition net_enqueue :: "net_env \<Rightarrow> nat \<Rightarrow> nat \<Rightarrow> int \<Rightarrow> net_world \<Rightarrow> net_world result" where
  "net_enqueue e b msg delta w =
     (let r = nw_random (w_sys w); d = nw_draws (w_sys w)
      in rbind (mb_enqueue (RANDOMIZATION (params e)) (r d, r (d + 1), r (d + 2)) msg delta w (the_buffer w b))
           (\<lambda>(x, w'). Inr (upd_net (\<lambda>s. s\<lparr>nw_draws := d + 3\<rparr>) (set_buffer b x w'))))"

definition net_pop :: "nat \<Rightarrow> net_world \<Rightarrow> net_world result" where
  "net_pop b w = rbind (mb_pop w (the_buffer w b)) (\<lambda>x. Inr (set_buffer b x w))"

text \<open>Taking one number from \<open>random()\<close>.\<close>

definition draw :: "net_world \<Rightarrow> nat \<times> net_world" where
  "draw w = (nw_random (w_sys w) (nw_draws (w_sys w)),
             upd_net (\<lambda>s. s\<lparr>nw_draws := nw_draws s + 1\<rparr>) w)"

text \<open>A private copy of a message.\<close>

definition clone_message :: "nat \<Rightarrow> net_world \<Rightarrow> nat \<times> net_world" where
  "clone_message m w =
     (let n = nw_next_message (w_sys w)
      in (n, upd_net (\<lambda>s. s\<lparr>nw_messages := (nw_messages s)(n := nw_messages s m), nw_next_message := n + 1\<rparr>) w))"

definition new_buffer :: "nat message_buffer \<Rightarrow> net_world \<Rightarrow> nat \<times> net_world" where
  "new_buffer x w =
     (let n = nw_next_buffer (w_sys w)
      in (n, upd_net (\<lambda>s. s\<lparr>nw_buffers := (nw_buffers s)(n := x), nw_next_buffer := n + 1\<rparr>) w))"

end
