(* ===== verification/PerfectSwitch.thy ===== *)
theory PerfectSwitch
  imports NetworkState
begin

text \<open>
  The perfect switch, ruby/network/simple/PerfectSwitch.C: it looks at every virtual network and every
  input port, the ports in turn, and passes each waiting message on to the output ports whose routing
  table entries have some of its destinations, one private copy for each port after the first.
\<close>

definition PerfectSwitch :: "net_env \<Rightarrow> nat \<Rightarrow> perfect_switch" where
  "PerfectSwitch e sid = \<lparr>ps_switch_id = sid, ps_in = [], ps_out = [], m_routing_table = [], m_link_order = [],
     ps_virtual_networks = NUMBER_OF_VIRTUAL_NETWORKS (params e), m_round_robin_start = 0\<rparr>"

definition ps_addInPort :: "nat \<Rightarrow> nat list \<Rightarrow> net_world \<Rightarrow> net_world result" where
  "ps_addInPort p ins w =
     (let ps = nw_perfect (w_sys w) p
      in check (length ins = ps_virtual_networks ps) Assert_failed (
         rfold (\<lambda>j w. rbind (lref j ins) (\<lambda>b.
             rbind (mb_setConsumer (Some (switch_consumer p)) (the_buffer w b)) (\<lambda>x. Inr (set_buffer b x w))))
           [0..<ps_virtual_networks ps] (set_perfect p (ps\<lparr>ps_in := ps_in ps @ [ins]\<rparr>) w)))"

definition ps_addOutPort :: "nat \<Rightarrow> nat list \<Rightarrow> net_dest \<Rightarrow> net_world \<Rightarrow> net_world result" where
  "ps_addOutPort p outs routing_table_entry w =
     (let ps = nw_perfect (w_sys w) p
      in check (length outs = ps_virtual_networks ps) Assert_failed (
         Inr (set_perfect p (ps\<lparr>m_link_order := m_link_order ps @ [\<lparr>m_link = length (ps_out ps), m_value = 0\<rparr>],
                ps_out := ps_out ps @ [outs],
                m_routing_table := m_routing_table ps @ [routing_table_entry]\<rparr>) w)))"

section \<open>Routing a message\<close>

text \<open>Adaptive routing: the order of the links, by the lengths of their queues.\<close>

definition queue_length :: "nat \<Rightarrow> nat list \<Rightarrow> net_world \<Rightarrow> (int \<times> net_world) result" where
  "queue_length vnets outs w =
     rfold (\<lambda>v (len, w). rbind (lref v outs) (\<lambda>b.
         case mb_getSize w (the_buffer w b) of (sz, x) \<Rightarrow> Inr (len + sz, set_buffer b x w)))
       [0..<vnets] (0, w)"

definition clogged_link :: "nat \<Rightarrow> nat \<Rightarrow> net_world \<Rightarrow> net_world result" where
  "clogged_link p outlink w =
     (let ps = nw_perfect (w_sys w) p
      in rbind (lref outlink (ps_out ps)) (\<lambda>outs.
         rbind (queue_length (ps_virtual_networks ps) outs w) (\<lambda>(out_queue_length, w1).
         case draw w1 of (r, w2) \<Rightarrow>
         rbind (lput outlink \<lparr>m_link = outlink, m_value = or (push_bit 8 out_queue_length) (and (int r) 255)\<rparr>
                  (m_link_order ps)) (\<lambda>lo.
         Inr (set_perfect p (ps\<lparr>m_link_order := lo\<rparr>) w2)))))"

definition order_links :: "net_env \<Rightarrow> nat \<Rightarrow> nat \<Rightarrow> net_world \<Rightarrow> net_world result" where
  "order_links e p vnet w =
     (let ps = nw_perfect (w_sys w) p
      in if ADAPTIVE_ROUTING (params e) then
           rbind (lref vnet (m_ordered (w_sys w))) (\<lambda>ordered.
           if ordered then
             rbind (rfold (\<lambda>outlink. lput outlink \<lparr>m_link = outlink, m_value = 0\<rparr>) [0..<length (ps_out ps)]
                      (m_link_order ps)) (\<lambda>lo.
             Inr (set_perfect p (ps\<lparr>m_link_order := lo\<rparr>) w))
           else
             rbind (rfold (clogged_link p) [0..<length (ps_out ps)] w) (\<lambda>w1.
             let ps1 = nw_perfect (w_sys w1) p
             in Inr (set_perfect p (ps1\<lparr>m_link_order := sort_links e (m_link_order ps1)\<rparr>) w1)))
         else Inr w)"

text \<open>The links for a message and the destinations each of them is responsible for. The state is
  \<open>msg_destinations\<close>, \<open>output_links\<close> and \<open>output_link_destinations\<close>.\<close>

definition try_link ::
  "net_env \<Rightarrow> perfect_switch \<Rightarrow> nat \<Rightarrow> net_dest \<times> (nat \<times> net_dest) list
     \<Rightarrow> (net_dest \<times> (nat \<times> net_dest) list) result" where
  "try_link e ps i st =
     (case st of (msg_destinations, outputs) \<Rightarrow>
        rbind (lref i (m_link_order ps)) (\<lambda>lo.
        let link = m_link lo
        in rbind (lref link (m_routing_table ps)) (\<lambda>entry.
           rbind (nd_intersectionIsNotEmpty msg_destinations entry) (\<lambda>meets.
           if meets then
             rbind (nd_AND (MachineType_NUM (params e)) (NUM_NODES (params e)) msg_destinations entry) (\<lambda>d.
             rbind (nd_removeNetDest entry msg_destinations) (\<lambda>rest.
             Inr (rest, outputs @ [(link, d)])))
           else Inr (msg_destinations, outputs)))))"

definition route_message ::
  "net_env \<Rightarrow> perfect_switch \<Rightarrow> net_dest \<Rightarrow> ((nat \<times> net_dest) list) result" where
  "route_message e ps msg_destinations =
     rbind (rfold (try_link e ps) [0..<length (m_routing_table ps)] (msg_destinations, [])) (\<lambda>(rest, outputs).
     rbind (nd_count rest) (\<lambda>n.
     check (n = 0) Assert_failed (Inr outputs)))"

definition enough_slots :: "nat \<Rightarrow> nat \<Rightarrow> (nat \<times> net_dest) list \<Rightarrow> net_world \<Rightarrow> bool result" where
  "enough_slots p vnet outputs w =
     rfold (\<lambda>(outgoing, d) enough. rbind (lref outgoing (ps_out (nw_perfect (w_sys w) p))) (\<lambda>outs.
         rbind (lref vnet outs) (\<lambda>b.
         Inr (enough \<and> mb_areNSlotsAvailable 1 (the_buffer w b)))))
       outputs True"

text \<open>One copy of the message for each link; the first link gets the message itself. The state of the
  loop is its index and \<open>msg_ptr\<close>.\<close>

definition send_copy ::
  "net_env \<Rightarrow> nat \<Rightarrow> nat \<Rightarrow> nat \<times> net_dest \<Rightarrow> nat \<times> nat \<times> net_world \<Rightarrow> (nat \<times> nat \<times> net_world) result" where
  "send_copy e p vnet output st =
     (case st of (i, msg_ptr, w) \<Rightarrow> case output of (outgoing, d) \<Rightarrow>
        case (if i > 0 then clone_message msg_ptr w else (msg_ptr, w)) of (msg, w1) \<Rightarrow>
          let m = snd (getInternalDestination (the_message w1 msg));
              w2 = set_message msg (m\<lparr>m_internal_dest := d\<rparr>) w1
          in rbind (lref outgoing (ps_out (nw_perfect (w_sys w2) p))) (\<lambda>outs.
             rbind (lref vnet outs) (\<lambda>b.
             rbind (net_enqueue e b msg 1 w2) (\<lambda>w3. Inr (i + 1, msg, w3)))))"

section \<open>wakeup\<close>

text \<open>The body of the loop over the messages of a port; \<open>True\<close> is the \<open>break\<close>.\<close>

definition pass_message :: "net_env \<Rightarrow> nat \<Rightarrow> nat \<Rightarrow> nat \<Rightarrow> net_world \<Rightarrow> (bool \<times> net_world) result" where
  "pass_message e p vnet b w =
     rbind (net_peek w b) (\<lambda>msg_ptr.
     case getInternalDestination (the_message w msg_ptr) of (msg_destinations, m) \<Rightarrow>
       let w1 = set_message msg_ptr m w; ps = nw_perfect (w_sys w1) p
       in check (length (m_link_order ps) = length (m_routing_table ps)) Assert_failed (
          check (length (m_link_order ps) = length (ps_out ps)) Assert_failed (
          rbind (order_links e p vnet w1) (\<lambda>w2.
          rbind (route_message e (nw_perfect (w_sys w2) p) msg_destinations) (\<lambda>outputs.
          rbind (enough_slots p vnet outputs w2) (\<lambda>enough.
          if \<not> enough then
            rbind (scheduleEvent (Some (switch_consumer p)) 1 w2) (\<lambda>w3. Inr (True, w3))
          else
            rbind (rfold (send_copy e p vnet) outputs (0, msg_ptr, w2)) (\<lambda>(i, msg, w3).
            rbind (net_pop b w3) (\<lambda>w4. Inr (False, w4)))))))))"

definition switch_port :: "net_env \<Rightarrow> nat \<Rightarrow> nat \<Rightarrow> nat \<Rightarrow> net_world \<Rightarrow> net_world result" where
  "switch_port e p vnet incoming w =
     rbind (lref incoming (ps_in (nw_perfect (w_sys w) p))) (\<lambda>ins.
     rbind (lref vnet ins) (\<lambda>b.
     rbind (rwhile (\<lambda>(stop, w). \<not> stop \<and> net_isReady w b) (\<lambda>(stop, w). pass_message e p vnet b w) (False, w))
       (\<lambda>(stop, w'). Inr w')))"

definition switch_vnet :: "net_env \<Rightarrow> nat \<Rightarrow> nat \<Rightarrow> net_world \<Rightarrow> net_world result" where
  "switch_vnet e p vnet w =
     (let ps = nw_perfect (w_sys w) p; n = length (ps_in ps);
          incoming = m_round_robin_start ps;
          start = (if m_round_robin_start ps + 1 \<ge> n then 0 else m_round_robin_start ps + 1)
      in rbind (rfold (\<lambda>counter (incoming, w).
               let incoming' = (if incoming + 1 \<ge> n then 0 else incoming + 1)
               in rbind (switch_port e p vnet incoming' w) (\<lambda>w'. Inr (incoming', w')))
             [0..<n] (incoming, set_perfect p (ps\<lparr>m_round_robin_start := start\<rparr>) w))
           (\<lambda>(incoming, w'). Inr w'))"

definition ps_wakeup :: "net_env \<Rightarrow> nat \<Rightarrow> net_world \<Rightarrow> net_world result" where
  "ps_wakeup e p w = rfold (switch_vnet e p) [0..<ps_virtual_networks (nw_perfect (w_sys w) p)] w"

end
