(* ===== verification/MessageRouting.thy ===== *)
theory MessageRouting
  imports PerfectSwitch
begin

text \<open>
  What the perfect switch does with the destinations of one message: the links it chooses, in whatever
  order, share the destinations out, so that every destination is served by exactly one of them. Before
  that, the operations on destinations that the switch uses: \<open>AND\<close> and \<open>count\<close>.
\<close>

section \<open>Destinations\<close>

lemma dests_bound: "nd_ok k n nd \<Longrightarrow> dests nd \<subseteq> {..<k} \<times> {..<n}"
  using set_ok_bound by (fastforce simp: nd_ok_def dests_def)

lemma dests_finite: "nd_ok k n nd \<Longrightarrow> finite (dests nd)"
  by (rule finite_subset [OF dests_bound]) auto

lemma nd_ok_sets: "nd_ok k n \<lparr>m_sets = m_sets nd\<rparr> \<longleftrightarrow> nd_ok k n nd"
  by (simp add: nd_ok_def)

lemma nd_combine_ok:
  assumes "nd_ok k n nd" "nd_ok k n other" "0 < n" "n < 32"
    and f: "\<And>m. m < k \<Longrightarrow> \<exists>u. f (m_sets nd ! m) (m_sets other ! m) = Inr u \<and> set_ok u \<and> rs_size u = n \<and> elems u = E m"
  shows "\<exists>r. nd_combine f k n nd other = Inr r \<and> nd_ok k n r \<and> dests r = {(m, i). m < k \<and> i \<in> E m}"
proof -
  have l: "length (m_sets nd) = k" "length (m_sets other) = k" using assms by (auto simp: nd_ok_def)
  obtain r0 where r0: "nd_new k n = Inr r0" "nd_ok k n r0" using nd_new_ok [OF assms(3,4)] by blast
  let ?b = "\<lambda>i ss. rbind (lref i (m_sets nd)) (\<lambda>s. rbind (lref i (m_sets other)) (\<lambda>t.
                 rbind (f s t) (\<lambda>u. lput i u ss)))"
  have "\<exists>ss. rfold ?b [0..<j] (m_sets r0) = Inr ss \<and> nd_ok k n \<lparr>m_sets = ss\<rparr> \<and> (\<forall>m < j. elems (ss ! m) = E m)"
    if "j \<le> k" for j
    using that
  proof (induction j)
    case 0
    then show ?case using r0(2) by (simp add: nd_ok_sets)
  next
    case (Suc j)
    then obtain ss where ss: "rfold ?b [0..<j] (m_sets r0) = Inr ss" "nd_ok k n \<lparr>m_sets = ss\<rparr>"
      "\<forall>m < j. elems (ss ! m) = E m" by auto
    obtain u where u: "f (m_sets nd ! j) (m_sets other ! j) = Inr u" "set_ok u" "rs_size u = n" "elems u = E j"
      using f [of j] Suc.prems by auto
    have "length ss = k" using ss(2) by (simp add: nd_ok_def)
    moreover have "nd_ok k n \<lparr>m_sets = ss[j := u]\<rparr>"
      using ss(2) u(2,3) by (auto simp: nd_ok_def dest!: set_update_subset_insert [THEN subsetD])
    ultimately show ?case using ss u l Suc.prems
      by (auto simp: rfold_append lput_def nth_list_update less_Suc_eq)
  qed
  from this [of k] obtain ss where ss: "rfold ?b [0..<k] (m_sets r0) = Inr ss" "nd_ok k n \<lparr>m_sets = ss\<rparr>"
    "\<forall>m < k. elems (ss ! m) = E m" by auto
  have "dests \<lparr>m_sets = ss\<rparr> = {(m, i). m < k \<and> i \<in> E m}"
    using ss(2,3) by (auto simp: dests_def nd_ok_def)
  then show ?thesis using ss l r0(1) by (simp add: nd_combine_def)
qed

lemma nd_AND_ok:
  assumes "nd_ok k n nd" "nd_ok k n other" "0 < n" "n < 32"
  shows "\<exists>r. nd_AND k n nd other = Inr r \<and> nd_ok k n r \<and> dests r = dests nd \<inter> dests other"
proof -
  have l: "length (m_sets nd) = k" "length (m_sets other) = k" using assms by (auto simp: nd_ok_def)
  have "\<exists>u. rset_AND (m_sets nd ! m) (m_sets other ! m) = Inr u \<and> set_ok u \<and> rs_size u = n
      \<and> elems u = elems (m_sets nd ! m) \<inter> elems (m_sets other ! m)" if "m < k" for m
    using rset_AND_ok [of "m_sets nd ! m" "m_sets other ! m"] nd_okD [OF assms(1) that] nd_okD [OF assms(2) that] by auto
  from nd_combine_ok [where f = rset_AND and E = "\<lambda>m. elems (m_sets nd ! m) \<inter> elems (m_sets other ! m)", OF assms this]
  show ?thesis using l by (auto simp: nd_AND_def dests_def)
qed

lemma nd_OR_ok:
  assumes "nd_ok k n nd" "nd_ok k n other" "0 < n" "n < 32"
  shows "\<exists>r. nd_OR k n nd other = Inr r \<and> nd_ok k n r \<and> dests r = dests nd \<union> dests other"
proof -
  have l: "length (m_sets nd) = k" "length (m_sets other) = k" using assms by (auto simp: nd_ok_def)
  have "\<exists>u. rset_OR (m_sets nd ! m) (m_sets other ! m) = Inr u \<and> set_ok u \<and> rs_size u = n
      \<and> elems u = elems (m_sets nd ! m) \<union> elems (m_sets other ! m)" if "m < k" for m
    using rset_OR_ok [of "m_sets nd ! m" "m_sets other ! m"] nd_okD [OF assms(1) that] nd_okD [OF assms(2) that] by auto
  from nd_combine_ok [where f = rset_OR and E = "\<lambda>m. elems (m_sets nd ! m) \<union> elems (m_sets other ! m)", OF assms this]
  show ?thesis using l by (auto simp: nd_OR_def dests_def)
qed

lemma nd_count_ok:
  assumes "nd_ok k n nd"
  shows "nd_count nd = Inr (card (dests nd))"
proof -
  have l: "length (m_sets nd) = k" using assms by (simp add: nd_ok_def)
  let ?E = "\<lambda>m. elems (m_sets nd ! m)"
  have fin: "finite (?E m)" if "m < k" for m using elems_finite nd_okD [OF assms that] by blast
  have "rfold (\<lambda>i counter. rbind (lref i (m_sets nd)) (\<lambda>s. Inr (counter + rset_count s))) [0..<j] 0
      = Inr (\<Sum>m < j. card (?E m))" if "j \<le> k" for j
    using that
  proof (induction j)
    case (Suc j)
    then show ?case using l nd_okD [OF assms, of j] by (simp add: rfold_append rset_count_ok)
  qed simp
  moreover have "dests nd = Sigma {..<k} ?E" using l by (auto simp: dests_def)
  ultimately show ?thesis using l fin by (simp add: nd_count_def)
qed

section \<open>Sharing the destinations out\<close>

definition order_ok :: "perfect_switch \<Rightarrow> bool" where
  "order_ok ps \<longleftrightarrow> mset (map m_link (m_link_order ps)) = mset [0..<length (m_routing_table ps)]"

definition table_ok :: "net_params \<Rightarrow> perfect_switch \<Rightarrow> bool" where
  "table_ok c ps \<longleftrightarrow> order_ok ps \<and> length (ps_out ps) = length (m_routing_table ps)
     \<and> (\<forall>entry \<in> set (m_routing_table ps). nd_ok (MachineType_NUM c) (NUM_NODES c) entry)"

text \<open>The specification: the outputs are different links, each with some of the destinations in its
  routing table entry, and together they have every destination once.\<close>

definition shares_out :: "net_params \<Rightarrow> perfect_switch \<Rightarrow> net_dest \<Rightarrow> (nat \<times> net_dest) list \<Rightarrow> bool" where
  "shares_out c ps D outputs \<longleftrightarrow>
     distinct (map fst outputs) \<and>
     (\<forall>(l, d) \<in> set outputs. l < length (m_routing_table ps) \<and> nd_ok (MachineType_NUM c) (NUM_NODES c) d
        \<and> dests d \<noteq> {} \<and> dests d \<subseteq> dests (m_routing_table ps ! l)) \<and>
     (\<Sum>(l, d) \<leftarrow> outputs. mset_set (dests d)) = mset_set (dests D)"

lemma mset_set_split: "finite A \<Longrightarrow> mset_set A = mset_set (A \<inter> B) + mset_set (A - B)"
  by (subst mset_set_Union [symmetric]) (auto intro: arg_cong [of _ _ mset_set])

lemma route_message_ok:
  assumes "table_ok (params e) ps" "0 < NUM_NODES (params e)" "NUM_NODES (params e) < 32"
    "nd_ok (MachineType_NUM (params e)) (NUM_NODES (params e)) D"
    "dests D \<subseteq> (\<Union>entry \<in> set (m_routing_table ps). dests entry)"
  shows "\<exists>outputs. route_message e ps D = Inr outputs \<and> shares_out (params e) ps D outputs"
proof -
  let ?k = "MachineType_NUM (params e)" and ?n = "NUM_NODES (params e)" and ?T = "m_routing_table ps"
  let ?links = "map m_link (m_link_order ps)"
  have perm: "mset ?links = mset [0..<length ?T]" using assms(1) by (simp add: table_ok_def order_ok_def)
  have len: "length (m_link_order ps) = length ?T" using mset_eq_length [OF perm] by simp
  have links: "set ?links = {..<length ?T}" "distinct ?links"
    using mset_eq_setD [OF perm] mset_eq_imp_distinct_iff [OF perm] by (auto simp: atLeast0LessThan)
  have entry: "nd_ok ?k ?n (?T ! l)" if "l < length ?T" for l using assms(1) that by (simp add: table_ok_def)
  let ?I = "\<lambda>j (rest, outs). nd_ok ?k ?n rest \<and> distinct (map fst outs) \<and> set (map fst outs) \<subseteq> set (take j ?links)
      \<and> (\<forall>(l, d) \<in> set outs. l < length ?T \<and> nd_ok ?k ?n d \<and> dests d \<noteq> {} \<and> dests d \<subseteq> dests (?T ! l))
      \<and> (\<Sum>(l, d) \<leftarrow> outs. mset_set (dests d)) + mset_set (dests rest) = mset_set (dests D)
      \<and> (\<forall>i < j. dests rest \<inter> dests (?T ! (?links ! i)) = {}) \<and> dests rest \<subseteq> dests D"
  have "\<exists>st. rfold (try_link e ps) [0..<j] (D, []) = Inr st \<and> ?I j st" if "j \<le> length ?T" for j
    using that
  proof (induction j)
    case 0
    then show ?case using assms(4) by simp
  next
    case (Suc j)
    then obtain rest outs where st: "rfold (try_link e ps) [0..<j] (D, []) = Inr (rest, outs)" and I: "?I j (rest, outs)"
      by auto
    have r: "nd_ok ?k ?n rest" using I by simp
    let ?l = "?links ! j"
    have j: "j < length ?T" "j < length ?links" using Suc.prems len by auto
    have l: "?l < length ?T" using links(1) nth_mem [OF j(2)] by blast
    have new: "?l \<notin> set (take j ?links)"
      using links(2) j(2) by (auto simp: in_set_conv_nth nth_eq_iff_index_eq simp del: nth_map)
    have tk: "set (take (Suc j) ?links) = insert ?l (set (take j ?links))"
      using j(2) by (simp add: take_Suc_conv_app_nth del: nth_map)
    have ne: "nd_intersectionIsNotEmpty rest (?T ! ?l) = Inr (dests rest \<inter> dests (?T ! ?l) \<noteq> {})"
      by (rule nd_intersection_ok(1) [OF r entry [OF l]])
    show ?case
    proof (cases "dests rest \<inter> dests (?T ! ?l) = {}")
      case True
      have "try_link e ps j (rest, outs) = Inr (rest, outs)"
        using ne True j len l by (simp add: try_link_def Let_def)
      then have "rfold (try_link e ps) [0..<Suc j] (D, []) = Inr (rest, outs)" using st by (simp add: rfold_append)
      moreover have "?I (Suc j) (rest, outs)" using I True unfolding tk by (auto simp: less_Suc_eq)
      ultimately show ?thesis by blast
    next
      case False
      obtain d where d: "nd_AND ?k ?n rest (?T ! ?l) = Inr d" "nd_ok ?k ?n d" "dests d = dests rest \<inter> dests (?T ! ?l)"
        using nd_AND_ok [OF r entry [OF l] assms(2,3)] by blast
      obtain rest' where r': "nd_removeNetDest (?T ! ?l) rest = Inr rest'" "nd_ok ?k ?n rest'"
          "dests rest' = dests rest - dests (?T ! ?l)"
        using nd_removeNetDest_ok [OF r entry [OF l]] by blast
      have "try_link e ps j (rest, outs) = Inr (rest', outs @ [(?l, d)])"
        using ne False d(1) r'(1) j len l by (simp add: try_link_def Let_def)
      then have run: "rfold (try_link e ps) [0..<Suc j] (D, []) = Inr (rest', outs @ [(?l, d)])"
        using st by (simp add: rfold_append)
      have "mset_set (dests rest) = mset_set (dests d) + mset_set (dests rest')"
        unfolding d(3) r'(3) by (rule mset_set_split [OF dests_finite [OF r]])
      then have sum: "(\<Sum>(l, d) \<leftarrow> outs @ [(?l, d)]. mset_set (dests d)) + mset_set (dests rest') = mset_set (dests D)"
        using I by (simp add: ac_simps)
      have "distinct (map fst (outs @ [(?l, d)]))" using I new by auto
      moreover have "set (map fst (outs @ [(?l, d)])) \<subseteq> set (take (Suc j) ?links)"
        using I unfolding tk by auto
      moreover have "\<forall>(l, d) \<in> set (outs @ [(?l, d)]). l < length ?T \<and> nd_ok ?k ?n d \<and> dests d \<noteq> {} \<and> dests d \<subseteq> dests (?T ! l)"
        using I l d(2,3) False by (auto simp del: nth_map)
      moreover have "\<forall>i < Suc j. dests rest' \<inter> dests (?T ! (?links ! i)) = {}" "dests rest' \<subseteq> dests D"
        using I unfolding r'(3) less_Suc_eq by blast+
      ultimately show ?thesis using run sum r'(2) by (intro exI [of _ "(rest', outs @ [(?l, d)])"]) simp
    qed
  qed
  from this [of "length ?T"] obtain rest outs where
    st: "rfold (try_link e ps) [0..<length ?T] (D, []) = Inr (rest, outs)" and I: "?I (length ?T) (rest, outs)" by auto
  have "dests rest = {}"
  proof (rule ccontr)
    assume "dests rest \<noteq> {}"
    then obtain x where x: "x \<in> dests rest" by blast
    then have "x \<in> dests D" using I by auto
    then obtain entry where "entry \<in> set ?T" "x \<in> dests entry" using assms(5) by blast
    then obtain l where l: "l < length ?T" "x \<in> dests (?T ! l)" by (auto simp: in_set_conv_nth)
    then have "l \<in> set ?links" using links(1) by simp
    then obtain i where i: "i < length ?links" "?links ! i = l" by (auto simp only: in_set_conv_nth)
    then have "dests rest \<inter> dests (?T ! l) = {}" using I len by auto
    then show False using x l(2) by blast
  qed
  moreover have "nd_count rest = Inr (card (dests rest))" using nd_count_ok I by blast
  ultimately show ?thesis using st I by (simp add: route_message_def shares_out_def)
qed

end
