(* ===== verification/Throttle.thy ===== *)
theory Throttle
  imports NetworkState
begin

text \<open>
  The throttle, ruby/network/simple/Throttle.C: it moves messages from the intermediate queues of a
  switch to the next buffers, at most the bandwidth of the link in a cycle, and remembers the units of
  a message that are still to be sent. The utilization, a \<open>double\<close> that is only printed, is left out.
\<close>

definition HIGH_RANGE :: int where "HIGH_RANGE = 256"

definition ADJUST_INTERVAL :: int where "ADJUST_INTERVAL = 50000"

definition MESSAGE_SIZE_MULTIPLIER :: int where "MESSAGE_SIZE_MULTIPLIER = 1000"

definition network_message_to_size :: "net_env \<Rightarrow> net_msg \<Rightarrow> int" where
  "network_message_to_size e m = MessageSizeType_to_int e (m_MessageSize m) * MESSAGE_SIZE_MULTIPLIER"

definition th_clearStats :: "throttle \<Rightarrow> throttle" where
  "th_clearStats t = t\<lparr>m_message_counters := map (\<lambda>xs. map (\<lambda>_. 0) xs) (m_message_counters t)\<rparr>"

definition Throttle :: "nat \<Rightarrow> nat \<Rightarrow> int \<Rightarrow> int \<Rightarrow> throttle result" where
  "Throttle sID node link_latency link_bandwidth_multiplier =
     check (link_bandwidth_multiplier > 0) Assert_failed (
     Inr (th_clearStats \<lparr>th_in = [], th_out = [], m_message_counters = [], m_vnets = 0, m_last_vnet = 0,
       m_units_remaining = [], th_sID = sID, th_node = node, m_bash_counter = HIGH_RANGE,
       m_bandwidth_since_sample = 0, m_last_bandwidth_sample = 0,
       m_link_bandwidth_multiplier = link_bandwidth_multiplier, m_link_latency = link_latency\<rparr>))"

definition addVirtualNetwork :: "nat \<Rightarrow> nat \<Rightarrow> nat \<Rightarrow> net_world \<Rightarrow> net_world result" where
  "addVirtualNetwork p in_ptr out_ptr w =
     (let t = nw_throttles (w_sys w) p
      in rbind (mb_setConsumer (Some (throttle_consumer p)) (the_buffer w in_ptr)) (\<lambda>x.
         Inr (set_throttle p (t\<lparr>m_units_remaining := m_units_remaining t @ [0], th_in := th_in t @ [in_ptr],
                th_out := th_out t @ [out_ptr], m_vnets := m_vnets t + 1\<rparr>) (set_buffer in_ptr x w))))"

definition addLinks :: "nat \<Rightarrow> nat list \<Rightarrow> nat list \<Rightarrow> net_world \<Rightarrow> net_world result" where
  "addLinks p in_vec out_vec w =
     check (length in_vec = length out_vec) Assert_failed (
     rbind (rfold (\<lambda>i w. rbind (lref i in_vec) (\<lambda>b. rbind (lref i out_vec) (\<lambda>b'. addVirtualNetwork p b b' w)))
              [0..<length in_vec] w) (\<lambda>w1.
     Inr (set_throttle p ((nw_throttles (w_sys w1) p)
            \<lparr>m_message_counters := replicate MessageSizeType_NUM (replicate (length in_vec) 0)\<rparr>) w1)))"

definition th_clear :: "nat \<Rightarrow> net_world \<Rightarrow> net_world result" where
  "th_clear p w =
     (let t = nw_throttles (w_sys w) p
      in rfold (\<lambda>counter w.
             rbind (lref counter (th_in t)) (\<lambda>b. rbind (mb_clear (the_buffer w b)) (\<lambda>x.
             let w1 = set_buffer b x w
             in rbind (lref counter (th_out t)) (\<lambda>b'. rbind (mb_clear (the_buffer w1 b')) (\<lambda>y.
                Inr (set_buffer b' y w1))))))
           [0..<m_vnets t] w)"

definition getLinkBandwidth :: "net_env \<Rightarrow> throttle \<Rightarrow> int" where
  "getLinkBandwidth e t = LINK_BANDWIDTH (params e) * m_link_bandwidth_multiplier t"

section \<open>wakeup\<close>

text \<open>Taking the next message, when nothing of the last one is left.\<close>

definition next_message :: "net_env \<Rightarrow> nat \<Rightarrow> nat \<Rightarrow> net_world \<Rightarrow> net_world result" where
  "next_message e p vnet w =
     (let t = nw_throttles (w_sys w) p
      in rbind (lref vnet (th_in t)) (\<lambda>b. rbind (lref vnet (th_out t)) (\<lambda>b'.
         rbind (net_peek w b) (\<lambda>msg.
         let m = the_message w msg
         in rbind (lput vnet (m_units_remaining t ! vnet + network_message_to_size e m) (m_units_remaining t)) (\<lambda>u.
            rbind (net_enqueue e b' msg (m_link_latency t) w) (\<lambda>w1.
            rbind (net_pop b w1) (\<lambda>w2.
            rbind (lref (m_MessageSize m) (m_message_counters t)) (\<lambda>row.
            rbind (lref vnet row) (\<lambda>k.
            Inr (set_throttle p (t\<lparr>m_units_remaining := u,
                   m_message_counters := (m_message_counters t)[m_MessageSize m := row[vnet := k + 1]]\<rparr>) w2))))))))))"

text \<open>One round of the loop over a virtual network: the state is \<open>bw_remaining\<close> and the world.\<close>

definition move_units :: "net_env \<Rightarrow> nat \<Rightarrow> nat \<Rightarrow> int \<times> net_world \<Rightarrow> (int \<times> net_world) result" where
  "move_units e p vnet st =
     (case st of (bw_remaining, w) \<Rightarrow>
        let t = nw_throttles (w_sys w) p
        in rbind (lref vnet (th_in t)) (\<lambda>b.
           rbind (lref vnet (m_units_remaining t)) (\<lambda>u.
           rbind (if u = 0 \<and> net_isReady w b then next_message e p vnet w else Inr w) (\<lambda>w1.
           let t1 = nw_throttles (w_sys w1) p
           in rbind (lref vnet (m_units_remaining t1)) (\<lambda>u1.
              let diff = u1 - bw_remaining
              in Inr (max 0 (- diff), set_throttle p (t1\<lparr>m_units_remaining := (m_units_remaining t1)[vnet := max 0 diff]\<rparr>) w1))))))"

definition can_move :: "nat \<Rightarrow> nat \<Rightarrow> int \<times> net_world \<Rightarrow> bool" where
  "can_move p vnet st =
     (case st of (bw_remaining, w) \<Rightarrow>
        let t = nw_throttles (w_sys w) p
        in bw_remaining > 0 \<and> (net_isReady w (th_in t ! vnet) \<or> m_units_remaining t ! vnet > 0)
           \<and> mb_areNSlotsAvailable 1 (the_buffer w (th_out t ! vnet)))"

definition throttle_vnet :: "net_env \<Rightarrow> nat \<Rightarrow> int \<times> net_world \<Rightarrow> (int \<times> net_world) result" where
  "throttle_vnet e p st =
     (case st of (bw_remaining, w) \<Rightarrow>
        if bw_remaining = 0 then Inr st
        else
          (let t = nw_throttles (w_sys w) p; vnet = m_last_vnet t;
               last = (if m_last_vnet t + 1 \<ge> m_vnets t then 0 else m_last_vnet t + 1);
               w1 = set_throttle p (t\<lparr>m_last_vnet := last\<rparr>) w
           in rbind (lref vnet (th_out t)) (\<lambda>_. rbind (lref vnet (th_in t)) (\<lambda>_.
              rbind (lref vnet (m_units_remaining t)) (\<lambda>u.
              check (u \<ge> 0) Assert_failed (
              rwhile (can_move p vnet) (move_units e p vnet) (bw_remaining, w1)))))))"

text \<open>The predictor: one step for every interval that has passed.\<close>

function adjust_bash :: "net_env \<Rightarrow> int \<Rightarrow> int \<Rightarrow> throttle \<Rightarrow> throttle" where
  "adjust_bash e bandwidth current_time t =
     (if current_time - m_last_bandwidth_sample t > ADJUST_INTERVAL then
        (let bash = (if over_threshold e (m_bandwidth_since_sample t) (ADJUST_INTERVAL * bandwidth)
                     then m_bash_counter t + 1 else m_bash_counter t - 1)
         in adjust_bash e bandwidth current_time
              (t\<lparr>m_bash_counter := max 0 (min HIGH_RANGE bash),
                 m_last_bandwidth_sample := m_last_bandwidth_sample t + ADJUST_INTERVAL,
                 m_bandwidth_since_sample := 0\<rparr>))
      else t)"
  by pat_completeness auto
termination
  by (relation "measure (\<lambda>(e, bandwidth, current_time, t). nat (current_time - m_last_bandwidth_sample t))")
    (auto simp: ADJUST_INTERVAL_def)

declare adjust_bash.simps [simp del]

definition throttle_wakeup :: "net_env \<Rightarrow> nat \<Rightarrow> net_world \<Rightarrow> net_world result" where
  "throttle_wakeup e p w =
     (let bandwidth = getLinkBandwidth e (nw_throttles (w_sys w) p)
      in check (bandwidth > 0) Assert_failed (
         rbind (rfold (\<lambda>counter. throttle_vnet e p) [0..<m_vnets (nw_throttles (w_sys w) p)] (bandwidth, w))
           (\<lambda>(bw_remaining, w1).
         let t = nw_throttles (w_sys w1) p;
             t' = adjust_bash e bandwidth (w_time w1)
                    (t\<lparr>m_bandwidth_since_sample := m_bandwidth_since_sample t + (bandwidth - bw_remaining)\<rparr>);
             w2 = set_throttle p t' w1
         in if bw_remaining > 0 then Inr w2
            else scheduleEvent (Some (throttle_consumer p)) 1 w2)))"

definition broadcastBandwidthAvailable :: "nat \<Rightarrow> throttle \<Rightarrow> bool" where
  "broadcastBandwidthAvailable rand t \<longleftrightarrow>
     \<not> (m_bash_counter t > HIGH_RANGE div 4 + int rand mod (HIGH_RANGE div 2))"

end
