(* ===== verification/SimpleNetwork.thy ===== *)
theory SimpleNetwork
  imports PerfectSwitch Throttle
begin

text \<open>
  The switch (ruby/network/simple/Switch.C): a perfect switch and a throttle for every output port,
  with intermediate buffers between them; and the network (SimpleNetwork.C), which creates the buffers
  of the nodes, the switches and, called by the topology's \<open>createLinks\<close>, the links.
\<close>

section \<open>Switch\<close>

definition sw_addInPort :: "net_switch \<Rightarrow> nat list \<Rightarrow> net_world \<Rightarrow> net_world result" where
  "sw_addInPort sw ins = ps_addInPort (m_perfect_switch_ptr sw) ins"

text \<open>New ordered buffers, one for each virtual network.\<close>

definition ordered_buffers :: "nat \<Rightarrow> net_world \<Rightarrow> nat list \<times> net_world" where
  "ordered_buffers n w =
     fold (\<lambda>i (bs, w). case new_buffer mb_init w of (b, w1) \<Rightarrow>
         (bs @ [b], set_buffer b (mb_setOrdering True (the_buffer w1 b)) w1)) [0..<n] ([], w)"

definition sw_addOutPort ::
  "net_switch \<Rightarrow> nat list \<Rightarrow> net_dest \<Rightarrow> int \<Rightarrow> int \<Rightarrow> net_world \<Rightarrow> (net_switch \<times> net_world) result" where
  "sw_addOutPort sw outs routing_table_entry link_latency bw_multiplier w =
     rbind (Throttle (ps_switch_id (nw_perfect (w_sys w) (m_perfect_switch_ptr sw))) (length (m_throttles sw))
              link_latency bw_multiplier) (\<lambda>t.
     let p = nw_next_throttle (w_sys w);
         w1 = upd_net (\<lambda>s. s\<lparr>nw_throttles := (nw_throttles s)(p := t), nw_next_throttle := p + 1\<rparr>) w;
         sw' = sw\<lparr>m_throttles := m_throttles sw @ [p]\<rparr>
     in case ordered_buffers (length outs) w1 of (intermediateBuffers, w2) \<Rightarrow>
          rbind (ps_addOutPort (m_perfect_switch_ptr sw) intermediateBuffers routing_table_entry w2) (\<lambda>w3.
          rbind (addLinks p intermediateBuffers outs w3) (\<lambda>w4. Inr (sw', w4))))"

definition getThrottle :: "nat \<Rightarrow> net_switch \<Rightarrow> nat result" where
  "getThrottle link_number sw = lref link_number (m_throttles sw)"

section \<open>Links\<close>

definition on_switch ::
  "nat \<Rightarrow> (net_switch \<Rightarrow> net_world \<Rightarrow> (net_switch \<times> net_world) result) \<Rightarrow> net_world \<Rightarrow> net_world result" where
  "on_switch i f w =
     rbind (lref i (m_switch_ptr_vector (w_sys w))) (\<lambda>sw.
     rbind (f sw w) (\<lambda>(sw', w').
     rbind (lput i sw' (m_switch_ptr_vector (w_sys w'))) (\<lambda>sws.
     Inr (upd_net (\<lambda>s. s\<lparr>m_switch_ptr_vector := sws\<rparr>) w'))))"

definition makeOutLink ::
  "nat \<Rightarrow> nat \<Rightarrow> net_dest \<Rightarrow> int \<Rightarrow> int \<Rightarrow> net_world \<Rightarrow> net_world result" where
  "makeOutLink src dest routing_table_entry link_latency bw_multiplier w =
     check (dest < sn_nodes (w_sys w)) Assert_failed (
     check (src < length (m_switch_ptr_vector (w_sys w))) Assert_failed (
     rbind (lref dest (m_fromNetQueues (w_sys w))) (\<lambda>queues.
     rbind (on_switch src (\<lambda>sw. sw_addOutPort sw queues routing_table_entry link_latency bw_multiplier) w) (\<lambda>w1.
     rbind (lput dest (Some src) (m_endpoint_switches (w_sys w1))) (\<lambda>es.
     Inr (upd_net (\<lambda>s. s\<lparr>m_endpoint_switches := es\<rparr>) w1))))))"

definition makeInLink ::
  "nat \<Rightarrow> nat \<Rightarrow> net_dest \<Rightarrow> int \<Rightarrow> int \<Rightarrow> net_world \<Rightarrow> net_world result" where
  "makeInLink src dest routing_table_entry link_latency bw_multiplier w =
     check (src < sn_nodes (w_sys w)) Assert_failed (
     rbind (lref src (m_toNetQueues (w_sys w))) (\<lambda>queues.
     on_switch dest (\<lambda>sw w. rbind (sw_addInPort sw queues w) (\<lambda>w'. Inr (sw, w'))) w))"

definition makeInternalLink ::
  "nat \<Rightarrow> nat \<Rightarrow> net_dest \<Rightarrow> int \<Rightarrow> int \<Rightarrow> net_world \<Rightarrow> net_world result" where
  "makeInternalLink src dest routing_table_entry link_latency bw_multiplier w =
     (case ordered_buffers (sn_virtual_networks (w_sys w)) w of (queues, w1) \<Rightarrow>
        rbind (on_switch dest (\<lambda>sw w. rbind (sw_addInPort sw queues w) (\<lambda>w'. Inr (sw, w'))) w1) (\<lambda>w2.
        on_switch src (\<lambda>sw. sw_addOutPort sw queues routing_table_entry link_latency bw_multiplier) w2))"

text \<open>\<open>Topology::makeLink\<close>.\<close>

definition makeLink ::
  "nat \<Rightarrow> nat \<Rightarrow> nat \<Rightarrow> net_dest \<Rightarrow> int \<Rightarrow> int \<Rightarrow> net_world \<Rightarrow> net_world result" where
  "makeLink nodes src dest routing_table_entry link_latency bw_multiplier w =
     check (src \<ge> 2 * nodes \<or> dest \<ge> 2 * nodes) Assert_failed (
     if src < nodes then makeInLink src (dest - 2 * nodes) routing_table_entry link_latency bw_multiplier w
     else if dest < 2 * nodes then
       check (dest \<ge> nodes) Assert_failed (
       makeOutLink (src - 2 * nodes) (dest - nodes) routing_table_entry link_latency bw_multiplier w)
     else
       check (src \<ge> 2 * nodes \<and> dest \<ge> 2 * nodes) Assert_failed (
       makeInternalLink (src - 2 * nodes) (dest - 2 * nodes) routing_table_entry link_latency bw_multiplier w))"

section \<open>The network\<close>

text \<open>The buffers of one node and the switches.\<close>

definition plain_buffers :: "nat \<Rightarrow> net_world \<Rightarrow> (nat list \<times> nat list) \<times> net_world" where
  "plain_buffers n w =
     fold (\<lambda>j ((ts, fs), w). case new_buffer mb_init w of (t, w1) \<Rightarrow> case new_buffer mb_init w1 of (f, w2) \<Rightarrow>
         ((ts @ [t], fs @ [f]), w2)) [0..<n] (([], []), w)"

definition node_queues :: "nat \<Rightarrow> nat \<Rightarrow> net_world \<Rightarrow> net_world" where
  "node_queues vnets node w =
     (case plain_buffers vnets w of ((ts, fs), w1) \<Rightarrow>
        upd_net (\<lambda>s. s\<lparr>m_toNetQueues := (m_toNetQueues s)[node := ts],
                       m_fromNetQueues := (m_fromNetQueues s)[node := fs]\<rparr>) w1)"

definition new_switch :: "net_env \<Rightarrow> nat \<Rightarrow> net_world \<Rightarrow> net_world" where
  "new_switch e i = upd_net (\<lambda>s. s\<lparr>nw_perfect := (nw_perfect s)(i := PerfectSwitch e i),
     m_switch_ptr_vector := m_switch_ptr_vector s @ [\<lparr>m_perfect_switch_ptr = i, m_throttles = []\<rparr>]\<rparr>)"

definition SimpleNetwork :: "net_env \<Rightarrow> net_world \<Rightarrow> net_world result" where
  "SimpleNetwork e w0 =
     (let nodes = NUM_NODES (params e) * MachineType_NUM (params e);
          vnets = NUMBER_OF_VIRTUAL_NETWORKS (params e);
          w1 = upd_net (\<lambda>s. s\<lparr>sn_nodes := nodes, sn_virtual_networks := vnets,
                 m_endpoint_switches := replicate nodes None,
                 m_in_use := replicate vnets False, m_ordered := replicate vnets False,
                 m_toNetQueues := replicate nodes [], m_fromNetQueues := replicate nodes [],
                 m_switch_ptr_vector := []\<rparr>) w0;
          w2 = fold (node_queues vnets) [0..<nodes] w1
      in rbind (Topology (params e) nodes) (\<lambda>t.
         let w3 = fold (new_switch e) [0..<m_number_of_switches t] w2
         in createLinks (params e) t (makeLink nodes) w3))"

definition checkNetworkAllocation :: "bool \<Rightarrow> nat \<Rightarrow> net_world \<Rightarrow> net_world result" where
  "checkNetworkAllocation ordered network_num w =
     (let s = w_sys w
      in check (network_num < sn_virtual_networks s) Assert_failed (
         rbind (if ordered then lput network_num True (m_ordered s) else Inr (m_ordered s)) (\<lambda>os.
         rbind (lput network_num True (m_in_use s)) (\<lambda>us.
         Inr (upd_net (\<lambda>s. s\<lparr>m_ordered := os, m_in_use := us\<rparr>) w)))))"

definition queue_of ::
  "(network \<Rightarrow> nat list list) \<Rightarrow> net_env \<Rightarrow> nat \<Rightarrow> nat \<Rightarrow> bool \<Rightarrow> nat \<Rightarrow> net_world \<Rightarrow> (nat \<times> net_world) result" where
  "queue_of queues e machine node ordered network_num w =
     rbind (checkNetworkAllocation ordered network_num w) (\<lambda>w1.
     rbind (lref (machine + node * MachineType_NUM (params e)) (queues (w_sys w1))) (\<lambda>qs.
     rbind (lref network_num qs) (\<lambda>b. Inr (b, w1))))"

definition getToNetQueue :: "net_env \<Rightarrow> nat \<Rightarrow> nat \<Rightarrow> bool \<Rightarrow> nat \<Rightarrow> net_world \<Rightarrow> (nat \<times> net_world) result" where
  "getToNetQueue = queue_of m_toNetQueues"

definition getFromNetQueue :: "net_env \<Rightarrow> nat \<Rightarrow> nat \<Rightarrow> bool \<Rightarrow> nat \<Rightarrow> net_world \<Rightarrow> (nat \<times> net_world) result" where
  "getFromNetQueue = queue_of m_fromNetQueues"

definition isVNetOrdered :: "nat \<Rightarrow> net_world \<Rightarrow> bool result" where
  "isVNetOrdered vnet w = lref vnet (m_ordered (w_sys w))"

definition validVirtualNetwork :: "nat \<Rightarrow> net_world \<Rightarrow> bool result" where
  "validVirtualNetwork vnet w = lref vnet (m_in_use (w_sys w))"

definition getThrottles :: "nat \<Rightarrow> net_world \<Rightarrow> nat list result" where
  "getThrottles node w =
     check (node < sn_nodes (w_sys w)) Assert_failed (
     rbind (lref node (m_endpoint_switches (w_sys w))) (\<lambda>es.
     case es of None \<Rightarrow> Inl Assert_failed
     | Some i \<Rightarrow> rbind (lref i (m_switch_ptr_vector (w_sys w))) (\<lambda>sw. Inr (m_throttles sw))))"

text \<open>The wakeup of a consumer, by its pointer; those of the rest of the system are \<open>other\<close>.\<close>

definition net_wakeup ::
  "net_env \<Rightarrow> (nat \<Rightarrow> net_world \<Rightarrow> net_world result) \<Rightarrow> nat \<Rightarrow> net_world \<Rightarrow> net_world result" where
  "net_wakeup e other k w =
     (if k mod 3 = 0 then ps_wakeup e (k div 3) w
      else if k mod 3 = 1 then throttle_wakeup e (k div 3) w
      else other k w)"

end
