(* ===== verification/NetworkEvents.thy ===== *)
theory NetworkEvents
  imports PerfectSwitch Throttle
begin

text \<open>
  The consumers of the simple network as clients of the event queue: the perfect switches, the throttles and
  the nodes. Their wakeups change the network and schedule events, always in the future, through
  \<open>MessageBuffer::enqueue\<close> or by themselves; so they keep the contract \<open>event_client\<close>.
\<close>

section \<open>The wakeups\<close>

text \<open>A node is a controller of the protocol, which is generated: its wakeup is any sequence of sends, receives and
  changes of its own objects, the argument \<open>nodes\<close>.\<close>

datatype node_op = Change "network \<Rightarrow> network" | Send nat nat int | Take nat

fun node_do :: "net_env \<Rightarrow> node_op \<Rightarrow> net_world \<Rightarrow> net_world result" where
  "node_do e (Change f) w = Inr (upd_net f w)"
| "node_do e (Send b msg delta) w = net_enqueue e b msg delta w"
| "node_do e (Take b) w = net_pop b w"

definition net_wake :: "net_env \<Rightarrow> (nat \<Rightarrow> net_world \<Rightarrow> node_op list) \<Rightarrow> nat \<Rightarrow> net_world \<Rightarrow> net_world result" where
  "net_wake e nodes k w =
     (if k mod 3 = 0 then ps_wakeup e (k div 3) w
      else if k mod 3 = 1 then throttle_wakeup e (k div 3) w
      else rfold (node_do e) (nodes (k div 3) w) w)"

lemma net_wake_consumers:
  "net_wake e nodes (switch_consumer p) = ps_wakeup e p"
  "net_wake e nodes (throttle_consumer p) = throttle_wakeup e p"
proof -
  have "(3 * p + 1) mod 3 = 1" "(3 * p + 1) div 3 = p" by presburger+
  then show "net_wake e nodes (switch_consumer p) = ps_wakeup e p"
    "net_wake e nodes (throttle_consumer p) = throttle_wakeup e p"
    by (simp_all add: net_wake_def switch_consumer_def throttle_consumer_def fun_eq_iff)
qed

section \<open>What they do to the queue\<close>

lemma reach_upd [simp, intro]: "sched_reach w (upd_net f w)"
  unfolding upd_net_def by (rule sched_reach.local [OF sched_reach.stay])

lemma reach_sets [simp, intro]:
  "sched_reach w (set_buffer b x w)" "sched_reach w (set_message m y w)"
  "sched_reach w (set_perfect p z w)" "sched_reach w (set_throttle p u w)"
  by (simp_all add: set_buffer_def set_message_def set_perfect_def set_throttle_def)

lemma reach_draws:
  "draw w = (r, w') \<Longrightarrow> sched_reach w w'" "clone_message m w = (n, w') \<Longrightarrow> sched_reach w w'"
  by (auto simp: draw_def clone_message_def Let_def)

lemma reach_after_set:
  "sched_reach w w' \<Longrightarrow> sched_reach w (upd_net f w')" "sched_reach w w' \<Longrightarrow> sched_reach w (set_buffer b x w')"
  "sched_reach w w' \<Longrightarrow> sched_reach w (set_message m y w')" "sched_reach w w' \<Longrightarrow> sched_reach w (set_perfect p z w')"
  "sched_reach w w' \<Longrightarrow> sched_reach w (set_throttle p u w')"
  by (auto intro: sched_reach_trans)

lemma reach_schedule:
  "sched_reach w w' \<Longrightarrow> scheduleEvent c d w' = Inr w'' \<Longrightarrow> sched_reach w w''"
  unfolding scheduleEvent_def by (rule sched_reach.sched)

lemma mb_enqueue_reach: "mb_enqueue R rnd m d w b = Inr (b', w') \<Longrightarrow> sched_reach w w'"
  by (auto simp: mb_enqueue_def Let_def rbind_eq_Inr split: prod.splits
      intro: sched_reach.sched [OF sched_reach.stay])

lemma net_enqueue_reach:
  assumes "sched_reach w0 w" "net_enqueue e b msg delta w = Inr w'"
  shows "sched_reach w0 w'"
proof -
  obtain x w1 where "mb_enqueue (RANDOMIZATION (params e)) (nw_random (w_sys w) (nw_draws (w_sys w)),
      nw_random (w_sys w) (nw_draws (w_sys w) + 1), nw_random (w_sys w) (nw_draws (w_sys w) + 2)) msg delta w
      (the_buffer w b) = Inr (x, w1)"
    "w' = upd_net (\<lambda>s. s\<lparr>nw_draws := nw_draws (w_sys w) + 3\<rparr>) (set_buffer b x w1)"
    using assms(2) by (auto simp: net_enqueue_def Let_def rbind_eq_Inr)
  then show ?thesis using sched_reach_trans [OF mb_enqueue_reach assms(1)] by (auto intro!: reach_after_set)
qed

lemma net_pop_reach: "sched_reach w0 w \<Longrightarrow> net_pop b w = Inr w' \<Longrightarrow> sched_reach w0 w'"
  by (auto simp: net_pop_def rbind_eq_Inr intro: reach_after_set)

subsection \<open>The switches\<close>

lemma queue_length_reach:
  assumes "sched_reach w0 w" "queue_length n outs w = Inr (len, w')"
  shows "sched_reach w0 w'"
proof -
  have "sched_reach w0 (snd (len, w'))"
    using assms(2) unfolding queue_length_def
  proof (rule rfold_invariant)
    show "sched_reach w0 (snd (0, w))" using assms(1) by simp
    fix v s t
    assume "sched_reach w0 (snd s)" and
      "(\<lambda>(len, w). rbind (lref v outs) (\<lambda>b. case mb_getSize w (the_buffer w b) of
         (sz, x) \<Rightarrow> Inr (len + sz, set_buffer b x w))) s = Inr t"
    then show "sched_reach w0 (snd t)"
      by (auto simp: rbind_eq_Inr case_prod_beta intro: reach_after_set)
  qed
  then show ?thesis by simp
qed

lemma clogged_link_reach:
  assumes "sched_reach w0 w" "clogged_link p l w = Inr w'"
  shows "sched_reach w0 w'"
proof -
  obtain outs len w1 where q: "lref l (ps_out (nw_perfect (w_sys w) p)) = Inr outs"
    "queue_length (ps_virtual_networks (nw_perfect (w_sys w) p)) outs w = Inr (len, w1)"
    using assms(2) by (auto simp: clogged_link_def Let_def rbind_eq_Inr)
  obtain r w2 where d: "draw w1 = (r, w2)" by force
  obtain lo where w': "w' = set_perfect p (nw_perfect (w_sys w) p\<lparr>m_link_order := lo\<rparr>) w2"
    using assms(2) by (auto simp: clogged_link_def Let_def rbind_eq_Inr q d)
  from sched_reach_trans [OF reach_draws(1) [OF d] queue_length_reach [OF assms(1) q(2)]]
  show ?thesis unfolding w' by (rule reach_after_set)
qed

lemma order_links_reach:
  assumes "sched_reach w0 w" "order_links e p vnet w = Inr w'"
  shows "sched_reach w0 w'"
proof -
  have c: "sched_reach w0 w1" if "rfold (clogged_link p) xs w = Inr w1" for xs w1
    using that assms(1) by (rule rfold_invariant) (rule clogged_link_reach)
  show ?thesis using assms
    by (auto simp: order_links_def Let_def rbind_eq_Inr split: if_splits intro: reach_after_set c)
qed

lemma send_copy_reach:
  assumes "sched_reach w0 w" "send_copy e p vnet output (i, m, w) = Inr (i', m', w')"
  shows "sched_reach w0 w'"
proof -
  obtain outgoing d where o: "output = (outgoing, d)" by force
  obtain msg w1 where m: "(if i > 0 then clone_message m w else (m, w)) = (msg, w1)" by force
  have "sched_reach w0 w1"
    using m assms(1) by (auto split: if_splits dest: reach_draws(2) intro: sched_reach_trans)
  moreover obtain b y where "net_enqueue e b msg 1 (set_message msg y w1) = Inr w'"
    using assms(2) by (auto simp: send_copy_def Let_def rbind_eq_Inr o m)
  ultimately show ?thesis using net_enqueue_reach [OF reach_after_set(3)] by blast
qed

lemma pass_message_reach:
  assumes "sched_reach w0 w" "pass_message e p vnet b w = Inr (stop, w')"
  shows "sched_reach w0 w'"
proof -
  obtain msg_ptr where m0: "net_peek w b = Inr msg_ptr"
    using assms(2) by (auto simp: pass_message_def rbind_eq_Inr)
  obtain dests m where m: "getInternalDestination (the_message w msg_ptr) = (dests, m)" by force

  let ?w1 = "set_message msg_ptr m w"
  obtain w2 where s: "order_links e p vnet ?w1 = Inr w2"
    using assms(2) by (auto simp: pass_message_def rbind_eq_Inr m0 m Let_def)
  obtain outputs where o: "route_message e (nw_perfect (w_sys w2) p) dests = Inr outputs"
    using assms(2) by (auto simp: pass_message_def rbind_eq_Inr m0 m Let_def s)
  obtain enough where n: "enough_slots p vnet outputs w2 = Inr enough"
    using assms(2) by (auto simp: pass_message_def rbind_eq_Inr m0 m Let_def s o)
  have r: "(if \<not> enough then rbind (scheduleEvent (Some (switch_consumer p)) 1 w2) (\<lambda>w3. Inr (True, w3))
     else rbind (rfold (send_copy e p vnet) outputs (0, msg_ptr, w2)) (\<lambda>(i, msg, w3).
       rbind (net_pop b w3) (\<lambda>w4. Inr (False, w4)))) = Inr (stop, w')"
    using assms(2) by (simp add: pass_message_def m0 m Let_def s o n check_eq_Inr split: if_splits)
  have w2: "sched_reach w0 w2" by (rule order_links_reach [OF reach_after_set(3) [OF assms(1)] s])
  have c: "sched_reach w0 (snd (snd x))" if "rfold (send_copy e p vnet) outputs (0, msg_ptr, w2) = Inr x" for x
    using that by (rule rfold_invariant) (use w2 send_copy_reach in fastforce)+
  show ?thesis
  proof (cases enough)
    case True
    then show ?thesis using r c by (auto simp: rbind_eq_Inr intro: net_pop_reach)
  next
    case False
    then show ?thesis using r by (auto simp: rbind_eq_Inr intro: reach_schedule [OF w2])
  qed
qed

lemma switch_port_reach:
  assumes "sched_reach w0 w" "switch_port e p vnet incoming w = Inr w'"
  shows "sched_reach w0 w'"
proof -
  obtain b stop where r: "rwhile (\<lambda>(stop, w). \<not> stop \<and> net_isReady w b) (\<lambda>(stop, w). pass_message e p vnet b w) (False, w)
      = Inr (stop, w')"
    using assms(2) by (auto simp: switch_port_def rbind_eq_Inr split: prod.splits)
  have "sched_reach w0 (snd (stop, w'))"
    using rwhile_invariant [OF r, of "\<lambda>x. sched_reach w0 (snd x)"] assms(1) pass_message_reach by fastforce
  then show ?thesis by simp
qed

lemma switch_vnet_reach:
  assumes "sched_reach w0 w" "switch_vnet e p vnet w = Inr w'"
  shows "sched_reach w0 w'"
proof -
  let ?ps = "nw_perfect (w_sys w) p"
  let ?n = "length (ps_in ?ps)"
  let ?next = "\<lambda>i. if i + 1 \<ge> ?n then 0 else i + 1"
  obtain k where r: "rfold (\<lambda>counter (incoming, w). rbind (switch_port e p vnet (?next incoming) w) (\<lambda>w'. Inr (?next incoming, w')))
      [0..<?n] (m_round_robin_start ?ps, set_perfect p (?ps\<lparr>m_round_robin_start := ?next (m_round_robin_start ?ps)\<rparr>) w) = Inr (k, w')"
    using assms(2) by (auto simp: switch_vnet_def Let_def rbind_eq_Inr split: prod.splits)
  have "sched_reach w0 (snd (k, w'))"
    using r
  proof (rule rfold_invariant)
    show "sched_reach w0 (snd (m_round_robin_start ?ps, set_perfect p (?ps\<lparr>m_round_robin_start := ?next (m_round_robin_start ?ps)\<rparr>) w))"
      using assms(1) by (simp add: reach_after_set)
    fix x s t
    assume "sched_reach w0 (snd s)" and
      "(\<lambda>(incoming, w). rbind (switch_port e p vnet (?next incoming) w) (\<lambda>w'. Inr (?next incoming, w'))) s = Inr t"
    then show "sched_reach w0 (snd t)"
      by (cases s) (auto simp: rbind_eq_Inr simp del: One_nat_def intro: switch_port_reach)
  qed
  then show ?thesis by simp
qed

lemma ps_wakeup_reach: "ps_wakeup e p w = Inr w' \<Longrightarrow> sched_reach w w'"
  unfolding ps_wakeup_def
  by (erule rfold_invariant) (auto intro: sched_reach.stay switch_vnet_reach)

subsection \<open>The throttles\<close>

lemma next_message_reach:
  assumes "sched_reach w0 w" "next_message e p vnet w = Inr w'"
  shows "sched_reach w0 w'"
  using assms by (auto simp: next_message_def Let_def rbind_eq_Inr intro!: reach_after_set(5)
      elim!: net_pop_reach [rotated] net_enqueue_reach [rotated])

lemma move_units_reach:
  assumes "sched_reach w0 w" "move_units e p vnet (n, w) = Inr (n', w')"
  shows "sched_reach w0 w'"
  using assms by (auto simp: move_units_def Let_def rbind_eq_Inr intro!: reach_after_set(5)
      split: if_splits elim!: next_message_reach [rotated])

lemma throttle_vnet_reach:
  assumes "sched_reach w0 w" "throttle_vnet e p (n, w) = Inr (n', w')"
  shows "sched_reach w0 w'"
proof (cases "n = 0")
  case True
  then show ?thesis using assms by (simp add: throttle_vnet_def)
next
  case False
  then obtain vnet u where r: "rwhile (can_move p vnet) (move_units e p vnet) (n, set_throttle p u w) = Inr (n', w')"
    using assms(2) by (auto simp: throttle_vnet_def Let_def rbind_eq_Inr)
  have "sched_reach w0 (snd (n', w'))"
    using rwhile_invariant [OF r, of "\<lambda>x. sched_reach w0 (snd x)"] assms(1) move_units_reach
    by (fastforce intro: reach_after_set)
  then show ?thesis by simp
qed

lemma throttle_wakeup_reach:
  assumes "throttle_wakeup e p w = Inr w'"
  shows "sched_reach w w'"
proof -
  let ?bw = "getLinkBandwidth e (nw_throttles (w_sys w) p)"
  obtain n w1 u where r: "rfold (\<lambda>counter. throttle_vnet e p) [0..<m_vnets (nw_throttles (w_sys w) p)] (?bw, w) = Inr (n, w1)"
    "(if n > 0 then Inr (set_throttle p u w1) else scheduleEvent (Some (throttle_consumer p)) 1 (set_throttle p u w1)) = Inr w'"
    using assms by (auto simp: throttle_wakeup_def Let_def rbind_eq_Inr)
  have "sched_reach w (snd (n, w1))"
    using r(1) by (rule rfold_invariant) (use sched_reach.stay throttle_vnet_reach in fastforce)+
  then show ?thesis using r(2) by (auto split: if_splits intro: reach_after_set reach_schedule)
qed

subsection \<open>The contract of the event queue\<close>

lemma node_do_reach: "sched_reach w0 w \<Longrightarrow> node_do e x w = Inr w' \<Longrightarrow> sched_reach w0 w'"
  by (cases x) (auto intro: reach_after_set net_enqueue_reach net_pop_reach)

lemma nodes_reach: "rfold (node_do e) xs w = Inr w' \<Longrightarrow> sched_reach w w'"
  by (erule rfold_invariant) (auto intro: sched_reach.stay node_do_reach)

lemma net_wake_reach: "net_wake e nodes k w = Inr w' \<Longrightarrow> sched_reach w w'"
  by (auto simp: net_wake_def split: if_splits intro: ps_wakeup_reach throttle_wakeup_reach nodes_reach)

interpretation net_client: event_client "net_wake e nodes" for e nodes
  by unfold_locales (rule net_wake_reach)

end
