(* ===== verification/TreeNetwork.thy ===== *)
theory TreeNetwork
  imports Topology
begin

text \<open>
  The tree of switches that \<open>makeHierarchicalSwitch\<close> builds for the hierarchical network and the
  crossbar: both loops end when every switch has at least two children, and every link into the
  network is connected with every link out of it by a path over the root.
\<close>

section \<open>Links as a relation\<close>

definition link_set :: "topology \<Rightarrow> (nat \<times> nat) set" where
  "link_set t = set (zip (m_links_src_vector t) (m_links_dest_vector t))"

text \<open>The direction of a half of the network: towards the root or from it.\<close>

definition edge :: "bool \<Rightarrow> nat \<Rightarrow> nat \<Rightarrow> nat \<times> nat" where
  "edge up a b = (if up then (a, b) else (b, a))"

definition half :: "bool \<Rightarrow> topology \<Rightarrow> (nat \<times> nat) set" where
  "half up t = {(a, b). edge up a b \<in> link_set t}"

text \<open>What holds of the links while the topology is built: the latencies and bandwidths, and that a
  link goes from an input to a switch, between switches, or from a switch to an output.\<close>

definition is_switch :: "topology \<Rightarrow> nat \<Rightarrow> bool" where
  "is_switch t s \<longleftrightarrow> 2 * m_nodes t \<le> s \<and> s < 2 * m_nodes t + m_number_of_switches t"

definition link_ends_ok :: "topology \<Rightarrow> nat \<times> nat \<Rightarrow> bool" where
  "link_ends_ok t e \<longleftrightarrow> fst e \<noteq> snd e \<and>
     (is_switch t (fst e) \<and> is_switch t (snd e) \<or> fst e < m_nodes t \<and> is_switch t (snd e)
       \<or> is_switch t (fst e) \<and> m_nodes t \<le> snd e \<and> snd e < 2 * m_nodes t)"

definition top_ok :: "net_params \<Rightarrow> topology \<Rightarrow> bool" where
  "top_ok c t \<longleftrightarrow> links_ok t \<and> (\<forall>e \<in> link_set t. link_ends_ok t e)
     \<and> (\<forall>l \<in> set (m_links_latency_vector t). l \<le> NETWORK_LINK_LATENCY c)"

definition extends :: "topology \<Rightarrow> topology \<Rightarrow> bool" where
  "extends t t' \<longleftrightarrow> m_nodes t' = m_nodes t \<and> m_number_of_switches t \<le> m_number_of_switches t'
     \<and> link_set t \<subseteq> link_set t'"

lemma extends_refl [simp]: "extends t t"
  by (simp add: extends_def)

lemma extends_trans [trans]: "extends t1 t2 \<Longrightarrow> extends t2 t3 \<Longrightarrow> extends t1 t3"
  by (auto simp: extends_def)

lemma extends_switch: "extends t t' \<Longrightarrow> is_switch t s \<Longrightarrow> is_switch t' s"
  by (auto simp: extends_def is_switch_def)

lemma extends_half: "extends t t' \<Longrightarrow> half up t \<subseteq> half up t'"
  by (auto simp: extends_def half_def)

lemma newSwitchID_ok:
  assumes "newSwitchID t = (s, t')"
  shows "is_switch t' s" "\<not> is_switch t s" "extends t t'" "top_ok c t \<Longrightarrow> top_ok c t'" "link_set t' = link_set t"
proof -
  have s: "s = m_number_of_switches t + 2 * m_nodes t" "t' = t\<lparr>m_number_of_switches := m_number_of_switches t + 1\<rparr>"
    using assms by (auto simp: newSwitchID_def)
  show e: "link_set t' = link_set t" "is_switch t' s" "\<not> is_switch t s" "extends t t'"
    by (auto simp: s link_set_def is_switch_def extends_def)
  show "top_ok c t \<Longrightarrow> top_ok c t'"
    unfolding top_ok_def e(1) by (auto simp: links_ok_def link_ends_ok_def is_switch_def s(2))
qed

definition latency_ok :: "net_params \<Rightarrow> bool" where
  "latency_ok c \<longleftrightarrow> 0 < NETWORK_LINK_LATENCY c \<and> NETWORK_LINK_LATENCY c < INFINITE_LATENCY"

lemma addLink_ok:
  assumes "top_ok c t" "link_ends_ok t (a, b)" "0 < l" "l \<le> NETWORK_LINK_LATENCY c" "latency_ok c" "0 < w"
  shows "\<exists>t'. addLink a b l w t = Inr t' \<and> top_ok c t' \<and> extends t t'
    \<and> m_number_of_switches t' = m_number_of_switches t \<and> link_set t' = insert (a, b) (link_set t)"
proof -
  let ?t = "t\<lparr>m_links_src_vector := m_links_src_vector t @ [a], m_links_dest_vector := m_links_dest_vector t @ [b],
     m_links_latency_vector := m_links_latency_vector t @ [l], m_bw_multiplier_vector := m_bw_multiplier_vector t @ [w]\<rparr>"
  have len: "length (m_links_dest_vector t) = length (m_links_src_vector t)"
    using assms(1) by (simp add: top_ok_def links_ok_def)
  have ls: "link_set ?t = insert (a, b) (link_set t)" by (simp add: link_set_def len)
  have "addLink a b l w t = Inr ?t"
    using assms(2) by (auto simp: addLink_def link_ends_ok_def is_switch_def)
  moreover have "links_ok ?t"
    using assms by (auto simp: top_ok_def links_ok_def nth_append less_Suc_eq latency_ok_def link_ends_ok_def)
  then have "top_ok c ?t" using assms(1,2,4)
    unfolding top_ok_def ls by (auto simp: link_ends_ok_def is_switch_def)
  ultimately show ?thesis by (auto simp: extends_def ls is_switch_def)
qed

text \<open>The contract of the two functions that add a link between a lower and an upper end.\<close>

definition adds_link :: "net_params \<Rightarrow> bool \<Rightarrow> (nat \<Rightarrow> nat \<Rightarrow> topology \<Rightarrow> topology result) \<Rightarrow> bool" where
  "adds_link c up link \<longleftrightarrow> (\<forall>a b t. top_ok c t \<and> link_ends_ok t (edge up a b) \<longrightarrow>
     (\<exists>t'. link a b t = Inr t' \<and> top_ok c t' \<and> extends t t'
        \<and> m_number_of_switches t' = m_number_of_switches t \<and> link_set t' = insert (edge up a b) (link_set t)))"

lemma adds_link_instances:
  assumes "latency_ok c"
  shows "adds_link c True (add_link c)" "adds_link c False (\<lambda>below above. add_link c above below)"
    "adds_link c False (\<lambda>port new_switch. addLink new_switch port 1 10)"
  using addLink_ok [OF _ _ _ _ assms] assms
  by (auto simp: adds_link_def edge_def add_link_def latency_ok_def DEFAULT_BW_MULTIPLIER_def)

lemma adds_linkD:
  assumes "adds_link c up link" "top_ok c t" "link_ends_ok t (edge up a b)"
  obtains t' where "link a b t = Inr t'" "top_ok c t'" "extends t t'"
    "m_number_of_switches t' = m_number_of_switches t" "link_set t' = insert (edge up a b) (link_set t)"
  using assms unfolding adds_link_def by blast

section \<open>The switches at the ends\<close>

text \<open>A half is built over a list of ports: \<open>climbs\<close> says that a switch of the level is reached from every
  port in at most \<open>k\<close> links.\<close>

definition port_ok :: "bool \<Rightarrow> topology \<Rightarrow> nat \<Rightarrow> bool" where
  "port_ok up t p \<longleftrightarrow> (if up then p < m_nodes t else m_nodes t \<le> p \<and> p < 2 * m_nodes t)"

lemma port_link: "port_ok up t p \<Longrightarrow> is_switch t s \<Longrightarrow> link_ends_ok t (edge up p s)"
  by (auto simp: port_ok_def link_ends_ok_def edge_def is_switch_def split: if_splits)

lemma switch_link: "is_switch t a \<Longrightarrow> is_switch t b \<Longrightarrow> a \<noteq> b \<Longrightarrow> link_ends_ok t (edge up a b)"
  by (auto simp: link_ends_ok_def edge_def)

lemma port_ok_extends: "extends t t' \<Longrightarrow> port_ok up t' p \<longleftrightarrow> port_ok up t p"
  by (simp add: port_ok_def extends_def)

definition climbs :: "bool \<Rightarrow> nat \<Rightarrow> nat list \<Rightarrow> nat list \<Rightarrow> topology \<Rightarrow> bool" where
  "climbs up k ports level t \<longleftrightarrow> (\<forall>p \<in> set ports. \<exists>s \<in> set level. \<exists>m \<le> k. (p, s) \<in> half up t ^^ m)"

lemma end_switch_links:
  assumes "adds_link c up link" "top_ok c t" "is_switch t s" "\<forall>p \<in> set ports. port_ok up t p" "n + k \<le> length ports"
  shows "\<exists>t'. rfold (\<lambda>machine (counter, t). rbind (lref counter ports) (\<lambda>port. rbind (link port s t) (\<lambda>t'. Inr (counter + 1, t'))))
       [0..<n] (k, t) = Inr (k + n, t') \<and> top_ok c t' \<and> extends t t'
       \<and> (\<forall>i < n. edge up (ports ! (k + i)) s \<in> link_set t')"
  using assms(5)
proof (induction n)
  case 0
  then show ?case using assms(2) by auto
next
  case (Suc n)
  then obtain t1 where t1: "rfold (\<lambda>machine (counter, t). rbind (lref counter ports) (\<lambda>port. rbind (link port s t) (\<lambda>t'. Inr (counter + 1, t'))))
       [0..<n] (k, t) = Inr (k + n, t1)" "top_ok c t1" "extends t t1"
    "\<forall>i < n. edge up (ports ! (k + i)) s \<in> link_set t1" by auto
  have lt: "k + n < length ports" using Suc.prems by simp
  have "link_ends_ok t1 (edge up (ports ! (k + n)) s)"
    using port_link assms(3,4) extends_switch [OF t1(3)] port_ok_extends [OF t1(3)] nth_mem [OF lt] by metis
  from adds_linkD [OF assms(1) t1(2) this] obtain t2 where
    t2: "link (ports ! (k + n)) s t1 = Inr t2" "top_ok c t2" "extends t1 t2"
      "link_set t2 = insert (edge up (ports ! (k + n)) s) (link_set t1)" by blast
  show ?case using t1(1,4) t2 lt extends_trans [OF t1(3) t2(3)] by (auto simp: rfold_append less_Suc_eq)
qed

lemma half_edge: "edge up a b \<in> link_set t \<Longrightarrow> (a, b) \<in> half up t"
  by (simp add: half_def)

definition level_ok :: "topology \<Rightarrow> nat list \<Rightarrow> bool" where
  "level_ok t level \<longleftrightarrow> (\<forall>s \<in> set level. is_switch t s)"

lemma level_ok_extends: "extends t t' \<Longrightarrow> level_ok t level \<Longrightarrow> level_ok t' level"
  using extends_switch by (auto simp: level_ok_def)

lemma end_switches_ok:
  assumes "adds_link c up link" "top_ok c t" "\<forall>p \<in> set ports. port_ok up t p" "0 < MachineType_NUM c"
    "length ports = n * MachineType_NUM c"
  shows "\<exists>level t'. end_switches c link ports t = Inr (level, t') \<and> top_ok c t' \<and> extends t t'
    \<and> length level = n \<and> level_ok t' level \<and> (\<forall>s \<in> set level. \<not> is_switch t s) \<and> climbs up 1 ports level t'"
proof -
  let ?M = "MachineType_NUM c"
  have "\<exists>level t'. rfold (\<lambda>i. end_switch c link ports) [0..<k] ([], 0, t) = Inr (level, k * ?M, t')
     \<and> top_ok c t' \<and> extends t t' \<and> length level = k \<and> level_ok t' level \<and> (\<forall>s \<in> set level. \<not> is_switch t s)
     \<and> (\<forall>p \<in> set (take (k * ?M) ports). \<exists>s \<in> set level. edge up p s \<in> link_set t')" if "k \<le> n" for k
    using that
  proof (induction k)
    case 0
    then show ?case using assms(2) by (simp add: level_ok_def)
  next
    case (Suc k)
    then obtain level t1 where t1: "rfold (\<lambda>i. end_switch c link ports) [0..<k] ([], 0, t) = Inr (level, k * ?M, t1)"
      "top_ok c t1" "extends t t1" "length level = k" "level_ok t1 level" "\<forall>s \<in> set level. \<not> is_switch t s"
      "\<forall>p \<in> set (take (k * ?M) ports). \<exists>s \<in> set level. edge up p s \<in> link_set t1" by auto
    obtain s t2 where n: "newSwitchID t1 = (s, t2)" by force
    note n' = newSwitchID_ok [OF n]
    have e: "extends t t2" by (rule extends_trans [OF t1(3) n'(3)])
    have "Suc k * ?M \<le> n * ?M" using Suc.prems by (intro mult_le_mono1)
    then have len: "?M + k * ?M \<le> length ports" using assms(5) by simp
    have "\<forall>p \<in> set ports. port_ok up t2 p" using assms(3) port_ok_extends [OF e] by blast
    from end_switch_links [OF assms(1) n'(4) [OF t1(2)] n'(1) this len] obtain t3 where
      t3: "rfold (\<lambda>machine (counter, t). rbind (lref counter ports) (\<lambda>port. rbind (link port s t) (\<lambda>t'. Inr (counter + 1, t'))))
         [0..<?M] (k * ?M, t2) = Inr (k * ?M + ?M, t3)" "top_ok c t3" "extends t2 t3"
        "\<forall>i < ?M. edge up (ports ! (k * ?M + i)) s \<in> link_set t3" by blast
    have "\<exists>s' \<in> set (level @ [s]). edge up p s' \<in> link_set t3" if "p \<in> set (take (Suc k * ?M) ports)" for p
    proof -
      from that obtain i where i: "i < Suc k * ?M" "p = ports ! i" using len by (auto simp: in_set_conv_nth)
      show ?thesis
      proof (cases "i < k * ?M")
        case True
        then have "p \<in> set (take (k * ?M) ports)" using i len by (auto simp: in_set_conv_nth)
        then show ?thesis using t1(7) n'(3) t3(3) by (fastforce simp: extends_def)
      next
        case False
        then have "i - k * ?M < ?M" using i(1) by simp
        then have "edge up (ports ! (k * ?M + (i - k * ?M))) s \<in> link_set t3" using t3(4) by blast
        then show ?thesis using i(2) False by simp
      qed
    qed
    moreover have "level_ok t3 (level @ [s])"
      using level_ok_extends [OF extends_trans [OF n'(3) t3(3)] t1(5)] extends_switch [OF t3(3) n'(1)]
      by (auto simp: level_ok_def)
    moreover have "\<not> is_switch t s" using n'(2) extends_switch [OF t1(3)] by blast
    moreover have "end_switch c link ports (level, k * ?M, t1) = Inr (level @ [s], Suc k * ?M, t3)"
      using n t3(1) by (simp add: end_switch_def add.commute)
    then have "rfold (\<lambda>i. end_switch c link ports) [0..<Suc k] ([], 0, t) = Inr (level @ [s], Suc k * ?M, t3)"
      using t1(1) by (simp add: rfold_append)
    ultimately show ?case using t1(4,6) t3(2) extends_trans [OF e t3(3)]
      by (intro exI [of _ "level @ [s]"] exI [of _ t3]) auto
  qed
  from this [of n] obtain level t' where l: "rfold (\<lambda>i. end_switch c link ports) [0..<n] ([], 0, t) = Inr (level, n * ?M, t')"
     "top_ok c t'" "extends t t'" "length level = n" "level_ok t' level" "\<forall>s \<in> set level. \<not> is_switch t s"
     "\<forall>p \<in> set ports. \<exists>s \<in> set level. edge up p s \<in> link_set t'" using assms(5) by auto
  have "\<exists>m \<le> 1. (p, s) \<in> half up t' ^^ m" if "edge up p s \<in> link_set t'" for p s
    using half_edge [OF that] by (intro exI [of _ 1]) simp
  then have "climbs up 1 ports level t'" using l(7) unfolding climbs_def by blast
  then show ?thesis using l assms(4,5) by (simp add: end_switches_def)
qed

section \<open>A level of the tree\<close>

definition level_new :: "net_params \<Rightarrow> topology \<Rightarrow> nat list \<Rightarrow> (nat \<Rightarrow> bool) \<Rightarrow> (topology \<Rightarrow> nat \<times> topology) \<Rightarrow> bool" where
  "level_new c t level Q new \<longleftrightarrow> (\<forall>t1 s t2. extends t t1 \<and> top_ok c t1 \<and> new t1 = (s, t2) \<longrightarrow>
     extends t1 t2 \<and> top_ok c t2 \<and> is_switch t2 s \<and> s \<notin> set level \<and> Q s)"

lemma level_new_instances:
  "level_ok t level \<Longrightarrow> level_new c t level (\<lambda>s. \<not> is_switch t s) newSwitchID"
  "is_switch t r \<Longrightarrow> r \<notin> set level \<Longrightarrow> level_new c t level (\<lambda>s. s = r) (\<lambda>t. (r, t))"
proof -
  assume l: "level_ok t level"
  have "extends t1 t2 \<and> top_ok c t2 \<and> is_switch t2 s \<and> s \<notin> set level \<and> \<not> is_switch t s"
    if "extends t t1" "top_ok c t1" "newSwitchID t1 = (s, t2)" for t1 s t2
    using newSwitchID_ok [OF that(3)] that(1,2) extends_switch [OF that(1)] l by (auto simp: level_ok_def)
  then show "level_new c t level (\<lambda>s. \<not> is_switch t s) newSwitchID" unfolding level_new_def by blast
next
  assume "is_switch t r" "r \<notin> set level"
  then show "level_new c t level (\<lambda>s. s = r) (\<lambda>t. (r, t))" using extends_switch by (auto simp: level_new_def)
qed

lemma tree_level_ok:
  assumes "adds_link c up link" "top_ok c t" "level_ok t level" "level_new c t level Q new" "0 < fan" "level \<noteq> []"
  shows "\<exists>next t'. tree_level fan new link (level, t) = Inr (next, t') \<and> top_ok c t' \<and> extends t t'
    \<and> length next = (length level - 1) div fan + 1 \<and> level_ok t' next \<and> (\<forall>s \<in> set next. Q s)
    \<and> (\<forall>a \<in> set level. \<exists>s \<in> set next. edge up a s \<in> link_set t')"
proof -
  let ?Q = "\<lambda>s. s \<notin> set level \<and> Q s"
  have "\<exists>next t'. rfold (level_switch fan new link level) [0..<k] ([], t) = Inr (next, t') \<and> top_ok c t' \<and> extends t t'
    \<and> length next = (if k = 0 then 0 else (k - 1) div fan + 1) \<and> level_ok t' next \<and> (\<forall>s \<in> set next. ?Q s)
    \<and> (\<forall>i < k. \<exists>s \<in> set next. edge up (level ! i) s \<in> link_set t')" if "k \<le> length level" for k
    using that
  proof (induction k)
    case 0
    then show ?case using assms(2) by (simp add: level_ok_def)
  next
    case (Suc k)
    then obtain nxt t1 where t1: "rfold (level_switch fan new link level) [0..<k] ([], t) = Inr (nxt, t1)"
      "top_ok c t1" "extends t t1" "length nxt = (if k = 0 then 0 else (k - 1) div fan + 1)" "level_ok t1 nxt"
      "\<forall>s \<in> set nxt. ?Q s" "\<forall>i < k. \<exists>s \<in> set nxt. edge up (level ! i) s \<in> link_set t1" by auto
    define st where "st = (if k mod fan = 0 then (case new t1 of (s, t') \<Rightarrow> (nxt @ [s], t')) else (nxt, t1))"
    obtain nxt2 t2 where st: "st = (nxt2, t2)" by force
    have p: "extends t1 t2 \<and> top_ok c t2 \<and> length nxt2 = k div fan + 1 \<and> level_ok t2 nxt2 \<and> (\<forall>s \<in> set nxt2. ?Q s)
      \<and> set nxt \<subseteq> set nxt2"
    proof (cases "k mod fan = 0")
      case True
      obtain s t' where n: "new t1 = (s, t')" by force
      then have e: "nxt2 = nxt @ [s]" "t2 = t'" using True st by (auto simp: st_def)
      have x: "extends t1 t'" "top_ok c t'" "is_switch t' s" "?Q s"
        using assms(4) t1(2,3) n unfolding level_new_def by blast+
      have "length nxt = k div fan"
        using True t1(4) by (cases k) (auto simp: div_Suc)
      then show ?thesis using e x t1(6) level_ok_extends [OF x(1) t1(5)] by (auto simp: level_ok_def)
    next
      case False
      then have e: "nxt2 = nxt" "t2 = t1" using st by (auto simp: st_def)
      have "length nxt = k div fan + 1"
        using False t1(4) assms(5) by (cases k) (auto simp: div_Suc)
      then show ?thesis using e t1(2,5,6) by simp
    qed
    let ?a = "nxt2 ! (length nxt2 - 1)"
    have lt: "k < length level" "length nxt2 - 1 < length nxt2" using Suc.prems p by auto
    have a: "?a \<in> set nxt2" using nth_mem [OF lt(2)] .
    have "extends t t2" using extends_trans t1(3) p by blast
    then have ends: "is_switch t2 (level ! k)" "is_switch t2 ?a" "level ! k \<noteq> ?a"
      using level_ok_extends [OF _ assms(3)] nth_mem [OF lt(1)] a p by (auto simp: level_ok_def)
    have top: "top_ok c t2" using p by blast
    obtain t3 where t3: "link (level ! k) ?a t2 = Inr t3" "top_ok c t3" "extends t2 t3"
        "link_set t3 = insert (edge up (level ! k) ?a) (link_set t2)"
      by (rule adds_linkD [OF assms(1) top switch_link [OF ends]])
    have "level_switch fan new link level k (nxt, t1) = Inr (nxt2, t3)"
      unfolding level_switch_def prod.case st_def [symmetric] st using t3(1) lt assms(5) by simp
    then have "rfold (level_switch fan new link level) [0..<Suc k] ([], t) = Inr (nxt2, t3)"
      using t1(1) by (simp add: rfold_append)
    moreover have "extends t1 t3" using extends_trans p t3(3) by blast
    then have sub: "link_set t1 \<subseteq> link_set t3" by (simp add: extends_def)
    have "\<exists>s \<in> set nxt2. edge up (level ! i) s \<in> link_set t3" if "i < Suc k" for i
    proof (cases "i < k")
      case True
      then show ?thesis using t1(7) sub p by blast
    next
      case False
      then show ?thesis using that a t3(4) by (auto simp: less_Suc_eq)
    qed
    moreover have "extends t t3" using extends_trans [OF t1(3)] extends_trans p t3(3) by blast
    moreover have "level_ok t3 nxt2" using level_ok_extends [OF t3(3)] p by blast
    ultimately show ?case using p t3(2) by (intro exI [of _ nxt2] exI [of _ t3]) simp
  qed
  from this [of "length level"] assms(6) show ?thesis
    by (auto simp: tree_level_def all_set_conv_all_nth [of level])
qed

text \<open>With at least two children a level gets shorter.\<close>

lemma level_shrinks: "2 \<le> fan \<Longrightarrow> 1 < n \<Longrightarrow> (n - 1) div fan + 1 < n" for n :: nat
proof -
  assume a: "2 \<le> fan" "1 < n"
  have "(n - 1) div fan \<le> (n - 1) div 2" using a(1) by (rule div_le_mono2 [rotated]) simp
  also have "\<dots> < n - 1" using a(2) by simp
  finally show ?thesis by simp
qed

lemma relpow_subset: "R \<subseteq> S \<Longrightarrow> R ^^ n \<subseteq> S ^^ n" for R S :: "('a \<times> 'a) set"
  by (induction n) auto

lemma climbs_step:
  assumes "climbs up k ports level t" "extends t t'" "\<forall>a \<in> set level. \<exists>s \<in> set next. edge up a s \<in> link_set t'"
  shows "climbs up (k + 1) ports next t'"
  unfolding climbs_def
proof
  fix p assume "p \<in> set ports"
  then obtain a m where a: "a \<in> set level" "m \<le> k" "(p, a) \<in> half up t ^^ m"
    using assms(1) unfolding climbs_def by blast
  obtain s where s: "s \<in> set next" "edge up a s \<in> link_set t'" using assms(3) a(1) by blast
  have "(p, a) \<in> half up t' ^^ m" using relpow_subset [OF extends_half [OF assms(2)]] a(3) by blast
  then have "(p, s) \<in> half up t' ^^ Suc m" using half_edge [OF s(2)] by auto
  then show "\<exists>s \<in> set next. \<exists>m \<le> k + 1. (p, s) \<in> half up t' ^^ m" using s(1) a(2) by fastforce
qed

section \<open>The two loops\<close>

text \<open>What a half keeps: \<open>N\<close> is the number of end switches, so a level of \<open>n\<close> switches is at most
  \<open>N - n\<close> levels above them.\<close>

definition half_ok :: "net_params \<Rightarrow> bool \<Rightarrow> nat \<Rightarrow> nat list \<Rightarrow> topology \<Rightarrow> nat list \<times> topology \<Rightarrow> bool" where
  "half_ok c up N ports t0 st \<longleftrightarrow> (case st of (level, t) \<Rightarrow>
     top_ok c t \<and> extends t0 t \<and> level \<noteq> [] \<and> level_ok t level \<and> length level \<le> N
     \<and> climbs up (1 + (N - length level)) ports level t)"

lemma climbs_mono: "climbs up k ports level t \<Longrightarrow> k \<le> k' \<Longrightarrow> climbs up k' ports level t"
  unfolding climbs_def by (meson le_trans)

lemma half_step:
  assumes "half_ok c up N ports t0 (level, t)" "adds_link c up link" "level_new c t level Q new" "2 \<le> fan" "1 < length level"
  shows "\<exists>next t'. tree_level fan new link (level, t) = Inr (next, t') \<and> half_ok c up N ports t0 (next, t')
    \<and> extends t t' \<and> length next = (length level - 1) div fan + 1 \<and> (\<forall>s \<in> set next. Q s)"
proof -
  have h: "top_ok c t" "extends t0 t" "level_ok t level" "length level \<le> N" "climbs up (1 + (N - length level)) ports level t"
    using assms(1) by (auto simp: half_ok_def)
  have ne: "level \<noteq> []" "0 < fan" using assms(4,5) by auto
  from tree_level_ok [OF assms(2) h(1,3) assms(3) ne(2,1)] obtain nxt t' where
    n: "tree_level fan new link (level, t) = Inr (nxt, t')" "top_ok c t'" "extends t t'"
      "length nxt = (length level - 1) div fan + 1" "level_ok t' nxt" "\<forall>s \<in> set nxt. Q s"
      "\<forall>a \<in> set level. \<exists>s \<in> set nxt. edge up a s \<in> link_set t'" by blast
  have "length nxt < length level" using level_shrinks [OF assms(4,5)] n(4) by simp
  then have "1 + (N - length level) + 1 \<le> 1 + (N - length nxt)" "length nxt \<le> N" using h(4) by auto
  moreover from this have "climbs up (1 + (N - length nxt)) ports nxt t'"
    using climbs_mono [OF climbs_step [OF h(5) n(3,7)]] by blast
  moreover have "nxt \<noteq> []" using n(4) by auto
  ultimately have "half_ok c up N ports t0 (nxt, t')"
    using n(2,3,5) extends_trans [OF h(2) n(3)] by (simp add: half_ok_def)
  with n show ?thesis by blast
qed

lemma up_loop:
  assumes "half_ok c True N ports t0 st" "latency_ok c" "2 \<le> fan"
  shows "\<exists>root t. rwhile (\<lambda>(last_level, t). length last_level > 1) (tree_level fan newSwitchID (add_link c)) st
      = Inr ([root], t) \<and> half_ok c True N ports t0 ([root], t)"
proof -
  have "\<exists>y. tree_level fan newSwitchID (add_link c) x = Inr y \<and> half_ok c True N ports t0 y \<and> length (fst y) < length (fst x)"
    if "half_ok c True N ports t0 x" "case x of (last_level, t) \<Rightarrow> length last_level > 1" for x
  proof -
    obtain l t where x: "x = (l, t)" by force
    have l: "level_ok t l" "1 < length l" using that by (auto simp: x half_ok_def)
    from half_step [OF that(1) [unfolded x] adds_link_instances(1) [OF assms(2)] level_new_instances(1) [OF l(1)] assms(3) l(2)]
    show ?thesis using level_shrinks [OF assms(3) l(2)] by (fastforce simp: x)
  qed
  note step = this
  have "\<exists>y. rwhile (\<lambda>(last_level, t). length last_level > 1) (tree_level fan newSwitchID (add_link c)) st = Inr y
      \<and> half_ok c True N ports t0 y \<and> \<not> (case y of (last_level, t) \<Rightarrow> length last_level > 1)"
    by (rule rwhile_total [where m = "\<lambda>x. length (fst x)"]) (rule assms(1), rule step)
  then obtain l t where l: "rwhile (\<lambda>(last_level, t). length last_level > 1) (tree_level fan newSwitchID (add_link c)) st = Inr (l, t)"
     "half_ok c True N ports t0 (l, t)" "\<not> length l > 1" by auto
  then have "length l = 1" by (cases l) (auto simp: half_ok_def)
  then show ?thesis using l by (cases l) auto
qed

lemma down_loop:
  assumes "half_ok c False N ports t0 (level, t)" "latency_ok c" "2 \<le> fan" "is_switch t0 root" "root \<notin> set level" "1 < length level"
  shows "\<exists>t'. rwhile (\<lambda>(last_level, t). length last_level \<noteq> 1)
       (\<lambda>(last_level, t). tree_level fan
          (\<lambda>t. if length last_level > fan then newSwitchID t else (root, t))
          (\<lambda>below above. add_link c above below) (last_level, t)) (level, t)
      = Inr ([root], t') \<and> half_ok c False N ports t0 ([root], t')"
proof -
  let ?b = "\<lambda>(last_level :: nat list, t :: topology). length last_level \<noteq> 1"
  let ?f = "\<lambda>(last_level, t). tree_level fan (\<lambda>t. if length last_level > fan then newSwitchID t else (root, t))
          (\<lambda>below above. add_link c above below) (last_level, t)"
  let ?P = "\<lambda>x. half_ok c False N ports t0 x \<and> (fst x = [root] \<or> 1 < length (fst x) \<and> root \<notin> set (fst x))"
  have step: "\<exists>y. ?f x = Inr y \<and> ?P y \<and> length (fst y) < length (fst x)" if P: "?P x" "?b x" for x
  proof -
    obtain l t where x: "x = (l, t)" by force
    have h: "half_ok c False N ports t0 (l, t)" "root \<notin> set l" "1 < length l" using P by (auto simp: x)
    have l: "level_ok t l" "is_switch t root" using h(1) extends_switch [OF _ assms(4)] by (auto simp: half_ok_def)
    note hstep = half_step [OF h(1) adds_link_instances(2) [OF assms(2)] _ assms(3) h(3)]
    show ?thesis
    proof (cases "length l > fan")
      case True
      from hstep [OF level_new_instances(1) [OF l(1)]] obtain nxt t' where
        n: "tree_level fan newSwitchID (\<lambda>below above. add_link c above below) (l, t) = Inr (nxt, t')"
          "half_ok c False N ports t0 (nxt, t')" "length nxt = (length l - 1) div fan + 1" "\<forall>s \<in> set nxt. \<not> is_switch t s"
        by blast
      have "fan div fan \<le> (length l - 1) div fan" using True by (intro div_le_mono) simp
      then have "1 < length nxt" using assms(3) n(3) by simp
      moreover have "root \<notin> set nxt" using n(4) l(2) by blast
      ultimately show ?thesis using n True level_shrinks [OF assms(3) h(3)] by (auto simp: x)
    next
      case False
      from hstep [OF level_new_instances(2) [OF l(2) h(2)]] obtain nxt t' where
        n: "tree_level fan (\<lambda>t. (root, t)) (\<lambda>below above. add_link c above below) (l, t) = Inr (nxt, t')"
          "half_ok c False N ports t0 (nxt, t')" "length nxt = (length l - 1) div fan + 1" "\<forall>s \<in> set nxt. s = root"
        by blast
      have "(length l - 1) div fan = 0" using False h(3) by (intro div_less) simp
      then have nxt: "nxt = [root]" using n(3,4) by (cases nxt) auto
      have "?f x = Inr (nxt, t')" using n(1) False by (simp add: x)
      then show ?thesis using n(2) nxt h(3) by (intro exI [of _ "(nxt, t')"]) (simp add: x)
    qed
  qed
  have "?P (level, t)" using assms(1,5,6) by simp
  then have "\<exists>y. rwhile ?b ?f (level, t) = Inr y \<and> ?P y \<and> \<not> ?b y"
    by (rule rwhile_total [where P = ?P and m = "\<lambda>x. length (fst x)"]) (rule step)
  then obtain y where y: "rwhile ?b ?f (level, t) = Inr y" "?P y" "\<not> ?b y" by blast
  obtain l t' where l: "y = (l, t')" by force
  have "l = [root]" using y(2,3) by (auto simp: l)
  then show ?thesis using y(1,2) l by auto
qed

section \<open>The whole network\<close>

text \<open>\<open>connected t k\<close>: from every input every output is reached in at most \<open>k\<close> links.\<close>

definition connected_net :: "topology \<Rightarrow> nat \<Rightarrow> bool" where
  "connected_net t k \<longleftrightarrow> (\<forall>p < m_nodes t. \<forall>q < m_nodes t. \<exists>m \<le> k. (p, q + m_nodes t) \<in> link_set t ^^ m)"

definition top_empty :: "nat \<Rightarrow> topology" where
  "top_empty n = \<lparr>m_nodes = n, m_number_of_switches = 0, m_links_src_vector = [],
       m_links_dest_vector = [], m_links_latency_vector = [], m_bw_multiplier_vector = []\<rparr>"

lemma top_ok_empty [simp]: "top_ok c (top_empty n)" "m_nodes (top_empty n) = n"
  by (simp_all add: top_ok_def top_empty_def links_ok_def link_set_def)

lemma half_True: "half True t = link_set t"
  by (simp add: half_def edge_def)

lemma half_False: "half False t = (link_set t)\<inverse>"
  by (auto simp: half_def edge_def)

lemma relpow_converse: "(R\<inverse>) ^^ n = (R ^^ n)\<inverse>" for R :: "('a \<times> 'a) set"
proof (induction n)
  case (Suc n)
  then show ?case using relpow_commute [of R n] by (simp add: converse_relcomp [symmetric])
qed auto

lemma relpow_join: "(a, b) \<in> R ^^ m \<Longrightarrow> (b, d) \<in> R ^^ n \<Longrightarrow> (a, d) \<in> R ^^ (m + n)" for R :: "('a \<times> 'a) set"
  by (auto simp: relpow_add)

lemma makeHierarchicalSwitch_ok:
  assumes "latency_ok c" "net_sizes_ok c n" "1 < NUM_NODES c" "2 \<le> fan"
  shows "\<exists>t. makeHierarchicalSwitch c [0..<n] (map (\<lambda>node. node + n) [0..<n]) fan (top_empty n) = Inr t
    \<and> top_ok c t \<and> m_nodes t = n \<and> connected_net t (2 * NUM_NODES c)"
proof -
  let ?N = "NUM_NODES c" and ?ins = "[0..<n]" and ?outs = "map (\<lambda>node. node + n) [0..<n]" and ?t0 = "top_empty n"
  have sz: "0 < MachineType_NUM c" "n = ?N * MachineType_NUM c" using assms(2) by (auto simp: net_sizes_ok_def)
  have ne: "level \<noteq> []" if "length level = ?N" for level :: "nat list" using that assms(3) by auto
  have ports: "\<forall>p \<in> set ?ins. port_ok True ?t0 p" by (simp add: port_ok_def)
  obtain up0 t1 where up0: "end_switches c (add_link c) ?ins ?t0 = Inr (up0, t1)" "top_ok c t1" "extends ?t0 t1"
    "length up0 = ?N" "level_ok t1 up0" "climbs True 1 ?ins up0 t1"
    using end_switches_ok [OF adds_link_instances(1) [OF assms(1)] top_ok_empty(1) ports sz(1), of ?N] sz(2) by auto
  have "half_ok c True ?N ?ins ?t0 (up0, t1)" using up0 ne by (simp add: half_ok_def)
  from up_loop [OF this assms(1,4)] obtain root t2 where
    up: "rwhile (\<lambda>(last_level, t). length last_level > 1) (tree_level fan newSwitchID (add_link c)) (up0, t1) = Inr ([root], t2)"
      "half_ok c True ?N ?ins ?t0 ([root], t2)" by blast
  then have t2: "top_ok c t2" "extends ?t0 t2" "is_switch t2 root" "climbs True ?N ?ins [root] t2"
    using assms(3) by (auto simp: half_ok_def level_ok_def)
  have "\<forall>p \<in> set ?outs. port_ok False t2 p" using t2(2) by (auto simp: port_ok_def extends_def)
  from end_switches_ok [OF adds_link_instances(3) [OF assms(1)] t2(1) this sz(1), of ?N] sz(2) obtain down0 t3 where
    down0: "end_switches c (\<lambda>port new_switch. addLink new_switch port 1 10) ?outs t2 = Inr (down0, t3)" "top_ok c t3"
      "extends t2 t3" "length down0 = ?N" "level_ok t3 down0" "\<forall>s \<in> set down0. \<not> is_switch t2 s" "climbs False 1 ?outs down0 t3"
    by auto
  have h: "half_ok c False ?N ?outs t2 (down0, t3)" using down0 ne by (simp add: half_ok_def)
  have r: "root \<notin> set down0" "1 < length down0" using down0(4,6) t2(3) assms(3) by auto
  from down_loop [OF h assms(1,4) t2(3) r] obtain t4 where down: "rwhile (\<lambda>(last_level, t). length last_level \<noteq> 1)
       (\<lambda>(last_level, t). tree_level fan
          (\<lambda>t. if length last_level > fan then newSwitchID t else (root, t))
          (\<lambda>below above. add_link c above below) (last_level, t)) (down0, t3) = Inr ([root], t4)"
      "half_ok c False ?N ?outs t2 ([root], t4)"
    by blast
  then have t4: "top_ok c t4" "extends t2 t4" "climbs False ?N ?outs [root] t4"
    using assms(3) by (auto simp: half_ok_def)
  have n4: "m_nodes t4 = n" using t2(2) t4(2) by (simp add: extends_def)
  have "\<exists>m \<le> 2 * ?N. (p, q + n) \<in> link_set t4 ^^ m" if "p < n" "q < n" for p q
  proof -
    have "p \<in> set ?ins" "q + n \<in> set ?outs" using that by auto
    then obtain m1 m2 where m1: "m1 \<le> ?N" "(p, root) \<in> link_set t2 ^^ m1"
      and m2: "m2 \<le> ?N" "(q + n, root) \<in> ((link_set t4)\<inverse>) ^^ m2"
      using t2(4) t4(3) unfolding climbs_def half_True half_False by fastforce
    have sub: "link_set t2 ^^ m1 \<subseteq> link_set t4 ^^ m1" using t4(2) by (intro relpow_subset) (simp add: extends_def)
    have "(p, q + n) \<in> link_set t4 ^^ (m1 + m2)"
    proof (rule relpow_join)
      show "(p, root) \<in> link_set t4 ^^ m1" using m1(2) sub by blast
      show "(root, q + n) \<in> link_set t4 ^^ m2" using m2(2) by (simp add: relpow_converse)
    qed
    then show ?thesis using m1(1) m2(1) by (intro exI [of _ "m1 + m2"]) simp
  qed
  then have "connected_net t4 (2 * ?N)" by (simp add: connected_net_def n4)
  moreover have "makeHierarchicalSwitch c ?ins ?outs fan ?t0 = Inr t4"
    unfolding makeHierarchicalSwitch_def using up0(1) up(1) down0(1) down(1) by simp
  ultimately show ?thesis using t4(1) n4 by blast
qed

text \<open>One node: a single switch.\<close>

lemma single_switch_ok:
  assumes "latency_ok c" "NUM_NODES c = 1" "0 < MachineType_NUM c"
  shows "\<exists>t. Topology c (MachineType_NUM c) = Inr t \<and> top_ok c t \<and> m_nodes t = MachineType_NUM c \<and> connected_net t 2"
proof -
  let ?M = "MachineType_NUM c" and ?L = "NETWORK_LINK_LATENCY c"
  let ?f = "\<lambda>sid machine t. rbind (addLink machine sid ?L DEFAULT_BW_MULTIPLIER t) (\<lambda>t'.
              addLink sid (m_nodes t + machine) ?L DEFAULT_BW_MULTIPLIER t')"
  obtain s t1 where n: "newSwitchID (top_empty ?M) = (s, t1)" by force
  note n' = newSwitchID_ok [OF n]
  have L: "0 < ?L" "?L < INFINITE_LATENCY" using assms(1) by (auto simp: latency_ok_def)
  have "\<exists>t. rfold (?f s) [0..<k] t1 = Inr t \<and> top_ok c t \<and> extends t1 t
      \<and> (\<forall>i < k. (i, s) \<in> link_set t \<and> (s, i + ?M) \<in> link_set t)" if "k \<le> ?M" for k
    using that
  proof (induction k)
    case 0
    then show ?case using n'(4) by simp
  next
    case (Suc k)
    then obtain t where t: "rfold (?f s) [0..<k] t1 = Inr t" "top_ok c t" "extends t1 t"
      "\<forall>i < k. (i, s) \<in> link_set t \<and> (s, i + ?M) \<in> link_set t" by auto
    have sw: "is_switch t s" by (rule extends_switch [OF t(3) n'(1)])
    have nodes: "m_nodes t = ?M" using t(3) n'(3) by (simp add: extends_def)
    have l1: "link_ends_ok t (k, s)" using sw Suc.prems by (auto simp: link_ends_ok_def nodes is_switch_def)
    obtain t2 where t2: "addLink k s ?L DEFAULT_BW_MULTIPLIER t = Inr t2" "top_ok c t2" "extends t t2"
        "link_set t2 = insert (k, s) (link_set t)"
      using addLink_ok [OF t(2) l1 L(1) order_refl assms(1), of DEFAULT_BW_MULTIPLIER] by (auto simp: DEFAULT_BW_MULTIPLIER_def)
    have "link_ends_ok t2 (s, ?M + k)"
      using extends_switch [OF t2(3) sw] Suc.prems t2(3) by (auto simp: link_ends_ok_def nodes is_switch_def extends_def)
    from addLink_ok [OF t2(2) this L(1) order_refl assms(1), of DEFAULT_BW_MULTIPLIER] obtain t3 where
      t3: "addLink s (?M + k) ?L DEFAULT_BW_MULTIPLIER t2 = Inr t3" "top_ok c t3" "extends t2 t3"
        "link_set t3 = insert (s, ?M + k) (link_set t2)" by (auto simp: DEFAULT_BW_MULTIPLIER_def)
    have "extends t1 t3" using extends_trans t(3) t2(3) t3(3) by blast
    then show ?case using t t2 t3 nodes by (auto simp: rfold_append less_Suc_eq add.commute)
  qed
  from this [of ?M] obtain t where t: "rfold (?f s) [0..<?M] t1 = Inr t" "top_ok c t" "extends t1 t"
      "\<forall>i < ?M. (i, s) \<in> link_set t \<and> (s, i + ?M) \<in> link_set t" by auto
  have nodes: "m_nodes t = ?M" using t(3) n'(3) by (simp add: extends_def)
  have "(p, q + ?M) \<in> link_set t ^^ 2" if "p < ?M" "q < ?M" for p q
    using t(4) that by (auto simp: numeral_2_eq_2)
  then have "connected_net t 2" unfolding connected_net_def nodes by blast
  moreover have "Topology c ?M = Inr t"
    using n t(1) by (simp add: Topology_def top_init_def top_empty_def)
  ultimately show ?thesis using t(2) nodes by blast
qed

definition tree_config :: "net_params \<Rightarrow> bool" where
  "tree_config c \<longleftrightarrow> latency_ok c \<and> net_sizes_ok c (NUM_NODES c * MachineType_NUM c)
     \<and> (NETWORK_TOPOLOGY c = CROSSBAR \<or> NETWORK_TOPOLOGY c = HIERARCHICAL_SWITCH \<and> 2 \<le> FAN_OUT_DEGREE c)
     \<and> 2 * int (NUM_NODES c) * NETWORK_LINK_LATENCY c < INFINITE_LATENCY"

lemma Topology_ok:
  assumes "tree_config c"
  obtains t where "Topology c (NUM_NODES c * MachineType_NUM c) = Inr t" "top_ok c t"
    "m_nodes t = NUM_NODES c * MachineType_NUM c" "connected_net t (2 * NUM_NODES c)"
proof (cases "NUM_NODES c = 1")
  case True
  then show ?thesis using single_switch_ok [of c] assms that by (auto simp: tree_config_def net_sizes_ok_def)
next
  case False
  let ?n = "NUM_NODES c * MachineType_NUM c"
  have a: "latency_ok c" "net_sizes_ok c ?n" "1 < NUM_NODES c" "0 < MachineType_NUM c"
    using assms False by (auto simp: tree_config_def net_sizes_ok_def)
  let ?fan = "if NETWORK_TOPOLOGY c = CROSSBAR then 1024 else FAN_OUT_DEGREE c"
  have "2 \<le> ?fan" using assms by (auto simp: tree_config_def)
  from makeHierarchicalSwitch_ok [OF a(1,2,3) this] obtain t where
    t: "makeHierarchicalSwitch c [0..<?n] (map (\<lambda>node. node + ?n) [0..<?n]) ?fan (top_empty ?n) = Inr t"
      "top_ok c t" "m_nodes t = ?n" "connected_net t (2 * NUM_NODES c)" by blast
  have "Topology c ?n = makeHierarchicalSwitch c [0..<?n] (map (\<lambda>node. node + ?n) [0..<?n]) ?fan (top_empty ?n)"
    using assms a(3,4) by (auto simp: Topology_def top_init_def top_empty_def tree_config_def Let_def split: topology_type.splits)
  with t that show ?thesis by simp
qed

section \<open>Distances\<close>

lemma link_set_nth: "top_ok c t \<Longrightarrow> (i, j) \<in> link_set t \<longleftrightarrow>
    (\<exists>k < length (m_links_src_vector t). m_links_src_vector t ! k = i \<and> m_links_dest_vector t ! k = j)"
  by (force simp: link_set_def in_set_zip top_ok_def links_ok_def)

lemma link_weight:
  assumes "top_ok c t" "(i, j) \<in> link_set t"
  shows "i \<le> max_switch_id t \<and> j \<le> max_switch_id t \<and> mat (topology_weights t) i j \<le> NETWORK_LINK_LATENCY c"
proof -
  obtain k where k: "k < length (m_links_src_vector t)" "m_links_src_vector t ! k = i" "m_links_dest_vector t ! k = j"
    using assms link_set_nth by blast
  have le: "i \<le> max_switch_id t" "j \<le> max_switch_id t" using max_switch_id_ge [OF k(1)] k by auto
  have ok: "links_ok t" "\<forall>l \<in> set (m_links_latency_vector t). l \<le> NETWORK_LINK_LATENCY c"
    using assms(1) by (auto simp: top_ok_def)
  from ok(1) le show ?thesis
  proof (cases rule: topology_weights_cases)
    case (link l)
    then show ?thesis using ok le by (auto simp: links_ok_def)
  next
    case none
    then show ?thesis using k by blast
  qed
qed

lemma path_distance:
  assumes "top_ok c t" "distances (topology_weights t) (max_switch_id t + 1) dist" "(i, j) \<in> link_set t ^^ m"
    "i \<le> max_switch_id t"
  shows "j \<le> max_switch_id t \<and> mat dist i j \<le> int m * NETWORK_LINK_LATENCY c"
proof -
  have "j \<le> max_switch_id t \<and> (\<exists>ks. walk (max_switch_id t + 1) i j ks
      \<and> walk_cost (topology_weights t) i ks \<le> int m * NETWORK_LINK_LATENCY c)"
    using assms(3)
  proof (induction m arbitrary: j)
    case 0
    then show ?case using assms(4) by (auto intro!: exI [of _ "[]"])
  next
    case (Suc m)
    then obtain k where k: "(i, k) \<in> link_set t ^^ m" "(k, j) \<in> link_set t" by auto
    from Suc.IH [OF k(1)] obtain ks where ks: "walk (max_switch_id t + 1) i k ks"
      "walk_cost (topology_weights t) i ks \<le> int m * NETWORK_LINK_LATENCY c" by blast
    note w = link_weight [OF assms(1) k(2)]
    have "walk (max_switch_id t + 1) i j (ks @ [j])" by (rule walk_append [OF ks(1)]) (use w in simp)
    moreover have "walk_cost (topology_weights t) i (ks @ [j]) \<le> int (Suc m) * NETWORK_LINK_LATENCY c"
      using ks(2) w by (simp add: walk_cost_append [OF ks(1)] algebra_simps)
    ultimately show ?case using w by blast
  qed
  then obtain ks where ks: "j \<le> max_switch_id t" "walk (max_switch_id t + 1) i j ks"
      "walk_cost (topology_weights t) i ks \<le> int m * NETWORK_LINK_LATENCY c" by blast
  have "mat dist i j \<le> walk_cost (topology_weights t) i ks"
    using assms(2,4) ks(1,2) unfolding distances_def by (simp add: le_imp_less_Suc)
  then show ?thesis using ks by simp
qed

lemma connected_distances:
  assumes "tree_config c" "top_ok c t" "m_nodes t = NUM_NODES c * MachineType_NUM c" "connected_net t (2 * NUM_NODES c)"
    "distances (topology_weights t) (max_switch_id t + 1) dist"
  shows "2 * m_nodes t \<le> max_switch_id t"
    and "p < m_nodes t \<Longrightarrow> f \<in> all_dests c \<Longrightarrow> mat dist p (out_switch c (m_nodes t) f) < INFINITE_LATENCY"
proof -
  have sz: "net_sizes_ok c (m_nodes t)" using assms(1,3) by (simp add: tree_config_def)
  have pos: "0 < m_nodes t" using sz by (simp add: net_sizes_ok_def)
  obtain m where m: "(0, m_nodes t) \<in> link_set t ^^ m" using assms(4) pos by (fastforce simp: connected_net_def)
  obtain m' where "m = Suc m'" using m pos by (cases m) auto
  then have "(0, m_nodes t) \<in> link_set t O link_set t ^^ m'" using m relpow_commute [of "link_set t" m'] by simp
  then obtain x where "(0, x) \<in> link_set t" by blast
  then have "2 * m_nodes t \<le> x" "x \<le> max_switch_id t"
    using assms(2) pos link_weight [OF assms(2)] by (auto simp: top_ok_def link_ends_ok_def is_switch_def)
  then show le: "2 * m_nodes t \<le> max_switch_id t" by simp
  assume p: "p < m_nodes t" and f: "f \<in> all_dests c"
  let ?q = "out_switch c (m_nodes t) f"
  have "?q - m_nodes t < m_nodes t" "?q - m_nodes t + m_nodes t = ?q" using out_switch_less [OF sz f] by auto
  then obtain k where k: "k \<le> 2 * NUM_NODES c" "(p, ?q) \<in> link_set t ^^ k"
    using assms(4) p unfolding connected_net_def by metis
  have "mat dist p ?q \<le> int k * NETWORK_LINK_LATENCY c"
    using path_distance [OF assms(2,5) k(2)] p le by simp
  also have "\<dots> \<le> 2 * int (NUM_NODES c) * NETWORK_LINK_LATENCY c"
    using k(1) assms(1) by (intro mult_right_mono) (auto simp: tree_config_def latency_ok_def)
  finally show "mat dist p ?q < INFINITE_LATENCY" using assms(1) by (simp add: tree_config_def)
qed

section \<open>Routes over the tree\<close>

text \<open>\<open>hops calls f\<close>: the links whose routing table entry has the destination \<open>f\<close>. From wherever a message for \<open>f\<close>
  can get from an input by such links, it gets to \<open>f\<close>, and all its routes have the same latency.\<close>

definition hops :: "link_call list \<Rightarrow> nat \<times> nat \<Rightarrow> (nat \<times> nat) set" where
  "hops calls f = {(i, j). \<exists>w. carries calls f i j w}"

lemma hops_closer:
  assumes "routing_ok c t dist calls" "f \<in> all_dests c" "(i, j) \<in> (hops calls f)\<^sup>*" "i \<le> max_switch_id t"
    "mat dist i (out_switch c (m_nodes t) f) < INFINITE_LATENCY"
  shows "j \<le> max_switch_id t \<and> mat dist j (out_switch c (m_nodes t) f) < INFINITE_LATENCY"
  using assms(3)
proof (induction rule: rtrancl_induct)
  case base
  then show ?case using assms(4,5) by simp
next
  case (step j k)
  then obtain w where "carries calls f j k w" by (auto simp: hops_def)
  then have "0 < w \<and> k \<le> max_switch_id t \<and> mat dist j (out_switch c (m_nodes t) f) = w + mat dist k (out_switch c (m_nodes t) f)"
    using assms(1,2) step.IH unfolding routing_ok_def by blast
  then show ?case using step.IH by simp
qed

lemma tree_routes:
  assumes "tree_config c"
  shows "\<exists>t calls. Topology c (NUM_NODES c * MachineType_NUM c) = Inr t \<and> link_calls c t = Inr calls
    \<and> (\<forall>f \<in> all_dests c. \<forall>p < NUM_NODES c * MachineType_NUM c. \<forall>i. (p, i) \<in> (hops calls f)\<^sup>* \<longrightarrow>
         (\<exists>l < INFINITE_LATENCY. \<forall>l'. route calls (out_switch c (NUM_NODES c * MachineType_NUM c) f) f i l' \<longleftrightarrow> l' = l))"
proof (rule Topology_ok [OF assms])
  let ?N = "NUM_NODES c * MachineType_NUM c"
  fix t assume t: "Topology c ?N = Inr t" "top_ok c t" "m_nodes t = ?N" "connected_net t (2 * NUM_NODES c)"
  have sz: "net_sizes_ok c (m_nodes t)" "links_ok t"
    using assms t(2,3) by (simp_all add: tree_config_def top_ok_def)
  note con = connected_distances [OF assms t(2,3,4)]
  obtain dist0 where "distances (topology_weights t) (max_switch_id t + 1) dist0"
    by (rule shortest_path_distances [OF topology_weights_ok [OF sz(2)]])
  then have le: "2 * m_nodes t \<le> max_switch_id t" by (rule con(1))
  show ?thesis
  proof (rule createLinks_routing [OF sz(2,1) le])
    fix dist calls assume d: "distances (topology_weights t) (max_switch_id t + 1) dist"
      and calls: "link_calls c t = Inr calls" and r: "routing_ok c t dist calls"
    have "\<exists>l < INFINITE_LATENCY. \<forall>l'. route calls (out_switch c ?N f) f i l' \<longleftrightarrow> l' = l"
      if f: "f \<in> all_dests c" and p: "p < ?N" and i: "(p, i) \<in> (hops calls f)\<^sup>*" for f p i
    proof -
      have "mat dist p (out_switch c (m_nodes t) f) < INFINITE_LATENCY" by (rule con(2) [OF d]) (use p f t(3) in simp_all)
      then have i': "i \<le> max_switch_id t \<and> mat dist i (out_switch c (m_nodes t) f) < INFINITE_LATENCY"
        by (rule hops_closer [OF r f i, rotated]) (use p le t(3) in simp)
      then obtain l where l: "route calls (out_switch c (m_nodes t) f) f i l" using routes_exist [OF r f] by blast
      show ?thesis using i' l route_latency [OF _ r f] t(3) by metis
    qed
    with t(1) calls show ?thesis by blast
  qed
qed

end
