(* ===== verification/ShortestReference.thy ===== *)
theory ShortestReference
  imports ShortestPath
begin

text \<open>
  A reference definition of the all-pairs shortest paths, and that \<open>shortest_path\<close> computes it. It is the
  textbook recursion over the number of links: \<open>cheapest w m i j\<close> is the least cost of a walk of at
  most \<open>m + 1\<close> links. A walk that visits a switch twice is not cheaper without its cycle, so \<open>m = n\<close> is
  enough.
\<close>

primrec cheapest :: "matrix \<Rightarrow> nat \<Rightarrow> nat \<Rightarrow> nat \<Rightarrow> int" where
  "cheapest w 0 i j = mat w i j"
| "cheapest w (Suc m) i j =
     fold (\<lambda>k c. min c (cheapest w m i k + mat w k j)) [0..<length w] (cheapest w m i j)"

lemma cheapest_walk:
  assumes "weights_ok n w" "i < n" "j < n"
  shows "\<exists>ks. walk n i j ks \<and> walk_cost w i ks = cheapest w m i j"
  using assms(3)
proof (induction m arbitrary: j)
  case 0
  then show ?case by (intro exI [of _ "[j]"]) simp
next
  case (Suc m)
  have l: "length w = n" using assms(1) by (simp add: weights_ok_def square_def)
  from fold_min_cases [of "\<lambda>k. cheapest w m i k + mat w k j" "[0..<length w]" "cheapest w m i j"]
  consider "cheapest w (Suc m) i j = cheapest w m i j"
    | k where "k < n" "cheapest w (Suc m) i j = cheapest w m i k + mat w k j" using l by auto
  then show ?case
  proof cases
    case 1
    then show ?thesis using Suc by simp
  next
    case (2 k)
    obtain ks where ks: "walk n i k ks" "walk_cost w i ks = cheapest w m i k" using Suc.IH [OF 2(1)] by blast
    have "walk n i j (ks @ [j])" by (rule walk_append [OF ks(1)]) (use Suc.prems in simp)
    then show ?thesis using ks(2) 2(2) walk_cost_append [OF ks(1), of w "[j]"] by (intro exI [of _ "ks @ [j]"]) simp
  qed
qed

lemma cheapest_least:
  assumes "weights_ok n w" "walk n i j ks" "length ks \<le> m + 1" "i < n"
  shows "cheapest w m i j \<le> walk_cost w i ks"
  using assms(2,3)
proof (induction m arbitrary: j ks)
  case 0
  then show ?case using assms(1,4) by (cases ks) (auto simp: weights_ok_def)
next
  case (Suc m)
  note le = fold_min_le [of "\<lambda>k. cheapest w m i k + mat w k j" "[0..<length w]" "cheapest w m i j"]
  have l: "length w = n" using assms(1) by (simp add: weights_ok_def square_def)
  show ?case
  proof (cases ks rule: rev_cases)
    case Nil
    then have "cheapest w m i j \<le> walk_cost w i ks" using Suc.IH [of j ks] Suc.prems by simp
    then show ?thesis using le by simp
  next
    case (snoc ls k)
    let ?k = "last (i # ls)"
    have j: "k = j" using Suc.prems(1) snoc by (simp add: walk_def)
    have w: "walk n i ?k ls" using Suc.prems(1) snoc by (simp add: walk_def)
    have k: "?k < n" using w assms(4) by (cases ls rule: rev_cases) (auto simp: walk_def)
    have "cheapest w m i ?k \<le> walk_cost w i ls" using Suc.IH [OF w] Suc.prems(2) snoc by simp
    moreover have "walk_cost w i ks = walk_cost w i ls + mat w ?k j"
      using walk_cost_append [OF w, of w "[j]"] snoc j by simp
    moreover have "cheapest w (Suc m) i j \<le> cheapest w m i ?k + mat w ?k j" using le k l by simp
    ultimately show ?thesis by simp
  qed
qed

text \<open>Cutting a cycle out.\<close>

lemma walk_cost_nonneg: "weights_ok n w \<Longrightarrow> walk n i j ks \<Longrightarrow> i < n \<Longrightarrow> 0 \<le> walk_cost w i ks"
proof (induction ks arbitrary: i)
  case (Cons k ks)
  then have "0 \<le> mat w i k" by (simp add: weights_ok_def)
  then show ?case using Cons.IH [of k] Cons.prems by simp
qed simp

lemma short_walk:
  assumes "weights_ok n w" "walk n i j ks" "i < n"
  shows "\<exists>ls. walk n i j ls \<and> length ls < n \<and> walk_cost w i ls \<le> walk_cost w i ks"
  using assms(2)
proof (induction ks rule: length_induct)
  case (1 ks)
  show ?case
  proof (cases "distinct (i # ks)")
    case True
    have "set (i # ks) \<subseteq> {..<n}" using 1(2) assms(3) by (simp add: walk_def)
    then have "length (i # ks) \<le> n" using card_mono [of "{..<n}" "set (i # ks)"] distinct_card [OF True] by simp
    then show ?thesis using 1(2) by auto
  next
    case False
    then obtain as bs cs x where d: "i # ks = as @ [x] @ bs @ [x] @ cs" using not_distinct_decomp by blast
    define ls where "ls = tl (as @ [x] @ cs)"
    have split: "\<exists>us. walk n i x us \<and> ks = us @ bs @ [x] @ cs \<and> ls = us @ cs"
    proof (cases as)
      case Nil
      then show ?thesis using d by (auto simp: ls_def intro: exI [of _ "[]"])
    next
      case (Cons a as')
      then show ?thesis using d 1(2) by (intro exI [of _ "as' @ [x]"]) (auto simp: ls_def walk_def)
    qed
    then obtain us where us: "walk n i x us" "ks = us @ (bs @ [x]) @ cs" "ls = us @ cs" by auto
    have x: "x < n" using 1(2) us(2) by (simp add: walk_def)
    have w: "walk n x x (bs @ [x])" "walk n x j cs" using 1(2) us by (auto simp: walk_def split: if_splits)
    have "0 \<le> walk_cost w x (bs @ [x])" by (rule walk_cost_nonneg [OF assms(1) w(1) x])
    then have le: "walk_cost w i ls \<le> walk_cost w i ks"
      by (simp add: us(2,3) walk_cost_append [OF us(1)] walk_cost_append [OF w(1), of w cs, simplified])
    have "walk n i j ls" unfolding us(3) by (rule walk_append [OF us(1) w(2)])
    moreover have "length ls < length ks" using us by simp
    ultimately show ?thesis using 1(1) le by (meson order_trans)
  qed
qed

lemma shortest_path_reference:
  assumes "weights_ok n w"
  shows "shortest_path w = Inr (map (\<lambda>i. map (\<lambda>j. cheapest w n i j) [0..<n]) [0..<n])"
proof (rule shortest_path_distances [OF assms])
  fix dist assume d: "shortest_path w = Inr dist" "distances w n dist"
  have e: "mat dist i j = cheapest w n i j" if ij: "i < n" "j < n" for i j
  proof (rule antisym)
    obtain ks where "walk n i j ks" "walk_cost w i ks = cheapest w n i j" using cheapest_walk [OF assms ij] by blast
    then show "mat dist i j \<le> cheapest w n i j" using d(2) ij unfolding distances_def by metis
    have "reached w n dist" using d(2) by (simp add: distances_def)
    then obtain ks where ks: "walk n i j ks" "walk_cost w i ks = mat dist i j" by (rule reachedE [OF _ ij])
    obtain ls where ls: "walk n i j ls" "length ls < n" "walk_cost w i ls \<le> walk_cost w i ks"
      using short_walk [OF assms ks(1) ij(1)] by blast
    have "cheapest w n i j \<le> walk_cost w i ls" using cheapest_least [OF assms ls(1)] ls(2) that(1) by simp
    then show "cheapest w n i j \<le> mat dist i j" using ls(3) ks(2) by simp
  qed
  have len: "length dist = n" "\<And>i. i < n \<Longrightarrow> length (dist ! i) = n"
    using d(2) by (auto simp: distances_def square_def)
  have "dist = map (\<lambda>i. map (\<lambda>j. cheapest w n i j) [0..<n]) [0..<n]"
    using len e by (intro nth_equalityI) (auto simp: mat_def intro: nth_equalityI)
  with d(1) show ?thesis by simp
qed

end
