(* ===== verification/PersistentTable.thy ===== *)
theory PersistentTable
  imports RubyMap RubySet Address
begin

text \<open>
  The table of persistent requests of the token protocol, ruby/system/PersistentTable.C: for
  every locked block the nodes that starve, those of them that want to write and those that
  were marked. \<open>NUM_NODES\<close> is the parameter \<open>n\<close>. The map hands out references to its
  entries; an operation that changes an entry puts the changed entry back.
\<close>

datatype access_type = AccessType_Read | AccessType_Write

record pt_entry =
  m_starving :: rset
  m_marked :: rset
  m_request_to_write :: rset

record persistent_table =
  pt_map :: "(address, pt_entry) rmap"
  pt_id :: nat

definition pt_init :: "nat \<Rightarrow> persistent_table" where
  "pt_init i = \<lparr>pt_map = [], pt_id = i\<rparr>"

text \<open>\<open>PersistentTableEntry entry;\<close>\<close>

definition new_entry :: "nat \<Rightarrow> pt_entry result" where
  "new_entry n =
     rbind (rset_new n) (\<lambda>s. Inr \<lparr>m_starving = s, m_marked = s, m_request_to_write = s\<rparr>)"

definition add_request :: "nat \<Rightarrow> access_type \<Rightarrow> pt_entry \<Rightarrow> pt_entry result" where
  "add_request locker type entry =
     rbind (rset_add locker (m_starving entry)) (\<lambda>st.
     if type = AccessType_Write then
       rbind (rset_add locker (m_request_to_write entry)) (\<lambda>wr.
       Inr (entry\<lparr>m_starving := st, m_request_to_write := wr\<rparr>))
     else Inr (entry\<lparr>m_starving := st\<rparr>))"

definition assert_result :: "bool result \<Rightarrow> 'a result \<Rightarrow> 'a result" where
  "assert_result b r = rbind b (\<lambda>v. check v Assert_failed r)"

definition persistentRequestLock ::
  "nat \<Rightarrow> address \<Rightarrow> nat \<Rightarrow> access_type \<Rightarrow> persistent_table \<Rightarrow> persistent_table result" where
  "persistentRequestLock n address locker type pt =
     check (address = line_address address) Assert_failed (
     if \<not> rmap_exist (pt_map pt) address then
       rbind (new_entry n) (\<lambda>entry0.
       rbind (add_request locker type entry0) (\<lambda>entry.
       Inr (pt\<lparr>pt_map := rmap_add address entry (pt_map pt)\<rparr>)))
     else
       rbind (rmap_lookup (pt_map pt) address) (\<lambda>entry0.
       assert_result (rbind (rset_isElement locker (m_starving entry0)) (\<lambda>b. Inr (\<not> b))) (
       rbind (add_request locker type entry0) (\<lambda>entry.
       assert_result (rset_isSubset (m_marked entry) (m_starving entry)) (
       Inr (pt\<lparr>pt_map := rmap_add address entry (pt_map pt)\<rparr>))))))"

definition persistentRequestUnlock ::
  "address \<Rightarrow> nat \<Rightarrow> persistent_table \<Rightarrow> persistent_table result" where
  "persistentRequestUnlock address unlocker pt =
     check (address = line_address address) Assert_failed (
     check (rmap_exist (pt_map pt) address) Assert_failed (
     rbind (rmap_lookup (pt_map pt) address) (\<lambda>entry0.
     assert_result (rset_isElement unlocker (m_starving entry0)) (
     assert_result (rset_isSubset (m_marked entry0) (m_starving entry0)) (
     rbind (rset_remove unlocker (m_starving entry0)) (\<lambda>st.
     rbind (rset_remove unlocker (m_marked entry0)) (\<lambda>mk.
     rbind (rset_remove unlocker (m_request_to_write entry0)) (\<lambda>wr.
     let entry = \<lparr>m_starving = st, m_marked = mk, m_request_to_write = wr\<rparr>;
         m = rmap_add address entry (pt_map pt)
     in assert_result (rset_isSubset mk st) (
        rbind (rset_isEmpty st) (\<lambda>empty.
        if empty then
          assert_result (rset_isEmpty mk) (
          rbind (rmap_erase address m) (\<lambda>m'. Inr (pt\<lparr>pt_map := m'\<rparr>)))
        else Inr (pt\<lparr>pt_map := m\<rparr>)))))))))))"

definition okToIssueStarving :: "address \<Rightarrow> persistent_table \<Rightarrow> bool result" where
  "okToIssueStarving address pt =
     check (address = line_address address) Assert_failed (
     if \<not> rmap_exist (pt_map pt) address then Inr True
     else
       rbind (rmap_lookup (pt_map pt) address) (\<lambda>entry.
       rbind (rset_isElement (pt_id pt) (m_starving entry)) (\<lambda>b.
       if b then Inr False else rset_isEmpty (m_marked entry))))"

definition findSmallest :: "address \<Rightarrow> persistent_table \<Rightarrow> nat result" where
  "findSmallest address pt =
     check (address = line_address address) Assert_failed (
     check (rmap_exist (pt_map pt) address) Assert_failed (
     rbind (rmap_lookup (pt_map pt) address) (\<lambda>entry. rset_smallestElement (m_starving entry))))"

definition typeOfSmallest :: "address \<Rightarrow> persistent_table \<Rightarrow> access_type result" where
  "typeOfSmallest address pt =
     check (address = line_address address) Assert_failed (
     check (rmap_exist (pt_map pt) address) Assert_failed (
     rbind (rmap_lookup (pt_map pt) address) (\<lambda>entry.
     rbind (rset_smallestElement (m_starving entry)) (\<lambda>i.
     rbind (rset_isElement i (m_request_to_write entry)) (\<lambda>b.
     Inr (if b then AccessType_Write else AccessType_Read))))))"

definition markEntries :: "address \<Rightarrow> persistent_table \<Rightarrow> persistent_table result" where
  "markEntries address pt =
     check (address = line_address address) Assert_failed (
     if rmap_exist (pt_map pt) address then
       rbind (rmap_lookup (pt_map pt) address) (\<lambda>entry.
       assert_result (rset_isEmpty (m_marked entry)) (
       Inr (pt\<lparr>pt_map := rmap_add address (entry\<lparr>m_marked := m_starving entry\<rparr>) (pt_map pt)\<rparr>)))
     else Inr pt)"

definition pt_isLocked :: "address \<Rightarrow> persistent_table \<Rightarrow> bool result" where
  "pt_isLocked address pt =
     check (address = line_address address) Assert_failed (Inr (rmap_exist (pt_map pt) address))"

section \<open>The abstract table\<close>

text \<open>
  A block is a triple of node sets: starving, marked and writing nodes. A block without an
  entry has three empty sets.
\<close>

definition entry_ok :: "nat \<Rightarrow> pt_entry \<Rightarrow> bool" where
  "entry_ok n e \<longleftrightarrow>
     set_ok (m_starving e) \<and> rs_size (m_starving e) = n \<and>
     set_ok (m_marked e) \<and> rs_size (m_marked e) = n \<and>
     set_ok (m_request_to_write e) \<and> rs_size (m_request_to_write e) = n \<and>
     elems (m_marked e) \<subseteq> elems (m_starving e) \<and>
     elems (m_request_to_write e) \<subseteq> elems (m_starving e)"

definition pt_inv :: "nat \<Rightarrow> persistent_table \<Rightarrow> bool" where
  "pt_inv n pt \<longleftrightarrow>
     0 < n \<and> n < 32 \<and> pt_id pt < n \<and> rmap_inv (pt_map pt) \<and>
     (\<forall>a e. map_of (pt_map pt) a = Some e \<longrightarrow> entry_ok n e \<and> elems (m_starving e) \<noteq> {})"

definition starving :: "persistent_table \<Rightarrow> address \<Rightarrow> nat set" where
  "starving pt a = (case map_of (pt_map pt) a of None \<Rightarrow> {} | Some e \<Rightarrow> elems (m_starving e))"

definition marked :: "persistent_table \<Rightarrow> address \<Rightarrow> nat set" where
  "marked pt a = (case map_of (pt_map pt) a of None \<Rightarrow> {} | Some e \<Rightarrow> elems (m_marked e))"

definition writing :: "persistent_table \<Rightarrow> address \<Rightarrow> nat set" where
  "writing pt a =
     (case map_of (pt_map pt) a of None \<Rightarrow> {} | Some e \<Rightarrow> elems (m_request_to_write e))"

lemma assert_result_True [simp]: "assert_result (Inr True) r = r"
  and assert_result_False [simp]: "assert_result (Inr False) r = Inl Assert_failed"
  by (simp_all add: assert_result_def)

lemma pt_inv_init: "0 < n \<Longrightarrow> n < 32 \<Longrightarrow> i < n \<Longrightarrow> pt_inv n (pt_init i)"
  by (simp add: pt_inv_def pt_init_def)

lemma pt_entryD:
  assumes "pt_inv n pt" "map_of (pt_map pt) a = Some e"
  shows "entry_ok n e" "elems (m_starving e) \<noteq> {}"
  using assms by (auto simp: pt_inv_def)

lemma new_entry_ok:
  "0 < n \<Longrightarrow> n < 32 \<Longrightarrow> \<exists>e. new_entry n = Inr e \<and> entry_ok n e \<and> elems (m_starving e) = {}
     \<and> elems (m_marked e) = {} \<and> elems (m_request_to_write e) = {}"
  using setSize_ok [of n] by (auto simp: new_entry_def rset_new_def entry_ok_def)

lemma add_request_ok:
  assumes "entry_ok n e" "i < n"
  shows "\<exists>e'. add_request i t e = Inr e' \<and> entry_ok n e'
    \<and> elems (m_starving e') = insert i (elems (m_starving e)) \<and> elems (m_marked e') = elems (m_marked e)
    \<and> elems (m_request_to_write e')
        = (if t = AccessType_Write then insert i (elems (m_request_to_write e))
           else elems (m_request_to_write e))"
proof -
  from assms(1) have s: "set_ok (m_starving e)" "rs_size (m_starving e) = n"
    "set_ok (m_request_to_write e)" "rs_size (m_request_to_write e) = n" by (auto simp: entry_ok_def)
  obtain st where st: "rset_add i (m_starving e) = Inr st" "set_ok st" "rs_size st = n"
    "elems st = insert i (elems (m_starving e))" using rset_add_ok [OF s(1), of i] s assms(2) by auto
  obtain wr where wr: "rset_add i (m_request_to_write e) = Inr wr" "set_ok wr" "rs_size wr = n"
    "elems wr = insert i (elems (m_request_to_write e))"
    using rset_add_ok [OF s(3), of i] s assms(2) by auto
  show ?thesis using st wr assms(1) by (auto simp: add_request_def entry_ok_def)
qed

lemma pt_inv_add:
  assumes "pt_inv n pt" "entry_ok n e" "elems (m_starving e) \<noteq> {}"
  shows "pt_inv n (pt\<lparr>pt_map := rmap_add a e (pt_map pt)\<rparr>)"
  using assms rmap.add_ok [of "pt_map pt" a e] by (auto simp: pt_inv_def)

lemma pt_abs_add:
  assumes "pt_inv n pt"
  shows "starving (pt\<lparr>pt_map := rmap_add a e (pt_map pt)\<rparr>) = (starving pt)(a := elems (m_starving e))"
    "marked (pt\<lparr>pt_map := rmap_add a e (pt_map pt)\<rparr>) = (marked pt)(a := elems (m_marked e))"
    "writing (pt\<lparr>pt_map := rmap_add a e (pt_map pt)\<rparr>) = (writing pt)(a := elems (m_request_to_write e))"
  using assms rmap.add_ok [of "pt_map pt" a e]
  by (auto simp: pt_inv_def starving_def marked_def writing_def fun_eq_iff)

section \<open>The operations on the abstract table\<close>

lemma lock_ok:
  assumes "pt_inv n pt" "a = line_address a" "i < n" "i \<notin> starving pt a"
  shows "\<exists>pt'. persistentRequestLock n a i t pt = Inr pt' \<and> pt_inv n pt'
    \<and> starving pt' = (starving pt)(a := insert i (starving pt a)) \<and> marked pt' = marked pt
    \<and> writing pt' = (writing pt)(a := (if t = AccessType_Write then insert i (writing pt a) else writing pt a))"
proof (cases "map_of (pt_map pt) a")
  case None
  have n: "0 < n" "n < 32" using assms(1) by (auto simp: pt_inv_def)
  from new_entry_ok [OF n] obtain e0 where e0: "new_entry n = Inr e0" "entry_ok n e0"
    "elems (m_starving e0) = {}" "elems (m_marked e0) = {}" "elems (m_request_to_write e0) = {}" by blast
  from add_request_ok [OF e0(2) assms(3), of t] obtain e where
    e: "add_request i t e0 = Inr e" "entry_ok n e" "elems (m_starving e) = {i}" "elems (m_marked e) = {}"
      "elems (m_request_to_write e) = (if t = AccessType_Write then {i} else {})" using e0 by auto
  have "pt_inv n (pt\<lparr>pt_map := rmap_add a e (pt_map pt)\<rparr>)" using e by (intro pt_inv_add assms(1)) auto
  moreover have "persistentRequestLock n a i t pt = Inr (pt\<lparr>pt_map := rmap_add a e (pt_map pt)\<rparr>)"
    using None assms(2) e0(1) e(1)
    by (simp add: persistentRequestLock_def rmap_exist_def flip: assms(2))
  ultimately show ?thesis using None e
    by (auto simp: pt_abs_add [OF assms(1)] starving_def [of pt] marked_def [of pt] writing_def [of pt]
        fun_eq_iff)
next
  case (Some e0)
  note e0 = pt_entryD [OF assms(1) Some]
  from add_request_ok [OF e0(1) assms(3), of t] obtain e where
    e: "add_request i t e0 = Inr e" "entry_ok n e"
      "elems (m_starving e) = insert i (elems (m_starving e0))" "elems (m_marked e) = elems (m_marked e0)"
      "elems (m_request_to_write e)
        = (if t = AccessType_Write then insert i (elems (m_request_to_write e0))
           else elems (m_request_to_write e0))" by blast
  have sub: "rset_isSubset (m_marked e) (m_starving e) = Inr True"
    using e(2) by (simp add: rset_isSubset_def entry_ok_def rset_isSuperset_ok)
  have ne: "rset_isElement i (m_starving e0) = Inr False"
    using assms(1,3,4) Some rset_isElement_ok [of i "m_starving e0"]
    by (simp add: starving_def pt_inv_def)
  have "pt_inv n (pt\<lparr>pt_map := rmap_add a e (pt_map pt)\<rparr>)" using e by (intro pt_inv_add assms(1)) auto
  moreover have "persistentRequestLock n a i t pt = Inr (pt\<lparr>pt_map := rmap_add a e (pt_map pt)\<rparr>)"
    using Some e(1) sub ne
    by (simp add: persistentRequestLock_def rmap_exist_def rmap_lookup_def flip: assms(2))
  ultimately show ?thesis using Some e
    by (auto simp: pt_abs_add [OF assms(1)] starving_def [of pt] marked_def [of pt] writing_def [of pt]
        fun_eq_iff)
qed

lemma lock_twice_fails:
  assumes "pt_inv n pt" "i \<in> starving pt a"
  shows "persistentRequestLock n a i t pt = Inl Assert_failed"
proof (cases "map_of (pt_map pt) a")
  case (Some e)
  then have i: "i \<in> elems (m_starving e)" using assms(2) by (simp add: starving_def)
  have s: "set_ok (m_starving e)" "rs_size (m_starving e) = n" "n < 32"
    using pt_entryD [OF assms(1) Some] assms(1) by (auto simp: entry_ok_def pt_inv_def)
  have "i < 32" using set_ok_bound [OF s(1) i] s by simp
  then show ?thesis using Some i
    by (simp add: persistentRequestLock_def rmap_exist_def rmap_lookup_def rset_isElement_ok check_def)
qed (use assms(2) in \<open>simp add: starving_def\<close>)

lemma unlock_ok:
  assumes "pt_inv n pt" "a = line_address a" "i \<in> starving pt a"
  shows "\<exists>pt'. persistentRequestUnlock a i pt = Inr pt' \<and> pt_inv n pt'
    \<and> starving pt' = (starving pt)(a := starving pt a - {i})
    \<and> marked pt' = (marked pt)(a := marked pt a - {i})
    \<and> writing pt' = (writing pt)(a := writing pt a - {i})"
proof -
  obtain e0 where Some: "map_of (pt_map pt) a = Some e0" and i: "i \<in> elems (m_starving e0)"
    using assms(3) by (auto simp: starving_def split: option.splits)
  have ok: "entry_ok n e0" by (rule pt_entryD [OF assms(1) Some])
  have s: "set_ok (m_starving e0)" "rs_size (m_starving e0) = n" "set_ok (m_marked e0)"
    "rs_size (m_marked e0) = n" "set_ok (m_request_to_write e0)" "rs_size (m_request_to_write e0) = n"
    using ok by (auto simp: entry_ok_def)
  have n: "n < 32" "i < n" using assms(1) set_ok_bound [OF s(1) i] s by (auto simp: pt_inv_def)
  obtain st where st: "rset_remove i (m_starving e0) = Inr st" "set_ok st" "rs_size st = n"
    "elems st = elems (m_starving e0) - {i}" using rset_remove_ok [OF s(1), of i] s n by auto
  obtain mk where mk: "rset_remove i (m_marked e0) = Inr mk" "set_ok mk" "rs_size mk = n"
    "elems mk = elems (m_marked e0) - {i}" using rset_remove_ok [OF s(3), of i] s n by auto
  obtain wr where wr: "rset_remove i (m_request_to_write e0) = Inr wr" "set_ok wr" "rs_size wr = n"
    "elems wr = elems (m_request_to_write e0) - {i}" using rset_remove_ok [OF s(5), of i] s n by auto
  let ?e = "\<lparr>m_starving = st, m_marked = mk, m_request_to_write = wr\<rparr>"
  let ?m = "rmap_add a ?e (pt_map pt)"
  have eok: "entry_ok n ?e" using ok st mk wr by (auto simp: entry_ok_def)
  have sub: "rset_isSubset (m_marked e0) (m_starving e0) = Inr True" "rset_isSubset mk st = Inr True"
    using ok eok by (simp_all add: rset_isSubset_def entry_ok_def rset_isSuperset_ok)
  have el: "rset_isElement i (m_starving e0) = Inr True"
    using n i rset_isElement_ok [of i "m_starving e0"] by simp
  have inv: "rmap_inv (pt_map pt)" using assms(1) by (simp add: pt_inv_def)
  have emp: "rset_isEmpty mk = Inr True" if "elems st = {}"
    using eok that mk by (simp add: rset_isEmpty_ok entry_ok_def)
  show ?thesis
  proof (cases "elems st = {}")
    case False
    have "persistentRequestUnlock a i pt = Inr (pt\<lparr>pt_map := ?m\<rparr>)"
      using Some st mk wr sub el False
      by (simp add: persistentRequestUnlock_def rmap_exist_def rmap_lookup_def rset_isEmpty_ok Let_def
          flip: assms(2))
    moreover have "pt_inv n (pt\<lparr>pt_map := ?m\<rparr>)" using False eok by (intro pt_inv_add assms(1)) auto
    ultimately show ?thesis using Some st mk wr
      by (auto simp: pt_abs_add [OF assms(1)] starving_def [of pt] marked_def [of pt] writing_def [of pt]
        fun_eq_iff)
  next
    case True
    have x: "rmap_exist ?m a" by (simp add: rmap.exist_add [OF inv])
    obtain m' where m': "rmap_erase a ?m = Inr m'" "rmap_inv m'" "map_of m' = (map_of (pt_map pt))(a := None)"
      using rmap.erase_present [OF _ x] rmap.add_ok [OF inv, of a ?e] by auto
    have "persistentRequestUnlock a i pt = Inr (pt\<lparr>pt_map := m'\<rparr>)"
      using Some st mk wr sub el True emp m'
      by (simp add: persistentRequestUnlock_def rmap_exist_def rmap_lookup_def rset_isEmpty_ok Let_def
          flip: assms(2))
    moreover have "pt_inv n (pt\<lparr>pt_map := m'\<rparr>)" using assms(1) m' by (auto simp: pt_inv_def)
    moreover have "elems (m_marked e0) \<subseteq> {i}" "elems (m_request_to_write e0) \<subseteq> {i}"
      using ok True st by (auto simp: entry_ok_def)
    ultimately show ?thesis using Some st True m'
      by (auto simp: starving_def marked_def writing_def fun_eq_iff)
  qed
qed

lemma mark_ok:
  assumes "pt_inv n pt" "a = line_address a" "marked pt a = {}"
  shows "\<exists>pt'. markEntries a pt = Inr pt' \<and> pt_inv n pt' \<and> starving pt' = starving pt
    \<and> marked pt' = (marked pt)(a := starving pt a) \<and> writing pt' = writing pt"
proof (cases "map_of (pt_map pt) a")
  case None
  then show ?thesis using assms
    by (auto simp: markEntries_def rmap_exist_def starving_def marked_def fun_eq_iff)
next
  case (Some e)
  note e = pt_entryD [OF assms(1) Some]
  let ?e = "e\<lparr>m_marked := m_starving e\<rparr>"
  have "rset_isEmpty (m_marked e) = Inr True"
    using assms(3) Some e by (simp add: marked_def rset_isEmpty_ok entry_ok_def)
  then have "markEntries a pt = Inr (pt\<lparr>pt_map := rmap_add a ?e (pt_map pt)\<rparr>)"
    using Some by (simp add: markEntries_def rmap_exist_def rmap_lookup_def flip: assms(2))
  moreover have "pt_inv n (pt\<lparr>pt_map := rmap_add a ?e (pt_map pt)\<rparr>)"
    using e by (intro pt_inv_add assms(1)) (auto simp: entry_ok_def)
  ultimately show ?thesis using Some
    by (auto simp: pt_abs_add [OF assms(1)] starving_def [of pt] marked_def [of pt] writing_def [of pt]
        fun_eq_iff)
qed

lemma isLocked_iff:
  assumes "pt_inv n pt" "a = line_address a"
  shows "pt_isLocked a pt = Inr (starving pt a \<noteq> {})"
  using assms pt_entryD(2) [OF assms(1), of a]
  by (auto simp: pt_isLocked_def rmap_exist_def starving_def split: option.splits)

lemma okToIssue_iff:
  assumes "pt_inv n pt" "a = line_address a"
  shows "okToIssueStarving a pt = Inr (pt_id pt \<notin> starving pt a \<and> marked pt a = {})"
proof -
  have "pt_id pt < 32" using assms(1) by (simp add: pt_inv_def)
  then show ?thesis using pt_entryD(1) [OF assms(1), of a]
    by (auto simp: okToIssueStarving_def rmap_exist_def rmap_lookup_def starving_def marked_def
        rset_isElement_ok rset_isEmpty_ok entry_ok_def simp flip: assms(2) split: option.splits)
qed

lemma smallest_ok:
  assumes "pt_inv n pt" "a = line_address a" "starving pt a \<noteq> {}"
  shows "findSmallest a pt = Inr (Min (starving pt a))"
    and "typeOfSmallest a pt
      = Inr (if Min (starving pt a) \<in> writing pt a then AccessType_Write else AccessType_Read)"
proof -
  obtain e where Some: "map_of (pt_map pt) a = Some e"
    using assms(3) by (auto simp: starving_def split: option.splits)
  note e = pt_entryD [OF assms(1) Some]
  have s: "set_ok (m_starving e)" "rs_size (m_starving e) = n" using e(1) by (auto simp: entry_ok_def)
  have m: "rset_smallestElement (m_starving e) = Inr (Min (elems (m_starving e)))"
    by (rule rset_smallestElement_ok [OF s(1) e(2)])
  have "Min (elems (m_starving e)) \<in> elems (m_starving e)" by (rule Min_in [OF elems_finite [OF s(1)] e(2)])
  then have "Min (elems (m_starving e)) < 32"
    using set_ok_bound [OF s(1)] s(2) assms(1) by (fastforce simp: pt_inv_def)
  then show "findSmallest a pt = Inr (Min (starving pt a))"
    "typeOfSmallest a pt
      = Inr (if Min (starving pt a) \<in> writing pt a then AccessType_Write else AccessType_Read)"
    using Some m
    by (simp_all add: findSmallest_def typeOfSmallest_def rmap_exist_def rmap_lookup_def starving_def
        writing_def rset_isElement_ok flip: assms(2))
qed

section \<open>Runs\<close>

text \<open>What the controller does to the table between two decisions: a list of the calls of the three operations.\<close>

datatype pt_event = Lock address nat access_type | Unlock address nat | Mark address

fun pt_do :: "nat \<Rightarrow> pt_event \<Rightarrow> persistent_table \<Rightarrow> persistent_table result" where
  "pt_do n (Lock a i t) pt = persistentRequestLock n a i t pt"
| "pt_do n (Unlock a i) pt = persistentRequestUnlock a i pt"
| "pt_do n (Mark a) pt = markEntries a pt"

fun of_node :: "nat \<Rightarrow> pt_event \<Rightarrow> bool" where
  "of_node n (Lock a i t) \<longleftrightarrow> i < n"
| "of_node n (Unlock a i) \<longleftrightarrow> i < n"
| "of_node n (Mark a) \<longleftrightarrow> True"

lemma rset_of:
  assumes "pt_inv n pt" "map_of (pt_map pt) a = Some e"
  shows "i < n \<Longrightarrow> rset_isElement i (m_starving e) = Inr (i \<in> elems (m_starving e))"
    "rset_isEmpty (m_marked e) = Inr (elems (m_marked e) = {})"
  using pt_entryD(1) [OF assms] assms(1) by (auto simp: entry_ok_def pt_inv_def rset_isElement_ok rset_isEmpty_ok)

lemma unlock_starving:
  assumes "pt_inv n pt" "persistentRequestUnlock a i pt = Inr pt'" "i < n"
  shows "a = line_address a \<and> i \<in> starving pt a"
proof -
  obtain e where e: "map_of (pt_map pt) a = Some e" "rset_isElement i (m_starving e) = Inr True" "a = line_address a"
    using assms(2) by (auto simp: persistentRequestUnlock_def assert_result_def rbind_eq_Inr rmap_exist_def rmap_lookup_def)
  then show ?thesis using rset_of(1) [OF assms(1) e(1) assms(3)] by (simp add: starving_def)
qed

lemma lock_not_starving:
  assumes "pt_inv n pt" "persistentRequestLock n a i t pt = Inr pt'"
  shows "a = line_address a \<and> i \<notin> starving pt a"
  using assms lock_twice_fails [OF assms(1), of i a t] by (auto simp: persistentRequestLock_def)

lemma mark_iff:
  assumes "pt_inv n pt" "a = line_address a"
  shows "markEntries a pt = Inl Assert_failed \<longleftrightarrow> marked pt a \<noteq> {}"
proof (cases "marked pt a = {}")
  case True
  then show ?thesis using mark_ok [OF assms] by auto
next
  case False
  then obtain e where e: "map_of (pt_map pt) a = Some e" "elems (m_marked e) \<noteq> {}"
    by (auto simp: marked_def split: option.splits)
  then show ?thesis using rset_of(2) [OF assms(1) e(1)] False assms(2)
    by (simp add: markEntries_def rmap_exist_def rmap_lookup_def check_def)
qed

lemma pt_id_kept: "pt_do n v pt = Inr pt' \<Longrightarrow> pt_id pt' = pt_id pt"
  by (cases v) (auto simp: persistentRequestLock_def persistentRequestUnlock_def markEntries_def assert_result_def
      rbind_eq_Inr Let_def split: if_splits)

text \<open>One call keeps the invariant, and takes a node off the marked ones exactly when it unlocks it.\<close>

lemma pt_do_ok:
  assumes "pt_inv n pt" "pt_do n v pt = Inr pt'" "of_node n v" "v \<noteq> Mark a"
  shows "pt_inv n pt' \<and> marked pt' a = marked pt a - {i. v = Unlock a i}"
proof (cases v)
  case (Lock b i t)
  then show ?thesis using lock_ok [of n pt b i t] lock_not_starving [OF assms(1), of b i t pt'] assms by auto
next
  case (Unlock b i)
  then show ?thesis using unlock_ok [of n pt b i] unlock_starving [OF assms(1), of b i pt'] assms by auto
next
  case (Mark b)
  have l: "b = line_address b" using assms(2) Mark by (auto simp: markEntries_def)
  have "marked pt b = {}" using mark_iff [OF assms(1) l] assms(2) Mark by simp
  then show ?thesis using mark_ok [OF assms(1) l] assms(2,4) Mark by auto
qed

lemma pt_run_ok:
  assumes "pt_inv n pt" "rfold (pt_do n) vs pt = Inr pt'" "list_all (of_node n) vs" "Mark a \<notin> set vs"
  shows "pt_inv n pt' \<and> pt_id pt' = pt_id pt \<and> marked pt' a = marked pt a - {i. Unlock a i \<in> set vs}"
  using assms
proof (induction vs arbitrary: pt)
  case (Cons v vs)
  then obtain pt1 where 1: "pt_do n v pt = Inr pt1" "rfold (pt_do n) vs pt1 = Inr pt'" by (auto simp: rbind_eq_Inr)
  note s = pt_do_ok [OF Cons.prems(1) 1(1), of a] pt_id_kept [OF 1(1)]
  then have "pt_inv n pt' \<and> pt_id pt' = pt_id pt1 \<and> marked pt' a = marked pt1 a - {i. Unlock a i \<in> set vs}"
    using Cons.IH [OF _ 1(2)] Cons.prems(3,4) by auto
  then show ?case using s Cons.prems(3,4) by auto
qed simp

end
