(* ===== verification/TimerTable.thy ===== *)
theory TimerTable
  imports RubyMap Address EventQueue
begin

text \<open>
  The timers of ruby/system/TimerTable.C: a map from block addresses to times, with a cached
  minimum. \<open>isReady\<close> and \<open>readyAddress\<close> change the cache (its fields are \<open>mutable\<close>), so
  they return the new table. The order in which the hash map enumerates its keys is the
  argument \<open>ks\<close>; the lemmas hold for every order.
\<close>

record timer_table =
  tt_map :: "(address, int) rmap"
  m_next_valid :: bool
  m_next_time :: int
  m_next_address :: address
  tt_consumer_ptr :: "nat option"

definition tt_init :: timer_table where
  "tt_init = \<lparr>tt_map = [], m_next_valid = False, m_next_time = 0, m_next_address = 0,
     tt_consumer_ptr = None\<rparr>"

definition tt_setConsumer :: "nat option \<Rightarrow> timer_table \<Rightarrow> timer_table result" where
  "tt_setConsumer c tt =
     check (tt_consumer_ptr tt = None) Assert_failed (Inr (tt\<lparr>tt_consumer_ptr := c\<rparr>))"

text \<open>The loop that searches the minimum time, over the keys after the first one.\<close>

fun next_loop :: "address list \<Rightarrow> timer_table \<Rightarrow> timer_table result" where
  "next_loop [] tt = Inr tt"
| "next_loop (maybe_next_address # ks) tt =
     rbind (rmap_lookup (tt_map tt) maybe_next_address) (\<lambda>maybe_next_time.
     if maybe_next_time < m_next_time tt then
       next_loop ks (tt\<lparr>m_next_time := maybe_next_time, m_next_address := maybe_next_address\<rparr>)
     else next_loop ks tt)"

definition updateNext :: "address list \<Rightarrow> timer_table \<Rightarrow> timer_table result" where
  "updateNext ks tt =
     (if rmap_size (tt_map tt) = 0 then
        check (m_next_valid tt = False) Assert_failed (Inr tt)
      else
        (case ks of
           [] \<Rightarrow> Inl Assert_failed
         | k # ks' \<Rightarrow>
             rbind (rmap_lookup (tt_map tt) k) (\<lambda>t.
             rbind (next_loop ks' (tt\<lparr>m_next_address := k, m_next_time := t\<rparr>)) (\<lambda>tt'.
             Inr (tt'\<lparr>m_next_valid := True\<rparr>)))))"

definition tt_isReady :: "address list \<Rightarrow> 's world \<Rightarrow> timer_table \<Rightarrow> (bool \<times> timer_table) result" where
  "tt_isReady ks w tt =
     (if rmap_size (tt_map tt) = 0 then Inr (False, tt)
      else
        rbind (if \<not> m_next_valid tt then updateNext ks tt else Inr tt) (\<lambda>tt'.
        check (m_next_valid tt') Assert_failed (Inr (w_time w \<ge> m_next_time tt', tt'))))"

definition readyAddress ::
  "address list \<Rightarrow> 's world \<Rightarrow> timer_table \<Rightarrow> (address \<times> timer_table) result" where
  "readyAddress ks w tt =
     rbind (tt_isReady ks w tt) (\<lambda>(r, tt').
     check r Assert_failed (
     rbind (if \<not> m_next_valid tt' then updateNext ks tt' else Inr tt') (\<lambda>tt''.
     check (m_next_valid tt'') Assert_failed (Inr (m_next_address tt'', tt'')))))"

definition isSet :: "address \<Rightarrow> timer_table \<Rightarrow> bool" where
  "isSet address tt = rmap_exist (tt_map tt) address"

definition tt_set ::
  "address \<Rightarrow> int \<Rightarrow> 's world \<Rightarrow> timer_table \<Rightarrow> (timer_table \<times> 's world) result" where
  "tt_set address relative_latency w tt =
     check (address = line_address address) Assert_failed (
     check (relative_latency > 0) Assert_failed (
     check (rmap_exist (tt_map tt) address = False) Assert_failed (
     let ready_time = w_time w + relative_latency;
         tt1 = tt\<lparr>tt_map := rmap_add address ready_time (tt_map tt)\<rparr>
     in check (tt_consumer_ptr tt1 \<noteq> None) Assert_failed (
        rbind (scheduleEventAbsolute (tt_consumer_ptr tt1) ready_time w) (\<lambda>w'.
        let tt2 = tt1\<lparr>m_next_valid := False\<rparr>
        in Inr (if ready_time \<le> m_next_time tt2 then tt2\<lparr>m_next_valid := False\<rparr> else tt2, w'))))))"

definition tt_unset :: "address \<Rightarrow> timer_table \<Rightarrow> timer_table result" where
  "tt_unset address tt =
     check (address = line_address address) Assert_failed (
     check (rmap_exist (tt_map tt) address = True) Assert_failed (
     rbind (rmap_erase address (tt_map tt)) (\<lambda>m.
     let tt1 = tt\<lparr>tt_map := m\<rparr>
     in Inr (if address = m_next_address tt1 then tt1\<lparr>m_next_valid := False\<rparr> else tt1))))"

section \<open>The cached minimum is right\<close>

definition is_min_timer :: "(address \<rightharpoonup> int) \<Rightarrow> address \<Rightarrow> int \<Rightarrow> bool" where
  "is_min_timer m a t \<longleftrightarrow> m a = Some t \<and> (\<forall>b u. m b = Some u \<longrightarrow> t \<le> u)"

definition tt_inv :: "timer_table \<Rightarrow> bool" where
  "tt_inv tt \<longleftrightarrow>
     rmap_inv (tt_map tt) \<and>
     (m_next_valid tt \<longrightarrow> is_min_timer (map_of (tt_map tt)) (m_next_address tt) (m_next_time tt))"

abbreviation timers :: "timer_table \<Rightarrow> address \<rightharpoonup> int" where
  "timers tt \<equiv> map_of (tt_map tt)"

lemma tt_inv_init: "tt_inv tt_init"
  by (simp add: tt_inv_def tt_init_def)

lemma next_loop_ok:
  assumes "set ks \<subseteq> dom (timers tt)" "timers tt (m_next_address tt) = Some (m_next_time tt)"
  shows "\<exists>tt'. next_loop ks tt = Inr tt' \<and> tt_map tt' = tt_map tt
    \<and> tt_consumer_ptr tt' = tt_consumer_ptr tt
    \<and> timers tt (m_next_address tt') = Some (m_next_time tt') \<and> m_next_time tt' \<le> m_next_time tt
    \<and> (\<forall>k \<in> set ks. \<forall>u. timers tt k = Some u \<longrightarrow> m_next_time tt' \<le> u)"
  using assms
proof (induction ks arbitrary: tt)
  case Nil
  then show ?case by auto
next
  case (Cons k ks)
  obtain u where u: "timers tt k = Some u" using Cons.prems(1) by auto
  show ?case
  proof (cases "u < m_next_time tt")
    case True
    let ?t = "tt\<lparr>m_next_time := u, m_next_address := k\<rparr>"
    have "\<exists>tt'. next_loop ks ?t = Inr tt' \<and> tt_map tt' = tt_map ?t
      \<and> tt_consumer_ptr tt' = tt_consumer_ptr ?t
      \<and> timers ?t (m_next_address tt') = Some (m_next_time tt') \<and> m_next_time tt' \<le> m_next_time ?t
      \<and> (\<forall>k \<in> set ks. \<forall>u. timers ?t k = Some u \<longrightarrow> m_next_time tt' \<le> u)"
      by (rule Cons.IH) (use Cons.prems u in auto)
    then show ?thesis using u True by (auto simp: rmap_lookup_def)
  next
    case False
    have "\<exists>tt'. next_loop ks tt = Inr tt' \<and> tt_map tt' = tt_map tt
      \<and> tt_consumer_ptr tt' = tt_consumer_ptr tt
      \<and> timers tt (m_next_address tt') = Some (m_next_time tt') \<and> m_next_time tt' \<le> m_next_time tt
      \<and> (\<forall>k \<in> set ks. \<forall>u. timers tt k = Some u \<longrightarrow> m_next_time tt' \<le> u)"
      by (rule Cons.IH) (use Cons.prems in auto)
    then show ?thesis using u False by (auto simp: rmap_lookup_def)
  qed
qed

lemma updateNext_ok:
  assumes "rmap_inv (tt_map tt)" "set ks = dom (timers tt)" "timers tt \<noteq> Map.empty"
  shows "\<exists>tt'. updateNext ks tt = Inr tt' \<and> tt_inv tt' \<and> m_next_valid tt'
    \<and> tt_map tt' = tt_map tt \<and> tt_consumer_ptr tt' = tt_consumer_ptr tt"
proof -
  have "ks \<noteq> []" using assms(2,3) by (metis dom_eq_empty_conv set_empty)
  then obtain k ks' where ks: "ks = k # ks'" by (cases ks) auto
  obtain t where t: "timers tt k = Some t" using assms(2) ks by auto
  have s: "rmap_size (tt_map tt) \<noteq> 0" using assms(3) by (auto simp: rmap_size_def)
  let ?t = "tt\<lparr>m_next_address := k, m_next_time := t\<rparr>"
  have "set ks' \<subseteq> dom (timers ?t)" "timers ?t (m_next_address ?t) = Some (m_next_time ?t)"
    using assms(2) ks t by auto
  from next_loop_ok [OF this] obtain tt' where
    tt': "next_loop ks' ?t = Inr tt'" "tt_map tt' = tt_map tt" "tt_consumer_ptr tt' = tt_consumer_ptr tt"
      "timers tt (m_next_address tt') = Some (m_next_time tt')" "m_next_time tt' \<le> t"
      "\<forall>k \<in> set ks'. \<forall>u. timers tt k = Some u \<longrightarrow> m_next_time tt' \<le> u" by auto
  have "is_min_timer (timers tt) (m_next_address tt') (m_next_time tt')"
    unfolding is_min_timer_def
  proof (intro conjI allI impI)
    fix b u assume b: "timers tt b = Some u"
    then have "b \<in> set ks" using assms(2) by auto
    then show "m_next_time tt' \<le> u" using b tt'(5,6) t ks by auto
  qed (rule tt'(4))
  then show ?thesis using assms(1) ks t s tt'(1-3)
    by (auto simp: updateNext_def rmap_lookup_def tt_inv_def)
qed

lemma isReady_ok:
  assumes "tt_inv tt" "set ks = dom (timers tt)"
  shows "\<exists>tt'. tt_isReady ks w tt = Inr (\<exists>a t. timers tt a = Some t \<and> t \<le> w_time w, tt')
    \<and> tt_inv tt' \<and> tt_map tt' = tt_map tt \<and> tt_consumer_ptr tt' = tt_consumer_ptr tt
    \<and> (timers tt \<noteq> Map.empty \<longrightarrow> m_next_valid tt')"
proof (cases "timers tt = Map.empty")
  case True
  then have "tt_map tt = []" by simp
  then show ?thesis using assms True by (simp add: tt_isReady_def rmap_size_def)
next
  case False
  obtain tt' where tt': "(if \<not> m_next_valid tt then updateNext ks tt else Inr tt) = Inr tt'"
    "tt_inv tt'" "m_next_valid tt'" "tt_map tt' = tt_map tt" "tt_consumer_ptr tt' = tt_consumer_ptr tt"
  proof (cases "m_next_valid tt")
    case True
    then show ?thesis using that [of tt] assms(1) by simp
  next
    case nv: False
    have "rmap_inv (tt_map tt)" using assms(1) by (simp add: tt_inv_def)
    from updateNext_ok [OF this assms(2) False] nv show ?thesis using that by auto
  qed
  have m: "is_min_timer (timers tt) (m_next_address tt') (m_next_time tt')"
    using tt'(2-4) by (simp add: tt_inv_def)
  have "(\<exists>a t. timers tt a = Some t \<and> t \<le> w_time w) \<longleftrightarrow> m_next_time tt' \<le> w_time w"
    using m by (auto simp: is_min_timer_def dest: order_trans)
  moreover have "rmap_size (tt_map tt) \<noteq> 0" using False by (auto simp: rmap_size_def)
  ultimately show ?thesis using tt' False by (simp add: tt_isReady_def)
qed

lemma readyAddress_ok:
  assumes "tt_inv tt" "set ks = dom (timers tt)" "timers tt a = Some t" "t \<le> w_time w"
  shows "\<exists>b tt' u. readyAddress ks w tt = Inr (b, tt') \<and> tt_inv tt' \<and> tt_map tt' = tt_map tt
    \<and> timers tt b = Some u \<and> u \<le> w_time w \<and> is_min_timer (timers tt) b u"
proof -
  have r: "(\<exists>a t. timers tt a = Some t \<and> t \<le> w_time w) = True" using assms(3,4) by auto
  obtain tt' where tt': "tt_isReady ks w tt = Inr (True, tt')" "tt_inv tt'" "tt_map tt' = tt_map tt"
    "m_next_valid tt'" using isReady_ok [OF assms(1,2), of w] assms(3) unfolding r by auto
  have m: "is_min_timer (timers tt) (m_next_address tt') (m_next_time tt')"
    using tt'(2-4) by (simp add: tt_inv_def)
  then have "m_next_time tt' \<le> w_time w" using assms(3,4) by (force simp: is_min_timer_def)
  then show ?thesis using tt' m
    by (intro exI [of _ "m_next_address tt'"] exI [of _ tt'] exI [of _ "m_next_time tt'"])
       (auto simp: readyAddress_def is_min_timer_def)
qed

lemma tt_set_ok:
  assumes "tt_inv tt" "evq_inv w" "a = line_address a" "0 < d" "timers tt a = None"
    "tt_consumer_ptr tt = Some k"
  shows "\<exists>tt' w'. tt_set a d w tt = Inr (tt', w') \<and> tt_inv tt'
    \<and> timers tt' = (timers tt)(a \<mapsto> w_time w + d)
    \<and> scheduleEventAbsolute (Some k) (w_time w + d) w = Inr w'"
proof -
  have i: "rmap_inv (tt_map tt)" using assms(1) by (simp add: tt_inv_def)
  obtain w' where "scheduleEventAbsolute (Some k) (w_time w + d) w = Inr w'"
    using scheduleEventAbsolute_ok [OF assms(2), of "w_time w + d" k] assms(4) by auto
  then show ?thesis using assms(4-6) rmap.add_ok [OF i, of a "w_time w + d"]
    by (simp add: tt_set_def Let_def rmap_exist_def tt_inv_def flip: assms(3))
qed

lemma tt_unset_ok:
  assumes "tt_inv tt" "a = line_address a" "timers tt a \<noteq> None"
  shows "\<exists>tt'. tt_unset a tt = Inr tt' \<and> tt_inv tt' \<and> timers tt' = (timers tt)(a := None)"
proof -
  have i: "rmap_inv (tt_map tt)" using assms(1) by (simp add: tt_inv_def)
  have x: "rmap_exist (tt_map tt) a" using assms(3) by (simp add: rmap_exist_def)
  obtain m where m: "rmap_erase a (tt_map tt) = Inr m" "rmap_inv m" "map_of m = (timers tt)(a := None)"
    using rmap.erase_present [OF i x] by blast
  then show ?thesis using assms(1) x
    by (auto simp: tt_unset_def Let_def tt_inv_def is_min_timer_def simp flip: assms(2))
qed

end
