(* ===== verification/TBETable.thy ===== *)
theory TBETable
  imports RubyMap Address
begin

text \<open>
  The table of transaction buffer entries, ruby/system/TBETable.C. The entries are made by
  \<open>clone\<close> of a blank entry whose class the protocol compiler generates: here they are values
  of any type \<open>'e\<close> and a new entry is the value \<open>m_blank_entry\<close>. \<open>NUMBER_OF_TBES\<close> is
  the parameter \<open>n\<close>. The sample given to the profiler on an allocation is not part of the
  table.
\<close>

record 'e tbe_table =
  tbe_map :: "(address, 'e) rmap"
  m_blank_entry :: 'e

definition tbe_init :: "'e \<Rightarrow> 'e tbe_table" where
  "tbe_init entry = \<lparr>tbe_map = [], m_blank_entry = entry\<rparr>"

definition tbe_isPresent :: "nat \<Rightarrow> address \<Rightarrow> 'e tbe_table \<Rightarrow> bool result" where
  "tbe_isPresent n address t =
     check (address = line_address address) Assert_failed (
     check (rmap_size (tbe_map t) \<le> n) Assert_failed (Inr (rmap_exist (tbe_map t) address)))"

definition tbe_allocate :: "nat \<Rightarrow> address \<Rightarrow> 'e tbe_table \<Rightarrow> 'e tbe_table result" where
  "tbe_allocate n address t =
     rbind (tbe_isPresent n address t) (\<lambda>p.
     check (p = False) Assert_failed (
     check (rmap_size (tbe_map t) < n) Assert_failed (
     Inr (t\<lparr>tbe_map := rmap_add address (m_blank_entry t) (tbe_map t)\<rparr>))))"

definition tbe_deallocate :: "nat \<Rightarrow> address \<Rightarrow> 'e tbe_table \<Rightarrow> 'e tbe_table result" where
  "tbe_deallocate n address t =
     rbind (tbe_isPresent n address t) (\<lambda>p.
     check (p = True) Assert_failed (
     check (rmap_size (tbe_map t) > 0) Assert_failed (
     rbind (rmap_lookup (tbe_map t) address) (\<lambda>e.
     rbind (rmap_erase address (tbe_map t)) (\<lambda>m. Inr (t\<lparr>tbe_map := m\<rparr>))))))"

definition tbe_lookup :: "nat \<Rightarrow> address \<Rightarrow> 'e tbe_table \<Rightarrow> 'e result" where
  "tbe_lookup n address t =
     rbind (tbe_isPresent n address t) (\<lambda>p.
     check (p = True) Assert_failed (rmap_lookup (tbe_map t) address))"

definition tbe_areNSlotsAvailable :: "nat \<Rightarrow> int \<Rightarrow> 'e tbe_table \<Rightarrow> bool" where
  "tbe_areNSlotsAvailable n k t \<longleftrightarrow> int n - int (rmap_size (tbe_map t)) \<ge> k"

definition tbe_inv :: "nat \<Rightarrow> 'e tbe_table \<Rightarrow> bool" where
  "tbe_inv n t \<longleftrightarrow> rmap_inv (tbe_map t) \<and> rmap_size (tbe_map t) \<le> n
     \<and> (\<forall>a \<in> dom (map_of (tbe_map t)). a = line_address a)"

abbreviation tbes :: "'e tbe_table \<Rightarrow> address \<rightharpoonup> 'e" where
  "tbes t \<equiv> map_of (tbe_map t)"

lemma tbe_inv_init: "tbe_inv n (tbe_init e)"
  by (simp add: tbe_inv_def tbe_init_def rmap_size_def)

lemma tbe_isPresent_ok:
  "tbe_inv n t \<Longrightarrow> a = line_address a \<Longrightarrow> tbe_isPresent n a t = Inr (tbes t a \<noteq> None)"
  by (simp add: tbe_isPresent_def tbe_inv_def rmap_exist_def check_def)

lemma tbe_allocate_ok:
  assumes "tbe_inv n t" "a = line_address a" "tbes t a = None" "tbe_areNSlotsAvailable n 1 t"
  shows "\<exists>t'. tbe_allocate n a t = Inr t' \<and> tbe_inv n t' \<and> tbes t' = (tbes t)(a \<mapsto> m_blank_entry t)
    \<and> m_blank_entry t' = m_blank_entry t"
proof -
  have i: "rmap_inv (tbe_map t)" and s: "rmap_size (tbe_map t) < n"
    using assms(1,4) by (auto simp: tbe_inv_def tbe_areNSlotsAvailable_def)
  have "rmap_size (rmap_add a (m_blank_entry t) (tbe_map t)) \<le> n"
    using rmap.size_add [OF i, of a "m_blank_entry t"] s by simp
  then show ?thesis using assms(1) rmap.add_ok [OF i, of a "m_blank_entry t"] s
    by (simp add: tbe_allocate_def tbe_isPresent_ok [OF assms(1,2)] assms(3) tbe_inv_def
        flip: assms(2))
qed

lemma tbe_allocate_full:
  assumes "tbe_inv n t" "rmap_size (tbe_map t) = n"
  shows "tbe_allocate n a t = Inl Assert_failed"
  using assms by (simp add: tbe_allocate_def tbe_isPresent_def check_def)

lemma tbe_deallocate_ok:
  assumes "tbe_inv n t" "a = line_address a" "tbes t a \<noteq> None"
  shows "\<exists>t'. tbe_deallocate n a t = Inr t' \<and> tbe_inv n t' \<and> tbes t' = (tbes t)(a := None)
    \<and> rmap_size (tbe_map t) = rmap_size (tbe_map t') + 1"
proof -
  have i: "rmap_inv (tbe_map t)" using assms(1) by (simp add: tbe_inv_def)
  have x: "rmap_exist (tbe_map t) a" using assms(3) by (simp add: rmap_exist_def)
  obtain m where m: "rmap_erase a (tbe_map t) = Inr m" "rmap_inv m" "map_of m = (tbes t)(a := None)"
    using rmap.erase_present [OF i x] by blast
  obtain e where e: "rmap_lookup (tbe_map t) a = Inr e" using rmap.lookup_exist [OF x] by blast
  show ?thesis using assms m e rmap.size_erase [OF i m(1)]
    by (auto simp: tbe_deallocate_def tbe_isPresent_ok [OF assms(1,2)] tbe_inv_def)
qed

lemma tbe_lookup_ok:
  "tbe_inv n t \<Longrightarrow> a = line_address a \<Longrightarrow>
     tbe_lookup n a t = (case tbes t a of None \<Rightarrow> Inl Assert_failed | Some e \<Rightarrow> Inr e)"
  by (auto simp: tbe_lookup_def tbe_isPresent_ok rmap_lookup_def split: option.splits)

end
