(* ===== verification/Spec2Isabelle.thy ===== *)
theory Spec2Isabelle
  imports RubyProperties LockProperties PyriteProperties ReadAccounting CacheMemory MessageRouting SimpleNetwork NetworkEvents TreeNetwork ShortestReference PersistentTable TimerTable TBETable
begin

text \<open>
  A model of the C++ code of FeS2 with DRAMSim2: the memory system simulator DRAMSim2 (src/DRAMSim2), the data
  structures of src/common, the memory hierarchy simulator Ruby (src/ruby) with its event queue, message
  buffers, caches, tables, sequencers, testers and its simple network, and the out-of-order core (src/pyrite).

  \<^bold>\<open>How the parts interact.\<close> In DRAMSim2 a \<open>MemorySystem\<close> owns a \<open>MemoryController\<close> and a list of
  \<open>Rank\<close>s. A client adds transactions; the controller turns each into an activate and a column command,
  which \<open>CommandQueue::pop\<close> puts on the command bus when the timing allows it; a rank checks each command,
  stores or reads data in its banks, and returns read data over the data bus to the controller, which calls
  the client's callback. In Ruby every component is a \<open>Consumer\<close> that the \<open>EventQueue\<close> wakes up; components
  send messages through \<open>MessageBuffer\<close>s, which keep a heap ordered by arrival time and wake their consumer.
  The network is made of switches (\<open>PerfectSwitch\<close>) and links of limited bandwidth (\<open>Throttle\<close>) between such
  buffers; \<open>Topology\<close> computes who is linked and the routing tables. A processor, or a tester in its place, sends its
  requests to a \<open>Sequencer\<close>, which tries the cache, hands misses to the protocol and calls back when the data is there.
  In the core, the micro-operations of a decoded instruction are placed in a ring of \<open>DynamicInst\<close>s, renamed to
  physical registers, wait in lists for their operands and for older stores, execute, and are committed in order;
  flushing undoes the renaming of the youngest ones. Loads and stores look for each other in the \<open>LoadStoreQueue\<close>.

  \<^bold>\<open>Theories.\<close>
  \<^item> \<open>Fes2_Prelude\<close>: results (\<open>error + 'a\<close>) with \<open>rbind\<close>, \<open>check\<close>, \<open>rfold\<close>; access to a list with a range check
    (\<open>at\<close>); unsigned 32-bit arithmetic. \<open>Loops\<close>: while loops that may not end (\<open>rwhile\<close>, \<open>No_return\<close>).
  \<^item> src/DRAMSim2: \<open>DramConfig\<close> (SystemConfiguration.h, BusPacket, Transaction, BankState), \<open>DramBank\<close> (Bank.cpp),
    \<open>CommandQueue\<close> (CommandQueue.cpp), \<open>DramRank\<close> (Rank.cpp), \<open>AddressMapping\<close> and \<open>MemoryController\<close>
    (MemoryController.cpp, MemorySystem.cpp). Proofs: \<open>RoundRobin\<close> (the search over ranks and banks ends and
    looks at every one), \<open>CommandQueueSafety\<close> (what pop may send), \<open>ClosedPage\<close>, \<open>BankAgreement\<close> (controller and
    ranks agree on the state of every bank), \<open>MemorySafety\<close> (no error is ever reached), \<open>RefreshSchedule\<close> (what
    \<open>update\<close> does to the refresh countdowns and requests), \<open>ReadAccounting\<close> (no read is lost).
  \<^item> src/common: \<open>Vector\<close>, \<open>PrioHeap\<close>, \<open>RubyMap\<close> (Map.h), \<open>Address\<close>. \<open>SignedInts\<close> has the wrap-around of \<open>int\<close>.
  \<^item> src/ruby/eventqueue and buffers: \<open>EventQueue\<close>, \<open>MessageBuffer\<close>.
  \<^item> src/ruby/common: \<open>RubySet\<close> (Set.C), \<open>NetDest\<close>, \<open>DataBlock\<close> (DataBlock.C, SubBlock.C), \<open>Histogram\<close>.
  \<^item> src/ruby/system: \<open>CacheMemory\<close>, \<open>PersistentTable\<close>, \<open>TimerTable\<close>, \<open>TBETable\<close>, \<open>Sequencer\<close>.
  \<^item> src/ruby/tester: \<open>Tester\<close> (Check.C, CheckTable.C, Tester.C) and \<open>SyntheticDriver\<close> (SyntheticDriver.C,
    RequestGenerator.C). \<open>RubySystem\<close> composes sequencers and the tester with controllers, and \<open>ControllerSteps\<close> has the
    operations on caches, buffers and events that controllers act through, with the proof that they keep all of them
    well-formed; that the caches end up coherent is the assumption on the protocol. Proofs: \<open>CacheTimes\<close> and \<open>BufferFrame\<close> (what a request leaves alone), \<open>SequencerSafety\<close>,
    \<open>TesterSafety\<close>, \<open>LockSafety\<close>; the properties are in \<open>RubyProperties\<close> and \<open>LockProperties\<close>, their witnesses on the
    system of \<open>SmallSystem\<close>.
  \<^item> src/ruby/network/simple: \<open>ShortestPath\<close> and \<open>Topology\<close> (Topology.C), \<open>NetworkState\<close> (the objects),
    \<open>PerfectSwitch\<close>, \<open>Throttle\<close>, \<open>SimpleNetwork\<close> (Switch.C, SimpleNetwork.C). Proofs: \<open>ShortestReference\<close> (the distances
    against a reference definition), \<open>TreeNetwork\<close> (the loops that build the tree end, it is connected, routes
    exist), \<open>MessageRouting\<close> (a switch shares the destinations out), \<open>NetworkEvents\<close> (the wakeups of switches, throttles
    and nodes keep the contract of the event queue).
  \<^item> src/pyrite: \<open>WaitList\<close> (Waiter.cpp), \<open>MicroOps\<close> (decoder/ptlhwdef), \<open>DoubleWord\<close> (DoubleWord.cpp, Masks.h), \<open>RegFile\<close>
    (RegFile.cpp), \<open>PyriteState\<close> (the fields of DynamicInst.h and Processor.h), \<open>LoadStoreQueue\<close> (LoadStoreQueue.cpp),
    \<open>DynamicInst\<close> (DynamicInst.cpp), \<open>Window\<close> (Processor.cpp). Proofs: \<open>LoadSafety\<close> (where the bytes of a load come
    from), \<open>RegFileSafety\<close> (reference counts against the references there are), \<open>Renaming\<close> and \<open>Squashing\<close> (what one
    instruction does to the maps), \<open>WindowSafety\<close> (the invariant \<open>core_ok\<close> of the window), \<open>WindowFlush\<close>, \<open>WindowSteps\<close>,
    \<open>WindowReach\<close> (it is kept by every step, a step relation with its reachable cores); the properties are in
    \<open>LoadProperties\<close> and \<open>PyriteProperties\<close>.

  \<^bold>\<open>Representation.\<close> A class is a record, a method a function from the state to the state; assertions, \<open>ERROR\<close> and
  \<open>exit\<close> are values of \<open>error\<close>, and so is an index out of range, which the C++ code does not check. Unsigned
  integers are natural numbers with the operations \<open>u32_add\<close>, \<open>u32_sub\<close> that wrap around where the code can;
  the sets of nodes are words. Signed integers are kept at their width where a sum can leave the range:
  \<open>m_msg_counter\<close> of a message buffer, the sums of the matrix in \<open>shortest_path\<close> and the sums of a histogram wrap around
  (\<open>wrap32\<close>, \<open>wrap64\<close>; a multiplication of a histogram that overflows is \<open>Undefined\<close>), and the theorems about them have
  the bounds within which they do not. Without a bound are sizes, which memory limits, cycle counters and times of 64
  bits, and the counters of statistics. Pointers to
  consumers, buffers and switches are numbers that index the objects in a record of the state (\<open>world\<close>); the links of
  the wait lists of the core are a heap, two functions on nodes, and an instruction is a slot of the buffer.
  Virtual methods and callbacks are arguments or are recorded as a trace; \<open>random()\<close> is a sequence in the state;
  \<open>qsort\<close>, the order of the keys in a hash table and floating-point comparisons are arguments.

  \<^bold>\<open>Loops and fuel.\<close> A loop with a structural bound is a fold. \<open>triggerEvents\<close> is a partial function; that it returns
  for every client of the contract \<open>event_client\<close> is shown in \<open>EventQueue\<close>, and C6 states it for the consumers of the
  simple network. The clearing of a buffer is a loop that ends because the heap gets smaller (C10). The search of the command queue over ranks and
  banks has as fuel the number of banks of all ranks, and \<open>RoundRobin\<close> shows that it comes back to its start
  within it. The loops of the network are \<open>rwhile\<close>s; where a theorem says that they return, the measure is the
  number of entries still above the shortest distance, or the length of the level of the tree.

  \<^bold>\<open>Assumptions.\<close> The theorems on the memory system hold for configurations with powers of two as sizes and
  timing parameters in the relation of the data sheets (\<open>system_ok\<close>, \<open>timing_ok\<close>); each witness is the
  configuration ddr2_sg3E of src/DRAMSim2/ini. Those on the tree need two children to a switch and a latency that
  stays below \<open>INFINITE_LATENCY\<close>. Those on the testers are about runs of less than \<open>2 ^ 30\<close> cycles, because the code
  keeps times in an \<open>int\<close>, and about controllers that keep the caches coherent, which is what a protocol promises.
  Those on the core leave open what executing an instruction does, as long as it renames nothing, and need a
  flush to start after the very first micro-operation: the loop of the code does not end at 0.

  \<^bold>\<open>Not modelled.\<close> Printing, statistics in floating point, debug output, the input files of DRAMSim2 and its
  trace front end; the SLICC compiler and the protocols (a language of their own), and the directory, which only
  the protocols use; the x86 decoder and the floating point library (third-party code and its adaptation), and with
  them the execution of a micro-operation; in the core the fetch of bytes and the validation against Simics, the
  predictors, the memory interfaces and the recording of traces; bindings to Simics, scripts and tests.
\<close>

section \<open>DRAMSim2: the command queue\<close>

text \<open>Idle banks, the states that the memory controller starts with.\<close>

abbreviation idle_banks :: "bank_state list list" where
  "idle_banks \<equiv> replicate 2 (replicate 8 BankState)"

lemma idle_banks_ok: "bs_ok ddr2_sg3E idle_banks"
  by (simp add: bs_ok_def)

lemma ddr2_inv: "cq_inv ddr2_sg3E (cq_init ddr2_sg3E)"
  by (rule cq_inv_init) (simp_all add: sizes_ok_def)

lemma legal_access_open:
  assumes "legal c bs cq p" "access_of a p"
  shows "currentBankState (bs ! rank a ! bank a) = RowActive \<and> openRowAddress (bs ! rank a ! bank a) = row a"
  using assms by (auto simp: legal_def access_of_def isIssuable_def at2_def rbind_eq_Inr at_eq_Inr)

text \<open>C1: \<open>CommandQueue::pop\<close> always returns (none of its round-robin loops spins and no index is out
  of range) and keeps the invariant of the queue. When it sends nothing the queues stay as they are. When it sends a
  packet, the packet is one that the bank states allow (\<open>isIssuable\<close>, or for a refresh a rank whose banks are all
  closed), and apart from it nothing is lost that is needed: a refresh or a precharge is made on the spot and leaves all
  queues as they are; any other packet is taken out of its place in its own queue, all other queues and the order of
  what is left staying the same, and at most one more packet goes with it, with open pages only: an activate directly
  before it. In paired queues (every activate is directly followed by a read or write of its own row and bank, as the
  controller enqueues them: an invariant of \<open>pop\<close>, shown here, and of every run of the memory system,
  \<open>ms_run_inv\<close>) that activate is the one made for the packet that is sent, and its row is open already.\<close>

theorem pop_sends_legal_command:
  assumes "cq_inv c cq" "bs_ok c bs"
  shows "\<exists>r cq'. cq_pop c bs cq = Inr (r, cq') \<and> cq_inv c cq' \<and> cq_clock cq' = cq_clock cq
    \<and> (cq_paired c cq \<longrightarrow> cq_paired c cq')
    \<and> (case r of
         None \<Rightarrow> queues cq' = queues cq
       | Some p \<Rightarrow> legal c bs (ticked cq) p \<and> rank p < NUM_RANKS c \<and> bank p < NUM_BANKS c
           \<and> (\<exists>lost.
                (if busPacketType p \<in> {REFRESH, PRECHARGE} then lost = [] \<and> queues cq' = queues cq
                 else \<exists>pre post.
                   queues cq ! rank p ! qidx (queuingStructure c) (bank p) = pre @ lost @ p # post
                   \<and> queues cq' = put2 (rank p) (qidx (queuingStructure c) (bank p)) (pre @ post) (queues cq))
                \<and> (lost = [] \<or> rowBufferPolicy c = OpenPage \<and> (\<exists>a. lost = [a] \<and> busPacketType a = ACTIVATE))
                \<and> (cq_paired c cq \<longrightarrow> (\<forall>a \<in> set lost. access_of a p
                     \<and> currentBankState (bs ! rank a ! bank a) = RowActive
                     \<and> openRowAddress (bs ! rank a ! bank a) = row a))))"
proof -
  obtain r cq' where pop: "cq_pop c bs cq = Inr (r, cq')" "cq_inv c cq'" "cq_clock cq' = cq_clock cq"
    "pop_post c bs cq r cq'" using cq_pop_ok [OF assms] by blast
  show ?thesis
  proof (intro exI [of _ r] exI [of _ cq'] conjI impI)
    show "cq_paired c cq'" if "cq_paired c cq" by (rule pop_paired [OF assms(1) pop(4) that])
    show "case r of None \<Rightarrow> queues cq' = queues cq
       | Some p \<Rightarrow> legal c bs (ticked cq) p \<and> rank p < NUM_RANKS c \<and> bank p < NUM_BANKS c
           \<and> (\<exists>lost.
                (if busPacketType p \<in> {REFRESH, PRECHARGE} then lost = [] \<and> queues cq' = queues cq
                 else \<exists>pre post.
                   queues cq ! rank p ! qidx (queuingStructure c) (bank p) = pre @ lost @ p # post
                   \<and> queues cq' = put2 (rank p) (qidx (queuingStructure c) (bank p)) (pre @ post) (queues cq))
                \<and> (lost = [] \<or> rowBufferPolicy c = OpenPage \<and> (\<exists>a. lost = [a] \<and> busPacketType a = ACTIVATE))
                \<and> (cq_paired c cq \<longrightarrow> (\<forall>a \<in> set lost. access_of a p
                     \<and> currentBankState (bs ! rank a ! bank a) = RowActive
                     \<and> openRowAddress (bs ! rank a ! bank a) = row a)))"
    proof (cases r)
      case (Some p)
      then obtain lost where l: "takes c cq p cq' lost" and
        p: "legal c bs (ticked cq) p" "rank p < NUM_RANKS c" "bank p < NUM_BANKS c"
        using pop(4) by (auto simp: pop_post_def)
      have "queues_ok c (queues cq)" using assms(1) by (simp add: cq_inv_def cq_core_def)
      then have "\<forall>a \<in> set lost. access_of a p \<and> currentBankState (bs ! rank a ! bank a) = RowActive
          \<and> openRowAddress (bs ! rank a ! bank a) = row a" if "cq_paired c cq"
        using takes_paired [OF l that _ p(2,3)] legal_access_open [OF p(1)] by blast
      then show ?thesis using l p unfolding Some option.case takes_def
        by (intro conjI exI [of _ lost]) (auto split: if_splits)
    qed (use pop(4) in \<open>simp add: pop_post_def\<close>)
  qed (rule pop)+
qed

theorem pop_sends_legal_command_witness:
  "\<exists>r cq'. cq_pop ddr2_sg3E idle_banks (cq_init ddr2_sg3E) = Inr (r, cq') \<and> cq_inv ddr2_sg3E cq' \<and> cq_paired ddr2_sg3E cq'"
  using pop_sends_legal_command [OF ddr2_inv idle_banks_ok] cq_paired_init by blast

text \<open>C2: in every run of the command queue (packets enqueued, refreshes requested, \<open>pop\<close> called once
  a cycle with any bank states) at most four activates are sent to a rank in a window of \<open>tFAW\<close> cycles.\<close>

theorem four_activate_window:
  assumes "cq_run c n H cq" "sizes_ok c" "0 < tFAW c" "tFAW c < 2 ^ 32" "r < NUM_RANKS c"
  shows "length (List.filter (\<lambda>s. t < s \<and> s \<le> t + tFAW c) (H r)) \<le> 4"
  using cq_run_inv [OF assms(1-4)] assms(5) by (simp add: four_activates_def)

text \<open>A queue that holds an activate for bank 1 of rank 0.\<close>

abbreviation act_packet :: bus_packet where
  "act_packet \<equiv> BusPacket ACTIVATE 64 0 5 0 1 None"

abbreviation one_act :: cmd_queue where
  "one_act \<equiv> put_queue 0 0 [act_packet] (cq_init ddr2_sg3E)"

lemma one_act_enqueued: "cq_enqueue ddr2_sg3E act_packet (cq_init ddr2_sg3E) = Inr one_act"
  by (simp add: cq_enqueue_def at2_def cq_init_def qidx_def Let_def numBankQueues_def put_queue_def)

lemma one_act_pop:
  "cq_pop ddr2_sg3E idle_banks one_act = Inr (Some act_packet,
     (cq_init ddr2_sg3E)\<lparr>nextRank := 1, tFAWCountdown := [[13], []]\<rparr>)"
  by (simp add: cq_pop_def pop_tfaw_def tfaw_tick_def pop_open_rank_def open_refresh_def open_rank_scan_def
      open_sel_def open_search.simps open_take_def isIssuable_def at2_def put2_def put_queue_def cq_init_def
      numBankQueues_def qidx_def rank_blocked_def depends_def pop_finish_def adv_pair_def next_pair_def
      u32_add_def upt_rec BankState_def at_def replicate_two)

lemma one_act_run: "cq_run ddr2_sg3E 1 (\<lambda>r. if r = 0 then [1] else [])
    ((cq_init ddr2_sg3E)\<lparr>nextRank := 1, tFAWCountdown := [[13], []]\<rparr>)"
proof -
  have "cq_run ddr2_sg3E 0 (\<lambda>_. []) one_act"
    by (rule cq_run.enqueue [OF cq_run.start _ _ _ one_act_enqueued]) simp_all
  from cq_run.pop [OF this idle_banks_ok one_act_pop] show ?thesis
    by (simp add: fun_upd_def if_distrib cong: if_cong)
qed

theorem four_activate_window_witness:
  "length (List.filter (\<lambda>s. 0 < s \<and> s \<le> 0 + tFAW ddr2_sg3E) ((\<lambda>r. if r = 0 then [1] else []) 0)) \<le> (4 :: nat)
    \<and> List.filter (\<lambda>s. 0 < s \<and> s \<le> 0 + tFAW ddr2_sg3E) [1] = [1]"
  using four_activate_window [OF one_act_run, of 0 0] by (simp add: sizes_ok_def)

text \<open>C3: with a queue per bank and closed pages, \<open>pop\<close> sends nothing only if nothing can be sent: the
  front of every queue, over all the ranks and banks and from whatever position the round robin
  starts, is not issuable or belongs to the rank that waits for its refresh.\<close>

theorem pop_is_work_conserving:
  assumes "cq_inv c cq" "bs_ok c bs" "queuingStructure c = PerRankPerBank" "rowBufferPolicy c = ClosePage"
    and "cq_pop c bs cq = Inr (None, cq')" "r < NUM_RANKS c" "b < NUM_BANKS c" "queues cq ! r ! b \<noteq> []"
  shows "isIssuable c bs (ticked cq) (hd (queues cq ! r ! b)) = Inr False
    \<or> (refreshWaiting cq \<and> r = refreshRank cq)"
proof -
  note T = pop_tfaw_ticked [OF assms(1)]
  have "close_bank_scan c bs (ticked cq) = Inr (None, cq')"
    using assms(3-5) T(1)
    by (auto simp: cq_pop_def pop_close_bank_def rbind_eq_Inr split: option.splits)
  with close_bank_scan_ok [OF assms(3,2) T(2)] have
    "queues (ticked cq) ! r ! b = [] \<or> waits_for_refresh (ticked cq) r
      \<or> isIssuable c bs (ticked cq) (queues (ticked cq) ! r ! b ! 0) = Inr False"
    using assms(6,7) by (auto simp: pair_ok_def)
  then show ?thesis using assms(8) by (auto simp: ticked_def waits_for_refresh_def hd_conv_nth)
qed

text \<open>A small configuration with a queue per bank, and a read that waits for its row.\<close>

definition per_bank :: dram_config where
  "per_bank = ddr2_sg3E\<lparr>NUM_BANKS := 2, NUM_RANKS := 1, queuingStructure := PerRankPerBank,
     rowBufferPolicy := ClosePage\<rparr>"

definition one_read :: cmd_queue where
  "one_read = put_queue 0 1 [BusPacket READ_P 64 0 5 0 1 None] (cq_init per_bank)"

lemma one_read_inv: "cq_inv per_bank one_read"
proof -
  have e: "cq_enqueue per_bank (BusPacket READ_P 64 0 5 0 1 None) (cq_init per_bank) = Inr one_read"
    by (simp add: cq_enqueue_def at2_def cq_init_def qidx_def Let_def numBankQueues_def put_queue_def
        one_read_def per_bank_def)
  have "cq_inv per_bank (cq_init per_bank)" by (rule cq_inv_init) (simp_all add: sizes_ok_def per_bank_def)
  from enqueue_ok [OF this _ _ _ e] show ?thesis by (simp add: per_bank_def)
qed

lemma one_read_pop:
  "cq_pop per_bank (replicate 1 (replicate 2 BankState)) one_read = Inr (None, one_read)"
  by (simp add: cq_pop_def pop_tfaw_def tfaw_tick_def pop_close_bank_def close_refresh_def close_bank_scan_def
      close_bank_sel_def isIssuable_def at2_def put2_def put_queue_def cq_init_def
      numBankQueues_def qidx_def rank_blocked_def adv_pair_def next_pair_def one_read_def per_bank_def
      u32_add_def upt_rec BankState_def at_def replicate_two)

theorem pop_is_work_conserving_witness:
  "isIssuable per_bank (replicate 1 (replicate 2 BankState)) (ticked one_read) (hd (queues one_read ! 0 ! 1)) = Inr False
    \<or> (refreshWaiting one_read \<and> 0 = refreshRank one_read)"
  by (rule pop_is_work_conserving [OF one_read_inv _ _ _ one_read_pop])
    (simp_all add: bs_ok_def put_queue_def put2_def cq_init_def numBankQueues_def upt_rec replicate_two
      one_read_def per_bank_def)

text \<open>C4: when \<open>hasRoomFor\<close> says that there is room, \<open>enqueue\<close> of a command for that rank and bank does
  not exit, keeps the invariant and adds exactly that packet.\<close>

theorem room_means_enqueue_succeeds:
  assumes "cq_inv c cq" "rank p < NUM_RANKS c" "bank p < NUM_BANKS c" "CMD_QUEUE_DEPTH c < 2 ^ 32"
    "busPacketType p \<notin> {DATA, REFRESH, PRECHARGE}"
    "hasRoomFor c k (rank p) (bank p) cq = Inr True" "0 < k"
  shows "\<exists>cq'. cq_enqueue c p cq = Inr cq' \<and> cq_inv c cq' \<and> cq_packets cq' = add_mset p (cq_packets cq)"
  using hasRoom_enqueue [OF assms(1-4,6,7)] enqueue_ok [OF assms(1-3,5)] by blast

theorem room_means_enqueue_succeeds_witness:
  "\<exists>cq'. cq_enqueue ddr2_sg3E act_packet (cq_init ddr2_sg3E) = Inr cq' \<and> cq_inv ddr2_sg3E cq'
    \<and> cq_packets cq' = add_mset act_packet (cq_packets (cq_init ddr2_sg3E))"
  using room_means_enqueue_succeeds [OF ddr2_inv, of act_packet 1]
  by (simp add: hasRoomFor_def at2_def cq_init_def qidx_def numBankQueues_def)

section \<open>Ruby: the event queue\<close>

text \<open>C5: \<open>EventQueue::triggerEvents\<close> over a client that records its wakeups returns, and wakes every
  consumer exactly once for every time up to \<open>t\<close> for which it has an event (and at which it was not
  woken already), at that very time, and in the order of time.\<close>

theorem wakeups_delivered_once_in_order:
  assumes "evq_inv w" "w_time w \<le> t" "woken_before w"
  shows "\<exists>w' L. triggerEvents log_wake t w = Some (Inr w') \<and> w_sys w' = w_sys w @ L
    \<and> sorted (map snd L) \<and> distinct L \<and> set L = due t w"
  by (rule triggerEvents_log [OF assms])

lemma three_events:
  "\<exists>w :: (nat \<times> int) list world. evq_inv w \<and> w_time w = 1 \<and> woken_before w \<and> w_sys w = [] \<and> due 9 w = {(0, 5), (1, 3)}"
proof -
  let ?w0 = "world_init [] :: (nat \<times> int) list world"
  obtain w1 where w1: "scheduleEventAbsolute (Some 0) 5 ?w0 = Inr w1"
    using scheduleEventAbsolute_ok [OF evq_inv_init [of "[]"], where t = 5 and k = 0] by (auto simp: world_init_def)
  note i1 = scheduleEventAbsolute_inv [OF evq_inv_init w1]
  have p1: "w_time w1 = 1" "pending w1 = {#\<lparr>en_time = 5, en_consumer = Some 0\<rparr>#}" "w_sys w1 = []"
    "w_consumers w1 = (w_consumers ?w0)(0 := \<lparr>last_scheduled_wakeup = 5, last_wakeup = 0\<rparr>)"
    using w1 by (cases rule: scheduleEventAbsolute_cases [OF evq_inv_init w1];
      auto simp: world_init_def new_consumer_def pending_def)+
  obtain w2 where w2: "scheduleEventAbsolute (Some 1) 3 w1 = Inr w2"
    using scheduleEventAbsolute_ok [where w = w1 and t = 3 and k = 1] i1 p1(1) by auto
  note i2 = scheduleEventAbsolute_inv [OF i1 w2]
  have p2: "w_time w2 = 1" "w_sys w2 = []" "pending w2 = {#\<lparr>en_time = 3, en_consumer = Some 1\<rparr>, \<lparr>en_time = 5, en_consumer = Some 0\<rparr>#}"
    "\<forall>k. last_wakeup (w_consumers w2 k) = 0"
    unfolding atomize_conj
    by (rule scheduleEventAbsolute_cases [OF i1 w2])
      (simp_all add: p1 p1(2) [unfolded pending_def] world_init_def new_consumer_def pending_def add_mset_commute)
  have "due 9 w2 = {(0, 5), (1, 3)}" by (auto simp: due_def p2)
  then show ?thesis using i2 p2 by (auto simp: woken_before_def)
qed

theorem wakeups_delivered_once_in_order_witness:
  "\<exists>w w' :: (nat \<times> int) list world. triggerEvents log_wake 9 w = Some (Inr w') \<and> w_sys w' = [(1, 3), (0, 5)]"
proof -
  obtain w :: "(nat \<times> int) list world" where w: "evq_inv w" "w_time w = 1" "woken_before w" "w_sys w = []" "due 9 w = {(0, 5), (1, 3)}"
    using three_events by blast
  obtain w' L where L: "triggerEvents log_wake 9 w = Some (Inr w')" "w_sys w' = w_sys w @ L"
    "sorted (map snd L)" "distinct L" "set L = {(0, 5), (1, 3)}"
    using wakeups_delivered_once_in_order [OF w(1) _ w(3), of 9] w(2,5) by auto
  have "length L = 2" using distinct_card [OF L(4)] L(5) by simp
  then obtain x y where "L = [x, y]" by (auto simp: numeral_2_eq_2 length_Suc_conv)
  then have "L = [(1, 3), (0, 5)]" using L(3,5) by (auto simp: doubleton_eq_iff)
  then show ?thesis using L(1,2) w(4) by auto
qed

definition small_net :: net_params where
  "small_net = \<lparr>MachineType_NUM = 2, NUM_NODES = 16, NETWORK_LINK_LATENCY = 1, NETWORK_TOPOLOGY = HIERARCHICAL_SWITCH,
     FAN_OUT_DEGREE = 4, NUMBER_OF_VIRTUAL_NETWORKS = 5, ADAPTIVE_ROUTING = True, LINK_BANDWIDTH = 10000, RANDOMIZATION = False\<rparr>"

text \<open>A network with one throttle, which moves messages from buffer 0 to buffer 1, and node 0 behind it; one message
  is sent to buffer 0 at time 1, so that its throttle has an event at time 2.\<close>

definition one_env :: net_env where
  "one_env = \<lparr>params = small_net, sort_links = id, MessageSizeType_to_int = int, over_threshold = (\<lambda>_ _. False)\<rparr>"

definition one_link :: network where
  "one_link = \<lparr>nw_buffers = (\<lambda>b. mb_init\<lparr>m_consumer_ptr := Some (if b = 0 then throttle_consumer 0 else 2),
       m_ordering_set := True\<rparr>),
     nw_next_buffer = 2,
     nw_messages = (\<lambda>_. \<lparr>nm_data = 7, m_destination = \<lparr>m_sets = []\<rparr>, m_MessageSize = 1, m_internal_dest = \<lparr>m_sets = []\<rparr>, m_internal_dest_valid = False\<rparr>),
     nw_next_message = 1,
     nw_perfect = (\<lambda>_. PerfectSwitch one_env 0),
     nw_throttles = (\<lambda>_. \<lparr>th_in = [0], th_out = [1], m_message_counters = replicate MessageSizeType_NUM [0], m_vnets = 1,
       m_last_vnet = 0, m_units_remaining = [0], th_sID = 0, th_node = 0, m_bash_counter = HIGH_RANGE,
       m_bandwidth_since_sample = 0, m_last_bandwidth_sample = 0, m_link_bandwidth_multiplier = 1, m_link_latency = 1\<rparr>),
     nw_next_throttle = 1, nw_random = (\<lambda>_. 0), nw_draws = 0, sn_nodes = 1, sn_virtual_networks = 1,
     m_toNetQueues = [], m_fromNetQueues = [], m_in_use = [True], m_ordered = [False], m_switch_ptr_vector = [],
     m_endpoint_switches = []\<rparr>"

definition "W1 = (case net_enqueue one_env 0 0 1 (world_init one_link) of Inr w \<Rightarrow> w)"


abbreviation one_wake :: "nat \<Rightarrow> net_world \<Rightarrow> net_world result" where
  "one_wake \<equiv> net_wake one_env (\<lambda>_ _. [Take 1])"

definition world_of :: "net_world result \<Rightarrow> net_world" where
  "world_of r = (case r of Inr w \<Rightarrow> w | Inl e \<Rightarrow> world_init one_link)"

definition message_sent :: net_world where
  "message_sent = world_of (net_enqueue one_env 0 0 1 (world_init one_link))"

definition message_moved :: net_world where
  "message_moved = world_of (trigger_first one_wake \<lparr>en_time = 2, en_consumer = Some 1\<rparr> message_sent)"

definition message_taken :: net_world where
  "message_taken = world_of (trigger_first one_wake \<lparr>en_time = 3, en_consumer = Some 2\<rparr> message_moved)"

fun returned_ok :: "'a result \<Rightarrow> bool" where
  "returned_ok (Inr w) = True"
| "returned_ok (Inl e) = False"

lemma world_of_eq: "returned_ok r \<Longrightarrow> r = Inr (world_of r)"
  by (cases r) (simp_all add: world_of_def)

lemma message_sent_ok: "net_enqueue one_env 0 0 1 (world_init one_link) = Inr message_sent"
  unfolding message_sent_def by (rule world_of_eq) code_simp

lemma message_moved_ok:
  "trigger_first one_wake \<lparr>en_time = 2, en_consumer = Some 1\<rparr> message_sent = Inr message_moved"
  unfolding message_moved_def by (rule world_of_eq) code_simp

lemma message_taken_ok:
  "trigger_first one_wake \<lparr>en_time = 3, en_consumer = Some 2\<rparr> message_moved = Inr message_taken"
  unfolding message_taken_def by (rule world_of_eq) code_simp

lemma message_events:
  "heap_size (w_heap message_sent) = 1" "heap_peekMin (w_heap message_sent) = Inr \<lparr>en_time = 2, en_consumer = Some 1\<rparr>"
  "heap_size (w_heap message_moved) = 1" "heap_peekMin (w_heap message_moved) = Inr \<lparr>en_time = 3, en_consumer = Some 2\<rparr>"
  "heap_size (w_heap message_taken) = 0"
  by code_simp+

lemma message_buffers:
  "m_size (nw_buffers (w_sys message_sent) 0) = 1" "m_size (nw_buffers (w_sys message_moved) 0) = 0"
  "m_size (nw_buffers (w_sys message_moved) 1) = 1" "m_size (nw_buffers (w_sys message_taken) 1) = 0"
  by code_simp+

lemma message_sent_inv: "evq_inv message_sent \<and> w_time message_sent = 1"
  using sched_reach_props [OF net_enqueue_reach [OF sched_reach.stay message_sent_ok] evq_inv_init]
  by (simp add: world_init_def)

text \<open>C6: \<open>triggerEvents\<close> returns for the consumers of the simple network: the perfect switches, the throttles and
  nodes that send, receive and compute what they like (\<open>net_wake\<close>). The events that a wakeup adds lie strictly in the
  future, so the loop cannot run for ever. When no wakeup fails, the clock is at \<open>t\<close> afterwards, the invariant of the
  queue holds and every event that is left lies after \<open>t\<close>; when the run fails, it is with the error of a wakeup that
  was called within the run (with a well-formed queue, at a time between the start and \<open>t\<close>), so none of the queue's own
  assertions fails.\<close>

theorem trigger_events_returns:
  assumes "evq_inv w" "w_time w \<le> t"
  shows "\<exists>r. triggerEvents (net_wake e nodes) t w = Some r
    \<and> (\<forall>w'. r = Inr w' \<longrightarrow> evq_inv w' \<and> w_time w' = t \<and> (\<forall>n \<in># pending w'. t < en_time n))
    \<and> (\<forall>err. r = Inl err \<longrightarrow>
         (\<exists>k u. net_wake e nodes k u = Inl err \<and> evq_inv u \<and> w_time w \<le> w_time u \<and> w_time u \<le> t))"
  by (rule net_client.triggerEvents_result [OF assms])

text \<open>The message is moved by the throttle at time 2 and taken by the node at time 3.\<close>

theorem trigger_events_returns_witness:
  "\<exists>w'. triggerEvents one_wake 5 message_sent = Some (Inr w') \<and> w_time w' = 5 \<and> (\<forall>n \<in># pending w'. 5 < en_time n)
    \<and> m_size (nw_buffers (w_sys message_sent) 0) = 1 \<and> m_size (nw_buffers (w_sys message_moved) 1) = 1
    \<and> w_sys w' = w_sys message_taken \<and> m_size (nw_buffers (w_sys w') 1) = 0"
proof -
  have "triggerEvents one_wake 5 message_sent = triggerEvents one_wake 5 message_moved"
    using message_events(1,2) message_moved_ok by (subst triggerEvents.simps) simp
  also have "\<dots> = triggerEvents one_wake 5 message_taken"
    using message_events(3,4) message_taken_ok by (subst triggerEvents.simps) simp
  also have "\<dots> = Some (Inr (message_taken\<lparr>w_time := 5\<rparr>))"
    using message_events(5) by (subst triggerEvents.simps) simp
  finally have r: "triggerEvents one_wake 5 message_sent = Some (Inr (message_taken\<lparr>w_time := 5\<rparr>))" .
  then show ?thesis using trigger_events_returns [of message_sent 5 one_env "\<lambda>_ _. [Take 1]"] message_sent_inv message_buffers
    by auto
qed

section \<open>The priority heap\<close>

text \<open>C7: inserting a list into an empty heap and extracting as many elements gives, for every total
  preorder on the elements and without any failed assertion, the elements in order (heap sort).\<close>

theorem heap_sorts:
  assumes "total_preorder le"
  shows "\<exists>q xs' q'. insert_all (heap_insert le d) xs heap_init = Inr q
    \<and> drain (heap_extractMin le) (length xs) q = Inr (xs', q')
    \<and> mset xs' = mset xs \<and> sorted_wrt le xs'"
proof -
  note q = heap_min_queue [OF assms, of d]
  obtain q where i: "insert_all (heap_insert le d) xs heap_init = Inr q" "heap_inv le q" "heap_elems q = mset xs"
    using min_queue.insert_all_ok [OF q heap_inv_init, of xs] by auto
  moreover obtain ys q' where "drain (heap_extractMin le) (length xs) q = Inr (ys, q')" "mset ys = mset xs" "sorted_wrt le ys"
    using min_queue.drain_ok [OF q i(2), of "length xs"] i(3) by auto
  ultimately show ?thesis by blast
qed

theorem heap_sorts_witness:
  "\<exists>q q'. insert_all (heap_insert (\<le>) 0) [3, 1, 2 :: nat] heap_init = Inr q
    \<and> drain (heap_extractMin (\<le>)) (length [3, 1, 2 :: nat]) q = Inr ([1, 2, 3], q')"
proof -
  have "total_preorder ((\<le>) :: nat \<Rightarrow> nat \<Rightarrow> bool)" by unfold_locales auto
  from heap_sorts [OF this, of 0 "[3, 1, 2]"] obtain q ys q' where
    r: "insert_all (heap_insert (\<le>) 0) [3, 1, 2 :: nat] heap_init = Inr q"
       "drain (heap_extractMin (\<le>)) (length [3, 1, 2 :: nat]) q = Inr (ys, q')"
       "mset ys = mset [3, 1, 2]" "sorted ys" by auto
  have "ys = sort [3, 1, 2]" using r(3,4) by (rule properties_for_sort [symmetric])
  then show ?thesis using r(1,2) by auto
qed

section \<open>Ruby: message buffers\<close>

text \<open>C8: a message buffer with strict ordering is a FIFO: in every run of fewer than \<open>2 ^ 31\<close> sends (with any delays
  and any random latencies, receives, setting changes, time passing as it likes) the messages received so far are a
  prefix of the messages sent, in the order of sending, and what is left is in the heap. The bound is that of the code:
  \<open>m_msg_counter\<close>, which orders messages of the same arrival time, is an \<open>int\<close> and wraps around there.\<close>

theorem message_buffer_is_fifo:
  assumes "mb_run ss rs b w" "length ss < 2 ^ 31"
  shows "\<exists>xs. ss = rs @ map mn_msg xs \<and> mset xs = mb_nodes b \<and> m_size b = int (length xs)"
proof -
  obtain xs where xs: "fifo_repr b xs" "ss = rs @ map mn_msg xs" using mb_run_fifo [OF assms] by blast
  have "mset xs = mb_nodes b" "mb_ok b" using xs(1) by (simp_all add: fifo_repr_def mb_inv_ok)
  then show ?thesis using xs(2) by (auto simp: mb_ok_def intro!: exI [of _ xs]) (metis size_mset)
qed

definition ready_buffer :: "bool message_buffer" where
  "ready_buffer = mb_setOrdering True (mb_init\<lparr>m_consumer_ptr := Some 0\<rparr>)"

lemma ready_buffer_fifo: "fifo_repr ready_buffer []"
proof -
  have "mb_setConsumer (Some 0) mb_init = Inr (mb_init\<lparr>m_consumer_ptr := Some 0\<rparr> :: bool message_buffer)"
    by (simp add: mb_setConsumer_def mb_init_def)
  then show ?thesis using fifo_repr_init fifo_repr_config(3,4) unfolding ready_buffer_def by blast
qed

lemma ready_buffer_fields:
  "m_consumer_ptr ready_buffer = Some 0" "m_ordering_set ready_buffer" "m_last_arrival_time ready_buffer = 0"
  "m_msg_counter ready_buffer = 0"
  by (simp_all add: ready_buffer_def mb_setOrdering_def mb_init_def)

lemma send_two_receive_one: "\<exists>(b :: bool message_buffer) (w :: unit world). mb_run [True, False] [True] b w"
proof -
  let ?w0 = "world_init () :: unit world"
  have r2: "mb_run [] [] ready_buffer ?w0" unfolding ready_buffer_def
    by (rule mb_run.ordering [OF mb_run.consumer [OF mb_run.start, of "Some 0"]])
      (simp add: mb_setConsumer_def mb_init_def)
  obtain b3 w3 n3 where s3: "mb_enqueue False (0, 0, 0) True 2 ?w0 ready_buffer = Inr (b3, w3)"
    "fifo_repr b3 [n3]" "mn_msg n3 = True" "mn_time n3 = 3" "evq_inv w3" "w_time w3 = 1"
    "m_consumer_ptr b3 = Some 0" "m_ordering_set b3" "m_last_arrival_time b3 = 3" "m_msg_counter b3 = 1"
    by (rule fifo_send [OF ready_buffer_fifo evq_inv_init [of "()"] ready_buffer_fields(1,2), of 2 "(0, 0, 0)" True])
      (simp_all add: ready_buffer_fields world_init_def)
  obtain b4 w4 n4 where s4: "mb_enqueue False (0, 0, 0) False 2 w3 b3 = Inr (b4, w4)" "fifo_repr b4 ([n3] @ [n4])"
    by (rule fifo_send [OF s3(2,5,7,8), of 2 "(0, 0, 0)" False]) (simp_all add: s3(6,9,10))
  obtain b5 where d: "mb_dequeue (w4\<lparr>w_time := 9\<rparr>) b4 = Inr (True, b5)"
  proof -
    have "mb_isReady (w4\<lparr>w_time := 9\<rparr>) b4" unfolding fifo_repr_ready [OF s4(2)] using s3(4) by simp
    from fifo_repr_pop [OF s4(2) this] obtain n ys b5 where
      d: "[n3] @ [n4] = n # ys" "mb_dequeue (w4\<lparr>w_time := 9\<rparr>) b4 = Inr (mn_msg n, b5)" by blast
    then have "n = n3" by simp
    then show ?thesis using that d(2) s3(3) by simp
  qed
  note r3 = mb_run.send [OF r2 s3(1)]
  note r4 = mb_run.elsewhere [OF mb_run.send [OF r3 s4(1)], of "w4\<lparr>w_time := 9\<rparr>"]
  from mb_run.recv [OF r4 d] show ?thesis by auto
qed

theorem message_buffer_is_fifo_witness:
  "\<exists>(b :: bool message_buffer) xs. [True, False] = [True] @ map mn_msg xs \<and> mset xs = mb_nodes b
    \<and> m_size b = int (length xs)"
proof -
  obtain b and w :: "unit world" where "mb_run [True, False] [True] b w" using send_two_receive_one by blast
  moreover have "length [True, False] < 2 ^ 31" by simp
  ultimately show ?thesis using message_buffer_is_fifo by blast
qed

text \<open>C9: a message that is sent to an ordered buffer with a fixed delay, and not to arrive before the one sent last
  (\<open>m_last_arrival_time\<close>; the code stops the simulation otherwise), gets ready exactly that many cycles later, behind the
  messages that were sent before it, and the consumer of the buffer has an event at that time in the event
  queue (also when the event was pending already), so that no message is left lying. The buffer has a consumer and a
  counter that this send does not make wrap around.\<close>

theorem sent_message_wakes_consumer:
  assumes "fifo_repr b xs" "evq_inv w" "m_consumer_ptr b = Some k" "m_ordering_set b" "0 < delta"
    "m_last_arrival_time b \<le> w_time w + delta" "m_msg_counter b < 2 ^ 31 - 1"
  shows "\<exists>b' w' n. mb_enqueue False rnd msg delta w b = Inr (b', w') \<and> fifo_repr b' (xs @ [n])
    \<and> mn_msg n = msg \<and> mn_time n = w_time w + delta \<and> evq_inv w'
    \<and> \<lparr>en_time = w_time w + delta, en_consumer = Some k\<rparr> \<in># pending w'"
  by (rule fifo_send [OF assms]) blast

theorem sent_message_wakes_consumer_witness:
  "\<exists>b' w' n. mb_enqueue False (0, 0, 0) True 2 (world_init ()) ready_buffer = Inr (b', w') \<and> fifo_repr b' ([] @ [n])
    \<and> mn_msg n = True \<and> mn_time n = w_time (world_init ()) + 2 \<and> evq_inv w'
    \<and> \<lparr>en_time = w_time (world_init ()) + 2, en_consumer = Some 0\<rparr> \<in># pending w'"
  by (rule sent_message_wakes_consumer [OF ready_buffer_fifo evq_inv_init ready_buffer_fields(1,2)])
    (simp_all add: ready_buffer_fields world_init_def)

text \<open>C10: \<open>MessageBuffer::clear\<close> returns and leaves an empty buffer.\<close>

theorem clear_empties_buffer:
  assumes "mb_inv b"
  shows "\<exists>b'. mb_clear b = Inr b' \<and> mb_inv b' \<and> mb_nodes b' = {#} \<and> m_msg_counter b' = 0"
  by (rule mb_clear_total [OF assms])

theorem clear_empties_buffer_witness:
  "\<exists>b'. mb_clear ready_buffer = Inr b' \<and> mb_inv b' \<and> mb_nodes b' = {#} \<and> m_msg_counter b' = 0"
  by (rule clear_empties_buffer) (use ready_buffer_fifo in \<open>simp add: fifo_repr_def\<close>)

section \<open>Ruby: the cache\<close>

text \<open>Two caches of two sets with one way each: an empty one, and one with the line 64 in set 1.\<close>

definition free_entry :: "unit cache_entry" where
  "free_entry = \<lparr>ce_address = 0, ce_permission = AccessPermission_NotPresent, ce_last_ref = 0, ce_data = ()\<rparr>"

definition entry64 :: "unit cache_entry" where
  "entry64 = \<lparr>ce_address = 64, ce_permission = AccessPermission_Read_Only, ce_last_ref = 7, ce_data = ()\<rparr>"

definition small_cache :: "unit cache_entry \<Rightarrow> unit cache_memory" where
  "small_cache e = \<lparr>cm_id = 0, cm_cache = [[free_entry], [e]], cm_num_sets = 2, cm_num_set_bits = 1, cm_assoc = 1\<rparr>"

lemma aligned64: "(64 :: address) = line_address 64" "(192 :: address) = line_address 192"
  by (simp_all add: line_address_bits)

lemma small_cache_inv: "cm_inv 6 (small_cache free_entry)" "cm_inv 6 (small_cache entry64)"
  by (simp_all add: cm_inv_def small_cache_def free_entry_def entry64_def present_def tags_distinct_def
      set_index_def all_less_two aligned64(1) [symmetric])

lemma small_cache_sets:
  "cached 6 (small_cache free_entry) 64 = None" "\<not> set_full 6 (small_cache free_entry) 64"
  "cached 6 (small_cache entry64) 64 = Some entry64"
  "cached 6 (small_cache entry64) 192 = None" "set_full 6 (small_cache entry64) 192"
  by (simp_all add: cached_def small_cache_def set_index_def set_full_def the_set_def tag_match_def
      present_def free_entry_def entry64_def aligned64 [symmetric])

text \<open>C11: the cache is a finite map from line addresses to entries. \<open>allocate\<close> of a line that is not cached,
  in a set with a free way, succeeds without an assertion or the error exit and adds exactly this line, with the
  address as tag, the permission Invalid and the current time; all other lines are kept.\<close>

theorem allocate_adds_one_line:
  assumes "cm_inv dbb cm" "a = line_address a" "cached dbb cm a = None" "\<not> set_full dbb cm a"
  shows "\<exists>cm' e. cm_allocate reset dbb a w cm = Inr cm' \<and> cm_inv dbb cm'
    \<and> cached dbb cm' = (cached dbb cm)(a \<mapsto> (reset e)\<lparr>ce_address := a,
        ce_permission := AccessPermission_Invalid, ce_last_ref := w_time w\<rparr>)"
  by (rule cm_allocate_ok [OF assms])

theorem allocate_adds_one_line_witness:
  "\<exists>cm'. cm_allocate (\<lambda>e. e) 6 64 (world_init ()) (small_cache free_entry) = Inr cm'
    \<and> cached 6 cm' 64 \<noteq> None"
  using allocate_adds_one_line [OF small_cache_inv(1) aligned64(1) small_cache_sets(1,2), of "\<lambda>e. e" "world_init ()"]
  by auto

text \<open>C12: replacement. When a line is not cached and its set is full, \<open>cacheProbe\<close> returns the address of a
  cached line of the same set that was used least recently; after \<open>deallocate\<close> of that line, \<open>allocate\<close> succeeds,
  the new line is cached, the victim is not, and every other line is as before.\<close>

theorem replacement_evicts_lru:
  assumes "cm_inv dbb cm" "a = line_address a" "cached dbb cm a = None" "set_full dbb cm a" "0 < cm_assoc cm"
  shows "\<exists>b e cm1 cm2. cacheProbe dbb a cm = Inr b \<and> cached dbb cm b = Some e
    \<and> set_index dbb (cm_num_set_bits cm) b = set_index dbb (cm_num_set_bits cm) a
    \<and> (\<forall>e' \<in> set (the_set dbb cm a). ce_last_ref e \<le> ce_last_ref e')
    \<and> cm_deallocate dbb b cm = Inr cm1 \<and> cm_allocate reset dbb a w cm1 = Inr cm2 \<and> cm_inv dbb cm2
    \<and> cached dbb cm2 a \<noteq> None \<and> cached dbb cm2 b = None
    \<and> (\<forall>c. c \<noteq> a \<longrightarrow> c \<noteq> b \<longrightarrow> cached dbb cm2 c = cached dbb cm c)"
  using cacheProbe_ok [OF assms] evict_then_allocate [OF assms, of reset w] by auto

theorem replacement_evicts_lru_witness:
  "\<exists>b cm1 cm2. cacheProbe 6 192 (small_cache entry64) = Inr b
    \<and> cm_deallocate 6 b (small_cache entry64) = Inr cm1
    \<and> cm_allocate (\<lambda>e. e) 6 192 (world_init ()) cm1 = Inr cm2 \<and> cached 6 cm2 192 \<noteq> None \<and> cached 6 cm2 b = None"
  using replacement_evicts_lru [OF small_cache_inv(2) aligned64(2) small_cache_sets(4,5), of "\<lambda>e. e" "world_init ()"]
  by (auto simp: small_cache_def)

text \<open>C13: \<open>tryCacheAccess\<close> on a cached line grants the access exactly when the permission of the line is
  enough (read-write for every access, read-only for loads and instruction fetches), sets the time of the
  line to the current time whether the access is granted or not, and changes nothing else.\<close>

theorem access_needs_permission:
  assumes "cm_inv dbb cm" "a = line_address a" "cached dbb cm a = Some e"
  shows "\<exists>p cm'. tryCacheAccess dbb a t w cm = Inr (p \<noteq> None, p, cm')
    \<and> cached dbb cm' = (cached dbb cm)(a \<mapsto> e\<lparr>ce_last_ref := w_time w\<rparr>) \<and> cm_inv dbb cm'
    \<and> (p \<noteq> None \<longleftrightarrow> ce_permission e = AccessPermission_Read_Write
         \<or> ce_permission e = AccessPermission_Read_Only \<and> (t = CacheRequestType_LD \<or> t = CacheRequestType_IFETCH))"
  using tryCacheAccess_ok(2) [OF assms, of t w] by blast

theorem access_needs_permission_witness:
  "\<exists>p cm'. tryCacheAccess 6 64 CacheRequestType_ST (world_init ()) (small_cache entry64) = Inr (False, p, cm')"
  using access_needs_permission [OF small_cache_inv(2) aligned64(1) small_cache_sets(3), of CacheRequestType_ST "world_init ()"]
  by (auto simp: entry64_def)

section \<open>Ruby: sets of nodes\<close>

text \<open>A set of four nodes that holds node 2.\<close>

definition four_nodes :: rset where
  "four_nodes = \<lparr>rs_size = 4, rs_bits = 4, rs_mask = 15\<rparr>"

text \<open>C14: the bit vector of \<open>Set\<close> implements finite sets of nodes: for sets of the same size no operation
  fails, each keeps the invariant, and adding, removing, union, difference, intersection and the tests are the
  operations on sets.\<close>

theorem set_refines_node_sets:
  assumes "set_ok s" "set_ok t" "rs_size s = rs_size t" "i < rs_size s"
  shows "(\<exists>s'. rset_add i s = Inr s' \<and> set_ok s' \<and> elems s' = insert i (elems s))
    \<and> (\<exists>s'. rset_remove i s = Inr s' \<and> set_ok s' \<and> elems s' = elems s - {i})
    \<and> (\<exists>s'. rset_addSet t s = Inr s' \<and> set_ok s' \<and> elems s' = elems s \<union> elems t)
    \<and> (\<exists>s'. rset_removeSet t s = Inr s' \<and> set_ok s' \<and> elems s' = elems s - elems t)
    \<and> (\<exists>s'. rset_AND s t = Inr s' \<and> set_ok s' \<and> elems s' = elems s \<inter> elems t)
    \<and> rset_isSuperset s t = Inr (elems t \<subseteq> elems s)
    \<and> rset_intersectionIsEmpty s t = Inr (elems s \<inter> elems t = {})
    \<and> rset_isElement i s = Inr (i \<in> elems s)"
proof -
  have "i < 32" using assms(1,4) by (simp add: set_ok_def)
  then show ?thesis
    using rset_add_ok [OF assms(1,4)] rset_remove_ok [OF assms(1,4)] rset_addSet_ok [OF assms(1-3)]
      rset_removeSet_ok [OF assms(1-3)] rset_AND_ok [OF assms(1-3)] rset_isSuperset_ok [OF assms(3)]
      rset_intersection_ok(2) [OF assms(3)] rset_isElement_ok by blast
qed

lemma four_nodes_ok: "set_ok four_nodes" "elems four_nodes = {2}" "rs_size four_nodes = 4"
proof -
  have "(4 :: 32 word) = 2 ^ 2" by simp
  then have "bit (4 :: 32 word) i \<longleftrightarrow> i = 2" for i by (simp only: bit_exp_iff) auto
  then show "elems four_nodes = {2}" by (simp add: elems_def four_nodes_def)
  have "(mask 4 :: 32 word) = 15" by (simp add: mask_eq_exp_minus_1)
  then show "set_ok four_nodes" by (simp add: set_ok_def four_nodes_def bits_in_range_def)
  show "rs_size four_nodes = 4" by (simp add: four_nodes_def)
qed

theorem set_refines_node_sets_witness:
  "(\<exists>s'. rset_add 3 four_nodes = Inr s' \<and> elems s' = {2, 3})
    \<and> (\<exists>s'. rset_removeSet four_nodes four_nodes = Inr s' \<and> elems s' = {})"
  using set_refines_node_sets [OF four_nodes_ok(1,1) refl, of 3] four_nodes_ok(2,3) by auto

text \<open>\<open>count\<close> is the number of nodes in the set, \<open>smallestElement\<close> of a set that is not empty returns the
  least node without an error, and \<open>isBroadcast\<close> tells whether every node is in.\<close>

lemma count_smallest_broadcast:
  assumes "set_ok s"
  shows "rset_count s = card (elems s)
    \<and> (elems s \<noteq> {} \<longrightarrow> rset_smallestElement s = Inr (Min (elems s)))
    \<and> rset_isBroadcast s = Inr (elems s = {..<rs_size s}) \<and> rset_isEmpty s = Inr (elems s = {})"
  using rset_count_ok [OF assms] rset_smallestElement_ok [OF assms] rset_isBroadcast_ok [OF assms]
    rset_isEmpty_ok [OF assms] by blast

lemma count_smallest_broadcast_example:
  "rset_count four_nodes = 1 \<and> rset_smallestElement four_nodes = Inr 2 \<and> rset_isEmpty four_nodes = Inr False"
  using count_smallest_broadcast [OF four_nodes_ok(1)] four_nodes_ok(2) by simp

text \<open>C16: a destination set (\<open>NetDest\<close>, one node set for each machine type) is a set of pairs of a machine type
  and a node: adding one destination, adding or removing another destination set, broadcasting and the test
  for an intersection never fail and are the operations on sets of pairs.\<close>

theorem net_dest_refines_destination_sets:
  assumes "nd_ok k n d" "nd_ok k n e" "m < k" "i < n"
  shows "(\<exists>d'. nd_add m i d = Inr d' \<and> nd_ok k n d' \<and> dests d' = insert (m, i) (dests d))
    \<and> (\<exists>d'. nd_remove m i d = Inr d' \<and> nd_ok k n d' \<and> dests d' = dests d - {(m, i)})
    \<and> (\<exists>d'. nd_addNetDest e d = Inr d' \<and> nd_ok k n d' \<and> dests d' = dests d \<union> dests e)
    \<and> (\<exists>d'. nd_removeNetDest e d = Inr d' \<and> nd_ok k n d' \<and> dests d' = dests d - dests e)
    \<and> (\<exists>d'. nd_broadcast d = Inr d' \<and> nd_ok k n d' \<and> dests d' = {..<k} \<times> {..<n})
    \<and> nd_intersectionIsNotEmpty d e = Inr (dests d \<inter> dests e \<noteq> {})"
  using nd_add_ok [OF assms(1,3,4)] nd_remove_ok [OF assms(1,3,4)] nd_addNetDest_ok [OF assms(1,2)]
    nd_removeNetDest_ok [OF assms(1,2)] nd_broadcast_ok [OF assms(1)] nd_intersection_ok(1) [OF assms(1,2)]
  by blast

lemma two_machines: "\<exists>d. nd_ok 2 4 d \<and> dests d = {(1, 2)}"
proof -
  obtain d where "nd_ok 2 4 d" "dests d = {}" using nd_new_ok [of 4 2] by auto
  then show ?thesis using nd_add_ok [of 2 4 d 1 2] by auto
qed

theorem net_dest_refines_destination_sets_witness:
  "\<exists>d d'. dests d = {(1, 2)} \<and> nd_add 0 3 d = Inr d' \<and> dests d' = {(0, 3), (1, 2)}"
proof -
  obtain d where d: "nd_ok 2 4 d" "dests d = {(1, 2)}" using two_machines by blast
  then show ?thesis using net_dest_refines_destination_sets [OF d(1,1), of 0 3] by auto
qed

section \<open>Ruby: tables of requests\<close>

text \<open>C17: locks. A node that locks an address that it has not locked is in the starving set afterwards, and
  its unlocking restores all three sets of the address (the lock of a node that was neither marked nor
  recorded as writing leaves no trace); neither step fails.\<close>

theorem lock_unlock_roundtrip:
  assumes "pt_inv n pt" "a = line_address a" "i < n" "i \<notin> starving pt a" "i \<notin> marked pt a" "i \<notin> writing pt a"
  shows "\<exists>pt1 pt2. persistentRequestLock n a i t pt = Inr pt1 \<and> i \<in> starving pt1 a
    \<and> persistentRequestUnlock a i pt1 = Inr pt2 \<and> pt_inv n pt2
    \<and> starving pt2 = starving pt \<and> marked pt2 = marked pt \<and> writing pt2 = writing pt"
proof -
  obtain pt1 where 1: "persistentRequestLock n a i t pt = Inr pt1" "pt_inv n pt1"
    "starving pt1 = (starving pt)(a := insert i (starving pt a))" "marked pt1 = marked pt"
    "writing pt1 = (writing pt)(a := (if t = AccessType_Write then insert i (writing pt a) else writing pt a))"
    using lock_ok [OF assms(1-4)] by blast
  then have "i \<in> starving pt1 a" by simp
  moreover obtain pt2 where "persistentRequestUnlock a i pt1 = Inr pt2" "pt_inv n pt2"
    "starving pt2 = (starving pt1)(a := starving pt1 a - {i})"
    "marked pt2 = (marked pt1)(a := marked pt1 a - {i})"
    "writing pt2 = (writing pt1)(a := writing pt1 a - {i})"
    using unlock_ok [OF 1(2) assms(2) \<open>i \<in> starving pt1 a\<close>] by blast
  ultimately show ?thesis using 1 assms(4-6) by (auto simp: fun_eq_iff)
qed

lemma empty_table: "pt_inv 4 (pt_init 1)" "starving (pt_init 1) a = {}" "marked (pt_init 1) a = {}" "writing (pt_init 1) a = {}"
  using pt_inv_init [of 4 1] by (simp_all add: starving_def marked_def writing_def pt_init_def)

theorem lock_unlock_roundtrip_witness:
  "\<exists>pt1 pt2. persistentRequestLock 4 64 2 AccessType_Write (pt_init 1) = Inr pt1 \<and> 2 \<in> starving pt1 64
    \<and> persistentRequestUnlock 64 2 pt1 = Inr pt2 \<and> starving pt2 = starving (pt_init 1)"
  using lock_unlock_roundtrip [OF empty_table(1) aligned64(1), of 2 AccessType_Write] empty_table(2-4) by auto

text \<open>C18: marking. In every state of the table \<open>okToIssueStarving\<close> says yes exactly when this node does not
  starve for the address itself and no marked node is left. \<open>markEntries\<close> fails when marked nodes are left from the
  last time, and else marks the nodes that starve at that moment; and from then on, whatever calls of the table follow
  (locks and unlocks of any nodes and addresses, markings of other addresses), the marked nodes that are left are those
  that have not unlocked the address, and a request may be issued again only when all of them have.\<close>

theorem marked_nodes_go_first:
  assumes "pt_inv n pt" "a = line_address a"
  shows "okToIssueStarving a pt = Inr (pt_id pt \<notin> starving pt a \<and> marked pt a = {})
    \<and> (marked pt a \<noteq> {} \<longrightarrow> markEntries a pt = Inl Assert_failed)
    \<and> (marked pt a = {} \<longrightarrow>
         (\<exists>pt'. markEntries a pt = Inr pt' \<and> starving pt' = starving pt \<and> marked pt' = (marked pt)(a := starving pt a)
           \<and> (\<forall>vs pt''. rfold (pt_do n) vs pt' = Inr pt'' \<and> list_all (of_node n) vs \<and> Mark a \<notin> set vs \<longrightarrow>
                marked pt'' a = starving pt a - {i. Unlock a i \<in> set vs}
                \<and> okToIssueStarving a pt''
                    = Inr (pt_id pt \<notin> starving pt'' a \<and> (\<forall>i \<in> starving pt a. Unlock a i \<in> set vs)))))"
proof (intro conjI impI)
  assume "marked pt a = {}"
  then obtain pt' where m: "markEntries a pt = Inr pt'" "pt_inv n pt'" "starving pt' = starving pt"
    "marked pt' = (marked pt)(a := starving pt a)" using mark_ok [OF assms] by blast
  have "pt_id pt' = pt_id pt" using pt_id_kept [of n "Mark a"] m(1) by simp
  then have "marked pt'' a = starving pt a - {i. Unlock a i \<in> set vs} \<and> okToIssueStarving a pt''
      = Inr (pt_id pt \<notin> starving pt'' a \<and> (\<forall>i \<in> starving pt a. Unlock a i \<in> set vs))"
    if "rfold (pt_do n) vs pt' = Inr pt''" "list_all (of_node n) vs" "Mark a \<notin> set vs" for vs pt''
    using pt_run_ok [OF m(2) that] okToIssue_iff [OF _ assms(2), of n pt''] m(4) by auto
  then show "\<exists>pt'. markEntries a pt = Inr pt' \<and> starving pt' = starving pt \<and> marked pt' = (marked pt)(a := starving pt a)
    \<and> (\<forall>vs pt''. rfold (pt_do n) vs pt' = Inr pt'' \<and> list_all (of_node n) vs \<and> Mark a \<notin> set vs \<longrightarrow>
         marked pt'' a = starving pt a - {i. Unlock a i \<in> set vs} \<and> okToIssueStarving a pt''
           = Inr (pt_id pt \<notin> starving pt'' a \<and> (\<forall>i \<in> starving pt a. Unlock a i \<in> set vs)))"
    using m by blast
qed (use okToIssue_iff [OF assms] mark_iff [OF assms] in simp_all)

lemma locked_table: "\<exists>pt. pt_inv 4 pt \<and> pt_id pt = 1 \<and> starving pt 64 = {2} \<and> marked pt 64 = {}"
proof -
  obtain pt where pt: "persistentRequestLock 4 64 2 AccessType_Write (pt_init 1) = Inr pt" "pt_inv 4 pt"
    "starving pt 64 = {2}" "marked pt 64 = {}"
    using lock_ok [OF empty_table(1) aligned64(1), of 2 AccessType_Write] empty_table(2,3) by fastforce
  moreover have "pt_id pt = 1" using pt_id_kept [of 4 "Lock 64 2 AccessType_Write" "pt_init 1"] pt(1) by (simp add: pt_init_def)
  ultimately show ?thesis by blast
qed

text \<open>Node 2 is marked; node 3 locks in between, and may not make the others wait; node 2 unlocks.\<close>

theorem marked_nodes_go_first_witness:
  "\<exists>pt pt' p2 p3. starving pt 64 = {2} \<and> markEntries 64 pt = Inr pt' \<and> marked pt' 64 = {2}
    \<and> pt_do 4 (Lock 64 3 AccessType_Read) pt' = Inr p2 \<and> okToIssueStarving 64 p2 = Inr False
    \<and> pt_do 4 (Unlock 64 2) p2 = Inr p3 \<and> okToIssueStarving 64 p3 = Inr True"
proof -
  obtain pt where pt: "pt_inv 4 pt" "pt_id pt = 1" "starving pt 64 = {2}" "marked pt 64 = {}" using locked_table by blast
  note C = marked_nodes_go_first [OF pt(1) aligned64(1)]
  then obtain pt' where m: "markEntries 64 pt = Inr pt'" "starving pt' 64 = {2}" "marked pt' 64 = {2}"
    and R: "\<And>vs pt''. rfold (pt_do 4) vs pt' = Inr pt'' \<Longrightarrow> list_all (of_node 4) vs \<Longrightarrow> Mark 64 \<notin> set vs \<Longrightarrow>
      okToIssueStarving 64 pt'' = Inr (1 \<notin> starving pt'' 64 \<and> Unlock 64 2 \<in> set vs)"
    using pt by auto
  have i: "pt_inv 4 pt'" using mark_ok [OF pt(1) aligned64(1) pt(4)] m(1) by auto
  obtain p2 where p2: "persistentRequestLock 4 64 3 AccessType_Read pt' = Inr p2" "pt_inv 4 p2" "starving p2 64 = {2, 3}"
    using lock_ok [OF i aligned64(1), of 3 AccessType_Read] m(2) by fastforce
  obtain p3 where p3: "persistentRequestUnlock 64 2 p2 = Inr p3" "starving p3 64 = {3}"
    using unlock_ok [OF p2(2) aligned64(1), of 2] p2(3) by fastforce
  have "okToIssueStarving 64 p2 = Inr False" using R [of "[Lock 64 3 AccessType_Read]" p2] p2(1) by simp
  moreover have "okToIssueStarving 64 p3 = Inr True"
    using R [of "[Lock 64 3 AccessType_Read, Unlock 64 2]" p3] p2(1) p3 by simp
  ultimately show ?thesis using pt(3) m p2(1) p3(1) by auto
qed

text \<open>C19: timers. \<open>isReady\<close> is true exactly when some timer has run out, and \<open>readyAddress\<close> then returns an address
  whose timer has run out and is the earliest of all; both leave the timers as they are. Setting a timer of a positive
  latency for an address that has none adds it, and afterwards the consumer of the table has an event in the event queue
  at the time of the timer. \<open>ks\<close> is the order in which the table's keys are listed, which is any.\<close>

theorem ready_address_is_earliest:
  assumes "tt_inv tt" "set ks = dom (timers tt)"
  shows "(\<exists>tt'. tt_isReady ks w tt = Inr (\<exists>a t. timers tt a = Some t \<and> t \<le> w_time w, tt') \<and> tt_inv tt' \<and> timers tt' = timers tt)
    \<and> ((\<exists>a t. timers tt a = Some t \<and> t \<le> w_time w) \<longrightarrow>
         (\<exists>b tt' u. readyAddress ks w tt = Inr (b, tt') \<and> tt_inv tt' \<and> timers tt' = timers tt
           \<and> timers tt b = Some u \<and> u \<le> w_time w \<and> (\<forall>c v. timers tt c = Some v \<longrightarrow> u \<le> v)))
    \<and> (\<forall>a d k. evq_inv w \<and> a = line_address a \<and> 0 < d \<and> timers tt a = None \<and> tt_consumer_ptr tt = Some k \<longrightarrow>
         (\<exists>tt' w'. tt_set a d w tt = Inr (tt', w') \<and> tt_inv tt' \<and> timers tt' = (timers tt)(a \<mapsto> w_time w + d)
           \<and> \<lparr>en_time = w_time w + d, en_consumer = Some k\<rparr> \<in># pending w'))"
proof (intro conjI impI allI)
  show "\<exists>tt'. tt_isReady ks w tt = Inr (\<exists>a t. timers tt a = Some t \<and> t \<le> w_time w, tt') \<and> tt_inv tt' \<and> timers tt' = timers tt"
    using isReady_ok [OF assms, of w] by auto
  assume "\<exists>a t. timers tt a = Some t \<and> t \<le> w_time w"
  then obtain a t where "timers tt a = Some t" "t \<le> w_time w" by blast
  from readyAddress_ok [OF assms this]
  show "\<exists>b tt' u. readyAddress ks w tt = Inr (b, tt') \<and> tt_inv tt' \<and> timers tt' = timers tt
      \<and> timers tt b = Some u \<and> u \<le> w_time w \<and> (\<forall>c v. timers tt c = Some v \<longrightarrow> u \<le> v)"
    by (auto simp: is_min_timer_def)
next
  fix a and d :: int and k assume h: "evq_inv w \<and> a = line_address a \<and> 0 < d \<and> timers tt a = None \<and> tt_consumer_ptr tt = Some k"
  then obtain tt' w' where s: "tt_set a d w tt = Inr (tt', w')" "tt_inv tt'" "timers tt' = (timers tt)(a \<mapsto> w_time w + d)"
    "scheduleEventAbsolute (Some k) (w_time w + d) w = Inr w'" using tt_set_ok [OF assms(1), of w a d k] by blast
  have "\<lparr>en_time = w_time w + d, en_consumer = Some k\<rparr> \<in># pending w'" using scheduled_pending [OF _ s(4)] h by simp
  then show "\<exists>tt' w'. tt_set a d w tt = Inr (tt', w') \<and> tt_inv tt' \<and> timers tt' = (timers tt)(a \<mapsto> w_time w + d)
      \<and> \<lparr>en_time = w_time w + d, en_consumer = Some k\<rparr> \<in># pending w'"
    using s by blast
qed

text \<open>An empty table of consumer 0 is set a timer of 4 cycles, at time 1; at time 9 it is ready.\<close>

theorem ready_address_is_earliest_witness:
  "\<exists>tt w'. tt_set 64 4 (world_init ()) (tt_init\<lparr>tt_consumer_ptr := Some 0\<rparr>) = Inr (tt, w')
    \<and> \<lparr>en_time = 5, en_consumer = Some 0\<rparr> \<in># pending w' \<and> timers tt = [64 \<mapsto> 5]
    \<and> (\<exists>tt'. tt_isReady [64] (w'\<lparr>w_time := 4\<rparr>) tt = Inr (False, tt'))
    \<and> (\<exists>tt'. tt_isReady [64] (w'\<lparr>w_time := 9\<rparr>) tt = Inr (True, tt'))
    \<and> (\<exists>tt'. readyAddress [64] (w'\<lparr>w_time := 9\<rparr>) tt = Inr (64, tt'))"
proof -
  define tt0 where "tt0 = tt_init\<lparr>tt_consumer_ptr := Some 0\<rparr>"
  have t0: "tt_inv tt0" "timers tt0 = Map.empty" "tt_consumer_ptr tt0 = Some 0" "set [] = dom (timers tt0)"
    using tt_inv_init by (simp_all add: tt0_def tt_inv_def tt_init_def)
  obtain tt w' where s: "tt_set 64 4 (world_init ()) tt0 = Inr (tt, w')" "tt_inv tt" "timers tt = [64 \<mapsto> 5]"
    "\<lparr>en_time = 5, en_consumer = Some 0\<rparr> \<in># pending w'"
  proof -
    have "\<forall>a d k. evq_inv (world_init ()) \<and> a = line_address a \<and> 0 < d \<and> timers tt0 a = None \<and> tt_consumer_ptr tt0 = Some k \<longrightarrow>
         (\<exists>tt' w'. tt_set a d (world_init ()) tt0 = Inr (tt', w') \<and> tt_inv tt'
           \<and> timers tt' = (timers tt0)(a \<mapsto> w_time (world_init ()) + d)
           \<and> \<lparr>en_time = w_time (world_init ()) + d, en_consumer = Some k\<rparr> \<in># pending w')"
      using ready_address_is_earliest [OF t0(1,4), of "world_init ()"] by (elim conjE)
    from this [rule_format, of 64 4 0] show ?thesis
      using that evq_inv_init [of "()"] aligned64(1) t0(2,3) by (auto simp: world_init_def)
  qed
  have d: "set [64] = dom (timers tt)" using s(3) by simp
  show ?thesis using s ready_address_is_earliest [OF s(2) d, of "w'\<lparr>w_time := 4\<rparr>"]
      ready_address_is_earliest [OF s(2) d, of "w'\<lparr>w_time := 9\<rparr>"] unfolding tt0_def
    by (auto split: if_splits)
qed

text \<open>The table of transactions in progress. With a free slot \<open>allocate\<close> of a new line succeeds and
  \<open>deallocate\<close> of it afterwards restores the table; without one \<open>allocate\<close> fails.\<close>

lemma tbe_allocate_deallocate:
  assumes "tbe_inv n t" "a = line_address a" "tbes t a = None"
  shows "(tbe_areNSlotsAvailable n 1 t \<longrightarrow> (\<exists>t1 t2. tbe_allocate n a t = Inr t1
           \<and> tbe_lookup n a t1 = Inr (m_blank_entry t) \<and> tbe_deallocate n a t1 = Inr t2 \<and> tbe_inv n t2 \<and> tbes t2 = tbes t))
    \<and> (rmap_size (tbe_map t) = n \<longrightarrow> tbe_allocate n a t = Inl Assert_failed)"
proof -
  have "\<exists>t1 t2. tbe_allocate n a t = Inr t1 \<and> tbe_lookup n a t1 = Inr (m_blank_entry t)
      \<and> tbe_deallocate n a t1 = Inr t2 \<and> tbe_inv n t2 \<and> tbes t2 = tbes t" if free: "tbe_areNSlotsAvailable n 1 t"
  proof -
    obtain t1 where 1: "tbe_allocate n a t = Inr t1" "tbe_inv n t1" "tbes t1 = (tbes t)(a \<mapsto> m_blank_entry t)"
      using tbe_allocate_ok [OF assms free] by blast
    moreover obtain t2 where "tbe_deallocate n a t1 = Inr t2" "tbe_inv n t2" "tbes t2 = (tbes t1)(a := None)"
      using tbe_deallocate_ok [OF 1(2) assms(2)] 1(3) by auto
    moreover have "tbe_lookup n a t1 = Inr (m_blank_entry t)" using tbe_lookup_ok [OF 1(2) assms(2)] 1(3) by simp
    ultimately show ?thesis using assms(3) by (auto simp: fun_eq_iff)
  qed
  then show ?thesis using tbe_allocate_full [OF assms(1)] by blast
qed

lemma tbe_allocate_deallocate_example:
  "(\<exists>t1. tbe_allocate 1 64 (tbe_init True) = Inr t1) \<and> tbe_allocate 0 64 (tbe_init True) = Inl Assert_failed"
  using tbe_allocate_deallocate [OF tbe_inv_init aligned64(1), of True 1]
    tbe_allocate_deallocate [OF tbe_inv_init aligned64(1), of True 0]
  by (simp add: tbe_init_def tbe_areNSlotsAvailable_def rmap_size_def) blast

section \<open>Addresses, containers, storage\<close>

text \<open>C21: \<open>bitSelect(small, big)\<close> is the value of the bits \<open>small\<close> to \<open>big\<close>, for every range below the top bit.\<close>

theorem bitSelect_selects_bits:
  assumes "s \<le> b + 1" "b + 1 < 64"
  shows "\<exists>w. bitSelect (int s) (int b) a = Inr w \<and> unat w = unat a mod 2 ^ (b + 1) div 2 ^ s \<and> unat w < 2 ^ (b + 1 - s)"
proof -
  obtain w where "bitSelect (int s) (int b) a = Inr w" "unat w = unat a mod 2 ^ (b + 1) div 2 ^ s"
    using bitSelect_value [OF assms] by blast
  then show ?thesis using bitSelect_bound [OF assms] by blast
qed

theorem bitSelect_selects_bits_witness: "\<exists>w. bitSelect (int 6) (int 8) 0x1C0 = Inr w \<and> unat w = 7"
  using bitSelect_selects_bits [of 6 8 "0x1C0"] by auto

text \<open>An address is its line address plus its offset in the line, \<open>line_address\<close> is idempotent, and two
  addresses have the same line address exactly if they are in the same block of 64 bytes.\<close>

lemma line_and_offset:
  "(\<exists>w. getOffset a = Inr w \<and> unat a = unat (line_address a) + unat w \<and> unat w < 64)
    \<and> line_address (line_address a) = line_address a \<and> isBlockAligned (line_address a)
    \<and> (line_address a = line_address b \<longleftrightarrow> unat a div 64 = unat b div 64)"
proof -
  obtain w where "getOffset a = Inr w" "unat w = unat a mod 64" using getOffset_value by blast
  then show ?thesis
    using unat_line_address [of a] isBlockAligned_iff [of "line_address a"] line_address_eq_iff [of a b]
    by (auto simp: div_mult_mod_eq)
qed

text \<open>The storage of a bank. A read after a write of the same row and column returns the data of the
  write, a read of any other place what was there before, and a place that was never written the tracer value.\<close>

lemma bank_read_after_write:
  assumes "bank_ok c b" "column p < NUM_COLS c" "column q < NUM_COLS c"
  shows "\<exists>b'. bank_write c p b = Inr b' \<and> bank_ok c b'
    \<and> (if column q = column p \<and> row q = row p
       then bank_read q b' = Inr (q\<lparr>data := data p, busPacketType := DATA\<rparr>)
       else bank_read q b' = bank_read q b)
    \<and> bank_read q (bank_init c) = Inr (q\<lparr>data := garbage, busPacketType := DATA\<rparr>)"
proof -
  obtain b' where b': "bank_write c p b = Inr b'" "bank_ok c b'"
    "\<forall>cl rw. cl < NUM_COLS c \<longrightarrow> stored b' cl rw = (if cl = column p \<and> rw = row p then data p else stored b cl rw)"
    using bank_write_ok [OF assms(1,2)] by blast
  then show ?thesis
    using bank_read_ok [OF b'(2) assms(3)] bank_read_ok [OF assms(1,3)]
      bank_read_ok [OF bank_ok_init assms(3)] stored_init [OF assms(3)] assms(3) by auto
qed

lemma bank_read_after_write_example:
  "\<exists>b'. bank_write ddr2_sg3E (BusPacket DATA 0 7 3 0 0 (Some 11)) (bank_init ddr2_sg3E) = Inr b'
    \<and> bank_read (BusPacket READ 0 7 3 0 0 None) b' = Inr (BusPacket DATA 0 7 3 0 0 (Some 11))"
  using bank_read_after_write [OF bank_ok_init, of "BusPacket DATA 0 7 3 0 0 (Some 11)" ddr2_sg3E "BusPacket READ 0 7 3 0 0 None"]
  by (auto simp: BusPacket_def)

text \<open>\<open>dramsim_log2\<close> is the least number of bits whose range holds the value, for all 32-bit values (so for
  a value that is not a power of two it rounds up).\<close>

lemma log2_is_least_width:
  assumes "v < 2 ^ 32"
  shows "v \<le> 2 ^ dramsim_log2 v \<and> (\<forall>n. v \<le> 2 ^ n \<longrightarrow> dramsim_log2 v \<le> n)"
  using dramsim_log2_least [OF assms] by blast

lemma log2_is_least_width_example: "(9 :: nat) \<le> 2 ^ dramsim_log2 9 \<and> dramsim_log2 9 \<le> 4"
proof -
  have "\<forall>n. (9 :: nat) \<le> 2 ^ n \<longrightarrow> dramsim_log2 9 \<le> n" using log2_is_least_width [of 9] by simp
  then have "dramsim_log2 9 \<le> 4" by (rule allE [of _ 4]) simp
  then show ?thesis using log2_is_least_width [of 9] by simp
qed

text \<open>C25: the vector implements lists: inserting at the ends, removing from the top, copying and reading are the
  list operations, none of them fails, and an index out of range fails its assertion.\<close>

theorem vector_refines_lists:
  assumes "vinv v" "0 \<le> k"
  shows "(\<exists>v'. insertAtBottom d x v = Inr v' \<and> vinv v' \<and> vlist v' = vlist v @ [x])
    \<and> (\<exists>v'. insertAtTop d x v = Inr v' \<and> vinv v' \<and> vlist v' = x # vlist v)
    \<and> vinv (removeFromTop k v) \<and> vlist (removeFromTop k v) = drop (nat k) (vlist v)
    \<and> vinv (vcopy d v) \<and> vlist (vcopy d v) = vlist v
    \<and> ref k v = (if k < int (vsize v) then Inr (vlist v ! nat k) else Inl Assert_failed)"
  using insertAtBottom_ok [OF assms(1), of d x] insertAtTop_ok [OF assms(1), of d x] removeFromTop_ok [OF assms]
    vcopy_ok [OF assms(1), of d] ref_in_range [OF assms] ref_out_of_range [of k v] by auto

theorem vector_refines_lists_witness:
  "(\<exists>v'. insertAtTop 0 5 (vempty :: nat vector) = Inr v' \<and> vlist v' = [5]) \<and> ref 2 (vempty :: nat vector) = Inl Assert_failed"
proof -
  have "vsize (vempty :: nat vector) = 0" by (simp add: vempty_def)
  then show ?thesis using vector_refines_lists [OF vinv_empty, of 2 0 "5 :: nat"] by auto
qed

section \<open>DRAMSim2: a rank\<close>

text \<open>A rank with one bank: its row is opened in cycle 0 and read in cycle 4.\<close>

definition one_bank :: dram_config where
  "one_bank = ddr2_sg3E\<lparr>NUM_BANKS := 1\<rparr>"

lemma one_bank_timing: "timing_ok one_bank"
  by (simp add: timing_ok_def one_bank_def RL_def CAS_TO_CAS_DELAY_def ACT_TO_CAS_DELAY_def u32_add_def u32_sub_def)

lemma quiet_ticks:
  assumes "rank_run c I R r" "outgoingDataPacket r = None" "readReturnCountdown r = []"
  shows "rank_run c I R (r\<lparr>rk_clock := rk_clock r + n\<rparr>)"
proof (induction n)
  case (Suc n)
  have "rank_update c (rank_step (r\<lparr>rk_clock := rk_clock r + n\<rparr>)) = Inr (None, r\<lparr>rk_clock := rk_clock r + Suc n\<rparr>)"
    using assms(2,3) by (simp add: rank_update_def bus_tick_def rank_step_def)
  from rank_run.tick [OF Suc this] show ?case by simp
qed (use assms(1) in simp)

lemma pending_ticks:
  assumes "rank_run c I R r" "timing_ok c"
  shows "\<exists>R' r'. rank_run c I R' r' \<and> rk_clock r' = rk_clock r + n"
proof (induction n)
  case (Suc n)
  then obtain R' r' where r': "rank_run c I R' r'" "rk_clock r' = rk_clock r + n" by blast
  have "pipeline c I R' r'" "spaced c I r'" using rank_run_inv [OF r'(1) assms(2)] by blast+
  then obtain d s where "rank_update c (rank_step r') = Inr (d, s)" "rk_clock s = rk_clock r' + 1"
    using tick_ok [OF assms(2)] by metis
  with rank_run.tick [OF r'(1) this(1)] r'(2) show ?case by fastforce
qed (use assms(1) in auto)

lemma one_read_run:
  "\<exists>R r. rank_run one_bank [(4, BusPacket DATA 64 0 5 0 0 None)] R r \<and> rk_clock r = 10"
proof -
  let ?s = "BankState\<lparr>currentBankState := RowActive, openRowAddress := 5,
     nextActivate := 18, nextRead := 4, nextWrite := 4, nextPrecharge := 14\<rparr>"
  let ?r0 = "(rank_init one_bank 0)\<lparr>bankStates := [?s]\<rparr>"
  have "rank_receive one_bank (BusPacket ACTIVATE 64 0 5 0 0 None) (rank_init one_bank 0) = Inr ?r0"
    by (simp add: rank_receive_def rank_ACTIVATE_def rank_init_def for_banks_def on_bank_def one_bank_def
       BankState_def upt_rec ACT_TO_CAS_DELAY_def u32_sub_def ddr2_sg3E_def)
  from rank_run.command [OF rank_run.start this] have "rank_run one_bank [] [] ?r0" by (simp add: is_read_def)
  from quiet_ticks [OF this, of 4] have r4: "rank_run one_bank [] [] (?r0\<lparr>rk_clock := 4\<rparr>)" by (simp add: rank_init_def)
  have "\<exists>r. rank_receive one_bank (BusPacket READ 64 0 5 0 0 None) (?r0\<lparr>rk_clock := 4\<rparr>) = Inr r
      \<and> rk_clock r = 4 \<and> readReturnPacket r = [BusPacket DATA 64 0 5 0 0 None]"
    by (simp add: rank_receive_def rank_READ_def rank_init_def for_banks_def on_bank_def one_bank_def
       read_data_def read_allowed_def BankState_def upt_rec ddr2_sg3E_def BusPacket_def)
  then obtain r where r: "rank_receive one_bank (BusPacket READ 64 0 5 0 0 None) (?r0\<lparr>rk_clock := 4\<rparr>) = Inr r"
     "rk_clock r = 4" "readReturnPacket r = [BusPacket DATA 64 0 5 0 0 None]" by blast
  from rank_run.read [OF r4 r(1)] r(3) have "rank_run one_bank [(4, BusPacket DATA 64 0 5 0 0 None)] [] r"
    by (simp add: is_read_def)
  from pending_ticks [OF this one_bank_timing, of 6] r(2) show ?thesis by auto
qed

text \<open>C26: a rank answers every read that it accepts, once, in order, exactly \<open>RL + BL / 2\<close> cycles after the
  command, whatever commands and power changes come in between: the packets handed to the controller are the
  answers of the accepted reads that are old enough. \<open>update\<close> never fails (no packet is put on a bus that is
  in use, and the lists of packets and countdowns agree).\<close>

theorem every_read_is_answered:
  assumes "rank_run c I R r" "timing_ok c"
  shows "R = map (answer c) (List.filter (\<lambda>x. fst x + RL c + BL c div 2 \<le> rk_clock r) I)
    \<and> (\<exists>d r'. rank_update c (rank_step r) = Inr (d, r'))"
proof -
  have "pipeline c I R r" "spaced c I r" using rank_run_inv [OF assms] by blast+
  then have "\<exists>d r'. rank_update c (rank_step r) = Inr (d, r')" using tick_ok [OF assms(2)] by metis
  then show ?thesis using reads_answered [OF assms] by blast
qed

theorem every_read_is_answered_witness:
  "\<exists>r. rank_run one_bank [(4, BusPacket DATA 64 0 5 0 0 None)] [(10, BusPacket DATA 64 0 5 0 0 None)] r
    \<and> (\<exists>d r'. rank_update one_bank (rank_step r) = Inr (d, r'))"
proof -
  obtain R r where r: "rank_run one_bank [(4, BusPacket DATA 64 0 5 0 0 None)] R r" "rk_clock r = 10"
    using one_read_run by blast
  have "RL one_bank = 4" "BL one_bank = 4" by (simp_all add: one_bank_def RL_def u32_add_def)
  with every_read_is_answered [OF r(1) one_bank_timing] r show ?thesis by (auto simp: answer_def)
qed

section \<open>DRAMSim2: the memory system\<close>

text \<open>The shipped configuration satisfies the hypotheses.\<close>

lemma ddr2_widths: "dramsim_log2 2 = 1" "dramsim_log2 8 = 3" "dramsim_log2 16384 = 14" "dramsim_log2 1024 = 10"
  using dramsim_log2_pow [of 1] dramsim_log2_pow [of 3] dramsim_log2_pow [of 14] dramsim_log2_pow [of 10] by simp_all

lemma ddr2_widths_ok: "widths_ok ddr2_sg3E"
  by (simp add: widths_ok_def field_widths_def rankBitWidth_def bankBitWidth_def rowBitWidth_def colBitWidth_def
      byteOffsetWidth_def ddr2_widths Let_def ddr2_sg3E_def)

lemma ddr2_latencies: "RL ddr2_sg3E = 4" "WL ddr2_sg3E = 3" "CAS_TO_CAS_DELAY ddr2_sg3E = 2" "ACT_TO_CAS_DELAY ddr2_sg3E = 4"
  "READ_TO_PRE_DELAY ddr2_sg3E = 3" "READ_AUTOPRE_DELAY ddr2_sg3E = 7" "WRITE_TO_PRE_DELAY ddr2_sg3E = 10"
  "WRITE_AUTOPRE_DELAY ddr2_sg3E = 14"
  by (simp_all add: RL_def WL_def CAS_TO_CAS_DELAY_def ACT_TO_CAS_DELAY_def READ_TO_PRE_DELAY_def READ_AUTOPRE_DELAY_def
      WRITE_TO_PRE_DELAY_def WRITE_AUTOPRE_DELAY_def tRTP_or_2_def u32_add_def u32_sub_def ddr2_sg3E_def)

lemma ddr2_system_ok: "system_ok ddr2_sg3E" "timing_ok ddr2_sg3E" "refresh_period_ok ddr2_sg3E" "sizes_ok ddr2_sg3E"
  using ddr2_widths_ok
  by (simp_all add: system_ok_def timing_ok_def refresh_period_ok_def sizes_ok_def pow2_def latencies_ok_def ddr2_widths
      ddr2_latencies) (simp_all add: ddr2_sg3E_def)

text \<open>C27: the address mapping is a bijection between the lines of the memory and its locations, for each of the
  six schemes: every location (a rank, bank, row and column within the widths) is the place of an address below
  the capacity, and of all the bytes of its line; and the location of an address below the capacity determines
  its line.\<close>

theorem address_mapping_is_bijective:
  assumes "widths_ok c"
  shows "(\<forall>l k. loc_ok c l \<and> k < 2 ^ byteOffsetWidth c \<longrightarrow>
      addressMapping c (address_of c l + k) = l \<and> address_of c l + k < capacity c)
    \<and> (\<forall>a < capacity c. loc_ok c (addressMapping c a)
         \<and> address_of c (addressMapping c a) = a - a mod 2 ^ byteOffsetWidth c)"
  using mapping_of_address [OF assms] address_of_mapping [OF assms] addressMapping_loc_ok [OF assms] by blast

theorem address_mapping_is_bijective_witness:
  "addressMapping ddr2_sg3E (address_of ddr2_sg3E (loc 1 5 77 3) + 6) = loc 1 5 77 3"
proof -
  have "loc_ok ddr2_sg3E (loc 1 5 77 3)" "(6 :: nat) < 2 ^ byteOffsetWidth ddr2_sg3E"
    by (simp_all add: loc_ok_def loc_def rankBitWidth_def bankBitWidth_def rowBitWidth_def colBitWidth_def
        byteOffsetWidth_def ddr2_widths) (simp add: ddr2_sg3E_def ddr2_widths)
  then show ?thesis using address_mapping_is_bijective [OF ddr2_widths_ok] by blast
qed

text \<open>C28: the memory system never stops with an error. Whatever reads and writes a simulator adds and however the
  configuration combines row buffer policy, queuing structure, scheduling policy, address mapping and power-down:
  every rank accepts every command it is sent (its bank is in the right state and the time has come), neither bus
  ever collides, no queue overflows and no index is out of range, so \<open>update\<close> returns in every reachable state.\<close>

theorem memory_system_never_fails:
  assumes "ms_run c s" "system_ok c"
  shows "\<exists>s'. ms_update c s = Inr s'"
  using ms_update_ok [OF ms_run_inv [OF assms] assms(2)] by blast

theorem memory_system_never_fails_witness:
  "\<exists>s s'. ms_init ddr2_sg3E = Inr s \<and> ms_update ddr2_sg3E (snd (ms_addTransaction ddr2_sg3E False 64 s)) = Inr s'"
proof -
  obtain s where s: "ms_init ddr2_sg3E = Inr s" using ms_inv_init [OF ddr2_system_ok(1)] by blast
  from memory_system_never_fails [OF ms_run.add [OF ms_run.start [OF s], of False 64] ddr2_system_ok(1)] s show ?thesis by blast
qed

text \<open>C29: refreshes are requested on schedule. Rank \<open>i\<close> is due in the cycles \<open>STAGGER * (i + 1)\<close> plus a multiple of the
  refresh period. In every reachable state each countdown holds exactly the number of cycles to the rank's next due
  cycle (so none wraps around and none is missed), and one call of \<open>update\<close> requests the refreshes that are due and no
  others: when rank \<open>i\<close> is due, afterwards either the command queue has a request for a refresh of rank \<open>i\<close>, or it has
  none any more because \<open>update\<close> has put the refresh command for rank \<open>i\<close> on the command bus; when no rank is due, a
  request that was there is still there or has been answered in the same way, and without a request no refresh is
  sent.\<close>

theorem refreshes_on_schedule:
  assumes "ms_run c s" "system_ok c" "refresh_period_ok c" "i < NUM_RANKS c" "ms_update c s = Inr s'"
  shows "(\<exists>k. mc_clock (memoryController s) \<le> due_at c i k
        \<and> refreshCountdown (memoryController s) ! i = due_at c i k - mc_clock (memoryController s)
        \<and> (\<forall>l. mc_clock (memoryController s) \<le> due_at c i l \<longrightarrow> due_at c i k \<le> due_at c i l))
    \<and> (refresh_due c i (mc_clock (memoryController s)) \<longrightarrow>
         request (memoryController s') = Some i \<and> (\<forall>j. \<not> refresh_sent (memoryController s') j)
         \<or> request (memoryController s') = None \<and> (\<forall>j. refresh_sent (memoryController s') j \<longleftrightarrow> j = i))
    \<and> ((\<forall>j < NUM_RANKS c. \<not> refresh_due c j (mc_clock (memoryController s))) \<longrightarrow>
         request (memoryController s') = request (memoryController s) \<and> (\<forall>j. \<not> refresh_sent (memoryController s') j)
         \<or> request (memoryController s') = None
           \<and> (\<forall>j. refresh_sent (memoryController s') j \<longleftrightarrow> request (memoryController s) = Some j))"
proof -
  have z: "sizes_ok c" using assms(2) by (simp add: system_ok_def)
  note D = due_requested [OF assms(1-3,5,4), unfolded served_def]
  show ?thesis
  proof (intro conjI impI)
    show "\<exists>k. mc_clock (memoryController s) \<le> due_at c i k
        \<and> refreshCountdown (memoryController s) ! i = due_at c i k - mc_clock (memoryController s)
        \<and> (\<forall>l. mc_clock (memoryController s) \<le> due_at c i l \<longrightarrow> due_at c i k \<le> due_at c i l)"
      by (rule refresh_request(3) [OF ms_run_schedule [OF assms(1,3) z] assms(3,4)])
  qed (use D in auto)
qed

text \<open>The first cycle of the DDR2 memory: no rank is due, no refresh is requested or sent.\<close>

theorem refreshes_on_schedule_witness:
  "\<exists>s s'. ms_init ddr2_sg3E = Inr s \<and> ms_update ddr2_sg3E s = Inr s'
    \<and> request (memoryController s') = None \<and> (\<forall>j. \<not> refresh_sent (memoryController s') j)"
proof -
  obtain s where s: "ms_init ddr2_sg3E = Inr s" using ms_inv_init [OF ddr2_system_ok(1)] by blast
  obtain s' where s': "ms_update ddr2_sg3E s = Inr s'"
    using ms_update_ok [OF ms_run_inv [OF ms_run.start [OF s] ddr2_system_ok(1)] ddr2_system_ok(1)] by blast
  have "mc_clock (memoryController s) = 0" and q: "request (memoryController s) = None"
    using s by (auto simp: ms_init_def mc_init_def rbind_eq_Inr request_def cq_init_def)
  then have "\<not> refresh_due ddr2_sg3E j (mc_clock (memoryController s))" for j
    by (simp add: refresh_due_def) (simp add: ddr2_sg3E_def)
  then show ?thesis using refreshes_on_schedule [OF ms_run.start [OF s] ddr2_system_ok(1,3) _ s', of 1] s s' q
    by (auto simp: ddr2_sg3E_def)
qed

text \<open>C30: no read is lost, answered twice or answered with another address: at any time the addresses of the
  accepted reads are those of the calls of the read callback together with those of the reads on their way (in the
  transaction queues, the command queue, on the command bus, in a rank, or among the returned data), with
  multiplicity.\<close>

theorem reads_returned_or_on_their_way:
  assumes "ms_reads c S s" "system_ok c" "timing_ok c"
  shows "S = returned (callbacks (memoryController s)) + outstanding s"
  by (rule reads_accounted [OF assms])

theorem reads_returned_or_on_their_way_witness:
  "\<exists>s. outstanding s = {#64#}"
proof -
  obtain s where s: "ms_init ddr2_sg3E = Inr s" using ms_inv_init [OF ddr2_system_ok(1)] by blast
  let ?r = "RegisterCallbacks True False s"
  obtain ok s' where s': "ms_addTransaction ddr2_sg3E False 64 ?r = (ok, s')" by force
  have c: "callbacks (memoryController s) = []" using s by (auto simp: ms_init_def mc_init_def rbind_eq_Inr)
  have a: "ok" "callbacks (memoryController s') = callbacks (memoryController s)"
    using s' by (auto simp: ms_addTransaction_def mc_addTransaction_def RegisterCallbacks_def Let_def split: if_splits)
  from ms_reads.add [OF ms_reads.start [OF s, of False] s'] a(1) have "ms_reads ddr2_sg3E {#64#} s'" by simp
  from reads_returned_or_on_their_way [OF this ddr2_system_ok(1,2)] show ?thesis using a c by auto
qed

section \<open>The simple network\<close>

text \<open>C31: the iterated minimum of \<open>shortest_path\<close> ends and returns exactly the matrix of the reference definition:
  entry \<open>(i, j)\<close> is the least cost of a walk over the links from \<open>i\<close> to \<open>j\<close>. The weights are not negative and below
  \<open>2 ^ 30\<close>, so that no sum of two entries leaves the range of an \<open>int\<close>. In particular the loop that runs until
  nothing changes does not depend on the order of its in-place updates.\<close>

theorem shortest_path_is_cheapest_walk:
  assumes "weights_ok n w"
  shows "shortest_path w = Inr (map (\<lambda>i. map (\<lambda>j. cheapest w n i j) [0..<n]) [0..<n])"
  by (rule shortest_path_reference [OF assms])

theorem shortest_path_is_cheapest_walk_witness:
  "shortest_path [[0, 9, 2], [9, 0, 3], [9, 1, 0]] = Inr [[0, 3, 2], [9, 0, 3], [9, 1, 0]]"
proof -
  have "weights_ok 3 [[0, 9, 2], [9, 0, 3], [9, 1, 0]]"
    by (auto simp: weights_ok_def square_def mat_def less_Suc_eq numeral_3_eq_3)
  moreover have "map (\<lambda>i. map (\<lambda>j. cheapest [[0, 9, 2], [9, 0, 3], [9, 1, 0]] 3 i j) [0..<3]) [0..<3] = [[0, 3, 2], [9, 0, 3], [9, 1, 0]]"
    by code_simp
  ultimately show ?thesis using shortest_path_is_cheapest_walk [of 3 "[[0, 9, 2], [9, 0, 3], [9, 1, 0]]"] by simp
qed

text \<open>C32: routing delivers. For a crossbar or a hierarchical network (with at least two children to a switch) the
  constructor and \<open>createLinks\<close> return; from every input \<open>p\<close> of the network, whatever links with the destination \<open>f\<close> in
  their routing table entries a message follows, adaptively or not, it is never stuck or sent round in circles: from
  where it is it can go on to \<open>f\<close>, and all its ways there have one and the same latency.\<close>

theorem every_node_reaches_every_node:
  assumes "tree_config c"
  shows "\<exists>t calls. Topology c (NUM_NODES c * MachineType_NUM c) = Inr t \<and> link_calls c t = Inr calls
    \<and> (\<forall>f \<in> all_dests c. \<forall>p < NUM_NODES c * MachineType_NUM c. \<forall>i. (p, i) \<in> (hops calls f)\<^sup>* \<longrightarrow>
         (\<exists>l < INFINITE_LATENCY. \<forall>l'. route calls (out_switch c (NUM_NODES c * MachineType_NUM c) f) f i l' \<longleftrightarrow> l' = l))"
  by (rule tree_routes [OF assms])

text \<open>The witness: 16 nodes with two machines each, a tree with four children to a switch.\<close>

theorem every_node_reaches_every_node_witness:
  "\<exists>t calls l. Topology small_net 32 = Inr t \<and> link_calls small_net t = Inr calls \<and> route calls 63 (1, 15) 0 l"
proof -
  have "tree_config small_net"
    by (simp add: tree_config_def small_net_def latency_ok_def net_sizes_ok_def INFINITE_LATENCY_def)
  moreover have "(1, 15) \<in> all_dests small_net" "NUM_NODES small_net * MachineType_NUM small_net = 32"
    "out_switch small_net 32 (1, 15) = 63" by (simp_all add: all_dests_def small_net_def out_switch_def)
  ultimately show ?thesis using every_node_reaches_every_node [of small_net] by fastforce
qed

text \<open>C33: a switch loses and duplicates no destination. When every destination of a message is in some entry of the
  routing table, \<open>route_message\<close> passes its assertion and splits the destinations: the messages go out on different
  links, each with destinations of its link's entry, and every destination of the message is in exactly one of them,
  in whatever order the links are tried.\<close>

theorem switch_shares_destinations_out:
  assumes "table_ok (params e) ps" "0 < NUM_NODES (params e)" "NUM_NODES (params e) < 32"
    "nd_ok (MachineType_NUM (params e)) (NUM_NODES (params e)) D"
    "dests D \<subseteq> (\<Union>entry \<in> set (m_routing_table ps). dests entry)"
  shows "\<exists>outputs. route_message e ps D = Inr outputs \<and> shares_out (params e) ps D outputs"
  by (rule route_message_ok [OF assms])

text \<open>The witness: a broadcast to three nodes at a switch whose routing table entries overlap.\<close>

definition broadcast_of :: "32 word \<Rightarrow> net_dest" where
  "broadcast_of b = \<lparr>m_sets = [\<lparr>rs_size = 3, rs_bits = b, rs_mask = 7\<rparr>]\<rparr>"

definition small_switch :: perfect_switch where
  "small_switch = \<lparr>ps_switch_id = 0, ps_in = [], ps_out = [[], [], []], m_routing_table = [broadcast_of 1, broadcast_of 3, broadcast_of 6],
     m_link_order = [\<lparr>m_link = 1, m_value = 0\<rparr>, \<lparr>m_link = 0, m_value = 0\<rparr>, \<lparr>m_link = 2, m_value = 0\<rparr>],
     ps_virtual_networks = 1, m_round_robin_start = 0\<rparr>"

definition small_env :: net_env where
  "small_env = \<lparr>params = small_net \<lparr>MachineType_NUM := 1, NUM_NODES := 3\<rparr>, sort_links = (\<lambda>xs. xs), MessageSizeType_to_int = int,
     over_threshold = (\<lambda>a b. False)\<rparr>"

theorem switch_shares_destinations_out_witness:
  "\<exists>outputs. route_message small_env small_switch (broadcast_of 7) = Inr outputs
     \<and> (\<Sum>(l, d) \<leftarrow> outputs. mset_set (dests d)) = {#(0, 0), (0, 1), (0, 2)#}"
proof -
  have ok: "nd_ok 1 3 (broadcast_of b)" if "b \<in> {1, 3, 6, 7}" for b
    using that by (auto simp: nd_ok_def broadcast_of_def set_ok_def mask_eq_decr_exp bits_in_range_def)
  have d: "dests (broadcast_of 7) = {(0, 0), (0, 1), (0, 2)}" "dests (broadcast_of 3) = {(0, 0), (0, 1)}"
    "dests (broadcast_of 6) = {(0, 1), (0, 2)}"
    by (auto simp: dests_def broadcast_of_def elems_def bit_numeral_rec numeral_One bit_1_iff split: nat.splits)
  have "table_ok (params small_env) small_switch"
    using ok by (simp add: table_ok_def order_ok_def small_switch_def small_env_def small_net_def upt_rec)
  moreover have "dests (broadcast_of 7) \<subseteq> (\<Union>entry \<in> set (m_routing_table small_switch). dests entry)"
    by (simp add: small_switch_def d)
  ultimately have "\<exists>outputs. route_message small_env small_switch (broadcast_of 7) = Inr outputs
      \<and> shares_out (params small_env) small_switch (broadcast_of 7) outputs"
    by (intro switch_shares_destinations_out) (use ok in \<open>simp_all add: small_env_def small_net_def\<close>)
  then show ?thesis by (auto simp: shares_out_def d)
qed

end
